(* ===== verification/Prelude.thy ===== *)
theory Prelude
  imports Main "HOL-Library.Word"
begin

text \<open>
  Shared vocabulary of the development: the machine integers of the i386 kernel
  (\<open>unsigned\<close> and \<open>long\<close> are 32 bits, \<open>u_char\<close> is 8 bits), the outcome of a kernel
  routine that can panic or follow a bad pointer, the error numbers the modelled
  routines return, and the generic lemmas on words and lists the components use.
\<close>

section \<open>Machine integers\<close>

type_synonym u32 = "32 word"
type_synonym u16 = "16 word"
type_synonym u8 = "8 word"

text \<open>Addresses of the structures in a store.\<close>

type_synonym addr = nat

named_theorems word_nat \<open>rewriting comparisons and arithmetic of words to natural numbers\<close>

lemmas [word_nat] = word_le_nat_alt word_less_nat_alt word_unat_eq_iff unat_word_ariths

lemma unat32_less [simp]: "unat (x :: 32 word) < 4294967296"
  using unsigned_less [of x] by simp

lemma unat32_le [simp]: "unat (x :: 32 word) \<le> 4294967295"
  using unat32_less [of x] by linarith

lemma unat32_plus: "unat (x :: 32 word) + unat y < 4294967296 \<Longrightarrow> unat (x + y) = unat x + unat y"
  by (simp add: unat_word_ariths)

lemma unat32_Suc: "unat (x :: 32 word) < 4294967295 \<Longrightarrow> unat (x + 1) = Suc (unat x)"
  by (simp add: unat_word_ariths)

lemma unat32_minus: "y \<le> x \<Longrightarrow> unat (x - y :: 32 word) = unat x - unat y"
  by (simp add: unat_sub_if_size word_le_nat_alt)

lemma sint32_small:
  assumes "unat (x :: 32 word) < 2147483648"
  shows "sint x = int (unat x)"
proof -
  have "int (unat x) < int 2147483648" using assms by (simp only: of_nat_less_iff)
  then have b: "- (2 ^ 31) \<le> uint x" "uint x < 2 ^ 31"
    using order_trans [of "- (2 ^ 31)" 0 "uint x"] by simp_all
  have "sint x = signed_take_bit 31 (uint x)" by (simp add: sint_uint)
  also have "\<dots> = uint x"
    using b by (rule signed_take_bit_int_eq_self)
  finally show ?thesis by (simp only: uint_nat)
qed

section \<open>Process states\<close>

datatype pstat = SNONE | SSLEEP | SWAIT | SRUN | SIDL | SZOMB | SSTOP

section \<open>Error numbers\<close>

definition EPERM :: int where "EPERM = 1"
definition EACCES :: int where "EACCES = 13"
definition ESRCH :: int where "ESRCH = 3"
definition EINVAL :: int where "EINVAL = 22"
definition EFAULT :: int where "EFAULT = 14"
definition ENAMETOOLONG :: int where "ENAMETOOLONG = 63"

section \<open>Outcomes of kernel routines\<close>

text \<open>
  \<open>Done\<close> is a normal return; \<open>Panic\<close> is a call of \<open>panic()\<close> with its message; \<open>Fault\<close> is a
  reference through a null or out-of-bounds pointer.
\<close>

datatype 'a kres = Done 'a | Panic string | Fault

fun kbind :: "'a kres \<Rightarrow> ('a \<Rightarrow> 'b kres) \<Rightarrow> 'b kres" where
  "kbind (Done x) f = f x"
| "kbind (Panic m) f = Panic m"
| "kbind Fault f = Fault"

definition kmap :: "('a \<Rightarrow> 'b) \<Rightarrow> 'a kres \<Rightarrow> 'b kres" where
  "kmap f r = kbind r (\<lambda>x. Done (f x))"

lemma kbind_Done_iff: "kbind r f = Done y \<longleftrightarrow> (\<exists>x. r = Done x \<and> f x = Done y)"
  by (cases r) auto

lemma kmap_simps [simp]:
  "kmap f (Done x) = Done (f x)" "kmap f (Panic m) = Panic m" "kmap f Fault = Fault"
  by (simp_all add: kmap_def)

lemma kmap_Done_iff: "kmap f r = Done y \<longleftrightarrow> (\<exists>x. r = Done x \<and> y = f x)"
  by (cases r) auto

text \<open>Following a pointer: \<open>None\<close> stands for a null or dangling one.\<close>

definition deref :: "'a option \<Rightarrow> 'a kres" where
  "deref x = (case x of None \<Rightarrow> Fault | Some y \<Rightarrow> Done y)"

lemma deref_simps [simp]: "deref (Some x) = Done x" "deref None = Fault"
  by (simp_all add: deref_def)

lemma deref_Done_iff: "deref x = Done y \<longleftrightarrow> x = Some y"
  by (cases x) auto

text \<open>A loop over a list that threads a state.\<close>

fun kfold :: "('a \<Rightarrow> 's \<Rightarrow> 's kres) \<Rightarrow> 'a list \<Rightarrow> 's \<Rightarrow> 's kres" where
  "kfold f [] s = Done s"
| "kfold f (x # xs) s = kbind (f x s) (kfold f xs)"

end
