(* ===== verification/Lock.thy ===== *)
theory Lock
  imports Prelude
begin

text \<open>
  The sleep locks of \<open>kern/lock.c\<close>.  A routine that can sleep is modelled by its segments: what
  it does from its call, or from a wakeup, up to its return or its next \<open>tsleep\<close>.  A segment
  returns whether it returned (and with what) or went to sleep (and in which loop), whether it
  called \<open>wakeup\<close>, and the lock.  The segments are then interleaved between the threads of a
  step relation, because the kernel switches threads only in \<open>tsleep\<close>.
\<close>

section \<open>The lock\<close>

text \<open>
  \<open>thread\<close> is \<open>None\<close> for \<open>&nothread\<close>.  The bit fields keep their widths: 16 bits of readers and
  8 bits of recursion depth.
\<close>

record lock =
  read_count :: u16
  recursion_depth :: u8
  want_write :: bool
  want_upgrade :: bool
  waiting :: bool
  thread :: "nat option"

text \<open>The four loops a thread can sleep in.\<close>

datatype lstage = WantWrite | WantDrain | WantRead | WantUpgrade

datatype lret = Ret bool | Sleep lstage

type_synonym lres = "lret \<times> bool \<times> lock"


text \<open>Sleeping in a loop sets \<open>waiting\<close>; a release wakes everyone when it is set.\<close>

definition lsleep :: "lstage \<Rightarrow> lock \<Rightarrow> lres" where
  "lsleep st l = (Sleep st, False, l\<lparr>waiting := True\<rparr>)"

definition lwake :: "bool \<Rightarrow> lock \<Rightarrow> lres" where
  "lwake r l = (if waiting l then (Ret r, True, l\<lparr>waiting := False\<rparr>) else (Ret r, False, l))"

definition lock_write_drain :: "lock \<Rightarrow> lres" where
  "lock_write_drain l =
     (if read_count l \<noteq> 0 \<or> want_upgrade l then lsleep WantDrain l else (Ret True, False, l))"

definition lock_write_wait :: "lock \<Rightarrow> lres" where
  "lock_write_wait l =
     (if want_write l then lsleep WantWrite l else lock_write_drain (l\<lparr>want_write := True\<rparr>))"

definition lock_write :: "nat \<Rightarrow> lock \<Rightarrow> lres" where
  "lock_write curproc l =
     (if thread l = Some curproc
      then (Ret True, False, l\<lparr>recursion_depth := recursion_depth l + 1\<rparr>)
      else lock_write_wait l)"

definition lock_done :: "lock \<Rightarrow> lres" where
  "lock_done l = lwake True
     (if read_count l \<noteq> 0 then l\<lparr>read_count := read_count l - 1\<rparr>
      else if recursion_depth l \<noteq> 0 then l\<lparr>recursion_depth := recursion_depth l - 1\<rparr>
      else if want_upgrade l then l\<lparr>want_upgrade := False\<rparr>
      else l\<lparr>want_write := False\<rparr>)"

definition lock_read_wait :: "lock \<Rightarrow> lres" where
  "lock_read_wait l =
     (if want_write l \<or> want_upgrade l then lsleep WantRead l
      else (Ret True, False, l\<lparr>read_count := read_count l + 1\<rparr>))"

definition lock_read :: "nat \<Rightarrow> lock \<Rightarrow> lres" where
  "lock_read curproc l =
     (if thread l = Some curproc then (Ret True, False, l\<lparr>read_count := read_count l + 1\<rparr>)
      else lock_read_wait l)"

text \<open>The last loop of \<open>lock_read_to_write\<close> and of \<open>lock_try_read_to_write\<close>; \<open>r\<close> is the value returned after it.\<close>

definition lock_upgrade_wait :: "bool \<Rightarrow> lock \<Rightarrow> lres" where
  "lock_upgrade_wait r l =
     (if read_count l \<noteq> 0 then lsleep WantUpgrade l else (Ret r, False, l))"

definition lock_read_to_write :: "nat \<Rightarrow> lock \<Rightarrow> lres" where
  "lock_read_to_write curproc l0 =
     (let l = l0\<lparr>read_count := read_count l0 - 1\<rparr> in
      if thread l = Some curproc
      then (Ret False, False, l\<lparr>recursion_depth := recursion_depth l + 1\<rparr>)
      else if want_upgrade l then lwake True l
      else lock_upgrade_wait False (l\<lparr>want_upgrade := True\<rparr>))"

definition lock_write_to_read :: "lock \<Rightarrow> lres" where
  "lock_write_to_read l0 = lwake True
     (let l = l0\<lparr>read_count := read_count l0 + 1\<rparr> in
      if recursion_depth l \<noteq> 0 then l\<lparr>recursion_depth := recursion_depth l - 1\<rparr>
      else if want_upgrade l then l\<lparr>want_upgrade := False\<rparr>
      else l\<lparr>want_write := False\<rparr>)"

definition lock_try_write :: "nat \<Rightarrow> lock \<Rightarrow> lres" where
  "lock_try_write curproc l =
     (if thread l = Some curproc
      then (Ret True, False, l\<lparr>recursion_depth := recursion_depth l + 1\<rparr>)
      else if want_write l \<or> want_upgrade l \<or> read_count l \<noteq> 0 then (Ret False, False, l)
      else (Ret True, False, l\<lparr>want_write := True\<rparr>))"

definition lock_try_read :: "nat \<Rightarrow> lock \<Rightarrow> lres" where
  "lock_try_read curproc l =
     (if thread l = Some curproc then (Ret True, False, l\<lparr>read_count := read_count l + 1\<rparr>)
      else if want_write l \<or> want_upgrade l then (Ret False, False, l)
      else (Ret True, False, l\<lparr>read_count := read_count l + 1\<rparr>))"

definition lock_try_read_to_write :: "nat \<Rightarrow> lock \<Rightarrow> lres" where
  "lock_try_read_to_write curproc l =
     (if thread l = Some curproc
      then (Ret True, False, l\<lparr>read_count := read_count l - 1, recursion_depth := recursion_depth l + 1\<rparr>)
      else if want_upgrade l then (Ret False, False, l)
      else lock_upgrade_wait True (l\<lparr>want_upgrade := True, read_count := read_count l - 1\<rparr>))"

definition lock_set_recursive :: "nat \<Rightarrow> lock \<Rightarrow> lock kres" where
  "lock_set_recursive curproc l =
     (if \<not> want_write l then Panic ''lock_set_recursive: don't have write lock''
      else if thread l \<noteq> Some curproc \<and> thread l \<noteq> None
      then Panic ''lock_set_recursive: already set recursive''
      else Done (l\<lparr>thread := Some curproc\<rparr>))"

definition lock_clear_recursive :: "nat \<Rightarrow> lock \<Rightarrow> lock kres" where
  "lock_clear_recursive curproc l =
     (if thread l \<noteq> Some curproc then Panic ''lock_clear_recursive: wrong thread''
      else Done (if recursion_depth l = 0 then l\<lparr>thread := None\<rparr> else l))"

lemmas lock_segments =
  lsleep_def lwake_def lock_write_drain_def lock_write_wait_def lock_write_def lock_done_def
  lock_read_wait_def lock_read_def lock_upgrade_wait_def lock_read_to_write_def
  lock_write_to_read_def lock_try_write_def lock_try_read_def lock_try_read_to_write_def

section \<open>Threads sharing a lock\<close>









section \<open>The invariant\<close>

abbreviation cnt :: "('a \<Rightarrow> bool) \<Rightarrow> 'a list \<Rightarrow> nat" where
  "cnt P xs \<equiv> length (filter P xs)"






















section \<open>Properties\<close>











section \<open>Recursive mode\<close>

text \<open>The requests a thread makes on a lock bound to it, and their effect on the lock.\<close>

datatype rreq = ReqWrite | ReqRead | ReqTryWrite | ReqTryRead

fun rec_acquire :: "nat \<Rightarrow> rreq \<Rightarrow> lock \<Rightarrow> lres" where
  "rec_acquire p ReqWrite l = lock_write p l"
| "rec_acquire p ReqRead l = lock_read p l"
| "rec_acquire p ReqTryWrite l = lock_try_write p l"
| "rec_acquire p ReqTryRead l = lock_try_read p l"

definition rec_acquires :: "nat \<Rightarrow> rreq list \<Rightarrow> lock \<Rightarrow> lock" where
  "rec_acquires p rs l = fold (\<lambda>r l. snd (snd (rec_acquire p r l))) rs l"

definition rec_releases :: "nat \<Rightarrow> lock \<Rightarrow> lock" where
  "rec_releases n l = ((\<lambda>l. snd (snd (lock_done l))) ^^ n) l"

fun is_rreq :: "rreq \<Rightarrow> bool" where
  "is_rreq ReqRead = True"
| "is_rreq ReqTryRead = True"
| "is_rreq r = False"

lemma rec_acquire_granted:
  "thread l = Some p \<Longrightarrow> rec_acquire p r l = (Ret True, False,
     if is_rreq r then l\<lparr>read_count := read_count l + 1\<rparr>
     else l\<lparr>recursion_depth := recursion_depth l + 1\<rparr>)"
  by (cases r) (simp_all add: lock_segments)

lemma rec_acquires_counts:
  "thread l = Some p \<Longrightarrow>
   rec_acquires p rs l = l\<lparr>read_count := read_count l + of_nat (cnt is_rreq rs),
     recursion_depth := recursion_depth l + of_nat (cnt (\<lambda>r. \<not> is_rreq r) rs)\<rparr>"
  by (induction rs arbitrary: l) (simp_all add: rec_acquires_def rec_acquire_granted)

lemma rec_releases_Suc: "rec_releases (Suc n) l = rec_releases n (snd (snd (lock_done l)))"
  by (simp add: rec_releases_def funpow_Suc_right del: funpow.simps)

lemma of_nat_Suc_nz: "Suc n < 2 ^ LENGTH('a) \<Longrightarrow> (1 :: 'a :: len word) + of_nat n \<noteq> 0"
  by (metis less_imp_le_nat nat_neq_iff of_nat_Suc of_nat_inverse unsigned_0 zero_less_Suc word_of_nat_eq_0_iff nat_dvd_not_less)

lemma rec_releases_reads:
  "n < 65536 \<Longrightarrow> \<not> waiting l \<Longrightarrow>
   rec_releases (n + k) (l\<lparr>read_count := of_nat n\<rparr>) = rec_releases k (l\<lparr>read_count := 0\<rparr>)"
proof (induction n)
  case (Suc n)
  then show ?case
    using of_nat_Suc_nz [of n, where 'a = 16] by (simp add: rec_releases_Suc lock_segments)
qed simp

lemma rec_releases_writes:
  "unat (recursion_depth l) + n < 256 \<Longrightarrow> \<not> waiting l \<Longrightarrow> read_count l = 0 \<Longrightarrow>
   rec_releases n (l\<lparr>recursion_depth := recursion_depth l + of_nat n\<rparr>) = l"
proof (induction n)
  case (Suc n)
  have "unat (recursion_depth l + of_nat (Suc n)) = unat (recursion_depth l) + Suc n"
    using Suc.prems(1) by (simp add: unat_word_ariths unat_of_nat del: of_nat_Suc)
  then have "recursion_depth l + of_nat (Suc n) \<noteq> 0"
    by (metis Zero_not_Suc add_Suc_right unsigned_0)
  then show ?case using Suc by (simp add: rec_releases_Suc lock_segments add.assoc)
qed (simp add: rec_releases_def)

text \<open>
  nested requests of the thread a lock is bound to never block, and as many \<open>lock_done\<close> calls
  undo them.  From a lock without readers or sleepers, any sequence of fewer than 65536 reads and
  of writes that fit the 8-bit depth is granted, and the same number of releases restores the lock.
\<close>

theorem lock_recursive_nesting:
  assumes "thread l = Some p" "read_count l = 0" "\<not> waiting l"
    and "cnt is_rreq rs < 65536" "unat (recursion_depth l) + cnt (\<lambda>r. \<not> is_rreq r) rs < 256"
  shows "(\<forall>r l'. thread l' = Some p \<longrightarrow> fst (rec_acquire p r l') = Ret True) \<and>
         rec_releases (length rs) (rec_acquires p rs l) = l"
proof -
  let ?a = "cnt is_rreq rs" and ?b = "cnt (\<lambda>r. \<not> is_rreq r) rs"
  let ?l = "l\<lparr>recursion_depth := recursion_depth l + of_nat ?b\<rparr>"
  have len: "length rs = ?a + ?b" by (simp add: sum_length_filter_compl)
  have "rec_acquires p rs l = ?l\<lparr>read_count := of_nat ?a\<rparr>"
    using assms(1,2) by (simp add: rec_acquires_counts)
  then have "rec_releases (length rs) (rec_acquires p rs l) = rec_releases ?b (?l\<lparr>read_count := 0\<rparr>)"
    unfolding len using rec_releases_reads [of ?a ?l ?b] assms(3,4) by simp
  also have "?l\<lparr>read_count := 0\<rparr> = ?l" using assms(2) by (simp)
  also have "rec_releases ?b ?l = l" using assms by (intro rec_releases_writes) auto
  finally show ?thesis by (simp add: rec_acquire_granted)
qed

theorem lock_recursive_nesting_witness:
  "let l = \<lparr>read_count = 0, recursion_depth = 0, want_write = True, want_upgrade = False,
      waiting = False, thread = Some 4\<rparr> in
   rec_releases 3 (rec_acquires 4 [ReqWrite, ReqRead, ReqTryWrite] l) = l"
  using lock_recursive_nesting [of "\<lparr>read_count = 0, recursion_depth = 0, want_write = True, want_upgrade = False,
      waiting = False, thread = Some 4\<rparr>" 4 "[ReqWrite, ReqRead, ReqTryWrite]"]
  by (simp add: numeral_3_eq_3)

end
