(* ===== verification/Interfaces.thy ===== *)
theory Interfaces
  imports Prelude
begin

text \<open>
  The contracts between the components, as locales.  Each locale fixes the operations a client
  calls, assumes the laws their provider promises, and proves what a client may conclude.  The
  theory of the provider interprets it on the model of the code.
\<close>

section \<open>Pools of extents\<close>

text \<open>An extent handed out by a pool is a first unit and a size.\<close>

type_synonym extent = "u32 \<times> u32"

definition ext_units :: "extent \<Rightarrow> nat set" where
  "ext_units = (\<lambda>(loc, sz). {unat loc..<unat loc + unat sz})"

fun exts_disjoint :: "extent list \<Rightarrow> bool" where
  "exts_disjoint [] \<longleftrightarrow> True"
| "exts_disjoint (e # es) \<longleftrightarrow> ext_units e \<inter> \<Union> (ext_units ` set es) = {} \<and> exts_disjoint es"

lemma ext_units_Pair [simp]: "ext_units (loc, sz) = {unat loc..<unat loc + unat sz}"
  by (simp add: ext_units_def)

lemma exts_disjoint_remove1:
  assumes "exts_disjoint es" "e \<in> set es"
  shows "exts_disjoint (remove1 e es) \<and>
         \<Union> (ext_units ` set (remove1 e es)) = \<Union> (ext_units ` set es) - ext_units e"
  using assms
proof (induction es)
  case (Cons f fs)
  show ?case
  proof (cases "e = f")
    case True
    with Cons.prems show ?thesis by auto
  next
    case False
    with Cons have "e \<in> set fs"
      and ih: "exts_disjoint (remove1 e fs)"
        "\<Union> (ext_units ` set (remove1 e fs)) = \<Union> (ext_units ` set fs) - ext_units e" by auto
    moreover have "ext_units f \<inter> ext_units e = {}" using Cons.prems(1) \<open>e \<in> set fs\<close> by auto
    ultimately show ?thesis using False Cons.prems(1) by auto
  qed
qed simp

lemma exts_disjoint_nth:
  "exts_disjoint es \<Longrightarrow> i < j \<Longrightarrow> j < length es \<Longrightarrow> ext_units (es ! i) \<inter> ext_units (es ! j) = {}"
proof (induction es arbitrary: i j)
  case (Cons f fs)
  then show ?case
    by (cases i; cases j) (simp_all, metis (no_types, lifting) Int_UN_distrib UN_I disjoint_iff nth_mem)
qed simp

locale extent_pool =
  fixes invar :: "'p \<Rightarrow> bool"
    and units :: "'p \<Rightarrow> nat set"
    and alloc :: "'p \<Rightarrow> u32 \<Rightarrow> (u32 \<times> 'p) option"
    and release :: "'p \<Rightarrow> u32 \<Rightarrow> u32 \<Rightarrow> 'p kres"
  assumes alloc_sound: "invar p \<Longrightarrow> 0 < sz \<Longrightarrow> alloc p sz = Some (loc, q) \<Longrightarrow>
      invar q \<and> ext_units (loc, sz) \<subseteq> units p \<and> units q = units p - ext_units (loc, sz)"
    and alloc_complete: "invar p \<Longrightarrow> 0 < sz \<Longrightarrow> alloc p sz = None \<Longrightarrow>
      \<not> ext_units (loc, sz) \<subseteq> units p"
    and release_ok: "invar p \<Longrightarrow> b \<le> e \<Longrightarrow> unat e < 4294967295 \<Longrightarrow>
      {unat b..unat e} \<inter> units p = {} \<Longrightarrow>
      \<exists>q. release p b e = Done q \<and> invar q \<and> units q = units p \<union> {unat b..unat e}"
    and units_bound: "invar p \<Longrightarrow> x \<in> units p \<Longrightarrow> x < 4294967295"
    and units_inj: "invar p \<Longrightarrow> invar q \<Longrightarrow> units p = units q \<Longrightarrow> p = q"
begin

text \<open>The last unit of an extent that lies in the pool does not wrap.\<close>

lemma extent_last:
  assumes "0 < sz" "ext_units (loc, sz) \<subseteq> U" "\<And>x. x \<in> U \<Longrightarrow> x < 4294967295"
  shows "loc \<le> loc + sz - 1" "unat (loc + sz - 1) < 4294967295"
    "{unat loc..unat (loc + sz - 1)} = ext_units (loc, sz)"
proof -
  have pos: "0 < unat sz" using assms(1) by (simp add: word_less_nat_alt)
  then have "unat loc + unat sz - 1 \<in> ext_units (loc, sz)" by auto
  then have b: "unat loc + unat sz - 1 < 4294967295" using assms(2,3) by blast
  with pos have u: "unat (loc + sz) = unat loc + unat sz" by (intro unat32_plus) linarith
  have "(1 :: u32) \<le> loc + sz" using u pos by (simp add: word_le_nat_alt)
  then have v: "unat (loc + sz - 1) = unat loc + unat sz - 1" by (simp add: unat32_minus u)
  show "loc \<le> loc + sz - 1" using v pos by (simp add: word_le_nat_alt)
  show "unat (loc + sz - 1) < 4294967295" using v b by simp
  show "{unat loc..unat (loc + sz - 1)} = ext_units (loc, sz)" using v pos by auto
qed

lemma alloc_release:
  assumes "invar p" "0 < sz" "alloc p sz = Some (loc, q)"
  shows "release q loc (loc + sz - 1) = Done p"
proof -
  from alloc_sound [OF assms] have q: "invar q" "ext_units (loc, sz) \<subseteq> units p"
    "units q = units p - ext_units (loc, sz)" by auto
  note l = extent_last [OF assms(2) q(2) units_bound [OF assms(1)]]
  from release_ok [OF q(1) l(1,2)] l(3) q(3) obtain r where
    "release q loc (loc + sz - 1) = Done r" "invar r" "units r = units q \<union> ext_units (loc, sz)"
    by auto
  moreover from this q have "units r = units p" by auto
  ultimately show ?thesis using units_inj [OF _ assms(1)] by simp
qed

text \<open>Ownership: what the clients hold and what the pool holds partition the units.\<close>

definition owns :: "nat set \<Rightarrow> 'p \<Rightarrow> extent list \<Rightarrow> bool" where
  "owns U p ow \<longleftrightarrow> invar p \<and> exts_disjoint ow \<and> units p \<inter> \<Union> (ext_units ` set ow) = {} \<and>
     units p \<union> \<Union> (ext_units ` set ow) = U \<and> (\<forall>(loc, sz) \<in> set ow. 0 < sz)"

lemma owns_alloc:
  assumes "owns U p ow" "0 < sz" "alloc p sz = Some (loc, q)"
  shows "owns U q ((loc, sz) # ow)"
  using assms alloc_sound [OF _ assms(2,3)] unfolding owns_def by auto

lemma owns_release:
  assumes "owns U p ow" "(loc, sz) \<in> set ow" "\<And>x. x \<in> U \<Longrightarrow> x < 4294967295"
  shows "\<exists>q. release p loc (loc + sz - 1) = Done q \<and> owns U q (remove1 (loc, sz) ow)"
proof -
  have p: "invar p" "0 < sz" using assms(1,2) unfolding owns_def by auto
  have in_ow: "ext_units (loc, sz) \<subseteq> \<Union> (ext_units ` set ow)" using assms(2) by blast
  have sub: "ext_units (loc, sz) \<subseteq> U" and dis: "ext_units (loc, sz) \<inter> units p = {}"
    using assms(1) in_ow unfolding owns_def by blast+
  note l = extent_last [OF p(2) sub assms(3)]
  from release_ok [OF p(1) l(1,2)] l(3) dis obtain q where
    q: "release p loc (loc + sz - 1) = Done q" "invar q" "units q = units p \<union> ext_units (loc, sz)"
    by auto
  have "owns U q (remove1 (loc, sz) ow)"
    using assms(1,2) q(2,3) exts_disjoint_remove1 [of ow "(loc, sz)"] dis
    unfolding owns_def by (auto dest: in_set_remove1 [THEN iffD1] set_remove1_subset [THEN subsetD])
  with q(1) show ?thesis by blast
qed

end

section \<open>Bounded character queues\<close>

text \<open>
  The specification of a bounded double-ended character queue over lists: what each operation
  returns (the C convention: \<open>-1\<close> for full or empty) and the contents it leaves.
\<close>

definition dq_put :: "nat \<Rightarrow> u8 \<Rightarrow> u8 list \<Rightarrow> int \<times> u8 list" where
  "dq_put cap c q = (if length q = cap then (-1, q) else (0, q @ [c]))"

definition dq_get :: "u8 list \<Rightarrow> int \<times> u8 list" where
  "dq_get q = (case q of [] \<Rightarrow> (-1, []) | c # cs \<Rightarrow> (uint c, cs))"

definition dq_unget :: "nat \<Rightarrow> u8 \<Rightarrow> u8 list \<Rightarrow> int \<times> u8 list" where
  "dq_unget cap c q = (if length q = cap then (-1, q) else (0, c # q))"

definition dq_unput :: "u8 list \<Rightarrow> int \<times> u8 list" where
  "dq_unput q = (if q = [] then (-1, []) else (uint (last q), butlast q))"

locale char_queue =
  fixes invar :: "'q \<Rightarrow> bool"
    and chars :: "'q \<Rightarrow> u8 list"
    and cap :: nat
    and put :: "u32 \<Rightarrow> 'q \<Rightarrow> int \<times> 'q"
    and get :: "'q \<Rightarrow> int \<times> 'q"
  assumes invar_put: "invar q \<Longrightarrow> invar (snd (put c q))"
    and invar_get: "invar q \<Longrightarrow> invar (snd (get q))"
    and put_refines: "invar q \<Longrightarrow> map_prod id chars (put c q) = dq_put cap (ucast c) (chars q)"
    and get_refines: "invar q \<Longrightarrow> map_prod id chars (get q) = dq_get (chars q)"
    and chars_cap: "invar q \<Longrightarrow> length (chars q) \<le> cap"
begin

lemma chars_put: "invar q \<Longrightarrow> chars (snd (put c q)) = snd (dq_put cap (ucast c) (chars q))"
  using put_refines [of q c] by (metis snd_map_prod)

lemma get_cases:
  assumes "invar q"
  obtains "chars q = []" "fst (get q) = -1" "chars (snd (get q)) = []"
    | c cs where "chars q = c # cs" "fst (get q) = uint c" "chars (snd (get q)) = cs"
  using get_refines [OF assms]
  by (cases "chars q"; cases "get q") (auto simp: dq_get_def)

text \<open>Storing a sequence of characters appends as many of them as there is room for.\<close>

definition puts :: "u32 list \<Rightarrow> 'q \<Rightarrow> 'q" where
  "puts cs q = fold (\<lambda>c q. snd (put c q)) cs q"

lemma puts_props:
  "invar q \<Longrightarrow> invar (puts cs q) \<and> chars (puts cs q) = chars q @ take (cap - length (chars q)) (map ucast cs)"
proof (induction cs arbitrary: q)
  case Nil
  then show ?case by (simp add: puts_def)
next
  case (Cons c cs)
  let ?q = "snd (put c q)"
  have inv: "invar ?q" using Cons.prems by (rule invar_put)
  have "puts (c # cs) q = puts cs ?q" by (simp add: puts_def)
  with Cons.IH [OF inv] have ih: "invar (puts (c # cs) q)"
    "chars (puts (c # cs) q) = chars ?q @ take (cap - length (chars ?q)) (map ucast cs)" by simp_all
  show ?case
  proof (cases "length (chars q) = cap")
    case True
    then show ?thesis using ih chars_put [OF Cons.prems, of c] by (simp add: dq_put_def)
  next
    case False
    then have "cap - length (chars q) = Suc (cap - Suc (length (chars q)))"
      using chars_cap [OF Cons.prems] by simp
    then show ?thesis using ih False chars_put [OF Cons.prems, of c] by (simp add: dq_put_def)
  qed
qed

end

section \<open>Timer queues\<close>

text \<open>
  The specification of a queue of timed calls: a list of events (function, argument, ticks until
  the call) in order of time.  A new event goes in front of the first that is not earlier; a
  cancellation removes the first event with that function and argument; a tick ages all of them.
\<close>

type_synonym event = "nat \<times> nat \<times> int"

abbreviation due_time :: "event \<Rightarrow> int" where
  "due_time e \<equiv> snd (snd e)"

fun ev_insert :: "event \<Rightarrow> event list \<Rightarrow> event list" where
  "ev_insert e [] = [e]"
| "ev_insert e (x # xs) = (if due_time x < due_time e then x # ev_insert e xs else e # x # xs)"

fun ev_remove :: "nat \<Rightarrow> nat \<Rightarrow> event list \<Rightarrow> event list" where
  "ev_remove f a [] = []"
| "ev_remove f a (x # xs) = (if fst x = f \<and> fst (snd x) = a then xs else x # ev_remove f a xs)"

definition ev_age :: "int \<Rightarrow> event \<Rightarrow> event" where
  "ev_age n = (\<lambda>(f, a, t). (f, a, t - n))"

abbreviation ev_sorted :: "event list \<Rightarrow> bool" where
  "ev_sorted es \<equiv> sorted (map due_time es)"

lemma set_ev_insert [simp]: "set (ev_insert e xs) = insert e (set xs)"
  by (induction xs) auto

lemma ev_insert_sorted: "ev_sorted xs \<Longrightarrow> ev_sorted (ev_insert e xs)"
  by (induction xs) auto

lemma set_ev_remove: "set (ev_remove f a xs) \<subseteq> set xs"
  by (induction xs) auto

lemma ev_remove_sorted: "ev_sorted xs \<Longrightarrow> ev_sorted (ev_remove f a xs)"
  using set_ev_remove by (induction xs) fastforce+

lemma due_time_age [simp]: "due_time (ev_age n e) = due_time e - n"
  by (simp add: ev_age_def split_beta)

lemma ev_age_0 [simp]: "ev_age 0 = id"
  by (simp add: ev_age_def fun_eq_iff)

lemma ev_age_age [simp]: "ev_age m (ev_age n e) = ev_age (m + n) e"
  by (simp add: ev_age_def split_beta)

lemma ev_age_sorted: "ev_sorted xs \<Longrightarrow> ev_sorted (map (ev_age n) xs)"
  by (induction xs) auto

text \<open>The events due now are a prefix of the list.\<close>

definition ev_due :: "event list \<Rightarrow> event list" where
  "ev_due es = filter (\<lambda>e. due_time e \<le> 0) es"

lemma ev_due_insert: "0 < due_time e \<Longrightarrow> ev_due (ev_insert e es) = ev_due es"
  by (induction es) (auto simp: ev_due_def)

lemma ev_due_remove_le: "length (ev_due (ev_remove f a es)) \<le> length (ev_due es)"
  by (induction es) (auto simp: ev_due_def)

lemma ev_due_Nil: "ev_sorted (e # es) \<Longrightarrow> 0 < due_time e \<Longrightarrow> ev_due (e # es) = []"
  by (auto simp: ev_due_def filter_empty_conv)

locale timer_queue =
  fixes ok :: "'q \<Rightarrow> bool"
    and pend :: "'q \<Rightarrow> event list"
    and sched :: "nat \<Rightarrow> nat \<Rightarrow> int \<Rightarrow> 'q \<Rightarrow> 'q kres"
    and cancel :: "nat \<Rightarrow> nat \<Rightarrow> 'q \<Rightarrow> 'q"
    and tick :: "'q \<Rightarrow> 'q"
  assumes ok_sorted: "ok q \<Longrightarrow> ev_sorted (pend q)"
    and sched_pend: "ok q \<Longrightarrow> sched f a t q = Done q' \<Longrightarrow>
      ok q' \<and> pend q' = ev_insert (f, a, max 1 t) (pend q)"
    and cancel_pend: "ok q \<Longrightarrow> ok (cancel f a q) \<and> pend (cancel f a q) = ev_remove f a (pend q)"
    and tick_pend: "ok q \<Longrightarrow> ok (tick q) \<and> pend (tick q) = map (ev_age 1) (pend q)"
begin

lemma ticks_pend: "ok q \<Longrightarrow> ok ((tick ^^ n) q) \<and> pend ((tick ^^ n) q) = map (ev_age (int n)) (pend q)"
  by (induction n) (auto simp: tick_pend)

text \<open>A call scheduled for time \<open>t\<close> becomes due at the \<open>t\<close>th tick and not before.\<close>

lemma sched_on_time:
  assumes "ok q" "sched f a t q = Done q'"
  shows "(f, a, max 1 t - int n) \<in> set (pend ((tick ^^ n) q'))"
proof -
  have "(f, a, max 1 t) \<in> set (pend q')" using sched_pend [OF assms] by simp
  then have "ev_age (int n) (f, a, max 1 t) \<in> set (pend ((tick ^^ n) q'))"
    using ticks_pend [of q' n] sched_pend [OF assms] by force
  then show ?thesis by (simp add: ev_age_def)
qed

text \<open>Cancelling a call that is pending nowhere else undoes the scheduling of it.\<close>

lemma sched_cancel:
  assumes "ok q" "sched f a t q = Done q'" "\<forall>e \<in> set (pend q). fst e \<noteq> f \<or> fst (snd e) \<noteq> a"
  shows "pend (cancel f a q') = pend q"
proof -
  have "ev_remove f a (ev_insert (f, a, u) es) = es"
    if "\<forall>e \<in> set es. fst e \<noteq> f \<or> fst (snd e) \<noteq> a" for u es
    using that by (induction es) auto
  then show ?thesis using assms cancel_pend sched_pend [OF assms(1,2)] by simp
qed

end

section \<open>Reference-counted objects\<close>

text \<open>
  A store of objects that are shared by counting: \<open>inv R s\<close> says that the holders outside the store
  have \<open>R a\<close> references to the object \<open>a\<close>.  \<open>cap\<close> is how many more references its counter can take.
\<close>

locale ref_store =
  fixes inv :: "('a \<Rightarrow> nat) \<Rightarrow> 's \<Rightarrow> bool"
    and present :: "'s \<Rightarrow> 'a \<Rightarrow> bool"
    and cap :: "'s \<Rightarrow> 'a \<Rightarrow> nat"
    and acq :: "'a \<Rightarrow> 's \<Rightarrow> 's kres"
    and rel :: "'a \<Rightarrow> 's \<Rightarrow> 's kres"
  assumes held_present: "inv R s \<Longrightarrow> 0 < R a \<Longrightarrow> present s a"
    and acq_law: "inv R s \<Longrightarrow> present s a \<Longrightarrow> 0 < cap s a \<Longrightarrow>
      \<exists>s'. acq a s = Done s' \<and> inv (R(a := Suc (R a))) s' \<and> present s' = present s \<and> cap s' = (cap s)(a := cap s a - 1)"
    and rel_law: "inv R s \<Longrightarrow> 0 < R a \<Longrightarrow> \<exists>s'. rel a s = Done s' \<and> inv (R(a := R a - 1)) s'"
begin

text \<open>Taking or dropping the references that a list of slots holds.\<close>

lemma acq_slots:
  assumes "inv R s" "\<forall>k \<in> set ks. \<forall>a. slot k = Some a \<longrightarrow> present s a" "\<forall>a. count_list (map slot ks) (Some a) \<le> cap s a"
    and f: "\<And>k s. k \<in> set ks \<Longrightarrow> f k s = (case slot k of None \<Rightarrow> Done s | Some a \<Rightarrow> acq a s)"
  shows "\<exists>s'. kfold f ks s = Done s' \<and> inv (\<lambda>a. R a + count_list (map slot ks) (Some a)) s'"
  using assms(1-3) f
proof (induction ks arbitrary: R s)
  case Nil
  then show ?case by simp
next
  case (Cons k ks)
  show ?case
  proof (cases "slot k")
    case None
    then show ?thesis using Cons.IH [OF Cons.prems(1)] Cons.prems by simp
  next
    case (Some a)
    have "0 < cap s a" using spec [OF Cons.prems(3), of a] Some by simp
    then obtain s1 where s1: "acq a s = Done s1" "inv (R(a := Suc (R a))) s1" "present s1 = present s" "cap s1 = (cap s)(a := cap s a - 1)"
      using acq_law [OF Cons.prems(1), of a] Cons.prems(2) Some by auto
    have "count_list (map slot ks) (Some b) \<le> cap s1 b" for b
      using spec [OF Cons.prems(3), of b] Some by (auto simp: s1(4) split: if_splits)
    then obtain s' where s': "kfold f ks s1 = Done s'" "inv (\<lambda>b. (R(a := Suc (R a))) b + count_list (map slot ks) (Some b)) s'"
      using Cons.IH [OF s1(2)] Cons.prems(2,4) s1(3) by auto
    have "(\<lambda>b. (R(a := Suc (R a))) b + count_list (map slot ks) (Some b)) = (\<lambda>b. R b + count_list (map slot (k # ks)) (Some b))"
      using Some by (auto simp: fun_eq_iff)
    then show ?thesis using s' s1(1) Some Cons.prems(4) by simp
  qed
qed

lemma rel_slots:
  assumes "inv R s" "\<forall>a. count_list (map slot ks) (Some a) \<le> R a"
    and f: "\<And>k s R. k \<in> set ks \<Longrightarrow> inv R s \<Longrightarrow>
      f k s = (case slot k of None \<Rightarrow> Done s | Some a \<Rightarrow> rel a (g k s)) \<and> inv R (g k s)"
  shows "\<exists>s'. kfold f ks s = Done s' \<and> inv (\<lambda>a. R a - count_list (map slot ks) (Some a)) s'"
  using assms
proof (induction ks arbitrary: R s)
  case Nil
  then show ?case by simp
next
  case (Cons k ks)
  have fk: "f k s = (case slot k of None \<Rightarrow> Done s | Some a \<Rightarrow> rel a (g k s))" "inv R (g k s)" using Cons.prems(1,3) by auto
  show ?case
  proof (cases "slot k")
    case None
    then show ?thesis using Cons.IH [OF Cons.prems(1)] Cons.prems fk by simp
  next
    case (Some a)
    have "0 < R a" using spec [OF Cons.prems(2), of a] Some by simp
    then obtain s1 where s1: "rel a (g k s) = Done s1" "inv (R(a := R a - 1)) s1" using rel_law [OF fk(2)] by blast
    have "count_list (map slot ks) (Some b) \<le> (R(a := R a - 1)) b" for b
      using spec [OF Cons.prems(2), of b] Some by (auto split: if_splits)
    then obtain s' where s': "kfold f ks s1 = Done s'" "inv (\<lambda>b. (R(a := R a - 1)) b - count_list (map slot ks) (Some b)) s'"
      using Cons.IH [OF s1(2)] Cons.prems(3) by auto
    have "(\<lambda>b. (R(a := R a - 1)) b - count_list (map slot ks) (Some b)) = (\<lambda>b. R b - count_list (map slot (k # ks)) (Some b))"
      using Some by (auto simp: fun_eq_iff)
    then show ?thesis using s' s1(1) Some fk(1) by simp
  qed
qed

end

end
