(* ===== verification/Callout.thy ===== *)
theory Callout
  imports Interfaces "HOL-Library.Multiset"
begin

text \<open>
  The timeout queue of \<open>kern/clock.c\<close>: \<open>timeout\<close>, \<open>untimeout\<close>, the queue part of \<open>hardclock\<close> and
  the loop of \<open>softclock\<close>.  The queue keeps each entry's time relative to the entry before it; the
  abstraction \<open>dues\<close> gives the ticks until each entry is due, and the operations are shown to be
  insertion, removal and decrement on that list.  Times are integers: they only ever sum to times
  the callers passed in, so the 32-bit arithmetic of the code does not wrap on them.
\<close>

section \<open>The queue and its operations\<close>

text \<open>
  Functions and arguments are addresses.  \<open>c_id\<close> is the entry's slot in the table: the queue and
  the free list are linked through the slots, so the lists hold them in link order.
\<close>

record callout =
  c_id :: nat
  c_arg :: nat
  c_func :: nat
  c_time :: int

record callq =
  calltodo :: "callout list"
  callfree :: "nat list"

text \<open>The walk of \<open>timeout\<close> and the insertion with the adjustment of the trailing entry.\<close>

fun to_insert :: "callout \<Rightarrow> int \<Rightarrow> callout list \<Rightarrow> callout list" where
  "to_insert c t [] = [c\<lparr>c_time := t\<rparr>]"
| "to_insert c t (p # ps) =
     (if c_time p < t then p # to_insert c (if 0 < c_time p then t - c_time p else t) ps
      else c\<lparr>c_time := t\<rparr> # p\<lparr>c_time := c_time p - t\<rparr> # ps)"

definition timeout :: "nat \<Rightarrow> nat \<Rightarrow> int \<Rightarrow> callq \<Rightarrow> callq kres" where
  "timeout func arg t q =
     (let t = (if t \<le> 0 then 1 else t) in
      case callfree q of
        [] \<Rightarrow> Panic ''timeout table overflow''
      | i # fr \<Rightarrow> Done (q\<lparr>callfree := fr,
          calltodo := to_insert \<lparr>c_id = i, c_arg = arg, c_func = func, c_time = 0\<rparr> t (calltodo q)\<rparr>))"

text \<open>The search of \<open>untimeout\<close>: the remaining queue and the slot freed, if any.\<close>

fun to_remove :: "nat \<Rightarrow> nat \<Rightarrow> callout list \<Rightarrow> callout list \<times> nat option" where
  "to_remove func arg [] = ([], None)"
| "to_remove func arg (p # ps) =
     (if c_func p = func \<and> c_arg p = arg
      then (case ps of [] \<Rightarrow> []
            | n # ns \<Rightarrow> (if 0 < c_time p then n\<lparr>c_time := c_time n + c_time p\<rparr> else n) # ns, Some (c_id p))
      else (let (r, i) = to_remove func arg ps in (p # r, i)))"

definition untimeout :: "nat \<Rightarrow> nat \<Rightarrow> callq \<Rightarrow> callq" where
  "untimeout func arg q =
     (case to_remove func arg (calltodo q) of
        (r, None) \<Rightarrow> q
      | (r, Some i) \<Rightarrow> q\<lparr>calltodo := r, callfree := i # callfree q\<rparr>)"

text \<open>The loop at the start of \<open>hardclock\<close>; the first component is \<open>needsoft\<close>.\<close>

fun todo_tick :: "callout list \<Rightarrow> bool \<times> callout list" where
  "todo_tick [] = (False, [])"
| "todo_tick (p # ps) =
     (let t = c_time p - 1; p' = p\<lparr>c_time := t\<rparr> in
      if 0 < t then (False, p' # ps)
      else if t = 0 then (True, p' # ps)
      else (True, p' # snd (todo_tick ps)))"

text \<open>
  A callback is known to the queue by the \<open>timeout\<close> and \<open>untimeout\<close> calls it makes.
\<close>

datatype creq = Timeout nat nat int | Untimeout nat nat

fun creqs :: "creq list \<Rightarrow> callq \<Rightarrow> callq kres" where
  "creqs [] q = Done q"
| "creqs (Timeout f a t # rs) q = kbind (timeout f a t q) (creqs rs)"
| "creqs (Untimeout f a # rs) q = creqs rs (untimeout f a q)"

text \<open>
  The loop of \<open>softclock\<close>: \<open>cb func arg a\<close> are the requests the callback makes, and the result
  lists the calls made.  The loop has no bound of its own, so not returning is \<open>None\<close>.
\<close>

partial_function (option) softclock_loop ::
  "(nat \<Rightarrow> nat \<Rightarrow> int \<Rightarrow> creq list) \<Rightarrow> callq \<Rightarrow> ((nat \<times> nat \<times> int) list \<times> callq) kres option" where
  "softclock_loop cb q =
     (case calltodo q of
        [] \<Rightarrow> Some (Done ([], q))
      | p # ps \<Rightarrow>
          if 0 < c_time p then Some (Done ([], q))
          else (case creqs (cb (c_func p) (c_arg p) (c_time p))
                      (q\<lparr>calltodo := ps, callfree := c_id p # callfree q\<rparr>) of
                  Done q' \<Rightarrow> Option.bind (softclock_loop cb q')
                    (\<lambda>r. Some (kmap (\<lambda>(ev, q''). ((c_func p, c_arg p, c_time p) # ev, q'')) r))
                | Panic m \<Rightarrow> Some (Panic m)
                | Fault \<Rightarrow> Some Fault))"

section \<open>When each entry is due\<close>

fun dues :: "int \<Rightarrow> callout list \<Rightarrow> (nat \<times> nat \<times> int) list" where
  "dues acc [] = []"
| "dues acc (p # ps) =
     (c_func p, c_arg p, acc + c_time p) # dues (if 0 < c_time p then acc + c_time p else acc) ps"

definition pending :: "callq \<Rightarrow> (nat \<times> nat \<times> int) list" where
  "pending q = dues 0 (calltodo q)"

definition callq_ok :: "callq \<Rightarrow> bool" where
  "callq_ok q \<longleftrightarrow> ev_sorted (pending q)"

lemma dues_insert:
  "0 < t \<Longrightarrow> dues acc (to_insert c t ps) = ev_insert (c_func c, c_arg c, acc + t) (dues acc ps)"
  by (induction c t ps arbitrary: acc rule: to_insert.induct) (auto simp: algebra_simps)

lemma dues_tick_gen: "0 < c_time p \<Longrightarrow> dues acc (p # ps) = (c_func p, c_arg p, acc + c_time p) # dues (acc + c_time p) ps"
  by simp

lemma dues_shift: "dues (acc - n) ps = map (ev_age n) (dues acc ps)"
proof (induction ps arbitrary: acc)
  case (Cons p ps)
  have e: "acc - n + c_time p = acc + c_time p - n" by simp
  show ?case using Cons [of acc] Cons [of "acc + c_time p"] by (simp add: ev_age_def e)
qed simp

lemma dues_tick: "dues 0 (snd (todo_tick ps)) = map (ev_age 1) (dues 0 ps)"
proof (induction ps)
  case (Cons p ps)
  show ?case using Cons dues_shift [of "c_time p" 1 ps]
    by (auto simp: Let_def ev_age_def)
qed simp

lemma dues_ge_acc: "sorted (map due_time (dues acc ps)) \<Longrightarrow> \<forall>e \<in> set (dues acc ps). b \<le> due_time e \<Longrightarrow>
   (case ps of [] \<Rightarrow> True | n # ns \<Rightarrow> b \<le> acc + c_time n)"
  by (cases ps) auto

lemma dues_remove:
  "sorted (map due_time (dues acc ps)) \<Longrightarrow>
   dues acc (fst (to_remove f a ps)) = ev_remove f a (dues acc ps)"
proof (induction ps arbitrary: acc)
  case (Cons p ps)
  show ?case
  proof (cases "c_func p = f \<and> c_arg p = a")
    case True
    then show ?thesis using Cons.prems
      by (cases ps) (auto simp: algebra_simps)
  next
    case False
    then show ?thesis using Cons by (auto simp: split_beta)
  qed
qed simp

lemma to_remove_None: "snd (to_remove f a ps) = None \<Longrightarrow> fst (to_remove f a ps) = ps"
  by (induction ps) (auto simp: split_beta split: if_splits)

definition callq_tick :: "callq \<Rightarrow> callq" where
  "callq_tick q = q\<lparr>calltodo := snd (todo_tick (calltodo q))\<rparr>"

lemma pending_timeout:
  assumes "callq_ok q" "timeout f a t q = Done q'"
  shows "callq_ok q' \<and> pending q' = ev_insert (f, a, max 1 t) (pending q)"
proof -
  have "(if t \<le> 0 then 1 else t) = max 1 t" by simp
  with assms(2) obtain i fr where "callfree q = i # fr"
    "q' = q\<lparr>callfree := fr,
       calltodo := to_insert \<lparr>c_id = i, c_arg = a, c_func = f, c_time = 0\<rparr> (max 1 t) (calltodo q)\<rparr>"
    by (auto simp: timeout_def split: list.splits)
  then have "pending q' = ev_insert (f, a, max 1 t) (pending q)"
    by (simp add: pending_def dues_insert)
  then show ?thesis using assms(1) by (simp add: callq_ok_def ev_insert_sorted)
qed

lemma pending_untimeout:
  assumes "callq_ok q"
  shows "callq_ok (untimeout f a q) \<and> pending (untimeout f a q) = ev_remove f a (pending q)"
proof -
  have "pending (untimeout f a q) = dues 0 (fst (to_remove f a (calltodo q)))"
    using to_remove_None [of f a "calltodo q"]
    by (cases "to_remove f a (calltodo q)") (auto simp: untimeout_def pending_def split: option.splits)
  also have "\<dots> = ev_remove f a (pending q)"
    using assms by (simp add: callq_ok_def pending_def dues_remove)
  finally show ?thesis using assms by (simp add: callq_ok_def ev_remove_sorted)
qed

lemma pending_tick: "callq_ok q \<Longrightarrow> callq_ok (callq_tick q) \<and> pending (callq_tick q) = map (ev_age 1) (pending q)"
  using ev_age_sorted [of "pending q" 1]
  by (simp add: callq_ok_def pending_def callq_tick_def dues_tick)

interpretation ctq: timer_queue callq_ok pending timeout untimeout callq_tick
  by unfold_locales (auto simp: pending_timeout pending_untimeout pending_tick callq_ok_def [THEN iffD1])

section \<open>The table\<close>

definition slots :: "callq \<Rightarrow> nat multiset" where
  "slots q = image_mset c_id (mset (calltodo q)) + mset (callfree q)"

lemma slots_insert:
  "image_mset c_id (mset (to_insert c t ps)) = add_mset (c_id c) (image_mset c_id (mset ps))"
  by (induction c t ps rule: to_insert.induct) auto

lemma slots_remove:
  "snd (to_remove f a ps) = Some i \<Longrightarrow>
   image_mset c_id (mset ps) = add_mset i (image_mset c_id (mset (fst (to_remove f a ps))))"
proof (induction ps)
  case (Cons p ps)
  show ?case
  proof (cases "c_func p = f \<and> c_arg p = a")
    case True
    then show ?thesis using Cons.prems by (cases ps) auto
  next
    case False
    then have "to_remove f a (p # ps) = (p # fst (to_remove f a ps), snd (to_remove f a ps))"
      by (auto simp: split_beta)
    then show ?thesis using Cons by simp
  qed
qed simp

lemma slots_tick: "image_mset c_id (mset (snd (todo_tick ps))) = image_mset c_id (mset ps)"
  by (induction ps) (auto simp: Let_def)

lemma slots_timeout: "timeout f a t q = Done q' \<Longrightarrow> slots q' = slots q"
  by (auto simp: timeout_def slots_def slots_insert Let_def split: list.splits)

lemma slots_untimeout: "slots (untimeout f a q) = slots q"
  using slots_remove [of f a "calltodo q"]
  by (auto simp: untimeout_def slots_def split: prod.splits option.splits)

lemma creqs_props:
  "callq_ok q \<Longrightarrow> creqs rs q = Done q' \<Longrightarrow>
   callq_ok q' \<and> slots q' = slots q \<and> length (ev_due (pending q')) \<le> length (ev_due (pending q))"
proof (induction rs q rule: creqs.induct)
  case (2 f a t rs q)
  from 2(3) obtain q1 where q1: "timeout f a t q = Done q1" "creqs rs q1 = Done q'"
    by (auto simp: kbind_Done_iff)
  then show ?case using 2(1) [OF _ q1(2)] pending_timeout [OF 2(2) q1(1)] slots_timeout [OF q1(1)]
    by (simp add: ev_due_insert)
next
  case (3 f a rs q)
  then show ?case using pending_untimeout [OF 3(2), of f a] ev_due_remove_le [of f a "pending q"]
    by (auto simp: slots_untimeout)
qed simp

lemma creqs_no_cancel:
  "callq_ok q \<Longrightarrow> creqs rs q = Done q' \<Longrightarrow> \<forall>f a. Untimeout f a \<notin> set rs \<Longrightarrow>
   ev_due (pending q') = ev_due (pending q)"
proof (induction rs q rule: creqs.induct)
  case (2 f a t rs q)
  from 2(3) obtain q1 where q1: "timeout f a t q = Done q1" "creqs rs q1 = Done q'"
    by (auto simp: kbind_Done_iff)
  then show ?case using 2(1) [OF _ q1(2)] 2(4) pending_timeout [OF 2(2) q1(1)]
    by (simp add: ev_due_insert)
qed auto

lemma needsoft_iff_due:
  assumes "callq_ok q"
  shows "fst (todo_tick (calltodo q)) \<longleftrightarrow> ev_due (pending (callq_tick q)) \<noteq> []"
proof (cases "calltodo q")
  case Nil
  then show ?thesis by (simp add: callq_tick_def pending_def ev_due_def)
next
  case (Cons p ps)
  have "ev_sorted (dues 0 (snd (todo_tick (calltodo q))))"
    using pending_tick [OF assms] by (auto simp: callq_ok_def pending_def callq_tick_def simp del: map_map)
  then show ?thesis using Cons
    by (auto simp: callq_tick_def pending_def ev_due_def Let_def filter_empty_conv split: if_splits)
qed

lemma softclock_loop_returns:
  assumes "callq_ok q"
  shows "\<exists>r. softclock_loop cb q = Some r \<and>
    (\<forall>ev q'. r = Done (ev, q') \<longrightarrow> callq_ok q' \<and> slots q' = slots q \<and> ev_due (pending q') = [] \<and>
       ((\<forall>f a t f' a'. Untimeout f' a' \<notin> set (cb f a t)) \<longrightarrow> ev = ev_due (pending q)))"
  using assms
proof (induction "length (ev_due (pending q))" arbitrary: q rule: less_induct)
  case less
  show ?case
  proof (cases "calltodo q")
    case Nil
    then show ?thesis using less.prems
      by (subst softclock_loop.simps) (simp add: pending_def ev_due_def)
  next
    case (Cons p ps)
    show ?thesis
    proof (cases "0 < c_time p")
      case True
      then have "ev_due (pending q) = []"
        using ev_due_Nil less.prems Cons by (simp add: callq_ok_def pending_def)
      then show ?thesis using less.prems Cons True by (subst softclock_loop.simps) simp
    next
      case False
      define q1 where "q1 = q\<lparr>calltodo := ps, callfree := c_id p # callfree q\<rparr>"
      let ?c = "creqs (cb (c_func p) (c_arg p) (c_time p)) q1"
      have pq: "pending q = (c_func p, c_arg p, c_time p) # pending q1"
        using False Cons by (simp add: pending_def q1_def)
      then have q1: "callq_ok q1" "slots q1 = slots q"
        "ev_due (pending q) = (c_func p, c_arg p, c_time p) # ev_due (pending q1)"
        using less.prems Cons False by (simp_all add: callq_ok_def slots_def q1_def ev_due_def)
      have step: "softclock_loop cb q = (case ?c of
                  Done q' \<Rightarrow> Option.bind (softclock_loop cb q')
                    (\<lambda>r. Some (kmap (\<lambda>(ev, q''). ((c_func p, c_arg p, c_time p) # ev, q'')) r))
                | Panic m \<Rightarrow> Some (Panic m) | Fault \<Rightarrow> Some Fault)"
        using Cons False by (subst softclock_loop.simps) (simp add: q1_def)
      show ?thesis
      proof (cases ?c)
        case (Done q2)
        note c = creqs_props [OF q1(1) Done]
        then have "length (ev_due (pending q2)) < length (ev_due (pending q))" using q1(3) by simp
        from less.hyps [OF this] c obtain r where r: "softclock_loop cb q2 = Some r"
          "\<And>ev q'. r = Done (ev, q') \<Longrightarrow> callq_ok q' \<and> slots q' = slots q2 \<and> ev_due (pending q') = [] \<and>
           ((\<forall>f a t f' a'. Untimeout f' a' \<notin> set (cb f a t)) \<longrightarrow> ev = ev_due (pending q2))"
          by blast
        have "softclock_loop cb q = Some (kmap (\<lambda>(ev, q''). ((c_func p, c_arg p, c_time p) # ev, q'')) r)"
          by (simp add: step Done r(1))
        then show ?thesis
          using r(2) c q1(2,3) creqs_no_cancel [OF q1(1) Done]
          by (force simp: kmap_Done_iff)
      qed (simp_all add: step)
    qed
  qed
qed

section \<open>Properties\<close>

text \<open>
  C25: the queue of relative times implements a list of absolute times.  On a queue whose
  expiries are in order, \<open>timeout\<close> fails exactly when the table is full and otherwise inserts its
  event in front of the first one that is not earlier; \<open>untimeout\<close> removes the first event with
  its function and argument and leaves every other expiry unchanged; the clock tick brings every
  event one tick nearer, and asks for \<open>softclock\<close> exactly when some event is due.  All three keep
  the order and conserve the slots of the table.
\<close>

theorem callout_refines_schedule:
  assumes "callq_ok q"
  shows "(if callfree q = [] then timeout f a t q = Panic ''timeout table overflow''
          else \<exists>q'. timeout f a t q = Done q' \<and> callq_ok q' \<and> slots q' = slots q \<and>
                 pending q' = ev_insert (f, a, max 1 t) (pending q)) \<and>
         callq_ok (untimeout f a q) \<and> slots (untimeout f a q) = slots q \<and>
         pending (untimeout f a q) = ev_remove f a (pending q) \<and>
         callq_ok (callq_tick q) \<and> slots (callq_tick q) = slots q \<and>
         pending (callq_tick q) = map (ev_age 1) (pending q) \<and>
         (fst (todo_tick (calltodo q)) \<longleftrightarrow> ev_due (pending (callq_tick q)) \<noteq> [])"
proof (intro conjI)
  show "if callfree q = [] then timeout f a t q = Panic ''timeout table overflow''
          else \<exists>q'. timeout f a t q = Done q' \<and> callq_ok q' \<and> slots q' = slots q \<and>
                 pending q' = ev_insert (f, a, max 1 t) (pending q)"
  proof (cases "callfree q")
    case Nil
    then show ?thesis by (simp add: timeout_def)
  next
    case (Cons i fr)
    then obtain q' where "timeout f a t q = Done q'" by (simp add: timeout_def Let_def)
    then show ?thesis using Cons pending_timeout [OF assms] slots_timeout by auto
  qed
qed (use pending_untimeout [OF assms] pending_tick [OF assms] slots_untimeout needsoft_iff_due [OF assms] in
     \<open>simp_all add: slots_def callq_tick_def slots_tick\<close>)

definition callq_demo :: callq where
  "callq_demo = \<lparr>calltodo = [\<lparr>c_id = 2, c_arg = 7, c_func = 100, c_time = 3\<rparr>,
     \<lparr>c_id = 0, c_arg = 8, c_func = 100, c_time = 4\<rparr>], callfree = [1, 3]\<rparr>"

lemma callq_demo_ok: "callq_ok callq_demo"
  by (simp add: callq_demo_def callq_ok_def pending_def)

theorem callout_refines_schedule_witness:
  "callq_ok callq_demo \<and> pending callq_demo = [(100, 7, 3), (100, 8, 7)] \<and>
   pending (untimeout 100 7 callq_demo) = [(100, 8, 7)] \<and>
   (\<exists>q'. timeout 200 9 5 callq_demo = Done q' \<and> pending q' = [(100, 7, 3), (200, 9, 5), (100, 8, 7)])"
  using callout_refines_schedule [OF callq_demo_ok, of 200 9 5]
    callout_refines_schedule [OF callq_demo_ok, of 100 7 5] callq_demo_ok
  by (auto simp: callq_demo_def pending_def)

text \<open>
  a call is made on time.  A call scheduled \<open>t\<close> ticks ahead is, after any number of ticks,
  pending with exactly the remaining time, so that it is due from the \<open>t\<close>th tick on and not
  before (a time of zero or less counts as one tick).
\<close>

theorem timeout_on_time:
  assumes "callq_ok q" "timeout f a t q = Done q'"
  shows "(f, a, max 1 t - int n) \<in> set (pending ((callq_tick ^^ n) q')) \<and>
         ((f, a, max 1 t - int n) \<in> set (ev_due (pending ((callq_tick ^^ n) q'))) \<longleftrightarrow> max 1 t \<le> int n)"
  using ctq.sched_on_time [OF assms, of n] by (simp add: ev_due_def)

theorem timeout_on_time_witness:
  "\<exists>q'. timeout 200 9 2 callq_demo = Done q' \<and> (200, 9, 0) \<in> set (ev_due (pending ((callq_tick ^^ 2) q')))"
proof -
  obtain q' where q: "timeout 200 9 2 callq_demo = Done q'" by (simp add: timeout_def callq_demo_def)
  then show ?thesis using timeout_on_time [OF callq_demo_ok q, of 2] by simp
qed

text \<open>
  \<open>softclock\<close> returns, whatever timeouts its callbacks set or cancel.  If no callback
  overflows the table, it leaves no event due, keeps the order and the slots; and when the
  callbacks cancel nothing it makes exactly the calls that were due, in order of their time,
  passing each the time it was due at.
\<close>

theorem softclock_runs_due:
  assumes "callq_ok q"
  shows "\<exists>r. softclock_loop cb q = Some r \<and>
    (\<forall>ev q'. r = Done (ev, q') \<longrightarrow> callq_ok q' \<and> slots q' = slots q \<and> ev_due (pending q') = [] \<and>
       ((\<forall>f a t f' a'. Untimeout f' a' \<notin> set (cb f a t)) \<longrightarrow> ev = ev_due (pending q)))"
  by (rule softclock_loop_returns [OF assms])

theorem softclock_runs_due_witness:
  "\<exists>r. softclock_loop (\<lambda>f a t. [Timeout f a 4]) ((callq_tick ^^ 3) callq_demo) = Some r \<and>
    (\<forall>ev q'. r = Done (ev, q') \<longrightarrow> ev = [(100, 7, 0)])"
proof -
  have "callq_ok ((callq_tick ^^ 3) callq_demo)"
    using ctq.ticks_pend [OF callq_demo_ok] by blast
  moreover have "pending ((callq_tick ^^ 3) callq_demo) = [(100, 7, 0), (100, 8, 4)]"
    by (simp add: callq_demo_def callq_tick_def pending_def numeral_3_eq_3)
  ultimately show ?thesis
    using softclock_runs_due [of "(callq_tick ^^ 3) callq_demo" "\<lambda>f a t. [Timeout f a 4]"]
    by (auto simp: ev_due_def)
qed

end
