(* ===== verification/Time.thy ===== *)
theory Time
  imports Callout "HOL-Library.Signed_Division"
begin

text \<open>
  The time of day and the interval timers: \<open>kern/time.c\<close> and \<open>hzto\<close> of \<open>kern/clock.c\<close>.  Times are
  integers; the products that can leave the 32 bits of a \<open>long\<close> (in \<open>adjtime\<close> and \<open>hzto\<close>) are
  wrapped, and the divisions truncate as in C.  The copies to and from user space, the privilege
  check and \<open>microtime\<close> are parameters of the routines that use them.
\<close>

section \<open>Time values\<close>

record timeval =
  tv_sec :: int
  tv_usec :: int

record itimerval =
  it_interval :: timeval
  it_value :: timeval

record timezone =
  tz_minuteswest :: int
  tz_dsttime :: int

definition wrap32 :: "int \<Rightarrow> int" where
  "wrap32 x = signed_take_bit 31 x"

definition timerisset :: "timeval \<Rightarrow> bool" where
  "timerisset tv \<longleftrightarrow> tv_sec tv \<noteq> 0 \<or> tv_usec tv \<noteq> 0"

text \<open>\<open>timercmp(a, b, <)\<close>; the code uses the macro with \<open><\<close> and \<open>>\<close> only.\<close>

definition timerlt :: "timeval \<Rightarrow> timeval \<Rightarrow> bool" where
  "timerlt a b \<longleftrightarrow> tv_sec a < tv_sec b \<or> tv_sec a = tv_sec b \<and> tv_usec a < tv_usec b"

definition timerclear :: timeval where
  "timerclear = \<lparr>tv_sec = 0, tv_usec = 0\<rparr>"

definition timevalfix :: "timeval \<Rightarrow> timeval" where
  "timevalfix t =
     (let t = (if tv_usec t < 0 then \<lparr>tv_sec = tv_sec t - 1, tv_usec = tv_usec t + 1000000\<rparr> else t) in
      if 1000000 \<le> tv_usec t then \<lparr>tv_sec = tv_sec t + 1, tv_usec = tv_usec t - 1000000\<rparr> else t)"

definition timevaladd :: "timeval \<Rightarrow> timeval \<Rightarrow> timeval" where
  "timevaladd t1 t2 = timevalfix \<lparr>tv_sec = tv_sec t1 + tv_sec t2, tv_usec = tv_usec t1 + tv_usec t2\<rparr>"

definition timevalsub :: "timeval \<Rightarrow> timeval \<Rightarrow> timeval" where
  "timevalsub t1 t2 = timevalfix \<lparr>tv_sec = tv_sec t1 - tv_sec t2, tv_usec = tv_usec t1 - tv_usec t2\<rparr>"

text \<open>\<open>BUMPTIME\<close> of \<open>kern/clock.c\<close>.\<close>

definition bumptime :: "timeval \<Rightarrow> int \<Rightarrow> timeval" where
  "bumptime t usec =
     (let u = tv_usec t + usec in
      if 1000000 \<le> u then \<lparr>tv_sec = tv_sec t + 1, tv_usec = u - 1000000\<rparr>
      else \<lparr>tv_sec = tv_sec t, tv_usec = u\<rparr>)"


text \<open>\<open>itimerfix\<close> returns an error or the (rounded) value.\<close>

definition itimerfix :: "int \<Rightarrow> timeval \<Rightarrow> int + timeval" where
  "itimerfix tick tv =
     (if tv_sec tv < 0 \<or> 100000000 < tv_sec tv \<or> tv_usec tv < 0 \<or> 1000000 \<le> tv_usec tv
      then Inl EINVAL
      else if tv_sec tv = 0 \<and> tv_usec tv \<noteq> 0 \<and> tv_usec tv < tick
      then Inr (tv\<lparr>tv_usec := tick\<rparr>)
      else Inr tv)"

definition itimer_reload :: "itimerval \<Rightarrow> int \<Rightarrow> itimerval" where
  "itimer_reload itp usec =
     (if timerisset (it_interval itp)
      then let v = it_interval itp; u = tv_usec v - usec in
           itp\<lparr>it_value := (if u < 0 then \<lparr>tv_sec = tv_sec v - 1, tv_usec = u + 1000000\<rparr>
                             else v\<lparr>tv_usec := u\<rparr>)\<rparr>
      else itp\<lparr>it_value := (it_value itp)\<lparr>tv_usec := 0\<rparr>\<rparr>)"

definition itimerdecr :: "itimerval \<Rightarrow> int \<Rightarrow> bool \<times> itimerval" where
  "itimerdecr itp usec =
     (let v = it_value itp in
      if tv_usec v < usec \<and> tv_sec v = 0
      then (False, itimer_reload itp (usec - tv_usec v))
      else let v' = (if tv_usec v < usec
                     then \<lparr>tv_sec = tv_sec v - 1, tv_usec = tv_usec v + 1000000 - usec\<rparr>
                     else v\<lparr>tv_usec := tv_usec v - usec\<rparr>);
               itp' = itp\<lparr>it_value := v'\<rparr> in
           if timerisset v' then (True, itp') else (False, itimer_reload itp' 0))"

section \<open>The clock state and the system calls\<close>

text \<open>
  The globals of the clock and the fields of the calling process; \<open>todr\<close> counts the calls of
  \<open>resettodr\<close> and \<open>p_sigs\<close> lists the signals posted.
\<close>

record kclock =
  time :: timeval
  boottime :: timeval
  tz :: timezone
  timedelta :: int
  tickdelta :: int
  callouts :: callq
  todr :: nat

record tproc =
  p_addr :: nat
  p_realtimer :: itimerval
  p_timer :: "itimerval list"
  p_sigs :: "int list"

text \<open>The configuration of the clock: interrupts per second, microseconds per tick, skew per tick.\<close>

record kconf =
  hz :: int
  tick :: int
  tickadj :: int

definition ITIMER_REAL :: nat where "ITIMER_REAL = 0"
definition ITIMER_VIRTUAL :: nat where "ITIMER_VIRTUAL = 1"
definition ITIMER_PROF :: nat where "ITIMER_PROF = 2"
definition SIGALRM :: int where "SIGALRM = 14"
definition bigadj :: int where "bigadj = 1000000"

text \<open>The address of \<open>realitexpire\<close> as a callout function.\<close>

definition realitexpire_fn :: nat where "realitexpire_fn = 1"

definition hzto :: "kconf \<Rightarrow> timeval \<Rightarrow> timeval \<Rightarrow> int" where
  "hzto cf tv now =
     (let sec = tv_sec tv - tv_sec now in
      if sec \<le> 2147483647 sdiv 1000 - 1000
      then wrap32 (wrap32 (sec * 1000) + (tv_usec tv - tv_usec now) sdiv 1000) sdiv (tick cf sdiv 1000)
      else if sec \<le> 2147483647 sdiv hz cf then sec * hz cf
      else 2147483647)"

definition gettimeofday ::
  "(timeval \<Rightarrow> timeval) \<Rightarrow> (nat \<Rightarrow> timeval \<Rightarrow> int) \<Rightarrow> (nat \<Rightarrow> timezone \<Rightarrow> int) \<Rightarrow>
   nat \<Rightarrow> nat \<Rightarrow> kclock \<Rightarrow> int \<times> timeval option \<times> timezone option" where
  "gettimeofday microtime copyout_tv copyout_tz tp tzp ks =
     (let e1 = (if tp \<noteq> 0 then copyout_tv tp (microtime (time ks)) else 0);
          o1 = (if tp \<noteq> 0 then Some (microtime (time ks)) else None) in
      if e1 \<noteq> 0 then (e1, o1, None)
      else if tzp \<noteq> 0 then (copyout_tz tzp (tz ks), o1, Some (tz ks))
      else (0, o1, None))"

definition settimeofday ::
  "int \<Rightarrow> (nat \<Rightarrow> int + timeval) \<Rightarrow> (nat \<Rightarrow> int + timezone) \<Rightarrow>
   nat \<Rightarrow> nat \<Rightarrow> kclock \<Rightarrow> int \<times> kclock" where
  "settimeofday priv copyin_tv copyin_tz tvp tzp ks =
     (let settz = (\<lambda>ks. if tzp \<noteq> 0 then (case copyin_tz tzp of Inl e \<Rightarrow> (e, ks) | Inr z \<Rightarrow> (0, ks\<lparr>tz := z\<rparr>))
                       else (0, ks)) in
      if priv \<noteq> 0 then (priv, ks)
      else if tvp \<noteq> 0 then
        (case copyin_tv tvp of
           Inl e \<Rightarrow> (e, ks)
         | Inr atv \<Rightarrow> settz (ks\<lparr>boottime := (boottime ks)\<lparr>tv_sec := tv_sec (boottime ks) + (tv_sec atv - tv_sec (time ks))\<rparr>,
             time := atv, todr := todr ks + 1\<rparr>))
      else settz ks)"

definition adjtime ::
  "kconf \<Rightarrow> int \<Rightarrow> (nat \<Rightarrow> int + timeval) \<Rightarrow> nat \<Rightarrow> nat \<Rightarrow> kclock \<Rightarrow> int \<times> timeval option \<times> kclock" where
  "adjtime cf priv copyin_tv delta olddelta ks =
     (if priv \<noteq> 0 then (priv, None, ks)
      else case copyin_tv delta of
        Inl e \<Rightarrow> (e, None, ks)
      | Inr atv \<Rightarrow>
          let ndelta = wrap32 (wrap32 (tv_sec atv * 1000000) + tv_usec atv);
              td = (if timedelta ks = 0
                    then if bigadj < ndelta then 10 * tickadj cf else tickadj cf
                    else tickdelta ks);
              ndelta' = (if ndelta smod td \<noteq> 0 then ndelta sdiv tickadj cf * tickadj cf else ndelta);
              oatv = (if olddelta \<noteq> 0
                      then Some \<lparr>tv_sec = timedelta ks sdiv 1000000, tv_usec = timedelta ks smod 1000000\<rparr>
                      else None)
          in (0, oatv, ks\<lparr>tickdelta := td, timedelta := ndelta'\<rparr>))"

text \<open>The value \<open>getitimer\<close> copies out.\<close>

definition getitimer_value :: "nat \<Rightarrow> tproc \<Rightarrow> kclock \<Rightarrow> itimerval" where
  "getitimer_value which p ks =
     (if which = ITIMER_REAL
      then let aitv = p_realtimer p in
           if timerisset (it_value aitv)
           then if timerlt (it_value aitv) (time ks) then aitv\<lparr>it_value := timerclear\<rparr>
                else aitv\<lparr>it_value := timevalsub (it_value aitv) (time ks)\<rparr>
           else aitv
      else p_timer p ! which)"

definition getitimer ::
  "(nat \<Rightarrow> itimerval \<Rightarrow> int) \<Rightarrow> nat \<Rightarrow> nat \<Rightarrow> tproc \<Rightarrow> kclock \<Rightarrow> int \<times> itimerval option" where
  "getitimer copyout which itv p ks =
     (if ITIMER_PROF < which then (EINVAL, None)
      else let aitv = getitimer_value which p ks in (copyout itv aitv, Some aitv))"

text \<open>The part of \<open>setitimer\<close> after the new value has been checked.\<close>

definition setitimer_store ::
  "kconf \<Rightarrow> nat \<Rightarrow> itimerval \<Rightarrow> tproc \<Rightarrow> kclock \<Rightarrow> (tproc \<times> kclock) kres" where
  "setitimer_store cf which aitv p ks =
     (if which = ITIMER_REAL
      then let q = untimeout realitexpire_fn (p_addr p) (callouts ks) in
           if timerisset (it_value aitv)
           then let v = timevaladd (it_value aitv) (time ks) in
                kmap (\<lambda>q'. (p\<lparr>p_realtimer := aitv\<lparr>it_value := v\<rparr>\<rparr>, ks\<lparr>callouts := q'\<rparr>))
                     (timeout realitexpire_fn (p_addr p) (hzto cf v (time ks)) q)
           else Done (p\<lparr>p_realtimer := aitv\<rparr>, ks\<lparr>callouts := q\<rparr>)
      else Done (p\<lparr>p_timer := (p_timer p)[which := aitv]\<rparr>, ks))"

definition setitimer ::
  "kconf \<Rightarrow> (nat \<Rightarrow> int + itimerval) \<Rightarrow> (nat \<Rightarrow> itimerval \<Rightarrow> int) \<Rightarrow> nat \<Rightarrow> nat \<Rightarrow> nat \<Rightarrow> tproc \<Rightarrow> kclock \<Rightarrow>
   (int \<times> itimerval option \<times> tproc \<times> kclock) kres" where
  "setitimer cf copyin copyout which itv oitv p ks =
     (if ITIMER_PROF < which then Done (EINVAL, None, p, ks)
      else case (if itv \<noteq> 0 then copyin itv else Inr \<lparr>it_interval = timerclear, it_value = timerclear\<rparr>) of
        Inl e \<Rightarrow> Done (e, None, p, ks)
      | Inr aitv \<Rightarrow>
          let (e, old) = (if oitv \<noteq> 0 then getitimer copyout which oitv p ks else (0, None)) in
          if e \<noteq> 0 then Done (e, old, p, ks)
          else if itv = 0 then Done (0, old, p, ks)
          else case itimerfix (tick cf) (it_value aitv) of
            Inl _ \<Rightarrow> Done (EINVAL, old, p, ks)
          | Inr v \<Rightarrow>
              (case itimerfix (tick cf) (it_interval aitv) of
                 Inl _ \<Rightarrow> Done (EINVAL, old, p, ks)
               | Inr iv \<Rightarrow>
                   kmap (\<lambda>(p', ks'). (0, old, p', ks'))
                     (setitimer_store cf which \<lparr>it_interval = iv, it_value = v\<rparr> p ks)))"

text \<open>The reload loop of \<open>realitexpire\<close>; not leaving it is \<open>None\<close>.\<close>

partial_function (option) realit_reload :: "timeval \<Rightarrow> timeval \<Rightarrow> timeval \<Rightarrow> timeval option" where
  "realit_reload interval now v =
     (let v' = timevaladd v interval in
      if timerlt now v' then Some v' else realit_reload interval now v')"

definition realitexpire :: "kconf \<Rightarrow> tproc \<Rightarrow> kclock \<Rightarrow> (tproc \<times> kclock) kres option" where
  "realitexpire cf p0 ks =
     (let p = p0\<lparr>p_sigs := p_sigs p0 @ [SIGALRM]\<rparr>; rt = p_realtimer p in
      if \<not> timerisset (it_interval rt)
      then Some (Done (p\<lparr>p_realtimer := rt\<lparr>it_value := timerclear\<rparr>\<rparr>, ks))
      else Option.bind (realit_reload (it_interval rt) (time ks) (it_value rt)) (\<lambda>v.
        Some (kmap (\<lambda>q. (p\<lparr>p_realtimer := rt\<lparr>it_value := v\<rparr>\<rparr>, ks\<lparr>callouts := q\<rparr>))
          (timeout realitexpire_fn (p_addr p) (hzto cf v (time ks)) (callouts ks)))))"

text \<open>The end of \<open>hardclock\<close>: the time of day advances by a tick, skewed while a correction is pending.\<close>

definition clock_advance :: "kconf \<Rightarrow> kclock \<Rightarrow> kclock" where
  "clock_advance cf ks =
     (if timedelta ks = 0 then ks\<lparr>time := bumptime (time ks) (tick cf)\<rparr>
      else if timedelta ks < 0
      then ks\<lparr>timedelta := timedelta ks + tickdelta ks, time := bumptime (time ks) (tick cf - tickdelta ks)\<rparr>
      else ks\<lparr>timedelta := timedelta ks - tickdelta ks, time := bumptime (time ks) (tick cf + tickdelta ks)\<rparr>)"

section \<open>Arithmetic of time values\<close>

definition usecs :: "timeval \<Rightarrow> int" where
  "usecs tv = tv_sec tv * 1000000 + tv_usec tv"

definition tv_ok :: "timeval \<Rightarrow> bool" where
  "tv_ok tv \<longleftrightarrow> 0 \<le> tv_usec tv \<and> tv_usec tv < 1000000"

lemma timevalfix_usecs: "usecs (timevalfix t) = usecs t"
  by (simp add: timevalfix_def usecs_def Let_def algebra_simps)

lemma timevaladd_usecs [simp]: "usecs (timevaladd a b) = usecs a + usecs b"
  by (simp add: timevaladd_def timevalfix_usecs) (simp add: usecs_def algebra_simps)

lemma timevalsub_usecs [simp]: "usecs (timevalsub a b) = usecs a - usecs b"
  by (simp add: timevalsub_def timevalfix_usecs) (simp add: usecs_def algebra_simps)

lemma timevaladd_ok: "tv_ok a \<Longrightarrow> tv_ok b \<Longrightarrow> tv_ok (timevaladd a b)"
  by (auto simp: timevaladd_def timevalfix_def tv_ok_def Let_def)

lemma timevalsub_ok: "tv_ok a \<Longrightarrow> tv_ok b \<Longrightarrow> tv_ok (timevalsub a b)"
  by (auto simp: timevalsub_def timevalfix_def tv_ok_def Let_def)

lemma bumptime_usecs [simp]: "usecs (bumptime t u) = usecs t + u"
  by (simp add: bumptime_def usecs_def Let_def algebra_simps)

lemma bumptime_ok: "tv_ok t \<Longrightarrow> 0 \<le> u \<Longrightarrow> u \<le> 1000000 \<Longrightarrow> tv_ok (bumptime t u)"
  by (auto simp: bumptime_def tv_ok_def Let_def)

lemma timerlt_usecs: "tv_ok a \<Longrightarrow> tv_ok b \<Longrightarrow> timerlt a b \<longleftrightarrow> usecs a < usecs b"
  by (auto simp: timerlt_def usecs_def tv_ok_def)

lemma sec_usec_unique:
  "sa * 1000000 + ua = sb * 1000000 + ub \<Longrightarrow> 0 \<le> ua \<Longrightarrow> ua < 1000000 \<Longrightarrow> 0 \<le> ub \<Longrightarrow> ub < 1000000 \<Longrightarrow>
   sa = sb \<and> ua = (ub :: int)"
proof -
  assume e: "sa * 1000000 + ua = sb * 1000000 + ub" and b: "0 \<le> ua" "ua < 1000000" "0 \<le> ub" "ub < 1000000"
  have "ua = (sa * 1000000 + ua) mod 1000000" using b by simp
  also have "\<dots> = ub" unfolding e using b by simp
  finally show ?thesis using e by simp
qed

lemma usecs_inj: "tv_ok a \<Longrightarrow> tv_ok b \<Longrightarrow> usecs a = usecs b \<Longrightarrow> a = b"
  using sec_usec_unique [of "tv_sec a" "tv_usec a" "tv_sec b" "tv_usec b"]
  by (auto simp: usecs_def tv_ok_def intro!: timeval.equality)

lemma timerisset_usecs: "tv_ok a \<Longrightarrow> timerisset a \<longleftrightarrow> usecs a \<noteq> 0"
  using sec_usec_unique [of "tv_sec a" "tv_usec a" 0 0]
  by (auto simp: timerisset_def usecs_def tv_ok_def)

lemma usecs_timerclear [simp]: "usecs timerclear = 0" and tv_ok_timerclear [simp]: "tv_ok timerclear"
  by (simp_all add: usecs_def tv_ok_def timerclear_def)

definition it_ok :: "itimerval \<Rightarrow> bool" where
  "it_ok it \<longleftrightarrow> tv_ok (it_value it) \<and> tv_ok (it_interval it) \<and> 0 \<le> tv_sec (it_value it) \<and> 0 \<le> tv_sec (it_interval it)"

lemma itimer_reload_usecs:
  assumes "it_ok it" "0 \<le> u" "u \<le> 1000000" "u \<le> usecs (it_interval it) \<or> usecs (it_interval it) = 0"
    and "tv_sec (it_value it) = 0"
  shows "it_ok (itimer_reload it u) \<and> it_interval (itimer_reload it u) = it_interval it \<and>
         usecs (it_value (itimer_reload it u)) = (if usecs (it_interval it) = 0 then 0 else usecs (it_interval it) - u)"
proof (cases "timerisset (it_interval it)")
  case True
  then have "usecs (it_interval it) \<noteq> 0" using assms(1) by (simp add: timerisset_usecs it_ok_def)
  then show ?thesis using True assms
    by (auto simp: itimer_reload_def it_ok_def tv_ok_def usecs_def Let_def)
next
  case False
  then have "usecs (it_interval it) = 0" by (simp add: timerisset_def usecs_def)
  then show ?thesis using False assms(1,5) by (simp add: itimer_reload_def it_ok_def tv_ok_def usecs_def)
qed

section \<open>Properties\<close>

text \<open>
  an interval timer does not drift.  Decrementing a timer that is set by at most a second
  subtracts exactly that time while some remains; otherwise the timer expires and is reloaded with
  its interval less the time by which it was overrun, or cleared when it has no interval.
\<close>

theorem itimerdecr_exact:
  assumes "it_ok it" "0 < usecs (it_value it)" "0 \<le> u" "u \<le> 1000000"
    and "u \<le> usecs (it_interval it) \<or> usecs (it_interval it) = 0"
  shows "case itimerdecr it u of (running, it') \<Rightarrow>
    it_ok it' \<and> it_interval it' = it_interval it \<and>
    (running \<longleftrightarrow> u < usecs (it_value it)) \<and>
    usecs (it_value it') =
      (if u < usecs (it_value it) then usecs (it_value it) - u
       else if usecs (it_interval it) = 0 then 0
       else usecs (it_interval it) - (u - usecs (it_value it)))"
proof -
  let ?v = "it_value it"
  have ok: "0 \<le> tv_usec ?v" "tv_usec ?v < 1000000" "0 \<le> tv_sec ?v" "0 \<le> usecs (it_interval it)"
    using assms(1) by (auto simp: it_ok_def tv_ok_def usecs_def)
  show ?thesis
  proof (cases "tv_usec ?v < u \<and> tv_sec ?v = 0")
    case True
    then have "usecs ?v = tv_usec ?v" by (simp add: usecs_def)
    then show ?thesis
      using True itimer_reload_usecs [OF assms(1), of "u - tv_usec ?v"] assms(4,5) ok
      by (auto simp: itimerdecr_def Let_def)
  next
    case False
    define v' where "v' = (if tv_usec ?v < u then \<lparr>tv_sec = tv_sec ?v - 1, tv_usec = tv_usec ?v + 1000000 - u\<rparr>
       else ?v\<lparr>tv_usec := tv_usec ?v - u\<rparr>)"
    have v': "tv_ok v'" "0 \<le> tv_sec v'" "usecs v' = usecs ?v - u"
      using False ok assms(3,4) by (auto simp: v'_def tv_ok_def usecs_def)
    have e: "itimerdecr it u = (if timerisset v' then (True, it\<lparr>it_value := v'\<rparr>)
        else (False, itimer_reload (it\<lparr>it_value := v'\<rparr>) 0))"
      using False by (auto simp: itimerdecr_def Let_def v'_def)
    have iok: "it_ok (it\<lparr>it_value := v'\<rparr>)" using assms(1) v' by (simp add: it_ok_def)
    have nn: "0 \<le> usecs v'" using v' by (simp add: usecs_def tv_ok_def)
    show ?thesis
    proof (cases "timerisset v'")
      case True
      then show ?thesis using e iok v' nn by (simp add: timerisset_usecs)
    next
      case ns: False
      then have "tv_sec v' = 0" "usecs v' = 0" by (auto simp: timerisset_def usecs_def)
      then show ?thesis using e ns v'(3) itimer_reload_usecs [OF iok, of 0] ok(4) by auto
    qed
  qed
qed

theorem itimerdecr_exact_witness:
  "case itimerdecr \<lparr>it_interval = \<lparr>tv_sec = 0, tv_usec = 20000\<rparr>, it_value = \<lparr>tv_sec = 0, tv_usec = 4000\<rparr>\<rparr> 10000 of
     (running, it') \<Rightarrow> \<not> running \<and> usecs (it_value it') = 14000"
  using itimerdecr_exact [of "\<lparr>it_interval = \<lparr>tv_sec = 0, tv_usec = 20000\<rparr>, it_value = \<lparr>tv_sec = 0, tv_usec = 4000\<rparr>\<rparr>" 10000]
  by (simp add: it_ok_def tv_ok_def usecs_def split_beta)

text \<open>A value accepted by \<open>itimerfix\<close> is normalised, and at least a tick when it is not zero.\<close>

lemma itimerfix_ok:
  assumes "itimerfix tk tv = Inr v" "0 < tk" "tk < 1000000"
  shows "tv_ok v" "0 \<le> tv_sec v" "usecs v = 0 \<longleftrightarrow> usecs tv = 0" "usecs v \<noteq> 0 \<Longrightarrow> tk \<le> usecs v"
  using assms by (auto simp: itimerfix_def tv_ok_def usecs_def split: if_splits)

text \<open>
  what \<open>setitimer\<close> sets \<open>getitimer\<close> returns.  Setting a timer to acceptable values succeeds
  unless the callout table is full; read back at the same time the timer has the values set,
  rounded up to the resolution of the clock.  For the real-time timer the earlier alarm is
  cancelled and, when the value is not zero, one alarm is scheduled at the tick \<open>hzto\<close> computes.
\<close>

theorem setitimer_getitimer:
  assumes "which \<le> 2" "length (p_timer p) = 3" "itv \<noteq> 0" "copyin itv = Inr aitv"
    and "0 < tick cf" "tick cf < 1000000"
    and "itimerfix (tick cf) (it_value aitv) = Inr v" "itimerfix (tick cf) (it_interval aitv) = Inr iv"
    and "tv_ok (time ks)" "0 < usecs (time ks)" "callq_ok (callouts ks)" "callfree (callouts ks) \<noteq> []"
  shows "\<exists>p' ks'. setitimer cf copyin copyout which itv 0 p ks = Done (0, None, p', ks') \<and>
    getitimer_value which p' ks' = \<lparr>it_interval = iv, it_value = v\<rparr> \<and>
    (which = ITIMER_REAL \<longrightarrow>
       pending (callouts ks') =
         (let rest = ev_remove realitexpire_fn (p_addr p) (pending (callouts ks)) in
          if usecs v = 0 then rest
          else ev_insert (realitexpire_fn, p_addr p, max 1 (hzto cf (timevaladd v (time ks)) (time ks))) rest))"
proof -
  have s: "setitimer cf copyin copyout which itv 0 p ks =
      kmap (\<lambda>(p', ks'). (0, None, p', ks')) (setitimer_store cf which \<lparr>it_interval = iv, it_value = v\<rparr> p ks)"
    using assms by (simp add: setitimer_def ITIMER_PROF_def)
  note vok = itimerfix_ok [OF assms(7,5,6)]
  show ?thesis
  proof (cases "which = ITIMER_REAL")
    case False
    then show ?thesis using s assms(1,2)
      by (simp add: setitimer_store_def getitimer_value_def)
  next
    case real: True
    let ?q = "untimeout realitexpire_fn (p_addr p) (callouts ks)"
    have q: "callq_ok ?q" "pending ?q = ev_remove realitexpire_fn (p_addr p) (pending (callouts ks))"
      using pending_untimeout [OF assms(11)] by simp_all
    have fr: "callfree ?q \<noteq> []" using assms(12) by (auto simp: untimeout_def split: prod.splits option.splits)
    show ?thesis
    proof (cases "usecs v = 0")
      case True
      then have "\<not> timerisset v" using vok(1) by (simp add: timerisset_usecs)
      then show ?thesis using s real q True by (simp add: setitimer_store_def getitimer_value_def)
    next
      case False
      then have isset: "timerisset v" using vok(1) by (simp add: timerisset_usecs)
      let ?v = "timevaladd v (time ks)"
      have vv: "tv_ok ?v" "usecs ?v = usecs v + usecs (time ks)" "0 < usecs v"
        using vok False assms(5,9) by (auto intro: timevaladd_ok)
      have restored: "timevalsub ?v (time ks) = v"
        using vv(1) vok(1) assms(9) by (intro usecs_inj) (auto intro: timevalsub_ok)
      obtain q' where to: "timeout realitexpire_fn (p_addr p) (hzto cf ?v (time ks)) ?q = Done q'"
        using fr by (cases "callfree ?q") (auto simp: timeout_def Let_def)
      have "timerisset ?v" "\<not> timerlt ?v (time ks)"
        using vv assms(9,10) by (simp_all add: timerisset_usecs timerlt_usecs)
      then show ?thesis using s real to isset restored False pending_timeout [OF q(1) to] q(2)
        by (simp add: setitimer_store_def getitimer_value_def Let_def)
    qed
  qed
qed

definition proc_demo :: tproc where
  "proc_demo = \<lparr>p_addr = 8, p_realtimer = \<lparr>it_interval = timerclear, it_value = timerclear\<rparr>,
     p_timer = replicate 3 \<lparr>it_interval = timerclear, it_value = timerclear\<rparr>, p_sigs = []\<rparr>"

definition kclock_demo :: kclock where
  "kclock_demo = \<lparr>time = \<lparr>tv_sec = 700000000, tv_usec = 500000\<rparr>, boottime = timerclear,
     tz = \<lparr>tz_minuteswest = 0, tz_dsttime = 0\<rparr>, timedelta = 0, tickdelta = 0, callouts = callq_demo, todr = 0\<rparr>"

definition kconf_demo :: kconf where
  "kconf_demo = \<lparr>hz = 100, tick = 10000, tickadj = 40\<rparr>"

theorem setitimer_getitimer_witness:
  "\<exists>p' ks'. setitimer kconf_demo (\<lambda>_. Inr \<lparr>it_interval = \<lparr>tv_sec = 0, tv_usec = 50\<rparr>, it_value = \<lparr>tv_sec = 2, tv_usec = 0\<rparr>\<rparr>)
      (\<lambda>_ _. 0) ITIMER_REAL 16 0 proc_demo kclock_demo = Done (0, None, p', ks') \<and>
    getitimer_value ITIMER_REAL p' ks' = \<lparr>it_interval = \<lparr>tv_sec = 0, tv_usec = 10000\<rparr>, it_value = \<lparr>tv_sec = 2, tv_usec = 0\<rparr>\<rparr>"
proof -
  have fix1: "itimerfix (tick kconf_demo) \<lparr>tv_sec = 2, tv_usec = 0\<rparr> = Inr \<lparr>tv_sec = 2, tv_usec = 0\<rparr>"
    and fix2: "itimerfix (tick kconf_demo) \<lparr>tv_sec = 0, tv_usec = 50\<rparr> = Inr \<lparr>tv_sec = 0, tv_usec = 10000\<rparr>"
    by (simp_all add: itimerfix_def kconf_demo_def)
  show ?thesis
    using setitimer_getitimer [of ITIMER_REAL proc_demo 16
        "\<lambda>_. Inr \<lparr>it_interval = \<lparr>tv_sec = 0, tv_usec = 50\<rparr>, it_value = \<lparr>tv_sec = 2, tv_usec = 0\<rparr>\<rparr>"
        "\<lparr>it_interval = \<lparr>tv_sec = 0, tv_usec = 50\<rparr>, it_value = \<lparr>tv_sec = 2, tv_usec = 0\<rparr>\<rparr>" kconf_demo
        "\<lparr>tv_sec = 2, tv_usec = 0\<rparr>" "\<lparr>tv_sec = 0, tv_usec = 10000\<rparr>" kclock_demo "\<lambda>_ _. 0"]
      fix1 fix2 callq_demo_ok
    by (auto simp: ITIMER_REAL_def proc_demo_def kconf_demo_def kclock_demo_def tv_ok_def usecs_def callq_demo_def)
qed

lemma realit_reload_Some:
  assumes "tv_ok iv" "tv_ok v" "tv_ok now" "0 < usecs iv"
  shows "\<exists>v' n. realit_reload iv now v = Some v' \<and> tv_ok v' \<and> usecs v' = usecs v + int (Suc n) * usecs iv \<and>
     usecs now < usecs v' \<and> (n = 0 \<or> usecs v' - usecs iv \<le> usecs now)"
  using assms(2)
proof (induction "nat (usecs now - usecs v)" arbitrary: v rule: less_induct)
  case less
  let ?v = "timevaladd v iv"
  have v: "tv_ok ?v" "usecs ?v = usecs v + usecs iv" using less.prems assms(1) by (simp_all add: timevaladd_ok)
  show ?case
  proof (cases "usecs now < usecs ?v")
    case True
    then have "realit_reload iv now v = Some ?v"
      using v assms(3) by (subst realit_reload.simps) (simp add: timerlt_usecs Let_def)
    then show ?thesis using v True by (intro exI [of _ ?v] exI [of _ 0]) simp
  next
    case False
    then have "nat (usecs now - usecs ?v) < nat (usecs now - usecs v)" using v assms(4) by simp
    from less.hyps [OF this v(1)] obtain v' n where ih: "realit_reload iv now ?v = Some v'" "tv_ok v'"
      "usecs v' = usecs ?v + int (Suc n) * usecs iv" "usecs now < usecs v'"
      "n = 0 \<or> usecs v' - usecs iv \<le> usecs now" by blast
    have "realit_reload iv now v = Some v'"
      using v assms(3) ih(1) False by (subst realit_reload.simps) (simp add: timerlt_usecs Let_def)
    moreover have "usecs v' - usecs iv \<le> usecs now" using ih(3,5) v(2) False by auto
    ultimately show ?thesis using ih v(2)
      by (intro exI [of _ v'] exI [of _ "Suc n"]) (simp add: algebra_simps)
  qed
qed

text \<open>
  a periodic alarm keeps its phase.  When the real-time timer of a process expires, the
  process is signalled once; with an interval set, the routine returns, the next expiry is the
  first multiple of the interval after the old expiry that lies in the future, however late the
  call was, and one call is scheduled for it.
\<close>

theorem realitexpire_next:
  assumes "tv_ok (it_interval (p_realtimer p))" "tv_ok (it_value (p_realtimer p))" "tv_ok (time ks)"
    and "0 < usecs (it_interval (p_realtimer p))" "callq_ok (callouts ks)" "callfree (callouts ks) \<noteq> []"
  shows "\<exists>p' ks' n. realitexpire cf p ks = Some (Done (p', ks')) \<and> p_sigs p' = p_sigs p @ [SIGALRM] \<and>
    (let v = it_value (p_realtimer p'); iv = usecs (it_interval (p_realtimer p)) in
     usecs v = usecs (it_value (p_realtimer p)) + int (Suc n) * iv \<and>
     usecs (time ks) < usecs v \<and> (n = 0 \<or> usecs v - iv \<le> usecs (time ks)) \<and>
     pending (callouts ks') =
       ev_insert (realitexpire_fn, p_addr p, max 1 (hzto cf v (time ks))) (pending (callouts ks)))"
proof -
  let ?rt = "p_realtimer p"
  obtain v n where v: "realit_reload (it_interval ?rt) (time ks) (it_value ?rt) = Some v" "tv_ok v"
    "usecs v = usecs (it_value ?rt) + int (Suc n) * usecs (it_interval ?rt)"
    "usecs (time ks) < usecs v" "n = 0 \<or> usecs v - usecs (it_interval ?rt) \<le> usecs (time ks)"
    using realit_reload_Some [OF assms(1-4)] by blast
  obtain q' where to: "timeout realitexpire_fn (p_addr p) (hzto cf v (time ks)) (callouts ks) = Done q'"
    using assms(6) by (cases "callfree (callouts ks)") (auto simp: timeout_def Let_def)
  have isset: "timerisset (it_interval ?rt)" using assms(1,4) by (simp add: timerisset_usecs)
  show ?thesis
    using v to isset pending_timeout [OF assms(5) to] by (auto simp: realitexpire_def Let_def)
qed

theorem realitexpire_next_witness:
  "\<exists>p' ks'. realitexpire kconf_demo (proc_demo\<lparr>p_realtimer := \<lparr>it_interval = \<lparr>tv_sec = 1, tv_usec = 0\<rparr>,
        it_value = \<lparr>tv_sec = 699999998, tv_usec = 0\<rparr>\<rparr>\<rparr>) kclock_demo = Some (Done (p', ks')) \<and>
     usecs (time kclock_demo) < usecs (it_value (p_realtimer p'))"
  using realitexpire_next [of "proc_demo\<lparr>p_realtimer := \<lparr>it_interval = \<lparr>tv_sec = 1, tv_usec = 0\<rparr>,
        it_value = \<lparr>tv_sec = 699999998, tv_usec = 0\<rparr>\<rparr>\<rparr>" kclock_demo kconf_demo] callq_demo_ok
  by (auto simp: tv_ok_def usecs_def kclock_demo_def callq_demo_def Let_def)

section \<open>Skewing the clock\<close>

lemma wrap32_id: "- 2147483648 \<le> x \<Longrightarrow> x < 2147483648 \<Longrightarrow> wrap32 x = x"
  unfolding wrap32_def by (rule signed_take_bit_int_eq_self) simp_all

lemma clock_advance_tickdelta: "tickdelta ((clock_advance cf ^^ n) ks) = tickdelta ks"
  by (induction n) (auto simp: clock_advance_def)

text \<open>Each tick moves a pending correction by \<open>tickdelta\<close>, so its residue never changes.\<close>

lemma clock_advance_step:
  "timedelta ks \<noteq> 0 \<Longrightarrow>
   timedelta (clock_advance cf ks) = timedelta ks + tickdelta ks \<or>
   timedelta (clock_advance cf ks) = timedelta ks - tickdelta ks"
  by (simp add: clock_advance_def)

lemma clock_advance_residue:
  assumes "\<not> tickdelta ks dvd timedelta ks"
  shows "\<not> tickdelta ks dvd timedelta ((clock_advance cf ^^ n) ks)"
proof (induction n)
  case (Suc n)
  let ?k = "(clock_advance cf ^^ n) ks"
  have "timedelta ?k \<noteq> 0" "tickdelta ?k = tickdelta ks"
    using Suc by (auto simp: clock_advance_tickdelta)
  with clock_advance_step [of ?k cf] Suc show ?case
    using dvd_diff_commute [of "tickdelta ks" "timedelta ?k" "tickdelta ks"]
      dvd_add [of "tickdelta ks" "timedelta ?k - tickdelta ks" "tickdelta ks"] by auto
qed (use assms in simp)

lemma clock_advance_drain:
  assumes "0 < d" "tickdelta ks = d" "timedelta ks = sg * int n * d" "sg = 1 \<or> sg = - 1"
  shows "timedelta ((clock_advance cf ^^ n) ks) = 0 \<and>
    usecs (time ((clock_advance cf ^^ n) ks)) = usecs (time ks) + int n * tick cf + sg * int n * d"
  using assms(2,3)
proof (induction n arbitrary: ks)
  case (Suc n)
  let ?k = "clock_advance cf ks"
  have pos: "0 < int (Suc n) * d" using assms(1) by simp
  then have k: "tickdelta ?k = d" "timedelta ?k = sg * int n * d" "usecs (time ?k) = usecs (time ks) + tick cf + sg * d"
    using Suc.prems assms(4) by (auto simp: clock_advance_def algebra_simps)
  show ?case
    using Suc.IH [OF k(1,2)] k(3)
    by (simp add: funpow_Suc_right algebra_simps del: funpow.simps)
qed simp

text \<open>
  a clock correction of at most a second is applied and ends.  After \<open>adjtime\<close> has accepted a
  correction while none was pending, the clock runs skewed for as many ticks as the correction has
  multiples of \<open>tickadj\<close>, after which nothing is pending and the clock has gained (or lost) exactly
  those multiples over the ticks counted.
\<close>

theorem adjtime_applied:
  assumes "0 < tickadj cf" "timedelta ks = 0" "copyin delta = Inr atv" "\<bar>usecs atv\<bar> \<le> 1000000" "\<bar>tv_sec atv\<bar> \<le> 1"
  shows "case adjtime cf 0 copyin delta old ks of (err, oatv, ks') \<Rightarrow>
    err = 0 \<and>
    (let n = nat (\<bar>usecs atv\<bar> div tickadj cf); k = (clock_advance cf ^^ n) ks' in
     timedelta k = 0 \<and>
     usecs (time k) = usecs (time ks) + int n * tick cf + sgn (usecs atv) * int n * tickadj cf)"
proof -
  let ?u = "usecs atv" and ?d = "tickadj cf"
  let ?n = "nat (\<bar>?u\<bar> div ?d)"
  have w: "wrap32 (wrap32 (tv_sec atv * 1000000) + tv_usec atv) = ?u"
    using assms(4,5) by (simp add: wrap32_id usecs_def abs_le_iff)
  have big: "\<not> bigadj < ?u" using assms(4) by (simp add: bigadj_def)
  have n: "int ?n = \<bar>?u\<bar> div ?d" using assms(1) by (simp add: pos_imp_zdiv_nonneg_iff)
  have q: "?u sdiv ?d = sgn ?u * int ?n" using assms(1) n by (simp add: signed_divide_int_def)
  have nd: "(if ?u smod ?d \<noteq> 0 then ?u sdiv ?d * ?d else ?u) = sgn ?u * int ?n * ?d"
    using q sdiv_mult_smod_eq [of ?u ?d] by auto
  let ?k = "ks\<lparr>tickdelta := ?d, timedelta := sgn ?u * int ?n * ?d\<rparr>"
  have a: "\<exists>oatv. adjtime cf 0 copyin delta old ks = (0, oatv, ?k)"
    using assms(2,3) big nd by (simp add: adjtime_def w Let_def)
  have "timedelta ((clock_advance cf ^^ ?n) ?k) = 0 \<and>
    usecs (time ((clock_advance cf ^^ ?n) ?k)) = usecs (time ks) + int ?n * tick cf + sgn ?u * int ?n * ?d"
  proof (cases "?u = 0")
    case True
    then have "?n = 0" by simp
    then show ?thesis using True by simp
  next
    case False
    then show ?thesis
      using clock_advance_drain [where d = ?d and ks = ?k and sg = "sgn ?u" and n = ?n and cf = cf] assms(1) by (simp add: sgn_if)
  qed
  then show ?thesis using a by (auto simp: Let_def)
qed

theorem adjtime_applied_witness:
  "case adjtime kconf_demo 0 (\<lambda>_. Inr \<lparr>tv_sec = - 1, tv_usec = 999900\<rparr>) 16 0 kclock_demo of (err, oatv, ks') \<Rightarrow>
     err = 0 \<and> timedelta ((clock_advance kconf_demo ^^ 2) ks') = 0"
  using adjtime_applied [of kconf_demo kclock_demo "\<lambda>_. Inr \<lparr>tv_sec = - 1, tv_usec = 999900\<rparr>" 16 "\<lparr>tv_sec = - 1, tv_usec = 999900\<rparr>" 0]
  by (simp add: kconf_demo_def kclock_demo_def usecs_def split_beta Let_def)

text \<open>
  a correction larger than a second need not end.  With the standard clock (100 interrupts a
  second, a skew of 40 microseconds a tick), a correction of 1.00004 seconds is accepted and
  leaves a remainder that is no multiple of the tenfold skew then used, so that at every later
  tick a correction is still pending and the clock stays skewed.
\<close>

theorem adjtime_never_settles:
  "case adjtime \<lparr>hz = 100, tick = 10000, tickadj = 40\<rparr> 0 (\<lambda>_. Inr \<lparr>tv_sec = 1, tv_usec = 40\<rparr>) delta old
          (ks\<lparr>timedelta := 0\<rparr>) of (err, oatv, ks') \<Rightarrow>
     err = 0 \<and> (\<forall>n. timedelta ((clock_advance \<lparr>hz = 100, tick = 10000, tickadj = 40\<rparr> ^^ n) ks') \<noteq> 0)"
proof -
  let ?cf = "\<lparr>hz = 100, tick = 10000, tickadj = 40\<rparr> :: kconf"
  let ?k = "ks\<lparr>tickdelta := 400, timedelta := 1000040\<rparr>"
  have "\<not> tickdelta ?k dvd timedelta ?k" by simp
  then have "timedelta ((clock_advance ?cf ^^ n) ?k) \<noteq> 0" for n
    using clock_advance_residue [where ks = ?k and cf = ?cf and n = n] by auto
  then show ?thesis
    by (simp add: adjtime_def wrap32_id bigadj_def signed_divide_int_def signed_modulo_int_def Let_def)
qed

end
