(* ===== verification/Synch.thy ===== *)
theory Synch
  imports Prelude
begin

text \<open>
  Sleeping, waking and priorities: \<open>kern/synch.c\<close> with the run-queue routines \<open>setrq\<close> and \<open>remrq\<close>
  of \<open>include/portable/inline/kernel\<close>.  The sleep queues and the run queues are linked through
  the processes; here each queue is the list of its processes in link order.  A process is linked
  on a run queue exactly when its \<open>p_rlink\<close> is not null.  \<open>swtch\<close>, which resumes another process,
  and \<open>CURSIG\<close> are outside: \<open>tsleep\<close> is modelled up to its call of \<open>swtch\<close> and from its return.
\<close>

section \<open>State\<close>

record sproc =
  p_stat :: pstat
  p_wchan :: u32
  p_slptime :: u32
  p_time :: u32
  p_pctcpu :: u32
  p_cpticks :: u32
  p_cpu :: u32
  p_pri :: u8
  p_usrpri :: u8
  p_nice :: int
  p_sload :: bool
  p_swexit :: bool
  p_ssintr :: bool
  p_stimo :: bool

record ssys =
  procs :: "nat \<Rightarrow> sproc"
  slpque :: "nat \<Rightarrow> nat list"
  qs :: "nat \<Rightarrow> nat list"
  whichqs :: u32
  curproc :: nat
  curpri :: u32
  want_resched :: bool
  averunnable0 :: u32

definition PUSER :: u8 where "PUSER = 50"
definition MAXPRI :: u32 where "MAXPRI = 127"
definition FSCALE :: u32 where "FSCALE = 2048"
definition UCHAR_MAX :: u32 where "UCHAR_MAX = 255"

definition pupd :: "nat \<Rightarrow> (sproc \<Rightarrow> sproc) \<Rightarrow> ssys \<Rightarrow> ssys" where
  "pupd p f s = s\<lparr>procs := (procs s)(p := f (procs s p))\<rparr>"

definition HASH :: "u32 \<Rightarrow> nat" where
  "HASH x = unat ((drop_bit 5 x) mod 64)"

definition need_resched :: "ssys \<Rightarrow> ssys" where
  "need_resched s = s\<lparr>want_resched := True\<rparr>"

section \<open>Run queues\<close>

definition rqidx :: "sproc \<Rightarrow> nat" where
  "rqidx pr = unat (p_pri pr) div 4"

definition on_rq :: "nat \<Rightarrow> ssys \<Rightarrow> bool" where
  "on_rq p s \<longleftrightarrow> (\<exists>i \<in> set [0..<32]. p \<in> set (qs s i))"

definition setrq :: "nat \<Rightarrow> ssys \<Rightarrow> ssys kres" where
  "setrq p s =
     (let i = rqidx (procs s p) in
      if on_rq p s then Panic ''setrq: already linked''
      else Done (s\<lparr>qs := (qs s)(i := qs s i @ [p]), whichqs := set_bit i (whichqs s)\<rparr>))"

text \<open>
  \<open>remrq\<close> unlinks the process from the queue it is linked on, and then recomputes the bit of the
  queue of its priority; its diagnostic test compares before it masks, and never fires.
\<close>

definition remrq :: "nat \<Rightarrow> ssys \<Rightarrow> ssys kres" where
  "remrq p s =
     (if \<not> on_rq p s then Fault
      else let i = rqidx (procs s p);
               q = (\<lambda>j. if j < 32 then filter (\<lambda>x. x \<noteq> p) (qs s j) else qs s j) in
           Done (s\<lparr>qs := q, whichqs := (if q i = [] then unset_bit i (whichqs s) else set_bit i (whichqs s))\<rparr>))"

definition rqinit :: "ssys \<Rightarrow> ssys" where
  "rqinit s = s\<lparr>qs := (\<lambda>i. if i < 32 then [] else qs s i)\<rparr>"

section \<open>Priorities\<close>

definition setpri :: "nat \<Rightarrow> ssys \<Rightarrow> ssys" where
  "setpri p s =
     (let pr = procs s p;
          newpri = min (ucast PUSER + p_cpu pr div 4 + word_of_int (2 * p_nice pr)) MAXPRI;
          s' = pupd p (\<lambda>pr. pr\<lparr>p_usrpri := ucast newpri\<rparr>) s in
      if newpri < curpri s then need_resched s' else s')"

definition loadfactor :: "u32 \<Rightarrow> u32" where
  "loadfactor av = 2 * av"

definition decay_cpu :: "u32 \<Rightarrow> u32 \<Rightarrow> u32" where
  "decay_cpu loadfac cpu = (loadfac * cpu) div (loadfac + FSCALE)"

text \<open>The loop of \<open>updatepri\<close>: it ends because \<open>p_slptime\<close> is decremented to zero.\<close>

function decay_loop :: "u32 \<Rightarrow> u32 \<Rightarrow> u32 \<Rightarrow> u32 \<times> u32" where
  "decay_loop loadfac slp newcpu =
     (if newcpu = 0 then (slp, newcpu)
      else if slp - 1 = 0 then (slp - 1, newcpu)
      else decay_loop loadfac (slp - 1) (decay_cpu loadfac newcpu))"
  by pat_completeness auto
termination
proof (relation "measure (\<lambda>(lf, slp, c). unat (slp - 1))")
  fix lf slp c :: u32
  assume "slp - 1 \<noteq> 0"
  then have "unat (slp - 1 - 1) < unat (slp - 1)"
    by (metis diff_less unat_gt_0 unat_minus_one zero_less_one word_neq_0_conv)
  then show "((lf, slp - 1, decay_cpu lf c), lf, slp, c) \<in> measure (\<lambda>(lf, slp, c). unat (slp - 1))" by simp
qed simp

declare decay_loop.simps [simp del]

definition updatepri :: "nat \<Rightarrow> ssys \<Rightarrow> ssys" where
  "updatepri p s =
     (let pr = procs s p; loadfac = loadfactor (averunnable0 s) in
      setpri p
        (if 5 * loadfac < p_slptime pr then pupd p (\<lambda>pr. pr\<lparr>p_cpu := 0\<rparr>) s
         else let (slp, newcpu) = decay_loop loadfac (p_slptime pr - 1) (p_cpu pr) in
              pupd p (\<lambda>pr. pr\<lparr>p_slptime := slp, p_cpu := min newcpu UCHAR_MAX\<rparr>) s))"

section \<open>Sleeping and waking\<close>

text \<open>
  \<open>tsleep\<close> up to the signal check: the process records what it waits for and goes to the tail
  of the sleep queue of its channel.
\<close>

definition tsleep_enqueue :: "u32 \<Rightarrow> u32 \<Rightarrow> ssys \<Rightarrow> ssys kres" where
  "tsleep_enqueue chan pri s =
     (let p = curproc s in
      if chan = 0 \<or> p_stat (procs s p) \<noteq> SRUN \<or> on_rq p s then Panic ''tsleep''
      else let s1 = pupd p (\<lambda>pr. pr\<lparr>p_wchan := chan, p_slptime := 0, p_pri := ucast (pri mod 128)\<rparr>) s;
               h = HASH chan in
           Done (s1\<lparr>slpque := (slpque s1)(h := slpque s1 h @ [p])\<rparr>))"

definition unsleep :: "nat \<Rightarrow> ssys \<Rightarrow> ssys kres" where
  "unsleep p s =
     (if p_wchan (procs s p) = 0 then Done s
      else let h = HASH (p_wchan (procs s p)) in
           if p \<notin> set (slpque s h) then Fault
           else Done (pupd p (\<lambda>pr. pr\<lparr>p_wchan := 0\<rparr>) (s\<lparr>slpque := (slpque s)(h := remove1 p (slpque s h))\<rparr>)))"

text \<open>
  The rest of \<open>tsleep\<close> before \<open>swtch\<close>.  \<open>catch\<close> is whether signals are caught; \<open>cursig\<close> is
  \<open>CURSIG\<close>: a signal number and the state it leaves, since the process may be stopped and woken
  in it.  The result says whether the process now has to wait in \<open>swtch\<close>, and the signal found.
\<close>

definition tsleep_block :: "bool \<Rightarrow> (ssys \<Rightarrow> nat \<times> ssys) \<Rightarrow> ssys \<Rightarrow> (bool \<times> bool \<times> nat \<times> ssys) kres" where
  "tsleep_block catch cursig s =
     (let p = curproc s; wait = (\<lambda>s. Done (True, catch, 0, pupd p (\<lambda>pr. pr\<lparr>p_stat := SSLEEP\<rparr>) s)) in
      if catch then
        let (sig, s1) = cursig (pupd p (\<lambda>pr. pr\<lparr>p_ssintr := True\<rparr>) s) in
        if sig \<noteq> 0
        then kmap (\<lambda>s2. (False, True, sig, pupd p (\<lambda>pr. pr\<lparr>p_stat := SRUN\<rparr>) s2)) (unsleep p s1)
        else if p_wchan (procs s1 p) = 0 then Done (False, False, 0, s1)
        else wait s1
      else wait s)"

datatype tsret = TsOk | EWOULDBLOCK | EINTR | ERESTART

text \<open>
  \<open>tsleep\<close> from \<open>resume\<close> on.  \<open>sigintr sig\<close> is whether the signal interrupts system calls.  The
  flag returned tells that the pending timeout is cancelled by \<open>untimeout\<close>.
\<close>

definition tsleep_resume ::
  "bool \<Rightarrow> nat \<Rightarrow> bool \<Rightarrow> (ssys \<Rightarrow> nat \<times> ssys) \<Rightarrow> (nat \<Rightarrow> bool) \<Rightarrow> ssys \<Rightarrow> tsret \<times> bool \<times> ssys" where
  "tsleep_resume catch sig timo cursig sigintr s =
     (let p = curproc s; pr = procs s p;
          s1 = pupd p (\<lambda>pr. pr\<lparr>p_ssintr := False\<rparr>) (s\<lparr>curpri := ucast (p_usrpri pr)\<rparr>);
          untime = (\<not> p_stimo pr \<and> timo);
          s2 = (if p_stimo pr then pupd p (\<lambda>pr. pr\<lparr>p_stimo := False\<rparr>) s1 else s1) in
      if p_stimo pr \<and> (\<not> catch \<or> sig = 0) then (EWOULDBLOCK, untime, s2)
      else if catch
      then let (sig', s3) = (if sig \<noteq> 0 then (sig, s2) else cursig s2) in
           if sig' \<noteq> 0 then (if sigintr sig' then EINTR else ERESTART, untime, s3) else (TsOk, untime, s3)
      else (TsOk, untime, s2))"

definition setrun :: "nat \<Rightarrow> ssys \<Rightarrow> ssys kres" where
  "setrun p s =
     kbind (case p_stat (procs s p) of
        SSTOP \<Rightarrow> unsleep p s | SSLEEP \<Rightarrow> unsleep p s | SIDL \<Rightarrow> Done s | _ \<Rightarrow> Panic ''setrun'') (\<lambda>s1.
     let s2 = pupd p (\<lambda>pr. pr\<lparr>p_stat := SRUN\<rparr>) s1 in
     kbind (if p_sload (procs s2 p) then setrq p s2 else Done s2) (\<lambda>s3.
     let s4 = (if 1 < p_slptime (procs s3 p) then updatepri p s3 else s3);
         s5 = pupd p (\<lambda>pr. pr\<lparr>p_slptime := 0\<rparr>) s4 in
     Done (if ucast (p_pri (procs s5 p)) < curpri s5 then need_resched s5 else s5)))"

text \<open>The callout of a timed sleep.\<close>

definition endtsleep :: "nat \<Rightarrow> ssys \<Rightarrow> ssys kres" where
  "endtsleep p s =
     (if p_wchan (procs s p) = 0 then Done s
      else kmap (pupd p (\<lambda>pr. pr\<lparr>p_stimo := True\<rparr>))
             (if p_stat (procs s p) = SSLEEP then setrun p s else unsleep p s))"

text \<open>The inline expansion of \<open>setrun\<close> in \<open>wakeup\<close>.\<close>

definition wakeup_run :: "nat \<Rightarrow> ssys \<Rightarrow> ssys kres" where
  "wakeup_run p s =
     (let s1 = (if 1 < p_slptime (procs s p) then updatepri p s else s);
          s2 = pupd p (\<lambda>pr. pr\<lparr>p_slptime := 0, p_stat := SRUN\<rparr>) s1 in
      kmap need_resched (if p_sload (procs s2 p) then setrq p s2 else Done s2))"

text \<open>
  The scan of \<open>wakeup\<close>: \<open>pre\<close> is the part of the queue already passed, \<open>q\<close> the rest.  After a
  process has been made runnable the scan starts again at the head of the queue.
\<close>

function wakeup_scan :: "u32 \<Rightarrow> nat list \<Rightarrow> nat list \<Rightarrow> ssys \<Rightarrow> ssys kres" where
  "wakeup_scan chan pre [] s = Done s"
| "wakeup_scan chan pre (p # ps) s =
     (let st = p_stat (procs s p) in
      if on_rq p s \<or> st \<noteq> SSLEEP \<and> st \<noteq> SSTOP then Panic ''wakeup''
      else if p_wchan (procs s p) = chan
      then let s1 = pupd p (\<lambda>pr. pr\<lparr>p_wchan := 0\<rparr>) (s\<lparr>slpque := (slpque s)(HASH chan := pre @ ps)\<rparr>) in
           if st = SSLEEP then kbind (wakeup_run p s1) (wakeup_scan chan [] (pre @ ps))
           else wakeup_scan chan pre ps s1
      else wakeup_scan chan (pre @ [p]) ps s)"
  by pat_completeness auto
termination
  by (relation "measures [\<lambda>(c, pre, q, s). length pre + length q, \<lambda>(c, pre, q, s). length q]") auto

definition wakeup :: "u32 \<Rightarrow> ssys \<Rightarrow> ssys kres" where
  "wakeup chan s = wakeup_scan chan [] (slpque s (HASH chan)) s"

section \<open>The once-a-second recomputation\<close>

definition schedcpu_proc :: "u32 \<Rightarrow> u32 \<Rightarrow> u32 \<Rightarrow> nat \<Rightarrow> ssys \<Rightarrow> ssys kres" where
  "schedcpu_proc hz ccpu loadfac p s =
     (let pr0 = procs s p;
          pr1 = pr0\<lparr>p_time := p_time pr0 + 1,
                    p_slptime := (if p_stat pr0 = SSLEEP \<or> p_stat pr0 = SSTOP then p_slptime pr0 + 1 else p_slptime pr0),
                    p_pctcpu := drop_bit 11 (p_pctcpu pr0 * ccpu)\<rparr> in
      if 1 < p_slptime pr1 then Done (pupd p (\<lambda>_. pr1) s)
      else let pct = (if hz = 100 then p_cpticks pr1 else 100 * p_cpticks pr1 div hz);
               newcpu = decay_cpu loadfac (p_cpu pr1) + word_of_int (p_nice pr1);
               pr2 = pr1\<lparr>p_pctcpu := p_pctcpu pr1 + pct, p_cpticks := 0, p_cpu := min newcpu UCHAR_MAX\<rparr>;
               s1 = setpri p (pupd p (\<lambda>_. pr2) s); pr = procs s1 p;
               reset = pupd p (\<lambda>pr. pr\<lparr>p_pri := p_usrpri pr\<rparr>) in
           if PUSER \<le> p_pri pr then
             if p \<noteq> curproc s1 \<and> p_stat pr = SRUN \<and> p_sload pr \<and> \<not> p_swexit pr \<and>
                p_pri pr div 4 \<noteq> p_usrpri pr div 4
             then kbind (remrq p s1) (\<lambda>s2. setrq p (reset s2))
             else Done (reset s1)
           else Done s1)"

fun schedcpu_procs :: "u32 \<Rightarrow> u32 \<Rightarrow> u32 \<Rightarrow> nat list \<Rightarrow> ssys \<Rightarrow> ssys kres" where
  "schedcpu_procs hz ccpu loadfac [] s = Done s"
| "schedcpu_procs hz ccpu loadfac (p # ps) s =
     kbind (schedcpu_proc hz ccpu loadfac p s) (schedcpu_procs hz ccpu loadfac ps)"

text \<open>\<open>schedcpu\<close>: \<open>lbolt\<close> is the channel of the once-a-second sleepers, \<open>allproc\<close> the list of processes.\<close>

definition schedcpu :: "u32 \<Rightarrow> u32 \<Rightarrow> u32 \<Rightarrow> nat list \<Rightarrow> ssys \<Rightarrow> ssys kres" where
  "schedcpu hz ccpu lbolt allproc s =
     kbind (wakeup lbolt s) (schedcpu_procs hz ccpu (loadfactor (averunnable0 s)) allproc)"

section \<open>The invariant of the queues\<close>

text \<open>
  A process is on the sleep queue of its channel exactly while it has one, once, and is then
  asleep or stopped.  A process on a run queue is runnable and loaded, waits for nothing and is
  not the one running; it is there once, on the queue of its priority unless it is exiting.  The
  bit mask \<open>whichqs\<close> marks the queues that are not empty.
\<close>

definition slp_ok :: "ssys \<Rightarrow> bool" where
  "slp_ok s \<longleftrightarrow> (\<forall>h. distinct (slpque s h)) \<and>
     (\<forall>h p. p \<in> set (slpque s h) \<longleftrightarrow> p_wchan (procs s p) \<noteq> 0 \<and> HASH (p_wchan (procs s p)) = h) \<and>
     (\<forall>p. p_wchan (procs s p) \<noteq> 0 \<longrightarrow> p \<noteq> curproc s \<and> p_stat (procs s p) \<in> {SSLEEP, SSTOP})"

definition rq_ok :: "ssys \<Rightarrow> bool" where
  "rq_ok s \<longleftrightarrow> (\<forall>i < 32. distinct (qs s i)) \<and>
     (\<forall>i < 32. \<forall>p \<in> set (qs s i). (p_swexit (procs s p) \<or> rqidx (procs s p) = i) \<and>
        p_stat (procs s p) = SRUN \<and> p_sload (procs s p) \<and> p \<noteq> curproc s) \<and>
     (\<forall>i < 32. \<forall>j < 32. i \<noteq> j \<longrightarrow> set (qs s i) \<inter> set (qs s j) = {}) \<and>
     (\<forall>i < 32. bit (whichqs s) i \<longleftrightarrow> qs s i \<noteq> [])"

definition syn_inv :: "ssys \<Rightarrow> bool" where
  "syn_inv s \<longleftrightarrow> slp_ok s \<and> rq_ok s \<and> (\<forall>p. p_pri (procs s p) < 128)"

text \<open>Changes that the invariant does not look at.\<close>

definition qview :: "sproc \<Rightarrow> u32 \<times> u8 \<times> pstat \<times> bool \<times> bool" where
  "qview pr = (p_wchan pr, p_pri pr, p_stat pr, p_sload pr, p_swexit pr)"

definition same_q :: "ssys \<Rightarrow> ssys \<Rightarrow> bool" where
  "same_q s t \<longleftrightarrow> slpque s = slpque t \<and> qs s = qs t \<and> whichqs s = whichqs t \<and> curproc s = curproc t \<and>
     (\<forall>p. qview (procs s p) = qview (procs t p))"

lemma same_q_refl [simp]: "same_q s s"
  by (simp add: same_q_def)

lemma same_q_trans: "same_q s t \<Longrightarrow> same_q t u \<Longrightarrow> same_q s u"
  by (simp add: same_q_def)

lemma same_qD:
  assumes "same_q s t"
  shows "p_wchan (procs s p) = p_wchan (procs t p)" "p_pri (procs s p) = p_pri (procs t p)"
    "p_stat (procs s p) = p_stat (procs t p)" "p_sload (procs s p) = p_sload (procs t p)"
    "p_swexit (procs s p) = p_swexit (procs t p)" "rqidx (procs s p) = rqidx (procs t p)"
    "slpque s = slpque t" "qs s = qs t" "whichqs s = whichqs t" "curproc s = curproc t"
  using assms by (auto simp: same_q_def qview_def rqidx_def)

lemma same_q_inv: "same_q s t \<Longrightarrow> syn_inv s = syn_inv t"
  by (simp only: syn_inv_def slp_ok_def rq_ok_def same_qD)

lemma same_q_on_rq: "same_q s t \<Longrightarrow> on_rq p s = on_rq p t"
  by (simp only: on_rq_def same_qD)

lemma same_q_pupd: "(\<And>pr. qview (f pr) = qview pr) \<Longrightarrow> same_q (pupd p f s) s"
  by (simp add: same_q_def pupd_def)

lemma same_q_need_resched [simp]: "same_q (need_resched s) s"
  by (simp add: same_q_def need_resched_def)

lemma procs_need_resched [simp]: "procs (need_resched s) = procs s"
  by (simp add: need_resched_def)

lemma procs_pupd [simp]: "procs (pupd p f s) q = (if q = p then f (procs s p) else procs s q)"
  by (simp add: pupd_def)

lemma pupd_sel [simp]:
  "slpque (pupd p f s) = slpque s" "qs (pupd p f s) = qs s" "whichqs (pupd p f s) = whichqs s"
  "curproc (pupd p f s) = curproc s" "averunnable0 (pupd p f s) = averunnable0 s"
  by (simp_all add: pupd_def)

lemma setpri_same: "same_q (setpri p s) s"
proof -
  have "same_q (pupd p (\<lambda>pr. pr\<lparr>p_usrpri := x\<rparr>) s) s" for x by (rule same_q_pupd) (simp add: qview_def)
  then show ?thesis by (auto simp: setpri_def Let_def intro: same_q_trans [OF same_q_need_resched])
qed

lemma setpri_others: "q \<noteq> p \<Longrightarrow> procs (setpri p s) q = procs s q"
  by (simp add: setpri_def Let_def)

lemma updatepri_same: "same_q (updatepri p s) s"
proof -
  have "same_q (pupd p (\<lambda>pr. pr\<lparr>p_cpu := x\<rparr>) s) s" "same_q (pupd p (\<lambda>pr. pr\<lparr>p_slptime := y, p_cpu := x\<rparr>) s) s"
    for x y by (rule same_q_pupd, simp add: qview_def)+
  then show ?thesis
    by (auto simp: updatepri_def Let_def split_beta intro: same_q_trans [OF setpri_same])
qed

lemma updatepri_others: "q \<noteq> p \<Longrightarrow> procs (updatepri p s) q = procs s q"
  by (simp add: updatepri_def Let_def split_beta setpri_others)

lemma rqidx_less: "syn_inv s \<Longrightarrow> rqidx (procs s p) < 32"
proof -
  assume "syn_inv s"
  then have "unat (p_pri (procs s p)) < unat (128 :: u8)"
    by (simp only: syn_inv_def word_less_nat_alt)
  then show ?thesis by (simp add: rqidx_def)
qed

lemma on_rq_iff: "on_rq p s \<longleftrightarrow> (\<exists>i < 32. p \<in> set (qs s i))"
  by (auto simp: on_rq_def)

lemma waiting_not_on_rq: "syn_inv s \<Longrightarrow> p_wchan (procs s p) \<noteq> 0 \<Longrightarrow> \<not> on_rq p s"
  by (auto simp: syn_inv_def slp_ok_def rq_ok_def on_rq_iff)

lemma inv_pupd:
  assumes "syn_inv s" "\<not> on_rq p s" "p_wchan (procs s p) = 0"
    and "p_wchan (f (procs s p)) = 0" "p_pri (f (procs s p)) < 128"
  shows "syn_inv (pupd p f s)"
  using assms by (auto simp: syn_inv_def slp_ok_def rq_ok_def on_rq_iff)

lemma setrq_inv:
  assumes inv: "syn_inv s" and "\<not> on_rq p s" "p_stat (procs s p) = SRUN" "p_sload (procs s p)" "p \<noteq> curproc s"
  shows "\<exists>s'. setrq p s = Done s' \<and> syn_inv s' \<and> on_rq p s' \<and> procs s' = procs s \<and> slpque s' = slpque s \<and>
     curproc s' = curproc s \<and> averunnable0 s' = averunnable0 s \<and> (\<forall>q. on_rq q s \<longrightarrow> on_rq q s')"
proof -
  let ?i = "rqidx (procs s p)"
  let ?s = "s\<lparr>qs := (qs s)(?i := qs s ?i @ [p]), whichqs := set_bit ?i (whichqs s)\<rparr>"
  have i: "?i < 32" by (rule rqidx_less [OF inv])
  have nin: "p \<notin> set (qs s j)" if "j < 32" for j using assms(2) that by (auto simp: on_rq_iff)
  have "rq_ok ?s"
    unfolding rq_ok_def
  proof (intro conjI allI impI ballI)
    show "distinct (qs ?s j)" if "j < 32" for j
      using inv nin [OF that] that by (auto simp: syn_inv_def rq_ok_def)
    show "p_swexit (procs ?s q) \<or> rqidx (procs ?s q) = j" "p_stat (procs ?s q) = SRUN" "p_sload (procs ?s q)"
      "q \<noteq> curproc ?s" if "j < 32" "q \<in> set (qs ?s j)" for j q
      using inv assms(3-5) that by (auto simp: syn_inv_def rq_ok_def split: if_splits)
    show "set (qs ?s j) \<inter> set (qs ?s k) = {}" if "j < 32" "k < 32" "j \<noteq> k" for j k
      using inv nin [OF that(1)] nin [OF that(2)] that by (auto simp: syn_inv_def rq_ok_def)
    show "bit (whichqs ?s) j \<longleftrightarrow> qs ?s j \<noteq> []" if "j < 32" for j
      using inv that by (auto simp: syn_inv_def rq_ok_def bit_set_bit_iff)
  qed
  moreover have "slp_ok ?s" "\<forall>q. p_pri (procs ?s q) < 128" using inv by (simp_all add: syn_inv_def slp_ok_def)
  ultimately have "syn_inv ?s" by (simp add: syn_inv_def)
  moreover have "on_rq p ?s" using i by (auto simp: on_rq_iff)
  moreover have "on_rq q ?s" if on: "on_rq q s" for q
  proof -
    from on obtain j where "j < 32" "q \<in> set (qs s j)" by (auto simp: on_rq_iff)
    then show ?thesis unfolding on_rq_iff by (intro exI [of _ j]) auto
  qed
  moreover have "setrq p s = Done ?s" using assms(2) by (simp add: setrq_def Let_def)
  ultimately show ?thesis by simp
qed

lemma remrq_inv:
  assumes inv: "syn_inv s" and on: "on_rq p s" and "\<not> p_swexit (procs s p)"
  shows "\<exists>s'. remrq p s = Done s' \<and> syn_inv s' \<and> \<not> on_rq p s' \<and> procs s' = procs s \<and> slpque s' = slpque s \<and>
     curproc s' = curproc s \<and> averunnable0 s' = averunnable0 s \<and> (\<forall>q. q \<noteq> p \<longrightarrow> on_rq q s \<longrightarrow> on_rq q s')"
proof -
  let ?i = "rqidx (procs s p)"
  let ?q = "\<lambda>j. if j < 32 then filter (\<lambda>x. x \<noteq> p) (qs s j) else qs s j"
  let ?s = "s\<lparr>qs := ?q, whichqs := (if ?q ?i = [] then unset_bit ?i (whichqs s) else set_bit ?i (whichqs s))\<rparr>"
  have i: "?i < 32" by (rule rqidx_less [OF inv])
  have off: "p \<notin> set (qs s j)" if "j < 32" "j \<noteq> ?i" for j
    using inv assms(3) that by (auto simp: syn_inv_def rq_ok_def)
  have keep: "filter (\<lambda>x. x \<noteq> p) (qs s j) = qs s j" if "j < 32" "j \<noteq> ?i" for j
    using off [OF that] by (auto simp: filter_id_conv)
  have "rq_ok ?s"
    unfolding rq_ok_def
  proof (intro conjI allI impI ballI)
    show "distinct (qs ?s j)" if "j < 32" for j
      using inv that by (auto simp: syn_inv_def rq_ok_def)
    show "p_swexit (procs ?s q) \<or> rqidx (procs ?s q) = j" "p_stat (procs ?s q) = SRUN" "p_sload (procs ?s q)"
      "q \<noteq> curproc ?s" if "j < 32" "q \<in> set (qs ?s j)" for j q
      using inv that by (auto simp: syn_inv_def rq_ok_def)
    show "set (qs ?s j) \<inter> set (qs ?s k) = {}" if "j < 32" "k < 32" "j \<noteq> k" for j k
    proof -
      have "set (qs s j) \<inter> set (qs s k) = {}" using inv that by (simp add: syn_inv_def rq_ok_def)
      then show ?thesis using that by auto
    qed
    show "bit (whichqs ?s) j \<longleftrightarrow> qs ?s j \<noteq> []" if "j < 32" for j
    proof (cases "j = ?i")
      case True
      then show ?thesis using i by (simp add: bit_set_bit_iff bit_unset_bit_iff)
    next
      case False
      then have "bit (whichqs s) j \<longleftrightarrow> qs s j \<noteq> []" using inv that by (simp add: syn_inv_def rq_ok_def)
      then show ?thesis using False that keep [OF that False] i
        by (simp add: bit_set_bit_iff bit_unset_bit_iff)
    qed
  qed
  moreover have "slp_ok ?s" "\<forall>q. p_pri (procs ?s q) < 128" using inv by (simp_all add: syn_inv_def slp_ok_def)
  ultimately have "syn_inv ?s" by (simp add: syn_inv_def)
  moreover have "\<not> on_rq p ?s" "\<forall>q. q \<noteq> p \<longrightarrow> on_rq q s \<longrightarrow> on_rq q ?s" by (auto simp: on_rq_iff)
  moreover have "remrq p s = Done ?s" using on by (simp add: remrq_def Let_def)
  ultimately show ?thesis by simp
qed

text \<open>Taking a process off its sleep queue.\<close>

definition dequeue :: "nat \<Rightarrow> ssys \<Rightarrow> ssys" where
  "dequeue p s = pupd p (\<lambda>pr. pr\<lparr>p_wchan := 0\<rparr>)
     (s\<lparr>slpque := (slpque s)(HASH (p_wchan (procs s p)) := remove1 p (slpque s (HASH (p_wchan (procs s p)))))\<rparr>)"

lemma dequeue_inv:
  assumes "syn_inv s" "p_wchan (procs s p) \<noteq> 0"
  shows "syn_inv (dequeue p s)"
proof -
  have "\<not> on_rq p s" using assms by (rule waiting_not_on_rq)
  then have "rq_ok (dequeue p s)" "\<forall>q. p_pri (procs (dequeue p s) q) < 128"
    using assms(1) by (auto simp: syn_inv_def rq_ok_def on_rq_iff dequeue_def)
  moreover have "slp_ok (dequeue p s)"
    using assms by (auto simp: syn_inv_def slp_ok_def dequeue_def)
  ultimately show ?thesis by (simp add: syn_inv_def)
qed

lemma unsleep_Done:
  assumes "syn_inv s"
  shows "unsleep p s = Done (if p_wchan (procs s p) = 0 then s else dequeue p s)"
  using assms by (auto simp: unsleep_def dequeue_def Let_def syn_inv_def slp_ok_def)

text \<open>What making a process runnable does to it and to the others.\<close>

definition made_runnable :: "nat \<Rightarrow> ssys \<Rightarrow> ssys \<Rightarrow> bool" where
  "made_runnable p s s' \<longleftrightarrow> syn_inv s' \<and> p_stat (procs s' p) = SRUN \<and> p_wchan (procs s' p) = 0 \<and>
     p_slptime (procs s' p) = 0 \<and> (p_sload (procs s p) \<longrightarrow> on_rq p s') \<and> p_sload (procs s' p) = p_sload (procs s p) \<and>
     (\<forall>q. q \<noteq> p \<longrightarrow> procs s' q = procs s q) \<and> (\<forall>q. on_rq q s \<longrightarrow> on_rq q s') \<and> curproc s' = curproc s"

lemma same_q_slptime: "same_q (pupd p (\<lambda>pr. pr\<lparr>p_slptime := x\<rparr>) s) s"
  by (rule same_q_pupd) (simp add: qview_def)

lemma wakeup_run_inv:
  assumes inv: "syn_inv s" and "\<not> on_rq p s" "p_wchan (procs s p) = 0" "p \<noteq> curproc s"
  shows "\<exists>s'. wakeup_run p s = Done s' \<and> made_runnable p s s' \<and> slpque s' = slpque s"
proof -
  define s1 where "s1 = (if 1 < p_slptime (procs s p) then updatepri p s else s)"
  define s2 where "s2 = pupd p (\<lambda>pr. pr\<lparr>p_slptime := 0, p_stat := SRUN\<rparr>) s1"
  have q1: "same_q s1 s" using updatepri_same by (simp add: s1_def)
  note d1 = same_qD [OF q1]
  have oth: "procs s1 q = procs s q" if "q \<noteq> p" for q using that by (simp add: s1_def updatepri_others)
  have i1: "syn_inv s1" "\<not> on_rq p s1" using inv assms(2) same_q_inv [OF q1] same_q_on_rq [OF q1] by simp_all
  have i2: "syn_inv s2" unfolding s2_def
    using i1 assms(3) d1(1) by (intro inv_pupd) (auto simp: syn_inv_def)
  have on2: "on_rq q s2 = on_rq q s" for q
    using same_q_on_rq [OF q1] by (simp add: s2_def on_rq_iff)
  have e: "wakeup_run p s = kmap need_resched (if p_sload (procs s2 p) then setrq p s2 else Done s2)"
    by (simp add: wakeup_run_def Let_def s1_def s2_def)
  have p2: "p_stat (procs s2 p) = SRUN" "p_wchan (procs s2 p) = 0" "p_slptime (procs s2 p) = 0"
    "p_sload (procs s2 p) = p_sload (procs s p)" "curproc s2 = curproc s" "slpque s2 = slpque s"
    "\<And>q. q \<noteq> p \<Longrightarrow> procs s2 q = procs s q"
    using d1 assms(3) oth by (simp_all add: s2_def)
  show ?thesis
  proof (cases "p_sload (procs s2 p)")
    case True
    then obtain s3 where s3: "setrq p s2 = Done s3" "syn_inv s3" "on_rq p s3" "procs s3 = procs s2"
      "slpque s3 = slpque s2" "curproc s3 = curproc s2" "\<forall>q. on_rq q s2 \<longrightarrow> on_rq q s3"
      using setrq_inv [OF i2 _ p2(1)] on2 assms(2,4) p2 by auto
    then show ?thesis using e True p2 on2 same_q_inv [OF same_q_need_resched] same_q_on_rq [OF same_q_need_resched]
        same_qD(7,10) [OF same_q_need_resched]
      by (auto simp: made_runnable_def)
  next
    case False
    then show ?thesis using e p2 on2 i2 same_q_inv [OF same_q_need_resched] same_q_on_rq [OF same_q_need_resched]
        same_qD(7,10) [OF same_q_need_resched]
      by (auto simp: made_runnable_def)
  qed
qed

lemma setrun_inv:
  assumes inv: "syn_inv s" and st: "p_stat (procs s p) \<in> {SSLEEP, SSTOP, SIDL}" "p \<noteq> curproc s"
  shows "\<exists>s'. setrun p s = Done s' \<and> made_runnable p s s'"
proof -
  define s1 where "s1 = (if p_wchan (procs s p) = 0 then s else dequeue p s)"
  define s2 where "s2 = pupd p (\<lambda>pr. pr\<lparr>p_stat := SRUN\<rparr>) s1"
  have first: "(case p_stat (procs s p) of
        SSTOP \<Rightarrow> unsleep p s | SSLEEP \<Rightarrow> unsleep p s | SIDL \<Rightarrow> Done s | _ \<Rightarrow> Panic ''setrun'') = Done s1"
    using st inv by (auto simp: unsleep_Done s1_def syn_inv_def slp_ok_def)
  have off: "\<not> on_rq p s" using st inv by (auto simp: syn_inv_def rq_ok_def on_rq_iff)
  have i1: "syn_inv s1" using inv by (simp add: s1_def dequeue_inv)
  have p1: "p_wchan (procs s1 p) = 0" "p_sload (procs s1 p) = p_sload (procs s p)" "curproc s1 = curproc s"
    "\<And>q. q \<noteq> p \<Longrightarrow> procs s1 q = procs s q" "\<And>q. on_rq q s1 = on_rq q s"
    by (auto simp: s1_def dequeue_def on_rq_iff)
  have i2: "syn_inv s2" unfolding s2_def
    using i1 p1 off by (intro inv_pupd) (auto simp: syn_inv_def)
  have on2: "on_rq q s2 = on_rq q s" for q using p1(5) by (simp add: s2_def on_rq_iff)
  obtain s3 where s3: "(if p_sload (procs s2 p) then setrq p s2 else Done s2) = Done s3" "syn_inv s3"
    "p_sload (procs s p) \<longrightarrow> on_rq p s3" "procs s3 = procs s2" "curproc s3 = curproc s2" "\<forall>q. on_rq q s2 \<longrightarrow> on_rq q s3"
  proof (cases "p_sload (procs s2 p)")
    case True
    then show ?thesis using that setrq_inv [OF i2, of p] on2 off p1 st(2) by (force simp: s2_def)
  next
    case False
    then show ?thesis using that [of s2] i2 p1(2) by (auto simp: s2_def)
  qed
  define s4 where "s4 = (if 1 < p_slptime (procs s3 p) then updatepri p s3 else s3)"
  define s5 where "s5 = pupd p (\<lambda>pr. pr\<lparr>p_slptime := 0\<rparr>) s4"
  define s6 where "s6 = (if ucast (p_pri (procs s5 p)) < curpri s5 then need_resched s5 else s5)"
  have r: "setrun p s = Done s6"
    by (simp only: setrun_def first kbind.simps Let_def s2_def [symmetric] s3(1) s4_def [symmetric]
        s5_def [symmetric] s6_def [symmetric])
  have "same_q s4 s3" using updatepri_same by (simp add: s4_def)
  then have q: "same_q s6 s3"
    using same_q_trans [OF same_q_slptime [of p 0 s4]] same_q_trans [OF same_q_need_resched [of s5]]
    by (simp add: s6_def s5_def)
  have "procs s6 q = procs s q" if "q \<noteq> p" for q
    using that p1(4) s3(4) by (simp add: s6_def s5_def s4_def s2_def updatepri_others)
  moreover have "p_slptime (procs s6 p) = 0" by (simp add: s6_def s5_def)
  moreover have "p_stat (procs s6 p) = SRUN" "p_wchan (procs s6 p) = 0" "curproc s6 = curproc s"
    "p_sload (procs s6 p) = p_sload (procs s p)"
    using same_qD [OF q] s3(4,5) p1 by (simp_all add: s2_def)
  moreover have "syn_inv s6" "\<forall>q. on_rq q s6 = on_rq q s3" using s3(2) same_q_inv [OF q] same_q_on_rq [OF q] by simp_all
  ultimately show ?thesis using r s3(3,6) on2 by (auto simp: made_runnable_def)
qed

text \<open>What \<open>wakeup\<close> does to the processes \<open>W\<close> waiting for its channel.\<close>

definition woken :: "nat set \<Rightarrow> ssys \<Rightarrow> ssys \<Rightarrow> bool" where
  "woken W s s' \<longleftrightarrow> (\<forall>p \<in> W. p_wchan (procs s' p) = 0 \<and> p_sload (procs s' p) = p_sload (procs s p) \<and>
       (p_stat (procs s p) = SSLEEP \<longrightarrow> p_stat (procs s' p) = SRUN \<and> (p_sload (procs s p) \<longrightarrow> on_rq p s')) \<and>
       (p_stat (procs s p) = SSTOP \<longrightarrow> p_stat (procs s' p) = SSTOP)) \<and>
     (\<forall>p. p \<notin> W \<longrightarrow> procs s' p = procs s p) \<and> (\<forall>p. on_rq p s \<longrightarrow> on_rq p s') \<and> curproc s' = curproc s"

lemma woken_step:
  assumes "woken (W - {p}) s1 s'" "p \<in> W" "p_wchan (procs s1 p) = 0" "\<And>q. q \<noteq> p \<Longrightarrow> procs s1 q = procs s q"
    and "\<And>q. on_rq q s \<Longrightarrow> on_rq q s1" "curproc s1 = curproc s"
    and "p_stat (procs s p) = SSLEEP \<Longrightarrow> p_stat (procs s1 p) = SRUN \<and> (p_sload (procs s p) \<longrightarrow> on_rq p s1)"
    and "p_stat (procs s p) = SSTOP \<Longrightarrow> p_stat (procs s1 p) = SSTOP" "p_sload (procs s1 p) = p_sload (procs s p)"
  shows "woken W s s'"
proof -
  note w = assms(1) [unfolded woken_def]
  have p: "procs s' p = procs s1 p" "on_rq p s1 \<Longrightarrow> on_rq p s'" using w by auto
  have q: "q \<in> W - {p}" "procs s1 q = procs s q" if "q \<in> W" "q \<noteq> p" for q using that assms(4) by auto
  show ?thesis
    unfolding woken_def
  proof (intro conjI ballI allI impI)
    fix q assume "q \<in> W"
    then show "p_wchan (procs s' q) = 0" "p_sload (procs s' q) = p_sload (procs s q)"
      using p assms(3,9) w q [of q] by (cases "q = p"; auto)+
  next
    fix q assume "q \<in> W" "p_stat (procs s q) = SSLEEP"
    then show "p_stat (procs s' q) = SRUN" using p assms(7) w q [of q] by (cases "q = p") auto
  next
    fix q assume "q \<in> W" "p_stat (procs s q) = SSLEEP" "p_sload (procs s q)"
    then show "on_rq q s'" using p assms(7) w q [of q] by (cases "q = p") auto
  next
    fix q assume "q \<in> W" "p_stat (procs s q) = SSTOP"
    then show "p_stat (procs s' q) = SSTOP" using p assms(8) w q [of q] by (cases "q = p") auto
  next
    fix q assume "q \<notin> W"
    then show "procs s' q = procs s q" using w assms(2) assms(4) [of q] by auto
  qed (use w assms(5,6) in auto)
qed

lemma woken_refl: "W = {} \<Longrightarrow> woken W s s"
  by (simp add: woken_def)

abbreviation waits :: "u32 \<Rightarrow> ssys \<Rightarrow> nat set" where
  "waits chan s \<equiv> {p. p_wchan (procs s p) = chan}"

text \<open>The three ways the scan goes on.\<close>

lemma wakeup_scan_steps:
  assumes "\<not> on_rq p s" "p_stat (procs s p) = SSLEEP \<or> p_stat (procs s p) = SSTOP"
  shows "p_wchan (procs s p) \<noteq> chan \<Longrightarrow> wakeup_scan chan pre (p # ps) s = wakeup_scan chan (pre @ [p]) ps s"
    and "p_wchan (procs s p) = chan \<Longrightarrow> slpque s (HASH chan) = pre @ p # ps \<Longrightarrow> p \<notin> set pre \<Longrightarrow>
      wakeup_scan chan pre (p # ps) s =
        (if p_stat (procs s p) = SSLEEP
         then kbind (wakeup_run p (dequeue p s)) (wakeup_scan chan [] (pre @ ps))
         else wakeup_scan chan pre ps (dequeue p s))"
  using assms by (auto simp: dequeue_def remove1_append Let_def)

declare wakeup_scan.simps(2) [simp del]

lemma wakeup_scan_inv:
  assumes "syn_inv s" "chan \<noteq> 0" "slpque s (HASH chan) = pre @ q" "\<forall>p \<in> set pre. p_wchan (procs s p) \<noteq> chan"
  shows "\<exists>s'. wakeup_scan chan pre q s = Done s' \<and> syn_inv s' \<and> woken (waits chan s) s s' \<and>
     slpque s' = (slpque s)(HASH chan := pre @ filter (\<lambda>p. p_wchan (procs s p) \<noteq> chan) q)"
  using assms
proof (induction chan pre q s rule: wakeup_scan.induct)
  case (1 chan pre s)
  have "p \<in> set pre" if "p_wchan (procs s p) = chan" for p
    using that 1 by (auto simp: syn_inv_def slp_ok_def)
  then have "waits chan s = {}" using 1(4) by auto
  then show ?case using 1 by (simp add: woken_refl fun_upd_idem)
next
  case (2 chan pre p ps s)
  let ?st = "p_stat (procs s p)"
  have pq: "p \<in> set (slpque s (HASH chan))" using 2(6) by simp
  then have w: "p_wchan (procs s p) \<noteq> 0" "?st = SSLEEP \<or> ?st = SSTOP" "p \<noteq> curproc s" "\<not> on_rq p s"
    using 2(4) waiting_not_on_rq [OF 2(4), of p] by (auto simp: syn_inv_def slp_ok_def)
  have dist: "p \<notin> set pre" "p \<notin> set ps" "distinct (pre @ p # ps)"
    using 2(4,6) unfolding syn_inv_def slp_ok_def by (metis distinct_append distinct.simps(2) not_distinct_conv_prefix)+
  note steps = wakeup_scan_steps [OF w(4,2)]
  have c: "\<not> (on_rq p s \<or> ?st \<noteq> SSLEEP \<and> ?st \<noteq> SSTOP)" using w(2,4) by blast
  show ?case
  proof (cases "p_wchan (procs s p) = chan")
    case False
    have "\<forall>q \<in> set (pre @ [p]). p_wchan (procs s q) \<noteq> chan" using 2(7) False by simp
    from 2(3) [OF refl c False 2(4,5) _ this] 2(6) show ?thesis using steps(1) [OF False] False by simp
  next
    case True
    define s1 where "s1 = dequeue p s"
    have e1: "pupd p (\<lambda>pr. pr\<lparr>p_wchan := 0\<rparr>) (s\<lparr>slpque := (slpque s)(HASH chan := pre @ ps)\<rparr>) = s1"
      using True 2(6) dist by (simp add: s1_def dequeue_def remove1_append)
    have i1: "syn_inv s1" unfolding s1_def using 2(4) w(1) by (rule dequeue_inv)
    have f1: "p_wchan (procs s1 p) = 0" "\<And>q. q \<noteq> p \<Longrightarrow> procs s1 q = procs s q" "\<And>q. on_rq q s1 = on_rq q s"
      "curproc s1 = curproc s" "p_stat (procs s1 p) = ?st" "p_sload (procs s1 p) = p_sload (procs s p)"
      "slpque s1 = (slpque s)(HASH chan := pre @ ps)"
      unfolding e1 [symmetric] by (simp_all add: on_rq_iff)
    have pre1: "\<forall>q \<in> set pre. p_wchan (procs s1 q) \<noteq> chan" using 2(7) f1(2) dist(1) by metis
    show ?thesis
    proof (cases "?st = SSLEEP")
      case sl: True
      have n1: "\<not> on_rq p s1" "p \<noteq> curproc s1" using w f1(3,4) by simp_all
      obtain s2 where s2: "wakeup_run p s1 = Done s2" "made_runnable p s1 s2" "slpque s2 = slpque s1"
        using wakeup_run_inv [OF i1 n1(1) f1(1) n1(2)] by blast
      note m = s2(2) [unfolded made_runnable_def]
      have o2: "procs s2 q = procs s q" if "q \<noteq> p" for q using m f1(2) that by simp
      have e: "wakeup_scan chan pre (p # ps) s = wakeup_scan chan [] (pre @ ps) s2"
        using steps(2) [OF True 2(6) dist(1)] sl s2(1) by (simp add: s1_def)
      have sl2: "slpque s2 (HASH chan) = [] @ pre @ ps" using s2(3) f1(7) by simp
      have "syn_inv s2" "\<forall>q \<in> set []. p_wchan (procs s2 q) \<noteq> chan" using m by simp_all
      from 2(1) [OF refl c True e1 [symmetric] sl this(1) 2(5) sl2 this(2)]
      obtain s' where s': "wakeup_scan chan [] (pre @ ps) s2 = Done s'" "syn_inv s'" "woken (waits chan s2) s2 s'"
        "slpque s' = (slpque s2)(HASH chan := filter (\<lambda>p. p_wchan (procs s2 p) \<noteq> chan) (pre @ ps))"
        unfolding append_Nil by blast
      have ws: "waits chan s2 = waits chan s - {p}"
      proof (intro set_eqI)
        fix q show "q \<in> waits chan s2 \<longleftrightarrow> q \<in> waits chan s - {p}"
          using m o2 [of q] 2(5) by (cases "q = p") auto
      qed
      have "filter (\<lambda>p. p_wchan (procs s2 p) \<noteq> chan) pre = pre"
        using dist(1) 2(7) o2 by (intro filter_True ballI) metis
      moreover have "filter (\<lambda>p. p_wchan (procs s2 p) \<noteq> chan) ps = filter (\<lambda>p. p_wchan (procs s p) \<noteq> chan) ps"
        using dist(2) o2 by (intro filter_cong) (simp, metis)
      ultimately have "slpque s' = (slpque s)(HASH chan := pre @ filter (\<lambda>p. p_wchan (procs s p) \<noteq> chan) (p # ps))"
        using s'(4) s2(3) f1(7) True by simp
      moreover have "woken (waits chan s) s s'"
        by (rule woken_step [of _ p s2]) (use s'(3) ws m f1 o2 True sl in simp_all)
      ultimately show ?thesis unfolding e using s'(1,2) by blast
    next
      case False
      then have st: "?st = SSTOP" using w by simp
      have e: "wakeup_scan chan pre (p # ps) s = wakeup_scan chan pre ps s1"
        using steps(2) [OF True 2(6) dist(1)] False by (simp add: s1_def)
      have sl1: "slpque s1 (HASH chan) = pre @ ps" using f1(7) by simp
      from 2(2) [OF refl c True e1 [symmetric] False i1 2(5) sl1 pre1]
      obtain s' where s': "wakeup_scan chan pre ps s1 = Done s'" "syn_inv s'" "woken (waits chan s1) s1 s'"
        "slpque s' = (slpque s1)(HASH chan := pre @ filter (\<lambda>p. p_wchan (procs s1 p) \<noteq> chan) ps)"
        by blast
      have ws: "waits chan s1 = waits chan s - {p}"
      proof (intro set_eqI)
        fix q show "q \<in> waits chan s1 \<longleftrightarrow> q \<in> waits chan s - {p}"
          using f1(1) f1(2) [of q] 2(5) by (cases "q = p") auto
      qed
      have "filter (\<lambda>p. p_wchan (procs s1 p) \<noteq> chan) ps = filter (\<lambda>p. p_wchan (procs s p) \<noteq> chan) ps"
        using dist(2) f1(2) by (intro filter_cong) (simp, metis)
      then have "slpque s' = (slpque s)(HASH chan := pre @ filter (\<lambda>p. p_wchan (procs s p) \<noteq> chan) (p # ps))"
        using s'(4) f1(7) True by simp
      moreover have "woken (waits chan s) s s'"
        by (rule woken_step [of _ p s1]) (use s'(3) ws f1 True st in simp_all)
      ultimately show ?thesis unfolding e using s'(1,2) by blast
    qed
  qed
qed

text \<open>No runnable process is forgotten: one that is loaded and not running is on a run queue.\<close>

definition run_ok :: "ssys \<Rightarrow> bool" where
  "run_ok s \<longleftrightarrow> (\<forall>p. p_stat (procs s p) = SRUN \<and> p_sload (procs s p) \<and> p \<noteq> curproc s \<longrightarrow> on_rq p s)"

lemma run_ok_made: "run_ok s \<Longrightarrow> made_runnable p s s' \<Longrightarrow> run_ok s'"
  unfolding run_ok_def made_runnable_def by metis

lemma same_q_run_ok: "same_q s t \<Longrightarrow> run_ok s = run_ok t"
  by (simp add: run_ok_def same_qD same_q_on_rq)

lemma inv_pri:
  assumes "syn_inv s" "x < 128" "on_rq p s \<Longrightarrow> p_swexit (procs s p) \<or> unat x div 4 = rqidx (procs s p)"
  shows "syn_inv (pupd p (\<lambda>pr. pr\<lparr>p_pri := x\<rparr>) s)"
proof -
  have "rqidx (pr\<lparr>p_pri := x\<rparr>) = unat x div 4" for pr by (simp add: rqidx_def)
  moreover have "p_swexit (procs s p) \<or> unat x div 4 = i" if "i < 32" "p \<in> set (qs s i)" for i
    using assms(1,3) that unfolding syn_inv_def rq_ok_def on_rq_iff by blast
  ultimately show ?thesis using assms(1,2) by (auto simp: syn_inv_def slp_ok_def rq_ok_def)
qed

lemma setpri_usrpri: "p_usrpri (procs (setpri p s) p) < 128"
proof -
  have "ucast (min y MAXPRI) < (128 :: u8)" for y :: u32
  proof -
    have "min y MAXPRI \<le> 127" by (simp add: MAXPRI_def)
    then have "unat (min y MAXPRI) \<le> 127" by (simp add: word_le_nat_alt)
    then have "unat (ucast (min y MAXPRI) :: u8) \<le> 127"
      by (simp add: unsigned_ucast_eq take_bit_nat_def)
    then show ?thesis by (simp add: word_less_nat_alt)
  qed
  then show ?thesis by (simp add: setpri_def Let_def)
qed

lemma schedcpu_proc_inv:
  assumes inv: "syn_inv s" and run: "run_ok s"
  shows "\<exists>s'. schedcpu_proc hz ccpu lf p s = Done s' \<and> syn_inv s' \<and> run_ok s'"
proof -
  define pr1 where "pr1 = (let pr0 = procs s p in pr0\<lparr>p_time := p_time pr0 + 1,
                    p_slptime := (if p_stat pr0 = SSLEEP \<or> p_stat pr0 = SSTOP then p_slptime pr0 + 1 else p_slptime pr0),
                    p_pctcpu := drop_bit 11 (p_pctcpu pr0 * ccpu)\<rparr>)"
  define pr2 where "pr2 = (let pct = (if hz = 100 then p_cpticks pr1 else 100 * p_cpticks pr1 div hz);
               newcpu = decay_cpu lf (p_cpu pr1) + word_of_int (p_nice pr1) in
      pr1\<lparr>p_pctcpu := p_pctcpu pr1 + pct, p_cpticks := 0, p_cpu := min newcpu UCHAR_MAX\<rparr>)"
  define s1 where "s1 = setpri p (pupd p (\<lambda>_. pr2) s)"
  let ?pr = "procs s1 p" and ?x = "p_usrpri (procs s1 p)"
  let ?reset = "pupd p (\<lambda>pr. pr\<lparr>p_pri := p_usrpri pr\<rparr>)"
  have v: "qview pr1 = qview (procs s p)" "qview pr2 = qview (procs s p)"
    by (simp_all add: pr1_def pr2_def qview_def Let_def)
  have qa: "same_q (pupd p (\<lambda>_. pr1) s) s" using v(1) by (simp add: same_q_def)
  have "same_q (pupd p (\<lambda>_. pr2) s) s" using v(2) by (simp add: same_q_def)
  then have qb: "same_q s1 s" unfolding s1_def by (rule same_q_trans [OF setpri_same])
  have i1: "syn_inv s1" "run_ok s1" using inv run same_q_inv [OF qb] same_q_run_ok [OF qb] by simp_all
  have x: "?x < 128" unfolding s1_def by (rule setpri_usrpri)
  have rs: "?reset t = pupd p (\<lambda>pr. pr\<lparr>p_pri := p_usrpri (procs t p)\<rparr>) t" for t by (simp add: pupd_def)
  have e: "schedcpu_proc hz ccpu lf p s =
     (if 1 < p_slptime pr1 then Done (pupd p (\<lambda>_. pr1) s)
      else if PUSER \<le> p_pri ?pr then
             if p \<noteq> curproc s1 \<and> p_stat ?pr = SRUN \<and> p_sload ?pr \<and> \<not> p_swexit ?pr \<and> p_pri ?pr div 4 \<noteq> ?x div 4
             then kbind (remrq p s1) (\<lambda>s2. setrq p (?reset s2))
             else Done (?reset s1)
           else Done s1)"
    by (simp only: schedcpu_proc_def Let_def pr1_def pr2_def s1_def)
  show ?thesis
  proof (cases "1 < p_slptime pr1 \<or> \<not> PUSER \<le> p_pri ?pr")
    case True
    then show ?thesis using e inv run i1 same_q_inv [OF qa] same_q_run_ok [OF qa] by auto
  next
    case False
    let ?c = "p \<noteq> curproc s1 \<and> p_stat ?pr = SRUN \<and> p_sload ?pr \<and> \<not> p_swexit ?pr \<and> p_pri ?pr div 4 \<noteq> ?x div 4"
    show ?thesis
    proof (cases ?c)
      case c: True
      then have "on_rq p s1" using i1(2) by (simp add: run_ok_def)
      from remrq_inv [OF i1(1) this] c obtain s2 where s2: "remrq p s1 = Done s2" "syn_inv s2" "\<not> on_rq p s2"
        "procs s2 = procs s1" "curproc s2 = curproc s1" "\<forall>q. q \<noteq> p \<longrightarrow> on_rq q s1 \<longrightarrow> on_rq q s2" by auto
      have i3: "syn_inv (?reset s2)" unfolding rs using s2 x by (intro inv_pri) auto
      have "\<not> on_rq p (?reset s2)" using s2(3) by (simp add: on_rq_iff)
      from setrq_inv [OF i3 this] c s2(4,5) obtain s3 where s3: "setrq p (?reset s2) = Done s3" "syn_inv s3"
        "on_rq p s3" "procs s3 = procs (?reset s2)" "curproc s3 = curproc s1" "\<forall>q. on_rq q (?reset s2) \<longrightarrow> on_rq q s3"
        by auto
      have "run_ok s3" unfolding run_ok_def
      proof (intro allI impI)
        fix q assume q: "p_stat (procs s3 q) = SRUN \<and> p_sload (procs s3 q) \<and> q \<noteq> curproc s3"
        show "on_rq q s3"
        proof (cases "q = p")
          case False
          then have "on_rq q s1" using q s3(4,5) s2(4) i1(2) by (auto simp: run_ok_def)
          then show ?thesis using False s2(6) s3(6) by (simp add: on_rq_iff)
        qed (use s3(3) in simp)
      qed
      then show ?thesis using e False c s2(1) s3(1,2) by auto
    next
      case nc: False
      have "p_swexit ?pr \<or> unat ?x div 4 = rqidx ?pr" if "on_rq p s1"
      proof -
        have "p \<noteq> curproc s1" "p_stat ?pr = SRUN" "p_sload ?pr"
          using that i1(1) by (auto simp: on_rq_iff syn_inv_def rq_ok_def)
        then have "p_swexit ?pr \<or> p_pri ?pr div 4 = ?x div 4" using nc by blast
        then show ?thesis using unat_div [of ?x 4] unat_div [of "p_pri ?pr" 4] by (auto simp: rqidx_def)
      qed
      then have "syn_inv (?reset s1)" unfolding rs using i1(1) x by (intro inv_pri) auto
      moreover have "run_ok (?reset s1)" using i1(2) by (simp add: run_ok_def on_rq_iff)
      moreover have "schedcpu_proc hz ccpu lf p s = Done (?reset s1)" unfolding e using False nc by auto
      ultimately show ?thesis by blast
    qed
  qed
qed

lemma schedcpu_procs_inv:
  "syn_inv s \<Longrightarrow> run_ok s \<Longrightarrow> \<exists>s'. schedcpu_procs hz ccpu lf ps s = Done s' \<and> syn_inv s' \<and> run_ok s'"
proof (induction ps arbitrary: s)
  case (Cons p ps)
  from schedcpu_proc_inv [OF Cons.prems] obtain s1 where
    s1: "schedcpu_proc hz ccpu lf p s = Done s1" "syn_inv s1" "run_ok s1" by blast
  from Cons.IH [OF s1(2,3)] s1(1) show ?case by simp
qed simp

lemma wakeup_inv:
  assumes "syn_inv s" "chan \<noteq> 0"
  shows "\<exists>s'. wakeup chan s = Done s' \<and> syn_inv s' \<and> woken (waits chan s) s s' \<and>
     slpque s' = (slpque s)(HASH chan := filter (\<lambda>p. p_wchan (procs s p) \<noteq> chan) (slpque s (HASH chan)))"
  using wakeup_scan_inv [OF assms, of "[]" "slpque s (HASH chan)"] by (simp add: wakeup_def)

section \<open>Properties\<close>

text \<open>
  C22: a wakeup reaches every sleeper and nobody else.  On well-formed queues \<open>wakeup\<close> ends without
  a panic and keeps them well formed; every process waiting for the channel stops waiting for it,
  those asleep become runnable and are on a run queue when loaded, those stopped stay stopped; the
  sleep queue keeps exactly the others, in order; and no other process is changed.
\<close>

theorem wakeup_wakes_all:
  assumes "syn_inv s" "chan \<noteq> 0"
  shows "\<exists>s'. wakeup chan s = Done s' \<and> syn_inv s' \<and>
    (\<forall>p. p_wchan (procs s p) = chan \<longrightarrow> p_wchan (procs s' p) = 0 \<and>
       (p_stat (procs s p) = SSLEEP \<longrightarrow> p_stat (procs s' p) = SRUN \<and> (p_sload (procs s p) \<longrightarrow> on_rq p s')) \<and>
       (p_stat (procs s p) = SSTOP \<longrightarrow> p_stat (procs s' p) = SSTOP)) \<and>
    (\<forall>p. p_wchan (procs s p) \<noteq> chan \<longrightarrow> procs s' p = procs s p) \<and>
    slpque s' (HASH chan) = filter (\<lambda>p. p_wchan (procs s p) \<noteq> chan) (slpque s (HASH chan))"
  using wakeup_inv [OF assms] by (auto simp: woken_def)

definition sproc_demo :: sproc where
  "sproc_demo = \<lparr>p_stat = SNONE, p_wchan = 0, p_slptime = 0, p_time = 0, p_pctcpu = 0, p_cpticks = 0, p_cpu = 0,
     p_pri = 50, p_usrpri = 50, p_nice = 0, p_sload = True, p_swexit = False, p_ssintr = False, p_stimo = False\<rparr>"

text \<open>Process 1 runs, process 2 sleeps on channel 64 and process 3 is ready.\<close>

definition ssys_demo :: ssys where
  "ssys_demo = \<lparr>procs = (\<lambda>_. sproc_demo)(1 := sproc_demo\<lparr>p_stat := SRUN\<rparr>,
       2 := sproc_demo\<lparr>p_stat := SSLEEP, p_wchan := 64, p_pri := 20\<rparr>, 3 := sproc_demo\<lparr>p_stat := SRUN\<rparr>),
     slpque = (\<lambda>_. [])(2 := [2]), qs = (\<lambda>_. [])(12 := [3]), whichqs = 4096, curproc = 1, curpri = 50,
     want_resched = False, averunnable0 = 0\<rparr>"

lemma bit_4096: "bit (4096 :: int) i \<longleftrightarrow> i = 12"
proof -
  have "bit (set_bit 12 (0 :: int)) i \<longleftrightarrow> i = 12" unfolding bit_set_bit_iff by auto
  then show ?thesis by simp
qed

lemma HASH_64: "HASH 64 = 2"
  by (simp add: HASH_def drop_bit_eq_div)

lemma ssys_demo_inv: "syn_inv ssys_demo" "run_ok ssys_demo"
  by (auto simp: syn_inv_def slp_ok_def rq_ok_def run_ok_def ssys_demo_def sproc_demo_def on_rq_iff rqidx_def HASH_64 bit_4096)

theorem wakeup_wakes_all_witness:
  "\<exists>s'. wakeup 64 ssys_demo = Done s' \<and> p_stat (procs s' 2) = SRUN \<and> on_rq 2 s' \<and> slpque s' 2 = []"
  using wakeup_wakes_all [OF ssys_demo_inv(1), of 64] HASH_64
  by (auto simp: ssys_demo_def sproc_demo_def)

text \<open>
  C28: the once-a-second recomputation of the priorities neither panics nor loses a process.  It
  keeps the sleep queues and the run queues well formed (every queued process on the queue of its
  new priority, the bit mask exact) and every runnable loaded process queued.
\<close>

theorem schedcpu_keeps_queues:
  assumes "syn_inv s" "run_ok s" "lbolt \<noteq> 0"
  shows "\<exists>s'. schedcpu hz ccpu lbolt allproc s = Done s' \<and> syn_inv s' \<and> run_ok s'"
proof -
  obtain s1 where s1: "wakeup lbolt s = Done s1" "syn_inv s1" "woken (waits lbolt s) s s1"
    using wakeup_inv [OF assms(1,3)] by blast
  have "run_ok s1" unfolding run_ok_def
  proof (intro allI impI)
    fix p assume p: "p_stat (procs s1 p) = SRUN \<and> p_sload (procs s1 p) \<and> p \<noteq> curproc s1"
    show "on_rq p s1"
    proof (cases "p \<in> waits lbolt s")
      case True
      then have "p_stat (procs s p) \<in> {SSLEEP, SSTOP}" using assms(1,3) by (auto simp: syn_inv_def slp_ok_def)
      then show ?thesis using True p s1(3) by (auto simp: woken_def)
    next
      case False
      then show ?thesis using p s1(3) assms(2) by (auto simp: woken_def run_ok_def)
    qed
  qed
  then show ?thesis using schedcpu_procs_inv [OF s1(2)] s1(1) by (simp add: schedcpu_def)
qed


theorem schedcpu_keeps_queues_witness:
  "\<exists>s'. schedcpu 100 1948 8 [1, 2, 3] ssys_demo = Done s' \<and> syn_inv s' \<and> run_ok s'"
  by (rule schedcpu_keeps_queues [OF ssys_demo_inv]) simp

lemma pri_mask_less: "ucast (pri mod 128 :: u32) < (128 :: u8)"
proof -
  have "unat (pri mod 128) < 128" by (simp add: unat_mod)
  then have "unat (ucast (pri mod 128) :: u8) < 128"
    by (simp add: unsigned_ucast_eq take_bit_nat_def unat_mod)
  then show ?thesis by (simp add: word_less_nat_alt)
qed

text \<open>The state after the current process has gone to sleep and another has been switched to.\<close>

definition asleep :: "u32 \<Rightarrow> u32 \<Rightarrow> nat \<Rightarrow> ssys \<Rightarrow> ssys" where
  "asleep chan pri n s =
     (let p = curproc s; h = HASH chan in
      (pupd p (\<lambda>pr. pr\<lparr>p_wchan := chan, p_slptime := 0, p_pri := ucast (pri mod 128), p_stat := SSLEEP\<rparr>) s)
        \<lparr>slpque := (slpque s)(h := slpque s h @ [p]), curproc := n\<rparr>)"

lemma asleep_inv:
  assumes "syn_inv s" "chan \<noteq> 0" "n \<noteq> curproc s" "\<not> on_rq n s" "p_wchan (procs s n) = 0"
  shows "syn_inv (asleep chan pri n s)"
proof -
  let ?p = "curproc s" and ?t = "asleep chan pri n s"
  have f: "\<not> on_rq ?p s" "p_wchan (procs s ?p) = 0" "\<And>h. ?p \<notin> set (slpque s h)"
    using assms(1) by (auto simp: syn_inv_def slp_ok_def rq_ok_def on_rq_iff)
  have "slp_ok ?t"
    using assms(1,2,3,5) f by (auto simp: syn_inv_def slp_ok_def asleep_def Let_def)
  moreover have "rq_ok ?t"
    using assms(1,4) f by (auto simp: syn_inv_def rq_ok_def on_rq_iff asleep_def Let_def)
  moreover have "\<forall>q. p_pri (procs ?t q) < 128"
    using assms(1) pri_mask_less [of pri] by (auto simp: syn_inv_def asleep_def Let_def)
  ultimately show ?thesis by (simp add: syn_inv_def)
qed

text \<open>
  a timed sleep ends with its timeout.  The running process that calls \<open>tsleep\<close> without catching
  signals goes to the tail of the sleep queue of its channel, and the queues stay well formed when
  another process has been switched to.  If its timeout then expires before a wakeup, it leaves
  the sleep queue and is runnable, and its \<open>tsleep\<close> returns \<open>EWOULDBLOCK\<close>.
\<close>

theorem timed_sleep_times_out:
  assumes "syn_inv s" "chan \<noteq> 0" "p = curproc s" "p_stat (procs s p) = SRUN"
    and "n \<noteq> p" "\<not> on_rq n s" "p_wchan (procs s n) = 0"
  shows "\<exists>s1 s2 s3. tsleep_enqueue chan pri s = Done s1 \<and>
    tsleep_block False cursig s1 = Done (True, False, 0, s2) \<and>
    slpque s2 (HASH chan) = slpque s (HASH chan) @ [p] \<and> p_wchan (procs s2 p) = chan \<and>
    syn_inv (s2\<lparr>curproc := n\<rparr>) \<and>
    endtsleep p (s2\<lparr>curproc := n\<rparr>) = Done s3 \<and> syn_inv s3 \<and>
    p \<notin> set (slpque s3 (HASH chan)) \<and> p_stat (procs s3 p) = SRUN \<and>
    fst (tsleep_resume False 0 True cursig sigintr (s3\<lparr>curproc := p\<rparr>)) = EWOULDBLOCK"
proof -
  let ?h = "HASH chan"
  let ?s1 = "(pupd p (\<lambda>pr. pr\<lparr>p_wchan := chan, p_slptime := 0, p_pri := ucast (pri mod 128)\<rparr>) s)
     \<lparr>slpque := (slpque s)(?h := slpque s ?h @ [p])\<rparr>"
  let ?s2 = "pupd p (\<lambda>pr. pr\<lparr>p_stat := SSLEEP\<rparr>) ?s1"
  have off: "\<not> on_rq p s" using assms(1,3) by (auto simp: syn_inv_def rq_ok_def on_rq_iff)
  have e1: "tsleep_enqueue chan pri s = Done ?s1"
    using assms(2-4) off by (simp add: tsleep_enqueue_def Let_def)
  have e2: "tsleep_block False cursig ?s1 = Done (True, False, 0, ?s2)"
    using assms(3) by (simp add: tsleep_block_def Let_def)
  have t: "?s2\<lparr>curproc := n\<rparr> = asleep chan pri n s"
    using assms(3) by (simp add: asleep_def pupd_def Let_def)
  have inv: "syn_inv (asleep chan pri n s)" using asleep_inv [OF assms(1,2)] assms(3,5-7) by simp
  have st: "p_stat (procs (asleep chan pri n s) p) = SSLEEP" "p_wchan (procs (asleep chan pri n s) p) = chan"
    "curproc (asleep chan pri n s) = n" using assms(3) by (simp_all add: asleep_def Let_def)
  from setrun_inv [OF inv] st assms(5) obtain s0 where
    s0: "setrun p (asleep chan pri n s) = Done s0" "made_runnable p (asleep chan pri n s) s0" by auto
  define s3 where "s3 = pupd p (\<lambda>pr. pr\<lparr>p_stimo := True\<rparr>) s0"
  have q: "same_q s3 s0" unfolding s3_def by (rule same_q_pupd) (simp add: qview_def)
  have m: "syn_inv s3" "p_stat (procs s3 p) = SRUN" "p_wchan (procs s3 p) = 0" "p_stimo (procs s3 p)"
    using s0(2) same_q_inv [OF q] same_qD [OF q] by (simp_all add: made_runnable_def s3_def)
  have "p \<notin> set (slpque s3 ?h)" using m(1,3) by (auto simp: syn_inv_def slp_ok_def)
  moreover have "endtsleep p (?s2\<lparr>curproc := n\<rparr>) = Done s3"
    unfolding t using st s0(1) assms(2) by (simp add: endtsleep_def s3_def)
  moreover have "fst (tsleep_resume False 0 True cursig sigintr (s3\<lparr>curproc := p\<rparr>)) = EWOULDBLOCK"
    using m(4) by (simp add: tsleep_resume_def Let_def)
  moreover have "slpque ?s2 ?h = slpque s ?h @ [p]" "p_wchan (procs ?s2 p) = chan" by simp_all
  ultimately show ?thesis using e1 e2 t inv m(1,2) by metis
qed

theorem timed_sleep_times_out_witness:
  "\<exists>s1 s2 s3. tsleep_enqueue 96 20 ssys_demo = Done s1 \<and>
    tsleep_block False (\<lambda>s. (0, s)) s1 = Done (True, False, 0, s2) \<and>
    endtsleep 1 (s2\<lparr>curproc := 4\<rparr>) = Done s3 \<and>
    fst (tsleep_resume False 0 True (\<lambda>s. (0, s)) (\<lambda>_. True) (s3\<lparr>curproc := 1\<rparr>)) = EWOULDBLOCK"
  using timed_sleep_times_out [OF ssys_demo_inv(1), of 96 1 4 20 "\<lambda>s. (0, s)" "\<lambda>_. True"]
  by (force simp: ssys_demo_def sproc_demo_def on_rq_iff)

end
