(* ===== verification/Clock.thy ===== *)
theory Clock
  imports Time Synch
begin

text \<open>
  The clock interrupt: \<open>hardclock\<close>, \<open>gatherstats\<close> and \<open>softclock\<close> of \<open>kern/clock.c\<close>, built on the
  timeout queue, the time of day and the priorities of the other theories.
\<close>

section \<open>State\<close>

text \<open>The interrupted context: user mode, and interrupt level zero.\<close>

record clockframe =
  usermode :: bool
  basepri :: bool

text \<open>The fields of the running process that the clock charges.\<close>

record cproc =
  p_tm :: tproc
  p_utime :: timeval
  p_stime :: timeval
  rlim_cur :: int
  rlim_max :: int
  pr_scale :: nat
  cr_uid :: nat

text \<open>\<open>cur\<close> is \<open>None\<close> when no process runs; otherwise it is process \<open>curproc\<close> of \<open>sched\<close>.\<close>

record kern =
  clk :: kclock
  sched :: ssys
  cur :: "cproc option"
  cp_time :: "int list"
  dk_time :: "int list"
  dk_busy :: u32
  phz :: int
  softpending :: bool

definition SIGVTALRM :: int where "SIGVTALRM = 26"
definition SIGPROF :: int where "SIGPROF = 27"
definition SIGXCPU :: int where "SIGXCPU = 24"
definition CP_USER :: nat where "CP_USER = 0"
definition CP_NICE :: nat where "CP_NICE = 1"
definition CP_SYS :: nat where "CP_SYS = 2"
definition CP_IDLE :: nat where "CP_IDLE = 3"

definition post_psignal :: "cproc \<Rightarrow> int \<Rightarrow> cproc" where
  "post_psignal p sig = p\<lparr>p_tm := (p_tm p)\<lparr>p_sigs := p_sigs (p_tm p) @ [sig]\<rparr>\<rparr>"

text \<open>Decrement timer \<open>which\<close> of a process and signal its expiry.\<close>

definition timer_tick :: "int \<Rightarrow> nat \<Rightarrow> int \<Rightarrow> cproc \<Rightarrow> cproc" where
  "timer_tick tk which sig p =
     (let it = p_timer (p_tm p) ! which in
      if timerisset (it_value it)
      then let (running, it') = itimerdecr it tk;
               p' = p\<lparr>p_tm := (p_tm p)\<lparr>p_timer := (p_timer (p_tm p))[which := it']\<rparr>\<rparr> in
           if running then p' else post_psignal p' sig
      else p)"

section \<open>The interrupt handlers\<close>

text \<open>The charge for the mode the processor was in; a tick in user mode needs a process.\<close>

definition charge_mode :: "kconf \<Rightarrow> clockframe \<Rightarrow> cproc option \<Rightarrow> (bool \<times> cproc option) kres" where
  "charge_mode cf fr p =
     (case p of
        None \<Rightarrow> if usermode fr then Fault else Done (False, None)
      | Some p \<Rightarrow>
          if usermode fr
          then Done (pr_scale p \<noteq> 0,
            Some (timer_tick (tick cf) ITIMER_VIRTUAL SIGVTALRM (p\<lparr>p_utime := bumptime (p_utime p) (tick cf)\<rparr>)))
          else Done (False, Some (p\<lparr>p_stime := bumptime (p_stime p) (tick cf)\<rparr>)))"

text \<open>The CPU limit and the profiling timer.\<close>

definition charge_limits :: "kconf \<Rightarrow> cproc \<Rightarrow> cproc" where
  "charge_limits cf p =
     timer_tick (tick cf) ITIMER_PROF SIGPROF
       (if rlim_cur p < tv_sec (p_utime p) + tv_sec (p_stime p) + 1
        then let p' = post_psignal p SIGXCPU in
             if rlim_cur p' < rlim_max p' then p'\<lparr>rlim_cur := rlim_cur p' + 5\<rparr> else p'
        else p)"

text \<open>The cpu usage estimator and the priority of the running process.\<close>

definition charge_cpu :: "ssys \<Rightarrow> ssys" where
  "charge_cpu s =
     (let p = curproc s;
          s1 = pupd p (\<lambda>pr. pr\<lparr>p_cpticks := p_cpticks pr + 1,
                 p_cpu := (if p_cpu pr + 1 = 0 then p_cpu pr else p_cpu pr + 1)\<rparr>) s in
      if p_cpu (procs s1 p) mod 4 = 0
      then let s2 = setpri p s1 in
           if PUSER \<le> p_pri (procs s2 p) then pupd p (\<lambda>pr. pr\<lparr>p_pri := p_usrpri pr\<rparr>) s2 else s2
      else s1)"

definition gatherstats :: "clockframe \<Rightarrow> kern \<Rightarrow> kern" where
  "gatherstats fr k =
     (let cpstate = (if usermode fr
                     then if 0 < p_nice (procs (sched k) (curproc (sched k))) then CP_NICE else CP_USER
                     else if cur k = None \<and> basepri fr then CP_IDLE else CP_SYS) in
      k\<lparr>cp_time := (cp_time k)[cpstate := cp_time k ! cpstate + 1],
        dk_time := map (\<lambda>s. if bit (dk_busy k) s then dk_time k ! s + 1 else dk_time k ! s) [0..<length (dk_time k)]\<rparr>)"

text \<open>
  \<open>softclock\<close>: the due callouts, then the profiling tick and the penalty for long-running
  processes.  \<open>profile_tick\<close> writes the profile buffer of the process and is left out.
\<close>

definition softclock ::
  "(nat \<Rightarrow> nat \<Rightarrow> int \<Rightarrow> creq list) \<Rightarrow> clockframe \<Rightarrow> kern \<Rightarrow> ((nat \<times> nat \<times> int) list \<times> kern) kres option" where
  "softclock cb fr k =
     Option.bind (softclock_loop cb (callouts (clk k))) (\<lambda>r. Some (kmap (\<lambda>(ev, q).
       let k1 = k\<lparr>clk := (clk k)\<lparr>callouts := q\<rparr>\<rparr>; s = sched k1; p = curproc s in
       (ev, case cur k1 of
          None \<Rightarrow> k1
        | Some c \<Rightarrow>
            if usermode fr \<and> cr_uid c \<noteq> 0 \<and> p_nice (procs s p) = 0 \<and> 600 < tv_sec (p_utime c)
            then k1\<lparr>sched := (let s1 = setpri p (pupd p (\<lambda>pr. pr\<lparr>p_nice := 4\<rparr>) s) in
                             pupd p (\<lambda>pr. pr\<lparr>p_pri := p_usrpri pr\<rparr>) s1)\<rparr>
            else k1)) r))"

text \<open>\<open>hardclock\<close> up to the decision to run \<open>softclock\<close>.\<close>

definition hardclock_tick :: "kconf \<Rightarrow> clockframe \<Rightarrow> kern \<Rightarrow> (bool \<times> kern) kres" where
  "hardclock_tick cf fr k =
     (let (due, todo) = todo_tick (calltodo (callouts (clk k))) in
      kmap (\<lambda>(prof, p).
        let p' = map_option (charge_limits cf) p;
            s' = (if p = None then sched k else charge_cpu (sched k));
            clk' = (clk k)\<lparr>callouts := (callouts (clk k))\<lparr>calltodo := todo\<rparr>\<rparr>;
            k1 = k\<lparr>clk := clk', sched := s', cur := p'\<rparr>;
            k2 = (if phz k1 = 0 then gatherstats fr k1 else k1) in
        (due \<or> prof, k2\<lparr>clk := clock_advance cf (clk k2)\<rparr>))
      (charge_mode cf fr (cur k)))"

definition hardclock ::
  "kconf \<Rightarrow> (nat \<Rightarrow> nat \<Rightarrow> int \<Rightarrow> creq list) \<Rightarrow> clockframe \<Rightarrow> kern \<Rightarrow> ((nat \<times> nat \<times> int) list \<times> kern) kres option" where
  "hardclock cf cb fr k =
     (case hardclock_tick cf fr k of
        Done (needsoft, k') \<Rightarrow>
          if needsoft then if basepri fr then softclock cb fr k' else Some (Done ([], k'\<lparr>softpending := True\<rparr>))
          else Some (Done ([], k'))
      | Panic m \<Rightarrow> Some (Panic m)
      | Fault \<Rightarrow> Some Fault)"

section \<open>What a tick charges\<close>

definition cpu_usecs :: "cproc \<Rightarrow> int" where
  "cpu_usecs p = usecs (p_utime p) + usecs (p_stime p)"

lemma timer_tick_times [simp]:
  "p_utime (timer_tick tk w sig p) = p_utime p" "p_stime (timer_tick tk w sig p) = p_stime p"
  by (simp_all add: timer_tick_def post_psignal_def Let_def split_beta)

lemma charge_limits_times [simp]:
  "p_utime (charge_limits cf p) = p_utime p" "p_stime (charge_limits cf p) = p_stime p"
  by (simp_all add: charge_limits_def post_psignal_def Let_def)

lemma clock_advance_callouts [simp]: "callouts (clock_advance cf ks) = callouts ks"
  by (simp add: clock_advance_def)

lemma gatherstats_frame [simp]:
  "clk (gatherstats fr k) = clk k" "sched (gatherstats fr k) = sched k" "cur (gatherstats fr k) = cur k"
  by (simp_all add: gatherstats_def Let_def)

lemma sum_list_incr: "i < length xs \<Longrightarrow> sum_list (xs[i := xs ! i + 1]) = sum_list xs + (1 :: int)"
  by (induction xs arbitrary: i) (auto split: nat.splits)

lemma gatherstats_cp_time:
  assumes "length (cp_time k) = 4"
  shows "sum_list (cp_time (gatherstats fr k)) = sum_list (cp_time k) + 1"
proof -
  have "i < 4 \<Longrightarrow> sum_list ((cp_time k)[i := cp_time k ! i + 1]) = sum_list (cp_time k) + 1" for i
    using assms by (simp add: sum_list_incr)
  then show ?thesis
    by (simp add: gatherstats_def Let_def CP_NICE_def CP_USER_def CP_IDLE_def CP_SYS_def)
qed

lemma charge_cpu_inv:
  assumes "syn_inv s"
  shows "syn_inv (charge_cpu s)"
proof -
  let ?p = "curproc s"
  define s1 where "s1 = pupd ?p (\<lambda>pr. pr\<lparr>p_cpticks := p_cpticks pr + 1,
                 p_cpu := (if p_cpu pr + 1 = 0 then p_cpu pr else p_cpu pr + 1)\<rparr>) s"
  define s2 where "s2 = setpri ?p s1"
  have q1: "same_q s1 s" unfolding s1_def by (rule same_q_pupd) (simp add: qview_def)
  have q2: "same_q s2 s" unfolding s2_def by (rule same_q_trans [OF setpri_same q1])
  have i: "syn_inv s1" "syn_inv s2" using assms same_q_inv [OF q1] same_q_inv [OF q2] by simp_all
  have "\<not> on_rq ?p s2"
    using i(2) same_qD(10) [OF q2] by (auto simp: syn_inv_def rq_ok_def on_rq_iff)
  moreover have "p_usrpri (procs s2 ?p) < 128" unfolding s2_def by (rule setpri_usrpri)
  ultimately have "syn_inv (pupd ?p (\<lambda>pr. pr\<lparr>p_pri := p_usrpri (procs s2 ?p)\<rparr>) s2)" using i(2) by (intro inv_pri) auto
  moreover have "pupd ?p (\<lambda>pr. pr\<lparr>p_pri := p_usrpri pr\<rparr>) s2 = pupd ?p (\<lambda>pr. pr\<lparr>p_pri := p_usrpri (procs s2 ?p)\<rparr>) s2"
    by (simp add: pupd_def)
  moreover have "charge_cpu s = (if p_cpu (procs s1 ?p) mod 4 = 0
      then if PUSER \<le> p_pri (procs s2 ?p) then pupd ?p (\<lambda>pr. pr\<lparr>p_pri := p_usrpri pr\<rparr>) s2 else s2 else s1)"
    by (simp only: charge_cpu_def Let_def s1_def s2_def)
  ultimately show ?thesis using i by simp
qed

lemma hardclock_tick_queue:
  assumes "cur k = Some p" "callq_ok (callouts (clk k))"
  shows "\<exists>ns k'. hardclock_tick cf fr k = Done (ns, k') \<and> callq_ok (callouts (clk k')) \<and>
     (ev_due (pending (callouts (clk k'))) \<noteq> [] \<longrightarrow> ns)"
proof -
  let ?q = "callouts (clk k)"
  obtain due todo where tt: "todo_tick (calltodo ?q) = (due, todo)" by (metis surj_pair)
  have ct: "?q\<lparr>calltodo := todo\<rparr> = callq_tick ?q" by (simp add: callq_tick_def tt)
  have "callq_ok (callq_tick ?q)" "due \<longleftrightarrow> ev_due (pending (callq_tick ?q)) \<noteq> []"
    using pending_tick [OF assms(2)] needsoft_iff_due [OF assms(2)] tt by simp_all
  then show ?thesis using assms(1)
    by (auto simp: hardclock_tick_def charge_mode_def tt ct Let_def)
qed

section \<open>Properties\<close>

text \<open>
  a clock tick is accounted exactly once.  With a process running, the tick is charged to its
  user or its system time, and to no more than one of them, one processor state counter goes up
  when the clock gathers the statistics, every pending timeout comes one tick nearer, the time of
  day advances by a tick unless a correction is pending, the priorities and queues stay well
  formed, and \<open>softclock\<close> is asked for exactly when a timeout is due or the process is profiled.
\<close>

theorem hardclock_accounts:
  assumes "cur k = Some p" "callq_ok (callouts (clk k))" "syn_inv (sched k)" "length (cp_time k) = 4"
  shows "\<exists>needsoft k' p'. hardclock_tick cf fr k = Done (needsoft, k') \<and> cur k' = Some p' \<and>
    cpu_usecs p' = cpu_usecs p + tick cf \<and>
    (if usermode fr then p_stime p' = p_stime p else p_utime p' = p_utime p) \<and>
    (phz k = 0 \<longrightarrow> sum_list (cp_time k') = sum_list (cp_time k) + 1) \<and>
    callq_ok (callouts (clk k')) \<and> pending (callouts (clk k')) = map (ev_age 1) (pending (callouts (clk k))) \<and>
    (timedelta (clk k) = 0 \<longrightarrow> usecs (time (clk k')) = usecs (time (clk k)) + tick cf) \<and>
    syn_inv (sched k') \<and>
    (needsoft \<longleftrightarrow> ev_due (pending (callouts (clk k'))) \<noteq> [] \<or> usermode fr \<and> pr_scale p \<noteq> 0)"
proof -
  let ?q = "callouts (clk k)"
  obtain due todo where tt: "todo_tick (calltodo ?q) = (due, todo)" by (metis surj_pair)
  have ct: "callq_tick ?q = ?q\<lparr>calltodo := todo\<rparr>" by (simp add: callq_tick_def tt)
  have q: "callq_ok (callq_tick ?q)" "pending (callq_tick ?q) = map (ev_age 1) (pending ?q)"
    "due \<longleftrightarrow> ev_due (pending (callq_tick ?q)) \<noteq> []"
    using pending_tick [OF assms(2)] needsoft_iff_due [OF assms(2)] tt by simp_all
  define p1 where "p1 = (if usermode fr
     then timer_tick (tick cf) ITIMER_VIRTUAL SIGVTALRM (p\<lparr>p_utime := bumptime (p_utime p) (tick cf)\<rparr>)
     else p\<lparr>p_stime := bumptime (p_stime p) (tick cf)\<rparr>)"
  have cm: "charge_mode cf fr (cur k) = Done (usermode fr \<and> pr_scale p \<noteq> 0, Some p1)"
    by (simp add: charge_mode_def assms(1) p1_def)
  define k1 where "k1 = k\<lparr>clk := (clk k)\<lparr>callouts := callq_tick ?q\<rparr>, sched := charge_cpu (sched k), cur := Some (charge_limits cf p1)\<rparr>"
  define k2 where "k2 = (if phz k = 0 then gatherstats fr k1 else k1)"
  define k3 where "k3 = k2\<lparr>clk := clock_advance cf (clk k2)\<rparr>"
  have e: "hardclock_tick cf fr k = Done (due \<or> (usermode fr \<and> pr_scale p \<noteq> 0), k3)"
    by (simp add: hardclock_tick_def tt cm ct k1_def k2_def k3_def Let_def)
  have k3: "cur k3 = Some (charge_limits cf p1)" "callouts (clk k3) = callq_tick ?q"
    "sched k3 = charge_cpu (sched k)" "clk k3 = clock_advance cf (clk k1)"
    by (simp_all add: k3_def k2_def k1_def)
  have "phz k = 0 \<longrightarrow> sum_list (cp_time k3) = sum_list (cp_time k) + 1"
    using gatherstats_cp_time [of k1 fr] assms(4) by (simp add: k3_def k2_def k1_def)
  moreover have "timedelta (clk k) = 0 \<longrightarrow> usecs (time (clk k3)) = usecs (time (clk k)) + tick cf"
    by (simp add: k3(4) clock_advance_def k1_def)
  moreover have "cpu_usecs (charge_limits cf p1) = cpu_usecs p + tick cf"
    "if usermode fr then p_stime (charge_limits cf p1) = p_stime p else p_utime (charge_limits cf p1) = p_utime p"
    by (simp_all add: cpu_usecs_def p1_def)
  moreover have "syn_inv (sched k3)" using charge_cpu_inv [OF assms(3)] k3(3) by simp
  ultimately show ?thesis using e k3(1,2) q by (intro exI conjI) auto
qed

definition kern_demo :: kern where
  "kern_demo = \<lparr>clk = kclock_demo, sched = ssys_demo,
     cur = Some \<lparr>p_tm = proc_demo, p_utime = timerclear, p_stime = timerclear, rlim_cur = 100, rlim_max = 100,
       pr_scale = 0, cr_uid = 0\<rparr>,
     cp_time = [0, 0, 0, 0], dk_time = [0], dk_busy = 0, phz = 0, softpending = False\<rparr>"

theorem hardclock_accounts_witness:
  "\<exists>needsoft k' p'. hardclock_tick kconf_demo \<lparr>usermode = True, basepri = True\<rparr> kern_demo = Done (needsoft, k') \<and>
     cur k' = Some p' \<and> cpu_usecs p' = 10000 \<and> sum_list (cp_time k') = 1"
proof -
  have "cur kern_demo = Some (the (cur kern_demo))" "callq_ok (callouts (clk kern_demo))" "syn_inv (sched kern_demo)"
    "length (cp_time kern_demo) = 4"
    using callq_demo_ok ssys_demo_inv by (simp_all add: kern_demo_def kclock_demo_def)
  from hardclock_accounts [OF this, of kconf_demo "\<lparr>usermode = True, basepri = True\<rparr>"]
  show ?thesis by (force simp: kern_demo_def kconf_demo_def cpu_usecs_def)
qed

text \<open>
  the clock interrupt returns and due timeouts are not lost.  Whatever the callbacks do to the
  queue, \<open>hardclock\<close> with a process running returns; unless a callback overflows the table, a tick
  that interrupts base level leaves no timeout due, and a tick at a higher level with a timeout
  due leaves \<open>softclock\<close> requested.
\<close>

theorem hardclock_services_timeouts:
  assumes "cur k = Some p" "callq_ok (callouts (clk k))" "syn_inv (sched k)" "length (cp_time k) = 4"
  shows "\<exists>r. hardclock cf cb fr k = Some r \<and>
    (\<forall>ev k'. r = Done (ev, k') \<longrightarrow> callq_ok (callouts (clk k')) \<and>
       (if basepri fr then ev_due (pending (callouts (clk k'))) = []
        else ev = [] \<and> (ev_due (pending (callouts (clk k'))) \<noteq> [] \<longrightarrow> softpending k')))"
proof -
  obtain ns k1 where k1: "hardclock_tick cf fr k = Done (ns, k1)" "callq_ok (callouts (clk k1))"
    "ev_due (pending (callouts (clk k1))) \<noteq> [] \<Longrightarrow> ns"
    using hardclock_tick_queue [OF assms(1,2), of cf fr] by blast
  show ?thesis
  proof (cases "ns \<and> basepri fr")
    case True
    obtain r where r: "softclock_loop cb (callouts (clk k1)) = Some r"
      "\<And>ev q. r = Done (ev, q) \<Longrightarrow> callq_ok q \<and> ev_due (pending q) = []"
      using softclock_loop_returns [OF k1(2)] by blast
    have "hardclock cf cb fr k = softclock cb fr k1" using True k1(1) by (simp add: hardclock_def)
    moreover have "softclock cb fr k1 = Some r' \<Longrightarrow> r' = Done (ev, k') \<Longrightarrow>
        callq_ok (callouts (clk k')) \<and> ev_due (pending (callouts (clk k'))) = []" for r' ev k'
      using r by (auto simp: softclock_def kmap_Done_iff Let_def split: option.splits if_splits)
    moreover have "\<exists>r'. softclock cb fr k1 = Some r'" using r(1) by (simp add: softclock_def)
    ultimately show ?thesis using True by auto
  next
    case False
    then show ?thesis using k1 by (auto simp: hardclock_def)
  qed
qed

theorem hardclock_services_timeouts_witness:
  "\<exists>r. hardclock kconf_demo (\<lambda>_ _ _. []) \<lparr>usermode = True, basepri = True\<rparr> kern_demo = Some r \<and>
     (\<forall>ev k'. r = Done (ev, k') \<longrightarrow> ev_due (pending (callouts (clk k'))) = [])"
proof -
  have "cur kern_demo = Some (the (cur kern_demo))" "callq_ok (callouts (clk kern_demo))" "syn_inv (sched kern_demo)"
    "length (cp_time kern_demo) = 4"
    using callq_demo_ok ssys_demo_inv by (simp_all add: kern_demo_def kclock_demo_def)
  from hardclock_services_timeouts [OF this, of kconf_demo "\<lambda>_ _ _. []" "\<lparr>usermode = True, basepri = True\<rparr>"]
  show ?thesis by auto
qed

end
