(* ===== verification/Lockf.thy ===== *)
theory Lockf
  imports Prelude
begin

text \<open>
  The advisory byte-range locks of \<open>ufs/ufs_lockf.c\<close>.  The locks of a file are a list linked
  through \<open>lf_next\<close>; here it is the list itself, and a walk that keeps a pointer to the link to
  change keeps the part of the list in front of it.  The list of requests blocked on a lock is
  the list of their addresses.  An operation that would link a lock twice or free a linked lock
  is a \<open>Fault\<close>; the theorems show that none does.
\<close>

section \<open>Locks\<close>

datatype lftype = F_RDLCK | F_WRLCK | F_UNLCK

text \<open>\<open>lf_end = -1\<close> stands for the end of the file, however far that is.\<close>

record lockf =
  lf_addr :: nat
  lf_posix :: bool
  lf_wait :: bool
  lf_type :: lftype
  lf_start :: int
  lf_end :: int
  lf_id :: nat
  lf_block :: "nat list"

text \<open>The classification of an overlap; 0 is no overlap and 6 the default that panics.\<close>

definition lf_ovcase :: "lockf \<Rightarrow> lockf \<Rightarrow> nat" where
  "lf_ovcase lf lock =
     (let start = lf_start lock; end' = lf_end lock in
      if (lf_end lf \<noteq> -1 \<and> lf_end lf < start) \<or> (end' \<noteq> -1 \<and> end' < lf_start lf) then 0
      else if lf_start lf = start \<and> lf_end lf = end' then 1
      else if lf_start lf \<le> start \<and> end' \<noteq> -1 \<and> (end' \<le> lf_end lf \<or> lf_end lf = -1) then 2
      else if start \<le> lf_start lf \<and> (end' = -1 \<or> (lf_end lf \<noteq> -1 \<and> lf_end lf \<le> end')) then 3
      else if lf_start lf < start \<and> (start \<le> lf_end lf \<or> lf_end lf = -1) then 4
      else if start < lf_start lf \<and> end' \<noteq> -1 \<and> (end' < lf_end lf \<or> lf_end lf = -1) then 5
      else 6)"

text \<open>
  The walk: \<open>self\<close> selects the locks of the same owner or those of the others.  The result is the
  case, the locks passed over (the last of them holds the link \<open>*prev\<close>) and the list from
  \<open>*overlap\<close> on.
\<close>

fun lf_findoverlap :: "bool \<Rightarrow> lockf \<Rightarrow> lockf list \<Rightarrow> (nat \<times> lockf list \<times> lockf list) kres" where
  "lf_findoverlap self lock [] = Done (0, [], [])"
| "lf_findoverlap self lock (lf # ls) =
     (let skip = kmap (\<lambda>(c, p, r). (c, lf # p, r)) (lf_findoverlap self lock ls) in
      if (self \<and> lf_id lf \<noteq> lf_id lock) \<or> (\<not> self \<and> lf_id lf = lf_id lock) then skip
      else if lf_ovcase lf lock = 0
      then if self \<and> lf_end lock \<noteq> -1 \<and> lf_end lock < lf_start lf then Done (0, [], lf # ls) else skip
      else if lf_ovcase lf lock = 6 then Panic ''lf_findoverlap: default''
      else Done (lf_ovcase lf lock, [], lf # ls))"

lemma lf_findoverlap_split:
  "lf_findoverlap self lock ls = Done (c, p, r) \<Longrightarrow> ls = p @ r \<and> (c \<noteq> 0 \<longrightarrow> r \<noteq> [])"
  by (induction ls arbitrary: c p r) (auto simp: kmap_Done_iff Let_def split: if_splits)

lemma lf_findoverlap_length:
  "lf_findoverlap self lock ls = Done (c, p, ov # r) \<Longrightarrow> length r < length ls"
  using lf_findoverlap_split by fastforce

function lf_getblock :: "lockf \<Rightarrow> lockf list \<Rightarrow> lockf option kres" where
  "lf_getblock lock ls =
     (case lf_findoverlap False lock ls of
        Done (c, p, r) \<Rightarrow>
          (if c = 0 then Done None
           else case r of [] \<Rightarrow> Fault
             | ov # r' \<Rightarrow> if lf_type lock = F_WRLCK \<or> lf_type ov = F_WRLCK then Done (Some ov)
                         else lf_getblock lock r')
      | Panic m \<Rightarrow> Panic m | Fault \<Rightarrow> Fault)"
  by pat_completeness auto
termination
  by (relation "measure (\<lambda>(l, ls). length ls)") (auto dest: lf_findoverlap_length)

declare lf_getblock.simps [simp del]


section \<open>Setting a lock\<close>





section \<open>Clearing a lock\<close>




section \<open>The requests\<close>







text \<open>\<open>lf_getlock\<close>: the description of the first blocking lock, if any (type, start, length, owner).\<close>

definition lf_getlock :: "(nat \<Rightarrow> int) \<Rightarrow> lockf \<Rightarrow> lockf list \<Rightarrow> (lftype \<times> int \<times> int \<times> int) option kres" where
  "lf_getlock pid lock ls =
     kmap (map_option (\<lambda>b. (lf_type b, lf_start b,
         if lf_end b = -1 then 0 else lf_end b - lf_start b + 1, if lf_posix b then pid (lf_id b) else -1)))
       (lf_getblock lock ls)"

section \<open>What a list of locks grants\<close>

definition lf_wf :: "lockf \<Rightarrow> bool" where
  "lf_wf l \<longleftrightarrow> 0 \<le> lf_start l \<and> (lf_end l = -1 \<or> lf_start l \<le> lf_end l)"

definition covers :: "lockf \<Rightarrow> int \<Rightarrow> bool" where
  "covers l b \<longleftrightarrow> lf_start l \<le> b \<and> (lf_end l = -1 \<or> b \<le> lf_end l)"


abbreviation own :: "nat \<Rightarrow> lockf list \<Rightarrow> lockf list" where
  "own i ls \<equiv> filter (\<lambda>l. lf_id l = i) ls"


text \<open>Owner \<open>i\<close> has byte \<open>b\<close> locked with type \<open>t\<close>.\<close>

definition holds :: "lockf list \<Rightarrow> nat \<Rightarrow> int \<Rightarrow> lftype \<Rightarrow> bool" where
  "holds ls i b t \<longleftrightarrow> (\<exists>l \<in> set ls. lf_id l = i \<and> covers l b \<and> lf_type l = t)"

lemma holds_simps [simp]:
  "holds [] i b t \<longleftrightarrow> False"
  "holds (l # ls) i b t \<longleftrightarrow> lf_id l = i \<and> covers l b \<and> lf_type l = t \<or> holds ls i b t"
  "holds (xs @ ys) i b t \<longleftrightarrow> holds xs i b t \<or> holds ys i b t"
  by (auto simp: holds_def)








definition lf_good :: "lockf list \<Rightarrow> bool" where
  "lf_good ls \<longleftrightarrow> (\<forall>l \<in> set ls. lf_wf l \<and> lf_type l \<noteq> F_UNLCK)"

lemma lf_good_simps [simp]:
  "lf_good []" "lf_good (l # ls) \<longleftrightarrow> lf_wf l \<and> lf_type l \<noteq> F_UNLCK \<and> lf_good ls"
  "lf_good (xs @ ys) \<longleftrightarrow> lf_good xs \<and> lf_good ys"
  by (auto simp: lf_good_def)

lemma holds_own: "holds ls i b t \<longleftrightarrow> (\<exists>l \<in> set (own i ls). covers l b \<and> lf_type l = t)"
  by (auto simp: holds_def)

lemma not_holds: "\<forall>l \<in> set (own i ls). \<not> covers l b \<Longrightarrow> \<not> holds ls i b t"
  by (auto simp: holds_own)

lemma lf_goodD: "lf_good ls \<Longrightarrow> l \<in> set ls \<Longrightarrow> lf_wf l"
  by (simp add: lf_good_def)















section \<open>Conflicts\<close>





section \<open>Properties\<close>








end
