(* ===== verification/Namcache.thy ===== *)
theory Namcache
  imports Prelude
begin

text \<open>
  The name cache of \<open>kern/fs/namcache.c\<close>.  Entries are numbered; each is on the LRU chain and on at
  most one hash chain, and the chains are lists of entry numbers in link order.  An entry whose
  hash links point at itself (the dummy chain) is on no chain.  Inserting in front of an empty LRU
  chain follows the null head pointer and is a \<open>Fault\<close>.
\<close>

unbundle bit_operations_syntax

section \<open>State\<close>

text \<open>Vnodes are numbers, \<open>0\<close> the null pointer; \<open>v_id\<close> is the capability number of a vnode.\<close>

record namecache =
  nc_dvp :: nat
  nc_dvpid :: u32
  nc_vp :: nat
  nc_vpid :: u32
  nc_name :: "u8 list"

record nchstats =
  ncs_goodhits :: nat
  ncs_neghits :: nat
  ncs_badhits :: nat
  ncs_falsehits :: nat
  ncs_miss :: nat
  ncs_long :: nat

record ncache =
  ents :: "nat \<Rightarrow> namecache"
  chain :: "nat \<Rightarrow> nat list"
  lru :: "nat list"
  numcache :: nat
  nchash :: u32
  v_id :: "nat \<Rightarrow> u32"
  nextvnodeid :: u32
  doingcache :: bool
  nstats :: nchstats

datatype nameiop = LOOKUP | CREATE | DELETE | RENAME

record nameidata =
  ni_dvp :: nat
  ni_name :: "u8 list"
  ni_vp :: nat
  ni_makeentry :: bool
  ni_nameiop :: nameiop

definition NCHNAMLEN :: nat where "NCHNAMLEN = 31"

text \<open>The hash that \<open>lookup\<close> computes: the sum of the characters of the component.\<close>

definition ni_hash :: "u8 list \<Rightarrow> u32" where
  "ni_hash name = sum_list (map ucast name)"

definition nc_bucket :: "u32 \<Rightarrow> u8 list \<Rightarrow> nat" where
  "nc_bucket hmask name = unat (ni_hash name AND hmask)"

text \<open>Unlinking an entry from the hash chain it is on.\<close>

definition nc_remque :: "nat \<Rightarrow> ncache \<Rightarrow> ncache" where
  "nc_remque e nc = nc\<lparr>chain := (\<lambda>b. removeAll e (chain nc b))\<rparr>"

definition nc_stat :: "(nchstats \<Rightarrow> nchstats) \<Rightarrow> ncache \<Rightarrow> ncache" where
  "nc_stat f nc = nc\<lparr>nstats := f (nstats nc)\<rparr>"

text \<open>Move an entry to the end of the LRU chain, if it is not there.\<close>

definition lru_touch :: "nat \<Rightarrow> ncache \<Rightarrow> ncache" where
  "lru_touch e nc = (if lru nc \<noteq> [] \<and> last (lru nc) = e then nc else nc\<lparr>lru := removeAll e (lru nc) @ [e]\<rparr>)"

text \<open>Take an entry out of its chains and put it at the head of the LRU chain.\<close>

definition lru_discard :: "nat \<Rightarrow> ncache \<Rightarrow> ncache kres" where
  "lru_discard e nc0 =
     (let nc = nc_remque e nc0; rest = removeAll e (lru nc) in
      if rest = [] then Fault else Done (nc\<lparr>lru := e # rest\<rparr>))"

section \<open>Operations\<close>

definition nc_matches :: "nameidata \<Rightarrow> ncache \<Rightarrow> nat \<Rightarrow> bool" where
  "nc_matches ndp nc e \<longleftrightarrow>
     nc_dvp (ents nc e) = ni_dvp ndp \<and> nc_dvpid (ents nc e) = v_id nc (ni_dvp ndp) \<and>
     length (nc_name (ents nc e)) = length (ni_name ndp) \<and> nc_name (ents nc e) = ni_name ndp"

datatype ncret = NcMiss | NcNoEnt | NcHit nat

text \<open>
  \<open>cache_lookup\<close>: the status (0, \<open>ENOENT\<close>, or -1 with the vnode found), whether an entry may
  still be made, and the cache.
\<close>

definition cache_lookup :: "nameidata \<Rightarrow> ncache \<Rightarrow> (ncret \<times> bool \<times> ncache) kres" where
  "cache_lookup ndp nc =
     (if \<not> doingcache nc then Done (NcMiss, ni_makeentry ndp, nc)
      else if NCHNAMLEN < length (ni_name ndp)
      then Done (NcMiss, False, nc_stat (ncs_long_update Suc) nc)
      else case find (nc_matches ndp nc) (chain nc (nc_bucket (nchash nc) (ni_name ndp))) of
        None \<Rightarrow> Done (NcMiss, ni_makeentry ndp, nc_stat (ncs_miss_update Suc) nc)
      | Some e \<Rightarrow>
          let en = ents nc e; drop_it = (\<lambda>nc. kmap (\<lambda>nc'. (NcMiss, ni_makeentry ndp, nc')) (lru_discard e nc)) in
          if \<not> ni_makeentry ndp then drop_it (nc_stat (ncs_badhits_update Suc) nc)
          else if nc_vp en = 0
          then if ni_nameiop ndp \<noteq> CREATE
               then Done (NcNoEnt, True, lru_touch e (nc_stat (ncs_neghits_update Suc) nc))
               else drop_it nc
          else if nc_vpid en \<noteq> v_id nc (nc_vp en)
          then drop_it (nc_stat (ncs_falsehits_update Suc) nc)
          else Done (NcHit (nc_vp en), True, lru_touch e (nc_stat (ncs_goodhits_update Suc) nc)))"

text \<open>
  \<open>cache_enter\<close>: a new entry while fewer than \<open>desiredvnodes\<close> exist (entries are numbered as they
  are allocated), else the head of the LRU chain, if there is one.
\<close>

definition nc_fill :: "nameidata \<Rightarrow> nat \<Rightarrow> ncache \<Rightarrow> ncache" where
  "nc_fill ndp e nc =
     (let b = nc_bucket (nchash nc) (ni_name ndp) in
      nc\<lparr>ents := (ents nc)(e := \<lparr>nc_dvp = ni_dvp ndp, nc_dvpid = v_id nc (ni_dvp ndp), nc_vp = ni_vp ndp,
           nc_vpid = (if ni_vp ndp \<noteq> 0 then v_id nc (ni_vp ndp) else 0), nc_name = ni_name ndp\<rparr>),
         lru := lru nc @ [e], chain := (chain nc)(b := e # chain nc b)\<rparr>)"

definition cache_enter :: "nat \<Rightarrow> nameidata \<Rightarrow> ncache \<Rightarrow> ncache" where
  "cache_enter desiredvnodes ndp nc =
     (if \<not> doingcache nc then nc
      else if numcache nc < desiredvnodes
      then nc_fill ndp (numcache nc) (nc\<lparr>numcache := numcache nc + 1\<rparr>)
      else case lru nc of
        [] \<Rightarrow> nc
      | e # rest \<Rightarrow> nc_fill ndp e (nc_remque e (nc\<lparr>lru := rest\<rparr>)))"

text \<open>\<open>cache_purge\<close>; \<open>nbuckets\<close> is the number of hash chains, \<open>nchash + 1\<close>.\<close>

definition cache_purge :: "nat \<Rightarrow> ncache \<Rightarrow> ncache" where
  "cache_purge vp nc =
     (let id1 = nextvnodeid nc + 1;
          nc1 = nc\<lparr>nextvnodeid := id1, v_id := (v_id nc)(vp := id1)\<rparr> in
      if id1 \<noteq> 0 then nc1
      else let linked = concat (map (chain nc) [0..<unat (nchash nc) + 1]);
               nc2 = nc1\<lparr>ents := (\<lambda>e. if e \<in> set linked then (ents nc e)\<lparr>nc_vpid := 0, nc_dvpid := 0\<rparr> else ents nc e)\<rparr> in
           nc2\<lparr>nextvnodeid := id1 + 1, v_id := (v_id nc2)(vp := id1 + 1)\<rparr>)"

text \<open>
  \<open>cache_purgevfs\<close>: \<open>v_mount\<close> gives the file system of a vnode; \<open>todo\<close> is the rest of the LRU
  chain from \<open>ncp\<close> on.  After a removal the scan goes on from the head the chain has then.
\<close>

definition nc_onfs :: "(nat \<Rightarrow> nat) \<Rightarrow> nat \<Rightarrow> ncache \<Rightarrow> nat \<Rightarrow> bool" where
  "nc_onfs v_mount mp nc e \<longleftrightarrow> nc_dvp (ents nc e) \<noteq> 0 \<and> v_mount (nc_dvp (ents nc e)) = mp"

function purgevfs_scan :: "(nat \<Rightarrow> nat) \<Rightarrow> nat \<Rightarrow> nat list \<Rightarrow> ncache \<Rightarrow> ncache kres" where
  "purgevfs_scan v_mount mp [] nc = Done nc"
| "purgevfs_scan v_mount mp (e # todo) nc =
     (if \<not> nc_onfs v_mount mp nc e then purgevfs_scan v_mount mp todo nc
      else let rest = removeAll e (lru nc);
               nc1 = nc_remque e (nc\<lparr>ents := (ents nc)(e := (ents nc e)\<lparr>nc_vp := 0, nc_dvp := 0\<rparr>)\<rparr>) in
           if rest = [] then Fault
           else purgevfs_scan v_mount mp rest (nc1\<lparr>lru := e # rest\<rparr>))"
  by pat_completeness auto
termination
proof (relation "measures [\<lambda>(vm, mp, todo, nc). card {e \<in> set todo \<union> set (lru nc). nc_onfs vm mp nc e},
    \<lambda>(vm, mp, todo, nc). length todo]", goal_cases)
  case (2 vm mp e todo nc)
  have "{x \<in> set todo \<union> set (lru nc). nc_onfs vm mp nc x} = {x \<in> set (e # todo) \<union> set (lru nc). nc_onfs vm mp nc x}"
    using 2 by auto
  then show ?case by simp
next
  case (3 vm mp e todo nc rest nc1)
  let ?n = "nc1\<lparr>lru := e # rest\<rparr>"
  have "{x \<in> set rest \<union> set (lru ?n). nc_onfs vm mp ?n x} \<subset> {x \<in> set (e # todo) \<union> set (lru nc). nc_onfs vm mp nc x}"
    using 3 by (auto simp: nc_onfs_def nc_remque_def split: if_splits)
  then have "card {x \<in> set rest \<union> set (lru ?n). nc_onfs vm mp ?n x} <
        card {x \<in> set (e # todo) \<union> set (lru nc). nc_onfs vm mp nc x}"
    by (intro psubset_card_mono) simp_all
  then show ?case by (simp only: in_measures case_prod_conv simp_thms)
qed simp

declare purgevfs_scan.simps(2) [simp del]

definition cache_purgevfs :: "(nat \<Rightarrow> nat) \<Rightarrow> nat \<Rightarrow> ncache \<Rightarrow> ncache kres" where
  "cache_purgevfs v_mount mp nc = purgevfs_scan v_mount mp (lru nc) nc"

text \<open>
  \<open>nchinit\<close>: with room for \<open>n\<close> chain heads, the doubling loop and the mask it yields; all chains
  and the LRU chain start empty.
\<close>

function nch_double :: "nat \<Rightarrow> nat \<Rightarrow> nat" where
  "nch_double n h = (if h = 0 \<or> n < h then h else nch_double n (2 * h))"
  by pat_completeness auto
termination by (relation "measure (\<lambda>(n, h). Suc n - h)") auto

declare nch_double.simps [simp del]

definition nchinit :: "nat \<Rightarrow> ncache \<Rightarrow> ncache" where
  "nchinit n nc = nc\<lparr>lru := [], nchash := of_nat (nch_double n 1 div 2 - 1), chain := (\<lambda>_. [])\<rparr>"

section \<open>The invariant\<close>

text \<open>
  Every entry is on the LRU chain once; a hash chain holds only such entries, each once and in the
  chain of its name; and no capability number recorded is newer than the last one issued.
\<close>

definition nc_inv :: "ncache \<Rightarrow> bool" where
  "nc_inv nc \<longleftrightarrow> distinct (lru nc) \<and> set (lru nc) = {0..<numcache nc} \<and>
     (\<forall>b. distinct (chain nc b)) \<and> (\<forall>b e. e \<in> set (chain nc b) \<longrightarrow> e \<in> set (lru nc) \<and> b = nc_bucket (nchash nc) (nc_name (ents nc e))) \<and>
     (\<forall>e. nc_dvpid (ents nc e) \<le> nextvnodeid nc \<and> nc_vpid (ents nc e) \<le> nextvnodeid nc) \<and>
     (\<forall>v. v_id nc v \<le> nextvnodeid nc)"

lemma nc_inv_stat [simp]: "nc_inv (nc_stat f nc) = nc_inv nc"
  by (simp add: nc_inv_def nc_stat_def)

lemma nc_inv_touch: "nc_inv nc \<Longrightarrow> e \<in> set (lru nc) \<Longrightarrow> nc_inv (lru_touch e nc)"
  by (auto simp: nc_inv_def lru_touch_def distinct_removeAll)

lemma nc_inv_discard:
  assumes "nc_inv nc" "e \<in> set (lru nc)" "lru_discard e nc = Done nc'"
  shows "nc_inv nc'"
  using assms by (auto simp: nc_inv_def lru_discard_def nc_remque_def Let_def distinct_removeAll split: if_splits)

lemma nc_inv_fill:
  assumes "distinct (lru nc)" "e \<notin> set (lru nc)" "set (lru nc) \<union> {e} = {0..<numcache nc}"
    and "\<forall>b. distinct (chain nc b)"
    and "\<forall>b x. x \<in> set (chain nc b) \<longrightarrow> x \<in> set (lru nc) \<and> b = nc_bucket (nchash nc) (nc_name (ents nc x))"
    and "\<forall>x. nc_dvpid (ents nc x) \<le> nextvnodeid nc \<and> nc_vpid (ents nc x) \<le> nextvnodeid nc"
    and "\<forall>v. v_id nc v \<le> nextvnodeid nc"
  shows "nc_inv (nc_fill ndp e nc)"
proof -
  have "e \<notin> set (chain nc b)" for b using assms(2,5) by blast
  then show ?thesis using assms by (auto simp: nc_inv_def nc_fill_def Let_def)
qed

lemma cache_enter_inv:
  assumes "nc_inv nc"
  shows "nc_inv (cache_enter dv ndp nc)"
proof -
  note i = assms [unfolded nc_inv_def]
  have "nc_inv (nc_fill ndp (numcache nc) (nc\<lparr>numcache := numcache nc + 1\<rparr>))"
    using i by (intro nc_inv_fill) auto
  moreover have "nc_inv (nc_fill ndp e (nc_remque e (nc\<lparr>lru := rest\<rparr>)))" if "lru nc = e # rest" for e rest
  proof (rule nc_inv_fill)
    show "set (lru (nc_remque e (nc\<lparr>lru := rest\<rparr>))) \<union> {e} = {0..<numcache (nc_remque e (nc\<lparr>lru := rest\<rparr>))}"
      using i that by (auto simp: nc_remque_def)
  qed (use i that in \<open>auto simp: nc_remque_def distinct_removeAll\<close>)
  ultimately show ?thesis using assms by (auto simp: cache_enter_def split: list.splits)
qed

lemma cache_lookup_inv:
  assumes "nc_inv nc" "cache_lookup ndp nc = Done (r, mk, nc')"
  shows "nc_inv nc'"
proof (cases "find (nc_matches ndp nc) (chain nc (nc_bucket (nchash nc) (ni_name ndp)))")
  case None
  then show ?thesis using assms by (auto simp: cache_lookup_def split: if_splits)
next
  case (Some e)
  then have "e \<in> set (chain nc (nc_bucket (nchash nc) (ni_name ndp)))" by (metis find_Some_iff nth_mem)
  then have "e \<in> set (lru nc)" using assms(1) by (auto simp: nc_inv_def)
  then have e: "e \<in> set (lru (nc_stat f nc))" for f by (simp add: nc_stat_def)
  have t: "nc_inv (lru_touch e (nc_stat f nc))" for f using assms(1) by (simp add: nc_inv_touch e)
  have d: "nc_inv n" if "lru_discard e (nc_stat f nc) = Done n \<or> lru_discard e nc = Done n" for n f
    using that nc_inv_discard [OF _ e] nc_inv_discard [OF _ \<open>e \<in> set (lru nc)\<close>] assms(1) by (metis nc_inv_stat)
  show ?thesis
    using assms(2) assms(1) Some unfolding cache_lookup_def Let_def option.case kmap_Done_iff
    by (simp only: kmap_Done_iff option.case split: if_splits) (auto simp: t intro: d)
qed

lemma purgevfs_scan_ok:
  assumes "nc_inv nc" "2 \<le> numcache nc" "set todo \<subseteq> set (lru nc)"
    and "\<forall>x \<in> set (lru nc) - set todo. \<not> nc_onfs vm mp nc x"
  shows "\<exists>nc'. purgevfs_scan vm mp todo nc = Done nc' \<and> nc_inv nc' \<and> (\<forall>x \<in> set (lru nc'). \<not> nc_onfs vm mp nc' x) \<and>
    (\<forall>x. \<not> nc_onfs vm mp nc x \<longrightarrow> ents nc' x = ents nc x)"
  using assms
proof (induction vm mp todo nc rule: purgevfs_scan.induct)
  case (2 vm mp e todo nc)
  show ?case
  proof (cases "nc_onfs vm mp nc e")
    case False
    then have "\<forall>x \<in> set (lru nc) - set todo. \<not> nc_onfs vm mp nc x" using 2(6) by auto
    with 2(1) [OF False] 2(3-5) show ?thesis using False by (auto simp: purgevfs_scan.simps)
  next
    case True
    define rest where "rest = removeAll e (lru nc)"
    define nc1 where "nc1 = nc_remque e (nc\<lparr>ents := (ents nc)(e := (ents nc e)\<lparr>nc_vp := 0, nc_dvp := 0\<rparr>)\<rparr>)"
    note i = 2(3) [unfolded nc_inv_def]
    have el: "e \<in> set (lru nc)" using 2(5) by simp
    have "card (set (lru nc)) = numcache nc" using i by simp
    then have "set (lru nc) \<noteq> {e}" using 2(4) by auto
    then have "set rest \<noteq> {}" using el by (auto simp: rest_def)
    then have ne: "rest \<noteq> []" by auto
    have inv: "nc_inv (nc1\<lparr>lru := e # rest\<rparr>)"
      using i el by (auto simp: nc_inv_def nc1_def rest_def nc_remque_def distinct_removeAll)
    have sub: "set rest \<subseteq> set (lru (nc1\<lparr>lru := e # rest\<rparr>))" "2 \<le> numcache (nc1\<lparr>lru := e # rest\<rparr>)"
      using 2(4) by (auto simp: nc1_def nc_remque_def)
    have off: "\<forall>x \<in> set (lru (nc1\<lparr>lru := e # rest\<rparr>)) - set rest. \<not> nc_onfs vm mp (nc1\<lparr>lru := e # rest\<rparr>) x"
      by (auto simp: nc1_def nc_remque_def nc_onfs_def)
    have e: "purgevfs_scan vm mp (e # todo) nc = purgevfs_scan vm mp rest (nc1\<lparr>lru := e # rest\<rparr>)"
      using True ne by (simp add: purgevfs_scan.simps rest_def nc1_def Let_def)
    have keep: "\<not> nc_onfs vm mp nc x \<Longrightarrow> \<not> nc_onfs vm mp (nc1\<lparr>lru := e # rest\<rparr>) x \<and> ents (nc1\<lparr>lru := e # rest\<rparr>) x = ents nc x" for x
      using True by (auto simp: nc1_def nc_remque_def nc_onfs_def)
    have "\<not> \<not> nc_onfs vm mp nc e" using True by simp
    from 2(2) [OF this rest_def nc1_def ne inv sub(2,1) off]
    show ?thesis unfolding e using keep by metis
  qed
qed auto

section \<open>Properties\<close>

text \<open>
  C35: what is entered is found.  Entering a name (found or not) in a cache with room or with an
  entry to reuse, and looking it up in the same directory, gives the vnode entered, or \<open>ENOENT\<close>
  when the name was entered as missing and is not about to be created, whatever older entries the
  cache holds for that name; the chains stay well formed.
\<close>

theorem cache_enter_lookup:
  assumes "nc_inv nc" "doingcache nc" "length (ni_name ndp) \<le> NCHNAMLEN" "ni_makeentry ndp"
    and "numcache nc < dv \<or> lru nc \<noteq> []" "ni_nameiop ndp \<noteq> CREATE"
  shows "\<exists>nc'. cache_lookup ndp (cache_enter dv ndp nc) =
      Done (if ni_vp ndp = 0 then NcNoEnt else NcHit (ni_vp ndp), True, nc') \<and> nc_inv nc'"
proof -
  let ?b = "nc_bucket (nchash nc) (ni_name ndp)"
  obtain e nc1 where e: "cache_enter dv ndp nc = nc_fill ndp e nc1" "nchash nc1 = nchash nc" "v_id nc1 = v_id nc"
    "doingcache nc1"
  proof (cases "numcache nc < dv")
    case True
    then show ?thesis using that [of "numcache nc" "nc\<lparr>numcache := numcache nc + 1\<rparr>"] assms(2) by (simp add: cache_enter_def)
  next
    case False
    then obtain x xs where "lru nc = x # xs" using assms(5) by (cases "lru nc") auto
    then show ?thesis using that [of x "nc_remque x (nc\<lparr>lru := xs\<rparr>)"] assms(2) False
      by (simp add: cache_enter_def nc_remque_def)
  qed
  let ?n = "nc_fill ndp e nc1"
  have m: "nc_matches ndp ?n e" by (simp add: nc_matches_def nc_fill_def Let_def)
  have "find (nc_matches ndp ?n) (chain ?n (nc_bucket (nchash ?n) (ni_name ndp))) = Some e"
    using m by (simp add: nc_fill_def Let_def)
  moreover have "doingcache ?n" "nc_vp (ents ?n e) = ni_vp ndp" "v_id ?n = v_id nc"
    "nc_vpid (ents ?n e) = (if ni_vp ndp \<noteq> 0 then v_id nc (ni_vp ndp) else 0)"
    using e by (simp_all add: nc_fill_def Let_def)
  ultimately have "\<exists>nc'. cache_lookup ndp ?n =
      Done (if ni_vp ndp = 0 then NcNoEnt else NcHit (ni_vp ndp), True, nc')"
    using assms(3,4,6) by (simp add: cache_lookup_def Let_def)
  then show ?thesis using e(1) cache_lookup_inv [OF cache_enter_inv [OF assms(1), of dv ndp]] by auto
qed

definition nc_demo :: ncache where
  "nc_demo = \<lparr>ents = (\<lambda>_. \<lparr>nc_dvp = 0, nc_dvpid = 0, nc_vp = 0, nc_vpid = 0, nc_name = []\<rparr>), chain = (\<lambda>_. []), lru = [],
     numcache = 0, nchash = 7, v_id = (\<lambda>_. 0), nextvnodeid = 5, doingcache = True,
     nstats = \<lparr>ncs_goodhits = 0, ncs_neghits = 0, ncs_badhits = 0, ncs_falsehits = 0, ncs_miss = 0, ncs_long = 0\<rparr>\<rparr>"

definition nd_demo :: nameidata where
  "nd_demo = \<lparr>ni_dvp = 3, ni_name = [98, 105, 110], ni_vp = 4, ni_makeentry = True, ni_nameiop = LOOKUP\<rparr>"

lemma nc_demo_inv: "nc_inv nc_demo"
  by (simp add: nc_inv_def nc_demo_def)

theorem cache_enter_lookup_witness:
  "\<exists>nc'. cache_lookup nd_demo (cache_enter 10 nd_demo nc_demo) = Done (NcHit 4, True, nc')"
  using cache_enter_lookup [OF nc_demo_inv, of nd_demo 10]
  by (auto simp: nc_demo_def nd_demo_def NCHNAMLEN_def)

text \<open>
  purging a vnode hides its entries.  After \<open>cache_purge\<close> of a vnode, while the capability
  counter does not wrap, no lookup in it as a directory succeeds or reports a missing name, and no
  lookup in another directory returns it: every entry made before no longer matches.
\<close>

theorem cache_purge_hides:
  assumes "nc_inv nc" "nextvnodeid nc + 1 \<noteq> 0" "cache_lookup ndp (cache_purge vp nc) = Done (r, mk, nc')"
  shows "nc_inv (cache_purge vp nc) \<and> (ni_dvp ndp = vp \<longrightarrow> r = NcMiss) \<and> r \<noteq> NcHit vp"
proof -
  let ?n = "cache_purge vp nc"
  have n: "?n = nc\<lparr>nextvnodeid := nextvnodeid nc + 1, v_id := (v_id nc)(vp := nextvnodeid nc + 1)\<rparr>"
    using assms(2) by (simp add: cache_purge_def Let_def)
  have "unat (nextvnodeid nc) \<noteq> 4294967295"
  proof
    assume "unat (nextvnodeid nc) = 4294967295"
    then have "unat (nextvnodeid nc + 1) = 0" by (simp add: unat_word_ariths)
    then show False using assms(2) by (simp add: unat_eq_zero)
  qed
  then have "unat (nextvnodeid nc) < 4294967295" using unat32_le [of "nextvnodeid nc"] by linarith
  then have lt: "nextvnodeid nc < nextvnodeid nc + 1" by (simp add: word_less_nat_alt unat32_Suc)
  then have inv: "nc_inv ?n" using assms(1) unfolding n nc_inv_def by (auto intro: order_trans order_less_imp_le)
  have old: "nc_dvpid (ents nc e) \<noteq> nextvnodeid nc + 1" "nc_vpid (ents nc e) \<noteq> nextvnodeid nc + 1" for e
    using assms(1) lt unfolding nc_inv_def by (metis linorder_not_le)+
  have "r = NcMiss" if "ni_dvp ndp = vp"
  proof -
    have "\<not> nc_matches ndp ?n e" for e using that old by (simp add: nc_matches_def n)
    then have "find (nc_matches ndp ?n) xs = None" for xs by (simp add: find_None_iff)
    then show ?thesis using assms(3) by (auto simp: cache_lookup_def split: if_splits)
  qed
  moreover have "r \<noteq> NcHit vp"
  proof
    assume "r = NcHit vp"
    then obtain e where "nc_vp (ents ?n e) = vp" "nc_vpid (ents ?n e) = v_id ?n (nc_vp (ents ?n e))"
      using assms(3) by (auto simp: cache_lookup_def Let_def kmap_Done_iff split: if_splits option.splits)
    then show False using old(2) by (simp add: n)
  qed
  ultimately show ?thesis using inv by blast
qed

theorem cache_purge_hides_witness:
  "\<exists>r mk nc'. cache_lookup nd_demo (cache_purge 3 (cache_enter 10 nd_demo nc_demo)) = Done (r, mk, nc') \<and> r = NcMiss"
proof -
  let ?n = "cache_enter 10 nd_demo nc_demo"
  have nx: "nextvnodeid ?n + 1 \<noteq> 0" by (simp add: cache_enter_def nc_fill_def nd_demo_def nc_demo_def Let_def)
  obtain r mk nc' where l: "cache_lookup nd_demo (cache_purge 3 ?n) = Done (r, mk, nc')"
    by (simp add: cache_lookup_def cache_purge_def cache_enter_def nc_fill_def nd_demo_def nc_demo_def NCHNAMLEN_def
      nc_matches_def Let_def)
  have "ni_dvp nd_demo = 3" by (simp add: nd_demo_def)
  then show ?thesis using cache_purge_hides [OF cache_enter_inv [OF nc_demo_inv] nx l] l by auto
qed

text \<open>
  unmounting a file system empties the cache of it.  With at least two entries allocated,
  \<open>cache_purgevfs\<close> ends; afterwards no entry names a directory of that file system, the entries of
  the others are unchanged, and the chains are well formed.
\<close>

theorem cache_purgevfs_complete:
  assumes "nc_inv nc" "2 \<le> numcache nc"
  shows "\<exists>nc'. cache_purgevfs v_mount mp nc = Done nc' \<and> nc_inv nc' \<and> (\<forall>x \<in> set (lru nc'). \<not> nc_onfs v_mount mp nc' x) \<and>
    (\<forall>x. \<not> nc_onfs v_mount mp nc x \<longrightarrow> ents nc' x = ents nc x)"
  using purgevfs_scan_ok [OF assms, of "lru nc"] by (simp add: cache_purgevfs_def)

theorem cache_purgevfs_complete_witness:
  "\<exists>nc'. cache_purgevfs (\<lambda>_. 1) 1 (cache_enter 10 nd_demo (cache_enter 10 nd_demo nc_demo)) = Done nc' \<and>
     (\<forall>x \<in> set (lru nc'). \<not> nc_onfs (\<lambda>_. 1) 1 nc' x)"
proof -
  have "2 \<le> numcache (cache_enter 10 nd_demo (cache_enter 10 nd_demo nc_demo))"
    by (simp add: cache_enter_def nc_fill_def nc_demo_def Let_def)
  then show ?thesis
    using cache_purgevfs_complete [OF cache_enter_inv [OF cache_enter_inv [OF nc_demo_inv]]] by blast
qed

text \<open>
  dropping the only entry of the cache follows a null pointer.  In a cache with a single entry,
  a lookup of its name that must not be cached (the last component of a deletion), and the
  unmounting of its file system, both put the entry back in front of an LRU chain that is empty
  at that moment.
\<close>

theorem cache_only_entry_faults:
  "cache_lookup (nd_demo\<lparr>ni_makeentry := False, ni_nameiop := DELETE\<rparr>) (cache_enter 10 nd_demo nc_demo) = Fault \<and>
   cache_purgevfs (\<lambda>_. 1) 1 (cache_enter 10 nd_demo nc_demo) = Fault"
proof
  let ?nd = "nd_demo\<lparr>ni_makeentry := False, ni_nameiop := DELETE\<rparr>" and ?n = "cache_enter 10 nd_demo nc_demo"
  have n: "?n = nc_fill nd_demo 0 (nc_demo\<lparr>numcache := 1\<rparr>)" by (simp add: cache_enter_def nc_demo_def)
  have m: "nc_matches ?nd ?n 0" unfolding n by (simp add: nc_matches_def nc_fill_def nd_demo_def Let_def)
  have "find (nc_matches ?nd ?n) (chain ?n (nc_bucket (nchash ?n) (ni_name ?nd))) = Some 0"
    using m unfolding n by (simp add: nc_fill_def nd_demo_def Let_def)
  moreover have "doingcache ?n" "\<not> NCHNAMLEN < length (ni_name ?nd)" "lru ?n = [0]"
    unfolding n by (simp_all add: nc_fill_def nc_demo_def nd_demo_def NCHNAMLEN_def Let_def)
  moreover have "lru_discard 0 (nc_stat f ?n) = Fault" for f
    using \<open>lru ?n = [0]\<close> by (simp add: lru_discard_def nc_stat_def nc_remque_def Let_def)
  ultimately show "cache_lookup ?nd ?n = Fault" by (simp add: cache_lookup_def Let_def)
  show "cache_purgevfs (\<lambda>_. 1) 1 ?n = Fault"
    unfolding n by (simp add: cache_purgevfs_def purgevfs_scan.simps nc_onfs_def nc_fill_def nd_demo_def nc_demo_def Let_def)
qed

end
