(* ===== verification/Uio.thy ===== *)
theory Uio
  imports Prelude
begin

text \<open>
  Scatter/gather transfers: \<open>kern/subr/uio.c\<close> and \<open>uio_advance\<close> of \<open>include/uio.h\<close>.  The function
  applied to each piece is a parameter: it takes the two addresses and the count and a state \<open>'m\<close>
  (memory, say), and returns its error and the new state.
\<close>

section \<open>Descriptors\<close>

datatype uio_rw = UIO_READ | UIO_WRITE

datatype uio_seg = UIO_USERSPACE | UIO_SYSSPACE | UIO_USERISPACE

record iovec =
  iov_base :: nat
  iov_len :: nat

record uio =
  uio_iov :: "iovec list"
  uio_iovcnt :: int
  uio_offset :: int
  uio_resid :: int
  uio_segflg :: uio_seg
  uio_rw :: uio_rw

text \<open>Advance by at most the length of the first vector; there must be one.\<close>

definition uio_advance :: "uio \<Rightarrow> nat \<Rightarrow> uio" where
  "uio_advance u cnt =
     (case uio_iov u of
        [] \<Rightarrow> u
      | v # vs \<Rightarrow>
          let v' = \<lparr>iov_base = iov_base v + cnt, iov_len = iov_len v - cnt\<rparr>;
              u' = (if iov_len v' = 0 then u\<lparr>uio_iov := vs, uio_iovcnt := uio_iovcnt u - 1\<rparr>
                    else u\<lparr>uio_iov := v' # vs\<rparr>) in
          u'\<lparr>uio_resid := uio_resid u - int cnt, uio_offset := uio_offset u + int cnt\<rparr>)"

type_synonym 'm ufunc = "nat \<Rightarrow> nat \<Rightarrow> nat \<Rightarrow> 'm \<Rightarrow> int \<times> 'm"

section \<open>Loops\<close>

text \<open>
  \<open>uioapply\<close>: the function gets the offset, the base and the length of each vector in turn and
  returns how much of it is left.
\<close>

function uioapply :: "(int \<Rightarrow> uio_rw \<Rightarrow> nat \<Rightarrow> nat \<Rightarrow> 'm \<Rightarrow> int \<times> nat \<times> 'm) \<Rightarrow> uio \<Rightarrow> 'm \<Rightarrow> (int \<times> uio \<times> 'm) kres" where
  "uioapply func u m =
     (if uio_resid u \<le> 0 then Done (0, u, m)
      else case uio_iov u of
        [] \<Rightarrow> Fault
      | v # vs \<Rightarrow>
          let cnt = iov_len v; (error, cnt1, m') = func (uio_offset u) (uio_rw u) (iov_base v) cnt m;
              u' = uio_advance u (cnt - cnt1) in
          if error \<noteq> 0 \<or> cnt1 \<noteq> 0 then Done (error, u', m') else uioapply func u' m')"
  by pat_completeness auto
termination
  by (relation "measure (\<lambda>(f, u, m). length (uio_iov u))") (auto simp: uio_advance_def Let_def)

declare uioapply.simps [simp del]

text \<open>
  The loop of \<open>uiotofunc\<close> and \<open>uiotofunc1\<close>: bit 0 of \<open>order\<close> swaps the addresses, bit 1 makes
  an error of the function end the loop.  The first component is the last value of \<open>rv\<close>: the
  value of an early return, or what \<open>rv\<close> holds at the end, which is undefined (\<open>None\<close>) when the
  function was never called.
\<close>

function uio_loop :: "'m ufunc \<Rightarrow> nat \<Rightarrow> nat \<Rightarrow> uio \<Rightarrow> bool \<Rightarrow> bool \<Rightarrow> int option \<Rightarrow> 'm \<Rightarrow> (bool \<times> int option \<times> uio \<times> 'm) kres" where
  "uio_loop func cp len u swap chk rv m =
     (if len = 0 \<or> uio_resid u \<le> 0 then Done (False, rv, u, m)
      else case uio_iov u of
        [] \<Rightarrow> Fault
      | v # vs \<Rightarrow>
          let cnt = min (iov_len v) len;
              (r, m') = (if swap then func (iov_base v) cp cnt m else func cp (iov_base v) cnt m) in
          if chk \<and> r \<noteq> 0 then Done (True, Some r, u, m')
          else uio_loop func (cp + cnt) (len - cnt) (uio_advance u cnt) swap chk (Some r) m')"
  by pat_completeness auto
termination
  by (relation "measures [\<lambda>(f, cp, len, u, s, c, r, m). length (uio_iov u), \<lambda>(f, cp, len, u, s, c, r, m). len]")
    (auto simp: uio_advance_def Let_def min_def split: if_splits)

declare uio_loop.simps [simp del]

definition uiotofunc :: "'m ufunc \<Rightarrow> nat \<Rightarrow> nat \<Rightarrow> uio \<Rightarrow> nat \<Rightarrow> 'm \<Rightarrow> (int option \<times> uio \<times> 'm) kres" where
  "uiotofunc func cp len u order m =
     kmap (\<lambda>(early, rv, u', m'). (rv, u', m')) (uio_loop func cp len u (odd order) (odd (order div 2)) None m)"

definition uiotofunc1 :: "'m ufunc \<Rightarrow> nat \<Rightarrow> nat \<Rightarrow> uio \<Rightarrow> nat \<Rightarrow> 'm \<Rightarrow> (int \<times> uio \<times> 'm) kres" where
  "uiotofunc1 func cp len u order m =
     kmap (\<lambda>(early, rv, u', m'). (if early then the rv else 0, u', m'))
       (uio_loop func cp len u (odd order) (odd (order div 2)) None m)"

definition uiomove ::
  "'m ufunc \<Rightarrow> 'm ufunc \<Rightarrow> 'm ufunc \<Rightarrow> nat \<Rightarrow> nat \<Rightarrow> uio \<Rightarrow> 'm \<Rightarrow> (int \<times> uio \<times> 'm) kres" where
  "uiomove copyout copyin memcpy cp len u m =
     (case uio_segflg u of
        UIO_USERSPACE \<Rightarrow>
          if uio_rw u = UIO_READ then uiotofunc1 copyout cp len u 0 m else uiotofunc1 copyin cp len u 1 m
      | UIO_SYSSPACE \<Rightarrow>
          kmap (\<lambda>(rv, u', m'). (0, u', m')) (uiotofunc memcpy cp len u (if uio_rw u = UIO_READ then 1 else 0) m)
      | UIO_USERISPACE \<Rightarrow> Done (0, u, m))"

section \<open>What a transfer covers\<close>

definition iov_bytes :: "iovec list \<Rightarrow> nat list" where
  "iov_bytes vs = concat (map (\<lambda>v. [iov_base v..<iov_base v + iov_len v]) vs)"

definition uio_ok :: "uio \<Rightarrow> bool" where
  "uio_ok u \<longleftrightarrow> uio_resid u = int (length (iov_bytes (uio_iov u)))"

lemma iov_bytes_simps [simp]:
  "iov_bytes [] = []" "iov_bytes (v # vs) = [iov_base v..<iov_base v + iov_len v] @ iov_bytes vs"
  by (simp_all add: iov_bytes_def)

lemma uio_advance_bytes:
  assumes "uio_ok u" "uio_iov u = v # vs" "cnt \<le> iov_len v"
  shows "uio_ok (uio_advance u cnt)" "iov_bytes (uio_iov (uio_advance u cnt)) = drop cnt (iov_bytes (uio_iov u))"
    "uio_resid (uio_advance u cnt) = uio_resid u - int cnt" "uio_offset (uio_advance u cnt) = uio_offset u + int cnt"
  using assms by (auto simp: uio_advance_def uio_ok_def Let_def)

text \<open>A function that records the pieces it is given, and fails as \<open>e\<close> says.\<close>

definition recorder :: "(nat \<Rightarrow> nat \<Rightarrow> nat \<Rightarrow> int) \<Rightarrow> (nat \<times> nat) list ufunc" where
  "recorder e a b n tr = (e a b n, tr @ zip [a..<a + n] [b..<b + n])"

lemma uio_loop_recorder:
  assumes "uio_ok u"
  shows "\<exists>rv' u'. uio_loop (recorder e) cp len u False False rv tr =
      Done (False, rv', u', tr @ zip [cp..<cp + len] (take len (iov_bytes (uio_iov u)))) \<and>
    uio_ok u' \<and> uio_resid u' = uio_resid u - min (int len) (uio_resid u) \<and>
    uio_offset u' = uio_offset u + min (int len) (uio_resid u) \<and>
    iov_bytes (uio_iov u') = drop len (iov_bytes (uio_iov u))"
  using assms
proof (induction "recorder e" cp len u False False rv tr rule: uio_loop.induct)
  case (1 cp len u rv tr)
  have nn: "0 \<le> uio_resid u" using 1(2) by (simp add: uio_ok_def)
  show ?case
  proof (cases "len = 0 \<or> uio_resid u \<le> 0")
    case True
    then have "take len (iov_bytes (uio_iov u)) = []" "min (int len) (uio_resid u) = 0"
      "drop len (iov_bytes (uio_iov u)) = iov_bytes (uio_iov u)"
      using 1(2) nn by (auto simp: uio_ok_def)
    then show ?thesis using True 1(2) by (subst uio_loop.simps) simp
  next
    case False
    then obtain v vs where iov: "uio_iov u = v # vs" using 1(2) by (cases "uio_iov u") (auto simp: uio_ok_def)
    define cnt where "cnt = min (iov_len v) len"
    let ?u = "uio_advance u cnt" and ?t = "tr @ zip [cp..<cp + cnt] [iov_base v..<iov_base v + cnt]"
    have a: "uio_ok ?u" "iov_bytes (uio_iov ?u) = drop cnt (iov_bytes (uio_iov u))"
      "uio_resid ?u = uio_resid u - int cnt" "uio_offset ?u = uio_offset u + int cnt"
      using uio_advance_bytes [OF 1(2) iov, of cnt] by (simp_all add: cnt_def)
    have step: "uio_loop (recorder e) cp len u False False rv tr =
        uio_loop (recorder e) (cp + cnt) (len - cnt) ?u False False (Some (e cp (iov_base v) cnt)) ?t"
      using False iov by (subst uio_loop.simps) (simp add: recorder_def cnt_def Let_def)
    from 1(1) [OF False iov cnt_def, of "(e cp (iov_base v) cnt, ?t)" "e cp (iov_base v) cnt" ?t] a(1)
    obtain rv' u' where ih: "uio_loop (recorder e) (cp + cnt) (len - cnt) ?u False False (Some (e cp (iov_base v) cnt)) ?t =
        Done (False, rv', u', ?t @ zip [cp + cnt..<cp + cnt + (len - cnt)] (take (len - cnt) (iov_bytes (uio_iov ?u))))"
      "uio_ok u'" "uio_resid u' = uio_resid ?u - min (int (len - cnt)) (uio_resid ?u)"
      "uio_offset u' = uio_offset ?u + min (int (len - cnt)) (uio_resid ?u)"
      "iov_bytes (uio_iov u') = drop (len - cnt) (iov_bytes (uio_iov ?u))"
      by (auto simp: recorder_def cnt_def)
    have le: "cnt \<le> len" "cnt \<le> iov_len v" by (simp_all add: cnt_def)
    have z: "zip [cp..<cp + len] (take len (iov_bytes (uio_iov u))) =
        zip [cp..<cp + cnt] [iov_base v..<iov_base v + cnt] @
        zip [cp + cnt..<cp + cnt + (len - cnt)] (take (len - cnt) (drop cnt (iov_bytes (uio_iov u))))"
    proof -
      have "[cp..<cp + len] = [cp..<cp + cnt] @ [cp + cnt..<cp + cnt + (len - cnt)]"
        using le(1) upt_add_eq_append [of cp "cp + cnt" "len - cnt"] by simp
      moreover have "take len (iov_bytes (uio_iov u)) =
          take cnt (iov_bytes (uio_iov u)) @ take (len - cnt) (drop cnt (iov_bytes (uio_iov u)))"
        using le(1) take_add [of cnt "len - cnt" "iov_bytes (uio_iov u)"] by simp
      moreover have "take cnt (iov_bytes (uio_iov u)) = [iov_base v..<iov_base v + cnt]"
        using iov le(2) by (simp add: take_upt)
      ultimately show ?thesis by (simp add: zip_append)
    qed
    show ?thesis unfolding step using ih a le nn 1(2) z by (auto simp: min_def)
  qed
qed

text \<open>Without the checking bit the loop never ends early.\<close>

lemma uio_loop_unchecked:
  "uio_loop func cp len u swap False rv m = Done (early, rv', u', m') \<Longrightarrow> \<not> early"
proof (induction func cp len u swap False rv m rule: uio_loop.induct)
  case (1 func cp len u swap rv m)
  show ?case
  proof (cases "len = 0 \<or> uio_resid u \<le> 0")
    case True
    then show ?thesis using 1(2) by (subst (asm) uio_loop.simps) auto
  next
    case False
    then obtain v vs where iov: "uio_iov u = v # vs"
      using 1(2) by (subst (asm) uio_loop.simps) (auto split: list.splits)
    define cnt where "cnt = min (iov_len v) len"
    obtain r m1 where p: "(if swap then func (iov_base v) cp cnt m else func cp (iov_base v) cnt m) = (r, m1)"
      by (metis surj_pair)
    have "uio_loop func cp len u swap False rv m =
        uio_loop func (cp + cnt) (len - cnt) (uio_advance u cnt) swap False (Some r) m1"
      using False iov p [unfolded cnt_def] by (subst uio_loop.simps) (cases swap; simp add: cnt_def Let_def)
    then have "uio_loop func (cp + cnt) (len - cnt) (uio_advance u cnt) swap False (Some r) m1 = Done (early, rv', u', m')"
      using 1(2) by simp
    then show ?thesis using 1(1) [OF False iov cnt_def p [symmetric] refl] by simp
  qed
qed

section \<open>Properties\<close>

text \<open>
  C36: \<open>uiomove\<close> transfers the right bytes.  For a read into user space described by vectors that
  add up to \<open>uio_resid\<close>, the copies pair the buffer, byte by byte and in order, with the first
  \<open>min len resid\<close> bytes the vectors describe; afterwards the descriptor has advanced by exactly
  that many bytes and describes the rest.
\<close>

theorem uiomove_transfers:
  assumes "uio_ok u" "uio_segflg u = UIO_USERSPACE" "uio_rw u = UIO_READ"
  shows "\<exists>u'. uiomove (recorder e) copyin memcpy cp len u [] =
      Done (0, u', zip [cp..<cp + len] (take len (iov_bytes (uio_iov u)))) \<and>
    uio_ok u' \<and> uio_resid u' = uio_resid u - min (int len) (uio_resid u) \<and>
    uio_offset u' = uio_offset u + min (int len) (uio_resid u) \<and>
    iov_bytes (uio_iov u') = drop len (iov_bytes (uio_iov u))"
  using uio_loop_recorder [OF assms(1), of e cp len None "[]"] assms(2,3)
  by (auto simp: uiomove_def uiotofunc1_def)

definition uio_demo :: uio where
  "uio_demo = \<lparr>uio_iov = [\<lparr>iov_base = 100, iov_len = 2\<rparr>, \<lparr>iov_base = 200, iov_len = 3\<rparr>], uio_iovcnt = 2,
     uio_offset = 0, uio_resid = 5, uio_segflg = UIO_USERSPACE, uio_rw = UIO_READ\<rparr>"

theorem uiomove_transfers_witness:
  "\<exists>u'. uiomove (recorder (\<lambda>_ _ _. 0)) (recorder (\<lambda>_ _ _. 0)) (recorder (\<lambda>_ _ _. 0)) 10 4 uio_demo [] =
     Done (0, u', [(10, 100), (11, 101), (12, 200), (13, 201)]) \<and> uio_resid u' = 1"
proof -
  have "uio_ok uio_demo" "uio_segflg uio_demo = UIO_USERSPACE" "uio_rw uio_demo = UIO_READ"
    by (simp_all add: uio_demo_def uio_ok_def)
  from uiomove_transfers [OF this, of "\<lambda>_ _ _. 0" "recorder (\<lambda>_ _ _. 0)" "recorder (\<lambda>_ _ _. 0)" 10 4]
  show ?thesis by (auto simp: uio_demo_def upt_rec)
qed

text \<open>
  \<open>uiomove\<close> never reports a fault.  Both user-space calls are made without the bit that stops
  the loop on an error, so that the value returned is 0 whatever the copies return, even when
  every one of them fails with \<open>EFAULT\<close>.
\<close>

theorem uiomove_hides_faults:
  "uiomove copyout copyin memcpy cp len u m = Done (rv, u', m') \<Longrightarrow> rv = 0"
  by (auto simp: uiomove_def uiotofunc1_def kmap_Done_iff dest: uio_loop_unchecked split: uio_seg.splits if_splits)

theorem uiomove_hides_faults_witness:
  "\<exists>u' m'. uiomove (recorder (\<lambda>_ _ _. 14)) (recorder (\<lambda>_ _ _. 14)) (recorder (\<lambda>_ _ _. 14)) 10 4 uio_demo [] = Done (0, u', m')"
proof -
  obtain rv u' m' where "uiomove (recorder (\<lambda>_ _ _. 14)) (recorder (\<lambda>_ _ _. 14)) (recorder (\<lambda>_ _ _. 14)) 10 4 uio_demo [] = Done (rv, u', m')"
    using uio_loop_recorder [of uio_demo "\<lambda>_ _ _. 14" 10 4 None "[]"]
    by (auto simp: uiomove_def uiotofunc1_def uio_demo_def uio_ok_def)
  moreover from uiomove_hides_faults [OF this] have "rv = 0" .
  ultimately show ?thesis by blast
qed

end
