(* ===== verification/Cred.thy ===== *)
theory Cred
  imports Prelude
begin

text \<open>
  Privileges and credentials: \<open>kern/priv.c\<close>, \<open>kern/cred.c\<close>, \<open>include/ucred.h\<close>,
  \<open>include/privilege.h\<close> and the \<open>pcred\<close> structure of \<open>include/proc.h\<close>.

  The credentials of a process are two reference-counted structures: the \<open>pcred\<close> the process
  points to, and the \<open>ucred\<close> that \<open>pcred\<close> points to, which open files and mounts also hold.  The
  state is therefore a store of each kind, addressed by numbers.  The addresses that \<open>MALLOC\<close>
  returns are arguments of the operations, as are the results of \<open>copyin\<close>, \<open>copyout\<close> and
  \<open>copyinstr\<close>; a freed \<open>ucred\<close> leaves the store, and a reference to it is a fault.
\<close>

section \<open>Privileges\<close>

datatype cr_priv =
    PRV_NO_UPROCLIMIT | PRV_SETLOGIN | PRV_SETUID | PRV_SETEUID | PRV_SETGID
  | PRV_SETEGID | PRV_SETGROUPS | PRV_EXECSETUID | PRV_EXECSETGID
  | PRV_SWAPON | PRV_MOUNT | PRV_UNMOUNT | PRV_CHROOT | PRV_MKNOD | PRV_LINKDIR
  | PRV_UNLINKDIR | PRV_REVOKE | PRV_TIOCCONS1 | PRV_TIOCCONS2 | PRV_SETHOSTID
  | PRV_SETHOSTNAME | PRV_REBOOT | PRV_SETTIMEOFDAY | PRV_ADJTIME | PRV_NICE
  | PRV_RLIMIT_CPU | PRV_RLIMIT_FSIZE | PRV_RLIMIT_DATA | PRV_RLIMIT_STACK
  | PRV_RLIMIT_CORE | PRV_RLIMIT_RSS | PRV_RLIMIT_MEMLOCK | PRV_RLIMIT_NPROC
  | PRV_RLIMIT_OFILE
  | PRV_UFS_SETATTR_TIME | PRV_UFS_SETATTR_UID | PRV_UFS_CHMOD | PRV_UFS_CHOWN
  | PRV_UFS_MAKNODE | PRV_UFS_QUOTA_CHANGE
  | PRV_NFS_GETFH | PRV_NFS_SVC | PRV_NFS_ASYNC_DAEMON | PRV_NFS_SRV_CREATE_SPECIAL
  | PRV_NFS_SRV_REMOVE_DIR | PRV_NFS_SRV_LINK_DIR
  | PRV_SIOCSDARP | PRV_SIOCSIFFLAGS | PRV_SIOCSIFMETRIC | PRV_SLIP_OPEN | PRV_RTIOCTL

text \<open>The roles, in the order of the enumeration.\<close>

definition ROLE_ALL :: u32 where "ROLE_ALL = 0"
definition ROLE_MGMT :: u32 where "ROLE_MGMT = 1"
definition ROLE_LOCALUSR :: u32 where "ROLE_LOCALUSR = 2"
definition ROLE_DISTANTUSR :: u32 where "ROLE_DISTANTUSR = 3"
definition ROLE_NONE :: u32 where "ROLE_NONE = 4"

definition NGROUPS_MAX :: nat where "NGROUPS_MAX = 16"

record ucred =
  cr_ref :: u16
  cr_uid :: u16
  cr_role :: u16
  cr_ngroups :: u16
  cr_groups :: "u16 list"

text \<open>
  The \<open>switch\<close> of \<open>use_priv\<close>: the least privileged role that may use the privilege, for the
  privileges that have a case.
\<close>

fun priv_minrole :: "cr_priv \<Rightarrow> u32 option" where
  "priv_minrole PRV_SETLOGIN = Some ROLE_ALL"
| "priv_minrole PRV_REVOKE = Some ROLE_ALL"
| "priv_minrole PRV_ADJTIME = Some ROLE_ALL"
| "priv_minrole PRV_NFS_GETFH = Some ROLE_ALL"
| "priv_minrole PRV_NFS_SVC = Some ROLE_ALL"
| "priv_minrole PRV_NFS_ASYNC_DAEMON = Some ROLE_ALL"
| "priv_minrole PRV_NFS_SRV_CREATE_SPECIAL = Some ROLE_ALL"
| "priv_minrole PRV_NFS_SRV_REMOVE_DIR = Some ROLE_ALL"
| "priv_minrole PRV_NFS_SRV_LINK_DIR = Some ROLE_ALL"
| "priv_minrole PRV_SWAPON = Some ROLE_MGMT"
| "priv_minrole PRV_MOUNT = Some ROLE_MGMT"
| "priv_minrole PRV_UNMOUNT = Some ROLE_MGMT"
| "priv_minrole PRV_CHROOT = Some ROLE_MGMT"
| "priv_minrole PRV_MKNOD = Some ROLE_MGMT"
| "priv_minrole PRV_LINKDIR = Some ROLE_MGMT"
| "priv_minrole PRV_UNLINKDIR = Some ROLE_MGMT"
| "priv_minrole PRV_TIOCCONS1 = Some ROLE_MGMT"
| "priv_minrole PRV_TIOCCONS2 = Some ROLE_MGMT"
| "priv_minrole PRV_SETHOSTID = Some ROLE_MGMT"
| "priv_minrole PRV_SETHOSTNAME = Some ROLE_MGMT"
| "priv_minrole PRV_REBOOT = Some ROLE_MGMT"
| "priv_minrole PRV_SETTIMEOFDAY = Some ROLE_MGMT"
| "priv_minrole PRV_NO_UPROCLIMIT = Some ROLE_MGMT"
| "priv_minrole PRV_RLIMIT_RSS = Some ROLE_MGMT"
| "priv_minrole PRV_RLIMIT_MEMLOCK = Some ROLE_MGMT"
| "priv_minrole PRV_UFS_QUOTA_CHANGE = Some ROLE_MGMT"
| "priv_minrole PRV_SIOCSDARP = Some ROLE_MGMT"
| "priv_minrole PRV_SIOCSIFFLAGS = Some ROLE_MGMT"
| "priv_minrole PRV_SIOCSIFMETRIC = Some ROLE_MGMT"
| "priv_minrole PRV_SLIP_OPEN = Some ROLE_MGMT"
| "priv_minrole PRV_RTIOCTL = Some ROLE_MGMT"
| "priv_minrole PRV_RLIMIT_CPU = Some ROLE_LOCALUSR"
| "priv_minrole PRV_RLIMIT_FSIZE = Some ROLE_LOCALUSR"
| "priv_minrole PRV_RLIMIT_DATA = Some ROLE_LOCALUSR"
| "priv_minrole PRV_RLIMIT_STACK = Some ROLE_LOCALUSR"
| "priv_minrole PRV_RLIMIT_CORE = Some ROLE_LOCALUSR"
| "priv_minrole PRV_RLIMIT_NPROC = Some ROLE_LOCALUSR"
| "priv_minrole PRV_RLIMIT_OFILE = Some ROLE_LOCALUSR"
| "priv_minrole PRV_UFS_SETATTR_TIME = Some ROLE_LOCALUSR"
| "priv_minrole PRV_UFS_SETATTR_UID = Some ROLE_LOCALUSR"
| "priv_minrole PRV_UFS_CHOWN = Some ROLE_LOCALUSR"
| "priv_minrole PRV_UFS_CHMOD = Some ROLE_LOCALUSR"
| "priv_minrole PRV_NICE = Some ROLE_LOCALUSR"
| "priv_minrole PRV_SETUID = Some ROLE_NONE"
| "priv_minrole PRV_SETEUID = Some ROLE_NONE"
| "priv_minrole PRV_SETGID = Some ROLE_NONE"
| "priv_minrole PRV_SETEGID = Some ROLE_NONE"
| "priv_minrole PRV_SETGROUPS = Some ROLE_NONE"
| "priv_minrole PRV_EXECSETUID = Some ROLE_NONE"
| "priv_minrole PRV_EXECSETGID = Some ROLE_NONE"
| "priv_minrole PRV_UFS_MAKNODE = None"

text \<open>
  \<open>use_priv\<close>; the first argument is whether the kernel is compiled with \<open>DIAGNOSTIC\<close>.  The
  message logged for a sensitive privilege is not modelled.
\<close>

definition use_priv :: "bool \<Rightarrow> ucred \<Rightarrow> cr_priv \<Rightarrow> int kres" where
  "use_priv diagnostic cr prv =
     (if priv_minrole prv = None \<and> diagnostic then Panic ''use_priv''
      else
        let (minrole, rv) =
              (case priv_minrole prv of None \<Rightarrow> (ROLE_ALL, True) | Some r \<Rightarrow> (r, cr_uid cr = 0)) in
        if minrole < (scast (cr_role cr) :: u32) then Done EPERM
        else Done (if rv then 0 else EPERM))"

lemma use_priv_root:
  assumes "priv_minrole prv \<noteq> None"
  shows "\<exists>e. use_priv diagnostic cr prv = Done e \<and> (e = 0 \<longrightarrow> cr_uid cr = 0)"
  using assms by (auto simp: use_priv_def EPERM_def)

section \<open>The stores\<close>

record pcred =
  pc_ucred :: addr
  p_ruid :: u16
  p_svuid :: u16
  p_rgid :: u16
  p_svgid :: u16
  p_refcnt :: u32

record csys =
  ucreds :: "addr \<Rightarrow> ucred option"
  pcreds :: "addr \<Rightarrow> pcred option"
  p_cred :: "nat \<Rightarrow> addr option"
  p_session :: "nat \<Rightarrow> addr"
  s_login :: "addr \<Rightarrow> u8 list"

text \<open>The credentials of a process: \<open>p->p_cred\<close> and \<open>p->p_cred->pc_ucred\<close> with their contents.\<close>

definition get_pcred :: "nat \<Rightarrow> csys \<Rightarrow> (addr \<times> pcred) kres" where
  "get_pcred p s = kbind (deref (p_cred s p)) (\<lambda>a. kmap (Pair a) (deref (pcreds s a)))"

definition get_creds :: "nat \<Rightarrow> csys \<Rightarrow> (pcred \<times> ucred) kres" where
  "get_creds p s = kbind (get_pcred p s) (\<lambda>(a, pc). kmap (Pair pc) (deref (ucreds s (pc_ucred pc))))"

definition crhold :: "addr \<Rightarrow> csys \<Rightarrow> csys kres" where
  "crhold u s = kmap (\<lambda>cr. s\<lparr>ucreds := (ucreds s)(u \<mapsto> cr\<lparr>cr_ref := cr_ref cr + 1\<rparr>)\<rparr>) (deref (ucreds s u))"

definition crget :: ucred where
  "crget = \<lparr>cr_ref = 1, cr_uid = 0, cr_role = 0, cr_ngroups = 0, cr_groups = replicate NGROUPS_MAX 0\<rparr>"

definition crfree :: "addr \<Rightarrow> csys \<Rightarrow> csys kres" where
  "crfree u s =
     kmap (\<lambda>cr. s\<lparr>ucreds := (ucreds s)(u := if cr_ref cr - 1 = 0 then None else Some (cr\<lparr>cr_ref := cr_ref cr - 1\<rparr>))\<rparr>)
       (deref (ucreds s u))"

definition crdup :: "addr \<Rightarrow> addr \<Rightarrow> csys \<Rightarrow> csys kres" where
  "crdup new u s = kmap (\<lambda>cr. s\<lparr>ucreds := (ucreds s)(new \<mapsto> cr\<lparr>cr_ref := 1\<rparr>)\<rparr>) (deref (ucreds s u))"

text \<open>
  \<open>modpcred\<close> makes the credentials of the process its own: \<open>np\<close> and \<open>nu\<close> are the addresses of
  the new \<open>pcred\<close> and \<open>ucred\<close>, when one is needed.
\<close>

definition modpcred :: "addr \<Rightarrow> addr \<Rightarrow> nat \<Rightarrow> csys \<Rightarrow> (addr \<times> csys) kres" where
  "modpcred np nu p s =
     kbind (get_pcred p s) (\<lambda>(a, old).
     kbind (if p_refcnt old \<noteq> 1
            then kmap (Pair np)
              (crhold (pc_ucred old)
                (s\<lparr>pcreds := (pcreds s)(np \<mapsto> old\<lparr>p_refcnt := 1\<rparr>, a \<mapsto> old\<lparr>p_refcnt := p_refcnt old - 1\<rparr>),
                   p_cred := (p_cred s)(p \<mapsto> np)\<rparr>))
            else Done (a, s)) (\<lambda>(b, s1).
     kbind (deref (pcreds s1 b)) (\<lambda>pc.
     kbind (deref (ucreds s1 (pc_ucred pc))) (\<lambda>cr.
       if cr_ref cr \<noteq> 1
       then kbind (crdup nu (pc_ucred pc) s1) (\<lambda>s2.
              kmap (\<lambda>s3. (b, s3\<lparr>pcreds := (pcreds s3)(b \<mapsto> pc\<lparr>pc_ucred := nu\<rparr>)\<rparr>)) (crfree (pc_ucred pc) s2))
       else Done (b, s1)))))"

text \<open>The writes that follow \<open>modpcred\<close>: both structures are updated in place.\<close>

definition upd_creds :: "(pcred \<Rightarrow> pcred) \<Rightarrow> (ucred \<Rightarrow> ucred) \<Rightarrow> addr \<Rightarrow> csys \<Rightarrow> csys kres" where
  "upd_creds f g a s =
     kbind (deref (pcreds s a)) (\<lambda>pc.
     kmap (\<lambda>cr. s\<lparr>pcreds := (pcreds s)(a \<mapsto> f pc), ucreds := (ucreds s)(pc_ucred pc \<mapsto> g cr)\<rparr>)
       (deref (ucreds s (pc_ucred pc))))"

definition mod_creds :: "addr \<Rightarrow> addr \<Rightarrow> (pcred \<Rightarrow> pcred) \<Rightarrow> (ucred \<Rightarrow> ucred) \<Rightarrow> nat \<Rightarrow> csys \<Rightarrow> (int \<times> csys) kres" where
  "mod_creds np nu f g p s = kbind (modpcred np nu p s) (\<lambda>(a, s'). kmap (Pair 0) (upd_creds f g a s'))"

section \<open>System calls\<close>

definition getuid :: "nat \<Rightarrow> csys \<Rightarrow> u16 kres" where
  "getuid p s = kmap (\<lambda>(pc, cr). p_ruid pc) (get_creds p s)"

definition geteuid :: "nat \<Rightarrow> csys \<Rightarrow> u16 kres" where
  "geteuid p s = kmap (\<lambda>(pc, cr). cr_uid cr) (get_creds p s)"

definition getgid :: "nat \<Rightarrow> csys \<Rightarrow> u16 kres" where
  "getgid p s = kmap (\<lambda>(pc, cr). p_rgid pc) (get_creds p s)"

definition getegid :: "nat \<Rightarrow> csys \<Rightarrow> u16 kres" where
  "getegid p s = kbind (get_creds p s) (\<lambda>(pc, cr). case cr_groups cr of [] \<Rightarrow> Fault | g # gs \<Rightarrow> Done g)"

text \<open>\<open>getgroups\<close>: an error, or the return value and the array copied out.\<close>

definition getgroups :: "(u32 list \<Rightarrow> int) \<Rightarrow> u32 \<Rightarrow> nat \<Rightarrow> csys \<Rightarrow> (int + u32 \<times> u32 list) kres" where
  "getgroups copyout gidsetsize p s =
     kbind (get_creds p s) (\<lambda>(pc, cr).
       let n = (scast (cr_ngroups cr) :: u32) in
       if gidsetsize = 0 then Done (Inr (n, []))
       else if gidsetsize < n then Done (Inl EINVAL)
       else if length (cr_groups cr) < unat n then Fault
       else
         let groups = map ucast (take (unat n) (cr_groups cr)) in
         if copyout groups \<noteq> 0 then Done (Inl (copyout groups)) else Done (Inr (n, groups)))"

definition setuid :: "bool \<Rightarrow> addr \<Rightarrow> addr \<Rightarrow> u32 \<Rightarrow> nat \<Rightarrow> csys \<Rightarrow> (int \<times> csys) kres" where
  "setuid dg np nu arg p s =
     kbind (get_creds p s) (\<lambda>(pc, cr).
       let uid = (ucast arg :: u16) in
       kbind (if uid \<noteq> p_ruid pc then use_priv dg cr PRV_SETUID else Done 0) (\<lambda>error.
         if error \<noteq> 0 then Done (error, s)
         else mod_creds np nu (\<lambda>pc. pc\<lparr>p_ruid := uid, p_svuid := uid\<rparr>) (\<lambda>cr. cr\<lparr>cr_uid := uid\<rparr>) p s))"

definition seteuid :: "bool \<Rightarrow> addr \<Rightarrow> addr \<Rightarrow> u32 \<Rightarrow> nat \<Rightarrow> csys \<Rightarrow> (int \<times> csys) kres" where
  "seteuid dg np nu arg p s =
     kbind (get_creds p s) (\<lambda>(pc, cr).
       let euid = (ucast arg :: u16) in
       kbind (if euid \<noteq> p_ruid pc \<and> euid \<noteq> p_svuid pc then use_priv dg cr PRV_SETUID else Done 0) (\<lambda>error.
         if error \<noteq> 0 then Done (error, s)
         else mod_creds np nu id (\<lambda>cr. cr\<lparr>cr_uid := euid\<rparr>) p s))"

definition setgid :: "bool \<Rightarrow> addr \<Rightarrow> addr \<Rightarrow> u32 \<Rightarrow> nat \<Rightarrow> csys \<Rightarrow> (int \<times> csys) kres" where
  "setgid dg np nu arg p s =
     kbind (get_creds p s) (\<lambda>(pc, cr).
       let gid = (ucast arg :: u16) in
       kbind (if gid \<noteq> p_rgid pc then use_priv dg cr PRV_SETGID else Done 0) (\<lambda>error.
         if error \<noteq> 0 then Done (error, s)
         else mod_creds np nu (\<lambda>pc. pc\<lparr>p_rgid := gid, p_svgid := gid\<rparr>)
                (\<lambda>cr. cr\<lparr>cr_groups := (cr_groups cr)[0 := gid]\<rparr>) p s))"

definition setegid :: "bool \<Rightarrow> addr \<Rightarrow> addr \<Rightarrow> u32 \<Rightarrow> nat \<Rightarrow> csys \<Rightarrow> (int \<times> csys) kres" where
  "setegid dg np nu arg p s =
     kbind (get_creds p s) (\<lambda>(pc, cr).
       let egid = (ucast arg :: u16) in
       kbind (if egid \<noteq> p_rgid pc \<and> egid \<noteq> p_svgid pc then use_priv dg cr PRV_SETGID else Done 0) (\<lambda>error.
         if error \<noteq> 0 then Done (error, s)
         else mod_creds np nu id (\<lambda>cr. cr\<lparr>cr_groups := (cr_groups cr)[0 := egid]\<rparr>) p s))"

text \<open>
  \<open>setgroups\<close>; \<open>copyin\<close> of \<open>n\<close> integers gives an error or the integers.
\<close>

definition setgroups :: "bool \<Rightarrow> addr \<Rightarrow> addr \<Rightarrow> (nat \<Rightarrow> int + u32 list) \<Rightarrow> u32 \<Rightarrow> nat \<Rightarrow> csys \<Rightarrow> (int \<times> csys) kres" where
  "setgroups dg np nu copyin gidsetsize p s =
     kbind (get_creds p s) (\<lambda>(pc, cr).
     kbind (use_priv dg cr PRV_SETGID) (\<lambda>error.
       if error \<noteq> 0 then Done (error, s)
       else if NGROUPS_MAX < unat gidsetsize then Done (EINVAL, s)
       else case copyin (unat gidsetsize) of
         Inl e \<Rightarrow> Done (e, s)
       | Inr groups \<Rightarrow>
           mod_creds np nu id
             (\<lambda>cr. cr\<lparr>cr_ngroups := ucast gidsetsize,
                      cr_groups := map ucast (take (unat gidsetsize) groups) @ drop (unat gidsetsize) (cr_groups cr)\<rparr>) p s))"

definition groupmember :: "u16 \<Rightarrow> ucred \<Rightarrow> bool kres" where
  "groupmember gid cr =
     (let n = nat (sint (cr_ngroups cr)) in
      if list_ex ((=) gid) (take n (cr_groups cr)) then Done True
      else if length (cr_groups cr) < n then Fault
      else Done False)"

definition getlogin :: "(u8 list \<Rightarrow> int) \<Rightarrow> u32 \<Rightarrow> nat \<Rightarrow> csys \<Rightarrow> int" where
  "getlogin copyout namelen p s =
     (let buf = s_login s (p_session s p) in copyout (take (min (unat namelen) (length buf)) buf))"

text \<open>
  \<open>setlogin\<close>; \<open>copyinstr\<close> of at most \<open>n\<close> bytes gives its error and the bytes it stored, which may
  be some even when it fails.
\<close>

definition setlogin :: "bool \<Rightarrow> addr \<Rightarrow> addr \<Rightarrow> (nat \<Rightarrow> int \<times> u8 list) \<Rightarrow> nat \<Rightarrow> csys \<Rightarrow> (int \<times> csys) kres" where
  "setlogin dg np nu copyinstr p s =
     kbind (get_creds p s) (\<lambda>(pc, cr).
     kbind (use_priv dg cr PRV_SETLOGIN) (\<lambda>error.
       if error \<noteq> 0 then Done (error, s)
       else
         let sess = p_session s p; buf = s_login s sess; (e, bytes) = copyinstr (length buf - 1);
             s1 = s\<lparr>s_login := (s_login s)(sess := bytes @ drop (length bytes) buf)\<rparr> in
         if e = ENAMETOOLONG then Done (EINVAL, s1)
         else if e \<noteq> 0 then Done (e, s1)
         else mod_creds np nu id (\<lambda>cr. cr\<lparr>cr_role := 0\<rparr>) p s1))"

section \<open>Reference counts\<close>

text \<open>
  The counts are exact: a \<open>pcred\<close> counts the processes that point to it, and a \<open>ucred\<close> counts the
  \<open>pcred\<close>s that point to it and the \<open>ext\<close> other holders (open files, mounts, name lookups).
\<close>

definition pusers :: "csys \<Rightarrow> addr \<Rightarrow> nat set" where
  "pusers s a = {p. p_cred s p = Some a}"

definition uusers :: "csys \<Rightarrow> addr \<Rightarrow> addr set" where
  "uusers s u = {a. \<exists>pc. pcreds s a = Some pc \<and> pc_ucred pc = u}"

definition groups_ok :: "ucred \<Rightarrow> bool" where
  "groups_ok cr \<longleftrightarrow> length (cr_groups cr) = NGROUPS_MAX \<and> unat (cr_ngroups cr) \<le> NGROUPS_MAX"

definition cred_inv :: "(addr \<Rightarrow> nat) \<Rightarrow> csys \<Rightarrow> bool" where
  "cred_inv ext s \<longleftrightarrow>
     finite (dom (p_cred s)) \<and> finite (dom (pcreds s)) \<and>
     (\<forall>p a. p_cred s p = Some a \<longrightarrow> pcreds s a \<noteq> None) \<and>
     (\<forall>a pc. pcreds s a = Some pc \<longrightarrow> ucreds s (pc_ucred pc) \<noteq> None \<and> unat (p_refcnt pc) = card (pusers s a)) \<and>
     (\<forall>u. 0 < ext u \<longrightarrow> ucreds s u \<noteq> None) \<and>
     (\<forall>u cr. ucreds s u = Some cr \<longrightarrow> groups_ok cr \<and> unat (cr_ref cr) = card (uusers s u) + ext u)"

text \<open>What the credentials of a process say, apart from the counts and the addresses.\<close>

record cview =
  v_ruid :: u16
  v_svuid :: u16
  v_rgid :: u16
  v_svgid :: u16
  v_uid :: u16
  v_role :: u16
  v_ngroups :: u16
  v_groups :: "u16 list"

definition view_of :: "pcred \<Rightarrow> ucred \<Rightarrow> cview" where
  "view_of pc cr = \<lparr>v_ruid = p_ruid pc, v_svuid = p_svuid pc, v_rgid = p_rgid pc, v_svgid = p_svgid pc,
     v_uid = cr_uid cr, v_role = cr_role cr, v_ngroups = cr_ngroups cr, v_groups = cr_groups cr\<rparr>"

definition pview :: "csys \<Rightarrow> nat \<Rightarrow> cview kres" where
  "pview s p = kmap (\<lambda>(pc, cr). view_of pc cr) (get_creds p s)"

text \<open>The contents of a \<open>ucred\<close> as a holder of a reference sees them.\<close>

definition uview :: "csys \<Rightarrow> addr \<Rightarrow> ucred option" where
  "uview s u = map_option (\<lambda>cr. cr\<lparr>cr_ref := 0\<rparr>) (ucreds s u)"

definition owned :: "nat \<Rightarrow> addr \<Rightarrow> (addr \<Rightarrow> nat) \<Rightarrow> csys \<Rightarrow> bool" where
  "owned p a ext s \<longleftrightarrow> (\<exists>pc. p_cred s p = Some a \<and> pcreds s a = Some pc \<and> pusers s a = {p} \<and>
     uusers s (pc_ucred pc) = {a} \<and> ext (pc_ucred pc) = 0)"

lemma finite_pusers: "cred_inv ext s \<Longrightarrow> finite (pusers s a)"
  by (rule finite_subset [of _ "dom (p_cred s)"]) (auto simp: pusers_def cred_inv_def)

lemma finite_uusers: "cred_inv ext s \<Longrightarrow> finite (uusers s u)"
  by (rule finite_subset [of _ "dom (pcreds s)"]) (auto simp: uusers_def cred_inv_def)

lemma cred_inv_get:
  assumes "cred_inv ext s" "p_cred s p = Some a"
  obtains pc cr where "pcreds s a = Some pc" "ucreds s (pc_ucred pc) = Some cr"
    "get_pcred p s = Done (a, pc)" "get_creds p s = Done (pc, cr)"
proof -
  obtain pc where pc: "pcreds s a = Some pc" using assms unfolding cred_inv_def by blast
  obtain cr where cr: "ucreds s (pc_ucred pc) = Some cr" using assms(1) pc unfolding cred_inv_def by blast
  from pc cr assms(2) show thesis by (intro that [OF pc cr]) (simp_all add: get_pcred_def get_creds_def)
qed

text \<open>Writing to credentials the process owns alone is invisible to every other holder.\<close>

lemma upd_creds_owned:
  assumes inv: "cred_inv ext s" and own: "owned p a ext s"
    and f: "\<And>pc. pc_ucred (f pc) = pc_ucred pc \<and> p_refcnt (f pc) = p_refcnt pc"
    and g: "\<And>cr. cr_ref (g cr) = cr_ref cr" "\<And>cr. groups_ok cr \<Longrightarrow> groups_ok (g cr)"
  obtains pc cr s' where "get_creds p s = Done (pc, cr)" "upd_creds f g a s = Done s'" "cred_inv ext s'"
    "get_creds p s' = Done (f pc, g cr)" "\<forall>q. q \<noteq> p \<longrightarrow> get_creds q s' = get_creds q s"
    "\<forall>u. 0 < ext u \<longrightarrow> ucreds s' u = ucreds s u"
    "p_cred s' = p_cred s" "p_session s' = p_session s" "s_login s' = s_login s"
    "\<forall>u cr'. ucreds s' u = Some cr' \<longrightarrow> (\<exists>cr. ucreds s u = Some cr \<and> cr_ref cr' = cr_ref cr)"
proof -
  from own obtain pc where o: "p_cred s p = Some a" "pcreds s a = Some pc" "pusers s a = {p}"
    "uusers s (pc_ucred pc) = {a}" "ext (pc_ucred pc) = 0" by (auto simp: owned_def)
  obtain cr where cr: "ucreds s (pc_ucred pc) = Some cr" and get: "get_creds p s = Done (pc, cr)"
    using cred_inv_get [OF inv o(1)] o(2) by auto
  let ?u = "pc_ucred pc"
  define s' where "s' = s\<lparr>pcreds := (pcreds s)(a \<mapsto> f pc), ucreds := (ucreds s)(?u \<mapsto> g cr)\<rparr>"
  have up: "upd_creds f g a s = Done s'" using o(2) cr by (simp add: upd_creds_def s'_def)
  have us: "pusers s' b = pusers s b" "uusers s' v = uusers s v" for b v
    using o(2) f by (auto simp: pusers_def uusers_def s'_def)
  have inv': "cred_inv ext s'"
    using inv o cr f g us unfolding cred_inv_def
    by (simp add: s'_def)
  have oth: "get_creds q s' = get_creds q s" if "q \<noteq> p" for q
  proof (cases "p_cred s q")
    case (Some b)
    then obtain pb cb where b: "pcreds s b = Some pb" "ucreds s (pc_ucred pb) = Some cb"
      by (rule cred_inv_get [OF inv])
    have "b \<noteq> a" using Some o(3) that by (auto simp: pusers_def)
    moreover have "pc_ucred pb \<noteq> ?u" using b(1) o(4) \<open>b \<noteq> a\<close> by (auto simp: uusers_def)
    ultimately show ?thesis using Some b by (simp add: get_creds_def get_pcred_def s'_def)
  qed (simp add: get_creds_def get_pcred_def s'_def)
  show thesis
  proof (rule that [OF get up inv'])
    show "get_creds p s' = Done (f pc, g cr)" using o(1) f by (simp add: get_creds_def get_pcred_def s'_def)
  qed (use oth o(5) cr g in \<open>auto simp: s'_def split: if_splits\<close>)
qed

text \<open>The two halves of \<open>modpcred\<close>: each gives the process a private copy and changes no view.\<close>

lemma unshare_pcred:
  assumes inv: "cred_inv ext s" and p: "p_cred s p = Some a" and pc: "pcreds s a = Some pc"
    and cr: "ucreds s (pc_ucred pc) = Some cr" and np: "pcreds s np = None" and ref: "unat (cr_ref cr) < 65535"
    and s1: "s1 = s\<lparr>pcreds := (pcreds s)(np \<mapsto> pc\<lparr>p_refcnt := 1\<rparr>, a \<mapsto> pc\<lparr>p_refcnt := p_refcnt pc - 1\<rparr>),
       p_cred := (p_cred s)(p \<mapsto> np), ucreds := (ucreds s)(pc_ucred pc \<mapsto> cr\<lparr>cr_ref := cr_ref cr + 1\<rparr>)\<rparr>"
  shows "cred_inv ext s1" "pusers s1 np = {p}" "pview s1 q = pview s q" "uview s1 u = uview s u"
proof -
  let ?u = "pc_ucred pc"
  have na: "np \<noteq> a" using np pc by auto
  have none: "p_cred s q \<noteq> Some np" for q using inv np unfolding cred_inv_def by blast
  have pu: "pusers s1 b = (if b = np then {p} else pusers s b - {p})" for b
    using none p na by (auto simp: pusers_def s1)
  have uu: "uusers s1 v = (if v = ?u then insert np (uusers s v) else uusers s v)" for v
    using pc np na by (auto simp: uusers_def s1 split: if_splits)
  have npu: "np \<notin> uusers s ?u" using np by (auto simp: uusers_def)
  have pin: "p \<in> pusers s b \<longleftrightarrow> b = a" for b using p by (auto simp: pusers_def)
  have cnt: "unat (p_refcnt pc) = card (pusers s a)" using inv pc unfolding cred_inv_def by blast
  have pos: "0 < card (pusers s a)" using finite_pusers [OF inv, of a] pin by (auto simp: card_gt_0_iff)
  have dec: "unat (p_refcnt pc - 1) = card (pusers s a - {p})"
  proof -
    have "unat (p_refcnt pc - 1) = unat (p_refcnt pc) - 1"
      using cnt pos by (simp add: unat32_minus word_le_nat_alt)
    then show ?thesis using cnt pin [of a] finite_pusers [OF inv, of a] by simp
  qed
  have inc: "unat (cr_ref cr + 1) = Suc (unat (cr_ref cr))" using ref by (simp add: unat_word_ariths)
  have ucnt: "groups_ok cr" "unat (cr_ref cr) = card (uusers s ?u) + ext ?u" using inv cr unfolding cred_inv_def by blast+
  have pd: "(b \<noteq> a \<longrightarrow> pusers s b - {p} = pusers s b)" for b using pin [of b] by auto
  show "cred_inv ext s1"
    unfolding cred_inv_def
  proof (intro conjI allI impI)
    show "finite (dom (p_cred s1))" "finite (dom (pcreds s1))" using inv by (simp_all add: cred_inv_def s1)
  next
    fix q b assume "p_cred s1 q = Some b"
    then show "pcreds s1 b \<noteq> None" using inv unfolding cred_inv_def by (auto simp: s1 split: if_splits)
  next
    fix b pb assume "pcreds s1 b = Some pb"
    then show "ucreds s1 (pc_ucred pb) \<noteq> None" "unat (p_refcnt pb) = card (pusers s1 b)"
      using inv cr na dec pd [of b] unfolding cred_inv_def by (auto simp: s1 pu [unfolded s1] split: if_splits)
  next
    fix v assume "0 < ext v"
    then show "ucreds s1 v \<noteq> None" using inv by (auto simp: cred_inv_def s1)
  next
    fix v cv assume "ucreds s1 v = Some cv"
    then show "groups_ok cv" "unat (cr_ref cv) = card (uusers s1 v) + ext v"
      using inv ucnt inc npu finite_uusers [OF inv, of ?u] unfolding cred_inv_def
      by (auto simp: s1 uu [unfolded s1] groups_ok_def split: if_splits)
  qed
  show "pusers s1 np = {p}" by (simp add: pu)
  show "uview s1 u = uview s u" using cr by (simp add: uview_def s1)
  show "pview s1 q = pview s q"
  proof (cases "p_cred s q")
    case (Some b)
    then obtain pb cb where "pcreds s b = Some pb" "ucreds s (pc_ucred pb) = Some cb"
      by (rule cred_inv_get [OF inv])
    then show ?thesis using Some p pc cr na none [of q]
      by (cases "q = p"; cases "b = a") (auto simp: pview_def get_creds_def get_pcred_def s1 view_of_def)
  qed (use p in \<open>auto simp: pview_def get_creds_def get_pcred_def s1\<close>)
qed

lemma unshare_ucred:
  assumes inv: "cred_inv ext s" and p: "p_cred s p = Some a" and pc: "pcreds s a = Some pc"
    and cr: "ucreds s (pc_ucred pc) = Some cr" and nu: "ucreds s nu = None" and ref: "cr_ref cr \<noteq> 1"
    and s1: "s1 = s\<lparr>ucreds := (ucreds s)(nu \<mapsto> cr\<lparr>cr_ref := 1\<rparr>, pc_ucred pc \<mapsto> cr\<lparr>cr_ref := cr_ref cr - 1\<rparr>),
       pcreds := (pcreds s)(a \<mapsto> pc\<lparr>pc_ucred := nu\<rparr>)\<rparr>"
  shows "cred_inv ext s1" "uusers s1 nu = {a}" "ext nu = 0" "pview s1 q = pview s q" "0 < ext u \<Longrightarrow> uview s1 u = uview s u"
proof -
  let ?u = "pc_ucred pc"
  have nn: "nu \<noteq> ?u" using nu cr by auto
  show e0: "ext nu = 0" using inv nu unfolding cred_inv_def by blast
  have none: "pc_ucred pb \<noteq> nu" if "pcreds s b = Some pb" for b pb
    using inv nu that unfolding cred_inv_def by blast
  have pu: "pusers s1 b = pusers s b" for b by (simp add: pusers_def s1)
  have uu: "uusers s1 v = (if v = nu then {a} else uusers s v - {a})" for v
    using pc nn by (auto simp: uusers_def s1 dest: none)
  have ain: "a \<in> uusers s v \<longleftrightarrow> v = ?u" for v using pc by (auto simp: uusers_def)
  have ucnt: "groups_ok cr" "unat (cr_ref cr) = card (uusers s ?u) + ext ?u" using inv cr unfolding cred_inv_def by blast+
  have pos: "0 < card (uusers s ?u)" using finite_uusers [OF inv, of ?u] ain by (auto simp: card_gt_0_iff)
  have dec: "unat (cr_ref cr - 1) = card (uusers s ?u - {a}) + ext ?u"
  proof -
    have "unat (cr_ref cr - 1) = unat (cr_ref cr) - 1"
      using ucnt pos by (simp add: unat_sub_if_size word_le_nat_alt)
    then show ?thesis using ucnt pos ain [of ?u] finite_uusers [OF inv, of ?u] by simp
  qed
  have ud: "v \<noteq> ?u \<longrightarrow> uusers s v - {a} = uusers s v" for v using ain [of v] by auto
  show "cred_inv ext s1"
    unfolding cred_inv_def
  proof (intro conjI allI impI)
    show "finite (dom (p_cred s1))" "finite (dom (pcreds s1))" using inv by (simp_all add: cred_inv_def s1)
  next
    fix q b assume "p_cred s1 q = Some b"
    then show "pcreds s1 b \<noteq> None" using inv unfolding cred_inv_def by (auto simp: s1)
  next
    fix b pb assume "pcreds s1 b = Some pb"
    then show "ucreds s1 (pc_ucred pb) \<noteq> None" "unat (p_refcnt pb) = card (pusers s1 b)"
      using inv pc pu unfolding cred_inv_def by (auto simp: s1 pu [unfolded s1] split: if_splits)
  next
    fix v assume "0 < ext v"
    then show "ucreds s1 v \<noteq> None" using inv by (auto simp: cred_inv_def s1)
  next
    fix v cv assume "ucreds s1 v = Some cv"
    then show "groups_ok cv" "unat (cr_ref cv) = card (uusers s1 v) + ext v"
      using inv ucnt dec nn ud [of v] e0 unfolding cred_inv_def
      by (auto simp: s1 uu [unfolded s1] groups_ok_def split: if_splits)
  qed
  show "uusers s1 nu = {a}" by (simp add: uu)
  show "0 < ext u \<Longrightarrow> uview s1 u = uview s u" using cr e0 by (auto simp: uview_def s1)
  show "pview s1 q = pview s q"
  proof (cases "p_cred s q")
    case (Some b)
    then obtain pb cb where "pcreds s b = Some pb" "ucreds s (pc_ucred pb) = Some cb"
      by (rule cred_inv_get [OF inv])
    then show ?thesis using Some pc cr nn none [of b pb]
      by (cases "b = a") (auto simp: pview_def get_creds_def get_pcred_def s1 view_of_def)
  qed (auto simp: pview_def get_creds_def get_pcred_def s1)
qed

text \<open>No count of a \<open>ucred\<close> is about to wrap around its sixteen bits.\<close>

definition refs_small :: "csys \<Rightarrow> bool" where
  "refs_small s \<longleftrightarrow> (\<forall>u cr. ucreds s u = Some cr \<longrightarrow> unat (cr_ref cr) < 65535)"

definition cred_ok :: "(addr \<Rightarrow> nat) \<Rightarrow> csys \<Rightarrow> bool" where
  "cred_ok ext s \<longleftrightarrow> cred_inv ext s \<and> refs_small s"

text \<open>No process but those of \<open>ps\<close>, and no other holder of a \<open>ucred\<close>, sees a difference.\<close>

definition unseen :: "(addr \<Rightarrow> nat) \<Rightarrow> nat set \<Rightarrow> csys \<Rightarrow> csys \<Rightarrow> bool" where
  "unseen ext ps s s' \<longleftrightarrow> (\<forall>q. q \<notin> ps \<longrightarrow> pview s' q = pview s q) \<and> (\<forall>u. 0 < ext u \<longrightarrow> uview s' u = uview s u)"

lemma unseen_trans: "unseen ext ps s s1 \<Longrightarrow> unseen ext ps s1 s2 \<Longrightarrow> unseen ext ps s s2"
  by (simp add: unseen_def)

lemma unseen_refl [simp]: "unseen ext ps s s"
  by (simp add: unseen_def)

lemma unseen_mono: "unseen ext ps s s1 \<Longrightarrow> ps \<subseteq> qs \<Longrightarrow> unseen ext qs s s1"
  by (auto simp: unseen_def)

lemma single_count: "finite A \<Longrightarrow> a \<in> A \<Longrightarrow> card A + n = 1 \<Longrightarrow> A = {a} \<and> n = 0"
  by (cases "card A") (auto simp: card_1_singleton_iff)

lemma modpcred_tail:
  assumes ok: "cred_inv ext s" and small: "\<And>u cr. ucreds s u = Some cr \<Longrightarrow> u \<noteq> pc_ucred pc \<Longrightarrow> unat (cr_ref cr) < 65535"
    and p: "p_cred s p = Some a" and own: "pusers s a = {p}" and pc: "pcreds s a = Some pc"
    and cr: "ucreds s (pc_ucred pc) = Some cr" and nu: "ucreds s nu = None"
  obtains s' where
    "(if cr_ref cr \<noteq> 1
       then kbind (crdup nu (pc_ucred pc) s) (\<lambda>s2.
              kmap (\<lambda>s3. (a, s3\<lparr>pcreds := (pcreds s3)(a \<mapsto> pc\<lparr>pc_ucred := nu\<rparr>)\<rparr>)) (crfree (pc_ucred pc) s2))
       else Done (a, s)) = Done (a, s')"
    "cred_ok ext s'" "owned p a ext s'" "unseen ext {} s s'"
    "p_session s' = p_session s" "s_login s' = s_login s" "dom (p_cred s') = dom (p_cred s)"
proof (cases "cr_ref cr = 1")
  case True
  have "unat (cr_ref cr) = card (uusers s (pc_ucred pc)) + ext (pc_ucred pc)" "a \<in> uusers s (pc_ucred pc)"
    using ok cr pc unfolding cred_inv_def uusers_def by blast+
  then have u: "uusers s (pc_ucred pc) = {a}" "ext (pc_ucred pc) = 0"
    using True single_count [OF finite_uusers [OF ok]] by auto
  have "refs_small s" unfolding refs_small_def
  proof (intro allI impI)
    fix u cu assume "ucreds s u = Some cu"
    then show "unat (cr_ref cu) < 65535" using small [of u cu] cr True by (cases "u = pc_ucred pc") auto
  qed
  with u p own pc ok True show ?thesis by (intro that [of s]) (auto simp: cred_ok_def owned_def)
next
  case False
  define s' where "s' = s\<lparr>ucreds := (ucreds s)(nu \<mapsto> cr\<lparr>cr_ref := 1\<rparr>, pc_ucred pc \<mapsto> cr\<lparr>cr_ref := cr_ref cr - 1\<rparr>),
       pcreds := (pcreds s)(a \<mapsto> pc\<lparr>pc_ucred := nu\<rparr>)\<rparr>"
  note un = unshare_ucred [OF ok p pc cr nu False s'_def]
  have nn: "nu \<noteq> pc_ucred pc" using nu cr by auto
  have "cr_ref cr - 1 \<noteq> 0" using False by simp
  then have eq: "kbind (crdup nu (pc_ucred pc) s) (\<lambda>s2.
        kmap (\<lambda>s3. (a, s3\<lparr>pcreds := (pcreds s3)(a \<mapsto> pc\<lparr>pc_ucred := nu\<rparr>)\<rparr>)) (crfree (pc_ucred pc) s2)) = Done (a, s')"
    using cr nn False by (simp add: crdup_def crfree_def s'_def)
  have nz: "cr_ref cr \<noteq> 0"
  proof -
    have "unat (cr_ref cr) = card (uusers s (pc_ucred pc)) + ext (pc_ucred pc)" "a \<in> uusers s (pc_ucred pc)"
      using ok cr pc unfolding cred_inv_def uusers_def by blast+
    then have "unat (cr_ref cr) \<noteq> 0" using finite_uusers [OF ok, of "pc_ucred pc"] by auto
    then show ?thesis by auto
  qed
  have "unat (cr_ref cr - 1) < 65535"
  proof -
    have "unat (cr_ref cr) < 65536" using unsigned_less [of "cr_ref cr"] by simp
    moreover have "unat (cr_ref cr) \<noteq> 0" using nz by (simp add: unat_eq_0)
    moreover have "unat (cr_ref cr - 1) = unat (cr_ref cr) - 1" using \<open>unat (cr_ref cr) \<noteq> 0\<close> by (simp add: unat_sub_if_size word_le_nat_alt)
    ultimately show ?thesis by linarith
  qed
  then have "refs_small s'" using small by (auto simp: refs_small_def s'_def split: if_splits)
  then show ?thesis using un p own False eq
    by (intro that [of s']) (auto simp: cred_ok_def owned_def unseen_def s'_def pusers_def)
qed

text \<open>\<open>modpcred\<close> returns credentials that no one else uses, and no one sees a difference.\<close>

lemma modpcred_ok:
  assumes ok: "cred_ok ext s" and p: "p_cred s p = Some a" and np: "pcreds s np = None" and nu: "ucreds s nu = None"
  obtains b s' where "modpcred np nu p s = Done (b, s')" "cred_ok ext s'" "owned p b ext s'" "unseen ext {} s s'"
    "p_session s' = p_session s" "s_login s' = s_login s" "dom (p_cred s') = dom (p_cred s)"
proof -
  have inv: "cred_inv ext s" and small: "refs_small s" using ok by (simp_all add: cred_ok_def)
  obtain pc cr where pc: "pcreds s a = Some pc" and cr: "ucreds s (pc_ucred pc) = Some cr" and get: "get_pcred p s = Done (a, pc)"
    by (rule cred_inv_get [OF inv p])
  have cnt: "unat (p_refcnt pc) = card (pusers s a)" "p \<in> pusers s a"
    using inv pc p unfolding cred_inv_def by (auto simp: pusers_def)
  have sm: "ucreds s u = Some c \<Longrightarrow> unat (cr_ref c) < 65535" for u c using small unfolding refs_small_def by blast
  then have sm': "ucreds s u = Some c \<Longrightarrow> u \<noteq> pc_ucred pc \<Longrightarrow> unat (cr_ref c) < 65535" for u c by blast
  show thesis
  proof (cases "p_refcnt pc = 1")
    case True
    then have "pusers s a = {p}" using cnt single_count [OF finite_pusers [OF inv], of p a 0] by simp
    note t = modpcred_tail [OF inv sm' p this pc cr nu]
    obtain s' where "(if cr_ref cr \<noteq> 1
        then kbind (crdup nu (pc_ucred pc) s) (\<lambda>s2.
              kmap (\<lambda>s3. (a, s3\<lparr>pcreds := (pcreds s3)(a \<mapsto> pc\<lparr>pc_ucred := nu\<rparr>)\<rparr>)) (crfree (pc_ucred pc) s2))
        else Done (a, s)) = Done (a, s')" and r: "cred_ok ext s'" "owned p a ext s'" "unseen ext {} s s'"
        "p_session s' = p_session s" "s_login s' = s_login s" "dom (p_cred s') = dom (p_cred s)" by (rule t)
    then show thesis using get pc cr True by (intro that [OF _ r]) (simp add: modpcred_def)
  next
    case False
    define s1 where "s1 = s\<lparr>pcreds := (pcreds s)(np \<mapsto> pc\<lparr>p_refcnt := 1\<rparr>, a \<mapsto> pc\<lparr>p_refcnt := p_refcnt pc - 1\<rparr>),
       p_cred := (p_cred s)(p \<mapsto> np), ucreds := (ucreds s)(pc_ucred pc \<mapsto> cr\<lparr>cr_ref := cr_ref cr + 1\<rparr>)\<rparr>"
    note un = unshare_pcred [OF inv p pc cr np sm [OF cr] s1_def]
    have na: "np \<noteq> a" using np pc by auto
    let ?pc = "pc\<lparr>p_refcnt := 1\<rparr>" and ?cr = "cr\<lparr>cr_ref := cr_ref cr + 1\<rparr>"
    have s1: "p_cred s1 p = Some np" "pcreds s1 np = Some ?pc" "ucreds s1 (pc_ucred ?pc) = Some ?cr" "ucreds s1 nu = None"
      "\<And>u c. ucreds s1 u = Some c \<Longrightarrow> u \<noteq> pc_ucred ?pc \<Longrightarrow> unat (cr_ref c) < 65535"
      using na nu cr sm by (auto simp: s1_def)
    note tl = modpcred_tail [OF un(1) s1(5,1) un(2) s1(2,3,4)]
    obtain s' where t: "(if cr_ref ?cr \<noteq> 1
        then kbind (crdup nu (pc_ucred ?pc) s1) (\<lambda>s2.
              kmap (\<lambda>s3. (np, s3\<lparr>pcreds := (pcreds s3)(np \<mapsto> ?pc\<lparr>pc_ucred := nu\<rparr>)\<rparr>)) (crfree (pc_ucred ?pc) s2))
        else Done (np, s1)) = Done (np, s')" and r: "cred_ok ext s'" "owned p np ext s'" "unseen ext {} s1 s'"
        "p_session s' = p_session s1" "s_login s' = s_login s1" "dom (p_cred s') = dom (p_cred s1)" by (rule tl)
    have "crhold (pc_ucred pc)
        (s\<lparr>pcreds := (pcreds s)(np \<mapsto> pc\<lparr>p_refcnt := 1\<rparr>, a \<mapsto> pc\<lparr>p_refcnt := p_refcnt pc - 1\<rparr>),
           p_cred := (p_cred s)(p \<mapsto> np)\<rparr>) = Done s1"
      using cr by (simp add: crhold_def s1_def)
    then have "modpcred np nu p s = Done (np, s')" using get False t s1(2,3) by (simp add: modpcred_def)
    moreover have "unseen ext {} s s1" using un(3,4) by (simp add: unseen_def)
    ultimately show thesis using r p by (intro that [of np s']) (auto simp: s1_def intro: unseen_trans)
  qed
qed

lemma pview_get: "pview s p = Done v \<longleftrightarrow> (\<exists>pc cr. get_creds p s = Done (pc, cr) \<and> v = view_of pc cr)"
  by (auto simp: pview_def kmap_Done_iff)

definition cred_upd_ok :: "(pcred \<Rightarrow> pcred) \<Rightarrow> (ucred \<Rightarrow> ucred) \<Rightarrow> (cview \<Rightarrow> cview) \<Rightarrow> bool" where
  "cred_upd_ok f g h \<longleftrightarrow> (\<forall>pc. pc_ucred (f pc) = pc_ucred pc \<and> p_refcnt (f pc) = p_refcnt pc) \<and>
     (\<forall>cr. cr_ref (g cr) = cr_ref cr) \<and> (\<forall>cr. groups_ok cr \<longrightarrow> groups_ok (g cr)) \<and>
     (\<forall>pc cr. view_of (f pc) (g cr) = h (view_of pc cr))"

lemma mod_creds_ok:
  assumes ok: "cred_ok ext s" and p: "p_cred s p = Some a" and np: "pcreds s np = None" and nu: "ucreds s nu = None"
    and fg: "cred_upd_ok f g h"
  obtains s' v where "mod_creds np nu f g p s = Done (0, s')" "cred_ok ext s'" "unseen ext {p} s s'"
    "pview s p = Done v" "pview s' p = Done (h v)" "dom (p_cred s') = dom (p_cred s)"
proof -
  obtain b s1 where m: "modpcred np nu p s = Done (b, s1)" "cred_ok ext s1"
    "owned p b ext s1" "unseen ext {} s s1" "p_session s1 = p_session s" "s_login s1 = s_login s" "dom (p_cred s1) = dom (p_cred s)"
    by (rule modpcred_ok [OF ok p np nu])
  have i1: "cred_inv ext s1" "refs_small s1" using m(2) by (simp_all add: cred_ok_def)
  have fg': "\<And>pc. pc_ucred (f pc) = pc_ucred pc \<and> p_refcnt (f pc) = p_refcnt pc" "\<And>cr. cr_ref (g cr) = cr_ref cr"
    "\<And>cr. groups_ok cr \<Longrightarrow> groups_ok (g cr)" "\<And>pc cr. view_of (f pc) (g cr) = h (view_of pc cr)"
    using fg by (auto simp: cred_upd_ok_def)
  obtain pc cr s2 where u: "get_creds p s1 = Done (pc, cr)"
    "upd_creds f g b s1 = Done s2" "cred_inv ext s2" "get_creds p s2 = Done (f pc, g cr)"
    "\<forall>q. q \<noteq> p \<longrightarrow> get_creds q s2 = get_creds q s1" "\<forall>u. 0 < ext u \<longrightarrow> ucreds s2 u = ucreds s1 u" "p_cred s2 = p_cred s1"
    "p_session s2 = p_session s1" "s_login s2 = s_login s1"
    "\<forall>u cr'. ucreds s2 u = Some cr' \<longrightarrow> (\<exists>cr. ucreds s1 u = Some cr \<and> cr_ref cr' = cr_ref cr)"
    by (rule upd_creds_owned [OF i1(1) m(3) fg'(1,2,3)])
  have "refs_small s2" unfolding refs_small_def
  proof (intro allI impI)
    fix u c assume "ucreds s2 u = Some c"
    with u(10) show "unat (cr_ref c) < 65535" using i1(2) by (metis refs_small_def)
  qed
  then have "cred_ok ext s2" using u(3) by (simp add: cred_ok_def)
  moreover have "unseen ext {p} s1 s2" using u(5,6) by (simp add: unseen_def pview_def uview_def)
  then have "unseen ext {p} s s2" using unseen_trans [OF unseen_mono [OF m(4)]] by blast
  moreover have "pview s p = pview s1 p" using m(4) by (simp add: unseen_def)
  then have "pview s p = Done (view_of pc cr)" using u(1) by (simp add: pview_def)
  moreover have "pview s2 p = Done (h (view_of pc cr))" using u(4) fg'(4) by (simp add: pview_def)
  ultimately show thesis using m(1,7) u(2,7) by (intro that [of s2 "view_of pc cr"]) (auto simp: mod_creds_def)
qed

section \<open>Calls against their specification\<close>

text \<open>The calls that change credentials, and what the kernel does for each.\<close>

datatype cred_call =
    Setuid u32 | Seteuid u32 | Setgid u32 | Setegid u32
  | Setgroups "nat \<Rightarrow> int + u32 list" u32
  | Setlogin "nat \<Rightarrow> int \<times> u8 list"

fun cred_exec :: "bool \<Rightarrow> addr \<Rightarrow> addr \<Rightarrow> cred_call \<Rightarrow> nat \<Rightarrow> csys \<Rightarrow> (int \<times> csys) kres" where
  "cred_exec dg np nu (Setuid x) p s = setuid dg np nu x p s"
| "cred_exec dg np nu (Seteuid x) p s = seteuid dg np nu x p s"
| "cred_exec dg np nu (Setgid x) p s = setgid dg np nu x p s"
| "cred_exec dg np nu (Setegid x) p s = setegid dg np nu x p s"
| "cred_exec dg np nu (Setgroups c n) p s = setgroups dg np nu c n p s"
| "cred_exec dg np nu (Setlogin c) p s = setlogin dg np nu c p s"

text \<open>\<open>copyin\<close> either fails or gives as many integers as were asked for.\<close>

fun user_ok :: "cred_call \<Rightarrow> bool" where
  "user_ok (Setgroups c n) = (\<forall>gs. c (unat n) = Inr gs \<longrightarrow> length gs = unat n)"
| "user_ok _ = True"

text \<open>
  The specification: every process has credentials of its own, and a call is a function of the
  caller's alone (and of the length of the session's login name buffer).
\<close>

definition may :: "cview \<Rightarrow> cr_priv \<Rightarrow> bool" where
  "may v prv \<longleftrightarrow> v_uid v = 0 \<and> (case priv_minrole prv of None \<Rightarrow> False | Some r \<Rightarrow> (scast (v_role v) :: u32) \<le> r)"

fun cred_spec :: "nat \<Rightarrow> cred_call \<Rightarrow> cview \<Rightarrow> int \<times> cview" where
  "cred_spec len (Setuid x) v =
     (let u = ucast x in
      if u = v_ruid v \<or> may v PRV_SETUID then (0, v\<lparr>v_ruid := u, v_svuid := u, v_uid := u\<rparr>) else (EPERM, v))"
| "cred_spec len (Seteuid x) v =
     (let u = ucast x in
      if u = v_ruid v \<or> u = v_svuid v \<or> may v PRV_SETUID then (0, v\<lparr>v_uid := u\<rparr>) else (EPERM, v))"
| "cred_spec len (Setgid x) v =
     (let g = ucast x in
      if g = v_rgid v \<or> may v PRV_SETGID
      then (0, v\<lparr>v_rgid := g, v_svgid := g, v_groups := (v_groups v)[0 := g]\<rparr>) else (EPERM, v))"
| "cred_spec len (Setegid x) v =
     (let g = ucast x in
      if g = v_rgid v \<or> g = v_svgid v \<or> may v PRV_SETGID then (0, v\<lparr>v_groups := (v_groups v)[0 := g]\<rparr>)
      else (EPERM, v))"
| "cred_spec len (Setgroups c n) v =
     (if \<not> may v PRV_SETGID then (EPERM, v)
      else if NGROUPS_MAX < unat n then (EINVAL, v)
      else case c (unat n) of
        Inl e \<Rightarrow> (e, v)
      | Inr gs \<Rightarrow> (0, v\<lparr>v_ngroups := ucast n, v_groups := map ucast gs @ drop (unat n) (v_groups v)\<rparr>))"
| "cred_spec len (Setlogin c) v =
     (if \<not> may v PRV_SETLOGIN then (EPERM, v)
      else
        let e = fst (c (len - 1)) in
        if e = ENAMETOOLONG then (EINVAL, v) else if e \<noteq> 0 then (e, v) else (0, v\<lparr>v_role := 0\<rparr>))"

lemma use_priv_may:
  assumes "priv_minrole prv = Some r"
  shows "use_priv dg cr prv = Done (if may (view_of pc cr) prv then 0 else EPERM)"
  using assms by (auto simp: use_priv_def may_def view_of_def EPERM_def not_less)

lemma s_login_irrelevant [simp]:
  "cred_ok ext (s\<lparr>s_login := l\<rparr>) = cred_ok ext s" "pview (s\<lparr>s_login := l\<rparr>) p = pview s p"
  "uview (s\<lparr>s_login := l\<rparr>) u = uview s u"
  by (simp_all add: cred_ok_def cred_inv_def refs_small_def pusers_def uusers_def pview_def get_creds_def get_pcred_def uview_def)

lemma cred_upds:
  "cred_upd_ok (\<lambda>pc. pc\<lparr>p_ruid := uid, p_svuid := uid\<rparr>) (\<lambda>cr. cr\<lparr>cr_uid := uid\<rparr>) (\<lambda>v. v\<lparr>v_ruid := uid, v_svuid := uid, v_uid := uid\<rparr>)"
  "cred_upd_ok id (\<lambda>cr. cr\<lparr>cr_uid := uid\<rparr>) (\<lambda>v. v\<lparr>v_uid := uid\<rparr>)"
  "cred_upd_ok (\<lambda>pc. pc\<lparr>p_rgid := g, p_svgid := g\<rparr>) (\<lambda>cr. cr\<lparr>cr_groups := (cr_groups cr)[0 := g]\<rparr>)
     (\<lambda>v. v\<lparr>v_rgid := g, v_svgid := g, v_groups := (v_groups v)[0 := g]\<rparr>)"
  "cred_upd_ok id (\<lambda>cr. cr\<lparr>cr_groups := (cr_groups cr)[0 := g]\<rparr>) (\<lambda>v. v\<lparr>v_groups := (v_groups v)[0 := g]\<rparr>)"
  "cred_upd_ok id (\<lambda>cr. cr\<lparr>cr_role := r\<rparr>) (\<lambda>v. v\<lparr>v_role := r\<rparr>)"
  by (simp_all add: cred_upd_ok_def view_of_def groups_ok_def)

lemma cred_upd_groups:
  assumes "unat n \<le> NGROUPS_MAX" "length gs = unat n"
  shows "cred_upd_ok id (\<lambda>cr. cr\<lparr>cr_ngroups := ucast (n :: u32), cr_groups := map ucast gs @ drop (unat n) (cr_groups cr)\<rparr>)
     (\<lambda>v. v\<lparr>v_ngroups := ucast n, v_groups := map ucast gs @ drop (unat n) (v_groups v)\<rparr>)"
proof -
  have "unat (ucast n :: u16) = unat n" using assms(1) by (simp add: NGROUPS_MAX_def unsigned_ucast_eq take_bit_nat_def)
  then show ?thesis using assms by (simp add: cred_upd_ok_def view_of_def groups_ok_def NGROUPS_MAX_def)
qed

text \<open>The shape that every call has: it leaves the state as it is, or updates owned credentials.\<close>

definition implements :: "(addr \<Rightarrow> nat) \<Rightarrow> nat \<Rightarrow> csys \<Rightarrow> (int \<times> csys) kres \<Rightarrow> int \<times> cview \<Rightarrow> bool" where
  "implements ext p s r res \<longleftrightarrow>
     (\<exists>s'. r = Done (fst res, s') \<and> cred_ok ext s' \<and> unseen ext {p} s s' \<and> pview s' p = Done (snd res) \<and>
       dom (p_cred s') = dom (p_cred s))"

lemma implements_same:
  assumes "cred_ok ext s" "pview s p = Done v"
  shows "implements ext p s (Done (e, s)) (e, v)" "implements ext p s (Done (e, s\<lparr>s_login := l\<rparr>)) (e, v)"
  using assms by (auto simp: implements_def unseen_def)

lemma implements_mod:
  assumes "cred_ok ext s" "pview s p = Done v" "p_cred s p = Some a" "pcreds s np = None" "ucreds s nu = None" "cred_upd_ok f g h"
  shows "implements ext p s (mod_creds np nu f g p s) (0, h v)"
    "implements ext p s (mod_creds np nu f g p (s\<lparr>s_login := l\<rparr>)) (0, h v)"
proof -
  have gen: "implements ext p s (mod_creds np nu f g p t) (0, h v)"
    if t: "cred_ok ext t" "p_cred t p = Some a" "pcreds t np = None" "ucreds t nu = None" "unseen ext {p} s t" "pview t p = Done v"
      "dom (p_cred t) = dom (p_cred s)" for t
  proof -
    obtain s' w where "mod_creds np nu f g p t = Done (0, s')" "cred_ok ext s'" "unseen ext {p} t s'"
      "pview t p = Done w" "pview s' p = Done (h w)" "dom (p_cred s') = dom (p_cred t)"
      by (rule mod_creds_ok [OF t(1-4) assms(6)])
    then show ?thesis using t(5-7) unfolding implements_def by (auto intro: unseen_trans)
  qed
  show "implements ext p s (mod_creds np nu f g p s) (0, h v)"
    "implements ext p s (mod_creds np nu f g p (s\<lparr>s_login := l\<rparr>)) (0, h v)"
    by (rule gen; use assms in \<open>simp add: unseen_def\<close>)+
qed

text \<open>Each call does what the specification says, whatever is shared.\<close>

lemma cred_exec_implements:
  assumes ok: "cred_ok ext s" and p: "p_cred s p = Some a" and np: "pcreds s np = None" and nu: "ucreds s nu = None"
    and v: "pview s p = Done v" and u: "user_ok c"
  shows "implements ext p s (cred_exec dg np nu c p s) (cred_spec (length (s_login s (p_session s p))) c v)"
proof -
  obtain pc cr where get: "get_creds p s = Done (pc, cr)" and vv: "v = view_of pc cr" using v by (auto simp: pview_get)
  have priv: "use_priv dg cr PRV_SETUID = Done (if may v PRV_SETUID then 0 else EPERM)"
    "use_priv dg cr PRV_SETGID = Done (if may v PRV_SETGID then 0 else EPERM)"
    "use_priv dg cr PRV_SETLOGIN = Done (if may v PRV_SETLOGIN then 0 else EPERM)"
    unfolding vv by (rule use_priv_may, simp)+
  have ids: "p_ruid pc = v_ruid v" "p_svuid pc = v_svuid v" "p_rgid pc = v_rgid v" "p_svgid pc = v_svgid v"
    by (simp_all add: vv view_of_def)
  note im = implements_same [OF ok v] implements_mod [OF ok v p np nu]
  note facts = get priv ids Let_def EPERM_def
  show ?thesis
  proof (cases c)
    case (Setgroups cin n)
    then show ?thesis
      using im(1) im(3) [OF cred_upd_groups [of n]] u
      by (auto simp: setgroups_def facts not_less split: sum.splits)
  next
    case (Setlogin cin)
    then show ?thesis
      using im(1,2) im(4) [OF cred_upds(5)]
      by (auto simp: setlogin_def facts split_beta ENAMETOOLONG_def)
  next
    case (Setuid x)
    then show ?thesis using im(1) im(3) [OF cred_upds(1) [of "ucast x"]] by (cases "ucast x = v_ruid v"; simp add: setuid_def facts)
  next
    case (Seteuid x)
    then show ?thesis using im(1) im(3) [OF cred_upds(2) [of "ucast x"]] by (cases "ucast x = v_ruid v"; cases "ucast x = v_svuid v"; simp add: seteuid_def facts)
  next
    case (Setgid x)
    then show ?thesis using im(1) im(3) [OF cred_upds(3) [of "ucast x"]] by (cases "ucast x = v_rgid v"; simp add: setgid_def facts)
  next
    case (Setegid x)
    then show ?thesis using im(1) im(3) [OF cred_upds(4) [of "ucast x"]] by (cases "ucast x = v_rgid v"; cases "ucast x = v_svgid v"; simp add: setegid_def facts)
  qed
qed

section \<open>Sequences of calls\<close>

text \<open>Any process calls, in any order; \<open>MALLOC\<close> returns addresses that are not in use.\<close>

inductive cred_steps :: "bool \<Rightarrow> csys \<Rightarrow> csys \<Rightarrow> bool" for dg s where
  start: "cred_steps dg s s"
| call: "cred_steps dg s s1 \<Longrightarrow> p_cred s1 p = Some a \<Longrightarrow> pcreds s1 np = None \<Longrightarrow> ucreds s1 nu = None \<Longrightarrow>
     user_ok c \<Longrightarrow> cred_exec dg np nu c p s1 = Done (e, s2) \<Longrightarrow> cred_steps dg s s2"

lemma cred_ok_view:
  assumes "cred_ok ext s" "p_cred s p = Some a"
  obtains v where "pview s p = Done v"
proof -
  from assms(1) have "cred_inv ext s" by (simp add: cred_ok_def)
  from cred_inv_get [OF this assms(2)] obtain pc cr where "get_creds p s = Done (pc, cr)" by blast
  then show thesis using that by (simp add: pview_def)
qed

text \<open>Without the superuser's identity a call only moves identities around.\<close>

definition v_ids :: "cview \<Rightarrow> u16 set" where
  "v_ids v = {v_ruid v, v_svuid v, v_uid v}"

lemma cred_spec_ids: "0 \<notin> v_ids v \<Longrightarrow> v_ids (snd (cred_spec n c v)) \<subseteq> v_ids v"
  by (cases c) (auto simp: v_ids_def may_def Let_def split: sum.splits)

lemma cred_steps_ids:
  assumes "cred_steps dg s s'" "cred_ok ext s" "pview s p = Done v" "0 \<notin> v_ids v"
  shows "cred_ok ext s' \<and> (\<exists>v'. pview s' p = Done v' \<and> v_ids v' \<subseteq> v_ids v)"
  using assms(1)
proof induction
  case start
  then show ?case using assms by blast
next
  case (call s1 q a np nu c e s2)
  then obtain v1 where ok: "cred_ok ext s1" and v1: "pview s1 p = Done v1" "v_ids v1 \<subseteq> v_ids v" by blast
  obtain w where w: "pview s1 q = Done w" by (rule cred_ok_view [OF ok call(2)])
  have im: "cred_ok ext s2" "unseen ext {q} s1 s2"
    "pview s2 q = Done (snd (cred_spec (length (s_login s1 (p_session s1 q))) c w))"
    using cred_exec_implements [OF ok call(2,3,4) w call(5), of dg] call(6) by (auto simp: implements_def)
  show ?case
  proof (cases "q = p")
    case True
    then have "0 \<notin> v_ids w" using v1 w assms(4) by auto
    then show ?thesis using cred_spec_ids True v1 w im by fastforce
  next
    case False
    then show ?thesis using v1 im by (auto simp: unseen_def)
  qed
qed

section \<open>Properties\<close>

text \<open>
  C1: sharing of credentials is invisible.  Whatever \<open>pcred\<close> and \<open>ucred\<close> structures a process
  shares with others, a credential call does exactly what it does on private credentials: it
  returns, with the result and the new credentials the specification gives; no other process and
  no other holder of a \<open>ucred\<close> (an open file, a mount) sees a difference; and the reference
  counts are again exact, so that no structure in use is ever freed.
\<close>

theorem cred_calls_refine:
  assumes "cred_ok ext s" "p_cred s p = Some a" "pcreds s np = None" "ucreds s nu = None" "user_ok c"
  shows "\<exists>s' v. pview s p = Done v \<and>
    (let (e, v') = cred_spec (length (s_login s (p_session s p))) c v in
     cred_exec dg np nu c p s = Done (e, s') \<and> pview s' p = Done v' \<and> cred_ok ext s' \<and>
     (\<forall>q. q \<noteq> p \<longrightarrow> pview s' q = pview s q) \<and> (\<forall>u. 0 < ext u \<longrightarrow> uview s' u = uview s u))"
proof -
  obtain v where v: "pview s p = Done v" by (rule cred_ok_view [OF assms(1,2)])
  from cred_exec_implements [OF assms(1-4) v assms(5), of dg] v show ?thesis
    by (auto simp: implements_def unseen_def split_beta)
qed

definition ucred_demo :: ucred where
  "ucred_demo = \<lparr>cr_ref = 2, cr_uid = 0, cr_role = 0, cr_ngroups = 1, cr_groups = replicate 16 0\<rparr>"

definition pcred_demo :: pcred where
  "pcred_demo = \<lparr>pc_ucred = 70, p_ruid = 0, p_svuid = 0, p_rgid = 0, p_svgid = 0, p_refcnt = 2\<rparr>"

text \<open>Two processes that share everything, and an open file that holds the \<open>ucred\<close>.\<close>

definition csys_demo :: csys where
  "csys_demo = \<lparr>ucreds = [70 \<mapsto> ucred_demo], pcreds = [50 \<mapsto> pcred_demo], p_cred = [1 \<mapsto> 50, 2 \<mapsto> 50],
     p_session = (\<lambda>_. 0), s_login = (\<lambda>_. replicate 12 0)\<rparr>"

definition ext_demo :: "addr \<Rightarrow> nat" where
  "ext_demo u = (if u = 70 then 1 else 0)"

lemma csys_demo_ok: "cred_ok ext_demo csys_demo"
proof -
  have "pusers csys_demo 50 = {1, 2}" "uusers csys_demo 70 = {50}"
    by (auto simp: pusers_def uusers_def csys_demo_def pcred_demo_def split: if_splits)
  moreover have "dom (p_cred csys_demo) = {1, 2}" "dom (pcreds csys_demo) = {50}" by (auto simp: csys_demo_def)
  ultimately show ?thesis
    by (auto simp: cred_ok_def cred_inv_def refs_small_def csys_demo_def pcred_demo_def ucred_demo_def ext_demo_def
        groups_ok_def NGROUPS_MAX_def split: if_splits)
qed

theorem cred_calls_refine_witness:
  "\<exists>s'. cred_exec False 51 71 (Setuid 100) 1 csys_demo = Done (0, s') \<and> kmap v_uid (pview s' 1) = Done 100 \<and>
     kmap v_uid (pview s' 2) = Done 0 \<and> uview s' 70 = uview csys_demo 70"
proof -
  have h: "p_cred csys_demo 1 = Some 50" "pcreds csys_demo 51 = None" "ucreds csys_demo 71 = None" "user_ok (Setuid 100)"
    by (simp_all add: csys_demo_def)
  have v: "kmap v_uid (pview csys_demo 2) = Done 0" "\<And>w. pview csys_demo 1 = Done w \<Longrightarrow> may w PRV_SETUID"
    by (auto simp: csys_demo_def pview_def get_creds_def get_pcred_def pcred_demo_def ucred_demo_def view_of_def may_def ROLE_NONE_def)
  from cred_calls_refine [OF csys_demo_ok h, of False] v show ?thesis
    by (auto simp: Let_def ext_demo_def)
qed

text \<open>
  C3: \<open>setuid\<close> to an ordinary user is irrevocable.  Once it has succeeded, whatever credential
  calls follow, of this process or of any other, the process has the real, the saved and the
  effective user id it was given.
\<close>

theorem setuid_irrevocable:
  assumes "cred_ok ext s" "p_cred s p = Some a" "pcreds s np = None" "ucreds s nu = None"
    "setuid dg np nu uid p s = Done (0, s1)" "(ucast uid :: u16) \<noteq> 0" "cred_steps dg s1 s2"
  shows "\<exists>v. pview s2 p = Done v \<and> v_ruid v = ucast uid \<and> v_svuid v = ucast uid \<and> v_uid v = ucast uid"
proof -
  obtain v where v: "pview s p = Done v" by (rule cred_ok_view [OF assms(1,2)])
  have "implements ext p s (setuid dg np nu uid p s) (cred_spec (length (s_login s (p_session s p))) (Setuid uid) v)"
    using cred_exec_implements [OF assms(1-4) v, of "Setuid uid"] by simp
  then have "cred_ok ext s1" "pview s1 p = Done (v\<lparr>v_ruid := ucast uid, v_svuid := ucast uid, v_uid := ucast uid\<rparr>)"
    using assms(5) by (auto simp: implements_def Let_def EPERM_def split: if_splits)
  from cred_steps_ids [OF assms(7) this] show ?thesis using assms(6) by (auto simp: v_ids_def)
qed

theorem setuid_irrevocable_witness:
  "\<exists>s1 s2 v. setuid False 51 71 100 1 csys_demo = Done (0, s1) \<and> seteuid False 52 72 0 1 s1 = Done (EPERM, s2) \<and>
     pview s2 1 = Done v \<and> v_uid v = 100"
proof -
  have h: "p_cred csys_demo 1 = Some 50" "pcreds csys_demo 51 = None" "ucreds csys_demo 71 = None"
    by (simp_all add: csys_demo_def)
  define s1 where "s1 = (case setuid False 51 71 100 1 csys_demo of Done (e, s) \<Rightarrow> s | _ \<Rightarrow> csys_demo)"
  have r: "setuid False 51 71 100 1 csys_demo = Done (0, s1)" "p_cred s1 1 = Some 51" "pcreds s1 52 = None" "ucreds s1 72 = None"
    "seteuid False 52 72 0 1 s1 = Done (EPERM, s1)"
    by (simp_all add: s1_def csys_demo_def setuid_def seteuid_def get_creds_def get_pcred_def pcred_demo_def ucred_demo_def
        use_priv_def ROLE_NONE_def mod_creds_def modpcred_def crhold_def crdup_def crfree_def upd_creds_def EPERM_def)
  have "cred_steps False s1 s1"
    by (rule cred_steps.call [OF cred_steps.start r(2-4), of "Seteuid 0" False EPERM]) (use r(5) in simp_all)
  from setuid_irrevocable [OF csys_demo_ok h r(1) _ this] r show ?thesis by auto
qed

text \<open>
  the privilege to keep the set-group-id bit of a new file has no case in \<open>use_priv\<close>.  With
  \<open>DIAGNOSTIC\<close> the kernel panics when a user needs it; without, everyone whose role is
  \<open>ROLE_ALL\<close> has it, which is the only role the kernel ever assigns.  Every other privilege
  is refused to everyone but the superuser.
\<close>

theorem use_priv_default:
  "use_priv True cr PRV_UFS_MAKNODE = Panic ''use_priv'' \<and>
   (cr_role cr = 0 \<longrightarrow> use_priv False cr PRV_UFS_MAKNODE = Done 0) \<and>
   (prv \<noteq> PRV_UFS_MAKNODE \<and> cr_uid cr \<noteq> 0 \<longrightarrow> use_priv dg cr prv = Done EPERM)"
proof (intro conjI impI)
  assume "prv \<noteq> PRV_UFS_MAKNODE \<and> cr_uid cr \<noteq> 0"
  then have "priv_minrole prv \<noteq> None" "cr_uid cr \<noteq> 0" by (cases prv; simp)+
  then show "use_priv dg cr prv = Done EPERM" by (auto simp: use_priv_def)
qed (simp_all add: use_priv_def ROLE_ALL_def)

theorem use_priv_default_witness:
  "use_priv False (ucred_demo\<lparr>cr_uid := 7\<rparr>) PRV_UFS_MAKNODE = Done 0 \<and> use_priv False (ucred_demo\<lparr>cr_uid := 7\<rparr>) PRV_MKNOD = Done EPERM"
  using use_priv_default [of "ucred_demo\<lparr>cr_uid := 7\<rparr>" PRV_MKNOD False] by (simp add: ucred_demo_def)

end
