(* ===== verification/Pgrp.thy ===== *)
theory Pgrp
  imports Prelude
begin

text \<open>
  Process groups, sessions and job control: \<open>kern/proc.c\<close>, with the process id hash table of
  \<open>include/proc.h\<close>, compiled with \<open>DIAGNOSTIC\<close>.

  Processes, process groups, sessions and terminals are stores addressed by numbers; the chains
  \<open>p_pgrpnxt\<close>, \<open>p_osptr\<close>, \<open>p_hash\<close> and \<open>pg_hforw\<close> are lists of addresses in the order of the
  links.  The addresses \<open>MALLOC\<close> returns are arguments.  \<open>psignal\<close>, \<open>pgsignal\<close>, \<open>ttywait\<close> and
  the vnode calls are recorded, in their order, as events.
\<close>

section \<open>State\<close>

datatype sig = SIGHUP | SIGKILL | SIGCONT | SIGCHLD

datatype pevent =
    Psignal nat sig
  | Pgsignal addr sig
  | Ttywait addr
  | Vgoneall addr
  | Vrele addr

record jproc =
  p_pid :: int
  p_pptr :: "nat option"
  p_children :: "nat list"
  p_pgrp :: "addr option"
  p_stat :: pstat
  p_sctty :: bool
  p_sexec :: bool

record pgrp =
  pg_mem :: "nat list"
  pg_session :: addr
  pg_id :: int
  pg_jobc :: int

record session =
  s_count :: int
  s_leader :: "nat option"
  s_ttyvp :: "addr option"
  s_ttyp :: "addr option"
  s_login :: "u8 list"

record jtty =
  t_session :: "addr option"
  t_pgrp :: "addr option"

record jsys =
  jprocs :: "nat \<Rightarrow> jproc option"
  pgrps :: "addr \<Rightarrow> pgrp option"
  sessions :: "addr \<Rightarrow> session option"
  jttys :: "addr \<Rightarrow> jtty option"
  pidhash :: "nat \<Rightarrow> nat list"
  pgrphash :: "nat \<Rightarrow> addr list"
  curproc :: nat
  events :: "pevent list"

text \<open>\<open>pidhashmask\<close> is 63.\<close>

definition PIDHASH :: "int \<Rightarrow> nat" where
  "PIDHASH pid = nat (pid mod 64)"

definition post :: "pevent list \<Rightarrow> jsys \<Rightarrow> jsys" where
  "post es s = s\<lparr>events := events s @ es\<rparr>"

definition upd_proc :: "nat \<Rightarrow> (jproc \<Rightarrow> jproc) \<Rightarrow> jsys \<Rightarrow> jsys" where
  "upd_proc p f s = s\<lparr>jprocs := (jprocs s)(p := map_option f (jprocs s p))\<rparr>"

definition upd_pgrp :: "addr \<Rightarrow> (pgrp \<Rightarrow> pgrp) \<Rightarrow> jsys \<Rightarrow> jsys" where
  "upd_pgrp g f s = s\<lparr>pgrps := (pgrps s)(g := map_option f (pgrps s g))\<rparr>"

definition upd_sess :: "addr \<Rightarrow> (session \<Rightarrow> session) \<Rightarrow> jsys \<Rightarrow> jsys" where
  "upd_sess a f s = s\<lparr>sessions := (sessions s)(a := map_option f (sessions s a))\<rparr>"

text \<open>\<open>p->p_pgrp\<close> with its contents, and \<open>p->p_session\<close>.\<close>

definition get_pgrp :: "nat \<Rightarrow> jsys \<Rightarrow> (addr \<times> pgrp) kres" where
  "get_pgrp p s = kbind (deref (jprocs s p)) (\<lambda>pr. kbind (deref (p_pgrp pr)) (\<lambda>g. kmap (Pair g) (deref (pgrps s g))))"

definition get_session :: "nat \<Rightarrow> jsys \<Rightarrow> (addr \<times> session) kres" where
  "get_session p s = kbind (get_pgrp p s) (\<lambda>(g, G). kmap (Pair (pg_session G)) (deref (sessions s (pg_session G))))"

definition SESS_LEADER :: "nat \<Rightarrow> jsys \<Rightarrow> bool kres" where
  "SESS_LEADER p s = kmap (\<lambda>(a, se). s_leader se = Some p) (get_session p s)"

section \<open>Hash tables\<close>

definition enterpidhash :: "nat \<Rightarrow> jsys \<Rightarrow> jsys kres" where
  "enterpidhash p s =
     kmap (\<lambda>pr. s\<lparr>pidhash := (pidhash s)(PIDHASH (p_pid pr) := p # pidhash s (PIDHASH (p_pid pr)))\<rparr>) (deref (jprocs s p))"

definition leavepidhash :: "nat \<Rightarrow> jsys \<Rightarrow> jsys kres" where
  "leavepidhash p s =
     kbind (deref (jprocs s p)) (\<lambda>pr.
       let h = PIDHASH (p_pid pr) in
       if p \<in> set (pidhash s h) then Done (s\<lparr>pidhash := (pidhash s)(h := remove1 p (pidhash s h))\<rparr>)
       else Panic ''leavepidhash'')"

definition pfind :: "int \<Rightarrow> jsys \<Rightarrow> nat option" where
  "pfind pid s = find (\<lambda>p. map_option p_pid (jprocs s p) = Some pid) (pidhash s (PIDHASH pid))"

definition pgfind :: "int \<Rightarrow> jsys \<Rightarrow> addr option" where
  "pgfind pgid s = find (\<lambda>g. map_option pg_id (pgrps s g) = Some pgid) (pgrphash s (PIDHASH pgid))"

text \<open>
  \<open>inferior\<close> climbs from \<open>p\<close> to its ancestors; a chain without end is \<open>None\<close>.
\<close>

partial_function (option) inferior :: "nat \<Rightarrow> jsys \<Rightarrow> bool kres option" where
  "inferior p s =
     (if p = curproc s then Some (Done True)
      else case jprocs s p of
        None \<Rightarrow> Some Fault
      | Some pr \<Rightarrow>
          if p_pid pr = 0 then Some (Done False)
          else case p_pptr pr of None \<Rightarrow> Some Fault | Some q \<Rightarrow> inferior q s)"

section \<open>Job control\<close>

text \<open>\<open>orphanpg\<close>: if a member is stopped, every member gets \<open>SIGHUP\<close> and \<open>SIGCONT\<close>.\<close>

definition orphanpg :: "addr \<Rightarrow> jsys \<Rightarrow> jsys kres" where
  "orphanpg g s =
     kmap (\<lambda>G. if list_ex (\<lambda>p. map_option p_stat (jprocs s p) = Some SSTOP) (pg_mem G)
               then post (concat (map (\<lambda>p. [Psignal p SIGHUP, Psignal p SIGCONT]) (pg_mem G))) s else s)
       (deref (pgrps s g))"

text \<open>One adjustment of a group's count.\<close>

definition adjjobc :: "addr \<Rightarrow> bool \<Rightarrow> jsys \<Rightarrow> jsys kres" where
  "adjjobc g entering s =
     kbind (deref (pgrps s g)) (\<lambda>G.
       if entering then Done (upd_pgrp g (\<lambda>G. G\<lparr>pg_jobc := pg_jobc G + 1\<rparr>) s)
       else let s' = upd_pgrp g (\<lambda>G. G\<lparr>pg_jobc := pg_jobc G - 1\<rparr>) s in
            if pg_jobc G - 1 = 0 then orphanpg g s' else Done s')"

fun fixjobc_children :: "nat list \<Rightarrow> addr \<Rightarrow> addr \<Rightarrow> bool \<Rightarrow> jsys \<Rightarrow> jsys kres" where
  "fixjobc_children [] g mysession entering s = Done s"
| "fixjobc_children (c # cs) g mysession entering s =
     kbind (deref (jprocs s c)) (\<lambda>cr.
     kbind (get_pgrp c s) (\<lambda>(h, H).
     kbind (if h \<noteq> g \<and> pg_session H = mysession \<and> p_stat cr \<noteq> SZOMB then adjjobc h entering s else Done s)
       (fixjobc_children cs g mysession entering)))"

definition fixjobc :: "nat \<Rightarrow> addr \<Rightarrow> bool \<Rightarrow> jsys \<Rightarrow> jsys kres" where
  "fixjobc p g entering s =
     kbind (deref (pgrps s g)) (\<lambda>G.
     kbind (deref (jprocs s p)) (\<lambda>pr.
     kbind (deref (p_pptr pr)) (\<lambda>pp.
     kbind (get_pgrp pp s) (\<lambda>(h, H).
     kbind (if h \<noteq> g \<and> pg_session H = pg_session G then adjjobc g entering s else Done s)
       (fixjobc_children (p_children pr) g (pg_session G) entering)))))"

section \<open>Groups and sessions\<close>

definition pgdelete :: "addr \<Rightarrow> jsys \<Rightarrow> jsys kres" where
  "pgdelete g s =
     kbind (deref (pgrps s g)) (\<lambda>G.
     kbind (deref (sessions s (pg_session G))) (\<lambda>se.
     kbind (case s_ttyp se of
              None \<Rightarrow> Done s
            | Some t \<Rightarrow> kmap (\<lambda>T. if t_pgrp T = Some g then s\<lparr>jttys := (jttys s)(t \<mapsto> T\<lparr>t_pgrp := None\<rparr>)\<rparr> else s) (deref (jttys s t)))
       (\<lambda>s1.
       let h = PIDHASH (pg_id G) in
       if g \<notin> set (pgrphash s1 h) then Panic ''pgdelete: can't find pgrp on hash chain''
       else
         let n = s_count se - 1 in
         Done (s1\<lparr>pgrphash := (pgrphash s1)(h := remove1 g (pgrphash s1 h)),
                  sessions := (sessions s1)(pg_session G := if n = 0 then None else Some (se\<lparr>s_count := n\<rparr>)),
                  pgrps := (pgrps s1)(g := None)\<rparr>))))"

text \<open>
  The new group of \<open>enterpgrp\<close>, when there is none with the number: \<open>ng\<close> and \<open>ns\<close> are the
  addresses of the group and, if one is made, the session.
\<close>

definition newpgrp :: "addr \<Rightarrow> addr \<Rightarrow> nat \<Rightarrow> int \<Rightarrow> bool \<Rightarrow> jsys \<Rightarrow> jsys kres" where
  "newpgrp ng ns p pgid mksess s =
     kbind (deref (jprocs s p)) (\<lambda>pr.
       if p_pid pr \<noteq> pgid then Panic ''enterpgrp: new pgrp and pid != pgid''
       else kbind (get_session p s) (\<lambda>(a, se).
         if mksess \<and> p \<noteq> curproc s then Panic ''enterpgrp: mksession and p != curproc''
         else
           let s1 = (if mksess
                     then upd_proc p (\<lambda>pr. pr\<lparr>p_sctty := False\<rparr>)
                       (s\<lparr>sessions := (sessions s)(ns \<mapsto> \<lparr>s_count = 1, s_leader = Some p, s_ttyvp = None, s_ttyp = None, s_login = s_login se\<rparr>)\<rparr>)
                     else upd_sess a (\<lambda>se. se\<lparr>s_count := s_count se + 1\<rparr>) s);
               h = PIDHASH pgid in
           Done (s1\<lparr>pgrps := (pgrps s1)(ng \<mapsto> \<lparr>pg_mem = [], pg_session = (if mksess then ns else a), pg_id = pgid, pg_jobc = 0\<rparr>),
                    pgrphash := (pgrphash s1)(h := ng # pgrphash s1 h)\<rparr>)))"

text \<open>Unlinking from the list of members, and deleting the group when it becomes empty.\<close>

definition unlinkpgrp :: "string \<Rightarrow> nat \<Rightarrow> jsys \<Rightarrow> jsys kres" where
  "unlinkpgrp msg p s =
     kbind (get_pgrp p s) (\<lambda>(g, G).
       if p \<notin> set (pg_mem G) then Panic msg
       else
         let s1 = upd_pgrp g (\<lambda>G. G\<lparr>pg_mem := remove1 p (pg_mem G)\<rparr>) s in
         if remove1 p (pg_mem G) = [] then pgdelete g s1 else Done s1)"

definition linkpgrp :: "nat \<Rightarrow> addr \<Rightarrow> jsys \<Rightarrow> jsys" where
  "linkpgrp p g s = upd_pgrp g (\<lambda>G. G\<lparr>pg_mem := p # pg_mem G\<rparr>) (upd_proc p (\<lambda>pr. pr\<lparr>p_pgrp := Some g\<rparr>) s)"

definition movepgrp :: "nat \<Rightarrow> addr \<Rightarrow> jsys \<Rightarrow> jsys kres" where
  "movepgrp p g s =
     kbind (fixjobc p g True s) (\<lambda>s1.
     kbind (get_pgrp p s1) (\<lambda>(old, _).
     kbind (fixjobc p old False s1) (\<lambda>s2.
     kmap (linkpgrp p g) (unlinkpgrp ''enterpgrp: can't find p on old pgrp'' p s2))))"

definition enterpgrp :: "addr \<Rightarrow> addr \<Rightarrow> nat \<Rightarrow> int \<Rightarrow> bool \<Rightarrow> jsys \<Rightarrow> jsys kres" where
  "enterpgrp ng ns p pgid mksess s =
     (if pgfind pgid s \<noteq> None \<and> mksess then Panic ''enterpgrp: setsid into non-empty pgrp''
      else kbind (SESS_LEADER p s) (\<lambda>leader.
        if leader then Panic ''enterpgrp: session leader attempted setpgrp''
        else case pgfind pgid s of
          None \<Rightarrow> kbind (newpgrp ng ns p pgid mksess s) (movepgrp p ng)
        | Some g \<Rightarrow>
            kbind (deref (jprocs s p)) (\<lambda>pr. if p_pgrp pr = Some g then Done s else movepgrp p g s)))"

definition leavepgrp :: "nat \<Rightarrow> jsys \<Rightarrow> jsys kres" where
  "leavepgrp p s =
     kmap (upd_proc p (\<lambda>pr. pr\<lparr>p_pgrp := None\<rparr>)) (unlinkpgrp ''leavepgrp: can't find p in pgrp'' p s)"

definition exitsessleader :: "nat \<Rightarrow> jsys \<Rightarrow> jsys kres" where
  "exitsessleader p s =
     kbind (get_session p s) (\<lambda>(a, se).
     kmap (upd_sess a (\<lambda>se. se\<lparr>s_leader := None\<rparr>))
       (case s_ttyvp se of
          None \<Rightarrow> Done s
        | Some v \<Rightarrow>
            kbind (deref (s_ttyp se)) (\<lambda>t.
            kmap (\<lambda>T.
              let es = (if t_session T = Some a
                        then (case t_pgrp T of None \<Rightarrow> [] | Some g \<Rightarrow> [Pgsignal g SIGHUP]) @ [Ttywait t, Vgoneall v]
                        else []) in
              upd_sess a (\<lambda>se. se\<lparr>s_ttyvp := None\<rparr>) (post (es @ [Vrele v]) s))
              (deref (jttys s t)))))"

section \<open>System calls\<close>

definition setsid :: "addr \<Rightarrow> addr \<Rightarrow> nat \<Rightarrow> jsys \<Rightarrow> (int + int \<times> jsys) kres" where
  "setsid ng ns p s =
     kbind (deref (jprocs s p)) (\<lambda>pr.
     kbind (get_pgrp p s) (\<lambda>(g, G).
       if pg_id G = p_pid pr \<or> pgfind (p_pid pr) s \<noteq> None then Done (Inl EPERM)
       else kmap (\<lambda>s'. Inr (p_pid pr, s')) (enterpgrp ng ns p (p_pid pr) True s)))"

text \<open>The target of \<open>setpgid\<close>: an error or the process.\<close>

definition setpgid_target :: "nat \<Rightarrow> int \<Rightarrow> jsys \<Rightarrow> (int + nat) kres option" where
  "setpgid_target curp pid s =
     (case jprocs s curp of
        None \<Rightarrow> Some Fault
      | Some cr \<Rightarrow>
          if pid \<noteq> 0 \<and> pid \<noteq> p_pid cr then
            (case pfind pid s of
               None \<Rightarrow> Some (Done (Inl ESRCH))
             | Some t \<Rightarrow>
                 map_option (\<lambda>r. kbind r (\<lambda>inf.
                   if \<not> inf then Done (Inl ESRCH)
                   else kbind (get_session t s) (\<lambda>(ta, _). kbind (get_session curp s) (\<lambda>(ca, _).
                     if ta \<noteq> ca then Done (Inl EPERM)
                     else kmap (\<lambda>tr. if p_sexec tr then Inl EACCES else Inr t) (deref (jprocs s t))))))
                   (inferior t s))
          else Some (Done (Inr curp)))"

definition setpgid :: "addr \<Rightarrow> nat \<Rightarrow> int \<Rightarrow> int \<Rightarrow> jsys \<Rightarrow> (int \<times> jsys) kres option" where
  "setpgid ng curp pid pgid0 s =
     map_option (\<lambda>r. kbind r (\<lambda>x. case x of
         Inl e \<Rightarrow> Done (e, s)
       | Inr t \<Rightarrow>
           kbind (SESS_LEADER t s) (\<lambda>leader.
             if leader then Done (EPERM, s)
             else kbind (deref (jprocs s t)) (\<lambda>tr.
               let pgid = (if pgid0 = 0 then p_pid tr else pgid0) in
               kbind (if pgid \<noteq> p_pid tr
                      then kmap (\<lambda>(ca, _). case pgfind pgid s of
                               None \<Rightarrow> False
                             | Some g \<Rightarrow> map_option pg_session (pgrps s g) = Some ca) (get_session curp s)
                      else Done True) (\<lambda>ok.
                 if \<not> ok then Done (EPERM, s)
                 else kmap (Pair 0) (enterpgrp ng 0 t pgid False s))))))
       (setpgid_target curp pid s)"

definition getpgrp :: "nat \<Rightarrow> jsys \<Rightarrow> int kres" where
  "getpgrp p s = kmap (\<lambda>(g, G). pg_id G) (get_pgrp p s)"

definition getpid :: "nat \<Rightarrow> jsys \<Rightarrow> int kres" where
  "getpid p s = kmap p_pid (deref (jprocs s p))"

definition getppid :: "nat \<Rightarrow> jsys \<Rightarrow> int kres" where
  "getppid p s = kbind (deref (jprocs s p)) (\<lambda>pr. kbind (deref (p_pptr pr)) (\<lambda>pp. getpid pp s))"

section \<open>What the counts count\<close>

definition grp :: "jsys \<Rightarrow> nat \<Rightarrow> addr option" where
  "grp s p = Option.bind (jprocs s p) p_pgrp"

definition parent :: "jsys \<Rightarrow> nat \<Rightarrow> nat option" where
  "parent s p = Option.bind (jprocs s p) p_pptr"

definition live :: "jsys \<Rightarrow> nat \<Rightarrow> bool" where
  "live s p \<longleftrightarrow> (\<exists>pr. jprocs s p = Some pr \<and> p_stat pr \<noteq> SZOMB)"

definition ses :: "jsys \<Rightarrow> addr \<Rightarrow> addr option" where
  "ses s g = map_option pg_session (pgrps s g)"

definition jobc :: "jsys \<Rightarrow> addr \<Rightarrow> int" where
  "jobc s g = (case pgrps s g of None \<Rightarrow> 0 | Some G \<Rightarrow> pg_jobc G)"

text \<open>Being in group \<open>h\<close>, the parent of a member of \<open>x\<close> makes it qualify \<open>x\<close>.\<close>

definition links :: "jsys \<Rightarrow> addr option \<Rightarrow> addr \<Rightarrow> bool" where
  "links s h x \<longleftrightarrow> (\<exists>g. h = Some g \<and> g \<noteq> x \<and> ses s g = ses s x)"

definition qual :: "jsys \<Rightarrow> nat \<Rightarrow> addr \<Rightarrow> bool" where
  "qual s q x \<longleftrightarrow> live s q \<and> grp s q = Some x \<and> (\<exists>pp. parent s q = Some pp \<and> links s (grp s pp) x)"

definition family_ok :: "jsys \<Rightarrow> bool" where
  "family_ok s \<longleftrightarrow> finite (dom (jprocs s)) \<and>
     (\<forall>p pr. jprocs s p = Some pr \<longrightarrow>
        (\<exists>g. p_pgrp pr = Some g \<and> pgrps s g \<noteq> None) \<and>
        distinct (p_children pr) \<and> set (p_children pr) = {c. parent s c = Some p}) \<and>
     (\<forall>c p. parent s c = Some p \<longrightarrow> jprocs s p \<noteq> None \<and> p \<noteq> c)"

text \<open>States that differ in the counts (and the events) only.\<close>

definition same_but_jobc :: "jsys \<Rightarrow> jsys \<Rightarrow> bool" where
  "same_but_jobc s s' \<longleftrightarrow> (\<exists>f es. s' = s\<lparr>pgrps := (\<lambda>g. map_option (\<lambda>G. G\<lparr>pg_jobc := f g\<rparr>) (pgrps s g)), events := es\<rparr>)"

lemma same_but_jobcI:
  assumes "s' = s\<lparr>pgrps := (\<lambda>g. map_option (\<lambda>G. G\<lparr>pg_jobc := f g\<rparr>) (pgrps s g)), events := es\<rparr>"
  shows "same_but_jobc s s'"
  using assms by (auto simp: same_but_jobc_def)

lemma same_but_jobc_refl [simp]: "same_but_jobc s s"
proof (rule same_but_jobcI)
  show "s = s\<lparr>pgrps := (\<lambda>g. map_option (\<lambda>G. G\<lparr>pg_jobc := jobc s g\<rparr>) (pgrps s g)), events := events s\<rparr>"
    by (rule jsys.equality) (auto simp: fun_eq_iff jobc_def map_option_case split: option.splits)
qed

lemma same_but_jobc_trans: "same_but_jobc s s1 \<Longrightarrow> same_but_jobc s1 s2 \<Longrightarrow> same_but_jobc s s2"
  unfolding same_but_jobc_def by (elim exE) (simp add: option.map_comp comp_def, blast)

lemma same_but_jobc_eqs:
  assumes "same_but_jobc s s'"
  shows "jprocs s' = jprocs s" "sessions s' = sessions s" "jttys s' = jttys s" "pidhash s' = pidhash s"
    "pgrphash s' = pgrphash s" "curproc s' = curproc s" "ses s' = ses s" "grp s' = grp s" "parent s' = parent s"
    "live s' = live s" "pgrps s' g = None \<longleftrightarrow> pgrps s g = None"
    "pgrps s' g = map_option (\<lambda>G. G\<lparr>pg_jobc := jobc s' g\<rparr>) (pgrps s g)"
  using assms
  by (auto simp: same_but_jobc_def ses_def grp_def parent_def live_def fun_eq_iff option.map_comp comp_def jobc_def
      split: option.splits)

lemma adjjobc_ok:
  assumes "pgrps s g \<noteq> None"
  obtains s' where "adjjobc g ent s = Done s'" "same_but_jobc s s'"
    "\<And>x. jobc s' x = jobc s x + (if x = g then (if ent then 1 else -1) else 0)"
proof -
  from assms obtain G where G: "pgrps s g = Some G" by blast
  define d :: int where "d = (if ent then 1 else -1)"
  have same: "same_but_jobc s (upd_pgrp g (\<lambda>G. G\<lparr>pg_jobc := pg_jobc G + d\<rparr>) s\<lparr>events := es\<rparr>)" for es
    by (rule same_but_jobcI [where f = "\<lambda>x. jobc s x + (if x = g then d else 0)" and es = es])
      (auto simp: upd_pgrp_def fun_eq_iff jobc_def map_option_case split: option.splits)
  have job: "jobc (upd_pgrp g (\<lambda>G. G\<lparr>pg_jobc := pg_jobc G + d\<rparr>) s\<lparr>events := es\<rparr>) x = jobc s x + (if x = g then d else 0)" for x es
    using G by (simp add: upd_pgrp_def jobc_def)
  have "\<exists>es. adjjobc g ent s = Done (upd_pgrp g (\<lambda>G. G\<lparr>pg_jobc := pg_jobc G + d\<rparr>) s\<lparr>events := es\<rparr>)"
  proof (cases ent)
    case True
    then show ?thesis using G by (intro exI [of _ "events s"]) (simp add: adjjobc_def d_def upd_pgrp_def)
  next
    case False
    let ?s = "upd_pgrp g (\<lambda>G. G\<lparr>pg_jobc := pg_jobc G - 1\<rparr>) s"
    have "\<exists>es. orphanpg g ?s = Done (?s\<lparr>events := es\<rparr>)"
    proof (cases "list_ex (\<lambda>p. map_option p_stat (jprocs ?s p) = Some SSTOP) (pg_mem G)")
      case True
      then show ?thesis using G
        by (intro exI [of _ "events s @ concat (map (\<lambda>p. [Psignal p SIGHUP, Psignal p SIGCONT]) (pg_mem G))"])
          (simp add: orphanpg_def upd_pgrp_def post_def)
    next
      case False
      then show ?thesis using G by (intro exI [of _ "events s"]) (simp add: orphanpg_def upd_pgrp_def)
    qed
    moreover have "?s = ?s\<lparr>events := events s\<rparr>" by (simp add: upd_pgrp_def)
    ultimately show ?thesis using G False by (auto simp: adjjobc_def d_def Let_def intro: exI [of _ "events s"])
  qed
  then show thesis using that same job unfolding d_def by blast
qed

definition child_qual :: "jsys \<Rightarrow> addr \<Rightarrow> nat \<Rightarrow> addr \<Rightarrow> bool" where
  "child_qual s g c x \<longleftrightarrow> live s c \<and> grp s c = Some x \<and> links s (Some g) x"

lemma fixjobc_children_ok:
  assumes "\<forall>c \<in> set cs. \<exists>cr h. jprocs s c = Some cr \<and> p_pgrp cr = Some h \<and> pgrps s h \<noteq> None" "ses s g = Some my"
  shows "\<exists>s'. fixjobc_children cs g my ent s = Done s' \<and> same_but_jobc s s' \<and>
    (\<forall>x. jobc s' x = jobc s x + (if ent then 1 else -1) * (\<Sum>c\<leftarrow>cs. of_bool (child_qual s g c x)))"
  using assms
proof (induction cs arbitrary: s)
  case Nil
  then show ?case by (intro exI [of _ s]) simp
next
  case (Cons c cs)
  then obtain cr h H where c: "jprocs s c = Some cr" "p_pgrp cr = Some h" "pgrps s h = Some H" by auto
  define q where "q = (h \<noteq> g \<and> pg_session H = my \<and> p_stat cr \<noteq> SZOMB)"
  have cq: "child_qual s g c x \<longleftrightarrow> x = h \<and> q" for x
    using c Cons(3) by (auto simp: child_qual_def live_def grp_def links_def ses_def q_def)
  obtain s1 where s1: "(if q then adjjobc h ent s else Done s) = Done s1" "same_but_jobc s s1"
    "\<And>x. jobc s1 x = jobc s x + (if ent then 1 else -1) * of_bool (child_qual s g c x)"
  proof (cases q)
    case True
    have "pgrps s h \<noteq> None" using c by simp
    then obtain s1 where "adjjobc h ent s = Done s1" "same_but_jobc s s1"
      "\<And>x. jobc s1 x = jobc s x + (if x = h then (if ent then 1 else -1) else 0)" by (rule adjjobc_ok) blast
    then show ?thesis using True by (intro that [of s1]) (auto simp: cq)
  qed (auto simp: cq intro: that)
  have eqs: "jprocs s1 = jprocs s" "ses s1 = ses s" "child_qual s1 = child_qual s"
    using same_but_jobc_eqs [OF s1(2)] by (auto simp: child_qual_def links_def fun_eq_iff)
  have "\<forall>c \<in> set cs. \<exists>cr h. jprocs s1 c = Some cr \<and> p_pgrp cr = Some h \<and> pgrps s1 h \<noteq> None"
    using Cons(2) same_but_jobc_eqs(11) [OF s1(2)] eqs(1) by auto
  from Cons(1) [OF this] eqs(2) Cons(3) obtain s' where s': "fixjobc_children cs g my ent s1 = Done s'" "same_but_jobc s1 s'"
    "\<And>x. jobc s' x = jobc s1 x + (if ent then 1 else -1) * (\<Sum>c\<leftarrow>cs. of_bool (child_qual s g c x))"
    unfolding eqs(3) by auto
  have "fixjobc_children (c # cs) g my ent s = Done s'"
    using c s1(1) s'(1) by (simp add: get_pgrp_def q_def)
  moreover have "same_but_jobc s s'" by (rule same_but_jobc_trans [OF s1(2) s'(2)])
  moreover have "jobc s' x = jobc s x + (if ent then 1 else -1) * (\<Sum>c\<leftarrow>c # cs. of_bool (child_qual s g c x))" for x
    unfolding s'(3) s1(3) by (simp add: algebra_simps)
  ultimately show ?case by blast
qed

lemma family_okD:
  assumes "family_ok s" "jprocs s p = Some pr"
  shows "\<exists>g. p_pgrp pr = Some g \<and> pgrps s g \<noteq> None" "distinct (p_children pr)" "set (p_children pr) = {c. parent s c = Some p}"
  using assms unfolding family_ok_def by blast+

lemma fixjobc_ok:
  assumes fam: "family_ok s" and p: "jprocs s p = Some pr" "p_pptr pr = Some pp" and g: "pgrps s g = Some G"
  obtains s' where "fixjobc p g ent s = Done s'" "same_but_jobc s s'"
    "\<forall>x. jobc s' x = jobc s x + (if ent then 1 else -1) *
      (of_bool (x = g \<and> links s (grp s pp) g) + (\<Sum>c | parent s c = Some p. of_bool (child_qual s g c x)))"
proof -
  have "parent s p = Some pp" using p by (simp add: parent_def)
  then obtain ppr where "jprocs s pp = Some ppr" using fam unfolding family_ok_def by blast
  then obtain h H where h: "jprocs s pp = Some ppr" "p_pgrp ppr = Some h" "pgrps s h = Some H"
    using family_okD(1) [OF fam] by blast
  define q where "q = (h \<noteq> g \<and> pg_session H = pg_session G)"
  have lq: "links s (grp s pp) g \<longleftrightarrow> q" using h g by (auto simp: links_def grp_def ses_def q_def)
  obtain s1 where s1: "(if q then adjjobc g ent s else Done s) = Done s1" "same_but_jobc s s1"
    "\<And>x. jobc s1 x = jobc s x + (if ent then 1 else -1) * of_bool (x = g \<and> links s (grp s pp) g)"
  proof (cases q)
    case True
    have "pgrps s g \<noteq> None" using g by simp
    then obtain s1 where "adjjobc g ent s = Done s1" "same_but_jobc s s1"
      "\<And>x. jobc s1 x = jobc s x + (if x = g then (if ent then 1 else -1) else 0)" by (rule adjjobc_ok) blast
    then show ?thesis using True by (intro that [of s1]) (auto simp: lq)
  qed (auto simp: lq intro: that)
  note eqs = same_but_jobc_eqs [OF s1(2)]
  have cq: "child_qual s1 = child_qual s" using eqs by (auto simp: child_qual_def links_def fun_eq_iff)
  have kids: "\<forall>c \<in> set (p_children pr). \<exists>cr h. jprocs s1 c = Some cr \<and> p_pgrp cr = Some h \<and> pgrps s1 h \<noteq> None"
  proof
    fix c assume "c \<in> set (p_children pr)"
    then have "parent s c = Some p" using family_okD(3) [OF fam p(1)] by simp
    then obtain cr where "jprocs s c = Some cr" by (auto simp: parent_def bind_eq_Some_conv)
    then show "\<exists>cr h. jprocs s1 c = Some cr \<and> p_pgrp cr = Some h \<and> pgrps s1 h \<noteq> None"
      using family_okD(1) [OF fam] eqs(1,11) by fastforce
  qed
  have "ses s1 g = Some (pg_session G)" using eqs(7) g by (simp add: ses_def)
  from fixjobc_children_ok [OF kids this, of ent] obtain s' where s': "fixjobc_children (p_children pr) g (pg_session G) ent s1 = Done s'"
    "same_but_jobc s1 s'"
    "\<And>x. jobc s' x = jobc s1 x + (if ent then 1 else -1) * (\<Sum>c\<leftarrow>p_children pr. of_bool (child_qual s g c x))"
    unfolding cq by auto
  have sum: "(\<Sum>c\<leftarrow>p_children pr. f c) = (\<Sum>c | parent s c = Some p. f c)" for f :: "nat \<Rightarrow> int"
    using family_okD(2,3) [OF fam p(1)] by (simp add: sum_list_distinct_conv_sum_set)
  show thesis
  proof (rule that)
    show "fixjobc p g ent s = Done s'" using g p h s1(1) s'(1) by (simp add: fixjobc_def get_pgrp_def q_def)
    show "same_but_jobc s s'" by (rule same_but_jobc_trans [OF s1(2) s'(2)])
    show "\<forall>x. jobc s' x = jobc s x + (if ent then 1 else -1) *
      (of_bool (x = g \<and> links s (grp s pp) g) + (\<Sum>c | parent s c = Some p. of_bool (child_qual s g c x)))"
      unfolding s'(3) s1(3) sum by (simp add: algebra_simps)
  qed
qed

section \<open>The invariant\<close>

text \<open>
  The tables: every group is on its hash chain, has exactly the processes that point to it as
  members, and numbers are unique; a session counts its groups; a session leader is the leader of
  its group.  The groups in \<open>e\<close> may be empty.
\<close>

definition table_ok :: "addr set \<Rightarrow> jsys \<Rightarrow> bool" where
  "table_ok e s \<longleftrightarrow>
     finite (dom (pgrps s)) \<and>
     (\<forall>g G. pgrps s g = Some G \<longrightarrow> distinct (pg_mem G) \<and> set (pg_mem G) = {p. grp s p = Some g} \<and>
        (pg_mem G = [] \<longrightarrow> g \<in> e) \<and> sessions s (pg_session G) \<noteq> None) \<and>
     (\<forall>h. distinct (pgrphash s h) \<and> set (pgrphash s h) = {g. \<exists>G. pgrps s g = Some G \<and> PIDHASH (pg_id G) = h}) \<and>
     (\<forall>g g' G G'. pgrps s g = Some G \<longrightarrow> pgrps s g' = Some G' \<longrightarrow> pg_id G = pg_id G' \<longrightarrow> g = g') \<and>
     (\<forall>a se. sessions s a = Some se \<longrightarrow> s_count se = int (card {g. ses s g = Some a}) \<and> (\<exists>g. ses s g = Some a) \<and>
        (\<forall>t. s_ttyp se = Some t \<longrightarrow> jttys s t \<noteq> None))"

definition leader_ok :: "jsys \<Rightarrow> bool" where
  "leader_ok s \<longleftrightarrow> (\<forall>p pr g G se. jprocs s p = Some pr \<longrightarrow> p_pgrp pr = Some g \<longrightarrow> pgrps s g = Some G \<longrightarrow>
     sessions s (pg_session G) = Some se \<longrightarrow> s_leader se = Some p \<longrightarrow> pg_id G = p_pid pr)"

text \<open>A group's count is the number of members whose parent is in another group of the session.\<close>

definition jobc_ok :: "jsys \<Rightarrow> bool" where
  "jobc_ok s \<longleftrightarrow> (\<forall>x. pgrps s x \<noteq> None \<longrightarrow> jobc s x = (\<Sum>q \<in> dom (jprocs s). of_bool (qual s q x)))"

definition pg_inv :: "jsys \<Rightarrow> bool" where
  "pg_inv s \<longleftrightarrow> family_ok s \<and> table_ok {} s \<and> leader_ok s \<and> jobc_ok s"

lemma table_okD:
  assumes "table_ok e s"
  shows "finite (dom (pgrps s))"
    "pgrps s g = Some G \<Longrightarrow> distinct (pg_mem G) \<and> set (pg_mem G) = {p. grp s p = Some g}"
    "pgrps s g = Some G \<Longrightarrow> pg_mem G = [] \<Longrightarrow> g \<in> e"
    "pgrps s g = Some G \<Longrightarrow> sessions s (pg_session G) \<noteq> None"
    "distinct (pgrphash s h)" "set (pgrphash s h) = {g. \<exists>G. pgrps s g = Some G \<and> PIDHASH (pg_id G) = h}"
    "pgrps s g = Some G \<Longrightarrow> pgrps s g' = Some G' \<Longrightarrow> pg_id G = pg_id G' \<Longrightarrow> g = g'"
    "sessions s a = Some se \<Longrightarrow> s_count se = int (card {g. ses s g = Some a})"
    "sessions s a = Some se \<Longrightarrow> \<exists>g. ses s g = Some a"
    "sessions s a = Some se \<Longrightarrow> s_ttyp se = Some t \<Longrightarrow> jttys s t \<noteq> None"
  using assms unfolding table_ok_def by blast+

lemma same_but_jobc_keeps:
  assumes same: "same_but_jobc s s'"
  shows "table_ok e s \<Longrightarrow> table_ok e s'" "family_ok s \<Longrightarrow> family_ok s'" "leader_ok s \<Longrightarrow> leader_ok s'"
proof -
  note eqs = same_but_jobc_eqs [OF same]
  have get: "\<exists>G0. pgrps s g = Some G0 \<and> pg_mem G = pg_mem G0 \<and> pg_session G = pg_session G0 \<and> pg_id G = pg_id G0"
    if "pgrps s' g = Some G" for g G
    using that eqs(12) [of g] by (cases "pgrps s g") auto
  have put: "\<exists>G. pgrps s' g = Some G \<and> pg_id G = pg_id G0" if "pgrps s g = Some G0" for g G0
    using that eqs(12) [of g] by simp
  have dm: "dom (pgrps s') = dom (pgrps s)" using eqs(11) by (simp add: dom_def)
  have hash: "{g. \<exists>G. pgrps s' g = Some G \<and> PIDHASH (pg_id G) = h} = {g. \<exists>G. pgrps s g = Some G \<and> PIDHASH (pg_id G) = h}" for h
    using get put by fastforce
  show "table_ok e s'" if "table_ok e s"
    unfolding table_ok_def eqs(2,3,5,7,8) dm hash
  proof (intro conjI allI impI)
    fix g G assume "pgrps s' g = Some G"
    then obtain G0 where G0: "pgrps s g = Some G0" "pg_mem G = pg_mem G0" "pg_session G = pg_session G0" using get by blast
    then show "distinct (pg_mem G)" "set (pg_mem G) = {p. grp s p = Some g}"
      "sessions s (pg_session G) \<noteq> None" "pg_mem G = [] \<Longrightarrow> g \<in> e"
      using table_okD(2,3,4) [OF that G0(1)] by simp_all
  next
    fix g g' G G' assume "pgrps s' g = Some G" "pgrps s' g' = Some G'" "pg_id G = pg_id G'"
    then show "g = g'" using get [of g G] get [of g' G'] table_okD(7) [OF that] by auto
  qed (use that in \<open>auto simp: table_ok_def\<close>)
  show "family_ok s'" if "family_ok s" using that unfolding family_ok_def eqs(1,9,11) .
  show "leader_ok s'" if "leader_ok s" using that get unfolding leader_ok_def eqs(1,2) by metis
qed

text \<open>The state in which \<open>p\<close> is a member of \<open>g\<close> instead of \<open>old\<close>, before an empty \<open>old\<close> is deleted.\<close>

definition moved :: "nat \<Rightarrow> addr \<Rightarrow> addr \<Rightarrow> jsys \<Rightarrow> jsys" where
  "moved p old g s = linkpgrp p g (upd_pgrp old (\<lambda>G. G\<lparr>pg_mem := remove1 p (pg_mem G)\<rparr>) s)"

lemma unlink_link:
  assumes "grp s p = Some old" "pgrps s old = Some O1" "p \<in> set (pg_mem O1)" "old \<noteq> g"
  shows "kmap (linkpgrp p g) (unlinkpgrp msg p s) =
    (if remove1 p (pg_mem O1) = [] then pgdelete old (moved p old g s) else Done (moved p old g s))"
proof (cases "remove1 p (pg_mem O1) = []")
  case True
  obtain pr where pr: "jprocs s p = Some pr" "p_pgrp pr = Some old" using assms(1) by (auto simp: grp_def bind_eq_Some_conv)
  show ?thesis
  proof (cases "Option.bind (sessions s (pg_session O1)) s_ttyp")
    case None
    then show ?thesis using assms pr True
      by (auto simp: unlinkpgrp_def get_pgrp_def pgdelete_def moved_def linkpgrp_def upd_pgrp_def upd_proc_def deref_def Let_def
          fun_upd_twist split: option.splits)
  next
    case (Some t)
    then show ?thesis using assms pr True
      by (auto simp: unlinkpgrp_def get_pgrp_def pgdelete_def moved_def linkpgrp_def upd_pgrp_def upd_proc_def deref_def Let_def
          fun_upd_twist bind_eq_Some_conv split: option.splits)
  qed
next
  case False
  then show ?thesis using assms
    by (auto simp: unlinkpgrp_def get_pgrp_def moved_def grp_def bind_eq_Some_conv Let_def)
qed

lemma moved_eqs:
  assumes "grp s p = Some old" "pgrps s old = Some O1" "pgrps s g = Some G" "old \<noteq> g"
  shows "pgrps (moved p old g s) = (pgrps s)(old \<mapsto> O1\<lparr>pg_mem := remove1 p (pg_mem O1)\<rparr>, g \<mapsto> G\<lparr>pg_mem := p # pg_mem G\<rparr>)"
    "grp (moved p old g s) = (grp s)(p := Some g)" "parent (moved p old g s) = parent s" "live (moved p old g s) = live s"
    "ses (moved p old g s) = ses s" "dom (jprocs (moved p old g s)) = dom (jprocs s)" "jobc (moved p old g s) = jobc s"
    "sessions (moved p old g s) = sessions s" "jttys (moved p old g s) = jttys s" "pgrphash (moved p old g s) = pgrphash s"
  using assms
  by (auto simp: moved_def linkpgrp_def upd_pgrp_def upd_proc_def grp_def parent_def live_def ses_def jobc_def fun_eq_iff
      bind_eq_Some_conv split: option.splits)

lemma moved_table:
  assumes tab: "table_ok {g} s" and p: "grp s p = Some old" and old: "pgrps s old = Some O1" and g: "pgrps s g = Some G" and ne: "old \<noteq> g"
  shows "table_ok {old} (moved p old g s)"
proof -
  note eqs = moved_eqs [OF p old g ne]
  have memO: "distinct (pg_mem O1)" "set (pg_mem O1) = {p. grp s p = Some old}" and memG: "distinct (pg_mem G)" "set (pg_mem G) = {p. grp s p = Some g}"
    using table_okD(2) [OF tab old] table_okD(2) [OF tab g] by auto
  have get: "\<exists>X0. pgrps s x = Some X0 \<and> pg_session X = pg_session X0 \<and> pg_id X = pg_id X0"
    if "pgrps (moved p old g s) x = Some X" for x X
    using that old g unfolding eqs(1) by (auto split: if_splits)
  have hash: "{g'. \<exists>G'. pgrps (moved p old g s) g' = Some G' \<and> PIDHASH (pg_id G') = h} = {g. \<exists>G. pgrps s g = Some G \<and> PIDHASH (pg_id G) = h}" for h
    using old g unfolding eqs(1) by auto
  show ?thesis
    unfolding table_ok_def hash
  proof (intro conjI allI impI)
    show "finite (dom (pgrps (moved p old g s)))" using table_okD(1) [OF tab] by (simp add: eqs(1))
  next
    fix x X assume x: "pgrps (moved p old g s) x = Some X"
    have "distinct (pg_mem X) \<and> set (pg_mem X) = {q. ((grp s)(p := Some g)) q = Some x} \<and> (pg_mem X = [] \<longrightarrow> x = old)"
    proof -
      consider "x = g" | "x = old" | "x \<noteq> g" "x \<noteq> old" by blast
      then show ?thesis
      proof cases
        case 1
        then have "X = G\<lparr>pg_mem := p # pg_mem G\<rparr>" using x unfolding eqs(1) by simp
        moreover have "p \<notin> set (pg_mem G)" unfolding memG(2) using p ne by simp
        moreover have "{q. ((grp s)(p := Some g)) q = Some g} = insert p {q. grp s q = Some g}" by auto
        ultimately show ?thesis using memG 1 by simp
      next
        case 2
        then have "X = O1\<lparr>pg_mem := remove1 p (pg_mem O1)\<rparr>" using x ne unfolding eqs(1) by simp
        moreover have "{q. ((grp s)(p := Some g)) q = Some old} = {q. grp s q = Some old} - {p}" using ne by auto
        ultimately show ?thesis using memO 2 by simp
      next
        case 3
        then have X: "pgrps s x = Some X" using x unfolding eqs(1) by simp
        then show ?thesis using table_okD(2,3) [OF tab X] 3 p by auto
      qed
    qed
    then show "distinct (pg_mem X)" "set (pg_mem X) = {q. grp (moved p old g s) q = Some x}" "pg_mem X = [] \<Longrightarrow> x \<in> {old}"
      unfolding eqs(2) by auto
    show "sessions (moved p old g s) (pg_session X) \<noteq> None"
      using get [OF x] table_okD(4) [OF tab] unfolding eqs(8) by metis
  next
    fix x x' X X' assume "pgrps (moved p old g s) x = Some X" "pgrps (moved p old g s) x' = Some X'" "pg_id X = pg_id X'"
    then show "x = x'" using get [of x X] get [of x' X'] table_okD(7) [OF tab, of x _ x'] by (metis (no_types))
  qed (use table_okD(5,6,8,9,10) [OF tab] in \<open>auto simp: eqs\<close>)
qed

text \<open>Deleting an empty group.\<close>

lemma pgdelete_ok:
  assumes tab: "table_ok {old} s" and old: "pgrps s old = Some O1" and emp: "pg_mem O1 = []"
  obtains s' where "pgdelete old s = Done s'" "table_ok {} s'" "jprocs s' = jprocs s" "pgrps s' = (pgrps s)(old := None)"
    "\<forall>a se. sessions s' a = Some se \<longrightarrow> (\<exists>se0. sessions s a = Some se0 \<and> s_leader se = s_leader se0)"
    "pidhash s' = pidhash s" "curproc s' = curproc s"
proof -
  let ?a = "pg_session O1" and ?h = "PIDHASH (pg_id O1)"
  obtain se where se: "sessions s ?a = Some se" using table_okD(4) [OF tab old] by blast
  have on: "old \<in> set (pgrphash s ?h)" using table_okD(6) [OF tab] old by auto
  define n where "n = s_count se - 1"
  define s' where "s' = (\<lambda>jt. s\<lparr>pgrphash := (pgrphash s)(?h := remove1 old (pgrphash s ?h)),
    sessions := (sessions s)(?a := if n = 0 then None else Some (se\<lparr>s_count := n\<rparr>)), pgrps := (pgrps s)(old := None), jttys := jt\<rparr>)"
  have "\<exists>jt. pgdelete old s = Done (s' jt) \<and> (\<forall>t. jttys s t \<noteq> None \<longrightarrow> jt t \<noteq> None)"
  proof (cases "s_ttyp se")
    case None
    then show ?thesis using old se on by (intro exI [of _ "jttys s"]) (simp add: pgdelete_def s'_def n_def Let_def)
  next
    case (Some t)
    then obtain T where T: "jttys s t = Some T" using table_okD(10) [OF tab se] by blast
    show ?thesis using old se on T Some
      by (intro exI [of _ "if t_pgrp T = Some old then (jttys s)(t \<mapsto> T\<lparr>t_pgrp := None\<rparr>) else jttys s"])
        (simp add: pgdelete_def s'_def n_def Let_def)
  qed
  then obtain jt where jt: "pgdelete old s = Done (s' jt)" "\<forall>t. jttys s t \<noteq> None \<longrightarrow> jt t \<noteq> None" by blast
  have eqs: "grp (s' jt) = grp s" "pgrps (s' jt) = (pgrps s)(old := None)" "ses (s' jt) = (ses s)(old := None)"
    "jttys (s' jt) = jt" "pgrphash (s' jt) = (pgrphash s)(?h := remove1 old (pgrphash s ?h))"
    "sessions (s' jt) = (sessions s)(?a := if n = 0 then None else Some (se\<lparr>s_count := n\<rparr>))"
    by (auto simp: s'_def grp_def ses_def fun_eq_iff)
  have fin: "finite {g. ses s g = Some a}" for a
    using table_okD(1) [OF tab] by (rule rev_finite_subset) (auto simp: ses_def)
  have oldin: "old \<in> {g. ses s g = Some ?a}" using old by (simp add: ses_def)
  have cnt: "s_count se = int (card {g. ses s g = Some ?a})" by (rule table_okD(8) [OF tab se])
  have rest: "{g. ((ses s)(old := None)) g = Some a} = {g. ses s g = Some a} - {old}" for a by auto
  have ncard: "n = int (card ({g. ses s g = Some ?a} - {old}))"
  proof -
    have "0 < card {g. ses s g = Some ?a}" using oldin fin by (auto simp: card_gt_0_iff)
    then show ?thesis using oldin fin by (simp add: n_def cnt of_nat_diff)
  qed
  have other: "a \<noteq> ?a \<Longrightarrow> {g. ses s g = Some a} - {old} = {g. ses s g = Some a}" for a using old by (auto simp: ses_def)
  have "table_ok {} (s' jt)"
    unfolding table_ok_def
  proof (intro conjI allI impI)
    show "finite (dom (pgrps (s' jt)))" using table_okD(1) [OF tab] by (simp add: eqs)
  next
    fix g G assume "pgrps (s' jt) g = Some G"
    then have g: "pgrps s g = Some G" "g \<noteq> old" by (auto simp: eqs split: if_splits)
    show "distinct (pg_mem G)" "set (pg_mem G) = {p. grp (s' jt) p = Some g}" "pg_mem G = [] \<Longrightarrow> g \<in> {}"
      using table_okD(2,3) [OF tab g(1)] g(2) by (auto simp: eqs)
    have "n \<noteq> 0" if "pg_session G = ?a"
    proof -
      have "g \<in> {g. ses s g = Some ?a} - {old}" using g that by (simp add: ses_def)
      then show ?thesis using fin unfolding ncard by (metis card_gt_0_iff empty_iff finite_Diff of_nat_0_eq_iff not_gr_zero)
    qed
    then show "sessions (s' jt) (pg_session G) \<noteq> None" using table_okD(4) [OF tab g(1)] by (auto simp: eqs)
  next
    fix h
    show "distinct (pgrphash (s' jt) h)" using table_okD(5) [OF tab] by (simp add: eqs)
    show "set (pgrphash (s' jt) h) = {g. \<exists>G. pgrps (s' jt) g = Some G \<and> PIDHASH (pg_id G) = h}"
      using table_okD(5,6) [OF tab] old by (auto simp: eqs split: if_splits)
  next
    fix g g' G G' assume "pgrps (s' jt) g = Some G" "pgrps (s' jt) g' = Some G'" "pg_id G = pg_id G'"
    then show "g = g'" using table_okD(7) [OF tab, of g G g' G'] by (auto simp: eqs split: if_splits)
  next
    fix a s1 assume a: "sessions (s' jt) a = Some s1"
    show "s_count s1 = int (card {g. ses (s' jt) g = Some a})" "\<exists>g. ses (s' jt) g = Some a"
    proof -
      have "s_count s1 = int (card {g. ses (s' jt) g = Some a}) \<and> (\<exists>g. ses (s' jt) g = Some a)"
      proof (cases "a = ?a")
        case True
        then have "n \<noteq> 0" "s_count s1 = n" using a by (auto simp: eqs split: if_splits)
        moreover from this(1) have "card ({g. ses s g = Some ?a} - {old}) \<noteq> 0" using ncard by simp
        then have "{g. ses s g = Some ?a} - {old} \<noteq> {}" by (metis card.empty)
        then obtain g where "g \<in> {g. ses s g = Some ?a} - {old}" by blast
        ultimately show ?thesis using True ncard unfolding eqs(3) rest by auto
      next
        case False
        then have "sessions s a = Some s1" using a by (simp add: eqs)
        moreover from this obtain g where "ses s g = Some a" using table_okD(9) [OF tab] by blast
        moreover from this have "g \<noteq> old" using False old by (auto simp: ses_def)
        ultimately show ?thesis using table_okD(8) [OF tab] other [OF False] unfolding eqs(3) rest by auto
      qed
      then show "s_count s1 = int (card {g. ses (s' jt) g = Some a})" "\<exists>g. ses (s' jt) g = Some a" by auto
    qed
  next
    fix a s1 t assume "sessions (s' jt) a = Some s1" "s_ttyp s1 = Some t"
    then obtain s0 where "sessions s a = Some s0" "s_ttyp s0 = Some t" using se by (auto simp: eqs split: if_splits)
    then show "jttys (s' jt) t \<noteq> None" using jt(2) table_okD(10) [OF tab] unfolding eqs(4) by blast
  qed
  then show thesis using jt(1) se by (intro that [of "s' jt"]) (auto simp: s'_def split: if_splits)
qed

text \<open>What the two adjustments add up to is what the move changes.\<close>

lemma qual_moved:
  assumes fam: "family_ok s" and live: "live s p" and pp: "parent s p = Some pp" and old: "grp s p = Some old"
    and eqs: "grp s' = (grp s)(p := Some g)" "parent s' = parent s" "live s' = live s"
    and ses: "\<And>q h. grp s' q = Some h \<Longrightarrow> ses s' h = ses s h" and x: "ses s' x = ses s x"
  shows "(of_bool (qual s' q x) :: int) = of_bool (qual s q x) +
    ((if q = p then of_bool (x = g \<and> links s (grp s pp) g) - of_bool (x = old \<and> links s (grp s pp) old) else 0) +
     (if parent s q = Some p then of_bool (child_qual s g q x) - of_bool (child_qual s old q x) else 0))"
proof -
  have ne: "parent s c \<noteq> Some c" for c using fam unfolding family_ok_def by blast
  have lk: "links s' (grp s' r) x = links s (grp s' r) x" for r
    using ses x by (auto simp: links_def)
  have q': "qual s' q x \<longleftrightarrow> live s q \<and> grp s' q = Some x \<and> (\<exists>r. parent s q = Some r \<and> links s (grp s' r) x)"
    by (simp add: qual_def eqs(2,3) lk)
  consider "q = p" | "q \<noteq> p" "parent s q = Some p" | "q \<noteq> p" "parent s q \<noteq> Some p" by blast
  then show ?thesis
  proof cases
    case 1
    have "pp \<noteq> p" using pp ne by blast
    have "parent s p \<noteq> Some p" by (rule ne)
    moreover have "qual s' q x \<longleftrightarrow> x = g \<and> links s (grp s pp) g" "qual s q x \<longleftrightarrow> x = old \<and> links s (grp s pp) old"
      using 1 live pp \<open>pp \<noteq> p\<close> old unfolding q' by (auto simp: qual_def eqs(1))
    ultimately show ?thesis using 1 by simp
  next
    case 2
    have "qual s' q x \<longleftrightarrow> child_qual s g q x" "qual s q x \<longleftrightarrow> child_qual s old q x"
      using 2 old unfolding q' by (auto simp: qual_def eqs(1) child_qual_def)
    then show ?thesis using 2 by simp
  next
    case 3
    have "qual s' q x \<longleftrightarrow> qual s q x" using 3 unfolding q' by (cases "parent s q") (simp_all add: qual_def eqs(1))
    then show ?thesis using 3 by simp
  qed
qed

lemma sum_qual_moved:
  assumes fam: "family_ok s" and live: "live s p" and pp: "parent s p = Some pp" and old: "grp s p = Some old"
    and eqs: "grp s' = (grp s)(p := Some g)" "parent s' = parent s" "live s' = live s" "dom (jprocs s') = dom (jprocs s)"
    and ses: "\<And>q h. grp s' q = Some h \<Longrightarrow> ses s' h = ses s h" and x: "ses s' x = ses s x"
  shows "(\<Sum>q \<in> dom (jprocs s'). of_bool (qual s' q x) :: int) = (\<Sum>q \<in> dom (jprocs s). of_bool (qual s q x)) +
    (of_bool (x = g \<and> links s (grp s pp) g) + (\<Sum>c | parent s c = Some p. of_bool (child_qual s g c x))) -
    (of_bool (x = old \<and> links s (grp s pp) old) + (\<Sum>c | parent s c = Some p. of_bool (child_qual s old c x)))"
proof -
  have fin: "finite (dom (jprocs s))" using fam by (simp add: family_ok_def)
  have pin: "p \<in> dom (jprocs s)" using live by (auto simp: live_def)
  have kids: "{c \<in> dom (jprocs s). parent s c = Some p} = {c. parent s c = Some p}"
    by (auto simp: parent_def bind_eq_Some_conv)
  have one: "(\<Sum>q \<in> dom (jprocs s). if q = p then d else 0) = d" for d :: int using fin pin by simp
  have many: "(\<Sum>q \<in> dom (jprocs s). if parent s q = Some p then f q else 0) = (\<Sum>c | parent s c = Some p. f c)" for f :: "nat \<Rightarrow> int"
    using sum.inter_filter [OF fin, of f "\<lambda>c. parent s c = Some p"] unfolding kids by simp
  have "(\<Sum>q \<in> dom (jprocs s). of_bool (qual s' q x) :: int) = (\<Sum>q \<in> dom (jprocs s). of_bool (qual s q x) +
    ((if q = p then of_bool (x = g \<and> links s (grp s pp) g) - of_bool (x = old \<and> links s (grp s pp) old) else 0) +
     (if parent s q = Some p then of_bool (child_qual s g q x) - of_bool (child_qual s old q x) else 0)))"
    by (rule sum.cong [OF refl]) (rule qual_moved [OF fam live pp old eqs(1-3) ses x])
  then show ?thesis unfolding eqs(4) sum.distrib one many sum_subtractf by linarith
qed

lemma family_frame:
  assumes fam: "family_ok s" and par: "parent s' = parent s" and dom: "dom (jprocs s') = dom (jprocs s)"
    and kids: "\<And>q qr q0. jprocs s' q = Some qr \<Longrightarrow> jprocs s q = Some q0 \<Longrightarrow> p_children qr = p_children q0"
    and pg: "\<And>q qr. jprocs s' q = Some qr \<Longrightarrow> \<exists>g. p_pgrp qr = Some g \<and> pgrps s' g \<noteq> None"
  shows "family_ok s'"
  unfolding family_ok_def par
proof (intro conjI allI impI)
  show "finite (dom (jprocs s'))" using fam dom by (simp add: family_ok_def)
next
  fix q qr assume q: "jprocs s' q = Some qr"
  then obtain q0 where q0: "jprocs s q = Some q0" using dom by blast
  show "distinct (p_children qr)" "set (p_children qr) = {c. parent s c = Some q}"
    using family_okD(2,3) [OF fam q0] kids [OF q q0] by simp_all
  show "\<exists>g. p_pgrp qr = Some g \<and> pgrps s' g \<noteq> None" by (rule pg [OF q])
next
  fix c q assume "parent s c = Some q"
  then show "jprocs s' q \<noteq> None" "q \<noteq> c" using fam dom unfolding family_ok_def by blast+
qed

text \<open>
  The second half of \<open>enterpgrp\<close>: the process ends up in the group, the invariant holds, and no
  other process changes its group.
\<close>

lemma movepgrp_ok:
  assumes fam: "family_ok s" and tab: "table_ok {g} s" and lead: "leader_ok s" and job: "jobc_ok s"
    and p: "jprocs s p = Some pr" and live: "p_stat pr \<noteq> SZOMB" and pp: "p_pptr pr = Some pp"
    and old: "p_pgrp pr = Some old" and ne: "old \<noteq> g" and g: "pgrps s g = Some G"
    and ld: "\<And>se. sessions s (pg_session G) = Some se \<Longrightarrow> s_leader se = Some p \<Longrightarrow> pg_id G = p_pid pr"
  obtains s' where "movepgrp p g s = Done s'" "pg_inv s'" "jprocs s' = (jprocs s)(p \<mapsto> pr\<lparr>p_pgrp := Some g\<rparr>)"
    "ses s' g = Some (pg_session G)" "\<exists>G'. pgrps s' g = Some G' \<and> pg_id G' = pg_id G"
    "pidhash s' = pidhash s" "curproc s' = curproc s"
    "\<exists>se se0. sessions s' (pg_session G) = Some se \<and> sessions s (pg_session G) = Some se0 \<and> s_leader se = s_leader se0"
    "\<forall>h H. pgrps s' h = Some H \<longrightarrow> (\<exists>H0. pgrps s h = Some H0 \<and> pg_id H = pg_id H0 \<and> pg_session H = pg_session H0)"
proof -
  obtain O1 where O1: "pgrps s old = Some O1" using family_okD(1) [OF fam p] old by auto
  have gp: "grp s p = Some old" "parent s p = Some pp" "live s p" using p old pp live by (auto simp: grp_def parent_def live_def)
  obtain s1 where s1: "fixjobc p g True s = Done s1" "same_but_jobc s s1"
    "\<forall>x. jobc s1 x = jobc s x + (if True then 1 else -1) *
      (of_bool (x = g \<and> links s (grp s pp) g) + (\<Sum>c | parent s c = Some p. of_bool (child_qual s g c x)))"
    by (rule fixjobc_ok [OF fam p pp g])
  note eq1 = same_but_jobc_eqs [OF s1(2)] and kp1 = same_but_jobc_keeps [OF s1(2)]
  have l1: "links s1 = links s" "child_qual s1 = child_qual s" using eq1 by (auto simp: links_def child_qual_def fun_eq_iff)
  obtain O2 where O2: "pgrps s1 old = Some O2" using eq1(11) [of old] O1 by auto
  have p1: "jprocs s1 p = Some pr" by (simp add: eq1(1) p)
  obtain s2 where s2: "fixjobc p old False s1 = Done s2" "same_but_jobc s1 s2"
    "\<forall>x. jobc s2 x = jobc s1 x + (if False then 1 else -1) *
      (of_bool (x = old \<and> links s1 (grp s1 pp) old) + (\<Sum>c | parent s1 c = Some p. of_bool (child_qual s1 old c x)))"
    by (rule fixjobc_ok [OF kp1(2) [OF fam] p1 pp O2])
  have s02: "same_but_jobc s s2" by (rule same_but_jobc_trans [OF s1(2) s2(2)])
  note eq2 = same_but_jobc_eqs [OF s02] and kp2 = same_but_jobc_keeps [OF s02]
  have job2: "jobc s2 x = jobc s x +
     (of_bool (x = g \<and> links s (grp s pp) g) + (\<Sum>c | parent s c = Some p. of_bool (child_qual s g c x))) -
     (of_bool (x = old \<and> links s (grp s pp) old) + (\<Sum>c | parent s c = Some p. of_bool (child_qual s old c x)))" for x
    using s1(3) s2(3) unfolding l1 eq1(8,9) by simp
  obtain O3 where O3: "pgrps s2 old = Some O3" using eq2(11) [of old] O1 by auto
  obtain G3 where G3: "pgrps s2 g = Some G3" "pg_session G3 = pg_session G" "pg_id G3 = pg_id G" using eq2(12) [of g] g by auto
  have gp2: "grp s2 p = Some old" by (simp add: eq2(8) gp)
  have tab2: "table_ok {g} s2" by (rule kp2(1) [OF tab])
  have pin: "p \<in> set (pg_mem O3)" using table_okD(2) [OF tab2 O3] gp2 by simp
  note mv = moved_eqs [OF gp2 O3 G3(1) ne]
  define m where "m = moved p old g s2"
  have tabm: "table_ok {old} m" unfolding m_def by (rule moved_table [OF tab2 gp2 O3 G3(1) ne])
  have jpm: "jprocs m = (jprocs s)(p \<mapsto> pr\<lparr>p_pgrp := Some g\<rparr>)"
    using p by (simp add: m_def moved_def linkpgrp_def upd_pgrp_def upd_proc_def eq2(1))
  have restm: "pidhash m = pidhash s" "curproc m = curproc s" by (simp_all add: m_def moved_def linkpgrp_def upd_pgrp_def upd_proc_def eq2)
  have mold: "pgrps m old = Some (O3\<lparr>pg_mem := remove1 p (pg_mem O3)\<rparr>)" "pgrps m g = Some (G3\<lparr>pg_mem := p # pg_mem G3\<rparr>)"
    using ne by (simp_all add: m_def mv(1))
  obtain s' where s': "kmap (linkpgrp p g) (unlinkpgrp ''enterpgrp: can't find p on old pgrp'' p s2) = Done s'" "table_ok {} s'"
    "jprocs s' = jprocs m" "pgrps s' = pgrps m \<or> pgrps s' = (pgrps m)(old := None) \<and> remove1 p (pg_mem O3) = []"
    "\<forall>a se. sessions s' a = Some se \<longrightarrow> (\<exists>se0. sessions m a = Some se0 \<and> s_leader se = s_leader se0)"
    "pidhash s' = pidhash m" "curproc s' = curproc m"
  proof (cases "remove1 p (pg_mem O3) = []")
    case True
    then have "pg_mem (O3\<lparr>pg_mem := remove1 p (pg_mem O3)\<rparr>) = []" by simp
    note pd = pgdelete_ok [OF tabm mold(1) this]
    obtain s' where "pgdelete old m = Done s'" "table_ok {} s'"
      "jprocs s' = jprocs m" "pgrps s' = (pgrps m)(old := None)"
      "\<forall>a se. sessions s' a = Some se \<longrightarrow> (\<exists>se0. sessions m a = Some se0 \<and> s_leader se = s_leader se0)"
      "pidhash s' = pidhash m" "curproc s' = curproc m" by (rule pd)
    then show ?thesis using unlink_link [OF gp2 O3 pin ne] True by (intro that [of s']) (auto simp: m_def)
  next
    case False
    then have "table_ok {} m" using tabm mold(1) unfolding table_ok_def by (auto split: if_splits)
    then show ?thesis using unlink_link [OF gp2 O3 pin ne] False by (intro that [of m]) (auto simp: m_def)
  qed
  have sesm: "ses m = ses s" and jobm: "jobc m = jobc s2" and sem: "sessions m = sessions s"
    by (simp_all add: m_def mv eq2)
  have grp': "grp s' = (grp s)(p := Some g)" and par': "parent s' = parent s" and live': "live s' = live s"
    and dom': "dom (jprocs s') = dom (jprocs s)"
    using p by (auto simp: s'(3) jpm grp_def parent_def live_def fun_eq_iff)
  have gs': "pgrps s' g = pgrps m g" using s'(4) ne by auto
  have kept: "pgrps s' h \<noteq> None" if qh: "q \<noteq> p" "grp s q = Some h" for q h
  proof -
    obtain qr where "jprocs s q = Some qr" "p_pgrp qr = Some h" using qh(2) by (auto simp: grp_def bind_eq_Some_conv)
    then have "pgrps s h \<noteq> None" using family_okD(1) [OF fam] by fastforce
    then have hm: "pgrps m h \<noteq> None" using eq2(11) [of h] by (auto simp: m_def mv(1))
    have "q \<in> set (remove1 p (pg_mem O3))" if ho: "h = old"
      using table_okD(2) [OF tab2 O3] qh ho by (simp add: eq2(8))
    then show ?thesis using s'(4) hm by (cases "h = old") auto
  qed
  have sess: "ses s' h = ses s h" if ph: "pgrps s' h \<noteq> None" for h
    using s'(4) ph sesm by (metis fun_upd_apply ses_def)
  have fam': "family_ok s'"
  proof (rule family_frame [OF fam par' dom'])
    fix q qr assume q: "jprocs s' q = Some qr"
    show "p_children qr = p_children q0" if "jprocs s q = Some q0" for q0
      using q that p by (auto simp: s'(3) jpm split: if_splits)
    show "\<exists>h. p_pgrp qr = Some h \<and> pgrps s' h \<noteq> None"
    proof (cases "q = p")
      case False
      then have qs: "jprocs s q = Some qr" using q by (simp add: s'(3) jpm)
      then obtain h where "p_pgrp qr = Some h" using family_okD(1) [OF fam] by blast
      then show ?thesis using kept [OF False, of h] qs by (simp add: grp_def)
    qed (use q gs' mold(2) in \<open>auto simp: s'(3) jpm\<close>)
  qed
  have grpses: "ses s' h = ses s h" if gh: "grp s' q = Some h" for q h
    by (rule sess) (use gh kept [of q h] gs' mold(2) in \<open>auto simp: grp' split: if_splits\<close>)
  have "jobc_ok s'" unfolding jobc_ok_def
  proof (intro allI impI)
    fix x assume x: "pgrps s' x \<noteq> None"
    have jx: "jobc s' x = jobc s2 x"
      using s'(4) x jobm by (metis fun_upd_apply jobc_def)
    have "ses s x \<noteq> None" using sess [OF x] x by (cases "pgrps s x") (auto simp: ses_def)
    then have "jobc s x = (\<Sum>q \<in> dom (jprocs s). of_bool (qual s q x))" using job by (simp add: jobc_ok_def ses_def)
    moreover have "(\<Sum>q \<in> dom (jprocs s'). of_bool (qual s' q x) :: int) = (\<Sum>q \<in> dom (jprocs s). of_bool (qual s q x)) +
      (of_bool (x = g \<and> links s (grp s pp) g) + (\<Sum>c | parent s c = Some p. of_bool (child_qual s g c x))) -
      (of_bool (x = old \<and> links s (grp s pp) old) + (\<Sum>c | parent s c = Some p. of_bool (child_qual s old c x)))"
      by (rule sum_qual_moved [OF fam gp(3,2,1) grp' par' live' dom' grpses sess [OF x]])
    ultimately show "jobc s' x = (\<Sum>q \<in> dom (jprocs s'). of_bool (qual s' q x))"
      unfolding jx job2 by linarith
  qed
  moreover have same: "\<exists>H0. pgrps s h = Some H0 \<and> pg_id H = pg_id H0 \<and> pg_session H = pg_session H0" if hH: "pgrps s' h = Some H" for h H
  proof -
    have "pgrps m h = Some H" using hH s'(4) by (auto split: if_splits)
    then obtain H0 where H0: "pgrps s2 h = Some H0" "pg_session H0 = pg_session H" "pg_id H0 = pg_id H"
      using O3 G3(1) by (auto simp: m_def mv(1) split: if_splits)
    then show ?thesis using eq2(12) [of h] by auto
  qed
  have "leader_ok s'" unfolding leader_ok_def
  proof (intro allI impI)
    fix q qr h H se assume a: "jprocs s' q = Some qr" "p_pgrp qr = Some h" "pgrps s' h = Some H"
      "sessions s' (pg_session H) = Some se" "s_leader se = Some q"
    obtain se0 where se0: "sessions s (pg_session H) = Some se0" "s_leader se0 = Some q" using s'(5) a(4,5) sem by metis
    show "pg_id H = p_pid qr"
    proof (cases "q = p")
      case True
      then have "h = g" "p_pid qr = p_pid pr" using a(1,2) by (auto simp: s'(3) jpm)
      moreover from this have "pg_session H = pg_session G" "pg_id H = pg_id G" using a(3) gs' mold(2) G3 by auto
      ultimately show ?thesis using ld se0 True by auto
    next
      case False
      have q: "jprocs s q = Some qr" using a(1) False by (simp add: s'(3) jpm)
      from same [OF a(3)] show ?thesis using lead q a(2) se0 unfolding leader_ok_def by metis
    qed
  qed
  ultimately have inv: "pg_inv s'" using fam' s'(2) by (simp add: pg_inv_def)
  have "movepgrp p g s = Done s'"
    using s1(1) s2(1) s'(1) p1 old O2 by (simp add: movepgrp_def get_pgrp_def)
  moreover have "\<exists>G'. pgrps s' g = Some G' \<and> pg_id G' = pg_id G \<and> pg_session G' = pg_session G" using gs' mold(2) G3 by simp
  then obtain G' where G': "pgrps s' g = Some G'" "pg_id G' = pg_id G" "pg_session G' = pg_session G" by blast
  moreover obtain se where se: "sessions s' (pg_session G) = Some se" using table_okD(4) [OF s'(2) G'(1)] G'(3) by auto
  ultimately show thesis using inv s'(3,6,7) jpm restm s'(5) sem same
    by (intro that [of s']) (auto simp: ses_def)
qed

section \<open>Entering a group\<close>

lemma find_NoneD: "find P xs = None \<Longrightarrow> x \<in> set xs \<Longrightarrow> \<not> P x"
  by (auto simp: find_None_iff)

lemma pgfind_cases:
  assumes tab: "table_ok e s"
  shows "pgfind pgid s = None \<Longrightarrow> pgrps s g = Some G \<Longrightarrow> pg_id G \<noteq> pgid"
    "pgfind pgid s = Some g \<Longrightarrow> \<exists>G. pgrps s g = Some G \<and> pg_id G = pgid"
  using table_okD(6) [OF tab] unfolding pgfind_def
  by (auto dest!: find_NoneD [of _ _ g]) (auto simp: find_Some_iff)

lemma newpgrp_ok:
  assumes fam: "family_ok s" and tab: "table_ok {} s" and lead: "leader_ok s" and job: "jobc_ok s"
    and ng: "pgrps s ng = None" and ns: "mksess \<longrightarrow> sessions s ns = None" and nid: "pgfind pgid s = None"
    and p: "jprocs s p = Some pr" "p_pid pr = pgid" "p_pgrp pr = Some old" and se: "get_session p s = Done (a, se)"
    and ms: "mksess \<longrightarrow> p = curproc s"
  obtains s1 where "newpgrp ng ns p pgid mksess s = Done s1" "family_ok s1" "table_ok {ng} s1" "leader_ok s1" "jobc_ok s1"
    "pgrps s1 = (pgrps s)(ng \<mapsto> \<lparr>pg_mem = [], pg_session = (if mksess then ns else a), pg_id = pgid, pg_jobc = 0\<rparr>)"
    "jprocs s1 = (jprocs s)(p \<mapsto> (if mksess then pr\<lparr>p_sctty := False\<rparr> else pr))" "pidhash s1 = pidhash s" "curproc s1 = curproc s"
    "sessions s1 (if mksess then ns else a) = Some (if mksess
       then \<lparr>s_count = 1, s_leader = Some p, s_ttyvp = None, s_ttyp = None, s_login = s_login se\<rparr> else se\<lparr>s_count := s_count se + 1\<rparr>)"
proof -
  let ?a = "if mksess then ns else a"
  let ?N = "\<lparr>pg_mem = [], pg_session = ?a, pg_id = pgid, pg_jobc = 0\<rparr>"
  define ss where "ss = (if mksess then (sessions s)(ns \<mapsto> \<lparr>s_count = 1, s_leader = Some p, s_ttyvp = None, s_ttyp = None, s_login = s_login se\<rparr>)
    else (sessions s)(a \<mapsto> se\<lparr>s_count := s_count se + 1\<rparr>))"
  define s1 where "s1 = s\<lparr>jprocs := (jprocs s)(p \<mapsto> (if mksess then pr\<lparr>p_sctty := False\<rparr> else pr)), sessions := ss,
    pgrps := (pgrps s)(ng \<mapsto> ?N), pgrphash := (pgrphash s)(PIDHASH pgid := ng # pgrphash s (PIDHASH pgid))\<rparr>"
  obtain O1 where O1: "pgrps s old = Some O1" "pg_session O1 = a" and sea: "sessions s a = Some se"
    using se p by (auto simp: get_session_def get_pgrp_def kbind_Done_iff kmap_Done_iff deref_Done_iff)
  have new: "newpgrp ng ns p pgid mksess s = Done s1"
    using p se sea ms by (auto simp: newpgrp_def s1_def ss_def upd_proc_def upd_sess_def Let_def fun_upd_idem)
  have eqs: "grp s1 = grp s" "parent s1 = parent s" "live s1 = live s" "dom (jprocs s1) = dom (jprocs s)"
    "ses s1 = (ses s)(ng := Some ?a)" "jobc s1 = (jobc s)(ng := 0)"
    using p by (auto simp: s1_def grp_def parent_def live_def ses_def jobc_def fun_eq_iff)
  have nogrp: "grp s q \<noteq> Some ng" for q
  proof
    assume "grp s q = Some ng"
    then obtain qr where "jprocs s q = Some qr" "p_pgrp qr = Some ng" by (auto simp: grp_def bind_eq_Some_conv)
    then show False using family_okD(1) [OF fam] ng by fastforce
  qed
  have pgs: "pgrps s1 h \<noteq> None" if "grp s q = Some h" for q h
  proof -
    from that obtain qr where "jprocs s q = Some qr" "p_pgrp qr = Some h" by (auto simp: grp_def bind_eq_Some_conv)
    then show ?thesis using family_okD(1) [OF fam] by (fastforce simp: s1_def)
  qed
  have fam1: "family_ok s1"
  proof (rule family_frame [OF fam eqs(2,4)])
    fix q qr assume q: "jprocs s1 q = Some qr"
    show "p_children qr = p_children q0" if "jprocs s q = Some q0" for q0
      using q that p by (auto simp: s1_def split: if_splits)
    from q obtain q0 where "jprocs s q = Some q0" "p_pgrp qr = p_pgrp q0" using p by (auto simp: s1_def split: if_splits)
    moreover from this obtain h where "p_pgrp q0 = Some h" using family_okD(1) [OF fam] by blast
    ultimately show "\<exists>g. p_pgrp qr = Some g \<and> pgrps s1 g \<noteq> None" using pgs [of q h] by (simp add: grp_def)
  qed
  have job1: "jobc_ok s1" unfolding jobc_ok_def
  proof (intro allI impI)
    fix x assume x: "pgrps s1 x \<noteq> None"
    have q: "qual s1 q x = (x \<noteq> ng \<and> qual s q x)" for q
    proof (cases "x = ng")
      case True
      then show ?thesis using nogrp [of q] by (simp add: qual_def eqs)
    next
      case False
      then have "links s1 (grp s r) x = links s (grp s r) x" for r
        using nogrp [of r] by (cases "grp s r") (auto simp: links_def eqs)
      then show ?thesis using False by (simp add: qual_def eqs)
    qed
    show "jobc s1 x = (\<Sum>q \<in> dom (jprocs s1). of_bool (qual s1 q x))"
      using x job by (auto simp: eqs q jobc_ok_def) (auto simp: s1_def)
  qed
  have nsno: "pg_session H \<noteq> ns" if "mksess" "pgrps s h = Some H" for h H using table_okD(4) [OF tab that(2)] ns that(1) by auto
  have lead1: "leader_ok s1" unfolding leader_ok_def
  proof (intro allI impI)
    fix q qr h H s2 assume q: "jprocs s1 q = Some qr" "p_pgrp qr = Some h" "pgrps s1 h = Some H"
      "sessions s1 (pg_session H) = Some s2" "s_leader s2 = Some q"
    obtain q0 where q0: "jprocs s q = Some q0" "p_pgrp q0 = Some h" "p_pid q0 = p_pid qr"
      using q(1,2) p by (auto simp: s1_def split: if_splits)
    then have "h \<noteq> ng" using nogrp [of q] by (auto simp: grp_def)
    then have H: "pgrps s h = Some H" using q(3) by (simp add: s1_def)
    then obtain s3 where "sessions s (pg_session H) = Some s3" "s_leader s3 = Some q"
      using q(4,5) nsno [OF _ H] sea by (auto simp: s1_def ss_def split: if_splits)
    then show "pg_id H = p_pid qr" using lead q0 H unfolding leader_ok_def by metis
  qed
  have nss: "{g. ((ses s)(ng := Some ?a)) g = Some b} = (if b = ?a then insert ng else id) {g. ses s g = Some b}" for b
    using ng by (auto simp: ses_def)
  have fin: "finite {g. ses s g = Some b}" for b
    using table_okD(1) [OF tab] by (rule rev_finite_subset) (auto simp: ses_def)
  have ngn: "ng \<notin> {g. ses s g = Some b}" for b using ng by (simp add: ses_def)
  have nsempty: "mksess \<Longrightarrow> {g. ses s g = Some ns} = {}" using nsno by (auto simp: ses_def)
  have tab1: "table_ok {ng} s1"
    unfolding table_ok_def
  proof (intro conjI allI impI)
    show "finite (dom (pgrps s1))" using table_okD(1) [OF tab] by (simp add: s1_def)
  next
    fix g G assume "pgrps s1 g = Some G"
    then have g: "g = ng \<and> G = ?N \<or> g \<noteq> ng \<and> pgrps s g = Some G" by (auto simp: s1_def split: if_splits)
    show "distinct (pg_mem G)" "set (pg_mem G) = {p. grp s1 p = Some g}" "pg_mem G = [] \<Longrightarrow> g \<in> {ng}"
      using g nogrp table_okD(2,3) [OF tab, of g G] by (auto simp: eqs(1))
    show "sessions s1 (pg_session G) \<noteq> None" using g table_okD(4) [OF tab, of g G] by (auto simp: s1_def ss_def)
  next
    fix h
    have nh: "ng \<notin> set (pgrphash s h)" using table_okD(6) [OF tab] ng by simp
    show "distinct (pgrphash s1 h)" using table_okD(5) [OF tab] nh by (auto simp: s1_def)
    show "set (pgrphash s1 h) = {g. \<exists>G. pgrps s1 g = Some G \<and> PIDHASH (pg_id G) = h}"
      using table_okD(6) [OF tab] ng by (auto simp: s1_def split: if_splits)
  next
    fix g g' G G' assume "pgrps s1 g = Some G" "pgrps s1 g' = Some G'" "pg_id G = pg_id G'"
    then show "g = g'" using table_okD(7) [OF tab, of g G g' G'] pgfind_cases(1) [OF tab nid, of g G] pgfind_cases(1) [OF tab nid, of g' G']
      by (auto simp: s1_def split: if_splits)
  next
    fix b s2 assume b: "sessions s1 b = Some s2"
    show "s_count s2 = int (card {g. ses s1 g = Some b})" "\<exists>g. ses s1 g = Some b"
    proof -
      have "s_count s2 = int (card {g. ses s1 g = Some b}) \<and> {g. ses s1 g = Some b} \<noteq> {}"
      proof (cases "b = ?a")
        case True
        then show ?thesis using b fin ngn nsempty table_okD(8) [OF tab sea]
          unfolding eqs(5) nss by (auto simp: s1_def ss_def split: if_splits)
      next
        case False
        then have "sessions s b = Some s2" using b by (auto simp: s1_def ss_def split: if_splits)
        then show ?thesis using table_okD(8,9) [OF tab] False unfolding eqs(5) nss by auto
      qed
      then show "s_count s2 = int (card {g. ses s1 g = Some b})" "\<exists>g. ses s1 g = Some b" by auto
    qed
  next
    fix b s2 t assume "sessions s1 b = Some s2" "s_ttyp s2 = Some t"
    then obtain s3 c where "sessions s c = Some s3" "s_ttyp s3 = Some t" using sea by (auto simp: s1_def ss_def split: if_splits)
    then show "jttys s1 t \<noteq> None" using table_okD(10) [OF tab] by (auto simp: s1_def)
  qed
  show thesis by (rule that [OF new fam1 tab1 lead1 job1]) (auto simp: s1_def ss_def)
qed

text \<open>Process numbers are unique, and a group that bears the number of a process is in its session.\<close>

definition sess_of :: "jsys \<Rightarrow> nat \<Rightarrow> addr option" where
  "sess_of s p = Option.bind (grp s p) (ses s)"

definition pid_ok :: "jsys \<Rightarrow> bool" where
  "pid_ok s \<longleftrightarrow>
     (\<forall>p q pr qr. jprocs s p = Some pr \<longrightarrow> jprocs s q = Some qr \<longrightarrow> p_pid pr = p_pid qr \<longrightarrow> p = q) \<and>
     (\<forall>p pr g G. jprocs s p = Some pr \<longrightarrow> pgrps s g = Some G \<longrightarrow> pg_id G = p_pid pr \<longrightarrow> sess_of s p = Some (pg_session G))"

definition job_inv :: "jsys \<Rightarrow> bool" where
  "job_inv s \<longleftrightarrow> pg_inv s \<and> pid_ok s"

lemma get_session_of:
  assumes "pg_inv s" "jprocs s p = Some pr"
  obtains g G se where "p_pgrp pr = Some g" "pgrps s g = Some G" "get_session p s = Done (pg_session G, se)"
    "sessions s (pg_session G) = Some se" "sess_of s p = Some (pg_session G)" "get_pgrp p s = Done (g, G)"
proof -
  have fam: "family_ok s" and tab: "table_ok {} s" using assms(1) by (simp_all add: pg_inv_def)
  obtain g G where g: "p_pgrp pr = Some g" "pgrps s g = Some G" using family_okD(1) [OF fam assms(2)] by blast
  obtain se where "sessions s (pg_session G) = Some se" using table_okD(4) [OF tab g(2)] by blast
  with g assms(2) show thesis
    by (intro that [OF g]) (simp_all add: get_session_def get_pgrp_def sess_of_def grp_def ses_def)
qed

lemma movepgrp_job:
  assumes s: "pid_ok s0" "\<And>q qr. jprocs s q = Some qr \<Longrightarrow> \<exists>q0. jprocs s0 q = Some q0 \<and> p_pid q0 = p_pid qr"
      "\<And>q. q \<noteq> p \<Longrightarrow> grp s q = grp s0 q"
      "\<And>h H. pgrps s h = Some H \<Longrightarrow> h = g \<or> pgrps s0 h = Some H" "pgrps s g = Some G"
      "pgrps s0 g = Some G \<or> pg_id G = pid \<and> (\<forall>q. grp s0 q \<noteq> Some g)"
    and pid: "jprocs s p = Some pr" "p_pid pr = pid"
    and own: "\<And>h H. h \<noteq> g \<Longrightarrow> pgrps s0 h = Some H \<Longrightarrow> pg_id H = pid \<Longrightarrow> pg_session H = pg_session G"
    and inv: "pg_inv s'" "jprocs s' = (jprocs s)(p \<mapsto> pr\<lparr>p_pgrp := Some g\<rparr>)" "ses s' g = Some (pg_session G)"
      "\<forall>h H. pgrps s' h = Some H \<longrightarrow> (\<exists>H0. pgrps s h = Some H0 \<and> pg_id H = pg_id H0 \<and> pg_session H = pg_session H0)"
  shows "pid_ok s' \<and> sess_of s' p = Some (pg_session G) \<and> (\<forall>q. q \<noteq> p \<longrightarrow> sess_of s' q = sess_of s0 q)"
proof -
  have sp: "sess_of s' p = Some (pg_session G)" using inv(2,3) by (simp add: sess_of_def grp_def)
  have same: "sess_of s' q = sess_of s0 q" if "q \<noteq> p" for q
  proof (cases "grp s q")
    case None
    then show ?thesis using s(3) [OF that] inv(2) that by (simp add: sess_of_def grp_def)
  next
    case (Some h)
    then have gq: "grp s' q = Some h" using inv(2) that by (simp add: grp_def)
    then obtain qr where "jprocs s' q = Some qr" "p_pgrp qr = Some h" by (auto simp: grp_def bind_eq_Some_conv)
    moreover have "family_ok s'" using inv(1) by (simp add: pg_inv_def)
    ultimately obtain H where H: "pgrps s' h = Some H" using family_okD(1) by fastforce
    then obtain H0 where H0: "pgrps s h = Some H0" "pg_session H = pg_session H0" using inv(4) by blast
    have "pgrps s0 h = Some H0" using s(4) [OF H0(1)] s(5,6) H0(1) s(3) [OF that] Some by auto
    then show ?thesis using gq H H0(2) Some s(3) [OF that] by (simp add: sess_of_def ses_def)
  qed
  have get: "\<exists>q0. jprocs s0 q = Some q0 \<and> p_pid q0 = p_pid qr" if "jprocs s' q = Some qr" for q qr
    using that s(2) pid(1) inv(2) by (auto split: if_splits)
  have "pid_ok s'" unfolding pid_ok_def
  proof (intro conjI allI impI)
    fix q r qr rr assume "jprocs s' q = Some qr" "jprocs s' r = Some rr" "p_pid qr = p_pid rr"
    then show "q = r" using get [of q qr] get [of r rr] s(1) unfolding pid_ok_def by metis
  next
    fix q qr h H assume a: "jprocs s' q = Some qr" "pgrps s' h = Some H" "pg_id H = p_pid qr"
    obtain H0 where H0: "pgrps s h = Some H0" "pg_id H = pg_id H0" "pg_session H = pg_session H0" using inv(4) a(2) by blast
    obtain q0 where q0: "jprocs s0 q = Some q0" "p_pid q0 = p_pid qr" using get [OF a(1)] by blast
    show "sess_of s' q = Some (pg_session H)"
    proof (cases "q = p")
      case True
      then have "p_pid qr = pid" using a(1) inv(2) pid by auto
      then show ?thesis using s(4) [OF H0(1)] s(5) own [of h H0] H0 a(3) sp True by (cases "h = g") auto
    next
      case False
      obtain p0 where p0: "jprocs s0 p = Some p0" "p_pid p0 = pid" using s(2) [OF pid(1)] pid(2) by auto
      have "p_pid qr \<noteq> pid" using False q0 p0 s(1) unfolding pid_ok_def by metis
      then have "pgrps s0 h = Some H0" using s(4) [OF H0(1)] s(5,6) H0 a(3) by auto
      then have "sess_of s0 q = Some (pg_session H0)" using s(1) q0 H0(2) a(3) unfolding pid_ok_def by metis
      then show ?thesis using same [OF False] H0(3) by simp
    qed
  qed
  then show ?thesis using sp same by blast
qed

text \<open>What entering a group does to the rest of the system.\<close>

definition entered :: "nat \<Rightarrow> int \<Rightarrow> jsys \<Rightarrow> jsys \<Rightarrow> bool" where
  "entered p pgid s s' \<longleftrightarrow> job_inv s' \<and> getpgrp p s' = Done pgid \<and>
     (\<forall>q. q \<noteq> p \<longrightarrow> jprocs s' q = jprocs s q \<and> sess_of s' q = sess_of s q) \<and>
     parent s' = parent s \<and> live s' = live s \<and> (\<forall>q. map_option p_pid (jprocs s' q) = map_option p_pid (jprocs s q)) \<and>
     pidhash s' = pidhash s \<and> curproc s' = curproc s"

lemma enteredI:
  assumes "pg_inv s'" "pid_ok s'" "jprocs s' p = Some pr" "p_pgrp pr = Some g" "\<exists>G. pgrps s' g = Some G \<and> pg_id G = pgid"
    "\<forall>q. q \<noteq> p \<longrightarrow> jprocs s' q = jprocs s q" "\<forall>q. q \<noteq> p \<longrightarrow> sess_of s' q = sess_of s q"
    "jprocs s p = Some po" "p_pptr pr = p_pptr po" "p_stat pr = p_stat po" "p_pid pr = p_pid po"
    "pidhash s' = pidhash s" "curproc s' = curproc s"
  shows "entered p pgid s s'"
proof -
  have "parent s' q = parent s q \<and> (live s' q \<longleftrightarrow> live s q) \<and> map_option p_pid (jprocs s' q) = map_option p_pid (jprocs s q)" for q
    using assms(3,6,8-11) by (cases "q = p") (auto simp: parent_def live_def)
  then show ?thesis using assms by (auto simp: entered_def job_inv_def getpgrp_def get_pgrp_def fun_eq_iff)
qed

lemma SESS_LEADER_iff:
  assumes "get_session p s = Done (a, se)"
  shows "SESS_LEADER p s = Done (s_leader se = Some p)"
  using assms by (simp add: SESS_LEADER_def)

lemma enter_old:
  assumes inv: "job_inv s" and p: "jprocs s p = Some pr" "p_stat pr \<noteq> SZOMB" "p_pptr pr = Some pp"
    and f: "pgfind pgid s = Some g" and ld: "SESS_LEADER p s = Done False" and ses: "ses s g = sess_of s p"
  obtains s' where "enterpgrp ng ns p pgid False s = Done s'" "entered p pgid s s'" "sess_of s' p = sess_of s p"
proof -
  have pi: "pg_inv s" "pid_ok s" and parts: "family_ok s" "table_ok {} s" "leader_ok s" "jobc_ok s"
    using inv by (simp_all add: job_inv_def pg_inv_def)
  obtain old O1 se where o: "p_pgrp pr = Some old" "pgrps s old = Some O1" "get_session p s = Done (pg_session O1, se)"
    "sessions s (pg_session O1) = Some se" "sess_of s p = Some (pg_session O1)" by (rule get_session_of [OF pi(1) p(1)])
  obtain G where G: "pgrps s g = Some G" "pg_id G = pgid" using pgfind_cases(2) [OF parts(2) f] by blast
  have GO: "pg_session G = pg_session O1" using ses o(5) G(1) by (simp add: ses_def)
  have nl: "s_leader se \<noteq> Some p" using ld SESS_LEADER_iff [OF o(3)] by simp
  show thesis
  proof (cases "old = g")
    case True
    then show thesis using f ld p(1) o(1,2) G pi
      by (intro that [of s]) (auto simp: enterpgrp_def intro!: enteredI)
  next
    case False
    have tab: "table_ok {g} s" using parts(2) unfolding table_ok_def by auto
    have lg: "pg_id G = p_pid pr" if "sessions s (pg_session G) = Some se'" "s_leader se' = Some p" for se'
      using that o(4) GO nl by simp
    obtain s' where m: "movepgrp p g s = Done s'" "pg_inv s'" "jprocs s' = (jprocs s)(p \<mapsto> pr\<lparr>p_pgrp := Some g\<rparr>)"
      "ses s' g = Some (pg_session G)" "\<exists>G'. pgrps s' g = Some G' \<and> pg_id G' = pg_id G"
      "pidhash s' = pidhash s" "curproc s' = curproc s"
      "\<exists>se se0. sessions s' (pg_session G) = Some se \<and> sessions s (pg_session G) = Some se0 \<and> s_leader se = s_leader se0"
      "\<forall>h H. pgrps s' h = Some H \<longrightarrow> (\<exists>H0. pgrps s h = Some H0 \<and> pg_id H = pg_id H0 \<and> pg_session H = pg_session H0)"
      by (rule movepgrp_ok [OF parts(1) tab parts(3,4) p(1,2,3) o(1) False G(1) lg])
    have ow: "pg_session H = pg_session G" if "h \<noteq> g" "pgrps s h = Some H" "pg_id H = p_pid pr" for h H
      using pi(2) p(1) that o(5) GO unfolding pid_ok_def by (metis option.inject)
    have "pid_ok s' \<and> sess_of s' p = Some (pg_session G) \<and> (\<forall>q. q \<noteq> p \<longrightarrow> sess_of s' q = sess_of s q)"
      by (rule movepgrp_job [OF pi(2) _ _ _ G(1) _ p(1) refl ow m(2,3,4,9)]) (use G in auto)
    moreover have "enterpgrp ng ns p pgid False s = Done s'" using f ld p(1) o(1) False m(1) by (simp add: enterpgrp_def)
    ultimately show thesis using m(2,3,5,6,7) G(2) o(5) GO p(1)
      by (intro that [of s']) (auto intro!: enteredI [where po = pr])
  qed
qed

lemma enter_new:
  assumes inv: "job_inv s" and p: "jprocs s p = Some pr" "p_stat pr \<noteq> SZOMB" "p_pptr pr = Some pp"
    and f: "pgfind (p_pid pr) s = None" and ld: "SESS_LEADER p s = Done False" and new: "pgrps s ng = None" "mksess \<longrightarrow> sessions s ns = None"
    and ms: "mksess \<longrightarrow> p = curproc s"
  obtains s' where "enterpgrp ng ns p (p_pid pr) mksess s = Done s'" "entered p (p_pid pr) s s'"
    "sess_of s' p = (if mksess then Some ns else sess_of s p)"
    "mksess \<longrightarrow> SESS_LEADER p s' = Done True \<and> (\<exists>pr'. jprocs s' p = Some pr' \<and> \<not> p_sctty pr')"
proof -
  have pi: "pg_inv s" "pid_ok s" and parts: "family_ok s" "table_ok {} s" "leader_ok s" "jobc_ok s"
    using inv by (simp_all add: job_inv_def pg_inv_def)
  obtain old O1 se where o: "p_pgrp pr = Some old" "pgrps s old = Some O1" "get_session p s = Done (pg_session O1, se)"
    "sessions s (pg_session O1) = Some se" "sess_of s p = Some (pg_session O1)" by (rule get_session_of [OF pi(1) p(1)])
  let ?a = "if mksess then ns else pg_session O1"
  let ?N = "\<lparr>pg_mem = [], pg_session = ?a, pg_id = p_pid pr, pg_jobc = 0\<rparr>" and ?pr = "if mksess then pr\<lparr>p_sctty := False\<rparr> else pr"
  obtain s1 where n: "newpgrp ng ns p (p_pid pr) mksess s = Done s1" "family_ok s1" "table_ok {ng} s1" "leader_ok s1" "jobc_ok s1"
    "pgrps s1 = (pgrps s)(ng \<mapsto> ?N)" "jprocs s1 = (jprocs s)(p \<mapsto> ?pr)" "pidhash s1 = pidhash s" "curproc s1 = curproc s"
    "sessions s1 ?a = Some (if mksess
       then \<lparr>s_count = 1, s_leader = Some p, s_ttyvp = None, s_ttyp = None, s_login = s_login se\<rparr> else se\<lparr>s_count := s_count se + 1\<rparr>)"
    by (rule newpgrp_ok [OF parts new f p(1) refl o(1,3) ms])
  have p1: "jprocs s1 p = Some ?pr" "p_stat ?pr \<noteq> SZOMB" "p_pptr ?pr = Some pp" "p_pgrp ?pr = Some old" "p_pid ?pr = p_pid pr"
    using n(7) p o(1) by auto
  have no: "old \<noteq> ng" using o(2) new(1) by auto
  have N: "pgrps s1 ng = Some ?N" by (simp add: n(6))
  have lg: "pg_id ?N = p_pid ?pr" if "sessions s1 (pg_session ?N) = Some se'" "s_leader se' = Some p" for se' by (simp add: p1)
  obtain s' where m: "movepgrp p ng s1 = Done s'" "pg_inv s'" "jprocs s' = (jprocs s1)(p \<mapsto> ?pr\<lparr>p_pgrp := Some ng\<rparr>)"
    "ses s' ng = Some (pg_session ?N)" "\<exists>G'. pgrps s' ng = Some G' \<and> pg_id G' = pg_id ?N"
    "pidhash s' = pidhash s1" "curproc s' = curproc s1"
    "\<exists>se se0. sessions s' (pg_session ?N) = Some se \<and> sessions s1 (pg_session ?N) = Some se0 \<and> s_leader se = s_leader se0"
    "\<forall>h H. pgrps s' h = Some H \<longrightarrow> (\<exists>H0. pgrps s1 h = Some H0 \<and> pg_id H = pg_id H0 \<and> pg_session H = pg_session H0)"
    by (rule movepgrp_ok [OF n(2-5) p1(1-4) no N lg])
  have nog: "grp s q \<noteq> Some ng" for q
  proof
    assume "grp s q = Some ng"
    then obtain qr where "jprocs s q = Some qr" "p_pgrp qr = Some ng" by (auto simp: grp_def bind_eq_Some_conv)
    then show False using family_okD(1) [OF parts(1)] new(1) by fastforce
  qed
  have ow: "pg_session H = pg_session ?N" if "h \<noteq> ng" "pgrps s h = Some H" "pg_id H = p_pid pr" for h H
    using pgfind_cases(1) [OF parts(2) f that(2)] that(3) by simp
  have "pid_ok s' \<and> sess_of s' p = Some (pg_session ?N) \<and> (\<forall>q. q \<noteq> p \<longrightarrow> sess_of s' q = sess_of s q)"
    by (rule movepgrp_job [OF pi(2) _ _ _ N _ p1(1,5) ow m(2,3,4,9)])
      (use n(6,7) p(1) nog in \<open>auto simp: grp_def split: if_splits\<close>)
  moreover have "enterpgrp ng ns p (p_pid pr) mksess s = Done s'"
    using f ld n(1) m(1) by (simp add: enterpgrp_def)
  moreover have "entered p (p_pid pr) s s'"
    using calculation(1) m(2,3,5,6,7) n(7-9) p(1)
    by (intro enteredI [where pr = "?pr\<lparr>p_pgrp := Some ng\<rparr>" and g = ng and po = pr]) auto
  moreover have "SESS_LEADER p s' = Done True" if mksess
    using m(3,4,8) n(10) that by (auto simp: SESS_LEADER_def get_session_def get_pgrp_def ses_def)
  ultimately show thesis using o(5) m(3) by (intro that [of s']) auto
qed

section \<open>The system calls\<close>

text \<open>Every process but number 0 has a parent, and the chain of parents ends.\<close>

definition rooted :: "jsys \<Rightarrow> bool" where
  "rooted s \<longleftrightarrow> (\<exists>d :: nat \<Rightarrow> nat. \<forall>p pp. parent s p = Some pp \<longrightarrow> d pp < d p) \<and>
     (\<forall>p pr. jprocs s p = Some pr \<longrightarrow> p_pid pr \<noteq> 0 \<longrightarrow> parent s p \<noteq> None)"

text \<open>The hash chains of process numbers hold the processes that are not zombies.\<close>

definition hash_ok :: "jsys \<Rightarrow> bool" where
  "hash_ok s \<longleftrightarrow> (\<forall>h. distinct (pidhash s h) \<and>
     set (pidhash s h) = {p. live s p \<and> map_option (\<lambda>pr. PIDHASH (p_pid pr)) (jprocs s p) = Some h})"

definition sys_ok :: "jsys \<Rightarrow> bool" where
  "sys_ok s \<longleftrightarrow> job_inv s \<and> rooted s \<and> hash_ok s"

lemma hash_okD:
  assumes "hash_ok s"
  shows "distinct (pidhash s h)" "p \<in> set (pidhash s h) \<longleftrightarrow> live s p \<and> map_option (\<lambda>pr. PIDHASH (p_pid pr)) (jprocs s p) = Some h"
  using assms by (auto simp: hash_ok_def)

lemma inferior_total:
  assumes ok: "sys_ok s" and p: "jprocs s p \<noteq> None"
  shows "\<exists>b. inferior p s = Some (Done b) \<and> (b \<longrightarrow> p = curproc s \<or> parent s p \<noteq> None)"
proof -
  obtain d :: "nat \<Rightarrow> nat" where d: "\<And>p pp. parent s p = Some pp \<Longrightarrow> d pp < d p" using ok unfolding sys_ok_def rooted_def by blast
  show ?thesis using p
  proof (induction "d p" arbitrary: p rule: less_induct)
    case less
    then obtain pr where pr: "jprocs s p = Some pr" by blast
    show ?case
    proof (cases "p = curproc s \<or> p_pid pr = 0")
      case True
      then show ?thesis using pr by (subst inferior.simps) auto
    next
      case False
      then obtain pp where pp: "parent s p = Some pp" using ok pr unfolding sys_ok_def rooted_def by blast
      moreover from this have "jprocs s pp \<noteq> None" using ok unfolding sys_ok_def job_inv_def pg_inv_def family_ok_def by blast
      ultimately obtain b where "inferior pp s = Some (Done b)" using less.hyps [OF d] by blast
      moreover have "p_pptr pr = Some pp" using pp pr by (simp add: parent_def)
      ultimately show ?thesis using False pr pp by (subst inferior.simps) simp
    qed
  qed
qed

lemma entered_sys:
  assumes ok: "sys_ok s" and e: "entered p pgid s s'"
  shows "sys_ok s'"
proof -
  have eqs: "parent s' = parent s" "live s' = live s" "pidhash s' = pidhash s" "job_inv s'"
    and pid: "map_option p_pid (jprocs s' q) = map_option p_pid (jprocs s q)" for q
    using e by (auto simp: entered_def)
  have "\<exists>q0. jprocs s q = Some q0 \<and> p_pid q0 = p_pid qr" if "jprocs s' q = Some qr" for q qr
    using pid [of q] that by (cases "jprocs s q") auto
  then have "rooted s'" using ok unfolding sys_ok_def rooted_def eqs(1) by metis
  moreover have "map_option (\<lambda>pr. PIDHASH (p_pid pr)) (jprocs s' q) = map_option (\<lambda>pr. PIDHASH (p_pid pr)) (jprocs s q)" for q
    using arg_cong [OF pid [of q], of "map_option PIDHASH"] by (simp add: option.map_comp comp_def)
  ultimately show ?thesis using ok eqs(4) by (simp add: sys_ok_def hash_ok_def eqs(2,3))
qed

text \<open>
  C7: \<open>setpgid\<close> keeps the tables of job control right.  In a system whose process groups, hash
  chains, session counts and job control counts are right (the count of a group is the number of
  its live members whose parent is in another group of the same session), \<open>setpgid\<close> always
  returns; it either changes nothing and reports an error, or puts a process into the requested
  group, and the tables and counts are right again.  No process ever changes its session.
\<close>

theorem setpgid_job_control:
  assumes "sys_ok s" "live s (curproc s)" "parent s (curproc s) \<noteq> None" "pgrps s ng = None"
  shows "\<exists>e s'. setpgid ng (curproc s) pid pgid s = Some (Done (e, s')) \<and> sys_ok s' \<and> (e \<noteq> 0 \<longrightarrow> s' = s) \<and>
    (\<forall>q. sess_of s' q = sess_of s q) \<and>
    (e = 0 \<longrightarrow> (\<exists>t tp. getpid t s = Done tp \<and> (pid = 0 \<and> t = curproc s \<or> tp = pid) \<and>
       getpgrp t s' = Done (if pgid = 0 then tp else pgid)))"
proof -
  let ?c = "curproc s"
  have inv: "job_inv s" "pg_inv s" "pid_ok s" using assms(1) by (simp_all add: sys_ok_def job_inv_def)
  have tab: "table_ok {} s" using inv(2) by (simp add: pg_inv_def)
  obtain cr where cr: "jprocs s ?c = Some cr" using assms(2) by (auto simp: live_def)
  obtain ca cse where c: "get_session ?c s = Done (ca, cse)" "sess_of s ?c = Some ca"
    by (rule get_session_of [OF inv(2) cr]) blast
  have target: "\<exists>x. setpgid_target ?c pid s = Some (Done x) \<and>
    (\<forall>t. x = Inr t \<longrightarrow> (\<exists>tr pp. jprocs s t = Some tr \<and> p_stat tr \<noteq> SZOMB \<and> p_pptr tr = Some pp \<and>
       (pid = 0 \<and> t = ?c \<or> p_pid tr = pid) \<and> sess_of s t = sess_of s ?c)) \<and> (\<forall>e. x = Inl e \<longrightarrow> e \<noteq> 0)"
  proof (cases "pid \<noteq> 0 \<and> pid \<noteq> p_pid cr")
    case False
    then show ?thesis using cr assms(2,3) by (auto simp: setpgid_target_def live_def parent_def bind_eq_Some_conv)
  next
    case True
    show ?thesis
    proof (cases "pfind pid s")
      case None
      then show ?thesis using True cr by (simp add: setpgid_target_def ESRCH_def)
    next
      case (Some t)
      then have "t \<in> set (pidhash s (PIDHASH pid))" "map_option p_pid (jprocs s t) = Some pid"
        by (auto simp: pfind_def find_Some_iff)
      then obtain tr where tr: "jprocs s t = Some tr" "p_pid tr = pid" "p_stat tr \<noteq> SZOMB"
        using assms(1) hash_okD(2) [of s t "PIDHASH pid"] by (auto simp: sys_ok_def live_def)
      obtain b where b: "inferior t s = Some (Done b)" "b \<longrightarrow> t = ?c \<or> parent s t \<noteq> None"
        using inferior_total [OF assms(1)] tr(1) by fastforce
      have "t \<noteq> ?c" using tr cr True by auto
      obtain ta tse where t: "get_session t s = Done (ta, tse)" "sess_of s t = Some ta"
        by (rule get_session_of [OF inv(2) tr(1)]) blast
      show ?thesis using True Some cr tr b t c \<open>t \<noteq> ?c\<close>
        by (cases b) (auto simp: setpgid_target_def ESRCH_def EPERM_def EACCES_def parent_def bind_eq_Some_conv)
    qed
  qed
  then obtain x where x: "setpgid_target ?c pid s = Some (Done x)"
    "\<forall>t. x = Inr t \<longrightarrow> (\<exists>tr pp. jprocs s t = Some tr \<and> p_stat tr \<noteq> SZOMB \<and> p_pptr tr = Some pp \<and>
       (pid = 0 \<and> t = ?c \<or> p_pid tr = pid) \<and> sess_of s t = sess_of s ?c)" "\<forall>e. x = Inl e \<longrightarrow> e \<noteq> 0" by blast
  show ?thesis
  proof (cases x)
    case (Inl e)
    then show ?thesis using x assms(1) by (auto simp: setpgid_def)
  next
    case (Inr t)
    with x(2) obtain tr pp where tr: "jprocs s t = Some tr" "p_stat tr \<noteq> SZOMB" "p_pptr tr = Some pp"
      "pid = 0 \<and> t = ?c \<or> p_pid tr = pid" "sess_of s t = sess_of s ?c" by blast
    obtain ta tse where t: "get_session t s = Done (ta, tse)" by (rule get_session_of [OF inv(2) tr(1)]) blast
    note sl = SESS_LEADER_iff [OF t]
    define id where "id = (if pgid = 0 then p_pid tr else pgid)"
    define ok where "ok = (id = p_pid tr \<or> (\<exists>g. pgfind id s = Some g \<and> ses s g = sess_of s ?c))"
    have run: "setpgid ng ?c pid pgid s = Some (if s_leader tse = Some t then Done (EPERM, s) else
        if \<not> ok then Done (EPERM, s) else kmap (Pair 0) (enterpgrp ng 0 t id False s))"
      using x(1) Inr sl tr(1) c by (auto simp: setpgid_def id_def ok_def ses_def Let_def split: option.splits)
    show ?thesis
    proof (cases "s_leader tse = Some t \<or> \<not> ok")
      case True
      then show ?thesis using run assms(1) by (auto simp: EPERM_def)
    next
      case False
      have ld: "SESS_LEADER t s = Done False" using sl False by simp
      obtain s' where s': "enterpgrp ng 0 t id False s = Done s'" "entered t id s s'" "sess_of s' t = sess_of s t"
      proof (cases "pgfind id s")
        case None
        then have "id = p_pid tr" using False by (simp add: ok_def)
        with None show ?thesis using enter_new [OF inv(1) tr(1,2,3) _ ld assms(4), of False] that by auto
      next
        case (Some g)
        then obtain G where G: "pgrps s g = Some G" "pg_id G = id" using pgfind_cases(2) [OF tab] by blast
        have "ses s g = sess_of s t"
        proof (cases "id = p_pid tr")
          case True
          then have "sess_of s t = Some (pg_session G)" using inv(3) tr(1) G unfolding pid_ok_def by metis
          then show ?thesis using G by (simp add: ses_def)
        qed (use False Some tr(5) in \<open>auto simp: ok_def\<close>)
        from enter_old [OF inv(1) tr(1,2,3) Some ld this] show ?thesis using that by blast
      qed
      have "setpgid ng ?c pid pgid s = Some (Done (0, s'))" using run False s'(1) by simp
      moreover have "sess_of s' q = sess_of s q" for q using s'(2,3) by (cases "q = t") (auto simp: entered_def)
      moreover have "getpid t s = Done (p_pid tr)" using tr(1) by (simp add: getpid_def)
      moreover have "getpgrp t s' = Done (if pgid = 0 then p_pid tr else pgid)" using s'(2) by (simp add: entered_def id_def)
      ultimately show ?thesis using entered_sys [OF assms(1) s'(2)] tr(4) by blast
    qed
  qed
qed

text \<open>
  \<open>setsid\<close> makes a session of one.  It fails with \<open>EPERM\<close> exactly when the caller leads its
  process group or a group has its number; otherwise the caller becomes the leader of a new
  session that has no terminal, alone in a new group that bears its number, every other process
  keeps its session, and the tables of job control are right.
\<close>

theorem setsid_new_session:
  assumes "sys_ok s" "p = curproc s" "live s p" "parent s p \<noteq> None" "pgrps s ng = None" "sessions s ns = None"
    "getpid p s = Done pid" "getpgrp p s = Done pgid"
  shows "if pgid = pid \<or> pgfind pid s \<noteq> None then setsid ng ns p s = Done (Inl EPERM)
    else \<exists>s'. setsid ng ns p s = Done (Inr (pid, s')) \<and> sys_ok s' \<and> getpgrp p s' = Done pid \<and>
      SESS_LEADER p s' = Done True \<and> {q. sess_of s' q = sess_of s' p} = {p} \<and>
      (\<exists>pr. jprocs s' p = Some pr \<and> \<not> p_sctty pr) \<and> (\<forall>q. q \<noteq> p \<longrightarrow> sess_of s' q = sess_of s q)"
proof -
  have inv: "job_inv s" "pg_inv s" using assms(1) by (simp_all add: sys_ok_def job_inv_def)
  obtain pr pp where p: "jprocs s p = Some pr" "p_stat pr \<noteq> SZOMB" "p_pptr pr = Some pp" "p_pid pr = pid"
    using assms(3,4,7) by (auto simp: live_def parent_def getpid_def bind_eq_Some_conv)
  obtain g G se where g: "p_pgrp pr = Some g" "pgrps s g = Some G" "get_session p s = Done (pg_session G, se)"
    "sessions s (pg_session G) = Some se" "sess_of s p = Some (pg_session G)" "get_pgrp p s = Done (g, G)"
    by (rule get_session_of [OF inv(2) p(1)])
  have pgid: "pg_id G = pgid" using assms(8) g(6) by (simp add: getpgrp_def)
  show ?thesis
  proof (cases "pgid = pid \<or> pgfind pid s \<noteq> None")
    case True
    then show ?thesis using p g(6) pgid by (auto simp: setsid_def)
  next
    case False
    have "s_leader se \<noteq> Some p" using inv(2) p(1,4) g(1,2,4) pgid False unfolding pg_inv_def leader_ok_def by metis
    then have ld: "SESS_LEADER p s = Done False" by (simp add: SESS_LEADER_iff [OF g(3)])
    have f: "pgfind (p_pid pr) s = None" using False p(4) by simp
    obtain s' where s': "enterpgrp ng ns p (p_pid pr) True s = Done s'" "entered p (p_pid pr) s s'"
      "sess_of s' p = (if True then Some ns else sess_of s p)"
      "True \<longrightarrow> SESS_LEADER p s' = Done True \<and> (\<exists>pr'. jprocs s' p = Some pr' \<and> \<not> p_sctty pr')"
      using enter_new [OF inv(1) p(1-3) f ld assms(5), of True ns] assms(2,6) by blast
    have oth: "q \<noteq> p \<Longrightarrow> sess_of s' q = sess_of s q" for q using s'(2) by (simp add: entered_def)
    have "sess_of s q \<noteq> Some ns" for q
    proof
      assume "sess_of s q = Some ns"
      then obtain h H where "pgrps s h = Some H" "pg_session H = ns" by (auto simp: sess_of_def ses_def bind_eq_Some_conv)
      then show False using inv(2) assms(6) table_okD(4) unfolding pg_inv_def by metis
    qed
    then have "{q. sess_of s' q = sess_of s' p} = {p}" using oth s'(3) by (auto simp: set_eq_iff) metis
    moreover have "setsid ng ns p s = Done (Inr (pid, s'))" using p(1,4) g(6) pgid False s'(1) by (auto simp: setsid_def)
    moreover have "getpgrp p s' = Done pid" using s'(2) p(4) by (simp add: entered_def)
    ultimately show ?thesis using False s'(4) oth entered_sys [OF assms(1) s'(2)] by auto
  qed
qed

section \<open>An example system\<close>

text \<open>Process 0, its child 1, which leads the session and the only group, and its child 2.\<close>

definition jproc_demo :: "int \<Rightarrow> nat option \<Rightarrow> nat list \<Rightarrow> jproc" where
  "jproc_demo pid pp cs = \<lparr>p_pid = pid, p_pptr = pp, p_children = cs, p_pgrp = Some 100, p_stat = SRUN, p_sctty = True, p_sexec = False\<rparr>"

definition jsys_demo :: "nat \<Rightarrow> jsys" where
  "jsys_demo c = \<lparr>jprocs = [10 \<mapsto> jproc_demo 0 None [11], 11 \<mapsto> jproc_demo 1 (Some 10) [12], 12 \<mapsto> jproc_demo 2 (Some 11) []],
     pgrps = [100 \<mapsto> \<lparr>pg_mem = [12, 11, 10], pg_session = 200, pg_id = 1, pg_jobc = 0\<rparr>],
     sessions = [200 \<mapsto> \<lparr>s_count = 1, s_leader = Some 11, s_ttyvp = None, s_ttyp = None, s_login = []\<rparr>],
     jttys = Map.empty, pidhash = (\<lambda>h. if h = 0 then [10] else if h = 1 then [11] else if h = 2 then [12] else []),
     pgrphash = (\<lambda>h. if h = 1 then [100] else []), curproc = c, events = []\<rparr>"

lemma jsys_demo_views:
  "grp (jsys_demo c) p = (if p \<in> {10, 11, 12} then Some 100 else None)"
  "parent (jsys_demo c) = [11 \<mapsto> 10, 12 \<mapsto> 11]"
  "live (jsys_demo c) p \<longleftrightarrow> p \<in> {10, 11, 12}"
  "ses (jsys_demo c) = [100 \<mapsto> 200]"
  "dom (jprocs (jsys_demo c)) = {10, 11, 12}" "dom (pgrps (jsys_demo c)) = {100}"
  by (auto simp: jsys_demo_def jproc_demo_def grp_def parent_def live_def ses_def fun_eq_iff)

lemma jsys_demo_family: "family_ok (jsys_demo c)"
proof -
  have "{x. [11 \<mapsto> 10, 12 \<mapsto> 11] x = Some (10 :: nat)} = {11 :: nat}" "{x. [11 \<mapsto> 10, 12 \<mapsto> 11] x = Some (11 :: nat)} = {12 :: nat}"
    "{x. [11 \<mapsto> 10, 12 \<mapsto> 11] x = Some (12 :: nat)} = ({} :: nat set)" by (auto split: if_splits)
  then show ?thesis unfolding family_ok_def jsys_demo_views(2,5)
    by (auto simp: jsys_demo_def jproc_demo_def split: if_splits)
qed

lemma jsys_demo_table: "table_ok {} (jsys_demo c)"
  unfolding table_ok_def jsys_demo_views(1,4,6)
  by (auto simp: jsys_demo_def PIDHASH_def split: if_splits)

lemma jsys_demo_ok: "sys_ok (jsys_demo c)"
proof -
  have q: "\<not> qual (jsys_demo c) q x" for q x by (auto simp: qual_def links_def jsys_demo_views split: if_splits)
  have "jobc (jsys_demo c) x = 0" for x by (simp add: jobc_def jsys_demo_def)
  then have "jobc_ok (jsys_demo c)" by (simp add: jobc_ok_def q)
  moreover have "leader_ok (jsys_demo c)" unfolding leader_ok_def by (auto simp: jsys_demo_def jproc_demo_def split: if_splits)
  moreover have "pid_ok (jsys_demo c)"
    unfolding pid_ok_def sess_of_def jsys_demo_views(1,4) by (auto simp: jsys_demo_def jproc_demo_def split: if_splits)
  moreover have "rooted (jsys_demo c)"
    unfolding rooted_def jsys_demo_views(2)
    by (intro conjI exI [of _ "\<lambda>p. p"]) (auto simp: jsys_demo_def jproc_demo_def split: if_splits)
  moreover have "hash_ok (jsys_demo c)" unfolding hash_ok_def jsys_demo_views(3)
    by (auto simp: jsys_demo_def jproc_demo_def PIDHASH_def split: if_splits)
  ultimately show ?thesis using jsys_demo_family jsys_demo_table
    by (simp add: sys_ok_def job_inv_def pg_inv_def)
qed

theorem setpgid_job_control_witness:
  "\<exists>e s'. setpgid 101 11 2 2 (jsys_demo 11) = Some (Done (e, s')) \<and> sys_ok s'"
  using setpgid_job_control [OF jsys_demo_ok, of 11 101 2 2]
  by (auto simp: jsys_demo_views) (auto simp: jsys_demo_def)

theorem setsid_new_session_witness:
  "\<exists>s'. setsid 101 201 12 (jsys_demo 12) = Done (Inr (2, s')) \<and> SESS_LEADER 12 s' = Done True"
proof -
  have h: "12 = curproc (jsys_demo 12)" "live (jsys_demo 12) 12" "parent (jsys_demo 12) 12 \<noteq> None" "pgrps (jsys_demo 12) 101 = None"
    "sessions (jsys_demo 12) 201 = None" "getpid 12 (jsys_demo 12) = Done 2" "getpgrp 12 (jsys_demo 12) = Done 1"
    by (simp_all add: jsys_demo_views) (simp_all add: jsys_demo_def getpid_def getpgrp_def get_pgrp_def jproc_demo_def)
  have "pgfind 2 (jsys_demo 12) = None" by (simp add: pgfind_def jsys_demo_def PIDHASH_def)
  with setsid_new_session [OF jsys_demo_ok h] show ?thesis by auto
qed

end
