(* ===== verification/Resource.thy ===== *)
theory Resource
  imports Time Synch Cred Pgrp
begin

text \<open>
  Priorities, resource limits and resource usage: \<open>kern/resource.c\<close>, with the \<open>plimit\<close>
  structure of \<open>include/resourcevar.h\<close> and the limits and usage of \<open>include/sys/resource.h\<close>.

  A process points to a \<open>plimit\<close> that it may share with others; the structures are a store
  addressed by numbers, and the address \<open>MALLOC\<close> returns is an argument.  The scheduler,
  credentials and process groups are those of the theories \<open>Synch\<close>, \<open>Cred\<close> and \<open>Pgrp\<close>.  The
  calls of \<open>vmspace_protect\<close> are recorded.  A \<open>long\<close> is an integer; the sums of \<open>ruadd\<close> do
  not wrap around.
\<close>

section \<open>State\<close>

record rlimit =
  rlim_cur :: int
  rlim_max :: int

record plimit =
  pl_rlimit :: "rlimit list"
  pl_sharemod :: bool
  pl_refcnt :: int

record rusage =
  ru_utime :: timeval
  ru_stime :: timeval
  ru_maxrss :: int
  ru_counts :: "int list"

record rsys =
  r_sched :: ssys
  r_creds :: csys
  r_jobs :: jsys
  allproc :: "nat list"
  proc0 :: nat
  plimits :: "addr \<Rightarrow> plimit option"
  p_limit :: "nat \<Rightarrow> addr option"
  p_ru :: "nat \<Rightarrow> rusage"
  p_cru :: "nat \<Rightarrow> rusage"
  p_utime :: "nat \<Rightarrow> timeval"
  p_stime :: "nat \<Rightarrow> timeval"
  vm_maxsaddr :: "nat \<Rightarrow> u32"
  vm_protects :: "(nat \<times> u32 \<times> u32 \<times> bool) list"

definition PRIO_MIN :: int where "PRIO_MIN = -20"
definition PRIO_MAX :: int where "PRIO_MAX = 20"
definition PRIO_PROCESS :: int where "PRIO_PROCESS = 0"
definition PRIO_PGRP :: int where "PRIO_PGRP = 1"
definition PRIO_USER :: int where "PRIO_USER = 2"
definition RUSAGE_SELF :: int where "RUSAGE_SELF = 0"
definition RUSAGE_CHILDREN :: int where "RUSAGE_CHILDREN = -1"
definition RLIMIT_DATA :: nat where "RLIMIT_DATA = 2"
definition RLIMIT_STACK :: nat where "RLIMIT_STACK = 3"
definition RLIMIT_RSS :: nat where "RLIMIT_RSS = 5"
definition RLIMIT_NPROC :: nat where "RLIMIT_NPROC = 7"
definition RLIM_NLIMITS :: nat where "RLIM_NLIMITS = 9"
definition MAXDSIZ :: int where "MAXDSIZ = 32 * 1024 * 1024"
definition MAXSSIZ :: int where "MAXSSIZ = MAXDSIZ"

section \<open>Priorities\<close>

definition ucred_of :: "nat \<Rightarrow> rsys \<Rightarrow> ucred kres" where
  "ucred_of p s = kmap snd (get_creds p (r_creds s))"

text \<open>The processes that \<open>which\<close> and \<open>who\<close> select; \<open>None\<close> for an invalid \<open>which\<close>.\<close>

fun with_uid :: "int \<Rightarrow> nat list \<Rightarrow> rsys \<Rightarrow> nat list kres" where
  "with_uid uid [] s = Done []"
| "with_uid uid (p # ps) s =
     kbind (ucred_of p s) (\<lambda>cr. kmap (\<lambda>r. if uint (cr_uid cr) = uid then p # r else r) (with_uid uid ps s))"

definition prio_targets :: "nat \<Rightarrow> int \<Rightarrow> int \<Rightarrow> rsys \<Rightarrow> nat list option kres" where
  "prio_targets curp which who s =
     (if which = PRIO_PROCESS then
        Done (Some (if who = 0 then [curp] else case pfind who (r_jobs s) of None \<Rightarrow> [] | Some p \<Rightarrow> [p]))
      else if which = PRIO_PGRP then
        (if who = 0 then kmap (\<lambda>(g, G). Some (pg_mem G)) (get_pgrp curp (r_jobs s))
         else case pgfind who (r_jobs s) of
           None \<Rightarrow> Done (Some [])
         | Some g \<Rightarrow> kmap (\<lambda>G. Some (pg_mem G)) (deref (pgrps (r_jobs s) g)))
      else if which = PRIO_USER then
        kbind (if who = 0 then kmap (\<lambda>cr. uint (cr_uid cr)) (ucred_of curp s) else Done who)
          (\<lambda>uid. kmap Some (with_uid uid (allproc s) s))
      else Done None)"

definition nice_of :: "nat \<Rightarrow> rsys \<Rightarrow> int" where
  "nice_of p s = p_nice (procs (r_sched s) p)"

definition getpriority :: "nat \<Rightarrow> int \<Rightarrow> int \<Rightarrow> rsys \<Rightarrow> (int + int) kres" where
  "getpriority curp which who s =
     kmap (\<lambda>ts. case ts of
         None \<Rightarrow> Inl EINVAL
       | Some ps \<Rightarrow>
           let low = (if which = PRIO_PROCESS then (case ps of [] \<Rightarrow> PRIO_MAX + 1 | p # _ \<Rightarrow> nice_of p s)
                      else foldl (\<lambda>low p. if nice_of p s < low then nice_of p s else low) (PRIO_MAX + 1) ps) in
           if low = PRIO_MAX + 1 then Inl ESRCH else Inr low)
       (prio_targets curp which who s)"

definition donice :: "bool \<Rightarrow> nat \<Rightarrow> nat \<Rightarrow> int \<Rightarrow> rsys \<Rightarrow> (int \<times> rsys) kres" where
  "donice dg curp chgp n s =
     kbind (get_creds curp (r_creds s)) (\<lambda>(pc, cr).
     kbind (ucred_of chgp s) (\<lambda>chg.
       if cr_uid cr \<noteq> 0 \<and> p_ruid pc \<noteq> 0 \<and> cr_uid cr \<noteq> cr_uid chg \<and> p_ruid pc \<noteq> cr_uid chg then Done (EPERM, s)
       else
         let n' = (if n > PRIO_MAX then PRIO_MAX else if n < PRIO_MIN then PRIO_MIN else n) in
         kbind (if n' < nice_of chgp s then use_priv dg cr PRV_NICE else Done 0) (\<lambda>e.
           if e \<noteq> 0 then Done (EACCES, s)
           else Done (0, s\<lparr>r_sched := setpri chgp (pupd chgp (\<lambda>pr. pr\<lparr>p_nice := n'\<rparr>) (r_sched s))\<rparr>))))"

fun donice_all :: "bool \<Rightarrow> nat \<Rightarrow> int \<Rightarrow> nat list \<Rightarrow> rsys \<Rightarrow> rsys kres" where
  "donice_all dg curp n [] s = Done s"
| "donice_all dg curp n (p # ps) s = kbind (donice dg curp p n s) (\<lambda>(error, s'). donice_all dg curp n ps s')"

definition setpriority :: "bool \<Rightarrow> nat \<Rightarrow> int \<Rightarrow> int \<Rightarrow> int \<Rightarrow> rsys \<Rightarrow> (int \<times> rsys) kres" where
  "setpriority dg curp which who prio s =
     kbind (prio_targets curp which who s) (\<lambda>ts. case ts of
         None \<Rightarrow> Done (EINVAL, s)
       | Some ps \<Rightarrow> kmap (\<lambda>s'. (if ps = [] then ESRCH else 0, s')) (donice_all dg curp prio ps s))"

section \<open>Limits\<close>

definition limit_priv :: "cr_priv list" where
  "limit_priv = [PRV_RLIMIT_CPU, PRV_RLIMIT_FSIZE, PRV_RLIMIT_DATA, PRV_RLIMIT_STACK,
     PRV_RLIMIT_CORE, PRV_RLIMIT_RSS, PRV_RLIMIT_MEMLOCK, PRV_RLIMIT_NPROC, PRV_RLIMIT_OFILE]"

definition get_limit :: "nat \<Rightarrow> rsys \<Rightarrow> (addr \<times> plimit) kres" where
  "get_limit p s = kbind (deref (p_limit s p)) (\<lambda>a. kmap (Pair a) (deref (plimits s a)))"

definition limcopy :: "addr \<Rightarrow> plimit \<Rightarrow> rsys \<Rightarrow> rsys" where
  "limcopy new lim s = s\<lparr>plimits := (plimits s)(new \<mapsto> \<lparr>pl_rlimit = pl_rlimit lim, pl_sharemod = False, pl_refcnt = 1\<rparr>)\<rparr>"

text \<open>Unsharing: the reference is dropped and the process points to a copy.\<close>

definition unshare_limit :: "addr \<Rightarrow> nat \<Rightarrow> rsys \<Rightarrow> rsys kres" where
  "unshare_limit new p s =
     kmap (\<lambda>(a, lim).
       if 1 < pl_refcnt lim \<and> \<not> pl_sharemod lim
       then let s1 = s\<lparr>plimits := (plimits s)(a \<mapsto> lim\<lparr>pl_refcnt := pl_refcnt lim - 1\<rparr>)\<rparr> in
            (limcopy new lim s1)\<lparr>p_limit := (p_limit s)(p \<mapsto> new)\<rparr>
       else s) (get_limit p s)"

definition clamp :: "int \<Rightarrow> rlimit \<Rightarrow> rlimit" where
  "clamp m l = \<lparr>rlim_cur = min (rlim_cur l) m, rlim_max = min (rlim_max l) m\<rparr>"

text \<open>The \<open>switch\<close> on the kind of limit; \<open>old\<close> is the entry before the call.\<close>

definition limit_effect :: "nat \<Rightarrow> nat \<Rightarrow> rlimit \<Rightarrow> rlimit \<Rightarrow> rsys \<Rightarrow> rlimit \<times> rsys" where
  "limit_effect p which old alim s =
     (if which = RLIMIT_RSS then
        let l = clamp (ru_maxrss (p_ru s (proc0 s))) alim in
        (l, s\<lparr>p_ru := (p_ru s)(p := (p_ru s p)\<lparr>ru_maxrss := rlim_cur l\<rparr>)\<rparr>)
      else if which = RLIMIT_DATA then (clamp MAXDSIZ alim, s)
      else if which = RLIMIT_STACK then
        let l = clamp MAXDSIZ alim; top = vm_maxsaddr s p + word_of_int MAXSSIZ in
        (l, if rlim_cur l = rlim_cur old then s
            else if rlim_cur old < rlim_cur l
            then s\<lparr>vm_protects := vm_protects s @ [(p, top - word_of_int (rlim_cur l), word_of_int (rlim_cur l - rlim_cur old), True)]\<rparr>
            else s\<lparr>vm_protects := vm_protects s @ [(p, top - word_of_int (rlim_cur old), word_of_int (rlim_cur old - rlim_cur l), False)]\<rparr>)
      else (alim, s))"

definition setrlimit :: "bool \<Rightarrow> addr \<Rightarrow> (nat \<Rightarrow> int + rlimit) \<Rightarrow> nat \<Rightarrow> nat \<Rightarrow> nat \<Rightarrow> rsys \<Rightarrow> (int \<times> rsys) kres" where
  "setrlimit dg new copyin p which limp s =
     (if RLIM_NLIMITS \<le> which then Done (EINVAL, s)
      else kbind (get_limit p s) (\<lambda>(a, lim).
        if length (pl_rlimit lim) \<le> which then Fault
        else
          let old = pl_rlimit lim ! which in
          case copyin limp of
            Inl e \<Rightarrow> Done (e, s)
          | Inr alim \<Rightarrow>
              kbind (if rlim_max old < rlim_cur alim \<or> rlim_max old < rlim_max alim
                     then kbind (ucred_of p s) (\<lambda>cr. use_priv dg cr (limit_priv ! which)) else Done 0) (\<lambda>error.
                if error \<noteq> 0 then Done (error, s)
                else kbind (unshare_limit new p s) (\<lambda>s1.
                  let (l, s2) = limit_effect p which old alim s1 in
                  kmap (\<lambda>(b, lim'). (0, s2\<lparr>plimits := (plimits s2)(b \<mapsto> lim'\<lparr>pl_rlimit := (pl_rlimit lim')[which := l]\<rparr>)\<rparr>))
                    (get_limit p s2)))))"

definition getrlimit :: "(rlimit \<Rightarrow> int) \<Rightarrow> nat \<Rightarrow> nat \<Rightarrow> rsys \<Rightarrow> int kres" where
  "getrlimit copyout p which s =
     (if RLIM_NLIMITS \<le> which then Done EINVAL
      else kbind (get_limit p s) (\<lambda>(a, lim). if length (pl_rlimit lim) \<le> which then Fault else Done (copyout (pl_rlimit lim ! which))))"

section \<open>Usage\<close>

definition getrusage :: "(rusage \<Rightarrow> int) \<Rightarrow> nat \<Rightarrow> int \<Rightarrow> rsys \<Rightarrow> int \<times> rsys" where
  "getrusage copyout p who s =
     (if who = RUSAGE_SELF then
        let ru = (p_ru s p)\<lparr>ru_stime := p_stime s p, ru_utime := p_utime s p\<rparr> in
        (copyout ru, s\<lparr>p_ru := (p_ru s)(p := ru)\<rparr>)
      else if who = RUSAGE_CHILDREN then (copyout (p_cru s p), s)
      else (EINVAL, s))"

definition ruadd :: "rusage \<Rightarrow> rusage \<Rightarrow> rusage" where
  "ruadd ru ru2 = \<lparr>ru_utime = timevaladd (ru_utime ru) (ru_utime ru2), ru_stime = timevaladd (ru_stime ru) (ru_stime ru2),
     ru_maxrss = (if ru_maxrss ru < ru_maxrss ru2 then ru_maxrss ru2 else ru_maxrss ru),
     ru_counts = map2 (+) (ru_counts ru) (ru_counts ru2)\<rparr>"

section \<open>Sharing of limits\<close>

text \<open>
  Every process that has not exited has limits, and the counts are exact.  A zombie's \<open>p_limit\<close> is
  left as it was when its reference was dropped, so it does not count.
\<close>

definition limits_of :: "rsys \<Rightarrow> nat \<Rightarrow> rlimit list option" where
  "limits_of s p = Option.bind (p_limit s p) (\<lambda>a. map_option pl_rlimit (plimits s a))"

definition lim_users :: "rsys \<Rightarrow> addr \<Rightarrow> nat set" where
  "lim_users s a = {p \<in> set (allproc s). p_limit s p = Some a}"

definition lim_inv :: "rsys \<Rightarrow> bool" where
  "lim_inv s \<longleftrightarrow> (\<forall>p \<in> set (allproc s). limits_of s p \<noteq> None) \<and>
     (\<forall>a lim. plimits s a = Some lim \<longrightarrow> length (pl_rlimit lim) = RLIM_NLIMITS \<and> pl_refcnt lim = int (card (lim_users s a)))"

lemma lim_inv_get:
  assumes "lim_inv s" "p \<in> set (allproc s)" "p_limit s p = Some a"
  obtains lim where "plimits s a = Some lim" "get_limit p s = Done (a, lim)" "length (pl_rlimit lim) = RLIM_NLIMITS"
    "pl_refcnt lim = int (card (lim_users s a))"
proof -
  obtain lim where lim: "plimits s a = Some lim" using assms unfolding lim_inv_def by (fastforce simp: limits_of_def)
  with assms show thesis by (intro that [OF lim]) (auto simp: lim_inv_def get_limit_def)
qed

lemma finite_lim_users [simp]: "finite (lim_users s a)"
  by (simp add: lim_users_def)

text \<open>After unsharing, writing to the limits of the process is seen only by those who agreed to share.\<close>

lemma unshare_limit_ok:
  assumes inv: "lim_inv s" and mem: "p \<in> set (allproc s)" and p: "p_limit s p = Some a" and lim: "plimits s a = Some lim"
    and new: "plimits s new = None"
  obtains s1 b lim1 where "unshare_limit new p s = Done s1" "lim_inv s1" "allproc s1 = allproc s"
    "\<forall>q \<in> set (allproc s). limits_of s1 q = limits_of s q" "p_limit s1 p = Some b"
    "plimits s1 b = Some lim1" "pl_rlimit lim1 = pl_rlimit lim" "pl_sharemod lim \<and> b = a \<and> s1 = s \<or> lim_users s1 b = {p}"
proof -
  have len: "length (pl_rlimit lim) = RLIM_NLIMITS" and cnt: "pl_refcnt lim = int (card (lim_users s a))" and get: "get_limit p s = Done (a, lim)"
    using lim_inv_get [OF inv mem p] lim by auto
  have pin: "p \<in> lim_users s a" using p mem by (simp add: lim_users_def)
  show thesis
  proof (cases "1 < pl_refcnt lim \<and> \<not> pl_sharemod lim")
    case False
    have "lim_users s a = {p}" if "\<not> pl_sharemod lim"
    proof -
      have "card (lim_users s a) \<le> 1" using False cnt that by simp
      moreover have "card (lim_users s a) \<noteq> 0" using pin by auto
      ultimately have "card (lim_users s a) + 0 = 1" by linarith
      then show ?thesis using single_count [OF finite_lim_users pin] by blast
    qed
    then show thesis using inv p lim get False by (intro that [of s a lim]) (auto simp: unshare_limit_def)
  next
    case True
    have na: "new \<noteq> a" using new lim by auto
    have none: "p_limit s q \<noteq> Some new" if "q \<in> set (allproc s)" for q using inv new that by (auto simp: lim_inv_def limits_of_def)
    define s1 where "s1 = s\<lparr>plimits := (plimits s)(a \<mapsto> lim\<lparr>pl_refcnt := pl_refcnt lim - 1\<rparr>,
      new \<mapsto> \<lparr>pl_rlimit = pl_rlimit lim, pl_sharemod = False, pl_refcnt = 1\<rparr>), p_limit := (p_limit s)(p \<mapsto> new)\<rparr>"
    have us: "lim_users s1 b = (if b = new then {p} else lim_users s b - {p})" for b
      using none mem by (auto simp: lim_users_def s1_def)
    have dec: "pl_refcnt lim - 1 = int (card (lim_users s a - {p}))"
      using cnt pin True by (simp add: of_nat_diff)
    have oth: "b \<noteq> a \<Longrightarrow> lim_users s b - {p} = lim_users s b" for b using p by (auto simp: lim_users_def)
    have lo: "limits_of s1 q = limits_of s q" if "q \<in> set (allproc s)" for q
      using p lim na none [OF that] by (cases "p_limit s q") (auto simp: limits_of_def s1_def)
    have "lim_inv s1" unfolding lim_inv_def
    proof (intro conjI ballI allI impI)
      fix q assume "q \<in> set (allproc s1)"
      then show "limits_of s1 q \<noteq> None" using inv lo [of q] by (simp add: lim_inv_def s1_def)
    next
      fix b l assume "plimits s1 b = Some l"
      then show "length (pl_rlimit l) = RLIM_NLIMITS" "pl_refcnt l = int (card (lim_users s1 b))"
        using inv len dec na oth [of b] unfolding us lim_inv_def by (auto simp: s1_def split: if_splits)
    qed
    moreover have "unshare_limit new p s = Done s1" using get True by (simp add: unshare_limit_def limcopy_def s1_def)
    ultimately show thesis using lo
      by (intro that [of s1 new "\<lparr>pl_rlimit = pl_rlimit lim, pl_sharemod = False, pl_refcnt = 1\<rparr>"]) (auto simp: us, auto simp: s1_def)
  qed
qed

lemma limit_effect_bounds:
  assumes "limit_effect p which old alim s = (l, s')"
  shows "rlim_cur l \<le> rlim_cur alim" "rlim_max l \<le> rlim_max alim" "plimits s' = plimits s" "p_limit s' = p_limit s" "allproc s' = allproc s"
  using assms by (auto simp: limit_effect_def clamp_def Let_def split: if_splits)

lemma limit_priv_known: "which < RLIM_NLIMITS \<Longrightarrow> priv_minrole (limit_priv ! which) \<noteq> None"
  by (auto simp: RLIM_NLIMITS_def limit_priv_def less_Suc_eq numeral_eq_Suc)

section \<open>Properties\<close>

text \<open>
  C31: \<open>setrlimit\<close> is copy-on-write and confined.  It always returns; an error leaves the state as it
  was; on success only the entry named changes, to at most the value asked for; a process that is
  not the superuser's never gets a soft or hard limit above its former hard limit; the counts of
  the shared structures are again exact; and no other process sees a change, except those with
  which the caller shares its limits by agreement (\<open>PL_SHAREMOD\<close>).
\<close>

theorem setrlimit_confined:
  assumes inv: "lim_inv s" and mem: "p \<in> set (allproc s)" and p: "p_limit s p = Some a" and lim: "plimits s a = Some lim"
    and new: "plimits s new = None" and cr: "ucred_of p s = Done cr" and cin: "copyin limp \<noteq> Inl 0"
  shows "\<exists>e s'. setrlimit dg new copyin p which limp s = Done (e, s') \<and> lim_inv s' \<and> (e \<noteq> 0 \<longrightarrow> s' = s) \<and>
    (\<forall>q \<in> set (allproc s). q \<noteq> p \<and> \<not> (pl_sharemod lim \<and> p_limit s q = Some a) \<longrightarrow> limits_of s' q = limits_of s q) \<and>
    (e = 0 \<longrightarrow> (\<exists>alim l. which < RLIM_NLIMITS \<and> copyin limp = Inr alim \<and>
       limits_of s' p = Some ((pl_rlimit lim)[which := l]) \<and> rlim_cur l \<le> rlim_cur alim \<and> rlim_max l \<le> rlim_max alim \<and>
       (cr_uid cr \<noteq> 0 \<longrightarrow> rlim_cur l \<le> rlim_max (pl_rlimit lim ! which) \<and> rlim_max l \<le> rlim_max (pl_rlimit lim ! which))))"
proof (cases "which < RLIM_NLIMITS")
  case False
  then show ?thesis using inv by (simp add: setrlimit_def EINVAL_def)
next
  case w: True
  obtain get: "get_limit p s = Done (a, lim)" and len: "length (pl_rlimit lim) = RLIM_NLIMITS" using lim_inv_get [OF inv mem p] lim by auto
  show ?thesis
  proof (cases "copyin limp")
    case (Inl e)
    then show ?thesis using w get len inv cin by (auto simp: setrlimit_def)
  next
    case (Inr alim)
    let ?old = "pl_rlimit lim ! which"
    let ?over = "rlim_max ?old < rlim_cur alim \<or> rlim_max ?old < rlim_max alim"
    obtain e where e: "(if ?over then kbind (ucred_of p s) (\<lambda>cr. use_priv dg cr (limit_priv ! which)) else Done 0) = Done e"
      "e = 0 \<longrightarrow> ?over \<longrightarrow> cr_uid cr = 0"
      using cr use_priv_root [OF limit_priv_known [OF w], of dg cr] by (cases ?over) auto
    obtain s1 b lim1 where u: "unshare_limit new p s = Done s1" "lim_inv s1" "\<forall>q \<in> set (allproc s). limits_of s1 q = limits_of s q" "p_limit s1 p = Some b"
      "plimits s1 b = Some lim1" "pl_rlimit lim1 = pl_rlimit lim" "pl_sharemod lim \<and> b = a \<and> s1 = s \<or> lim_users s1 b = {p}" "allproc s1 = allproc s"
      by (rule unshare_limit_ok [OF inv mem p lim new])
    obtain l s2 where ef: "limit_effect p which ?old alim s1 = (l, s2)" by (metis surj_pair)
    note lb = limit_effect_bounds [OF ef]
    define s' where "s' = s2\<lparr>plimits := (plimits s2)(b \<mapsto> lim1\<lparr>pl_rlimit := (pl_rlimit lim1)[which := l]\<rparr>)\<rparr>"
    have run: "setrlimit dg new copyin p which limp s = Done (if e \<noteq> 0 then (e, s) else (0, s'))"
      using w get len Inr e(1) u(1,4,5) ef lb(3,4) by (auto simp: setrlimit_def Let_def get_limit_def s'_def)
    show ?thesis
    proof (cases "e = 0")
      case False
      then show ?thesis using run inv by simp
    next
      case True
      have "limits_of s' q \<noteq> None \<longleftrightarrow> limits_of s1 q \<noteq> None" for q
        using u(5) lb(3,4) by (cases "p_limit s1 q") (auto simp: limits_of_def s'_def)
      moreover have "length (pl_rlimit lim1) = RLIM_NLIMITS" using u(2,5) by (auto simp: lim_inv_def)
      ultimately have "lim_inv s'" using u(2,5,6) lb(3,4,5) by (auto simp: lim_inv_def lim_users_def s'_def)
      moreover have "limits_of s' q = limits_of s q" if "q \<noteq> p" "\<not> (pl_sharemod lim \<and> p_limit s q = Some a)" "q \<in> set (allproc s)" for q
      proof -
        have "p_limit s1 q \<noteq> Some b" using u(7,8) that by (auto simp: lim_users_def)
        then have "limits_of s' q = limits_of s1 q" using lb(3,4) by (cases "p_limit s1 q") (auto simp: limits_of_def s'_def)
        then show ?thesis using u(3) that(3) by simp
      qed
      moreover have "limits_of s' p = Some ((pl_rlimit lim)[which := l])"
        using u(4,6) lb(4) by (simp add: limits_of_def s'_def)
      moreover have "cr_uid cr \<noteq> 0 \<longrightarrow> rlim_cur l \<le> rlim_max ?old \<and> rlim_max l \<le> rlim_max ?old"
        using e(2) True lb(1,2) by auto
      ultimately show ?thesis using run True w Inr lb(1,2) by auto
    qed
  qed
qed

text \<open>
  \<open>setpriority\<close> of a process.  The process gets the priority, brought into the range, exactly
  when the caller may change it (it is the superuser's or has the owner's real or effective user
  id, and it does not raise the priority, or it is privileged to); no other process changes.  But
  the call returns 0 whether it was allowed or not.
\<close>

theorem setpriority_process:
  assumes "get_creds curp (r_creds s) = Done (pc, cr)" "pfind who (r_jobs s) = Some t" "ucred_of t s = Done chg" "who \<noteq> 0"
  shows "\<exists>s'. setpriority dg curp PRIO_PROCESS who prio s = Done (0, s') \<and> (\<forall>q. q \<noteq> t \<longrightarrow> nice_of q s' = nice_of q s) \<and>
    (let n = max PRIO_MIN (min PRIO_MAX prio) in
     nice_of t s' =
       (if (cr_uid cr = 0 \<or> p_ruid pc = 0 \<or> cr_uid cr = cr_uid chg \<or> p_ruid pc = cr_uid chg) \<and>
           (n < nice_of t s \<longrightarrow> cr_uid cr = 0 \<and> (scast (cr_role cr) :: u32) \<le> ROLE_LOCALUSR)
        then n else nice_of t s))"
proof -
  have nice: "nice_of q (s\<lparr>r_sched := setpri t (pupd t (\<lambda>pr. pr\<lparr>p_nice := n\<rparr>) (r_sched s))\<rparr>) = (if q = t then n else nice_of q s)" for q n
    by (simp add: nice_of_def setpri_def pupd_def need_resched_def Let_def)
  have clamp: "(if prio > PRIO_MAX then PRIO_MAX else if prio < PRIO_MIN then PRIO_MIN else prio) = max PRIO_MIN (min PRIO_MAX prio)"
    by (simp add: PRIO_MAX_def PRIO_MIN_def)
  have up: "use_priv dg cr PRV_NICE = Done (if cr_uid cr = 0 \<and> (scast (cr_role cr) :: u32) \<le> ROLE_LOCALUSR then 0 else EPERM)"
    by (auto simp: use_priv_def not_less)
  show ?thesis using assms nice
    by (auto simp: setpriority_def prio_targets_def PRIO_PROCESS_def donice_def clamp up Let_def EPERM_def)
qed

section \<open>An example\<close>

definition rlimit_demo :: plimit where
  "rlimit_demo = \<lparr>pl_rlimit = replicate 9 \<lparr>rlim_cur = 100, rlim_max = 200\<rparr>, pl_sharemod = False, pl_refcnt = 2\<rparr>"

text \<open>Processes 11 and 12 share their limits; process 12 is an ordinary user's.\<close>

definition rsys_demo :: rsys where
  "rsys_demo = \<lparr>r_sched = ssys_demo,
     r_creds = \<lparr>ucreds = [70 \<mapsto> ucred_demo, 71 \<mapsto> ucred_demo\<lparr>cr_uid := 5\<rparr>],
       pcreds = [50 \<mapsto> pcred_demo, 51 \<mapsto> pcred_demo\<lparr>pc_ucred := 71, p_ruid := 5\<rparr>],
       p_cred = [11 \<mapsto> 50, 12 \<mapsto> 51], p_session = (\<lambda>_. 0), s_login = (\<lambda>_. [])\<rparr>,
     r_jobs = jsys_demo 12, allproc = [12, 11], proc0 = 10, plimits = [30 \<mapsto> rlimit_demo], p_limit = [11 \<mapsto> 30, 12 \<mapsto> 30],
     p_ru = (\<lambda>_. \<lparr>ru_utime = timerclear, ru_stime = timerclear, ru_maxrss = 1000, ru_counts = []\<rparr>),
     p_cru = (\<lambda>_. \<lparr>ru_utime = timerclear, ru_stime = timerclear, ru_maxrss = 1000, ru_counts = []\<rparr>),
     p_utime = (\<lambda>_. timerclear), p_stime = (\<lambda>_. timerclear), vm_maxsaddr = (\<lambda>_. 0), vm_protects = []\<rparr>"

lemma rsys_demo_inv: "lim_inv rsys_demo"
proof -
  have "lim_users rsys_demo 30 = {11, 12}" by (auto simp: lim_users_def rsys_demo_def)
  then show ?thesis
    by (auto simp: lim_inv_def) (auto simp: rsys_demo_def rlimit_demo_def RLIM_NLIMITS_def limits_of_def split: if_splits)
qed

lemma rsys_demo_ucred: "ucred_of 12 rsys_demo = Done (ucred_demo\<lparr>cr_uid := 5\<rparr>)" "ucred_of 11 rsys_demo = Done ucred_demo"
  "get_creds 12 (r_creds rsys_demo) = Done (pcred_demo\<lparr>pc_ucred := 71, p_ruid := 5\<rparr>, ucred_demo\<lparr>cr_uid := 5\<rparr>)"
  by (simp_all add: ucred_of_def rsys_demo_def get_creds_def get_pcred_def pcred_demo_def)

theorem setrlimit_confined_witness:
  "\<exists>s'. setrlimit False 31 (\<lambda>_. Inr \<lparr>rlim_cur = 50, rlim_max = 150\<rparr>) 12 RLIMIT_NPROC 0 rsys_demo = Done (0, s') \<and>
     limits_of s' 11 = limits_of rsys_demo 11"
proof -
  let ?c = "\<lambda>_ :: nat. Inr \<lparr>rlim_cur = 50, rlim_max = 150\<rparr> :: int + rlimit"
  have h: "p_limit rsys_demo 12 = Some 30" "plimits rsys_demo 30 = Some rlimit_demo" "plimits rsys_demo 31 = None" "?c 0 \<noteq> Inl 0"
    "12 \<in> set (allproc rsys_demo)" "11 \<in> set (allproc rsys_demo)"
    by (simp_all add: rsys_demo_def)
  have "\<exists>s'. setrlimit False 31 ?c 12 RLIMIT_NPROC 0 rsys_demo = Done (0, s')"
    by (simp add: setrlimit_def RLIMIT_NPROC_def RLIM_NLIMITS_def get_limit_def rsys_demo_def rlimit_demo_def unshare_limit_def
        limcopy_def limit_effect_def RLIMIT_RSS_def RLIMIT_DATA_def RLIMIT_STACK_def Let_def)
  with setrlimit_confined [OF rsys_demo_inv h(5,1-3) rsys_demo_ucred(1), where limp = 0 and copyin = ?c and dg = False and which = RLIMIT_NPROC] h(6) show ?thesis
    by (auto simp: rlimit_demo_def)
qed

theorem setpriority_process_witness:
  "\<exists>s'. setpriority False 12 PRIO_PROCESS 1 (-20) rsys_demo = Done (0, s') \<and> nice_of 11 s' = nice_of 11 rsys_demo"
proof -
  have h: "pfind 1 (r_jobs rsys_demo) = Some 11"
    by (simp add: rsys_demo_def pfind_def jsys_demo_def PIDHASH_def jproc_demo_def)
  from setpriority_process [OF rsys_demo_ucred(3) h rsys_demo_ucred(2), of False "-20"] show ?thesis
    by (auto simp: ucred_demo_def Let_def)
qed

end
