(* ===== verification/Fork.thy ===== *)
theory Fork
  imports Resource
begin

text \<open>
  Process creation: \<open>fork1\<close> of \<open>kern/fork.c\<close>, over the process groups, credentials, limits and
  run queues of the theories it joins.  The address of the new process is an argument.  Not
  modelled: the copies of descriptors, address space, signal actions and trace state, and the
  switch to the new context in \<open>cpu_tfork\<close>; the wait of \<open>vfork\<close> for its child is \<open>tsleep\<close>;
  the restart when another fork took the number while \<open>MALLOC\<close> slept.
\<close>

section \<open>State\<close>

record fsys =
  f_sys :: rsys
  zombproc :: "nat list"
  nprocs :: int
  maxproc :: int
  nextpid :: int
  pidchecked :: int

definition PID_MAX :: int where "PID_MAX = 30000"
definition EAGAIN :: int where "EAGAIN = 35"

section \<open>Limits on the number of processes\<close>

text \<open>
  The test at \<open>redo\<close>: whether \<open>EAGAIN\<close> is returned.  \<open>use_priv\<close> returns 0 for a privilege that
  is granted, and \<open>haspriv\<close> holds what it returns.
\<close>

definition fork_check :: "bool \<Rightarrow> nat \<Rightarrow> fsys \<Rightarrow> bool kres" where
  "fork_check dg p1 s =
     (if maxproc s \<le> nprocs s then Done True
      else kbind (ucred_of p1 (f_sys s)) (\<lambda>cr.
        kbind (use_priv dg cr PRV_NO_UPROCLIMIT) (\<lambda>haspriv.
          if haspriv \<noteq> 0 \<and> maxproc s + 1 \<le> nprocs s then Done True
          else if haspriv = 0 then
            kbind (with_uid (uint (cr_uid cr)) (allproc (f_sys s)) (f_sys s)) (\<lambda>mine.
            kbind (with_uid (uint (cr_uid cr)) (zombproc s) (f_sys s)) (\<lambda>dead.
            kbind (get_limit p1 (f_sys s)) (\<lambda>(a, lim).
              if length (pl_rlimit lim) \<le> RLIMIT_NPROC then Fault
              else Done (rlim_cur (pl_rlimit lim ! RLIMIT_NPROC) < int (length mine + length dead)))))
          else Done False)))"

section \<open>Process numbers\<close>

text \<open>
  One pass over the process and zombie lists, given as pairs of process number and group number:
  whether it has to be restarted, \<open>nextpid\<close> and \<open>pidchecked\<close>.
\<close>

fun pid_scan :: "(int \<times> int) list \<Rightarrow> int \<Rightarrow> int \<Rightarrow> bool \<times> int \<times> int" where
  "pid_scan [] next chk = (False, next, chk)"
| "pid_scan ((pid, pgid) # ps) next chk =
     (let hit = (pid = next \<or> pgid = next); next' = (if hit then next + 1 else next) in
      if hit \<and> chk \<le> next' then (True, next', chk)
      else let chk1 = (if next' < pid \<and> pid < chk then pid else chk);
               chk2 = (if next' < pgid \<and> pgid < chk1 then pgid else chk1) in
           pid_scan ps next' chk2)"

text \<open>The code from \<open>retry\<close> on.\<close>

partial_function (option) pid_search :: "(int \<times> int) list \<Rightarrow> int \<Rightarrow> int \<Rightarrow> (int \<times> int) option" where
  "pid_search ps next0 chk0 =
     (let next = (if PID_MAX \<le> next0 then 100 else next0); chk = (if PID_MAX \<le> next0 then 0 else chk0) in
      if chk \<le> next
      then (case pid_scan ps next PID_MAX of (again, n, c) \<Rightarrow> if again then pid_search ps n c else Some (n, c))
      else Some (next, chk))"

fun pid_pairs :: "nat list \<Rightarrow> jsys \<Rightarrow> (int \<times> int) list kres" where
  "pid_pairs [] s = Done []"
| "pid_pairs (p # ps) s =
     kbind (deref (jprocs s p)) (\<lambda>pr. kbind (get_pgrp p s) (\<lambda>(g, G). kmap (Cons (p_pid pr, pg_id G)) (pid_pairs ps s)))"

section \<open>The new process\<close>

fun insert_after :: "nat \<Rightarrow> nat \<Rightarrow> nat list \<Rightarrow> nat list" where
  "insert_after p q [] = []"
| "insert_after p q (x # xs) = (if x = p then x # q # xs else x # insert_after p q xs)"

text \<open>Process group and family.\<close>

definition fork_jobs :: "nat \<Rightarrow> nat \<Rightarrow> int \<Rightarrow> jsys \<Rightarrow> jsys kres" where
  "fork_jobs p2 p1 pid s =
     kbind (deref (jprocs s p1)) (\<lambda>pr.
     kbind (get_pgrp p1 s) (\<lambda>(g, G).
     kbind (get_session p1 s) (\<lambda>(a, se).
       enterpidhash p2
         (s\<lparr>jprocs := (jprocs s)(p1 \<mapsto> pr\<lparr>p_children := p2 # p_children pr\<rparr>,
              p2 \<mapsto> \<lparr>p_pid = pid, p_pptr = Some p1, p_children = [], p_pgrp = Some g, p_stat = SRUN,
                     p_sctty = (s_ttyvp se \<noteq> None \<and> p_sctty pr), p_sexec = False\<rparr>),
            pgrps := (pgrps s)(g \<mapsto> G\<lparr>pg_mem := insert_after p1 p2 (pg_mem G)\<rparr>)\<rparr>))))"

text \<open>The credentials and the limits are shared.\<close>

definition fork_creds :: "nat \<Rightarrow> nat \<Rightarrow> csys \<Rightarrow> csys kres" where
  "fork_creds p2 p1 s =
     kmap (\<lambda>(a, pc). s\<lparr>pcreds := (pcreds s)(a \<mapsto> pc\<lparr>p_refcnt := p_refcnt pc + 1\<rparr>), p_cred := (p_cred s)(p2 \<mapsto> a),
                       p_session := (p_session s)(p2 := p_session s p1)\<rparr>) (get_pcred p1 s)"

definition fork_limits :: "nat \<Rightarrow> nat \<Rightarrow> rsys \<Rightarrow> rsys kres" where
  "fork_limits p2 p1 s =
     kmap (\<lambda>(a, lim). s\<lparr>plimits := (plimits s)(a \<mapsto> lim\<lparr>pl_refcnt := pl_refcnt lim + 1\<rparr>), p_limit := (p_limit s)(p2 \<mapsto> a)\<rparr>)
       (get_limit p1 s)"

text \<open>The scheduling fields are cleared or copied and the process goes on a run queue.\<close>

definition fork_sched :: "nat \<Rightarrow> nat \<Rightarrow> ssys \<Rightarrow> ssys kres" where
  "fork_sched p2 p1 s =
     setrq p2 (s\<lparr>procs := (procs s)(p2 := (procs s p1)\<lparr>sproc.p_stat := SRUN, p_wchan := 0, p_slptime := 0, p_time := 0,
       p_pctcpu := 0, p_cpticks := 0, p_cpu := 0, p_sload := True, p_swexit := False, p_ssintr := False, p_stimo := False\<rparr>)\<rparr>)"

definition ru_zero :: rusage where
  "ru_zero = \<lparr>ru_utime = timerclear, ru_stime = timerclear, ru_maxrss = 0, ru_counts = replicate 13 0\<rparr>"

definition fork_link :: "nat \<Rightarrow> nat \<Rightarrow> int \<Rightarrow> rsys \<Rightarrow> rsys kres" where
  "fork_link p2 p1 pid s =
     kbind (fork_creds p2 p1 (r_creds s)) (\<lambda>c.
     kbind (fork_jobs p2 p1 pid (r_jobs s)) (\<lambda>j.
     kbind (fork_limits p2 p1 s) (\<lambda>s1.
     kmap (\<lambda>q. s1\<lparr>r_sched := q, r_creds := c, r_jobs := j, allproc := p2 # allproc s,
                  p_ru := (p_ru s)(p2 := ru_zero), p_cru := (p_cru s)(p2 := ru_zero),
                  p_utime := (p_utime s)(p2 := timerclear), p_stime := (p_stime s)(p2 := timerclear)\<rparr>)
       (fork_sched p2 p1 (r_sched s)))))"

text \<open>An error, or the number of the child and the new state; \<open>None\<close> if the search never ends.\<close>

definition fork1 :: "bool \<Rightarrow> nat \<Rightarrow> nat \<Rightarrow> fsys \<Rightarrow> (int + int \<times> fsys) kres option" where
  "fork1 dg p2 p1 s =
     (case fork_check dg p1 s of
        Done True \<Rightarrow> Some (Done (Inl EAGAIN))
      | Done False \<Rightarrow>
          (case pid_pairs (allproc (f_sys s) @ zombproc s) (r_jobs (f_sys s)) of
             Done ps \<Rightarrow>
               map_option (\<lambda>(pid, chk).
                   kmap (\<lambda>r. Inr (pid, s\<lparr>f_sys := r, nprocs := nprocs s + 1, nextpid := pid, pidchecked := chk\<rparr>))
                     (fork_link p2 p1 pid (f_sys s)))
                 (pid_search ps (nextpid s + 1) (pidchecked s))
           | Panic m \<Rightarrow> Some (Panic m) | Fault \<Rightarrow> Some Fault)
      | Panic m \<Rightarrow> Some (Panic m) | Fault \<Rightarrow> Some Fault)"

section \<open>The search for a process number\<close>

text \<open>No process or group has a number from \<open>n\<close> up to \<open>c\<close>.\<close>

definition pid_gap :: "(int \<times> int) set \<Rightarrow> int \<Rightarrow> int \<Rightarrow> bool" where
  "pid_gap ps n c \<longleftrightarrow> (\<forall>(pid, pgid) \<in> ps. pid \<notin> {n..<c} \<and> pgid \<notin> {n..<c})"

text \<open>No process is in the group whose number is next to its own.\<close>

definition pid_apart :: "(int \<times> int) set \<Rightarrow> bool" where
  "pid_apart ps \<longleftrightarrow> (\<forall>(pid, pgid) \<in> ps. pid \<noteq> pgid + 1 \<and> pgid \<noteq> pid + 1)"

definition pids_of :: "(int \<times> int) set \<Rightarrow> int set" where
  "pids_of ps = fst ` ps \<union> snd ` ps"

text \<open>One step of a pass: the new \<open>nextpid\<close> and the new \<open>pidchecked\<close>.\<close>

definition scan_next :: "int \<Rightarrow> int \<Rightarrow> int \<Rightarrow> int" where
  "scan_next pid pgid n = (if pid = n \<or> pgid = n then n + 1 else n)"

definition scan_chk :: "int \<Rightarrow> int \<Rightarrow> int \<Rightarrow> int \<Rightarrow> int" where
  "scan_chk pid pgid m c = (let c1 = (if m < pid \<and> pid < c then pid else c) in if m < pgid \<and> pgid < c1 then pgid else c1)"

lemma pid_scan_Cons:
  assumes "n < c"
  shows "pid_scan ((pid, pgid) # ps) n c =
    (let m = scan_next pid pgid n in if c \<le> m then (True, m, c) else pid_scan ps m (scan_chk pid pgid m c))"
  using assms by (auto simp: Let_def scan_next_def scan_chk_def)

lemma scan_chk_bounds: "m < c \<Longrightarrow> m < scan_chk pid pgid m c \<and> scan_chk pid pgid m c \<le> c"
  by (auto simp: scan_chk_def Let_def)

lemma pid_scan_gap:
  assumes "pid_scan ps n c = (False, n', c')" "pid_gap seen (n + 1) c" "n < c"
  shows "pid_gap (seen \<union> set ps) (n' + 1) c' \<and> n \<le> n' \<and> n' < c' \<and> c' \<le> c \<and>
    (pid_gap seen n c \<longrightarrow> pid_apart (set ps) \<longrightarrow> pid_gap (seen \<union> set ps) n' c')"
  using assms
proof (induction ps arbitrary: n c seen)
  case (Cons p ps)
  obtain pid pgid where p: "p = (pid, pgid)" by (cases p)
  let ?m = "scan_next pid pgid n"
  let ?c = "scan_chk pid pgid ?m c"
  have run: "?m < c" "pid_scan ps ?m ?c = (False, n', c')"
    using Cons(2,4) by (auto simp: p pid_scan_Cons Let_def split: if_splits simp del: pid_scan.simps)
  have b: "n \<le> ?m" "?m < ?c" "?c \<le> c" using scan_chk_bounds [OF run(1)] by (auto simp: scan_next_def)
  have above: "pid_gap (insert (pid, pgid) seen) (?m + 1) ?c"
    using Cons(3) b unfolding pid_gap_def by (auto simp: scan_next_def scan_chk_def Let_def split: if_splits)
  have apart: "pid_gap (insert (pid, pgid) seen) ?m ?c" "pid_apart (set ps)" if "pid_gap seen n c" "pid_apart (set (p # ps))"
  proof -
    have "pid \<noteq> pgid + 1" "pgid \<noteq> pid + 1" "pid_apart (set ps)" using that(2) by (auto simp: p pid_apart_def)
    then show "pid_gap (insert (pid, pgid) seen) ?m ?c" "pid_apart (set ps)"
      using that(1) b unfolding pid_gap_def by (auto simp: scan_next_def scan_chk_def Let_def split: if_splits)
  qed
  have "insert (pid, pgid) seen \<union> set ps = seen \<union> set (p # ps)" by (auto simp: p)
  then show ?case using Cons(1) [OF run(2) above b(2)] b apart by auto
qed simp

text \<open>A pass that has to be restarted has moved on, but not past a number that is free.\<close>

lemma pid_scan_progress:
  assumes "pid_scan ps n c = (again, n', c')" "n < c" "x \<notin> pids_of (set ps)" "c \<le> PID_MAX"
  shows "n \<le> n' \<and> (again \<longrightarrow> n < n' \<and> n' \<le> PID_MAX \<and> c' \<le> n') \<and> (n \<le> x \<longrightarrow> n' \<le> x)"
  using assms
proof (induction ps arbitrary: n c)
  case (Cons p ps)
  obtain pid pgid where p: "p = (pid, pgid)" by (cases p)
  let ?m = "scan_next pid pgid n"
  let ?c = "scan_chk pid pgid ?m c"
  have x: "x \<notin> pids_of (set ps)" "x \<noteq> pid" "x \<noteq> pgid" using Cons(4) by (auto simp: p pids_of_def)
  then have mx: "n \<le> ?m" "n \<le> x \<longrightarrow> ?m \<le> x" "?m \<le> n + 1" by (auto simp: scan_next_def)
  show ?case
  proof (cases "c \<le> ?m")
    case True
    then have "again" "n' = ?m" "c' = c" using Cons(2,3) by (auto simp: p pid_scan_Cons simp del: pid_scan.simps)
    then show ?thesis using True mx Cons(3,5) by auto
  next
    case False
    then have "pid_scan ps ?m ?c = (again, n', c')" using Cons(2,3) by (simp add: p pid_scan_Cons Let_def del: pid_scan.simps)
    moreover have "?m < ?c" "?c \<le> PID_MAX" using scan_chk_bounds [of ?m c pid pgid] False Cons(5) by auto
    ultimately show ?thesis using Cons(1) [of ?m ?c] x(1) mx by auto
  qed
qed auto

text \<open>The search ends when some number is free: it moves on until it wraps around, and then up to it.\<close>

lemma pid_search_total:
  assumes x: "100 \<le> x" "x < PID_MAX" "x \<notin> pids_of (set ps)"
  shows "\<exists>r. pid_search ps n c = Some r"
proof (induction "nat (if n \<le> x then x - n else if n < PID_MAX then PID_MAX - n + x else x)" arbitrary: n c rule: less_induct)
  case less
  define m where "m = (if PID_MAX \<le> n then 100 else n)"
  define d where "d = (if PID_MAX \<le> n then 0 else c)"
  show ?case
  proof (cases "d \<le> m")
    case False
    then show ?thesis by (subst pid_search.simps) (simp add: Let_def m_def d_def)
  next
    case True
    obtain again n' c' where sc: "pid_scan ps m PID_MAX = (again, n', c')" by (metis prod_cases3)
    show ?thesis
    proof (cases again)
      case False
      then show ?thesis using True sc by (subst pid_search.simps) (simp add: Let_def m_def d_def)
    next
      case a: True
      have "m < PID_MAX" by (simp add: m_def PID_MAX_def)
      from pid_scan_progress [OF sc this x(3)] a have pr: "m < n'" "n' \<le> PID_MAX" "m \<le> x \<longrightarrow> n' \<le> x" by auto
      have "nat (if n' \<le> x then x - n' else if n' < PID_MAX then PID_MAX - n' + x else x) <
          nat (if n \<le> x then x - n else if n < PID_MAX then PID_MAX - n + x else x)"
        using pr x(1,2) by (auto simp: m_def split: if_splits)
      from less [OF this, of c'] show ?thesis using True sc a by (subst pid_search.simps) (simp add: Let_def m_def d_def)
    qed
  qed
qed

text \<open>
  No number above the one that is found, up to the new \<open>pidchecked\<close>, is in use.  The number itself is
  unused if it comes from the run of the last search, or if no number is next to its group's.
\<close>

lemma pid_search_gap:
  assumes "pid_search ps n c = Some (pid, chk)" "pid_gap (set ps) n c" "0 < n" "c \<le> PID_MAX"
  shows "pid_gap (set ps) (pid + 1) chk \<and> pid < chk \<and> 0 < pid \<and> chk \<le> PID_MAX \<and> (pid_apart (set ps) \<longrightarrow> pid_gap (set ps) pid chk)"
proof -
  let ?P = "\<lambda>ps pid chk. pid_gap (set ps) (pid + 1) chk \<and> pid < chk \<and> 0 < pid \<and> chk \<le> PID_MAX \<and> (pid_apart (set ps) \<longrightarrow> pid_gap (set ps) pid chk)"
  have "case r of (pid, chk) \<Rightarrow> pid_gap (set ps) n c \<longrightarrow> 0 < n \<longrightarrow> c \<le> PID_MAX \<longrightarrow> ?P ps pid chk" if "pid_search ps n c = Some r" for r
    using _ that
  proof (rule pid_search.raw_induct)
    fix f ps n0 c0 r
    assume IH: "\<And>ps n c r. f ps n c = Some r \<Longrightarrow> case r of (pid, chk) \<Rightarrow> pid_gap (set ps) n c \<longrightarrow> 0 < n \<longrightarrow> c \<le> PID_MAX \<longrightarrow> ?P ps pid chk"
      and run: "(let next = (if PID_MAX \<le> n0 then 100 else n0); chk = (if PID_MAX \<le> n0 then 0 else c0) in
        if chk \<le> next
        then (case pid_scan ps next PID_MAX of (again, n, c) \<Rightarrow> if again then f ps n c else Some (n, c))
        else Some (next, chk)) = Some r"
    obtain pid chk where r: "r = (pid, chk)" by (cases r)
    define n where "n = (if PID_MAX \<le> n0 then 100 else n0)"
    define c where "c = (if PID_MAX \<le> n0 then 0 else c0)"
    obtain again n' c' where sc: "pid_scan ps n PID_MAX = (again, n', c')" by (metis prod_cases3)
    have lt: "n < PID_MAX" by (simp add: n_def PID_MAX_def)
    obtain x where x: "x \<notin> pids_of (set ps)"
      using ex_new_if_finite [of "pids_of (set ps)"] by (auto simp: pids_of_def infinite_UNIV_int)
    note pr = pid_scan_progress [OF sc lt x order_refl]
    have "?P ps pid chk" if a: "pid_gap (set ps) n0 c0" "0 < n0" "c0 \<le> PID_MAX"
    proof (cases "c \<le> n")
      case False
      then have "pid = n0" "chk = c0" "n0 < c0" using run r by (auto simp: n_def c_def Let_def split: if_splits)
      then show ?thesis using a by (auto simp: pid_gap_def)
    next
      case True
      have npos: "0 < n" using a(2) by (simp add: n_def)
      show ?thesis
      proof (cases again)
        case a2: True
        then have "f ps n' c' = Some r" using run True sc by (simp add: Let_def n_def c_def)
        moreover have "pid_gap (set ps) n' c'" using pr a2 by (auto simp: pid_gap_def)
        ultimately show ?thesis using IH [of ps n' c' r] r pr a2 npos by auto
      next
        case False
        then have "pid = n'" "chk = c'" using run True sc r by (auto simp: Let_def n_def c_def)
        then show ?thesis using pid_scan_gap [of ps n PID_MAX n' c' "{}"] sc False lt npos by (auto simp: pid_gap_def)
      qed
    qed
    then show "case r of (pid, chk) \<Rightarrow> pid_gap (set ps) n0 c0 \<longrightarrow> 0 < n0 \<longrightarrow> c0 \<le> PID_MAX \<longrightarrow> ?P ps pid chk" using r by simp
  qed
  with assms show ?thesis by blast
qed

lemma search_found:
  assumes "pid_search ps n c = Some (pid, chk)" "pid_gap (set ps) n c" "0 < n" "c \<le> PID_MAX"
  shows "pid < chk" "0 < pid" "chk \<le> PID_MAX" "pid \<notin> pids_of (set ps) \<Longrightarrow> pid_gap (set ps) pid chk"
    "n < c \<or> pid_apart (set ps) \<Longrightarrow> pid \<notin> pids_of (set ps)"
proof -
  note G = pid_search_gap [OF assms]
  show b: "pid < chk" "0 < pid" "chk \<le> PID_MAX" using G by blast+
  show "pid_gap (set ps) pid chk" if "pid \<notin> pids_of (set ps)"
    unfolding pid_gap_def
  proof clarify
    fix q g assume q: "(q, g) \<in> set ps"
    then have "q \<noteq> pid" "g \<noteq> pid" using that by (force simp: pids_of_def)+
    moreover have "q \<notin> {pid + 1..<chk} \<and> g \<notin> {pid + 1..<chk}" using G q unfolding pid_gap_def by blast
    ultimately show "q \<notin> {pid..<chk} \<and> g \<notin> {pid..<chk}" by auto
  qed
  assume "n < c \<or> pid_apart (set ps)"
  then have "pid_gap (set ps) pid chk"
  proof
    assume "n < c"
    then have "pid_search ps n c = Some (n, c)" using assms(4) by (subst pid_search.simps) (simp add: Let_def)
    then show ?thesis using assms by simp
  qed (use G in blast)
  then show "pid \<notin> pids_of (set ps)" using b(1) by (fastforce simp: pids_of_def pid_gap_def)
qed

section \<open>What the links keep\<close>

lemma set_insert_after: "p \<in> set xs \<Longrightarrow> set (insert_after p q xs) = insert q (set xs)"
  by (induction xs) auto

lemma distinct_insert_after: "distinct xs \<Longrightarrow> q \<notin> set xs \<Longrightarrow> distinct (insert_after p q xs)"
proof (induction xs)
  case (Cons x xs)
  moreover have "set (insert_after p q xs) \<subseteq> insert q (set xs)" by (induction xs) auto
  ultimately show ?case by auto
qed simp

section \<open>Process groups after a fork\<close>

text \<open>The numbers of the processes and of their groups.\<close>

definition numbers_of :: "jsys \<Rightarrow> nat set \<Rightarrow> (int \<times> int) set" where
  "numbers_of s ps = {(pid, pgid). \<exists>p \<in> ps. \<exists>pr g G. jprocs s p = Some pr \<and> p_pgrp pr = Some g \<and> pgrps s g = Some G \<and>
     pid = p_pid pr \<and> pgid = pg_id G}"

definition numbers :: "jsys \<Rightarrow> (int \<times> int) set" where
  "numbers s = numbers_of s UNIV"

text \<open>The state after the new process is linked to its parent and its group.\<close>

definition forked :: "nat \<Rightarrow> nat \<Rightarrow> jproc \<Rightarrow> addr \<Rightarrow> jsys \<Rightarrow> jsys \<Rightarrow> bool" where
  "forked p2 p1 ch g s s' \<longleftrightarrow>
     (\<exists>pr G. jprocs s p1 = Some pr \<and> p_pgrp pr = Some g \<and> pgrps s g = Some G \<and>
        jprocs s' = (jprocs s)(p1 \<mapsto> pr\<lparr>p_children := p2 # p_children pr\<rparr>, p2 \<mapsto> ch) \<and>
        pgrps s' = (pgrps s)(g \<mapsto> G\<lparr>pg_mem := insert_after p1 p2 (pg_mem G)\<rparr>)) \<and>
     sessions s' = sessions s \<and> jttys s' = jttys s \<and> pgrphash s' = pgrphash s \<and>
     p_pptr ch = Some p1 \<and> p_children ch = [] \<and> p_pgrp ch = Some g \<and> p_stat ch = SRUN"

lemma forked_views:
  assumes "forked p2 p1 ch g s s'" "jprocs s p2 = None"
  shows "grp s' = (grp s)(p2 \<mapsto> g)" "parent s' = (parent s)(p2 \<mapsto> p1)" "live s' q \<longleftrightarrow> q = p2 \<or> live s q"
    "ses s' = ses s" "jobc s' = jobc s" "dom (jprocs s') = insert p2 (dom (jprocs s))" "dom (pgrps s') = dom (pgrps s)"
    "grp s p1 = Some g" "p1 \<noteq> p2"
proof -
  obtain pr G where f: "jprocs s p1 = Some pr" "p_pgrp pr = Some g" "pgrps s g = Some G"
    "jprocs s' = (jprocs s)(p1 \<mapsto> pr\<lparr>p_children := p2 # p_children pr\<rparr>, p2 \<mapsto> ch)"
    "pgrps s' = (pgrps s)(g \<mapsto> G\<lparr>pg_mem := insert_after p1 p2 (pg_mem G)\<rparr>)"
    and ch: "p_pptr ch = Some p1" "p_pgrp ch = Some g" "p_stat ch = SRUN"
    using assms(1) unfolding forked_def by blast
  show "p1 \<noteq> p2" using f(1) assms(2) by auto
  show "grp s' = (grp s)(p2 \<mapsto> g)" "parent s' = (parent s)(p2 \<mapsto> p1)" "grp s p1 = Some g"
    using f(1,2) ch by (auto simp: grp_def parent_def f(4))
  show "live s' q \<longleftrightarrow> q = p2 \<or> live s q" using f(1) ch(3) by (auto simp: live_def f(4))
  show "ses s' = ses s" "jobc s' = jobc s" "dom (pgrps s') = dom (pgrps s)"
    using f(3) by (auto simp: ses_def jobc_def f(5) fun_eq_iff)
  show "dom (jprocs s') = insert p2 (dom (jprocs s))" using f(1) by (auto simp: f(4))
qed

lemma forked_family:
  assumes "forked p2 p1 ch g s s'" "jprocs s p2 = None" "family_ok s"
  shows "family_ok s'"
proof -
  note v = forked_views [OF assms(1,2)]
  obtain pr G where f: "jprocs s p1 = Some pr" "p_pgrp pr = Some g" "pgrps s g = Some G"
    "jprocs s' = (jprocs s)(p1 \<mapsto> pr\<lparr>p_children := p2 # p_children pr\<rparr>, p2 \<mapsto> ch)"
    and ch: "p_pptr ch = Some p1" "p_children ch = []" "p_pgrp ch = Some g"
    using assms(1) unfolding forked_def by blast
  have par: "parent s c = Some p \<Longrightarrow> jprocs s p \<noteq> None \<and> p \<noteq> c" for c p using assms(3) unfolding family_ok_def by blast
  have np: "parent s c \<noteq> Some p2" "parent s p2 = None" for c using par [of c p2] assms(2) by (auto simp: parent_def)
  have pg: "pgrps s' x \<noteq> None \<longleftrightarrow> pgrps s x \<noteq> None" for x using v(7) by blast
  show ?thesis unfolding family_ok_def
  proof (intro conjI allI impI)
    show "finite (dom (jprocs s'))" using assms(3) unfolding v(6) family_ok_def by simp
  next
    fix p qr assume q: "jprocs s' p = Some qr"
    consider "p = p2" "qr = ch" | "p = p1" "qr = pr\<lparr>p_children := p2 # p_children pr\<rparr>" | "p \<noteq> p1" "p \<noteq> p2" "jprocs s p = Some qr"
      using q v(9) by (auto simp: f(4) split: if_splits)
    then have "(\<exists>g. p_pgrp qr = Some g \<and> pgrps s g \<noteq> None) \<and> distinct (p_children qr) \<and> set (p_children qr) = {c. parent s' c = Some p}"
    proof cases
      case 1
      then show ?thesis using f(3) ch np v(9) by (auto simp: v(2))
    next
      case 2
      then show ?thesis using f(2,3) family_okD(2,3) [OF assms(3) f(1)] np by (auto simp: v(2))
    next
      case 3
      then show ?thesis using family_okD [OF assms(3) 3(3)] np by (auto simp: v(2))
    qed
    then show "\<exists>g. p_pgrp qr = Some g \<and> pgrps s' g \<noteq> None" "distinct (p_children qr)" "set (p_children qr) = {c. parent s' c = Some p}"
      unfolding pg by blast+
  next
    fix c p assume "parent s' c = Some p"
    then show "jprocs s' p \<noteq> None" "p \<noteq> c" using par [of c p] v(9) f(1) by (auto simp: v(2) f(4) split: if_splits)
  qed
qed

lemma forked_table:
  assumes "forked p2 p1 ch g s s'" "jprocs s p2 = None" "table_ok {} s"
  shows "table_ok {} s'"
proof -
  note v = forked_views [OF assms(1,2)]
  obtain G where f: "pgrps s g = Some G" "pgrps s' = (pgrps s)(g \<mapsto> G\<lparr>pg_mem := insert_after p1 p2 (pg_mem G)\<rparr>)"
    and eqs: "sessions s' = sessions s" "jttys s' = jttys s" "pgrphash s' = pgrphash s"
    using assms(1) unfolding forked_def by blast
  have mem: "distinct (pg_mem G)" "set (pg_mem G) = {p. grp s p = Some g}" using table_okD(2) [OF assms(3) f(1)] by auto
  have n2: "grp s p2 = None" using assms(2) by (simp add: grp_def)
  have get: "\<exists>X0. pgrps s x = Some X0 \<and> pg_session X = pg_session X0 \<and> pg_id X = pg_id X0" if "pgrps s' x = Some X" for x X
    using that f(1) by (auto simp: f(2) split: if_splits)
  have hash: "{x. \<exists>X. pgrps s' x = Some X \<and> PIDHASH (pg_id X) = h} = {x. \<exists>X. pgrps s x = Some X \<and> PIDHASH (pg_id X) = h}" for h
    using f(1) by (auto simp: f(2))
  show ?thesis unfolding table_ok_def hash eqs v(4,7)
  proof (intro conjI allI impI)
    fix x X assume x: "pgrps s' x = Some X"
    have "distinct (pg_mem X) \<and> set (pg_mem X) = {p. grp s' p = Some x} \<and> pg_mem X \<noteq> []"
    proof (cases "x = g")
      case True
      have "p1 \<in> set (pg_mem G)" "p2 \<notin> set (pg_mem G)" using v(8) n2 by (simp_all add: mem(2))
      then show ?thesis using True x mem set_insert_after [of p1 "pg_mem G" p2] distinct_insert_after [OF mem(1), of p2 p1]
        by (auto simp: f(2) v(1))
    next
      case False
      then have X: "pgrps s x = Some X" using x by (simp add: f(2))
      moreover have "{p. grp s' p = Some x} = {p. grp s p = Some x}" using False n2 by (auto simp: v(1))
      ultimately show ?thesis using table_okD(2,3) [OF assms(3) X] by auto
    qed
    then show "distinct (pg_mem X)" "set (pg_mem X) = {p. grp s' p = Some x}" "pg_mem X = [] \<Longrightarrow> x \<in> {}" by blast+
    show "sessions s (pg_session X) \<noteq> None" using get [OF x] table_okD(4) [OF assms(3)] by metis
  next
    fix x y X Y assume "pgrps s' x = Some X" "pgrps s' y = Some Y" "pg_id X = pg_id Y"
    then show "x = y" using get [of x X] get [of y Y] table_okD(7) [OF assms(3)] by auto
  qed (use assms(3) in \<open>auto simp: table_ok_def\<close>)
qed

text \<open>The child does not count: its parent is in its group.\<close>

lemma forked_jobc:
  assumes "forked p2 p1 ch g s s'" "jprocs s p2 = None" "family_ok s" "jobc_ok s"
  shows "jobc_ok s'"
proof -
  note v = forked_views [OF assms(1,2)]
  have par: "parent s q \<noteq> Some p2" for q using assms(2,3) unfolding family_ok_def by blast
  have n: "\<not> qual s' p2 x" for x using v(8,9) by (auto simp: qual_def links_def v(1,2))
  have l: "links s' = links s" by (simp add: links_def fun_eq_iff v(4))
  have q: "qual s' q x = qual s q x" if "q \<noteq> p2" for q x
  proof -
    have "(\<exists>pp. parent s' q = Some pp \<and> links s (grp s' pp) x) \<longleftrightarrow> (\<exists>pp. parent s q = Some pp \<and> links s (grp s pp) x)"
      using that par by (metis fun_upd_other v(1) v(2))
    then show ?thesis using that by (simp add: qual_def l v(1,3))
  qed
  have fin: "finite (dom (jprocs s))" and nin: "p2 \<notin> dom (jprocs s)" using assms(2,3) by (auto simp: family_ok_def)
  have "(\<Sum>q\<in>dom (jprocs s'). of_bool (qual s' q x)) = (\<Sum>q\<in>dom (jprocs s). of_bool (qual s q x) :: int)" for x
  proof -
    have "q \<noteq> p2" if "q \<in> dom (jprocs s)" for q using that nin by auto
    then have "(\<Sum>q\<in>dom (jprocs s). of_bool (qual s' q x)) = (\<Sum>q\<in>dom (jprocs s). of_bool (qual s q x) :: int)"
      by (intro sum.cong) (simp_all add: q)
    then show ?thesis unfolding v(6) sum.insert [OF fin nin] using n by simp
  qed
  moreover have "pgrps s' x \<noteq> None \<longleftrightarrow> pgrps s x \<noteq> None" for x using v(7) by blast
  ultimately show ?thesis using assms(4) by (simp add: jobc_ok_def v(5))
qed

lemma forked_pids:
  assumes "forked p2 p1 ch g s s'" "jprocs s p2 = None" "pid_ok s" "leader_ok s"
    and new: "\<forall>q qr. jprocs s q = Some qr \<longrightarrow> p_pid qr \<noteq> p_pid ch" "\<forall>x X. pgrps s x = Some X \<longrightarrow> pg_id X \<noteq> p_pid ch"
    and nl: "\<forall>a se. sessions s a = Some se \<longrightarrow> s_leader se \<noteq> Some p2"
  shows "pid_ok s'" "leader_ok s'"
proof -
  note v = forked_views [OF assms(1,2)]
  obtain pr G where f: "jprocs s p1 = Some pr" "p_pgrp pr = Some g" "pgrps s g = Some G"
    "jprocs s' = (jprocs s)(p1 \<mapsto> pr\<lparr>p_children := p2 # p_children pr\<rparr>, p2 \<mapsto> ch)"
    "pgrps s' = (pgrps s)(g \<mapsto> G\<lparr>pg_mem := insert_after p1 p2 (pg_mem G)\<rparr>)"
    and eqs: "sessions s' = sessions s"
    using assms(1) unfolding forked_def by blast
  have getp: "q = p2 \<and> qr = ch \<or> q \<noteq> p2 \<and> (\<exists>q0. jprocs s q = Some q0 \<and> p_pid q0 = p_pid qr \<and> p_pgrp q0 = p_pgrp qr)"
    if "jprocs s' q = Some qr" for q qr using that f(1) by (auto simp: f(4) split: if_splits)
  have getg: "\<exists>X0. pgrps s x = Some X0 \<and> pg_session X = pg_session X0 \<and> pg_id X = pg_id X0" if "pgrps s' x = Some X" for x X
    using that f(3) by (auto simp: f(5) split: if_splits)
  have so: "sess_of s' q = sess_of s q" if "q \<noteq> p2" for q using that by (simp add: sess_of_def v(1,4))
  show "pid_ok s'" unfolding pid_ok_def
  proof (intro conjI allI impI)
    fix p q pr qr assume a: "jprocs s' p = Some pr" "jprocs s' q = Some qr" "p_pid pr = p_pid qr"
    show "p = q" using getp [OF a(1)] getp [OF a(2)] a(3) new(1) assms(3) unfolding pid_ok_def by metis
  next
    fix p pr x X assume a: "jprocs s' p = Some pr" "pgrps s' x = Some X" "pg_id X = p_pid pr"
    obtain X0 where X0: "pgrps s x = Some X0" "pg_session X = pg_session X0" "pg_id X = pg_id X0" using getg [OF a(2)] by blast
    then have p: "p \<noteq> p2" using new(2) a(3) getp [OF a(1)] by metis
    then obtain q0 where "jprocs s p = Some q0" "p_pid q0 = p_pid pr" using getp [OF a(1)] by blast
    then show "sess_of s' p = Some (pg_session X)" using assms(3) X0 a(3) so [OF p] unfolding pid_ok_def by metis
  qed
  show "leader_ok s'" unfolding leader_ok_def eqs
  proof (intro allI impI)
    fix p pr x X se assume a: "jprocs s' p = Some pr" "p_pgrp pr = Some x" "pgrps s' x = Some X"
      "sessions s (pg_session X) = Some se" "s_leader se = Some p"
    obtain X0 where X0: "pgrps s x = Some X0" "pg_session X = pg_session X0" "pg_id X = pg_id X0" using getg [OF a(3)] by blast
    have "p \<noteq> p2" using a(4,5) nl by blast
    then obtain q0 where q0: "jprocs s p = Some q0" "p_pid q0 = p_pid pr" "p_pgrp q0 = p_pgrp pr" using getp [OF a(1)] by blast
    have "pg_id X0 = p_pid q0" using assms(4) q0(1,3) a(2,4,5) X0(1,2) unfolding leader_ok_def by metis
    then show "pg_id X = p_pid pr" using X0(3) q0(2) by simp
  qed
qed

lemma forked_numbers:
  assumes "forked p2 p1 ch g s s'" "jprocs s p2 = None"
  shows "numbers s' \<subseteq> numbers s \<union> {p_pid ch} \<times> snd ` numbers s"
proof (rule subsetI)
  obtain pr G where f: "jprocs s p1 = Some pr" "p_pgrp pr = Some g" "pgrps s g = Some G"
    "jprocs s' = (jprocs s)(p1 \<mapsto> pr\<lparr>p_children := p2 # p_children pr\<rparr>, p2 \<mapsto> ch)"
    "pgrps s' = (pgrps s)(g \<mapsto> G\<lparr>pg_mem := insert_after p1 p2 (pg_mem G)\<rparr>)" and ch: "p_pgrp ch = Some g"
    using assms(1) unfolding forked_def by blast
  have mem: "(p_pid qr, pg_id X) \<in> numbers s" if "jprocs s q = Some qr" "p_pgrp qr = Some x" "pgrps s x = Some X" for q qr x X
    using that unfolding numbers_def numbers_of_def by blast
  fix n assume "n \<in> numbers s'"
  then obtain q qr x X where n: "n = (p_pid qr, pg_id X)" "jprocs s' q = Some qr" "p_pgrp qr = Some x" "pgrps s' x = Some X"
    unfolding numbers_def numbers_of_def by blast
  obtain X0 where X0: "pgrps s x = Some X0" "pg_id X = pg_id X0" using n(4) f(3) by (auto simp: f(5) split: if_splits)
  show "n \<in> numbers s \<union> {p_pid ch} \<times> snd ` numbers s"
  proof (cases "q = p2")
    case True
    then have "qr = ch" "x = g" using n(2,3) ch by (auto simp: f(4))
    then show ?thesis using mem [OF f(1-3)] X0 f(3) n(1) by force
  next
    case False
    then obtain q0 where "jprocs s q = Some q0" "p_pid q0 = p_pid qr" "p_pgrp q0 = p_pgrp qr"
      using n(2) f(1) by (auto simp: f(4) split: if_splits)
    then show ?thesis using mem [of q q0 x X0] X0 n(1,3) by simp
  qed
qed

text \<open>
  The new process is a live child of its parent in the parent's group, found by its number, and
  the tables of job control are right again.
\<close>

lemma fork_jobs_ok:
  assumes ok: "sys_ok s" and p1: "jprocs s p1 = Some pr" and fresh: "jprocs s p2 = None"
    and nl: "\<forall>a se. sessions s a = Some se \<longrightarrow> s_leader se \<noteq> Some p2"
    and new: "\<forall>q qr. jprocs s q = Some qr \<longrightarrow> p_pid qr \<noteq> pid" "\<forall>x X. pgrps s x = Some X \<longrightarrow> pg_id X \<noteq> pid"
  shows "\<exists>s'. fork_jobs p2 p1 pid s = Done s' \<and> sys_ok s' \<and> pfind pid s' = Some p2 \<and> grp s' p2 = grp s p1 \<and>
    parent s' p2 = Some p1 \<and> (\<forall>q. q \<noteq> p2 \<longrightarrow> grp s' q = grp s q \<and> parent s' q = parent s q) \<and>
    dom (jprocs s') = insert p2 (dom (jprocs s)) \<and> numbers s' \<subseteq> numbers s \<union> {pid} \<times> snd ` numbers s \<and>
    sessions s' = sessions s \<and> ses s' = ses s \<and> (\<forall>q. live s' q \<longleftrightarrow> q = p2 \<or> live s q) \<and>
    map_option p_pid (jprocs s' p2) = Some pid \<and> (\<forall>q. q \<noteq> p2 \<longrightarrow> map_option p_pid (jprocs s' q) = map_option p_pid (jprocs s q))"
proof -
  have inv: "family_ok s" "table_ok {} s" "leader_ok s" "jobc_ok s" "pid_ok s" "pg_inv s" and rt: "rooted s"
    and ph: "hash_ok s"
    using ok by (auto simp: sys_ok_def job_inv_def pg_inv_def)
  obtain g G se where g: "p_pgrp pr = Some g" "pgrps s g = Some G" "get_session p1 s = Done (pg_session G, se)" "get_pgrp p1 s = Done (g, G)"
    using get_session_of [OF inv(6) p1] by metis
  define ch where "ch = \<lparr>p_pid = pid, p_pptr = Some p1, p_children = [], p_pgrp = Some g, p_stat = SRUN,
    p_sctty = (s_ttyvp se \<noteq> None \<and> p_sctty pr), p_sexec = False\<rparr>"
  define s' where "s' = s\<lparr>jprocs := (jprocs s)(p1 \<mapsto> pr\<lparr>p_children := p2 # p_children pr\<rparr>, p2 \<mapsto> ch),
    pgrps := (pgrps s)(g \<mapsto> G\<lparr>pg_mem := insert_after p1 p2 (pg_mem G)\<rparr>),
    pidhash := (pidhash s)(PIDHASH pid := p2 # pidhash s (PIDHASH pid))\<rparr>"
  have run: "fork_jobs p2 p1 pid s = Done s'"
    using p1 g(3,4) by (simp add: fork_jobs_def enterpidhash_def s'_def ch_def)
  have fk: "forked p2 p1 ch g s s'" using p1 g(1,2) by (auto simp: forked_def s'_def ch_def)
  note v = forked_views [OF fk fresh]
  have "pid_ok s'" "leader_ok s'" using forked_pids [OF fk fresh inv(5,3) _ _ nl] new by (auto simp: ch_def)
  then have ji: "job_inv s'" using forked_family [OF fk fresh inv(1)] forked_table [OF fk fresh inv(2)] forked_jobc [OF fk fresh inv(1,4)]
    by (simp add: job_inv_def pg_inv_def)
  obtain d :: "nat \<Rightarrow> nat" where d: "\<And>p pp. parent s p = Some pp \<Longrightarrow> d pp < d p" using rt unfolding rooted_def by blast
  have np: "parent s c \<noteq> Some p2" for c using inv(1) fresh unfolding family_ok_def by blast
  have "rooted s'" unfolding rooted_def
  proof (intro conjI exI allI impI)
    fix p pp assume "parent s' p = Some pp"
    then show "(d(p2 := Suc (d p1))) pp < (d(p2 := Suc (d p1))) p" using d np v(9) by (auto simp: v(2) split: if_splits)
  next
    fix p qr assume "jprocs s' p = Some qr" "p_pid qr \<noteq> 0"
    then have "p = p2 \<or> (\<exists>q0. jprocs s p = Some q0 \<and> p_pid q0 \<noteq> 0)" using p1 by (auto simp: s'_def split: if_splits)
    then show "parent s' p \<noteq> None" using rt unfolding rooted_def v(2) by auto
  qed
  moreover have "hash_ok s'" unfolding hash_ok_def v(3)
  proof (intro allI conjI)
    fix h
    have n2: "p2 \<notin> set (pidhash s h)" using hash_okD(2) [OF ph, of p2 h] fresh by (simp add: live_def)
    then show "distinct (pidhash s' h)" using hash_okD(1) [OF ph, of h] by (auto simp: s'_def)
    have "q \<in> set (pidhash s' h) \<longleftrightarrow> (q = p2 \<or> live s q) \<and> map_option (\<lambda>pr. PIDHASH (p_pid pr)) (jprocs s' q) = Some h" for q
    proof (cases "q = p2")
      case True
      then show ?thesis using n2 by (auto simp: s'_def ch_def)
    next
      case False
      then have "map_option (\<lambda>pr. PIDHASH (p_pid pr)) (jprocs s' q) = map_option (\<lambda>pr. PIDHASH (p_pid pr)) (jprocs s q)"
        "q \<in> set (pidhash s' h) \<longleftrightarrow> q \<in> set (pidhash s h)" using p1 by (auto simp: s'_def)
      then show ?thesis using hash_okD(2) [OF ph, of q h] False by simp
    qed
    then show "set (pidhash s' h) = {q. (q = p2 \<or> live s q) \<and> map_option (\<lambda>pr. PIDHASH (p_pid pr)) (jprocs s' q) = Some h}" by blast
  qed
  ultimately have "sys_ok s'" using ji by (simp add: sys_ok_def)
  moreover have "pfind pid s' = Some p2" by (simp add: pfind_def s'_def ch_def)
  moreover have "numbers s' \<subseteq> numbers s \<union> {pid} \<times> snd ` numbers s" using forked_numbers [OF fk fresh] by (simp add: ch_def)
  moreover have "map_option p_pid (jprocs s' p2) = Some pid" "\<forall>q. q \<noteq> p2 \<longrightarrow> map_option p_pid (jprocs s' q) = map_option p_pid (jprocs s q)"
    using p1 by (auto simp: s'_def ch_def)
  moreover have "sessions s' = sessions s" by (simp add: s'_def)
  ultimately show ?thesis using run v(1-4,6,8) by (intro exI [of _ s']) simp
qed

section \<open>Shared structures after a fork\<close>

lemma fork_limits_ok:
  assumes inv: "lim_inv s" and p1: "p1 \<in> set (allproc s)" and p2: "p2 \<notin> set (allproc s)"
  shows "\<exists>s' a pl. fork_limits p2 p1 s = Done s' \<and> lim_inv (s'\<lparr>allproc := p2 # allproc s\<rparr>) \<and> limits_of s' p2 = limits_of s p1 \<and>
    (\<forall>q \<in> set (allproc s). limits_of s' q = limits_of s q) \<and> s' = s\<lparr>plimits := pl, p_limit := (p_limit s)(p2 \<mapsto> a)\<rparr>"
proof -
  obtain a where a: "p_limit s p1 = Some a" using inv p1 by (fastforce simp: lim_inv_def limits_of_def)
  obtain lim where lim: "plimits s a = Some lim" "get_limit p1 s = Done (a, lim)" "length (pl_rlimit lim) = RLIM_NLIMITS"
    "pl_refcnt lim = int (card (lim_users s a))" by (rule lim_inv_get [OF inv p1 a])
  define s' where "s' = s\<lparr>plimits := (plimits s)(a \<mapsto> lim\<lparr>pl_refcnt := pl_refcnt lim + 1\<rparr>), p_limit := (p_limit s)(p2 \<mapsto> a)\<rparr>"
  let ?t = "s'\<lparr>allproc := p2 # allproc s\<rparr>"
  have us: "lim_users ?t b = (if b = a then insert p2 (lim_users s a) else lim_users s b)" for b
    using p2 by (auto simp: lim_users_def s'_def)
  have nin: "p2 \<notin> lim_users s a" using p2 by (simp add: lim_users_def)
  have lo: "limits_of ?t p2 = limits_of s p1" using a lim(1) by (simp add: limits_of_def s'_def)
  have lq: "limits_of ?t q = limits_of s q" if "q \<in> set (allproc s)" for q
    using that p2 lim(1) by (cases "p_limit s q") (auto simp: limits_of_def s'_def)
  have "lim_inv ?t" unfolding lim_inv_def
  proof (intro conjI ballI allI impI)
    fix p assume "p \<in> set (allproc ?t)"
    then show "limits_of ?t p \<noteq> None" using inv lo lq p1 by (auto simp: lim_inv_def)
  next
    fix b l assume l: "plimits ?t b = Some l"
    have "length (pl_rlimit l) = RLIM_NLIMITS \<and> pl_refcnt l = int (card (lim_users ?t b))"
    proof (cases "b = a")
      case True
      then have "l = lim\<lparr>pl_refcnt := pl_refcnt lim + 1\<rparr>" using l by (simp add: s'_def)
      then show ?thesis using lim(3,4) nin True by (simp add: us)
    next
      case False
      then have "plimits s b = Some l" using l by (simp add: s'_def)
      then show ?thesis using inv False unfolding lim_inv_def us by simp
    qed
    then show "length (pl_rlimit l) = RLIM_NLIMITS" "pl_refcnt l = int (card (lim_users ?t b))" by blast+
  qed
  moreover have "fork_limits p2 p1 s = Done s'" using lim(2) by (simp add: fork_limits_def s'_def)
  moreover have "limits_of s' = limits_of ?t" by (simp add: limits_of_def fun_eq_iff)
  ultimately show ?thesis using lo lq
    by (intro exI [of _ s'] exI [of _ a] exI [of _ "(plimits s)(a \<mapsto> lim\<lparr>pl_refcnt := pl_refcnt lim + 1\<rparr>)"]) (simp add: s'_def)
qed

lemma fork_creds_ok:
  assumes ok: "cred_ok ext s" and p1: "p_cred s p1 = Some a" and p2: "p_cred s p2 = None" and few: "card (dom (p_cred s)) < 2 ^ 32 - 1"
  shows "\<exists>s'. fork_creds p2 p1 s = Done s' \<and> cred_ok ext s' \<and> pview s' p2 = pview s p1 \<and> unseen ext {p2} s s' \<and>
    p_cred s' = (p_cred s)(p2 \<mapsto> a)"
proof -
  have inv: "cred_inv ext s" and small: "refs_small s" using ok by (auto simp: cred_ok_def)
  obtain pc cr where pc: "pcreds s a = Some pc" "ucreds s (pc_ucred pc) = Some cr" "get_pcred p1 s = Done (a, pc)" "get_creds p1 s = Done (pc, cr)"
    by (rule cred_inv_get [OF inv p1])
  define s' where "s' = s\<lparr>pcreds := (pcreds s)(a \<mapsto> pc\<lparr>p_refcnt := p_refcnt pc + 1\<rparr>), p_cred := (p_cred s)(p2 \<mapsto> a),
    p_session := (p_session s)(p2 := p_session s p1)\<rparr>"
  have us: "pusers s' b = (if b = a then insert p2 (pusers s a) else pusers s b)" for b
    using p2 by (auto simp: pusers_def s'_def)
  have uu: "uusers s' = uusers s" using pc(1) by (auto simp: uusers_def s'_def fun_eq_iff)
  have nin: "p2 \<notin> pusers s a" using p2 by (simp add: pusers_def)
  have cnt: "unat (p_refcnt pc) = card (pusers s a)" using inv pc(1) unfolding cred_inv_def by blast
  have fin: "finite (dom (p_cred s))" using inv by (simp add: cred_inv_def)
  have "card (pusers s a) \<le> card (dom (p_cred s))" by (rule card_mono [OF fin]) (auto simp: pusers_def)
  then have "unat (p_refcnt pc + 1) = Suc (card (pusers s a))"
    using few cnt unat32_Suc [of "p_refcnt pc"] by simp
  then have cnt': "unat (p_refcnt pc + 1) = card (pusers s' a)" using nin finite_pusers [OF inv] by (simp add: us)
  have "cred_inv ext s'" unfolding cred_inv_def uu
  proof (intro conjI allI impI)
    fix p b assume "p_cred s' p = Some b"
    then show "pcreds s' b \<noteq> None" using inv unfolding cred_inv_def by (auto simp: s'_def split: if_splits)
  next
    fix b qc assume qc: "pcreds s' b = Some qc"
    have "ucreds s (pc_ucred qc) \<noteq> None \<and> unat (p_refcnt qc) = card (pusers s' b)"
    proof (cases "b = a")
      case True
      then have "qc = pc\<lparr>p_refcnt := p_refcnt pc + 1\<rparr>" using qc by (simp add: s'_def)
      then show ?thesis using pc(2) cnt' True by simp
    next
      case False
      then have "pcreds s b = Some qc" using qc by (simp add: s'_def)
      then show ?thesis using inv False unfolding cred_inv_def us by auto
    qed
    then show "ucreds s' (pc_ucred qc) \<noteq> None" "unat (p_refcnt qc) = card (pusers s' b)" by (simp_all add: s'_def)
  qed (use inv in \<open>auto simp: cred_inv_def s'_def\<close>)
  moreover have "refs_small s'" using small by (simp add: refs_small_def s'_def)
  moreover have "fork_creds p2 p1 s = Done s'" using pc(3) by (simp add: fork_creds_def s'_def)
  moreover have "pview s' p2 = pview s p1" using p1 pc(1,2) by (simp add: pview_def get_creds_def get_pcred_def s'_def view_of_def)
  moreover have "pview s' q = pview s q" if "q \<noteq> p2" for q
  proof (cases "p_cred s q")
    case None
    then show ?thesis using that by (simp add: pview_def get_creds_def get_pcred_def s'_def)
  next
    case (Some b)
    obtain qc cq where "pcreds s b = Some qc" "ucreds s (pc_ucred qc) = Some cq" by (rule cred_inv_get [OF inv Some])
    then show ?thesis using that Some pc(1,2) by (cases "b = a") (auto simp: pview_def get_creds_def get_pcred_def s'_def view_of_def)
  qed
  ultimately show ?thesis by (auto simp: cred_ok_def unseen_def uview_def s'_def)
qed

lemma fork_sched_ok:
  assumes "syn_inv s" "\<not> on_rq p2 s" "p_wchan (procs s p2) = 0" "p2 \<noteq> ssys.curproc s"
  shows "\<exists>s'. fork_sched p2 p1 s = Done s' \<and> syn_inv s' \<and> on_rq p2 s' \<and> (\<forall>q. q \<noteq> p2 \<longrightarrow> procs s' q = procs s q) \<and> ssys.curproc s' = ssys.curproc s"
proof -
  define f where "f = (\<lambda>pr :: sproc. (procs s p1)\<lparr>sproc.p_stat := SRUN, p_wchan := 0, p_slptime := 0, p_time := 0,
    p_pctcpu := 0, p_cpticks := 0, p_cpu := 0, p_sload := True, p_swexit := False, p_ssintr := False, p_stimo := False\<rparr>)"
  let ?s = "pupd p2 f s"
  have "syn_inv ?s" using assms by (intro inv_pupd) (auto simp: f_def syn_inv_def)
  moreover have "\<not> on_rq p2 ?s" using assms(2) by (simp add: on_rq_def)
  ultimately obtain s' where "setrq p2 ?s = Done s'" "syn_inv s'" "on_rq p2 s'" "procs s' = procs ?s" "ssys.curproc s' = ssys.curproc ?s"
    using setrq_inv [of ?s p2] assms(4) by (auto simp: f_def)
  moreover have "fork_sched p2 p1 s = setrq p2 ?s" by (simp add: fork_sched_def pupd_def f_def)
  ultimately show ?thesis by auto
qed

section \<open>The system call\<close>

text \<open>
  The system between two calls: the tables of the components are right and list the same
  processes, and the numbers from \<open>nextpid + 1\<close> up to \<open>pidchecked\<close> are not in use.
\<close>

definition fork_inv :: "(addr \<Rightarrow> nat) \<Rightarrow> fsys \<Rightarrow> bool" where
  "fork_inv ext s \<longleftrightarrow> sys_ok (r_jobs (f_sys s)) \<and> lim_inv (f_sys s) \<and> cred_ok ext (r_creds (f_sys s)) \<and> syn_inv (r_sched (f_sys s)) \<and>
     distinct (allproc (f_sys s) @ zombproc s) \<and> set (allproc (f_sys s) @ zombproc s) = dom (jprocs (r_jobs (f_sys s))) \<and>
     dom (p_cred (r_creds (f_sys s))) = dom (jprocs (r_jobs (f_sys s))) \<and>
     nprocs s = int (length (allproc (f_sys s) @ zombproc s)) \<and> maxproc s \<le> 14950 \<and>
     pid_gap (numbers (r_jobs (f_sys s))) (nextpid s + 1) (pidchecked s) \<and> 0 \<le> nextpid s \<and> pidchecked s \<le> PID_MAX"

text \<open>An address that no structure refers to.\<close>

definition fresh_proc :: "nat \<Rightarrow> fsys \<Rightarrow> bool" where
  "fresh_proc p s \<longleftrightarrow> jprocs (r_jobs (f_sys s)) p = None \<and>
     (\<forall>a se. sessions (r_jobs (f_sys s)) a = Some se \<longrightarrow> s_leader se \<noteq> Some p) \<and>
     \<not> on_rq p (r_sched (f_sys s)) \<and> p_wchan (procs (r_sched (f_sys s)) p) = 0 \<and> p \<noteq> ssys.curproc (r_sched (f_sys s))"

lemma pid_pairs_ok:
  assumes "pg_inv s" "set ps \<subseteq> dom (jprocs s)"
  shows "\<exists>xs. pid_pairs ps s = Done xs \<and> set xs = numbers_of s (set ps)"
  using assms(2)
proof (induction ps)
  case (Cons p ps)
  then obtain xs pr where xs: "pid_pairs ps s = Done xs" "set xs = numbers_of s (set ps)" and pr: "jprocs s p = Some pr" by auto
  obtain g G where "p_pgrp pr = Some g" "pgrps s g = Some G" "get_pgrp p s = Done (g, G)"
    using get_session_of [OF assms(1) pr] by metis
  with xs pr show ?case by (auto simp: numbers_of_def)
qed (simp add: numbers_of_def)

lemma numbers_of_all: "set ps = dom (jprocs s) \<Longrightarrow> numbers_of s (set ps) = numbers s"
  by (auto simp: numbers_def numbers_of_def)

text \<open>A number that is not among them is that of no process and, as no group is empty, of no group.\<close>

lemma unused_number:
  assumes inv: "pg_inv s" and gap: "pid_gap (numbers s) pid c" "pid < c"
  shows "\<forall>q qr. jprocs s q = Some qr \<longrightarrow> p_pid qr \<noteq> pid" "\<forall>x X. pgrps s x = Some X \<longrightarrow> pg_id X \<noteq> pid"
proof -
  have fam: "family_ok s" and tab: "table_ok {} s" using inv by (simp_all add: pg_inv_def)
  have no: "p_pid qr \<noteq> pid \<and> pg_id G \<noteq> pid" if "jprocs s q = Some qr" "p_pgrp qr = Some g" "pgrps s g = Some G" for q qr g G
  proof -
    have "(p_pid qr, pg_id G) \<in> numbers s" unfolding numbers_def numbers_of_def using that by blast
    then have "p_pid qr \<notin> {pid..<c} \<and> pg_id G \<notin> {pid..<c}" using gap(1) unfolding pid_gap_def by blast
    then show ?thesis using gap(2) by auto
  qed
  show "\<forall>q qr. jprocs s q = Some qr \<longrightarrow> p_pid qr \<noteq> pid" using family_okD(1) [OF fam] no by blast
  show "\<forall>x X. pgrps s x = Some X \<longrightarrow> pg_id X \<noteq> pid"
  proof (intro allI impI)
    fix x X assume X: "pgrps s x = Some X"
    then have "pg_mem X \<noteq> []" using table_okD(3) [OF tab] by blast
    then obtain q where "grp s q = Some x" using table_okD(2) [OF tab X] by (cases "pg_mem X") auto
    then show "pg_id X \<noteq> pid" using no [of q _ x X] X by (auto simp: grp_def bind_eq_Some_conv)
  qed
qed

lemma with_uid_total:
  assumes "cred_inv ext (r_creds s)" "set ps \<subseteq> dom (p_cred (r_creds s))"
  shows "\<exists>r. with_uid uid ps s = Done r"
  using assms(2)
proof (induction ps)
  case (Cons p ps)
  then obtain r a where "with_uid uid ps s = Done r" "p_cred (r_creds s) p = Some a" by auto
  moreover from this obtain pc cr where "get_creds p (r_creds s) = Done (pc, cr)" using cred_inv_get [OF assms(1)] by metis
  ultimately show ?case by (simp add: ucred_of_def)
qed simp

lemma fork_check_total:
  assumes "fork_inv ext s" "p1 \<in> set (allproc (f_sys s))"
  shows "\<exists>b. fork_check dg p1 s = Done b \<and> (\<not> b \<longrightarrow> nprocs s < maxproc s)"
proof -
  have ci: "cred_inv ext (r_creds (f_sys s))" and li: "lim_inv (f_sys s)" and dom: "dom (p_cred (r_creds (f_sys s))) = set (allproc (f_sys s) @ zombproc s)"
    using assms(1) by (auto simp: fork_inv_def cred_ok_def)
  obtain a where "p_cred (r_creds (f_sys s)) p1 = Some a" using assms(2) dom by auto
  then obtain pc cr where cr: "get_creds p1 (r_creds (f_sys s)) = Done (pc, cr)" using cred_inv_get [OF ci] by metis
  obtain l where "p_limit (f_sys s) p1 = Some l" using assms(2) li by (fastforce simp: lim_inv_def limits_of_def)
  then obtain lim where lim: "get_limit p1 (f_sys s) = Done (l, lim)" "length (pl_rlimit lim) = RLIM_NLIMITS" using lim_inv_get [OF li assms(2)] by metis
  obtain m where m: "with_uid (uint (cr_uid cr)) (allproc (f_sys s)) (f_sys s) = Done m" using with_uid_total [OF ci] dom by fastforce
  obtain z where z: "with_uid (uint (cr_uid cr)) (zombproc s) (f_sys s) = Done z" using with_uid_total [OF ci] dom by fastforce
  obtain e where e: "use_priv dg cr PRV_NO_UPROCLIMIT = Done e" using use_priv_root [of PRV_NO_UPROCLIMIT dg cr] by auto
  show ?thesis using cr lim m z e
    by (auto simp: fork_check_def ucred_of_def RLIM_NLIMITS_def RLIMIT_NPROC_def)
qed

lemma pid_gap_forked:
  assumes "pid_gap ns pid c" "ms \<subseteq> ns \<union> {pid} \<times> snd ` ns"
  shows "pid_gap ms (pid + 1) c"
  using assms unfolding pid_gap_def by fastforce

text \<open>With at most 14950 processes some number is free: each takes two of the 29900.\<close>

lemma free_number:
  assumes "fork_inv ext s" "nprocs s < maxproc s"
  shows "\<exists>x. 100 \<le> x \<and> x < PID_MAX \<and> x \<notin> pids_of (numbers (r_jobs (f_sys s)))"
proof (rule ccontr)
  let ?j = "r_jobs (f_sys s)"
  let ?D = "dom (jprocs ?j)"
  assume "\<not> ?thesis"
  then have sub: "{100..<PID_MAX} \<subseteq> pids_of (numbers ?j)" by auto
  have card: "card ?D = length (allproc (f_sys s) @ zombproc s)" and fin: "finite ?D" and few: "card ?D < 14950"
    using assms distinct_card [of "allproc (f_sys s) @ zombproc s"] by (auto simp: fork_inv_def)
  define f where "f = (\<lambda>p. (p_pid (the (jprocs ?j p)), pg_id (the (pgrps ?j (the (grp ?j p))))))"
  have img: "numbers ?j \<subseteq> f ` ?D"
  proof
    fix n assume "n \<in> numbers ?j"
    then obtain p pr g G where "jprocs ?j p = Some pr" "p_pgrp pr = Some g" "pgrps ?j g = Some G" "n = (p_pid pr, pg_id G)"
      unfolding numbers_def numbers_of_def by blast
    then have "n = f p" "p \<in> ?D" by (auto simp: f_def grp_def)
    then show "n \<in> f ` ?D" by blast
  qed
  have finn: "finite (numbers ?j)" using finite_subset [OF img] fin by simp
  have "card {100..<PID_MAX} \<le> card (pids_of (numbers ?j))" using sub finn by (intro card_mono) (auto simp: pids_of_def)
  also have "\<dots> \<le> card (numbers ?j) + card (numbers ?j)"
    unfolding pids_of_def by (rule le_trans [OF card_Un_le add_mono]) (rule card_image_le [OF finn])+
  also have "\<dots> \<le> card ?D + card ?D" using card_mono [OF _ img] card_image_le [OF fin, of f] fin by fastforce
  finally show False using few by (simp add: PID_MAX_def)
qed

text \<open>What a fork that succeeds makes of the tables.\<close>

definition forks_to :: "(addr \<Rightarrow> nat) \<Rightarrow> nat \<Rightarrow> nat \<Rightarrow> int \<Rightarrow> fsys \<Rightarrow> fsys \<Rightarrow> bool" where
  "forks_to ext p2 p1 pid s s' \<longleftrightarrow> pid \<notin> pids_of (numbers (r_jobs (f_sys s))) \<and>
     pfind pid (r_jobs (f_sys s')) = Some p2 \<and> parent (r_jobs (f_sys s')) p2 = Some p1 \<and>
     grp (r_jobs (f_sys s')) p2 = grp (r_jobs (f_sys s)) p1 \<and>
     (\<forall>q. q \<noteq> p2 \<longrightarrow> grp (r_jobs (f_sys s')) q = grp (r_jobs (f_sys s)) q \<and> parent (r_jobs (f_sys s')) q = parent (r_jobs (f_sys s)) q) \<and>
     pview (r_creds (f_sys s')) p2 = pview (r_creds (f_sys s)) p1 \<and> unseen ext {p2} (r_creds (f_sys s)) (r_creds (f_sys s')) \<and>
     limits_of (f_sys s') p2 = limits_of (f_sys s) p1 \<and> (\<forall>q \<in> set (allproc (f_sys s)). limits_of (f_sys s') q = limits_of (f_sys s) q) \<and>
     on_rq p2 (r_sched (f_sys s')) \<and> (\<forall>q. q \<noteq> p2 \<longrightarrow> procs (r_sched (f_sys s')) q = procs (r_sched (f_sys s)) q) \<and>
     ssys.curproc (r_sched (f_sys s')) = ssys.curproc (r_sched (f_sys s)) \<and>
     allproc (f_sys s') = p2 # allproc (f_sys s) \<and> zombproc s' = zombproc s \<and> nprocs s' = nprocs s + 1 \<and>
     sessions (r_jobs (f_sys s')) = sessions (r_jobs (f_sys s)) \<and> ses (r_jobs (f_sys s')) = ses (r_jobs (f_sys s)) \<and>
     (\<forall>q. live (r_jobs (f_sys s')) q \<longleftrightarrow> q = p2 \<or> live (r_jobs (f_sys s)) q) \<and>
     map_option p_pid (jprocs (r_jobs (f_sys s')) p2) = Some pid \<and>
     (\<forall>q. q \<noteq> p2 \<longrightarrow> map_option p_pid (jprocs (r_jobs (f_sys s')) q) = map_option p_pid (jprocs (r_jobs (f_sys s)) q)) \<and>
     dom (jprocs (r_jobs (f_sys s'))) = insert p2 (dom (jprocs (r_jobs (f_sys s))))"

text \<open>The number that the search finds for a child.\<close>

definition next_number :: "fsys \<Rightarrow> int option" where
  "next_number s =
     (case pid_pairs (allproc (f_sys s) @ zombproc s) (r_jobs (f_sys s)) of
        Done ps \<Rightarrow> map_option fst (pid_search ps (nextpid s + 1) (pidchecked s))
      | _ \<Rightarrow> None)"

lemma fork1_number: "fork1 dg p2 p1 s = Some (Done (Inr (pid, s'))) \<Longrightarrow> next_number s = Some pid"
  by (auto simp: fork1_def next_number_def kmap_Done_iff split: kres.splits bool.splits)

lemma number_found:
  assumes inv: "fork_inv ext s" and p1: "p1 \<in> set (allproc (f_sys s))" and pass: "fork_check dg p1 s = Done False"
  shows "\<exists>ps pid chk. pid_pairs (allproc (f_sys s) @ zombproc s) (r_jobs (f_sys s)) = Done ps \<and> set ps = numbers (r_jobs (f_sys s)) \<and>
    pid_search ps (nextpid s + 1) (pidchecked s) = Some (pid, chk) \<and> next_number s = Some pid \<and> pid < chk \<and> 0 < pid \<and> chk \<le> PID_MAX \<and>
    (pid \<notin> pids_of (numbers (r_jobs (f_sys s))) \<longrightarrow> pid_gap (numbers (r_jobs (f_sys s))) pid chk) \<and>
    (nextpid s + 1 < pidchecked s \<or> pid_apart (numbers (r_jobs (f_sys s))) \<longrightarrow> pid \<notin> pids_of (numbers (r_jobs (f_sys s))))"
proof -
  let ?r = "f_sys s"
  let ?j = "r_jobs ?r"
  have pg: "pg_inv ?j" and all: "set (allproc ?r @ zombproc s) = dom (jprocs ?j)"
    and gap: "pid_gap (numbers ?j) (nextpid s + 1) (pidchecked s)" "0 \<le> nextpid s" "pidchecked s \<le> PID_MAX"
    using inv by (simp_all add: fork_inv_def sys_ok_def job_inv_def)
  have np: "nprocs s < maxproc s" using fork_check_total [OF inv p1, of dg] pass by auto
  obtain ps where ps: "pid_pairs (allproc ?r @ zombproc s) ?j = Done ps" "set ps = numbers ?j"
    using pid_pairs_ok [OF pg eq_refl [OF all]] numbers_of_all [OF all] by auto
  obtain pid chk where search: "pid_search ps (nextpid s + 1) (pidchecked s) = Some (pid, chk)"
    using free_number [OF inv np] pid_search_total [of _ ps] ps(2) by fastforce
  have found: "pid < chk" "0 < pid" "chk \<le> PID_MAX" "pid \<notin> pids_of (set ps) \<Longrightarrow> pid_gap (set ps) pid chk"
    "nextpid s + 1 < pidchecked s \<or> pid_apart (set ps) \<Longrightarrow> pid \<notin> pids_of (set ps)"
    using search_found [OF search] gap ps(2) by auto
  have "next_number s = Some pid" using ps(1) search by (simp add: next_number_def)
  then show ?thesis using ps search found by (intro exI [of _ ps] exI [of _ pid] exI [of _ chk]) simp
qed

lemma fork1_ok:
  assumes inv: "fork_inv ext s" and p1: "p1 \<in> set (allproc (f_sys s))" and fresh: "fresh_proc p2 s"
    and free: "next_number s = Some pid" "pid \<notin> pids_of (numbers (r_jobs (f_sys s)))"
    and pass: "fork_check dg p1 s = Done False"
  shows "\<exists>s'. fork1 dg p2 p1 s = Some (Done (Inr (pid, s'))) \<and> fork_inv ext s' \<and> forks_to ext p2 p1 pid s s'"
proof -
  let ?r = "f_sys s"
  let ?j = "r_jobs ?r"
  have ok: "sys_ok ?j" "lim_inv ?r" "cred_ok ext (r_creds ?r)" "syn_inv (r_sched ?r)" and dis: "distinct (allproc ?r @ zombproc s)"
    and all: "set (allproc ?r @ zombproc s) = dom (jprocs ?j)" and doms: "dom (p_cred (r_creds ?r)) = dom (jprocs ?j)"
    and np: "nprocs s = int (length (allproc ?r @ zombproc s))" "maxproc s \<le> 14950" using inv by (simp_all add: fork_inv_def)
  have fr: "jprocs ?j p2 = None" "\<forall>a se. sessions ?j a = Some se \<longrightarrow> s_leader se \<noteq> Some p2" "\<not> on_rq p2 (r_sched ?r)"
    "p_wchan (procs (r_sched ?r) p2) = 0" "p2 \<noteq> ssys.curproc (r_sched ?r)" using fresh by (simp_all add: fresh_proc_def)
  have pg: "pg_inv ?j" using ok(1) by (simp add: sys_ok_def job_inv_def)
  have np2: "nprocs s < maxproc s" using fork_check_total [OF inv p1, of dg] pass by auto
  obtain ps chk where ps: "pid_pairs (allproc ?r @ zombproc s) ?j = Done ps" "set ps = numbers ?j"
    and search: "pid_search ps (nextpid s + 1) (pidchecked s) = Some (pid, chk)"
    and found: "pid_gap (numbers ?j) pid chk" "pid < chk" "0 < pid" "chk \<le> PID_MAX"
    using number_found [OF inv p1 pass] free by auto
  note un = unused_number [OF pg found(1,2)]
  have d1: "p1 \<in> dom (jprocs ?j)" using p1 all by auto
  obtain pr a where p1s: "jprocs ?j p1 = Some pr" "p_cred (r_creds ?r) p1 = Some a"
    using d1 doms by blast
  have p2s: "p_cred (r_creds ?r) p2 = None" "p2 \<notin> set (allproc ?r)" using fr(1) doms all by (auto simp: domIff)
  have "card (dom (p_cred (r_creds ?r))) < 2 ^ 32 - 1"
    using np np2 distinct_card [OF dis] by (simp add: doms flip: all)
  then obtain c where c: "fork_creds p2 p1 (r_creds ?r) = Done c" "cred_ok ext c" "pview c p2 = pview (r_creds ?r) p1"
    "unseen ext {p2} (r_creds ?r) c" "p_cred c = (p_cred (r_creds ?r))(p2 \<mapsto> a)"
    using fork_creds_ok [OF ok(3) p1s(2) p2s(1)] by blast
  obtain j where j: "fork_jobs p2 p1 pid ?j = Done j" "sys_ok j" "pfind pid j = Some p2" "grp j p2 = grp ?j p1" "parent j p2 = Some p1"
    "\<forall>q. q \<noteq> p2 \<longrightarrow> grp j q = grp ?j q \<and> parent j q = parent ?j q" "dom (jprocs j) = insert p2 (dom (jprocs ?j))"
    "numbers j \<subseteq> numbers ?j \<union> {pid} \<times> snd ` numbers ?j" "sessions j = sessions ?j" "ses j = ses ?j" "\<forall>q. live j q \<longleftrightarrow> q = p2 \<or> live ?j q"
    "map_option p_pid (jprocs j p2) = Some pid" "\<forall>q. q \<noteq> p2 \<longrightarrow> map_option p_pid (jprocs j q) = map_option p_pid (jprocs ?j q)"
    using fork_jobs_ok [OF ok(1) p1s(1) fr(1,2) un] by blast
  obtain s1 l pl where s1: "fork_limits p2 p1 ?r = Done s1" "lim_inv (s1\<lparr>allproc := p2 # allproc ?r\<rparr>)" "limits_of s1 p2 = limits_of ?r p1"
    "s1 = ?r\<lparr>plimits := pl, p_limit := (p_limit ?r)(p2 \<mapsto> l)\<rparr>" "\<forall>q \<in> set (allproc ?r). limits_of s1 q = limits_of ?r q"
    using fork_limits_ok [OF ok(2) p1 p2s(2)] by blast
  obtain q where q: "fork_sched p2 p1 (r_sched ?r) = Done q" "syn_inv q" "on_rq p2 q" "\<forall>r. r \<noteq> p2 \<longrightarrow> procs q r = procs (r_sched ?r) r" "ssys.curproc q = ssys.curproc (r_sched ?r)"
    using fork_sched_ok [OF ok(4) fr(3-5)] by blast
  define r' where "r' = s1\<lparr>r_sched := q, r_creds := c, r_jobs := j, allproc := p2 # allproc ?r,
    p_ru := (p_ru ?r)(p2 := ru_zero), p_cru := (p_cru ?r)(p2 := ru_zero),
    p_utime := (p_utime ?r)(p2 := timerclear), p_stime := (p_stime ?r)(p2 := timerclear)\<rparr>"
  define s' where "s' = s\<lparr>f_sys := r', nprocs := nprocs s + 1, nextpid := pid, pidchecked := chk\<rparr>"
  have run: "fork1 dg p2 p1 s = Some (Done (Inr (pid, s')))"
    using pass ps(1) search c(1) j(1) s1(1) q(1) by (simp add: fork1_def fork_link_def s'_def r'_def)
  have lim': "lim_inv r'" "limits_of r' p2 = limits_of ?r p1" "\<forall>q \<in> set (allproc ?r). limits_of r' q = limits_of ?r q"
    using s1(2,3,5) by (auto simp: r'_def lim_inv_def lim_users_def limits_of_def)
  have finv: "fork_inv ext s'" unfolding fork_inv_def
    using j(2,7) c(2) q(2) lim'(1) dis all doms np c(5) s1(4) found(3,4) fr(1) pid_gap_forked [OF found(1) j(8)]
    by (simp add: s'_def r'_def) blast
  have "pid \<notin> pids_of (numbers ?j)" using found(1,2) by (fastforce simp: pids_of_def pid_gap_def)
  then have "forks_to ext p2 p1 pid s s'"
    using j(3-7,9-13) c(3,4) lim'(2,3) q(3-5) unfolding forks_to_def by (simp add: s'_def r'_def)
  then show ?thesis using run finv by blast
qed

text \<open>
  C13: \<open>fork1\<close>.  In a system whose tables are right and for an entry that is free, \<open>fork1\<close> reports
  \<open>EAGAIN\<close>, or the search for a number ends.  If the number it finds is that of no process and no group,
  which holds if it is from the run found by an earlier search, or no process is in a group
  whose number is next to its own (\<open>pid_search_reuses\<close> shows what happens otherwise), then \<open>fork1\<close> returns
  it and makes a process with it: it is found by that number,
  is a child of the caller in the caller's group and session, with the credentials and limits of
  the caller, and on a run queue; no other process changes its group or parent, and the tables are
  right again, with a run of unused numbers from the next number on.
\<close>

theorem fork1_creates:
  assumes inv: "fork_inv ext s" and p1: "p1 \<in> set (allproc (f_sys s))" and fresh: "fresh_proc p2 s"
  shows "fork1 dg p2 p1 s = Some (Done (Inl EAGAIN)) \<or>
    (\<exists>pid. next_number s = Some pid \<and>
       (nextpid s + 1 < pidchecked s \<or> pid_apart (numbers (r_jobs (f_sys s))) \<longrightarrow> pid \<notin> pids_of (numbers (r_jobs (f_sys s)))) \<and>
       (pid \<notin> pids_of (numbers (r_jobs (f_sys s))) \<longrightarrow>
         (\<exists>s'. fork1 dg p2 p1 s = Some (Done (Inr (pid, s'))) \<and> fork_inv ext s' \<and> forks_to ext p2 p1 pid s s')))"
proof -
  obtain b where b: "fork_check dg p1 s = Done b" using fork_check_total [OF inv p1] by blast
  show ?thesis
  proof (cases b)
    case False
    then have pass: "fork_check dg p1 s = Done False" using b by simp
    obtain pid where "next_number s = Some pid"
      "nextpid s + 1 < pidchecked s \<or> pid_apart (numbers (r_jobs (f_sys s))) \<longrightarrow> pid \<notin> pids_of (numbers (r_jobs (f_sys s)))"
      using number_found [OF inv p1 pass] by blast
    then show ?thesis using fork1_ok [OF inv p1 fresh _ _ pass] by blast
  qed (use b in \<open>simp add: fork1_def\<close>)
qed

text \<open>
  the limit on the number of a user's processes.  \<open>use_priv\<close> returns 0 for a privilege that
  is granted, so the count of the user's processes is compared with \<open>RLIMIT_NPROC\<close> exactly for
  the callers that have the privilege to ignore it; for everybody else only the size of the table
  counts, and the last slot is not kept for the superuser.
\<close>

theorem fork_limit_inverted:
  assumes "ucred_of p1 (f_sys s) = Done cr" "get_limit p1 (f_sys s) = Done (a, lim)" "RLIMIT_NPROC < length (pl_rlimit lim)"
    "with_uid (uint (cr_uid cr)) (allproc (f_sys s)) (f_sys s) = Done mine" "with_uid (uint (cr_uid cr)) (zombproc s) (f_sys s) = Done dead"
  shows "fork_check dg p1 s = Done (maxproc s \<le> nprocs s \<or>
    cr_uid cr = 0 \<and> (scast (cr_role cr) :: u32) \<le> ROLE_MGMT \<and>
      rlim_cur (pl_rlimit lim ! RLIMIT_NPROC) < int (length mine + length dead))"
proof -
  have "use_priv dg cr PRV_NO_UPROCLIMIT = Done (if cr_uid cr = 0 \<and> (scast (cr_role cr) :: u32) \<le> ROLE_MGMT then 0 else EPERM)"
    by (auto simp: use_priv_def not_less)
  then show ?thesis using assms by (auto simp: fork_check_def EPERM_def)
qed

text \<open>
  the search for a number can return one that is in use.  A pass moves \<open>nextpid\<close> on only once
  for a process, so the number of a process is missed when the number of its group is one below
  it: with a process 100 that leads the group 100 and its child 101, the search that wraps
  around returns 101.
\<close>

theorem pid_search_reuses:
  "pid_search [(101, 100), (100, 100)] 30000 30000 = Some (101, 30000)"
  by (subst pid_search.simps) (simp add: PID_MAX_def)

section \<open>An example\<close>

definition fsys_demo :: fsys where
  "fsys_demo = \<lparr>f_sys = rsys_demo\<lparr>allproc := [12, 11, 10], plimits := [30 \<mapsto> rlimit_demo\<lparr>pl_refcnt := 3\<rparr>],
       p_limit := [10 \<mapsto> 30, 11 \<mapsto> 30, 12 \<mapsto> 30],
       r_creds := \<lparr>ucreds = [70 \<mapsto> ucred_demo], pcreds = [50 \<mapsto> pcred_demo\<lparr>p_refcnt := 3\<rparr>],
         p_cred = [10 \<mapsto> 50, 11 \<mapsto> 50, 12 \<mapsto> 50], p_session = (\<lambda>_. 0), s_login = (\<lambda>_. [])\<rparr>\<rparr>,
     zombproc = [], nprocs = 3, maxproc = 100, nextpid = 2, pidchecked = 30000\<rparr>"

lemma fsys_demo_sel [simp]:
  "r_jobs (f_sys fsys_demo) = jsys_demo 12" "allproc (f_sys fsys_demo) = [12, 11, 10]" "zombproc fsys_demo = []"
  "r_sched (f_sys fsys_demo) = ssys_demo" "nextpid fsys_demo = 2" "pidchecked fsys_demo = 30000" "nprocs fsys_demo = 3" "maxproc fsys_demo = 100"
  by (simp_all add: fsys_demo_def rsys_demo_def)

lemma fsys_demo_lim: "lim_inv (f_sys fsys_demo)"
proof -
  have "lim_users (f_sys fsys_demo) 30 = {10, 11, 12}" by (auto simp: lim_users_def fsys_demo_def)
  then show ?thesis
    by (auto simp: lim_inv_def) (auto simp: fsys_demo_def rlimit_demo_def RLIM_NLIMITS_def limits_of_def split: if_splits)
qed

lemma fsys_demo_cred: "cred_ok ext_demo (r_creds (f_sys fsys_demo))" "dom (p_cred (r_creds (f_sys fsys_demo))) = {10, 11, 12}"
proof -
  let ?c = "r_creds (f_sys fsys_demo)"
  have "pusers ?c 50 = {10, 11, 12}" "uusers ?c 70 = {50}"
    by (auto simp: pusers_def uusers_def fsys_demo_def pcred_demo_def split: if_splits)
  moreover show "dom (p_cred ?c) = {10, 11, 12}" by (auto simp: fsys_demo_def)
  moreover have "dom (pcreds ?c) = {50}" by (auto simp: fsys_demo_def)
  ultimately show "cred_ok ext_demo ?c"
    by (auto simp: cred_ok_def cred_inv_def refs_small_def fsys_demo_def pcred_demo_def ucred_demo_def ext_demo_def
        groups_ok_def NGROUPS_MAX_def split: if_splits)
qed

lemma numbers_jsys_demo: "(pid, pgid) \<in> numbers (jsys_demo c) \<Longrightarrow> pid \<le> 2 \<and> pgid = 1"
proof -
  assume "(pid, pgid) \<in> numbers (jsys_demo c)"
  then obtain p pr g G where n: "jprocs (jsys_demo c) p = Some pr" "pgrps (jsys_demo c) g = Some G" "pid = p_pid pr" "pgid = pg_id G"
    unfolding numbers_def numbers_of_def by blast
  from n(1,3) have "pid \<le> 2" by (auto simp: jsys_demo_def jproc_demo_def split: if_splits)
  moreover from n(2,4) have "pgid = 1" by (auto simp: jsys_demo_def split: if_splits)
  ultimately show ?thesis by simp
qed

lemma fsys_demo_inv: "fork_inv ext_demo fsys_demo"
  using fsys_demo_lim fsys_demo_cred jsys_demo_ok ssys_demo_inv(1) jsys_demo_views(5)
  by (auto simp: fork_inv_def pid_gap_def PID_MAX_def dest!: numbers_jsys_demo)

lemma fsys_demo_fresh: "fresh_proc 13 fsys_demo"
  by (auto simp: fresh_proc_def ssys_demo_def sproc_demo_def on_rq_iff jsys_demo_def split: if_splits)

theorem fork1_creates_witness:
  "fork1 False 13 12 fsys_demo = Some (Done (Inl EAGAIN)) \<or>
   (\<exists>pid s'. fork1 False 13 12 fsys_demo = Some (Done (Inr (pid, s'))) \<and> pfind pid (r_jobs (f_sys s')) = Some 13)"
proof -
  have "12 \<in> set (allproc (f_sys fsys_demo))" "nextpid fsys_demo + 1 < pidchecked fsys_demo" by simp_all
  then show ?thesis using fork1_creates [OF fsys_demo_inv _ fsys_demo_fresh, of 12 False] unfolding forks_to_def by blast
qed

theorem fork_limit_inverted_witness:
  "fork_check False 12 fsys_demo = Done False"
proof -
  have cr: "ucred_of p (f_sys fsys_demo) = Done ucred_demo" if "p \<in> {10, 11, 12}" for p
    using that by (auto simp: ucred_of_def fsys_demo_def get_creds_def get_pcred_def pcred_demo_def)
  show ?thesis
    using fork_limit_inverted [of 12 fsys_demo ucred_demo 30 "rlimit_demo\<lparr>pl_refcnt := 3\<rparr>" "[12, 11, 10]" "[]" False] cr
    by (simp add: ucred_demo_def) (simp add: fsys_demo_def get_limit_def rlimit_demo_def RLIMIT_NPROC_def)
qed

end
