(* ===== verification/Exit.thy ===== *)
theory Exit
  imports Fork
begin

unbundle bit_operations_syntax

text \<open>
  Process termination and waiting: \<open>rexit\<close>, \<open>exit\<close>, \<open>wait4\<close> and \<open>reclaimproc\<close> of \<open>kern/exit.c\<close>, over the
  state of \<open>Fork\<close>, compiled with \<open>DIAGNOSTIC\<close>.  The releases of descriptors and address space and
  \<open>cpu_texit\<close> are recorded as events; the signal masks and the trace file are not modelled.
  \<open>curproc = NULL\<close> is the address 0.  The channel of a process is its address.  \<open>wait4\<close> is
  modelled by its passes: a pass returns, or it has come to the \<open>tsleep\<close> after which the code starts
  the next pass.
\<close>

section \<open>State\<close>

datatype xevent = Fdfree nat | Vmspace_free nat | Cpu_texit nat

record xsys =
  x_sys :: fsys
  x_callout :: callq
  initproc :: nat
  p_fd :: "nat \<Rightarrow> bool"
  p_vmspace :: "nat \<Rightarrow> bool"
  p_stats :: "nat \<Rightarrow> bool"
  p_status :: "nat \<Rightarrow> int"
  ps_stopsig :: "nat \<Rightarrow> int"
  p_strc :: "nat \<Rightarrow> bool"
  p_swted :: "nat \<Rightarrow> bool"
  p_szchild :: "nat \<Rightarrow> bool"
  p_sppwait :: "nat \<Rightarrow> bool"
  x_events :: "xevent list"

definition ECHILD :: int where "ECHILD = 10"
definition WNOHANG :: u32 where "WNOHANG = 1"
definition WUNTRACED :: u32 where "WUNTRACED = 2"
definition WAIT_ANY :: int where "WAIT_ANY = -1"

text \<open>The status words, in the 32 bits of an \<open>int\<close>.\<close>

definition W_EXITCODE :: "int \<Rightarrow> int \<Rightarrow> int" where
  "W_EXITCODE ret sig = signed_take_bit 31 (push_bit 8 ret OR sig)"

definition W_STOPCODE :: "int \<Rightarrow> int" where
  "W_STOPCODE sig = signed_take_bit 31 (push_bit 8 sig OR 127)"

text \<open>Access to the parts of the state.\<close>

abbreviation x_rsys :: "xsys \<Rightarrow> rsys" where "x_rsys x \<equiv> f_sys (x_sys x)"
abbreviation x_jobs :: "xsys \<Rightarrow> jsys" where "x_jobs x \<equiv> r_jobs (x_rsys x)"
abbreviation x_sched :: "xsys \<Rightarrow> ssys" where "x_sched x \<equiv> r_sched (x_rsys x)"
abbreviation x_creds :: "xsys \<Rightarrow> csys" where "x_creds x \<equiv> r_creds (x_rsys x)"

definition upd_r :: "(rsys \<Rightarrow> rsys) \<Rightarrow> xsys \<Rightarrow> xsys" where
  "upd_r f x = x\<lparr>x_sys := (x_sys x)\<lparr>f_sys := f (f_sys (x_sys x))\<rparr>\<rparr>"

definition put_jobs :: "jsys \<Rightarrow> xsys \<Rightarrow> xsys" where
  "put_jobs j = upd_r (\<lambda>r. r\<lparr>r_jobs := j\<rparr>)"

definition put_sched :: "ssys \<Rightarrow> xsys \<Rightarrow> xsys" where
  "put_sched q = upd_r (\<lambda>r. r\<lparr>r_sched := q\<rparr>)"

definition put_creds :: "csys \<Rightarrow> xsys \<Rightarrow> xsys" where
  "put_creds c = upd_r (\<lambda>r. r\<lparr>r_creds := c\<rparr>)"

section \<open>Reclaiming a process entry\<close>

definition reclaim_creds :: "nat \<Rightarrow> csys \<Rightarrow> csys kres" where
  "reclaim_creds p s =
     kbind (get_pcred p s) (\<lambda>(a, pc).
       kmap (\<lambda>s'. s'\<lparr>p_cred := (p_cred s')(p := None)\<rparr>)
         (if p_refcnt pc - 1 = 0
          then kmap (\<lambda>s1. s1\<lparr>pcreds := (pcreds s1)(a := None)\<rparr>) (crfree (pc_ucred pc) s)
          else Done (s\<lparr>pcreds := (pcreds s)(a \<mapsto> pc\<lparr>p_refcnt := p_refcnt pc - 1\<rparr>)\<rparr>)))"

text \<open>The process leaves its group and its family, and the entry is freed.\<close>

definition reclaim_jobs :: "nat \<Rightarrow> jsys \<Rightarrow> jsys kres" where
  "reclaim_jobs p s =
     kbind (leavepgrp p s) (\<lambda>s1.
     kbind (deref (jprocs s1 p)) (\<lambda>pr.
     kbind (deref (p_pptr pr)) (\<lambda>pp.
     kmap (\<lambda>ppr. s1\<lparr>jprocs := (jprocs s1)(pp \<mapsto> ppr\<lparr>p_children := remove1 p (p_children ppr)\<rparr>, p := None)\<rparr>)
       (deref (jprocs s1 pp)))))"

definition reclaimproc :: "nat \<Rightarrow> xsys \<Rightarrow> xsys kres" where
  "reclaimproc p x =
     kbind (reclaim_creds p (x_creds x)) (\<lambda>c.
     kmap (\<lambda>j. let x1 = put_jobs j (put_creds c x) in x1\<lparr>x_sys := (x_sys x1)\<lparr>nprocs := nprocs (x_sys x1) - 1\<rparr>\<rparr>)
       (reclaim_jobs p (x_jobs x)))"

section \<open>Exit\<close>

text \<open>The process starts to leave its process group.\<close>

definition exit_group :: "nat \<Rightarrow> jsys \<Rightarrow> jsys kres" where
  "exit_group p s =
     kbind (deref (jprocs s p)) (\<lambda>pr. case p_pgrp pr of
         None \<Rightarrow> Done s
       | Some g \<Rightarrow>
           kbind (SESS_LEADER p s) (\<lambda>leader.
           kbind (if leader then exitsessleader p s else Done s) (fixjobc p g False)))"

text \<open>The reference to the limits is dropped; the pointer is left as it is.\<close>

definition exit_limits :: "nat \<Rightarrow> rsys \<Rightarrow> rsys kres" where
  "exit_limits p s =
     (case p_limit s p of
        None \<Rightarrow> Done s
      | Some a \<Rightarrow>
          kmap (\<lambda>lim. s\<lparr>plimits := (plimits s)(a := if pl_refcnt lim - 1 = 0 then None else Some (lim\<lparr>pl_refcnt := pl_refcnt lim - 1\<rparr>))\<rparr>)
            (deref (plimits s a)))"

text \<open>\<open>init\<close> inherits a child.\<close>

definition adopt :: "nat \<Rightarrow> nat \<Rightarrow> jsys \<Rightarrow> jsys kres" where
  "adopt i q s =
     kbind (deref (jprocs s i)) (\<lambda>ir.
     kmap (\<lambda>qr. upd_proc q (\<lambda>r. r\<lparr>p_pptr := Some i\<rparr>) (upd_proc i (\<lambda>r. r\<lparr>p_children := q # p_children r\<rparr>) s))
       (deref (jprocs s q)))"

fun adopt_all :: "nat list \<Rightarrow> xsys \<Rightarrow> xsys kres" where
  "adopt_all [] x = Done x"
| "adopt_all (q # cs) x =
     kbind (adopt (initproc x) q (x_jobs x)) (\<lambda>j.
       adopt_all cs
         (if p_strc x q then put_jobs (post [Psignal q SIGKILL] j) (x\<lparr>p_strc := (p_strc x)(q := False)\<rparr>)
          else put_jobs j x))"

text \<open>First and second step: up to the point where the process can no longer block.\<close>

definition exit_detach :: "nat \<Rightarrow> xsys \<Rightarrow> xsys kres" where
  "exit_detach p x =
     (let x1 = put_sched (pupd p (\<lambda>pr. pr\<lparr>p_swexit := True\<rparr>) (x_sched x))
                 (x\<lparr>p_strc := (p_strc x)(p := False), x_callout := untimeout realitexpire_fn p (x_callout x)\<rparr>);
          x2 = (if p_fd x1 p then x1\<lparr>x_events := x_events x1 @ [Fdfree p]\<rparr> else x1) in
      kmap (\<lambda>j. let x3 = put_jobs j x2 in
                if p_vmspace x3 p then x3\<lparr>x_events := x_events x3 @ [Vmspace_free p], p_vmspace := (p_vmspace x3)(p := False)\<rparr> else x3)
        (exit_group p (x_jobs x2)))"

text \<open>The process becomes invisible, and a zombie if there are statistics to deliver.\<close>

definition exit_bury :: "nat \<Rightarrow> int \<Rightarrow> xsys \<Rightarrow> xsys kres" where
  "exit_bury p rv x =
     kbind (leavepidhash p (x_jobs x)) (\<lambda>j.
     kbind (exit_limits p ((x_rsys x)\<lparr>r_jobs := j\<lparr>jsys.curproc := 0\<rparr>, r_sched := (x_sched x)\<lparr>ssys.curproc := 0\<rparr>,
                                     allproc := remove1 p (allproc (x_rsys x))\<rparr>)) (\<lambda>r.
       let x1 = upd_r (\<lambda>_. r) x in
       if p_stats x1 p then
         kbind (deref (jprocs (x_jobs x1) p)) (\<lambda>pr.
         kmap (\<lambda>pp. put_sched (pupd p (\<lambda>pr. pr\<lparr>sproc.p_stat := SZOMB\<rparr>) (x_sched x1))
                (put_jobs (upd_proc p (\<lambda>pr. pr\<lparr>jproc.p_stat := SZOMB\<rparr>) (x_jobs x1))
                  (x1\<lparr>p_status := (p_status x1)(p := rv), p_szchild := (p_szchild x1)(pp := True),
                      x_sys := (x_sys x1)\<lparr>zombproc := p # zombproc (x_sys x1)\<rparr>\<rparr>)))
           (deref (p_pptr pr)))
       else Done x1))"

definition wakeup_proc :: "nat \<Rightarrow> xsys \<Rightarrow> xsys kres" where
  "wakeup_proc p x = kmap (\<lambda>q. put_sched q x) (wakeup (of_nat p) (x_sched x))"

text \<open>The children are handed to \<open>init\<close>.\<close>

definition exit_orphans :: "nat \<Rightarrow> xsys \<Rightarrow> xsys kres" where
  "exit_orphans p x =
     kbind (deref (jprocs (x_jobs x) p)) (\<lambda>pr.
     kbind (if p_szchild x p \<and> p_children pr \<noteq> []
            then kmap (\<lambda>x1. x1\<lparr>p_szchild := (p_szchild x1)(p := False)\<rparr>) (wakeup_proc (initproc x) x) else Done x) (\<lambda>x1.
     kmap (\<lambda>x2. put_jobs (upd_proc p (\<lambda>pr. pr\<lparr>p_children := []\<rparr>) (x_jobs x2)) x2) (adopt_all (p_children pr) x1)))"

text \<open>The parent is told, or the entry is reclaimed at once.\<close>

definition exit_notify :: "nat \<Rightarrow> xsys \<Rightarrow> xsys kres" where
  "exit_notify p x =
     kmap (\<lambda>x1. x1\<lparr>x_events := x_events x1 @ [Cpu_texit p]\<rparr>)
       (if p_stats x p then
          kbind (deref (jprocs (x_jobs x) p)) (\<lambda>pr.
          kbind (deref (p_pptr pr)) (\<lambda>pp.
            wakeup_proc pp (put_jobs (post [Psignal pp SIGCHLD] (x_jobs x)) (x\<lparr>p_sppwait := (p_sppwait x)(p := False)\<rparr>))))
        else reclaimproc p x)"

definition exit :: "nat \<Rightarrow> int \<Rightarrow> xsys \<Rightarrow> xsys kres" where
  "exit p rv x =
     kbind (deref (jprocs (x_jobs x) p)) (\<lambda>pr.
       if p_pid pr = 1 then Panic ''init died''
       else kbind (exit_detach p x) (\<lambda>x1.
            kbind (exit_bury p rv x1) (\<lambda>x2.
            kbind (exit_orphans p x2) (exit_notify p))))"

definition rexit :: "nat \<Rightarrow> int \<Rightarrow> xsys \<Rightarrow> xsys kres" where
  "rexit p rval x = exit p (W_EXITCODE rval 0) x"

section \<open>Wait\<close>

text \<open>The usage of a child with that of its own children.\<close>

definition child_usage :: "nat \<Rightarrow> rsys \<Rightarrow> rusage" where
  "child_usage p r = ruadd ((p_ru r p)\<lparr>ru_stime := p_stime r p, ru_utime := p_utime r p\<rparr>) (p_cru r p)"

text \<open>The copies to user space: no copy when the pointer is null, and otherwise the error.\<close>

definition copy_if :: "('a \<Rightarrow> int) option \<Rightarrow> 'a \<Rightarrow> int" where
  "copy_if copyout v = (case copyout of None \<Rightarrow> 0 | Some f \<Rightarrow> f v)"

text \<open>A zombie is reaped by \<open>q\<close>: the error, the number returned and the state.\<close>

definition wait_zombie :: "(int \<Rightarrow> int) option \<Rightarrow> (rusage \<Rightarrow> int) option \<Rightarrow> nat \<Rightarrow> nat \<Rightarrow> int \<Rightarrow> xsys \<Rightarrow> (int \<times> int \<times> xsys) kres" where
  "wait_zombie cstat cru q p pid x =
     (let ru = child_usage p (x_rsys x); e1 = copy_if cstat (p_status x p); e2 = copy_if cru ru in
      if e1 \<noteq> 0 then Done (e1, pid, x)
      else if e2 \<noteq> 0 then Done (e2, pid, x)
      else kmap (\<lambda>x'. (0, pid, x'))
             (reclaimproc p
               (upd_r (\<lambda>r. r\<lparr>p_cru := (p_cru r)(q := ruadd (p_cru r q) ru)\<rparr>)
                 (x\<lparr>p_stats := (p_stats x)(p := False), x_sys := (x_sys x)\<lparr>zombproc := remove1 p (zombproc (x_sys x))\<rparr>\<rparr>))))"

definition wait_stopped :: "(int \<Rightarrow> int) option \<Rightarrow> (rusage \<Rightarrow> int) option \<Rightarrow> nat \<Rightarrow> int \<Rightarrow> xsys \<Rightarrow> int \<times> int \<times> xsys" where
  "wait_stopped cstat cru p pid x =
     (let x1 = x\<lparr>p_status := (p_status x)(p := W_STOPCODE (ps_stopsig x p))\<rparr>;
          e1 = copy_if cstat (p_status x1 p); e2 = copy_if cru (child_usage p (x_rsys x)) in
      if e1 \<noteq> 0 then (e1, 0, x1)
      else if e2 \<noteq> 0 then (e2, 0, x1)
      else (0, pid, x1\<lparr>p_swted := (p_swted x1)(p := True)\<rparr>))"

text \<open>The walk over the children: what it returned, or how many children matched.\<close>

fun wait_scan :: "(int \<Rightarrow> int) option \<Rightarrow> (rusage \<Rightarrow> int) option \<Rightarrow> nat \<Rightarrow> int \<Rightarrow> u32 \<Rightarrow> nat list \<Rightarrow> nat \<Rightarrow> xsys \<Rightarrow>
    (nat + int \<times> int \<times> xsys) kres" where
  "wait_scan cstat cru q pid options [] nfound x = Done (Inl nfound)"
| "wait_scan cstat cru q pid options (p # ps) nfound x =
     kbind (deref (jprocs (x_jobs x) p)) (\<lambda>pr.
     kbind (getpgrp p (x_jobs x)) (\<lambda>pgid.
       if pid \<noteq> WAIT_ANY \<and> p_pid pr \<noteq> pid \<and> pgid \<noteq> - pid then wait_scan cstat cru q pid options ps nfound x
       else if jproc.p_stat pr = SZOMB then kmap Inr (wait_zombie cstat cru q p (p_pid pr) x)
       else if jproc.p_stat pr = SSTOP \<and> \<not> p_swted x p \<and> (p_strc x p \<or> options AND WUNTRACED \<noteq> 0)
       then Done (Inr (wait_stopped cstat cru p (p_pid pr) x))
       else wait_scan cstat cru q pid options ps (Suc nfound) x))"

datatype wait_out = WReturn int int xsys | WSleep

definition wait4 :: "(int \<Rightarrow> int) option \<Rightarrow> (rusage \<Rightarrow> int) option \<Rightarrow> nat \<Rightarrow> int \<Rightarrow> u32 \<Rightarrow> xsys \<Rightarrow> wait_out kres" where
  "wait4 cstat cru q pid0 options x =
     kbind (if pid0 = 0 then kmap uminus (getpgrp q (x_jobs x)) else Done pid0) (\<lambda>pid.
       if options AND NOT (WUNTRACED OR WNOHANG) \<noteq> 0 then Done (WReturn EINVAL 0 x)
       else kbind (deref (jprocs (x_jobs x) q)) (\<lambda>qr.
         kmap (\<lambda>r. case r of
             Inr (e, rv, x') \<Rightarrow> WReturn e rv x'
           | Inl n \<Rightarrow> if n = 0 then WReturn ECHILD 0 x else if options AND WNOHANG \<noteq> 0 then WReturn 0 0 x else WSleep)
           (wait_scan cstat cru q pid options (p_children qr) 0 x)))"


section \<open>Sessions and groups of an exiting process\<close>

text \<open>A session leader is alive and in the session; a controlling vnode comes with a terminal.\<close>

definition lead_ok :: "jsys \<Rightarrow> bool" where
  "lead_ok s \<longleftrightarrow> (\<forall>a se. sessions s a = Some se \<longrightarrow> (s_ttyvp se \<noteq> None \<longrightarrow> s_ttyp se \<noteq> None) \<and>
     (\<forall>p. s_leader se = Some p \<longrightarrow> live s p \<and> sess_of s p = Some a))"

text \<open>States that differ only in the leaders and controlling vnodes of sessions, and in events.\<close>

definition same_but_lead :: "jsys \<Rightarrow> jsys \<Rightarrow> bool" where
  "same_but_lead s s' \<longleftrightarrow> jprocs s' = jprocs s \<and> pgrps s' = pgrps s \<and> jttys s' = jttys s \<and> pidhash s' = pidhash s \<and>
     pgrphash s' = pgrphash s \<and> jsys.curproc s' = jsys.curproc s \<and>
     (\<forall>a. map_option s_count (sessions s' a) = map_option s_count (sessions s a) \<and>
        map_option s_ttyp (sessions s' a) = map_option s_ttyp (sessions s a) \<and>
        (\<forall>se se'. sessions s a = Some se \<longrightarrow> sessions s' a = Some se' \<longrightarrow>
           s_leader se' \<in> {None, s_leader se} \<and> s_ttyvp se' \<in> {None, s_ttyvp se}))"

lemma same_but_lead_refl [simp]: "same_but_lead s s"
  by (simp add: same_but_lead_def)

lemma same_but_lead_get:
  assumes "same_but_lead s s'" "sessions s' a = Some se'"
  obtains se where "sessions s a = Some se" "s_count se' = s_count se" "s_ttyp se' = s_ttyp se"
    "s_leader se' \<in> {None, s_leader se}" "s_ttyvp se' \<in> {None, s_ttyvp se}"
proof (cases "sessions s a")
  case None
  then show thesis using assms by (auto simp: same_but_lead_def) (metis option.distinct(1) option.map_disc_iff)
next
  case (Some se)
  moreover have "map_option s_count (sessions s' a) = map_option s_count (sessions s a)"
    "map_option s_ttyp (sessions s' a) = map_option s_ttyp (sessions s a)" using assms(1) unfolding same_but_lead_def by blast+
  ultimately show thesis using assms by (intro that [OF Some]) (auto simp: same_but_lead_def)
qed

lemma same_but_lead_eqs:
  assumes "same_but_lead s s'"
  shows "jprocs s' = jprocs s" "pgrps s' = pgrps s" "jttys s' = jttys s" "pidhash s' = pidhash s" "pgrphash s' = pgrphash s"
    "jsys.curproc s' = jsys.curproc s" "grp s' = grp s" "parent s' = parent s" "live s' = live s" "ses s' = ses s" "jobc s' = jobc s"
    "sess_of s' = sess_of s" "qual s' = qual s" "links s' = links s" "child_qual s' = child_qual s" "sessions s' a = None \<longleftrightarrow> sessions s a = None"
proof -
  show e: "jprocs s' = jprocs s" "pgrps s' = pgrps s" "jttys s' = jttys s" "pidhash s' = pidhash s" "pgrphash s' = pgrphash s"
    "jsys.curproc s' = jsys.curproc s" using assms by (auto simp: same_but_lead_def)
  show v: "grp s' = grp s" "parent s' = parent s" "live s' = live s" "ses s' = ses s" "jobc s' = jobc s"
    by (auto simp: grp_def parent_def live_def ses_def jobc_def e fun_eq_iff)
  show "sess_of s' = sess_of s" "links s' = links s" by (auto simp: sess_of_def links_def v fun_eq_iff)
  then show "qual s' = qual s" "child_qual s' = child_qual s" by (auto simp: qual_def child_qual_def v fun_eq_iff)
  have "map_option s_count (sessions s' a) = map_option s_count (sessions s a)" using assms unfolding same_but_lead_def by blast
  then show "sessions s' a = None \<longleftrightarrow> sessions s a = None" by (metis option.map_disc_iff)
qed

lemma same_but_lead_keeps:
  assumes same: "same_but_lead s s'"
  shows "table_ok e s \<Longrightarrow> table_ok e s'" "family_ok s \<Longrightarrow> family_ok s'" "leader_ok s \<Longrightarrow> leader_ok s'" "jobc_ok s \<Longrightarrow> jobc_ok s'"
    "lead_ok s \<Longrightarrow> lead_ok s'"
proof -
  note eqs = same_but_lead_eqs [OF same]
  show "table_ok e s'" if t: "table_ok e s" unfolding table_ok_def eqs(1,2,3,5,7,10,16)
  proof (intro conjI allI impI)
    fix a se assume "sessions s' a = Some se"
    then obtain se0 where s0: "sessions s a = Some se0" "s_count se = s_count se0" "s_ttyp se = s_ttyp se0"
      by (rule same_but_lead_get [OF same])
    show "s_count se = int (card {g. ses s g = Some a})" using table_okD(8) [OF t s0(1)] s0(2) by simp
    show "\<exists>g. ses s g = Some a" by (rule table_okD(9) [OF t s0(1)])
    fix t assume "s_ttyp se = Some t"
    then show "jttys s t \<noteq> None" using table_okD(10) [OF \<open>table_ok e s\<close> s0(1)] s0(3) by simp
  qed (use t in \<open>auto simp: table_ok_def\<close>)
  show "family_ok s \<Longrightarrow> family_ok s'" by (simp add: family_ok_def eqs)
  show "jobc_ok s \<Longrightarrow> jobc_ok s'" by (simp add: jobc_ok_def eqs)
  show "leader_ok s'" if l: "leader_ok s" unfolding leader_ok_def eqs(1,2)
  proof (intro allI impI)
    fix p pr g G se assume a: "jprocs s p = Some pr" "p_pgrp pr = Some g" "pgrps s g = Some G" "sessions s' (pg_session G) = Some se" "s_leader se = Some p"
    from a(4) obtain se0 where "sessions s (pg_session G) = Some se0" "s_leader se \<in> {None, s_leader se0}"
      by (rule same_but_lead_get [OF same])
    then show "pg_id G = p_pid pr" using l a unfolding leader_ok_def by fastforce
  qed
  show "lead_ok s'" if l: "lead_ok s" unfolding lead_ok_def eqs(9,12)
  proof (intro allI impI)
    fix a se assume "sessions s' a = Some se"
    then obtain se0 where "sessions s a = Some se0" "s_ttyp se = s_ttyp se0" "s_leader se \<in> {None, s_leader se0}" "s_ttyvp se \<in> {None, s_ttyvp se0}"
      by (rule same_but_lead_get [OF same])
    then show "(s_ttyvp se \<noteq> None \<longrightarrow> s_ttyp se \<noteq> None) \<and> (\<forall>p. s_leader se = Some p \<longrightarrow> live s p \<and> sess_of s p = Some a)"
      using l unfolding lead_ok_def by fastforce
  qed
qed

lemma exitsessleader_ok:
  assumes pg: "pg_inv s" and ld: "lead_ok s" and p: "jprocs s p = Some pr" and a: "sess_of s p = Some a"
  shows "\<exists>s'. exitsessleader p s = Done s' \<and> same_but_lead s s' \<and> map_option s_leader (sessions s' a) = Some None"
proof -
  have tab: "table_ok {} s" using pg by (simp add: pg_inv_def)
  obtain g G se where g: "get_session p s = Done (pg_session G, se)" "sessions s (pg_session G) = Some se" "sess_of s p = Some (pg_session G)"
    "pgrps s g = Some G" by (rule get_session_of [OF pg p])
  have a: "pg_session G = a" using g(3) a by simp
  show ?thesis
  proof (cases "s_ttyvp se")
    case None
    have "exitsessleader p s = Done (upd_sess a (\<lambda>se. se\<lparr>s_leader := None\<rparr>) s)" using g(1) None a by (simp add: exitsessleader_def)
    then show ?thesis using g(2) a by (intro exI [of _ "upd_sess a (\<lambda>se. se\<lparr>s_leader := None\<rparr>) s"])
      (auto simp: same_but_lead_def upd_sess_def)
  next
    case (Some v)
    then obtain t where t: "s_ttyp se = Some t" using ld g(2) unfolding lead_ok_def by blast
    obtain T where T: "jttys s t = Some T" using table_okD(10) [OF tab g(2) t] by blast
    let ?u = "\<lambda>es. upd_sess a (\<lambda>se. se\<lparr>s_leader := None\<rparr>) (upd_sess a (\<lambda>se. se\<lparr>s_ttyvp := None\<rparr>) (post es s))"
    have "\<exists>es. exitsessleader p s = Done (?u es)" using g(1) Some t T a by (simp add: exitsessleader_def Let_def) blast
    then obtain es where es: "exitsessleader p s = Done (?u es)" by blast
    have "same_but_lead s (?u es)" using g(2) a by (auto simp: same_but_lead_def upd_sess_def post_def)
    moreover have "map_option s_leader (sessions (?u es) a) = Some None" using g(2) a by (simp add: upd_sess_def post_def)
    ultimately show ?thesis using es by blast
  qed
qed

text \<open>The counts lose what the process and its children contributed.\<close>

lemma exit_group_ok:
  assumes pg: "pg_inv s" and ld: "lead_ok s" and p: "jprocs s p = Some pr" "p_pptr pr = Some pp" "p_pgrp pr = Some g"
  obtains s1 s' where "exit_group p s = Done s'" "same_but_lead s s1" "same_but_jobc s1 s'"
    "\<forall>x. jobc s' x = jobc s x - (of_bool (x = g \<and> links s (grp s pp) g) + (\<Sum>c | parent s c = Some p. of_bool (child_qual s g c x)))"
    "\<forall>a se. sessions s' a = Some se \<longrightarrow> s_leader se \<noteq> Some p"
proof -
  obtain G se where g: "pgrps s g = Some G" "get_session p s = Done (pg_session G, se)" "sessions s (pg_session G) = Some se"
    "sess_of s p = Some (pg_session G)" by (rule get_session_of [OF pg p(1)]) (use p(3) in auto)
  have own: "a = pg_session G" if "sessions s a = Some sa" "s_leader sa = Some p" for a sa
    using ld that g(4) unfolding lead_ok_def by fastforce
  obtain s1 where s1: "(if s_leader se = Some p then exitsessleader p s else Done s) = Done s1" "same_but_lead s s1"
    "\<forall>a sa. sessions s1 a = Some sa \<longrightarrow> s_leader sa \<noteq> Some p"
  proof (cases "s_leader se = Some p")
    case True
    obtain s1 where s1: "exitsessleader p s = Done s1" "same_but_lead s s1" "map_option s_leader (sessions s1 (pg_session G)) = Some None"
      using exitsessleader_ok [OF pg ld p(1) g(4)] by blast
    have "s_leader sa \<noteq> Some p" if "sessions s1 a = Some sa" for a sa
    proof
      assume l: "s_leader sa = Some p"
      from that obtain sb where "sessions s a = Some sb" "s_leader sa \<in> {None, s_leader sb}" by (rule same_but_lead_get [OF s1(2)])
      then have "a = pg_session G" using own l by auto
      then show False using s1(3) that l by simp
    qed
    then show thesis using that s1 True by auto
  next
    case False
    then show thesis using that [of s] own g(3) by fastforce
  qed
  note eqs = same_but_lead_eqs [OF s1(2)]
  have fam: "family_ok s1" using same_but_lead_keeps(2) [OF s1(2)] pg by (simp add: pg_inv_def)
  have jp: "jprocs s1 p = Some pr" and gp: "pgrps s1 g = Some G" using p(1) g(1) by (simp_all add: eqs)
  obtain s' where s': "fixjobc p g False s1 = Done s'" "same_but_jobc s1 s'" "\<forall>x. jobc s' x = jobc s1 x + (if False then 1 else -1) *
      (of_bool (x = g \<and> links s1 (grp s1 pp) g) + (\<Sum>c | parent s1 c = Some p. of_bool (child_qual s1 g c x)))"
    by (rule fixjobc_ok [OF fam jp p(2) gp])
  have "exit_group p s = Done s'" using p g(2) s1(1) s'(1) by (simp add: exit_group_def SESS_LEADER_def)
  moreover have "\<forall>a se. sessions s' a = Some se \<longrightarrow> s_leader se \<noteq> Some p" using s1(3) same_but_jobc_eqs(2) [OF s'(2)] by simp
  ultimately show thesis using s1(2) s'(2,3) by (intro that) (auto simp: eqs)
qed

section \<open>The family of an exiting process\<close>

definition adopted :: "nat \<Rightarrow> nat list \<Rightarrow> (nat \<Rightarrow> jproc option) \<Rightarrow> nat \<Rightarrow> jproc option" where
  "adopted i cs m q =
     (if q = i then map_option (\<lambda>r. r\<lparr>p_children := rev cs @ p_children r\<rparr>) (m q)
      else if q \<in> set cs then map_option (\<lambda>r. r\<lparr>p_pptr := Some i\<rparr>) (m q) else m q)"

lemma put_jobs_sel [simp]:
  "x_jobs (put_jobs j x) = j" "initproc (put_jobs j x) = initproc x" "p_strc (put_jobs j x) = p_strc x" "x_sched (put_jobs j x) = x_sched x"
  "x_creds (put_jobs j x) = x_creds x" "put_jobs j (put_jobs k x) = put_jobs j x" "put_jobs j (x\<lparr>p_strc := f\<rparr>) = (put_jobs j x)\<lparr>p_strc := f\<rparr>"
  by (simp_all add: put_jobs_def upd_r_def)

lemma adopt_all_ok:
  assumes "distinct cs" "initproc x \<notin> set cs" "\<forall>c \<in> set cs. jprocs (x_jobs x) c \<noteq> None" "jprocs (x_jobs x) (initproc x) \<noteq> None"
  shows "\<exists>f es. adopt_all cs x =
    Done ((put_jobs ((x_jobs x)\<lparr>jprocs := adopted (initproc x) cs (jprocs (x_jobs x)), events := es\<rparr>) x)\<lparr>p_strc := f\<rparr>)"
  using assms
proof (induction cs arbitrary: x)
  case Nil
  have "adopted (initproc x) [] (jprocs (x_jobs x)) = jprocs (x_jobs x)"
    by (rule ext) (simp add: adopted_def option.map_ident)
  then have "(put_jobs ((x_jobs x)\<lparr>jprocs := adopted (initproc x) [] (jprocs (x_jobs x)), events := events (x_jobs x)\<rparr>) x)\<lparr>p_strc := p_strc x\<rparr> = x"
    by (simp add: put_jobs_def upd_r_def)
  then show ?case by (intro exI [of _ "p_strc x"] exI [of _ "events (x_jobs x)"]) simp
next
  case (Cons q cs)
  let ?i = "initproc x"
  let ?j = "upd_proc q (\<lambda>r. r\<lparr>p_pptr := Some ?i\<rparr>) (upd_proc ?i (\<lambda>r. r\<lparr>p_children := q # p_children r\<rparr>) (x_jobs x))"
  have ad: "adopt ?i q (x_jobs x) = Done ?j" using Cons.prems(3,4) by (auto simp: adopt_def)
  define x1 where "x1 = (if p_strc x q then put_jobs (post [Psignal q SIGKILL] ?j) (x\<lparr>p_strc := (p_strc x)(q := False)\<rparr>) else put_jobs ?j x)"
  have x1: "\<exists>f es. x1 = (put_jobs (?j\<lparr>events := es\<rparr>) x)\<lparr>p_strc := f\<rparr>"
  proof (cases "p_strc x q")
    case True
    then show ?thesis by (intro exI [of _ "(p_strc x)(q := False)"] exI [of _ "events ?j @ [Psignal q SIGKILL]"]) (simp add: x1_def post_def)
  next
    case False
    then show ?thesis by (intro exI [of _ "p_strc x"] exI [of _ "events ?j"]) (simp add: x1_def put_jobs_def upd_r_def upd_proc_def)
  qed
  then obtain f es where x1e: "x1 = (put_jobs (?j\<lparr>events := es\<rparr>) x)\<lparr>p_strc := f\<rparr>" by blast
  have sel: "initproc x1 = ?i" "x_jobs x1 = ?j\<lparr>events := es\<rparr>" by (simp_all add: x1e)
  have dm: "jprocs ?j r \<noteq> None \<longleftrightarrow> jprocs (x_jobs x) r \<noteq> None" for r by (auto simp: upd_proc_def)
  have "\<exists>f' es'. adopt_all cs x1 = Done ((put_jobs ((x_jobs x1)\<lparr>jprocs := adopted ?i cs (jprocs ?j), events := es'\<rparr>) x1)\<lparr>p_strc := f'\<rparr>)"
    using Cons.IH [of x1] Cons.prems dm by (auto simp: sel)
  then obtain f' es' where r: "adopt_all cs x1 = Done ((put_jobs ((x_jobs x1)\<lparr>jprocs := adopted ?i cs (jprocs ?j), events := es'\<rparr>) x1)\<lparr>p_strc := f'\<rparr>)"
    by blast
  have "adopted ?i cs (jprocs ?j) = adopted ?i (q # cs) (jprocs (x_jobs x))"
    using Cons.prems(1,2) by (auto simp: adopted_def upd_proc_def fun_eq_iff option.map_comp comp_def)
  then have "adopt_all (q # cs) x = Done ((put_jobs ((x_jobs x)\<lparr>jprocs := adopted ?i (q # cs) (jprocs (x_jobs x)), events := es'\<rparr>) x)\<lparr>p_strc := f'\<rparr>)"
    using ad r by (simp add: x1_def [symmetric]) (simp add: x1e upd_proc_def put_jobs_def upd_r_def)
  then show ?case by blast
qed


text \<open>
  The tables after an exit, from those in which the counts have been adjusted: the process is a
  zombie, off its hash chain, and its children are \<open>init\<close>'s.
\<close>

definition zombied :: "nat \<Rightarrow> nat \<Rightarrow> jproc \<Rightarrow> jsys \<Rightarrow> jsys \<Rightarrow> bool" where
  "zombied p i pr s t \<longleftrightarrow> pgrps t = pgrps s \<and> sessions t = sessions s \<and> jttys t = jttys s \<and> pgrphash t = pgrphash s \<and>
     jprocs s p = Some pr \<and> pidhash t = (pidhash s)(PIDHASH (p_pid pr) := remove1 p (pidhash s (PIDHASH (p_pid pr)))) \<and>
     jprocs t = (adopted i (p_children pr) (jprocs s))(p \<mapsto> pr\<lparr>jproc.p_stat := SZOMB, p_children := []\<rparr>)"

lemma zombied_views:
  assumes z: "zombied p i pr s t" and fam: "family_ok s" and i: "jprocs s i = Some ir" "i \<noteq> p" "parent s i \<noteq> Some p"
  shows "dom (jprocs t) = dom (jprocs s)" "grp t = grp s" "map_option p_pid (jprocs t q) = map_option p_pid (jprocs s q)"
    "parent t q = (if parent s q = Some p then Some i else parent s q)" "live t q \<longleftrightarrow> q \<noteq> p \<and> live s q"
    "ses t = ses s" "jobc t = jobc s" "sess_of t = sess_of s" "links t = links s"
proof -
  have e: "pgrps t = pgrps s" "jprocs s p = Some pr"
    "jprocs t = (adopted i (p_children pr) (jprocs s))(p \<mapsto> pr\<lparr>jproc.p_stat := SZOMB, p_children := []\<rparr>)"
    using z by (auto simp: zombied_def)
  have ad: "adopted i (p_children pr) (jprocs s) q \<noteq> None \<longleftrightarrow> jprocs s q \<noteq> None" for q by (auto simp: adopted_def)
  have "q \<in> dom (jprocs t) \<longleftrightarrow> q \<in> dom (jprocs s)" for q using e(2) ad [of q] by (cases "q = p") (auto simp: e(3) domIff)
  then show "dom (jprocs t) = dom (jprocs s)" by blast
  show g: "grp t = grp s" using e(2) by (auto simp: grp_def e(3) adopted_def fun_eq_iff bind_map_option comp_def)
  show "map_option p_pid (jprocs t q) = map_option p_pid (jprocs s q)"
    using e(2) by (auto simp: e(3) adopted_def option.map_comp comp_def)
  show "live t q \<longleftrightarrow> q \<noteq> p \<and> live s q" by (auto simp: live_def e(3) adopted_def split: if_splits)
  show ss: "ses t = ses s" "jobc t = jobc s" by (auto simp: ses_def jobc_def e(1) fun_eq_iff)
  show "sess_of t = sess_of s" "links t = links s" by (auto simp: sess_of_def links_def g ss fun_eq_iff)
  have kids: "q \<in> set (p_children pr) \<longleftrightarrow> parent s q = Some p" using family_okD(3) [OF fam e(2)] by auto
  have np: "parent s p \<noteq> Some p" using fam unfolding family_ok_def by blast
  show "parent t q = (if parent s q = Some p then Some i else parent s q)"
  proof -
    consider "q = p" | "q \<noteq> p" "q = i" | "q \<noteq> p" "q \<noteq> i" "parent s q = Some p" | "q \<noteq> p" "q \<noteq> i" "parent s q \<noteq> Some p" by blast
    then show ?thesis
    proof cases
      case 1
      then show ?thesis using np e(2) by (simp add: parent_def e(3))
    next
      case 2
      then show ?thesis using i by (simp add: parent_def e(3) adopted_def)
    next
      case 3
      then obtain qr where "jprocs s q = Some qr" by (auto simp: parent_def bind_eq_Some_conv)
      then show ?thesis using 3 kids by (simp add: parent_def e(3) adopted_def)
    next
      case 4
      then show ?thesis using kids by (simp add: parent_def e(3) adopted_def)
    qed
  qed
qed

lemma zombied_family:
  assumes z: "zombied p i pr s t" and fam: "family_ok s" and i: "jprocs s i = Some ir" "i \<noteq> p" "parent s i \<noteq> Some p"
  shows "family_ok t"
proof -
  note v = zombied_views [OF z fam i]
  have e: "pgrps t = pgrps s" "jprocs s p = Some pr"
    "jprocs t = (adopted i (p_children pr) (jprocs s))(p \<mapsto> pr\<lparr>jproc.p_stat := SZOMB, p_children := []\<rparr>)"
    using z by (auto simp: zombied_def)
  have par: "parent s c = Some q \<Longrightarrow> jprocs s q \<noteq> None \<and> q \<noteq> c" for c q using fam unfolding family_ok_def by blast
  have kids: "set (p_children pr) = {c. parent s c = Some p}" "distinct (p_children pr)" using family_okD(2,3) [OF fam e(2)] by auto
  show ?thesis unfolding family_ok_def
  proof (intro conjI allI impI)
    show "finite (dom (jprocs t))" using fam by (simp add: v(1) family_ok_def)
  next
    fix q qr assume q: "jprocs t q = Some qr"
    then have "jprocs s q \<noteq> None" using v(1) by blast
    then obtain q0 where q0: "jprocs s q = Some q0" by blast
    have "p_pgrp qr = p_pgrp q0" using v(2) q q0 by (auto simp: grp_def fun_eq_iff dest: spec [of _ q])
    then show "\<exists>g. p_pgrp qr = Some g \<and> pgrps t g \<noteq> None" using family_okD(1) [OF fam q0] by (simp add: e(1))
    have "distinct (p_children qr) \<and> set (p_children qr) = {c. parent t c = Some q}"
    proof -
      consider "q = p" "p_children qr = []" | "q = i" "q \<noteq> p" "p_children qr = rev (p_children pr) @ p_children q0"
        | "q \<noteq> p" "q \<noteq> i" "p_children qr = p_children q0"
        using q q0 by (auto simp: e(3) adopted_def split: if_splits)
      then show ?thesis
      proof cases
        case 1
        then show ?thesis using i(2) by (auto simp: v(4))
      next
        case 2
        then show ?thesis using kids family_okD(2,3) [OF fam q0] by (auto simp: v(4))
      next
        case 3
        then show ?thesis using family_okD(2,3) [OF fam q0] by (auto simp: v(4))
      qed
    qed
    then show "distinct (p_children qr)" "set (p_children qr) = {c. parent t c = Some q}" by blast+
  next
    fix c q assume "parent t c = Some q"
    then have "q = i \<and> parent s c = Some p \<or> parent s c = Some q" by (auto simp: v(4) split: if_splits)
    then show "jprocs t q \<noteq> None" "q \<noteq> c" using par [of c q] i v(1) by auto
  qed
qed

lemma zombied_hash:
  assumes z: "zombied p i pr s t" and fam: "family_ok s" and i: "jprocs s i = Some ir" "i \<noteq> p" "parent s i \<noteq> Some p" and h: "hash_ok s"
  shows "hash_ok t"
  unfolding hash_ok_def
proof (intro allI conjI)
  note v = zombied_views [OF z fam i]
  have e: "jprocs s p = Some pr" "pidhash t = (pidhash s)(PIDHASH (p_pid pr) := remove1 p (pidhash s (PIDHASH (p_pid pr))))"
    using z by (auto simp: zombied_def)
  have pid: "map_option (\<lambda>pr. PIDHASH (p_pid pr)) (jprocs t q) = map_option (\<lambda>pr. PIDHASH (p_pid pr)) (jprocs s q)" for q
    using arg_cong [OF v(3) [of q], of "map_option PIDHASH"] by (simp add: option.map_comp comp_def)
  fix x
  show "distinct (pidhash t x)" using hash_okD(1) [OF h] by (simp add: e(2))
  have "q \<in> set (pidhash t x) \<longleftrightarrow> q \<noteq> p \<and> q \<in> set (pidhash s x)" for q
    using hash_okD(2) [OF h, of p x] e(1) by (auto simp: e(2) hash_okD(1) [OF h])
  then show "set (pidhash t x) = {q. live t q \<and> map_option (\<lambda>pr. PIDHASH (p_pid pr)) (jprocs t q) = Some x}"
    using hash_okD(2) [OF h] by (auto simp: v(5) pid)
qed

text \<open>The chain of parents of the adopted processes ends at \<open>init\<close>, whose parent is the root.\<close>

lemma zombied_rooted:
  assumes z: "zombied p i pr s t" and fam: "family_ok s" and i: "jprocs s i = Some ir" "i \<noteq> p" and r: "rooted s"
    and root: "parent s i = Some po" "parent s po = None" "p \<noteq> po"
  shows "rooted t"
proof -
  have ip: "parent s i \<noteq> Some p" using root by auto
  note v = zombied_views [OF z fam i ip]
  obtain d :: "nat \<Rightarrow> nat" where d: "\<And>q pp. parent s q = Some pp \<Longrightarrow> d pp < d q" using r unfolding rooted_def by blast
  define d' where "d' = (\<lambda>q. if q = po then 0 else if q = i then 1 else d q + 2)"
  have "i \<noteq> po" using root by auto
  show ?thesis unfolding rooted_def
  proof (intro conjI exI allI impI)
    fix q pp assume "parent t q = Some pp"
    then have "pp = i \<and> parent s q = Some p \<or> parent s q = Some pp" by (auto simp: v(4) split: if_splits)
    moreover have "d' i < d' q" if "parent s q = Some p" using that ip root(2) by (auto simp: d'_def)
    moreover have "d' pp < d' q" if "parent s q = Some pp" using d [OF that] that root \<open>i \<noteq> po\<close> by (auto simp: d'_def)
    ultimately show "d' pp < d' q" by blast
  next
    fix q qr assume a: "jprocs t q = Some qr" "p_pid qr \<noteq> 0"
    then obtain q0 where "jprocs s q = Some q0" "p_pid q0 = p_pid qr" using v(3) [of q] by (cases "jprocs s q") auto
    then have "parent s q \<noteq> None" using r a(2) unfolding rooted_def by metis
    then show "parent t q \<noteq> None" by (simp add: v(4))
  qed
qed

text \<open>What \<open>fixjobc\<close> took from the counts is what the process and its children counted for.\<close>

lemma zombied_qual:
  assumes z: "zombied p i pr s t" and fam: "family_ok s" and i: "jprocs s i = Some ir" "i \<noteq> p" "parent s i \<noteq> Some p"
    and p: "live s p" "parent s p = Some pp" "grp s p = Some g"
    and init: "\<forall>c x. parent s c = Some p \<longrightarrow> live s c \<longrightarrow> grp s c = Some x \<longrightarrow> \<not> links s (grp s i) x"
  shows "(of_bool (qual t q x) :: int) = of_bool (qual s q x) -
    ((if q = p then of_bool (x = g \<and> links s (grp s pp) g) else 0) + (if parent s q = Some p then of_bool (child_qual s g q x) else 0))"
proof -
  note v = zombied_views [OF z fam i]
  have np: "parent s p \<noteq> Some p" "pp \<noteq> p" using fam p(2) unfolding family_ok_def by blast+
  consider "q = p" | "q \<noteq> p" "parent s q = Some p" | "q \<noteq> p" "parent s q \<noteq> Some p" by blast
  then show ?thesis
  proof cases
    case 1
    have "qual s p x \<longleftrightarrow> x = g \<and> links s (grp s pp) g" using p by (auto simp: qual_def)
    moreover have "\<not> qual t p x" by (simp add: qual_def v(5))
    ultimately show ?thesis using 1 np by simp
  next
    case 2
    have "qual s q x \<longleftrightarrow> child_qual s g q x" using 2 p(3) by (auto simp: qual_def child_qual_def)
    moreover have "\<not> qual t q x" using 2 init by (auto simp: qual_def v(2,4,5,9))
    ultimately show ?thesis using 2 by simp
  next
    case 3
    have "qual t q x \<longleftrightarrow> qual s q x" using 3 by (simp add: qual_def v(2,4,5,9))
    then show ?thesis using 3 by simp
  qed
qed

lemma sum_children:
  fixes f :: "nat \<Rightarrow> int"
  assumes "family_ok s" "jprocs s p \<noteq> None"
  shows "(\<Sum>q \<in> dom (jprocs s). (if q = p then a else 0) + (if parent s q = Some p then f q else 0)) = a + (\<Sum>c | parent s c = Some p. f c)"
proof -
  have fin: "finite (dom (jprocs s))" using assms(1) by (simp add: family_ok_def)
  have kids: "{c \<in> dom (jprocs s). parent s c = Some p} = {c. parent s c = Some p}" by (auto simp: parent_def bind_eq_Some_conv)
  have "(\<Sum>q \<in> dom (jprocs s). if parent s q = Some p then f q else 0) = (\<Sum>c | parent s c = Some p. f c)"
    using sum.inter_filter [OF fin, of f "\<lambda>c. parent s c = Some p"] unfolding kids by simp
  then show ?thesis using fin assms(2) by (simp add: sum.distrib domIff)
qed

text \<open>The tables are right again.\<close>

lemma exit_jobs_ok:
  assumes ok: "sys_ok s" and ld: "lead_ok s" and p: "jprocs s p = Some pr" "jproc.p_stat pr \<noteq> SZOMB" "p_pptr pr = Some pp" "p_pgrp pr = Some g"
    and g: "exit_group p s = Done s2" "same_but_lead s s1" "same_but_jobc s1 s2"
      "\<forall>x. jobc s2 x = jobc s x - (of_bool (x = g \<and> links s (grp s pp) g) + (\<Sum>c | parent s c = Some p. of_bool (child_qual s g c x)))"
      "\<forall>a se. sessions s2 a = Some se \<longrightarrow> s_leader se \<noteq> Some p"
    and i: "jprocs s i = Some ir" "i \<noteq> p" and root: "parent s i = Some po" "parent s po = None" "p \<noteq> po"
    and init: "\<forall>c x. parent s c = Some p \<longrightarrow> live s c \<longrightarrow> grp s c = Some x \<longrightarrow> \<not> links s (grp s i) x"
    and z: "zombied p i pr s2 t"
  shows "sys_ok t" "lead_ok t"
proof -
  have inv: "family_ok s" "table_ok {} s" "leader_ok s" "jobc_ok s" "pid_ok s" "rooted s" "hash_ok s"
    using ok by (auto simp: sys_ok_def job_inv_def pg_inv_def)
  note e1 = same_but_lead_eqs [OF g(2)] and e2 = same_but_jobc_eqs [OF g(3)]
  have jp: "jprocs s2 = jprocs s" and v2: "grp s2 = grp s" "parent s2 = parent s" "live s2 = live s" "ses s2 = ses s" "pidhash s2 = pidhash s"
    "sess_of s2 = sess_of s" "links s2 = links s" "sessions s2 = sessions s1"
    by (simp_all add: e1 e2 sess_of_def links_def fun_eq_iff)
  have cq2: "child_qual s2 = child_qual s" "qual s2 = qual s" by (auto simp: child_qual_def qual_def v2 fun_eq_iff)
  have inv2: "family_ok s2" "table_ok {} s2" "leader_ok s2"
    using same_but_lead_keeps(1-3) [OF g(2)] same_but_jobc_keeps [OF g(3)] inv by blast+
  have ld1: "lead_ok s1" by (rule same_but_lead_keeps(5) [OF g(2) ld])
  have i2: "jprocs s2 i = Some ir" "parent s2 i \<noteq> Some p" using i(1) root by (auto simp: jp v2)
  note v = zombied_views [OF z inv2(1) i2(1) i(2) i2(2)]
  have zt: "pgrps t = pgrps s2" "sessions t = sessions s2" "jttys t = jttys s2" "pgrphash t = pgrphash s2" using z by (auto simp: zombied_def)
  have pidt: "\<exists>q0. jprocs s q = Some q0 \<and> p_pid q0 = p_pid qr \<and> p_pgrp q0 = p_pgrp qr" if h: "jprocs t q = Some qr" for q qr
  proof -
    obtain q0 where q0: "jprocs s q = Some q0" "p_pid q0 = p_pid qr" using v(3) [of q] h by (cases "jprocs s q") (auto simp: jp)
    have "grp t q = grp s2 q" by (simp add: v(2))
    then show ?thesis using q0 h by (auto simp: grp_def jp)
  qed
  have "table_ok {} t" using inv2(2) by (simp add: table_ok_def zt v(2,6))
  moreover have "leader_ok t" unfolding leader_ok_def zt
  proof (intro allI impI)
    fix q qr x X se assume a: "jprocs t q = Some qr" "p_pgrp qr = Some x" "pgrps s2 x = Some X" "sessions s2 (pg_session X) = Some se" "s_leader se = Some q"
    then show "pg_id X = p_pid qr" using pidt [OF a(1)] inv2(3) unfolding leader_ok_def jp by metis
  qed
  moreover have "jobc_ok t" unfolding jobc_ok_def
  proof (intro allI impI)
    fix x assume "pgrps t x \<noteq> None"
    then have "pgrps s x \<noteq> None" using e2(11) [of x] by (simp add: zt e1(2))
    then have "jobc s x = (\<Sum>q\<in>dom (jprocs s). of_bool (qual s q x))" using inv(4) by (simp add: jobc_ok_def)
    moreover have "(\<Sum>q\<in>dom (jprocs t). of_bool (qual t q x)) = (\<Sum>q\<in>dom (jprocs s). of_bool (qual s q x)) -
      (of_bool (x = g \<and> links s (grp s pp) g) + (\<Sum>c | parent s c = Some p. of_bool (child_qual s g c x) :: int))"
    proof -
      have pv: "live s2 p" "parent s2 p = Some pp" "grp s2 p = Some g" using p by (auto simp: v2 live_def parent_def grp_def)
      have "(\<Sum>q\<in>dom (jprocs t). of_bool (qual t q x) :: int) = (\<Sum>q\<in>dom (jprocs s). of_bool (qual s q x) -
        ((if q = p then of_bool (x = g \<and> links s (grp s pp) g) else 0) + (if parent s q = Some p then of_bool (child_qual s g q x) else 0)))"
        unfolding v(1) jp using zombied_qual [OF z inv2(1) i2(1) i(2) i2(2) pv] init unfolding v2 cq2 by (intro sum.cong) auto
      moreover have pn: "jprocs s p \<noteq> None" using p(1) by simp
      ultimately show ?thesis
        using sum_children [OF inv(1) pn, of "of_bool (x = g \<and> links s (grp s pp) g)" "\<lambda>c. of_bool (child_qual s g c x)"]
        by (simp only: sum_subtractf)
    qed
    ultimately show "jobc t x = (\<Sum>q\<in>dom (jprocs t). of_bool (qual t q x))" using g(4) by (simp only: v(7))
  qed
  moreover have "pid_ok t" unfolding pid_ok_def zt v(8) v2(6)
  proof (intro conjI allI impI)
    fix q r qr rr assume "jprocs t q = Some qr" "jprocs t r = Some rr" "p_pid qr = p_pid rr"
    then show "q = r" using pidt [of q qr] pidt [of r rr] inv(5) unfolding pid_ok_def by metis
  next
    fix q qr x X assume a: "jprocs t q = Some qr" "pgrps s2 x = Some X" "pg_id X = p_pid qr"
    obtain X0 where X0: "pgrps s x = Some X0" "pg_id X0 = pg_id X" "pg_session X0 = pg_session X" using a(2) e2(12) [of x] by (auto simp: e1(2))
    then show "sess_of s q = Some (pg_session X)" using pidt [OF a(1)] a(3) inv(5) unfolding pid_ok_def by metis
  qed
  moreover have "rooted t"
    using zombied_rooted [OF z inv2(1) i2(1) i(2) _ _ _ root(3)] inv(6) root by (simp add: rooted_def v2 jp)
  moreover have "hash_ok s2" using inv(7) by (simp add: hash_ok_def v2 jp)
  ultimately show "sys_ok t"
    using zombied_family [OF z inv2(1) i2(1) i(2) i2(2)] zombied_hash [OF z inv2(1) i2(1) i(2) i2(2)]
    by (simp add: sys_ok_def job_inv_def pg_inv_def)
  show "lead_ok t" using ld1 g(5) unfolding lead_ok_def zt v(8) v2(6,8) e1(9,12) by (auto simp: v(5) v2(3,8))
qed

section \<open>The tables after a process is reclaimed\<close>

text \<open>The state without the process, before an empty group is deleted.\<close>

definition gone :: "nat \<Rightarrow> nat \<Rightarrow> addr \<Rightarrow> jsys \<Rightarrow> jsys" where
  "gone p pp g s =
     s\<lparr>jprocs := ((jprocs s)(pp := map_option (\<lambda>r. r\<lparr>p_children := remove1 p (p_children r)\<rparr>) (jprocs s pp)))(p := None),
       pgrps := (pgrps s)(g := map_option (\<lambda>G. G\<lparr>pg_mem := remove1 p (pg_mem G)\<rparr>) (pgrps s g))\<rparr>"

lemma pgdelete_jprocs: "pgdelete g (s\<lparr>jprocs := m\<rparr>) = kmap (\<lambda>t. t\<lparr>jprocs := m\<rparr>) (pgdelete g s)"
proof (cases "pgrps s g")
  case (Some G)
  note G = this
  show ?thesis
  proof (cases "sessions s (pg_session G)")
    case (Some se)
    show ?thesis
    proof (cases "s_ttyp se")
      case None
      then show ?thesis using G Some by (simp add: pgdelete_def Let_def)
    next
      case (Some t)
      then show ?thesis using G \<open>sessions s (pg_session G) = Some se\<close>
        by (cases "jttys s t") (auto simp: pgdelete_def Let_def)
    qed
  qed (simp add: pgdelete_def G)
qed (simp add: pgdelete_def)

lemma reclaim_jobs_gone:
  assumes p: "jprocs s p = Some pr" "p_pgrp pr = Some g" "p_pptr pr = Some pp" and G: "pgrps s g = Some G" "p \<in> set (pg_mem G)"
    and pp: "jprocs s pp = Some ppr" "pp \<noteq> p"
    and del: "remove1 p (pg_mem G) = [] \<longrightarrow> pgdelete g (gone p pp g s) = Done t"
  shows "reclaim_jobs p s = Done (if remove1 p (pg_mem G) = [] then t else gone p pp g s)"
proof -
  define u where "u = upd_pgrp g (\<lambda>G. G\<lparr>pg_mem := remove1 p (pg_mem G)\<rparr>) s"
  let ?m = "((jprocs s)(pp \<mapsto> ppr\<lparr>p_children := remove1 p (p_children ppr)\<rparr>))(p := None)"
  have gu: "gone p pp g s = u\<lparr>jprocs := ?m\<rparr>" using pp(1) by (simp add: gone_def u_def upd_pgrp_def)
  have un: "unlinkpgrp msg p s = (if remove1 p (pg_mem G) = [] then pgdelete g u else Done u)" for msg
    using p(1,2) G by (simp add: unlinkpgrp_def get_pgrp_def u_def Let_def)
  show ?thesis
  proof (cases "remove1 p (pg_mem G) = []")
    case False
    then show ?thesis using p pp
      by (simp add: reclaim_jobs_def leavepgrp_def un gu) (simp add: u_def upd_pgrp_def upd_proc_def fun_upd_twist)
  next
    case True
    then have "kmap (\<lambda>t. t\<lparr>jprocs := ?m\<rparr>) (pgdelete g u) = Done t" using del by (simp add: gu pgdelete_jprocs)
    then obtain t0 where t0: "pgdelete g u = Done t0" "t = t0\<lparr>jprocs := ?m\<rparr>" by (auto simp: kmap_Done_iff)
    have "pgdelete g (u\<lparr>jprocs := jprocs u\<rparr>) = kmap (\<lambda>t. t\<lparr>jprocs := jprocs u\<rparr>) (pgdelete g u)" by (rule pgdelete_jprocs)
    then have "t0 = t0\<lparr>jprocs := jprocs u\<rparr>" using t0(1) by simp
    then have "jprocs t0 = jprocs u" by (metis jsys.select_convs(1) jsys.surjective jsys.update_convs(1))
    then have "jprocs t0 = jprocs s" by (simp add: u_def upd_pgrp_def)
    then show ?thesis using True p pp t0
      by (simp add: reclaim_jobs_def leavepgrp_def un upd_proc_def fun_upd_twist)
  qed
qed

lemma gone_views:
  assumes p: "jprocs s p = Some pr" "p_pgrp pr = Some g" and pp: "pp \<noteq> p"
  shows "jprocs (gone p pp g s) q = (if q = p then None else if q = pp then map_option (\<lambda>r. r\<lparr>p_children := remove1 p (p_children r)\<rparr>) (jprocs s q) else jprocs s q)"
    "grp (gone p pp g s) = (grp s)(p := None)" "parent (gone p pp g s) = (parent s)(p := None)" "live (gone p pp g s) q \<longleftrightarrow> q \<noteq> p \<and> live s q"
    "ses (gone p pp g s) = ses s" "jobc (gone p pp g s) = jobc s" "links (gone p pp g s) = links s" "dom (jprocs (gone p pp g s)) = dom (jprocs s) - {p}"
    "sessions (gone p pp g s) = sessions s" "jttys (gone p pp g s) = jttys s" "pgrphash (gone p pp g s) = pgrphash s" "pidhash (gone p pp g s) = pidhash s"
    "pgrps (gone p pp g s) = (pgrps s)(g := map_option (\<lambda>G. G\<lparr>pg_mem := remove1 p (pg_mem G)\<rparr>) (pgrps s g))"
proof -
  show j: "jprocs (gone p pp g s) q = (if q = p then None else if q = pp then map_option (\<lambda>r. r\<lparr>p_children := remove1 p (p_children r)\<rparr>) (jprocs s q) else jprocs s q)"
    for q by (simp add: gone_def)
  show "grp (gone p pp g s) = (grp s)(p := None)" "parent (gone p pp g s) = (parent s)(p := None)"
    by (auto simp: grp_def parent_def j fun_eq_iff bind_map_option comp_def)
  show "live (gone p pp g s) q \<longleftrightarrow> q \<noteq> p \<and> live s q" by (auto simp: live_def j)
  show ss: "ses (gone p pp g s) = ses s" "jobc (gone p pp g s) = jobc s"
    by (auto simp: ses_def jobc_def gone_def fun_eq_iff option.map_comp comp_def split: option.splits)
  show "links (gone p pp g s) = links s" by (simp add: links_def ss fun_eq_iff)
  have "q \<in> dom (jprocs (gone p pp g s)) \<longleftrightarrow> q \<in> dom (jprocs s) - {p}" for q by (auto simp: j domIff)
  then show "dom (jprocs (gone p pp g s)) = dom (jprocs s) - {p}" by blast
qed (simp_all add: gone_def)

lemma gone_family:
  assumes fam: "family_ok s" and p: "jprocs s p = Some pr" "p_pgrp pr = Some g" "p_pptr pr = Some pp" and kids: "\<forall>c. parent s c \<noteq> Some p"
  shows "family_ok (gone p pp g s)"
proof -
  have par: "parent s p = Some pp" using p by (simp add: parent_def)
  have pp: "pp \<noteq> p" using kids par by auto
  note v = gone_views [OF p(1,2) pp]
  show ?thesis unfolding family_ok_def
  proof (intro conjI allI impI)
    show "finite (dom (jprocs (gone p pp g s)))" using fam by (simp add: v(8) family_ok_def)
  next
    fix q qr assume q: "jprocs (gone p pp g s) q = Some qr"
    then obtain q0 where q0: "q \<noteq> p" "jprocs s q = Some q0" "p_pgrp qr = p_pgrp q0" "p_children qr = (if q = pp then remove1 p (p_children q0) else p_children q0)"
      by (auto simp: v(1) split: if_splits)
    show "\<exists>x. p_pgrp qr = Some x \<and> pgrps (gone p pp g s) x \<noteq> None" using family_okD(1) [OF fam q0(2)] q0(3) by (auto simp: v(13))
    show "distinct (p_children qr)" using family_okD(2) [OF fam q0(2)] q0(4) by simp
    show "set (p_children qr) = {c. parent (gone p pp g s) c = Some q}"
      using family_okD(2,3) [OF fam q0(2)] q0(1,4) par by (auto simp: v(3))
  next
    fix c q assume "parent (gone p pp g s) c = Some q"
    then have "c \<noteq> p" "parent s c = Some q" by (auto simp: v(3) split: if_splits)
    then have "jprocs s q \<noteq> None" "q \<noteq> c" "q \<noteq> p" using fam kids unfolding family_ok_def by blast+
    then show "jprocs (gone p pp g s) q \<noteq> None" "q \<noteq> c" by (auto simp: v(1))
  qed
qed

lemma gone_table:
  assumes tab: "table_ok {} s" and p: "jprocs s p = Some pr" "p_pgrp pr = Some g" and pp: "pp \<noteq> p" and G: "pgrps s g = Some G"
  shows "table_ok {g} (gone p pp g s)"
proof -
  note v = gone_views [OF p pp]
  let ?t = "gone p pp g s"
  have gp: "grp s p = Some g" using p by (simp add: grp_def)
  have get: "\<exists>X0. pgrps s x = Some X0 \<and> pg_session X = pg_session X0 \<and> pg_id X = pg_id X0 \<and>
      pg_mem X = (if x = g then remove1 p (pg_mem X0) else pg_mem X0)" if "pgrps ?t x = Some X" for x X
    using that G by (auto simp: v(13) split: if_splits)
  have hash: "{x. \<exists>X. pgrps ?t x = Some X \<and> PIDHASH (pg_id X) = h} = {x. \<exists>X. pgrps s x = Some X \<and> PIDHASH (pg_id X) = h}" for h
    using G by (auto simp: v(13))
  have dm: "dom (pgrps ?t) = dom (pgrps s)" using G by (auto simp: v(13))
  show ?thesis unfolding table_ok_def hash v(5,9,10,11) dm
  proof (intro conjI allI impI)
    fix x X assume x: "pgrps ?t x = Some X"
    obtain X0 where X0: "pgrps s x = Some X0" "pg_session X = pg_session X0" "pg_mem X = (if x = g then remove1 p (pg_mem X0) else pg_mem X0)"
      using get [OF x] by blast
    note m = table_okD(2,3) [OF tab X0(1)]
    show "distinct (pg_mem X)" using m X0(3) by simp
    show "set (pg_mem X) = {q. grp ?t q = Some x}" using m X0(3) gp by (auto simp: v(2))
    show "pg_mem X = [] \<Longrightarrow> x \<in> {g}" using m X0(3) by (auto split: if_splits)
    show "sessions s (pg_session X) \<noteq> None" using table_okD(4) [OF tab X0(1)] X0(2) by simp
  next
    fix x y X Y assume "pgrps ?t x = Some X" "pgrps ?t y = Some Y" "pg_id X = pg_id Y"
    then show "x = y" using get [of x X] get [of y Y] table_okD(7) [OF tab] by auto
  qed (use tab in \<open>auto simp: table_ok_def\<close>)
qed

text \<open>A zombie has no children.\<close>

definition kin_ok :: "jsys \<Rightarrow> bool" where
  "kin_ok s \<longleftrightarrow> (\<forall>c pp. parent s c = Some pp \<longrightarrow> live s pp)"

lemma pgdelete_sessions:
  assumes "pgdelete g s = Done t" "sessions t a = Some se"
  shows "\<exists>se0. sessions s a = Some se0 \<and> s_leader se = s_leader se0 \<and> s_ttyvp se = s_ttyvp se0 \<and> s_ttyp se = s_ttyp se0"
proof -
  obtain G where G: "pgrps s g = Some G" using assms(1) by (cases "pgrps s g") (auto simp: pgdelete_def)
  obtain s0 where s0: "sessions s (pg_session G) = Some s0" using assms(1) G by (cases "sessions s (pg_session G)") (auto simp: pgdelete_def)
  have "sessions t = (sessions s)(pg_session G := if s_count s0 - 1 = 0 then None else Some (s0\<lparr>s_count := s_count s0 - 1\<rparr>))"
    using assms(1) G s0
    by (cases "s_ttyp s0") (auto simp: pgdelete_def Let_def kbind_Done_iff deref_Done_iff kmap_Done_iff split: if_splits)
  then show ?thesis using assms(2) s0 by (auto split: if_splits)
qed

text \<open>What reclaiming changes: the process is gone, and so is its group if it was the last member.\<close>

definition reclaimed :: "nat \<Rightarrow> nat \<Rightarrow> addr \<Rightarrow> jsys \<Rightarrow> jsys \<Rightarrow> bool" where
  "reclaimed p pp g s t \<longleftrightarrow> table_ok {} t \<and> jprocs t = jprocs (gone p pp g s) \<and> pidhash t = pidhash s \<and>
     (pgrps t = pgrps (gone p pp g s) \<or> (\<forall>q. q \<noteq> p \<longrightarrow> grp s q \<noteq> Some g) \<and> pgrps t = (pgrps s)(g := None)) \<and>
     (\<forall>a se. sessions t a = Some se \<longrightarrow> (\<exists>se0. sessions s a = Some se0 \<and> s_leader se = s_leader se0 \<and> s_ttyvp se = s_ttyvp se0 \<and> s_ttyp se = s_ttyp se0))"

lemma reclaim_jobs_reclaimed:
  assumes fam: "family_ok s" and tab: "table_ok {} s" and p: "jprocs s p = Some pr" "p_pgrp pr = Some g" "p_pptr pr = Some pp"
    and kids: "\<forall>c. parent s c \<noteq> Some p"
  shows "\<exists>t. reclaim_jobs p s = Done t \<and> reclaimed p pp g s t"
proof -
  have par: "parent s p = Some pp" and gp: "grp s p = Some g" using p by (simp_all add: parent_def grp_def)
  have pp: "pp \<noteq> p" using kids par by auto
  obtain ppr where ppr: "jprocs s pp = Some ppr" using fam par unfolding family_ok_def by blast
  obtain G where G: "pgrps s g = Some G" using family_okD(1) [OF fam p(1)] p(2) by auto
  have mem: "p \<in> set (pg_mem G)" "distinct (pg_mem G)" "set (pg_mem G) = {q. grp s q = Some g}" using table_okD(2) [OF tab G] gp by auto
  note v = gone_views [OF p(1,2) pp]
  have tg: "table_ok {g} (gone p pp g s)" by (rule gone_table [OF tab p(1,2) pp G])
  have G': "pgrps (gone p pp g s) g = Some (G\<lparr>pg_mem := remove1 p (pg_mem G)\<rparr>)" using G by (simp add: v(13))
  show ?thesis
  proof (cases "remove1 p (pg_mem G) = []")
    case True
    then have em: "pg_mem (G\<lparr>pg_mem := remove1 p (pg_mem G)\<rparr>) = []" by simp
    obtain t where t: "pgdelete g (gone p pp g s) = Done t" "table_ok {} t" "jprocs t = jprocs (gone p pp g s)"
      "pgrps t = (pgrps (gone p pp g s))(g := None)" "pidhash t = pidhash (gone p pp g s)" by (rule pgdelete_ok [OF tg G' em])
    have "reclaim_jobs p s = Done t" using reclaim_jobs_gone [OF p G mem(1) ppr pp] t(1) True by simp
    moreover have "grp s q \<noteq> Some g" if "q \<noteq> p" for q
    proof
      assume "grp s q = Some g"
      then have "q \<in> set (remove1 p (pg_mem G))" using mem that by simp
      then show False using True by simp
    qed
    moreover have "\<forall>a se. sessions t a = Some se \<longrightarrow> (\<exists>se0. sessions s a = Some se0 \<and> s_leader se = s_leader se0 \<and> s_ttyvp se = s_ttyvp se0 \<and> s_ttyp se = s_ttyp se0)"
      using pgdelete_sessions [OF t(1)] by (simp add: v(9))
    ultimately show ?thesis using t(2-5) by (intro exI [of _ t]) (simp add: reclaimed_def v(12,13))
  next
    case False
    have ne: "pg_mem X \<noteq> []" if "pgrps (gone p pp g s) x = Some X" for x X
      using that False table_okD(3) [OF tg that] G by (auto simp: v(13) split: if_splits)
    have "table_ok {} (gone p pp g s)" using tg ne unfolding table_ok_def by blast
    moreover have "reclaim_jobs p s = Done (gone p pp g s)" using reclaim_jobs_gone [OF p G mem(1) ppr pp] False by simp
    ultimately show ?thesis by (intro exI [of _ "gone p pp g s"]) (simp add: reclaimed_def v(9,12))
  qed
qed

lemma reclaim_jobs_ok:
  assumes ok: "sys_ok s" and ld: "lead_ok s" and kin: "kin_ok s" and p: "jprocs s p = Some pr" "jproc.p_stat pr = SZOMB" "p_pptr pr = Some pp"
  shows "\<exists>t. reclaim_jobs p s = Done t \<and> sys_ok t \<and> lead_ok t \<and> kin_ok t \<and> dom (jprocs t) = dom (jprocs s) - {p} \<and>
    grp t = (grp s)(p := None) \<and> parent t = (parent s)(p := None) \<and> live t = live s \<and>
    (\<forall>q. q \<noteq> p \<longrightarrow> map_option p_pid (jprocs t q) = map_option p_pid (jprocs s q)) \<and>
    (\<forall>x X. pgrps t x = Some X \<longrightarrow> (\<exists>X0. pgrps s x = Some X0 \<and> pg_id X0 = pg_id X)) \<and> (\<forall>x. ses t x \<in> {None, ses s x})"
proof -
  have inv: "family_ok s" "table_ok {} s" "leader_ok s" "jobc_ok s" "pid_ok s" "rooted s" "hash_ok s" "pg_inv s"
    using ok by (auto simp: sys_ok_def job_inv_def pg_inv_def)
  have nl: "\<not> live s p" using p by (simp add: live_def)
  then have kids: "\<forall>c. parent s c \<noteq> Some p" using kin unfolding kin_ok_def by blast
  obtain g where g: "p_pgrp pr = Some g" using family_okD(1) [OF inv(1) p(1)] by blast
  obtain t where run: "reclaim_jobs p s = Done t" and rec: "reclaimed p pp g s t"
    using reclaim_jobs_reclaimed [OF inv(1,2) p(1) g p(3) kids] by blast
  have "parent s p = Some pp" using p by (simp add: parent_def)
  then have pp: "pp \<noteq> p" using kids by auto
  note v = gone_views [OF p(1) g pp]
  have e: "jprocs t = jprocs (gone p pp g s)" "pidhash t = pidhash s" "table_ok {} t" using rec by (auto simp: reclaimed_def)
  have se: "\<exists>se0. sessions s a = Some se0 \<and> s_leader sa = s_leader se0 \<and> s_ttyvp sa = s_ttyvp se0 \<and> s_ttyp sa = s_ttyp se0"
    if "sessions t a = Some sa" for a sa using rec that unfolding reclaimed_def by blast
  have vt: "grp t = (grp s)(p := None)" "parent t = (parent s)(p := None)" "live t = live s" "dom (jprocs t) = dom (jprocs s) - {p}"
    using v(2,3,4,8) nl by (auto simp: grp_def parent_def live_def e(1) fun_eq_iff)
  have pg: "\<exists>X0. pgrps s x = Some X0 \<and> pg_session X = pg_session X0 \<and> pg_id X = pg_id X0 \<and> pg_jobc X = pg_jobc X0" if "pgrps t x = Some X" for x X
    using rec that unfolding reclaimed_def v(13) by (auto split: if_splits)
  have keep: "pgrps t x \<noteq> None" if "grp t q = Some x" for q x
  proof -
    have q: "q \<noteq> p" "grp s q = Some x" using that by (auto simp: vt(1) split: if_splits)
    then obtain qr where "jprocs s q = Some qr" "p_pgrp qr = Some x" by (auto simp: grp_def bind_eq_Some_conv)
    then have "pgrps s x \<noteq> None" using family_okD(1) [OF inv(1)] by fastforce
    then show ?thesis using rec q unfolding reclaimed_def v(13) by auto
  qed
  have ses: "ses t x = ses s x" if "pgrps t x \<noteq> None" for x using pg [of x] that by (auto simp: ses_def)
  have so: "sess_of t q = sess_of s q" if "q \<noteq> p" for q
    using that ses keep [of q] by (cases "grp s q") (auto simp: sess_of_def vt(1))
  have pid: "\<exists>q0. q \<noteq> p \<and> jprocs s q = Some q0 \<and> p_pid q0 = p_pid qr \<and> p_pgrp q0 = p_pgrp qr" if "jprocs t q = Some qr" for q qr
    using that by (auto simp: e(1) v(1) split: if_splits)
  have fam: "family_ok t"
  proof -
    have f: "family_ok (gone p pp g s)" by (rule gone_family [OF inv(1) p(1) g p(3) kids])
    have "parent t = parent (gone p pp g s)" by (simp add: parent_def e(1) fun_eq_iff)
    moreover have "\<exists>x. p_pgrp qr = Some x \<and> pgrps t x \<noteq> None" if h: "jprocs t q = Some qr" for q qr
    proof -
      obtain x where "p_pgrp qr = Some x" using family_okD(1) [OF f] h unfolding e(1) by blast
      then show ?thesis using keep [of q x] h by (simp add: grp_def)
    qed
    ultimately show ?thesis using f unfolding family_ok_def e(1) by auto
  qed
  have lead: "leader_ok t" unfolding leader_ok_def
  proof (intro allI impI)
    fix q qr x X sa assume a: "jprocs t q = Some qr" "p_pgrp qr = Some x" "pgrps t x = Some X" "sessions t (pg_session X) = Some sa" "s_leader sa = Some q"
    obtain X0 where X0: "pgrps s x = Some X0" "pg_session X = pg_session X0" "pg_id X = pg_id X0" using pg [OF a(3)] by blast
    obtain s0 where s0: "sessions s (pg_session X0) = Some s0" "s_leader s0 = Some q" using se [OF a(4)] a(5) X0(2) by auto
    show "pg_id X = p_pid qr" using pid [OF a(1)] a(2) X0 s0 inv(3) unfolding leader_ok_def by metis
  qed
  have links: "links t (grp t r) x \<longleftrightarrow> links s (grp s r) x" if "pgrps t x \<noteq> None" "r \<noteq> p" for r x
    using that ses keep [of r] by (auto simp: links_def vt(1))
  have q: "qual t q x \<longleftrightarrow> qual s q x" if "pgrps t x \<noteq> None" "q \<noteq> p" for q x
  proof -
    have "(\<exists>r. parent s q = Some r \<and> links t (grp t r) x) \<longleftrightarrow> (\<exists>r. parent s q = Some r \<and> links s (grp s r) x)"
      using links [OF that(1)] kids by metis
    then show ?thesis using that by (simp add: qual_def vt(1,2,3))
  qed
  have jobc: "jobc_ok t" unfolding jobc_ok_def
  proof (intro allI impI)
    fix x assume x: "pgrps t x \<noteq> None"
    have "jobc t x = jobc s x" "pgrps s x \<noteq> None" using pg [of x] x by (auto simp: jobc_def)
    moreover have "(\<Sum>q\<in>dom (jprocs t). of_bool (qual t q x) :: int) = (\<Sum>q\<in>dom (jprocs t). of_bool (qual s q x))"
      by (rule sum.cong) (auto simp: q [OF x] vt(4))
    moreover have "(\<Sum>q\<in>dom (jprocs s). of_bool (qual s q x) :: int) = of_bool (qual s p x) + (\<Sum>q\<in>dom (jprocs t). of_bool (qual s q x))"
      unfolding vt(4) using inv(1) p(1) by (intro sum.remove) (auto simp: family_ok_def)
    moreover have "\<not> qual s p x" using nl by (simp add: qual_def)
    ultimately show "jobc t x = (\<Sum>q\<in>dom (jprocs t). of_bool (qual t q x))" using inv(4) by (simp add: jobc_ok_def)
  qed
  have pidok: "pid_ok t" unfolding pid_ok_def
  proof (intro conjI allI impI)
    fix q r qr rr assume a: "jprocs t q = Some qr" "jprocs t r = Some rr" "p_pid qr = p_pid rr"
    show "q = r" using pid [OF a(1)] pid [OF a(2)] a(3) inv(5) unfolding pid_ok_def by metis
  next
    fix q qr x X assume a: "jprocs t q = Some qr" "pgrps t x = Some X" "pg_id X = p_pid qr"
    obtain q0 where q0: "q \<noteq> p" "jprocs s q = Some q0" "p_pid q0 = p_pid qr" using pid [OF a(1)] by blast
    show "sess_of t q = Some (pg_session X)" using so [OF q0(1)] pg [OF a(2)] a(3) q0 inv(5) unfolding pid_ok_def by metis
  qed
  have root: "rooted t" unfolding rooted_def
  proof (intro conjI allI impI)
    obtain d :: "nat \<Rightarrow> nat" where "\<And>q r. parent s q = Some r \<Longrightarrow> d r < d q" using inv(6) unfolding rooted_def by blast
    then show "\<exists>d :: nat \<Rightarrow> nat. \<forall>q r. parent t q = Some r \<longrightarrow> d r < d q" by (intro exI [of _ d]) (auto simp: vt(2))
    fix q qr assume "jprocs t q = Some qr" "p_pid qr \<noteq> 0"
    then show "parent t q \<noteq> None" using pid [of q qr] inv(6) unfolding rooted_def vt(2) by fastforce
  qed
  have pidmap: "map_option p_pid (jprocs t q) = map_option p_pid (jprocs s q)" if "q \<noteq> p" for q
    using that by (simp add: e(1) v(1) option.map_comp comp_def)
  have hash: "hash_ok t" unfolding hash_ok_def e(2) vt(3)
  proof (intro allI conjI)
    fix x
    show "distinct (pidhash s x)" using hash_okD(1) [OF inv(7)] .
    have "map_option (\<lambda>pr. PIDHASH (p_pid pr)) (jprocs t q) = map_option (\<lambda>pr. PIDHASH (p_pid pr)) (jprocs s q)" if "q \<noteq> p" for q
      using arg_cong [OF pidmap [OF that], of "map_option PIDHASH"] by (simp add: option.map_comp comp_def)
    then have "q \<in> set (pidhash s x) \<longleftrightarrow> live s q \<and> map_option (\<lambda>pr. PIDHASH (p_pid pr)) (jprocs t q) = Some x" for q
      using hash_okD(2) [OF inv(7), of q x] nl by (cases "q = p") auto
    then show "set (pidhash s x) = {q. live s q \<and> map_option (\<lambda>pr. PIDHASH (p_pid pr)) (jprocs t q) = Some x}" by blast
  qed
  have lok: "lead_ok t" unfolding lead_ok_def vt(3)
  proof (intro allI impI)
    fix a sa assume a: "sessions t a = Some sa"
    obtain s0 where s0: "sessions s a = Some s0" "s_leader sa = s_leader s0" "s_ttyvp sa = s_ttyvp s0" "s_ttyp sa = s_ttyp s0" using se [OF a] by blast
    have "live s q \<and> sess_of t q = Some a" if "s_leader sa = Some q" for q
    proof -
      have lq: "live s q" "sess_of s q = Some a" using ld s0 that unfolding lead_ok_def by metis+
      then have "q \<noteq> p" using nl by auto
      then show ?thesis using lq so by simp
    qed
    then show "(s_ttyvp sa \<noteq> None \<longrightarrow> s_ttyp sa \<noteq> None) \<and> (\<forall>q. s_leader sa = Some q \<longrightarrow> live s q \<and> sess_of t q = Some a)"
      using ld s0 unfolding lead_ok_def by metis
  qed
  have "kin_ok t" using kin unfolding kin_ok_def vt(2,3) by auto
  moreover have "\<forall>x X. pgrps t x = Some X \<longrightarrow> (\<exists>X0. pgrps s x = Some X0 \<and> pg_id X0 = pg_id X)" using pg by fastforce
  moreover have "ses t x \<in> {None, ses s x}" for x using ses [of x] by (cases "pgrps t x") (simp_all add: ses_def)
  ultimately show ?thesis using run fam e(3) lead jobc pidok root hash lok vt pidmap
    by (intro exI [of _ t]) (simp add: sys_ok_def job_inv_def pg_inv_def)
qed

section \<open>Credentials and limits after a process is reclaimed\<close>

lemma unat_pred: "x \<noteq> 0 \<Longrightarrow> unat (x - 1 :: 'a :: len word) = unat x - 1"
  by (simp add: unat_minus_one)

lemma reclaim_creds_ok:
  assumes ok: "cred_ok ext s" and p: "p_cred s p = Some a"
  shows "\<exists>s'. reclaim_creds p s = Done s' \<and> cred_ok ext s' \<and> p_cred s' = (p_cred s)(p := None) \<and> unseen ext {p} s s'"
proof -
  have inv: "cred_inv ext s" and small: "refs_small s" using ok by (auto simp: cred_ok_def)
  obtain pc cr where pc: "pcreds s a = Some pc" "ucreds s (pc_ucred pc) = Some cr" "get_pcred p s = Done (a, pc)"
    by (rule cred_inv_get [OF inv p])
  let ?u = "pc_ucred pc"
  have pin: "p \<in> pusers s a" using p by (simp add: pusers_def)
  have cnt: "unat (p_refcnt pc) = card (pusers s a)" "unat (cr_ref cr) = card (uusers s ?u) + ext ?u" "groups_ok cr"
    using inv pc unfolding cred_inv_def by blast+
  have ain: "a \<in> uusers s ?u" using pc(1) by (auto simp: uusers_def)
  have nz: "p_refcnt pc \<noteq> 0" "cr_ref cr \<noteq> 0" using cnt pin ain finite_pusers [OF inv, of a] finite_uusers [OF inv, of ?u] by auto
  have fin: "finite (dom (p_cred s))" "finite (dom (pcreds s))" using inv by (simp_all add: cred_inv_def)
  have other: "pusers s b - {p} = pusers s b" if "b \<noteq> a" for b using p that by (auto simp: pusers_def)
  show ?thesis
  proof (cases "p_refcnt pc - 1 = 0")
    case False
    define s' where "s' = s\<lparr>pcreds := (pcreds s)(a \<mapsto> pc\<lparr>p_refcnt := p_refcnt pc - 1\<rparr>), p_cred := (p_cred s)(p := None)\<rparr>"
    have us: "pusers s' b = pusers s b - {p}" for b by (auto simp: pusers_def s'_def)
    have uu: "uusers s' = uusers s" using pc(1) by (auto simp: uusers_def s'_def fun_eq_iff)
    have c': "unat (p_refcnt pc - 1) = card (pusers s' a)" using cnt(1) pin finite_pusers [OF inv, of a] nz(1) by (simp add: us unat_pred)
    have "cred_inv ext s'" unfolding cred_inv_def uu
    proof (intro conjI allI impI)
      fix b qc assume b: "pcreds s' b = Some qc"
      have "ucreds s (pc_ucred qc) \<noteq> None \<and> unat (p_refcnt qc) = card (pusers s' b)"
      proof (cases "b = a")
        case True
        then show ?thesis using b pc(2) c' by (auto simp: s'_def)
      next
        case False
        then have "pcreds s b = Some qc" using b by (simp add: s'_def)
        then show ?thesis using inv other [OF False] unfolding cred_inv_def us by auto
      qed
      then show "ucreds s' (pc_ucred qc) \<noteq> None" "unat (p_refcnt qc) = card (pusers s' b)" by (simp_all add: s'_def)
    next
      fix q b assume "p_cred s' q = Some b"
      then show "pcreds s' b \<noteq> None" using inv unfolding cred_inv_def by (auto simp: s'_def split: if_splits)
    qed (use inv fin in \<open>auto simp: cred_inv_def s'_def\<close>)
    moreover have "refs_small s'" using small by (simp add: refs_small_def s'_def)
    moreover have "reclaim_creds p s = Done s'" using pc(3) False by (simp add: reclaim_creds_def s'_def)
    moreover have "pview s' q = pview s q" if q: "q \<noteq> p" for q
    proof (cases "p_cred s q")
      case (Some b)
      obtain qc cq where "pcreds s b = Some qc" "ucreds s (pc_ucred qc) = Some cq" by (rule cred_inv_get [OF inv Some])
      then show ?thesis using q Some pc(1,2) by (cases "b = a") (auto simp: pview_def get_creds_def get_pcred_def s'_def view_of_def)
    qed (use q in \<open>simp add: pview_def get_creds_def get_pcred_def s'_def\<close>)
    ultimately show ?thesis by (intro exI [of _ s']) (auto simp: cred_ok_def unseen_def uview_def s'_def)
  next
    case True
    then have one: "pusers s a = {p}"
    proof -
      have "p_refcnt pc = 1" using True by simp
      then have "card (pusers s a) + 0 = 1" using cnt(1) by simp
      then show ?thesis using single_count [OF finite_pusers [OF inv] pin] by blast
    qed
    define uc where "uc = (ucreds s)(?u := if cr_ref cr - 1 = 0 then None else Some (cr\<lparr>cr_ref := cr_ref cr - 1\<rparr>))"
    define s' where "s' = s\<lparr>ucreds := uc, pcreds := (pcreds s)(a := None), p_cred := (p_cred s)(p := None)\<rparr>"
    have us: "pusers s' b = pusers s b - {p}" for b by (auto simp: pusers_def s'_def)
    have uu: "uusers s' v = uusers s v - {a}" for v by (auto simp: uusers_def s'_def)
    have oth: "uusers s v - {a} = uusers s v" if "v \<noteq> ?u" for v using that pc(1) by (auto simp: uusers_def)
    have c': "unat (cr_ref cr - 1) = card (uusers s' ?u) + ext ?u"
      using cnt(2) unat_pred [OF nz(2)] card_Suc_Diff1 [OF finite_uusers [OF inv] ain] unfolding uu by linarith
    have gone: "uusers s' ?u = {}" "ext ?u = 0" if "cr_ref cr - 1 = 0"
      using c' that finite_uusers [OF inv, of ?u] by (auto simp: uu)
    have "cred_inv ext s'" unfolding cred_inv_def
    proof (intro conjI allI impI)
      fix b qc assume b: "pcreds s' b = Some qc"
      then have ba: "b \<noteq> a" "pcreds s b = Some qc" by (auto simp: s'_def split: if_splits)
      have "b \<in> uusers s' (pc_ucred qc)" using b by (auto simp: uusers_def)
      then have "pc_ucred qc = ?u \<longrightarrow> cr_ref cr - 1 \<noteq> 0" using gone(1) by auto
      moreover have "ucreds s (pc_ucred qc) \<noteq> None" "unat (p_refcnt qc) = card (pusers s b)" using inv ba(2) unfolding cred_inv_def by blast+
      ultimately show "ucreds s' (pc_ucred qc) \<noteq> None" "unat (p_refcnt qc) = card (pusers s' b)"
        using other [OF ba(1)] by (simp_all add: us) (simp add: s'_def uc_def)
    next
      fix q b assume q: "p_cred s' q = Some b"
      then have "q \<noteq> p" "p_cred s q = Some b" by (auto simp: s'_def split: if_splits)
      moreover from this have "b \<noteq> a" using one by (auto simp: pusers_def)
      ultimately show "pcreds s' b \<noteq> None" using inv unfolding cred_inv_def by (auto simp: s'_def)
    next
      fix v assume "0 < ext v"
      then show "ucreds s' v \<noteq> None" using inv gone(2) unfolding cred_inv_def by (auto simp: s'_def uc_def)
    next
      fix v cv assume v: "ucreds s' v = Some cv"
      have "groups_ok cv \<and> unat (cr_ref cv) = card (uusers s' v) + ext v"
      proof (cases "v = ?u")
        case True
        then have "cv = cr\<lparr>cr_ref := cr_ref cr - 1\<rparr>" using v by (auto simp: s'_def uc_def split: if_splits)
        then show ?thesis using c' cnt(3) True by (simp add: groups_ok_def)
      next
        case False
        then have "ucreds s v = Some cv" using v by (simp add: s'_def uc_def)
        then show ?thesis using inv oth [OF False] unfolding cred_inv_def uu by simp
      qed
      then show "groups_ok cv" "unat (cr_ref cv) = card (uusers s' v) + ext v" by blast+
    qed (use fin in \<open>simp_all add: s'_def\<close>)
    moreover have "refs_small s'" unfolding refs_small_def
    proof (intro allI impI)
      fix v cv assume v: "ucreds s' v = Some cv"
      have "unat (cr_ref cr - 1) < 65535" using small pc(2) nz(2) unfolding refs_small_def by (fastforce simp: unat_pred)
      then show "unat (cr_ref cv) < 65535" using v small unfolding refs_small_def by (auto simp: s'_def uc_def split: if_splits)
    qed
    moreover have "reclaim_creds p s = Done s'" using pc(2,3) True by (simp add: reclaim_creds_def crfree_def s'_def uc_def)
    moreover have "pview s' q = pview s q" if q: "q \<noteq> p" for q
    proof (cases "p_cred s q")
      case (Some b)
      obtain qc cq where b: "pcreds s b = Some qc" "ucreds s (pc_ucred qc) = Some cq" by (rule cred_inv_get [OF inv Some])
      have ba: "b \<noteq> a" using one Some q by (auto simp: pusers_def)
      have "b \<in> uusers s' (pc_ucred qc)" using ba b(1) by (auto simp: uusers_def s'_def)
      then have "pc_ucred qc = ?u \<longrightarrow> cr_ref cr - 1 \<noteq> 0" using gone(1) by auto
      then show ?thesis using q Some b ba pc(2) by (auto simp: pview_def get_creds_def get_pcred_def s'_def uc_def view_of_def)
    qed (use q in \<open>simp add: pview_def get_creds_def get_pcred_def s'_def\<close>)
    moreover have "uview s' v = uview s v" if "0 < ext v" for v
      using that gone(2) pc(2) by (auto simp: uview_def s'_def uc_def)
    ultimately show ?thesis by (intro exI [of _ s']) (auto simp: cred_ok_def unseen_def s'_def)
  qed
qed

end
