(* ===== verification/Exit_Props.thy ===== *)
theory Exit_Props
  imports Exit
begin

text \<open>
  The life of a process: \<open>exit\<close> and \<open>wait4\<close> keep the invariants of all the tables together, the
  parent is woken, and a child that was forked, has exited and was waited for leaves no trace.
\<close>

section \<open>The invariant\<close>

text \<open>
  The tables of \<open>Fork\<close> are right, the processes on \<open>allproc\<close> are those that are not zombies, only they
  run, sleep or are queued, and \<open>init\<close> is a child of the root of the family and never exits.
\<close>

definition x_inv :: "(addr \<Rightarrow> nat) \<Rightarrow> xsys \<Rightarrow> bool" where
  "x_inv ext x \<longleftrightarrow> fork_inv ext (x_sys x) \<and> lead_ok (x_jobs x) \<and> kin_ok (x_jobs x) \<and>
     (\<forall>p. live (x_jobs x) p \<longleftrightarrow> p \<in> set (allproc (x_rsys x))) \<and>
     jprocs (x_jobs x) 0 = None \<and> (\<forall>p \<in> dom (jprocs (x_jobs x)). (of_nat p :: u32) \<noteq> 0) \<and>
     (\<forall>q. q \<notin> set (allproc (x_rsys x)) \<longrightarrow> sproc.p_stat (procs (x_sched x) q) \<in> {SNONE, SIDL, SZOMB}) \<and>
     ssys.curproc (x_sched x) \<in> insert 0 (set (allproc (x_rsys x))) \<and>
     (\<exists>po. parent (x_jobs x) (initproc x) = Some po \<and> parent (x_jobs x) po = None) \<and> live (x_jobs x) (initproc x) \<and>
     map_option p_pid (jprocs (x_jobs x) (initproc x)) = Some 1"

lemma x_invD:
  assumes "x_inv ext x"
  shows "fork_inv ext (x_sys x)" "lead_ok (x_jobs x)" "kin_ok (x_jobs x)" "live (x_jobs x) p \<longleftrightarrow> p \<in> set (allproc (x_rsys x))"
    "jprocs (x_jobs x) 0 = None" "p \<in> dom (jprocs (x_jobs x)) \<Longrightarrow> (of_nat p :: u32) \<noteq> 0"
    "q \<notin> set (allproc (x_rsys x)) \<Longrightarrow> sproc.p_stat (procs (x_sched x) q) \<in> {SNONE, SIDL, SZOMB}"
    "ssys.curproc (x_sched x) \<in> insert 0 (set (allproc (x_rsys x)))"
    "\<exists>po. parent (x_jobs x) (initproc x) = Some po \<and> parent (x_jobs x) po = None" "live (x_jobs x) (initproc x)"
    "map_option p_pid (jprocs (x_jobs x) (initproc x)) = Some 1"
  using assms unfolding x_inv_def by blast+

lemma fork_invD:
  assumes "fork_inv ext s"
  shows "sys_ok (r_jobs (f_sys s))" "lim_inv (f_sys s)" "cred_ok ext (r_creds (f_sys s))" "syn_inv (r_sched (f_sys s))"
    "distinct (allproc (f_sys s) @ zombproc s)" "set (allproc (f_sys s) @ zombproc s) = dom (jprocs (r_jobs (f_sys s)))"
    "dom (p_cred (r_creds (f_sys s))) = dom (jprocs (r_jobs (f_sys s)))"
    "nprocs s = int (length (allproc (f_sys s) @ zombproc s))" "maxproc s \<le> 14950"
    "pid_gap (numbers (r_jobs (f_sys s))) (nextpid s + 1) (pidchecked s)" "0 \<le> nextpid s" "pidchecked s \<le> PID_MAX"
  using assms unfolding fork_inv_def by blast+

section \<open>Limits and queues of an exiting process\<close>

lemma exit_limits_ok:
  assumes inv: "lim_inv s" and p: "p \<in> set (allproc s)" "distinct (allproc s)"
  shows "\<exists>pl. exit_limits p (s\<lparr>allproc := remove1 p (allproc s)\<rparr>) = Done (s\<lparr>allproc := remove1 p (allproc s), plimits := pl\<rparr>) \<and>
    lim_inv (s\<lparr>allproc := remove1 p (allproc s), plimits := pl\<rparr>) \<and>
    (\<forall>q \<in> set (allproc s). q \<noteq> p \<longrightarrow> limits_of (s\<lparr>plimits := pl\<rparr>) q = limits_of s q)"
proof -
  obtain a where a: "p_limit s p = Some a" using inv p by (fastforce simp: lim_inv_def limits_of_def)
  obtain lim where lim: "plimits s a = Some lim" "length (pl_rlimit lim) = RLIM_NLIMITS" "pl_refcnt lim = int (card (lim_users s a))"
    by (rule lim_inv_get [OF inv p(1) a])
  define pl where "pl = (plimits s)(a := if pl_refcnt lim - 1 = 0 then None else Some (lim\<lparr>pl_refcnt := pl_refcnt lim - 1\<rparr>))"
  let ?t = "s\<lparr>allproc := remove1 p (allproc s), plimits := pl\<rparr>"
  have us: "lim_users ?t b = lim_users s b - {p}" for b using p(2) by (auto simp: lim_users_def)
  have oth: "lim_users s b - {p} = lim_users s b" if "b \<noteq> a" for b using a that by (auto simp: lim_users_def)
  have pin: "p \<in> lim_users s a" using p a by (simp add: lim_users_def)
  have dec: "pl_refcnt lim - 1 = int (card (lim_users s a - {p}))" using lim(3) card_Suc_Diff1 [OF finite_lim_users pin] by linarith
  have keep: "limits_of (s\<lparr>plimits := pl\<rparr>) q = limits_of s q" if q: "q \<in> set (allproc s)" "q \<noteq> p" for q
  proof (cases "p_limit s q = Some a")
    case True
    then have "q \<in> lim_users s a - {p}" using q by (simp add: lim_users_def)
    then have "pl_refcnt lim - 1 \<noteq> 0" unfolding dec by (metis card_0_eq empty_iff finite_Diff finite_lim_users of_nat_eq_0_iff)
    then show ?thesis using True lim(1) by (simp add: limits_of_def pl_def)
  next
    case False
    then show ?thesis by (cases "p_limit s q") (auto simp: limits_of_def pl_def)
  qed
  have "lim_inv ?t" unfolding lim_inv_def
  proof (intro conjI ballI allI impI)
    fix q assume "q \<in> set (allproc ?t)"
    then have "q \<in> set (allproc s)" "q \<noteq> p" using p(2) by auto
    moreover have "limits_of ?t q = limits_of (s\<lparr>plimits := pl\<rparr>) q" by (simp add: limits_of_def)
    ultimately show "limits_of ?t q \<noteq> None" using keep inv by (simp add: lim_inv_def)
  next
    fix b l assume l: "plimits ?t b = Some l"
    have "length (pl_rlimit l) = RLIM_NLIMITS \<and> pl_refcnt l = int (card (lim_users ?t b))"
    proof (cases "b = a")
      case True
      then have "l = lim\<lparr>pl_refcnt := pl_refcnt lim - 1\<rparr>" using l by (auto simp: pl_def split: if_splits)
      then show ?thesis using lim(2) dec True by (simp add: us)
    next
      case False
      then have "plimits s b = Some l" using l by (simp add: pl_def)
      then show ?thesis using inv oth [OF False] unfolding lim_inv_def us by simp
    qed
    then show "length (pl_rlimit l) = RLIM_NLIMITS" "pl_refcnt l = int (card (lim_users ?t b))" by blast+
  qed
  moreover have "exit_limits p (s\<lparr>allproc := remove1 p (allproc s)\<rparr>) = Done ?t" using a lim(1) by (simp add: exit_limits_def pl_def)
  ultimately show ?thesis using keep by blast
qed

lemma curproc_inv:
  assumes "syn_inv s" "p_wchan (procs s c) = 0" "\<not> on_rq c s"
  shows "syn_inv (s\<lparr>ssys.curproc := c\<rparr>)"
proof -
  have "slp_ok (s\<lparr>ssys.curproc := c\<rparr>)" using assms(1,2) by (auto simp: syn_inv_def slp_ok_def)
  moreover have "rq_ok (s\<lparr>ssys.curproc := c\<rparr>)" using assms(1,3) by (auto simp: syn_inv_def rq_ok_def on_rq_iff)
  ultimately show ?thesis using assms(1) by (simp add: syn_inv_def)
qed

text \<open>The running process leaves the processor as a zombie.\<close>

lemma exit_sched_ok:
  assumes inv: "syn_inv s" and p: "ssys.curproc s = p" and z: "sproc.p_stat (procs s 0) \<in> {SNONE, SIDL, SZOMB}"
  shows "syn_inv (pupd p (\<lambda>pr. pr\<lparr>sproc.p_stat := SZOMB\<rparr>) ((pupd p (\<lambda>pr. pr\<lparr>p_swexit := True\<rparr>) s)\<lparr>ssys.curproc := 0\<rparr>))"
proof -
  have w: "p_wchan (procs s p) = 0" "\<not> on_rq p s" "p_wchan (procs s 0) = 0" "\<not> on_rq 0 s"
    using inv p z by (auto simp: syn_inv_def slp_ok_def rq_ok_def on_rq_iff)
  let ?f = "\<lambda>pr :: sproc. pr\<lparr>p_swexit := True, sproc.p_stat := SZOMB\<rparr>"
  have s1: "syn_inv (pupd p ?f s)" using inv w by (intro inv_pupd) (auto simp: syn_inv_def)
  have "syn_inv ((pupd p ?f s)\<lparr>ssys.curproc := 0\<rparr>)"
    using s1 w by (intro curproc_inv) (auto simp: on_rq_iff)
  moreover have "pupd p (\<lambda>pr. pr\<lparr>sproc.p_stat := SZOMB\<rparr>) ((pupd p (\<lambda>pr. pr\<lparr>p_swexit := True\<rparr>) s)\<lparr>ssys.curproc := 0\<rparr>) =
    (pupd p ?f s)\<lparr>ssys.curproc := 0\<rparr>" by (simp add: pupd_def)
  ultimately show ?thesis by simp
qed

lemma wakeup_ok:
  assumes "syn_inv s" "(of_nat p :: u32) \<noteq> 0"
  shows "\<exists>s'. wakeup (of_nat p) s = Done s' \<and> syn_inv s' \<and> woken (waits (of_nat p) s) s s'"
  using wakeup_inv [OF assms] by blast


section \<open>The steps of an exit\<close>

lemma lim_inv_frame [simp]: "lim_inv (s\<lparr>r_jobs := j\<rparr>) = lim_inv s" "lim_inv (s\<lparr>r_sched := q\<rparr>) = lim_inv s" "lim_inv (s\<lparr>r_creds := c\<rparr>) = lim_inv s"
  "lim_inv (s\<lparr>p_cru := u\<rparr>) = lim_inv s"
  "limits_of (s\<lparr>r_jobs := j\<rparr>) = limits_of s" "limits_of (s\<lparr>r_sched := q\<rparr>) = limits_of s" "limits_of (s\<lparr>r_creds := c\<rparr>) = limits_of s"
  "limits_of (s\<lparr>p_cru := u\<rparr>) = limits_of s" "limits_of (s\<lparr>allproc := ps\<rparr>) = limits_of s"
  by (simp_all add: lim_inv_def lim_users_def limits_of_def fun_eq_iff)

lemma exit_detach_ok:
  assumes "exit_group p (x_jobs x) = Done s2"
  shows "\<exists>x1. exit_detach p x = Done x1 \<and> initproc x1 = initproc x \<and> p_stats x1 = p_stats x \<and>
    x_sys x1 = (x_sys x)\<lparr>f_sys := (x_rsys x)\<lparr>r_sched := pupd p (\<lambda>pr. pr\<lparr>p_swexit := True\<rparr>) (x_sched x), r_jobs := s2\<rparr>\<rparr>"
  using assms by (auto simp: exit_detach_def put_sched_def put_jobs_def upd_r_def Let_def)

lemma exit_bury_ok:
  assumes st: "p_stats x p" and p: "jprocs (x_jobs x) p = Some pr" "p_pptr pr = Some pp" "p \<in> set (pidhash (x_jobs x) (PIDHASH (p_pid pr)))"
    and lim: "lim_inv (x_rsys x)" "p \<in> set (allproc (x_rsys x))" "distinct (allproc (x_rsys x))"
  shows "\<exists>x1 pl. exit_bury p rv x = Done x1 \<and> initproc x1 = initproc x \<and> p_stats x1 = p_stats x \<and> p_status x1 p = rv \<and>
    x_sys x1 = (x_sys x)\<lparr>zombproc := p # zombproc (x_sys x), f_sys := (x_rsys x)\<lparr>
      r_jobs := (x_jobs x)\<lparr>pidhash := (pidhash (x_jobs x))(PIDHASH (p_pid pr) := remove1 p (pidhash (x_jobs x) (PIDHASH (p_pid pr)))), jsys.curproc := 0,
                           jprocs := (jprocs (x_jobs x))(p \<mapsto> pr\<lparr>jproc.p_stat := SZOMB\<rparr>)\<rparr>,
      r_sched := pupd p (\<lambda>pr. pr\<lparr>sproc.p_stat := SZOMB\<rparr>) ((x_sched x)\<lparr>ssys.curproc := 0\<rparr>),
      allproc := remove1 p (allproc (x_rsys x)), plimits := pl\<rparr>\<rparr> \<and>
    lim_inv ((x_rsys x)\<lparr>allproc := remove1 p (allproc (x_rsys x)), plimits := pl\<rparr>) \<and>
    (\<forall>q \<in> set (allproc (x_rsys x)). q \<noteq> p \<longrightarrow> limits_of ((x_rsys x)\<lparr>plimits := pl\<rparr>) q = limits_of (x_rsys x) q)"
proof -
  define j where "j = (x_jobs x)\<lparr>pidhash := (pidhash (x_jobs x))(PIDHASH (p_pid pr) := remove1 p (pidhash (x_jobs x) (PIDHASH (p_pid pr))))\<rparr>"
  have lp: "leavepidhash p (x_jobs x) = Done j" using p(1,3) by (simp add: leavepidhash_def Let_def j_def)
  define r where "r = (x_rsys x)\<lparr>r_jobs := j\<lparr>jsys.curproc := 0\<rparr>, r_sched := (x_sched x)\<lparr>ssys.curproc := 0\<rparr>\<rparr>"
  have r: "lim_inv r" "p \<in> set (allproc r)" "distinct (allproc r)" using lim by (simp_all add: r_def)
  obtain pl where pl: "exit_limits p (r\<lparr>allproc := remove1 p (allproc r)\<rparr>) = Done (r\<lparr>allproc := remove1 p (allproc r), plimits := pl\<rparr>)"
    "lim_inv (r\<lparr>allproc := remove1 p (allproc r), plimits := pl\<rparr>)"
    "\<forall>q \<in> set (allproc r). q \<noteq> p \<longrightarrow> limits_of (r\<lparr>plimits := pl\<rparr>) q = limits_of r q"
    using exit_limits_ok [OF r] by blast
  have "lim_inv ((x_rsys x)\<lparr>allproc := remove1 p (allproc (x_rsys x)), plimits := pl\<rparr>)"
    using pl(2) by (simp add: r_def lim_inv_def lim_users_def limits_of_def)
  moreover have "\<forall>q \<in> set (allproc (x_rsys x)). q \<noteq> p \<longrightarrow> limits_of ((x_rsys x)\<lparr>plimits := pl\<rparr>) q = limits_of (x_rsys x) q"
    using pl(3) by (simp add: r_def limits_of_def)
  moreover have "exit_limits p ((x_rsys x)\<lparr>r_jobs := j\<lparr>jsys.curproc := 0\<rparr>, r_sched := (x_sched x)\<lparr>ssys.curproc := 0\<rparr>, allproc := remove1 p (allproc (x_rsys x))\<rparr>) =
    Done (r\<lparr>allproc := remove1 p (allproc r), plimits := pl\<rparr>)" using pl(1) by (simp add: r_def)
  ultimately show ?thesis using st p(1,2) lp
    by (intro exI [of _ "put_sched (pupd p (\<lambda>pr. pr\<lparr>sproc.p_stat := SZOMB\<rparr>) ((x_sched x)\<lparr>ssys.curproc := 0\<rparr>))
        (put_jobs (upd_proc p (\<lambda>pr. pr\<lparr>jproc.p_stat := SZOMB\<rparr>) (j\<lparr>jsys.curproc := 0\<rparr>))
          ((upd_r (\<lambda>_. r\<lparr>allproc := remove1 p (allproc r), plimits := pl\<rparr>) x)\<lparr>p_status := (p_status x)(p := rv), p_szchild := (p_szchild x)(pp := True),
              x_sys := (x_sys (upd_r (\<lambda>_. r\<lparr>allproc := remove1 p (allproc r), plimits := pl\<rparr>) x))\<lparr>zombproc := p # zombproc (x_sys x)\<rparr>\<rparr>))"] exI [of _ pl])
      (simp add: exit_bury_def Let_def upd_r_def put_sched_def put_jobs_def upd_proc_def r_def j_def)
qed


lemma wakeup_proc_ok:
  assumes "syn_inv (x_sched x)" "(of_nat p :: u32) \<noteq> 0"
  shows "\<exists>q. wakeup_proc p x = Done (put_sched q x) \<and> syn_inv q \<and> woken (waits (of_nat p) (x_sched x)) (x_sched x) q"
  using wakeup_ok [OF assms] by (auto simp: wakeup_proc_def)

text \<open>One process after the other is woken: a process either stays as it was or stops waiting.\<close>

definition calmed :: "ssys \<Rightarrow> ssys \<Rightarrow> bool" where
  "calmed s s' \<longleftrightarrow> (\<forall>q. procs s' q = procs s q \<or> p_wchan (procs s q) \<noteq> 0 \<and> p_wchan (procs s' q) = 0) \<and> ssys.curproc s' = ssys.curproc s"

lemma calmed_refl [simp]: "calmed s s"
  by (simp add: calmed_def)

lemma calmed_trans: "calmed s t \<Longrightarrow> calmed t u \<Longrightarrow> calmed s u"
  unfolding calmed_def by metis

lemma woken_calmed: "woken (waits c s) s s' \<Longrightarrow> c \<noteq> 0 \<Longrightarrow> calmed s s'"
  by (fastforce simp: woken_def calmed_def)

lemma exit_orphans_ok:
  assumes p: "jprocs (x_jobs x) p = Some pr" and inv: "syn_inv (x_sched x)" and i: "(of_nat (initproc x) :: u32) \<noteq> 0"
    and kids: "distinct (p_children pr)" "initproc x \<notin> set (p_children pr)" "\<forall>c \<in> set (p_children pr). jprocs (x_jobs x) c \<noteq> None"
    and ii: "jprocs (x_jobs x) (initproc x) \<noteq> None" "initproc x \<noteq> p" "p \<notin> set (p_children pr)"
  shows "\<exists>x1 q es. exit_orphans p x = Done x1 \<and> initproc x1 = initproc x \<and> p_stats x1 = p_stats x \<and> p_status x1 = p_status x \<and>
    x_sys x1 = (x_sys x)\<lparr>f_sys := (x_rsys x)\<lparr>r_sched := q,
      r_jobs := (x_jobs x)\<lparr>jprocs := (adopted (initproc x) (p_children pr) (jprocs (x_jobs x)))(p \<mapsto> pr\<lparr>p_children := []\<rparr>), events := es\<rparr>\<rparr>\<rparr> \<and>
    syn_inv q \<and> calmed (x_sched x) q"
proof -
  obtain x1 q where x1: "(if p_szchild x p \<and> p_children pr \<noteq> []
      then kmap (\<lambda>x1. x1\<lparr>p_szchild := (p_szchild x1)(p := False)\<rparr>) (wakeup_proc (initproc x) x) else Done x) = Done x1"
    "x_sys x1 = (x_sys x)\<lparr>f_sys := (x_rsys x)\<lparr>r_sched := q\<rparr>\<rparr>" "initproc x1 = initproc x" "p_stats x1 = p_stats x" "p_status x1 = p_status x"
    "syn_inv q" "calmed (x_sched x) q"
  proof (cases "p_szchild x p \<and> p_children pr \<noteq> []")
    case True
    obtain q where "wakeup_proc (initproc x) x = Done (put_sched q x)" "syn_inv q" "woken (waits (of_nat (initproc x)) (x_sched x)) (x_sched x) q"
      using wakeup_proc_ok [OF inv i] by blast
    moreover from this have "calmed (x_sched x) q" using woken_calmed i by blast
    ultimately show thesis using True by (intro that [of "(put_sched q x)\<lparr>p_szchild := (p_szchild (put_sched q x))(p := False)\<rparr>" q])
      (simp_all add: put_sched_def upd_r_def)
  next
    case False
    then show thesis using inv by (intro that [of x "x_sched x"]) auto
  qed
  have j: "x_jobs x1 = x_jobs x" by (simp add: x1(2))
  obtain f es where ad: "adopt_all (p_children pr) x1 =
      Done ((put_jobs ((x_jobs x1)\<lparr>jprocs := adopted (initproc x1) (p_children pr) (jprocs (x_jobs x1)), events := es\<rparr>) x1)\<lparr>p_strc := f\<rparr>)"
    using adopt_all_ok [of "p_children pr" x1] kids ii(1) by (auto simp: j x1(3))
  have "adopted (initproc x) (p_children pr) (jprocs (x_jobs x)) p = Some pr" using ii(2,3) p by (simp add: adopted_def)
  then show ?thesis using p x1 ad
    by (intro exI [of _ "put_jobs ((x_jobs x)\<lparr>jprocs := (adopted (initproc x) (p_children pr) (jprocs (x_jobs x)))(p \<mapsto> pr\<lparr>p_children := []\<rparr>), events := es\<rparr>)
        ((put_jobs ((x_jobs x1)\<lparr>jprocs := adopted (initproc x1) (p_children pr) (jprocs (x_jobs x1)), events := es\<rparr>) x1)\<lparr>p_strc := f\<rparr>)"]
        exI [of _ q] exI [of _ es])
      (simp add: exit_orphans_def j x1(3) upd_proc_def, simp add: put_jobs_def upd_r_def x1(2-5))
qed

lemma exit_notify_ok:
  assumes st: "p_stats x p" and p: "jprocs (x_jobs x) p = Some pr" "p_pptr pr = Some pp" and inv: "syn_inv (x_sched x)" and c: "(of_nat pp :: u32) \<noteq> 0"
  shows "\<exists>x1 q. exit_notify p x = Done x1 \<and> initproc x1 = initproc x \<and> p_stats x1 = p_stats x \<and> p_status x1 = p_status x \<and>
    x_sys x1 = (x_sys x)\<lparr>f_sys := (x_rsys x)\<lparr>r_sched := q, r_jobs := (x_jobs x)\<lparr>events := events (x_jobs x) @ [Psignal pp SIGCHLD]\<rparr>\<rparr>\<rparr> \<and>
    syn_inv q \<and> woken (waits (of_nat pp) (x_sched x)) (x_sched x) q"
proof -
  let ?x = "put_jobs (post [Psignal pp SIGCHLD] (x_jobs x)) (x\<lparr>p_sppwait := (p_sppwait x)(p := False)\<rparr>)"
  have s: "x_sched ?x = x_sched x" by (simp add: put_jobs_def upd_r_def)
  obtain q where q: "wakeup_proc pp ?x = Done (put_sched q ?x)" "syn_inv q" "woken (waits (of_nat pp) (x_sched x)) (x_sched x) q"
    using wakeup_proc_ok [of ?x pp] inv c unfolding s by blast
  show ?thesis using st p q
    by (intro exI [of _ "(put_sched q ?x)\<lparr>x_events := x_events (put_sched q ?x) @ [Cpu_texit p]\<rparr>"] exI [of _ q])
      (simp add: exit_notify_def, simp add: put_sched_def put_jobs_def upd_r_def post_def)
qed

section \<open>Exit\<close>

lemma numbers_mono:
  assumes pid: "\<And>q qr. jprocs t q = Some qr \<Longrightarrow> \<exists>q0. jprocs s q = Some q0 \<and> p_pid q0 = p_pid qr \<and> p_pgrp q0 = p_pgrp qr"
    and pg: "\<And>g G. pgrps t g = Some G \<Longrightarrow> \<exists>G0. pgrps s g = Some G0 \<and> pg_id G0 = pg_id G"
  shows "numbers t \<subseteq> numbers s"
proof
  fix n assume "n \<in> numbers t"
  then obtain q qr g G where n: "jprocs t q = Some qr" "p_pgrp qr = Some g" "pgrps t g = Some G" "n = (p_pid qr, pg_id G)"
    unfolding numbers_def numbers_of_def by blast
  obtain q0 G0 where "jprocs s q = Some q0" "p_pid q0 = p_pid qr" "p_pgrp q0 = p_pgrp qr" "pgrps s g = Some G0" "pg_id G0 = pg_id G"
    using pid [OF n(1)] pg [OF n(3)] by blast
  then show "n \<in> numbers s" unfolding numbers_def numbers_of_def n(4) using n(2) by fastforce
qed

lemma pid_gap_mono: "pid_gap ns n c \<Longrightarrow> ms \<subseteq> ns \<Longrightarrow> pid_gap ms n c"
  unfolding pid_gap_def by blast

lemma pid_grp_views:
  assumes "map_option p_pid (jprocs t q) = map_option p_pid (jprocs s q)" "grp t q = grp s q" "jprocs t q = Some qr"
  shows "\<exists>q0. jprocs s q = Some q0 \<and> p_pid q0 = p_pid qr \<and> p_pgrp q0 = p_pgrp qr"
  using assms by (cases "jprocs s q") (auto simp: grp_def)

text \<open>What the exit of \<open>p\<close> makes of the tables, and what it means for the process and its family.\<close>

definition exits_to :: "nat \<Rightarrow> nat \<Rightarrow> int \<Rightarrow> xsys \<Rightarrow> xsys \<Rightarrow> bool" where
  "exits_to p pp rv x x' \<longleftrightarrow> p_status x' p = rv \<and> p \<in> set (zombproc (x_sys x')) \<and> \<not> live (x_jobs x') p \<and> p_stats x' = p_stats x \<and>
     initproc x' = initproc x \<and> (\<forall>pid. pfind pid (x_jobs x') \<noteq> Some p) \<and> dom (jprocs (x_jobs x')) = dom (jprocs (x_jobs x)) \<and>
     (\<forall>q. map_option p_pid (jprocs (x_jobs x') q) = map_option p_pid (jprocs (x_jobs x) q)) \<and>
     grp (x_jobs x') = grp (x_jobs x) \<and> ses (x_jobs x') = ses (x_jobs x) \<and> (\<forall>q. q \<noteq> p \<longrightarrow> live (x_jobs x') q = live (x_jobs x) q) \<and>
     (\<forall>q. parent (x_jobs x') q = (if parent (x_jobs x) q = Some p then Some (initproc x) else parent (x_jobs x) q)) \<and>
     (\<forall>q. p_wchan (procs (x_sched x) q) = of_nat pp \<longrightarrow> p_wchan (procs (x_sched x') q) = 0) \<and>
     x_creds x' = x_creds x \<and> (\<forall>q \<in> set (allproc (x_rsys x)). q \<noteq> p \<longrightarrow> limits_of (x_rsys x') q = limits_of (x_rsys x) q) \<and>
     nprocs (x_sys x') = nprocs (x_sys x)"

text \<open>The computation: what the code leaves in the tables.\<close>

lemma exit_runs:
  assumes inv: "x_inv ext x" and p: "p \<in> set (allproc (x_rsys x))" "ssys.curproc (x_sched x) = p" "p_stats x p" "p \<noteq> initproc x"
    and pr: "jprocs (x_jobs x) p = Some pr" "p_pptr pr = Some pp"
    and g: "exit_group p (x_jobs x) = Done s2" "jprocs s2 = jprocs (x_jobs x)" "pidhash s2 = pidhash (x_jobs x)"
  shows "\<exists>x' t q pl. exit p rv x = Done x' \<and> initproc x' = initproc x \<and> p_stats x' = p_stats x \<and> p_status x' p = rv \<and>
    x_sys x' = (x_sys x)\<lparr>zombproc := p # zombproc (x_sys x),
      f_sys := (x_rsys x)\<lparr>r_jobs := t, r_sched := q, allproc := remove1 p (allproc (x_rsys x)), plimits := pl\<rparr>\<rparr> \<and>
    zombied p (initproc x) pr s2 t \<and> lim_inv ((x_rsys x)\<lparr>allproc := remove1 p (allproc (x_rsys x)), plimits := pl\<rparr>) \<and>
    (\<forall>r \<in> set (allproc (x_rsys x)). r \<noteq> p \<longrightarrow> limits_of ((x_rsys x)\<lparr>plimits := pl\<rparr>) r = limits_of (x_rsys x) r) \<and>
    syn_inv q \<and> (\<forall>r. p_wchan (procs (x_sched x) r) = of_nat pp \<longrightarrow> p_wchan (procs q r) = 0) \<and>
    calmed (pupd p (\<lambda>pr. pr\<lparr>sproc.p_stat := SZOMB\<rparr>) ((pupd p (\<lambda>pr. pr\<lparr>p_swexit := True\<rparr>) (x_sched x))\<lparr>ssys.curproc := 0\<rparr>)) q"
proof -
  note I = x_invD [OF inv] and F = fork_invD [OF x_invD(1) [OF inv]]
  let ?i = "initproc x"
  let ?q3 = "pupd p (\<lambda>pr. pr\<lparr>sproc.p_stat := SZOMB\<rparr>) ((pupd p (\<lambda>pr. pr\<lparr>p_swexit := True\<rparr>) (x_sched x))\<lparr>ssys.curproc := 0\<rparr>)"
  have fam: "family_ok (x_jobs x)" and hash: "hash_ok (x_jobs x)" using F(1) by (simp_all add: sys_ok_def job_inv_def pg_inv_def)
  have par: "parent (x_jobs x) p = Some pp" using pr by (simp add: parent_def)
  have kids: "set (p_children pr) = {c. parent (x_jobs x) c = Some p}" "distinct (p_children pr)" using family_okD(2,3) [OF fam pr(1)] by auto
  have ppn: "jprocs (x_jobs x) pp \<noteq> None" "pp \<noteq> p" using fam par unfolding family_ok_def by blast+
  obtain po where po: "parent (x_jobs x) ?i = Some po" "parent (x_jobs x) po = None" using I(9) by blast
  have ip: "parent (x_jobs x) ?i \<noteq> Some p" using po par by auto
  obtain ir where ir: "jprocs (x_jobs x) ?i = Some ir" using I(10) by (auto simp: live_def)
  have pid1: "p_pid pr \<noteq> 1" using F(1) I(11) pr(1) p(4) ir by (auto simp: sys_ok_def job_inv_def pid_ok_def)
  have n0: "0 \<notin> set (allproc (x_rsys x))" using I(4) [of 0] I(5) by (simp add: live_def)
  have z0: "sproc.p_stat (procs (x_sched x) 0) \<in> {SNONE, SIDL, SZOMB}" by (rule I(7) [OF n0])
  have inh: "p \<in> set (pidhash (x_jobs x) (PIDHASH (p_pid pr)))" using hash_okD(2) [OF hash] I(4) p(1) pr(1) by simp
  obtain x1 where x1: "exit_detach p x = Done x1" "initproc x1 = ?i" "p_stats x1 = p_stats x"
    "x_sys x1 = (x_sys x)\<lparr>f_sys := (x_rsys x)\<lparr>r_sched := pupd p (\<lambda>pr. pr\<lparr>p_swexit := True\<rparr>) (x_sched x), r_jobs := s2\<rparr>\<rparr>"
    using exit_detach_ok [OF g(1)] by blast
  have h1: "p_stats x1 p" "jprocs (x_jobs x1) p = Some pr" "p \<in> set (pidhash (x_jobs x1) (PIDHASH (p_pid pr)))" "lim_inv (x_rsys x1)"
    "p \<in> set (allproc (x_rsys x1))" "distinct (allproc (x_rsys x1))" using p pr inh F(2,5) by (simp_all add: x1 g)
  obtain x2 pl where x2: "exit_bury p rv x1 = Done x2" "initproc x2 = initproc x1" "p_stats x2 = p_stats x1" "p_status x2 p = rv"
    "x_sys x2 = (x_sys x1)\<lparr>zombproc := p # zombproc (x_sys x1), f_sys := (x_rsys x1)\<lparr>
      r_jobs := (x_jobs x1)\<lparr>pidhash := (pidhash (x_jobs x1))(PIDHASH (p_pid pr) := remove1 p (pidhash (x_jobs x1) (PIDHASH (p_pid pr)))), jsys.curproc := 0,
                           jprocs := (jprocs (x_jobs x1))(p \<mapsto> pr\<lparr>jproc.p_stat := SZOMB\<rparr>)\<rparr>,
      r_sched := pupd p (\<lambda>pr. pr\<lparr>sproc.p_stat := SZOMB\<rparr>) ((x_sched x1)\<lparr>ssys.curproc := 0\<rparr>),
      allproc := remove1 p (allproc (x_rsys x1)), plimits := pl\<rparr>\<rparr>"
    "lim_inv ((x_rsys x1)\<lparr>allproc := remove1 p (allproc (x_rsys x1)), plimits := pl\<rparr>)"
    "\<forall>q \<in> set (allproc (x_rsys x1)). q \<noteq> p \<longrightarrow> limits_of ((x_rsys x1)\<lparr>plimits := pl\<rparr>) q = limits_of (x_rsys x1) q"
    using exit_bury_ok [OF h1(1,2) pr(2) h1(3-6)] by blast
  let ?pr2 = "pr\<lparr>jproc.p_stat := SZOMB\<rparr>"
  have s3: "x_sched x2 = ?q3" and j2: "jprocs (x_jobs x2) = (jprocs (x_jobs x))(p \<mapsto> ?pr2)" by (simp_all add: x2(5) x1(4) g)
  have q3: "syn_inv ?q3" by (rule exit_sched_ok [OF F(4) p(2) z0])
  have nz: "(of_nat ?i :: u32) \<noteq> 0" "(of_nat pp :: u32) \<noteq> 0" using I(6) [of ?i] I(6) [of pp] ir ppn(1) by (auto simp: domIff)
  have h2: "jprocs (x_jobs x2) p = Some ?pr2" "syn_inv (x_sched x2)" "(of_nat (initproc x2) :: u32) \<noteq> 0" "distinct (p_children ?pr2)"
    "initproc x2 \<notin> set (p_children ?pr2)" "\<forall>c \<in> set (p_children ?pr2). jprocs (x_jobs x2) c \<noteq> None" "jprocs (x_jobs x2) (initproc x2) \<noteq> None"
    "initproc x2 \<noteq> p" "p \<notin> set (p_children ?pr2)"
    using q3 nz kids ip ir p(4) ppn par by (auto simp: s3 j2 x2(2) x1(2) parent_def bind_eq_Some_conv)
  obtain x3 q4 es where x3: "exit_orphans p x2 = Done x3" "initproc x3 = initproc x2" "p_stats x3 = p_stats x2" "p_status x3 = p_status x2"
    "x_sys x3 = (x_sys x2)\<lparr>f_sys := (x_rsys x2)\<lparr>r_sched := q4,
      r_jobs := (x_jobs x2)\<lparr>jprocs := (adopted (initproc x2) (p_children ?pr2) (jprocs (x_jobs x2)))(p \<mapsto> ?pr2\<lparr>p_children := []\<rparr>), events := es\<rparr>\<rparr>\<rparr>"
    "syn_inv q4" "calmed (x_sched x2) q4"
    using exit_orphans_ok [OF h2] by blast
  have h3: "p_stats x3 p" "jprocs (x_jobs x3) p = Some (?pr2\<lparr>p_children := []\<rparr>)" "p_pptr (?pr2\<lparr>p_children := []\<rparr>) = Some pp" "syn_inv (x_sched x3)"
    using p(3) pr(2) x3(6) by (simp_all add: x3(3,5) x2(3) x1(3))
  obtain x' q where x': "exit_notify p x3 = Done x'" "initproc x' = initproc x3" "p_stats x' = p_stats x3" "p_status x' = p_status x3"
    "x_sys x' = (x_sys x3)\<lparr>f_sys := (x_rsys x3)\<lparr>r_sched := q, r_jobs := (x_jobs x3)\<lparr>events := events (x_jobs x3) @ [Psignal pp SIGCHLD]\<rparr>\<rparr>\<rparr>"
    "syn_inv q" "woken (waits (of_nat pp) (x_sched x3)) (x_sched x3) q"
    using exit_notify_ok [OF h3 nz(2)] by blast
  have q4: "x_sched x3 = q4" by (simp add: x3(5))
  have cal: "calmed ?q3 q" using calmed_trans [OF x3(7) woken_calmed [OF x'(7) nz(2), unfolded q4]] by (simp add: s3)
  have wk: "p_wchan (procs q r) = 0" if r: "p_wchan (procs (x_sched x) r) = of_nat pp" for r
  proof -
    have "r \<noteq> p" using F(4) p(2) r nz(2) by (auto simp: syn_inv_def slp_ok_def)
    then have "procs ?q3 r = procs (x_sched x) r" by simp
    then have "p_wchan (procs q4 r) = of_nat pp \<or> p_wchan (procs q4 r) = 0" using x3(7) r unfolding s3 calmed_def by metis
    then show ?thesis
    proof
      assume "p_wchan (procs q4 r) = of_nat pp"
      then have "r \<in> waits (of_nat pp) q4" by simp
      then show ?thesis using x'(7) unfolding q4 woken_def by blast
    next
      assume z: "p_wchan (procs q4 r) = 0"
      then have "r \<notin> waits (of_nat pp) q4" using nz(2) by simp
      then have "procs q r = procs q4 r" using x'(7) unfolding q4 woken_def by blast
      then show ?thesis using z by simp
    qed
  qed
  have "exit p rv x = Done x'" using pr(1) pid1 x1(1) x2(1) x3(1) x'(1) by (simp add: exit_def)
  moreover have "zombied p ?i pr s2 (x_jobs x')"
  proof -
    have "adopted ?i (p_children pr) ((jprocs (x_jobs x))(p \<mapsto> ?pr2)) r = adopted ?i (p_children pr) (jprocs (x_jobs x)) r" if "r \<noteq> p" for r
      using that by (simp add: adopted_def)
    then have "jprocs (x_jobs x') = (adopted ?i (p_children pr) (jprocs s2))(p \<mapsto> pr\<lparr>jproc.p_stat := SZOMB, p_children := []\<rparr>)"
      by (auto simp: x'(5) x3(5) x2(2) x1(2) j2 g(2) fun_eq_iff)
    then show ?thesis using pr(1) by (simp add: zombied_def x'(5) x3(5) x2(5) x1(4) g)
  qed
  moreover have "lim_inv ((x_rsys x)\<lparr>allproc := remove1 p (allproc (x_rsys x)), plimits := pl\<rparr>)"
    "\<forall>r \<in> set (allproc (x_rsys x)). r \<noteq> p \<longrightarrow> limits_of ((x_rsys x)\<lparr>plimits := pl\<rparr>) r = limits_of (x_rsys x) r"
    using x2(6,7) by (simp_all add: x1(4) lim_inv_def lim_users_def limits_of_def)
  moreover have "x_sys x' = (x_sys x)\<lparr>zombproc := p # zombproc (x_sys x),
      f_sys := (x_rsys x)\<lparr>r_jobs := x_jobs x', r_sched := q, allproc := remove1 p (allproc (x_rsys x)), plimits := pl\<rparr>\<rparr>"
    by (simp add: x'(5) x3(5) x2(5) x1(4))
  moreover have "initproc x' = ?i" "p_stats x' = p_stats x" "p_status x' p = rv" by (simp_all add: x' x3 x2 x1)
  moreover have "\<forall>r. p_wchan (procs (x_sched x) r) = of_nat pp \<longrightarrow> p_wchan (procs q r) = 0" using wk by blast
  ultimately show ?thesis using x'(6) cal
    by (intro exI [of _ x'] exI [of _ "x_jobs x'"] exI [of _ q] exI [of _ pl] conjI) assumption+ 
qed

lemma exit_ok:
  assumes inv: "x_inv ext x" and p: "p \<in> set (allproc (x_rsys x))" "ssys.curproc (x_sched x) = p" "p_stats x p" "p \<noteq> initproc x"
    and par: "parent (x_jobs x) p = Some pp"
    and init: "\<forall>c g. parent (x_jobs x) c = Some p \<longrightarrow> live (x_jobs x) c \<longrightarrow> grp (x_jobs x) c = Some g \<longrightarrow>
      \<not> links (x_jobs x) (grp (x_jobs x) (initproc x)) g"
  shows "\<exists>x'. exit p rv x = Done x' \<and> x_inv ext x' \<and> exits_to p pp rv x x'"
proof -
  note I = x_invD [OF inv] and F = fork_invD [OF x_invD(1) [OF inv]]
  let ?i = "initproc x" and ?j = "x_jobs x"
  have ok: "pg_inv ?j" "family_ok ?j" using F(1) by (simp_all add: sys_ok_def job_inv_def pg_inv_def)
  have lp: "live ?j p" using I(4) p(1) by blast
  obtain pr where pr: "jprocs ?j p = Some pr" "p_pptr pr = Some pp" using par by (auto simp: parent_def bind_eq_Some_conv)
  have st: "jproc.p_stat pr \<noteq> SZOMB" using lp pr by (simp add: live_def)
  obtain g where g: "p_pgrp pr = Some g" using family_okD(1) [OF ok(2) pr(1)] by blast
  obtain s1 s2 where s2: "exit_group p ?j = Done s2" "same_but_lead ?j s1" "same_but_jobc s1 s2"
    "\<forall>x. jobc s2 x = jobc ?j x - (of_bool (x = g \<and> links ?j (grp ?j pp) g) + (\<Sum>c | parent ?j c = Some p. of_bool (child_qual ?j g c x)))"
    "\<forall>a se. sessions s2 a = Some se \<longrightarrow> s_leader se \<noteq> Some p"
    by (rule exit_group_ok [OF ok(1) I(2) pr g])
  note e1 = same_but_lead_eqs [OF s2(2)] and e2 = same_but_jobc_eqs [OF s2(3)]
  have v2: "jprocs s2 = jprocs ?j" "pidhash s2 = pidhash ?j" "grp s2 = grp ?j" "parent s2 = parent ?j" "live s2 = live ?j"
    by (simp_all add: e1 e2)
  obtain x' t q pl where x': "exit p rv x = Done x'" "initproc x' = ?i" "p_stats x' = p_stats x" "p_status x' p = rv"
    "x_sys x' = (x_sys x)\<lparr>zombproc := p # zombproc (x_sys x),
      f_sys := (x_rsys x)\<lparr>r_jobs := t, r_sched := q, allproc := remove1 p (allproc (x_rsys x)), plimits := pl\<rparr>\<rparr>"
    "zombied p ?i pr s2 t" "lim_inv ((x_rsys x)\<lparr>allproc := remove1 p (allproc (x_rsys x)), plimits := pl\<rparr>)"
    "\<forall>r \<in> set (allproc (x_rsys x)). r \<noteq> p \<longrightarrow> limits_of ((x_rsys x)\<lparr>plimits := pl\<rparr>) r = limits_of (x_rsys x) r"
    "syn_inv q" "\<forall>r. p_wchan (procs (x_sched x) r) = of_nat pp \<longrightarrow> p_wchan (procs q r) = 0"
    "calmed (pupd p (\<lambda>pr. pr\<lparr>sproc.p_stat := SZOMB\<rparr>) ((pupd p (\<lambda>pr. pr\<lparr>p_swexit := True\<rparr>) (x_sched x))\<lparr>ssys.curproc := 0\<rparr>)) q"
    using exit_runs [OF inv p pr s2(1) v2(1,2)] by blast
  obtain po where po: "parent ?j ?i = Some po" "parent ?j po = None" using I(9) by blast
  obtain ir where ir: "jprocs ?j ?i = Some ir" using I(10) by (auto simp: live_def)
  have pn: "p \<noteq> po" using par po by auto
  have tok: "sys_ok t" "lead_ok t"
    by (rule exit_jobs_ok [OF F(1) I(2) pr(1) st pr(2) g s2 ir p(4) [symmetric] po pn init x'(6)])+
  have fam2: "family_ok s2" using same_but_jobc_keeps(2) [OF s2(3)] same_but_lead_keeps(2) [OF s2(2) ok(2)] by blast
  have ir2: "jprocs s2 ?i = Some ir" "parent s2 ?i \<noteq> Some p" using ir po pn by (auto simp: v2)
  note v = zombied_views [OF x'(6) fam2 ir2(1) p(4) [symmetric] ir2(2), unfolded v2]
  have js: "x_jobs x' = t" "x_sched x' = q" "x_creds x' = x_creds x" "allproc (x_rsys x') = remove1 p (allproc (x_rsys x))"
    "zombproc (x_sys x') = p # zombproc (x_sys x)" "nprocs (x_sys x') = nprocs (x_sys x)" by (simp_all add: x'(5))
  have mem: "r \<in> set (remove1 p (allproc (x_rsys x))) \<longleftrightarrow> r \<noteq> p \<and> r \<in> set (allproc (x_rsys x))" for r using F(5) by auto
  have pgid: "\<exists>G0. pgrps ?j h = Some G0 \<and> pg_id G0 = pg_id G" if "pgrps t h = Some G" for h G
    using that e2(12) [of h] x'(6) by (auto simp: zombied_def e1(2))
  have "grp t r = grp ?j r" for r by (simp add: v(2))
  then have "numbers t \<subseteq> numbers ?j" using pid_grp_views [OF v(3)] pgid by (intro numbers_mono) blast+
  then have gap: "pid_gap (numbers t) (nextpid (x_sys x) + 1) (pidchecked (x_sys x))" using F(10) pid_gap_mono by blast
  have wch: "p_wchan (procs (x_sched x) r) = 0" if "r \<notin> set (allproc (x_rsys x))" for r
    using I(7) [OF that] F(4) by (auto simp: syn_inv_def slp_ok_def)
  let ?q3 = "pupd p (\<lambda>pr. pr\<lparr>sproc.p_stat := SZOMB\<rparr>) ((pupd p (\<lambda>pr. pr\<lparr>p_swexit := True\<rparr>) (x_sched x))\<lparr>ssys.curproc := 0\<rparr>)"
  have cal: "procs q r = procs ?q3 r \<or> p_wchan (procs ?q3 r) \<noteq> 0 \<and> p_wchan (procs q r) = 0" for r using x'(11) unfolding calmed_def by blast
  have keep: "procs q r = procs (x_sched x) r" if "r \<noteq> p" "r \<notin> set (allproc (x_rsys x))" for r
  proof -
    have "procs ?q3 r = procs (x_sched x) r" using that(1) by simp
    then show ?thesis using cal [of r] wch [OF that(2)] by simp
  qed
  have "p_wchan (procs (x_sched x) p) = 0" using F(4) p(2) by (auto simp: syn_inv_def slp_ok_def)
  then have "p_wchan (procs ?q3 p) = 0" "sproc.p_stat (procs ?q3 p) = SZOMB" by simp_all
  then have zp: "sproc.p_stat (procs q p) = SZOMB" using cal [of p] by simp
  have zc: "ssys.curproc q = 0" using x'(11) unfolding calmed_def by simp
  have len: "length (allproc (x_rsys x)) = Suc (length (remove1 p (allproc (x_rsys x))))"
    using p(1) length_pos_if_in_set [OF p(1)] by (simp add: length_remove1)
  have "lim_inv (x_rsys x')" using x'(7) by (simp add: x'(5) lim_inv_def lim_users_def limits_of_def)
  then have finv: "fork_inv ext (x_sys x')" unfolding fork_inv_def js
    using tok(1) F(3,5-9,11,12) x'(9) gap p(1) v(1) len by (auto simp: x'(5))
  have "x_inv ext x'" unfolding x_inv_def js x'(2) mem
  proof (intro conjI allI impI ballI)
    show "fork_inv ext (x_sys x')" "lead_ok t" by (fact finv tok(2))+
    have ppl: "live ?j ?i" "\<And>c r. parent ?j c = Some r \<Longrightarrow> live ?j r" using I(3,10) by (auto simp: kin_ok_def)
    then show "kin_ok t" using p(4) by (auto simp: kin_ok_def v(4,5) split: if_splits)
    show "\<exists>r. parent t ?i = Some r \<and> parent t r = None" using po pn by (auto simp: v(4))
    show "live t ?i" using ppl(1) p(4) by (simp add: v(5))
    have "0 \<notin> dom (jprocs t)" using I(5) by (simp add: v(1) domIff)
    then show "jprocs t 0 = None" by (simp add: domIff)
    show "ssys.curproc q \<in> insert 0 (set (remove1 p (allproc (x_rsys x))))" using zc by simp
  next
    fix r show "live t r \<longleftrightarrow> r \<noteq> p \<and> r \<in> set (allproc (x_rsys x))" using I(4) by (simp add: v(5))
  next
    fix r assume "r \<in> dom (jprocs t)"
    then show "(of_nat r :: u32) \<noteq> 0" using I(6) v(1) by blast
  next
    fix r assume "\<not> (r \<noteq> p \<and> r \<in> set (allproc (x_rsys x)))"
    then show "sproc.p_stat (procs q r) \<in> {SNONE, SIDL, SZOMB}" using zp keep [of r] I(7) [of r] by (cases "r = p") auto
  next
    show "map_option p_pid (jprocs t ?i) = Some 1" using v(3) [of ?i] I(11) by simp
  qed
  moreover have "exits_to p pp rv x x'"
  proof -
    have "pfind pid t \<noteq> Some p" for pid
    proof
      assume "pfind pid t = Some p"
      then have "p \<in> set (pidhash t (PIDHASH pid))" by (auto simp: pfind_def find_Some_iff)
      then show False using tok(1) hash_okD(2) [of t p] v(5) by (auto simp: sys_ok_def)
    qed
    moreover have "limits_of (x_rsys x') r = limits_of ((x_rsys x)\<lparr>plimits := pl\<rparr>) r" for r by (simp add: x'(5) limits_of_def)
    moreover have "ses t = ses ?j" using v(6) by (simp add: e1 e2)
    ultimately show ?thesis unfolding exits_to_def js using x'(2-4,8,10) v(1-5) by simp
  qed
  ultimately show ?thesis using x'(1) by blast
qed

text \<open>
  C8: \<open>exit\<close>.  In a system whose tables are right, the exit of the running process returns to the
  scheduler without a panic, and the tables of process groups, sessions, job control, hash chains,
  families, limits, credentials, sleep queues and run queues are right again.  The process is a
  zombie with its status, found by no number; its children are \<open>init\<close>'s; no process changes its
  group; whoever waits on its parent's channel stops waiting; no other process sees its limits
  change.  \<open>init\<close> is taken to be in no other group of the session of a child it inherits (it leads
  a session of its own).
\<close>

theorem exit_orderly:
  assumes inv: "x_inv ext x" and p: "p \<in> set (allproc (x_rsys x))" "ssys.curproc (x_sched x) = p" "p_stats x p" "p \<noteq> initproc x"
    and par: "parent (x_jobs x) p = Some pp"
    and init: "\<forall>c g. parent (x_jobs x) c = Some p \<longrightarrow> live (x_jobs x) c \<longrightarrow> grp (x_jobs x) c = Some g \<longrightarrow>
      \<not> links (x_jobs x) (grp (x_jobs x) (initproc x)) g"
  shows "\<exists>x'. exit p rv x = Done x' \<and> x_inv ext x' \<and> exits_to p pp rv x x'"
  using assms by (rule exit_ok)


section \<open>Wait\<close>

text \<open>The children of \<open>q\<close> that \<open>wait4\<close> is asked for.\<close>

definition wanted :: "int \<Rightarrow> nat \<Rightarrow> xsys \<Rightarrow> bool" where
  "wanted pid p x \<longleftrightarrow> pid = WAIT_ANY \<or> map_option p_pid (jprocs (x_jobs x) p) = Some pid \<or> getpgrp p (x_jobs x) = Done (- pid)"

definition wait_for :: "nat \<Rightarrow> int \<Rightarrow> xsys \<Rightarrow> nat set" where
  "wait_for q pid x = {p. parent (x_jobs x) p = Some q \<and> wanted pid p x}"

text \<open>A zombie has been reaped: its entry is gone, and its usage is its parent's.\<close>

definition reaped :: "(addr \<Rightarrow> nat) \<Rightarrow> nat \<Rightarrow> nat \<Rightarrow> xsys \<Rightarrow> xsys \<Rightarrow> bool" where
  "reaped ext p q x x' \<longleftrightarrow> dom (jprocs (x_jobs x')) = dom (jprocs (x_jobs x)) - {p} \<and> p \<notin> set (allproc (x_rsys x') @ zombproc (x_sys x')) \<and>
     grp (x_jobs x') = (grp (x_jobs x))(p := None) \<and> parent (x_jobs x') = (parent (x_jobs x))(p := None) \<and>
     (\<forall>g. ses (x_jobs x') g \<in> {None, ses (x_jobs x) g}) \<and> p_stats x' = (p_stats x)(p := False) \<and>
     live (x_jobs x') = live (x_jobs x) \<and> unseen ext {p} (x_creds x) (x_creds x') \<and> x_sched x' = x_sched x \<and>
     allproc (x_rsys x') = allproc (x_rsys x) \<and> limits_of (x_rsys x') = limits_of (x_rsys x) \<and> initproc x' = initproc x \<and>
     (\<forall>r. r \<noteq> p \<longrightarrow> map_option p_pid (jprocs (x_jobs x') r) = map_option p_pid (jprocs (x_jobs x) r)) \<and>
     p_cru (x_rsys x') = (p_cru (x_rsys x))(q := ruadd (p_cru (x_rsys x) q) (child_usage p (x_rsys x))) \<and>
     nprocs (x_sys x') = nprocs (x_sys x) - 1"

lemma remove1_middle:
  assumes "distinct (xs @ ys)" "p \<in> set ys"
  shows "distinct (xs @ remove1 p ys)" "set (xs @ remove1 p ys) = set (xs @ ys) - {p}" "length (xs @ ys) = Suc (length (xs @ remove1 p ys))"
    "p \<notin> set xs"
  using assms length_pos_if_in_set [OF assms(2)] by (auto simp: length_remove1)

lemma wait_zombie_ok:
  assumes inv: "x_inv ext x" and p: "jprocs (x_jobs x) p = Some pr" "jproc.p_stat pr = SZOMB" "p_pptr pr = Some q"
    and copy: "copy_if cstat (p_status x p) = 0" "copy_if cru (child_usage p (x_rsys x)) = 0"
  shows "\<exists>x'. wait_zombie cstat cru q p pid x = Done (0, pid, x') \<and> x_inv ext x' \<and> reaped ext p q x x'"
proof -
  note I = x_invD [OF inv] and F = fork_invD [OF x_invD(1) [OF inv]]
  let ?j = "x_jobs x" and ?r = "x_rsys x"
  have nl: "\<not> live ?j p" using p by (simp add: live_def)
  have pz: "p \<in> set (zombproc (x_sys x))" using nl I(4) F(6) p(1) by auto
  note m = remove1_middle [OF F(5) pz]
  obtain a where a: "p_cred (x_creds x) p = Some a" using F(7) p(1) by blast
  obtain c where c: "reclaim_creds p (x_creds x) = Done c" "cred_ok ext c" "p_cred c = (p_cred (x_creds x))(p := None)" "unseen ext {p} (x_creds x) c"
    using reclaim_creds_ok [OF F(3) a] by blast
  obtain t where t: "reclaim_jobs p ?j = Done t" "sys_ok t" "lead_ok t" "kin_ok t" "dom (jprocs t) = dom (jprocs ?j) - {p}"
    "grp t = (grp ?j)(p := None)" "parent t = (parent ?j)(p := None)" "live t = live ?j"
    "\<forall>r. r \<noteq> p \<longrightarrow> map_option p_pid (jprocs t r) = map_option p_pid (jprocs ?j r)" "\<forall>x X. pgrps t x = Some X \<longrightarrow> (\<exists>X0. pgrps ?j x = Some X0 \<and> pg_id X0 = pg_id X)"
    "\<forall>x. ses t x \<in> {None, ses ?j x}"
    using reclaim_jobs_ok [OF F(1) I(2,3) p] by blast
  let ?ru = "child_usage p ?r"
  let ?x1 = "upd_r (\<lambda>r. r\<lparr>p_cru := (p_cru r)(q := ruadd (p_cru r q) ?ru)\<rparr>)
    (x\<lparr>p_stats := (p_stats x)(p := False), x_sys := (x_sys x)\<lparr>zombproc := remove1 p (zombproc (x_sys x))\<rparr>\<rparr>)"
  let ?x2 = "put_jobs t (put_creds c ?x1)"
  define x' where "x' = ?x2\<lparr>x_sys := (x_sys ?x2)\<lparr>nprocs := nprocs (x_sys ?x2) - 1\<rparr>\<rparr>"
  have xs: "x_sys x' = (x_sys x)\<lparr>zombproc := remove1 p (zombproc (x_sys x)), nprocs := nprocs (x_sys x) - 1,
      f_sys := ?r\<lparr>r_creds := c, r_jobs := t, p_cru := (p_cru ?r)(q := ruadd (p_cru ?r q) ?ru)\<rparr>\<rparr>" "initproc x' = initproc x"
    "p_stats x' = (p_stats x)(p := False)"
    by (simp_all add: x'_def put_jobs_def put_creds_def upd_r_def)
  have run: "wait_zombie cstat cru q p pid x = Done (0, pid, x')"
    using copy c(1) t(1) by (simp add: wait_zombie_def Let_def reclaimproc_def x'_def) (simp add: upd_r_def)
  have js: "x_jobs x' = t" "x_creds x' = c" "x_sched x' = x_sched x" "allproc (x_rsys x') = allproc ?r"
    "zombproc (x_sys x') = remove1 p (zombproc (x_sys x))" "nprocs (x_sys x') = nprocs (x_sys x) - 1"
    "p_cru (x_rsys x') = (p_cru ?r)(q := ruadd (p_cru ?r q) ?ru)" by (simp_all add: xs)
  have lim: "lim_inv (x_rsys x')" "limits_of (x_rsys x') = limits_of ?r" using F(2) by (simp_all add: xs)
  have pidt: "\<exists>q0. r \<noteq> p \<and> jprocs ?j r = Some q0 \<and> p_pid q0 = p_pid qr \<and> p_pgrp q0 = p_pgrp qr" if h: "jprocs t r = Some qr" for r qr
  proof -
    have rp: "r \<noteq> p" using h t(5) by blast
    have "grp t r = grp ?j r" using rp by (simp add: t(6))
    then show ?thesis using pid_grp_views [of t r ?j] t(9) h rp by blast
  qed
  have "numbers t \<subseteq> numbers ?j" using pidt t(10) by (intro numbers_mono) blast+
  then have gap: "pid_gap (numbers t) (nextpid (x_sys x) + 1) (pidchecked (x_sys x))" using F(10) pid_gap_mono by blast
  have "fork_inv ext (x_sys x')" unfolding fork_inv_def js
    using t(2,5) lim(1) c(2,3) F(4,6-9,11,12) gap m by (simp add: xs)
  moreover have "jprocs t 0 = None" "\<And>r. r \<in> dom (jprocs t) \<Longrightarrow> (of_nat r :: u32) \<noteq> 0" using I(5,6) t(5) by (auto simp: domIff)
  moreover have "\<exists>po. parent t (initproc x) = Some po \<and> parent t po = None" using I(9,10) nl by (auto simp: t(7))
  moreover have "map_option p_pid (jprocs t (initproc x)) = Some 1" using t(9) I(10,11) nl by metis
  ultimately have "x_inv ext x'" unfolding x_inv_def js xs(2) t(8) using t(3,4) I(4,7,8,10) by blast
  moreover have "reaped ext p q x x'" unfolding reaped_def js xs(2,3) using t(5-9,11) m(2,4) c(4) lim(2) F(5) by auto
  ultimately show ?thesis using run by blast
qed

text \<open>
  The first argument as the code takes it: 0 is the negated number of the caller's group (so that in
  the group 1 it means any child).
\<close>

definition wait_number :: "nat \<Rightarrow> int \<Rightarrow> xsys \<Rightarrow> int" where
  "wait_number q pid x = (if pid = 0 then case getpgrp q (x_jobs x) of Done g \<Rightarrow> - g | _ \<Rightarrow> 0 else pid)"

text \<open>A child whose stop is to be reported, and what the two copies to user space come to.\<close>

definition stop_due :: "u32 \<Rightarrow> xsys \<Rightarrow> nat \<Rightarrow> bool" where
  "stop_due options x p \<longleftrightarrow> (\<exists>pr. jprocs (x_jobs x) p = Some pr \<and> jproc.p_stat pr = SSTOP) \<and> \<not> p_swted x p \<and>
     (p_strc x p \<or> options AND WUNTRACED \<noteq> 0)"

definition copy_error :: "(int \<Rightarrow> int) option \<Rightarrow> (rusage \<Rightarrow> int) option \<Rightarrow> int \<Rightarrow> rusage \<Rightarrow> int" where
  "copy_error cstat cru st ru = (if copy_if cstat st \<noteq> 0 then copy_if cstat st else copy_if cru ru)"

text \<open>A stop is reported: only the status and the mark of the child change.\<close>

definition stop_told :: "(int \<Rightarrow> int) option \<Rightarrow> (rusage \<Rightarrow> int) option \<Rightarrow> nat \<Rightarrow> int \<Rightarrow> int \<Rightarrow> xsys \<Rightarrow> xsys \<Rightarrow> bool" where
  "stop_told cstat cru p e rv x x' \<longleftrightarrow>
     e = copy_error cstat cru (W_STOPCODE (ps_stopsig x p)) (child_usage p (x_rsys x)) \<and>
     (if e = 0 then map_option p_pid (jprocs (x_jobs x) p) = Some rv \<and>
        x' = x\<lparr>p_status := (p_status x)(p := W_STOPCODE (ps_stopsig x p)), p_swted := (p_swted x)(p := True)\<rparr>
      else x' = x\<lparr>p_status := (p_status x)(p := W_STOPCODE (ps_stopsig x p))\<rparr>)"

text \<open>An exit is reported: the zombie is reaped, or still there if a copy failed.\<close>

definition exit_told :: "(addr \<Rightarrow> nat) \<Rightarrow> (int \<Rightarrow> int) option \<Rightarrow> (rusage \<Rightarrow> int) option \<Rightarrow> nat \<Rightarrow> nat \<Rightarrow> int \<Rightarrow> int \<Rightarrow> xsys \<Rightarrow> xsys \<Rightarrow> bool" where
  "exit_told ext cstat cru q p e rv x x' \<longleftrightarrow> \<not> live (x_jobs x) p \<and> map_option p_pid (jprocs (x_jobs x) p) = Some rv \<and>
     e = copy_error cstat cru (p_status x p) (child_usage p (x_rsys x)) \<and> (if e = 0 then reaped ext p q x x' else x' = x)"

lemma stop_told_same: "stop_told cstat cru p e rv x x' \<Longrightarrow> x_sys x' = x_sys x \<and> initproc x' = initproc x \<and> p_stats x' = p_stats x"
  by (auto simp: stop_told_def split: if_split_asm)

lemma same_sys_inv: "x_sys x' = x_sys x \<Longrightarrow> initproc x' = initproc x \<Longrightarrow> x_inv ext x' = x_inv ext x"
  by (simp add: x_inv_def)

lemma wait_stopped_ok:
  "jprocs (x_jobs x) p = Some pr \<Longrightarrow> wait_stopped cstat cru p (p_pid pr) x = (e, rv, x') \<Longrightarrow> stop_told cstat cru p e rv x x'"
  by (auto simp: wait_stopped_def stop_told_def copy_error_def Let_def split: if_splits)

text \<open>What the walk over the children \<open>ps\<close> of \<open>q\<close> comes to.\<close>

definition scan_result :: "(addr \<Rightarrow> nat) \<Rightarrow> (int \<Rightarrow> int) option \<Rightarrow> (rusage \<Rightarrow> int) option \<Rightarrow> nat \<Rightarrow> int \<Rightarrow> u32 \<Rightarrow> nat set \<Rightarrow> nat \<Rightarrow> xsys \<Rightarrow>
    nat + int \<times> int \<times> xsys \<Rightarrow> bool" where
  "scan_result ext cstat cru q pid options ps n x r \<longleftrightarrow> (case r of
      Inl m \<Rightarrow> (\<forall>p \<in> ps. wanted pid p x \<longrightarrow> live (x_jobs x) p \<and> \<not> stop_due options x p) \<and> (m = n \<longleftrightarrow> (\<forall>p \<in> ps. \<not> wanted pid p x)) \<and> n \<le> m
    | Inr (e, rv, x') \<Rightarrow> x_inv ext x' \<and> (\<exists>p \<in> ps. wanted pid p x \<and>
        (stop_due options x p \<and> stop_told cstat cru p e rv x x' \<or> exit_told ext cstat cru q p e rv x x')))"

lemma scan_result_mono:
  "scan_result ext cstat cru q pid options ps n x (Inr a) \<Longrightarrow> ps \<subseteq> ps' \<Longrightarrow> scan_result ext cstat cru q pid options ps' n x (Inr a)"
  by (auto simp: scan_result_def)

lemma wait_scan_ok:
  assumes inv: "x_inv ext x" and kids: "\<forall>p \<in> set ps. parent (x_jobs x) p = Some q"
  shows "\<exists>r. wait_scan cstat cru q pid options ps n x = Done r \<and> scan_result ext cstat cru q pid options (set ps) n x r"
  using kids
proof (induction ps arbitrary: n)
  case Nil
  then show ?case by (simp add: scan_result_def)
next
  case (Cons p ps)
  note F = fork_invD [OF x_invD(1) [OF inv]]
  let ?sc = "\<lambda>n. wait_scan cstat cru q pid options ps n x" and ?R = "scan_result ext cstat cru q pid options"
  have pg: "pg_inv (x_jobs x)" using F(1) by (simp add: sys_ok_def job_inv_def)
  obtain pr where pr: "jprocs (x_jobs x) p = Some pr" "p_pptr pr = Some q" using Cons(2) by (auto simp: parent_def bind_eq_Some_conv)
  obtain g G where g: "pgrps (x_jobs x) g = Some G" "get_pgrp p (x_jobs x) = Done (g, G)" using get_session_of [OF pg pr(1)] by metis
  have gp: "getpgrp p (x_jobs x) = Done (pg_id G)" using g(2) by (simp add: getpgrp_def)
  have want: "wanted pid p x \<longleftrightarrow> \<not> (pid \<noteq> WAIT_ANY \<and> p_pid pr \<noteq> pid \<and> pg_id G \<noteq> - pid)" using pr(1) gp by (auto simp: wanted_def)
  have lv: "live (x_jobs x) p \<longleftrightarrow> jproc.p_stat pr \<noteq> SZOMB" using pr(1) by (simp add: live_def)
  have due: "stop_due options x p \<longleftrightarrow> jproc.p_stat pr = SSTOP \<and> \<not> p_swted x p \<and> (p_strc x p \<or> options AND WUNTRACED \<noteq> 0)"
    using pr(1) by (simp add: stop_due_def)
  have rest: "\<And>n. \<exists>r. ?sc n = Done r \<and> ?R (set ps) n x r" using Cons by simp
  have step: "wait_scan cstat cru q pid options (p # ps) n x =
      (if \<not> wanted pid p x then ?sc n
       else if \<not> live (x_jobs x) p then kmap Inr (wait_zombie cstat cru q p (p_pid pr) x)
       else if stop_due options x p then Done (Inr (wait_stopped cstat cru p (p_pid pr) x))
       else ?sc (Suc n))"
    using pr(1) gp by (simp add: want lv due)
  consider "\<not> wanted pid p x" | "wanted pid p x" "\<not> live (x_jobs x) p" | "wanted pid p x" "live (x_jobs x) p" "stop_due options x p"
    | "wanted pid p x" "live (x_jobs x) p" "\<not> stop_due options x p" by blast
  then show ?case
  proof cases
    case 1
    obtain r where r: "?sc n = Done r" "?R (set ps) n x r" using rest by blast
    then have "?R (set (p # ps)) n x r" using 1 by (auto simp: scan_result_def split: sum.splits)
    then show ?thesis unfolding step using r(1) 1 by simp
  next
    case 2
    then have z: "jproc.p_stat pr = SZOMB" using lv by simp
    let ?e = "copy_error cstat cru (p_status x p) (child_usage p (x_rsys x))"
    have "\<exists>x'. wait_zombie cstat cru q p (p_pid pr) x = Done (?e, p_pid pr, x') \<and> x_inv ext x' \<and> (if ?e = 0 then reaped ext p q x x' else x' = x)"
    proof (cases "?e = 0")
      case True
      then have "copy_if cstat (p_status x p) = 0" "copy_if cru (child_usage p (x_rsys x)) = 0" by (simp_all add: copy_error_def split: if_splits)
      then show ?thesis using wait_zombie_ok [OF inv pr(1) z pr(2)] True by auto
    next
      case False
      then show ?thesis using inv by (auto simp: wait_zombie_def copy_error_def Let_def split: if_splits)
    qed
    then obtain x' where x': "wait_zombie cstat cru q p (p_pid pr) x = Done (?e, p_pid pr, x')" "x_inv ext x'" "exit_told ext cstat cru q p ?e (p_pid pr) x x'"
      using 2(2) pr(1) unfolding exit_told_def by auto
    then have "?R (set (p # ps)) n x (Inr (?e, p_pid pr, x'))" using 2(1) unfolding scan_result_def by auto
    then show ?thesis unfolding step using x'(1) 2 by simp
  next
    case 3
    obtain e rv x' where r: "wait_stopped cstat cru p (p_pid pr) x = (e, rv, x')" by (metis prod_cases3)
    have t: "stop_told cstat cru p e rv x x'" by (rule wait_stopped_ok [OF pr(1) r])
    then have "x_inv ext x'" using inv same_sys_inv stop_told_same by metis
    then have "?R (set (p # ps)) n x (Inr (e, rv, x'))" using t 3 by (auto simp: scan_result_def)
    then show ?thesis unfolding step using r 3 by simp
  next
    case 4
    obtain r where r: "?sc (Suc n) = Done r" "?R (set ps) (Suc n) x r" using rest by blast
    then have "?R (set (p # ps)) n x r" using 4 by (auto simp: scan_result_def split: sum.splits)
    then show ?thesis unfolding step using r(1) 4 by simp
  qed
qed

text \<open>What a pass of \<open>wait4\<close> comes to.\<close>

definition wait_result :: "(addr \<Rightarrow> nat) \<Rightarrow> (int \<Rightarrow> int) option \<Rightarrow> (rusage \<Rightarrow> int) option \<Rightarrow> nat \<Rightarrow> int \<Rightarrow> u32 \<Rightarrow> xsys \<Rightarrow> wait_out \<Rightarrow> bool" where
  "wait_result ext cstat cru q pid options x r \<longleftrightarrow>
     (let legal = (options AND NOT (WUNTRACED OR WNOHANG) = 0);
          W = wait_for q (wait_number q pid x) x;
          quiet = (W \<noteq> {} \<and> (\<forall>p \<in> W. live (x_jobs x) p \<and> \<not> stop_due options x p)) in
      case r of
        WSleep \<Rightarrow> legal \<and> quiet \<and> options AND WNOHANG = 0
      | WReturn e rv x' \<Rightarrow> x_inv ext x' \<and>
         (\<not> legal \<and> e = EINVAL \<and> x' = x \<or>
          legal \<and> W = {} \<and> e = ECHILD \<and> x' = x \<or>
          legal \<and> quiet \<and> options AND WNOHANG \<noteq> 0 \<and> e = 0 \<and> rv = 0 \<and> x' = x \<or>
          legal \<and> (\<exists>p \<in> W. stop_due options x p \<and> stop_told cstat cru p e rv x x' \<or> exit_told ext cstat cru q p e rv x x')))"

lemma wait4_ok:
  assumes inv: "x_inv ext x" and q: "q \<in> set (allproc (x_rsys x))"
  shows "\<exists>r. wait4 cstat cru q pid options x = Done r \<and> wait_result ext cstat cru q pid options x r"
proof -
  note I = x_invD [OF inv] and F = fork_invD [OF x_invD(1) [OF inv]]
  have fam: "family_ok (x_jobs x)" and pg: "pg_inv (x_jobs x)" using F(1) by (simp_all add: sys_ok_def job_inv_def pg_inv_def)
  obtain qr where qr: "jprocs (x_jobs x) q = Some qr" using F(6) q by auto
  obtain g G where "get_pgrp q (x_jobs x) = Done (g, G)" using get_session_of [OF pg qr] by metis
  then have gp: "getpgrp q (x_jobs x) = Done (pg_id G)" by (simp add: getpgrp_def)
  let ?n = "wait_number q pid x" and ?W = "wait_for q (wait_number q pid x) x"
  have n: "(if pid = 0 then kmap uminus (getpgrp q (x_jobs x)) else Done pid) = Done ?n" using gp by (simp add: wait_number_def)
  have kids: "set (p_children qr) = {c. parent (x_jobs x) c = Some q}" using family_okD(3) [OF fam qr] .
  then have wf: "?W = {p \<in> set (p_children qr). wanted ?n p x}" by (auto simp: wait_for_def)
  obtain r where r: "wait_scan cstat cru q ?n options (p_children qr) 0 x = Done r" "scan_result ext cstat cru q ?n options (set (p_children qr)) 0 x r"
    using wait_scan_ok [OF inv] kids by blast
  show ?thesis
  proof (cases "options AND NOT (WUNTRACED OR WNOHANG) = 0")
    case False
    then have "wait4 cstat cru q pid options x = Done (WReturn EINVAL 0 x)" unfolding wait4_def n by simp
    then show ?thesis using False inv by (simp add: wait_result_def Let_def)
  next
    case legal: True
    show ?thesis
    proof (cases r)
      case (Inl m)
      have "(\<forall>p \<in> ?W. live (x_jobs x) p \<and> \<not> stop_due options x p)" "m = 0 \<longleftrightarrow> ?W = {}" using r(2) by (auto simp: scan_result_def Inl wf)
      then show ?thesis using inv r(1) qr legal unfolding wait4_def n by (auto simp: Inl wait_result_def Let_def)
    next
      case (Inr a)
      obtain e rv x' where a: "a = (e, rv, x')" by (metis prod_cases3)
      have "wait4 cstat cru q pid options x = Done (WReturn e rv x')" using r(1) qr legal unfolding wait4_def n by (simp add: Inr a)
      moreover have "x_inv ext x'" "\<exists>p \<in> ?W. stop_due options x p \<and> stop_told cstat cru p e rv x x' \<or> exit_told ext cstat cru q p e rv x x'"
        using r(2) by (auto simp: scan_result_def Inr a wf)
      ultimately show ?thesis using legal unfolding wait_result_def Let_def by (intro exI [of _ "WReturn e rv x'"]) simp
    qed
  qed
qed

text \<open>A pass keeps the tables of live processes, and the statistics of all but a zombie.\<close>

lemma wait_result_keeps:
  assumes "wait_result ext cstat cru q pid options x (WReturn e rv x')"
  shows "x_inv ext x'" "allproc (x_rsys x') = allproc (x_rsys x)" "initproc x' = initproc x"
    "\<forall>g. ses (x_jobs x') g \<in> {None, ses (x_jobs x) g}" "\<forall>p. live (x_jobs x) p \<longrightarrow> grp (x_jobs x') p = grp (x_jobs x) p \<and> p_stats x' p = p_stats x p"
proof -
  have c: "x_inv ext x'" "x' = x \<or> (\<exists>p. stop_told cstat cru p e rv x x' \<or> exit_told ext cstat cru q p e rv x x')"
    using assms by (auto simp: wait_result_def Let_def)
  then show "x_inv ext x'" by blast
  have "x_sys x' = x_sys x \<and> initproc x' = initproc x \<and> p_stats x' = p_stats x \<or> (\<exists>p. \<not> live (x_jobs x) p \<and> reaped ext p q x x')"
    using c(2) stop_told_same by (auto simp: exit_told_def split: if_split_asm)
  then show "allproc (x_rsys x') = allproc (x_rsys x)" "initproc x' = initproc x"
    "\<forall>g. ses (x_jobs x') g \<in> {None, ses (x_jobs x) g}" "\<forall>p. live (x_jobs x) p \<longrightarrow> grp (x_jobs x') p = grp (x_jobs x) p \<and> p_stats x' p = p_stats x p"
    by (auto simp: reaped_def split: if_split_asm)
qed

text \<open>
  C14: a pass of \<open>wait4\<close> by a live process.  It always returns or goes to sleep.  Options other than \<open>WUNTRACED\<close> and
  \<open>WNOHANG\<close> are an error, and \<open>ECHILD\<close> is reported exactly when no child matches.  It sleeps, or with
  \<open>WNOHANG\<close> returns 0 with no number, only when there is a child to wait for, none of them is a zombie and
  none has a stop to report, so with \<open>exit_orderly\<close> no exit is missed.  A child
  that is reported is one that matches.  A stop is reported of a child that is stopped, was not reported
  since, and is traced or was asked for with \<open>WUNTRACED\<close>: its status is the signal that stopped it, and
  it is marked as reported unless a copy to user space failed.  A zombie that is reported without an error is reaped: its
  entry is gone from every table, its usage is added to the parent's, nobody else is affected, and
  the tables are right again.  After a failed copy to user space the zombie is still there.
\<close>

theorem wait4_reaps:
  assumes inv: "x_inv ext x" and q: "q \<in> set (allproc (x_rsys x))"
  shows "\<exists>r. wait4 cstat cru q pid options x = Done r \<and> wait_result ext cstat cru q pid options x r"
  using assms by (rule wait4_ok)

section \<open>Histories\<close>

text \<open>\<open>fork1\<close> with the fields of the new entry that \<open>exit\<close> and \<open>wait4\<close> read: the flags and the statistics.\<close>

definition x_fork :: "bool \<Rightarrow> bool \<Rightarrow> nat \<Rightarrow> nat \<Rightarrow> xsys \<Rightarrow> (int + int \<times> xsys) kres option" where
  "x_fork dg isvfork p2 p1 x =
     map_option (kmap (\<lambda>r. case r of
         Inl e \<Rightarrow> Inl e
       | Inr (pid, s) \<Rightarrow> Inr (pid, x\<lparr>x_sys := s, p_fd := (p_fd x)(p2 := True), p_vmspace := (p_vmspace x)(p2 := True),
           p_stats := (p_stats x)(p2 := True), p_strc := (p_strc x)(p2 := False), p_swted := (p_swted x)(p2 := False),
           p_szchild := (p_szchild x)(p2 := False), p_sppwait := (p_sppwait x)(p2 := isvfork)\<rparr>)))
       (fork1 dg p2 p1 (x_sys x))"

lemma fresh_of_inv:
  assumes inv: "x_inv ext x" and p: "jprocs (x_jobs x) p = None" "p \<noteq> 0"
  shows "fresh_proc p (x_sys x)"
proof -
  note I = x_invD [OF inv] and F = fork_invD [OF x_invD(1) [OF inv]]
  have nl: "\<not> live (x_jobs x) p" using p(1) by (simp add: live_def)
  then have na: "p \<notin> set (allproc (x_rsys x))" using I(4) by blast
  have "\<forall>a se. sessions (x_jobs x) a = Some se \<longrightarrow> s_leader se \<noteq> Some p" using I(2) nl unfolding lead_ok_def by blast
  moreover have "sproc.p_stat (procs (x_sched x) p) \<in> {SNONE, SIDL, SZOMB}" by (rule I(7) [OF na])
  then have "\<not> on_rq p (x_sched x)" "p_wchan (procs (x_sched x) p) = 0"
    using F(4) by (auto simp: syn_inv_def slp_ok_def rq_ok_def on_rq_iff)
  moreover have "p \<noteq> ssys.curproc (x_sched x)" using I(8) na p(2) by auto
  ultimately show ?thesis using p(1) by (simp add: fresh_proc_def)
qed

lemma forks_inv:
  assumes inv: "x_inv ext x" and p2: "jprocs (x_jobs x) p2 = None" "(of_nat p2 :: u32) \<noteq> 0" and p1: "p1 \<in> set (allproc (x_rsys x))"
    and f: "fork_inv ext s'" "forks_to ext p2 p1 pid (x_sys x) s'" and x': "x_sys x' = s'" "initproc x' = initproc x"
  shows "x_inv ext x'"
proof -
  note I = x_invD [OF inv] and F = fork_invD [OF x_invD(1) [OF inv]]
  let ?j = "x_jobs x" and ?t = "r_jobs (f_sys s')"
  have T: "\<forall>q. live ?t q \<longleftrightarrow> q = p2 \<or> live ?j q" "sessions ?t = sessions ?j" "ses ?t = ses ?j" "parent ?t p2 = Some p1"
    "allproc (f_sys s') = p2 # allproc (x_rsys x)" "dom (jprocs ?t) = insert p2 (dom (jprocs ?j))"
    "\<forall>q. q \<noteq> p2 \<longrightarrow> grp ?t q = grp ?j q \<and> parent ?t q = parent ?j q"
    "\<forall>q. q \<noteq> p2 \<longrightarrow> procs (r_sched (f_sys s')) q = procs (x_sched x) q" "ssys.curproc (r_sched (f_sys s')) = ssys.curproc (x_sched x)"
    "map_option p_pid (jprocs ?t p2) = Some pid" "\<forall>q. q \<noteq> p2 \<longrightarrow> map_option p_pid (jprocs ?t q) = map_option p_pid (jprocs ?j q)"
    using f(2) by (simp_all add: forks_to_def)
  have n2: "\<not> live ?j p2" "parent ?j p2 = None" using p2(1) by (simp_all add: live_def parent_def)
  have i2: "initproc x \<noteq> p2" using I(10) n2(1) by auto
  have "lead_ok ?t" unfolding lead_ok_def T(2)
  proof (intro allI impI)
    fix a se assume a: "sessions ?j a = Some se"
    have "live ?t q \<and> sess_of ?t q = Some a" if "s_leader se = Some q" for q
    proof -
      have q: "live ?j q" "sess_of ?j q = Some a" using I(2) a that unfolding lead_ok_def by blast+
      then have "q \<noteq> p2" using n2(1) by auto
      then show ?thesis using q T(1,3,7) by (simp add: sess_of_def)
    qed
    then show "(s_ttyvp se \<noteq> None \<longrightarrow> s_ttyp se \<noteq> None) \<and> (\<forall>q. s_leader se = Some q \<longrightarrow> live ?t q \<and> sess_of ?t q = Some a)"
      using I(2) a unfolding lead_ok_def by blast
  qed
  moreover have "kin_ok ?t" unfolding kin_ok_def
  proof (intro allI impI)
    fix c r assume "parent ?t c = Some r"
    then have "r = p1 \<or> parent ?j c = Some r" using T(4,7) by (cases "c = p2") auto
    then show "live ?t r" using I(3,4) p1 T(1) unfolding kin_ok_def by blast
  qed
  moreover have "jprocs ?t 0 = None" using T(6) I(5) p2(2) by (cases "p2 = 0") (auto simp: domIff)
  moreover have "\<exists>po. parent ?t (initproc x) = Some po \<and> parent ?t po = None"
  proof -
    obtain po where po: "parent ?j (initproc x) = Some po" "parent ?j po = None" using I(9) by blast
    have "live ?j po" using I(3) po(1) unfolding kin_ok_def by blast
    then have "po \<noteq> p2" using n2(1) by auto
    then show ?thesis using po T(7) i2 by (intro exI [of _ po]) simp
  qed
  moreover have "map_option p_pid (jprocs ?t (initproc x)) = Some 1" using T(11) I(11) i2 by simp
  ultimately show ?thesis unfolding x_inv_def x' using f(1) I(4,6,7,8,10) T(1,5,6,8,9) p2(2) by auto
qed

text \<open>
  What a history starts from: \<open>init\<close> shares its session with no other group, and every process has its
  statistics.
\<close>

definition settled :: "xsys \<Rightarrow> bool" where
  "settled x \<longleftrightarrow> (\<forall>p \<in> set (allproc (x_rsys x)). p_stats x p) \<and>
     (\<forall>g h. grp (x_jobs x) (initproc x) = Some g \<longrightarrow> h \<noteq> g \<longrightarrow> ses (x_jobs x) h \<noteq> None \<longrightarrow> ses (x_jobs x) h \<noteq> ses (x_jobs x) g)"

lemma settled_keeps:
  assumes "settled x" "initproc x' = initproc x" "grp (x_jobs x') (initproc x) = grp (x_jobs x) (initproc x)"
    "\<forall>g. ses (x_jobs x') g \<in> {None, ses (x_jobs x) g}" "\<forall>p \<in> set (allproc (x_rsys x')). p_stats x' p"
  shows "settled x'"
  unfolding settled_def assms(2,3)
proof (intro conjI allI impI)
  fix g h assume a: "grp (x_jobs x) (initproc x) = Some g" "h \<noteq> g" "ses (x_jobs x') h \<noteq> None"
  then have "ses (x_jobs x') h = ses (x_jobs x) h" "ses (x_jobs x) h \<noteq> ses (x_jobs x) g" using assms(1,4) unfolding settled_def by (metis empty_iff insert_iff)+
  then show "ses (x_jobs x') h \<noteq> ses (x_jobs x') g" using a(3) assms(4) by (metis empty_iff insert_iff)
qed (rule assms(5))

lemma settled_init:
  assumes "settled x" "x_inv ext x"
  shows "\<forall>c g. parent (x_jobs x) c = Some p \<longrightarrow> live (x_jobs x) c \<longrightarrow> grp (x_jobs x) c = Some g \<longrightarrow> \<not> links (x_jobs x) (grp (x_jobs x) (initproc x)) g"
proof (intro allI impI)
  fix c g assume g: "grp (x_jobs x) c = Some g"
  have fam: "family_ok (x_jobs x)" using fork_invD(1) [OF x_invD(1) [OF assms(2)]] by (simp add: sys_ok_def job_inv_def pg_inv_def)
  have "ses (x_jobs x) g \<noteq> None" using g family_okD(1) [OF fam] by (fastforce simp: grp_def ses_def bind_eq_Some_conv)
  then show "\<not> links (x_jobs x) (grp (x_jobs x) (initproc x)) g" using assms(1) unfolding settled_def links_def by metis
qed

lemma exit_not_init:
  assumes "x_inv ext x" "exit p rv x' = Done x''" "x_jobs x' = x_jobs x"
  shows "p \<noteq> initproc x"
proof
  assume "p = initproc x"
  then obtain pr where "jprocs (x_jobs x) p = Some pr" "p_pid pr = 1" using x_invD(11) [OF assms(1)] by auto
  then show False using assms(2,3) by (simp add: exit_def)
qed

text \<open>
  The histories of a system whose processes fork, exit and wait, in any order.  A fork must not be given
  a number that is in use (see \<open>pid_search_reuses\<close>), and process 0, which has no parent, does not exit.
  In between, the
  scheduler may do what keeps its queues right and does not touch processes that have exited:
  sleeps, wakeups, switches and priorities.
\<close>

inductive life :: "xsys \<Rightarrow> xsys \<Rightarrow> bool" for x0 where
  life_start: "life x0 x0"
| life_fork: "life x0 x \<Longrightarrow> p1 \<in> set (allproc (x_rsys x)) \<Longrightarrow> jprocs (x_jobs x) p2 = None \<Longrightarrow> (of_nat p2 :: u32) \<noteq> 0 \<Longrightarrow>
    x_fork dg isvfork p2 p1 x = Some (Done (Inr (pid, x'))) \<Longrightarrow> pid \<notin> pids_of (numbers (x_jobs x)) \<Longrightarrow> life x0 x'"
| life_exit: "life x0 x \<Longrightarrow> p \<in> set (allproc (x_rsys x)) \<Longrightarrow> ssys.curproc (x_sched x) = p \<Longrightarrow> parent (x_jobs x) p = Some pp \<Longrightarrow>
    exit p rv x = Done x' \<Longrightarrow> life x0 x'"
| life_wait: "life x0 x \<Longrightarrow> q \<in> set (allproc (x_rsys x)) \<Longrightarrow> wait4 cstat cru q pid options x = Done (WReturn e rv x') \<Longrightarrow> life x0 x'"
| life_sched: "life x0 x \<Longrightarrow> syn_inv q \<Longrightarrow> ssys.curproc q \<in> insert 0 (set (allproc (x_rsys x))) \<Longrightarrow>
    (\<forall>r. r \<notin> set (allproc (x_rsys x)) \<longrightarrow> sproc.p_stat (procs q r) = sproc.p_stat (procs (x_sched x) r)) \<Longrightarrow>
    life x0 (put_sched q x)"

lemma x_fork_fork1:
  assumes "x_fork dg isvfork p2 p1 x = Some (Done (Inr (pid, x')))"
  obtains s where "fork1 dg p2 p1 (x_sys x) = Some (Done (Inr (pid, s)))" "x_sys x' = s" "initproc x' = initproc x" "p_stats x' = (p_stats x)(p2 := True)"
proof -
  obtain z where z: "fork1 dg p2 p1 (x_sys x) = Some z" using assms by (auto simp: x_fork_def)
  then obtain r where r: "z = Done r" using assms by (cases z) (auto simp: x_fork_def)
  show ?thesis
  proof (cases r)
    case (Inl e)
    then show ?thesis using assms z r by (simp add: x_fork_def)
  next
    case (Inr a)
    then show ?thesis using assms z r that by (cases a) (auto simp: x_fork_def)
  qed
qed

lemma x_fork_inv:
  assumes inv: "x_inv ext x" and p1: "p1 \<in> set (allproc (x_rsys x))" and p2: "jprocs (x_jobs x) p2 = None" "(of_nat p2 :: u32) \<noteq> 0"
    and run: "x_fork dg isvfork p2 p1 x = Some (Done (Inr (pid, x')))" and free: "pid \<notin> pids_of (numbers (x_jobs x))"
  shows "x_inv ext x'" "allproc (x_rsys x') = p2 # allproc (x_rsys x)" "settled x \<Longrightarrow> settled x'"
proof -
  have "p2 \<noteq> 0" using p2(2) by (cases "p2 = 0") auto
  then have fresh: "fresh_proc p2 (x_sys x)" by (rule fresh_of_inv [OF inv p2(1)])
  obtain s where s: "fork1 dg p2 p1 (x_sys x) = Some (Done (Inr (pid, s)))" "x_sys x' = s" "initproc x' = initproc x"
    "p_stats x' = (p_stats x)(p2 := True)" by (rule x_fork_fork1 [OF run])
  have pass: "fork_check dg p1 (x_sys x) = Done False" using s(1) by (auto simp: fork1_def split: kres.splits bool.splits)
  have f: "fork_inv ext s" "forks_to ext p2 p1 pid (x_sys x) s"
    using fork1_ok [OF x_invD(1) [OF inv] p1 fresh fork1_number [OF s(1)] free pass] s(1) by simp_all
  show "x_inv ext x'" by (rule forks_inv [OF inv p2 p1 f s(2,3)])
  show al: "allproc (x_rsys x') = p2 # allproc (x_rsys x)" using f(2) s(2) by (simp add: forks_to_def)
  have "initproc x \<noteq> p2" using x_invD(10) [OF inv] p2(1) by (auto simp: live_def)
  then show "settled x'" if "settled x"
    using that f(2) s(2-4) al by (intro settled_keeps [OF that s(3)]) (auto simp: forks_to_def settled_def)
qed

lemma x_sched_inv:
  assumes "x_inv ext x" "syn_inv q" "ssys.curproc q \<in> insert 0 (set (allproc (x_rsys x)))"
    "\<forall>r. r \<notin> set (allproc (x_rsys x)) \<longrightarrow> sproc.p_stat (procs q r) = sproc.p_stat (procs (x_sched x) r)"
  shows "x_inv ext (put_sched q x)"
  using assms by (auto simp: x_inv_def fork_inv_def put_sched_def upd_r_def)

lemma settled_exits:
  assumes "settled x" "x_inv ext x" "x_inv ext x'" "exits_to p pp rv x x'"
  shows "settled x'"
proof -
  have "r \<in> set (allproc (x_rsys x))" if "r \<in> set (allproc (x_rsys x'))" for r
    using that x_invD(4) [OF assms(3), of r] x_invD(4) [OF assms(2), of r] assms(4) by (cases "r = p") (auto simp: exits_to_def)
  then show ?thesis using assms(1,4) by (intro settled_keeps [OF assms(1)]) (auto simp: exits_to_def settled_def)
qed

lemma settled_wait:
  assumes "settled x" "x_inv ext x" "wait_result ext cstat cru q pid options x (WReturn e rv x')"
  shows "settled x'"
proof -
  note W = wait_result_keeps [OF assms(3)]
  have "live (x_jobs x) r" if "r \<in> set (allproc (x_rsys x)) \<or> r = initproc x" for r
    using that x_invD(4,10) [OF assms(2)] by auto
  then show ?thesis using W assms(1) by (intro settled_keeps [OF assms(1)]) (auto simp: settled_def)
qed

lemma settled_same [simp]: "settled (put_sched q x) = settled x" "settled (put_creds c x) = settled x"
  by (simp_all add: settled_def put_sched_def put_creds_def upd_r_def)

lemma life_keeps:
  assumes "x_inv ext x0" "settled x0" "life x0 x"
  shows "x_inv ext x \<and> settled x"
  using assms(3)
proof (induction rule: life.induct)
  case life_start
  then show ?case using assms(1,2) by blast
next
  case (life_fork x p1 p2 dg isvfork pid x')
  then show ?case using x_fork_inv [OF _ life_fork.hyps(2-6)] by blast
next
  case (life_exit x p pp rv x')
  then have i: "x_inv ext x" "settled x" by blast+
  have st: "p_stats x p" using i(2) life_exit.hyps(2) by (simp add: settled_def)
  obtain x1 where "exit p rv x = Done x1" "x_inv ext x1" "exits_to p pp rv x x1"
    using exit_ok [OF i(1) life_exit.hyps(2,3) st exit_not_init [OF i(1) life_exit.hyps(5) refl] life_exit.hyps(4) settled_init [OF i(2,1)], of rv] by blast
  then have e: "x_inv ext x'" "exits_to p pp rv x x'" using life_exit.hyps(5) by simp_all
  then show ?case using settled_exits [OF i(2,1)] by blast
next
  case (life_wait x q cstat cru pid options e rv x')
  then have i: "x_inv ext x" "settled x" by blast+
  have w: "wait_result ext cstat cru q pid options x (WReturn e rv x')" using wait4_ok [OF i(1) life_wait.hyps(2), of cstat cru pid options] life_wait.hyps(3) by simp
  then show ?case using wait_result_keeps(1) settled_wait [OF i(2,1)] by blast
next
  case (life_sched x q)
  then show ?case using x_sched_inv [OF _ life_sched.hyps(2-4)] by simp
qed

text \<open>
  C4: in every history of forks, exits, waits and scheduling of a system whose tables are right, in which
  \<open>init\<close> shares its session with no other group and the search of \<open>fork\<close> hands out no number in
  use, the tables stay right: process groups,
  sessions and job control counts, families rooted at process 0, hash chains, unique numbers,
  reference counts of credentials and limits, sleep and run queues, and the lists of live
  processes and zombies all agree.
\<close>

theorem life_invariant:
  assumes "x_inv ext x0" "settled x0" "life x0 x"
  shows "x_inv ext x"
  using life_keeps [OF assms] by blast


section \<open>An example\<close>

text \<open>Process 12 (number 2) runs and process 11, which is init, waits for its children; process 10 is ready.\<close>

definition xsched_demo :: ssys where
  "xsched_demo = ssys_demo\<lparr>procs := (\<lambda>_. sproc_demo)(12 := sproc_demo\<lparr>sproc.p_stat := SRUN\<rparr>,
       11 := sproc_demo\<lparr>sproc.p_stat := SSLEEP, p_wchan := 11, p_pri := 20\<rparr>, 10 := sproc_demo\<lparr>sproc.p_stat := SRUN\<rparr>),
     slpque := (\<lambda>_. [])(HASH 11 := [11]), qs := (\<lambda>_. [])(12 := [10]), ssys.curproc := 12\<rparr>"

definition xsys_demo :: xsys where
  "xsys_demo = \<lparr>x_sys = fsys_demo\<lparr>f_sys := (f_sys fsys_demo)\<lparr>r_sched := xsched_demo\<rparr>\<rparr>, x_callout = callq_demo, initproc = 11,
     p_fd = (\<lambda>_. True), p_vmspace = (\<lambda>_. True), p_stats = (\<lambda>_. True), p_status = (\<lambda>_. 0), ps_stopsig = (\<lambda>_. 0),
     p_strc = (\<lambda>_. False), p_swted = (\<lambda>_. False), p_szchild = (\<lambda>_. False), p_sppwait = (\<lambda>_. False), x_events = []\<rparr>"

lemma xsched_demo_inv: "syn_inv xsched_demo"
  by (auto simp: syn_inv_def slp_ok_def rq_ok_def xsched_demo_def ssys_demo_def sproc_demo_def on_rq_iff rqidx_def bit_4096)

lemma xsys_demo_sel [simp]:
  "x_jobs xsys_demo = jsys_demo 12" "allproc (x_rsys xsys_demo) = [12, 11, 10]" "x_sched xsys_demo = xsched_demo"
  "initproc xsys_demo = 11" "p_stats xsys_demo p" "zombproc (x_sys xsys_demo) = []"
  by (simp_all add: xsys_demo_def)

lemma xsched_demo_sel: "ssys.curproc xsched_demo = 12" "q \<notin> {10, 11, 12} \<Longrightarrow> sproc.p_stat (procs xsched_demo q) \<in> {SNONE, SIDL, SZOMB}"
  by (auto simp: xsched_demo_def ssys_demo_def sproc_demo_def)

lemma jsys_demo_leaders: "lead_ok (jsys_demo c)" "kin_ok (jsys_demo c)"
proof -
  show "lead_ok (jsys_demo c)" unfolding lead_ok_def sess_of_def jsys_demo_views by (auto simp: jsys_demo_def split: if_splits)
  show "kin_ok (jsys_demo c)" unfolding kin_ok_def jsys_demo_views by (auto split: if_splits)
qed

lemma fork_inv_sched: "fork_inv ext s \<Longrightarrow> syn_inv q \<Longrightarrow> fork_inv ext (s\<lparr>f_sys := (f_sys s)\<lparr>r_sched := q\<rparr>\<rparr>)"
  unfolding fork_inv_def lim_inv_def lim_users_def limits_of_def by simp

lemma xsys_demo_inv: "x_inv ext_demo xsys_demo"
proof -
  have "fork_inv ext_demo (x_sys xsys_demo)"
    using fork_inv_sched [OF fsys_demo_inv xsched_demo_inv] by (simp add: xsys_demo_def)
  moreover have "map_option p_pid (jprocs (jsys_demo 12) 11) = Some 1" by (simp add: jsys_demo_def jproc_demo_def)
  moreover have "jprocs (jsys_demo 12) 0 = None" by (simp add: jsys_demo_def)
  ultimately show ?thesis
    unfolding x_inv_def xsys_demo_sel using xsched_demo_sel jsys_demo_leaders
    by (simp add: jsys_demo_views) blast
qed

lemma xsys_demo_exits: "\<exists>x'. exit 12 rv xsys_demo = Done x' \<and> x_inv ext_demo x' \<and> exits_to 12 11 rv xsys_demo x'"
  by (rule exit_ok [OF xsys_demo_inv]) (auto simp: xsched_demo_sel jsys_demo_views)

theorem exit_orderly_witness:
  "\<exists>x'. exit 12 (W_EXITCODE 3 0) xsys_demo = Done x' \<and> p_status x' 12 = 768 \<and> 12 \<in> set (zombproc (x_sys x')) \<and>
     p_wchan (procs (x_sched x') 11) = 0"
proof -
  have "12 \<in> set (allproc (x_rsys xsys_demo))" "ssys.curproc (x_sched xsys_demo) = 12" "p_stats xsys_demo 12" "12 \<noteq> initproc xsys_demo"
    "parent (x_jobs xsys_demo) 12 = Some 11" "p_wchan (procs (x_sched xsys_demo) 11) = of_nat 11"
    by (simp_all add: xsched_demo_sel jsys_demo_views) (simp add: xsched_demo_def)
  moreover have "W_EXITCODE 3 0 = 768" by (simp add: W_EXITCODE_def)
  moreover have "\<forall>c g. parent (x_jobs xsys_demo) c = Some 12 \<longrightarrow> live (x_jobs xsys_demo) c \<longrightarrow> grp (x_jobs xsys_demo) c = Some g \<longrightarrow>
      \<not> links (x_jobs xsys_demo) (grp (x_jobs xsys_demo) (initproc xsys_demo)) g" by (simp add: jsys_demo_views)
  ultimately show ?thesis
    using exit_orderly [OF xsys_demo_inv, of 12 11 "W_EXITCODE 3 0"] unfolding exits_to_def by fastforce
qed

lemma reaper_ready:
  assumes "exits_to 12 11 rv xsys_demo x'" "x_inv ext_demo x'"
  shows "11 \<in> set (allproc (x_rsys x'))" "wait_for 11 WAIT_ANY x' = {12}" "\<not> live (x_jobs x') 12"
    "map_option p_pid (jprocs (x_jobs x') 12) = Some 2"
proof -
  have "live (x_jobs x') 11" "\<not> live (x_jobs x') 12" using assms(1) by (auto simp: exits_to_def jsys_demo_views)
  then show "11 \<in> set (allproc (x_rsys x'))" "\<not> live (x_jobs x') 12" using x_invD(4) [OF assms(2)] by blast+
  have "parent (x_jobs x') q = Some 11 \<longleftrightarrow> q = 12" for q
    using assms(1) unfolding exits_to_def by (auto simp: jsys_demo_views split: if_splits)
  then show "wait_for 11 WAIT_ANY x' = {12}" by (auto simp: wait_for_def wanted_def)
  have "map_option p_pid (jprocs (jsys_demo 12) 12) = Some 2" by (simp add: jsys_demo_def jproc_demo_def)
  then show "map_option p_pid (jprocs (x_jobs x') 12) = Some 2" using assms(1) unfolding exits_to_def by simp
qed

text \<open>Process 12 exits; init's wait for any child returns its number and leaves no entry behind.\<close>

theorem wait4_reaps_witness:
  "\<exists>x1 x2. exit 12 768 xsys_demo = Done x1 \<and> wait4 None None 11 WAIT_ANY 0 x1 = Done (WReturn 0 2 x2) \<and> x_inv ext_demo x2 \<and>
     jprocs (x_jobs x2) 12 = None"
proof -
  obtain x1 where x1: "exit 12 768 xsys_demo = Done x1" "x_inv ext_demo x1" "exits_to 12 11 768 xsys_demo x1"
    using xsys_demo_exits by blast
  note r = reaper_ready [OF x1(3,2)]
  have "wait_number 11 WAIT_ANY x1 = WAIT_ANY" by (simp add: wait_number_def WAIT_ANY_def)
  with wait4_reaps [OF x1(2) r(1), of None None WAIT_ANY 0] obtain w where w: "wait4 None None 11 WAIT_ANY 0 x1 = Done w" and
    c: "wait_result ext_demo None None 11 WAIT_ANY 0 x1 w" by blast
  have nd: "\<not> stop_due 0 x1 12" using r(3) by (auto simp: stop_due_def live_def)
  show ?thesis
  proof (cases w)
    case WSleep
    then show ?thesis using c r(2,3) \<open>wait_number 11 WAIT_ANY x1 = WAIT_ANY\<close> by (simp add: wait_result_def Let_def)
  next
    case (WReturn e rv x2)
    then have "x_inv ext_demo x2" "exit_told ext_demo None None 11 12 e rv x1 x2"
      using c r(2,3) nd \<open>wait_number 11 WAIT_ANY x1 = WAIT_ANY\<close> by (auto simp: wait_result_def Let_def)
    moreover from this have "rv = 2" "e = 0" "reaped ext_demo 12 11 x1 x2" using r(4) by (auto simp: exit_told_def copy_error_def copy_if_def)
    ultimately show ?thesis using x1(1) w WReturn by (auto simp: reaped_def)
  qed
qed

lemma xsys_demo_settled: "settled xsys_demo"
  unfolding settled_def xsys_demo_sel by (auto simp: jsys_demo_views)

theorem life_invariant_witness:
  "\<exists>x. life xsys_demo x \<and> x_inv ext_demo x \<and> zombproc (x_sys x) \<noteq> []"
proof -
  obtain x1 where x1: "exit 12 768 xsys_demo = Done x1" "exits_to 12 11 768 xsys_demo x1"
    using xsys_demo_exits by blast
  have "life xsys_demo x1"
    by (rule life_exit [OF life_start _ _ _ x1(1)]) (auto simp: xsched_demo_sel jsys_demo_views)
  then show ?thesis using life_invariant [OF xsys_demo_inv xsys_demo_settled, of x1] x1(2) by (auto simp: exits_to_def)
qed

end
