(* ===== verification/Filedesc.thy ===== *)
theory Filedesc
  imports Cred Interfaces
begin

unbundle bit_operations_syntax

text \<open>
  Descriptor tables and open files: the tables of \<open>kern/descrip.c\<close>, \<open>include/filedesc.h\<close> and
  \<open>include/sys/file.h\<close>, compiled with \<open>DIAGNOSTIC\<close>.  A table is the pair of arrays of its
  \<open>filedesc\<close>, as lists of the allocated length; open files are a store with reference counts, linked
  on \<open>filehead\<close>.  The addresses \<open>MALLOC\<close> returns, and what the memory holds, are arguments.  The
  operations of the file (\<open>fo_close\<close>) and of its vnode are parameters or events.  Descriptors are given
  as the unsigned numbers the code compares.  Copying the arrays of a table into a smaller allocation
  (\<open>memset\<close> with a negative length) and reading past the end of an array are faults.
\<close>

section \<open>State\<close>

definition NDFILE :: nat where "NDFILE = 20"
definition NDEXTENT :: nat where "NDEXTENT = 50"
definition UF_EXCLOSE :: u8 where "UF_EXCLOSE = 1"
definition UF_MAPPED :: u8 where "UF_MAPPED = 2"
definition DTYPE_VNODE :: int where "DTYPE_VNODE = 1"
definition DTYPE_SOCKET :: int where "DTYPE_SOCKET = 2"
definition FHASLOCK :: u16 where "FHASLOCK = 16384"
definition FREAD :: u16 where "FREAD = 1"
definition FWRITE :: u16 where "FWRITE = 2"
definition EBADF :: int where "EBADF = 9"
definition EMFILE :: int where "EMFILE = 24"
definition ENFILE :: int where "ENFILE = 23"

record openfile =
  f_flag :: u16
  f_type :: int
  f_count :: int
  f_msgcount :: int
  f_cred :: addr
  f_offset :: int
  f_data :: addr

record filedesc =
  fd_ofiles :: "addr option list"
  fd_ofileflags :: "u8 list"
  fd_cdir :: addr
  fd_rdir :: "addr option"
  fd_nfiles :: nat
  fd_lastfile :: nat
  fd_freefile :: nat
  fd_cmask :: u16
  fd_refcnt :: u16

text \<open>The calls into other modules.\<close>

datatype fevent = Munmapfd nat | Unlock_posix addr | Unlock_flock addr addr | Fo_close addr | Vref addr | Vrele addr | Tablefull

text \<open>The open files of the system, with the credentials they hold.\<close>

record ftab =
  files :: "addr \<Rightarrow> openfile option"
  filehead :: "addr list"
  nfiles :: int
  f_creds :: csys
  f_events :: "fevent list"

record dsys =
  d_ftab :: ftab
  fdescs :: "addr \<Rightarrow> filedesc option"
  d_fd :: "nat \<Rightarrow> addr option"
  maxfiles :: int
  d_lim :: "nat \<Rightarrow> int"
  p_sadvlck :: "nat \<Rightarrow> bool"

text \<open>Values stored in a \<open>short\<close> and in a \<open>u_short\<close>, and a \<open>long\<close> compared with an unsigned number.\<close>

definition to_short :: "int \<Rightarrow> int" where "to_short i = signed_take_bit 15 i"
definition to_ushort :: "nat \<Rightarrow> nat" where "to_ushort i = take_bit 16 i"
definition as_unsigned :: "int \<Rightarrow> nat" where "as_unsigned i = unat (word_of_int i :: u32)"

definition fevents :: "fevent list \<Rightarrow> ftab \<Rightarrow> ftab" where
  "fevents es t = t\<lparr>f_events := f_events t @ es\<rparr>"

section \<open>Open files\<close>

definition ffree :: "addr \<Rightarrow> ftab \<Rightarrow> ftab kres" where
  "ffree f t =
     kbind (deref (files t f)) (\<lambda>fi.
     kmap (\<lambda>c. t\<lparr>files := (files t)(f := None), filehead := remove1 f (filehead t), nfiles := nfiles t - 1, f_creds := c\<rparr>)
       (crfree (f_cred fi) (f_creds t)))"

text \<open>\<open>closef\<close>: \<open>adv\<close> is the flag \<open>SADVLCK\<close> of the process; the error of \<open>fo_close\<close> is returned.\<close>

definition closef :: "(addr \<Rightarrow> int) \<Rightarrow> bool \<Rightarrow> addr option \<Rightarrow> ftab \<Rightarrow> (int \<times> ftab) kres" where
  "closef fo_close adv fp t =
     (case fp of
        None \<Rightarrow> Done (0, t)
      | Some f \<Rightarrow>
          kbind (deref (files t f)) (\<lambda>fi.
            let t1 = (if adv \<and> f_type fi = DTYPE_VNODE then fevents [Unlock_posix (f_data fi)] t else t);
                n = to_short (f_count fi - 1);
                t2 = t1\<lparr>files := (files t1)(f \<mapsto> fi\<lparr>f_count := n\<rparr>)\<rparr> in
            if 0 < n then Done (0, t2)
            else if n < 0 then Panic ''closef: count < 0''
            else
              let t3 = (if f_flag fi AND FHASLOCK \<noteq> 0 \<and> f_type fi = DTYPE_VNODE then fevents [Unlock_flock f (f_data fi)] t2 else t2) in
              kmap (Pair (fo_close f)) (ffree f (fevents [Fo_close f] t3))))"

definition fhold :: "addr \<Rightarrow> ftab \<Rightarrow> ftab kres" where
  "fhold f t = kmap (\<lambda>fi. t\<lparr>files := (files t)(f \<mapsto> fi\<lparr>f_count := to_short (f_count fi + 1)\<rparr>)\<rparr>) (deref (files t f))"

section \<open>Descriptor tables\<close>

text \<open>The first unused descriptor from \<open>i\<close> on and below \<open>last\<close>.\<close>

function fd_scan :: "addr option list \<Rightarrow> nat \<Rightarrow> nat \<Rightarrow> nat option" where
  "fd_scan fs lst i = (if i < lst then if fs ! i = None then Some i else fd_scan fs lst (Suc i) else None)"
  by pat_completeness auto
termination by (relation "measure (\<lambda>(fs, lst, i). lst - i)") auto

text \<open>The size the arrays are expanded to.\<close>

definition fd_newsize :: "int \<Rightarrow> nat \<Rightarrow> nat" where
  "fd_newsize lim n = (if n < NDEXTENT then NDEXTENT else nat (int (2 * n) mod lim))"

definition fd_expand :: "nat \<Rightarrow> filedesc \<Rightarrow> filedesc kres" where
  "fd_expand n fdp =
     (if n < fd_nfiles fdp then Fault
      else Done (fdp\<lparr>fd_ofiles := fd_ofiles fdp @ replicate (n - fd_nfiles fdp) None,
                    fd_ofileflags := fd_ofileflags fdp @ replicate (n - fd_nfiles fdp) 0, fd_nfiles := n\<rparr>))"

definition fd_take :: "nat \<Rightarrow> nat \<Rightarrow> filedesc \<Rightarrow> filedesc" where
  "fd_take want i fdp =
     fdp\<lparr>fd_ofileflags := (fd_ofileflags fdp)[i := 0],
         fd_lastfile := if fd_lastfile fdp < i then to_ushort i else fd_lastfile fdp,
         fd_freefile := if want \<le> fd_freefile fdp then to_ushort i else fd_freefile fdp\<rparr>"

text \<open>\<open>fdalloc\<close> on a table: the descriptor, or \<open>None\<close> for \<open>EMFILE\<close>, and the table.\<close>

function fd_alloc :: "int \<Rightarrow> nat \<Rightarrow> filedesc \<Rightarrow> (nat option \<times> filedesc) kres" where
  "fd_alloc lim want fdp =
     (case fd_scan (fd_ofiles fdp) (nat (min (int (fd_nfiles fdp)) lim)) (max want (fd_freefile fdp)) of
        Some i \<Rightarrow> Done (Some i, fd_take want i fdp)
      | None \<Rightarrow>
          if lim \<le> int (fd_nfiles fdp) then Done (None, fdp)
          else (case fd_expand (fd_newsize lim (fd_nfiles fdp)) fdp of
                  Done fdp' \<Rightarrow> fd_alloc lim want fdp'
                | Panic m \<Rightarrow> Panic m
                | Fault \<Rightarrow> Fault))"
  by pat_completeness auto

lemma fd_newsize_grows:
  assumes "int n < lim" "n \<le> fd_newsize lim n"
  shows "n < fd_newsize lim n"
proof (cases "n < NDEXTENT")
  case True
  then show ?thesis by (simp add: fd_newsize_def)
next
  case False
  then have n: "0 < n" by (simp add: NDEXTENT_def)
  show ?thesis
  proof (cases "int (2 * n) < lim")
    case True
    then show ?thesis using False n by (simp add: fd_newsize_def)
  next
    case c: False
    have "int (2 * n) mod lim = (int (2 * n) - lim) mod lim" by simp
    also have "\<dots> = int (2 * n) - lim" by (rule mod_pos_pos_trivial) (use assms(1) c in auto)
    finally have "fd_newsize lim n = nat (int (2 * n) - lim)" using False by (simp add: fd_newsize_def)
    then have "fd_newsize lim n < n" using assms(1) n by linarith
    then show ?thesis using assms(2) by simp
  qed
qed

lemma fd_newsize_big:
  assumes "int n < lim" "lim \<le> int (2 * n)" "NDEXTENT \<le> n"
  shows "fd_newsize lim n < n"
proof -
  have "int (2 * n) mod lim = (int (2 * n) - lim) mod lim" by simp
  also have "\<dots> = int (2 * n) - lim" by (rule mod_pos_pos_trivial) (use assms in auto)
  finally show ?thesis using assms by (simp add: fd_newsize_def)
qed

termination fd_alloc
proof (relation "measure (\<lambda>(lim, want, fdp). nat (lim - int (fd_nfiles fdp)))")
  fix lim want and fdp fdp' :: filedesc
  assume a: "\<not> lim \<le> int (fd_nfiles fdp)" and e: "fd_expand (fd_newsize lim (fd_nfiles fdp)) fdp = Done fdp'"
  from e have "fd_nfiles fdp \<le> fd_newsize lim (fd_nfiles fdp)" and n: "fd_nfiles fdp' = fd_newsize lim (fd_nfiles fdp)"
    by (auto simp: fd_expand_def split: if_splits)
  then have "fd_nfiles fdp < fd_nfiles fdp'" using a fd_newsize_grows [of "fd_nfiles fdp" lim] by simp
  then show "((lim, want, fdp'), lim, want, fdp) \<in> measure (\<lambda>(lim, want, fdp). nat (lim - int (fd_nfiles fdp)))"
    using a by simp
qed simp

declare fd_scan.simps [simp del] fd_alloc.simps [simp del]


text \<open>
  The array of flags follows the array of pointers in memory, so that a pointer read past the end
  of its array is made of four flags.
\<close>

definition fd_slot :: "filedesc \<Rightarrow> nat \<Rightarrow> addr option kres" where
  "fd_slot fdp k =
     (let n = length (fd_ofiles fdp) in
      if k < n then Done (fd_ofiles fdp ! k)
      else if take 4 (drop (4 * (k - n)) (fd_ofileflags fdp)) = [0, 0, 0, 0] then Done None
      else Fault)"

definition fd_point :: "nat \<Rightarrow> addr \<Rightarrow> u8 \<Rightarrow> filedesc \<Rightarrow> filedesc" where
  "fd_point i f fl fdp =
     fdp\<lparr>fd_ofiles := (fd_ofiles fdp)[i := Some f], fd_ofileflags := (fd_ofileflags fdp)[i := fl],
         fd_lastfile := if fd_lastfile fdp < i then to_ushort i else fd_lastfile fdp\<rparr>"

text \<open>The high-water mark comes down to a descriptor in use.\<close>

fun fd_trim :: "addr option list \<Rightarrow> nat \<Rightarrow> nat" where
  "fd_trim fs 0 = 0"
| "fd_trim fs (Suc n) = (if fs ! Suc n = None then fd_trim fs n else Suc n)"

definition fd_clear :: "nat \<Rightarrow> filedesc \<Rightarrow> filedesc" where
  "fd_clear i fdp =
     fdp\<lparr>fd_ofiles := (fd_ofiles fdp)[i := None], fd_ofileflags := (fd_ofileflags fdp)[i := 0],
         fd_freefile := if i < fd_freefile fdp then to_ushort i else fd_freefile fdp\<rparr>"

definition fd_mapped :: "filedesc \<Rightarrow> nat \<Rightarrow> ftab \<Rightarrow> ftab" where
  "fd_mapped fdp i t = (if fd_ofileflags fdp ! i AND UF_MAPPED \<noteq> 0 then fevents [Munmapfd i] t else t)"

section \<open>Descriptors of a process\<close>

definition proc_fd :: "nat \<Rightarrow> dsys \<Rightarrow> (addr \<times> filedesc) kres" where
  "proc_fd p s = kbind (deref (d_fd s p)) (\<lambda>a. kmap (Pair a) (deref (fdescs s a)))"

definition put_fd :: "addr \<Rightarrow> filedesc \<Rightarrow> dsys \<Rightarrow> dsys" where
  "put_fd a fdp s = s\<lparr>fdescs := (fdescs s)(a \<mapsto> fdp)\<rparr>"

definition open_file :: "nat \<Rightarrow> filedesc \<Rightarrow> addr option" where
  "open_file i fdp = (if i < fd_nfiles fdp then fd_ofiles fdp ! i else None)"

definition getdtablesize :: "nat \<Rightarrow> dsys \<Rightarrow> int" where
  "getdtablesize p s = d_lim s p"

definition fdalloc :: "nat \<Rightarrow> nat \<Rightarrow> dsys \<Rightarrow> (nat option \<times> dsys) kres" where
  "fdalloc p want s =
     kbind (proc_fd p s) (\<lambda>(a, fdp). kmap (\<lambda>(r, fdp'). (r, put_fd a fdp' s)) (fd_alloc (d_lim s p) want fdp))"

text \<open>The descriptor \<open>i\<close> of the process is made to refer to \<open>f\<close>.\<close>

definition fd_assign :: "nat \<Rightarrow> nat \<Rightarrow> addr \<Rightarrow> u8 \<Rightarrow> dsys \<Rightarrow> dsys kres" where
  "fd_assign p i f fl s =
     kbind (proc_fd p s) (\<lambda>(a, fdp). kmap (\<lambda>t. put_fd a (fd_point i f fl fdp) (s\<lparr>d_ftab := t\<rparr>)) (fhold f (d_ftab s)))"

text \<open>The system calls return the error, the value returned and the state.\<close>

definition dup :: "nat \<Rightarrow> nat \<Rightarrow> dsys \<Rightarrow> (int \<times> nat \<times> dsys) kres" where
  "dup p i s =
     kbind (proc_fd p s) (\<lambda>(a, fdp).
       case open_file i fdp of
         None \<Rightarrow> Done (EBADF, 0, s)
       | Some f \<Rightarrow>
           kbind (fdalloc p 0 s) (\<lambda>(r, s1).
             case r of
               None \<Rightarrow> Done (EMFILE, 0, s1)
             | Some fd \<Rightarrow>
                 kbind (proc_fd p s1) (\<lambda>(a, fdp1).
                 kmap (\<lambda>s2. (0, fd, s2)) (fd_assign p fd f (fd_ofileflags fdp1 ! i AND NOT UF_EXCLOSE) s1))))"

text \<open>
  \<open>F_DUPFD\<close> of \<open>fcntl\<close> reads the flags through a pointer into the arrays as they were before the
  allocation; arrays that were not the first ones have been freed if the table was expanded.
\<close>

definition dupfd :: "nat \<Rightarrow> nat \<Rightarrow> nat \<Rightarrow> dsys \<Rightarrow> (int \<times> nat \<times> dsys) kres" where
  "dupfd p i arg s =
     kbind (proc_fd p s) (\<lambda>(a, fdp).
       case open_file i fdp of
         None \<Rightarrow> Done (EBADF, 0, s)
       | Some f \<Rightarrow>
           if as_unsigned (d_lim s p) \<le> arg then Done (EINVAL, 0, s)
           else kbind (fdalloc p arg s) (\<lambda>(r, s1).
             case r of
               None \<Rightarrow> Done (EMFILE, 0, s1)
             | Some fd \<Rightarrow>
                 kbind (proc_fd p s1) (\<lambda>(a, fdp1).
                   if NDFILE < fd_nfiles fdp \<and> fd_nfiles fdp1 \<noteq> fd_nfiles fdp then Fault
                   else kmap (\<lambda>s2. (0, fd, s2)) (fd_assign p fd f (fd_ofileflags fdp1 ! i AND NOT UF_EXCLOSE) s1))))"

definition dup2 :: "(addr \<Rightarrow> int) \<Rightarrow> nat \<Rightarrow> nat \<Rightarrow> nat \<Rightarrow> dsys \<Rightarrow> (int \<times> nat \<times> dsys) kres" where
  "dup2 fo_close p old new s =
     kbind (proc_fd p s) (\<lambda>(a, fdp).
       case open_file old fdp of
         None \<Rightarrow> Done (EBADF, 0, s)
       | Some f \<Rightarrow>
           if as_unsigned (d_lim s p) \<le> new then Done (EBADF, 0, s)
           else if old = new then Done (0, new, s)
           else kbind
             (if fd_nfiles fdp \<le> new then
                kbind (fdalloc p new s) (\<lambda>(r, s1).
                  case r of
                    None \<Rightarrow> Done (EMFILE, s1)
                  | Some i \<Rightarrow> if new \<noteq> i then Panic ''dup2: fdalloc'' else Done (0, s1))
              else if fd_ofiles fdp ! new \<noteq> None then
                kmap (\<lambda>(e, t). (0, s\<lparr>d_ftab := t\<rparr>))
                  (closef fo_close (p_sadvlck s p) (fd_ofiles fdp ! new) (fd_mapped fdp new (d_ftab s)))
              else Done (0, s)) (\<lambda>(e, s1).
             if e \<noteq> 0 then Done (e, new, s1)
             else kbind (proc_fd p s1) (\<lambda>(a, fdp1).
                    kmap (\<lambda>s2. (0, new, s2)) (fd_assign p new f (fd_ofileflags fdp1 ! old AND NOT UF_EXCLOSE) s1))))"

definition close :: "(addr \<Rightarrow> int) \<Rightarrow> nat \<Rightarrow> nat \<Rightarrow> dsys \<Rightarrow> (int \<times> dsys) kres" where
  "close fo_close p fd s =
     kbind (proc_fd p s) (\<lambda>(a, fdp).
       case open_file fd fdp of
         None \<Rightarrow> Done (EBADF, s)
       | Some f \<Rightarrow>
           let fdp1 = fd_clear fd fdp; fdp2 = fdp1\<lparr>fd_lastfile := fd_trim (fd_ofiles fdp1) (fd_lastfile fdp1)\<rparr> in
           kmap (\<lambda>(e, t). (e, put_fd a fdp2 (s\<lparr>d_ftab := t\<rparr>)))
             (closef fo_close (p_sadvlck s p) (Some f) (fd_mapped fdp fd (d_ftab s))))"

text \<open>Are \<open>n\<close> descriptors available?\<close>

fun fd_count :: "addr option list \<Rightarrow> int \<Rightarrow> bool" where
  "fd_count [] n = False"
| "fd_count (x # xs) n = (if x = None then n - 1 \<le> 0 \<or> fd_count xs (n - 1) else fd_count xs n)"

definition fdavail :: "nat \<Rightarrow> int \<Rightarrow> dsys \<Rightarrow> bool kres" where
  "fdavail p n s =
     kmap (\<lambda>(a, fdp).
       let i = d_lim s p - int (fd_nfiles fdp); m = (if 0 < i then n - i else n) in
       0 < i \<and> m \<le> 0 \<or> fd_count (drop (fd_freefile fdp) (fd_ofiles fdp)) m) (proc_fd p s)"

fun link_after :: "addr \<Rightarrow> addr \<Rightarrow> addr list \<Rightarrow> addr list" where
  "link_after q f [] = []"
| "link_after q f (x # xs) = (if x = q then x # f # xs else x # link_after q f xs)"

text \<open>\<open>falloc\<close>: \<open>fa\<close> is the address of the new structure and \<open>mem\<close> what its memory holds.\<close>

definition falloc :: "addr \<Rightarrow> openfile \<Rightarrow> nat \<Rightarrow> dsys \<Rightarrow> (int \<times> nat \<times> dsys) kres" where
  "falloc fa mem p s =
     kbind (fdalloc p 0 s) (\<lambda>(r, s1).
       case r of
         None \<Rightarrow> Done (EMFILE, 0, s1)
       | Some i \<Rightarrow>
           if maxfiles s1 \<le> nfiles (d_ftab s1) then Done (ENFILE, 0, s1\<lparr>d_ftab := fevents [Tablefull] (d_ftab s1)\<rparr>)
           else
             kbind (proc_fd p s1) (\<lambda>(a, fdp).
             kbind (get_pcred p (f_creds (d_ftab s1))) (\<lambda>(_, pc).
             kmap (\<lambda>c. (0, i,
                 put_fd a (fdp\<lparr>fd_ofiles := (fd_ofiles fdp)[i := Some fa]\<rparr>)
                   (s1\<lparr>d_ftab := (d_ftab s1)
                      \<lparr>nfiles := nfiles (d_ftab s1) + 1, f_creds := c,
                       filehead := (case fd_ofiles fdp ! 0 of
                           None \<Rightarrow> fa # filehead (d_ftab s1) | Some q \<Rightarrow> link_after q fa (filehead (d_ftab s1))),
                       files := (files (d_ftab s1))(fa \<mapsto> mem\<lparr>f_count := 1, f_msgcount := 0, f_offset := 0, f_cred := pc_ucred pc\<rparr>)\<rparr>\<rparr>)))
               (crhold (pc_ucred pc) (f_creds (d_ftab s1))))))"

definition dupfdopen :: "addr \<Rightarrow> nat \<Rightarrow> nat \<Rightarrow> u16 \<Rightarrow> dsys \<Rightarrow> (int \<times> dsys) kres" where
  "dupfdopen a indx dfd mode s =
     kbind (deref (fdescs s a)) (\<lambda>fdp.
     kbind (fd_slot fdp indx) (\<lambda>fp.
       case open_file dfd fdp of
         None \<Rightarrow> Done (EBADF, s)
       | Some w \<Rightarrow>
           if fp = Some w then Done (EBADF, s)
           else kbind (deref (files (d_ftab s) w)) (\<lambda>wi.
             if (mode AND (FREAD OR FWRITE)) OR f_flag wi \<noteq> f_flag wi then Done (EACCES, s)
             else kmap (\<lambda>t. (0, put_fd a (fd_point indx w (fd_ofileflags fdp ! dfd) fdp) (s\<lparr>d_ftab := t\<rparr>)))
                    (fhold w (d_ftab s)))))"

section \<open>Copying and releasing a table\<close>

function fd_halve :: "nat \<Rightarrow> nat \<Rightarrow> nat" where
  "fd_halve lst i = (if 2 * NDEXTENT < i \<and> 2 * lst \<le> i then fd_halve lst (i div 2) else i)"
  by pat_completeness auto
termination by (relation "measure snd") auto

definition fd_copysize :: "filedesc \<Rightarrow> nat" where
  "fd_copysize fdp = (if fd_lastfile fdp < NDFILE then NDFILE else fd_halve (fd_lastfile fdp) (fd_nfiles fdp))"

definition hold_slot :: "filedesc \<Rightarrow> nat \<Rightarrow> ftab \<Rightarrow> ftab kres" where
  "hold_slot fdp k t = kbind (fd_slot fdp k) (\<lambda>fp. case fp of None \<Rightarrow> Done t | Some f \<Rightarrow> fhold f t)"

text \<open>\<open>na\<close> is the address of the new table.\<close>

definition fdcopy :: "addr \<Rightarrow> nat \<Rightarrow> dsys \<Rightarrow> dsys kres" where
  "fdcopy na p s =
     kbind (proc_fd p s) (\<lambda>(a, fdp).
       let i = fd_copysize fdp;
           new = fdp\<lparr>fd_refcnt := 1, fd_nfiles := i, fd_ofiles := take i (fd_ofiles fdp), fd_ofileflags := take i (fd_ofileflags fdp)\<rparr>;
           t = fevents (Vref (fd_cdir fdp) # (case fd_rdir fdp of None \<Rightarrow> [] | Some v \<Rightarrow> [Vref v])) (d_ftab s) in
       kmap (\<lambda>t'. put_fd na new (s\<lparr>d_ftab := t'\<rparr>)) (kfold (hold_slot new) [0..<Suc (fd_lastfile new)] t))"

definition close_slot :: "(addr \<Rightarrow> int) \<Rightarrow> bool \<Rightarrow> filedesc \<Rightarrow> nat \<Rightarrow> ftab \<Rightarrow> ftab kres" where
  "close_slot fo_close adv fdp k t =
     kbind (fd_slot fdp k) (\<lambda>fp. case fp of None \<Rightarrow> Done t | Some f \<Rightarrow> kmap snd (closef fo_close adv (Some f) (fd_mapped fdp k t)))"

definition fdfree :: "(addr \<Rightarrow> int) \<Rightarrow> nat \<Rightarrow> dsys \<Rightarrow> dsys kres" where
  "fdfree fo_close p s =
     kbind (proc_fd p s) (\<lambda>(a, fdp).
       if 0 < fd_refcnt fdp - 1 then Done (put_fd a (fdp\<lparr>fd_refcnt := fd_refcnt fdp - 1\<rparr>) s)
       else kmap (\<lambda>t. s\<lparr>d_ftab := fevents (Vrele (fd_cdir fdp) # (case fd_rdir fdp of None \<Rightarrow> [] | Some v \<Rightarrow> [Vrele v])) t,
                        fdescs := (fdescs s)(a := None)\<rparr>)
              (kfold (close_slot fo_close (p_sadvlck s p) fdp) [0..<Suc (fd_lastfile fdp)] (d_ftab s)))"

fun cloexec_slots :: "(addr \<Rightarrow> int) \<Rightarrow> bool \<Rightarrow> nat list \<Rightarrow> filedesc \<Rightarrow> ftab \<Rightarrow> (filedesc \<times> ftab) kres" where
  "cloexec_slots fo_close adv [] fdp t = Done (fdp, t)"
| "cloexec_slots fo_close adv (k # ks) fdp t =
     kbind (fd_slot fdp k) (\<lambda>fp.
       if fp \<noteq> None \<and> fd_ofileflags fdp ! k AND UF_EXCLOSE \<noteq> 0
       then kbind (closef fo_close adv fp (fd_mapped fdp k t)) (\<lambda>(e, t'). cloexec_slots fo_close adv ks (fd_clear k fdp) t')
       else cloexec_slots fo_close adv ks fdp t)"

definition fdcloseexec :: "(addr \<Rightarrow> int) \<Rightarrow> nat \<Rightarrow> dsys \<Rightarrow> dsys kres" where
  "fdcloseexec fo_close p s =
     kbind (proc_fd p s) (\<lambda>(a, fdp).
     kmap (\<lambda>(fdp1, t). put_fd a (fdp1\<lparr>fd_lastfile := fd_trim (fd_ofiles fdp1) (fd_lastfile fdp1)\<rparr>) (s\<lparr>d_ftab := t\<rparr>))
       (cloexec_slots fo_close (p_sadvlck s p) [0..<Suc (fd_lastfile fdp)] fdp (d_ftab s)))"

declare fd_halve.simps [simp del]

end
