(* ===== verification/Filedesc_Props.thy ===== *)
theory Filedesc_Props
  imports Filedesc
begin

unbundle bit_operations_syntax

text \<open>
  What the descriptor calls promise: a process sees a partial map from descriptors to open files,
  allocation takes the lowest free descriptor, every open file is counted exactly, and a table that
  is copied or released leaves the others alone.
\<close>

section \<open>Tables\<close>

definition tab_ok :: "filedesc \<Rightarrow> bool" where
  "tab_ok F \<longleftrightarrow> length (fd_ofiles F) = fd_nfiles F \<and> length (fd_ofileflags F) = fd_nfiles F \<and>
     NDFILE \<le> fd_nfiles F \<and> fd_nfiles F \<le> 65536 \<and> fd_lastfile F < fd_nfiles F \<and> fd_freefile F \<le> fd_nfiles F \<and>
     (\<forall>i < fd_nfiles F. fd_ofiles F ! i \<noteq> None \<longrightarrow> i \<le> fd_lastfile F) \<and> (\<forall>i < fd_freefile F. fd_ofiles F ! i \<noteq> None)"

text \<open>What a process sees of its table.\<close>

definition fdmap :: "filedesc \<Rightarrow> nat \<Rightarrow> (addr \<times> u8) option" where
  "fdmap F i = map_option (\<lambda>f. (f, fd_ofileflags F ! i)) (open_file i F)"

definition uses :: "filedesc \<Rightarrow> addr \<Rightarrow> nat" where
  "uses F f = count_list (fd_ofiles F) (Some f)"

lemma tab_okD:
  assumes "tab_ok F"
  shows "length (fd_ofiles F) = fd_nfiles F" "length (fd_ofileflags F) = fd_nfiles F" "NDFILE \<le> fd_nfiles F" "fd_nfiles F \<le> 65536"
    "fd_lastfile F < fd_nfiles F" "fd_freefile F \<le> fd_nfiles F"
    "i < fd_nfiles F \<Longrightarrow> fd_ofiles F ! i \<noteq> None \<Longrightarrow> i \<le> fd_lastfile F" "i < fd_freefile F \<Longrightarrow> fd_ofiles F ! i \<noteq> None"
  using assms by (auto simp: tab_ok_def)

lemma to_ushort_id [simp]: "i < 65536 \<Longrightarrow> to_ushort i = i"
  by (simp add: to_ushort_def take_bit_nat_def)

lemma count_list_update:
  "i < length xs \<Longrightarrow> count_list (xs[i := y]) x + (if xs ! i = x then 1 else 0) = count_list xs x + (if y = x then 1 else 0)"
proof (induction xs arbitrary: i)
  case (Cons z zs)
  show ?case
  proof (cases i)
    case (Suc n)
    then show ?thesis using Cons.IH [of n] Cons.prems by auto
  qed auto
qed simp

lemma count_list_replicate: "count_list (replicate n y) x = (if x = y then n else 0)"
  by (induction n) auto

lemma count_list_pos: "0 < count_list xs x \<longleftrightarrow> x \<in> set xs"
  by (induction xs) auto

lemma fd_scan_step:
  "i < l \<Longrightarrow> fs ! i = None \<Longrightarrow> fd_scan fs l i = Some i"
  "i < l \<Longrightarrow> fs ! i \<noteq> None \<Longrightarrow> fd_scan fs l i = fd_scan fs l (Suc i)"
  "\<not> i < l \<Longrightarrow> fd_scan fs l i = None"
  by (auto simp: fd_scan.simps [of fs l i])

lemma fd_scan_Some:
  "fd_scan fs l i = Some j \<Longrightarrow> i \<le> j \<and> j < l \<and> fs ! j = None \<and> (\<forall>k. i \<le> k \<longrightarrow> k < j \<longrightarrow> fs ! k \<noteq> None)"
proof (induction fs l i rule: fd_scan.induct)
  case (1 fs l i)
  have l: "i < l" using 1(2) fd_scan_step(3) [of i l fs] by fastforce
  show ?case
  proof (cases "fs ! i = None")
    case True
    then show ?thesis using 1(2) l fd_scan_step(1) [OF l True] by simp
  next
    case False
    then have "Suc i \<le> j \<and> j < l \<and> fs ! j = None \<and> (\<forall>k. Suc i \<le> k \<longrightarrow> k < j \<longrightarrow> fs ! k \<noteq> None)"
      using 1(1) [OF l False] 1(2) fd_scan_step(2) [OF l False] by simp
    moreover have "fs ! k \<noteq> None" if "i \<le> k" "k < j" "\<forall>k. Suc i \<le> k \<longrightarrow> k < j \<longrightarrow> fs ! k \<noteq> None" for k
      using that False by (cases "k = i") auto
    ultimately show ?thesis by simp
  qed
qed

lemma fd_scan_None: "fd_scan fs l i = None \<Longrightarrow> i \<le> k \<Longrightarrow> k < l \<Longrightarrow> fs ! k \<noteq> None"
proof (induction fs l i rule: fd_scan.induct)
  case (1 fs l i)
  have l: "i < l" using 1(3,4) by simp
  have i: "fs ! i \<noteq> None" using 1(2) fd_scan_step(1) [OF l] by fastforce
  show ?case
  proof (cases "k = i")
    case False
    then show ?thesis using 1(1) [OF l i] 1(2-4) fd_scan_step(2) [OF l i] by simp
  qed (use i in simp)
qed

text \<open>Growing and taking a descriptor do not change what is open.\<close>

lemma fd_expand_ok:
  assumes ok: "tab_ok F" and e: "fd_expand n F = Done F'" and n: "n \<le> 65536"
  shows "tab_ok F'" "fdmap F' = fdmap F" "uses F' = uses F" "fd_nfiles F' = n" "fd_refcnt F' = fd_refcnt F"
    "fd_cdir F' = fd_cdir F" "fd_rdir F' = fd_rdir F" "fd_freefile F' = fd_freefile F" "fd_nfiles F \<le> n"
proof -
  note T = tab_okD [OF ok]
  from e have F': "fd_nfiles F \<le> n" "F' = F\<lparr>fd_ofiles := fd_ofiles F @ replicate (n - fd_nfiles F) None,
      fd_ofileflags := fd_ofileflags F @ replicate (n - fd_nfiles F) 0, fd_nfiles := n\<rparr>"
    by (auto simp: fd_expand_def split: if_splits)
  show "tab_ok F'" unfolding tab_ok_def F'(2) using T F'(1) n by (auto simp: nth_append)
  show "fdmap F' = fdmap F" using T(1,2) F'(1) by (auto simp: fdmap_def open_file_def F'(2) fun_eq_iff nth_append)
  show "uses F' = uses F" by (simp add: uses_def F'(2) fun_eq_iff count_list_replicate)
  show "fd_nfiles F' = n" "fd_refcnt F' = fd_refcnt F" "fd_cdir F' = fd_cdir F" "fd_rdir F' = fd_rdir F"
    "fd_freefile F' = fd_freefile F" "fd_nfiles F \<le> n" using F'(1) by (simp_all add: F'(2))
qed

lemma fd_take_ok:
  assumes ok: "tab_ok F" and i: "i < fd_nfiles F" "fd_ofiles F ! i = None" "max want (fd_freefile F) \<le> i"
    "\<forall>k. max want (fd_freefile F) \<le> k \<longrightarrow> k < i \<longrightarrow> fd_ofiles F ! k \<noteq> None"
  shows "tab_ok (fd_take want i F)" "fdmap (fd_take want i F) = fdmap F" "uses (fd_take want i F) = uses F"
    "i \<le> fd_lastfile (fd_take want i F)"
proof -
  note T = tab_okD [OF ok]
  have i': "i < 65536" using i(1) T(4) by simp
  have "fd_ofiles F ! k \<noteq> None" if "k < i" "want \<le> fd_freefile F" for k
    using that i(4) T(8) [of k] by (cases "k < fd_freefile F") auto
  moreover have "k \<le> i" if "fd_lastfile F < i" "k < fd_nfiles F" "fd_ofiles F ! k \<noteq> None" for k
    using T(7) [OF that(2,3)] that(1) by simp
  ultimately show "tab_ok (fd_take want i F)"
    unfolding tab_ok_def fd_take_def using T(1-6) tab_okD(7) [OF ok] T(8) i(1,3) i' by (cases "fd_lastfile F < i") auto
  have "fdmap (fd_take want i F) k = fdmap F k" for k
    using i(2) by (cases "k = i") (simp_all add: fdmap_def open_file_def fd_take_def)
  then show "fdmap (fd_take want i F) = fdmap F" by (rule ext)
  show "uses (fd_take want i F) = uses F" by (simp add: uses_def fd_take_def fun_eq_iff)
  show "i \<le> fd_lastfile (fd_take want i F)" using i' by (simp add: fd_take_def)
qed

text \<open>
  Do the expansions of a full table of \<open>n\<close> entries, in the search for a descriptor from \<open>want\<close> on, overrun
  the new arrays?  The table grows to \<open>NDEXTENT\<close> entries and then doubles, as long as \<open>want\<close> lies behind
  its end; the expansion that overruns is the one of a table whose double is not below the limit.
\<close>

function overruns :: "int \<Rightarrow> nat \<Rightarrow> nat \<Rightarrow> bool" where
  "overruns lim want n \<longleftrightarrow>
     (if lim \<le> int n then False
      else if n < NDEXTENT then NDEXTENT \<le> want \<and> overruns lim want NDEXTENT
      else lim \<le> int (2 * n) \<or> 2 * n \<le> want \<and> overruns lim want (2 * n))"
  by pat_completeness auto
termination by (relation "measure (\<lambda>(lim, want, n). nat (lim - int n))") (auto simp: NDEXTENT_def)

declare overruns.simps [simp del]

definition fd_same :: "filedesc \<Rightarrow> filedesc \<Rightarrow> bool" where
  "fd_same F F' \<longleftrightarrow> tab_ok F' \<and> fdmap F' = fdmap F \<and> uses F' = uses F \<and> fd_refcnt F' = fd_refcnt F \<and>
     fd_cdir F' = fd_cdir F \<and> fd_rdir F' = fd_rdir F \<and> fd_nfiles F \<le> fd_nfiles F'"

lemma fdmap_None: "fdmap F i = None \<longleftrightarrow> \<not> (i < fd_nfiles F \<and> fd_ofiles F ! i \<noteq> None)"
  by (auto simp: fdmap_def open_file_def)

lemma fd_newsize_bound:
  assumes "int n < lim" "lim \<le> 65536" shows "fd_newsize lim n \<le> 65536"
proof -
  have "int (2 * n) mod lim < lim" using assms(1) by (intro pos_mod_bound) auto
  then show ?thesis using assms(2) by (auto simp: fd_newsize_def NDEXTENT_def)
qed

lemma fd_alloc_spec:
  assumes "tab_ok F" "lim \<le> 65536"
  shows "(case fd_alloc lim want F of
      Panic m \<Rightarrow> False
    | Fault \<Rightarrow> overruns lim want (fd_nfiles F) \<and> (\<forall>j. want \<le> j \<longrightarrow> j < fd_nfiles F \<longrightarrow> fdmap F j \<noteq> None)
    | Done (r, F') \<Rightarrow> fd_same F F' \<and>
       (case r of
          None \<Rightarrow> \<forall>j. want \<le> j \<longrightarrow> int j < lim \<longrightarrow> fdmap F j \<noteq> None
        | Some i \<Rightarrow> want \<le> i \<and> int i < lim \<and> fdmap F i = None \<and> (\<forall>j. want \<le> j \<longrightarrow> j < i \<longrightarrow> fdmap F j \<noteq> None) \<and>
            i < fd_nfiles F' \<and> i \<le> fd_lastfile F' \<and>
            (fd_nfiles F' = fd_nfiles F \<or> int (fd_nfiles F) < lim \<and> (\<forall>j. want \<le> j \<longrightarrow> j < fd_nfiles F \<longrightarrow> fdmap F j \<noteq> None))))"
  using assms
proof (induction lim want F rule: fd_alloc.induct)
  case (1 lim want F)
  note ok = 1(2) and T = tab_okD [OF 1(2)]
  let ?l = "nat (min (int (fd_nfiles F)) lim)" and ?a = "max want (fd_freefile F)"
  have l: "k < ?l \<longleftrightarrow> k < fd_nfiles F \<and> int k < lim" for k by auto
  show ?case
  proof (cases "fd_scan (fd_ofiles F) ?l ?a")
    case (Some i)
    note S = fd_scan_Some [OF Some]
    then have i: "i < fd_nfiles F" "int i < lim" "fd_ofiles F ! i = None" "?a \<le> i"
      "\<forall>k. ?a \<le> k \<longrightarrow> k < i \<longrightarrow> fd_ofiles F ! k \<noteq> None" using l by blast+
    note K = fd_take_ok [OF ok i(1,3,4,5)]
    have low: "fdmap F j \<noteq> None" if "want \<le> j" "j < i" for j
    proof (cases "j < fd_freefile F")
      case True
      then show ?thesis using T(8) [OF True] T(6) by (simp add: fdmap_None)
    next
      case False
      then show ?thesis using i(1,5) that by (simp add: fdmap_None)
    qed
    have "fd_same F (fd_take want i F)" using K by (simp add: fd_same_def fd_take_def)
    moreover have "fd_alloc lim want F = Done (Some i, fd_take want i F)" using Some by (simp add: fd_alloc.simps)
    moreover have "fdmap F i = None" using i(3) by (simp add: fdmap_None)
    moreover have "fd_nfiles (fd_take want i F) = fd_nfiles F" by (simp add: fd_take_def)
    ultimately show ?thesis using low i K(4) by auto
  next
    case None
    have used: "fdmap F j \<noteq> None" if "want \<le> j" "j < fd_nfiles F" "int j < lim" for j
    proof (cases "j < fd_freefile F")
      case True
      then show ?thesis using T(8) [OF True] T(6) by (simp add: fdmap_None)
    next
      case False
      then show ?thesis using fd_scan_None [OF None, of j] l that by (simp add: fdmap_None)
    qed
    show ?thesis
    proof (cases "lim \<le> int (fd_nfiles F)")
      case True
      have "fd_same F F" using ok by (simp add: fd_same_def)
      moreover have "fd_alloc lim want F = Done (None, F)" using None True by (simp add: fd_alloc.simps)
      ultimately show ?thesis using used True by auto
    next
      case False
      let ?n = "fd_newsize lim (fd_nfiles F)"
      show ?thesis
      proof (cases "?n < fd_nfiles F")
        case True
        then have "fd_alloc lim want F = Fault" using None False by (simp add: fd_alloc.simps fd_expand_def)
        moreover have e: "NDEXTENT \<le> fd_nfiles F"
        proof (rule ccontr)
          assume "\<not> NDEXTENT \<le> fd_nfiles F"
          then show False using True by (simp add: fd_newsize_def)
        qed
        moreover have "lim \<le> int (2 * fd_nfiles F)"
        proof (rule ccontr)
          assume "\<not> lim \<le> int (2 * fd_nfiles F)"
          then have "fd_newsize lim (fd_nfiles F) = 2 * fd_nfiles F" using e by (simp add: fd_newsize_def)
          then show False using True by simp
        qed
        ultimately show ?thesis using False used by (auto simp: overruns.simps [of lim want "fd_nfiles F"])
      next
        case n: False
        obtain F1 where F1: "fd_expand ?n F = Done F1" using n by (simp add: fd_expand_def)
        have nb: "?n \<le> 65536" by (rule fd_newsize_bound) (use False 1(3) in auto)
        note E = fd_expand_ok [OF ok F1 nb]
        have eq: "fd_alloc lim want F = fd_alloc lim want F1" using None False F1 by (simp add: fd_alloc.simps)
        have ih: "case fd_alloc lim want F1 of
            Panic m \<Rightarrow> False
          | Fault \<Rightarrow> overruns lim want (fd_nfiles F1) \<and> (\<forall>j. want \<le> j \<longrightarrow> j < fd_nfiles F1 \<longrightarrow> fdmap F1 j \<noteq> None)
          | Done (r, F') \<Rightarrow> fd_same F1 F' \<and>
             (case r of
                None \<Rightarrow> \<forall>j. want \<le> j \<longrightarrow> int j < lim \<longrightarrow> fdmap F1 j \<noteq> None
              | Some i \<Rightarrow> want \<le> i \<and> int i < lim \<and> fdmap F1 i = None \<and> (\<forall>j. want \<le> j \<longrightarrow> j < i \<longrightarrow> fdmap F1 j \<noteq> None) \<and>
                  i < fd_nfiles F' \<and> i \<le> fd_lastfile F' \<and>
                  (fd_nfiles F' = fd_nfiles F1 \<or> int (fd_nfiles F1) < lim \<and> (\<forall>j. want \<le> j \<longrightarrow> j < fd_nfiles F1 \<longrightarrow> fdmap F1 j \<noteq> None)))"
          by (rule 1(1) [OF None False F1 E(1) 1(3)])
        have full: "\<forall>j. want \<le> j \<longrightarrow> j < fd_nfiles F \<longrightarrow> fdmap F j \<noteq> None" using used False by simp
        have "fd_same F F'" if "fd_same F1 F'" for F' using that E by (auto simp: fd_same_def)
        moreover have "overruns lim want (fd_nfiles F)"
          if o: "overruns lim want (fd_nfiles F1)" and f1: "\<forall>j. want \<le> j \<longrightarrow> j < fd_nfiles F1 \<longrightarrow> fdmap F1 j \<noteq> None"
        proof -
          have "fdmap F1 (fd_nfiles F) = None" using E(2) by (simp add: fdmap_None)
          moreover have "fd_nfiles F < fd_nfiles F1" using fd_newsize_grows [of "fd_nfiles F" lim] False n E(4) by simp
          moreover have "fdmap F1 j = None" if "fd_nfiles F \<le> j" for j using E(2) that by (simp add: fdmap_None)
          ultimately have "fd_nfiles F1 \<le> want" using f1 by (metis max.cobounded1 max.cobounded2 max_less_iff_conj not_le)
          moreover have "fd_nfiles F1 = (if fd_nfiles F < NDEXTENT then NDEXTENT else 2 * fd_nfiles F)"
            using fd_newsize_big [of "fd_nfiles F" lim] False n E(4) mod_pos_pos_trivial [of "int (2 * fd_nfiles F)" lim]
            by (fastforce simp: fd_newsize_def)
          ultimately show ?thesis using o False by (simp add: overruns.simps [of lim want "fd_nfiles F"] split: if_splits)
        qed
        ultimately have same: "\<And>F'. fd_same F1 F' \<Longrightarrow> fd_same F F'"
          and over: "overruns lim want (fd_nfiles F1) \<Longrightarrow> \<forall>j. want \<le> j \<longrightarrow> j < fd_nfiles F1 \<longrightarrow> fdmap F1 j \<noteq> None \<Longrightarrow>
            overruns lim want (fd_nfiles F)" by blast+
        show ?thesis
        proof (cases "fd_alloc lim want F1")
          case (Done a)
          obtain r F' where a: "a = (r, F')" by (cases a)
          show ?thesis using ih same full False unfolding eq Done a E(2) by (cases r) simp_all
        next
          case (Panic m)
          then show ?thesis using ih by simp
        next
          case Fault
          then show ?thesis using ih over E(4,9) unfolding eq E(2) by simp
        qed
      qed
    qed
  qed
qed


lemma fd_point_ok:
  assumes ok: "tab_ok F" and i: "i < fd_nfiles F"
  shows "tab_ok (fd_point i f fl F)" "fdmap (fd_point i f fl F) = (fdmap F)(i \<mapsto> (f, fl))"
    "uses (fd_point i f fl F) g + (if open_file i F = Some g then 1 else 0) = uses F g + (if f = g then 1 else 0)"
    "fd_refcnt (fd_point i f fl F) = fd_refcnt F"
proof -
  note T = tab_okD [OF ok]
  have i': "i < 65536" using i T(4) by simp
  have "k \<le> i" if "fd_lastfile F < i" "k < fd_nfiles F" "fd_ofiles F ! k \<noteq> None" for k
    using T(7) [OF that(2,3)] that(1) by simp
  then show "tab_ok (fd_point i f fl F)"
    unfolding tab_ok_def fd_point_def using T(1-6) tab_okD(7,8) [OF ok] i i'
    by (cases "fd_lastfile F < i") (auto simp: nth_list_update)
  have "fdmap (fd_point i f fl F) k = ((fdmap F)(i \<mapsto> (f, fl))) k" for k
    using i T(1,2) by (cases "k = i") (simp_all add: fdmap_def open_file_def fd_point_def)
  then show "fdmap (fd_point i f fl F) = (fdmap F)(i \<mapsto> (f, fl))" by (rule ext)
  show "uses (fd_point i f fl F) g + (if open_file i F = Some g then 1 else 0) = uses F g + (if f = g then 1 else 0)"
    using count_list_update [of i "fd_ofiles F" "Some f" "Some g"] i T(1) by (simp add: uses_def fd_point_def open_file_def)
  show "fd_refcnt (fd_point i f fl F) = fd_refcnt F" by (simp add: fd_point_def)
qed

lemma fd_trim_le: "fd_trim fs n \<le> n"
  by (induction n) auto

lemma fd_trim_None: "fd_trim fs n < k \<Longrightarrow> k \<le> n \<Longrightarrow> fs ! k = None"
proof (induction n)
  case (Suc n)
  then show ?case by (cases "k = Suc n") (auto split: if_splits)
qed simp

text \<open>Clearing a descriptor, with and without lowering the high-water mark.\<close>

definition fd_lower :: "filedesc \<Rightarrow> filedesc" where
  "fd_lower F = F\<lparr>fd_lastfile := fd_trim (fd_ofiles F) (fd_lastfile F)\<rparr>"

lemma fd_lower_ok:
  assumes "tab_ok F"
  shows "tab_ok (fd_lower F)" "fdmap (fd_lower F) = fdmap F" "uses (fd_lower F) = uses F" "fd_refcnt (fd_lower F) = fd_refcnt F"
proof -
  note T = tab_okD [OF assms]
  have le: "fd_trim (fd_ofiles F) (fd_lastfile F) \<le> fd_lastfile F" by (rule fd_trim_le)
  have "k \<le> fd_trim (fd_ofiles F) (fd_lastfile F)" if "k < fd_nfiles F" "fd_ofiles F ! k \<noteq> None" for k
    using fd_trim_None [of "fd_ofiles F" "fd_lastfile F" k] T(7) [OF that] that(2) by (meson not_le)
  then show "tab_ok (fd_lower F)" unfolding tab_ok_def fd_lower_def using T(1-6) tab_okD(8) [OF assms] le by auto
  show "fdmap (fd_lower F) = fdmap F" by (simp add: fdmap_def open_file_def fd_lower_def fun_eq_iff)
  show "uses (fd_lower F) = uses F" by (simp add: uses_def fd_lower_def fun_eq_iff)
  show "fd_refcnt (fd_lower F) = fd_refcnt F" by (simp add: fd_lower_def)
qed

lemma fd_clear_ok:
  assumes ok: "tab_ok F" and i: "i < fd_nfiles F"
  shows "tab_ok (fd_clear i F)" "fdmap (fd_clear i F) = (fdmap F)(i := None)"
    "uses (fd_clear i F) g + (if open_file i F = Some g then 1 else 0) = uses F g" "fd_refcnt (fd_clear i F) = fd_refcnt F"
    "fd_nfiles (fd_clear i F) = fd_nfiles F" "fd_lastfile (fd_clear i F) = fd_lastfile F"
proof -
  note T = tab_okD [OF ok]
  have i': "i < 65536" using i T(4) by simp
  have "k \<le> fd_lastfile F" if "k < fd_nfiles F" "(fd_ofiles F)[i := None] ! k \<noteq> None" for k
    using T(7) [OF that(1)] that(2) i T(1) by (cases "k = i") auto
  then show "tab_ok (fd_clear i F)"
    unfolding tab_ok_def fd_clear_def using T(1-6) tab_okD(8) [OF ok] i i' by (auto simp: nth_list_update)
  have "fdmap (fd_clear i F) k = ((fdmap F)(i := None)) k" for k
    using i T(1,2) by (cases "k = i") (simp_all add: fdmap_def open_file_def fd_clear_def)
  then show "fdmap (fd_clear i F) = (fdmap F)(i := None)" by (rule ext)
  show "uses (fd_clear i F) g + (if open_file i F = Some g then 1 else 0) = uses F g"
    using count_list_update [of i "fd_ofiles F" None "Some g"] i T(1) by (simp add: uses_def fd_clear_def open_file_def)
  show "fd_refcnt (fd_clear i F) = fd_refcnt F" "fd_nfiles (fd_clear i F) = fd_nfiles F" "fd_lastfile (fd_clear i F) = fd_lastfile F"
    by (simp_all add: fd_clear_def)
qed

section \<open>Credentials and open files as reference-counted stores\<close>

lemma crhold_law:
  assumes inv: "cred_inv R s" and p: "ucreds s u = Some cr" and c: "unat (cr_ref cr) < 65535"
  shows "\<exists>s'. crhold u s = Done s' \<and> cred_inv (R(u := Suc (R u))) s' \<and> dom (ucreds s') = dom (ucreds s) \<and>
    ucreds s' = (ucreds s)(u \<mapsto> cr\<lparr>cr_ref := cr_ref cr + 1\<rparr>)"
proof -
  define s' where "s' = s\<lparr>ucreds := (ucreds s)(u \<mapsto> cr\<lparr>cr_ref := cr_ref cr + 1\<rparr>)\<rparr>"
  have n: "unat (cr_ref cr + 1) = Suc (unat (cr_ref cr))" using c by (simp add: unat_word_ariths)
  have us: "pusers s' = pusers s" "uusers s' = uusers s" by (simp_all add: pusers_def uusers_def s'_def fun_eq_iff)
  have "crhold u s = Done s'" using p by (simp add: crhold_def s'_def)
  moreover have "cred_inv (R(u := Suc (R u))) s'"
    using inv p n unfolding cred_inv_def us by (auto simp: s'_def groups_ok_def)
  moreover have "dom (ucreds s') = dom (ucreds s)" using p by (auto simp: s'_def)
  ultimately show ?thesis by (intro exI [of _ s']) (simp add: s'_def)
qed

lemma crfree_law:
  assumes inv: "cred_inv R s" and r: "0 < R u"
  shows "\<exists>s'. crfree u s = Done s' \<and> cred_inv (R(u := R u - 1)) s' \<and> p_cred s' = p_cred s \<and> pcreds s' = pcreds s"
proof -
  have "ucreds s u \<noteq> None" using inv r unfolding cred_inv_def by blast
  then obtain cr where cr: "ucreds s u = Some cr" by auto
  have cnt: "unat (cr_ref cr) = card (uusers s u) + R u" using inv cr by (auto simp: cred_inv_def)
  then have n: "unat (cr_ref cr - 1) = unat (cr_ref cr) - 1" using r by (intro unat_minus_one) auto
  define s' where "s' = s\<lparr>ucreds := (ucreds s)(u := if cr_ref cr - 1 = 0 then None else Some (cr\<lparr>cr_ref := cr_ref cr - 1\<rparr>))\<rparr>"
  have us: "pusers s' = pusers s" "uusers s' = uusers s" by (simp_all add: pusers_def uusers_def s'_def fun_eq_iff)
  have z: "cr_ref cr - 1 = 0 \<longleftrightarrow> card (uusers s u) + R u = 1"
    using n cnt r by (metis One_nat_def add_gr_0 diff_is_0_eq le_antisym less_eq_Suc_le unat_eq_zero)
  have emp: "uusers s u = {}" if "card (uusers s u) + R u = 1"
  proof -
    have "card (uusers s u) = 0" using that r by linarith
    then show ?thesis using finite_uusers [OF inv, of u] by simp
  qed
  have "cred_inv (R(u := R u - 1)) s'" unfolding cred_inv_def us
  proof (intro conjI allI impI)
    fix a pc assume a: "pcreds s' a = Some pc"
    then have "ucreds s (pc_ucred pc) \<noteq> None \<and> unat (p_refcnt pc) = card (pusers s a)" using inv by (auto simp: cred_inv_def s'_def)
    moreover have "pc_ucred pc = u \<Longrightarrow> uusers s u \<noteq> {}" using a by (auto simp: uusers_def s'_def)
    ultimately show "ucreds s' (pc_ucred pc) \<noteq> None" "unat (p_refcnt pc) = card (pusers s a)"
      using z emp by (auto simp: s'_def)
  next
    fix v assume "0 < (R(u := R u - 1)) v"
    then show "ucreds s' v \<noteq> None" using inv z r by (auto simp: s'_def cred_inv_def split: if_splits)
  next
    fix v c assume v: "ucreds s' v = Some c"
    then show "groups_ok c" "unat (cr_ref c) = card (uusers s v) + (R(u := R u - 1)) v"
      using inv cr cnt n r z by (auto simp: s'_def cred_inv_def groups_ok_def split: if_splits)
  qed (use inv in \<open>auto simp: cred_inv_def s'_def\<close>)
  moreover have "crfree u s = Done s'" using cr by (simp add: crfree_def s'_def)
  ultimately show ?thesis by (intro exI [of _ s']) (simp add: s'_def)
qed

definition cr_room :: "csys \<Rightarrow> addr \<Rightarrow> nat" where
  "cr_room s u = (case ucreds s u of None \<Rightarrow> 0 | Some cr \<Rightarrow> 65535 - unat (cr_ref cr))"

interpretation ucr: ref_store cred_inv "\<lambda>s u. ucreds s u \<noteq> None" cr_room crhold crfree
proof (unfold_locales, goal_cases)
  case (1 R s u)
  then show ?case by (simp add: cred_inv_def)
next
  case (2 R s u)
  obtain cr where cr: "ucreds s u = Some cr" using 2(2) by auto
  have c: "unat (cr_ref cr) < 65535" using 2(3) cr by (simp add: cr_room_def)
  obtain s' where s': "crhold u s = Done s'" "cred_inv (R(u := Suc (R u))) s'" "dom (ucreds s') = dom (ucreds s)"
    "ucreds s' = (ucreds s)(u \<mapsto> cr\<lparr>cr_ref := cr_ref cr + 1\<rparr>)" using crhold_law [OF 2(1) cr c] by blast
  have "unat (cr_ref cr + 1) = Suc (unat (cr_ref cr))" using c by (simp add: unat_word_ariths)
  then have "cr_room s' = (cr_room s)(u := cr_room s u - 1)" using cr by (auto simp: cr_room_def s'(4) fun_eq_iff)
  then show ?case using s' by (auto simp: fun_eq_iff domIff)
next
  case (3 R s u)
  then show ?case using crfree_law [OF 3] by blast
qed

text \<open>The holders of the credentials of open files, and the table of open files with \<open>R\<close> references.\<close>

definition fcreds :: "ftab \<Rightarrow> addr \<Rightarrow> nat" where
  "fcreds t u = card {f. \<exists>fi. files t f = Some fi \<and> f_cred fi = u}"

definition files_inv :: "(addr \<Rightarrow> nat) \<Rightarrow> (addr \<Rightarrow> nat) \<Rightarrow> ftab \<Rightarrow> bool" where
  "files_inv ext R t \<longleftrightarrow> distinct (filehead t) \<and> set (filehead t) = dom (files t) \<and> nfiles t = int (length (filehead t)) \<and>
     (\<forall>f fi. files t f = Some fi \<longrightarrow> f_count fi = int (R f) \<and> 0 < R f \<and> R f \<le> 32767) \<and> (\<forall>f. 0 < R f \<longrightarrow> files t f \<noteq> None) \<and>
     cred_inv (\<lambda>u. ext u + fcreds t u) (f_creds t)"

lemma files_invD:
  assumes "files_inv ext R t"
  shows "distinct (filehead t)" "set (filehead t) = dom (files t)" "nfiles t = int (length (filehead t))"
    "files t f = Some fi \<Longrightarrow> f_count fi = int (R f)" "files t f = Some fi \<Longrightarrow> 0 < R f" "files t f = Some fi \<Longrightarrow> R f \<le> 32767"
    "0 < R f \<Longrightarrow> files t f \<noteq> None" "cred_inv (\<lambda>u. ext u + fcreds t u) (f_creds t)" "finite (dom (files t))"
proof -
  show "distinct (filehead t)" and d: "set (filehead t) = dom (files t)" and "nfiles t = int (length (filehead t))"
    and "files t f = Some fi \<Longrightarrow> f_count fi = int (R f)" and "files t f = Some fi \<Longrightarrow> 0 < R f" and "files t f = Some fi \<Longrightarrow> R f \<le> 32767"
    and "0 < R f \<Longrightarrow> files t f \<noteq> None" and "cred_inv (\<lambda>u. ext u + fcreds t u) (f_creds t)"
    using assms unfolding files_inv_def by blast+
  show "finite (dom (files t))" unfolding d [symmetric] by simp
qed

lemma to_short_id [simp]: "0 \<le> i \<Longrightarrow> i \<le> 32767 \<Longrightarrow> to_short i = i"
  unfolding to_short_def by (rule signed_take_bit_int_eq_self) auto

lemma fevents_sel [simp]:
  "files (fevents es t) = files t" "filehead (fevents es t) = filehead t" "nfiles (fevents es t) = nfiles t"
  "f_creds (fevents es t) = f_creds t"
  by (simp_all add: fevents_def)

lemma fevents_inv [simp]: "files_inv ext R (fevents es t) = files_inv ext R t"
  by (simp add: files_inv_def fcreds_def)

lemma fd_mapped_sel [simp]: "files (fd_mapped F i t) = files t" "files_inv ext R (fd_mapped F i t) = files_inv ext R t"
  by (simp_all add: fd_mapped_def)

text \<open>Changing the count of a file.\<close>

lemma files_recount:
  assumes inv: "files_inv ext R t" and f: "files t f = Some fi" and n: "0 < n" "n \<le> 32767"
  shows "files_inv ext (R(f := n)) (t\<lparr>files := (files t)(f \<mapsto> fi\<lparr>f_count := int n\<rparr>)\<rparr>)"
proof -
  let ?t = "t\<lparr>files := (files t)(f \<mapsto> fi\<lparr>f_count := int n\<rparr>)\<rparr>"
  have "fcreds ?t u = fcreds t u" for u
    unfolding fcreds_def by (rule arg_cong [where f = card]) (use f in auto)
  then show ?thesis using inv f n unfolding files_inv_def by auto
qed

lemma fhold_law:
  assumes inv: "files_inv ext R t" and f: "files t f = Some fi" and r: "R f < 32767"
  shows "fhold f t = Done (t\<lparr>files := (files t)(f \<mapsto> fi\<lparr>f_count := int (Suc (R f))\<rparr>)\<rparr>)"
    "files_inv ext (R(f := Suc (R f))) (t\<lparr>files := (files t)(f \<mapsto> fi\<lparr>f_count := int (Suc (R f))\<rparr>)\<rparr>)"
proof -
  have "f_count fi = int (R f)" by (rule files_invD(4) [OF inv f])
  then have "to_short (f_count fi + 1) = int (Suc (R f))" using r to_short_id [of "int (Suc (R f))"] by simp
  then show "fhold f t = Done (t\<lparr>files := (files t)(f \<mapsto> fi\<lparr>f_count := int (Suc (R f))\<rparr>)\<rparr>)" using f by (simp add: fhold_def)
  show "files_inv ext (R(f := Suc (R f))) (t\<lparr>files := (files t)(f \<mapsto> fi\<lparr>f_count := int (Suc (R f))\<rparr>)\<rparr>)"
    by (rule files_recount [OF inv f]) (use r in auto)
qed

lemma ffree_law:
  assumes inv: "files_inv ext R t" and f: "files t f = Some fi" and fi': "f_cred fi' = f_cred fi"
  shows "\<exists>t'. ffree f (t\<lparr>files := (files t)(f \<mapsto> fi')\<rparr>) = Done t' \<and> files_inv ext (R(f := 0)) t' \<and> files t' = (files t)(f := None)"
proof -
  note I = files_invD [OF inv]
  let ?u = "f_cred fi" and ?F = "\<lambda>u. {g. \<exists>gi. files t g = Some gi \<and> f_cred gi = u}"
  have fin: "finite (?F u)" for u by (rule finite_subset [OF _ I(9)]) auto
  have mem: "f \<in> ?F ?u" using f by simp
  then have pos: "0 < fcreds t ?u" using fin [of ?u] unfolding fcreds_def card_gt_0_iff by blast
  obtain c where c: "crfree ?u (f_creds t) = Done c"
    "cred_inv ((\<lambda>u. ext u + fcreds t u)(?u := ext ?u + fcreds t ?u - 1)) c"
    using crfree_law [OF I(8), of ?u] pos by auto
  define t' where "t' = t\<lparr>files := (files t)(f := None), filehead := remove1 f (filehead t), nfiles := nfiles t - 1, f_creds := c\<rparr>"
  have cnt: "fcreds t' u = (if u = ?u then fcreds t u - 1 else fcreds t u)" for u
  proof -
    have "{g. \<exists>gi. files t' g = Some gi \<and> f_cred gi = u} = ?F u - {f}" by (auto simp: t'_def)
    then show ?thesis using fin [of u] mem f by (auto simp: fcreds_def card_Diff_singleton_if)
  qed
  have "(\<lambda>u. ext u + fcreds t' u) = (\<lambda>u. ext u + fcreds t u)(?u := ext ?u + fcreds t ?u - 1)"
    using pos by (auto simp: cnt fun_eq_iff)
  then have "cred_inv (\<lambda>u. ext u + fcreds t' u) (f_creds t')" using c(2) by (simp add: t'_def)
  moreover have "f \<in> set (filehead t)" using I(2) f by auto
  moreover have "int (length (remove1 f (filehead t))) = int (length (filehead t)) - 1"
    using length_pos_if_in_set [OF \<open>f \<in> set (filehead t)\<close>] \<open>f \<in> set (filehead t)\<close>
    by (simp add: length_remove1 of_nat_diff Suc_le_eq del: length_greater_0_conv)
  ultimately have "files_inv ext (R(f := 0)) t'"
    using inv unfolding files_inv_def by (auto simp: t'_def)
  moreover have "ffree f (t\<lparr>files := (files t)(f \<mapsto> fi')\<rparr>) = Done t'" using c(1) fi' by (simp add: ffree_def t'_def)
  ultimately show ?thesis by (intro exI [of _ t']) (simp add: t'_def)
qed

definition file_room :: "ftab \<Rightarrow> addr \<Rightarrow> nat" where
  "file_room t f = (case files t f of None \<Rightarrow> 0 | Some fi \<Rightarrow> nat (32767 - f_count fi))"

text \<open>One reference is dropped, and the file with the last one.\<close>

lemma closef_law:
  assumes inv: "files_inv ext R t" and f: "files t f = Some fi"
  shows "\<exists>t'. closef c adv (Some f) t = Done (if R f = 1 then c f else 0, t') \<and> files_inv ext (R(f := R f - 1)) t' \<and>
    files t' = (files t)(f := if R f = 1 then None else Some (fi\<lparr>f_count := int (R f - 1)\<rparr>))"
proof -
  note I = files_invD [OF inv]
  have n: "f_count fi = int (R f)" "0 < R f" "R f \<le> 32767" using I(4,5,6) [OF f] by blast+
  define t1 where "t1 = (if adv \<and> f_type fi = DTYPE_VNODE then fevents [Unlock_posix (f_data fi)] t else t)"
  have t1: "files_inv ext R t1" "files t1 = files t" using inv by (simp_all add: t1_def)
  have m: "to_short (f_count fi - 1) = int (R f - 1)" using n to_short_id [of "int (R f - 1)"] by simp
  show ?thesis
  proof (cases "R f = 1")
    case False
    let ?t = "t1\<lparr>files := (files t1)(f \<mapsto> fi\<lparr>f_count := int (R f - 1)\<rparr>)\<rparr>"
    have "files_inv ext (R(f := R f - 1)) ?t" by (rule files_recount [OF t1(1)]) (use f t1(2) n False in auto)
    moreover have "closef c adv (Some f) t = Done (0, ?t)"
      using f m n False by (simp add: closef_def Let_def t1_def)
    ultimately show ?thesis using False t1(2) by (intro exI [of _ ?t]) simp
  next
    case True
    define es where "es = (if f_flag fi AND FHASLOCK \<noteq> 0 \<and> f_type fi = DTYPE_VNODE then [Unlock_flock f (f_data fi)] else []) @ [Fo_close f]"
    have ev: "fevents bs (fevents as u) = fevents (as @ bs) u" for as bs u by (simp add: fevents_def)
    have e0: "fevents [] u = u" for u by (simp add: fevents_def)
    let ?t2 = "t1\<lparr>files := (files t1)(f \<mapsto> fi\<lparr>f_count := 0\<rparr>)\<rparr>"
    have r: "fevents es ?t2 = (fevents es t1)\<lparr>files := (files (fevents es t1))(f \<mapsto> fi\<lparr>f_count := 0\<rparr>)\<rparr>" by (simp add: fevents_def)
    have "files (fevents es t1) f = Some fi" using f t1(2) by simp
    then obtain t' where t': "ffree f (fevents es ?t2) = Done t'" "files_inv ext (R(f := 0)) t'" "files t' = (files (fevents es t1))(f := None)"
      using ffree_law [of ext R "fevents es t1" f fi "fi\<lparr>f_count := 0\<rparr>"] t1(1) unfolding r by auto
    have "closef c adv (Some f) t = kmap (Pair (c f)) (ffree f (fevents es ?t2))"
      using f m True by (simp add: closef_def Let_def t1_def es_def ev e0 fevents_def)
    then show ?thesis using t' True t1(2) by (intro exI [of _ t']) simp
  qed
qed

interpretation fil: ref_store "files_inv ext" "\<lambda>t f. files t f \<noteq> None" file_room fhold "\<lambda>f t. kmap snd (closef c adv (Some f) t)"
  for ext c adv
proof (unfold_locales, goal_cases)
  case (1 R t f)
  then show ?case by (simp add: files_invD(7))
next
  case (2 R t f)
  then obtain fi where f: "files t f = Some fi" by auto
  have n: "f_count fi = int (R f)" using files_invD(4) [OF 2(1) f] .
  then have r: "R f < 32767" using 2(3) f by (simp add: file_room_def)
  have "file_room (t\<lparr>files := (files t)(f \<mapsto> fi\<lparr>f_count := int (Suc (R f))\<rparr>)\<rparr>) = (file_room t)(f := file_room t f - 1)"
    using f n by (auto simp: file_room_def fun_eq_iff)
  then show ?case using fhold_law [OF 2(1) f r] f by (intro exI) (auto simp: fun_eq_iff split: if_splits)
next
  case (3 R t f)
  have "files t f \<noteq> None" by (rule files_invD(7) [OF 3])
  then obtain fi where "files t f = Some fi" by auto
  from closef_law [OF 3(1) this, of c adv] show ?case by auto
qed

section \<open>All tables together\<close>

text \<open>The references to a file from the tables, and the invariant of descriptors and open files.\<close>

definition nrefs :: "dsys \<Rightarrow> addr \<Rightarrow> nat" where
  "nrefs s f = (\<Sum>a \<in> dom (fdescs s). uses (the (fdescs s a)) f)"

definition fd_ok :: "(addr \<Rightarrow> nat) \<Rightarrow> dsys \<Rightarrow> bool" where
  "fd_ok ext s \<longleftrightarrow> finite (dom (fdescs s)) \<and> finite (dom (d_fd s)) \<and> files_inv ext (nrefs s) (d_ftab s) \<and>
     (\<forall>a F. fdescs s a = Some F \<longrightarrow> tab_ok F \<and> unat (fd_refcnt F) = card {p. d_fd s p = Some a} \<and> (\<exists>p. d_fd s p = Some a)) \<and>
     (\<forall>p a. d_fd s p = Some a \<longrightarrow> fdescs s a \<noteq> None) \<and> (\<forall>p. 0 \<le> d_lim s p \<and> d_lim s p \<le> 65536)"

text \<open>What a process sees, and the table it has.\<close>

definition dview :: "dsys \<Rightarrow> nat \<Rightarrow> nat \<Rightarrow> (addr \<times> u8) option" where
  "dview s p i = (case d_fd s p of None \<Rightarrow> None | Some a \<Rightarrow> (case fdescs s a of None \<Rightarrow> None | Some F \<Rightarrow> fdmap F i))"

lemma fd_okD:
  assumes "fd_ok ext s"
  shows "finite (dom (fdescs s))" "finite (dom (d_fd s))" "files_inv ext (nrefs s) (d_ftab s)"
    "fdescs s a = Some F \<Longrightarrow> tab_ok F" "fdescs s a = Some F \<Longrightarrow> unat (fd_refcnt F) = card {p. d_fd s p = Some a}"
    "d_fd s p = Some a \<Longrightarrow> fdescs s a \<noteq> None" "0 \<le> d_lim s p" "d_lim s p \<le> 65536" "fdescs s a = Some F \<Longrightarrow> \<exists>p. d_fd s p = Some a"
  using assms unfolding fd_ok_def by blast+

lemma proc_fd_Done:
  assumes "fd_ok ext s" "d_fd s p = Some a"
  obtains F where "fdescs s a = Some F" "proc_fd p s = Done (a, F)" "tab_ok F" "dview s p = fdmap F"
proof -
  have "fdescs s a \<noteq> None" by (rule fd_okD(6) [OF assms])
  then obtain F where F: "fdescs s a = Some F" by auto
  show thesis by (rule that [OF F]) (use F assms(2) fd_okD(4) [OF assms(1) F] in \<open>auto simp: proc_fd_def dview_def fun_eq_iff\<close>)
qed

lemma nrefs_put:
  assumes "finite (dom (fdescs s))" "fdescs s a = Some F"
  shows "nrefs (put_fd a F' s) f + uses F f = nrefs s f + uses F' f"
proof -
  have e: "fdescs (put_fd a F' s) = (fdescs s)(a \<mapsto> F')" by (simp add: put_fd_def)
  have d: "dom ((fdescs s)(a \<mapsto> F')) = dom (fdescs s)" using assms(2) by auto
  have "nrefs (put_fd a F' s) f = (\<Sum>b \<in> dom (fdescs s). uses (the (((fdescs s)(a \<mapsto> F')) b)) f)"
    unfolding nrefs_def e d ..
  also have "\<dots> = uses F' f + (\<Sum>b \<in> dom (fdescs s) - {a}. uses (the (((fdescs s)(a \<mapsto> F')) b)) f)"
    using assms by (subst sum.remove [of _ a]) auto
  also have "(\<Sum>b \<in> dom (fdescs s) - {a}. uses (the (((fdescs s)(a \<mapsto> F')) b)) f) = (\<Sum>b \<in> dom (fdescs s) - {a}. uses (the (fdescs s b)) f)"
    by (rule sum.cong) auto
  finally have 1: "nrefs (put_fd a F' s) f = uses F' f + (\<Sum>b \<in> dom (fdescs s) - {a}. uses (the (fdescs s b)) f)" .
  have "nrefs s f = uses F f + (\<Sum>b \<in> dom (fdescs s) - {a}. uses (the (fdescs s b)) f)"
    unfolding nrefs_def using assms by (subst sum.remove [of _ a]) auto
  then show ?thesis using 1 by simp
qed

lemma nrefs_ftab [simp]: "nrefs (s\<lparr>d_ftab := t\<rparr>) = nrefs s"
  by (simp add: nrefs_def fun_eq_iff)

text \<open>A table is replaced, and the files follow the references it gains or loses.\<close>

lemma put_fd_ok:
  assumes ok: "fd_ok ext s" and a: "fdescs s a = Some F" and F': "tab_ok F'" "fd_refcnt F' = fd_refcnt F"
    and t: "files_inv ext (nrefs (put_fd a F' s)) t"
  shows "fd_ok ext (put_fd a F' (s\<lparr>d_ftab := t\<rparr>))"
proof -
  have "nrefs (put_fd a F' (s\<lparr>d_ftab := t\<rparr>)) = nrefs (put_fd a F' s)" by (simp add: nrefs_def put_fd_def fun_eq_iff)
  then show ?thesis using ok a F' t unfolding fd_ok_def by (auto simp: put_fd_def split: if_splits)
qed

lemma put_fd_view: "d_fd s q = Some a \<Longrightarrow> dview (put_fd a F' s) q = fdmap F'" "d_fd s q \<noteq> Some a \<Longrightarrow> dview (put_fd a F' s) q = dview s q"
  by (auto simp: dview_def put_fd_def fun_eq_iff split: option.splits)

lemma nrefs_same:
  assumes "finite (dom (fdescs s))" "fdescs s a = Some F" "uses F' = uses F"
  shows "nrefs (put_fd a F' s) = nrefs s"
  using nrefs_put [OF assms(1,2), of F'] assms(3) by (auto simp: fun_eq_iff)

lemma uses_pos: "open_file i F = Some f \<Longrightarrow> tab_ok F \<Longrightarrow> 0 < uses F f"
  unfolding uses_def count_list_pos by (metis nth_mem open_file_def option.simps(3) tab_okD(1))

lemma nrefs_pos:
  assumes "finite (dom (fdescs s))" "fdescs s a = Some F" "0 < uses F f"
  shows "0 < nrefs s f"
proof -
  have "uses F f \<le> nrefs s f"
    unfolding nrefs_def using member_le_sum [of a "dom (fdescs s)" "\<lambda>a. uses (the (fdescs s a)) f"] assms by auto
  then show ?thesis using assms(3) by simp
qed

text \<open>A file without its count, and what a call on the table of \<open>p\<close> may change: only what its holders see.\<close>

definition fobj :: "dsys \<Rightarrow> addr \<Rightarrow> openfile option" where
  "fobj s f = map_option (\<lambda>fi. fi\<lparr>f_count := 0\<rparr>) (files (d_ftab s) f)"

definition redirects :: "nat \<Rightarrow> (nat \<Rightarrow> (addr \<times> u8) option) \<Rightarrow> dsys \<Rightarrow> dsys \<Rightarrow> bool" where
  "redirects p D s s' \<longleftrightarrow> d_fd s' = d_fd s \<and> d_lim s' = d_lim s \<and> maxfiles s' = maxfiles s \<and> p_sadvlck s' = p_sadvlck s \<and>
     (\<forall>q. dview s' q = (if d_fd s q = d_fd s p then D else dview s q)) \<and>
     (\<forall>g. files (d_ftab s') g \<noteq> None \<longrightarrow> fobj s' g = fobj s g)"

lemma redirects_refl: "redirects p (dview s p) s s"
  by (auto simp: redirects_def dview_def fun_eq_iff)

lemma fobj_None: "fobj s f = None \<longleftrightarrow> files (d_ftab s) f = None"
  by (simp add: fobj_def)

lemma redirects_trans:
  assumes 1: "redirects p D s s1" and 2: "redirects p D' s1 s2"
  shows "redirects p D' s s2"
proof -
  have "fobj s2 g = fobj s g" if g: "fobj s2 g \<noteq> None" for g
  proof -
    have "fobj s2 g = fobj s1 g" using 2 g by (simp add: redirects_def fobj_None)
    then show ?thesis using 1 g by (simp add: redirects_def fobj_None [symmetric])
  qed
  then show ?thesis using assms by (simp add: redirects_def fobj_None [symmetric])
qed

lemma put_fd_redirects:
  assumes "d_fd s p = Some a" "\<forall>g. files t g \<noteq> None \<longrightarrow> fobj (s\<lparr>d_ftab := t\<rparr>) g = fobj s g"
  shows "redirects p (fdmap F') s (put_fd a F' (s\<lparr>d_ftab := t\<rparr>))"
  using assms by (auto simp: redirects_def put_fd_def dview_def fobj_def fun_eq_iff split: option.splits)

lemma nth_uses: "tab_ok F \<Longrightarrow> open_file i F = Some f \<Longrightarrow> 1 \<le> uses F f"
  using uses_pos by fastforce

lemma fdmap_open: "fdmap F i = Some (f, fl) \<longleftrightarrow> open_file i F = Some f \<and> fl = fd_ofileflags F ! i"
  by (auto simp: fdmap_def)

lemma open_file_fdmap: "open_file i F = map_option fst (fdmap F i)"
  by (simp add: fdmap_def option.map_comp comp_def option.map_id0 id_def [symmetric])

text \<open>The table of a process is replaced by an equal one.\<close>

lemma same_put:
  assumes ok: "fd_ok ext s" and p: "d_fd s p = Some a" and F: "fdescs s a = Some F" and F': "fd_same F F'"
  shows "fd_ok ext (put_fd a F' s)" "redirects p (dview s p) s (put_fd a F' s)" "nrefs (put_fd a F' s) = nrefs s"
    "fdescs (put_fd a F' s) a = Some F'" "proc_fd p (put_fd a F' s) = Done (a, F')"
proof -
  have s: "fdmap F' = fdmap F" "uses F' = uses F" "tab_ok F'" "fd_refcnt F' = fd_refcnt F" using F' by (simp_all add: fd_same_def)
  show n: "nrefs (put_fd a F' s) = nrefs s" by (rule nrefs_same [OF fd_okD(1) [OF ok] F s(2)])
  have e: "s\<lparr>d_ftab := d_ftab s\<rparr> = s" by simp
  show "fd_ok ext (put_fd a F' s)"
    using put_fd_ok [OF ok F s(3,4), of "d_ftab s"] fd_okD(3) [OF ok] n e by simp
  have "dview s p = fdmap F'" using p F s(1) by (simp add: dview_def fun_eq_iff)
  then show "redirects p (dview s p) s (put_fd a F' s)" using put_fd_redirects [OF p, of "d_ftab s" F'] e by simp
  show "fdescs (put_fd a F' s) a = Some F'" "proc_fd p (put_fd a F' s) = Done (a, F')"
    using p by (simp_all add: put_fd_def proc_fd_def)
qed

lemma fdalloc_ok:
  assumes ok: "fd_ok ext s" and p: "d_fd s p = Some a" and F: "fdescs s a = Some F"
  shows "(case fdalloc p want s of
      Panic m \<Rightarrow> False
    | Fault \<Rightarrow> overruns (d_lim s p) want (fd_nfiles F) \<and> (\<forall>j. want \<le> j \<longrightarrow> j < fd_nfiles F \<longrightarrow> dview s p j \<noteq> None)
    | Done (r, s') \<Rightarrow> \<exists>F'. s' = put_fd a F' s \<and> fd_same F F' \<and>
       (case r of
          None \<Rightarrow> \<forall>j. want \<le> j \<longrightarrow> int j < d_lim s p \<longrightarrow> dview s p j \<noteq> None
        | Some i \<Rightarrow> want \<le> i \<and> int i < d_lim s p \<and> dview s p i = None \<and> (\<forall>j. want \<le> j \<longrightarrow> j < i \<longrightarrow> dview s p j \<noteq> None) \<and>
            i < fd_nfiles F' \<and> i \<le> fd_lastfile F' \<and>
            (fd_nfiles F' = fd_nfiles F \<or> int (fd_nfiles F) < d_lim s p \<and> (\<forall>j. want \<le> j \<longrightarrow> j < fd_nfiles F \<longrightarrow> dview s p j \<noteq> None))))"
proof -
  have v: "dview s p = fdmap F" using p F by (simp add: dview_def fun_eq_iff)
  have pf: "proc_fd p s = Done (a, F)" using p F by (simp add: proc_fd_def)
  have l: "d_lim s p \<le> 65536" using ok by (rule fd_okD(8))
  note S = fd_alloc_spec [OF fd_okD(4) [OF ok F] l, of want]
  show ?thesis
  proof (cases "fd_alloc (d_lim s p) want F")
    case (Done x)
    obtain r F' where x: "x = (r, F')" by (cases x)
    have "fdalloc p want s = Done (r, put_fd a F' s)" using pf Done x by (simp add: fdalloc_def)
    then show ?thesis using S unfolding Done x v by (cases r) (auto intro!: exI [of _ F'])
  qed (use S pf in \<open>simp_all add: fdalloc_def v\<close>)
qed

text \<open>Every descriptor of the table from \<open>want\<close> on is in use.\<close>

definition fd_full :: "dsys \<Rightarrow> nat \<Rightarrow> nat \<Rightarrow> nat \<Rightarrow> bool" where
  "fd_full s p want n \<longleftrightarrow> (\<forall>j. want \<le> j \<longrightarrow> j < n \<longrightarrow> dview s p j \<noteq> None)"

text \<open>A free descriptor is made to refer to an open file.\<close>

lemma fd_assign_ok:
  assumes ok: "fd_ok ext s" and p: "d_fd s p = Some a" and F: "fdescs s a = Some F"
    and i: "i < fd_nfiles F" "dview s p i = None" and f: "0 < nrefs s f" "nrefs s f < 32767"
  shows "\<exists>s'. fd_assign p i f fl s = Done s' \<and> fd_ok ext s' \<and> redirects p ((dview s p)(i \<mapsto> (f, fl))) s s'"
proof -
  have T: "tab_ok F" by (rule fd_okD(4) [OF ok F])
  have inv: "files_inv ext (nrefs s) (d_ftab s)" by (rule fd_okD(3) [OF ok])
  have v: "dview s p = fdmap F" using p F by (simp add: dview_def fun_eq_iff)
  have "files (d_ftab s) f \<noteq> None" by (rule files_invD(7) [OF inv f(1)])
  then obtain fi where fi: "files (d_ftab s) f = Some fi" by auto
  let ?F = "fd_point i f fl F" and ?t = "(d_ftab s)\<lparr>files := (files (d_ftab s))(f \<mapsto> fi\<lparr>f_count := int (Suc (nrefs s f))\<rparr>)\<rparr>"
  note P = fd_point_ok [OF T i(1), of f fl]
  have none: "open_file i F = None" using i(2) by (simp add: v fdmap_def)
  have nr: "nrefs (put_fd a ?F s) = (nrefs s)(f := Suc (nrefs s f))"
  proof
    fix g show "nrefs (put_fd a ?F s) g = ((nrefs s)(f := Suc (nrefs s f))) g"
      using nrefs_put [OF fd_okD(1) [OF ok] F, of ?F g] P(3) [of g] none by (auto split: if_splits)
  qed
  note H = fhold_law [OF inv fi f(2)]
  let ?s = "put_fd a ?F (s\<lparr>d_ftab := ?t\<rparr>)"
  have "fd_ok ext ?s" by (rule put_fd_ok [OF ok F P(1,4)]) (use H(2) nr in simp)
  moreover have "fd_assign p i f fl s = Done ?s" using p F H(1) by (simp add: fd_assign_def proc_fd_def)
  moreover have "redirects p (fdmap ?F) s ?s"
    by (rule put_fd_redirects [OF p]) (use fi in \<open>auto simp: fobj_def\<close>)
  ultimately show ?thesis using P(2) v by (intro exI [of _ ?s]) simp
qed

lemma dview_nrefs:
  assumes "fd_ok ext s" "dview s p i = Some (f, fl)"
  shows "0 < nrefs s f"
proof -
  obtain a F where aF: "d_fd s p = Some a" "fdescs s a = Some F" "fdmap F i = Some (f, fl)"
    using assms(2) by (auto simp: dview_def split: option.splits)
  have "open_file i F = Some f" using aF(3) by (simp add: fdmap_open)
  then have "0 < uses F f" by (rule uses_pos [OF _ fd_okD(4) [OF assms(1) aF(2)]])
  then show ?thesis by (rule nrefs_pos [OF fd_okD(1) [OF assms(1)] aF(2)])
qed

section \<open>The calls against partial maps\<close>

datatype fdcall = Dup nat | Dupfd nat nat | Dup2 nat nat | Close nat

fun fd_exec :: "(addr \<Rightarrow> int) \<Rightarrow> nat \<Rightarrow> fdcall \<Rightarrow> dsys \<Rightarrow> (int \<times> nat \<times> dsys) kres" where
  "fd_exec c p (Dup i) s = dup p i s"
| "fd_exec c p (Dupfd i arg) s = dupfd p i arg s"
| "fd_exec c p (Dup2 old new) s = dup2 c p old new s"
| "fd_exec c p (Close i) s = kmap (\<lambda>(e, s'). (e, 0, s')) (close c p i s)"

text \<open>The lowest free descriptor from \<open>want\<close> on, below the limit, refers to the file; or there is none.\<close>

definition dup_spec :: "int \<Rightarrow> nat \<Rightarrow> addr \<times> u8 \<Rightarrow> (nat \<Rightarrow> (addr \<times> u8) option) \<Rightarrow> int \<Rightarrow> nat \<Rightarrow> (nat \<Rightarrow> (addr \<times> u8) option) \<Rightarrow> bool" where
  "dup_spec lim want x D e r D' \<longleftrightarrow>
     (if e = 0 then want \<le> r \<and> int r < lim \<and> D r = None \<and> (\<forall>j. want \<le> j \<longrightarrow> j < r \<longrightarrow> D j \<noteq> None) \<and>
        D' = D(r \<mapsto> (fst x, snd x AND NOT UF_EXCLOSE))
      else e = EMFILE \<and> D' = D \<and> (\<forall>j. want \<le> j \<longrightarrow> int j < lim \<longrightarrow> D j \<noteq> None))"

fun fd_spec :: "int \<Rightarrow> fdcall \<Rightarrow> (nat \<Rightarrow> (addr \<times> u8) option) \<Rightarrow> int \<Rightarrow> nat \<Rightarrow> (nat \<Rightarrow> (addr \<times> u8) option) \<Rightarrow> bool" where
  "fd_spec lim (Dup i) D e r D' =
     (case D i of None \<Rightarrow> e = EBADF \<and> D' = D | Some x \<Rightarrow> dup_spec lim 0 x D e r D')"
| "fd_spec lim (Dupfd i arg) D e r D' =
     (case D i of None \<Rightarrow> e = EBADF \<and> D' = D
      | Some x \<Rightarrow> if lim \<le> int arg then e = EINVAL \<and> D' = D else dup_spec lim arg x D e r D')"
| "fd_spec lim (Dup2 old new) D e r D' =
     (case D old of None \<Rightarrow> e = EBADF \<and> D' = D
      | Some x \<Rightarrow> if lim \<le> int new then e = EBADF \<and> D' = D
                  else e = 0 \<and> r = new \<and> D' = (if old = new then D else D(new \<mapsto> (fst x, snd x AND NOT UF_EXCLOSE))))"
| "fd_spec lim (Close i) D e r D' =
     (case D i of None \<Rightarrow> e = EBADF \<and> D' = D | Some x \<Rightarrow> D' = D(i := None))"

lemma open_view: "d_fd s p = Some a \<Longrightarrow> fdescs s a = Some F \<Longrightarrow> open_file i F = map_option fst (dview s p i)"
  by (simp add: dview_def open_file_fdmap)

lemma as_unsigned_id: "0 \<le> l \<Longrightarrow> l \<le> 65536 \<Longrightarrow> as_unsigned l = nat l"
  by (simp add: as_unsigned_def unsigned_of_int take_bit_int_eq_self)

lemma dup_alloc:
  assumes ok: "fd_ok ext s" and p: "d_fd s p = Some a" and F: "fdescs s a = Some F"
    and i: "dview s p i = Some (f, fl)" and room: "nrefs s f < 32767"
  shows "(case fdalloc p want s of
      Panic m \<Rightarrow> False
    | Fault \<Rightarrow> overruns (d_lim s p) want (fd_nfiles F) \<and> fd_full s p want (fd_nfiles F)
    | Done (None, s1) \<Rightarrow> fd_ok ext s1 \<and> redirects p (dview s p) s s1 \<and> (\<forall>j. want \<le> j \<longrightarrow> int j < d_lim s p \<longrightarrow> dview s p j \<noteq> None)
    | Done (Some fd, s1) \<Rightarrow> \<exists>F1 s2. proc_fd p s1 = Done (a, F1) \<and> fd_assign p fd f (fd_ofileflags F1 ! i AND NOT UF_EXCLOSE) s1 = Done s2 \<and>
        fd_ok ext s2 \<and> redirects p ((dview s p)(fd \<mapsto> (f, fl AND NOT UF_EXCLOSE))) s s2 \<and>
        want \<le> fd \<and> int fd < d_lim s p \<and> dview s p fd = None \<and> (\<forall>j. want \<le> j \<longrightarrow> j < fd \<longrightarrow> dview s p j \<noteq> None) \<and>
        (fd_nfiles F1 = fd_nfiles F \<or> int (fd_nfiles F) < d_lim s p \<and> fd_full s p want (fd_nfiles F)))"
proof (cases "fdalloc p want s")
  case (Done x)
  obtain r s1 where x: "x = (r, s1)" by (cases x)
  obtain F' where F': "s1 = put_fd a F' s" "fd_same F F'" and r: "case r of
          None \<Rightarrow> \<forall>j. want \<le> j \<longrightarrow> int j < d_lim s p \<longrightarrow> dview s p j \<noteq> None
        | Some i \<Rightarrow> want \<le> i \<and> int i < d_lim s p \<and> dview s p i = None \<and> (\<forall>j. want \<le> j \<longrightarrow> j < i \<longrightarrow> dview s p j \<noteq> None) \<and>
            i < fd_nfiles F' \<and> i \<le> fd_lastfile F' \<and> (fd_nfiles F' = fd_nfiles F \<or> int (fd_nfiles F) < d_lim s p \<and> fd_full s p want (fd_nfiles F))"
    using fdalloc_ok [OF ok p F, of want] Done x unfolding fd_full_def by auto
  note S = same_put [OF ok p F F'(2), folded F'(1)]
  have p1: "d_fd s1 p = Some a" and v1: "dview s1 p = dview s p" using S(2) p by (simp_all add: redirects_def)
  have "fdmap F' i = dview s1 p i" using p1 S(4) by (simp add: dview_def)
  then have fl: "fd_ofileflags F' ! i = fl" using i v1 by (simp add: fdmap_open)
  show ?thesis
  proof (cases r)
    case None
    then show ?thesis using S r Done x by simp
  next
    case (Some fd)
    have "0 < nrefs s1 f" using dview_nrefs [OF ok i] S(3) by simp
    then obtain s2 where s2: "fd_assign p fd f (fl AND NOT UF_EXCLOSE) s1 = Done s2" "fd_ok ext s2"
      "redirects p ((dview s1 p)(fd \<mapsto> (f, fl AND NOT UF_EXCLOSE))) s1 s2"
      using fd_assign_ok [OF S(1) p1 S(4), of fd f "fl AND NOT UF_EXCLOSE"] r Some v1 room S(3) by auto
    have "redirects p ((dview s p)(fd \<mapsto> (f, fl AND NOT UF_EXCLOSE))) s s2"
      using redirects_trans [OF S(2) s2(3)] v1 by simp
    then show ?thesis using s2 S(5) fl r Some Done x by auto
  qed
qed (use fdalloc_ok [OF ok p F, of want] in \<open>simp_all add: fd_full_def\<close>)

text \<open>What a call promises: \<open>Q\<close> relates its results to the new map, and it faults only if \<open>flt\<close>.\<close>

definition fd_outcome :: "(addr \<Rightarrow> nat) \<Rightarrow> nat \<Rightarrow> dsys \<Rightarrow> bool \<Rightarrow> (int \<Rightarrow> nat \<Rightarrow> (nat \<Rightarrow> (addr \<times> u8) option) \<Rightarrow> bool) \<Rightarrow>
    (int \<times> nat \<times> dsys) kres \<Rightarrow> bool" where
  "fd_outcome ext p s flt Q r \<longleftrightarrow>
     (case r of
        Done (e, v, s') \<Rightarrow> fd_ok ext s' \<and> (\<exists>D'. Q e v D' \<and> redirects p D' s s')
      | Panic m \<Rightarrow> False
      | Fault \<Rightarrow> flt)"

lemma fd_outcomeI:
  "fd_ok ext s' \<Longrightarrow> Q e v D' \<Longrightarrow> redirects p D' s s' \<Longrightarrow> fd_outcome ext p s flt Q (Done (e, v, s'))"
  by (auto simp: fd_outcome_def)

lemma fd_outcome_same: "fd_ok ext s \<Longrightarrow> Q e v (dview s p) \<Longrightarrow> fd_outcome ext p s flt Q (Done (e, v, s))"
  by (rule fd_outcomeI [OF _ _ redirects_refl])

lemma fd_outcome_Fault: "flt \<Longrightarrow> fd_outcome ext p s flt Q Fault"
  by (simp add: fd_outcome_def)

text \<open>The tail that \<open>dup\<close> and \<open>F_DUPFD\<close> share; \<open>stale\<close> is a test on the table after the allocation.\<close>

lemma dup_tail:
  assumes ok: "fd_ok ext s" and p: "d_fd s p = Some a" and F: "fdescs s a = Some F" and i: "dview s p i = Some x"
    and room: "\<forall>f. nrefs s f < 32767" and flt: "overruns (d_lim s p) want (fd_nfiles F) \<Longrightarrow> fd_full s p want (fd_nfiles F) \<Longrightarrow> flt"
      "\<And>G. stale G \<Longrightarrow> fd_nfiles G = fd_nfiles F \<or> int (fd_nfiles F) < d_lim s p \<and> fd_full s p want (fd_nfiles F) \<Longrightarrow> flt"
  shows "fd_outcome ext p s flt (dup_spec (d_lim s p) want x (dview s p))
    (kbind (fdalloc p want s) (\<lambda>(r, s1). case r of None \<Rightarrow> Done (EMFILE, 0, s1)
        | Some fd \<Rightarrow> kbind (proc_fd p s1) (\<lambda>(b, G). if stale G then Fault
            else kmap (\<lambda>s2. (0, fd, s2)) (fd_assign p fd (fst x) (fd_ofileflags G ! i AND NOT UF_EXCLOSE) s1))))"
proof -
  obtain f fl where x: "x = (f, fl)" by (cases x)
  note A = dup_alloc [OF ok p F i [unfolded x] spec [OF room], of want]
  show ?thesis
  proof (cases "fdalloc p want s")
    case (Done y)
    obtain r s1 where y: "y = (r, s1)" by (cases y)
    show ?thesis
    proof (cases r)
      case None
      have "fd_outcome ext p s flt (dup_spec (d_lim s p) want x (dview s p)) (Done (EMFILE, 0, s1))"
        by (rule fd_outcomeI [where D' = "dview s p"]) (use A Done y None in \<open>auto simp: dup_spec_def EMFILE_def\<close>)
      then show ?thesis using Done y None by simp
    next
      case (Some fd)
      with A Done y obtain F1 s2 where w: "proc_fd p s1 = Done (a, F1)" "fd_assign p fd f (fd_ofileflags F1 ! i AND NOT UF_EXCLOSE) s1 = Done s2"
        "fd_ok ext s2" "redirects p ((dview s p)(fd \<mapsto> (f, fl AND NOT UF_EXCLOSE))) s s2"
        "want \<le> fd" "int fd < d_lim s p" "dview s p fd = None" "\<forall>j. want \<le> j \<longrightarrow> j < fd \<longrightarrow> dview s p j \<noteq> None"
        "fd_nfiles F1 = fd_nfiles F \<or> int (fd_nfiles F) < d_lim s p \<and> fd_full s p want (fd_nfiles F)" by auto
      have "fd_outcome ext p s flt (dup_spec (d_lim s p) want x (dview s p)) (Done (0, fd, s2))"
        by (rule fd_outcomeI [OF w(3) _ w(4)]) (use w x in \<open>simp add: dup_spec_def\<close>)
      then show ?thesis using Done y Some w(1,2) x flt(2) [OF _ w(9)] by (auto intro: fd_outcome_Fault)
    qed
  qed (use A flt in \<open>auto intro: fd_outcome_Fault\<close>)
qed

lemma dup_refines:
  assumes ok: "fd_ok ext s" and p: "d_fd s p = Some a" and F: "fdescs s a = Some F" and room: "\<forall>f. nrefs s f < 32767"
  shows "fd_outcome ext p s (overruns (d_lim s p) 0 (fd_nfiles F) \<and> fd_full s p 0 (fd_nfiles F))
    (fd_spec (d_lim s p) (Dup i) (dview s p)) (dup p i s)"
proof -
  have pf: "proc_fd p s = Done (a, F)" using p F by (simp add: proc_fd_def)
  note o = open_view [OF p F, of i]
  show ?thesis
  proof (cases "dview s p i")
    case None
    then show ?thesis using pf o fd_outcome_same [OF ok] by (simp add: dup_def)
  next
    case (Some x)
    have "dup p i s = kbind (fdalloc p 0 s) (\<lambda>(r, s1). case r of None \<Rightarrow> Done (EMFILE, 0, s1)
        | Some fd \<Rightarrow> kbind (proc_fd p s1) (\<lambda>(b, G). if False then Fault
            else kmap (\<lambda>s2. (0, fd, s2)) (fd_assign p fd (fst x) (fd_ofileflags G ! i AND NOT UF_EXCLOSE) s1)))"
      using pf o Some by (simp add: dup_def cong: option.case_cong)
    moreover have "fd_spec (d_lim s p) (Dup i) (dview s p) = dup_spec (d_lim s p) 0 x (dview s p)"
      using Some by (simp add: fun_eq_iff)
    ultimately show ?thesis
      using dup_tail [OF ok p F Some room, of 0 "overruns (d_lim s p) 0 (fd_nfiles F) \<and> fd_full s p 0 (fd_nfiles F)" "\<lambda>_. False"] by simp
  qed
qed

lemma dupfd_refines:
  assumes ok: "fd_ok ext s" and p: "d_fd s p = Some a" and F: "fdescs s a = Some F" and room: "\<forall>f. nrefs s f < 32767"
  shows "fd_outcome ext p s ((overruns (d_lim s p) arg (fd_nfiles F) \<or> NDFILE < fd_nfiles F \<and> int (fd_nfiles F) < d_lim s p) \<and> fd_full s p arg (fd_nfiles F))
    (fd_spec (d_lim s p) (Dupfd i arg) (dview s p)) (dupfd p i arg s)"
proof -
  have pf: "proc_fd p s = Done (a, F)" using p F by (simp add: proc_fd_def)
  note o = open_view [OF p F, of i]
  have l: "as_unsigned (d_lim s p) \<le> arg \<longleftrightarrow> d_lim s p \<le> int arg"
    using as_unsigned_id [of "d_lim s p"] fd_okD(7,8) [OF ok, of p] by simp linarith
  show ?thesis
  proof (cases "dview s p i")
    case None
    then show ?thesis using pf o fd_outcome_same [OF ok] by (simp add: dupfd_def)
  next
    case (Some x)
    show ?thesis
    proof (cases "d_lim s p \<le> int arg")
      case True
      then show ?thesis using Some pf o l fd_outcome_same [OF ok] by (simp add: dupfd_def)
    next
      case False
      have "dupfd p i arg s = kbind (fdalloc p arg s) (\<lambda>(r, s1). case r of None \<Rightarrow> Done (EMFILE, 0, s1)
        | Some fd \<Rightarrow> kbind (proc_fd p s1) (\<lambda>(b, G). if NDFILE < fd_nfiles F \<and> fd_nfiles G \<noteq> fd_nfiles F then Fault
            else kmap (\<lambda>s2. (0, fd, s2)) (fd_assign p fd (fst x) (fd_ofileflags G ! i AND NOT UF_EXCLOSE) s1)))"
        using pf o Some False l by (simp add: dupfd_def)
      moreover have "fd_spec (d_lim s p) (Dupfd i arg) (dview s p) = dup_spec (d_lim s p) arg x (dview s p)"
        using Some False by (simp add: fun_eq_iff)
      ultimately show ?thesis
        using dup_tail [OF ok p F Some room, of arg "(overruns (d_lim s p) arg (fd_nfiles F) \<or> NDFILE < fd_nfiles F \<and> int (fd_nfiles F) < d_lim s p) \<and> fd_full s p arg (fd_nfiles F)"
            "\<lambda>G. NDFILE < fd_nfiles F \<and> fd_nfiles G \<noteq> fd_nfiles F"] by auto
    qed
  qed
qed

text \<open>Two descriptors of a table that refer to the same file.\<close>

lemma uses_two:
  assumes "tab_ok F" "open_file i F = Some f" "open_file j F = Some f" "i \<noteq> j"
  shows "1 < uses F f"
proof -
  have i: "i < fd_nfiles F" and j: "j < fd_nfiles F" using assms(2,3) by (auto simp: open_file_def split: if_splits)
  have "open_file i (fd_clear j F) = Some f"
    using assms(2,4) i by (simp add: open_file_def fd_clear_def)
  then have "0 < uses (fd_clear j F) f" by (rule uses_pos) (rule fd_clear_ok(1) [OF assms(1) j])
  then show ?thesis using fd_clear_ok(3) [OF assms(1) j, of f] assms(3) by simp
qed

text \<open>A descriptor is closed, as far as the files and the table go.\<close>

lemma close_entry:
  assumes ok: "fd_ok ext s" and p: "d_fd s p = Some a" and F: "fdescs s a = Some F" and i: "open_file i F = Some g"
  shows "\<exists>e t. closef c adv (Some g) (fd_mapped F i (d_ftab s)) = Done (e, t) \<and>
    files_inv ext ((nrefs s)(g := nrefs s g - 1)) t \<and> (\<forall>f. files t f \<noteq> None \<longrightarrow> fobj (s\<lparr>d_ftab := t\<rparr>) f = fobj s f)"
proof -
  have T: "tab_ok F" by (rule fd_okD(4) [OF ok F])
  have inv: "files_inv ext (nrefs s) (fd_mapped F i (d_ftab s))" using fd_okD(3) [OF ok] by simp
  have "0 < nrefs s g" by (rule nrefs_pos [OF fd_okD(1) [OF ok] F uses_pos [OF i T]])
  then have "files (d_ftab s) g \<noteq> None" by (rule files_invD(7) [OF fd_okD(3) [OF ok]])
  then obtain gi where gi: "files (d_ftab s) g = Some gi" by auto
  then obtain t where t: "closef c adv (Some g) (fd_mapped F i (d_ftab s)) = Done (if nrefs s g = 1 then c g else 0, t)"
    "files_inv ext ((nrefs s)(g := nrefs s g - 1)) t"
    "files t = (files (d_ftab s))(g := if nrefs s g = 1 then None else Some (gi\<lparr>f_count := int (nrefs s g - 1)\<rparr>))"
    using closef_law [OF inv, of g gi c adv] by auto
  have "\<forall>f. files t f \<noteq> None \<longrightarrow> fobj (s\<lparr>d_ftab := t\<rparr>) f = fobj s f"
    using gi by (auto simp: fobj_def t(3) split: if_splits)
  then show ?thesis using t by blast
qed

lemma nrefs_fun:
  assumes "finite (dom (fdescs s))" "fdescs s a = Some F" "\<And>f. R f + uses F f = nrefs s f + uses F' f"
  shows "nrefs (put_fd a F' s) = R"
proof
  fix f show "nrefs (put_fd a F' s) f = R f" using nrefs_put [OF assms(1,2), of F' f] assms(3) [of f] by simp
qed

lemma close_refines:
  assumes ok: "fd_ok ext s" and p: "d_fd s p = Some a" and F: "fdescs s a = Some F"
  shows "fd_outcome ext p s False (fd_spec (d_lim s p) (Close i) (dview s p)) (fd_exec c p (Close i) s)"
proof -
  have pf: "proc_fd p s = Done (a, F)" using p F by (simp add: proc_fd_def)
  have T: "tab_ok F" by (rule fd_okD(4) [OF ok F])
  have v: "dview s p = fdmap F" using p F by (simp add: dview_def fun_eq_iff)
  note o = open_view [OF p F, of i]
  show ?thesis
  proof (cases "dview s p i")
    case None
    then show ?thesis using pf o fd_outcome_same [OF ok] by (simp add: close_def)
  next
    case (Some x)
    obtain g fl where x: "x = (g, fl)" by (cases x)
    have g: "open_file i F = Some g" using o Some x by simp
    then have i: "i < fd_nfiles F" by (auto simp: open_file_def split: if_splits)
    obtain e t where t: "closef c (p_sadvlck s p) (Some g) (fd_mapped F i (d_ftab s)) = Done (e, t)"
      "files_inv ext ((nrefs s)(g := nrefs s g - 1)) t" "\<forall>f. files t f \<noteq> None \<longrightarrow> fobj (s\<lparr>d_ftab := t\<rparr>) f = fobj s f"
      using close_entry [OF ok p F g] by blast
    note C = fd_clear_ok [OF T i]
    note L = fd_lower_ok [OF C(1)]
    let ?F = "fd_lower (fd_clear i F)"
    have pos: "0 < nrefs s g" "0 < uses F g"
      using nrefs_pos [OF fd_okD(1) [OF ok] F uses_pos [OF g T]] uses_pos [OF g T] by simp_all
    have n: "nrefs (put_fd a ?F s) = (nrefs s)(g := nrefs s g - 1)"
    proof (rule nrefs_fun [OF fd_okD(1) [OF ok] F])
      fix f show "((nrefs s)(g := nrefs s g - 1)) f + uses F f = nrefs s f + uses ?F f"
        using C(3) [of f] g pos by (auto simp: L(3) split: if_splits)
    qed
    have "close c p i s = Done (e, put_fd a ?F (s\<lparr>d_ftab := t\<rparr>))"
      using pf g t(1) by (simp add: close_def fd_lower_def Let_def)
    moreover have "fd_ok ext (put_fd a ?F (s\<lparr>d_ftab := t\<rparr>))"
      by (rule put_fd_ok [OF ok F L(1)]) (use L(4) C(4) n t(2) in simp_all)
    moreover have "redirects p (fdmap ?F) s (put_fd a ?F (s\<lparr>d_ftab := t\<rparr>))" by (rule put_fd_redirects [OF p t(3)])
    ultimately show ?thesis using Some x by (auto intro!: fd_outcomeI simp: L(2) C(2) v)
  qed
qed

text \<open>An open descriptor is closed and made to refer to \<open>f\<close>.\<close>

lemma replace_entry:
  assumes ok: "fd_ok ext s" and p: "d_fd s p = Some a" and F: "fdescs s a = Some F" and room: "\<forall>f. nrefs s f < 32767"
    and j: "open_file old F = Some f" and i: "open_file new F = Some g" "new \<noteq> old"
  shows "\<exists>t s'. closef c adv (Some g) (fd_mapped F new (d_ftab s)) = Done t \<and>
    fd_assign p new f fl (s\<lparr>d_ftab := snd t\<rparr>) = Done s' \<and> fd_ok ext s' \<and> redirects p ((dview s p)(new \<mapsto> (f, fl))) s s'"
proof -
  have T: "tab_ok F" by (rule fd_okD(4) [OF ok F])
  have v: "dview s p = fdmap F" using p F by (simp add: dview_def fun_eq_iff)
  have i': "new < fd_nfiles F" using i by (auto simp: open_file_def split: if_splits)
  obtain e t where t: "closef c adv (Some g) (fd_mapped F new (d_ftab s)) = Done (e, t)"
    "files_inv ext ((nrefs s)(g := nrefs s g - 1)) t" "\<forall>f. files t f \<noteq> None \<longrightarrow> fobj (s\<lparr>d_ftab := t\<rparr>) f = fobj s f"
    using close_entry [OF ok p F i(1)] by blast
  let ?R = "(nrefs s)(g := nrefs s g - 1)" and ?F = "fd_point new f fl F"
  have pos: "0 < nrefs s f" "0 < nrefs s g"
    using nrefs_pos [OF fd_okD(1) [OF ok] F uses_pos [OF j T]] nrefs_pos [OF fd_okD(1) [OF ok] F uses_pos [OF i(1) T]] by simp_all
  have "1 < nrefs s f" if fg: "f = g"
  proof -
    have "1 < uses F f" using uses_two [OF T j _ i(2) [symmetric]] i(1) fg by simp
    moreover have "uses F f \<le> nrefs s f"
      unfolding nrefs_def using member_le_sum [of a "dom (fdescs s)" "\<lambda>a. uses (the (fdescs s a)) f"] F fd_okD(1) [OF ok] by auto
    ultimately show ?thesis by simp
  qed
  then have R: "0 < ?R f" "?R f < 32767" using pos room by (auto simp: less_imp_diff_less)
  have "files t f \<noteq> None" by (rule files_invD(7) [OF t(2) R(1)])
  then obtain fi where fi: "files t f = Some fi" by auto
  note H = fhold_law [OF t(2) fi R(2)]
  let ?t = "t\<lparr>files := (files t)(f \<mapsto> fi\<lparr>f_count := int (Suc (?R f))\<rparr>)\<rparr>"
  note P = fd_point_ok [OF T i', of f fl]
  have n: "nrefs (put_fd a ?F s) = ?R(f := Suc (?R f))"
  proof (rule nrefs_fun [OF fd_okD(1) [OF ok] F])
    fix h show "(?R(f := Suc (?R f))) h + uses F h = nrefs s h + uses ?F h"
      using P(3) [of h] i(1) pos by (auto split: if_splits)
  qed
  let ?s = "put_fd a ?F (s\<lparr>d_ftab := ?t\<rparr>)"
  have "fd_assign p new f fl (s\<lparr>d_ftab := t\<rparr>) = Done ?s"
    using p F H(1) by (simp add: fd_assign_def proc_fd_def put_fd_def)
  moreover have "files_inv ext (nrefs (put_fd a ?F s)) ?t" unfolding n by (rule H(2))
  then have "fd_ok ext ?s" by (rule put_fd_ok [OF ok F P(1,4)])
  moreover have "redirects p (fdmap ?F) s ?s"
    by (rule put_fd_redirects [OF p]) (use t(3) fi in \<open>auto simp: fobj_def\<close>)
  ultimately show ?thesis using t(1) P(2) v by (intro exI [of _ "(e, t)"] exI [of _ ?s]) simp
qed

lemma dup2_refines:
  assumes ok: "fd_ok ext s" and p: "d_fd s p = Some a" and F: "fdescs s a = Some F" and room: "\<forall>f. nrefs s f < 32767"
  shows "fd_outcome ext p s (overruns (d_lim s p) new (fd_nfiles F) \<and> fd_full s p new (fd_nfiles F)) (fd_spec (d_lim s p) (Dup2 old new) (dview s p)) (dup2 c p old new s)"
proof -
  have pf: "proc_fd p s = Done (a, F)" using p F by (simp add: proc_fd_def)
  have T: "tab_ok F" by (rule fd_okD(4) [OF ok F])
  note o = open_view [OF p F]
  have l: "as_unsigned (d_lim s p) \<le> new \<longleftrightarrow> d_lim s p \<le> int new"
    using as_unsigned_id [of "d_lim s p"] fd_okD(7,8) [OF ok, of p] by simp linarith
  show ?thesis
  proof (cases "dview s p old")
    case None
    then show ?thesis using pf o fd_outcome_same [OF ok] by (simp add: dup2_def)
  next
    case (Some x)
    obtain f fl where x: "x = (f, fl)" by (cases x)
    have f: "open_file old F = Some f" using o Some x by simp
    have v: "dview s p = fdmap F" using p F by (simp add: dview_def fun_eq_iff)
    have fl: "fd_ofileflags F ! old = fl" using Some x v by (simp add: fdmap_open)
    show ?thesis
    proof (cases "d_lim s p \<le> int new \<or> old = new")
      case True
      then show ?thesis using Some pf f l fd_outcome_same [OF ok] by (auto simp: dup2_def)
    next
      case False
      then have sp: "fd_spec (d_lim s p) (Dup2 old new) (dview s p) 0 new ((dview s p)(new \<mapsto> (f, fl AND NOT UF_EXCLOSE)))"
        using Some x by simp
      have nl: "\<not> as_unsigned (d_lim s p) \<le> new" "old \<noteq> new" using False l by simp_all
      have ret: ?thesis if "dup2 c p old new s = Done (0, new, s')" "fd_ok ext s'"
        "redirects p ((dview s p)(new \<mapsto> (f, fl AND NOT UF_EXCLOSE))) s s'" for s'
        unfolding that(1) by (rule fd_outcomeI) (fact that(2), fact sp, fact that(3))
      show ?thesis
      proof (cases "fd_nfiles F \<le> new")
        case True
        have free: "dview s p new = None" using True by (simp add: v fdmap_None)
        note A = dup_alloc [OF ok p F Some [unfolded x] spec [OF room], of new]
        show ?thesis
        proof (cases "fdalloc p new s")
          case (Done y)
          obtain r s1 where y: "y = (r, s1)" by (cases y)
          have "r \<noteq> None"
          proof
            assume "r = None"
            then have "\<forall>j. new \<le> j \<longrightarrow> int j < d_lim s p \<longrightarrow> dview s p j \<noteq> None" using A Done y by simp
            then show False using free False by (meson le_refl not_le)
          qed
          then obtain fd where r: "r = Some fd" by auto
          with A Done y obtain F1 s2 where w: "proc_fd p s1 = Done (a, F1)"
            "fd_assign p fd f (fd_ofileflags F1 ! old AND NOT UF_EXCLOSE) s1 = Done s2" "fd_ok ext s2"
            "redirects p ((dview s p)(fd \<mapsto> (f, fl AND NOT UF_EXCLOSE))) s s2" "new \<le> fd"
            "\<forall>j. new \<le> j \<longrightarrow> j < fd \<longrightarrow> dview s p j \<noteq> None" by auto
          have "fd = new" using w(5,6) free by (metis le_neq_implies_less le_refl)
          then show ?thesis using ret [OF _ w(3)] w(1,2,4) pf f nl True Done y r by (simp add: dup2_def)
        next
          case (Panic m)
          then show ?thesis using A by simp
        next
          case Fault
          then show ?thesis using A pf f nl True by (simp add: dup2_def fd_outcome_Fault)
        qed
      next
        case n: False
        show ?thesis
        proof (cases "dview s p new")
          case None
          have none: "fd_ofiles F ! new = None" using None n by (simp add: v fdmap_None)
          have nl': "new < fd_nfiles F" using n by simp
          obtain s' where s': "fd_assign p new f (fl AND NOT UF_EXCLOSE) s = Done s'" "fd_ok ext s'"
            "redirects p ((dview s p)(new \<mapsto> (f, fl AND NOT UF_EXCLOSE))) s s'"
            using fd_assign_ok [OF ok p F nl' None, of f] dview_nrefs [OF ok Some [unfolded x]] room by blast
          show ?thesis by (rule ret [OF _ s'(2,3)]) (use pf f nl n none fl s'(1) in \<open>simp add: dup2_def\<close>)
        next
          case (Some z)
          obtain g gl where z: "z = (g, gl)" by (cases z)
          have g: "open_file new F = Some g" using o Some z by simp
          then have g': "fd_ofiles F ! new = Some g" by (simp add: open_file_def split: if_splits)
          obtain t s' where ts: "closef c (p_sadvlck s p) (Some g) (fd_mapped F new (d_ftab s)) = Done t"
            "fd_assign p new f (fl AND NOT UF_EXCLOSE) (s\<lparr>d_ftab := snd t\<rparr>) = Done s'" "fd_ok ext s'"
            "redirects p ((dview s p)(new \<mapsto> (f, fl AND NOT UF_EXCLOSE))) s s'"
            using replace_entry [OF ok p F room f g nl(2) [symmetric]] by blast
          have pf1: "proc_fd p (s\<lparr>d_ftab := snd t\<rparr>) = Done (a, F)" using p F by (simp add: proc_fd_def)
          show ?thesis
            by (rule ret [OF _ ts(3,4)])
              (use pf f nl n g' fl ts(1,2) pf1 in \<open>simp add: dup2_def case_prod_beta\<close>)
        qed
      qed
    qed
  qed
qed

text \<open>The first descriptor that a call may allocate.\<close>

fun fd_want :: "fdcall \<Rightarrow> nat" where
  "fd_want (Dup i) = 0"
| "fd_want (Dupfd i arg) = arg"
| "fd_want (Dup2 old new) = new"
| "fd_want (Close i) = 0"

lemma fd_calls_ok:
  assumes "fd_ok ext s" "d_fd s p = Some a" "fdescs s a = Some F" "\<forall>f. nrefs s f < 32767"
  shows "case fd_exec c p call s of
      Done (e, r, s') \<Rightarrow> fd_ok ext s' \<and> (\<exists>D'. fd_spec (d_lim s p) call (dview s p) e r D' \<and> redirects p D' s s')
    | Panic m \<Rightarrow> False
    | Fault \<Rightarrow> fd_full s p (fd_want call) (fd_nfiles F) \<and>
        (overruns (d_lim s p) (fd_want call) (fd_nfiles F) \<or>
         (\<exists>i arg. call = Dupfd i arg) \<and> NDFILE < fd_nfiles F \<and> int (fd_nfiles F) < d_lim s p)"
proof -
  let ?flt = "fd_full s p (fd_want call) (fd_nfiles F) \<and>
        (overruns (d_lim s p) (fd_want call) (fd_nfiles F) \<or>
         (\<exists>i arg. call = Dupfd i arg) \<and> NDFILE < fd_nfiles F \<and> int (fd_nfiles F) < d_lim s p)"
  have w: "fd_outcome ext p s f2 Q r" if "fd_outcome ext p s f1 Q r" "f1 \<Longrightarrow> f2" for f1 f2 Q r
    using that unfolding fd_outcome_def by (auto split: kres.splits)
  have "fd_outcome ext p s ?flt (fd_spec (d_lim s p) call (dview s p)) (fd_exec c p call s)"
  proof (cases call)
    case (Dup i)
    then show ?thesis using w [OF dup_refines [OF assms]] by auto
  next
    case (Dupfd i arg)
    then show ?thesis using w [OF dupfd_refines [OF assms]] by auto
  next
    case (Dup2 old new)
    then show ?thesis using w [OF dup2_refines [OF assms]] by auto
  next
    case (Close i)
    show ?thesis unfolding Close by (rule w [OF close_refines [OF assms(1-3)]]) simp
  qed
  then show ?thesis unfolding fd_outcome_def .
qed

text \<open>
  C10: every descriptor call of a process with a table refines its effect on a partial map from
  descriptors to open files: the lowest free descriptor is taken, the file shared and the close-on-exec
  flag cleared, the other processes see nothing, files live exactly as long as they are referred to, and
  the counts stay exact (no file has 32767 references, where its count would overflow).  A call faults
  only when the table is full from the first descriptor it may take, and then only in two cases: the
  expansions that lead to that descriptor end with a table whose double is not below the limit, so that
  the new arrays are overrun (\<open>overruns\<close>); or it is \<open>F_DUPFD\<close> and expands a table that is not the
  initial one, whose old arrays it reads after they have been freed.
\<close>

theorem fd_calls_refine:
  assumes "fd_ok ext s" "d_fd s p = Some a" "fdescs s a = Some F" "\<forall>f. nrefs s f < 32767"
  shows "case fd_exec c p call s of
      Done (e, r, s') \<Rightarrow> fd_ok ext s' \<and> (\<exists>D'. fd_spec (d_lim s p) call (dview s p) e r D' \<and> redirects p D' s s')
    | Panic m \<Rightarrow> False
    | Fault \<Rightarrow> fd_full s p (fd_want call) (fd_nfiles F) \<and>
        (overruns (d_lim s p) (fd_want call) (fd_nfiles F) \<or>
         (\<exists>i arg. call = Dupfd i arg) \<and> NDFILE < fd_nfiles F \<and> int (fd_nfiles F) < d_lim s p)"
  using assms by (rule fd_calls_ok)

end
