(* ===== verification/Filedesc_Ops.thy ===== *)
theory Filedesc_Ops
  imports Filedesc_Props
begin

unbundle bit_operations_syntax

text \<open>
  Descriptor tables as a whole: counting, opening, copying at \<open>fork\<close>, releasing at \<open>exit\<close> and closing
  at \<open>exec\<close>; and the two inputs on which the code overruns or truncates a table.
\<close>

lemma dview_ftab [simp]: "dview (s\<lparr>d_ftab := t\<rparr>) = dview s"
  by (simp add: dview_def fun_eq_iff cong: option.case_cong)

section \<open>Counting free descriptors\<close>

lemma fd_count_iff: "0 < n \<Longrightarrow> fd_count xs n \<longleftrightarrow> n \<le> int (count_list xs None)"
proof (induction xs arbitrary: n)
  case (Cons x xs)
  have "1 < n \<Longrightarrow> fd_count xs (n - 1) \<longleftrightarrow> n - 1 \<le> int (count_list xs None)" by (rule Cons.IH) simp
  then show ?case using Cons by (cases "n = 1") auto
qed simp

lemma count_list_card: "count_list xs x = card {i. i < length xs \<and> xs ! i = x}"
  using length_filter_conv_card [of "(=) x" xs] by (simp add: count_list_eq_length_filter eq_commute)

text \<open>
  \<open>fdavail\<close> tells whether the process can open \<open>n\<close> more descriptors: the unused ones of its table
  with those the table could still be expanded by.
\<close>

theorem fdavail_counts:
  assumes "fd_ok ext s" "d_fd s p = Some a" "fdescs s a = Some F" "0 < n"
  shows "fdavail p n s = Done (n \<le> max 0 (d_lim s p - int (fd_nfiles F)) + int (card {i. i < fd_nfiles F \<and> dview s p i = None}))"
proof -
  have T: "tab_ok F" by (rule fd_okD(4) [OF assms(1,3)])
  have pf: "proc_fd p s = Done (a, F)" using assms(2,3) by (simp add: proc_fd_def)
  have v: "dview s p = fdmap F" using assms(2,3) by (simp add: dview_def fun_eq_iff)
  let ?xs = "fd_ofiles F" and ?k = "fd_freefile F" and ?i = "d_lim s p - int (fd_nfiles F)"
  have "count_list (take ?k ?xs) None = 0"
    using tab_okD(1,6,8) [OF T] by (auto simp: count_list_0_iff in_set_conv_nth)
  then have "count_list (drop ?k ?xs) None = count_list ?xs None"
    using count_list_append [of "take ?k ?xs" "drop ?k ?xs" None] by simp
  moreover have "count_list ?xs None = card {i. i < fd_nfiles F \<and> dview s p i = None}"
    unfolding count_list_card v tab_okD(1) [OF T] by (rule arg_cong [where f = card]) (auto simp: fdmap_None)
  ultimately have c: "int (count_list (drop ?k ?xs) None) = int (card {i. i < fd_nfiles F \<and> dview s p i = None})" by simp
  show ?thesis
  proof (cases "0 < ?i \<and> n - ?i \<le> 0")
    case True
    then show ?thesis using pf by (simp add: fdavail_def)
  next
    case False
    let ?m = "if 0 < ?i then n - ?i else n"
    have "0 < ?m" using False assms(4) by auto
    then have "fd_count (drop ?k ?xs) ?m \<longleftrightarrow> ?m \<le> int (count_list (drop ?k ?xs) None)" by (rule fd_count_iff)
    then show ?thesis using pf False c by (auto simp: fdavail_def Let_def)
  qed
qed

section \<open>Opening a file\<close>

lemma set_link_after: "q \<in> set xs \<Longrightarrow> set (link_after q f xs) = insert f (set xs)"
  by (induction xs) auto

lemma length_link_after: "q \<in> set xs \<Longrightarrow> length (link_after q f xs) = Suc (length xs)"
  by (induction xs) auto

lemma distinct_link_after: "distinct xs \<Longrightarrow> f \<notin> set xs \<Longrightarrow> distinct (link_after q f xs)"
proof (induction xs)
  case (Cons x xs)
  have "set (link_after q f xs) \<subseteq> insert f (set xs)" by (induction xs) auto
  then show ?case using Cons by auto
qed simp

text \<open>A new file enters the table of open files with the credentials \<open>u\<close>.\<close>

definition filed :: "addr \<Rightarrow> openfile \<Rightarrow> addr list \<Rightarrow> csys \<Rightarrow> ftab \<Rightarrow> ftab" where
  "filed fa fi hds c t = t\<lparr>nfiles := nfiles t + 1, f_creds := c, filehead := hds, files := (files t)(fa \<mapsto> fi)\<rparr>"

lemma filed_inv:
  assumes inv: "files_inv ext R t" and fa: "files t fa = None" and fi: "f_count fi = 1"
    and hd3: "distinct hds" "set hds = insert fa (set (filehead t))" "length hds = Suc (length (filehead t))"
    and c: "cred_inv ((\<lambda>u. ext u + fcreds t u)(f_cred fi := Suc (ext (f_cred fi) + fcreds t (f_cred fi)))) c"
  shows "files_inv ext (R(fa := 1)) (filed fa fi hds c t)"
proof -
  note I = files_invD [OF inv]
  let ?F = "\<lambda>u. {g. \<exists>gi. files t g = Some gi \<and> f_cred gi = u}"
  have fin: "finite (?F u)" for u by (rule finite_subset [OF _ I(9)]) auto
  have eq: "{g. \<exists>gi. files (filed fa fi hds c t) g = Some gi \<and> f_cred gi = u} = (if u = f_cred fi then insert fa (?F u) else ?F u)" for u
    using fa by (auto simp: filed_def)
  then have "fcreds (filed fa fi hds c t) u = (if u = f_cred fi then Suc (fcreds t u) else fcreds t u)" for u
  proof -
    have "fa \<notin> ?F u" using fa by simp
    then show ?thesis using card_insert_disjoint [OF fin [of u], of fa] unfolding fcreds_def eq [of u] by (cases "u = f_cred fi") simp_all
  qed
  then have "(\<lambda>u. ext u + fcreds (filed fa fi hds c t) u) =
      (\<lambda>u. ext u + fcreds t u)(f_cred fi := Suc (ext (f_cred fi) + fcreds t (f_cred fi)))"
    by (auto simp: fun_eq_iff)
  then have "cred_inv (\<lambda>u. ext u + fcreds (filed fa fi hds c t) u) (f_creds (filed fa fi hds c t))" using c by (simp add: filed_def)
  then show ?thesis using inv fa fi hd3 unfolding files_inv_def by (auto simp: filed_def)
qed

definition newfile :: "openfile \<Rightarrow> addr \<Rightarrow> openfile" where
  "newfile mem u = mem\<lparr>f_count := 1, f_msgcount := 0, f_offset := 0, f_cred := u\<rparr>"

lemma falloc_new:
  assumes ok: "fd_ok ext s" and p: "d_fd s p = Some a" and F: "fdescs s a = Some F"
    and i: "i < fd_nfiles F" "i \<le> fd_lastfile F" "open_file i F = None" and fa: "files (d_ftab s) fa = None"
    and pc: "get_pcred p (f_creds (d_ftab s)) = Done (b, pc)" and room: "0 < cr_room (f_creds (d_ftab s)) (pc_ucred pc)"
    and hds: "hds = (case fd_ofiles F ! 0 of None \<Rightarrow> fa # filehead (d_ftab s) | Some q \<Rightarrow> link_after q fa (filehead (d_ftab s)))"
  shows "\<exists>c. crhold (pc_ucred pc) (f_creds (d_ftab s)) = Done c \<and>
    fd_ok ext (put_fd a (F\<lparr>fd_ofiles := (fd_ofiles F)[i := Some fa]\<rparr>)
      (s\<lparr>d_ftab := filed fa (newfile mem (pc_ucred pc)) hds c (d_ftab s)\<rparr>))"
proof -
  have T: "tab_ok F" by (rule fd_okD(4) [OF ok F])
  have inv: "files_inv ext (nrefs s) (d_ftab s)" by (rule fd_okD(3) [OF ok])
  note I = files_invD [OF inv]
  let ?F = "F\<lparr>fd_ofiles := (fd_ofiles F)[i := Some fa]\<rparr>" and ?u = "pc_ucred pc"
  have "?F = fd_point i fa (fd_ofileflags F ! i) F" using i(2) by (simp add: fd_point_def)
  note P = fd_point_ok [OF T i(1), of fa "fd_ofileflags F ! i", folded this]
  have z: "nrefs s fa = 0"
  proof (rule ccontr)
    assume "nrefs s fa \<noteq> 0"
    then have "files (d_ftab s) fa \<noteq> None" by (intro I(7)) simp
    then show False using fa by simp
  qed
  have n: "nrefs (put_fd a ?F s) = (nrefs s)(fa := 1)"
  proof (rule nrefs_fun [OF fd_okD(1) [OF ok] F])
    fix f show "((nrefs s)(fa := 1)) f + uses F f = nrefs s f + uses ?F f" using P(3) [of f] i(3) z by (auto split: if_splits)
  qed
  have "ucreds (f_creds (d_ftab s)) ?u \<noteq> None" using room by (auto simp: cr_room_def split: option.splits)
  then obtain c where c: "crhold ?u (f_creds (d_ftab s)) = Done c"
    "cred_inv ((\<lambda>u. ext u + fcreds (d_ftab s) u)(?u := Suc (ext ?u + fcreds (d_ftab s) ?u))) c"
    using ucr.acq_law [OF I(8) _ room] by blast
  have in_hd: "q \<in> set (filehead (d_ftab s))" if "fd_ofiles F ! 0 = Some q" for q
  proof -
    have "open_file 0 F = Some q" using that tab_okD(3) [OF T] by (simp add: open_file_def NDFILE_def)
    then have "0 < nrefs s q" by (intro nrefs_pos [OF fd_okD(1) [OF ok] F uses_pos [OF _ T]])
    then show ?thesis using I(2,7) by auto
  qed
  have "fa \<notin> set (filehead (d_ftab s))" using I(2) fa by auto
  then have hd3: "distinct hds" "set hds = insert fa (set (filehead (d_ftab s)))" "length hds = Suc (length (filehead (d_ftab s)))"
    using I(1) in_hd unfolding hds by (auto split: option.splits simp: distinct_link_after set_link_after length_link_after)
  have "files_inv ext ((nrefs s)(fa := 1)) (filed fa (newfile mem ?u) hds c (d_ftab s))"
    by (rule filed_inv [OF inv fa _ hd3]) (use c(2) in \<open>simp_all add: newfile_def\<close>)
  then have "fd_ok ext (put_fd a ?F (s\<lparr>d_ftab := filed fa (newfile mem ?u) hds c (d_ftab s)\<rparr>))"
    using put_fd_ok [OF ok F P(1,4)] n by simp
  then show ?thesis using c(1) by blast
qed

lemma falloc_ok:
  assumes ok: "fd_ok ext s" and p: "d_fd s p = Some a" and F: "fdescs s a = Some F" and fa: "files (d_ftab s) fa = None"
    and pc: "get_pcred p (f_creds (d_ftab s)) = Done (b, pc)" and room: "0 < cr_room (f_creds (d_ftab s)) (pc_ucred pc)"
  shows "case falloc fa mem p s of
      Panic m \<Rightarrow> False
    | Fault \<Rightarrow> overruns (d_lim s p) 0 (fd_nfiles F) \<and> fd_full s p 0 (fd_nfiles F)
    | Done (e, i, s') \<Rightarrow> fd_ok ext s' \<and>
       (if e = 0 then int i < d_lim s p \<and> dview s p i = None \<and> (\<forall>j < i. dview s p j \<noteq> None) \<and>
          files (d_ftab s') = (files (d_ftab s))(fa \<mapsto> newfile mem (pc_ucred pc)) \<and>
          (\<exists>fl. \<forall>q. dview s' q = (if d_fd s q = d_fd s p then (dview s p)(i \<mapsto> (fa, fl)) else dview s q))
        else files (d_ftab s') = files (d_ftab s) \<and> dview s' = dview s \<and>
          (e = EMFILE \<and> (\<forall>j. int j < d_lim s p \<longrightarrow> dview s p j \<noteq> None) \<or>
           e = ENFILE \<and> maxfiles s \<le> int (length (filehead (d_ftab s)))))"
proof (cases "fdalloc p 0 s")
  case (Done x)
  obtain r s1 where x: "x = (r, s1)" by (cases x)
  obtain F' where F': "s1 = put_fd a F' s" "fd_same F F'" and r: "case r of
      None \<Rightarrow> \<forall>j. 0 \<le> j \<longrightarrow> int j < d_lim s p \<longrightarrow> dview s p j \<noteq> None
    | Some i \<Rightarrow> 0 \<le> i \<and> int i < d_lim s p \<and> dview s p i = None \<and> (\<forall>j. 0 \<le> j \<longrightarrow> j < i \<longrightarrow> dview s p j \<noteq> None) \<and>
        i < fd_nfiles F' \<and> i \<le> fd_lastfile F' \<and>
        (fd_nfiles F' = fd_nfiles F \<or> int (fd_nfiles F) < d_lim s p \<and> (\<forall>j. 0 \<le> j \<longrightarrow> j < fd_nfiles F \<longrightarrow> dview s p j \<noteq> None))"
    using fdalloc_ok [OF ok p F, of 0] Done x by auto
  note S = same_put [OF ok p F F'(2), folded F'(1)]
  have p1: "d_fd s1 p = Some a" and t1: "d_ftab s1 = d_ftab s" "maxfiles s1 = maxfiles s" and v1: "dview s1 = dview s" "d_fd s1 = d_fd s"
    using S(2) p by (simp_all add: redirects_def F'(1)) (auto simp: put_fd_def dview_def F'(1) fun_eq_iff redirects_def split: if_splits)
  show ?thesis
  proof (cases r)
    case None
    then show ?thesis using r Done x S(1) t1 v1 by (simp add: falloc_def EMFILE_def)
  next
    case (Some i)
    show ?thesis
    proof (cases "maxfiles s \<le> nfiles (d_ftab s)")
      case True
      let ?s = "s1\<lparr>d_ftab := fevents [Tablefull] (d_ftab s1)\<rparr>"
      have "fd_ok ext ?s" using S(1) unfolding fd_ok_def by simp
      moreover have "dview ?s = dview s1" by simp
      moreover have "maxfiles s \<le> int (length (filehead (d_ftab s)))" using True files_invD(3) [OF fd_okD(3) [OF ok]] by simp
      moreover have "falloc fa mem p s = Done (ENFILE, 0, ?s)" using Done x Some True t1 by (simp add: falloc_def)
      ultimately show ?thesis using t1 v1 by (simp add: ENFILE_def)
    next
      case False
      have i: "i < fd_nfiles F'" "i \<le> fd_lastfile F'" "dview s p i = None" using r Some by simp_all
      have o: "open_file i F' = None" using open_view [OF p1 S(4), of i] v1 i(3) by simp
      let ?hds = "case fd_ofiles F' ! 0 of None \<Rightarrow> fa # filehead (d_ftab s1) | Some q \<Rightarrow> link_after q fa (filehead (d_ftab s1))"
      let ?F = "F'\<lparr>fd_ofiles := (fd_ofiles F')[i := Some fa]\<rparr>"
      obtain c where c: "crhold (pc_ucred pc) (f_creds (d_ftab s1)) = Done c"
        "fd_ok ext (put_fd a ?F (s1\<lparr>d_ftab := filed fa (newfile mem (pc_ucred pc)) ?hds c (d_ftab s1)\<rparr>))" (is "fd_ok ext ?s")
        using falloc_new [OF S(1) p1 S(4) i(1,2) o _ _ _ refl] fa pc room t1 by metis
      have "falloc fa mem p s = Done (0, i, ?s)"
        using Done x Some False t1 S(5) pc c(1) by (simp add: falloc_def filed_def newfile_def)
      moreover have "fdmap ?F = (fdmap F')(i \<mapsto> (fa, fd_ofileflags F' ! i))"
        using i(1) tab_okD(1) [OF fd_okD(4) [OF S(1,4)]] by (auto simp: fdmap_def open_file_def fun_eq_iff)
      moreover have "fdmap F' = dview s p" using p1 S(4) v1(1) by (metis proc_fd_Done [OF S(1) p1] option.inject)
      ultimately have "dview ?s q = (if d_fd s q = d_fd s p then (dview s p)(i \<mapsto> (fa, fd_ofileflags F' ! i)) else dview s q)" for q
        using p v1 put_fd_view [of "s1\<lparr>d_ftab := filed fa (newfile mem (pc_ucred pc)) ?hds c (d_ftab s1)\<rparr>" q a ?F]
        by (auto simp: dview_def)
      then show ?thesis using \<open>falloc fa mem p s = Done (0, i, ?s)\<close> c(2) r Some t1
        by (auto simp: put_fd_def filed_def)
    qed
  qed
qed (use fdalloc_ok [OF ok p F, of 0] in \<open>simp_all add: falloc_def fd_full_def\<close>)

section \<open>Copying a table\<close>

lemma fd_halve_bounds: "NDFILE \<le> i \<Longrightarrow> NDFILE \<le> fd_halve l i \<and> fd_halve l i \<le> i"
proof (induction l i rule: fd_halve.induct)
  case (1 l i)
  show ?case
  proof (cases "2 * NDEXTENT < i \<and> 2 * l \<le> i")
    case True
    then have "NDFILE \<le> i div 2" by (auto simp: NDEXTENT_def NDFILE_def)
    then have "NDFILE \<le> fd_halve l (i div 2) \<and> fd_halve l (i div 2) \<le> i div 2" using 1(1) True by simp
    then show ?thesis using True by (simp add: fd_halve.simps [of l i] del: div_le_dividend) (use div_le_dividend le_trans in blast)
  next
    case False
    then show ?thesis using 1(2) by (subst (1 2) fd_halve.simps) auto
  qed
qed

text \<open>
  \<open>falloc\<close> opens a file: it takes the lowest free descriptor, the new file has one reference, the
  caller's credentials and a place on the list of open files; or the limits of the process or of the
  system forbid it and nothing is opened.
\<close>

theorem falloc_opens:
  assumes ok: "fd_ok ext s" and p: "d_fd s p = Some a" and F: "fdescs s a = Some F" and fa: "files (d_ftab s) fa = None"
    and pc: "get_pcred p (f_creds (d_ftab s)) = Done (b, pc)" and room: "0 < cr_room (f_creds (d_ftab s)) (pc_ucred pc)"
  shows "case falloc fa mem p s of
      Panic m \<Rightarrow> False
    | Fault \<Rightarrow> overruns (d_lim s p) 0 (fd_nfiles F) \<and> fd_full s p 0 (fd_nfiles F)
    | Done (e, i, s') \<Rightarrow> fd_ok ext s' \<and>
       (if e = 0 then int i < d_lim s p \<and> dview s p i = None \<and> (\<forall>j < i. dview s p j \<noteq> None) \<and>
          files (d_ftab s') = (files (d_ftab s))(fa \<mapsto> newfile mem (pc_ucred pc)) \<and>
          (\<exists>fl. \<forall>q. dview s' q = (if d_fd s q = d_fd s p then (dview s p)(i \<mapsto> (fa, fl)) else dview s q))
        else files (d_ftab s') = files (d_ftab s) \<and> dview s' = dview s \<and>
          (e = EMFILE \<and> (\<forall>j. int j < d_lim s p \<longrightarrow> dview s p j \<noteq> None) \<or>
           e = ENFILE \<and> maxfiles s \<le> int (length (filehead (d_ftab s)))))"
  using assms by (rule falloc_ok)

lemma fd_copysize_bounds: "tab_ok F \<Longrightarrow> NDFILE \<le> fd_copysize F \<and> fd_copysize F \<le> fd_nfiles F"
  using tab_okD(3) [of F] fd_halve_bounds [of "fd_nfiles F" "fd_lastfile F"] by (auto simp: fd_copysize_def)

text \<open>A table of the default size, or one that never had to grow past 100 entries, is copied in full.\<close>

lemma fd_copysize_small: "tab_ok F \<Longrightarrow> fd_nfiles F \<le> 2 * NDEXTENT \<Longrightarrow> fd_lastfile F < fd_copysize F"
  using tab_okD(5) [of F] by (auto simp: fd_copysize_def fd_halve.simps [of "fd_lastfile F" "fd_nfiles F"])

definition fd_shrunk :: "nat \<Rightarrow> filedesc \<Rightarrow> filedesc" where
  "fd_shrunk i F = F\<lparr>fd_refcnt := 1, fd_nfiles := i, fd_ofiles := take i (fd_ofiles F), fd_ofileflags := take i (fd_ofileflags F)\<rparr>"

lemma count_list_take:
  assumes "\<forall>k < length xs. n \<le> k \<longrightarrow> xs ! k \<noteq> y"
  shows "count_list (take n xs) y = count_list xs y"
proof -
  have "count_list (drop n xs) y = 0" using assms by (auto simp: count_list_0_iff in_set_conv_nth)
  then show ?thesis using count_list_append [of "take n xs" "drop n xs" y] by simp
qed

lemma fd_shrunk_ok:
  assumes ok: "tab_ok F" and i: "NDFILE \<le> i" "i \<le> fd_nfiles F" "fd_lastfile F < i"
  shows "tab_ok (fd_shrunk i F)" "fdmap (fd_shrunk i F) = fdmap F" "uses (fd_shrunk i F) = uses F"
    "map (\<lambda>k. fd_ofiles (fd_shrunk i F) ! k) [0..<Suc (fd_lastfile F)] = take (Suc (fd_lastfile F)) (fd_ofiles F)"
proof -
  note T = tab_okD [OF ok]
  have none: "fd_ofiles F ! k = None" if "fd_lastfile F < k" "k < fd_nfiles F" for k using T(7) [OF that(2)] that(1) by fastforce
  have "fd_freefile F \<le> i"
  proof (rule ccontr)
    assume "\<not> fd_freefile F \<le> i"
    then have "fd_ofiles F ! i \<noteq> None" "i < fd_nfiles F" using T(6) T(8) [of i] by simp_all
    then show False using none [of i] i(3) by simp
  qed
  then show "tab_ok (fd_shrunk i F)"
    unfolding tab_ok_def
  proof (intro conjI allI impI)
    fix k assume "k < fd_nfiles (fd_shrunk i F)" "fd_ofiles (fd_shrunk i F) ! k \<noteq> None"
    then have "k < fd_nfiles F" "fd_ofiles F ! k \<noteq> None" using i(2) by (simp_all add: fd_shrunk_def)
    then show "k \<le> fd_lastfile (fd_shrunk i F)" using T(7) by (simp add: fd_shrunk_def)
  next
    fix k assume "k < fd_freefile (fd_shrunk i F)"
    then show "fd_ofiles (fd_shrunk i F) ! k \<noteq> None" using T(8) [of k] \<open>fd_freefile F \<le> i\<close> by (simp add: fd_shrunk_def)
  qed (use T(1-6) i in \<open>simp_all add: fd_shrunk_def\<close>)
  have "fdmap (fd_shrunk i F) k = fdmap F k" for k
    using none [of k] i T(1,2) by (cases "k < i") (simp_all add: fdmap_def open_file_def fd_shrunk_def)
  then show "fdmap (fd_shrunk i F) = fdmap F" by (rule ext)
  show "uses (fd_shrunk i F) = uses F"
  proof
    fix f show "uses (fd_shrunk i F) f = uses F f"
      unfolding uses_def fd_shrunk_def using none i(3) T(1) by (simp add: count_list_take)
  qed
  show "map (\<lambda>k. fd_ofiles (fd_shrunk i F) ! k) [0..<Suc (fd_lastfile F)] = take (Suc (fd_lastfile F)) (fd_ofiles F)"
    by (rule nth_equalityI) (use T(1,5) i(3) in \<open>auto simp: fd_shrunk_def simp del: upt_Suc\<close>)
qed

lemma uses_take_lastfile:
  assumes "tab_ok F" shows "count_list (take (Suc (fd_lastfile F)) (fd_ofiles F)) (Some f) = uses F f"
  unfolding uses_def by (rule count_list_take) (use tab_okD(1,7) [OF assms] in fastforce)

text \<open>\<open>fork1\<close> gives the child a copy of the table.\<close>

definition fork_fd :: "addr \<Rightarrow> nat \<Rightarrow> nat \<Rightarrow> dsys \<Rightarrow> dsys kres" where
  "fork_fd na p2 p1 s = kmap (\<lambda>s'. s'\<lparr>d_fd := (d_fd s')(p2 \<mapsto> na)\<rparr>) (fdcopy na p1 s)"

text \<open>What other processes see stays, files keep their contents, and \<open>p\<close> has the map \<open>D\<close>.\<close>

definition fd_frame :: "nat \<Rightarrow> (nat \<Rightarrow> (addr \<times> u8) option) \<Rightarrow> dsys \<Rightarrow> dsys \<Rightarrow> bool" where
  "fd_frame p D s s' \<longleftrightarrow> dview s' p = D \<and> (\<forall>q. q \<noteq> p \<longrightarrow> dview s' q = dview s q \<and> d_fd s' q = d_fd s q) \<and>
     (\<forall>g. files (d_ftab s') g \<noteq> None \<longrightarrow> fobj s' g = fobj s g) \<and> d_lim s' = d_lim s \<and> maxfiles s' = maxfiles s"

lemma fork_fd_ok:
  assumes ok: "fd_ok ext s" and p: "d_fd s p1 = Some a" and F: "fdescs s a = Some F" and na: "fdescs s na = None" and p2: "d_fd s p2 = None"
    and room: "\<forall>f. nrefs s f + uses F f \<le> 32767" and whole: "fd_lastfile F < fd_copysize F"
  shows "\<exists>s'. fork_fd na p2 p1 s = Done s' \<and> fd_ok ext s' \<and> fd_frame p2 (dview s p1) s s' \<and> d_fd s' p2 = Some na \<and>
    (\<forall>f. nrefs s' f = nrefs s f + uses F f) \<and> f_creds (d_ftab s') = f_creds (d_ftab s)"
proof -
  have T: "tab_ok F" by (rule fd_okD(4) [OF ok F])
  let ?i = "fd_copysize F" and ?n = "fd_shrunk (fd_copysize F) F"
  note B = fd_copysize_bounds [OF T]
  note N = fd_shrunk_ok [OF T _ _ whole]
  have N': "tab_ok ?n" "fdmap ?n = fdmap F" "uses ?n = uses F"
    "map (\<lambda>k. fd_ofiles ?n ! k) [0..<Suc (fd_lastfile F)] = take (Suc (fd_lastfile F)) (fd_ofiles F)" using N B by blast+
  define t where "t = fevents (Vref (fd_cdir F) # (case fd_rdir F of None \<Rightarrow> [] | Some v \<Rightarrow> [Vref v])) (d_ftab s)"
  have inv: "files_inv ext (nrefs s) t" using fd_okD(3) [OF ok] by (simp add: t_def)
  have cnt: "count_list (map (\<lambda>k. fd_ofiles ?n ! k) [0..<Suc (fd_lastfile F)]) (Some f) = uses F f" for f
    unfolding N'(4) by (rule uses_take_lastfile [OF T])
  have pos: "0 < nrefs s f" if "0 < uses F f" for f by (rule nrefs_pos [OF fd_okD(1) [OF ok] F that])
  have cap: "uses F f \<le> file_room t f" for f
  proof (cases "uses F f = 0")
    case False
    then have "files t f \<noteq> None" by (intro files_invD(7) [OF inv] pos) simp
    then obtain fi where fi: "files t f = Some fi" by auto
    then show ?thesis using files_invD(4) [OF inv fi] spec [OF room, of f] by (simp add: file_room_def)
  qed simp
  have len: "length (fd_ofiles ?n) = ?i" using tab_okD(1) [OF N'(1)] by (simp add: fd_shrunk_def)
  have "\<exists>t'. kfold (hold_slot ?n) [0..<Suc (fd_lastfile F)] t = Done t' \<and>
    files_inv ext (\<lambda>f. nrefs s f + count_list (map (\<lambda>k. fd_ofiles ?n ! k) [0..<Suc (fd_lastfile F)]) (Some f)) t'"
  proof (rule fil.acq_slots [OF inv])
    show "\<forall>k \<in> set [0..<Suc (fd_lastfile F)]. \<forall>f. fd_ofiles ?n ! k = Some f \<longrightarrow> files t f \<noteq> None"
    proof (intro ballI allI impI)
      fix k f assume k: "k \<in> set [0..<Suc (fd_lastfile F)]" and f: "fd_ofiles ?n ! k = Some f"
      then have "Some f \<in> set (map (\<lambda>k. fd_ofiles ?n ! k) [0..<Suc (fd_lastfile F)])" by force
      then have "0 < uses F f" unfolding cnt [symmetric] count_list_pos .
      then show "files t f \<noteq> None" by (intro files_invD(7) [OF inv] pos)
    qed
  next
    fix k u assume "k \<in> set [0..<Suc (fd_lastfile F)]"
    then have "k < length (fd_ofiles ?n)" using whole len by auto
    then show "hold_slot ?n k u = (case fd_ofiles ?n ! k of None \<Rightarrow> Done u | Some a \<Rightarrow> fhold a u)" by (simp add: hold_slot_def fd_slot_def)
  qed (use cnt cap in simp)
  then obtain t' where t': "kfold (hold_slot ?n) [0..<Suc (fd_lastfile F)] t = Done t'" "files_inv ext (\<lambda>f. nrefs s f + uses F f) t'"
    using cnt by auto
  have keep: "files u' f \<noteq> None \<Longrightarrow> map_option (f_count_update (\<lambda>_. 0)) (files u' f) = map_option (f_count_update (\<lambda>_. 0)) (files u f)"
    "f_creds u' = f_creds u"
    if "kfold (hold_slot ?n) ks u = Done u'" for ks u u' f
  proof -
    have "map_option (f_count_update (\<lambda>_. 0)) (files u' f) = map_option (f_count_update (\<lambda>_. 0)) (files u f) \<and> f_creds u' = f_creds u"
      using that
    proof (induction ks arbitrary: u)
      case (Cons k ks)
      obtain u1 where u1: "hold_slot ?n k u = Done u1" "kfold (hold_slot ?n) ks u1 = Done u'" using Cons.prems by (auto simp: kbind_Done_iff)
      have "map_option (f_count_update (\<lambda>_. 0)) (files u1 f) = map_option (f_count_update (\<lambda>_. 0)) (files u f) \<and> f_creds u1 = f_creds u"
        using u1(1) by (auto simp: hold_slot_def fhold_def kbind_Done_iff kmap_Done_iff deref_Done_iff split: option.splits)
      then show ?case using Cons.IH [OF u1(2)] by simp
    qed simp
    then show "files u' f \<noteq> None \<Longrightarrow> map_option (f_count_update (\<lambda>_. 0)) (files u' f) = map_option (f_count_update (\<lambda>_. 0)) (files u f)"
      "f_creds u' = f_creds u" by blast+
  qed
  let ?s = "(put_fd na ?n (s\<lparr>d_ftab := t'\<rparr>))\<lparr>d_fd := (d_fd s)(p2 \<mapsto> na)\<rparr>"
  have run: "fork_fd na p2 p1 s = Done ?s"
    using p F t'(1) by (simp add: fork_fd_def fdcopy_def proc_fd_def t_def [symmetric] Let_def put_fd_def fd_shrunk_def [symmetric])
      (simp add: fd_shrunk_def)
  have nr: "nrefs ?s f = nrefs s f + uses F f" for f
  proof -
    have d: "dom (fdescs ?s) = insert na (dom (fdescs s))" by (auto simp: put_fd_def)
    have "(\<Sum>b \<in> dom (fdescs s). uses (the (fdescs ?s b)) f) = nrefs s f"
      unfolding nrefs_def by (rule sum.cong) (use na in \<open>auto simp: put_fd_def\<close>)
    then show ?thesis unfolding nrefs_def d using fd_okD(1) [OF ok] na N'(3) by (subst sum.insert) (auto simp: put_fd_def nrefs_def)
  qed
  have users: "{q. ((d_fd s)(p2 \<mapsto> na)) q = Some b} = (if b = na then {p2} else {q. d_fd s q = Some b})" for b
  proof -
    have "d_fd s q \<noteq> Some na" for q using fd_okD(6) [OF ok, of q na] na by auto
    then show ?thesis using p2 by auto
  qed
  have "fd_ok ext ?s"
    unfolding fd_ok_def
  proof (intro conjI allI impI)
    have "nrefs ?s = (\<lambda>f. nrefs s f + uses F f)" "d_ftab ?s = t'" using nr by (simp_all add: fun_eq_iff) (simp add: put_fd_def)
    then show "files_inv ext (nrefs ?s) (d_ftab ?s)" using t'(2) by (simp only:)
    fix b G assume "fdescs ?s b = Some G"
    then have "b = na \<and> G = ?n \<or> b \<noteq> na \<and> fdescs s b = Some G" by (auto simp: put_fd_def split: if_splits)
    then have "tab_ok G \<and> unat (fd_refcnt G) = card {q. ((d_fd s)(p2 \<mapsto> na)) q = Some b}"
      unfolding users using N'(1) fd_okD(4,5) [OF ok] by (auto simp: fd_shrunk_def)
    then show "tab_ok G" "unat (fd_refcnt G) = card {q. d_fd ?s q = Some b}" by simp_all
    have "\<exists>q. ((d_fd s)(p2 \<mapsto> na)) q = Some b"
    proof (cases "b = na")
      case True
      then show ?thesis by (intro exI [of _ p2]) simp
    next
      case False
      then obtain q where "d_fd s q = Some b" using fd_okD(9) [OF ok, of b] \<open>b = na \<and> G = ?n \<or> b \<noteq> na \<and> fdescs s b = Some G\<close> by blast
      then show ?thesis using p2 by (intro exI [of _ q]) auto
    qed
    then show "\<exists>q. d_fd ?s q = Some b" by simp
  qed (use ok in \<open>auto simp: fd_ok_def put_fd_def split: if_splits\<close>)
  moreover have "fd_frame p2 (dview s p1) s ?s"
  proof -
    have "dview ?s q = dview s q" if "q \<noteq> p2" for q
      using that na fd_okD(6) [OF ok, of q] by (auto simp: dview_def put_fd_def fun_eq_iff split: option.splits)
    moreover have "dview ?s p2 = dview s p1" using p F N'(2) by (simp add: dview_def put_fd_def fun_eq_iff)
    moreover have "\<forall>g. files t' g \<noteq> None \<longrightarrow> fobj ?s g = fobj s g"
      using keep(1) [OF t'(1)] by (simp add: fobj_def put_fd_def t_def)
    ultimately show ?thesis by (simp add: fd_frame_def) (simp add: put_fd_def)
  qed
  moreover have "f_creds (d_ftab ?s) = f_creds (d_ftab s)" using keep(2) [OF t'(1)] by (simp add: put_fd_def t_def)
  ultimately show ?thesis using run nr by (intro exI [of _ ?s]) simp
qed

section \<open>Releasing a table\<close>

text \<open>An exiting process no longer counts as a user of the table; \<open>exit\<close> leaves its pointer as it is.\<close>

definition exit_fd :: "(addr \<Rightarrow> int) \<Rightarrow> nat \<Rightarrow> dsys \<Rightarrow> dsys kres" where
  "exit_fd c p s = kmap (\<lambda>s'. s'\<lparr>d_fd := (d_fd s')(p := None)\<rparr>) (fdfree c p s)"

text \<open>A step of a loop over files changes counts and removes files.\<close>

definition fobjs_keep :: "ftab \<Rightarrow> ftab \<Rightarrow> bool" where
  "fobjs_keep t t' \<longleftrightarrow> (\<forall>g. files t' g \<noteq> None \<longrightarrow>
     map_option (f_count_update (\<lambda>_. 0)) (files t' g) = map_option (f_count_update (\<lambda>_. 0)) (files t g))"

lemma fobjs_keep_refl [simp]: "fobjs_keep t t" "fobjs_keep t (fevents es t)" "fobjs_keep t (fd_mapped F i t)"
  by (simp_all add: fobjs_keep_def)

lemma fobjs_keep_trans:
  assumes "fobjs_keep t u" "fobjs_keep u v" shows "fobjs_keep t v"
  unfolding fobjs_keep_def
proof (intro allI impI)
  fix g assume g: "files v g \<noteq> None"
  then have e: "map_option (f_count_update (\<lambda>_. 0)) (files v g) = map_option (f_count_update (\<lambda>_. 0)) (files u g)"
    using assms(2) by (simp add: fobjs_keep_def)
  then have "files u g \<noteq> None" using g by (metis option.map_disc_iff)
  then show "map_option (f_count_update (\<lambda>_. 0)) (files v g) = map_option (f_count_update (\<lambda>_. 0)) (files t g)"
    using e assms(1) by (simp add: fobjs_keep_def)
qed

lemma closef_keeps:
  assumes "files_inv ext R t" "0 < R f"
  shows "\<exists>e t'. closef c adv (Some f) t = Done (e, t') \<and> files_inv ext (R(f := R f - 1)) t' \<and> fobjs_keep t t'"
proof -
  have "files t f \<noteq> None" by (rule files_invD(7) [OF assms])
  then obtain fi where fi: "files t f = Some fi" by auto
  from closef_law [OF assms(1) fi, of c adv] show ?thesis using fi by (fastforce simp: fobjs_keep_def split: if_splits)
qed

lemma closes_keep:
  assumes "files_inv ext R t" "\<forall>k \<in> set ks. k < length (fd_ofiles F)" "\<forall>f. count_list (map ((!) (fd_ofiles F)) ks) (Some f) \<le> R f"
    and "kfold (close_slot c adv F) ks t = Done t'"
  shows "fobjs_keep t t'"
  using assms
proof (induction ks arbitrary: R t)
  case (Cons k ks)
  have k: "k < length (fd_ofiles F)" using Cons.prems(2) by simp
  show ?case
  proof (cases "fd_ofiles F ! k")
    case None
    then show ?thesis using Cons.IH [OF Cons.prems(1)] Cons.prems(2-4) k by (auto simp: close_slot_def fd_slot_def)
  next
    case (Some f)
    have inv: "files_inv ext R (fd_mapped F k t)" using Cons.prems(1) by simp
    have "0 < R f" using spec [OF Cons.prems(3), of f] Some by simp
    then obtain e u where u: "closef c adv (Some f) (fd_mapped F k t) = Done (e, u)" "files_inv ext (R(f := R f - 1)) u"
      "fobjs_keep (fd_mapped F k t) u" using closef_keeps [OF inv] by blast
    have tu: "fobjs_keep t u" by (rule fobjs_keep_trans [OF fobjs_keep_refl(3) u(3)])
    have "\<forall>g. count_list (map ((!) (fd_ofiles F)) ks) (Some g) \<le> (R(f := R f - 1)) g"
    proof
      fix g show "count_list (map ((!) (fd_ofiles F)) ks) (Some g) \<le> (R(f := R f - 1)) g"
        using spec [OF Cons.prems(3), of g] Some by (auto split: if_splits)
    qed
    then have "fobjs_keep u t'"
      using Cons.IH [OF u(2)] Cons.prems(2,4) k Some u(1) by (auto simp: close_slot_def fd_slot_def)
    then show ?thesis by (rule fobjs_keep_trans [OF tu])
  qed
qed simp

text \<open>The users of a table other than \<open>p\<close>.\<close>

lemma users_without:
  assumes "finite (dom (d_fd s))" "d_fd s p = Some a"
  shows "card {q. ((d_fd s)(p := None)) q = Some b} = card {q. d_fd s q = Some b} - (if b = a then 1 else 0)"
    "0 < card {q. d_fd s q = Some a}"
proof -
  have fin: "finite {q. d_fd s q = Some a}" by (rule finite_subset [OF _ assms(1)]) auto
  have p: "p \<in> {q. d_fd s q = Some a}" using assms(2) by simp
  have "{q. ((d_fd s)(p := None)) q = Some b} = (if b = a then {q. d_fd s q = Some a} - {p} else {q. d_fd s q = Some b})"
    using assms(2) by auto
  then show "card {q. ((d_fd s)(p := None)) q = Some b} = card {q. d_fd s q = Some b} - (if b = a then 1 else 0)"
    using fin p by (auto simp: card_Diff_singleton_if)
  show "0 < card {q. d_fd s q = Some a}" using fin p card_gt_0_iff by blast
qed

lemma exit_fd_ok:
  assumes ok: "fd_ok ext s" and p: "d_fd s p = Some a" and F: "fdescs s a = Some F"
  shows "\<exists>s'. exit_fd c p s = Done s' \<and> fd_ok ext s' \<and> fd_frame p (\<lambda>_. None) s s' \<and> d_fd s' p = None"
proof -
  have T: "tab_ok F" by (rule fd_okD(4) [OF ok F])
  have pf: "proc_fd p s = Done (a, F)" using p F by (simp add: proc_fd_def)
  note U = users_without [OF fd_okD(2) [OF ok] p]
  have r: "unat (fd_refcnt F) = card {q. d_fd s q = Some a}" by (rule fd_okD(5) [OF ok F])
  then have r1: "unat (fd_refcnt F - 1) = card {q. d_fd s q = Some a} - 1" using U(2) by (subst unat_minus_one) auto
  show ?thesis
  proof (cases "0 < fd_refcnt F - 1")
    case True_ref: True
    let ?G = "F\<lparr>fd_refcnt := fd_refcnt F - 1\<rparr>"
    let ?s = "(put_fd a ?G s)\<lparr>d_fd := (d_fd s)(p := None)\<rparr>"
    have u: "uses ?G = uses F" "fdmap ?G = fdmap F" "tab_ok ?G" using T by (simp_all add: uses_def fdmap_def open_file_def fun_eq_iff tab_ok_def)
    have "nrefs ?s = nrefs (put_fd a ?G s)" by (simp add: nrefs_def fun_eq_iff)
    then have n: "nrefs ?s = nrefs s" using nrefs_same [OF fd_okD(1) [OF ok] F u(1)] by simp
    have "fd_ok ext ?s"
      unfolding fd_ok_def
    proof (intro conjI allI impI)
      show "files_inv ext (nrefs ?s) (d_ftab ?s)" using fd_okD(3) [OF ok] unfolding n by (simp add: put_fd_def)
      fix b G assume b: "fdescs ?s b = Some G"
      then have "tab_ok G \<and> unat (fd_refcnt G) = card {q. ((d_fd s)(p := None)) q = Some b}"
        unfolding U(1) using fd_okD(4,5) [OF ok] u(3) r1 by (auto simp: put_fd_def split: if_splits)
      then show "tab_ok G" "unat (fd_refcnt G) = card {q. d_fd ?s q = Some b}" by simp_all
      show "\<exists>q. d_fd ?s q = Some b"
      proof (cases "b = a")
        case True
        have "0 < unat (fd_refcnt F - 1)" using True_ref by (simp add: word_less_nat_alt)
        then have "card {q. ((d_fd s)(p := None)) q = Some a} \<noteq> 0" unfolding U(1) using r1 by simp
        moreover have "{q. ((d_fd s)(p := None)) q = Some a} = {}" if "\<nexists>q. ((d_fd s)(p := None)) q = Some a" using that by blast
        ultimately obtain q where "((d_fd s)(p := None)) q = Some a" by (metis (no_types) card.empty)
        then show ?thesis using True by (intro exI [of _ q]) simp
      next
        case False
        then obtain q where "d_fd s q = Some b" using fd_okD(9) [OF ok, of b] b by (auto simp: put_fd_def)
        then show ?thesis using False p by (intro exI [of _ q]) auto
      qed
    qed (use ok in \<open>auto simp: fd_ok_def put_fd_def split: if_splits\<close>)
    moreover have "fd_frame p (\<lambda>_. None) s ?s"
      using F u(2) by (auto simp: fd_frame_def dview_def put_fd_def fobj_def fun_eq_iff split: option.splits)
    moreover have "exit_fd c p s = Done ?s" using pf True_ref by (simp add: exit_fd_def fdfree_def put_fd_def)
    ultimately show ?thesis by (intro exI [of _ ?s]) simp
  next
    case False
    then have "fd_refcnt F - 1 = 0" by (simp add: word_greater_zero_iff)
    then have one: "card {q. d_fd s q = Some a} = 1" using r1 U(2) by simp
    have none: "d_fd s q \<noteq> Some a" if "q \<noteq> p" for q
    proof
      assume "d_fd s q = Some a"
      then have "{p, q} \<subseteq> {q. d_fd s q = Some a}" using p by auto
      moreover have "finite {q. d_fd s q = Some a}" by (rule finite_subset [OF _ fd_okD(2) [OF ok]]) auto
      ultimately have "card {p, q} \<le> 1" using card_mono one by metis
      then show False using that by simp
    qed
    let ?ks = "[0..<Suc (fd_lastfile F)]"
    have ks: "\<forall>k \<in> set ?ks. k < length (fd_ofiles F)" using tab_okD(1,5) [OF T] by auto
    have "map ((!) (fd_ofiles F)) ?ks = take (Suc (fd_lastfile F)) (fd_ofiles F)"
      by (rule nth_equalityI) (use tab_okD(1,5) [OF T] in \<open>auto simp del: upt_Suc\<close>)
    then have cnt: "count_list (map ((!) (fd_ofiles F)) ?ks) (Some f) = uses F f" for f using uses_take_lastfile [OF T] by simp
    have le: "uses F f \<le> nrefs s f" for f
      unfolding nrefs_def using member_le_sum [of a "dom (fdescs s)" "\<lambda>a. uses (the (fdescs s a)) f"] F fd_okD(1) [OF ok] by auto
    have inv: "files_inv ext (nrefs s) (d_ftab s)" by (rule fd_okD(3) [OF ok])
    have "\<exists>t. kfold (close_slot c (p_sadvlck s p) F) ?ks (d_ftab s) = Done t \<and>
        files_inv ext (\<lambda>f. nrefs s f - count_list (map ((!) (fd_ofiles F)) ?ks) (Some f)) t"
      by (rule fil.rel_slots [OF inv, where g = "fd_mapped F"]) (use cnt le ks in \<open>auto simp: close_slot_def fd_slot_def split: option.splits simp del: upt_Suc\<close>)
    then obtain t where t: "kfold (close_slot c (p_sadvlck s p) F) ?ks (d_ftab s) = Done t" "files_inv ext (\<lambda>f. nrefs s f - uses F f) t"
      unfolding cnt by blast
    have keep: "fobjs_keep (d_ftab s) t" by (rule closes_keep [OF inv ks _ t(1)]) (use cnt le in simp)
    let ?t = "fevents (Vrele (fd_cdir F) # (case fd_rdir F of None \<Rightarrow> [] | Some v \<Rightarrow> [Vrele v])) t"
    let ?s = "s\<lparr>d_ftab := ?t, fdescs := (fdescs s)(a := None), d_fd := (d_fd s)(p := None)\<rparr>"
    have nr: "nrefs ?s = (\<lambda>f. nrefs s f - uses F f)"
    proof
      fix f
      have d: "dom (fdescs ?s) = dom (fdescs s) - {a}" by auto
      have "nrefs ?s f = (\<Sum>b \<in> dom (fdescs s) - {a}. uses (the (fdescs s b)) f)"
        unfolding nrefs_def d by (rule sum.cong) auto
      moreover have "nrefs s f = uses F f + (\<Sum>b \<in> dom (fdescs s) - {a}. uses (the (fdescs s b)) f)"
        unfolding nrefs_def using F fd_okD(1) [OF ok] by (subst sum.remove [of _ a]) auto
      ultimately show "nrefs ?s f = nrefs s f - uses F f" by simp
    qed
    have "fd_ok ext ?s"
      unfolding fd_ok_def
    proof (intro conjI allI impI)
      show "files_inv ext (nrefs ?s) (d_ftab ?s)" using t(2) unfolding nr by simp
      fix b G assume b: "fdescs ?s b = Some G"
      then have "tab_ok G \<and> unat (fd_refcnt G) = card {q. ((d_fd s)(p := None)) q = Some b}"
        unfolding U(1) using fd_okD(4,5) [OF ok] by (auto split: if_splits)
      then show "tab_ok G" "unat (fd_refcnt G) = card {q. d_fd ?s q = Some b}" by simp_all
      have "b \<noteq> a" "fdescs s b = Some G" using b by (auto split: if_splits)
      then obtain q where "d_fd s q = Some b" using fd_okD(9) [OF ok, of b] by blast
      then show "\<exists>q. d_fd ?s q = Some b" using \<open>b \<noteq> a\<close> p by (intro exI [of _ q]) auto
    qed (use ok none in \<open>auto simp: fd_ok_def split: if_splits\<close>)
    moreover have "fd_frame p (\<lambda>_. None) s ?s"
      using none keep by (auto simp: fd_frame_def dview_def fobj_def fobjs_keep_def fun_eq_iff split: option.splits)
    moreover have "exit_fd c p s = Done ?s" using pf False t(1) by (simp add: exit_fd_def fdfree_def del: upt_Suc)
    ultimately show ?thesis by (intro exI [of _ ?s]) simp
  qed
qed

section \<open>Close on exec\<close>

lemma cloexec_ok:
  assumes "tab_ok G" "files_inv ext (\<lambda>f. B f + uses G f) t" "\<forall>k \<in> set ks. k < fd_nfiles G"
  shows "\<exists>G' t'. cloexec_slots c adv ks G t = Done (G', t') \<and> tab_ok G' \<and> files_inv ext (\<lambda>f. B f + uses G' f) t' \<and>
    fd_refcnt G' = fd_refcnt G \<and> fobjs_keep t t' \<and> fd_nfiles G' = fd_nfiles G \<and>
    fdmap G' = (\<lambda>i. if i \<in> set ks \<and> (\<exists>f fl. fdmap G i = Some (f, fl) \<and> fl AND UF_EXCLOSE \<noteq> 0) then None else fdmap G i)"
  using assms
proof (induction ks arbitrary: G t)
  case Nil
  then show ?case by simp
next
  case (Cons k ks)
  have k: "k < fd_nfiles G" "k < length (fd_ofiles G)" using Cons.prems(3) tab_okD(1) [OF Cons.prems(1)] by simp_all
  show ?case
  proof (cases "\<exists>f fl. fdmap G k = Some (f, fl) \<and> fl AND UF_EXCLOSE \<noteq> 0")
    case False
    then have step: "cloexec_slots c adv (k # ks) G t = cloexec_slots c adv ks G t"
      using k by (auto simp: fd_slot_def fdmap_open open_file_def)
    obtain G' t' where *: "cloexec_slots c adv ks G t = Done (G', t')" "tab_ok G'" "files_inv ext (\<lambda>f. B f + uses G' f) t'"
      "fd_refcnt G' = fd_refcnt G" "fobjs_keep t t'" "fd_nfiles G' = fd_nfiles G"
      "fdmap G' = (\<lambda>i. if i \<in> set ks \<and> (\<exists>f fl. fdmap G i = Some (f, fl) \<and> fl AND UF_EXCLOSE \<noteq> 0) then None else fdmap G i)"
      using Cons.IH [OF Cons.prems(1,2)] Cons.prems(3) by auto
    have "fdmap G' = (\<lambda>i. if i \<in> set (k # ks) \<and> (\<exists>f fl. fdmap G i = Some (f, fl) \<and> fl AND UF_EXCLOSE \<noteq> 0) then None else fdmap G i)"
      using *(7) False by (auto simp: fun_eq_iff)
    then show ?thesis unfolding step using * by blast
  next
    case True
    then obtain f fl where fd: "fdmap G k = Some (f, fl)" "fl AND UF_EXCLOSE \<noteq> 0" by blast
    have o: "open_file k G = Some f" "fd_ofileflags G ! k = fl" "fd_ofiles G ! k = Some f" using fd(1) k by (auto simp: fdmap_open open_file_def)
    have pos: "0 < uses G f" by (rule uses_pos [OF o(1) Cons.prems(1)])
    have inv: "files_inv ext (\<lambda>f. B f + uses G f) (fd_mapped G k t)" using Cons.prems(2) by simp
    then obtain e u where u: "closef c adv (Some f) (fd_mapped G k t) = Done (e, u)"
      "files_inv ext ((\<lambda>f. B f + uses G f)(f := B f + uses G f - 1)) u" "fobjs_keep (fd_mapped G k t) u"
      using closef_keeps [OF inv, of f c adv] pos by auto
    note C = fd_clear_ok [OF Cons.prems(1) k(1)]
    have "(\<lambda>g. B g + uses (fd_clear k G) g) = (\<lambda>f. B f + uses G f)(f := B f + uses G f - 1)"
    proof
      fix g show "B g + uses (fd_clear k G) g = ((\<lambda>f. B f + uses G f)(f := B f + uses G f - 1)) g"
        using C(3) [of g] o(1) pos by (auto split: if_splits)
    qed
    then have inv': "files_inv ext (\<lambda>f. B f + uses (fd_clear k G) f) u" using u(2) by (simp only:)
    obtain G' t' where *: "cloexec_slots c adv ks (fd_clear k G) u = Done (G', t')" "tab_ok G'" "files_inv ext (\<lambda>f. B f + uses G' f) t'"
      "fd_refcnt G' = fd_refcnt (fd_clear k G)" "fobjs_keep u t'" "fd_nfiles G' = fd_nfiles (fd_clear k G)"
      "fdmap G' = (\<lambda>i. if i \<in> set ks \<and> (\<exists>f fl. fdmap (fd_clear k G) i = Some (f, fl) \<and> fl AND UF_EXCLOSE \<noteq> 0) then None else fdmap (fd_clear k G) i)"
      using Cons.IH [OF C(1) inv'] Cons.prems(3) C(5) by auto
    have "cloexec_slots c adv (k # ks) G t = Done (G', t')"
      using k o fd(2) u(1) *(1) by (simp add: fd_slot_def)
    moreover have "fdmap G' = (\<lambda>i. if i \<in> set (k # ks) \<and> (\<exists>f fl. fdmap G i = Some (f, fl) \<and> fl AND UF_EXCLOSE \<noteq> 0) then None else fdmap G i)"
      unfolding *(7) C(2) using fd by (auto simp: fun_eq_iff)
    moreover have "fobjs_keep t t'"
      by (rule fobjs_keep_trans [OF fobjs_keep_trans [OF fobjs_keep_refl(3) u(3)] *(5)])
    ultimately show ?thesis using * C(4,5) by auto
  qed
qed

lemma fdcloseexec_ok:
  assumes ok: "fd_ok ext s" and p: "d_fd s p = Some a"
  shows "\<exists>s'. fdcloseexec c p s = Done s' \<and> fd_ok ext s' \<and>
    redirects p (\<lambda>i. case dview s p i of None \<Rightarrow> None | Some (f, fl) \<Rightarrow> if fl AND UF_EXCLOSE \<noteq> 0 then None else Some (f, fl)) s s'"
proof -
  obtain F where F: "fdescs s a = Some F" "proc_fd p s = Done (a, F)" "tab_ok F" "dview s p = fdmap F" by (rule proc_fd_Done [OF ok p])
  have fin: "finite (dom (fdescs s))" by (rule fd_okD(1) [OF ok])
  define B where "B f = nrefs s f - uses F f" for f
  have le: "uses F f \<le> nrefs s f" for f
    unfolding nrefs_def using member_le_sum [of a "dom (fdescs s)" "\<lambda>a. uses (the (fdescs s a)) f"] F(1) fin by auto
  then have B: "B f + uses F f = nrefs s f" for f by (simp add: B_def)
  have inv: "files_inv ext (\<lambda>f. B f + uses F f) (d_ftab s)" using fd_okD(3) [OF ok] B by simp
  let ?ks = "[0..<Suc (fd_lastfile F)]"
  have ks: "\<forall>k \<in> set ?ks. k < fd_nfiles F" using tab_okD(5) [OF F(3)] by auto
  obtain G t where G: "cloexec_slots c (p_sadvlck s p) ?ks F (d_ftab s) = Done (G, t)" "tab_ok G" "files_inv ext (\<lambda>f. B f + uses G f) t"
    "fd_refcnt G = fd_refcnt F" "fobjs_keep (d_ftab s) t"
    "fdmap G = (\<lambda>i. if i \<in> set ?ks \<and> (\<exists>f fl. fdmap F i = Some (f, fl) \<and> fl AND UF_EXCLOSE \<noteq> 0) then None else fdmap F i)"
    using cloexec_ok [OF F(3) inv ks, of c "p_sadvlck s p"] by blast
  note L = fd_lower_ok [OF G(2)]
  let ?s = "put_fd a (fd_lower G) (s\<lparr>d_ftab := t\<rparr>)"
  have n: "nrefs (put_fd a (fd_lower G) s) = (\<lambda>f. B f + uses G f)"
    by (rule nrefs_fun [OF fin F(1)]) (use B in \<open>simp add: L(3)\<close>)
  have "fd_ok ext ?s" by (rule put_fd_ok [OF ok F(1) L(1)]) (use L(4) G(3,4) n in simp_all)
  moreover have "redirects p (fdmap (fd_lower G)) s ?s"
    by (rule put_fd_redirects [OF p]) (use G(5) in \<open>simp add: fobjs_keep_def fobj_def\<close>)
  moreover have "fdmap (fd_lower G) = (\<lambda>i. case dview s p i of None \<Rightarrow> None
      | Some (f, fl) \<Rightarrow> if fl AND UF_EXCLOSE \<noteq> 0 then None else Some (f, fl))"
  proof
    fix i
    have "fdmap F i \<noteq> None \<Longrightarrow> i \<in> set ?ks" using tab_okD(7) [OF F(3), of i] by (auto simp: fdmap_None)
    then show "fdmap (fd_lower G) i = (case dview s p i of None \<Rightarrow> None
        | Some (f, fl) \<Rightarrow> if fl AND UF_EXCLOSE \<noteq> 0 then None else Some (f, fl))"
      unfolding L(2) G(6) F(4) by (auto split: option.splits simp del: upt_Suc)
  qed
  moreover have "fdcloseexec c p s = Done ?s" using F(2) G(1) by (simp add: fdcloseexec_def fd_lower_def del: upt_Suc)
  ultimately show ?thesis by (intro exI [of _ ?s]) simp
qed

text \<open>
  \<open>fdcloseexec\<close> closes exactly the descriptors marked close-on-exec; the others refer to the same
  files, other processes see nothing, and the counts stay exact.
\<close>

theorem fdcloseexec_exact:
  assumes ok: "fd_ok ext s" and p: "d_fd s p = Some a"
  shows "\<exists>s'. fdcloseexec c p s = Done s' \<and> fd_ok ext s' \<and>
    redirects p (\<lambda>i. case dview s p i of None \<Rightarrow> None | Some (f, fl) \<Rightarrow> if fl AND UF_EXCLOSE \<noteq> 0 then None else Some (f, fl)) s s'"
  using assms by (rule fdcloseexec_ok)

section \<open>Two defects\<close>

text \<open>
  the size of an expanded table is its double modulo the limit.  When a table of at least 50
  entries is full and its double is not below the limit, the copy of the old arrays overruns the new
  ones: with the default limit of 64 this is the opening of the 51st file.
\<close>

theorem fdalloc_overruns:
  assumes ok: "fd_ok ext s" and p: "d_fd s p = Some a" and F: "fdescs s a = Some F" and full: "\<forall>j < fd_nfiles F. dview s p j \<noteq> None"
    and n: "NDEXTENT \<le> fd_nfiles F" "int (fd_nfiles F) < d_lim s p" "d_lim s p \<le> 2 * int (fd_nfiles F)"
  shows "falloc fa mem p s = Fault \<and> (dview s p i \<noteq> None \<longrightarrow> dup p i s = Fault)"
proof -
  have T: "tab_ok F" by (rule fd_okD(4) [OF ok F])
  have v: "dview s p = fdmap F" using p F by (simp add: dview_def fun_eq_iff)
  have pf: "proc_fd p s = Done (a, F)" using p F by (simp add: proc_fd_def)
  have "fd_scan (fd_ofiles F) (nat (min (int (fd_nfiles F)) (d_lim s p))) (max 0 (fd_freefile F)) = None"
  proof (rule ccontr)
    assume "fd_scan (fd_ofiles F) (nat (min (int (fd_nfiles F)) (d_lim s p))) (max 0 (fd_freefile F)) \<noteq> None"
    then obtain j where "fd_scan (fd_ofiles F) (nat (min (int (fd_nfiles F)) (d_lim s p))) (max 0 (fd_freefile F)) = Some j" by auto
    from fd_scan_Some [OF this] have "j < fd_nfiles F" "fd_ofiles F ! j = None" by auto
    then show False using full by (auto simp: v fdmap_None)
  qed
  moreover have "fd_newsize (d_lim s p) (fd_nfiles F) < fd_nfiles F" by (rule fd_newsize_big) (use n in auto)
  ultimately have "fdalloc p 0 s = Fault" using pf n(2) by (simp add: fdalloc_def fd_alloc.simps fd_expand_def)
  then show ?thesis
    using pf open_view [OF p F, of i] by (auto simp: falloc_def dup_def)
qed

text \<open>
  \<open>fdcopy\<close> shrinks the arrays of the copy to as few as \<open>fd_lastfile\<close> entries, one too few: when the
  highest open descriptor is half the size of the table, the child silently loses it.
\<close>

theorem fdcopy_drops_last:
  assumes ok: "fd_ok ext s" and p: "d_fd s p1 = Some a" and F: "fdescs s a = Some F" and na: "fdescs s na = None" and p2: "d_fd s p2 = None"
    and room: "\<forall>f. nrefs s f + uses F f \<le> 32767"
    and l: "fd_lastfile F = l" "fd_nfiles F = 2 * l" "NDEXTENT < l" and fl: "take 4 (fd_ofileflags F) = [0, 0, 0, 0]"
  shows "\<exists>s'. fork_fd na p2 p1 s = Done s' \<and> dview s' p2 l = None \<and> (\<forall>i < l. dview s' p2 i = dview s p1 i)"
proof -
  have T: "tab_ok F" by (rule fd_okD(4) [OF ok F])
  have sz: "fd_copysize F = l"
    using l by (simp add: fd_copysize_def fd_halve.simps [of l "2 * l"] fd_halve.simps [of l l] NDFILE_def NDEXTENT_def)
  define G where "G = fd_shrunk l F"
  have G: "fd_nfiles G = l" "fd_ofiles G = take l (fd_ofiles F)" "fd_ofileflags G = take l (fd_ofileflags F)" "fd_lastfile G = l"
    using l by (simp_all add: G_def fd_shrunk_def)
  have len: "length (fd_ofiles G) = l" "length (fd_ofiles F) = 2 * l" using G(2) tab_okD(1) [OF T] l by simp_all
  define slot where "slot k = (if k < l then fd_ofiles F ! k else None)" for k
  have slot: "fd_slot G k = Done (slot k)" if "k \<in> set [0..<Suc l]" for k
  proof (cases "k < l")
    case True
    then show ?thesis using len G(2) by (simp add: fd_slot_def slot_def)
  next
    case False
    then have "k = l" using that by auto
    moreover have "take 4 (fd_ofileflags G) = [0, 0, 0, 0]" using fl G(3) l(3) by (simp add: NDEXTENT_def min_def)
    ultimately show ?thesis using len by (simp add: fd_slot_def slot_def)
  qed
  define t where "t = fevents (Vref (fd_cdir F) # (case fd_rdir F of None \<Rightarrow> [] | Some v \<Rightarrow> [Vref v])) (d_ftab s)"
  have inv: "files_inv ext (nrefs s) t" using fd_okD(3) [OF ok] by (simp add: t_def)
  have "map slot [0..<Suc l] = take l (fd_ofiles F) @ [None]"
    by (rule nth_equalityI) (use len in \<open>auto simp: slot_def nth_append less_Suc_eq simp del: upt_Suc\<close>)
  then have cnt: "count_list (map slot [0..<Suc l]) (Some f) = count_list (take l (fd_ofiles F)) (Some f)" for f by simp
  have le: "count_list (take l (fd_ofiles F)) (Some f) \<le> uses F f" for f
    using count_list_append [of "take l (fd_ofiles F)" "drop l (fd_ofiles F)" "Some f"] by (simp add: uses_def)
  have present: "files t f \<noteq> None" if "0 < uses F f" for f
    by (rule files_invD(7) [OF inv nrefs_pos [OF fd_okD(1) [OF ok] F that]])
  have cap: "uses F f \<le> file_room t f" for f
  proof (cases "uses F f = 0")
    case False
    then obtain fi where fi: "files t f = Some fi" using present [of f] by auto
    then show ?thesis using files_invD(4) [OF inv fi] spec [OF room, of f] by (simp add: file_room_def)
  qed simp
  have "\<exists>t'. kfold (hold_slot G) [0..<Suc l] t = Done t' \<and> files_inv ext (\<lambda>f. nrefs s f + count_list (map slot [0..<Suc l]) (Some f)) t'"
  proof (rule fil.acq_slots [OF inv])
    show "\<forall>k \<in> set [0..<Suc l]. \<forall>f. slot k = Some f \<longrightarrow> files t f \<noteq> None"
    proof (intro ballI allI impI)
      fix k f assume "slot k = Some f"
      then have "open_file k F = Some f" using l(2) by (auto simp: slot_def open_file_def split: if_splits)
      then show "files t f \<noteq> None" by (intro present uses_pos [OF _ T])
    qed
    show "\<forall>f. count_list (map slot [0..<Suc l]) (Some f) \<le> file_room t f" using cnt le cap le_trans by metis
  qed (use slot in \<open>simp add: hold_slot_def\<close>)
  then obtain t' where t': "kfold (hold_slot G) [0..<Suc l] t = Done t'" by blast
  let ?s = "(put_fd na G (s\<lparr>d_ftab := t'\<rparr>))\<lparr>d_fd := (d_fd s)(p2 \<mapsto> na)\<rparr>"
  have "fork_fd na p2 p1 s = Done ?s"
    using p F t' G(4) by (simp add: fork_fd_def fdcopy_def proc_fd_def sz t_def [symmetric] Let_def put_fd_def fd_shrunk_def [symmetric]
        G_def [symmetric] del: upt_Suc)
  moreover have "dview ?s p2 = fdmap G" by (simp add: dview_def put_fd_def fun_eq_iff)
  moreover have "fdmap G i = (if i < l then fdmap F i else None)" for i
    using l(2) G(1-3) by (simp add: fdmap_def open_file_def)
  moreover have "dview s p1 = fdmap F" using p F by (simp add: dview_def fun_eq_iff)
  ultimately show ?thesis by (intro exI [of _ ?s]) simp
qed

section \<open>An example\<close>

text \<open>Process 2 has a table of \<open>n\<close> entries, the first \<open>k\<close> of which refer to the same file.\<close>

definition tab_demo :: "nat \<Rightarrow> nat \<Rightarrow> filedesc" where
  "tab_demo n k = \<lparr>fd_ofiles = replicate k (Some 7) @ replicate (n - k) None, fd_ofileflags = replicate n 0, fd_cdir = 3, fd_rdir = None,
     fd_nfiles = n, fd_lastfile = k - 1, fd_freefile = k, fd_cmask = 18, fd_refcnt = 1\<rparr>"

definition mem_demo :: openfile where
  "mem_demo = \<lparr>f_flag = 0, f_type = 0, f_count = 0, f_msgcount = 9, f_cred = 0, f_offset = 5, f_data = 0\<rparr>"

definition dsys_demo :: "nat \<Rightarrow> nat \<Rightarrow> int \<Rightarrow> dsys" where
  "dsys_demo n k lim = \<lparr>d_ftab = \<lparr>files = [7 \<mapsto> \<lparr>f_flag = 3, f_type = 1, f_count = int k, f_msgcount = 0, f_cred = 70, f_offset = 0, f_data = 4\<rparr>],
       filehead = [7], nfiles = 1, f_creds = csys_demo, f_events = []\<rparr>,
     fdescs = [5 \<mapsto> tab_demo n k], d_fd = [2 \<mapsto> 5], maxfiles = 100, d_lim = (\<lambda>_. lim), p_sadvlck = (\<lambda>_. False)\<rparr>"

lemma dsys_demo_sel [simp]:
  "fdescs (dsys_demo n k lim) = [5 \<mapsto> tab_demo n k]" "d_fd (dsys_demo n k lim) = [2 \<mapsto> 5]" "d_lim (dsys_demo n k lim) p = lim"
  "maxfiles (dsys_demo n k lim) = 100" "f_creds (d_ftab (dsys_demo n k lim)) = csys_demo" "filehead (d_ftab (dsys_demo n k lim)) = [7]"
  "files (d_ftab (dsys_demo n k lim)) f = None \<longleftrightarrow> f \<noteq> 7" "fd_nfiles (tab_demo n k) = n" "fd_lastfile (tab_demo n k) = k - 1"
  by (simp_all add: dsys_demo_def tab_demo_def)

lemma uses_demo: "uses (tab_demo n k) f = (if f = 7 then k else 0)"
  by (simp add: uses_def tab_demo_def count_list_replicate)

lemma nrefs_demo: "nrefs (dsys_demo n k lim) f = (if f = 7 then k else 0)"
  by (simp add: nrefs_def uses_demo)

lemma dview_demo: "k \<le> n \<Longrightarrow> dview (dsys_demo n k lim) p i = (if p = 2 \<and> i < k then Some (7, 0) else None)"
  by (auto simp: dview_def fdmap_def open_file_def) (auto simp: tab_demo_def nth_append)

lemma csys_demo_files: "cred_inv (\<lambda>u. 0 + (if u = 70 then 1 else 0)) csys_demo"
proof -
  have "ext_demo = (\<lambda>u. 0 + (if u = 70 then 1 else 0))" by (simp add: ext_demo_def fun_eq_iff)
  then show ?thesis using csys_demo_ok by (simp add: cred_ok_def)
qed

lemma dsys_demo_ok:
  assumes "NDFILE \<le> n" "n \<le> 65536" "0 < k" "k \<le> n" "k \<le> 32767" "0 \<le> lim" "lim \<le> 65536"
  shows "fd_ok (\<lambda>_. 0) (dsys_demo n k lim)"
proof -
  have "tab_ok (tab_demo n k)"
    using assms unfolding tab_ok_def by (auto simp: tab_demo_def nth_append split: if_splits)
  moreover have "fcreds (d_ftab (dsys_demo n k lim)) u = (if u = 70 then 1 else 0)" for u
  proof -
    have "{f. \<exists>fi. files (d_ftab (dsys_demo n k lim)) f = Some fi \<and> f_cred fi = u} = (if u = 70 then {7} else {})"
      by (auto simp: dsys_demo_def)
    then show ?thesis by (simp add: fcreds_def)
  qed
  then have "files_inv (\<lambda>_. 0) (nrefs (dsys_demo n k lim)) (d_ftab (dsys_demo n k lim))"
    using assms csys_demo_files unfolding files_inv_def nrefs_demo by (auto simp: dsys_demo_def)
  moreover have "{p. [2 \<mapsto> 5] p = Some (5 :: nat)} = {2 :: nat}" by (auto split: if_splits)
  ultimately show ?thesis
    using assms unfolding fd_ok_def by (auto simp: tab_demo_def split: if_splits)
qed

theorem fdavail_counts_witness:
  "fdavail 2 60 (dsys_demo 20 3 64) = Done True \<and> fdavail 2 62 (dsys_demo 20 3 64) = Done False"
proof -
  have ok: "fd_ok (\<lambda>_. 0) (dsys_demo 20 3 64)" by (rule dsys_demo_ok) (simp_all add: NDFILE_def)
  have "{i. i < (20 :: nat) \<and> dview (dsys_demo 20 3 64) 2 i = None} = {3..<20}" by (auto simp: dview_demo)
  then show ?thesis using fdavail_counts [OF ok, of 2 5 "tab_demo 20 3" 60] fdavail_counts [OF ok, of 2 5 "tab_demo 20 3" 62] by simp
qed

theorem falloc_opens_witness:
  "\<exists>s'. falloc 8 mem_demo 2 (dsys_demo 20 3 64) = Done (0, 3, s') \<and> dview s' 2 3 \<noteq> None"
proof -
  let ?s = "dsys_demo 20 3 64"
  have ok: "fd_ok (\<lambda>_. 0) ?s" by (rule dsys_demo_ok) (simp_all add: NDFILE_def)
  have h: "d_fd ?s 2 = Some 5" "fdescs ?s 5 = Some (tab_demo 20 3)" "files (d_ftab ?s) 8 = None"
    "get_pcred 2 (f_creds (d_ftab ?s)) = Done (50, pcred_demo)" "0 < cr_room (f_creds (d_ftab ?s)) (pc_ucred pcred_demo)"
    by (simp_all add: csys_demo_def get_pcred_def cr_room_def pcred_demo_def ucred_demo_def)
  have "\<not> fd_full ?s 2 0 20" by (auto simp: fd_full_def dview_demo intro: exI [of _ 3])
  note S = falloc_opens [OF ok h, of mem_demo]
  with \<open>\<not> fd_full ?s 2 0 20\<close> obtain e i s' where r: "falloc 8 mem_demo 2 ?s = Done (e, i, s')"
    by (cases "falloc 8 mem_demo 2 ?s") auto
  note S' = S [unfolded r, simplified]
  have z: "e = 0"
  proof (rule ccontr)
    assume "e \<noteq> 0"
    then have "dview ?s 2 3 \<noteq> None" using S' by auto
    then show False by (simp add: dview_demo)
  qed
  then have r': "dview ?s 2 i = None" "\<forall>j < i. dview ?s 2 j \<noteq> None" "dview s' 2 i \<noteq> None" using S' by auto
  have "3 \<le> i" using r'(1) by (simp add: dview_demo split: if_splits)
  moreover have "\<not> 3 < i"
  proof
    assume "3 < i"
    then have "dview ?s 2 3 \<noteq> None" using r'(2) by blast
    then show False by (simp add: dview_demo)
  qed
  ultimately have "i = 3" by simp
  then show ?thesis using r r'(3) z by auto
qed

theorem fdcloseexec_exact_witness:
  "\<exists>s'. fdcloseexec (\<lambda>_. 0) 2 (dsys_demo 20 3 64) = Done s' \<and> dview s' 2 2 = Some (7, 0)"
proof -
  have ok: "fd_ok (\<lambda>_. 0) (dsys_demo 20 3 64)" by (rule dsys_demo_ok) (simp_all add: NDFILE_def)
  from fdcloseexec_exact [OF ok, of 2 5 "\<lambda>_. 0"] show ?thesis by (auto simp: redirects_def dview_demo)
qed

theorem fdalloc_overruns_witness:
  "falloc 8 mem_demo 2 (dsys_demo 50 50 64) = Fault \<and> dup 2 0 (dsys_demo 50 50 64) = Fault"
proof -
  have ok: "fd_ok (\<lambda>_. 0) (dsys_demo 50 50 64)" by (rule dsys_demo_ok) (simp_all add: NDFILE_def)
  show ?thesis using fdalloc_overruns [OF ok, of 2 5 "tab_demo 50 50" 8 mem_demo 0] by (simp add: dview_demo NDEXTENT_def)
qed

theorem fdcopy_drops_last_witness:
  "\<exists>s'. fork_fd 6 3 2 (dsys_demo 200 101 256) = Done s' \<and> dview (dsys_demo 200 101 256) 2 100 = Some (7, 0) \<and> dview s' 3 100 = None"
proof -
  have ok: "fd_ok (\<lambda>_. 0) (dsys_demo 200 101 256)" by (rule dsys_demo_ok) (simp_all add: NDFILE_def)
  have "take 4 (fd_ofileflags (tab_demo 200 101)) = [0, 0, 0, 0]" by (simp add: tab_demo_def numeral_eq_Suc)
  moreover have "\<forall>f. nrefs (dsys_demo 200 101 256) f + uses (tab_demo 200 101) f \<le> 32767" by (simp add: nrefs_demo uses_demo)
  ultimately show ?thesis
    using fdcopy_drops_last [OF ok, of 2 5 "tab_demo 200 101" 6 3 100] by (auto simp: dview_demo NDEXTENT_def)
qed

theorem fd_calls_refine_witness:
  "\<exists>s'. fd_exec (\<lambda>_. 0) 2 (Dup 0) (dsys_demo 20 3 64) = Done (0, 3, s') \<and> dview s' 2 3 = Some (7, 0)"
proof -
  let ?s = "dsys_demo 20 3 64"
  have ok: "fd_ok (\<lambda>_. 0) ?s" by (rule dsys_demo_ok) (simp_all add: NDFILE_def)
  have nf: "\<not> fd_full ?s 2 0 20" by (auto simp: fd_full_def dview_demo intro: exI [of _ 3])
  have room: "\<forall>f. nrefs ?s f < 32767" by (simp add: nrefs_demo)
  note R = fd_calls_refine [OF ok _ _ room, of 2 5 "tab_demo 20 3", where c = "\<lambda>_. 0" and call = "Dup 0"]
  obtain e r s' where r0: "fd_exec (\<lambda>_. 0) 2 (Dup 0) ?s = Done (e, r, s')"
    using R nf by (cases "fd_exec (\<lambda>_. 0) 2 (Dup 0) ?s") auto
  then obtain D' where r: "fd_exec (\<lambda>_. 0) 2 (Dup 0) ?s = Done (e, r, s')" "fd_spec 64 (Dup 0) (dview ?s 2) e r D'" "redirects 2 D' ?s s'"
    using R by auto
  have "e = 0"
  proof (rule ccontr)
    assume "e \<noteq> 0"
    moreover have "dview ?s 2 0 = Some (7, 0)" by (simp add: dview_demo)
    ultimately have "\<forall>j. 0 \<le> j \<longrightarrow> int j < 64 \<longrightarrow> dview ?s 2 j \<noteq> None" using r(2) by (simp add: dup_spec_def)
    then have "dview ?s 2 3 \<noteq> None" by simp
    then show False by (simp add: dview_demo)
  qed
  then have d: "dview ?s 2 r = None" "\<forall>j < r. dview ?s 2 j \<noteq> None" "D' = (dview ?s 2)(r \<mapsto> (7, 0))"
    using r(2) by (auto simp: dview_demo dup_spec_def)
  have "3 \<le> r" using d(1) by (simp add: dview_demo split: if_splits)
  moreover have "\<not> 3 < r"
  proof
    assume "3 < r"
    then have "dview ?s 2 3 \<noteq> None" using d(2) by blast
    then show False by (simp add: dview_demo)
  qed
  ultimately have "r = 3" by simp
  then show ?thesis using r \<open>e = 0\<close> d(3) by (auto simp: redirects_def)
qed

end
