(* ===== verification/Lifecycle.thy ===== *)
theory Lifecycle
  imports Filedesc_Ops Exit_Props
begin

unbundle bit_operations_syntax

text \<open>
  Processes and their files together: the tables of processes (\<open>kern/fork.c\<close>, \<open>kern/exit.c\<close>) and the
  tables of descriptors (\<open>kern/descrip.c\<close>), which share the credentials and are both changed by \<open>fork\<close>
  and \<open>exit\<close>.
\<close>

section \<open>State and steps\<close>

record ksys =
  k_x :: xsys
  k_d :: dsys

text \<open>The credentials are the same ones, seen from the processes and from the open files.\<close>

definition k_put :: "dsys \<Rightarrow> ksys \<Rightarrow> ksys" where
  "k_put d k = k\<lparr>k_x := put_creds (f_creds (d_ftab d)) (k_x k), k_d := d\<rparr>"

definition d_sync :: "xsys \<Rightarrow> dsys \<Rightarrow> dsys" where
  "d_sync x d = d\<lparr>d_ftab := (d_ftab d)\<lparr>f_creds := x_creds x\<rparr>\<rparr>"

text \<open>\<open>fork1\<close>: the entry of the child, and the copy of the table of descriptors at the address \<open>na\<close>.\<close>

definition k_fork :: "bool \<Rightarrow> bool \<Rightarrow> addr \<Rightarrow> nat \<Rightarrow> nat \<Rightarrow> ksys \<Rightarrow> (int + int \<times> ksys) kres option" where
  "k_fork dg isvfork na p2 p1 k =
     map_option (\<lambda>r. kbind r (\<lambda>r. case r of
         Inl e \<Rightarrow> Done (Inl e)
       | Inr (pid, x) \<Rightarrow> kmap (\<lambda>d. Inr (pid, \<lparr>k_x = x, k_d = d\<rparr>)) (fork_fd na p2 p1 (d_sync x (k_d k)))))
       (x_fork dg isvfork p2 p1 (k_x k))"

text \<open>\<open>exit\<close>: the descriptors are released before the process leaves its group and becomes a zombie.\<close>

definition k_exit :: "(addr \<Rightarrow> int) \<Rightarrow> nat \<Rightarrow> int \<Rightarrow> ksys \<Rightarrow> ksys kres" where
  "k_exit c p rv k =
     kbind (exit_fd c p (k_d k)) (\<lambda>d. kmap (\<lambda>x. \<lparr>k_x = x, k_d = d\<rparr>) (exit p rv (put_creds (f_creds (d_ftab d)) (k_x k))))"

definition k_reap :: "xsys \<Rightarrow> ksys \<Rightarrow> ksys" where
  "k_reap x k = \<lparr>k_x = x, k_d = d_sync x (k_d k)\<rparr>"

section \<open>The invariant\<close>

definition k_inv :: "(addr \<Rightarrow> nat) \<Rightarrow> ksys \<Rightarrow> bool" where
  "k_inv ext k \<longleftrightarrow> fd_ok ext (k_d k) \<and> x_inv (\<lambda>u. ext u + fcreds (d_ftab (k_d k)) u) (k_x k) \<and>
     f_creds (d_ftab (k_d k)) = x_creds (k_x k) \<and> dom (d_fd (k_d k)) = set (allproc (x_rsys (k_x k)))"

lemma k_invD:
  assumes "k_inv ext k"
  shows "fd_ok ext (k_d k)" "x_inv (\<lambda>u. ext u + fcreds (d_ftab (k_d k)) u) (k_x k)" "f_creds (d_ftab (k_d k)) = x_creds (k_x k)"
    "dom (d_fd (k_d k)) = set (allproc (x_rsys (k_x k)))" "cred_ok (\<lambda>u. ext u + fcreds (d_ftab (k_d k)) u) (x_creds (k_x k))"
  using assms fork_invD(3) [OF x_invD(1)] unfolding k_inv_def by blast+

text \<open>A file is open exactly if a live process has a descriptor for it.\<close>

definition reachable :: "ksys \<Rightarrow> addr \<Rightarrow> bool" where
  "reachable k f \<longleftrightarrow> (\<exists>p \<in> set (allproc (x_rsys (k_x k))). \<exists>i fl. dview (k_d k) p i = Some (f, fl))"

lemma uses_open:
  assumes "tab_ok F" "0 < uses F f"
  obtains i where "open_file i F = Some f"
proof -
  have "Some f \<in> set (fd_ofiles F)" using assms(2) by (simp add: uses_def count_list_pos)
  then obtain i where "i < length (fd_ofiles F)" "fd_ofiles F ! i = Some f" by (auto simp: in_set_conv_nth)
  then show thesis using tab_okD(1) [OF assms(1)] by (intro that [of i]) (simp add: open_file_def)
qed

lemma open_reachable:
  assumes "fd_ok ext d"
  shows "files (d_ftab d) f \<noteq> None \<longleftrightarrow> (\<exists>p i fl. dview d p i = Some (f, fl))"
proof
  assume "files (d_ftab d) f \<noteq> None"
  then obtain fi where "files (d_ftab d) f = Some fi" by auto
  then have "0 < nrefs d f" by (rule files_invD(5) [OF fd_okD(3) [OF assms]])
  moreover have "nrefs d f = 0" if "\<forall>a \<in> dom (fdescs d). uses (the (fdescs d a)) f = 0" unfolding nrefs_def using that by (rule sum.neutral)
  ultimately obtain a where a: "a \<in> dom (fdescs d)" "uses (the (fdescs d a)) f \<noteq> 0" by (metis less_irrefl)
  then obtain F where F: "fdescs d a = Some F" "0 < uses F f" by auto
  obtain p where p: "d_fd d p = Some a" using fd_okD(9) [OF assms F(1)] by blast
  obtain i where "open_file i F = Some f" by (rule uses_open [OF fd_okD(4) [OF assms F(1)] F(2)])
  then have "dview d p i = Some (f, fd_ofileflags F ! i)" using p F(1) by (simp add: dview_def fdmap_def)
  then show "\<exists>p i fl. dview d p i = Some (f, fl)" by blast
next
  assume "\<exists>p i fl. dview d p i = Some (f, fl)"
  then obtain p i fl where "dview d p i = Some (f, fl)" by blast
  then have "0 < nrefs d f" by (rule dview_nrefs [OF assms])
  then show "files (d_ftab d) f \<noteq> None" by (rule files_invD(7) [OF fd_okD(3) [OF assms]])
qed

lemma k_open_reachable:
  assumes "k_inv ext k"
  shows "files (d_ftab (k_d k)) f \<noteq> None \<longleftrightarrow> reachable k f"
proof -
  have "p \<in> set (allproc (x_rsys (k_x k)))" if "dview (k_d k) p i = Some (f, fl)" for p i fl
    using that k_invD(4) [OF assms] by (auto simp: dview_def split: option.splits)
  then show ?thesis unfolding reachable_def open_reachable [OF k_invD(1) [OF assms]] by blast
qed

section \<open>Credentials of closed files\<close>

text \<open>Closing files drops references to credentials and does nothing else to them.\<close>

definition cr_sub :: "csys \<Rightarrow> csys \<Rightarrow> bool" where
  "cr_sub c c' \<longleftrightarrow> p_cred c' = p_cred c \<and> pcreds c' = pcreds c \<and> dom (ucreds c') \<subseteq> dom (ucreds c)"

lemma cr_sub_refl [simp]: "cr_sub c c"
  by (simp add: cr_sub_def)

lemma cr_sub_trans: "cr_sub a b \<Longrightarrow> cr_sub b c \<Longrightarrow> cr_sub a c"
  unfolding cr_sub_def by (metis subset_trans)

lemma crfree_sub: "crfree u c = Done c' \<Longrightarrow> cr_sub c c'"
  by (auto simp: crfree_def kmap_Done_iff kbind_Done_iff deref_Done_iff cr_sub_def split: if_splits)

lemma fd_mapped_creds [simp]: "f_creds (fd_mapped F k t) = f_creds t"
  by (simp add: fd_mapped_def)

lemma ffree_sub: "ffree f t = Done t' \<Longrightarrow> cr_sub (f_creds t) (f_creds t')"
  by (auto simp: ffree_def kmap_Done_iff kbind_Done_iff intro: crfree_sub)

lemma closef_sub: "closef c adv fp t = Done (e, t') \<Longrightarrow> cr_sub (f_creds t) (f_creds t')"
  by (auto simp: closef_def Let_def kmap_Done_iff kbind_Done_iff split: option.splits if_splits dest!: ffree_sub)

lemma fhold_sub: "fhold f t = Done t' \<Longrightarrow> f_creds t' = f_creds t"
  by (auto simp: fhold_def kmap_Done_iff)

lemma fdalloc_sub: "fdalloc p w s = Done (r, s') \<Longrightarrow> d_ftab s' = d_ftab s"
  by (auto simp: fdalloc_def kmap_Done_iff kbind_Done_iff put_fd_def)

lemma fd_assign_sub: "fd_assign p i f fl s = Done s' \<Longrightarrow> f_creds (d_ftab s') = f_creds (d_ftab s)"
  by (auto simp: fd_assign_def kmap_Done_iff kbind_Done_iff put_fd_def dest: fhold_sub)

lemma close_slot_sub: "close_slot c adv F k t = Done t' \<Longrightarrow> cr_sub (f_creds t) (f_creds t')"
  by (auto simp: close_slot_def kmap_Done_iff kbind_Done_iff split: option.splits dest!: closef_sub)

lemma close_slots_sub: "kfold (close_slot c adv F) ks t = Done t' \<Longrightarrow> cr_sub (f_creds t) (f_creds t')"
proof (induction ks arbitrary: t)
  case (Cons k ks)
  then obtain u where "close_slot c adv F k t = Done u" "kfold (close_slot c adv F) ks u = Done t'" by (auto simp: kbind_Done_iff)
  then show ?case using Cons.IH close_slot_sub cr_sub_trans by blast
qed simp

lemma cloexec_sub: "cloexec_slots c adv ks F t = Done (F', t') \<Longrightarrow> cr_sub (f_creds t) (f_creds t')"
proof (induction ks arbitrary: F t)
  case (Cons k ks)
  then obtain fp where fp: "fd_slot F k = Done fp" by (auto simp: kbind_Done_iff)
  show ?case
  proof (cases "fp \<noteq> None \<and> fd_ofileflags F ! k AND UF_EXCLOSE \<noteq> 0")
    case True
    then obtain e u where "closef c adv fp (fd_mapped F k t) = Done (e, u)" "cloexec_slots c adv ks (fd_clear k F) u = Done (F', t')"
      using Cons.prems fp by (auto simp: kbind_Done_iff)
    then show ?thesis using Cons.IH closef_sub [of c adv fp "fd_mapped F k t"] cr_sub_trans by fastforce
  next
    case False
    then show ?thesis using Cons fp by (auto split: if_splits)
  qed
qed simp

lemma dup_tail_sub:
  assumes "kbind (fdalloc p w s) (\<lambda>(r, s1). case r of None \<Rightarrow> Done (EMFILE, 0, s1)
      | Some fd \<Rightarrow> kbind (proc_fd p s1) (\<lambda>(b, G). if st G then Fault else kmap (\<lambda>s2. (0, fd, s2)) (fd_assign p fd f (fl G) s1))) = Done (e, v, s')"
  shows "f_creds (d_ftab s') = f_creds (d_ftab s)"
proof -
  obtain r s1 where r: "fdalloc p w s = Done (r, s1)" using assms by (auto simp: kbind_Done_iff)
  show ?thesis
  proof (cases r)
    case None
    then show ?thesis using assms r fdalloc_sub [OF r] by simp
  next
    case (Some fd)
    then show ?thesis using assms r fdalloc_sub [OF r]
      by (auto simp: kbind_Done_iff kmap_Done_iff split: if_split_asm dest!: fd_assign_sub)
  qed
qed

lemma fd_exec_sub:
  assumes "fd_exec c p call s = Done (e, v, s')"
  shows "cr_sub (f_creds (d_ftab s)) (f_creds (d_ftab s'))"
proof (cases call)
  case (Dup i)
  then show ?thesis using assms
    by (auto simp: dup_def kbind_Done_iff kmap_Done_iff split: option.split_asm dest!: fdalloc_sub fd_assign_sub)
next
  case (Dupfd i arg)
  then obtain a F where F: "proc_fd p s = Done (a, F)" using assms by (auto simp: dupfd_def kbind_Done_iff)
  show ?thesis
  proof (cases "open_file i F = None \<or> as_unsigned (d_lim s p) \<le> arg")
    case True
    then show ?thesis using assms Dupfd F by (auto simp: dupfd_def split: option.split_asm)
  next
    case False
    then obtain f where f: "open_file i F = Some f" by auto
    have "f_creds (d_ftab s') = f_creds (d_ftab s)"
      by (rule dup_tail_sub [of p arg s "\<lambda>G. NDFILE < fd_nfiles F \<and> fd_nfiles G \<noteq> fd_nfiles F" f "\<lambda>G. fd_ofileflags G ! i AND NOT UF_EXCLOSE" e v])
        (use assms Dupfd F f False in \<open>simp add: dupfd_def\<close>)
    then show ?thesis by simp
  qed
next
  case (Dup2 old new)
  then obtain a F where F: "proc_fd p s = Done (a, F)" using assms by (auto simp: dup2_def kbind_Done_iff)
  show ?thesis
  proof (cases "open_file old F = None \<or> as_unsigned (d_lim s p) \<le> new \<or> old = new")
    case True
    then show ?thesis using assms Dup2 F by (auto simp: dup2_def split: option.split_asm if_split_asm)
  next
    case False
    then obtain f where f: "open_file old F = Some f" by auto
    define m where "m = (if fd_nfiles F \<le> new then
        kbind (fdalloc p new s) (\<lambda>(r, s1). case r of None \<Rightarrow> Done (EMFILE, s1) | Some i \<Rightarrow> if new \<noteq> i then Panic ''dup2: fdalloc'' else Done (0, s1))
      else if fd_ofiles F ! new \<noteq> None then
        kmap (\<lambda>(e, t). (0, s\<lparr>d_ftab := t\<rparr>)) (closef c (p_sadvlck s p) (fd_ofiles F ! new) (fd_mapped F new (d_ftab s)))
      else Done (0, s))"
    have "kbind m (\<lambda>(e, s1). if e \<noteq> 0 then Done (e, new, s1)
        else kbind (proc_fd p s1) (\<lambda>(a, G). kmap (\<lambda>s2. (0, new, s2)) (fd_assign p new f (fd_ofileflags G ! old AND NOT UF_EXCLOSE) s1))) = Done (e, v, s')"
      using assms Dup2 F f False by (simp add: dup2_def m_def)
    then obtain e1 s1 where m: "m = Done (e1, s1)" and tail: "f_creds (d_ftab s') = f_creds (d_ftab s1)"
      by (auto simp: kbind_Done_iff kmap_Done_iff split: if_split_asm dest: fd_assign_sub)
    have "cr_sub (f_creds (d_ftab s)) (f_creds (d_ftab s1))"
      using m unfolding m_def
      by (auto simp: kbind_Done_iff kmap_Done_iff split: if_split_asm option.split_asm dest!: fdalloc_sub closef_sub)
    then show ?thesis using tail by simp
  qed
next
  case (Close i)
  then show ?thesis using assms
    by (auto simp: close_def Let_def kbind_Done_iff kmap_Done_iff put_fd_def split: option.split_asm dest!: closef_sub)
qed

lemma exit_fd_sub: "exit_fd c p s = Done s' \<Longrightarrow> cr_sub (f_creds (d_ftab s)) (f_creds (d_ftab s'))"
  by (auto simp: exit_fd_def fdfree_def kbind_Done_iff kmap_Done_iff put_fd_def split: if_splits dest!: close_slots_sub simp del: upt_Suc)

lemma fdcloseexec_sub: "fdcloseexec c p s = Done s' \<Longrightarrow> cr_sub (f_creds (d_ftab s)) (f_creds (d_ftab s'))"
  by (auto simp: fdcloseexec_def kbind_Done_iff kmap_Done_iff put_fd_def dest!: cloexec_sub simp del: upt_Suc)

text \<open>The counts stay small while no file is opened.\<close>

lemma fcreds_le:
  assumes "finite (dom (files t))" "fobjs_keep t t'"
  shows "fcreds t' u \<le> fcreds t u"
  unfolding fcreds_def
proof (rule card_mono)
  show "finite {f. \<exists>fi. files t f = Some fi \<and> f_cred fi = u}" by (rule finite_subset [OF _ assms(1)]) auto
  have "\<exists>fi. files t f = Some fi \<and> f_cred fi = f_cred gi" if "files t' f = Some gi" for f gi
  proof -
    have "files t' f \<noteq> None" using that by simp
    then have "map_option (f_count_update (\<lambda>_. 0)) (files t' f) = map_option (f_count_update (\<lambda>_. 0)) (files t f)"
      using assms(2) unfolding fobjs_keep_def by blast
    then have "map_option (f_count_update (\<lambda>_. 0)) (files t f) = Some (f_count_update (\<lambda>_. 0) gi)" using that by simp
    then obtain fi where "files t f = Some fi" "f_count_update (\<lambda>_. 0) fi = f_count_update (\<lambda>_. 0) gi" by auto
    then show ?thesis by (cases fi; cases gi) simp
  qed
  then show "{f. \<exists>fi. files t' f = Some fi \<and> f_cred fi = u} \<subseteq> {f. \<exists>fi. files t f = Some fi \<and> f_cred fi = u}" by auto
qed

lemma creds_shrink:
  assumes d: "fd_ok ext d" and small: "refs_small (f_creds (d_ftab d))" and d': "fd_ok ext d'"
    and sub: "cr_sub (f_creds (d_ftab d)) (f_creds (d_ftab d'))" and keep: "fobjs_keep (d_ftab d) (d_ftab d')"
  shows "cred_ok (\<lambda>u. ext u + fcreds (d_ftab d') u) (f_creds (d_ftab d'))"
proof -
  let ?c = "f_creds (d_ftab d)" and ?c' = "f_creds (d_ftab d')"
  note I = files_invD(8) [OF fd_okD(3) [OF d]] and I' = files_invD(8) [OF fd_okD(3) [OF d']]
  have uu: "uusers ?c' u = uusers ?c u" for u using sub by (simp add: uusers_def cr_sub_def)
  have "unat (cr_ref cr) < 65535" if cr: "ucreds ?c' u = Some cr" for u cr
  proof -
    have "ucreds ?c u \<noteq> None" using sub cr unfolding cr_sub_def by blast
    then obtain cs where cs: "ucreds ?c u = Some cs" by auto
    have "unat (cr_ref cs) = card (uusers ?c u) + (ext u + fcreds (d_ftab d) u)" using I cs unfolding cred_inv_def by blast
    moreover have "unat (cr_ref cr) = card (uusers ?c u) + (ext u + fcreds (d_ftab d') u)" using I' cr unfolding cred_inv_def uu by blast
    moreover have "fcreds (d_ftab d') u \<le> fcreds (d_ftab d) u" by (rule fcreds_le [OF files_invD(9) [OF fd_okD(3) [OF d]] keep])
    ultimately have "unat (cr_ref cr) \<le> unat (cr_ref cs)" by simp
    then show ?thesis using small cs unfolding refs_small_def by fastforce
  qed
  then show ?thesis using I' by (simp add: cred_ok_def refs_small_def)
qed

lemma redirects_keep: "redirects p D s s' \<Longrightarrow> fobjs_keep (d_ftab s) (d_ftab s')"
  by (simp add: redirects_def fobjs_keep_def fobj_def)

lemma fd_frame_keep: "fd_frame p D s s' \<Longrightarrow> fobjs_keep (d_ftab s) (d_ftab s')"
  by (simp add: fd_frame_def fobjs_keep_def fobj_def)

section \<open>Every step keeps the invariant\<close>

lemma put_creds_sel [simp]:
  "x_creds (put_creds c x) = c" "x_jobs (put_creds c x) = x_jobs x" "x_sched (put_creds c x) = x_sched x"
  "allproc (x_rsys (put_creds c x)) = allproc (x_rsys x)" "zombproc (x_sys (put_creds c x)) = zombproc (x_sys x)"
  "initproc (put_creds c x) = initproc x" "p_stats (put_creds c x) = p_stats x"
  by (simp_all add: put_creds_def upd_r_def)

lemma x_inv_creds:
  assumes "x_inv E x" "cred_ok E' c" "dom (p_cred c) = dom (p_cred (x_creds x))"
  shows "x_inv E' (put_creds c x)"
proof -
  have F: "fork_inv E (x_sys x)" by (rule x_invD(1) [OF assms(1)])
  have "fork_inv E' (x_sys (put_creds c x))"
    using F assms(2,3) unfolding fork_inv_def by (simp add: put_creds_def upd_r_def)
  then show ?thesis using assms(1) unfolding x_inv_def put_creds_sel by blast
qed

lemma d_sync_ok:
  assumes "fd_ok ext d" "x_inv (\<lambda>u. ext u + fcreds (d_ftab d) u) x"
  shows "fd_ok ext (d_sync x d)" "f_creds (d_ftab (d_sync x d)) = x_creds x" "d_fd (d_sync x d) = d_fd d" "fdescs (d_sync x d) = fdescs d"
    "nrefs (d_sync x d) = nrefs d" "fcreds (d_ftab (d_sync x d)) = fcreds (d_ftab d)" "dview (d_sync x d) = dview d"
proof -
  have c: "cred_inv (\<lambda>u. ext u + fcreds (d_ftab d) u) (x_creds x)"
    using fork_invD(3) [OF x_invD(1) [OF assms(2)]] by (simp add: cred_ok_def)
  show "f_creds (d_ftab (d_sync x d)) = x_creds x" "d_fd (d_sync x d) = d_fd d" "fdescs (d_sync x d) = fdescs d" "nrefs (d_sync x d) = nrefs d"
    "dview (d_sync x d) = dview d"
    by (simp_all add: d_sync_def)
  show f: "fcreds (d_ftab (d_sync x d)) = fcreds (d_ftab d)" by (simp add: d_sync_def fcreds_def fun_eq_iff)
  show "fd_ok ext (d_sync x d)"
    using assms(1) c f unfolding fd_ok_def files_inv_def by (simp add: d_sync_def)
qed

lemma k_put_ok:
  assumes k: "k_inv ext k" and d: "fd_ok ext d" "cred_ok (\<lambda>u. ext u + fcreds (d_ftab d) u) (f_creds (d_ftab d))"
    "dom (p_cred (f_creds (d_ftab d))) = dom (p_cred (x_creds (k_x k)))" "d_fd d = d_fd (k_d k)"
  shows "k_inv ext (k_put d k)"
  unfolding k_inv_def using x_inv_creds [OF k_invD(2) [OF k] d(2,3)] d(1,4) k_invD(4) [OF k] by (simp add: k_put_def)

lemma k_shrink:
  assumes k: "k_inv ext k" and d: "fd_ok ext d" "cr_sub (f_creds (d_ftab (k_d k))) (f_creds (d_ftab d))" "fobjs_keep (d_ftab (k_d k)) (d_ftab d)"
  shows "cred_ok (\<lambda>u. ext u + fcreds (d_ftab d) u) (f_creds (d_ftab d))" "dom (p_cred (f_creds (d_ftab d))) = dom (p_cred (x_creds (k_x k)))"
proof -
  have "refs_small (f_creds (d_ftab (k_d k)))" using k_invD(3,5) [OF k] by (simp add: cred_ok_def)
  then show "cred_ok (\<lambda>u. ext u + fcreds (d_ftab d) u) (f_creds (d_ftab d))" by (rule creds_shrink [OF k_invD(1) [OF k] _ d])
  show "dom (p_cred (f_creds (d_ftab d))) = dom (p_cred (x_creds (k_x k)))" using d(2) k_invD(3) [OF k] by (simp add: cr_sub_def)
qed

lemma k_call_ok:
  assumes k: "k_inv ext k" and p: "p \<in> set (allproc (x_rsys (k_x k)))" and room: "\<forall>f. nrefs (k_d k) f < 32767"
    and run: "fd_exec c p call (k_d k) = Done (e, v, d)"
  shows "k_inv ext (k_put d k)"
proof -
  obtain a where a: "d_fd (k_d k) p = Some a" using p k_invD(4) [OF k] by auto
  obtain F where F: "fdescs (k_d k) a = Some F" by (rule proc_fd_Done [OF k_invD(1) [OF k] a])
  obtain D' where D: "fd_ok ext d" "redirects p D' (k_d k) d"
    using fd_calls_ok [OF k_invD(1) [OF k] a F room, where c = c and call = call] run by auto
  note S = k_shrink [OF k D(1) fd_exec_sub [OF run] redirects_keep [OF D(2)]]
  show ?thesis by (rule k_put_ok [OF k D(1) S]) (use D(2) in \<open>simp add: redirects_def\<close>)
qed

lemma k_cloexec_ok:
  assumes k: "k_inv ext k" and p: "p \<in> set (allproc (x_rsys (k_x k)))" and run: "fdcloseexec c p (k_d k) = Done d"
  shows "k_inv ext (k_put d k)"
proof -
  obtain a where a: "d_fd (k_d k) p = Some a" using p k_invD(4) [OF k] by auto
  obtain D' where D: "fd_ok ext d" "redirects p D' (k_d k) d"
    using fdcloseexec_ok [OF k_invD(1) [OF k] a, where c = c] run by auto
  note S = k_shrink [OF k D(1) fdcloseexec_sub [OF run] redirects_keep [OF D(2)]]
  show ?thesis by (rule k_put_ok [OF k D(1) S]) (use D(2) in \<open>simp add: redirects_def\<close>)
qed

lemma falloc_creds:
  assumes "falloc fa mem p s = Done (e, i, s')"
  shows "p_cred (f_creds (d_ftab s')) = p_cred (f_creds (d_ftab s))"
proof -
  obtain r s1 where r: "fdalloc p 0 s = Done (r, s1)" using assms by (auto simp: falloc_def kbind_Done_iff)
  note d = fdalloc_sub [OF r]
  have h: "p_cred c' = p_cred c" if "crhold u c = Done c'" for u c c' using that by (auto simp: crhold_def kmap_Done_iff)
  show ?thesis
  proof (cases r)
    case None
    then show ?thesis using assms r d by (simp add: falloc_def)
  next
    case (Some j)
    then show ?thesis using assms r d
      by (auto simp: falloc_def kbind_Done_iff kmap_Done_iff put_fd_def split: if_split_asm dest!: h)
  qed
qed

lemma falloc_dfd:
  assumes "falloc fa mem p s = Done (e, i, s')"
  shows "d_fd s' = d_fd s"
proof -
  obtain r s1 where r: "fdalloc p 0 s = Done (r, s1)" using assms by (auto simp: falloc_def kbind_Done_iff)
  then have d: "d_fd s1 = d_fd s" by (auto simp: fdalloc_def kmap_Done_iff kbind_Done_iff put_fd_def)
  show ?thesis
  proof (cases r)
    case None
    then show ?thesis using assms r d by (simp add: falloc_def)
  next
    case (Some j)
    then show ?thesis using assms r d by (auto simp: falloc_def kbind_Done_iff kmap_Done_iff put_fd_def split: if_split_asm)
  qed
qed

lemma k_open_ok:
  assumes k: "k_inv ext k" and p: "p \<in> set (allproc (x_rsys (k_x k)))" and fa: "files (d_ftab (k_d k)) fa = None"
    and run: "falloc fa mem p (k_d k) = Done (e, i, d)" and small: "refs_small (f_creds (d_ftab d))"
  shows "k_inv ext (k_put d k)"
proof -
  note K = k_invD [OF k] and F = fork_invD [OF x_invD(1) [OF k_invD(2) [OF k]]]
  obtain a where a: "d_fd (k_d k) p = Some a" using p K(4) by auto
  obtain G where G: "fdescs (k_d k) a = Some G" by (rule proc_fd_Done [OF K(1) a])
  have "p \<in> dom (p_cred (x_creds (k_x k)))" using p F(6,7) by auto
  then obtain b where b: "p_cred (x_creds (k_x k)) p = Some b" by auto
  obtain pc cr where pc: "pcreds (x_creds (k_x k)) b = Some pc" "ucreds (x_creds (k_x k)) (pc_ucred pc) = Some cr"
    "get_pcred p (x_creds (k_x k)) = Done (b, pc)"
    using cred_inv_get [OF _ b] F(3) unfolding cred_ok_def by metis
  have "unat (cr_ref cr) < 65535" using F(3) pc(2) unfolding cred_ok_def refs_small_def by blast
  then have room: "0 < cr_room (f_creds (d_ftab (k_d k))) (pc_ucred pc)" using pc(2) K(3) by (simp add: cr_room_def)
  have D: "fd_ok ext d" using falloc_ok [OF K(1) a G fa _ room, of b mem] pc(3) K(3) run by simp
  have "cred_ok (\<lambda>u. ext u + fcreds (d_ftab d) u) (f_creds (d_ftab d))"
    using files_invD(8) [OF fd_okD(3) [OF D]] small by (simp add: cred_ok_def)
  then show ?thesis
    by (rule k_put_ok [OF k D]) (use falloc_creds [OF run] falloc_dfd [OF run] K(3) in simp_all)
qed

text \<open>The exit of a process closes what only it had open.\<close>

lemma k_exit_ok:
  assumes k: "k_inv ext k" and p: "p \<in> set (allproc (x_rsys (k_x k)))" "ssys.curproc (x_sched (k_x k)) = p" "p_stats (k_x k) p" "p \<noteq> initproc (k_x k)"
    and par: "parent (x_jobs (k_x k)) p = Some pp"
    and init: "\<forall>c g. parent (x_jobs (k_x k)) c = Some p \<longrightarrow> live (x_jobs (k_x k)) c \<longrightarrow> grp (x_jobs (k_x k)) c = Some g \<longrightarrow>
      \<not> links (x_jobs (k_x k)) (grp (x_jobs (k_x k)) (initproc (k_x k))) g"
  shows "\<exists>k'. k_exit c p rv k = Done k' \<and> k_inv ext k' \<and> fd_frame p (\<lambda>_. None) (k_d k) (k_d k') \<and>
    set (allproc (x_rsys (k_x k'))) = set (allproc (x_rsys (k_x k))) - {p} \<and> p \<in> set (zombproc (x_sys (k_x k'))) \<and> p_status (k_x k') p = rv \<and>
    (settled (k_x k) \<longrightarrow> settled (k_x k'))"
proof -
  note K = k_invD [OF k]
  obtain a where a: "d_fd (k_d k) p = Some a" using p(1) K(4) by auto
  obtain F where F: "fdescs (k_d k) a = Some F" by (rule proc_fd_Done [OF K(1) a])
  obtain d where d: "exit_fd c p (k_d k) = Done d" "fd_ok ext d" "fd_frame p (\<lambda>_. None) (k_d k) d" "d_fd d p = None"
    using exit_fd_ok [OF K(1) a F] by blast
  note S = k_shrink [OF k d(2) exit_fd_sub [OF d(1)] fd_frame_keep [OF d(3)]]
  let ?x = "put_creds (f_creds (d_ftab d)) (k_x k)"
  have xi: "x_inv (\<lambda>u. ext u + fcreds (d_ftab d) u) ?x" by (rule x_inv_creds [OF K(2) S])
  have init': "\<forall>c g. parent (x_jobs ?x) c = Some p \<longrightarrow> live (x_jobs ?x) c \<longrightarrow> grp (x_jobs ?x) c = Some g \<longrightarrow>
      \<not> links (x_jobs ?x) (grp (x_jobs ?x) (initproc ?x)) g" using init by simp
  have p': "p \<in> set (allproc (x_rsys ?x))" "ssys.curproc (x_sched ?x) = p" "p_stats ?x p" "p \<noteq> initproc ?x" "parent (x_jobs ?x) p = Some pp"
    using p par by simp_all
  obtain x' where x': "exit p rv ?x = Done x'" "x_inv (\<lambda>u. ext u + fcreds (d_ftab d) u) x'" "exits_to p pp rv ?x x'"
    using exit_ok [OF xi p' init', of rv] by blast
  have "f_creds (d_ftab d) = x_creds x'" using x'(3) by (simp add: exits_to_def)
  have q: "q \<in> set (allproc (x_rsys x')) \<longleftrightarrow> q \<in> set (allproc (x_rsys (k_x k))) \<and> q \<noteq> p" for q
    using x'(3) x_invD(4) [OF x'(2), of q] x_invD(4) [OF K(2), of q] by (cases "q = p") (auto simp: exits_to_def)
  moreover have dd: "d_fd d = (d_fd (k_d k))(p := None)" using d(3,4) by (auto simp: fd_frame_def fun_eq_iff)
  ultimately have "dom (d_fd d) = set (allproc (x_rsys x'))" using K(4) by auto
  then have "k_inv ext \<lparr>k_x = x', k_d = d\<rparr>" using d(2) x'(2) \<open>f_creds (d_ftab d) = x_creds x'\<close> by (simp add: k_inv_def)
  moreover have "k_exit c p rv k = Done \<lparr>k_x = x', k_d = d\<rparr>" using d(1) x'(1) by (simp add: k_exit_def)
  moreover have "set (allproc (x_rsys x')) = set (allproc (x_rsys (k_x k))) - {p}" using q by auto
  moreover have "settled x'" if "settled (k_x k)" by (rule settled_exits [OF _ xi x'(2,3)]) (use that in simp)
  ultimately show ?thesis using d(3) x'(3) by (intro exI [of _ "\<lparr>k_x = x', k_d = d\<rparr>"]) (simp add: exits_to_def)
qed

lemma k_exit_not_init:
  assumes "k_inv ext k" "k_exit c p rv k = Done k'"
  shows "p \<noteq> initproc (k_x k)"
proof -
  have "\<exists>(d :: dsys) x. exit p rv (put_creds (f_creds (d_ftab d)) (k_x k)) = Done x" using assms(2) by (auto simp: k_exit_def kbind_Done_iff kmap_Done_iff)
  then obtain d :: dsys and x where "exit p rv (put_creds (f_creds (d_ftab d)) (k_x k)) = Done x" by blast
  then show ?thesis by (rule exit_not_init [OF k_invD(2) [OF assms(1)]]) simp
qed

lemma k_reap_ok:
  assumes k: "k_inv ext k" and x: "x_inv (\<lambda>u. ext u + fcreds (d_ftab (k_d k)) u) x" "set (allproc (x_rsys x)) = set (allproc (x_rsys (k_x k)))"
  shows "k_inv ext (k_reap x k)"
  using d_sync_ok [OF k_invD(1) [OF k] x(1)] x k_invD(4) [OF k] by (simp add: k_inv_def k_reap_def)

lemma k_wait_ok:
  assumes k: "k_inv ext k" and q: "q \<in> set (allproc (x_rsys (k_x k)))"
    and run: "wait4 cstat cru q pid options (k_x k) = Done (WReturn e rv x')"
  shows "k_inv ext (k_reap x' k)" "settled (k_x k) \<Longrightarrow> settled x'"
proof -
  have w: "wait_result (\<lambda>u. ext u + fcreds (d_ftab (k_d k)) u) cstat cru q pid options (k_x k) (WReturn e rv x')"
    using wait4_ok [OF k_invD(2) [OF k] q, of cstat cru pid options] run by simp
  note W = wait_result_keeps [OF w]
  show "k_inv ext (k_reap x' k)" by (rule k_reap_ok [OF k W(1)]) (simp add: W(2))
  show "settled x'" if "settled (k_x k)" by (rule settled_wait [OF that k_invD(2) [OF k] w])
qed

lemma k_sched_ok:
  assumes k: "k_inv ext k" and q: "syn_inv q" "ssys.curproc q \<in> insert 0 (set (allproc (x_rsys (k_x k))))"
    "\<forall>r. r \<notin> set (allproc (x_rsys (k_x k))) \<longrightarrow> sproc.p_stat (procs q r) = sproc.p_stat (procs (x_sched (k_x k)) r)"
  shows "k_inv ext (k\<lparr>k_x := put_sched q (k_x k)\<rparr>)"
  using x_sched_inv [OF k_invD(2) [OF k] q] k by (auto simp: k_inv_def put_sched_def upd_r_def)

text \<open>
  A table can be copied: no count overflows, and the copy is not cut short (\<open>fdcopy_drops_last\<close> shows a
  table for which it is).
\<close>

definition copyable :: "nat \<Rightarrow> dsys \<Rightarrow> bool" where
  "copyable p d \<longleftrightarrow> (\<forall>a F. d_fd d p = Some a \<longrightarrow> fdescs d a = Some F \<longrightarrow>
     (\<forall>f. nrefs d f + uses F f \<le> 32767) \<and> fd_lastfile F < fd_copysize F)"

lemma fork_fd_keeps:
  assumes ok: "fd_ok ext s" "fd_ok ext s'" and n: "\<forall>f. nrefs s' f = nrefs s f + uses F f" and keep: "fobjs_keep (d_ftab s) (d_ftab s')"
  shows "fcreds (d_ftab s') = fcreds (d_ftab s)"
proof -
  have "files (d_ftab s') f \<noteq> None" if o: "files (d_ftab s) f \<noteq> None" for f
  proof -
    obtain fi where "files (d_ftab s) f = Some fi" using o by auto
    then have "0 < nrefs s' f" using files_invD(5) [OF fd_okD(3) [OF ok(1)]] n by simp
    then show ?thesis by (rule files_invD(7) [OF fd_okD(3) [OF ok(2)]])
  qed
  then have "fobjs_keep (d_ftab s') (d_ftab s)" using keep unfolding fobjs_keep_def by metis
  then show ?thesis
    using fcreds_le [OF files_invD(9) [OF fd_okD(3) [OF ok(1)]] keep] fcreds_le [OF files_invD(9) [OF fd_okD(3) [OF ok(2)]]]
    by (intro ext order_antisym) blast+
qed

lemma k_fork_ok:
  assumes k: "k_inv ext k" and p1: "p1 \<in> set (allproc (x_rsys (k_x k)))" and p2: "jprocs (x_jobs (k_x k)) p2 = None" "(of_nat p2 :: u32) \<noteq> 0"
    and x: "x_fork dg isvfork p2 p1 (k_x k) = Some (Done (Inr (pid, x')))" and free: "pid \<notin> pids_of (numbers (x_jobs (k_x k)))"
    and na: "fdescs (k_d k) na = None" and cp: "copyable p1 (k_d k)"
  shows "\<exists>k'. k_fork dg isvfork na p2 p1 k = Some (Done (Inr (pid, k'))) \<and> k_inv ext k' \<and>
    dview (k_d k') p2 = dview (k_d k) p1 \<and> (\<forall>q. q \<noteq> p2 \<longrightarrow> dview (k_d k') q = dview (k_d k) q) \<and> k_x k' = x'"
proof -
  note K = k_invD [OF k]
  obtain a where a: "d_fd (k_d k) p1 = Some a" using p1 K(4) by auto
  obtain F where F: "fdescs (k_d k) a = Some F" by (rule proc_fd_Done [OF K(1) a])
  note X = x_fork_inv [OF K(2) p1 p2 x free]
  note Y = d_sync_ok [OF K(1) X(1)]
  have "p2 \<notin> set (allproc (x_rsys (k_x k)))" using x_invD(4) [OF K(2), of p2] p2(1) by (simp add: live_def)
  then have n2: "d_fd (k_d k) p2 = None" using K(4) by auto
  let ?s = "d_sync x' (k_d k)"
  have h: "d_fd ?s p1 = Some a" "fdescs ?s a = Some F" "fdescs ?s na = None" "d_fd ?s p2 = None" "\<forall>f. nrefs ?s f + uses F f \<le> 32767"
    "fd_lastfile F < fd_copysize F"
    using cp a F na n2 Y(3-5) by (auto simp: copyable_def)
  obtain d where d: "fork_fd na p2 p1 ?s = Done d" "fd_ok ext d" "fd_frame p2 (dview ?s p1) ?s d" "d_fd d p2 = Some na"
    "\<forall>f. nrefs d f = nrefs ?s f + uses F f" "f_creds (d_ftab d) = f_creds (d_ftab ?s)"
    using fork_fd_ok [OF Y(1) h] by blast
  have fc: "fcreds (d_ftab d) = fcreds (d_ftab ?s)" by (rule fork_fd_keeps [OF Y(1) d(2,5) fd_frame_keep [OF d(3)]])
  have "d_fd d = (d_fd (k_d k))(p2 \<mapsto> na)" using d(3,4) Y(3) by (auto simp: fd_frame_def fun_eq_iff)
  then have "dom (d_fd d) = set (allproc (x_rsys x'))" using X(2) K(4) by auto
  then have "k_inv ext \<lparr>k_x = x', k_d = d\<rparr>" using d(2,6) fc X(1) Y(2,6) by (simp add: k_inv_def)
  moreover have "k_fork dg isvfork na p2 p1 k = Some (Done (Inr (pid, \<lparr>k_x = x', k_d = d\<rparr>)))" using x d(1) by (simp add: k_fork_def)
  ultimately show ?thesis using d(3) Y(7) by (intro exI [of _ "\<lparr>k_x = x', k_d = d\<rparr>"]) (simp add: fd_frame_def)
qed

section \<open>Histories\<close>

text \<open>
  Live processes open, duplicate and close files, fork, execute, exit and wait, in any order, while the
  scheduler does what keeps its queues right.  Left out are the calls and opens that would overflow a count
  of references (32767 for a file, 65535 for credentials), the forks that are given a number in use (see
  \<open>pid_search_reuses\<close>) or whose copy of the table overflows a count or is cut short (\<open>copyable\<close>), and
  an exit of process 0, which has no parent.
\<close>

inductive klife :: "ksys \<Rightarrow> ksys \<Rightarrow> bool" for k0 where
  k_start: "klife k0 k0"
| k_call: "klife k0 k \<Longrightarrow> p \<in> set (allproc (x_rsys (k_x k))) \<Longrightarrow> \<forall>f. nrefs (k_d k) f < 32767 \<Longrightarrow>
    fd_exec c p call (k_d k) = Done (e, v, d) \<Longrightarrow> klife k0 (k_put d k)"
| k_open: "klife k0 k \<Longrightarrow> p \<in> set (allproc (x_rsys (k_x k))) \<Longrightarrow> files (d_ftab (k_d k)) fa = None \<Longrightarrow>
    falloc fa mem p (k_d k) = Done (e, i, d) \<Longrightarrow> refs_small (f_creds (d_ftab d)) \<Longrightarrow> klife k0 (k_put d k)"
| k_execve: "klife k0 k \<Longrightarrow> p \<in> set (allproc (x_rsys (k_x k))) \<Longrightarrow>
    fdcloseexec c p (k_d k) = Done d \<Longrightarrow> klife k0 (k_put d k)"
| k_forks: "klife k0 k \<Longrightarrow> p1 \<in> set (allproc (x_rsys (k_x k))) \<Longrightarrow> jprocs (x_jobs (k_x k)) p2 = None \<Longrightarrow> (of_nat p2 :: u32) \<noteq> 0 \<Longrightarrow>
    fdescs (k_d k) na = None \<Longrightarrow> k_fork dg isvfork na p2 p1 k = Some (Done (Inr (pid, k'))) \<Longrightarrow>
    pid \<notin> pids_of (numbers (x_jobs (k_x k))) \<Longrightarrow> copyable p1 (k_d k) \<Longrightarrow> klife k0 k'"
| k_exits: "klife k0 k \<Longrightarrow> p \<in> set (allproc (x_rsys (k_x k))) \<Longrightarrow> ssys.curproc (x_sched (k_x k)) = p \<Longrightarrow>
    parent (x_jobs (k_x k)) p = Some pp \<Longrightarrow> k_exit c p rv k = Done k' \<Longrightarrow> klife k0 k'"
| k_waits: "klife k0 k \<Longrightarrow> q \<in> set (allproc (x_rsys (k_x k))) \<Longrightarrow>
    wait4 cstat cru q pid options (k_x k) = Done (WReturn e rv x') \<Longrightarrow> klife k0 (k_reap x' k)"
| k_sched: "klife k0 k \<Longrightarrow> syn_inv q \<Longrightarrow> ssys.curproc q \<in> insert 0 (set (allproc (x_rsys (k_x k)))) \<Longrightarrow>
    (\<forall>r. r \<notin> set (allproc (x_rsys (k_x k))) \<longrightarrow> sproc.p_stat (procs q r) = sproc.p_stat (procs (x_sched (k_x k)) r)) \<Longrightarrow>
    klife k0 (k\<lparr>k_x := put_sched q (k_x k)\<rparr>)"

lemma k_put_settled [simp]: "settled (k_x (k_put d k)) = settled (k_x k)"
  by (simp add: k_put_def)

lemma k_fork_fork:
  assumes "k_fork dg isvfork na p2 p1 k = Some (Done (Inr (pid, k')))"
  obtains x where "x_fork dg isvfork p2 p1 (k_x k) = Some (Done (Inr (pid, x)))"
proof -
  obtain z where z: "x_fork dg isvfork p2 p1 (k_x k) = Some z" using assms by (auto simp: k_fork_def)
  then obtain r where r: "z = Done r" using assms by (cases z) (auto simp: k_fork_def)
  show thesis by (cases r) (use assms z r that in \<open>auto simp: k_fork_def kmap_Done_iff\<close>)
qed

lemma klife_inv:
  assumes "k_inv ext k0" "settled (k_x k0)" "klife k0 k"
  shows "k_inv ext k \<and> settled (k_x k)"
  using assms(3)
proof (induction rule: klife.induct)
  case k_start
  show ?case using assms(1,2) by blast
next
  case (k_call k p c call e v d)
  then show ?case using k_call_ok [OF _ k_call.hyps(2-4)] by simp
next
  case (k_open k p fa mem e i d)
  then show ?case using k_open_ok [OF _ k_open.hyps(2-5)] by simp
next
  case (k_execve k p c d)
  then show ?case using k_cloexec_ok [OF _ k_execve.hyps(2,3)] by simp
next
  case (k_forks k p1 p2 na dg isvfork pid k')
  then have k: "k_inv ext k" "settled (k_x k)" by blast+
  obtain x where x: "x_fork dg isvfork p2 p1 (k_x k) = Some (Done (Inr (pid, x)))" by (rule k_fork_fork [OF k_forks.hyps(6)])
  have "k_inv ext k'" "k_x k' = x"
    using k_fork_ok [OF k(1) k_forks.hyps(2-4) x k_forks.hyps(7,5,8)] k_forks.hyps(6) by simp_all
  then show ?case using x_fork_inv(3) [OF k_invD(2) [OF k(1)] k_forks.hyps(2-4) x k_forks.hyps(7) k(2)] by simp
next
  case (k_exits k p pp c rv k')
  then have k: "k_inv ext k" "settled (k_x k)" by blast+
  have st: "p_stats (k_x k) p" using k(2) k_exits.hyps(2) by (simp add: settled_def)
  obtain k1 where "k_exit c p rv k = Done k1" "k_inv ext k1" "settled (k_x k1)"
    using k_exit_ok [OF k(1) k_exits.hyps(2,3) st k_exit_not_init [OF k(1) k_exits.hyps(5)] k_exits.hyps(4) settled_init [OF k(2) k_invD(2) [OF k(1)]],
      of c rv] k(2) by blast
  then show ?case using k_exits.hyps(5) by simp
next
  case (k_waits k q cstat cru pid options e rv x')
  then have k: "k_inv ext k" "settled (k_x k)" by blast+
  note W = k_wait_ok [OF k(1) k_waits.hyps(2,3)]
  then show ?case using k(2) by (simp add: k_reap_def)
next
  case (k_sched k q)
  then show ?case using k_sched_ok [OF _ k_sched.hyps(2-4)] by simp
qed

text \<open>
  C2: no file leaks and none disappears.  The system starts with consistent tables, in which \<open>init\<close>
  shares its session with no other group.  Then in every history of opens, descriptor calls, forks,
  program executions, exits and waits, in which no count of references overflows, no fork is given a
  number in use and none cuts the copy of the table of descriptors short (the two are flaws of the code,
  see \<open>klife\<close>), a file is open exactly while a live process has a descriptor for it, and
  the tables of processes, credentials and descriptors stay consistent with each other.
\<close>

theorem no_file_leaks:
  assumes "k_inv ext k0" "settled (k_x k0)" "klife k0 k"
  shows "k_inv ext k \<and> (\<forall>f. files (d_ftab (k_d k)) f \<noteq> None \<longleftrightarrow> reachable k f)"
  using klife_inv [OF assms] k_open_reachable by blast

text \<open>
  C5: the exit of a process closes its files.  The process becomes a zombie with its status, the files
  that only it had open are closed, and every file another live process has open stays open, with its
  contents, under the same descriptors.
\<close>

theorem exit_closes_files:
  assumes k: "k_inv ext k" and p: "p \<in> set (allproc (x_rsys (k_x k)))" "ssys.curproc (x_sched (k_x k)) = p" "p_stats (k_x k) p" "p \<noteq> initproc (k_x k)"
    and par: "parent (x_jobs (k_x k)) p = Some pp"
    and init: "\<forall>c g. parent (x_jobs (k_x k)) c = Some p \<longrightarrow> live (x_jobs (k_x k)) c \<longrightarrow> grp (x_jobs (k_x k)) c = Some g \<longrightarrow>
      \<not> links (x_jobs (k_x k)) (grp (x_jobs (k_x k)) (initproc (k_x k))) g"
  shows "\<exists>k'. k_exit c p rv k = Done k' \<and> k_inv ext k' \<and> p \<in> set (zombproc (x_sys (k_x k'))) \<and> p_status (k_x k') p = rv \<and>
    (\<forall>f. files (d_ftab (k_d k')) f \<noteq> None \<longleftrightarrow>
      (\<exists>q \<in> set (allproc (x_rsys (k_x k))) - {p}. \<exists>i fl. dview (k_d k) q i = Some (f, fl))) \<and>
    (\<forall>q. q \<noteq> p \<longrightarrow> dview (k_d k') q = dview (k_d k) q) \<and> fobjs_keep (d_ftab (k_d k)) (d_ftab (k_d k'))"
proof -
  obtain k' where k': "k_exit c p rv k = Done k'" "k_inv ext k'" "fd_frame p (\<lambda>_. None) (k_d k) (k_d k')"
    "set (allproc (x_rsys (k_x k'))) = set (allproc (x_rsys (k_x k))) - {p}" "p \<in> set (zombproc (x_sys (k_x k')))" "p_status (k_x k') p = rv"
    using k_exit_ok [OF assms, of c rv] by blast
  have v: "\<forall>q. q \<noteq> p \<longrightarrow> dview (k_d k') q = dview (k_d k) q" using k'(3) by (simp add: fd_frame_def)
  then have "files (d_ftab (k_d k')) f \<noteq> None \<longleftrightarrow>
      (\<exists>q \<in> set (allproc (x_rsys (k_x k))) - {p}. \<exists>i fl. dview (k_d k) q i = Some (f, fl))" for f
    unfolding k_open_reachable [OF k'(2)] reachable_def k'(4) by (intro bex_cong) auto
  then show ?thesis using k' v fd_frame_keep [OF k'(3)] by blast
qed

text \<open>
  \<open>fork1\<close> shares the open files.  The child has the descriptors of its parent, each open file has
  one more reference for each of them, and no other process sees a difference.
\<close>

theorem fork_shares_files:
  assumes k: "k_inv ext k" and p1: "p1 \<in> set (allproc (x_rsys (k_x k)))" and p2: "jprocs (x_jobs (k_x k)) p2 = None" "(of_nat p2 :: u32) \<noteq> 0"
    and x: "x_fork dg isvfork p2 p1 (k_x k) = Some (Done (Inr (pid, x')))" and free: "pid \<notin> pids_of (numbers (x_jobs (k_x k)))"
    and na: "fdescs (k_d k) na = None" and cp: "copyable p1 (k_d k)"
  shows "\<exists>k'. k_fork dg isvfork na p2 p1 k = Some (Done (Inr (pid, k'))) \<and> k_inv ext k' \<and>
    dview (k_d k') p2 = dview (k_d k) p1 \<and> (\<forall>q. q \<noteq> p2 \<longrightarrow> dview (k_d k') q = dview (k_d k) q)"
  using k_fork_ok [OF assms] by blast

section \<open>An example\<close>

text \<open>The processes of \<open>xsys_demo\<close>, of which 12 and 11 have the same file open.\<close>

definition ksys_demo :: "csys \<Rightarrow> ksys" where
  "ksys_demo c = \<lparr>k_x = xsys_demo, k_d = \<lparr>d_ftab = \<lparr>files = [7 \<mapsto> \<lparr>f_flag = 3, f_type = 1, f_count = 2, f_msgcount = 0, f_cred = 70, f_offset = 0, f_data = 4\<rparr>],
       filehead = [7], nfiles = 1, f_creds = c, f_events = []\<rparr>,
     fdescs = [5 \<mapsto> tab_demo 20 1, 6 \<mapsto> tab_demo 20 1, 8 \<mapsto> tab_demo 20 0], d_fd = [12 \<mapsto> 5, 11 \<mapsto> 6, 10 \<mapsto> 8],
     maxfiles = 100, d_lim = (\<lambda>_. 64), p_sadvlck = (\<lambda>_. False)\<rparr>\<rparr>"

lemma xsys_demo_creds: "x_creds xsys_demo = r_creds (f_sys fsys_demo)"
  by (simp add: xsys_demo_def)

lemma ksys_demo_sel [simp]:
  "k_x (ksys_demo c) = xsys_demo" "d_fd (k_d (ksys_demo c)) = [12 \<mapsto> 5, 11 \<mapsto> 6, 10 \<mapsto> 8]"
  "fdescs (k_d (ksys_demo c)) = [5 \<mapsto> tab_demo 20 1, 6 \<mapsto> tab_demo 20 1, 8 \<mapsto> tab_demo 20 0]"
  "f_creds (d_ftab (k_d (ksys_demo c))) = c"
  by (simp_all add: ksys_demo_def)

lemma nrefs_kdemo: "nrefs (k_d (ksys_demo c)) f = (if f = 7 then 2 else 0)"
proof -
  have "dom (fdescs (k_d (ksys_demo c))) = {5, 6, 8}" by auto
  then show ?thesis by (simp add: nrefs_def uses_demo)
qed

lemma fcreds_kdemo: "fcreds (d_ftab (k_d (ksys_demo c))) = ext_demo"
proof
  fix u
  have "{f. \<exists>fi. files (d_ftab (k_d (ksys_demo c))) f = Some fi \<and> f_cred fi = u} = (if u = 70 then {7} else {})"
    by (auto simp: ksys_demo_def)
  then show "fcreds (d_ftab (k_d (ksys_demo c))) u = ext_demo u" by (simp add: fcreds_def ext_demo_def)
qed

lemma dview_kdemo:
  "dview (k_d (ksys_demo c)) q i = (if q \<in> {11, 12} \<and> i = 0 then Some (7, 0) else None)"
  by (auto simp: dview_def fdmap_def open_file_def) (auto simp: tab_demo_def nth_append split: if_splits)

lemma tab_demo_ok: "NDFILE \<le> n \<Longrightarrow> n \<le> 65536 \<Longrightarrow> k \<le> n \<Longrightarrow> tab_ok (tab_demo n k)"
  unfolding tab_ok_def by (auto simp: tab_demo_def nth_append NDFILE_def split: if_splits)

lemma ksys_demo_inv: "k_inv (\<lambda>_. 0) (ksys_demo (x_creds xsys_demo))"
proof -
  let ?k = "ksys_demo (x_creds xsys_demo)"
  have e: "(\<lambda>u. 0 + fcreds (d_ftab (k_d ?k)) u) = ext_demo" by (simp add: fcreds_kdemo fun_eq_iff)
  have "cred_inv ext_demo (x_creds xsys_demo)" using fsys_demo_cred(1) by (simp add: xsys_demo_creds cred_ok_def)
  then have "files_inv (\<lambda>_. 0) (nrefs (k_d ?k)) (d_ftab (k_d ?k))"
    unfolding files_inv_def e by (auto simp: nrefs_kdemo) (auto simp: ksys_demo_def split: if_splits)
  moreover have "{q. d_fd (k_d ?k) q = Some 5} = {12}" "{q. d_fd (k_d ?k) q = Some 6} = {11}" "{q. d_fd (k_d ?k) q = Some 8} = {10}"
    by (auto split: if_splits)
  moreover have "fd_refcnt (tab_demo n m) = 1" for n m by (simp add: tab_demo_def)
  moreover have "tab_ok (tab_demo 20 1)" "tab_ok (tab_demo 20 0)" by (simp_all add: tab_demo_ok NDFILE_def)
  ultimately have "fd_ok (\<lambda>_. 0) (k_d ?k)"
    unfolding fd_ok_def by (auto split: if_splits) (auto simp: ksys_demo_def)
  then show ?thesis unfolding k_inv_def e using xsys_demo_inv by (auto split: if_splits)
qed

lemma ksys_demo_exit:
  fixes k :: ksys
  defines "k \<equiv> ksys_demo (x_creds xsys_demo)"
  shows "12 \<in> set (allproc (x_rsys (k_x k)))" "ssys.curproc (x_sched (k_x k)) = 12" "p_stats (k_x k) 12" "12 \<noteq> initproc (k_x k)"
    "parent (x_jobs (k_x k)) 12 = Some 11"
    "\<forall>c g. parent (x_jobs (k_x k)) c = Some 12 \<longrightarrow> live (x_jobs (k_x k)) c \<longrightarrow> grp (x_jobs (k_x k)) c = Some g \<longrightarrow>
      \<not> links (x_jobs (k_x k)) (grp (x_jobs (k_x k)) (initproc (k_x k))) g"
  by (auto simp: k_def xsched_demo_sel jsys_demo_views)

text \<open>Process 12 exits; its file stays open for process 11.\<close>

theorem exit_closes_files_witness:
  "\<exists>k'. k_exit (\<lambda>_. 0) 12 768 (ksys_demo (x_creds xsys_demo)) = Done k' \<and> p_status (k_x k') 12 = 768 \<and>
     files (d_ftab (k_d k')) 7 \<noteq> None \<and> files (d_ftab (k_d k')) 8 = None \<and> dview (k_d k') 11 0 = Some (7, 0)"
proof -
  let ?k = "ksys_demo (x_creds xsys_demo)"
  obtain k' where k': "k_exit (\<lambda>_. 0) 12 768 ?k = Done k'" "p_status (k_x k') 12 = 768"
    "\<forall>f. files (d_ftab (k_d k')) f \<noteq> None \<longleftrightarrow> (\<exists>q \<in> set (allproc (x_rsys (k_x ?k))) - {12}. \<exists>i fl. dview (k_d ?k) q i = Some (f, fl))"
    "\<forall>q. q \<noteq> 12 \<longrightarrow> dview (k_d k') q = dview (k_d ?k) q"
    using exit_closes_files [OF ksys_demo_inv ksys_demo_exit, of "\<lambda>_. 0" 768] by (elim exE conjE)
  have "11 \<in> set (allproc (x_rsys (k_x ?k))) - {12}" "dview (k_d ?k) 11 0 = Some (7, 0)" by (simp_all add: dview_kdemo)
  then have "files (d_ftab (k_d k')) 7 \<noteq> None" using k'(3) by blast
  moreover have "\<not> (\<exists>q \<in> set (allproc (x_rsys (k_x ?k))) - {12}. \<exists>i fl. dview (k_d ?k) q i = Some (8, fl))" by (simp add: dview_kdemo)
  then have "files (d_ftab (k_d k')) 8 = None" using k'(3) by blast
  ultimately show ?thesis using k'(1,2,4) by (intro exI [of _ k']) (simp add: dview_kdemo)
qed

theorem no_file_leaks_witness:
  "\<exists>k. klife (ksys_demo (x_creds xsys_demo)) k \<and> zombproc (x_sys (k_x k)) \<noteq> [] \<and> (\<forall>f. files (d_ftab (k_d k)) f \<noteq> None \<longleftrightarrow> reachable k f)"
proof -
  let ?k = "ksys_demo (x_creds xsys_demo)"
  obtain k' where k': "k_exit (\<lambda>_. 0) 12 768 ?k = Done k'" "12 \<in> set (zombproc (x_sys (k_x k')))"
    using k_exit_ok [OF ksys_demo_inv ksys_demo_exit, of "\<lambda>_. 0" 768] by blast
  have l: "klife ?k k'" by (rule k_exits [OF k_start ksys_demo_exit(1,2,5) k'(1)])
  have "settled (k_x ?k)" using xsys_demo_settled by simp
  from no_file_leaks [OF ksys_demo_inv this l] show ?thesis using l k'(2) by (intro exI [of _ k']) auto
qed

theorem fork_shares_files_witness:
  "\<exists>pid k'. k_fork False False 9 13 12 (ksys_demo (x_creds xsys_demo)) = Some (Done (Inr (pid, k'))) \<and> dview (k_d k') 13 0 = Some (7, 0)"
proof -
  let ?k = "ksys_demo (x_creds xsys_demo)"
  have jn: "jprocs (x_jobs (k_x ?k)) 13 = None" by (simp add: jsys_demo_def)
  have p: "12 \<in> set (allproc (x_rsys (k_x ?k)))" by simp
  have gap: "nextpid (x_sys (k_x ?k)) + 1 < pidchecked (x_sys (k_x ?k)) \<or> pid_apart (numbers (x_jobs (k_x ?k)))"
    by (simp add: xsys_demo_def)
  have ck: "fork_check False 12 (x_sys xsys_demo) = Done False"
    by (simp add: fork_check_def use_priv_def ROLE_NONE_def ucred_of_def with_uid.simps xsys_demo_def fsys_demo_def get_creds_def get_pcred_def pcred_demo_def get_limit_def
        rlimit_demo_def RLIMIT_NPROC_def ucred_demo_def)
  have fresh: "fresh_proc 13 (x_sys xsys_demo)" by (rule fresh_of_inv [OF xsys_demo_inv]) (simp_all add: jsys_demo_def)
  have p': "12 \<in> set (allproc (f_sys (x_sys xsys_demo)))" using p by simp
  obtain pid where pid: "next_number (x_sys xsys_demo) = Some pid" "pid \<notin> pids_of (numbers (r_jobs (f_sys (x_sys xsys_demo))))"
    using number_found [OF x_invD(1) [OF xsys_demo_inv] p' ck] gap by auto
  obtain s' where "fork1 False 13 12 (x_sys xsys_demo) = Some (Done (Inr (pid, s')))"
    using fork1_ok [OF x_invD(1) [OF xsys_demo_inv] p' fresh pid ck] by blast
  then obtain x' where x: "x_fork False False 13 12 (k_x ?k) = Some (Done (Inr (pid, x')))" by (simp add: x_fork_def)
  have cp: "copyable 12 (k_d ?k)"
    by (simp add: copyable_def nrefs_kdemo uses_demo fd_copysize_def NDFILE_def)
  show ?thesis
    using fork_shares_files [OF ksys_demo_inv p jn _ x _ _ cp, of 9] pid(2) by (auto simp: dview_kdemo)
qed

end
