(* ===== verification/Rlist.thy ===== *)
theory Rlist
  imports Interfaces
begin

text \<open>
  Resource lists (\<open>kern/subr/rlist.c\<close>, \<open>include/rlist.h\<close>): a linked list of inclusive
  extents of free units, used by the swap pager for the swap map.  The chain of \<open>rl_next\<close>
  pointers is a list of extents; a walk through \<open>rlp\<close> is recursion over that list.
  The abstract view is the set of free units.
\<close>

section \<open>Definitions\<close>

record rlist =
  rl_start :: u32
  rl_end :: u32

text \<open>
  The \<open>loop:\<close> part of \<open>rlist_free\<close>.  The flag of the result says that control reaches
  \<open>scan:\<close>.  \<open>mok\<close> is the outcome of the \<open>M_NOWAIT\<close> allocation made at the tail of the list;
  when it fails the code stores through the null pointer it returned.
\<close>

fun rlist_free_loop :: "bool \<Rightarrow> u32 \<Rightarrow> u32 \<Rightarrow> rlist list \<Rightarrow> (rlist list \<times> bool) kres" where
  "rlist_free_loop mok start end [] =
     (if mok then Done ([\<lparr>rl_start = start, rl_end = end\<rparr>], False) else Fault)"
| "rlist_free_loop mok start end (e # es) =
     (if start \<ge> rl_start e \<and> start \<le> rl_end e
      then Panic ''overlapping front rlist_free: freed twice?''
      else if end \<ge> rl_start e \<and> end \<le> rl_end e
      then Panic ''overlapping tail rlist_free: freed twice?''
      else if end + 1 = rl_start e then Done (e\<lparr>rl_start := start\<rparr> # es, True)
      else if end < rl_start e then Done (\<lparr>rl_start = start, rl_end = end\<rparr> # e # es, False)
      else if rl_end e + 1 = start then Done (e\<lparr>rl_end := end\<rparr> # es, True)
      else if start > rl_end e
      then kmap (\<lambda>(l, sc). (e # l, sc)) (rlist_free_loop mok start end es)
      else Panic ''rlist_free: can't happen'')"

text \<open>The \<open>scan:\<close> part: coalesce neighbours that have become adjacent.\<close>

fun rlist_scan :: "rlist list \<Rightarrow> rlist list" where
  "rlist_scan [] = []"
| "rlist_scan [lp] = [lp]"
| "rlist_scan (lp # lpn # es) =
     (if rl_end lp + 1 = rl_start lpn then rlist_scan (lp\<lparr>rl_end := rl_end lpn\<rparr> # es)
      else lp # rlist_scan (lpn # es))"

definition rlist_free :: "bool \<Rightarrow> rlist list \<Rightarrow> u32 \<Rightarrow> u32 \<Rightarrow> rlist list kres" where
  "rlist_free mok rl start end =
     kmap (\<lambda>(l, sc). if sc then rlist_scan l else l) (rlist_free_loop mok start end rl)"

text \<open>
  \<open>rlist_alloc\<close>: \<open>None\<close> is the return value 0; \<open>Some (loc, l)\<close> is the return value 1 with
  the value stored through \<open>loc\<close> (when the caller passes one) and the list left behind.
\<close>

fun rlist_alloc :: "rlist list \<Rightarrow> u32 \<Rightarrow> (u32 \<times> rlist list) option" where
  "rlist_alloc [] sz = None"
| "rlist_alloc (e # es) sz =
     (if sz \<le> rl_end e - rl_start e + 1
      then let e' = e\<lparr>rl_start := rl_start e + sz\<rparr>
           in Some (rl_start e, if rl_start e' > rl_end e' then es else e' # es)
      else map_option (\<lambda>(loc, l). (loc, e # l)) (rlist_alloc es sz))"

text \<open>\<open>rlist_destroy\<close> frees every element and leaves an empty list.\<close>

fun rlist_destroy :: "rlist list \<Rightarrow> rlist list" where
  "rlist_destroy [] = []"
| "rlist_destroy (lp # nlp) = rlist_destroy nlp"

section \<open>Abstract view and invariant\<close>

abbreviation lo :: "rlist \<Rightarrow> nat" where
  "lo e \<equiv> unat (rl_start e)"

abbreviation hi :: "rlist \<Rightarrow> nat" where
  "hi e \<equiv> unat (rl_end e)"

fun rl_units :: "rlist list \<Rightarrow> nat set" where
  "rl_units [] = {}"
| "rl_units (e # es) = {lo e..hi e} \<union> rl_units es"

text \<open>
  \<open>rl_ord_from g n l\<close>: the extents of \<open>l\<close> are non-empty, start at \<open>n\<close> or later, are in
  ascending order with at least \<open>g\<close> units between neighbours, and leave unit
  \<open>2 ^ 32 - 1\<close> out (the code computes \<open>rl_end + 1\<close>).  A list at rest has gaps (\<open>g = 1\<close>);
  inside \<open>rlist_free\<close>, between \<open>loop:\<close> and \<open>scan:\<close>, it may not (\<open>g = 0\<close>).
\<close>

fun rl_ord_from :: "nat \<Rightarrow> nat \<Rightarrow> rlist list \<Rightarrow> bool" where
  "rl_ord_from g n [] \<longleftrightarrow> True"
| "rl_ord_from g n (e # es) \<longleftrightarrow>
     n \<le> lo e \<and> lo e \<le> hi e \<and> hi e < 4294967295 \<and> rl_ord_from g (Suc (hi e) + g) es"

definition rl_wf :: "rlist list \<Rightarrow> bool" where
  "rl_wf l \<longleftrightarrow> rl_ord_from 1 0 l"

lemma rl_ord_from_mono: "rl_ord_from g n l \<Longrightarrow> m \<le> n \<Longrightarrow> g' \<le> g \<Longrightarrow> rl_ord_from g' m l"
  by (induction l arbitrary: m n) auto

lemma rl_units_ge: "rl_ord_from g n l \<Longrightarrow> x \<in> rl_units l \<Longrightarrow> n \<le> x"
  by (induction l arbitrary: n) fastforce+

lemma rl_units_less: "rl_ord_from g n l \<Longrightarrow> x \<in> rl_units l \<Longrightarrow> x < 4294967295"
  by (induction l arbitrary: n) fastforce+

lemma rlist_scan_props:
  "rl_ord_from 0 n l \<Longrightarrow> rl_ord_from 1 n (rlist_scan l) \<and> rl_units (rlist_scan l) = rl_units l"
proof (induction l arbitrary: n rule: rlist_scan.induct)
  case (3 lp lpn es)
  show ?case
  proof (cases "rl_end lp + 1 = rl_start lpn")
    case True
    with "3.prems" have a: "Suc (hi lp) = lo lpn" by (metis rl_ord_from.simps(2) unat32_Suc)
    with "3.prems" have "rl_ord_from 0 n (lp\<lparr>rl_end := rl_end lpn\<rparr> # es)" by simp
    moreover from a "3.prems" have "{lo lp..hi lpn} = {lo lp..hi lp} \<union> {lo lpn..hi lpn}" by auto
    ultimately show ?thesis using True "3.IH"(1) [OF True, of n] by (simp add: Un_assoc)
  next
    case False
    with "3.prems" have "Suc (hi lp) \<noteq> lo lpn"
      by (metis rl_ord_from.simps(2) unat32_Suc word_unat_eq_iff)
    with "3.prems" have "rl_ord_from 0 (Suc (hi lp) + 1) (lpn # es)" by simp
    with False "3.prems" "3.IH"(2) [OF False] show ?thesis by simp
  qed
qed auto

lemma rlist_free_loop_props:
  assumes "rl_ord_from 1 n l" "n \<le> unat start" "start \<le> end" "unat end < 4294967295"
    and "{unat start..unat end} \<inter> rl_units l = {}"
  shows "\<exists>l' sc. rlist_free_loop True start end l = Done (l', sc) \<and>
           rl_ord_from (if sc then 0 else 1) n l' \<and>
           rl_units l' = rl_units l \<union> {unat start..unat end}"
  using assms
proof (induction l arbitrary: n)
  case (Cons e es)
  note prems = Cons.prems
  have se: "unat start \<le> unat end" using prems(3) by (simp add: word_le_nat_alt)
  have disj: "unat start > hi e \<or> unat end < lo e"
  proof (rule ccontr)
    assume "\<not> ?thesis"
    then have "max (unat start) (lo e) \<in> {unat start..unat end} \<inter> {lo e..hi e}"
      using se prems(1) by auto
    with prems(5) show False unfolding rl_units.simps by blast
  qed
  have adj1: "end + 1 = rl_start e \<longleftrightarrow> Suc (unat end) = lo e"
    using prems(4) by (metis unat32_Suc word_unat_eq_iff)
  have adj2: "rl_end e + 1 = start \<longleftrightarrow> Suc (hi e) = unat start"
    using prems(1) by (metis rl_ord_from.simps(2) unat32_Suc word_unat_eq_iff)
  have ov: "\<not> (start \<ge> rl_start e \<and> start \<le> rl_end e)" "\<not> (end \<ge> rl_start e \<and> end \<le> rl_end e)"
    using disj se by (auto simp: word_le_nat_alt)
  have bef: "end < rl_start e \<longleftrightarrow> unat end < lo e" and aft: "start > rl_end e \<longleftrightarrow> hi e < unat start"
    by (simp_all add: word_less_nat_alt)
  note step = ov adj1 adj2 bef aft
  consider "Suc (unat end) = lo e" | "Suc (unat end) < lo e"
    | "Suc (hi e) = unat start" | "Suc (hi e) < unat start"
    using disj by linarith
  then show ?case
  proof cases
    case 1
    then have "{lo e..hi e} \<union> {unat start..unat end} = {unat start..hi e}"
      using se prems(1) by auto
    moreover have "rl_ord_from 0 (Suc (hi e)) es"
      using prems(1) rl_ord_from_mono [of 1 _ es "Suc (hi e)" 0] by auto
    ultimately show ?thesis using 1 prems(1,2) se by (auto simp: step)
  next
    case 2
    then show ?thesis using prems se by (auto simp: step)
  next
    case 3
    have "unat end < x" if "x \<in> rl_units es" for x
    proof (rule ccontr)
      assume "\<not> unat end < x"
      moreover have "Suc (hi e) + 1 \<le> x" using that prems(1) by (auto intro: rl_units_ge)
      ultimately have "x \<in> {unat start..unat end} \<inter> rl_units (e # es)" using 3 that by auto
      with prems(5) show False by blast
    qed
    then have "rl_ord_from 0 (Suc (unat end)) es"
    proof (cases es)
      case (Cons f fs)
      then have "lo f \<in> rl_units es" using prems(1) by simp
      then have "unat end < lo f" using \<open>\<And>x. x \<in> rl_units es \<Longrightarrow> unat end < x\<close> by blast
      with Cons prems(1) show ?thesis
        using rl_ord_from_mono [of 1 _ fs "Suc (hi f)" 0] by auto
    qed simp
    moreover have "{lo e..hi e} \<union> {unat start..unat end} = {lo e..unat end}"
      using 3 se prems(1) by auto
    ultimately show ?thesis using 3 prems se by (auto simp: step)
  next
    case 4
    with prems Cons.IH [of "Suc (hi e) + 1"] obtain l' sc where
      "rlist_free_loop True start end es = Done (l', sc)"
      "rl_ord_from (if sc then 0 else 1) (Suc (hi e) + 1) l'"
      "rl_units l' = rl_units es \<union> {unat start..unat end}"
      by auto
    moreover from this have "rl_ord_from 0 (Suc (hi e)) l'"
      using rl_ord_from_mono [of _ "Suc (hi e) + 1" l' "Suc (hi e)" 0] by (auto split: if_splits)
    ultimately show ?thesis using 4 prems se by (auto simp: step split: if_splits)
  qed
qed (auto simp: word_le_nat_alt)


lemma rlist_free_spec:
  assumes "rl_wf l" "start \<le> end" "unat end < 4294967295"
    and "{unat start..unat end} \<inter> rl_units l = {}"
  shows "\<exists>l'. rlist_free True l start end = Done l' \<and> rl_wf l' \<and>
           rl_units l' = rl_units l \<union> {unat start..unat end}"
proof -
  obtain l' sc where *: "rlist_free_loop True start end l = Done (l', sc)"
    "rl_ord_from (if sc then 0 else 1) 0 l'" "rl_units l' = rl_units l \<union> {unat start..unat end}"
    using rlist_free_loop_props [of 0 l start "end"] assms by (auto simp: rl_wf_def)
  then show ?thesis
    using rlist_scan_props [of 0 l'] by (auto simp: rlist_free_def rl_wf_def split: if_splits)
qed

lemma extent_size: "lo e \<le> hi e \<Longrightarrow> hi e < 4294967295 \<Longrightarrow>
    unat (rl_end e - rl_start e + 1) = Suc (hi e) - lo e"
  by (subst unat32_Suc; simp add: unat32_minus word_le_nat_alt)

lemma rlist_alloc_sound_from:
  assumes "rl_ord_from 1 n l" "0 < sz" "rlist_alloc l sz = Some (loc, l')"
  shows "rl_ord_from 1 n l' \<and> {unat loc..<unat loc + unat sz} \<subseteq> rl_units l \<and>
         rl_units l' = rl_units l - {unat loc..<unat loc + unat sz}"
  using assms
proof (induction l arbitrary: n l')
  case (Cons e es)
  have sz: "unat (rl_end e - rl_start e + 1) = Suc (hi e) - lo e"
    using Cons.prems(1) by (simp add: extent_size)
  have es: "Suc (hi e) < x" if "x \<in> rl_units es" for x
    using Cons.prems(1) rl_units_ge [OF _ that] by fastforce
  show ?case
  proof (cases "sz \<le> rl_end e - rl_start e + 1")
    case True
    then have fit: "unat sz \<le> Suc (hi e) - lo e" using sz by (simp add: word_le_nat_alt)
    then have ns: "unat (rl_start e + sz) = lo e + unat sz"
      using Cons.prems(1) by (intro unat32_plus) auto
    show ?thesis
    proof (cases "rl_start e + sz > rl_end e")
      case gt: True
      with ns fit have "lo e + unat sz = Suc (hi e)" using Cons.prems(1)
        by (auto simp: word_less_nat_alt)
      moreover have "rl_ord_from 1 n es"
        using Cons.prems(1) rl_ord_from_mono [of 1 _ es n 1] by auto
      moreover have "{lo e..hi e} \<inter> rl_units es = {}" using es by fastforce
      ultimately show ?thesis using True gt Cons.prems(3)
        by (auto simp: Let_def less_Suc_eq_le)
    next
      case False
      with ns have "lo e + unat sz \<le> hi e" by (simp add: word_less_nat_alt)
      moreover have "{lo e..<lo e + unat sz} \<inter> rl_units es = {}"
        using es \<open>lo e + unat sz \<le> hi e\<close> by fastforce
      then have U: "rl_units es - {lo e..<lo e + unat sz} = rl_units es" by blast
      have I: "{lo e..hi e} - {lo e..<lo e + unat sz} = {lo e + unat sz..hi e}" by auto
      have r: "loc = rl_start e" "l' = e\<lparr>rl_start := rl_start e + sz\<rparr> # es"
        using True False Cons.prems(3) by (auto simp: Let_def)
      have "rl_units l' = rl_units (e # es) - {lo e..<lo e + unat sz}"
        by (simp add: r ns Un_Diff U I)
      moreover have "{lo e..<lo e + unat sz} \<subseteq> rl_units (e # es)"
        using \<open>lo e + unat sz \<le> hi e\<close> by auto
      ultimately show ?thesis using r ns \<open>lo e + unat sz \<le> hi e\<close> Cons.prems(1) by simp
    qed
  next
    case False
    with Cons.prems(3) obtain l2 where l2: "rlist_alloc es sz = Some (loc, l2)" "l' = e # l2"
      by auto
    with Cons.IH [of "Suc (hi e) + 1" l2] Cons.prems have ih:
      "rl_ord_from 1 (Suc (hi e) + 1) l2" "{unat loc..<unat loc + unat sz} \<subseteq> rl_units es"
      "rl_units l2 = rl_units es - {unat loc..<unat loc + unat sz}" by auto
    have "{lo e..hi e} \<inter> {unat loc..<unat loc + unat sz} = {}"
      using ih(2) es by fastforce
    with ih l2 Cons.prems(1) show ?thesis by auto
  qed
qed simp

lemma rlist_alloc_complete_from:
  assumes "rl_ord_from 1 n l" "0 < sz" "rlist_alloc l sz = None"
  shows "\<not> {x..<x + unat sz} \<subseteq> rl_units l"
  using assms
proof (induction l arbitrary: n)
  case Nil
  then show ?case by (simp add: word_less_nat_alt)
next
  case (Cons e es)
  have big: "Suc (hi e) - lo e < unat sz" and none: "rlist_alloc es sz = None"
    using Cons.prems extent_size [of e] by (auto simp: word_nat not_le split: if_splits)
  have es: "Suc (hi e) < y" if "y \<in> rl_units es" for y
    using Cons.prems(1) rl_units_ge [OF _ that] by fastforce
  show ?case
  proof
    assume sub: "{x..<x + unat sz} \<subseteq> rl_units (e # es)"
    show False
    proof (cases "x \<in> {lo e..hi e}")
      case True
      then have "Suc (hi e) \<in> {x..<x + unat sz}" using big by auto
      with sub have "Suc (hi e) \<in> rl_units (e # es)" by blast
      with es [of "Suc (hi e)"] show False by auto
    next
      case False
      have "0 < unat sz" using Cons.prems(2) by (simp add: word_less_nat_alt)
      then have "x \<in> {x..<x + unat sz}" by simp
      then have "x \<in> rl_units (e # es)" using sub by blast
      then have "x \<in> rl_units es" using False by auto
      then have "Suc (hi e) < x" by (rule es)
      then have "{x..<x + unat sz} \<subseteq> rl_units es" using sub by auto
      with Cons.IH [of "Suc (hi e) + 1"] Cons.prems none show False by auto
    qed
  qed
qed

text \<open>A coalesced list is determined by its set of units.\<close>

lemma rl_units_inj_from:
  "rl_ord_from 1 n l \<Longrightarrow> rl_ord_from 1 m l' \<Longrightarrow> rl_units l = rl_units l' \<Longrightarrow> l = l'"
proof (induction l arbitrary: l' n m)
  case Nil
  then show ?case by (cases l') auto
next
  case (Cons e es)
  then obtain f fs where l': "l' = f # fs" by (cases l') auto
  have ese: "Suc (hi e) < y" if "y \<in> rl_units es" for y
    using Cons.prems(1) rl_units_ge [OF _ that] by fastforce
  have esf: "Suc (hi f) < y" if "y \<in> rl_units fs" for y
    using Cons.prems(2) l' rl_units_ge [OF _ that] by fastforce
  have eq: "x \<in> {lo e..hi e} \<or> x \<in> rl_units es \<longleftrightarrow> x \<in> {lo f..hi f} \<or> x \<in> rl_units fs" for x
    using Cons.prems(3) l' by auto
  have le: "lo e \<le> hi e" "lo f \<le> hi f" using Cons.prems(1,2) l' by auto
  have lo: "lo e = lo f"
    using eq [of "lo e"] eq [of "lo f"] le ese esf by (fastforce simp: Suc_lessD)
  have "\<not> hi e < hi f"
    using eq [of "Suc (hi e)"] le lo ese [of "Suc (hi e)"] by auto
  moreover have "\<not> hi f < hi e"
    using eq [of "Suc (hi f)"] le lo esf [of "Suc (hi f)"] by auto
  ultimately have hi: "hi e = hi f" by linarith
  have "x \<in> rl_units es \<longleftrightarrow> x \<in> rl_units fs" for x
    using eq [of x] ese [of x] esf [of x] lo hi by auto
  then have "rl_units es = rl_units fs" by blast
  with Cons.IH Cons.prems(1,2) l' have "es = fs" by auto
  moreover have "e = f" using lo hi by (simp add: word_unat_eq_iff [symmetric])
  ultimately show ?case using l' by simp
qed

section \<open>The resource list is a pool of extents\<close>

interpretation rlp: extent_pool rl_wf rl_units rlist_alloc "rlist_free True"
proof
  fix p q :: "rlist list" and sz loc b e :: u32 and x :: nat
  show "rl_wf q \<and> ext_units (loc, sz) \<subseteq> rl_units p \<and> rl_units q = rl_units p - ext_units (loc, sz)"
    if "rl_wf p" "0 < sz" "rlist_alloc p sz = Some (loc, q)"
    using rlist_alloc_sound_from [of 0 p sz loc q] that by (simp add: rl_wf_def)
  show "\<not> ext_units (loc, sz) \<subseteq> rl_units p" if "rl_wf p" "0 < sz" "rlist_alloc p sz = None"
    using rlist_alloc_complete_from [of 0 p sz "unat loc"] that by (simp add: rl_wf_def)
  show "\<exists>q. rlist_free True p b e = Done q \<and> rl_wf q \<and> rl_units q = rl_units p \<union> {unat b..unat e}"
    if "rl_wf p" "b \<le> e" "unat e < 4294967295" "{unat b..unat e} \<inter> rl_units p = {}"
    using rlist_free_spec [OF that] .
  show "x < 4294967295" if "rl_wf p" "x \<in> rl_units p"
    using that rl_units_less unfolding rl_wf_def by blast
  show "p = q" if "rl_wf p" "rl_wf q" "rl_units p = rl_units q"
    using that rl_units_inj_from unfolding rl_wf_def by blast
qed

text \<open>
  A history of the map: it starts as \<open>l0\<close>; clients allocate extents and give back extents
  they hold.  A release may have memory for a new element of the list or not (\<open>mok\<close>); one that faults
  ends the history.
\<close>

inductive rl_run :: "rlist list \<Rightarrow> rlist list \<Rightarrow> extent list \<Rightarrow> bool" for l0 where
  rl_start: "rl_run l0 l0 []"
| rl_get: "rl_run l0 l ow \<Longrightarrow> 0 < sz \<Longrightarrow> rlist_alloc l sz = Some (loc, l') \<Longrightarrow>
     rl_run l0 l' ((loc, sz) # ow)"
| rl_put: "rl_run l0 l ow \<Longrightarrow> (loc, sz) \<in> set ow \<Longrightarrow>
     rlist_free mok l loc (loc + sz - 1) = Done l' \<Longrightarrow> rl_run l0 l' (remove1 (loc, sz) ow)"

text \<open>Without memory a release does the same, or it faults, and that only at the tail of the list.\<close>

lemma rlist_free_loop_nomem:
  "rlist_free_loop False a b l = rlist_free_loop True a b l \<or>
   rlist_free_loop False a b l = Fault \<and> (\<forall>e\<in>set l. rl_end e < a \<and> rl_end e + 1 \<noteq> a)"
  by (induction l) auto

lemma rlist_free_nomem:
  "rlist_free mok l a b = rlist_free True l a b \<or>
   \<not> mok \<and> rlist_free mok l a b = Fault \<and> (\<forall>e\<in>set l. rl_end e < a \<and> rl_end e + 1 \<noteq> a)"
  using rlist_free_loop_nomem [of a b l] by (cases mok) (auto simp: rlist_free_def)

lemma rl_run_owns:
  assumes "rl_wf l0" "rl_run l0 l ow"
  shows "rlp.owns (rl_units l0) l ow"
  using assms(2)
proof induction
  case rl_start
  show ?case using assms(1) by (simp add: rlp.owns_def)
next
  case (rl_get l ow sz loc l')
  then show ?case by (blast intro: rlp.owns_alloc)
next
  case (rl_put l ow loc sz mok l')
  have "rlist_free True l loc (loc + sz - 1) = Done l'"
    using rlist_free_nomem [of mok l loc "loc + sz - 1"] rl_put.hyps(3) by (elim disjE conjE) simp_all
  then show ?case
    using rlp.owns_release [OF rl_put.IH rl_put.hyps(2) rlp.units_bound [OF assms(1)]] by auto
qed

section \<open>Properties\<close>

text \<open>
  freeing a region that is disjoint from what is already free never panics; it keeps the
  list ordered and coalesced and adds exactly that region to the free units.
\<close>

theorem rlist_free_adds_region:
  assumes "rl_wf l" "start \<le> end" "unat end < 4294967295"
    and "{unat start..unat end} \<inter> rl_units l = {}"
  shows "\<exists>l'. rlist_free True l start end = Done l' \<and> rl_wf l' \<and>
           rl_units l' = rl_units l \<union> {unat start..unat end}"
  using rlp.release_ok [OF assms] .

theorem rlist_free_adds_region_witness:
  "\<exists>l'. rlist_free True [\<lparr>rl_start = 1, rl_end = 2\<rparr>, \<lparr>rl_start = 5, rl_end = 9\<rparr>] 3 4 = Done l' \<and>
     rl_wf l' \<and> rl_units l' = {1..2} \<union> {5..9} \<union> {3..4}"
proof -
  let ?l = "[\<lparr>rl_start = 1, rl_end = 2\<rparr>, \<lparr>rl_start = 5, rl_end = 9\<rparr>]"
  have "rl_wf ?l" "(3 :: u32) \<le> 4" "unat (4 :: u32) < 4294967295"
    "{unat (3 :: u32)..unat (4 :: u32)} \<inter> rl_units ?l = {}"
    by (simp_all add: rl_wf_def) auto
  from rlist_free_adds_region [OF this] show ?thesis by simp
qed

text \<open>
  \<open>rlist_alloc\<close> is an exact allocator.  On success the extent it returns was free, is
  removed from the free units, and the list stays ordered and coalesced; on failure no run of
  free units of that size exists anywhere, at any position.
\<close>

theorem rlist_alloc_exact:
  assumes "rl_wf l" "0 < sz"
  shows "case rlist_alloc l sz of
           Some (loc, l') \<Rightarrow> rl_wf l' \<and> {unat loc..<unat loc + unat sz} \<subseteq> rl_units l \<and>
             rl_units l' = rl_units l - {unat loc..<unat loc + unat sz}
         | None \<Rightarrow> (\<forall>x. \<not> {x..<x + unat sz} \<subseteq> rl_units l)"
  using rlp.alloc_sound [OF assms] rlist_alloc_complete_from [of 0 l sz] assms
  by (auto simp: rl_wf_def split: option.split)

theorem rlist_alloc_exact_witness:
  "rlist_alloc [\<lparr>rl_start = 1, rl_end = 2\<rparr>, \<lparr>rl_start = 5, rl_end = 9\<rparr>] 3
     = Some (5, [\<lparr>rl_start = 1, rl_end = 2\<rparr>, \<lparr>rl_start = 8, rl_end = 9\<rparr>]) \<and>
   rl_units [\<lparr>rl_start = 1, rl_end = 2\<rparr>, \<lparr>rl_start = 8, rl_end = 9\<rparr>] = ({1..2} \<union> {5..9}) - {5..<8} \<and>
   (\<forall>x. \<not> {x..<x + 6} \<subseteq> {1..2} \<union> {5..9::nat})"
  using rlist_alloc_exact [of "[\<lparr>rl_start = 1, rl_end = 2\<rparr>, \<lparr>rl_start = 5, rl_end = 9\<rparr>]" 3]
    rlist_alloc_exact [of "[\<lparr>rl_start = 1, rl_end = 2\<rparr>, \<lparr>rl_start = 5, rl_end = 9\<rparr>]" 6]
  by (simp add: rl_wf_def)

text \<open>
  giving an extent back undoes the allocation: the list is again the one the allocation
  started from, element by element.
\<close>

theorem rlist_alloc_free_roundtrip:
  assumes "rl_wf l" "0 < sz" "rlist_alloc l sz = Some (loc, l')"
  shows "rlist_free True l' loc (loc + sz - 1) = Done l"
  using rlp.alloc_release [OF assms] .

theorem rlist_alloc_free_roundtrip_witness:
  "rlist_free True [\<lparr>rl_start = 1, rl_end = 2\<rparr>, \<lparr>rl_start = 8, rl_end = 9\<rparr>] 5 7
     = Done [\<lparr>rl_start = 1, rl_end = 2\<rparr>, \<lparr>rl_start = 5, rl_end = 9\<rparr>]"
  using rlist_alloc_free_roundtrip [of "[\<lparr>rl_start = 1, rl_end = 2\<rparr>, \<lparr>rl_start = 5, rl_end = 9\<rparr>]" 3 5
      "[\<lparr>rl_start = 1, rl_end = 2\<rparr>, \<lparr>rl_start = 8, rl_end = 9\<rparr>]"]
  by (simp add: rl_wf_def)

text \<open>
  C37: over any history of allocations and releases of an ordered list the extents held by clients and
  the free units partition the original units: nothing is handed out twice and nothing is lost; and a
  client can give back what it holds: the release succeeds if the allocation of a list element does.
  If that allocation (\<open>M_NOWAIT\<close>) fails the release does the same or, where it needs the element
  because the extent lies behind all free ones and touches none, it faults.
\<close>

theorem rl_run_partition:
  assumes "rl_wf l0" "rl_run l0 l ow"
  shows "exts_disjoint ow \<and> rl_units l \<inter> \<Union> (ext_units ` set ow) = {} \<and>
    rl_units l \<union> \<Union> (ext_units ` set ow) = rl_units l0 \<and>
    (\<forall>(loc, sz) \<in> set ow. \<exists>l'. rlist_free True l loc (loc + sz - 1) = Done l' \<and>
       (rlist_free False l loc (loc + sz - 1) = Done l' \<or>
        rlist_free False l loc (loc + sz - 1) = Fault \<and> (\<forall>e\<in>set l. rl_end e < loc \<and> rl_end e + 1 \<noteq> loc)))"
proof -
  have o: "rlp.owns (rl_units l0) l ow" by (rule rl_run_owns [OF assms])
  have "\<exists>l'. rlist_free True l loc (loc + sz - 1) = Done l' \<and>
       (rlist_free False l loc (loc + sz - 1) = Done l' \<or>
        rlist_free False l loc (loc + sz - 1) = Fault \<and> (\<forall>e\<in>set l. rl_end e < loc \<and> rl_end e + 1 \<noteq> loc))"
    if held: "(loc, sz) \<in> set ow" for loc sz
  proof -
    obtain l' where r: "rlist_free True l loc (loc + sz - 1) = Done l'"
      using rlp.owns_release [OF o held rlp.units_bound [OF assms(1)]] by blast
    from rlist_free_nomem [of False l loc "loc + sz - 1"] show ?thesis unfolding r by blast
  qed
  then show ?thesis using o unfolding rlp.owns_def by (intro conjI ballI) (simp_all add: case_prod_unfold)
qed

theorem rl_run_partition_witness:
  "exts_disjoint [(8, 2), (5, 3)] \<and> rl_units [] \<union> \<Union> (ext_units ` {(8, 2), (5, 3)}) = {5..9}"
proof -
  let ?l0 = "[\<lparr>rl_start = 5, rl_end = 9\<rparr>]"
  have wf: "rl_wf ?l0" by (simp add: rl_wf_def)
  have "rl_run ?l0 [\<lparr>rl_start = 8, rl_end = 9\<rparr>] [(5, 3)]"
    by (rule rl_get [OF rl_start]) simp_all
  then have "rl_run ?l0 [] [(8, 2), (5, 3)]" by (rule rl_get) simp_all
  from rl_run_partition [OF wf this] show ?thesis by simp
qed

text \<open>
  the double-free check is incomplete.  A region that starts right after an extent is
  merged with it before the extents behind it are looked at, so a region whose tail overlaps
  the next extent is accepted and the list holds unit 4 twice.
\<close>

theorem rlist_free_misses_overlap:
  "rlist_free True [\<lparr>rl_start = 1, rl_end = 2\<rparr>, \<lparr>rl_start = 4, rl_end = 5\<rparr>] 3 4
     = Done [\<lparr>rl_start = 1, rl_end = 4\<rparr>, \<lparr>rl_start = 4, rl_end = 5\<rparr>]"
  by (simp add: rlist_free_def)

end
