(* ===== verification/Ring.thy ===== *)
theory Ring
  imports Interfaces
begin

text \<open>
  The character ring buffers of the tty layer (\<open>kern/subr/ring.c\<close>, \<open>include/ringbuf.h\<close>).
  A pointer into \<open>rb_buf\<close> is its offset.  The abstract view is the list of buffered
  characters, oldest first; the buffer is a bounded double-ended queue that holds at most
  \<open>RBSZ - 1\<close> characters.
\<close>

section \<open>Definitions\<close>

definition RBSZ :: nat where
  "RBSZ = 1024"

record ringb =
  rb_hd :: nat
  rb_tl :: nat
  rb_buf :: "u8 list"

definition RB_SUCC :: "nat \<Rightarrow> nat" where
  "RB_SUCC p = (if p \<ge> RBSZ - 1 then 0 else p + 1)"

definition RB_ROLLOVER :: "nat \<Rightarrow> nat" where
  "RB_ROLLOVER p = (if p > RBSZ - 1 then 0 else p)"

definition RB_PRED :: "nat \<Rightarrow> nat" where
  "RB_PRED p = (if p \<le> 0 then RBSZ - 1 else p - 1)"

definition RB_LEN :: "ringb \<Rightarrow> nat" where
  "RB_LEN rp = (if rb_hd rp \<le> rb_tl rp then rb_tl rp - rb_hd rp else RBSZ - (rb_hd rp - rb_tl rp))"

definition RB_CONTIGPUT :: "ringb \<Rightarrow> nat" where
  "RB_CONTIGPUT rp = (if RB_PRED (rb_hd rp) < rb_tl rp then RBSZ - rb_tl rp
                      else RB_PRED (rb_hd rp) - rb_tl rp)"

definition RB_CONTIGGET :: "ringb \<Rightarrow> nat" where
  "RB_CONTIGGET rp = (if rb_hd rp \<le> rb_tl rp then rb_tl rp - rb_hd rp else RBSZ - rb_hd rp)"

text \<open>The operations return the C result and the buffer they leave.\<close>

definition putc :: "u32 \<Rightarrow> ringb \<Rightarrow> int \<times> ringb" where
  "putc c rbp =
     (let nxtp = RB_SUCC (rb_tl rbp)
      in if nxtp = rb_hd rbp then (-1, rbp)
         else (0, rbp\<lparr>rb_buf := (rb_buf rbp)[rb_tl rbp := ucast c], rb_tl := nxtp\<rparr>))"

definition getc :: "ringb \<Rightarrow> int \<times> ringb" where
  "getc rbp =
     (if rb_hd rbp = rb_tl rbp then (-1, rbp)
      else (uint (rb_buf rbp ! rb_hd rbp), rbp\<lparr>rb_hd := RB_SUCC (rb_hd rbp)\<rparr>))"

text \<open>
  \<open>nextc\<close> moves the caller's cursor; it returns a plain \<open>char\<close>, which is signed on the i386.
\<close>

definition nextc :: "nat \<Rightarrow> ringb \<Rightarrow> int \<times> nat" where
  "nextc cp rbp =
     (if cp = rb_tl rbp then (0, cp) else (sint (rb_buf rbp ! cp), RB_SUCC cp))"

definition ungetc :: "u32 \<Rightarrow> ringb \<Rightarrow> int \<times> ringb" where
  "ungetc c rbp =
     (let backp = RB_PRED (rb_hd rbp)
      in if backp = rb_tl rbp then (-1, rbp)
         else (0, rbp\<lparr>rb_hd := backp, rb_buf := (rb_buf rbp)[backp := ucast c]\<rparr>))"

definition unputc :: "ringb \<Rightarrow> int \<times> ringb" where
  "unputc rbp =
     (if rb_hd rbp = rb_tl rbp then (-1, rbp)
      else let backp = RB_PRED (rb_tl rbp)
           in (uint (rb_buf rbp ! backp), rbp\<lparr>rb_tl := backp\<rparr>))"

definition initrb :: "ringb \<Rightarrow> ringb" where
  "initrb rbp = rbp\<lparr>rb_hd := 0, rb_tl := 0\<rparr>"

text \<open>
  \<open>catb\<close> drains \<open>from\<close> into \<open>to\<close> (two different buffers).  The loop is a partial function:
  \<open>None\<close> stands for a loop that does not end.
\<close>

partial_function (option) catb :: "ringb \<Rightarrow> ringb \<Rightarrow> (ringb \<times> ringb) option" where
  "catb from to =
     (case getc from of (c, from') \<Rightarrow>
        if c \<ge> 0 then catb from' (snd (putc (of_int c) to)) else Some (from', to))"

section \<open>Abstract view and invariant\<close>

definition rb_wf :: "ringb \<Rightarrow> bool" where
  "rb_wf rb \<longleftrightarrow> rb_hd rb < RBSZ \<and> rb_tl rb < RBSZ \<and> length (rb_buf rb) = RBSZ"

definition rb_chars :: "ringb \<Rightarrow> u8 list" where
  "rb_chars rb = map (\<lambda>i. rb_buf rb ! ((rb_hd rb + i) mod RBSZ)) [0..<RB_LEN rb]"

lemmas rb_defs = RB_SUCC_def RB_PRED_def RB_LEN_def RBSZ_def

lemma length_rb_chars [simp]: "length (rb_chars rb) = RB_LEN rb"
  by (simp add: rb_chars_def)

lemma RB_SUCC_mod: "p < RBSZ \<Longrightarrow> RB_SUCC p = (p + 1) mod RBSZ"
  by (auto simp: RB_SUCC_def RBSZ_def mod_if)

lemma RB_PRED_mod: "p < RBSZ \<Longrightarrow> RB_PRED p = (p + (RBSZ - 1)) mod RBSZ"
  by (auto simp: RB_PRED_def RBSZ_def mod_if)

lemma RB_SUCC_bound: "p < RBSZ \<Longrightarrow> RB_SUCC p < RBSZ"
  by (auto simp: RB_SUCC_def RBSZ_def)

lemma RB_PRED_bound: "p < RBSZ \<Longrightarrow> RB_PRED p < RBSZ"
  by (auto simp: RB_PRED_def RBSZ_def)

lemma RB_SUCC_PRED: "p < RBSZ \<Longrightarrow> RB_SUCC (RB_PRED p) = p"
  by (auto simp: RB_SUCC_def RB_PRED_def RBSZ_def)

lemma RB_LEN_bound: "rb_wf rb \<Longrightarrow> RB_LEN rb < RBSZ"
  by (auto simp: rb_wf_def rb_defs)

lemma RB_LEN_eq_0: "rb_wf rb \<Longrightarrow> RB_LEN rb = 0 \<longleftrightarrow> rb_hd rb = rb_tl rb"
  by (auto simp: rb_wf_def rb_defs)

lemma RB_LEN_tl: "rb_wf rb \<Longrightarrow> (rb_hd rb + RB_LEN rb) mod RBSZ = rb_tl rb"
  by (auto simp: rb_wf_def rb_defs mod_if)

lemma RB_LEN_full: "rb_wf rb \<Longrightarrow> RB_SUCC (rb_tl rb) = rb_hd rb \<longleftrightarrow> RB_LEN rb = RBSZ - 1"
  by (auto simp: rb_wf_def rb_defs)

lemma RB_PRED_full: "rb_wf rb \<Longrightarrow> RB_PRED (rb_hd rb) = rb_tl rb \<longleftrightarrow> RB_LEN rb = RBSZ - 1"
  by (auto simp: rb_wf_def rb_defs)

lemma ring_index_inj:
  "h < RBSZ \<Longrightarrow> i < RBSZ \<Longrightarrow> j < RBSZ \<Longrightarrow> (h + i) mod RBSZ = (h + j) mod RBSZ \<Longrightarrow> i = j"
  by (auto simp: RBSZ_def mod_if split: if_splits)

lemma nth_rb_chars: "i < RB_LEN rb \<Longrightarrow> rb_chars rb ! i = rb_buf rb ! ((rb_hd rb + i) mod RBSZ)"
  by (simp add: rb_chars_def)

lemma putc_spec:
  assumes "rb_wf rb"
  shows "putc c rb = (if RB_LEN rb = RBSZ - 1 then (-1, rb) else (0, snd (putc c rb)))"
    and "rb_wf (snd (putc c rb))"
    and "RB_LEN rb < RBSZ - 1 \<Longrightarrow> rb_chars (snd (putc c rb)) = rb_chars rb @ [ucast c]"
proof -
  show "putc c rb = (if RB_LEN rb = RBSZ - 1 then (-1, rb) else (0, snd (putc c rb)))"
    using RB_LEN_full [OF assms] by (simp add: putc_def Let_def)
  show "rb_wf (snd (putc c rb))"
    using assms RB_SUCC_bound by (auto simp: putc_def Let_def rb_wf_def)
  assume room: "RB_LEN rb < RBSZ - 1"
  let ?rb = "rb\<lparr>rb_buf := (rb_buf rb)[rb_tl rb := ucast c], rb_tl := RB_SUCC (rb_tl rb)\<rparr>"
  have eq: "snd (putc c rb) = ?rb" using RB_LEN_full [OF assms] room by (simp add: putc_def Let_def)
  have len: "RB_LEN ?rb = Suc (RB_LEN rb)"
    using assms room by (auto simp: rb_wf_def rb_defs split: if_splits)
  show "rb_chars (snd (putc c rb)) = rb_chars rb @ [ucast c]"
  proof (rule nth_equalityI)
    fix i assume "i < length (rb_chars (snd (putc c rb)))"
    then have i: "i < Suc (RB_LEN rb)" by (simp add: eq len)
    show "rb_chars (snd (putc c rb)) ! i = (rb_chars rb @ [ucast c]) ! i"
    proof (cases "i = RB_LEN rb")
      case True
      then show ?thesis using assms RB_LEN_tl [OF assms]
        by (simp add: eq len nth_rb_chars nth_append rb_wf_def)
    next
      case False
      with i have "i < RB_LEN rb" by simp
      moreover have "(rb_hd rb + i) mod RBSZ \<noteq> rb_tl rb"
        using ring_index_inj [of "rb_hd rb" i "RB_LEN rb"] RB_LEN_tl [OF assms] RB_LEN_bound [OF assms]
          assms \<open>i < RB_LEN rb\<close> by (auto simp: rb_wf_def)
      ultimately show ?thesis by (simp add: eq len nth_rb_chars nth_append)
    qed
  qed (simp add: eq len)
qed

lemma getc_spec:
  assumes "rb_wf rb"
  shows "getc rb = (case rb_chars rb of [] \<Rightarrow> (-1, rb) | c # _ \<Rightarrow> (uint c, snd (getc rb)))"
    and "rb_wf (snd (getc rb))"
    and "rb_chars (snd (getc rb)) = tl (rb_chars rb)"
proof -
  show "rb_wf (snd (getc rb))"
    using assms RB_SUCC_bound by (auto simp: getc_def rb_wf_def)
  show "getc rb = (case rb_chars rb of [] \<Rightarrow> (-1, rb) | c # _ \<Rightarrow> (uint c, snd (getc rb)))"
  proof (cases "rb_chars rb")
    case Nil
    then have "RB_LEN rb = 0" by (metis length_rb_chars list.size(3))
    with Nil show ?thesis using RB_LEN_eq_0 [OF assms] by (simp add: getc_def)
  next
    case (Cons c cs)
    then have pos: "0 < RB_LEN rb" by (metis length_rb_chars length_greater_0_conv list.discI)
    then have "rb_buf rb ! rb_hd rb = c"
      using nth_rb_chars [of 0 rb] Cons assms by (simp add: rb_wf_def)
    with pos Cons show ?thesis using RB_LEN_eq_0 [OF assms] by (simp add: getc_def)
  qed
  show "rb_chars (snd (getc rb)) = tl (rb_chars rb)"
  proof (cases "rb_hd rb = rb_tl rb")
    case True
    then have "rb_chars rb = []" using RB_LEN_eq_0 [OF assms] by (metis length_0_conv length_rb_chars)
    with True show ?thesis by (simp add: getc_def)
  next
    case False
    let ?rb = "rb\<lparr>rb_hd := RB_SUCC (rb_hd rb)\<rparr>"
    have len: "RB_LEN ?rb = RB_LEN rb - 1"
      using assms False by (auto simp: rb_wf_def rb_defs split: if_splits)
    have "(RB_SUCC (rb_hd rb) + i) mod RBSZ = (rb_hd rb + Suc i) mod RBSZ" for i
      using assms by (simp add: rb_wf_def RB_SUCC_mod mod_add_left_eq)
    then show ?thesis using False
      by (intro nth_equalityI) (auto simp: getc_def len nth_rb_chars nth_tl)
  qed
qed

lemma ungetc_spec:
  assumes "rb_wf rb"
  shows "ungetc c rb = (if RB_LEN rb = RBSZ - 1 then (-1, rb) else (0, snd (ungetc c rb)))"
    and "rb_wf (snd (ungetc c rb))"
    and "RB_LEN rb < RBSZ - 1 \<Longrightarrow> rb_chars (snd (ungetc c rb)) = ucast c # rb_chars rb"
proof -
  show "ungetc c rb = (if RB_LEN rb = RBSZ - 1 then (-1, rb) else (0, snd (ungetc c rb)))"
    using RB_PRED_full [OF assms] by (simp add: ungetc_def Let_def)
  show "rb_wf (snd (ungetc c rb))"
    using assms RB_PRED_bound by (auto simp: ungetc_def Let_def rb_wf_def)
  assume room: "RB_LEN rb < RBSZ - 1"
  let ?b = "RB_PRED (rb_hd rb)"
  let ?rb = "rb\<lparr>rb_hd := ?b, rb_buf := (rb_buf rb)[?b := ucast c]\<rparr>"
  have eq: "snd (ungetc c rb) = ?rb" using RB_PRED_full [OF assms] room by (simp add: ungetc_def Let_def)
  have len: "RB_LEN ?rb = Suc (RB_LEN rb)"
    using assms room by (auto simp: rb_wf_def rb_defs split: if_splits)
  have b: "?b < RBSZ" using assms RB_PRED_bound by (simp add: rb_wf_def)
  have shift: "(?b + Suc i) mod RBSZ = (rb_hd rb + i) mod RBSZ" for i
    using assms RB_SUCC_PRED [of "rb_hd rb"] RB_SUCC_mod [OF b]
    by (metis add_Suc_right add_Suc_shift mod_add_left_eq plus_1_eq_Suc rb_wf_def add.commute)
  show "rb_chars (snd (ungetc c rb)) = ucast c # rb_chars rb"
  proof (rule nth_equalityI)
    fix i assume "i < length (rb_chars (snd (ungetc c rb)))"
    then have i: "i < Suc (RB_LEN rb)" by (simp add: eq len)
    show "rb_chars (snd (ungetc c rb)) ! i = (ucast c # rb_chars rb) ! i"
    proof (cases i)
      case 0
      then show ?thesis using assms b by (simp add: eq len nth_rb_chars rb_wf_def)
    next
      case (Suc j)
      have "(rb_hd rb + j) mod RBSZ \<noteq> ?b"
        using ring_index_inj [of "rb_hd rb" j "RBSZ - 1"] RB_PRED_mod [of "rb_hd rb"] assms room i Suc
        by (auto simp: rb_wf_def)
      then show ?thesis using i Suc shift [of j] by (simp add: eq len nth_rb_chars)
    qed
  qed (simp add: eq len)
qed

lemma unputc_spec:
  assumes "rb_wf rb"
  shows "unputc rb = (if rb_chars rb = [] then (-1, rb) else (uint (last (rb_chars rb)), snd (unputc rb)))"
    and "rb_wf (snd (unputc rb))"
    and "rb_chars (snd (unputc rb)) = butlast (rb_chars rb)"
proof -
  show "rb_wf (snd (unputc rb))"
    using assms RB_PRED_bound by (auto simp: unputc_def Let_def rb_wf_def)
  have nil: "rb_chars rb = [] \<longleftrightarrow> rb_hd rb = rb_tl rb"
    using RB_LEN_eq_0 [OF assms] by (metis length_0_conv length_rb_chars)
  have lst: "rb_hd rb \<noteq> rb_tl rb \<Longrightarrow> (rb_hd rb + (RB_LEN rb - 1)) mod RBSZ = RB_PRED (rb_tl rb)"
    using assms by (auto simp: rb_wf_def rb_defs mod_if)
  show "unputc rb = (if rb_chars rb = [] then (-1, rb) else (uint (last (rb_chars rb)), snd (unputc rb)))"
  proof (cases "rb_hd rb = rb_tl rb")
    case False
    then have "0 < RB_LEN rb" using RB_LEN_eq_0 [OF assms] by simp
    then have "last (rb_chars rb) = rb_buf rb ! RB_PRED (rb_tl rb)"
      using False nil lst by (simp add: last_conv_nth nth_rb_chars)
    with False nil show ?thesis by (simp add: unputc_def Let_def)
  qed (simp add: nil unputc_def)
  show "rb_chars (snd (unputc rb)) = butlast (rb_chars rb)"
  proof (cases "rb_hd rb = rb_tl rb")
    case False
    let ?rb = "rb\<lparr>rb_tl := RB_PRED (rb_tl rb)\<rparr>"
    have len: "RB_LEN ?rb = RB_LEN rb - 1"
      using assms False by (auto simp: rb_wf_def rb_defs split: if_splits)
    show ?thesis using False
      by (intro nth_equalityI) (auto simp: unputc_def Let_def len nth_rb_chars nth_butlast)
  qed (simp add: unputc_def nil [THEN iffD2])
qed

section \<open>The ring buffer is a bounded character queue\<close>

lemma putc_refines: "rb_wf rb \<Longrightarrow> map_prod id rb_chars (putc c rb) = dq_put (RBSZ - 1) (ucast c) (rb_chars rb)"
  using putc_spec [of rb c] RB_LEN_bound [of rb]
  by (cases "RB_LEN rb = RBSZ - 1") (auto simp: dq_put_def map_prod_def split: prod.splits)

lemma getc_refines: "rb_wf rb \<Longrightarrow> map_prod id rb_chars (getc rb) = dq_get (rb_chars rb)"
  using getc_spec [of rb]
  by (cases "rb_chars rb") (auto simp: dq_get_def map_prod_def split: prod.splits)

lemma ungetc_refines: "rb_wf rb \<Longrightarrow> map_prod id rb_chars (ungetc c rb) = dq_unget (RBSZ - 1) (ucast c) (rb_chars rb)"
  using ungetc_spec [of rb c] RB_LEN_bound [of rb]
  by (cases "RB_LEN rb = RBSZ - 1") (auto simp: dq_unget_def map_prod_def split: prod.splits)

lemma unputc_refines: "rb_wf rb \<Longrightarrow> map_prod id rb_chars (unputc rb) = dq_unput (rb_chars rb)"
  using unputc_spec [of rb]
  by (cases "rb_chars rb = []") (auto simp: dq_unput_def map_prod_def split: prod.splits)

interpretation rbq: char_queue rb_wf rb_chars "RBSZ - 1" putc getc
proof
  fix q :: ringb and c :: u32
  assume wf: "rb_wf q"
  show "rb_wf (snd (putc c q))" using putc_spec(2) [OF wf] .
  show "rb_wf (snd (getc q))" using getc_spec(2) [OF wf] .
  show "map_prod id rb_chars (putc c q) = dq_put (RBSZ - 1) (ucast c) (rb_chars q)"
    using putc_refines [OF wf] .
  show "map_prod id rb_chars (getc q) = dq_get (rb_chars q)" using getc_refines [OF wf] .
  show "length (rb_chars q) \<le> RBSZ - 1" using RB_LEN_bound [OF wf] by simp
qed

declare catb.simps [code]

lemma ucast_of_uint: "ucast (of_int (uint c) :: u32) = (c :: u8)"
  by transfer simp

lemma catb_puts:
  "rb_wf from \<Longrightarrow> rb_wf to \<Longrightarrow>
   \<exists>from'. catb from to = Some (from', rbq.puts (map (\<lambda>c. of_int (uint c)) (rb_chars from)) to) \<and>
     rb_wf from' \<and> rb_chars from' = []"
proof (induction "rb_chars from" arbitrary: "from" to)
  case Nil
  obtain r f where g: "getc from = (r, f)" by fastforce
  from Nil.hyps have "r = -1 \<and> f = from"
    using getc_spec(1) [OF Nil.prems(1)] g by (simp split: list.splits)
  with g Nil show ?case by (subst catb.simps) (simp add: rbq.puts_def)
next
  case (Cons c cs)
  obtain r f where g: "getc from = (r, f)" by fastforce
  have r: "r = uint c" and f: "rb_wf f" "rb_chars f = cs"
    using getc_spec [OF Cons.prems(1)] g Cons.hyps(2) [symmetric] by auto
  have "rb_wf (snd (putc (of_int (uint c)) to))" by (rule rbq.invar_put [OF Cons.prems(2)])
  from Cons.hyps(1) [OF f(2) [symmetric] f(1) this] r g Cons.hyps(2) [symmetric] f(2)
  show ?case by (subst catb.simps) (simp add: rbq.puts_def)
qed

section \<open>Properties\<close>

text \<open>
  C38: on every well-formed buffer the four operations are those of a bounded double-ended queue
  of \<open>RBSZ - 1\<close> characters: same return value (including \<open>-1\<close> on full and empty) and same
  contents, and they keep the buffer well formed.
\<close>

theorem ring_refines_deque:
  assumes "rb_wf rb"
  shows "map_prod id rb_chars (putc c rb) = dq_put (RBSZ - 1) (ucast c) (rb_chars rb) \<and>
    map_prod id rb_chars (getc rb) = dq_get (rb_chars rb) \<and>
    map_prod id rb_chars (ungetc c rb) = dq_unget (RBSZ - 1) (ucast c) (rb_chars rb) \<and>
    map_prod id rb_chars (unputc rb) = dq_unput (rb_chars rb) \<and>
    rb_wf (snd (putc c rb)) \<and> rb_wf (snd (getc rb)) \<and> rb_wf (snd (ungetc c rb)) \<and>
    rb_wf (snd (unputc rb)) \<and> rb_wf (initrb rb) \<and> rb_chars (initrb rb) = []"
  using putc_refines getc_refines ungetc_refines unputc_refines
    putc_spec(2) getc_spec(2) ungetc_spec(2) unputc_spec(2) assms
  by (simp add: initrb_def rb_wf_def rb_chars_def RB_LEN_def)

theorem ring_refines_deque_witness:
  "map_prod id rb_chars (putc 65 \<lparr>rb_hd = 1023, rb_tl = 1023, rb_buf = replicate 1024 0\<rparr>) = (0, [65])"
  using ring_refines_deque [of "\<lparr>rb_hd = 1023, rb_tl = 1023, rb_buf = replicate 1024 0\<rparr>" 65]
  by (simp add: rb_wf_def RBSZ_def dq_put_def rb_chars_def RB_LEN_def)

text \<open>
  \<open>catb\<close> returns; it empties \<open>from\<close> and appends its characters to \<open>to\<close> in order, dropping
  those for which \<open>to\<close> has no room.
\<close>

theorem catb_concatenates:
  assumes "rb_wf from" "rb_wf to"
  shows "\<exists>from' to'. catb from to = Some (from', to') \<and> rb_wf from' \<and> rb_wf to' \<and>
    rb_chars from' = [] \<and>
    rb_chars to' = rb_chars to @ take (RBSZ - 1 - length (rb_chars to)) (rb_chars from)"
proof -
  have "map ucast (map (\<lambda>c. of_int (uint c) :: u32) cs) = cs" for cs :: "u8 list"
    by (induction cs) (simp_all only: list.map ucast_of_uint)
  with catb_puts [OF assms] rbq.puts_props [OF assms(2)] show ?thesis by fastforce
qed

theorem catb_concatenates_witness:
  "\<exists>from' to'. catb \<lparr>rb_hd = 0, rb_tl = 2, rb_buf = 7 # 8 # replicate 1022 0\<rparr>
      \<lparr>rb_hd = 5, rb_tl = 5, rb_buf = replicate 1024 0\<rparr> = Some (from', to') \<and>
    rb_chars from' = [] \<and> rb_chars to' = [7, 8]"
proof -
  let ?f = "\<lparr>rb_hd = 0, rb_tl = 2, rb_buf = 7 # 8 # replicate 1022 0\<rparr> :: ringb"
  let ?t = "\<lparr>rb_hd = 5, rb_tl = 5, rb_buf = replicate 1024 0\<rparr> :: ringb"
  have "rb_wf ?f" "rb_wf ?t" by (simp_all add: rb_wf_def RBSZ_def)
  moreover have "rb_chars ?f = [7, 8]" "rb_chars ?t = []"
    by (simp_all add: rb_chars_def RB_LEN_def RBSZ_def numeral_2_eq_2)
  ultimately show ?thesis using catb_concatenates [of ?f ?t] by (auto simp: RBSZ_def)
qed

text \<open>
  a cursor started at \<open>rb_hd\<close> and moved by \<open>nextc\<close> reads the buffered characters one by one
  without consuming them and stops at the tail, where it returns 0.
\<close>

theorem nextc_traverses:
  assumes "rb_wf rb" "i \<le> RB_LEN rb"
  shows "nextc ((rb_hd rb + i) mod RBSZ) rb =
    (if i < RB_LEN rb then (sint (rb_chars rb ! i), (rb_hd rb + Suc i) mod RBSZ) else (0, rb_tl rb))"
proof (cases "i = RB_LEN rb")
  case True
  then show ?thesis using RB_LEN_tl [OF assms(1)] by (simp add: nextc_def)
next
  case False
  with assms(2) have i: "i < RB_LEN rb" by simp
  then have "(rb_hd rb + i) mod RBSZ \<noteq> rb_tl rb"
    using ring_index_inj [of "rb_hd rb" i "RB_LEN rb"] RB_LEN_tl [OF assms(1)] RB_LEN_bound [OF assms(1)]
      assms(1) by (auto simp: rb_wf_def)
  moreover have "RB_SUCC ((rb_hd rb + i) mod RBSZ) = (rb_hd rb + Suc i) mod RBSZ"
    by (subst RB_SUCC_mod) (simp_all add: RBSZ_def mod_simps)
  ultimately show ?thesis using i by (simp add: nextc_def nth_rb_chars)
qed

theorem nextc_traverses_witness:
  "nextc 1023 \<lparr>rb_hd = 1023, rb_tl = 0, rb_buf = replicate 1023 0 @ [200]\<rparr> = (-56, 0)"
  using nextc_traverses [of "\<lparr>rb_hd = 1023, rb_tl = 0, rb_buf = replicate 1023 0 @ [200]\<rparr>" 0]
  by (simp add: rb_wf_def RBSZ_def RB_LEN_def rb_chars_def nth_append)

text \<open>
  the contiguous-transfer macros are exact.  \<open>RB_CONTIGGET\<close> bytes from \<open>rb_hd\<close> on are the
  first buffered characters and do not pass the end of the array; storing \<open>RB_CONTIGPUT\<close> bytes at
  \<open>rb_tl\<close> stays inside the array and never exceeds the free room; and each is 0 only when the
  buffer is empty, respectively full.
\<close>

theorem ring_contiguous:
  assumes "rb_wf rb"
  shows "take (RB_CONTIGGET rb) (rb_chars rb) = take (RB_CONTIGGET rb) (drop (rb_hd rb) (rb_buf rb)) \<and>
    RB_CONTIGGET rb \<le> RB_LEN rb \<and> rb_hd rb + RB_CONTIGGET rb \<le> RBSZ \<and>
    rb_tl rb + RB_CONTIGPUT rb \<le> RBSZ \<and> RB_CONTIGPUT rb + RB_LEN rb \<le> RBSZ - 1 \<and>
    (RB_CONTIGGET rb = 0 \<longleftrightarrow> rb_chars rb = []) \<and> (RB_CONTIGPUT rb = 0 \<longleftrightarrow> RB_LEN rb = RBSZ - 1)"
proof -
  have b: "RB_CONTIGGET rb \<le> RB_LEN rb" "rb_hd rb + RB_CONTIGGET rb \<le> RBSZ"
    "rb_tl rb + RB_CONTIGPUT rb \<le> RBSZ" "RB_CONTIGPUT rb + RB_LEN rb \<le> RBSZ - 1"
    "RB_CONTIGGET rb = 0 \<longleftrightarrow> RB_LEN rb = 0" "RB_CONTIGPUT rb = 0 \<longleftrightarrow> RB_LEN rb = RBSZ - 1"
    using assms by (auto simp: rb_wf_def RB_CONTIGGET_def RB_CONTIGPUT_def rb_defs)
  moreover have "take (RB_CONTIGGET rb) (rb_chars rb) = take (RB_CONTIGGET rb) (drop (rb_hd rb) (rb_buf rb))"
    using b(1,2) assms by (intro nth_equalityI) (auto simp: nth_rb_chars rb_wf_def)
  ultimately show ?thesis by (metis length_0_conv length_rb_chars)
qed

theorem ring_contiguous_witness:
  "RB_CONTIGPUT \<lparr>rb_hd = 10, rb_tl = 20, rb_buf = replicate 1024 0\<rparr> = 1004 \<and>
   (20::nat) + RB_CONTIGPUT \<lparr>rb_hd = 10, rb_tl = 20, rb_buf = replicate 1024 0\<rparr> \<le> 1024"
  using ring_contiguous [of "\<lparr>rb_hd = 10, rb_tl = 20, rb_buf = replicate 1024 0\<rparr>"]
  by (simp add: rb_wf_def RBSZ_def RB_CONTIGPUT_def RB_PRED_def)

end
