(* ===== verification/Disksort.thy ===== *)
theory Disksort
  imports Prelude "HOL-Library.Product_Lexorder"
begin

text \<open>
  The disk queue sort (\<open>kern/subr/disksort.c\<close>).  A request is a \<open>buf\<close> with an identity (its
  address), the \<open>B_ORDER\<close> flag, a cylinder and a block number; the activity chain of the driver
  is the list of requests reached through \<open>b_actf\<close> and \<open>av_forw\<close>, and \<open>b_actl\<close> is the address of
  its last request.  Every search returns the chain after the insertion and the address of the
  request \<open>ap\<close> behind which the code inserted.
\<close>

section \<open>Definitions\<close>

record buf =
  b_self :: nat
  b_order :: bool
  b_cylin :: int
  b_blkno :: int

record drvq =
  b_actf :: "buf list"
  b_actl :: nat

text \<open>\<open>insert:\<close> links \<open>bp\<close> behind \<open>ap\<close>; \<open>ds_pass\<close> moves \<open>ap\<close> one request further.\<close>

definition ds_insert :: "buf \<Rightarrow> buf \<Rightarrow> buf list \<Rightarrow> buf list \<times> nat" where
  "ds_insert bp ap rest = (ap # bp # rest, b_self ap)"

definition ds_pass :: "buf \<Rightarrow> buf list \<times> nat \<Rightarrow> buf list \<times> nat" where
  "ds_pass ap r = (ap # fst r, snd r)"

text \<open>The \<open>do ... while\<close> over the second request list.\<close>

fun ds_second :: "buf \<Rightarrow> buf \<Rightarrow> buf list \<Rightarrow> buf list \<times> nat" where
  "ds_second bp ap [] = ds_insert bp ap []"
| "ds_second bp ap (n # rest) =
     (if b_cylin bp < b_cylin n then ds_insert bp ap (n # rest)
      else if b_cylin bp = b_cylin n \<and> b_blkno bp < b_blkno n then ds_insert bp ap (n # rest)
      else ds_pass ap (ds_second bp n rest))"

text \<open>The search for the inversion that starts the second request list.\<close>

fun ds_inversion :: "buf \<Rightarrow> buf \<Rightarrow> buf list \<Rightarrow> buf list \<times> nat" where
  "ds_inversion bp ap [] = ds_insert bp ap []"
| "ds_inversion bp ap (n # rest) =
     (if b_cylin n < b_cylin ap then ds_second bp ap (n # rest)
      else ds_pass ap (ds_inversion bp n rest))"

text \<open>The search in the first request list.\<close>

fun ds_first :: "buf \<Rightarrow> buf \<Rightarrow> buf list \<Rightarrow> buf list \<times> nat" where
  "ds_first bp ap [] = ds_insert bp ap []"
| "ds_first bp ap (n # rest) =
     (if b_cylin n < b_cylin ap \<or> b_cylin bp < b_cylin n \<or>
         b_cylin bp = b_cylin n \<and> b_blkno bp < b_blkno n
      then ds_insert bp ap (n # rest)
      else ds_pass ap (ds_first bp n rest))"

text \<open>An ordered transfer marks the chain up to its last request and goes to the end.\<close>

fun ds_sequence :: "buf \<Rightarrow> buf \<Rightarrow> buf list \<Rightarrow> buf list \<times> nat" where
  "ds_sequence bp ap [] = ds_insert bp ap []"
| "ds_sequence bp ap (n # rest) = ds_pass (ap\<lparr>b_order := True\<rparr>) (ds_sequence bp n rest)"

definition ds_place :: "buf \<Rightarrow> buf \<Rightarrow> buf list \<Rightarrow> buf list \<times> nat" where
  "ds_place bp ap rest =
     (if b_order bp then ds_sequence bp ap rest
      else if b_cylin bp < b_cylin ap then ds_inversion bp ap rest
      else ds_first bp ap rest)"

text \<open>A leading ordered sequence is skipped first.\<close>

fun ds_skip :: "buf \<Rightarrow> buf \<Rightarrow> buf list \<Rightarrow> buf list \<times> nat" where
  "ds_skip bp ap [] = (if b_order ap then ds_insert bp ap [] else ds_place bp ap [])"
| "ds_skip bp ap (n # rest) =
     (if b_order ap then ds_pass ap (ds_skip bp n rest) else ds_place bp ap (n # rest))"

definition disksort :: "drvq \<Rightarrow> buf \<Rightarrow> drvq" where
  "disksort dp bp =
     (case b_actf dp of
        [] \<Rightarrow> dp\<lparr>b_actf := [bp], b_actl := b_self bp\<rparr>
      | ap # rest \<Rightarrow>
          (case ds_skip bp ap rest of (q, at) \<Rightarrow>
             dp\<lparr>b_actf := q, b_actl := (if at = b_actl dp then b_self bp else b_actl dp)\<rparr>))"

section \<open>Reference definition\<close>

definition ds_key :: "buf \<Rightarrow> int \<times> int" where
  "ds_key b = (b_cylin b, b_blkno b)"

text \<open>Insertion behind all requests whose key is not larger.\<close>

fun ds_ins :: "buf \<Rightarrow> buf list \<Rightarrow> buf list" where
  "ds_ins b [] = [b]"
| "ds_ins b (x # xs) = (if ds_key b < ds_key x then b # x # xs else x # ds_ins b xs)"

text \<open>
  The one-way scan: behind the active request \<open>h\<close> come the requests at or past its cylinder in
  ascending order, then those before it in ascending order.
\<close>

abbreviation ahead :: "buf \<Rightarrow> buf list \<Rightarrow> buf list" where
  "ahead h q \<equiv> filter (\<lambda>b. b_cylin h \<le> b_cylin b) q"

abbreviation behind :: "buf \<Rightarrow> buf list \<Rightarrow> buf list" where
  "behind h q \<equiv> filter (\<lambda>b. b_cylin b < b_cylin h) q"

fun ds_scan :: "buf list \<Rightarrow> bool" where
  "ds_scan [] \<longleftrightarrow> True"
| "ds_scan (h # q) \<longleftrightarrow> q = ahead h q @ behind h q \<and>
     sorted (map ds_key (ahead h q)) \<and> sorted (map ds_key (behind h q))"

definition ds_ref :: "buf \<Rightarrow> buf list \<Rightarrow> buf list" where
  "ds_ref bp q =
     (case q of [] \<Rightarrow> [bp]
      | h # t \<Rightarrow> if b_cylin h \<le> b_cylin bp then h # ds_ins bp (ahead h t) @ behind h t
                 else h # ahead h t @ ds_ins bp (behind h t))"

lemma ds_key_less: "ds_key b < ds_key x \<longleftrightarrow>
    b_cylin b < b_cylin x \<or> b_cylin b = b_cylin x \<and> b_blkno b < b_blkno x"
  by (auto simp: ds_key_def)

lemma ds_key_cylin: "ds_key a \<le> ds_key b \<Longrightarrow> b_cylin a \<le> b_cylin b"
  by (auto simp: ds_key_def)

lemma set_ds_ins [simp]: "set (ds_ins b xs) = insert b (set xs)"
  by (induction xs) auto

lemma sorted_ds_ins: "sorted (map ds_key xs) \<Longrightarrow> sorted (map ds_key (ds_ins b xs))"
  by (induction xs) (auto simp: not_less)

lemma filter_ds_ins [simp]:
  "P b \<Longrightarrow> \<forall>x \<in> set xs. P x \<Longrightarrow> filter P (ds_ins b xs) = ds_ins b xs"
  "\<not> P b \<Longrightarrow> filter P (ds_ins b xs) = filter P xs"
  by simp (induction xs, auto)

lemma ds_second_ins: "fst (ds_second bp ap rest) = ap # ds_ins bp rest"
  by (induction bp ap rest rule: ds_second.induct) (auto simp: ds_insert_def ds_pass_def ds_key_less)

text \<open>Both searches, in terms of the two runs \<open>xs\<close> (ascending from \<open>ap\<close>) and \<open>ys\<close> (before \<open>c\<close>).\<close>

lemma ds_inversion_ins:
  assumes "sorted (map b_cylin (ap # xs))" "c \<le> b_cylin ap" "\<forall>y \<in> set ys. b_cylin y < c"
  shows "fst (ds_inversion bp ap (xs @ ys)) = ap # xs @ ds_ins bp ys"
  using assms
proof (induction xs arbitrary: ap)
  case Nil
  then show ?case by (cases ys) (auto simp: ds_insert_def ds_second_ins simp del: ds_second.simps)
next
  case (Cons x xs)
  then show ?case by (auto simp: ds_pass_def)
qed

lemma ds_first_ins:
  assumes "sorted (map b_cylin (ap # xs))" "c \<le> b_cylin ap" "\<forall>y \<in> set ys. b_cylin y < c"
  shows "fst (ds_first bp ap (xs @ ys)) = ap # ds_ins bp xs @ ys"
  using assms
proof (induction xs arbitrary: ap)
  case Nil
  then show ?case by (cases ys) (auto simp: ds_insert_def)
next
  case (Cons x xs)
  then show ?case by (auto simp: ds_pass_def ds_insert_def ds_key_less)
qed

lemma sorted_key_cylin: "sorted (map ds_key xs) \<Longrightarrow> sorted (map b_cylin xs)"
  by (induction xs) (auto dest: ds_key_cylin)

lemma ds_place_ref:
  assumes "ds_scan (h # q)" "\<not> b_order bp"
  shows "fst (ds_place bp h q) = ds_ref bp (h # q)"
proof -
  let ?a = "ahead h q" and ?b = "behind h q"
  have q: "q = ?a @ ?b" and s: "sorted (map b_cylin (h # ?a))"
    using assms(1) sorted_key_cylin [of ?a] by auto
  have b: "\<forall>y \<in> set ?b. b_cylin y < b_cylin h" by auto
  show ?thesis
    using ds_inversion_ins [OF s order_refl b, of bp] ds_first_ins [OF s order_refl b, of bp] q assms(2)
    by (simp add: ds_place_def ds_ref_def not_less)
qed

lemma ds_ref_scan:
  assumes "ds_scan q"
  shows "ds_scan (ds_ref bp q)"
proof (cases q)
  case (Cons h t)
  have f: "ahead h (behind h t) = []" "behind h (ahead h t) = []"
    "ahead h (ahead h t) = ahead h t" "behind h (behind h t) = behind h t"
    by (auto simp: filter_empty_conv)
  from assms Cons show ?thesis
    by (auto simp: ds_ref_def f sorted_ds_ins not_le filter_empty_conv)
qed (simp add: ds_ref_def)

text \<open>The driver takes the active request off the front.\<close>

lemma ds_scan_tl:
  assumes "ds_scan (h # q)"
  shows "ds_scan q"
proof (cases "ahead h q")
  case Nil
  with assms have q: "sorted (map ds_key q)" by auto
  show ?thesis
  proof (cases q)
    case (Cons y ys)
    with q have "\<forall>b \<in> set ys. b_cylin y \<le> b_cylin b" by (auto dest: ds_key_cylin)
    then have "ahead y ys = ys" "behind y ys = []" by (auto simp: filter_empty_conv filter_True)
    with Cons q show ?thesis by simp
  qed simp
next
  case (Cons x xs)
  with assms have q: "q = x # xs @ behind h q" and s: "sorted (map ds_key (x # xs))"
    and b: "sorted (map ds_key (behind h q))" by auto
  have "b_cylin h \<le> b_cylin x" using Cons by (auto simp: filter_eq_Cons_iff)
  then have "\<forall>y \<in> set (behind h q). b_cylin y < b_cylin x" by auto
  then have "ahead x (behind h q) = []" "behind x (behind h q) = behind h q"
    by (auto simp: filter_empty_conv simp del: filter_filter set_filter intro!: filter_True)
  moreover have "\<forall>b \<in> set xs. b_cylin x \<le> b_cylin b" using s by (auto dest: ds_key_cylin)
  then have "ahead x xs = xs" "behind x xs = []" by (auto simp: filter_empty_conv)
  ultimately have "ds_scan (x # xs @ behind h q)" using s b by simp
  then show ?thesis using q by simp
qed

text \<open>Every path inserts \<open>bp\<close> once, behind some request, and changes nothing but \<open>B_ORDER\<close> flags.\<close>

abbreviation unord :: "buf \<Rightarrow> buf" where
  "unord b \<equiv> b\<lparr>b_order := False\<rparr>"

definition ds_inserted :: "buf \<Rightarrow> buf list \<Rightarrow> buf list \<times> nat \<Rightarrow> bool" where
  "ds_inserted bp q r \<longleftrightarrow> (\<exists>ys a zs. q = ys @ a # zs \<and> snd r = b_self a \<and>
     map unord (fst r) = map unord (ys @ a # bp # zs))"

lemma ds_inserted_insert: "ds_inserted bp (ap # rest) (ds_insert bp ap rest)"
  unfolding ds_inserted_def ds_insert_def by force

lemma ds_inserted_pass:
  assumes "ds_inserted bp q r" "unord ap' = unord ap"
  shows "ds_inserted bp (ap # q) (ds_pass ap' r)"
proof -
  from assms(1) obtain ys a zs where
    "q = ys @ a # zs" "snd r = b_self a" "map unord (fst r) = map unord (ys @ a # bp # zs)"
    unfolding ds_inserted_def by auto
  then show ?thesis unfolding ds_inserted_def ds_pass_def using assms(2)
    by (intro exI [of _ "ap # ys"] exI [of _ a] exI [of _ zs]) simp
qed

lemma ds_second_inserted: "ds_inserted bp (ap # rest) (ds_second bp ap rest)"
  by (induction bp ap rest rule: ds_second.induct) (simp_all add: ds_inserted_insert ds_inserted_pass)

lemma ds_inversion_inserted: "ds_inserted bp (ap # rest) (ds_inversion bp ap rest)"
  by (induction bp ap rest rule: ds_inversion.induct)
    (simp_all add: ds_inserted_insert ds_inserted_pass ds_second_inserted del: ds_second.simps)

lemma ds_first_inserted: "ds_inserted bp (ap # rest) (ds_first bp ap rest)"
  by (induction bp ap rest rule: ds_first.induct) (simp_all add: ds_inserted_insert ds_inserted_pass)

lemma ds_sequence_inserted: "ds_inserted bp (ap # rest) (ds_sequence bp ap rest)"
  by (induction bp ap rest rule: ds_sequence.induct) (simp_all add: ds_inserted_insert ds_inserted_pass)

lemma ds_place_inserted: "ds_inserted bp (ap # rest) (ds_place bp ap rest)"
  by (simp add: ds_place_def ds_sequence_inserted ds_inversion_inserted ds_first_inserted)

lemma ds_skip_inserted: "ds_inserted bp (ap # rest) (ds_skip bp ap rest)"
  by (induction bp ap rest rule: ds_skip.induct)
    (simp_all add: ds_inserted_insert ds_inserted_pass ds_place_inserted)

lemma ds_skip_place: "\<not> b_order h \<Longrightarrow> ds_skip bp h t = ds_place bp h t"
  by (cases t) simp_all

lemma ds_skip_prefix:
  "\<forall>b \<in> set (ap # pre). b_order b \<Longrightarrow> \<not> b_order h \<Longrightarrow>
   fst (ds_skip bp ap (pre @ h # t)) = ap # pre @ fst (ds_place bp h t)"
  by (induction pre arbitrary: ap) (auto simp: ds_pass_def ds_skip_place)

definition dq_wf :: "drvq \<Rightarrow> bool" where
  "dq_wf dp \<longleftrightarrow> distinct (map b_self (b_actf dp)) \<and>
     (b_actf dp \<noteq> [] \<longrightarrow> b_actl dp = b_self (last (b_actf dp)))"


lemma disksort_actf:
  "b_actf dp = ap # rest \<Longrightarrow> b_actf (disksort dp bp) = fst (ds_skip bp ap rest)"
  "b_actf dp = [] \<Longrightarrow> b_actf (disksort dp bp) = [bp]"
  by (simp_all add: disksort_def split: prod.splits)

lemma map_unord_addr: "map unord xs = map unord ys \<Longrightarrow> map b_self xs = map b_self ys"
  by (induction xs ys rule: list_induct2') (auto, metis buf.select_convs(1) buf.surjective buf.update_convs(2))

lemma map_last_cong: "map f xs = map f ys \<Longrightarrow> xs \<noteq> [] \<Longrightarrow> f (last xs) = f (last ys)"
  by (metis last_map map_is_Nil_conv)

section \<open>Properties\<close>

text \<open>
  \<open>disksort\<close> implements the one-way scan.  On a queue in scan order with no ordered
  transfers it equals the reference that inserts the request into the run ahead of the active
  request, or into the run behind it, in (cylinder, block) order after equal keys; the queue
  stays in scan order, and also when the driver takes the active request off the front.
\<close>

theorem disksort_one_way_scan:
  assumes "ds_scan (b_actf dp)" "\<forall>b \<in> set (bp # b_actf dp). \<not> b_order b"
  shows "b_actf (disksort dp bp) = ds_ref bp (b_actf dp) \<and> ds_scan (b_actf (disksort dp bp)) \<and>
         ds_scan (tl (b_actf (disksort dp bp)))"
proof -
  have eq: "b_actf (disksort dp bp) = ds_ref bp (b_actf dp)"
  proof (cases "b_actf dp")
    case (Cons h t)
    with assms show ?thesis by (simp add: disksort_actf ds_skip_place ds_place_ref del: ds_scan.simps)
  qed (simp add: disksort_actf ds_ref_def)
  then have "ds_scan (b_actf (disksort dp bp))" using ds_ref_scan [OF assms(1)] by simp
  with eq show ?thesis by (metis ds_scan.simps(1) ds_scan_tl list.exhaust_sel list.sel(2))
qed

theorem disksort_one_way_scan_witness:
  "map b_cylin (b_actf (disksort
     \<lparr>b_actf = [\<lparr>b_self = 1, b_order = False, b_cylin = 50, b_blkno = 0\<rparr>,
                \<lparr>b_self = 2, b_order = False, b_cylin = 90, b_blkno = 0\<rparr>,
                \<lparr>b_self = 3, b_order = False, b_cylin = 10, b_blkno = 0\<rparr>], b_actl = 3\<rparr>
     \<lparr>b_self = 4, b_order = False, b_cylin = 70, b_blkno = 0\<rparr>)) = [50, 70, 90, 10]"
  using disksort_one_way_scan [of
     "\<lparr>b_actf = [\<lparr>b_self = 1, b_order = False, b_cylin = 50, b_blkno = 0\<rparr>,
                \<lparr>b_self = 2, b_order = False, b_cylin = 90, b_blkno = 0\<rparr>,
                \<lparr>b_self = 3, b_order = False, b_cylin = 10, b_blkno = 0\<rparr>], b_actl = 3\<rparr>"
     "\<lparr>b_self = 4, b_order = False, b_cylin = 70, b_blkno = 0\<rparr>"]
  by (simp add: ds_ref_def ds_key_def)

text \<open>
  whatever the flags, \<open>disksort\<close> links the request into the chain exactly once, behind some
  request (so the active request stays first), leaves every other request as it was up to its
  \<open>B_ORDER\<close> flag and in the same relative order, and \<open>b_actl\<close> again addresses the last request.
\<close>

theorem disksort_links_once:
  assumes "dq_wf dp" "b_self bp \<notin> b_self ` set (b_actf dp)"
  shows "\<exists>ys zs. b_actf dp = ys @ zs \<and> (ys = [] \<longrightarrow> zs = []) \<and>
    map unord (b_actf (disksort dp bp)) = map unord (ys @ bp # zs) \<and> dq_wf (disksort dp bp)"
proof (cases "b_actf dp")
  case Nil
  then show ?thesis by (auto simp: disksort_def dq_wf_def)
next
  case (Cons ap rest)
  obtain q at where r: "ds_skip bp ap rest = (q, at)" by fastforce
  from ds_skip_inserted [of bp ap rest] r obtain ys a zs where
    i: "b_actf dp = ys @ a # zs" "at = b_self a" "map unord q = map unord (ys @ a # bp # zs)"
    unfolding ds_inserted_def Cons by auto
  let ?dp = "disksort dp bp"
  have actf: "b_actf ?dp = q" and actl: "b_actl ?dp = (if at = b_actl dp then b_self bp else b_actl dp)"
    using Cons r by (simp_all add: disksort_def)
  have addr: "map b_self q = map b_self (ys @ a # bp # zs)" using i(3) by (rule map_unord_addr)
  have d: "distinct (map b_self (b_actf ?dp))"
    using addr actf assms i(1) by (auto simp: dq_wf_def)
  have "b_self (last q) = b_self (last (ys @ a # bp # zs))"
    using addr by (rule map_last_cong) (use addr in auto)
  moreover have "at = b_actl dp \<longleftrightarrow> zs = []"
  proof (cases "zs = []")
    case True
    then show ?thesis using assms(1) i by (simp add: dq_wf_def)
  next
    case False
    then have "last zs \<in> set zs" by simp
    then have "b_self a \<noteq> b_self (last zs)" using assms(1) i(1) by (auto simp: dq_wf_def)
    then show ?thesis using False assms(1) i by (simp add: dq_wf_def)
  qed
  moreover have "zs \<noteq> [] \<Longrightarrow> b_actl dp = b_self (last zs)"
    using assms(1) i(1) by (simp add: dq_wf_def)
  ultimately have "b_actl ?dp = b_self (last (b_actf ?dp))" using actl actf by simp
  with d actf i show ?thesis
    by (intro exI [of _ "ys @ [a]"] exI [of _ zs]) (auto simp: dq_wf_def)
qed

theorem disksort_links_once_witness:
  "\<exists>ys zs. [\<lparr>b_self = 1, b_order = False, b_cylin = 5, b_blkno = 0\<rparr>] = ys @ zs \<and> (ys = [] \<longrightarrow> zs = []) \<and>
    map unord (b_actf (disksort \<lparr>b_actf = [\<lparr>b_self = 1, b_order = False, b_cylin = 5, b_blkno = 0\<rparr>], b_actl = 1\<rparr>
       \<lparr>b_self = 2, b_order = True, b_cylin = 3, b_blkno = 0\<rparr>))
     = map unord (ys @ \<lparr>b_self = 2, b_order = True, b_cylin = 3, b_blkno = 0\<rparr> # zs)"
  using disksort_links_once [of "\<lparr>b_actf = [\<lparr>b_self = 1, b_order = False, b_cylin = 5, b_blkno = 0\<rparr>], b_actl = 1\<rparr>"
      "\<lparr>b_self = 2, b_order = True, b_cylin = 3, b_blkno = 0\<rparr>"]
  unfolding dq_wf_def by simp blast

text \<open>
  a leading ordered sequence is never reordered or split: a new request is placed behind all
  of it, by the ordinary rules applied to the rest of the queue, and a new ordered transfer goes
  to the very end.
\<close>

theorem disksort_respects_sequence:
  assumes "\<forall>b \<in> set pre. b_order b" "b_actf dp = pre @ h # t" "\<not> b_order h"
  shows "b_actf (disksort dp bp) = pre @ fst (ds_place bp h t) \<and>
         (b_order bp \<longrightarrow> last (b_actf (disksort dp bp)) = bp)"
proof -
  have "b_actf (disksort dp bp) = pre @ fst (ds_place bp h t)"
  proof (cases pre)
    case Nil
    with assms show ?thesis by (simp add: disksort_actf ds_skip_place)
  next
    case (Cons ap pre')
    with assms show ?thesis by (simp add: disksort_actf ds_skip_prefix)
  qed
  moreover have "b_order bp \<Longrightarrow> last (fst (ds_place bp h t)) = bp \<and> fst (ds_place bp h t) \<noteq> []"
    unfolding ds_place_def
    by (induction bp h t rule: ds_sequence.induct) (auto simp: ds_insert_def ds_pass_def)
  ultimately show ?thesis by simp
qed

theorem disksort_respects_sequence_witness:
  "last (b_actf (disksort \<lparr>b_actf = [\<lparr>b_self = 1, b_order = True, b_cylin = 5, b_blkno = 0\<rparr>,
      \<lparr>b_self = 2, b_order = False, b_cylin = 9, b_blkno = 0\<rparr>], b_actl = 2\<rparr>
      \<lparr>b_self = 3, b_order = True, b_cylin = 6, b_blkno = 0\<rparr>))
    = \<lparr>b_self = 3, b_order = True, b_cylin = 6, b_blkno = 0\<rparr>"
  using disksort_respects_sequence [of "[\<lparr>b_self = 1, b_order = True, b_cylin = 5, b_blkno = 0\<rparr>]"
      "\<lparr>b_actf = [\<lparr>b_self = 1, b_order = True, b_cylin = 5, b_blkno = 0\<rparr>,
        \<lparr>b_self = 2, b_order = False, b_cylin = 9, b_blkno = 0\<rparr>], b_actl = 2\<rparr>"
      "\<lparr>b_self = 2, b_order = False, b_cylin = 9, b_blkno = 0\<rparr>" "[]"
      "\<lparr>b_self = 3, b_order = True, b_cylin = 6, b_blkno = 0\<rparr>"]
  by (simp add: ds_place_def ds_insert_def)

text \<open>
  the request in front of an ordered transfer is not marked, so a request that arrives
  later can still be inserted between the two and overtake the ordered transfer.
\<close>

theorem disksort_order_overtaken:
  "map b_self (b_actf (disksort (disksort
      \<lparr>b_actf = [\<lparr>b_self = 1, b_order = False, b_cylin = 10, b_blkno = 0\<rparr>], b_actl = 1\<rparr>
      \<lparr>b_self = 2, b_order = True, b_cylin = 20, b_blkno = 0\<rparr>)
      \<lparr>b_self = 3, b_order = False, b_cylin = 15, b_blkno = 0\<rparr>)) = [1, 3, 2]"
  by (simp add: disksort_def ds_place_def ds_insert_def ds_pass_def)

end
