(* ===== verification/Bpf.thy ===== *)
theory Bpf
  imports Prelude "HOL-Library.Signed_Division"
begin

unbundle bit_operations_syntax

text \<open>
  The packet filter machine (\<open>bpf/bpf_filter.c\<close>, \<open>include/domain/bpf.h\<close>): the loads from a
  contiguous buffer or an mbuf chain, one step of \<open>bpf_filter\<close>, its loop, and the check
  \<open>bpf_validate\<close> that the kernel runs on a program before it installs it.  The registers
  \<open>A\<close>, \<open>X\<close> and the scratch memory are \<open>long\<close>, 32 bits on the i386; \<open>pc\<close> is an index into the
  program.  References outside the program, the scratch memory or the packet, and divisions
  that raise the divide error, are traps.
\<close>

section \<open>Instruction codes\<close>

abbreviation (input) "BPF_LD \<equiv> (0x00 :: u16)"
abbreviation (input) "BPF_LDX \<equiv> (0x01 :: u16)"
abbreviation (input) "BPF_ST \<equiv> (0x02 :: u16)"
abbreviation (input) "BPF_STX \<equiv> (0x03 :: u16)"
abbreviation (input) "BPF_ALU \<equiv> (0x04 :: u16)"
abbreviation (input) "BPF_JMP \<equiv> (0x05 :: u16)"
abbreviation (input) "BPF_RET \<equiv> (0x06 :: u16)"
abbreviation (input) "BPF_MISC \<equiv> (0x07 :: u16)"

abbreviation (input) "BPF_W \<equiv> (0x00 :: u16)"
abbreviation (input) "BPF_H \<equiv> (0x08 :: u16)"
abbreviation (input) "BPF_B \<equiv> (0x10 :: u16)"
abbreviation (input) "BPF_IMM \<equiv> (0x00 :: u16)"
abbreviation (input) "BPF_ABS \<equiv> (0x20 :: u16)"
abbreviation (input) "BPF_IND \<equiv> (0x40 :: u16)"
abbreviation (input) "BPF_MEM \<equiv> (0x60 :: u16)"
abbreviation (input) "BPF_LEN \<equiv> (0x80 :: u16)"
abbreviation (input) "BPF_MSH \<equiv> (0xa0 :: u16)"

abbreviation (input) "BPF_ADD \<equiv> (0x00 :: u16)"
abbreviation (input) "BPF_SUB \<equiv> (0x10 :: u16)"
abbreviation (input) "BPF_MUL \<equiv> (0x20 :: u16)"
abbreviation (input) "BPF_DIV \<equiv> (0x30 :: u16)"
abbreviation (input) "BPF_OR \<equiv> (0x40 :: u16)"
abbreviation (input) "BPF_AND \<equiv> (0x50 :: u16)"
abbreviation (input) "BPF_LSH \<equiv> (0x60 :: u16)"
abbreviation (input) "BPF_RSH \<equiv> (0x70 :: u16)"
abbreviation (input) "BPF_NEG \<equiv> (0x80 :: u16)"
abbreviation (input) "BPF_JA \<equiv> (0x00 :: u16)"
abbreviation (input) "BPF_JEQ \<equiv> (0x10 :: u16)"
abbreviation (input) "BPF_JGT \<equiv> (0x20 :: u16)"
abbreviation (input) "BPF_JGE \<equiv> (0x30 :: u16)"
abbreviation (input) "BPF_JSET \<equiv> (0x40 :: u16)"
abbreviation (input) "BPF_K \<equiv> (0x00 :: u16)"
abbreviation (input) "BPF_X \<equiv> (0x08 :: u16)"
abbreviation (input) "BPF_A \<equiv> (0x10 :: u16)"
abbreviation (input) "BPF_TAX \<equiv> (0x00 :: u16)"
abbreviation (input) "BPF_TXA \<equiv> (0x80 :: u16)"

definition BPF_MEMWORDS :: nat where
  "BPF_MEMWORDS = 16"

definition BPF_CLASS :: "u16 \<Rightarrow> u16" where
  "BPF_CLASS code = code AND 0x07"

definition BPF_OP :: "u16 \<Rightarrow> u16" where
  "BPF_OP code = code AND 0xf0"

record bpf_insn =
  code :: u16
  jt :: u8
  jf :: u8
  k :: u32

text \<open>The cases of the \<open>switch\<close> in \<open>bpf_filter\<close>, by their labels.\<close>

datatype bpf_size = SzW | SzH | SzB
datatype bpf_src = SrcK | SrcX
datatype bpf_jump = JGT | JGE | JEQ | JSET
datatype bpf_alu = ADD | SUB | MUL | DIV | BAND | BOR | LSH | RSH

datatype bpf_op =
  RetK | RetA | LdAbs bpf_size | LdLen | LdxLen | LdInd bpf_size | LdxMsh | LdImm | LdxImm
| LdMem | LdxMem | St | Stx | Ja | Jcc bpf_jump bpf_src | Alu bpf_alu bpf_src | Neg | Tax | Txa

definition bpf_labels :: "(u16 \<times> bpf_op) list" where
  "bpf_labels =
    [(BPF_RET OR BPF_K, RetK), (BPF_RET OR BPF_A, RetA),
     (BPF_LD OR BPF_W OR BPF_ABS, LdAbs SzW), (BPF_LD OR BPF_H OR BPF_ABS, LdAbs SzH),
     (BPF_LD OR BPF_B OR BPF_ABS, LdAbs SzB),
     (BPF_LD OR BPF_W OR BPF_LEN, LdLen), (BPF_LDX OR BPF_W OR BPF_LEN, LdxLen),
     (BPF_LD OR BPF_W OR BPF_IND, LdInd SzW), (BPF_LD OR BPF_H OR BPF_IND, LdInd SzH),
     (BPF_LD OR BPF_B OR BPF_IND, LdInd SzB), (BPF_LDX OR BPF_MSH OR BPF_B, LdxMsh),
     (BPF_LD OR BPF_IMM, LdImm), (BPF_LDX OR BPF_IMM, LdxImm),
     (BPF_LD OR BPF_MEM, LdMem), (BPF_LDX OR BPF_MEM, LdxMem), (BPF_ST, St), (BPF_STX, Stx),
     (BPF_JMP OR BPF_JA, Ja),
     (BPF_JMP OR BPF_JGT OR BPF_K, Jcc JGT SrcK), (BPF_JMP OR BPF_JGE OR BPF_K, Jcc JGE SrcK),
     (BPF_JMP OR BPF_JEQ OR BPF_K, Jcc JEQ SrcK), (BPF_JMP OR BPF_JSET OR BPF_K, Jcc JSET SrcK),
     (BPF_JMP OR BPF_JGT OR BPF_X, Jcc JGT SrcX), (BPF_JMP OR BPF_JGE OR BPF_X, Jcc JGE SrcX),
     (BPF_JMP OR BPF_JEQ OR BPF_X, Jcc JEQ SrcX), (BPF_JMP OR BPF_JSET OR BPF_X, Jcc JSET SrcX),
     (BPF_ALU OR BPF_ADD OR BPF_X, Alu ADD SrcX), (BPF_ALU OR BPF_SUB OR BPF_X, Alu SUB SrcX),
     (BPF_ALU OR BPF_MUL OR BPF_X, Alu MUL SrcX), (BPF_ALU OR BPF_DIV OR BPF_X, Alu DIV SrcX),
     (BPF_ALU OR BPF_AND OR BPF_X, Alu BAND SrcX), (BPF_ALU OR BPF_OR OR BPF_X, Alu BOR SrcX),
     (BPF_ALU OR BPF_LSH OR BPF_X, Alu LSH SrcX), (BPF_ALU OR BPF_RSH OR BPF_X, Alu RSH SrcX),
     (BPF_ALU OR BPF_ADD OR BPF_K, Alu ADD SrcK), (BPF_ALU OR BPF_SUB OR BPF_K, Alu SUB SrcK),
     (BPF_ALU OR BPF_MUL OR BPF_K, Alu MUL SrcK), (BPF_ALU OR BPF_DIV OR BPF_K, Alu DIV SrcK),
     (BPF_ALU OR BPF_AND OR BPF_K, Alu BAND SrcK), (BPF_ALU OR BPF_OR OR BPF_K, Alu BOR SrcK),
     (BPF_ALU OR BPF_LSH OR BPF_K, Alu LSH SrcK), (BPF_ALU OR BPF_RSH OR BPF_K, Alu RSH SrcK),
     (BPF_ALU OR BPF_NEG, Neg), (BPF_MISC OR BPF_TAX, Tax), (BPF_MISC OR BPF_TXA, Txa)]"

text \<open>\<open>None\<close> is the \<open>default:\<close> label.\<close>

definition bpf_decode :: "u16 \<Rightarrow> bpf_op option" where
  "bpf_decode c = map_of bpf_labels c"

section \<open>Packets and loads\<close>

text \<open>
  An mbuf gives the bytes that can be read from its data pointer on; the first \<open>m_len\<close> of
  them are packet data.
\<close>

record mbuf =
  m_len :: nat
  m_dat :: "u8 list"

datatype packet = BufPkt "u8 list" | MbufPkt "mbuf list"

definition buflen :: "packet \<Rightarrow> u32" where
  "buflen p = (case p of BufPkt bs \<Rightarrow> of_nat (length bs) | MbufPkt _ \<Rightarrow> 0)"

text \<open>A load yields a value, makes the filter return 0, or traps.\<close>

datatype load = Val u32 | Ret0 | BadRef

definition byte_at :: "u8 list \<Rightarrow> int \<Rightarrow> u8 option" where
  "byte_at bs i = (if 0 \<le> i \<and> i < int (length bs) then Some (bs ! nat i) else None)"

definition be16 :: "u8 \<Rightarrow> u8 \<Rightarrow> u32" where
  "be16 a b = push_bit 8 (ucast a) OR ucast b"

definition be32 :: "u8 \<Rightarrow> u8 \<Rightarrow> u8 \<Rightarrow> u8 \<Rightarrow> u32" where
  "be32 a b c d = push_bit 24 (ucast a) OR push_bit 16 (ucast b) OR push_bit 8 (ucast c) OR ucast d"

definition half_of :: "u8 option \<Rightarrow> u8 option \<Rightarrow> load" where
  "half_of a b = (case (a, b) of (Some a, Some b) \<Rightarrow> Val (be16 a b) | _ \<Rightarrow> BadRef)"

definition word_of :: "u8 option \<Rightarrow> u8 option \<Rightarrow> u8 option \<Rightarrow> u8 option \<Rightarrow> load" where
  "word_of a b c d =
     (case (a, b, c, d) of (Some a, Some b, Some c, Some d) \<Rightarrow> Val (be32 a b c d) | _ \<Rightarrow> BadRef)"

text \<open>The search through the chain, as in \<open>MINDEX\<close>, \<open>m_xword\<close> and \<open>m_xhalf\<close>.\<close>

fun MINDEX :: "mbuf list \<Rightarrow> int \<Rightarrow> (mbuf \<times> mbuf list \<times> int) option" where
  "MINDEX [] j = None"
| "MINDEX (m # ms) j = (if j \<ge> int (m_len m) then MINDEX ms (j - int (m_len m)) else Some (m, ms, j))"

text \<open>
  \<open>m_xword\<close> and \<open>m_xhalf\<close>; \<open>Ret0\<close> stands for \<open>*err = 1\<close> with result 0.  When the datum straddles
  two mbufs the code indexes \<open>cp\<close>, which already points at offset \<open>k\<close>, by \<open>k\<close> again.
\<close>

definition m_xword :: "mbuf list \<Rightarrow> int \<Rightarrow> load" where
  "m_xword chain k0 =
     (case MINDEX chain k0 of
        None \<Rightarrow> Ret0
      | Some (m, next, j) \<Rightarrow>
          let len = int (m_len m); cp = (\<lambda>i. byte_at (m_dat m) (j + i)) in
          if len - j \<ge> 4 then word_of (cp 0) (cp 1) (cp 2) (cp 3)
          else (case next of
                  [] \<Rightarrow> Ret0
                | m0 # _ \<Rightarrow>
                    let np = byte_at (m_dat m0) in
                    if int (m_len m0) + len - j < 4 then Ret0
                    else if len - j = 1 then word_of (cp j) (np 0) (np 1) (np 2)
                    else if len - j = 2 then word_of (cp j) (cp (j + 1)) (np 0) (np 1)
                    else word_of (cp j) (cp (j + 1)) (cp (j + 2)) (np 0)))"

definition m_xhalf :: "mbuf list \<Rightarrow> int \<Rightarrow> load" where
  "m_xhalf chain k0 =
     (case MINDEX chain k0 of
        None \<Rightarrow> Ret0
      | Some (m, next, j) \<Rightarrow>
          let len = int (m_len m); cp = (\<lambda>i. byte_at (m_dat m) (j + i)) in
          if len - j \<ge> 2 then half_of (cp 0) (cp 1)
          else (case next of [] \<Rightarrow> Ret0 | m0 # _ \<Rightarrow> half_of (cp j) (byte_at (m_dat m0) 0)))"

text \<open>
  \<open>BPF_W\<close>: the contiguous path reads a \<open>long\<close> in the byte order of the machine.  A packet
  given as an mbuf chain has \<open>buflen\<close> 0; a buffer of length 0 is taken for a chain.
\<close>

definition ld_word :: "packet \<Rightarrow> u32 \<Rightarrow> load" where
  "ld_word p kk =
     (if kk + 4 > buflen p
      then if buflen p \<noteq> 0 then Ret0
           else (case p of MbufPkt chain \<Rightarrow> m_xword chain (sint kk) | BufPkt _ \<Rightarrow> BadRef)
      else (case p of
              BufPkt bs \<Rightarrow> (let c = (\<lambda>i. byte_at bs (sint kk + i)) in word_of (c 3) (c 2) (c 1) (c 0))
            | MbufPkt _ \<Rightarrow> BadRef))"

text \<open>\<open>BPF_H\<close>: with \<open>BPF_ABS\<close> an error of \<open>m_xhalf\<close> is not tested and loads 0.\<close>

definition ld_half :: "bool \<Rightarrow> packet \<Rightarrow> u32 \<Rightarrow> load" where
  "ld_half test_err p kk =
     (if kk + 2 > buflen p
      then if buflen p \<noteq> 0 then Ret0
           else (case p of
                   MbufPkt chain \<Rightarrow>
                     (case m_xhalf chain (sint kk) of Ret0 \<Rightarrow> if test_err then Ret0 else Val 0 | r \<Rightarrow> r)
                 | BufPkt _ \<Rightarrow> BadRef)
      else (case p of
              BufPkt bs \<Rightarrow> half_of (byte_at bs (sint kk)) (byte_at bs (sint kk + 1))
            | MbufPkt _ \<Rightarrow> BadRef))"

text \<open>
  \<open>BPF_B\<close>: \<open>char\<close> is signed, so the byte is sign extended except where the code reads it
  through a \<open>u_char\<close> pointer (\<open>BPF_ABS\<close> on a chain).
\<close>

definition ld_byte :: "(u8 \<Rightarrow> u32) \<Rightarrow> packet \<Rightarrow> u32 \<Rightarrow> load" where
  "ld_byte conv p kk =
     (if kk \<ge> buflen p
      then if buflen p \<noteq> 0 then Ret0
           else (case p of
                   MbufPkt chain \<Rightarrow>
                     (case MINDEX chain (sint kk) of
                        None \<Rightarrow> Ret0
                      | Some (m, _, j) \<Rightarrow>
                          (case byte_at (m_dat m) j of Some b \<Rightarrow> Val (conv b) | None \<Rightarrow> BadRef))
                 | BufPkt _ \<Rightarrow> BadRef)
      else (case p of
              BufPkt bs \<Rightarrow> (case byte_at bs (sint kk) of Some b \<Rightarrow> Val (scast b) | None \<Rightarrow> BadRef)
            | MbufPkt _ \<Rightarrow> BadRef))"

definition ld_msh :: "packet \<Rightarrow> u32 \<Rightarrow> load" where
  "ld_msh p kk = (case ld_byte scast p kk of Val v \<Rightarrow> Val (push_bit 2 (v AND 0xf)) | r \<Rightarrow> r)"

definition ld_abs :: "bpf_size \<Rightarrow> packet \<Rightarrow> u32 \<Rightarrow> load" where
  "ld_abs sz p kk =
     (case sz of SzW \<Rightarrow> ld_word p kk | SzH \<Rightarrow> ld_half False p kk | SzB \<Rightarrow> ld_byte ucast p kk)"

definition ld_ind :: "bpf_size \<Rightarrow> packet \<Rightarrow> u32 \<Rightarrow> load" where
  "ld_ind sz p kk =
     (case sz of SzW \<Rightarrow> ld_word p kk | SzH \<Rightarrow> ld_half True p kk | SzB \<Rightarrow> ld_byte scast p kk)"

section \<open>The machine\<close>

record bpf_state =
  regA :: u32
  regX :: u32
  scratch :: "u32 list"
  pc :: int

datatype trap = BadPc | BadMem | BadPkt | DivErr
datatype bstep = Stop u32 | Trap trap | Go bpf_state

definition bpf_cond :: "bpf_jump \<Rightarrow> u32 \<Rightarrow> u32 \<Rightarrow> bool" where
  "bpf_cond j a b =
     (case j of JGT \<Rightarrow> sint a > sint b | JGE \<Rightarrow> sint a \<ge> sint b | JEQ \<Rightarrow> a = b | JSET \<Rightarrow> a AND b \<noteq> 0)"

text \<open>
  Signed division truncates; the processor raises the divide error for a zero divisor and for
  \<open>-2^31 / -1\<close>.  Shift counts are taken modulo 32 by the processor; \<open>>>\<close> on a \<open>long\<close> is arithmetic.
\<close>

definition bpf_arith :: "bpf_alu \<Rightarrow> u32 \<Rightarrow> u32 \<Rightarrow> u32 option" where
  "bpf_arith ao a b =
     (case ao of ADD \<Rightarrow> Some (a + b) | SUB \<Rightarrow> Some (a - b) | MUL \<Rightarrow> Some (a * b)
      | DIV \<Rightarrow> if b = 0 \<or> a = 0x80000000 \<and> b = 0xffffffff then None
               else Some (of_int (sint a sdiv sint b))
      | BAND \<Rightarrow> Some (a AND b) | BOR \<Rightarrow> Some (a OR b)
      | LSH \<Rightarrow> Some (push_bit (unat (b AND 31)) a)
      | RSH \<Rightarrow> Some (signed_drop_bit (unat (b AND 31)) a))"

definition scratch_ref :: "u32 \<Rightarrow> nat option" where
  "scratch_ref kk = (if 0 \<le> sint kk \<and> sint kk < int BPF_MEMWORDS then Some (nat (sint kk)) else None)"

text \<open>One iteration of the loop, from the fetch at \<open>pc\<close>; \<open>st'\<close> already has \<open>pc\<close> advanced by one.\<close>

definition bpf_exec :: "bpf_op \<Rightarrow> bpf_insn \<Rightarrow> packet \<Rightarrow> u32 \<Rightarrow> bpf_state \<Rightarrow> bstep" where
  "bpf_exec bo i p wirelen st =
     (let st' = st\<lparr>pc := pc st + 1\<rparr>;
          toA = (\<lambda>r. case r of Val v \<Rightarrow> Go (st'\<lparr>regA := v\<rparr>) | Ret0 \<Rightarrow> Stop 0 | BadRef \<Rightarrow> Trap BadPkt);
          src = (\<lambda>s. case s of SrcK \<Rightarrow> k i | SrcX \<Rightarrow> regX st) in
      case bo of
        RetK \<Rightarrow> Stop (k i)
      | RetA \<Rightarrow> Stop (regA st)
      | LdAbs sz \<Rightarrow> toA (ld_abs sz p (k i))
      | LdLen \<Rightarrow> Go (st'\<lparr>regA := wirelen\<rparr>)
      | LdxLen \<Rightarrow> Go (st'\<lparr>regX := wirelen\<rparr>)
      | LdInd sz \<Rightarrow> toA (ld_ind sz p (regX st + k i))
      | LdxMsh \<Rightarrow>
          (case ld_msh p (k i) of Val v \<Rightarrow> Go (st'\<lparr>regX := v\<rparr>) | Ret0 \<Rightarrow> Stop 0 | BadRef \<Rightarrow> Trap BadPkt)
      | LdImm \<Rightarrow> Go (st'\<lparr>regA := k i\<rparr>)
      | LdxImm \<Rightarrow> Go (st'\<lparr>regX := k i\<rparr>)
      | LdMem \<Rightarrow> (case scratch_ref (k i) of None \<Rightarrow> Trap BadMem | Some n \<Rightarrow> Go (st'\<lparr>regA := scratch st ! n\<rparr>))
      | LdxMem \<Rightarrow> (case scratch_ref (k i) of None \<Rightarrow> Trap BadMem | Some n \<Rightarrow> Go (st'\<lparr>regX := scratch st ! n\<rparr>))
      | St \<Rightarrow> (case scratch_ref (k i) of None \<Rightarrow> Trap BadMem
                | Some n \<Rightarrow> Go (st'\<lparr>scratch := (scratch st)[n := regA st]\<rparr>))
      | Stx \<Rightarrow> (case scratch_ref (k i) of None \<Rightarrow> Trap BadMem
                 | Some n \<Rightarrow> Go (st'\<lparr>scratch := (scratch st)[n := regX st]\<rparr>))
      | Ja \<Rightarrow> Go (st'\<lparr>pc := pc st' + sint (k i)\<rparr>)
      | Jcc j s \<Rightarrow> Go (st'\<lparr>pc := pc st' + (if bpf_cond j (regA st) (src s) then uint (jt i) else uint (jf i))\<rparr>)
      | Alu a s \<Rightarrow>
          if a = DIV \<and> s = SrcX \<and> regX st = 0 then Stop 0
          else (case bpf_arith a (regA st) (src s) of None \<Rightarrow> Trap DivErr | Some v \<Rightarrow> Go (st'\<lparr>regA := v\<rparr>))
      | Neg \<Rightarrow> Go (st'\<lparr>regA := - regA st\<rparr>)
      | Tax \<Rightarrow> Go (st'\<lparr>regX := regA st\<rparr>)
      | Txa \<Rightarrow> Go (st'\<lparr>regA := regX st\<rparr>))"

definition bpf_step :: "bpf_insn list \<Rightarrow> packet \<Rightarrow> u32 \<Rightarrow> bpf_state \<Rightarrow> bstep" where
  "bpf_step f p wirelen st =
     (if 0 \<le> pc st \<and> pc st < int (length f)
      then let i = f ! nat (pc st) in
           (case bpf_decode (code i) of None \<Rightarrow> Stop 0 | Some bo \<Rightarrow> bpf_exec bo i p wirelen st)
      else Trap BadPc)"

text \<open>
  The \<open>while (1)\<close> loop, with the number of iterations bounded by \<open>n\<close>; \<open>None\<close> means that the
  bound was reached.
\<close>

datatype bres = Accept u32 | Crash trap

fun bpf_run :: "nat \<Rightarrow> bpf_insn list \<Rightarrow> packet \<Rightarrow> u32 \<Rightarrow> bpf_state \<Rightarrow> bres option" where
  "bpf_run 0 f p wirelen st = None"
| "bpf_run (Suc n) f p wirelen st =
     (case bpf_step f p wirelen st of
        Stop v \<Rightarrow> Some (Accept v) | Trap t \<Rightarrow> Some (Crash t) | Go st' \<Rightarrow> bpf_run n f p wirelen st')"

text \<open>
  \<open>bpf_filter\<close>: no program accepts everything; otherwise the loop starts at the first instruction
  with the registers and scratch memory as the stack left them (\<open>st0\<close>).
\<close>

definition bpf_filter :: "nat \<Rightarrow> bpf_insn list option \<Rightarrow> packet \<Rightarrow> u32 \<Rightarrow> bpf_state \<Rightarrow> bres option" where
  "bpf_filter n prog p wirelen st0 =
     (case prog of None \<Rightarrow> Some (Accept (-1)) | Some f \<Rightarrow> bpf_run n f p wirelen (st0\<lparr>pc := 0\<rparr>))"

section \<open>The validator\<close>

text \<open>
  \<open>Verdict b\<close> is a returned truth value; \<open>NoValue\<close> is the \<open>return;\<close> without a value, after which
  the caller tests whatever the register holds.
\<close>

datatype verdict = Verdict bool | NoValue

definition validate_insn :: "int \<Rightarrow> int \<Rightarrow> bpf_insn \<Rightarrow> verdict option" where
  "validate_insn len i p =
     (let from = i + 1 in
      if BPF_CLASS (code p) = BPF_JMP \<and>
         (if BPF_OP (code p) = BPF_JA then sint (of_int from + k p :: u32) \<ge> len
          else from + uint (jt p) \<ge> len \<or> from + uint (jf p) \<ge> len)
      then Some (Verdict False)
      else if (BPF_CLASS (code p) = BPF_ST \<or> BPF_CLASS (code p) = BPF_LD \<and> code p AND 0xe0 = BPF_MEM) \<and>
              (sint (k p) \<ge> int BPF_MEMWORDS \<or> sint (k p) < 0)
      then Some (Verdict False)
      else if (of_bool (code p = BPF_ALU) OR BPF_DIV OR BPF_K) \<noteq> (0 :: u16) \<and> k p = 0
      then Some NoValue
      else None)"

fun validate_from :: "int \<Rightarrow> int \<Rightarrow> bpf_insn list \<Rightarrow> verdict option" where
  "validate_from len i [] = None"
| "validate_from len i (p # ps) =
     (case validate_insn len i p of Some v \<Rightarrow> Some v | None \<Rightarrow> validate_from len (i + 1) ps)"

text \<open>\<open>f[len - 1]\<close> of an empty program is a reference in front of the array.\<close>

definition bpf_validate :: "bpf_insn list \<Rightarrow> verdict kres" where
  "bpf_validate f =
     (case validate_from (int (length f)) 0 f of
        Some v \<Rightarrow> Done v
      | None \<Rightarrow> if f = [] then Fault else Done (Verdict (BPF_CLASS (code (last f)) = BPF_RET)))"

end
