(* ===== verification/Bpf_Safety.thy ===== *)
theory Bpf_Safety
  imports Bpf
begin

unbundle bit_operations_syntax

text \<open>
  What \<open>bpf_validate\<close> buys: programs it accepts terminate and stay inside the program and the
  scratch memory, provided they avoid the three things it fails to check; the loads agree with
  the flattened packet; and the concrete inputs on which validator and loads go wrong.
\<close>

section \<open>Codes and labels\<close>

fun op_class :: "bpf_op \<Rightarrow> u16" where
  "op_class RetK = 6" | "op_class RetA = 6" | "op_class (LdAbs _) = 0" | "op_class LdLen = 0"
| "op_class LdxLen = 1" | "op_class (LdInd _) = 0" | "op_class LdxMsh = 1" | "op_class LdImm = 0"
| "op_class LdxImm = 1" | "op_class LdMem = 0" | "op_class LdxMem = 1" | "op_class St = 2"
| "op_class Stx = 3" | "op_class Ja = 5" | "op_class (Jcc _ _) = 5" | "op_class (Alu _ _) = 4"
| "op_class Neg = 4" | "op_class Tax = 7" | "op_class Txa = 7"

definition label_ok :: "u16 \<times> bpf_op \<Rightarrow> bool" where
  "label_ok = (\<lambda>(c, b). BPF_CLASS c = op_class b \<and> (b = Ja \<longrightarrow> BPF_OP c = 0) \<and>
     ((\<exists>j s. b = Jcc j s) \<longrightarrow> BPF_OP c \<noteq> 0) \<and> (b = LdMem \<longrightarrow> c AND 0xe0 = 0x60))"

lemma labels_ok: "list_all label_ok bpf_labels"
  by (simp add: bpf_labels_def label_ok_def BPF_CLASS_def BPF_OP_def)

lemma decode_ok: "bpf_decode c = Some b \<Longrightarrow> label_ok (c, b)"
  using labels_ok by (auto simp: bpf_decode_def list_all_iff dest!: map_of_SomeD)

lemmas decode_facts = decode_ok [unfolded label_ok_def, simplified]

section \<open>Accepted programs\<close>

definition accepted :: "bpf_insn list \<Rightarrow> bool" where
  "accepted f \<longleftrightarrow> bpf_validate f = Done (Verdict True)"

lemma validate_from_None:
  "validate_from len i f = None \<Longrightarrow> n < length f \<Longrightarrow> validate_insn len (i + int n) (f ! n) = None"
proof (induction f arbitrary: i n)
  case (Cons p ps)
  show ?case
  proof (cases n)
    case (Suc m)
    with Cons.prems Cons.IH [of "i + 1" m] show ?thesis
      by (simp add: ac_simps split: option.splits)
  qed (use Cons.prems in \<open>simp split: option.splits\<close>)
qed simp

lemma validate_insn_not_True: "validate_insn len i p \<noteq> Some (Verdict True)"
  by (simp add: validate_insn_def Let_def)

lemma validate_from_not_True: "validate_from len i f \<noteq> Some (Verdict True)"
  by (induction f arbitrary: i) (auto simp: validate_insn_not_True split: option.splits)

lemma accepted_iff:
  "accepted f \<longleftrightarrow> f \<noteq> [] \<and> validate_from (int (length f)) 0 f = None \<and> BPF_CLASS (code (last f)) = 6"
  using validate_from_not_True [of "int (length f)" 0 f]
  by (auto simp: accepted_def bpf_validate_def split: option.splits)

lemma accepted_insn: "accepted f \<Longrightarrow> n < length f \<Longrightarrow> validate_insn (int (length f)) (int n) (f ! n) = None"
  using validate_from_None [of "int (length f)" 0 f n] by (simp add: accepted_iff)

lemma accepted_facts:
  assumes "accepted f" "n < length f"
  shows "k (f ! n) \<noteq> 0"
    and "BPF_CLASS (code (f ! n)) = 5 \<Longrightarrow> BPF_OP (code (f ! n)) \<noteq> 0 \<Longrightarrow>
      int n + 1 + uint (jt (f ! n)) < int (length f) \<and> int n + 1 + uint (jf (f ! n)) < int (length f)"
    and "BPF_CLASS (code (f ! n)) = 5 \<Longrightarrow> BPF_OP (code (f ! n)) = 0 \<Longrightarrow>
      sint (of_int (int n + 1) + k (f ! n) :: u32) < int (length f)"
    and "BPF_CLASS (code (f ! n)) = 2 \<or> BPF_CLASS (code (f ! n)) = 0 \<and> code (f ! n) AND 0xe0 = 0x60 \<Longrightarrow>
      0 \<le> sint (k (f ! n)) \<and> sint (k (f ! n)) < int BPF_MEMWORDS"
proof -
  have v: "validate_insn (int (length f)) (int n) (f ! n) = None" using assms by (rule accepted_insn)
  have nz: "(of_bool (code (f ! n) = 4) OR 0x30 OR 0) \<noteq> (0 :: u16)"
    by (cases "code (f ! n) = 4") simp_all
  show "k (f ! n) \<noteq> 0" using v nz by (simp add: validate_insn_def Let_def split: if_splits)
  show "int n + 1 + uint (jt (f ! n)) < int (length f) \<and> int n + 1 + uint (jf (f ! n)) < int (length f)"
    if "BPF_CLASS (code (f ! n)) = 5" "BPF_OP (code (f ! n)) \<noteq> 0"
    using v that by (simp add: validate_insn_def Let_def not_le split: if_splits)
  show "sint (of_int (int n + 1) + k (f ! n) :: u32) < int (length f)"
    if "BPF_CLASS (code (f ! n)) = 5" "BPF_OP (code (f ! n)) = 0"
    using v that by (simp add: validate_insn_def Let_def not_le split: if_splits)
  show "0 \<le> sint (k (f ! n)) \<and> sint (k (f ! n)) < int BPF_MEMWORDS"
    if "BPF_CLASS (code (f ! n)) = 2 \<or> BPF_CLASS (code (f ! n)) = 0 \<and> code (f ! n) AND 0xe0 = 0x60"
    using v that by (auto simp: validate_insn_def Let_def not_le not_less split: if_splits)
qed

text \<open>
  What the validator leaves open: \<open>Ja\<close> may jump backwards or wrap, and \<open>LdxMem\<close> and \<open>Stx\<close> may
  leave the scratch memory.  A \<open>tame\<close> program does neither.
\<close>

definition tame_insn :: "bpf_insn \<Rightarrow> bool" where
  "tame_insn i \<longleftrightarrow> (case bpf_decode (code i) of
      Some Ja \<Rightarrow> 0 \<le> sint (k i) \<and> sint (k i) < 0x40000000
    | Some LdxMem \<Rightarrow> 0 \<le> sint (k i) \<and> sint (k i) < int BPF_MEMWORDS
    | Some Stx \<Rightarrow> 0 \<le> sint (k i) \<and> sint (k i) < int BPF_MEMWORDS
    | _ \<Rightarrow> True)"

definition tame :: "bpf_insn list \<Rightarrow> bool" where
  "tame f \<longleftrightarrow> list_all tame_insn f \<and> length f \<le> 512"

lemma sint_plus_small:
  assumes "0 \<le> sint (x :: u32)" "sint x < 0x40000000" "0 \<le> m" "m < 0x40000000"
  shows "sint (of_int m + x) = m + sint x"
proof -
  have x: "x = of_int (sint x)" by simp
  have "of_int m + x = of_int (m + sint x)" by (subst x) simp
  then have "sint (of_int m + x) = sint (of_int (m + sint x) :: u32)" by (simp only:)
  also have "\<dots> = signed_take_bit 31 (m + sint x)" by (simp add: signed_of_int del: of_int_add)
  also have "\<dots> = m + sint x" using assms by (intro signed_take_bit_int_eq_self) simp_all
  finally show ?thesis .
qed


lemma bpf_step_pc:
  assumes "accepted f" "tame f" "0 \<le> pc st" "pc st < int (length f)" "bpf_step f p w st = Go st'"
  shows "pc st < pc st' \<and> pc st' < int (length f)"
proof -
  define n where "n = nat (pc st)"
  then have n: "pc st = int n" "n < length f" using assms(3,4) by auto
  let ?i = "f ! n"
  obtain b where b: "bpf_decode (code ?i) = Some b" and e: "bpf_exec b ?i p w st = Go st'"
    using assms(3-5) n by (auto simp: bpf_step_def Let_def split: option.splits)
  note facts = accepted_facts [OF assms(1) n(2)] and dec = decode_facts [OF b]
  have tame: "tame_insn ?i" using assms(2) n(2) by (auto simp: tame_def list_all_length)
  have last: "op_class b = 6" if "pc st + 1 = int (length f)"
  proof -
    have "n = length f - 1" using that n by simp
    then have "?i = last f" using n(2) by (subst last_conv_nth) auto
    then show ?thesis using assms(1) dec by (simp add: accepted_iff)
  qed
  have fall: "pc st + 1 < int (length f)" if "op_class b \<noteq> 6"
    using last that assms(4) by linarith
  show ?thesis
  proof (cases b)
    case Ja
    have k: "0 \<le> sint (k ?i)" "sint (k ?i) < 0x40000000" using tame b Ja by (simp_all add: tame_insn_def)
    have "sint (of_int (int n + 1) + k ?i :: u32) < int (length f)"
      using facts(3) dec Ja by simp
    moreover have "sint (of_int (int n + 1) + k ?i :: u32) = int n + 1 + sint (k ?i)"
      using k n(2) assms(2) by (intro sint_plus_small) (auto simp: tame_def)
    ultimately show ?thesis using e Ja k n by (auto simp: bpf_exec_def Let_def)
  next
    case (Jcc j s)
    have "0 \<le> uint (jt ?i)" "0 \<le> uint (jf ?i)" by simp_all
    moreover have "pc st' = int n + 1 + uint (jt ?i) \<or> pc st' = int n + 1 + uint (jf ?i)"
      using e Jcc n by (auto simp: bpf_exec_def Let_def)
    moreover have "int n + 1 + uint (jt ?i) < int (length f)" "int n + 1 + uint (jf ?i) < int (length f)"
      using facts(2) dec Jcc by auto
    ultimately show ?thesis using n(1) by linarith
  qed (use e fall in \<open>auto simp: bpf_exec_def Let_def split: load.splits option.splits if_splits\<close>)
qed

text \<open>Loads that cannot leave a contiguous packet: no offset near the top of the address space.\<close>

definition load_bounded :: "bpf_insn \<Rightarrow> bool" where
  "load_bounded i \<longleftrightarrow> (case bpf_decode (code i) of
      Some (LdAbs _) \<Rightarrow> unat (k i) < 4294967292
    | Some (LdInd sz) \<Rightarrow> sz = SzB
    | _ \<Rightarrow> True)"

lemma byte_at_sint:
  assumes "unat kk + i < length bs" "length bs < 2147483648"
  shows "byte_at bs (sint (kk :: u32) + int i) = Some (bs ! (unat kk + i))"
proof -
  have "sint kk = int (unat kk)" using assms by (intro sint32_small) simp
  then have "sint kk + int i = int (unat kk + i)" by simp
  then show ?thesis using assms(1) unfolding byte_at_def by (simp only: nat_int of_nat_less_iff) simp
qed

lemma buflen_Buf: "length bs < 2147483648 \<Longrightarrow> unat (buflen (BufPkt bs)) = length bs"
  by (simp add: buflen_def unat_of_nat)

lemma ld_byte_buf:
  assumes "bs \<noteq> []" "length bs < 2147483648"
  shows "ld_byte c (BufPkt bs) kk = (if unat kk < length bs then Val (scast (bs ! unat kk)) else Ret0)"
proof -
  have nz: "buflen (BufPkt bs) \<noteq> 0" using buflen_Buf [OF assms(2)] assms(1) by auto
  show ?thesis using nz byte_at_sint [of kk 0 bs] assms(2)
    by (auto simp: ld_byte_def word_le_nat_alt buflen_Buf [OF assms(2)])
qed

lemma ld_word_buf:
  assumes "bs \<noteq> []" "length bs < 2147483648" "unat kk < 4294967292"
  shows "ld_word (BufPkt bs) kk =
    (if unat kk + 4 \<le> length bs
     then Val (be32 (bs ! (unat kk + 3)) (bs ! (unat kk + 2)) (bs ! (unat kk + 1)) (bs ! unat kk)) else Ret0)"
proof -
  have nz: "buflen (BufPkt bs) \<noteq> 0" using buflen_Buf [OF assms(2)] assms(1) by auto
  have u: "unat (kk + 4) = unat kk + 4" using assms(3) by (intro trans [OF unat32_plus]) simp_all
  show ?thesis
  proof (cases "unat kk + 4 \<le> length bs")
    case True
    have b: "byte_at bs (sint kk + int i) = Some (bs ! (unat kk + i))" if "i < 4" for i
      using True that assms(2) by (intro byte_at_sint) simp_all
    from b [of 0] b [of 1] b [of 2] b [of 3] True show ?thesis
      by (simp add: ld_word_def word_less_nat_alt buflen_Buf [OF assms(2)] u word_of_def Let_def)
  next
    case False
    with nz show ?thesis by (simp add: ld_word_def word_less_nat_alt buflen_Buf [OF assms(2)] u)
  qed
qed

lemma ld_half_buf:
  assumes "bs \<noteq> []" "length bs < 2147483648" "unat kk < 4294967294"
  shows "ld_half te (BufPkt bs) kk =
    (if unat kk + 2 \<le> length bs then Val (be16 (bs ! unat kk) (bs ! (unat kk + 1))) else Ret0)"
proof -
  have nz: "buflen (BufPkt bs) \<noteq> 0" using buflen_Buf [OF assms(2)] assms(1) by auto
  have u: "unat (kk + 2) = unat kk + 2" using assms(3) by (intro trans [OF unat32_plus]) simp_all
  show ?thesis
  proof (cases "unat kk + 2 \<le> length bs")
    case True
    have b: "byte_at bs (sint kk + int i) = Some (bs ! (unat kk + i))" if "i < 2" for i
      using True that assms(2) by (intro byte_at_sint) simp_all
    from b [of 0] b [of 1] True show ?thesis
      by (simp add: ld_half_def word_less_nat_alt buflen_Buf [OF assms(2)] u half_of_def)
  next
    case False
    with nz show ?thesis by (simp add: ld_half_def word_less_nat_alt buflen_Buf [OF assms(2)] u)
  qed
qed

lemmas ld_buf = ld_byte_buf ld_word_buf ld_half_buf

lemma bpf_step_trap:
  assumes "accepted f" "tame f" "0 \<le> pc st" "pc st < int (length f)" "bpf_step f p w st = Trap t"
  shows "t = BadPkt \<or> t = DivErr"
    and "list_all load_bounded f \<Longrightarrow> p = BufPkt bs \<Longrightarrow> bs \<noteq> [] \<Longrightarrow> length bs < 2147483648 \<Longrightarrow> t = DivErr"
proof -
  define n where "n = nat (pc st)"
  then have n: "pc st = int n" "n < length f" using assms(3,4) by auto
  let ?i = "f ! n"
  obtain b where b: "bpf_decode (code ?i) = Some b" and e: "bpf_exec b ?i p w st = Trap t"
    using assms(3-5) n by (auto simp: bpf_step_def Let_def split: option.splits)
  note facts = accepted_facts [OF assms(1) n(2)] and dec = decode_facts [OF b]
  have tame: "tame_insn ?i" using assms(2) n(2) by (auto simp: tame_def list_all_length)
  have ref: "scratch_ref (k ?i) \<noteq> None" if "b = LdMem \<or> b = LdxMem \<or> b = St \<or> b = Stx"
    using that tame b facts(4) dec by (auto simp: tame_insn_def scratch_ref_def)
  show "t = BadPkt \<or> t = DivErr"
    using e ref by (cases b) (auto simp: bpf_exec_def Let_def split: load.splits option.splits if_splits)
  assume l: "list_all load_bounded f" and p: "p = BufPkt bs" "bs \<noteq> []" "length bs < 2147483648"
  have lb: "load_bounded ?i" using l n(2) by (auto simp: list_all_length)
  show "t = DivErr"
  proof (cases b)
    case (LdAbs sz)
    then have "unat (k ?i) < 4294967292" using lb b by (simp add: load_bounded_def)
    then show ?thesis using e LdAbs p
      by (cases sz) (auto simp: bpf_exec_def Let_def ld_abs_def ld_buf split: if_splits)
  next
    case (LdInd sz)
    then show ?thesis using e lb b p
      by (auto simp: bpf_exec_def Let_def ld_ind_def ld_buf load_bounded_def split: if_splits)
  next
    case LdxMsh
    then show ?thesis using e p by (auto simp: bpf_exec_def Let_def ld_msh_def ld_buf split: if_splits)
  qed (use e ref in \<open>auto simp: bpf_exec_def Let_def split: load.splits option.splits if_splits\<close>)
qed

lemma bpf_run_total:
  assumes "accepted f" "tame f" "0 \<le> pc st" "pc st < int (length f)" "int (length f) - pc st \<le> int n"
  shows "\<exists>r. bpf_run n f p w st = Some r \<and> r \<noteq> Crash BadPc \<and> r \<noteq> Crash BadMem \<and>
    (\<forall>bs. list_all load_bounded f \<and> p = BufPkt bs \<and> bs \<noteq> [] \<and> length bs < 2147483648 \<longrightarrow> r \<noteq> Crash BadPkt)"
  using assms(3-)
proof (induction n arbitrary: st)
  case (Suc n)
  show ?case
  proof (cases "bpf_step f p w st")
    case (Trap t)
    then show ?thesis using bpf_step_trap [OF assms(1,2) Suc.prems(1,2) Trap] by auto
  next
    case (Go st')
    from bpf_step_pc [OF assms(1,2) Suc.prems(1,2) Go] Suc.prems Suc.IH [of st'] Go
    show ?thesis by auto
  qed simp
qed simp

section \<open>Loads from mbuf chains\<close>

definition chain_bytes :: "mbuf list \<Rightarrow> u8 list" where
  "chain_bytes ms = concat (map (\<lambda>m. take (m_len m) (m_dat m)) ms)"

definition chain_wf :: "mbuf list \<Rightarrow> bool" where
  "chain_wf ms \<longleftrightarrow> (\<forall>m \<in> set ms. m_len m \<le> length (m_dat m))"

lemma chain_bytes_nth:
  assumes "chain_wf (pre @ m # rest)" "j < m_len m"
  shows "chain_bytes (pre @ m # rest) ! (length (chain_bytes pre) + j) = m_dat m ! j"
    and "length (chain_bytes pre) + j < length (chain_bytes (pre @ m # rest))"
  using assms by (auto simp: chain_bytes_def chain_wf_def nth_append)

lemma MINDEX_skip:
  "chain_wf (pre @ m # rest) \<Longrightarrow> j < m_len m \<Longrightarrow>
   MINDEX (pre @ m # rest) (int (length (chain_bytes pre) + j)) = Some (m, rest, int j)"
  by (induction pre) (auto simp: chain_bytes_def chain_wf_def)

lemma MINDEX_end: "chain_wf ms \<Longrightarrow> length (chain_bytes ms) \<le> n \<Longrightarrow> MINDEX ms (int n) = None"
proof (induction ms arbitrary: n)
  case (Cons m ms)
  then have "m_len m \<le> n" "length (chain_bytes ms) \<le> n - m_len m"
    by (auto simp: chain_bytes_def chain_wf_def)
  with Cons.IH [of "n - m_len m"] Cons.prems show ?case by (simp add: chain_wf_def)
qed simp

lemma chain_locate:
  "chain_wf ms \<Longrightarrow> n < length (chain_bytes ms) \<Longrightarrow>
   \<exists>pre m rest j. ms = pre @ m # rest \<and> j < m_len m \<and> n = length (chain_bytes pre) + j"
proof (induction ms arbitrary: n)
  case (Cons m ms)
  show ?case
  proof (cases "n < m_len m")
    case True
    then show ?thesis
      by (intro exI [of _ "[]"] exI [of _ m] exI [of _ ms] exI [of _ n]) (simp add: chain_bytes_def)
  next
    case False
    with Cons.prems have "chain_wf ms" "n - m_len m < length (chain_bytes ms)"
      by (auto simp: chain_bytes_def chain_wf_def)
    with Cons.IH obtain pre m' rest j where
      "ms = pre @ m' # rest" "j < m_len m'" "n - m_len m = length (chain_bytes pre) + j" by blast
    with False Cons.prems(1) show ?thesis
      by (intro exI [of _ "m # pre"] exI [of _ m'] exI [of _ rest] exI [of _ j])
         (auto simp: chain_bytes_def chain_wf_def)
  qed
qed (simp add: chain_bytes_def)

lemma byte_at_nat: "i < length bs \<Longrightarrow> byte_at bs (int i) = Some (bs ! i)"
  by (simp add: byte_at_def)

section \<open>Properties\<close>

text \<open>
  C30: a program that \<open>bpf_validate\<close> accepts, with at most 512 instructions and tame (its \<open>ja\<close>
  jumps go forward and its \<open>ldx\<close>/\<open>stx\<close> memory operands are in range), terminates on every packet
  within as many steps as it has instructions, and never leaves the program or the scratch
  memory; if moreover its loads are bounded, it never reads outside a contiguous packet.
\<close>

theorem bpf_filter_safe:
  assumes "accepted f" "tame f"
  shows "\<exists>r. bpf_filter (length f) (Some f) p w st = Some r \<and> r \<noteq> Crash BadPc \<and> r \<noteq> Crash BadMem \<and>
    (\<forall>bs. list_all load_bounded f \<and> p = BufPkt bs \<and> bs \<noteq> [] \<and> length bs < 2147483648 \<longrightarrow> r \<noteq> Crash BadPkt)"
proof -
  have "0 < length f" using assms(1) by (simp add: accepted_iff)
  with bpf_run_total [OF assms, of "st\<lparr>pc := 0\<rparr>" "length f" p w] show ?thesis
    by (simp add: bpf_filter_def)
qed

theorem bpf_filter_safe_witness:
  "\<exists>r. bpf_filter 4 (Some [\<lparr>code = 0x28, jt = 0, jf = 0, k = 12\<rparr>, \<lparr>code = 0x15, jt = 0, jf = 1, k = 0x0800\<rparr>,
      \<lparr>code = 0x06, jt = 0, jf = 0, k = 96\<rparr>, \<lparr>code = 0x16, jt = 0, jf = 0, k = 1\<rparr>])
      (BufPkt (replicate 14 8)) 14 \<lparr>regA = 0, regX = 0, scratch = replicate 16 0, pc = 0\<rparr> = Some r \<and>
    r \<noteq> Crash BadPc \<and> r \<noteq> Crash BadMem"
proof -
  let ?f = "[\<lparr>code = 0x28, jt = 0, jf = 0, k = 12\<rparr>, \<lparr>code = 0x15, jt = 0, jf = 1, k = 0x0800\<rparr>,
      \<lparr>code = 0x06, jt = 0, jf = 0, k = 96\<rparr>, \<lparr>code = 0x16, jt = 0, jf = 0, k = 1\<rparr>]"
  have "accepted ?f"
    by (simp add: accepted_iff validate_insn_def BPF_CLASS_def BPF_OP_def)
  moreover have "tame ?f" by (simp add: tame_def tame_insn_def bpf_decode_def bpf_labels_def)
  moreover have "length ?f = 4" by simp
  ultimately show ?thesis
    using bpf_filter_safe [of ?f "BufPkt (replicate 14 8)" 14
      "\<lparr>regA = 0, regX = 0, scratch = replicate 16 0, pc = 0\<rparr>"] by metis
qed

text \<open>
  every load from a contiguous packet (shorter than \<open>2^31\<close> bytes) that is not within four
  bytes of the top of the address space is exact: it yields the bytes of the packet at that
  offset when they are all present and makes the filter return 0 otherwise.  The word is
  assembled little-endian, the half word big-endian, the byte is sign extended.
\<close>

theorem bpf_loads_contiguous:
  assumes "bs \<noteq> []" "length bs < 2147483648" "unat kk < 4294967292"
  shows "ld_abs SzW (BufPkt bs) kk = (if unat kk + 4 \<le> length bs
      then Val (be32 (bs ! (unat kk + 3)) (bs ! (unat kk + 2)) (bs ! (unat kk + 1)) (bs ! unat kk)) else Ret0) \<and>
    ld_abs SzH (BufPkt bs) kk = (if unat kk + 2 \<le> length bs
      then Val (be16 (bs ! unat kk) (bs ! (unat kk + 1))) else Ret0) \<and>
    ld_abs SzB (BufPkt bs) kk = (if unat kk < length bs then Val (scast (bs ! unat kk)) else Ret0)"
  using ld_word_buf [OF assms] ld_half_buf [OF assms(1,2), of kk False] ld_byte_buf [OF assms(1,2), of ucast kk] assms(3)
  by (simp add: ld_abs_def)

theorem bpf_loads_contiguous_witness:
  "ld_abs SzH (BufPkt [8, 0, 1, 2]) 0 = Val 0x800 \<and> ld_abs SzW (BufPkt [8, 0, 1, 2]) 1 = Ret0"
  using bpf_loads_contiguous [of "[8, 0, 1, 2]" 0] bpf_loads_contiguous [of "[8, 0, 1, 2]" 1]
  by (simp add: be16_def)

text \<open>
  on an mbuf chain, byte loads at any offset, and word and half-word loads that lie inside one
  mbuf, read the bytes of the flattened packet at that offset, in network order; a byte
  offset past the end makes the filter return 0.
\<close>

theorem bpf_loads_chain:
  assumes "chain_wf ms" "unat kk < 2147483648"
  shows "ld_byte ucast (MbufPkt ms) kk =
      (if unat kk < length (chain_bytes ms) then Val (ucast (chain_bytes ms ! unat kk)) else Ret0) \<and>
    (\<forall>pre m rest j. ms = pre @ m # rest \<and> j + 4 \<le> m_len m \<and> n = length (chain_bytes pre) + j \<longrightarrow>
      m_xword ms (int n) = Val (be32 (chain_bytes ms ! n) (chain_bytes ms ! (n + 1))
        (chain_bytes ms ! (n + 2)) (chain_bytes ms ! (n + 3)))) \<and>
    (\<forall>pre m rest j. ms = pre @ m # rest \<and> j + 2 \<le> m_len m \<and> n = length (chain_bytes pre) + j \<longrightarrow>
      m_xhalf ms (int n) = Val (be16 (chain_bytes ms ! n) (chain_bytes ms ! (n + 1))))"
proof (intro conjI allI impI)
  have s: "sint kk = int (unat kk)" using assms(2) by (rule sint32_small)
  show "ld_byte ucast (MbufPkt ms) kk =
      (if unat kk < length (chain_bytes ms) then Val (ucast (chain_bytes ms ! unat kk)) else Ret0)"
  proof (cases "unat kk < length (chain_bytes ms)")
    case True
    then obtain pre m rest j where
      l: "ms = pre @ m # rest" "j < m_len m" "unat kk = length (chain_bytes pre) + j"
      using chain_locate [OF assms(1)] by blast
    have "j < length (m_dat m)" using assms(1) l(1,2) by (auto simp: chain_wf_def)
    then show ?thesis
      using MINDEX_skip [of pre m rest j] chain_bytes_nth [of pre m rest j] l assms(1) True
      unfolding ld_byte_def by (simp add: buflen_def s byte_at_nat del: int_nat_eq of_nat_add unsigned_0)
  next
    case False
    then show ?thesis using MINDEX_end [OF assms(1), of "unat kk"]
      unfolding ld_byte_def s by (simp add: buflen_def)
  qed
next
  fix pre m rest j
  assume "ms = pre @ m # rest \<and> j + 4 \<le> m_len m \<and> n = length (chain_bytes pre) + j"
  then have l: "ms = pre @ m # rest" "j + 4 \<le> m_len m" "n = length (chain_bytes pre) + j" by auto
  have x: "MINDEX ms (int n) = Some (m, rest, int j)" using MINDEX_skip [of pre m rest j] l assms(1) by simp
  have b: "byte_at (m_dat m) (int j + int i) = Some (chain_bytes ms ! (n + i))" if "i < 4" for i
    using byte_at_nat [of "j + i" "m_dat m"] chain_bytes_nth(1) [of pre m rest "j + i"] that l assms(1)
    by (auto simp: chain_wf_def add.assoc)
  show "m_xword ms (int n) = Val (be32 (chain_bytes ms ! n) (chain_bytes ms ! (n + 1))
        (chain_bytes ms ! (n + 2)) (chain_bytes ms ! (n + 3)))"
    using x l(2) b [of 0] b [of 1] b [of 2] b [of 3] by (simp add: m_xword_def word_of_def Let_def)
next
  fix pre m rest j
  assume "ms = pre @ m # rest \<and> j + 2 \<le> m_len m \<and> n = length (chain_bytes pre) + j"
  then have l: "ms = pre @ m # rest" "j + 2 \<le> m_len m" "n = length (chain_bytes pre) + j" by auto
  have x: "MINDEX ms (int n) = Some (m, rest, int j)" using MINDEX_skip [of pre m rest j] l assms(1) by simp
  have b: "byte_at (m_dat m) (int j + int i) = Some (chain_bytes ms ! (n + i))" if "i < 2" for i
    using byte_at_nat [of "j + i" "m_dat m"] chain_bytes_nth(1) [of pre m rest "j + i"] that l assms(1)
    by (auto simp: chain_wf_def add.assoc)
  show "m_xhalf ms (int n) = Val (be16 (chain_bytes ms ! n) (chain_bytes ms ! (n + 1)))"
    using x l(2) b [of 0] b [of 1] by (simp add: m_xhalf_def half_of_def Let_def)
qed

theorem bpf_loads_chain_witness:
  "ld_byte ucast (MbufPkt [\<lparr>m_len = 2, m_dat = [1, 2, 99]\<rparr>, \<lparr>m_len = 2, m_dat = [3, 200]\<rparr>]) 3 = Val 200"
  using bpf_loads_chain [of "[\<lparr>m_len = 2, m_dat = [1, 2, 99]\<rparr>, \<lparr>m_len = 2, m_dat = [3, 200]\<rparr>]" 3 0]
  by (simp add: chain_wf_def chain_bytes_def)

text \<open>
  the byte order of a word load depends on how the packet is stored: the contiguous path
  lacks the \<open>ntohl\<close> that \<open>EXTRACT_LONG\<close> applies on the mbuf path.
\<close>

theorem bpf_word_order_differs:
  "ld_word (BufPkt [1, 2, 3, 4]) 0 = Val 0x04030201 \<and>
   ld_word (MbufPkt [\<lparr>m_len = 4, m_dat = [1, 2, 3, 4]\<rparr>]) 0 = Val 0x01020304"
  by (simp add: ld_word_def buflen_def m_xword_def word_of_def byte_at_def be32_def Let_def)

text \<open>
  a word that straddles two mbufs at a non-zero offset is read wrongly: offset 1 of the
  packet \<open>1 2 3 | 4 5 6\<close> yields the bytes 3, 99, 4, 5, of which 99 is not packet data.
\<close>

theorem m_xword_straddle_wrong:
  "m_xword [\<lparr>m_len = 3, m_dat = [1, 2, 3, 99]\<rparr>, \<lparr>m_len = 3, m_dat = [4, 5, 6]\<rparr>] 1 = Val (be32 3 99 4 5) \<and>
   take 4 (drop 1 (chain_bytes [\<lparr>m_len = 3, m_dat = [1, 2, 3, 99]\<rparr>, \<lparr>m_len = 3, m_dat = [4, 5, 6]\<rparr>])) = [2, 3, 4, 5]"
  by (simp add: m_xword_def word_of_def byte_at_def chain_bytes_def Let_def)

text \<open>
  the validator accepts a program whose first instruction jumps to itself; the filter then
  never returns, whatever the packet.
\<close>

theorem bpf_validate_accepts_loop:
  "accepted [\<lparr>code = 0x05, jt = 0, jf = 0, k = -1\<rparr>, \<lparr>code = 0x06, jt = 0, jf = 0, k = 1\<rparr>] \<and>
   (\<forall>n p w st. bpf_filter n (Some [\<lparr>code = 0x05, jt = 0, jf = 0, k = -1\<rparr>, \<lparr>code = 0x06, jt = 0, jf = 0, k = 1\<rparr>]) p w st = None)"
proof
  let ?f = "[\<lparr>code = 0x05, jt = 0, jf = 0, k = -1\<rparr>, \<lparr>code = 0x06, jt = 0, jf = 0, k = 1\<rparr>]"
  show "accepted ?f" by (simp add: accepted_iff validate_insn_def BPF_CLASS_def BPF_OP_def)
  have step: "bpf_step ?f p w (st\<lparr>pc := 0\<rparr>) = Go (st\<lparr>pc := 0\<rparr>)" for p w st
    by (simp add: bpf_step_def bpf_decode_def bpf_labels_def bpf_exec_def Let_def)
  have "bpf_run n ?f p w (st\<lparr>pc := 0\<rparr>) = None" for n p w st
    by (induction n) (simp_all add: step)
  then show "\<forall>n p w st. bpf_filter n (Some ?f) p w st = None" by (simp add: bpf_filter_def)
qed

text \<open>
  the validator accepts a program that stores \<open>X\<close> far outside the scratch memory (only
  \<open>BPF_ST\<close> and \<open>BPF_LD\<close> operands are checked), and one whose word load at offset \<open>-1\<close> passes the
  length check by wrap-around and reads in front of the packet.
\<close>

theorem bpf_validate_misses_operands:
  "accepted [\<lparr>code = 0x03, jt = 0, jf = 0, k = 1000\<rparr>, \<lparr>code = 0x06, jt = 0, jf = 0, k = 1\<rparr>] \<and>
   bpf_filter 2 (Some [\<lparr>code = 0x03, jt = 0, jf = 0, k = 1000\<rparr>, \<lparr>code = 0x06, jt = 0, jf = 0, k = 1\<rparr>]) p w st
     = Some (Crash BadMem) \<and>
   accepted [\<lparr>code = 0x20, jt = 0, jf = 0, k = -1\<rparr>, \<lparr>code = 0x06, jt = 0, jf = 0, k = 1\<rparr>] \<and>
   bpf_filter 2 (Some [\<lparr>code = 0x20, jt = 0, jf = 0, k = -1\<rparr>, \<lparr>code = 0x06, jt = 0, jf = 0, k = 1\<rparr>])
     (BufPkt [1, 2, 3, 4, 5]) w st = Some (Crash BadPkt)"
proof (intro conjI)
  let ?f = "[\<lparr>code = 0x03, jt = 0, jf = 0, k = 1000\<rparr>, \<lparr>code = 0x06, jt = 0, jf = 0, k = 1\<rparr>]"
  let ?g = "[\<lparr>code = 0x20, jt = 0, jf = 0, k = -1\<rparr>, \<lparr>code = 0x06, jt = 0, jf = 0, k = 1\<rparr>]"
  show "accepted ?f" "accepted ?g"
    by (simp_all add: accepted_iff validate_insn_def BPF_CLASS_def BPF_OP_def)
  have "bpf_step ?f p w (st\<lparr>pc := 0\<rparr>) = Trap BadMem"
    by (simp add: bpf_step_def bpf_decode_def bpf_labels_def bpf_exec_def scratch_ref_def BPF_MEMWORDS_def)
  then have "bpf_run (Suc 1) ?f p w (st\<lparr>pc := 0\<rparr>) = Some (Crash BadMem)" by simp
  then show "bpf_filter 2 (Some ?f) p w st = Some (Crash BadMem)"
    by (simp only: bpf_filter_def option.case Suc_1)
  have "ld_word (BufPkt [1, 2, 3, 4, 5]) (- 1) = BadRef"
    by (simp add: ld_word_def buflen_def byte_at_def word_of_def)
  then have "bpf_step ?g (BufPkt [1, 2, 3, 4, 5]) w (st\<lparr>pc := 0\<rparr>) = Trap BadPkt"
    by (simp add: bpf_step_def bpf_decode_def bpf_labels_def bpf_exec_def ld_abs_def)
  then have "bpf_run (Suc 1) ?g (BufPkt [1, 2, 3, 4, 5]) w (st\<lparr>pc := 0\<rparr>) = Some (Crash BadPkt)" by simp
  then show "bpf_filter 2 (Some ?g) (BufPkt [1, 2, 3, 4, 5]) w st = Some (Crash BadPkt)"
    by (simp only: bpf_filter_def option.case Suc_1)
qed

text \<open>
  no program with a zero operand in any instruction is ever accepted.  The test meant for
  constant division by 0 compares \<open>(code == BPF_ALU) | BPF_DIV | BPF_K\<close>, which is never 0, so
  it applies to every instruction, and leaves the function without a value: \<open>ret #0\<close>, the
  program that rejects all packets, gets no verdict.
\<close>

theorem bpf_validate_zero_operand:
  "(\<forall>f. (\<exists>i \<in> set f. k i = 0) \<longrightarrow> \<not> accepted f) \<and>
   bpf_validate [\<lparr>code = 0x06, jt = 0, jf = 0, k = 0\<rparr>] = Done NoValue"
proof
  show "\<forall>f. (\<exists>i \<in> set f. k i = 0) \<longrightarrow> \<not> accepted f"
  proof (intro allI impI notI)
    fix f :: "bpf_insn list"
    assume "\<exists>i \<in> set f. k i = 0" and a: "accepted f"
    then obtain n where "n < length f" "k (f ! n) = 0" by (auto simp: in_set_conv_nth)
    with accepted_facts(1) [OF a] show False by blast
  qed
  show "bpf_validate [\<lparr>code = 0x06, jt = 0, jf = 0, k = 0\<rparr>] = Done NoValue"
    by (simp add: bpf_validate_def validate_insn_def BPF_CLASS_def)
qed

theorem bpf_validate_zero_operand_witness:
  "\<not> accepted [\<lparr>code = 0x06, jt = 0, jf = 0, k = 0\<rparr>]"
  using bpf_validate_zero_operand [THEN conjunct1, rule_format, of "[\<lparr>code = 0x06, jt = 0, jf = 0, k = 0\<rparr>]"]
  by simp

end
