(* ===== verification/Bpf_Dev.thy ===== *)
theory Bpf_Dev
  imports Bpf_Safety
begin

unbundle bit_operations_syntax

text \<open>
  The packet filter device (\<open>bpf/bpf.c\<close>, \<open>include/domain/bpfdesc.h\<close>): descriptors with a store, a hold
  and a free buffer, the lists of listeners of the interfaces, and the operations of the device.  A
  buffer is the list of its bytes, held by the slot that points to it; \<open>NULL\<close> is \<open>None\<close>.  The lists are
  the pointers \<open>bd_next\<close>, so that a walk over a list that has become a cycle does not return: its value
  is \<open>None\<close>.  The driver (\<open>if_ioctl\<close>, \<open>if_output\<close>), the clock (\<open>microtime\<close>), the memory \<open>malloc\<close> returns
  and the copies from user space are arguments.
\<close>

section \<open>State\<close>

definition NBPFILTER :: nat where "NBPFILTER = 3"
definition BPF_MAXINSNS :: nat where "BPF_MAXINSNS = 512"
definition SIZEOF_BPF_HDR :: nat where "SIZEOF_BPF_HDR = 18"
definition MCLBYTES :: nat where "MCLBYTES = 2048"
definition MLEN :: nat where "MLEN = 108"
definition SA_DATA :: nat where "SA_DATA = 14"
definition DLT_EN10MB :: u32 where "DLT_EN10MB = 1"
definition DLT_SLIP :: u32 where "DLT_SLIP = 8"
definition DLT_FDDI :: u32 where "DLT_FDDI = 10"
definition AF_UNSPEC :: int where "AF_UNSPEC = 0"
definition AF_INET :: int where "AF_INET = 2"
definition IFF_UP :: u16 where "IFF_UP = 1"
definition IFF_PROMISC :: u16 where "IFF_PROMISC = 256"
definition EINTR :: int where "EINTR = 4"
definition EIO :: int where "EIO = 5"
definition ENXIO :: int where "ENXIO = 6"
definition EBUSY :: int where "EBUSY = 16"
definition EWOULDBLOCK :: int where "EWOULDBLOCK = 35"
definition EMSGSIZE :: int where "EMSGSIZE = 40"
definition ENETDOWN :: int where "ENETDOWN = 50"
definition ENOBUFS :: int where "ENOBUFS = 55"
definition ERESTART :: int where "ERESTART = -1"

definition BPF_WORDALIGN :: "nat \<Rightarrow> nat" where
  "BPF_WORDALIGN x = nat ((int x + 3) AND NOT 3)"

record bpf_d =
  bd_next :: "nat option"
  bd_sbuf :: "u8 list option"
  bd_hbuf :: "u8 list option"
  bd_fbuf :: "u8 list option"
  bd_slen :: nat
  bd_hlen :: nat
  bd_bufsize :: nat
  bd_bif :: "addr option"
  bd_rtout :: u32
  bd_filter :: "bpf_insn list option"
  bd_rcount :: u32
  bd_dcount :: u32
  bd_selproc :: int
  bd_promisc :: bool
  bd_selcoll :: bool
  bd_immediate :: u8

record bpf_if =
  bif_dlist :: "nat option"
  bif_driver :: "addr option"
  bif_dlt :: u32
  bif_hdrlen :: nat
  bif_ifp :: addr

record ifnet =
  if_name :: "u8 list"
  if_unit :: int
  if_mtu :: nat
  if_flags :: u16
  if_pcount :: int

datatype bevent = BWakeup nat | BSelwakeup int bool | BSetflags addr u16

record bdev =
  bpf_dtab :: "nat \<Rightarrow> bpf_d"
  bpf_iflist :: "addr list"
  bpf_ifs :: "addr \<Rightarrow> bpf_if option"
  ifnets :: "addr \<Rightarrow> ifnet option"
  b_events :: "bevent list"

definition upd_d :: "nat \<Rightarrow> (bpf_d \<Rightarrow> bpf_d) \<Rightarrow> bdev \<Rightarrow> bdev" where
  "upd_d d f s = s\<lparr>bpf_dtab := (bpf_dtab s)(d := f (bpf_dtab s d))\<rparr>"

definition upd_if :: "addr \<Rightarrow> (bpf_if \<Rightarrow> bpf_if) \<Rightarrow> bdev \<Rightarrow> bdev" where
  "upd_if b f s = s\<lparr>bpf_ifs := (bpf_ifs s)(b := map_option f (bpf_ifs s b))\<rparr>"

definition bposts :: "bevent list \<Rightarrow> bdev \<Rightarrow> bdev" where
  "bposts es s = s\<lparr>b_events := b_events s @ es\<rparr>"

text \<open>Routines that walk a list may not return; the others are lifted.\<close>

fun lbind :: "'a kres option \<Rightarrow> ('a \<Rightarrow> 'b kres option) \<Rightarrow> 'b kres option" where
  "lbind None f = None"
| "lbind (Some (Done x)) f = f x"
| "lbind (Some (Panic m)) f = Some (Panic m)"
| "lbind (Some Fault) f = Some Fault"

section \<open>Buffers\<close>

definition ROTATE_BUFFERS :: "bpf_d \<Rightarrow> bpf_d" where
  "ROTATE_BUFFERS d = d\<lparr>bd_hbuf := bd_sbuf d, bd_hlen := bd_slen d, bd_sbuf := bd_fbuf d, bd_slen := 0, bd_fbuf := None\<rparr>"

definition reset_d :: "bpf_d \<Rightarrow> bpf_d" where
  "reset_d d = (if bd_hbuf d \<noteq> None then d\<lparr>bd_fbuf := bd_hbuf d, bd_hbuf := None\<rparr> else d)
     \<lparr>bd_slen := 0, bd_rcount := 0, bd_dcount := 0\<rparr>"

definition bpf_wakeup :: "nat \<Rightarrow> bpf_d \<Rightarrow> bevent list \<times> bpf_d" where
  "bpf_wakeup n d =
     (if bd_selproc d \<noteq> 0 then ([BWakeup n, BSelwakeup (bd_selproc d) (bd_selcoll d)], d\<lparr>bd_selcoll := False, bd_selproc := 0\<rparr>)
      else ([BWakeup n], d))"

text \<open>Numbers in memory, the least significant byte first.\<close>

definition le32 :: "u32 \<Rightarrow> u8 list" where
  "le32 w = map (\<lambda>i. ucast (drop_bit (8 * i) w)) [0..<4]"

definition le16 :: "u16 \<Rightarrow> u8 list" where
  "le16 w = map (\<lambda>i. ucast (drop_bit (8 * i) w)) [0..<2]"

definition put_bytes :: "nat \<Rightarrow> u8 list \<Rightarrow> u8 list \<Rightarrow> u8 list kres" where
  "put_bytes i bs buf = (if i + length bs \<le> length buf then Done (take i buf @ bs @ drop (i + length bs) buf) else Fault)"

text \<open>\<open>struct bpf_hdr\<close>.\<close>

definition bpf_hdr :: "u32 \<times> u32 \<Rightarrow> u32 \<Rightarrow> u32 \<Rightarrow> nat \<Rightarrow> u8 list" where
  "bpf_hdr ts caplen datalen hdrlen = le32 (fst ts) @ le32 (snd ts) @ le32 caplen @ le32 datalen @ le16 (of_nat hdrlen)"

text \<open>The copy routines: \<open>len\<close> bytes from a contiguous packet, or from a chain of mbufs.\<close>

definition memcpy_from :: "u8 list \<Rightarrow> nat \<Rightarrow> u8 list kres" where
  "memcpy_from pkt len = (if len \<le> length pkt then Done (take len pkt) else Fault)"

fun bpf_mcopy :: "mbuf list \<Rightarrow> nat \<Rightarrow> u8 list kres" where
  "bpf_mcopy [] len = (if 0 < len then Panic ''bpf_mcopy'' else Done [])"
| "bpf_mcopy (m # ms) len =
     (if 0 < len then
        let count = min (m_len m) len in
        kbind (memcpy_from (m_dat m) count) (\<lambda>bs. kmap (append bs) (bpf_mcopy ms (len - count)))
      else Done [])"

text \<open>
  \<open>catchpacket\<close> on descriptor \<open>n\<close>, whose interface has headers of \<open>hdrlen\<close> bytes; \<open>cpfn\<close> is the copy
  routine applied to the packet, \<open>ts\<close> the time.
\<close>

definition catch_store :: "(nat \<Rightarrow> u8 list kres) \<Rightarrow> u32 \<times> u32 \<Rightarrow> nat \<Rightarrow> u32 \<Rightarrow> nat \<Rightarrow> nat \<Rightarrow> bpf_d \<Rightarrow> bpf_d kres" where
  "catch_store cpfn ts hdrlen pktlen totlen curlen d =
     (if totlen < hdrlen then Fault
      else
        kbind (deref (bd_sbuf d)) (\<lambda>buf.
        kbind (put_bytes curlen (bpf_hdr ts (of_nat (totlen - hdrlen)) pktlen hdrlen) buf) (\<lambda>buf1.
        kbind (cpfn (totlen - hdrlen)) (\<lambda>bs.
        kmap (\<lambda>buf2. d\<lparr>bd_sbuf := Some buf2, bd_slen := curlen + totlen\<rparr>) (put_bytes (curlen + hdrlen) bs buf1)))))"

definition catchpacket :: "(nat \<Rightarrow> u8 list kres) \<Rightarrow> u32 \<times> u32 \<Rightarrow> nat \<Rightarrow> u32 \<Rightarrow> u32 \<Rightarrow> nat \<Rightarrow> bpf_d \<Rightarrow> (bevent list \<times> bpf_d) kres" where
  "catchpacket cpfn ts hdrlen pktlen snaplen n d =
     (let tot0 = sint (of_nat hdrlen + min snaplen pktlen :: u32);
          tot = (if int (bd_bufsize d) < tot0 then int (bd_bufsize d) else tot0);
          curlen = BPF_WORDALIGN (bd_slen d) in
      if tot < 0 then Fault
      else if bd_bufsize d < curlen + nat tot then
        if bd_fbuf d = None then Done ([], d\<lparr>bd_dcount := bd_dcount d + 1\<rparr>)
        else let (es, d1) = bpf_wakeup n (ROTATE_BUFFERS d) in
             kmap (Pair es) (catch_store cpfn ts hdrlen pktlen (nat tot) 0 d1)
      else if bd_immediate d \<noteq> 0 then
        let (es, d1) = bpf_wakeup n d in kmap (Pair es) (catch_store cpfn ts hdrlen pktlen (nat tot) curlen d1)
      else kmap (Pair []) (catch_store cpfn ts hdrlen pktlen (nat tot) curlen d))"

section \<open>Reading\<close>

text \<open>
  A pass of \<open>bpfread\<close> from the head of its loop, or from the return \<open>err\<close> of \<open>tsleep\<close>: it sleeps, it
  returns, or the hold buffer is there to be copied.
\<close>

datatype rpass = RSleep | RReturn int | RCopy bpf_d

definition bpfread_head :: "bpf_d \<Rightarrow> rpass" where
  "bpfread_head d =
     (if bd_hbuf d \<noteq> None then RCopy d
      else if bd_immediate d \<noteq> 0 \<and> bd_slen d \<noteq> 0 then RCopy (ROTATE_BUFFERS d)
      else RSleep)"

definition bpfread_woken :: "int \<Rightarrow> bpf_d \<Rightarrow> rpass" where
  "bpfread_woken err d =
     (if err = EINTR \<or> err = ERESTART then RReturn err
      else if err = EWOULDBLOCK then
        if bd_hbuf d \<noteq> None then RCopy d
        else if bd_slen d = 0 then RReturn 0
        else RCopy (ROTATE_BUFFERS d)
      else bpfread_head d)"

definition bpfread_start :: "nat \<Rightarrow> bpf_d \<Rightarrow> rpass" where
  "bpfread_start resid d = (if resid \<noteq> bd_bufsize d then RReturn EINVAL else bpfread_head d)"

text \<open>The bytes that are given to \<open>uiomove\<close>, and the descriptor after it.\<close>

definition bpfread_bytes :: "bpf_d \<Rightarrow> u8 list kres" where
  "bpfread_bytes d = kbind (deref (bd_hbuf d)) (\<lambda>buf. memcpy_from buf (bd_hlen d))"

definition bpfread_done :: "bpf_d \<Rightarrow> bpf_d" where
  "bpfread_done d = d\<lparr>bd_fbuf := bd_hbuf d, bd_hbuf := None\<rparr>"

text \<open>\<open>bpfselect\<close> for reading: whether there is data; else the process \<open>pid\<close> is remembered.\<close>

definition bpfselect :: "bool \<Rightarrow> int \<Rightarrow> bpf_d \<Rightarrow> bool \<times> bpf_d" where
  "bpfselect rd pid d =
     (if \<not> rd then (False, d)
      else if bd_hlen d \<noteq> 0 \<or> bd_immediate d \<noteq> 0 \<and> bd_slen d \<noteq> 0 then (True, d)
      else if bd_selproc d \<noteq> 0 then (False, d\<lparr>bd_selcoll := True\<rparr>)
      else (False, d\<lparr>bd_selproc := pid\<rparr>))"

section \<open>Interfaces and their listeners\<close>

text \<open>\<open>ifpromisc\<close>; \<open>if_ioctl\<close> is the answer of the driver to the new flags.\<close>

definition ifpromisc :: "(addr \<Rightarrow> u16 \<Rightarrow> int) \<Rightarrow> addr \<Rightarrow> bool \<Rightarrow> bdev \<Rightarrow> (int \<times> bdev) kres" where
  "ifpromisc if_ioctl i pswitch s =
     kmap (\<lambda>ifp.
       if if_flags ifp AND IFF_UP = 0 then (ENETDOWN, s)
       else
         let cnt = (if pswitch then if_pcount ifp + 1 else if_pcount ifp - 1);
             noop = (if pswitch then if_pcount ifp \<noteq> 0 else 0 < cnt);
             fl = (if noop then if_flags ifp else if pswitch then if_flags ifp OR IFF_PROMISC else if_flags ifp AND NOT IFF_PROMISC);
             s1 = s\<lparr>ifnets := (ifnets s)(i \<mapsto> ifp\<lparr>if_pcount := cnt, if_flags := fl\<rparr>)\<rparr> in
         if noop then (0, s1) else (if_ioctl i fl, bposts [BSetflags i fl] s1)) (deref (ifnets s i))"

definition bpf_attachd :: "nat \<Rightarrow> addr \<Rightarrow> bdev \<Rightarrow> bdev kres" where
  "bpf_attachd d b s =
     kmap (\<lambda>bp. upd_if b (\<lambda>bp. bp\<lparr>bif_dlist := Some d, bif_driver := Some b\<rparr>)
                  (upd_d d (\<lambda>r. r\<lparr>bd_bif := Some b, bd_next := bif_dlist bp\<rparr>) s)) (deref (bpf_ifs s b))"

text \<open>The walk to the pointer that refers to \<open>d\<close>: the pointer of descriptor \<open>prev\<close>, or the head of the list.\<close>

partial_function (option) bpf_find :: "nat \<Rightarrow> nat option \<Rightarrow> nat option \<Rightarrow> bdev \<Rightarrow> nat option kres option" where
  "bpf_find d prev cur s =
     (case cur of
        None \<Rightarrow> Some Fault
      | Some c \<Rightarrow>
          if c = d then Some (Done prev)
          else if bd_next (bpf_dtab s c) = None then Some (Panic ''bpf_detachd: descriptor not in list'')
          else bpf_find d (Some c) (bd_next (bpf_dtab s c)) s)"

definition bpf_unlink :: "addr \<Rightarrow> nat \<Rightarrow> nat option \<Rightarrow> bdev \<Rightarrow> bdev" where
  "bpf_unlink b d prev s =
     (let nx = bd_next (bpf_dtab s d);
          s1 = (case prev of
                  None \<Rightarrow> upd_if b (\<lambda>bp. bp\<lparr>bif_dlist := nx\<rparr>) s
                | Some c \<Rightarrow> upd_d c (\<lambda>r. r\<lparr>bd_next := nx\<rparr>) s);
          s2 = upd_if b (\<lambda>bp. if bif_dlist bp = None then bp\<lparr>bif_driver := None\<rparr> else bp) s1 in
      upd_d d (\<lambda>r. r\<lparr>bd_bif := None\<rparr>) s2)"

definition bpf_detachd :: "(addr \<Rightarrow> u16 \<Rightarrow> int) \<Rightarrow> nat \<Rightarrow> bdev \<Rightarrow> bdev kres option" where
  "bpf_detachd if_ioctl d s =
     lbind (Some (kbind (deref (bd_bif (bpf_dtab s d))) (\<lambda>b. kmap (Pair b) (deref (bpf_ifs s b))))) (\<lambda>(b, bp).
     lbind (Some
       (if bd_promisc (bpf_dtab s d) then
          kbind (ifpromisc if_ioctl (bif_ifp bp) False (upd_d d (\<lambda>r. r\<lparr>bd_promisc := False\<rparr>) s)) (\<lambda>(e, s1).
            if e \<noteq> 0 then Panic ''bpf_detachd: ifpromisc failed'' else Done s1)
        else Done s)) (\<lambda>s1.
     lbind (bpf_find d None (bif_dlist bp) s1) (\<lambda>prev. Some (Done (bpf_unlink b d prev s1)))))"

section \<open>Opening and closing\<close>

definition D_ISFREE :: "nat \<Rightarrow> bdev \<Rightarrow> bool" where
  "D_ISFREE d s \<longleftrightarrow> bd_next (bpf_dtab s d) = Some d"

definition D_MARKFREE :: "nat \<Rightarrow> bdev \<Rightarrow> bdev" where
  "D_MARKFREE d s = upd_d d (\<lambda>r. r\<lparr>bd_next := Some d\<rparr>) s"

definition bpf_d_zero :: bpf_d where
  "bpf_d_zero = \<lparr>bd_next = None, bd_sbuf = None, bd_hbuf = None, bd_fbuf = None, bd_slen = 0, bd_hlen = 0, bd_bufsize = 0, bd_bif = None,
     bd_rtout = 0, bd_filter = None, bd_rcount = 0, bd_dcount = 0, bd_selproc = 0, bd_promisc = False, bd_selcoll = False, bd_immediate = 0\<rparr>"

text \<open>\<open>bpf_initd\<close>: \<open>bufsize\<close> is \<open>bpf_bufsize\<close>, \<open>fb\<close> and \<open>sb\<close> the memory that \<open>malloc\<close> returns.\<close>

definition bpf_initd :: "nat \<Rightarrow> u8 list option \<Rightarrow> u8 list option \<Rightarrow> bpf_d \<Rightarrow> int \<times> bpf_d" where
  "bpf_initd bufsize fb sb d =
     (let d1 = d\<lparr>bd_bufsize := bufsize, bd_fbuf := fb\<rparr> in
      if fb = None then (ENOBUFS, d1)
      else let d2 = d1\<lparr>bd_sbuf := sb\<rparr> in
           if sb = None then (ENOBUFS, d2) else (0, d2\<lparr>bd_slen := 0, bd_hlen := 0\<rparr>))"

definition bpfopen :: "nat \<Rightarrow> u8 list option \<Rightarrow> u8 list option \<Rightarrow> nat \<Rightarrow> bdev \<Rightarrow> int \<times> bdev" where
  "bpfopen bufsize fb sb d s =
     (if NBPFILTER \<le> d then (ENXIO, s)
      else if \<not> D_ISFREE d s then (EBUSY, s)
      else let (e, r) = bpf_initd bufsize fb sb bpf_d_zero; s1 = upd_d d (\<lambda>_. r) s in
           if e \<noteq> 0 then (e, D_MARKFREE d s1) else (0, s1))"

definition bpfclose :: "(addr \<Rightarrow> u16 \<Rightarrow> int) \<Rightarrow> nat \<Rightarrow> bdev \<Rightarrow> bdev kres option" where
  "bpfclose if_ioctl d s =
     lbind (if bd_bif (bpf_dtab s d) \<noteq> None then bpf_detachd if_ioctl d s else Some (Done s)) (\<lambda>s1.
       Some (Done (D_MARKFREE d s1)))"

definition bpfattach :: "addr \<Rightarrow> addr \<Rightarrow> u32 \<Rightarrow> nat \<Rightarrow> bdev \<Rightarrow> bdev" where
  "bpfattach b ifp dlt hdrlen s =
     (let bp = \<lparr>bif_dlist = None, bif_driver = None, bif_dlt = dlt,
                bif_hdrlen = BPF_WORDALIGN (hdrlen + SIZEOF_BPF_HDR) - hdrlen, bif_ifp = ifp\<rparr>;
          s1 = s\<lparr>bpf_ifs := (bpf_ifs s)(b \<mapsto> bp), bpf_iflist := b # bpf_iflist s\<rparr> in
      if D_ISFREE 0 s1 then s1 else fold D_MARKFREE [0..<NBPFILTER] s1)"

section \<open>Control\<close>

text \<open>
  \<open>bpf_setf\<close>: the program of the user is a null pointer, or a pointer from which \<open>copyin\<close> reads the
  given number of instructions or fails.  \<open>NoValue\<close> is the return of \<open>bpf_validate\<close> without a value:
  \<open>junk\<close> is what the caller finds.
\<close>

definition bpf_setf :: "bool \<Rightarrow> u32 \<Rightarrow> (nat \<Rightarrow> bpf_insn list option) option \<Rightarrow> bpf_d \<Rightarrow> (int \<times> bpf_d) kres" where
  "bpf_setf junk len insns d =
     (case insns of
        None \<Rightarrow> Done (if len \<noteq> 0 then (EINVAL, d) else (0, reset_d (d\<lparr>bd_filter := None\<rparr>)))
      | Some copyin \<Rightarrow>
          if BPF_MAXINSNS < unat len then Done (EINVAL, d)
          else (case copyin (unat len) of
                  None \<Rightarrow> Done (EINVAL, d)
                | Some fcode \<Rightarrow>
                    kmap (\<lambda>v. if v = Verdict True \<or> v = NoValue \<and> junk then (0, reset_d (d\<lparr>bd_filter := Some fcode\<rparr>)) else (EINVAL, d))
                      (bpf_validate fcode)))"

text \<open>The name in front of the first digit after the first character, and the unit number behind it.\<close>

definition digit :: "u8 \<Rightarrow> bool" where "digit c \<longleftrightarrow> 48 \<le> c \<and> c \<le> 57"

definition unit_of :: "u8 list \<Rightarrow> u32" where
  "unit_of cs = foldl (\<lambda>u c. 10 * u + scast c - 48) 0 cs"

fun if_parse :: "u8 list \<Rightarrow> u8 list \<times> u32" where
  "if_parse [] = ([], 0)"
| "if_parse [c] = ([c], 0)"
| "if_parse (c # d # ds) = (if digit d then ([c], unit_of (d # ds)) else let (n, u) = if_parse (d # ds) in (c # n, u))"

definition c_string :: "u8 list \<Rightarrow> u8 list" where
  "c_string buf = takeWhile (\<lambda>c. c \<noteq> 0) buf"

text \<open>\<open>bpf_setif\<close>: \<open>name\<close> is the array \<open>ifr_name\<close>.\<close>

definition if_matches :: "u8 list \<Rightarrow> u32 \<Rightarrow> addr \<Rightarrow> bdev \<Rightarrow> bool" where
  "if_matches nm unit b s \<longleftrightarrow>
     (case bpf_ifs s b of
        None \<Rightarrow> False
      | Some bp \<Rightarrow> (case ifnets s (bif_ifp bp) of None \<Rightarrow> False | Some ifp \<Rightarrow> sint unit = if_unit ifp \<and> if_name ifp = nm))"

definition bpf_setif :: "(addr \<Rightarrow> u16 \<Rightarrow> int) \<Rightarrow> nat \<Rightarrow> u8 list \<Rightarrow> bdev \<Rightarrow> (int \<times> bdev) kres option" where
  "bpf_setif if_ioctl d name s =
     (let (nm, unit) = if_parse (c_string (name[15 := 0])) in
      case find (\<lambda>b. if_matches nm unit b s) (bpf_iflist s) of
        None \<Rightarrow> Some (Done (ENXIO, s))
      | Some b \<Rightarrow>
          lbind (Some (kbind (deref (bpf_ifs s b)) (\<lambda>bp. deref (ifnets s (bif_ifp bp))))) (\<lambda>ifp.
            if if_flags ifp AND IFF_UP = 0 then Some (Done (ENETDOWN, s))
            else
              lbind (if bd_bif (bpf_dtab s d) \<noteq> Some b then
                       lbind (if bd_bif (bpf_dtab s d) \<noteq> None then bpf_detachd if_ioctl d s else Some (Done s)) (\<lambda>s1.
                         Some (bpf_attachd d b s1))
                     else Some (Done s)) (\<lambda>s2.
                Some (Done (0, upd_d d reset_d s2)))))"

text \<open>\<open>bpf_ifname\<close> into the array \<open>name\<close>.\<close>

definition bpf_ifname :: "ifnet \<Rightarrow> u8 list \<Rightarrow> u8 list kres" where
  "bpf_ifname ifp name = put_bytes 0 (if_name ifp @ [0] @ [of_int (if_unit ifp) + 48, 0]) name"

text \<open>The requests of \<open>bpfioctl\<close> with what the user passes, and the values it returns.\<close>

datatype bioc = FIONREAD | SIOCGIFADDR | BIOCGFLEN | BIOCGBLEN | BIOCSETF u32 "(nat \<Rightarrow> bpf_insn list option) option" | BIOCFLUSH
  | BIOCPROMISC | BIOCGDLT | BIOCGETIF "u8 list" | BIOCSETIF "u8 list" | BIOCSRTIMEOUT u32 u32 | BIOCGRTIMEOUT | BIOCGSTATS
  | BIOCIMMEDIATE u32 | BIOCother

datatype bval = BNone | BInt int | BTime u32 u32 | BStat u32 u32 | BName "u8 list"

text \<open>\<open>tick\<close> is the length of a tick in microseconds; \<open>gifaddr\<close> is the answer of the driver to \<open>SIOCGIFADDR\<close>.\<close>

fun bpfioctl :: "(addr \<Rightarrow> u16 \<Rightarrow> int) \<Rightarrow> (addr \<Rightarrow> int) \<Rightarrow> bool \<Rightarrow> int \<Rightarrow> nat \<Rightarrow> bioc \<Rightarrow> bdev \<Rightarrow> (int \<times> bval \<times> bdev) kres option" where
  "bpfioctl ioc gifaddr junk tick d FIONREAD s =
     (let r = bpf_dtab s d in Some (Done (0, BInt (int (bd_slen r + (if bd_hbuf r \<noteq> None then bd_hlen r else 0))), s)))"
| "bpfioctl ioc gifaddr junk tick d SIOCGIFADDR s =
     (case bd_bif (bpf_dtab s d) of
        None \<Rightarrow> Some (Done (EINVAL, BNone, s))
      | Some b \<Rightarrow> Some (kmap (\<lambda>bp. (gifaddr (bif_ifp bp), BNone, s)) (deref (bpf_ifs s b))))"
| "bpfioctl ioc gifaddr junk tick d BIOCGFLEN s = Some (Done (0, BInt (int BPF_MAXINSNS), s))"
| "bpfioctl ioc gifaddr junk tick d BIOCGBLEN s = Some (Done (0, BInt (int (bd_bufsize (bpf_dtab s d))), s))"
| "bpfioctl ioc gifaddr junk tick d (BIOCSETF len insns) s =
     Some (kmap (\<lambda>(e, r). (e, BNone, upd_d d (\<lambda>_. r) s)) (bpf_setf junk len insns (bpf_dtab s d)))"
| "bpfioctl ioc gifaddr junk tick d BIOCFLUSH s = Some (Done (0, BNone, upd_d d reset_d s))"
| "bpfioctl ioc gifaddr junk tick d BIOCPROMISC s =
     (case bd_bif (bpf_dtab s d) of
        None \<Rightarrow> Some (Done (EINVAL, BNone, s))
      | Some b \<Rightarrow>
          if bd_promisc (bpf_dtab s d) then Some (Done (0, BNone, s))
          else Some (kbind (deref (bpf_ifs s b)) (\<lambda>bp.
            kmap (\<lambda>(e, s1). (e, BNone, s1)) (ifpromisc ioc (bif_ifp bp) True (upd_d d (\<lambda>r. r\<lparr>bd_promisc := True\<rparr>) s)))))"
| "bpfioctl ioc gifaddr junk tick d BIOCGDLT s =
     (case bd_bif (bpf_dtab s d) of
        None \<Rightarrow> Some (Done (EINVAL, BNone, s))
      | Some b \<Rightarrow> Some (kmap (\<lambda>bp. (0, BInt (uint (bif_dlt bp)), s)) (deref (bpf_ifs s b))))"
| "bpfioctl ioc gifaddr junk tick d (BIOCGETIF name) s =
     (case bd_bif (bpf_dtab s d) of
        None \<Rightarrow> Some (Done (EINVAL, BNone, s))
      | Some b \<Rightarrow> Some (kbind (deref (bpf_ifs s b)) (\<lambda>bp. kbind (deref (ifnets s (bif_ifp bp))) (\<lambda>ifp.
          kmap (\<lambda>nm. (0, BName nm, s)) (bpf_ifname ifp name)))))"
| "bpfioctl ioc gifaddr junk tick d (BIOCSETIF name) s = lbind (bpf_setif ioc d name s) (\<lambda>(e, s1). Some (Done (e, BNone, s1)))"
| "bpfioctl ioc gifaddr junk tick d (BIOCSRTIMEOUT sec usec) s =
     (if tick div 1000 = 0 then Some Fault
      else let msec = of_int (sint sec * 1000 + sint usec sdiv 1000) in
           Some (Done (0, BNone, upd_d d (\<lambda>r. r\<lparr>bd_rtout := msec div of_int (tick div 1000)\<rparr>) s)))"
| "bpfioctl ioc gifaddr junk tick d BIOCGRTIMEOUT s =
     (let msec = bd_rtout (bpf_dtab s d) * of_int (tick div 1000) in Some (Done (0, BTime (msec div 1000) (msec mod 1000), s)))"
| "bpfioctl ioc gifaddr junk tick d BIOCGSTATS s =
     Some (Done (0, BStat (bd_rcount (bpf_dtab s d)) (bd_dcount (bpf_dtab s d)), s))"
| "bpfioctl ioc gifaddr junk tick d (BIOCIMMEDIATE v) s =
     Some (Done (0, BNone, upd_d d (\<lambda>r. r\<lparr>bd_immediate := ucast v\<rparr>) s))"
| "bpfioctl ioc gifaddr junk tick d BIOCother s = Some (Done (EINVAL, BNone, s))"

section \<open>Packets\<close>

text \<open>
  The filter runs with \<open>n\<close> steps and scratch memory \<open>mem\<close>; \<open>None\<close> when they are not enough.  A
  descriptor counts the packet and keeps what its filter asks for.
\<close>

definition tap_one :: "nat \<Rightarrow> bpf_state \<Rightarrow> u32 \<times> u32 \<Rightarrow> packet \<Rightarrow> (nat \<Rightarrow> u8 list kres) \<Rightarrow> u32 \<Rightarrow> nat \<Rightarrow> bdev \<Rightarrow> bdev kres option" where
  "tap_one n mem ts pkt cpfn pktlen d s =
     (let r = (bpf_dtab s d)\<lparr>bd_rcount := bd_rcount (bpf_dtab s d) + 1\<rparr>; s1 = upd_d d (\<lambda>_. r) s in
      case bpf_filter n (bd_filter r) pkt pktlen mem of
        None \<Rightarrow> None
      | Some (Crash t) \<Rightarrow> Some Fault
      | Some (Accept slen) \<Rightarrow>
          if slen = 0 then Some (Done s1)
          else Some (kbind (deref (bd_bif r)) (\<lambda>b. kbind (deref (bpf_ifs s b)) (\<lambda>bp.
                 kmap (\<lambda>(es, r'). bposts es (upd_d d (\<lambda>_. r') s1)) (catchpacket cpfn ts (bif_hdrlen bp) pktlen slen d r)))))"

partial_function (option) tap_loop :: "nat \<Rightarrow> bpf_state \<Rightarrow> u32 \<times> u32 \<Rightarrow> packet \<Rightarrow> (nat \<Rightarrow> u8 list kres) \<Rightarrow> u32 \<Rightarrow> nat option \<Rightarrow> bdev \<Rightarrow>
    bdev kres option" where
  "tap_loop n mem ts pkt cpfn pktlen cur s =
     (case cur of
        None \<Rightarrow> Some (Done s)
      | Some d \<Rightarrow>
          (case tap_one n mem ts pkt cpfn pktlen d s of
             None \<Rightarrow> None
           | Some (Panic m) \<Rightarrow> Some (Panic m)
           | Some Fault \<Rightarrow> Some Fault
           | Some (Done s1) \<Rightarrow> tap_loop n mem ts pkt cpfn pktlen (bd_next (bpf_dtab s1 d)) s1))"

definition bpf_tap :: "nat \<Rightarrow> bpf_state \<Rightarrow> u32 \<times> u32 \<Rightarrow> addr \<Rightarrow> u8 list \<Rightarrow> bdev \<Rightarrow> bdev kres option" where
  "bpf_tap n mem ts b pkt s =
     lbind (Some (deref (bpf_ifs s b))) (\<lambda>bp.
       tap_loop n mem ts (BufPkt pkt) (memcpy_from pkt) (of_nat (length pkt)) (bif_dlist bp) s)"

definition bpf_mtap :: "nat \<Rightarrow> bpf_state \<Rightarrow> u32 \<times> u32 \<Rightarrow> addr \<Rightarrow> mbuf list \<Rightarrow> bdev \<Rightarrow> bdev kres option" where
  "bpf_mtap n mem ts b m s =
     lbind (Some (deref (bpf_ifs s b))) (\<lambda>bp.
       tap_loop n mem ts (MbufPkt m) (bpf_mcopy m) (of_nat (sum_list (map m_len m))) (bif_dlist bp) s)"

section \<open>Writing\<close>

text \<open>
  \<open>bpf_movein\<close>: \<open>src\<close> are the bytes of the caller, of which the first \<open>flt\<close> can be read; \<open>mget\<close> and
  \<open>mclget\<close> tell whether memory was available.  The packet has a length and data; the header of the
  link is in the socket address.
\<close>

definition umove :: "nat option \<Rightarrow> nat \<Rightarrow> int \<Rightarrow> u8 list \<Rightarrow> int \<times> u8 list" where
  "umove flt off len src =
     (let bs = take (nat len) (drop off src) in
      case flt of Some f \<Rightarrow> if f < off + length bs then (EFAULT, take (f - off) bs) else (0, bs) | None \<Rightarrow> (0, bs))"

definition link_header :: "u32 \<Rightarrow> (int \<times> nat) option" where
  "link_header dlt =
     (if dlt = DLT_SLIP then Some (AF_INET, 0) else if dlt = DLT_EN10MB then Some (AF_UNSPEC, 14)
      else if dlt = DLT_FDDI then Some (AF_UNSPEC, 24) else None)"

definition bpf_movein :: "nat option \<Rightarrow> bool \<Rightarrow> bool \<Rightarrow> u32 \<Rightarrow> u8 list \<Rightarrow> (int + int \<times> u8 list \<times> int \<times> u8 list) kres" where
  "bpf_movein flt mget mclget dlt src =
     (case link_header dlt of
        None \<Rightarrow> Done (Inl EIO)
      | Some (fam, hlen) \<Rightarrow>
          if MCLBYTES < length src then Done (Inl EIO)
          else if \<not> mget then Done (Inl ENOBUFS)
          else if MLEN < length src \<and> \<not> mclget then Done (Inl ENOBUFS)
          else
            let (e1, sa) = (if hlen = 0 then (0, []) else umove flt 0 (int hlen) src) in
            if SA_DATA < length sa then Fault
            else if e1 \<noteq> 0 then Done (Inl e1)
            else let (e2, bs) = umove flt hlen (int (length src) - int hlen) src in
                 Done (if e2 \<noteq> 0 then Inl e2 else Inr (fam, sa, int (length src) - int hlen, bs)))"

definition bpfwrite :: "(addr \<Rightarrow> int \<times> u8 list \<times> int \<times> u8 list \<Rightarrow> int) \<Rightarrow> nat option \<Rightarrow> bool \<Rightarrow> bool \<Rightarrow> nat \<Rightarrow> u8 list \<Rightarrow> bdev \<Rightarrow> int kres" where
  "bpfwrite if_output flt mget mclget d src s =
     (case bd_bif (bpf_dtab s d) of
        None \<Rightarrow> Done ENXIO
      | Some b \<Rightarrow>
          kbind (deref (bpf_ifs s b)) (\<lambda>bp.
          kbind (deref (ifnets s (bif_ifp bp))) (\<lambda>ifp.
            if src = [] then Done 0
            else if if_mtu ifp < length src then Done EMSGSIZE
            else kmap (\<lambda>r. case r of Inl e \<Rightarrow> e | Inr m \<Rightarrow> if_output (bif_ifp bp) m) (bpf_movein flt mget mclget (bif_dlt bp) src))))"

end
