(* ===== verification/Bpf_Queue.thy ===== *)
theory Bpf_Queue
  imports Bpf_Dev "HOL-Library.Sublist"
begin

unbundle bit_operations_syntax

text \<open>
  The buffers of a packet filter descriptor as a queue of captured packets: what a reader finds in the
  bytes it is given is what \<open>catchpacket\<close> put there, in the order of arrival, and only packets that are
  counted as dropped are missing.
\<close>

section \<open>The layout of a buffer\<close>

lemma and_not_3: "(a :: int) AND NOT 3 = a div 4 * 4"
proof -
  have m: "(3 :: int) = mask 2" by (simp add: mask_eq_exp_minus_1)
  have "a AND NOT (mask 2) = push_bit 2 (drop_bit 2 a)" 
  proof (rule bit_eqI)
    fix n :: nat
    show "bit (a AND NOT (mask 2)) n \<longleftrightarrow> bit (push_bit 2 (drop_bit 2 a)) n"
    proof (cases "2 \<le> n")
      case True
      then obtain m where "n = 2 + m" using le_Suc_ex by blast
      then show ?thesis by (simp add: bit_simps)
    qed (simp add: bit_simps)
  qed
  also have "\<dots> = a div 4 * 4" by (simp add: push_bit_eq_mult drop_bit_eq_div)
  finally show ?thesis by (simp only: m)
qed

lemma wordalign: "BPF_WORDALIGN x = (x + 3) div 4 * 4"
  unfolding BPF_WORDALIGN_def and_not_3 by (simp add: nat_mult_distrib nat_div_distrib nat_add_distrib)

lemma wordalign_simps [simp]: "BPF_WORDALIGN 0 = 0" "BPF_WORDALIGN (BPF_WORDALIGN x) = BPF_WORDALIGN x"
  by (simp_all add: wordalign)

lemma wordalign_bounds: "x \<le> BPF_WORDALIGN x" "BPF_WORDALIGN x < x + 4"
  by (simp_all add: wordalign)

lemma wordalign_add: "BPF_WORDALIGN (BPF_WORDALIGN x + y) = BPF_WORDALIGN x + BPF_WORDALIGN y"
proof -
  have e: "(4 * q + y + 3) div 4 * 4 = 4 * q + (y + 3) div 4 * 4" for q :: nat
  proof -
    have "4 * q + y + 3 = (y + 3) + q * 4" by simp
    then have "(4 * q + y + 3) div 4 = q + (y + 3) div 4" by (simp only: div_mult_self1)
    then show ?thesis by simp
  qed
  show ?thesis unfolding wordalign using e [of "(x + 3) div 4"] by (simp add: mult.commute)
qed

text \<open>Reading numbers back.\<close>

definition rd32 :: "u8 list \<Rightarrow> u32" where
  "rd32 bs = ucast (bs ! 0) OR push_bit 8 (ucast (bs ! 1)) OR push_bit 16 (ucast (bs ! 2)) OR push_bit 24 (ucast (bs ! 3))"

definition rd16 :: "u8 list \<Rightarrow> u16" where
  "rd16 bs = ucast (bs ! 0) OR push_bit 8 (ucast (bs ! 1))"

lemma le_length [simp]: "length (le32 w) = 4" "length (le16 v) = 2"
  by (simp_all add: le32_def le16_def)

lemma le_nth: "i < 4 \<Longrightarrow> le32 w ! i = ucast (drop_bit (8 * i) w)" "i < 2 \<Longrightarrow> le16 v ! i = ucast (drop_bit (8 * i) v)"
  by (simp_all add: le32_def le16_def)

lemma rd32_le32 [simp]: "rd32 (le32 w) = w"
proof (rule bit_word_eqI)
  fix n assume n: "n < LENGTH(32)"
  have "n < 8 \<or> 8 \<le> n \<and> n < 16 \<or> 16 \<le> n \<and> n < 24 \<or> 24 \<le> n \<and> n < 32" using n by auto
  then show "bit (rd32 (le32 w)) n \<longleftrightarrow> bit w n"
    using n unfolding rd32_def by (auto simp: le_nth bit_simps)
qed

lemma rd16_le16 [simp]: "rd16 (le16 v) = v"
proof (rule bit_word_eqI)
  fix n assume n: "n < LENGTH(16)"
  have "n < 8 \<or> 8 \<le> n \<and> n < 16" using n by auto
  then show "bit (rd16 (le16 v)) n \<longleftrightarrow> bit v n"
    using n unfolding rd16_def by (auto simp: le_nth bit_simps)
qed

text \<open>A captured packet: the time, the length it had, and the bytes that were kept.\<close>

record capture =
  c_ts :: "u32 \<times> u32"
  c_len :: u32
  c_data :: "u8 list"

text \<open>The loop of a reader, as the manual page gives it.\<close>

function bpf_records :: "u8 list \<Rightarrow> capture list" where
  "bpf_records bs =
     (let caplen = unat (rd32 (take 4 (drop 8 bs))); hdrlen = unat (rd16 (take 2 (drop 16 bs))) in
      if bs = [] \<or> hdrlen + caplen = 0 then []
      else \<lparr>c_ts = (rd32 (take 4 bs), rd32 (take 4 (drop 4 bs))), c_len = rd32 (take 4 (drop 12 bs)), c_data = take caplen (drop hdrlen bs)\<rparr>
           # bpf_records (drop (BPF_WORDALIGN (hdrlen + caplen)) bs))"
  by pat_completeness auto
termination
proof (relation "measure length")
  fix bs :: "u8 list" and caplen hdrlen :: nat
  assume "\<not> (bs = [] \<or> hdrlen + caplen = 0)"
  then have "bs \<noteq> []" "0 < BPF_WORDALIGN (hdrlen + caplen)" using wordalign_bounds(1) [of "hdrlen + caplen"] by auto
  then show "(drop (BPF_WORDALIGN (hdrlen + caplen)) bs, bs) \<in> measure length" by simp
qed simp

declare bpf_records.simps [simp del]

definition rec_is :: "u8 list \<Rightarrow> nat \<Rightarrow> capture \<Rightarrow> bool" where
  "rec_is bs h c \<longleftrightarrow> 18 \<le> h \<and> h < 65536 \<and> length (c_data c) < 4294967296 \<and> h + length (c_data c) \<le> length bs \<and>
     take 18 bs = bpf_hdr (c_ts c) (of_nat (length (c_data c))) (c_len c) h \<and> take (length (c_data c)) (drop h bs) = c_data c"

fun laid :: "u8 list \<Rightarrow> capture list \<Rightarrow> nat \<Rightarrow> bool" where
  "laid bs [] len \<longleftrightarrow> len = 0"
| "laid bs (c # cs) len \<longleftrightarrow> (\<exists>h. rec_is bs h c \<and>
     (if cs = [] then len = h + length (c_data c)
      else BPF_WORDALIGN (h + length (c_data c)) \<le> len \<and>
        laid (drop (BPF_WORDALIGN (h + length (c_data c))) bs) cs (len - BPF_WORDALIGN (h + length (c_data c)))))"

lemma hdr_length [simp]: "length (bpf_hdr ts c d h) = 18"
  by (simp add: bpf_hdr_def)

lemma hdr_fields:
  assumes "take 18 bs = bpf_hdr ts c d h"
  shows "take 4 bs = le32 (fst ts)" "take 4 (drop 4 bs) = le32 (snd ts)" "take 4 (drop 8 bs) = le32 c"
    "take 4 (drop 12 bs) = le32 d" "take 2 (drop 16 bs) = le16 (of_nat h)"
proof -
  have t: "take n (drop i bs) = take n (drop i (take 18 bs))" if "i + n \<le> 18" for i n
    using that by (simp add: drop_take min_def)
  show "take 4 bs = le32 (fst ts)" using t [of 0 4] unfolding assms by (simp add: bpf_hdr_def)
  show "take 4 (drop 4 bs) = le32 (snd ts)" "take 4 (drop 8 bs) = le32 c" "take 4 (drop 12 bs) = le32 d" "take 2 (drop 16 bs) = le16 (of_nat h)"
    using t [of 4 4] t [of 8 4] t [of 12 4] t [of 16 2] unfolding assms by (simp_all add: bpf_hdr_def)
qed

lemma records_cons:
  assumes "rec_is bs h c"
  shows "bpf_records bs = c # bpf_records (drop (BPF_WORDALIGN (h + length (c_data c))) bs)"
proof -
  have r: "18 \<le> h" "h < 65536" "length (c_data c) < 4294967296" "h + length (c_data c) \<le> length bs"
    "take 18 bs = bpf_hdr (c_ts c) (of_nat (length (c_data c))) (c_len c) h" "take (length (c_data c)) (drop h bs) = c_data c"
    using assms by (simp_all add: rec_is_def)
  have "bs \<noteq> []" using r(1,4) by auto
  moreover have "unat (of_nat (length (c_data c)) :: u32) = length (c_data c)" "unat (of_nat h :: u16) = h"
    using r(2,3) by (simp_all add: unat_of_nat take_bit_nat_def)
  ultimately show ?thesis
    using r(1,6) by (subst bpf_records.simps) (simp add: hdr_fields [OF r(5)] Let_def)
qed

lemma rec_is_take: "rec_is (take n bs) h c \<longleftrightarrow> rec_is bs h c \<and> h + length (c_data c) \<le> n"
proof
  assume r: "rec_is (take n bs) h c"
  then have l: "18 \<le> h" "h + length (c_data c) \<le> n" "h + length (c_data c) \<le> length bs" by (auto simp: rec_is_def)
  have "take 18 (take n bs) = take 18 bs" "take (length (c_data c)) (drop h (take n bs)) = take (length (c_data c)) (drop h bs)"
    using l by (simp_all add: min_def drop_take)
  then show "rec_is bs h c \<and> h + length (c_data c) \<le> n" using r l by (simp add: rec_is_def)
next
  assume r: "rec_is bs h c \<and> h + length (c_data c) \<le> n"
  then have l: "18 \<le> h" "h + length (c_data c) \<le> n" by (auto simp: rec_is_def)
  have "take 18 (take n bs) = take 18 bs" "take (length (c_data c)) (drop h (take n bs)) = take (length (c_data c)) (drop h bs)"
    using l by (simp_all add: min_def drop_take)
  then show "rec_is (take n bs) h c" using r by (simp add: rec_is_def)
qed

text \<open>A reader finds exactly the packets that are laid out in the buffer.\<close>

lemma laid_records: "laid bs cs len \<Longrightarrow> bpf_records (take len bs) = cs"
proof (induction cs arbitrary: bs len)
  case Nil
  then show ?case by (simp add: bpf_records.simps)
next
  case (Cons c cs)
  then obtain h where h: "rec_is bs h c" "if cs = [] then len = h + length (c_data c)
      else BPF_WORDALIGN (h + length (c_data c)) \<le> len \<and>
        laid (drop (BPF_WORDALIGN (h + length (c_data c))) bs) cs (len - BPF_WORDALIGN (h + length (c_data c)))" by auto
  let ?w = "BPF_WORDALIGN (h + length (c_data c))"
  have "h + length (c_data c) \<le> len" using h(2) wordalign_bounds(1) [of "h + length (c_data c)"] by (auto split: if_splits)
  then have "bpf_records (take len bs) = c # bpf_records (drop ?w (take len bs))" using h(1) by (intro records_cons) (simp add: rec_is_take)
  moreover have "bpf_records (drop ?w (take len bs)) = cs"
  proof (cases "cs = []")
    case True
    then have "drop ?w (take len bs) = []" using h(2) wordalign_bounds(1) [of "h + length (c_data c)"] by simp
    then show ?thesis using True by (simp add: bpf_records.simps)
  next
    case False
    then show ?thesis using Cons.IH h(2) by (simp add: drop_take)
  qed
  ultimately show ?case by simp
qed

text \<open>A packet is put behind the others.\<close>

lemma laid_append:
  assumes "laid bs cs len" "take len bs' = take len bs" "length bs' = length bs" "rec_is (drop (BPF_WORDALIGN len) bs') h c"
  shows "laid bs' (cs @ [c]) (BPF_WORDALIGN len + h + length (c_data c))"
  using assms
proof (induction cs arbitrary: bs bs' len)
  case Nil
  then show ?case by auto
next
  case (Cons c0 cs)
  then obtain h0 where h0: "rec_is bs h0 c0" "if cs = [] then len = h0 + length (c_data c0)
      else BPF_WORDALIGN (h0 + length (c_data c0)) \<le> len \<and>
        laid (drop (BPF_WORDALIGN (h0 + length (c_data c0))) bs) cs (len - BPF_WORDALIGN (h0 + length (c_data c0)))" by auto
  let ?w = "BPF_WORDALIGN (h0 + length (c_data c0))"
  have "h0 + length (c_data c0) \<le> len" using h0(2) wordalign_bounds(1) [of "h0 + length (c_data c0)"] by (auto split: if_splits)
  then have r0: "rec_is bs' h0 c0" using h0(1) Cons.prems(2) rec_is_take by metis
  have w: "BPF_WORDALIGN len = ?w + BPF_WORDALIGN (len - ?w)"
  proof (cases "cs = []")
    case True
    then show ?thesis using h0(2) wordalign_bounds(1) [of len] by simp
  next
    case False
    then show ?thesis using h0(2) wordalign_add [of "h0 + length (c_data c0)" "len - ?w"] by simp
  qed
  have "laid (drop ?w bs') (cs @ [c]) (BPF_WORDALIGN (len - ?w) + h + length (c_data c))"
  proof (cases "cs = []")
    case True
    then have "len - ?w = 0" using h0(2) wordalign_bounds(1) [of len] by simp
    then show ?thesis using True Cons.prems(4) w by auto
  next
    case False
    have "take (len - ?w) (drop ?w bs') = take (len - ?w) (drop ?w bs)" using Cons.prems(2) by (simp add: take_drop [symmetric] drop_take [symmetric])
    then show ?thesis using Cons.IH [of "drop ?w bs" "len - ?w" "drop ?w bs'"] False h0(2) Cons.prems(3,4) w by (simp add: add.commute)
  qed
  then have "laid (drop ?w bs') (cs @ [c]) (BPF_WORDALIGN len + h + length (c_data c) - ?w)" "?w \<le> BPF_WORDALIGN len + h + length (c_data c)"
    using w by (simp_all add: add.commute add.left_commute)
  then show ?case using r0 by (simp only: append_Cons laid.simps) (intro exI [of _ h0], simp)
qed

section \<open>The descriptor as a queue\<close>

text \<open>The hold buffer holds \<open>hs\<close>, the store buffer \<open>ss\<close>; the third buffer is free or none is.\<close>

definition d_rep :: "bpf_d \<Rightarrow> capture list \<Rightarrow> capture list \<Rightarrow> bool" where
  "d_rep d hs ss \<longleftrightarrow> bd_bufsize d < 2147483648 \<and>
     (\<exists>sb. bd_sbuf d = Some sb \<and> length sb = bd_bufsize d \<and> bd_slen d \<le> bd_bufsize d \<and> laid sb ss (bd_slen d)) \<and>
     (case bd_hbuf d of
        None \<Rightarrow> hs = [] \<and> (\<exists>fb. bd_fbuf d = Some fb \<and> length fb = bd_bufsize d)
      | Some hb \<Rightarrow> bd_fbuf d = None \<and> length hb = bd_bufsize d \<and> bd_hlen d \<le> bd_bufsize d \<and> laid hb hs (bd_hlen d))"

lemma d_rep_fields:
  "d_rep (d\<lparr>bd_dcount := x\<rparr>) hs ss = d_rep d hs ss" "d_rep (d\<lparr>bd_selcoll := a, bd_selproc := b\<rparr>) hs ss = d_rep d hs ss"
  "d_rep (d\<lparr>bd_rcount := y\<rparr>) hs ss = d_rep d hs ss"
  by (simp_all add: d_rep_def cong: option.case_cong)

lemma rotate_rep:
  assumes "d_rep d hs ss" "bd_hbuf d = None"
  shows "d_rep (ROTATE_BUFFERS d) ss []" "hs = []"
  using assms by (auto simp: d_rep_def ROTATE_BUFFERS_def)

lemma wakeup_rep: "d_rep (snd (bpf_wakeup n d)) hs ss = d_rep d hs ss"
  by (simp add: bpf_wakeup_def d_rep_fields)

text \<open>What \<open>catchpacket\<close> keeps of a packet: at most \<open>snap\<close> bytes, and at most what fits behind the header.\<close>

definition capture_of :: "nat \<Rightarrow> nat \<Rightarrow> u32 \<times> u32 \<Rightarrow> u8 list \<Rightarrow> nat \<Rightarrow> capture" where
  "capture_of bufsize h ts pkt snap = \<lparr>c_ts = ts, c_len = of_nat (length pkt), c_data = take (min snap (bufsize - h)) pkt\<rparr>"

lemma slice_put:
  assumes "put_bytes i bs buf = Done buf'"
  shows "length buf' = length buf" "take i buf' = take i buf" "take (length bs) (drop i buf') = bs" "i + length bs \<le> length buf"
    "j + n \<le> i \<Longrightarrow> take n (drop j buf') = take n (drop j buf)"
proof -
  have b: "i + length bs \<le> length buf" "buf' = take i buf @ bs @ drop (i + length bs) buf"
    using assms by (auto simp: put_bytes_def split: if_splits)
  show "length buf' = length buf" "take i buf' = take i buf" "take (length bs) (drop i buf') = bs" "i + length bs \<le> length buf"
    using b by simp_all
  then show "take n (drop j buf') = take n (drop j buf)" if "j + n \<le> i"
  proof -
    have e: "take n (drop j xs) = drop j (take (j + n) (take i xs))" for xs :: "u8 list" using that by (simp add: drop_take min_def)
    show ?thesis unfolding e \<open>take i buf' = take i buf\<close> ..
  qed
qed

lemma put_bytes_ok: "i + length bs \<le> length buf \<Longrightarrow> \<exists>buf'. put_bytes i bs buf = Done buf'"
  by (simp add: put_bytes_def)

lemma catch_store_rep:
  assumes rep: "d_rep d hs ss" and h: "18 \<le> h" "h < 65536" and cur: "curlen = BPF_WORDALIGN (bd_slen d)" and fit: "curlen + tot \<le> bd_bufsize d"
    and tot: "tot = h + length bs" "cpfn (length bs) = Done bs" "length bs < 4294967296"
  shows "\<exists>d'. catch_store cpfn ts h pktlen tot curlen d = Done d' \<and> d_rep d' hs (ss @ [\<lparr>c_ts = ts, c_len = pktlen, c_data = bs\<rparr>]) \<and>
    bd_dcount d' = bd_dcount d \<and> bd_hbuf d' = bd_hbuf d \<and> bd_bif d' = bd_bif d \<and> bd_bufsize d' = bd_bufsize d"
proof -
  obtain sb where sb: "bd_sbuf d = Some sb" "length sb = bd_bufsize d" "laid sb ss (bd_slen d)" using rep by (auto simp: d_rep_def)
  let ?hdr = "bpf_hdr ts (of_nat (length bs)) pktlen h"
  have "curlen + length ?hdr \<le> length sb" using fit tot(1) h(1) sb(2) by simp
  then obtain b1 where b1: "put_bytes curlen ?hdr sb = Done b1" using put_bytes_ok by blast
  note P1 = slice_put [OF b1]
  have "curlen + h + length bs \<le> length b1" using fit tot(1) P1(1) sb(2) by simp
  then obtain b2 where b2: "put_bytes (curlen + h) bs b1 = Done b2" using put_bytes_ok by blast
  note P2 = slice_put [OF b2]
  let ?d = "d\<lparr>bd_sbuf := Some b2, bd_slen := curlen + tot\<rparr>" and ?c = "\<lparr>c_ts = ts, c_len = pktlen, c_data = bs\<rparr>"
  have "tot - h = length bs" "h \<le> tot" using tot(1) by simp_all
  then have run: "catch_store cpfn ts h pktlen tot curlen d = Done ?d" using sb(1) b1 b2 tot(2) by (simp add: catch_store_def)
  have "take 18 (drop curlen b2) = take 18 (drop curlen b1)" using P2(5) [of curlen 18] h(1) by simp
  also have "\<dots> = ?hdr" using P1(3) by simp
  finally have "rec_is (drop (BPF_WORDALIGN (bd_slen d)) b2) h ?c"
    using h tot(1,3) P2(3,4) P1(1) P2(1) fit sb(2) unfolding rec_is_def cur [symmetric] by (simp add: add.commute)
  moreover have "take (bd_slen d) b2 = take (bd_slen d) sb"
  proof -
    have "bd_slen d \<le> curlen" unfolding cur by (rule wordalign_bounds)
    then show ?thesis using P1(2) P2(5) [of 0 "bd_slen d"] by (simp add: take_take [symmetric] min_def) (metis min.absorb1 take_take)
  qed
  ultimately have "laid b2 (ss @ [?c]) (BPF_WORDALIGN (bd_slen d) + h + length (c_data ?c))"
    by (intro laid_append [OF sb(3)]) (simp_all add: P1(1) P2(1))
  then have "laid b2 (ss @ [?c]) (curlen + tot)" using cur tot(1) by (simp add: add.assoc)
  then have "d_rep ?d hs (ss @ [?c])" using rep P1(1) P2(1) sb(2) fit by (simp add: d_rep_def cong: option.case_cong)
  then show ?thesis using run by (intro exI [of _ ?d]) simp
qed

text \<open>A packet is put behind the others, or there is no room for it and it is counted as dropped.\<close>

definition kept :: "bpf_d \<Rightarrow> capture list \<Rightarrow> capture list \<Rightarrow> capture \<Rightarrow> bpf_d \<Rightarrow> bool" where
  "kept d hs ss c d' \<longleftrightarrow> bd_dcount d' = bd_dcount d \<and> (d_rep d' hs (ss @ [c]) \<or> hs = [] \<and> d_rep d' ss [c])"

lemma catchpacket_queues:
  assumes rep: "d_rep d hs ss" and h: "18 \<le> h" "h < 65536" "h \<le> bd_bufsize d" and n: "length pkt + h < 2147483648"
    and cp: "\<And>m. m \<le> length pkt \<Longrightarrow> cpfn m = Done (take m pkt)"
  shows "\<exists>es d'. catchpacket cpfn ts h (of_nat (length pkt)) snap n d = Done (es, d') \<and> bd_bif d' = bd_bif d \<and> bd_bufsize d' = bd_bufsize d \<and>
    (kept d hs ss (capture_of (bd_bufsize d) h ts pkt (unat snap)) d' \<or>
     bd_hbuf d \<noteq> None \<and> d' = d\<lparr>bd_dcount := bd_dcount d + 1\<rparr>)"
proof -
  let ?m = "min (min (unat snap) (length pkt)) (bd_bufsize d - h)"
  define bs where "bs = take ?m pkt"
  have bs: "length bs = ?m" "?m \<le> length pkt" "cpfn ?m = Done bs" using cp [of ?m] by (simp_all add: bs_def)
  have c: "capture_of (bd_bufsize d) h ts pkt (unat snap) = \<lparr>c_ts = ts, c_len = of_nat (length pkt), c_data = bs\<rparr>"
    by (simp add: capture_of_def bs_def min_def)
  have B: "bd_bufsize d < 2147483648" using rep by (simp add: d_rep_def)
  have lp: "unat (of_nat (length pkt) :: u32) = length pkt" using n by (simp add: unat_of_nat take_bit_nat_def)
  have mn: "unat (min snap (of_nat (length pkt)) :: u32) = min (unat snap) (length pkt)"
    using lp by (auto simp: min_def word_le_nat_alt)
  have "unat (of_nat h :: u32) = h" using h(2) by (simp add: unat_of_nat take_bit_nat_def)
  then have su: "unat (of_nat h + min snap (of_nat (length pkt)) :: u32) = h + min (unat snap) (length pkt)"
    using n mn by (subst unat32_plus) simp_all
  then have si: "sint (of_nat h + min snap (of_nat (length pkt)) :: u32) = int (h + min (unat snap) (length pkt))"
    using n by (subst sint32_small) simp_all
  define tot where "tot = h + ?m"
  have tot: "tot = h + length bs" "tot \<le> bd_bufsize d" using bs(1) h(3) by (simp_all add: tot_def)
  have t: "(if int (bd_bufsize d) < int (h + min (unat snap) (length pkt)) then int (bd_bufsize d) else int (h + min (unat snap) (length pkt))) = int tot"
  proof -
    have "(if int b < int (h + v) then int b else int (h + v)) = int (h + min v (b - h))" if "h \<le> b" for v b
      using that by (auto simp: min_def)
    from this [OF h(3)] show ?thesis unfolding tot_def by simp
  qed
  have core: "catchpacket cpfn ts h (of_nat (length pkt)) snap n d =
      (if bd_bufsize d < BPF_WORDALIGN (bd_slen d) + tot then
         if bd_fbuf d = None then Done ([], d\<lparr>bd_dcount := bd_dcount d + 1\<rparr>)
         else case bpf_wakeup n (ROTATE_BUFFERS d) of (es, d1) \<Rightarrow> kmap (Pair es) (catch_store cpfn ts h (of_nat (length pkt)) tot 0 d1)
       else if bd_immediate d \<noteq> 0 then
         case bpf_wakeup n d of (es, d1) \<Rightarrow> kmap (Pair es) (catch_store cpfn ts h (of_nat (length pkt)) tot (BPF_WORDALIGN (bd_slen d)) d1)
       else kmap (Pair []) (catch_store cpfn ts h (of_nat (length pkt)) tot (BPF_WORDALIGN (bd_slen d)) d))"
    unfolding catchpacket_def Let_def si t by simp
  have small: "length bs < 4294967296" using bs(1) n by simp
  have cpl: "cpfn (length bs) = Done bs" using bs(1,3) by simp
  show ?thesis
  proof (cases "bd_bufsize d < BPF_WORDALIGN (bd_slen d) + tot")
    case False
    define ed where "ed = (if bd_immediate d \<noteq> 0 then bpf_wakeup n d else ([], d))"
    have r1: "d_rep (snd ed) hs ss" using rep wakeup_rep [of n d] by (simp add: ed_def)
    have s1: "bd_slen (snd ed) = bd_slen d" "bd_bufsize (snd ed) = bd_bufsize d" "bd_dcount (snd ed) = bd_dcount d" "bd_bif (snd ed) = bd_bif d"
      by (simp_all add: ed_def bpf_wakeup_def)
    obtain d' where d': "catch_store cpfn ts h (of_nat (length pkt)) tot (BPF_WORDALIGN (bd_slen d)) (snd ed) = Done d'"
      "d_rep d' hs (ss @ [\<lparr>c_ts = ts, c_len = of_nat (length pkt), c_data = bs\<rparr>])" "bd_dcount d' = bd_dcount (snd ed)" "bd_bif d' = bd_bif (snd ed)"
      "bd_bufsize d' = bd_bufsize (snd ed)"
      using catch_store_rep [OF r1 h(1,2), of "BPF_WORDALIGN (bd_slen d)" tot bs cpfn ts "of_nat (length pkt)"] s1 False tot(1) cpl small by auto
    have "catchpacket cpfn ts h (of_nat (length pkt)) snap n d = Done (fst ed, d')"
      using False d'(1) unfolding core by (cases "bd_immediate d = 0") (simp_all add: ed_def split_beta)
    then show ?thesis using d'(2-5) s1 unfolding kept_def c by (intro exI [of _ "fst ed"] exI [of _ d']) simp
  next
    case True
    show ?thesis
    proof (cases "bd_fbuf d")
      case None
      then have "bd_hbuf d \<noteq> None" using rep by (auto simp: d_rep_def split: option.splits)
      moreover have "catchpacket cpfn ts h (of_nat (length pkt)) snap n d = Done ([], d\<lparr>bd_dcount := bd_dcount d + 1\<rparr>)"
        using True None unfolding core by simp
      ultimately show ?thesis by (intro exI [of _ "[]"] exI [of _ "d\<lparr>bd_dcount := bd_dcount d + 1\<rparr>"]) simp
    next
      case (Some fb)
      then have hn: "bd_hbuf d = None" using rep by (auto simp: d_rep_def split: option.splits)
      note R = rotate_rep [OF rep hn]
      define ed where "ed = bpf_wakeup n (ROTATE_BUFFERS d)"
      have r1: "d_rep (snd ed) ss []" using R(1) wakeup_rep [of n "ROTATE_BUFFERS d"] by (simp add: ed_def)
      have s1: "bd_slen (snd ed) = 0" "bd_bufsize (snd ed) = bd_bufsize d" "bd_dcount (snd ed) = bd_dcount d" "bd_bif (snd ed) = bd_bif d"
        by (simp_all add: ed_def bpf_wakeup_def ROTATE_BUFFERS_def)
      obtain d' where d': "catch_store cpfn ts h (of_nat (length pkt)) tot 0 (snd ed) = Done d'"
        "d_rep d' ss ([] @ [\<lparr>c_ts = ts, c_len = of_nat (length pkt), c_data = bs\<rparr>])" "bd_dcount d' = bd_dcount (snd ed)" "bd_bif d' = bd_bif (snd ed)"
        "bd_bufsize d' = bd_bufsize (snd ed)"
        using catch_store_rep [OF r1 h(1,2), of 0 tot bs cpfn ts "of_nat (length pkt)"] s1 tot cpl small by auto
      have "catchpacket cpfn ts h (of_nat (length pkt)) snap n d = Done (fst ed, d')"
        using True Some d'(1) unfolding core by (simp add: ed_def split_beta)
      then show ?thesis using d'(2-5) s1 R(2) unfolding kept_def c by (intro exI [of _ "fst ed"] exI [of _ d']) simp
    qed
  qed
qed


text \<open>Resetting a descriptor empties it; a reader that copies the hold buffer takes what it holds.\<close>

lemma reset_rep:
  assumes "d_rep d hs ss"
  shows "d_rep (reset_d d) [] []" "bd_rcount (reset_d d) = 0" "bd_dcount (reset_d d) = 0"
  using assms by (auto simp: d_rep_def reset_d_def split: option.splits)

lemma read_rep:
  assumes rep: "d_rep d hs ss" and pass: "bpfread_start resid d = RCopy d1 \<or> bpfread_woken err d = RCopy d1"
  shows "\<exists>bs. bpfread_bytes d1 = Done bs \<and> length bs \<le> bd_bufsize d \<and> bd_dcount (bpfread_done d1) = bd_dcount d \<and>
    bd_bif d1 = bd_bif d \<and> bd_bufsize d1 = bd_bufsize d \<and>
    (\<exists>ss'. hs @ ss = bpf_records bs @ ss' \<and> d_rep (bpfread_done d1) [] ss' \<and> bpf_records bs = (if bd_hbuf d = None then ss else hs))"
proof -
  have "d1 = d \<and> bd_hbuf d \<noteq> None \<or> d1 = ROTATE_BUFFERS d \<and> bd_hbuf d = None"
    using pass by (auto simp: bpfread_start_def bpfread_woken_def bpfread_head_def split: if_splits)
  then show ?thesis
  proof
    assume a: "d1 = d \<and> bd_hbuf d \<noteq> None"
    then obtain hb where hb: "bd_hbuf d = Some hb" by auto
    then have l: "length hb = bd_bufsize d" "bd_hlen d \<le> bd_bufsize d" "laid hb hs (bd_hlen d)" using rep by (auto simp: d_rep_def)
    have "d_rep (bpfread_done d) [] ss" using rep hb by (auto simp: d_rep_def bpfread_done_def)
    moreover have "bpfread_bytes d = Done (take (bd_hlen d) hb)" using hb l by (simp add: bpfread_bytes_def memcpy_from_def)
    ultimately show ?thesis using a hb l laid_records [OF l(3)] by (intro exI [of _ "take (bd_hlen d) hb"]) (auto simp: bpfread_done_def)
  next
    assume a: "d1 = ROTATE_BUFFERS d \<and> bd_hbuf d = None"
    obtain sb fb where sb: "bd_sbuf d = Some sb" "length sb = bd_bufsize d" "bd_slen d \<le> bd_bufsize d" "laid sb ss (bd_slen d)"
      "bd_fbuf d = Some fb" "length fb = bd_bufsize d" "hs = []"
      using rep a by (auto simp: d_rep_def)
    have "bpfread_bytes d1 = Done (take (bd_slen d) sb)" using a sb by (simp add: bpfread_bytes_def memcpy_from_def ROTATE_BUFFERS_def)
    moreover have "d_rep (bpfread_done d1) [] []" using a rep sb by (auto simp: d_rep_def bpfread_done_def ROTATE_BUFFERS_def)
    moreover have "bd_dcount (bpfread_done d1) = bd_dcount d" "bd_bif d1 = bd_bif d" "bd_bufsize d1 = bd_bufsize d"
      using a by (simp_all add: bpfread_done_def ROTATE_BUFFERS_def)
    ultimately show ?thesis using a sb laid_records [OF sb(4)] by (intro exI [of _ "take (bd_slen d) sb"]) auto
  qed
qed

section \<open>Histories of a descriptor\<close>

text \<open>
  Packets arrive, of which the filter wants \<open>snap\<close> bytes, and readers copy the hold buffer.  The history
  keeps the packets that were offered, the packets that readers have found, and the number of drops.
\<close>

inductive bpf_hist :: "nat \<Rightarrow> nat \<Rightarrow> bpf_d \<Rightarrow> bpf_d \<Rightarrow> capture list \<Rightarrow> capture list \<Rightarrow> bool" for h n d0 where
  h_start: "bpf_hist h n d0 d0 [] []"
| h_packet: "bpf_hist h n d0 d offered found \<Longrightarrow> length pkt + h < 2147483648 \<Longrightarrow> (\<forall>m \<le> length pkt. cpfn m = Done (take m pkt)) \<Longrightarrow>
    catchpacket cpfn ts h (of_nat (length pkt)) snap n d = Done (es, d') \<Longrightarrow>
    bpf_hist h n d0 d' (offered @ [capture_of (bd_bufsize d) h ts pkt (unat snap)]) found"
| h_read: "bpf_hist h n d0 d offered found \<Longrightarrow> bpfread_start resid d = RCopy d1 \<or> bpfread_woken err d = RCopy d1 \<Longrightarrow>
    bpfread_bytes d1 = Done bs \<Longrightarrow> bpf_hist h n d0 (bpfread_done d1) offered (found @ bpf_records bs)"

lemma hist_rep:
  assumes "bpf_hist h n d0 d offered found" "d_rep d0 [] []" "18 \<le> h" "h < 65536" "h \<le> bd_bufsize d0"
  shows "bd_bufsize d = bd_bufsize d0 \<and> (\<exists>hs ss. d_rep d hs ss \<and> subseq (found @ hs @ ss) offered \<and>
    bd_dcount d = bd_dcount d0 + of_nat (length offered - length (found @ hs @ ss)))"
  using assms
proof (induction rule: bpf_hist.induct)
  case h_start
  then show ?case by (intro conjI refl exI [of _ "[]"]) simp_all
next
  case (h_packet d offered found pkt cpfn ts snap es d')
  let ?c = "capture_of (bd_bufsize d) h ts pkt (unat snap)"
  obtain hs ss where r: "bd_bufsize d = bd_bufsize d0" "d_rep d hs ss" "subseq (found @ hs @ ss) offered"
    "bd_dcount d = bd_dcount d0 + of_nat (length offered - length (found @ hs @ ss))" using h_packet.IH h_packet.prems by blast
  have le: "length (found @ hs @ ss) \<le> length offered" by (rule list_emb_length [OF r(3)])
  have hb: "h \<le> bd_bufsize d" using h_packet.prems(4) r(1) by simp
  have cp: "cpfn m = Done (take m pkt)" if "m \<le> length pkt" for m using h_packet.hyps(3) that by blast
  obtain es' d'' where "catchpacket cpfn ts h (of_nat (length pkt)) snap n d = Done (es', d'')" "bd_bufsize d'' = bd_bufsize d"
    "kept d hs ss ?c d'' \<or> bd_hbuf d \<noteq> None \<and> d'' = d\<lparr>bd_dcount := bd_dcount d + 1\<rparr>"
    using catchpacket_queues [OF r(2) h_packet.prems(2,3) hb h_packet.hyps(2) cp] by blast
  then have q: "bd_bufsize d' = bd_bufsize d" "kept d hs ss ?c d' \<or> d' = d\<lparr>bd_dcount := bd_dcount d + 1\<rparr>"
    using h_packet.hyps(4) by auto
  have sub: "subseq (found @ hs @ ss @ [?c]) (offered @ [?c])"
    using list_emb_append_mono [OF r(3), of "[?c]" "[?c]"] by simp
  from q(2) show ?case
  proof
    assume kp: "kept d hs ss ?c d'"
    have dc: "bd_dcount d' = bd_dcount d0 + of_nat (length (offered @ [?c]) - length (found @ hs @ ss @ [?c]))"
      using kp r(4) by (simp add: kept_def)
    from kp consider "d_rep d' hs (ss @ [?c])" | "hs = []" "d_rep d' ss [?c]" by (auto simp: kept_def)
    then show ?thesis
    proof cases
      case 1
      then show ?thesis using sub dc q(1) r(1) by (intro conjI exI [of _ hs] exI [of _ "ss @ [?c]"]) simp_all
    next
      case 2
      then show ?thesis using sub dc q(1) r(1) by (intro conjI exI [of _ ss] exI [of _ "[?c]"]) simp_all
    qed
  next
    assume dr: "d' = d\<lparr>bd_dcount := bd_dcount d + 1\<rparr>"
    have "length (offered @ [?c]) - length (found @ hs @ ss) = Suc (length offered - length (found @ hs @ ss))" using le by simp
    moreover have "subseq (found @ hs @ ss) (offered @ [?c])" by (rule subseq_rev_drop_many [OF r(3)])
    ultimately show ?thesis using dr r q(1)
      by (intro conjI exI [of _ hs] exI [of _ ss]) (simp_all add: d_rep_fields)
  qed
next
  case (h_read d offered found resid d1 err bs)
  obtain hs ss where r: "bd_bufsize d = bd_bufsize d0" "d_rep d hs ss" "subseq (found @ hs @ ss) offered"
    "bd_dcount d = bd_dcount d0 + of_nat (length offered - length (found @ hs @ ss))" using h_read.IH h_read.prems by blast
  obtain bs' ss' where b: "bpfread_bytes d1 = Done bs'" "bd_dcount (bpfread_done d1) = bd_dcount d" "bd_bufsize d1 = bd_bufsize d"
    "hs @ ss = bpf_records bs' @ ss'" "d_rep (bpfread_done d1) [] ss'"
    using read_rep [OF r(2) h_read.hyps(2)] by blast
  have e: "bs' = bs" "found @ hs @ ss = (found @ bpf_records bs) @ [] @ ss'" using b(1,4) h_read.hyps(3) by simp_all
  have "bd_bufsize (bpfread_done d1) = bd_bufsize d" using b(3) by (simp add: bpfread_done_def)
  then show ?case using b(2,5) r unfolding e(2) by (intro conjI exI [of _ "[]"] exI [of _ ss']) simp_all
qed

text \<open>
  C24: readers of a packet filter find the packets that the filter accepted, unchanged up to the snapshot
  length, in the order of arrival, none twice; what they have not found is still in the buffers or is
  counted as dropped.
\<close>

theorem bpf_reads_in_order:
  assumes "bpf_hist h n d0 d offered found" "d_rep d0 [] []" "18 \<le> h" "h < 65536" "h \<le> bd_bufsize d0"
  shows "\<exists>hs ss. d_rep d hs ss \<and> subseq (found @ hs @ ss) offered \<and>
    bd_dcount d = bd_dcount d0 + of_nat (length offered - length (found @ hs @ ss))"
  using hist_rep [OF assms] by blast

text \<open>
  a packet is dropped only while a full buffer waits for a reader: with the hold buffer free,
  \<open>catchpacket\<close> stores every packet, with all the bytes that were asked for and fit in a buffer.
\<close>

theorem catchpacket_stores:
  assumes rep: "d_rep d hs ss" and h: "18 \<le> h" "h < 65536" "h \<le> bd_bufsize d" and n: "length pkt + h < 2147483648" and free: "bd_hbuf d = None"
  shows "\<exists>es d'. catchpacket (memcpy_from pkt) ts h (of_nat (length pkt)) snap n d = Done (es, d') \<and>
    bd_dcount d' = bd_dcount d \<and> (d_rep d' [] (ss @ [capture_of (bd_bufsize d) h ts pkt (unat snap)]) \<or>
      d_rep d' ss [capture_of (bd_bufsize d) h ts pkt (unat snap)])"
proof -
  have "hs = []" using rep free by (auto simp: d_rep_def)
  have "memcpy_from pkt m = Done (take m pkt)" if "m \<le> length pkt" for m using that by (simp add: memcpy_from_def)
  from catchpacket_queues [OF rep h n this, where n = n] show ?thesis using free \<open>hs = []\<close> unfolding kept_def by metis
qed

text \<open>
  C0: \<open>bpfselect\<close> looks at the length of the hold buffer, which a read leaves as it was: after a reader
  has taken everything, \<open>select\<close> still reports data, and the next read sleeps.
\<close>

theorem select_after_read:
  assumes "d_rep d hs []" "bd_hbuf d \<noteq> None" "bd_hlen d \<noteq> 0"
  shows "bpfread_start (bd_bufsize d) d = RCopy d \<and> fst (bpfselect True pid (bpfread_done d)) \<and>
    bpfread_start (bd_bufsize d) (bpfread_done d) = RSleep"
proof -
  have "bd_slen d = 0" using assms(1) by (auto simp: d_rep_def)
  then show ?thesis using assms(2,3) by (simp add: bpfread_start_def bpfread_head_def bpfselect_def bpfread_done_def)
qed


section \<open>An example\<close>

definition bpf_d_demo :: bpf_d where
  "bpf_d_demo = bpf_d_zero\<lparr>bd_sbuf := Some (replicate 64 0), bd_fbuf := Some (replicate 64 0), bd_bufsize := 64, bd_bif := Some 9\<rparr>"

lemma bpf_d_demo_rep: "d_rep bpf_d_demo [] []"
  by (simp add: d_rep_def bpf_d_demo_def bpf_d_zero_def)

definition cap_demo :: capture where
  "cap_demo = \<lparr>c_ts = (5, 6), c_len = 3, c_data = [1, 2, 3]\<rparr>"

definition bpf_d_full :: bpf_d where
  "bpf_d_full = bpf_d_demo\<lparr>bd_sbuf := Some ([5, 0, 0, 0, 6, 0, 0, 0, 3, 0, 0, 0, 3, 0, 0, 0, 20, 0, 0, 0, 1, 2, 3] @ replicate 41 0), bd_slen := 23\<rparr>"

lemma demo_packet: "catchpacket (memcpy_from [1, 2, 3]) (5, 6) 20 3 96 0 bpf_d_demo = Done ([], bpf_d_full)"
  by code_simp

lemma demo_capture: "capture_of (bd_bufsize bpf_d_demo) 20 (5, 6) [1, 2, 3] 96 = cap_demo"
  by (simp add: capture_of_def cap_demo_def bpf_d_demo_def)

lemma bpf_d_full_rep: "d_rep bpf_d_full [] [cap_demo]"
proof -
  have "memcpy_from [1, 2, 3] m = Done (take m [1, 2, 3])" if "m \<le> length [1, 2, 3 :: u8]" for m using that by (simp add: memcpy_from_def)
  from catchpacket_queues [OF bpf_d_demo_rep _ _ _ _ this, of 20 "(5, 6)" 96 0] show ?thesis
    using demo_packet demo_capture by (simp add: kept_def) (simp add: bpf_d_demo_def bpf_d_zero_def)
qed

lemma demo_full_read:
  "bpfread_woken EWOULDBLOCK bpf_d_full = RCopy (ROTATE_BUFFERS bpf_d_full)"
  "bpfread_bytes (ROTATE_BUFFERS bpf_d_full) = Done [5, 0, 0, 0, 6, 0, 0, 0, 3, 0, 0, 0, 3, 0, 0, 0, 20, 0, 0, 0, 1, 2, 3]"
  by code_simp+

lemma demo_records: "bpf_records [5, 0, 0, 0, 6, 0, 0, 0, 3, 0, 0, 0, 3, 0, 0, 0, 20, 0, 0, 0, 1, 2, 3] = [cap_demo]"
  by code_simp

theorem bpf_reads_in_order_witness:
  "\<exists>d hs ss. bpf_hist 20 0 bpf_d_demo d [cap_demo] [cap_demo] \<and> d_rep d hs ss \<and> subseq ([cap_demo] @ hs @ ss) [cap_demo]"
proof -
  have "bpf_hist 20 0 bpf_d_demo bpf_d_full ([] @ [capture_of (bd_bufsize bpf_d_demo) 20 (5, 6) [1, 2, 3] (unat (96 :: u32))]) []"
    by (rule h_packet [OF h_start, where cpfn = "memcpy_from [1, 2, 3]"]) (use demo_packet in \<open>simp_all add: memcpy_from_def\<close>)
  then have p: "bpf_hist 20 0 bpf_d_demo bpf_d_full [cap_demo] []" by (simp add: demo_capture)
  have h: "bpf_hist 20 0 bpf_d_demo (bpfread_done (ROTATE_BUFFERS bpf_d_full)) [cap_demo] [cap_demo]"
    using h_read [OF p disjI2 [OF demo_full_read(1)] demo_full_read(2)] by (simp add: demo_records)
  show ?thesis using bpf_reads_in_order [OF h bpf_d_demo_rep] h by (auto simp: bpf_d_demo_def bpf_d_zero_def)
qed

theorem catchpacket_stores_witness:
  "\<exists>es d'. catchpacket (memcpy_from [1, 2, 3]) (5, 6) 20 3 96 0 bpf_d_demo = Done (es, d') \<and> bd_dcount d' = 0"
proof -
  have f: "bd_hbuf bpf_d_demo = None" "bd_dcount bpf_d_demo = 0" "20 \<le> bd_bufsize bpf_d_demo" by (simp_all add: bpf_d_demo_def bpf_d_zero_def)
  from catchpacket_stores [OF bpf_d_demo_rep _ _ f(3) _ f(1), of "[1, 2, 3]" "(5, 6)" 96 0] f(2) show ?thesis by auto
qed

theorem select_after_read_witness:
  "fst (bpfselect True 7 (bpfread_done (ROTATE_BUFFERS bpf_d_full))) \<and> bpfread_start 64 (bpfread_done (ROTATE_BUFFERS bpf_d_full)) = RSleep"
proof -
  have h: "bd_hbuf bpf_d_full = None" "bd_bufsize (ROTATE_BUFFERS bpf_d_full) = 64" "bd_hbuf (ROTATE_BUFFERS bpf_d_full) \<noteq> None"
    "bd_hlen (ROTATE_BUFFERS bpf_d_full) \<noteq> 0" by (simp_all add: bpf_d_full_def bpf_d_demo_def bpf_d_zero_def ROTATE_BUFFERS_def)
  from select_after_read [OF rotate_rep(1) [OF bpf_d_full_rep h(1)] h(3,4), of 7] h(2) show ?thesis by simp
qed

end
