(* ===== verification/Bpf_Lists.thy ===== *)
theory Bpf_Lists
  imports Bpf_Queue
begin

unbundle bit_operations_syntax

text \<open>
  The lists of listeners of the packet filter device: opening, closing and choosing an interface keep
  them right, a packet is given to every listener once; and the inputs on which the device breaks them,
  panics, or answers wrongly.
\<close>

section \<open>Lists of listeners\<close>

fun chain :: "bdev \<Rightarrow> nat option \<Rightarrow> nat list \<Rightarrow> bool" where
  "chain s cur [] \<longleftrightarrow> cur = None"
| "chain s cur (d # ds) \<longleftrightarrow> cur = Some d \<and> chain s (bd_next (bpf_dtab s d)) ds"

lemma chain_cong: "(\<And>d. d \<in> set ds \<Longrightarrow> bd_next (bpf_dtab s' d) = bd_next (bpf_dtab s d)) \<Longrightarrow> chain s' cur ds = chain s cur ds"
  by (induction ds arbitrary: cur) simp_all

definition if_ok :: "bdev \<Rightarrow> addr \<Rightarrow> bpf_if \<Rightarrow> nat list \<Rightarrow> bool" where
  "if_ok s b bp ds \<longleftrightarrow> chain s (bif_dlist bp) ds \<and> distinct ds \<and> set ds = {d. bd_bif (bpf_dtab s d) = Some b} \<and>
     bif_driver bp = (if ds = [] then None else Some b) \<and> ifnets s (bif_ifp bp) \<noteq> None"

definition dev_ok :: "bdev \<Rightarrow> bool" where
  "dev_ok s \<longleftrightarrow> (\<forall>b bp. bpf_ifs s b = Some bp \<longrightarrow> (\<exists>ds. if_ok s b bp ds)) \<and> set (bpf_iflist s) = dom (bpf_ifs s) \<and>
     (\<forall>d b. bd_bif (bpf_dtab s d) = Some b \<longrightarrow> bpf_ifs s b \<noteq> None \<and> d < NBPFILTER) \<and>
     (\<forall>d. D_ISFREE d s \<longrightarrow> bd_bif (bpf_dtab s d) = None)"

lemma dev_okD:
  assumes "dev_ok s"
  shows "bpf_ifs s b = Some bp \<Longrightarrow> \<exists>ds. if_ok s b bp ds" "set (bpf_iflist s) = dom (bpf_ifs s)"
    "bd_bif (bpf_dtab s d) = Some b \<Longrightarrow> bpf_ifs s b \<noteq> None" "bd_bif (bpf_dtab s d) = Some b \<Longrightarrow> d < NBPFILTER"
    "D_ISFREE d s \<Longrightarrow> bd_bif (bpf_dtab s d) = None"
  using assms unfolding dev_ok_def by blast+

text \<open>Changes that leave the lists alone.\<close>

definition same_lists :: "bdev \<Rightarrow> bdev \<Rightarrow> bool" where
  "same_lists s s' \<longleftrightarrow> (\<forall>d. bd_next (bpf_dtab s' d) = bd_next (bpf_dtab s d) \<and> bd_bif (bpf_dtab s' d) = bd_bif (bpf_dtab s d)) \<and>
     bpf_ifs s' = bpf_ifs s \<and> bpf_iflist s' = bpf_iflist s \<and> dom (ifnets s') = dom (ifnets s)"

lemma same_lists_refl [simp]: "same_lists s s"
  by (simp add: same_lists_def)

lemma same_lists_trans: "same_lists s t \<Longrightarrow> same_lists t u \<Longrightarrow> same_lists s u"
  by (simp add: same_lists_def)

lemma same_lists_ok:
  assumes "same_lists s s'" "dev_ok s"
  shows "dev_ok s'"
proof -
  have "chain s' c ds = chain s c ds" for c ds by (rule chain_cong) (use assms(1) in \<open>simp add: same_lists_def\<close>)
  moreover have "ifnets s' i = None \<longleftrightarrow> ifnets s i = None" for i using assms(1) unfolding same_lists_def by (metis domIff)
  ultimately have "if_ok s' b bp ds = if_ok s b bp ds" for b bp ds
    using assms(1) unfolding if_ok_def same_lists_def by simp
  then have "\<exists>ds. if_ok s' b bp ds" if "bpf_ifs s b = Some bp" for b bp using dev_okD(1) [OF assms(2) that] by simp
  then show ?thesis using assms unfolding dev_ok_def D_ISFREE_def same_lists_def by simp
qed

lemma upd_d_same: "(\<And>r. bd_next (f r) = bd_next r \<and> bd_bif (f r) = bd_bif r) \<Longrightarrow> same_lists s (upd_d d f s)"
  by (simp add: same_lists_def upd_d_def)

lemma ifpromisc_same: "ifpromisc ioc i on s = Done (e, s') \<Longrightarrow> same_lists s s' \<and> bpf_dtab s' = bpf_dtab s"
  by (auto simp: ifpromisc_def kmap_Done_iff deref_Done_iff same_lists_def bposts_def Let_def split: if_splits)

section \<open>Attaching and detaching\<close>

lemma attach_ok:
  assumes ok: "dev_ok s" and b: "bpf_ifs s b = Some bp" and d: "bd_bif (bpf_dtab s d) = None" "d < NBPFILTER"
  shows "\<exists>s'. bpf_attachd d b s = Done s' \<and> dev_ok s' \<and> bd_bif (bpf_dtab s' d) = Some b \<and> ifnets s' = ifnets s \<and>
    (\<forall>e. e \<noteq> d \<longrightarrow> bpf_dtab s' e = bpf_dtab s e)"
proof -
  let ?s = "upd_if b (\<lambda>bp. bp\<lparr>bif_dlist := Some d, bif_driver := Some b\<rparr>) (upd_d d (\<lambda>r. r\<lparr>bd_bif := Some b, bd_next := bif_dlist bp\<rparr>) s)"
  have tab: "bpf_dtab ?s = (bpf_dtab s)(d := (bpf_dtab s d)\<lparr>bd_bif := Some b, bd_next := bif_dlist bp\<rparr>)"
    "bpf_ifs ?s = (bpf_ifs s)(b \<mapsto> bp\<lparr>bif_dlist := Some d, bif_driver := Some b\<rparr>)" "ifnets ?s = ifnets s" "bpf_iflist ?s = bpf_iflist s"
    using b by (simp_all add: upd_if_def upd_d_def)
  obtain ds where ds: "if_ok s b bp ds" using dev_okD(1) [OF ok b] by blast
  have nd: "d \<notin> set es" if "if_ok s c cp es" for c cp es using that d(1) by (simp add: if_ok_def)
  have ch: "chain ?s cur es = chain s cur es" if "d \<notin> set es" for cur es by (rule chain_cong) (use that in \<open>auto simp: tab\<close>)
  have "\<exists>es. if_ok ?s c cp es" if c: "bpf_ifs ?s c = Some cp" for c cp
  proof (cases "c = b")
    case True
    then have "cp = bp\<lparr>bif_dlist := Some d, bif_driver := Some b\<rparr>" using c tab(2) by simp
    moreover have "chain ?s (bif_dlist bp) ds" using ch [OF nd [OF ds]] ds by (simp add: if_ok_def)
    ultimately have "if_ok ?s b cp (d # ds)" using ds nd [OF ds] by (auto simp: if_ok_def tab)
    then show ?thesis using True by blast
  next
    case False
    then have c': "bpf_ifs s c = Some cp" using c tab(2) by simp
    then obtain es where es: "if_ok s c cp es" using dev_okD(1) [OF ok] by blast
    have "if_ok ?s c cp es" using es ch [OF nd [OF es]] d(1) False by (auto simp: if_ok_def tab)
    then show ?thesis by blast
  qed
  moreover have "\<not> D_ISFREE d ?s"
  proof
    assume "D_ISFREE d ?s"
    then have "chain s (Some d) ds" using ds by (simp add: D_ISFREE_def tab if_ok_def)
    then have "d \<in> set ds" by (cases ds) auto
    then show False using nd [OF ds] by simp
  qed
  ultimately have "dev_ok ?s" using ok b d(2) unfolding dev_ok_def by (auto simp: tab D_ISFREE_def)
  moreover have "bpf_attachd d b s = Done ?s" using b by (simp add: bpf_attachd_def)
  ultimately show ?thesis by (intro exI [of _ ?s]) (simp add: tab)
qed

lemma find_chain:
  assumes "chain s cur ds" "d \<in> set ds" "distinct ds"
  shows "\<exists>xs ys. ds = xs @ d # ys \<and> bpf_find d prev cur s = Some (Done (if xs = [] then prev else Some (last xs)))"
  using assms
proof (induction ds arbitrary: prev cur)
  case (Cons c cs)
  show ?case
  proof (cases "c = d")
    case True
    then show ?thesis using Cons.prems by (intro exI [of _ "[]"] exI [of _ cs]) (simp add: bpf_find.simps)
  next
    case False
    then have d: "d \<in> set cs" using Cons.prems(2) by simp
    then have nn: "bd_next (bpf_dtab s c) \<noteq> None" using Cons.prems(1) by (cases cs) auto
    obtain xs ys where xs: "cs = xs @ d # ys" "bpf_find d (Some c) (bd_next (bpf_dtab s c)) s = Some (Done (if xs = [] then Some c else Some (last xs)))"
      using Cons.IH [of "bd_next (bpf_dtab s c)" "Some c"] Cons.prems d by auto
    have "bpf_find d prev cur s = Some (Done (Some (last (c # xs))))"
      using xs(2) Cons.prems(1) False nn by (subst bpf_find.simps) simp
    then show ?thesis using xs(1) by (intro exI [of _ "c # xs"] exI [of _ ys]) simp
  qed
qed simp

lemma chain_skip:
  assumes "chain s cur (xs @ c # d # ys)" "distinct (xs @ c # d # ys)"
    "bd_next (bpf_dtab s' c) = bd_next (bpf_dtab s d)" "\<And>e. e \<noteq> c \<Longrightarrow> bd_next (bpf_dtab s' e) = bd_next (bpf_dtab s e)"
  shows "chain s' cur (xs @ c # ys)"
  using assms(1,2)
proof (induction xs arbitrary: cur)
  case Nil
  have "chain s' (bd_next (bpf_dtab s d)) ys = chain s (bd_next (bpf_dtab s d)) ys"
    by (rule chain_cong, rule assms(4)) (use Nil in auto)
  then show ?case using Nil assms(3) by simp
next
  case (Cons x xs)
  then have "x \<noteq> c" by auto
  then show ?case using Cons assms(4) by simp
qed

lemma unlink_ok:
  assumes ok: "dev_ok s" and b: "bpf_ifs s b = Some bp" and d: "bd_bif (bpf_dtab s d) = Some b" and fd: "bpf_find d None (bif_dlist bp) s = Some (Done prev)"
  shows "dev_ok (bpf_unlink b d prev s)" "bd_bif (bpf_dtab (bpf_unlink b d prev s) d) = None" "ifnets (bpf_unlink b d prev s) = ifnets s"
    "bd_bif (bpf_dtab (bpf_unlink b d prev s) e) = (if e = d then None else bd_bif (bpf_dtab s e))"
proof -
  let ?s = "bpf_unlink b d prev s"
  obtain ds where ds: "if_ok s b bp ds" using dev_okD(1) [OF ok b] by blast
  then have D: "chain s (bif_dlist bp) ds" "distinct ds" "d \<in> set ds" using d by (simp_all add: if_ok_def)
  obtain xs ys where xs: "ds = xs @ d # ys" "prev = (if xs = [] then None else Some (last xs))"
    using find_chain [OF D(1,3,2), of None] fd by auto
  let ?nx = "bd_next (bpf_dtab s d)"
  define hd' where "hd' = (if xs = [] then ?nx else bif_dlist bp)"
  have nexts: "bd_next (bpf_dtab ?s e) = (if xs \<noteq> [] \<and> e = last xs then ?nx else bd_next (bpf_dtab s e))" for e
    using xs by (auto simp: bpf_unlink_def upd_d_def upd_if_def Let_def)
  have bifs: "bd_bif (bpf_dtab ?s e) = (if e = d then None else bd_bif (bpf_dtab s e))" for e
    using xs by (auto simp: bpf_unlink_def upd_d_def upd_if_def Let_def)
  have ifs: "bpf_ifs ?s = (bpf_ifs s)(b \<mapsto> (bp\<lparr>bif_dlist := hd', bif_driver := (if hd' = None then None else bif_driver bp)\<rparr>))"
    using b xs by (auto simp: bpf_unlink_def upd_d_def upd_if_def Let_def hd'_def fun_eq_iff)
  have rest: "ifnets ?s = ifnets s" "bpf_iflist ?s = bpf_iflist s"
    by (auto simp: bpf_unlink_def upd_d_def upd_if_def Let_def split: option.splits)
  have new: "chain ?s hd' (xs @ ys)"
  proof (cases "xs = []")
    case True
    have "chain ?s ?nx ys = chain s ?nx ys" by (rule chain_cong) (use True in \<open>simp add: nexts\<close>)
    then show ?thesis using True D(1) xs(1) by (simp add: hd'_def)
  next
    case False
    then obtain zs c where zs: "xs = zs @ [c]" by (metis append_butlast_last_id)
    have "chain ?s (bif_dlist bp) (zs @ c # ys)"
      by (rule chain_skip [of s _ zs c d ys]) (use D xs(1) zs in \<open>auto simp: nexts\<close>)
    then show ?thesis using False zs by (simp add: hd'_def)
  qed
  have "\<exists>es. if_ok ?s c cp es" if c: "bpf_ifs ?s c = Some cp" for c cp
  proof (cases "c = b")
    case True
    then have cp: "cp = bp\<lparr>bif_dlist := hd', bif_driver := (if hd' = None then None else bif_driver bp)\<rparr>" using c ifs by simp
    have "hd' = None \<longleftrightarrow> xs @ ys = []" using new by (cases "xs @ ys") auto
    then have "if_ok ?s b cp (xs @ ys)" using new ds xs(1) unfolding if_ok_def cp by (auto simp: bifs rest)
    then show ?thesis using True by blast
  next
    case False
    then have "bpf_ifs s c = Some cp" using c ifs by simp
    then obtain es where es: "if_ok s c cp es" using dev_okD(1) [OF ok] by blast
    have "xs \<noteq> [] \<Longrightarrow> bd_bif (bpf_dtab s (last xs)) = Some b" using ds xs(1) by (auto simp: if_ok_def)
    then have "chain ?s (bif_dlist cp) es = chain s (bif_dlist cp) es"
      by (intro chain_cong) (use es False in \<open>auto simp: nexts if_ok_def\<close>)
    then have "if_ok ?s c cp es" using es d False by (auto simp: if_ok_def bifs rest)
    then show ?thesis by blast
  qed
  moreover have "bd_bif (bpf_dtab ?s e) = None" if e: "D_ISFREE e ?s" for e
  proof (cases "xs \<noteq> [] \<and> e = last xs")
    case True
    have "e \<noteq> d" using True D(2) xs(1) by auto
    have "?nx = Some e" using e True by (simp add: D_ISFREE_def nexts)
    moreover have "chain s ?nx ys"
    proof -
      have "chain s cur (us @ d # ys) \<Longrightarrow> chain s ?nx ys" for us cur by (induction us arbitrary: cur) auto
      then show ?thesis using D(1) xs(1) by blast
    qed
    ultimately have "e \<in> set ys" by (cases ys) auto
    then show ?thesis using True D(2) xs(1) last_in_set by fastforce
  next
    case False
    then have "D_ISFREE e s" using e by (auto simp: D_ISFREE_def nexts split: if_splits)
    then show ?thesis using dev_okD(5) [OF ok] by (simp add: bifs)
  qed
  ultimately show "dev_ok ?s" using ok b unfolding dev_ok_def by (auto simp: bifs rest ifs split: if_splits)
  show "bd_bif (bpf_dtab ?s d) = None" "ifnets ?s = ifnets s" "bd_bif (bpf_dtab ?s e) = (if e = d then None else bd_bif (bpf_dtab s e))"
    by (simp_all add: bifs rest)
qed


text \<open>A promiscuous descriptor can only be detached while its interface is up and the driver agrees.\<close>

definition can_detach :: "(addr \<Rightarrow> u16 \<Rightarrow> int) \<Rightarrow> nat \<Rightarrow> bdev \<Rightarrow> bool" where
  "can_detach ioc d s \<longleftrightarrow> (bd_promisc (bpf_dtab s d) \<longrightarrow>
     (\<forall>b bp ifp. bd_bif (bpf_dtab s d) = Some b \<longrightarrow> bpf_ifs s b = Some bp \<longrightarrow> ifnets s (bif_ifp bp) = Some ifp \<longrightarrow>
        if_flags ifp AND IFF_UP \<noteq> 0 \<and> (\<forall>fl. ioc (bif_ifp bp) fl = 0)))"

lemma detach_ok:
  assumes ok: "dev_ok s" and d: "bd_bif (bpf_dtab s d) = Some b" and can: "can_detach ioc d s"
  shows "\<exists>s'. bpf_detachd ioc d s = Some (Done s') \<and> dev_ok s' \<and> dom (ifnets s') = dom (ifnets s) \<and>
    (\<forall>e. bd_bif (bpf_dtab s' e) = (if e = d then None else bd_bif (bpf_dtab s e)))"
proof -
  have "bpf_ifs s b \<noteq> None" by (rule dev_okD(3) [OF ok d])
  then obtain bp where bp: "bpf_ifs s b = Some bp" by auto
  obtain ds where ds: "if_ok s b bp ds" using dev_okD(1) [OF ok bp] by blast
  then obtain ifp where ifp: "ifnets s (bif_ifp bp) = Some ifp" by (auto simp: if_ok_def)
  define r1 where "r1 = (if bd_promisc (bpf_dtab s d) then
          kbind (ifpromisc ioc (bif_ifp bp) False (upd_d d (\<lambda>r. r\<lparr>bd_promisc := False\<rparr>) s)) (\<lambda>(e, s1).
            if e \<noteq> 0 then Panic ''bpf_detachd: ifpromisc failed'' else Done s1)
        else Done s)"
  have "\<exists>s1. r1 = Done s1 \<and> same_lists s s1"
  proof (cases "bd_promisc (bpf_dtab s d)")
    case True
    let ?t = "upd_d d (\<lambda>r. r\<lparr>bd_promisc := False\<rparr>) s"
    have t: "same_lists s ?t" "ifnets ?t = ifnets s" by (simp add: upd_d_same) (simp add: upd_d_def)
    have "if_flags ifp AND IFF_UP \<noteq> 0" "\<And>fl. ioc (bif_ifp bp) fl = 0" using can True d bp ifp unfolding can_detach_def by blast+
    then have "\<exists>s1. ifpromisc ioc (bif_ifp bp) False ?t = Done (0, s1)" using ifp t(2) by (simp add: ifpromisc_def Let_def)
    then obtain s1 where s1: "ifpromisc ioc (bif_ifp bp) False ?t = Done (0, s1)" by blast
    then show ?thesis using True ifpromisc_same [OF s1] same_lists_trans [OF t(1)] by (simp add: r1_def)
  qed (simp add: r1_def)
  then obtain s1 where s1: "r1 = Done s1" "same_lists s s1" by blast
  have ok1: "dev_ok s1" by (rule same_lists_ok [OF s1(2) ok])
  have bp1: "bpf_ifs s1 b = Some bp" "bd_bif (bpf_dtab s1 d) = Some b" using s1(2) bp d by (simp_all add: same_lists_def)
  obtain ds1 where ds1: "if_ok s1 b bp ds1" using dev_okD(1) [OF ok1 bp1(1)] by blast
  have m: "d \<in> set ds1" using ds1 bp1(2) by (simp add: if_ok_def)
  obtain prev where prev: "bpf_find d None (bif_dlist bp) s1 = Some (Done prev)"
    using find_chain [of s1 "bif_dlist bp" ds1 d None] ds1 m by (auto simp: if_ok_def)
  note U = unlink_ok [OF ok1 bp1 prev]
  have "bpf_detachd ioc d s = Some (Done (bpf_unlink b d prev s1))"
    using d bp s1(1) prev by (simp add: bpf_detachd_def r1_def [symmetric])
  moreover have "dom (ifnets (bpf_unlink b d prev s1)) = dom (ifnets s)" using U(3) s1(2) by (simp add: same_lists_def)
  ultimately show ?thesis using U(1,4) s1(2) by (intro exI [of _ "bpf_unlink b d prev s1"]) (simp add: same_lists_def)
qed

lemma detach_ifs:
  assumes "bpf_detachd ioc d s = Some (Done s')"
  shows "dom (bpf_ifs s') = dom (bpf_ifs s)"
proof -
  obtain b bp where b: "bd_bif (bpf_dtab s d) = Some b" "bpf_ifs s b = Some bp"
    using assms by (cases "bd_bif (bpf_dtab s d)"; cases "bpf_ifs s (the (bd_bif (bpf_dtab s d)))") (auto simp: bpf_detachd_def)
  define r1 where "r1 = (if bd_promisc (bpf_dtab s d) then
          kbind (ifpromisc ioc (bif_ifp bp) False (upd_d d (\<lambda>r. r\<lparr>bd_promisc := False\<rparr>) s)) (\<lambda>(e, s1).
            if e \<noteq> 0 then Panic ''bpf_detachd: ifpromisc failed'' else Done s1)
        else Done s)"
  have run: "lbind (Some r1) (\<lambda>s1. lbind (bpf_find d None (bif_dlist bp) s1) (\<lambda>prev. Some (Done (bpf_unlink b d prev s1)))) = Some (Done s')"
    using assms b by (simp add: bpf_detachd_def r1_def)
  then obtain s1 where s1: "r1 = Done s1" by (cases r1) auto
  then have "bpf_ifs s1 = bpf_ifs s"
    by (auto simp: r1_def kbind_Done_iff upd_d_def same_lists_def split: if_splits dest!: ifpromisc_same)
  moreover obtain prev where "s' = bpf_unlink b d prev s1"
    using run s1 by (cases "bpf_find d None (bif_dlist bp) s1" rule: option.exhaust; cases "the (bpf_find d None (bif_dlist bp) s1)") auto
  ultimately show ?thesis by (auto simp: bpf_unlink_def upd_if_def upd_d_def Let_def split: option.splits if_splits)
qed

text \<open>A descriptor that is on no list may get any link.\<close>

lemma relink_ok:
  assumes ok: "dev_ok s" and d: "bd_bif (bpf_dtab s d) = None" and f: "bd_bif (f (bpf_dtab s d)) = None"
  shows "dev_ok (upd_d d f s)"
proof -
  let ?s = "upd_d d f s"
  have tab: "bpf_dtab ?s = (bpf_dtab s)(d := f (bpf_dtab s d))" "bpf_ifs ?s = bpf_ifs s" "bpf_iflist ?s = bpf_iflist s" "ifnets ?s = ifnets s"
    by (simp_all add: upd_d_def)
  have bifs: "bd_bif (bpf_dtab ?s e) = bd_bif (bpf_dtab s e)" for e using d f by (simp add: tab)
  have "if_ok ?s b bp ds" if i: "if_ok s b bp ds" for b bp ds
  proof -
    have "d \<notin> set ds" using i d by (simp add: if_ok_def)
    then have "chain ?s (bif_dlist bp) ds = chain s (bif_dlist bp) ds" by (intro chain_cong) (auto simp: tab)
    then show ?thesis using i unfolding if_ok_def bifs by (simp add: tab)
  qed
  then show ?thesis using ok d f unfolding dev_ok_def bifs by (auto simp: tab D_ISFREE_def split: if_splits) blast+
qed

lemma close_ok:
  assumes ok: "dev_ok s" and can: "can_detach ioc d s"
  shows "\<exists>s'. bpfclose ioc d s = Some (Done s') \<and> dev_ok s' \<and> D_ISFREE d s'"
proof -
  obtain s1 where s1: "(if bd_bif (bpf_dtab s d) \<noteq> None then bpf_detachd ioc d s else Some (Done s)) = Some (Done s1)" "dev_ok s1"
    "bd_bif (bpf_dtab s1 d) = None"
  proof (cases "bd_bif (bpf_dtab s d)")
    case None
    then show ?thesis using ok that by simp
  next
    case (Some b)
    then show ?thesis using detach_ok [OF ok Some can] that by auto
  qed
  have "dev_ok (D_MARKFREE d s1)" unfolding D_MARKFREE_def by (rule relink_ok [OF s1(2,3)]) (use s1(3) in simp)
  moreover have "bpfclose ioc d s = Some (Done (D_MARKFREE d s1))" using s1(1) by (simp add: bpfclose_def)
  moreover have "D_ISFREE d (D_MARKFREE d s1)" by (simp add: D_ISFREE_def D_MARKFREE_def upd_d_def)
  ultimately show ?thesis by blast
qed

lemma open_ok:
  assumes ok: "dev_ok s" and run: "bpfopen bufsize fb sb d s = (e, s')"
  shows "dev_ok s'"
proof (cases "NBPFILTER \<le> d \<or> \<not> D_ISFREE d s")
  case True
  then show ?thesis using run ok by (auto simp: bpfopen_def split: if_splits)
next
  case False
  then have bif: "bd_bif (bpf_dtab s d) = None" using dev_okD(5) [OF ok] by blast
  obtain e1 r where r: "bpf_initd bufsize fb sb bpf_d_zero = (e1, r)" by (cases "bpf_initd bufsize fb sb bpf_d_zero")
  then have "bd_bif r = None" by (auto simp: bpf_initd_def bpf_d_zero_def Let_def split: if_splits)
  then have o1: "dev_ok (upd_d d (\<lambda>_. r) s)" by (intro relink_ok [OF ok bif]) simp
  moreover have "dev_ok (D_MARKFREE d (upd_d d (\<lambda>_. r) s))" unfolding D_MARKFREE_def
    by (rule relink_ok [OF o1]) (use \<open>bd_bif r = None\<close> in \<open>simp_all add: upd_d_def\<close>)
  ultimately show ?thesis using run False r by (auto simp: bpfopen_def Let_def split: if_splits)
qed

lemma setif_ok:
  assumes ok: "dev_ok s" and d: "d < NBPFILTER" and can: "can_detach ioc d s"
  shows "\<exists>e s'. bpf_setif ioc d name s = Some (Done (e, s')) \<and> dev_ok s' \<and> (e = 0 \<longrightarrow> bd_bif (bpf_dtab s' d) \<noteq> None)"
proof -
  let ?nm = "fst (if_parse (c_string (name[15 := 0])))" and ?u = "snd (if_parse (c_string (name[15 := 0])))"
  show ?thesis
  proof (cases "find (\<lambda>b. if_matches ?nm ?u b s) (bpf_iflist s)")
    case None
    then show ?thesis using ok by (simp add: bpf_setif_def split_beta ENXIO_def)
  next
    case (Some b)
    then have m: "if_matches ?nm ?u b s" "b \<in> set (bpf_iflist s)" by (auto simp: find_Some_iff)
    then obtain bp ifp where bp: "bpf_ifs s b = Some bp" "ifnets s (bif_ifp bp) = Some ifp" by (auto simp: if_matches_def split: option.splits)
    show ?thesis
    proof (cases "if_flags ifp AND IFF_UP = 0")
      case True
      then show ?thesis using Some ok bp by (simp add: bpf_setif_def split_beta ENETDOWN_def)
    next
      case up: False
      have "\<exists>s2. (if bd_bif (bpf_dtab s d) \<noteq> Some b then
                       lbind (if bd_bif (bpf_dtab s d) \<noteq> None then bpf_detachd ioc d s else Some (Done s)) (\<lambda>s1. Some (bpf_attachd d b s1))
                     else Some (Done s)) = Some (Done s2) \<and> dev_ok s2 \<and> bd_bif (bpf_dtab s2 d) = Some b"
      proof (cases "bd_bif (bpf_dtab s d) = Some b")
        case True
        then show ?thesis using ok by simp
      next
        case nb: False
        obtain s1 where s1: "(if bd_bif (bpf_dtab s d) \<noteq> None then bpf_detachd ioc d s else Some (Done s)) = Some (Done s1)" "dev_ok s1"
          "bd_bif (bpf_dtab s1 d) = None" "bpf_ifs s1 b \<noteq> None"
        proof (cases "bd_bif (bpf_dtab s d)")
          case None
          then show ?thesis using ok bp that by simp
        next
          case (Some c)
          obtain s1 where s1: "bpf_detachd ioc d s = Some (Done s1)" "dev_ok s1" "bd_bif (bpf_dtab s1 d) = None"
            using detach_ok [OF ok Some can] by auto
          have "dom (bpf_ifs s1) = dom (bpf_ifs s)" using s1(1) by (rule detach_ifs)
          then have "bpf_ifs s1 b \<noteq> None" using bp(1) by auto
          then show ?thesis using s1 Some that by simp
        qed
        obtain bp1 where "bpf_ifs s1 b = Some bp1" using s1(4) by auto
        then obtain s2 where "bpf_attachd d b s1 = Done s2" "dev_ok s2" "bd_bif (bpf_dtab s2 d) = Some b"
          using attach_ok [OF s1(2) _ s1(3) d] by blast
        then show ?thesis using s1(1) nb by simp
      qed
      then obtain s2 where s2: "(if bd_bif (bpf_dtab s d) \<noteq> Some b then
                       lbind (if bd_bif (bpf_dtab s d) \<noteq> None then bpf_detachd ioc d s else Some (Done s)) (\<lambda>s1. Some (bpf_attachd d b s1))
                     else Some (Done s)) = Some (Done s2)" "dev_ok s2" "bd_bif (bpf_dtab s2 d) = Some b" by blast
      have r: "same_lists s2 (upd_d d reset_d s2)" by (rule upd_d_same) (simp add: reset_d_def)
      have "bpf_setif ioc d name s = Some (Done (0, upd_d d reset_d s2))" using Some bp up s2(1) by (simp add: bpf_setif_def split_beta)
      moreover have "bd_bif (bpf_dtab (upd_d d reset_d s2) d) = Some b" using r s2(3) by (simp add: same_lists_def)
      ultimately show ?thesis using same_lists_ok [OF r s2(2)] by auto
    qed
  qed
qed


section \<open>Packets\<close>

text \<open>What a packet does to one descriptor whose interface has headers of \<open>h\<close> bytes.\<close>

definition tap_desc :: "nat \<Rightarrow> bpf_state \<Rightarrow> u32 \<times> u32 \<Rightarrow> packet \<Rightarrow> (nat \<Rightarrow> u8 list kres) \<Rightarrow> u32 \<Rightarrow> nat \<Rightarrow> nat \<Rightarrow> bpf_d \<Rightarrow>
    (bevent list \<times> bpf_d) kres option" where
  "tap_desc n mem ts pkt cpfn pktlen h d r0 =
     (let r = r0\<lparr>bd_rcount := bd_rcount r0 + 1\<rparr> in
      case bpf_filter n (bd_filter r) pkt pktlen mem of
        None \<Rightarrow> None
      | Some (Crash t) \<Rightarrow> Some Fault
      | Some (Accept slen) \<Rightarrow> if slen = 0 then Some (Done ([], r)) else Some (catchpacket cpfn ts h pktlen slen d r))"

lemma catchpacket_keeps:
  "catchpacket cpfn ts h pktlen snap n d = Done (es, d') \<Longrightarrow>
    bd_next d' = bd_next d \<and> bd_bif d' = bd_bif d \<and> bd_filter d' = bd_filter d \<and> bd_promisc d' = bd_promisc d \<and> bd_rcount d' = bd_rcount d"
  by (auto simp: catchpacket_def catch_store_def bpf_wakeup_def ROTATE_BUFFERS_def Let_def kmap_Done_iff kbind_Done_iff split: if_splits)

lemma tap_desc_keeps:
  "tap_desc n mem ts pkt cpfn pktlen h d r0 = Some (Done (es, r)) \<Longrightarrow>
    bd_next r = bd_next r0 \<and> bd_bif r = bd_bif r0 \<and> bd_filter r = bd_filter r0 \<and> bd_promisc r = bd_promisc r0 \<and> bd_rcount r = bd_rcount r0 + 1"
  by (auto simp: tap_desc_def Let_def split: option.splits bres.splits if_splits dest!: catchpacket_keeps)

lemma tap_one_desc:
  assumes "bd_bif (bpf_dtab s d) = Some b" "bpf_ifs s b = Some bp" "tap_desc n mem ts pkt cpfn pktlen (bif_hdrlen bp) d (bpf_dtab s d) = Some (Done (es, r))"
  shows "tap_one n mem ts pkt cpfn pktlen d s = Some (Done (bposts es (upd_d d (\<lambda>_. r) s)))"
proof -
  have e: "bposts [] s' = s'" for s' by (simp add: bposts_def)
  have u: "upd_d d f (upd_d d g s) = upd_d d (\<lambda>x. f (g x)) s" for f g by (simp add: upd_d_def)
  show ?thesis using assms
    by (auto simp: tap_one_def tap_desc_def Let_def e u split: option.splits bres.splits if_splits)
qed

text \<open>The walk over the listeners gives the packet to each of them once.\<close>

lemma tap_loop_chain:
  assumes "chain s cur ds" "distinct ds" "\<forall>d \<in> set ds. bd_bif (bpf_dtab s d) = Some b" "bpf_ifs s b = Some bp"
    "\<forall>d \<in> set ds. \<exists>es r. tap_desc n mem ts pkt cpfn pktlen (bif_hdrlen bp) d (bpf_dtab s d) = Some (Done (es, r))"
  shows "\<exists>s'. tap_loop n mem ts pkt cpfn pktlen cur s = Some (Done s') \<and> same_lists s s' \<and> (\<forall>d. d \<notin> set ds \<longrightarrow> bpf_dtab s' d = bpf_dtab s d) \<and>
    (\<forall>d \<in> set ds. \<exists>es. tap_desc n mem ts pkt cpfn pktlen (bif_hdrlen bp) d (bpf_dtab s d) = Some (Done (es, bpf_dtab s' d)))"
  using assms
proof (induction ds arbitrary: cur s)
  case Nil
  then show ?case by (intro exI [of _ s]) (simp add: tap_loop.simps)
next
  case (Cons d ds)
  obtain es r where r: "tap_desc n mem ts pkt cpfn pktlen (bif_hdrlen bp) d (bpf_dtab s d) = Some (Done (es, r))" using Cons.prems(5) by auto
  let ?s = "bposts es (upd_d d (\<lambda>_. r) s)"
  have one: "tap_one n mem ts pkt cpfn pktlen d s = Some (Done ?s)" by (rule tap_one_desc [OF _ Cons.prems(4) r]) (use Cons.prems(3) in simp)
  note K = tap_desc_keeps [OF r]
  have tab: "bpf_dtab ?s = (bpf_dtab s)(d := r)" "bpf_ifs ?s = bpf_ifs s" by (simp_all add: bposts_def upd_d_def)
  have sl: "same_lists s ?s" using K by (simp add: same_lists_def tab) (simp add: bposts_def upd_d_def)
  have "chain ?s (bd_next r) ds" using Cons.prems(1,2) K chain_cong [of ds ?s s] by (auto simp: tab)
  moreover have "\<forall>e \<in> set ds. bpf_dtab ?s e = bpf_dtab s e" using Cons.prems(2) by (auto simp: tab)
  moreover have "distinct ds" using Cons.prems(2) by simp
  ultimately obtain s' where s': "tap_loop n mem ts pkt cpfn pktlen (bd_next r) ?s = Some (Done s')" "same_lists ?s s'"
    "\<forall>e. e \<notin> set ds \<longrightarrow> bpf_dtab s' e = bpf_dtab ?s e"
    "\<forall>e \<in> set ds. \<exists>es. tap_desc n mem ts pkt cpfn pktlen (bif_hdrlen bp) e (bpf_dtab ?s e) = Some (Done (es, bpf_dtab s' e))"
    using Cons.IH [of ?s "bd_next r"] Cons.prems(3-5) tab(2) by auto
  have nx: "bd_next (bpf_dtab ?s d) = bd_next r" by (simp add: tab)
  have "tap_loop n mem ts pkt cpfn pktlen cur s = Some (Done s')"
    using Cons.prems(1) one s'(1) nx by (subst tap_loop.simps) simp
  moreover have "bpf_dtab s' d = r" using s'(3) Cons.prems(2) by (simp add: tab)
  moreover have "\<forall>e \<in> set ds. bpf_dtab ?s e = bpf_dtab s e" using Cons.prems(2) by (auto simp: tab)
  ultimately show ?case using s'(3,4) r same_lists_trans [OF sl s'(2)] by (intro exI [of _ s']) (auto simp: tab)
qed

text \<open>A listener is ready for a packet: its filter runs to its end and its buffers are right.\<close>

definition tap_ready :: "nat \<Rightarrow> bpf_state \<Rightarrow> u8 list \<Rightarrow> nat \<Rightarrow> bpf_d \<Rightarrow> bool" where
  "tap_ready n mem pkt h r \<longleftrightarrow> (\<exists>hs ss. d_rep r hs ss) \<and> h \<le> bd_bufsize r \<and>
     (\<exists>v. bpf_filter n (bd_filter r) (BufPkt pkt) (of_nat (length pkt)) mem = Some (Accept v))"

lemma tap_desc_ready:
  assumes "tap_ready n mem pkt h r" "18 \<le> h" "h < 65536" "length pkt + h < 2147483648"
  shows "\<exists>es r'. tap_desc n mem ts (BufPkt pkt) (memcpy_from pkt) (of_nat (length pkt)) h d r = Some (Done (es, r'))"
proof -
  obtain hs ss v where r: "d_rep r hs ss" "h \<le> bd_bufsize r" "bpf_filter n (bd_filter r) (BufPkt pkt) (of_nat (length pkt)) mem = Some (Accept v)"
    using assms(1) by (auto simp: tap_ready_def)
  have "d_rep (r\<lparr>bd_rcount := bd_rcount r + 1\<rparr>) hs ss" using r(1) by (simp add: d_rep_fields)
  moreover have "memcpy_from pkt m = Done (take m pkt)" if "m \<le> length pkt" for m using that by (simp add: memcpy_from_def)
  ultimately obtain es r' where "catchpacket (memcpy_from pkt) ts h (of_nat (length pkt)) v d (r\<lparr>bd_rcount := bd_rcount r + 1\<rparr>) = Done (es, r')"
    using catchpacket_queues [of "r\<lparr>bd_rcount := bd_rcount r + 1\<rparr>" hs ss h pkt "memcpy_from pkt" ts v d] assms(2-4) r(2) by auto
  then show ?thesis using r(3) by (cases "v = 0") (simp_all add: tap_desc_def Let_def)
qed

lemma tap_ok:
  assumes ok: "dev_ok s" and b: "bpf_ifs s b = Some bp" and h: "18 \<le> bif_hdrlen bp" "bif_hdrlen bp < 65536" "length pkt + bif_hdrlen bp < 2147483648"
    and ready: "\<forall>d. bd_bif (bpf_dtab s d) = Some b \<longrightarrow> tap_ready n mem pkt (bif_hdrlen bp) (bpf_dtab s d)"
  shows "\<exists>s'. bpf_tap n mem ts b pkt s = Some (Done s') \<and> dev_ok s' \<and> (\<forall>d. bpf_dtab s' d =
      (if bd_bif (bpf_dtab s d) = Some b then
         (case tap_desc n mem ts (BufPkt pkt) (memcpy_from pkt) (of_nat (length pkt)) (bif_hdrlen bp) d (bpf_dtab s d) of
            Some (Done (es, r)) \<Rightarrow> r | _ \<Rightarrow> bpf_dtab s d)
       else bpf_dtab s d))"
proof -
  obtain ds where ds: "chain s (bif_dlist bp) ds" "distinct ds" "set ds = {d. bd_bif (bpf_dtab s d) = Some b}"
    using dev_okD(1) [OF ok b] unfolding if_ok_def by blast
  have "\<forall>d \<in> set ds. \<exists>es r. tap_desc n mem ts (BufPkt pkt) (memcpy_from pkt) (of_nat (length pkt)) (bif_hdrlen bp) d (bpf_dtab s d) = Some (Done (es, r))"
    using tap_desc_ready [OF _ h] ready ds(3) by blast
  moreover have "\<forall>d \<in> set ds. bd_bif (bpf_dtab s d) = Some b" using ds(3) by blast
  ultimately obtain s' where s': "tap_loop n mem ts (BufPkt pkt) (memcpy_from pkt) (of_nat (length pkt)) (bif_dlist bp) s = Some (Done s')"
    "same_lists s s'" "\<forall>d. d \<notin> set ds \<longrightarrow> bpf_dtab s' d = bpf_dtab s d"
    "\<forall>d \<in> set ds. \<exists>es. tap_desc n mem ts (BufPkt pkt) (memcpy_from pkt) (of_nat (length pkt)) (bif_hdrlen bp) d (bpf_dtab s d) = Some (Done (es, bpf_dtab s' d))"
    using tap_loop_chain [OF ds(1,2) _ b, of n mem ts "BufPkt pkt" "memcpy_from pkt" "of_nat (length pkt)"] by blast
  have "bpf_dtab s' d = (if bd_bif (bpf_dtab s d) = Some b then
         (case tap_desc n mem ts (BufPkt pkt) (memcpy_from pkt) (of_nat (length pkt)) (bif_hdrlen bp) d (bpf_dtab s d) of
            Some (Done (es, r)) \<Rightarrow> r | _ \<Rightarrow> bpf_dtab s d)
       else bpf_dtab s d)" for d
  proof (cases "bd_bif (bpf_dtab s d) = Some b")
    case True
    then obtain es where "tap_desc n mem ts (BufPkt pkt) (memcpy_from pkt) (of_nat (length pkt)) (bif_hdrlen bp) d (bpf_dtab s d) = Some (Done (es, bpf_dtab s' d))"
      using s'(4) ds(3) by blast
    then show ?thesis using True by simp
  next
    case False
    then show ?thesis using s'(3) ds(3) by simp
  qed
  moreover have "bpf_tap n mem ts b pkt s = Some (Done s')" using b s'(1) by (simp add: bpf_tap_def)
  ultimately show ?thesis using same_lists_ok [OF s'(2) ok] by blast
qed

text \<open>If the walk comes back the filter of every listener has come to its end.\<close>

lemma tap_one_accepts:
  assumes "tap_one n mem ts pkt cpfn pktlen d s = Some (Done s1)"
  shows "(\<exists>v. bpf_filter n (bd_filter (bpf_dtab s d)) pkt pktlen mem = Some (Accept v)) \<and>
    bd_next (bpf_dtab s1 d) = bd_next (bpf_dtab s d) \<and> (\<forall>e. e \<noteq> d \<longrightarrow> bpf_dtab s1 e = bpf_dtab s e)"
  using assms
  by (auto simp: tap_one_def Let_def upd_d_def bposts_def kmap_Done_iff kbind_Done_iff split: option.splits bres.splits if_splits dest!: catchpacket_keeps)

lemma tap_loop_accepts:
  assumes "chain s cur ds" "distinct ds" "tap_loop n mem ts pkt cpfn pktlen cur s = Some (Done s')"
  shows "\<forall>d \<in> set ds. \<exists>v. bpf_filter n (bd_filter (bpf_dtab s d)) pkt pktlen mem = Some (Accept v)"
  using assms
proof (induction ds arbitrary: cur s)
  case (Cons d ds)
  then have cur: "cur = Some d" "chain s (bd_next (bpf_dtab s d)) ds" by simp_all
  obtain s1 where one: "tap_one n mem ts pkt cpfn pktlen d s = Some (Done s1)"
    and rest: "tap_loop n mem ts pkt cpfn pktlen (bd_next (bpf_dtab s1 d)) s1 = Some (Done s')"
    using Cons.prems(3) unfolding cur(1) by (subst (asm) tap_loop.simps) (auto split: option.splits kres.splits)
  note T = tap_one_accepts [OF one]
  have "chain s1 c ds = chain s c ds" for c by (rule chain_cong) (use T Cons.prems(2) in auto)
  then have "chain s1 (bd_next (bpf_dtab s1 d)) ds" using T cur(2) by simp
  from Cons.IH [OF this _ rest] have "\<forall>e \<in> set ds. \<exists>v. bpf_filter n (bd_filter (bpf_dtab s1 e)) pkt pktlen mem = Some (Accept v)"
    using Cons.prems(2) by simp
  moreover have "bpf_dtab s1 e = bpf_dtab s e" if "e \<in> set ds" for e using T that Cons.prems(2) by auto
  ultimately show ?case using T by auto
qed simp

definition tap_gets :: "nat \<Rightarrow> bpf_state \<Rightarrow> u32 \<times> u32 \<Rightarrow> u8 list \<Rightarrow> nat \<Rightarrow> nat \<Rightarrow> bpf_d \<Rightarrow> bpf_d \<Rightarrow> bool" where
  "tap_gets n mem ts pkt h d r r' \<longleftrightarrow>
     (\<exists>v. bpf_filter n (bd_filter r) (BufPkt pkt) (of_nat (length pkt)) mem = Some (Accept v) \<and>
        (if v = 0 then r' = r\<lparr>bd_rcount := bd_rcount r + 1\<rparr>
         else \<exists>es. catchpacket (memcpy_from pkt) ts h (of_nat (length pkt)) v d (r\<lparr>bd_rcount := bd_rcount r + 1\<rparr>) = Done (es, r')))"

lemma tap_desc_gets:
  "tap_desc n mem ts (BufPkt pkt) (memcpy_from pkt) (of_nat (length pkt)) h d r = Some (Done (es, r')) \<Longrightarrow> tap_gets n mem ts pkt h d r r'"
  by (auto simp: tap_desc_def tap_gets_def Let_def split: option.splits bres.splits if_splits)

text \<open>
  C33: the lists of listeners are well formed (\<open>dev_ok\<close>, which every history of the device keeps in
  which interfaces are attached before minor 0 is in use), the buffers of each listener hold what
  \<open>catchpacket\<close> has left there (\<open>d_rep\<close>) and have room for a header, and header and packet are of a
  length that the arithmetic holds.  If the filter of every listener comes to an end on the packet,
  \<open>bpf_tap\<close> returns, and it has given the packet to every descriptor that listens on the interface,
  exactly once, and to no other: each counts it once and, if its own filter returns a length that is
  not 0, stores so much of it.  If some listener's filter does not come to its end within the steps
  allowed (a validated one may loop) or faults, \<open>bpf_tap\<close> does not return.
\<close>

theorem bpf_tap_each_once:
  assumes ok: "dev_ok s" and b: "bpf_ifs s b = Some bp" and h: "18 \<le> bif_hdrlen bp" "bif_hdrlen bp < 65536" "length pkt + bif_hdrlen bp < 2147483648"
    and bufs: "\<forall>d. bd_bif (bpf_dtab s d) = Some b \<longrightarrow> (\<exists>hs ss. d_rep (bpf_dtab s d) hs ss) \<and> bif_hdrlen bp \<le> bd_bufsize (bpf_dtab s d)"
  shows "if \<forall>d. bd_bif (bpf_dtab s d) = Some b \<longrightarrow>
              (\<exists>v. bpf_filter n (bd_filter (bpf_dtab s d)) (BufPkt pkt) (of_nat (length pkt)) mem = Some (Accept v))
         then \<exists>s'. bpf_tap n mem ts b pkt s = Some (Done s') \<and> dev_ok s' \<and>
              (\<forall>d. (bd_bif (bpf_dtab s d) = Some b \<longrightarrow> tap_gets n mem ts pkt (bif_hdrlen bp) d (bpf_dtab s d) (bpf_dtab s' d)) \<and>
                   (bd_bif (bpf_dtab s d) \<noteq> Some b \<longrightarrow> bpf_dtab s' d = bpf_dtab s d))
         else \<forall>s'. bpf_tap n mem ts b pkt s \<noteq> Some (Done s')"
proof (cases "\<forall>d. bd_bif (bpf_dtab s d) = Some b \<longrightarrow>
              (\<exists>v. bpf_filter n (bd_filter (bpf_dtab s d)) (BufPkt pkt) (of_nat (length pkt)) mem = Some (Accept v))")
  case True
  then have ready: "\<forall>d. bd_bif (bpf_dtab s d) = Some b \<longrightarrow> tap_ready n mem pkt (bif_hdrlen bp) (bpf_dtab s d)"
    using bufs unfolding tap_ready_def by blast
  obtain s' where "bpf_tap n mem ts b pkt s = Some (Done s')" "dev_ok s'" and eff: "\<forall>d. bpf_dtab s' d =
      (if bd_bif (bpf_dtab s d) = Some b then
         (case tap_desc n mem ts (BufPkt pkt) (memcpy_from pkt) (of_nat (length pkt)) (bif_hdrlen bp) d (bpf_dtab s d) of
            Some (Done (es, r)) \<Rightarrow> r | _ \<Rightarrow> bpf_dtab s d)
       else bpf_dtab s d)"
    using tap_ok [OF ok b h ready] by blast
  moreover have "tap_gets n mem ts pkt (bif_hdrlen bp) d (bpf_dtab s d) (bpf_dtab s' d)" if l: "bd_bif (bpf_dtab s d) = Some b" for d
  proof -
    obtain es r where r: "tap_desc n mem ts (BufPkt pkt) (memcpy_from pkt) (of_nat (length pkt)) (bif_hdrlen bp) d (bpf_dtab s d) = Some (Done (es, r))"
      using tap_desc_ready [OF _ h] ready l by blast
    have "bpf_dtab s' d = r" using eff [THEN spec [of _ d]] by (simp add: l r)
    then show ?thesis using tap_desc_gets [OF r] by simp
  qed
  ultimately show ?thesis unfolding if_P [OF True] using eff by auto
next
  case False
  obtain ds where ds: "chain s (bif_dlist bp) ds" "distinct ds" "set ds = {d. bd_bif (bpf_dtab s d) = Some b}"
    using dev_okD(1) [OF ok b] unfolding if_ok_def by blast
  have "bpf_tap n mem ts b pkt s = tap_loop n mem ts (BufPkt pkt) (memcpy_from pkt) (of_nat (length pkt)) (bif_dlist bp) s"
    using b by (simp add: bpf_tap_def)
  then show ?thesis unfolding if_not_P [OF False] using tap_loop_accepts [OF ds(1,2)] ds(3) False by (metis mem_Collect_eq)
qed

section \<open>Histories of the device\<close>

lemma markfree_ok:
  assumes "dev_ok s" "\<forall>d \<in> set ds. bd_bif (bpf_dtab s d) = None"
  shows "dev_ok (fold D_MARKFREE ds s)"
  using assms
proof (induction ds arbitrary: s)
  case (Cons d ds)
  have "dev_ok (D_MARKFREE d s)" unfolding D_MARKFREE_def by (rule relink_ok) (use Cons.prems in simp_all)
  moreover have "\<forall>e \<in> set ds. bd_bif (bpf_dtab (D_MARKFREE d s) e) = None" using Cons.prems(2) by (simp add: D_MARKFREE_def upd_d_def)
  ultimately show ?case using Cons.IH by simp
qed simp

lemma attach_if_ok:
  assumes ok: "dev_ok s" and new: "bpf_ifs s b = None" "ifnets s ifp \<noteq> None"
    and free: "D_ISFREE 0 s \<or> (\<forall>d < NBPFILTER. bd_bif (bpf_dtab s d) = None)"
  shows "dev_ok (bpfattach b ifp dlt hdrlen s)"
proof -
  let ?bp = "\<lparr>bif_dlist = None, bif_driver = None, bif_dlt = dlt, bif_hdrlen = BPF_WORDALIGN (hdrlen + SIZEOF_BPF_HDR) - hdrlen, bif_ifp = ifp\<rparr>"
  let ?s = "s\<lparr>bpf_ifs := (bpf_ifs s)(b \<mapsto> ?bp), bpf_iflist := b # bpf_iflist s\<rparr>"
  have "chain ?s c ds = chain s c ds" for c ds by (rule chain_cong) simp
  then have same: "if_ok ?s c cp ds = if_ok s c cp ds" for c cp ds by (simp add: if_ok_def)
  have "{d. bd_bif (bpf_dtab s d) = Some b} = {}" using dev_okD(3) [OF ok] new(1) by blast
  then have "if_ok ?s b ?bp []" using new(2) by (simp add: if_ok_def)
  then have "\<exists>ds. if_ok ?s c cp ds" if "bpf_ifs ?s c = Some cp" for c cp
    using that dev_okD(1) [OF ok, of c cp] same by (cases "c = b") auto
  then have ok1: "dev_ok ?s" using ok unfolding dev_ok_def by (simp add: D_ISFREE_def)
  have fr: "D_ISFREE 0 ?s = D_ISFREE 0 s" by (simp add: D_ISFREE_def)
  have "dev_ok (fold D_MARKFREE [0..<NBPFILTER] ?s)" if "\<not> D_ISFREE 0 ?s"
    by (rule markfree_ok [OF ok1]) (use that free fr in simp)
  then show ?thesis using ok1 by (simp add: bpfattach_def Let_def)
qed

text \<open>
  Interfaces are attached, while no minor is in use or minor 0 is free; minors are opened, closed and
  controlled, packets arrive, readers take the buffers, and the interfaces change their flags.
  Interfaces stay up while a descriptor that is detached from them is promiscuous.
\<close>

inductive dev_hist :: "(addr \<Rightarrow> u16 \<Rightarrow> int) \<Rightarrow> bdev \<Rightarrow> bdev \<Rightarrow> bool" for ioc s0 where
  dh_start: "dev_hist ioc s0 s0"
| dh_attach: "dev_hist ioc s0 s \<Longrightarrow> bpf_ifs s b = None \<Longrightarrow> ifnets s ifp \<noteq> None \<Longrightarrow>
    D_ISFREE 0 s \<or> (\<forall>d < NBPFILTER. bd_bif (bpf_dtab s d) = None) \<Longrightarrow> dev_hist ioc s0 (bpfattach b ifp dlt hdrlen s)"
| dh_open: "dev_hist ioc s0 s \<Longrightarrow> bpfopen bufsize fb sb d s = (e, s') \<Longrightarrow> dev_hist ioc s0 s'"
| dh_close: "dev_hist ioc s0 s \<Longrightarrow> can_detach ioc d s \<Longrightarrow> bpfclose ioc d s = Some (Done s') \<Longrightarrow> dev_hist ioc s0 s'"
| dh_ioctl: "dev_hist ioc s0 s \<Longrightarrow> d < NBPFILTER \<Longrightarrow> can_detach ioc d s \<Longrightarrow> bpfioctl ioc gifaddr junk tick d r s = Some (Done (e, v, s')) \<Longrightarrow>
    dev_hist ioc s0 s'"
| dh_packet: "dev_hist ioc s0 s \<Longrightarrow> bpf_ifs s b = Some bp \<Longrightarrow> 18 \<le> bif_hdrlen bp \<Longrightarrow> bif_hdrlen bp < 65536 \<Longrightarrow> length pkt + bif_hdrlen bp < 2147483648 \<Longrightarrow>
    \<forall>d. bd_bif (bpf_dtab s d) = Some b \<longrightarrow> tap_ready n mem pkt (bif_hdrlen bp) (bpf_dtab s d) \<Longrightarrow>
    bpf_tap n mem ts b pkt s = Some (Done s') \<Longrightarrow> dev_hist ioc s0 s'"
| dh_read: "dev_hist ioc s0 s \<Longrightarrow> bpfread_head (bpf_dtab s d) = RCopy r \<or> bpfread_woken err (bpf_dtab s d) = RCopy r \<Longrightarrow>
    dev_hist ioc s0 (upd_d d (\<lambda>_. bpfread_done r) s)"
| dh_select: "dev_hist ioc s0 s \<Longrightarrow> dev_hist ioc s0 (upd_d d (\<lambda>r. snd (bpfselect rd pid r)) s)"
| dh_nets: "dev_hist ioc s0 s \<Longrightarrow> dom nets = dom (ifnets s) \<Longrightarrow> dev_hist ioc s0 (s\<lparr>ifnets := nets\<rparr>)"

lemma promisc_same:
  assumes "bpfioctl ioc gifaddr junk tick d BIOCPROMISC s = Some (Done (e, v, s'))"
  shows "same_lists s s'"
proof -
  have "same_lists s (upd_d d (\<lambda>r. r\<lparr>bd_promisc := True\<rparr>) s)" by (simp add: upd_d_same)
  then show ?thesis using assms
    by (auto simp: kbind_Done_iff kmap_Done_iff split: option.splits if_splits dest!: ifpromisc_same dest: same_lists_trans)
qed

lemma setf_same: "bpf_setf junk len insns r = Done (e, r') \<Longrightarrow> bd_next r' = bd_next r \<and> bd_bif r' = bd_bif r"
  by (auto simp: bpf_setf_def reset_d_def kmap_Done_iff split: option.splits if_splits)

lemma upd_d_const: "bd_next r = bd_next (bpf_dtab s d) \<Longrightarrow> bd_bif r = bd_bif (bpf_dtab s d) \<Longrightarrow> same_lists s (upd_d d (\<lambda>_. r) s)"
  by (simp add: same_lists_def upd_d_def)

lemma ioctl_same:
  assumes run: "bpfioctl ioc gifaddr junk tick d r s = Some (Done (e, v, s'))" and ns: "\<And>name. r \<noteq> BIOCSETIF name"
  shows "same_lists s s'"
proof (cases r)
  case (BIOCSETF len insns)
  then show ?thesis using run by (auto simp: kmap_Done_iff dest!: setf_same intro: upd_d_const)
next
  case BIOCPROMISC
  then show ?thesis using promisc_same run by blast
next
  case (BIOCSETIF name)
  then show ?thesis using ns by blast
qed (use run in \<open>auto simp: kmap_Done_iff kbind_Done_iff reset_d_def Let_def intro!: upd_d_same split: option.splits if_splits\<close>)

lemma ioctl_ok:
  assumes "dev_ok s" "d < NBPFILTER" "can_detach ioc d s" "bpfioctl ioc gifaddr junk tick d r s = Some (Done (e, v, s'))"
  shows "dev_ok s'"
proof (cases "\<exists>name. r = BIOCSETIF name")
  case True
  then obtain name where r: "r = BIOCSETIF name" by blast
  obtain e1 s1 where "bpf_setif ioc d name s = Some (Done (e1, s1))" "dev_ok s1" using setif_ok [OF assms(1-3), of name] by blast
  then show ?thesis using assms(4) r by simp
next
  case False
  then show ?thesis using same_lists_ok [OF ioctl_same [OF assms(4)] assms(1)] by blast
qed

lemma read_same: "bpfread_head d = RCopy r \<or> bpfread_woken err d = RCopy r \<Longrightarrow> bd_next r = bd_next d \<and> bd_bif r = bd_bif d"
  by (auto simp: bpfread_head_def bpfread_woken_def ROTATE_BUFFERS_def split: if_splits)

text \<open>
  in every history of the device the lists of listeners are right: each interface lists exactly the
  descriptors attached to it, once, and the driver knows whether there are any.
\<close>

theorem bpf_lists_kept:
  assumes "dev_ok s0" "dev_hist ioc s0 s"
  shows "dev_ok s"
  using assms(2)
proof (induction rule: dev_hist.induct)
  case dh_start
  show ?case by (rule assms(1))
next
  case (dh_attach s b ifp dlt hdrlen)
  show ?case by (rule attach_if_ok [OF dh_attach.IH dh_attach.hyps(2-4)])
next
  case (dh_open s bufsize fb sb d e s')
  show ?case by (rule open_ok [OF dh_open.IH dh_open.hyps(2)])
next
  case (dh_close s d s')
  show ?case using close_ok [OF dh_close.IH dh_close.hyps(2)] dh_close.hyps(3) by auto
next
  case (dh_ioctl s d gifaddr junk tick r e v s')
  show ?case by (rule ioctl_ok [OF dh_ioctl.IH dh_ioctl.hyps(2-4)])
next
  case (dh_packet s b bp pkt n mem ts s')
  show ?case using tap_ok [OF dh_packet.IH dh_packet.hyps(2-6), of ts] dh_packet.hyps(7) by auto
next
  case (dh_read s d r err)
  show ?case by (rule same_lists_ok [OF upd_d_const dh_read.IH]) (use read_same [OF dh_read.hyps(2)] in \<open>simp_all add: bpfread_done_def\<close>)
next
  case (dh_select s d rd pid)
  show ?case by (rule same_lists_ok [OF upd_d_same dh_select.IH]) (simp add: bpfselect_def)
next
  case (dh_nets s nets)
  show ?case by (rule same_lists_ok [OF _ dh_nets.IH]) (use dh_nets.hyps(2) in \<open>simp add: same_lists_def\<close>)
qed

section \<open>Defects\<close>

lemma tap_one_next:
  "tap_one n mem ts pkt cpfn pktlen d s = Some (Done s1) \<Longrightarrow> bd_next (bpf_dtab s1 e) = bd_next (bpf_dtab s e)"
  by (auto simp: tap_one_def Let_def bposts_def upd_d_def kmap_Done_iff kbind_Done_iff split: option.splits bres.splits if_splits dest!: catchpacket_keeps)

text \<open>A walk that comes to a descriptor marked free does not end.\<close>

lemma tap_loop_cycle:
  assumes "tap_loop n mem ts pkt cpfn pktlen cur s = Some r"
  shows "(\<exists>d. cur = Some d \<and> bd_next (bpf_dtab s d) = Some d) \<longrightarrow> (\<forall>t. r \<noteq> Done t)"
proof (rule tap_loop.raw_induct [OF _ assms])
  fix f and n :: nat and mem ts and pkt :: packet and cpfn pktlen cur s r
  assume IH: "\<And>n mem ts pkt cpfn pktlen cur s r. f n mem ts pkt cpfn pktlen cur s = Some r \<Longrightarrow>
      (\<exists>d. cur = Some d \<and> bd_next (bpf_dtab s d) = Some d) \<longrightarrow> (\<forall>t. r \<noteq> Done t)"
    and b: "(case cur of None \<Rightarrow> Some (Done s) | Some d \<Rightarrow> (case tap_one n mem ts pkt cpfn pktlen d s of None \<Rightarrow> None
      | Some (Done s1) \<Rightarrow> f n mem ts pkt cpfn pktlen (bd_next (bpf_dtab s1 d)) s1 | Some (Panic m) \<Rightarrow> Some (Panic m) | Some Fault \<Rightarrow> Some Fault)) = Some r"
  show "(\<exists>d. cur = Some d \<and> bd_next (bpf_dtab s d) = Some d) \<longrightarrow> (\<forall>t. r \<noteq> Done t)"
  proof
    assume "\<exists>d. cur = Some d \<and> bd_next (bpf_dtab s d) = Some d"
    then obtain d where d: "cur = Some d" "bd_next (bpf_dtab s d) = Some d" by blast
    show "\<forall>t. r \<noteq> Done t"
    proof (cases "tap_one n mem ts pkt cpfn pktlen d s")
      case None
      then show ?thesis using b d by simp
    next
      case (Some q)
      show ?thesis
      proof (cases q)
        case (Done s1)
        have "bd_next (bpf_dtab s1 d) = Some d" using Some Done d(2) tap_one_next by fastforce
        then show ?thesis using IH b d Some Done by auto
      qed (use b d Some in auto)
    qed
  qed
qed

text \<open>
  C40: \<open>bpfattach\<close> marks all descriptors free whenever minor 0 is in use, not only the first time.  If an
  interface is attached while minor 0 listens on another one, the next packet on that interface never
  comes back from \<open>bpf_tap\<close>: the list of listeners has become a cycle.
\<close>

theorem bpfattach_cycles:
  assumes ok: "dev_ok s" and d: "bd_bif (bpf_dtab s 0) = Some b" and new: "b2 \<noteq> b"
  shows "bpf_tap n mem ts b pkt (bpfattach b2 ifp dlt hdrlen s) \<noteq> Some (Done t)"
proof
  let ?s = "bpfattach b2 ifp dlt hdrlen s"
  assume run: "bpf_tap n mem ts b pkt ?s = Some (Done t)"
  have "bpf_ifs s b \<noteq> None" by (rule dev_okD(3) [OF ok d])
  then obtain bp where bp: "bpf_ifs s b = Some bp" by auto
  obtain ds where ds: "if_ok s b bp ds" using dev_okD(1) [OF ok bp] by blast
  have "0 \<in> set ds" using ds d by (simp add: if_ok_def)
  then obtain c cs where c: "ds = c # cs" by (cases ds) auto
  have "bd_bif (bpf_dtab s c) = Some b" using ds c by (auto simp: if_ok_def)
  then have c3: "c < 3" using dev_okD(4) [OF ok] by (simp add: NBPFILTER_def)
  have hd: "bif_dlist bp = Some c" using ds c by (simp add: if_ok_def)
  have "\<not> D_ISFREE 0 s" using dev_okD(5) [OF ok, of 0] d by auto
  then have "bd_next (bpf_dtab ?s c) = Some c" and ifs: "bpf_ifs ?s b = Some bp"
    using c3 bp new by (auto simp: bpfattach_def Let_def D_ISFREE_def D_MARKFREE_def upd_d_def NBPFILTER_def numeral_eq_Suc less_Suc_eq)
  then show False using run hd tap_loop_cycle by (fastforce simp: bpf_tap_def)
qed

text \<open>
  C0: asking for promiscuous mode on an interface that is down fails, but the descriptor is marked
  promiscuous all the same; closing it then panics.
\<close>

theorem promisc_down_panics:
  assumes d: "bd_bif (bpf_dtab s d) = Some b" "bpf_ifs s b = Some bp" "ifnets s (bif_ifp bp) = Some ifp"
    and down: "if_flags ifp AND IFF_UP = 0" and off: "\<not> bd_promisc (bpf_dtab s d)"
  shows "\<exists>s'. bpfioctl ioc gifaddr junk tick d BIOCPROMISC s = Some (Done (ENETDOWN, BNone, s')) \<and>
    bpfclose ioc d s' = Some (Panic ''bpf_detachd: ifpromisc failed'')"
proof -
  let ?s = "upd_d d (\<lambda>r. r\<lparr>bd_promisc := True\<rparr>) s"
  have "bpfioctl ioc gifaddr junk tick d BIOCPROMISC s = Some (Done (ENETDOWN, BNone, ?s))"
    using assms by (simp add: ifpromisc_def upd_d_def)
  moreover have "bpfclose ioc d ?s = Some (Panic ''bpf_detachd: ifpromisc failed'')"
    using assms by (simp add: bpfclose_def bpf_detachd_def ifpromisc_def upd_d_def ENETDOWN_def)
  ultimately show ?thesis by blast
qed

lemma c_string_append: "\<forall>c \<in> set nm. c \<noteq> 0 \<Longrightarrow> c_string (nm @ 0 # rest) = nm"
  unfolding c_string_def by (induction nm) auto

text \<open>
  C0: \<open>bpf_ifname\<close> puts the unit number behind the byte that ends the name: \<open>BIOCGETIF\<close> gives the same
  name for all units of a driver.
\<close>

theorem bpf_ifname_no_unit:
  assumes "\<forall>c \<in> set (if_name ifp). c \<noteq> 0" "length (if_name ifp) + 3 \<le> length name"
  shows "\<exists>buf. bpf_ifname ifp name = Done buf \<and> c_string buf = if_name ifp"
  using assms c_string_append [of "if_name ifp"] by (auto simp: bpf_ifname_def put_bytes_def)

text \<open>
  C0: the read timeout does not come back as it was set: the microseconds that \<open>BIOCGRTIMEOUT\<close> returns
  are milliseconds.
\<close>

theorem rtimeout_not_returned:
  assumes "tick = 10000" "unat sec < 1000000" "unat ms10 < 100"
  shows "\<exists>s'. bpfioctl ioc g junk tick d (BIOCSRTIMEOUT sec (ms10 * 10000)) s = Some (Done (0, BNone, s')) \<and>
    bpfioctl ioc g junk tick d BIOCGRTIMEOUT s' = Some (Done (0, BTime sec (ms10 * 10), s'))"
proof -
  have m: "unat (ms10 * 10000) = unat ms10 * 10000" using assms(3) by (simp add: unat_word_ariths)
  have ss: "sint sec = int (unat sec)" by (rule sint32_small) (use assms(2) in simp)
  have sm: "sint (ms10 * 10000) = int (unat ms10 * 10000)" using assms(3) by (subst sint32_small) (simp_all add: m)
  define v where "v = unat sec * 1000 + unat ms10 * 10"
  have v: "v < 1000000000" using assms(2,3) by (simp add: v_def)
  have "int (m * 10000) sdiv 1000 = int (m * 10)" for m :: nat by (simp add: signed_divide_int_def sgn_if)
  from this [of "unat ms10"] have msec: "sint sec * 1000 + sint (ms10 * 10000) sdiv 1000 = int v" unfolding ss sm v_def by (simp only: of_nat_add of_nat_mult of_nat_numeral)
  have t: "tick div 1000 = 10" using assms(1) by simp
  have u: "unat (of_int (int v) :: u32) = v" using v by (simp add: unat_of_nat take_bit_nat_def)
  have q: "unat (of_int (int v) div of_int 10 :: u32) = v div 10" using u by (simp add: unat_div_distrib)
  have "v div 10 * 10 = v" by (simp add: v_def) 
  then have r: "unat ((of_int (int v) div of_int 10) * of_int 10 :: u32) = v" using q v by (simp add: unat_word_ariths)
  let ?r = "(of_int (int v) div of_int 10) * of_int 10 :: u32"
  have vs: "v div 1000 = unat sec" "v mod 1000 = unat ms10 * 10" using assms(3) by (simp_all add: v_def)
  have "unat (?r div 1000) = unat sec" "unat (?r mod 1000) = unat (ms10 * 10)"
    using r vs assms(3) by (simp_all add: unat_div_distrib unat_mod_distrib unat_word_ariths)
  then have "?r div 1000 = sec" "?r mod 1000 = ms10 * 10" by (simp_all only: word_unat_eq_iff)
  then show ?thesis using msec t by (simp add: upd_d_def Let_def)
qed

section \<open>An example\<close>

definition ed0 :: ifnet where
  "ed0 = \<lparr>if_name = [101, 100], if_unit = 0, if_mtu = 1500, if_flags = IFF_UP, if_pcount = 0\<rparr>"

definition bdev_boot :: bdev where
  "bdev_boot = \<lparr>bpf_dtab = (\<lambda>_. bpf_d_zero), bpf_iflist = [], bpf_ifs = Map.empty, ifnets = [5 \<mapsto> ed0], b_events = []\<rparr>"

definition bdev_demo :: bdev where
  "bdev_demo = \<lparr>bpf_dtab = (\<lambda>d. if d = 0 then bpf_d_demo else bpf_d_zero\<lparr>bd_next := Some d\<rparr>), bpf_iflist = [9],
     bpf_ifs = [9 \<mapsto> \<lparr>bif_dlist = Some 0, bif_driver = Some 9, bif_dlt = DLT_EN10MB, bif_hdrlen = 18, bif_ifp = 5\<rparr>],
     ifnets = [5 \<mapsto> ed0], b_events = []\<rparr>"

lemma bdev_boot_ok: "dev_ok bdev_boot"
  by (simp add: dev_ok_def bdev_boot_def bpf_d_zero_def)

lemma bdev_demo_ok: "dev_ok bdev_demo"
proof -
  have "if_ok bdev_demo 9 \<lparr>bif_dlist = Some 0, bif_driver = Some 9, bif_dlt = DLT_EN10MB, bif_hdrlen = 18, bif_ifp = 5\<rparr> [0]"
    by (auto simp: if_ok_def bdev_demo_def bpf_d_demo_def bpf_d_zero_def split: if_splits)
  then show ?thesis
    by (auto simp: dev_ok_def bdev_demo_def bpf_d_demo_def bpf_d_zero_def D_ISFREE_def NBPFILTER_def split: if_splits)
qed

definition bpf_st0 :: bpf_state where
  "bpf_st0 = \<lparr>regA = 0, regX = 0, scratch = [], pc = 0\<rparr>"

theorem bpf_tap_each_once_witness:
  "\<exists>s'. bpf_tap 1 bpf_st0 (5, 6) 9 [1, 2, 3] bdev_demo = Some (Done s') \<and> bd_rcount (bpf_dtab s' 0) = 1 \<and> bpf_dtab s' 1 = bpf_dtab bdev_demo 1"
proof -
  let ?bp = "\<lparr>bif_dlist = Some 0, bif_driver = Some 9, bif_dlt = DLT_EN10MB, bif_hdrlen = 18, bif_ifp = 5\<rparr>"
  have b: "bpf_ifs bdev_demo 9 = Some ?bp" by (simp add: bdev_demo_def)
  have bif: "bd_bif (bpf_dtab bdev_demo d) = Some 9 \<longleftrightarrow> d = 0" for d by (simp add: bdev_demo_def bpf_d_demo_def bpf_d_zero_def)
  have d0: "bpf_dtab bdev_demo 0 = bpf_d_demo" by (simp add: bdev_demo_def)
  have room: "18 \<le> bd_bufsize bpf_d_demo" by (simp add: bpf_d_demo_def bpf_d_zero_def)
  then have bufs: "\<forall>d. bd_bif (bpf_dtab bdev_demo d) = Some 9 \<longrightarrow>
      (\<exists>hs ss. d_rep (bpf_dtab bdev_demo d) hs ss) \<and> bif_hdrlen ?bp \<le> bd_bufsize (bpf_dtab bdev_demo d)"
    using bpf_d_demo_rep by (auto simp: bif d0)
  have "bpf_filter 1 (bd_filter bpf_d_demo) (BufPkt [1, 2, 3]) 3 bpf_st0 = Some (Accept (-1))"
    by (simp add: bpf_filter_def bpf_d_demo_def bpf_d_zero_def)
  then have acc: "\<forall>d. bd_bif (bpf_dtab bdev_demo d) = Some 9 \<longrightarrow>
      (\<exists>v. bpf_filter 1 (bd_filter (bpf_dtab bdev_demo d)) (BufPkt [1, 2, 3]) (of_nat (length [1, 2, 3 :: u8])) bpf_st0 = Some (Accept v))"
    by (auto simp: bif d0)
  obtain s' where s': "bpf_tap 1 bpf_st0 (5, 6) 9 [1, 2, 3] bdev_demo = Some (Done s')"
    and g: "\<forall>d. (bd_bif (bpf_dtab bdev_demo d) = Some 9 \<longrightarrow> tap_gets 1 bpf_st0 (5, 6) [1, 2, 3] (bif_hdrlen ?bp) d (bpf_dtab bdev_demo d) (bpf_dtab s' d)) \<and>
                   (bd_bif (bpf_dtab bdev_demo d) \<noteq> Some 9 \<longrightarrow> bpf_dtab s' d = bpf_dtab bdev_demo d)"
    using bpf_tap_each_once [OF bdev_demo_ok b _ _ _ bufs, where n = 1 and mem = bpf_st0 and pkt = "[1, 2, 3]" and ts = "(5, 6)"]
    unfolding if_P [OF acc] by auto
  have "tap_gets 1 bpf_st0 (5, 6) [1, 2, 3] 18 0 bpf_d_demo (bpf_dtab s' 0)" using g bif [of 0] d0 by (metis bpf_if.select_convs(4))
  then have "bd_rcount (bpf_dtab s' 0) = 1"
    by (auto simp: tap_gets_def bpf_d_demo_def bpf_d_zero_def split: if_splits dest!: catchpacket_keeps)
  then show ?thesis using s' g [THEN spec [of _ 1]] by (auto simp: bif)
qed

theorem bpf_lists_kept_witness:
  "\<exists>s. dev_hist (\<lambda>_ _. 0) bdev_boot s \<and> dev_ok s \<and> bd_bif (bpf_dtab s 0) = Some 9"
proof -
  let ?s1 = "bpfattach 9 5 DLT_EN10MB 14 bdev_boot"
  let ?open = "bpfopen 64 (Some (replicate 64 0)) (Some (replicate 64 0)) 0 ?s1"
  have h1: "dev_hist (\<lambda>_ _. 0) bdev_boot ?s1"
    by (rule dh_attach [OF dh_start]) (simp_all add: bdev_boot_def bpf_d_zero_def)
  have h2: "dev_hist (\<lambda>_ _. 0) bdev_boot (snd ?open)" by (rule dh_open [OF h1, where e = "fst ?open"]) simp
  define s2 where "s2 = snd ?open"
  have "\<not> bd_promisc (bpf_dtab s2 0)" unfolding s2_def by code_simp
  then have can: "can_detach (\<lambda>_ _. 0) 0 s2" by (simp add: can_detach_def)
  have run: "(case bpfioctl (\<lambda>_ _. 0) (\<lambda>_. 0) True 10000 0 (BIOCSETIF [101, 100, 48, 0, 0, 0, 0, 0, 0, 0, 0, 0, 0, 0, 0, 0]) s2 of
      Some (Done (e, v, s)) \<Rightarrow> bd_bif (bpf_dtab s 0) = Some 9 | _ \<Rightarrow> False)" unfolding s2_def by code_simp
  then obtain e v s where s: "bpfioctl (\<lambda>_ _. 0) (\<lambda>_. 0) True 10000 0 (BIOCSETIF [101, 100, 48, 0, 0, 0, 0, 0, 0, 0, 0, 0, 0, 0, 0, 0]) s2
      = Some (Done (e, v, s))" "bd_bif (bpf_dtab s 0) = Some 9" by (auto split: option.splits kres.splits prod.splits)
  have "dev_hist (\<lambda>_ _. 0) bdev_boot s" by (rule dh_ioctl [OF h2 [folded s2_def] _ can s(1)]) (simp add: NBPFILTER_def)
  then show ?thesis using bpf_lists_kept [OF bdev_boot_ok] s(2) by blast
qed

theorem bpfattach_cycles_witness:
  "bpf_tap 1 bpf_st0 (5, 6) 9 [1, 2, 3] (bpfattach 10 5 DLT_EN10MB 14 bdev_demo) \<noteq> Some (Done bdev_demo)"
proof -
  have d: "bd_bif (bpf_dtab bdev_demo 0) = Some 9" by (simp add: bdev_demo_def bpf_d_demo_def)
  show ?thesis by (rule bpfattach_cycles [OF bdev_demo_ok d]) simp
qed

theorem promisc_down_panics_witness:
  "\<exists>s'. bpfclose (\<lambda>_ _. 0) 0 s' = Some (Panic ''bpf_detachd: ifpromisc failed'')"
proof -
  let ?s = "bdev_demo\<lparr>ifnets := [5 \<mapsto> ed0\<lparr>if_flags := 0\<rparr>]\<rparr>"
  have "bd_bif (bpf_dtab ?s 0) = Some 9" "\<not> bd_promisc (bpf_dtab ?s 0)"
    "bpf_ifs ?s 9 = Some \<lparr>bif_dlist = Some 0, bif_driver = Some 9, bif_dlt = DLT_EN10MB, bif_hdrlen = 18, bif_ifp = 5\<rparr>"
    by (simp_all add: bdev_demo_def bpf_d_demo_def bpf_d_zero_def)
  from promisc_down_panics [OF this(1,3) _ _ this(2), of "ed0\<lparr>if_flags := 0\<rparr>" "\<lambda>_ _. 0" "\<lambda>_. 0" True 10000] show ?thesis by auto
qed

theorem bpf_ifname_no_unit_witness:
  "\<exists>buf. bpf_ifname ed0 (replicate 16 0) = Done buf \<and> c_string buf = [101, 100]"
  using bpf_ifname_no_unit [of ed0 "replicate 16 0"] by (simp add: ed0_def)

theorem rtimeout_not_returned_witness:
  "\<exists>s'. bpfioctl (\<lambda>_ _. 0) (\<lambda>_. 0) True 10000 0 BIOCGRTIMEOUT s' = Some (Done (0, BTime 1 500, s'))"
  using rtimeout_not_returned [of 10000 1 50 "\<lambda>_ _. 0" "\<lambda>_. 0" True 0 bdev_demo] by auto

end
