(* ===== verification/Malloc.thy ===== *)
theory Malloc
  imports Prelude
begin

unbundle bit_operations_syntax

text \<open>
  The kernel memory allocator (\<open>kern/malloc.c\<close>, \<open>include/malloc.h\<close>), with the statistics and the
  diagnostic checks that the kernel is built with: buckets of free blocks of each power of two, linked
  through the blocks themselves; a descriptor for each page of the arena; and the usage of each type of
  memory.  \<open>kwords\<close> is the memory, as the addresses that are stored at addresses; 0 is \<open>NULL\<close>.
  \<open>malloc\<close> may sleep for its type's limit and in \<open>kmem_alloc\<close>: it is given up to that point and from
  there.  Counters that stay within the arena's size are \<open>int\<close> and \<open>nat\<close>; sizes that the caller passes
  are words.
\<close>

section \<open>State\<close>

definition NBPG :: nat where "NBPG = 4096"
definition PGSHIFT :: nat where "PGSHIFT = 12"
definition CLBYTES :: nat where "CLBYTES = NBPG"
definition MINBUCKET :: nat where "MINBUCKET = 4"
definition MINALLOCSIZE :: nat where "MINALLOCSIZE = 2 ^ MINBUCKET"
definition MAXALLOCSAVE :: nat where "MAXALLOCSAVE = 2 * CLBYTES"
definition VM_KMEM_SIZE :: nat where "VM_KMEM_SIZE = 4096 * 1024"
definition M_NOWAIT :: u32 where "M_NOWAIT = 1"
definition M_ZERO_IT :: u32 where "M_ZERO_IT = 2"
definition M_MBUF :: nat where "M_MBUF = 1"
definition M_LAST :: nat where "M_LAST = 50"

record kmembuckets =
  kb_next :: addr
  kb_calls :: int
  kb_total :: int
  kb_totalfree :: int
  kb_elmpercl :: nat
  kb_highwat :: int

record kmemstats =
  ks_inuse :: int
  ks_calls :: int
  ks_memuse :: int
  ks_limblocks :: nat
  ks_maxused :: int
  ks_limit :: int

text \<open>\<open>ku_cnt\<close> is the union of \<open>ku_freecnt\<close> and \<open>ku_pagecnt\<close>.\<close>

record kmemusage =
  ku_indx :: nat
  ku_cnt :: nat

datatype kevent = KFree addr nat | KWakeup nat

record kmem =
  bucket :: "nat \<Rightarrow> kmembuckets"
  kstats :: "nat \<Rightarrow> kmemstats"
  kusage :: "nat \<Rightarrow> kmemusage"
  kmembase :: addr
  kmemlimit :: addr
  kwords :: "addr \<Rightarrow> addr"
  kevents :: "kevent list"

definition upd_bucket :: "nat \<Rightarrow> (kmembuckets \<Rightarrow> kmembuckets) \<Rightarrow> kmem \<Rightarrow> kmem" where
  "upd_bucket i f k = k\<lparr>bucket := (bucket k)(i := f (bucket k i))\<rparr>"

definition upd_stats :: "nat \<Rightarrow> (kmemstats \<Rightarrow> kmemstats) \<Rightarrow> kmem \<Rightarrow> kmem" where
  "upd_stats t f k = k\<lparr>kstats := (kstats k)(t := f (kstats k t))\<rparr>"

definition upd_usage :: "nat \<Rightarrow> (kmemusage \<Rightarrow> kmemusage) \<Rightarrow> kmem \<Rightarrow> kmem" where
  "upd_usage p f k = k\<lparr>kusage := (kusage k)(p := f (kusage k p))\<rparr>"

definition kpost :: "kevent list \<Rightarrow> kmem \<Rightarrow> kmem" where
  "kpost es k = k\<lparr>kevents := kevents k @ es\<rparr>"

text \<open>The page of an address in the arena; the array of descriptors has one entry for each page.\<close>

definition btokup :: "addr \<Rightarrow> kmem \<Rightarrow> nat kres" where
  "btokup a k = (if a < kmembase k \<or> (kmemlimit k - kmembase k) div CLBYTES \<le> (a - kmembase k) div CLBYTES then Fault
     else Done ((a - kmembase k) div CLBYTES))"

definition kuptob :: "nat \<Rightarrow> kmem \<Rightarrow> addr" where
  "kuptob p k = kmembase k + p * CLBYTES"

definition BUCKETINDX :: "u32 \<Rightarrow> nat" where
  "BUCKETINDX sz =
     (let m = MINALLOCSIZE; n = unat sz in
      if n \<le> m * 128 then
        if n \<le> m * 8 then
          if n \<le> m * 2 then if n \<le> m * 1 then MINBUCKET + 0 else MINBUCKET + 1
          else if n \<le> m * 4 then MINBUCKET + 2 else MINBUCKET + 3
        else
          if n \<le> m * 32 then if n \<le> m * 16 then MINBUCKET + 4 else MINBUCKET + 5
          else if n \<le> m * 64 then MINBUCKET + 6 else MINBUCKET + 7
      else
        if n \<le> m * 2048 then
          if n \<le> m * 512 then if n \<le> m * 256 then MINBUCKET + 8 else MINBUCKET + 9
          else if n \<le> m * 1024 then MINBUCKET + 10 else MINBUCKET + 11
        else
          if n \<le> m * 8192 then if n \<le> m * 4096 then MINBUCKET + 12 else MINBUCKET + 13
          else if n \<le> m * 16384 then MINBUCKET + 14 else MINBUCKET + 15)"

section \<open>Allocation\<close>

text \<open>\<open>allocsize\<close> is a \<open>long\<close>, computed from an unsigned size; \<open>npg\<close> is the number of pages for it.\<close>

definition allocsize :: "u32 \<Rightarrow> int" where
  "allocsize sz =
     (if MAXALLOCSAVE \<le> unat sz then sint ((sz + of_nat (CLBYTES - 1)) div of_nat CLBYTES * of_nat CLBYTES)
      else 2 ^ BUCKETINDX sz)"

definition npages :: "u32 \<Rightarrow> nat" where
  "npages sz = unat (drop_bit PGSHIFT (of_int (allocsize sz) + of_nat (NBPG - 1)) :: u32)"

text \<open>
  The outcome of \<open>malloc\<close>: \<open>NULL\<close>, a sleep for the limit of the type (the test is repeated after it), a
  request for pages, or a block.
\<close>

datatype mres = MNull | MSleep kmem | MPages nat | MGot addr kmem

definition malloc_out :: "nat \<Rightarrow> nat \<Rightarrow> kmem \<Rightarrow> kmem" where
  "malloc_out i t k =
     upd_stats t (\<lambda>ks. ks\<lparr>ks_inuse := ks_inuse ks + 1, ks_calls := ks_calls ks + 1, ks_maxused := max (ks_maxused ks) (ks_memuse ks)\<rparr>)
       (upd_bucket i (\<lambda>kb. kb\<lparr>kb_calls := kb_calls kb + 1\<rparr>) k)"

definition malloc_zero :: "u32 \<Rightarrow> u32 \<Rightarrow> addr \<Rightarrow> kmem \<Rightarrow> kmem" where
  "malloc_zero sz flags va k =
     (if flags AND M_ZERO_IT \<noteq> 0 then k\<lparr>kwords := (\<lambda>a. if va \<le> a \<and> a < va + unat sz then 0 else kwords k a)\<rparr> else k)"

definition malloc_take :: "u32 \<Rightarrow> nat \<Rightarrow> u32 \<Rightarrow> kmem \<Rightarrow> mres kres" where
  "malloc_take sz t flags k =
     (let i = BUCKETINDX sz; va = kb_next (bucket k i) in
      kbind (btokup va k) (\<lambda>p.
        if ku_indx (kusage k p) \<noteq> i then Panic ''malloc: wrong bucket''
        else if ku_cnt (kusage k p) = 0 then Panic ''malloc: lost data''
        else Done (MGot va (malloc_zero sz flags va (malloc_out i t
          (upd_stats t (\<lambda>ks. ks\<lparr>ks_memuse := ks_memuse ks + 2 ^ i\<rparr>)
          (upd_usage p (\<lambda>ku. ku\<lparr>ku_cnt := ku_cnt ku - 1\<rparr>)
          (upd_bucket i (\<lambda>kb. kb\<lparr>kb_next := kwords k va, kb_totalfree := kb_totalfree kb - 1\<rparr>) k))))))))"

definition malloc :: "u32 \<Rightarrow> nat \<Rightarrow> u32 \<Rightarrow> kmem \<Rightarrow> mres kres" where
  "malloc sz t flags k =
     (if M_LAST < t then Panic ''malloc - bogus type''
      else if t = M_LAST then Fault
      else if ks_limit (kstats k t) \<le> ks_memuse (kstats k t) then
        Done (if flags AND M_NOWAIT \<noteq> 0 then MNull
              else MSleep (upd_stats t (\<lambda>ks. ks\<lparr>ks_limblocks := (if ks_limblocks ks < 65535 then ks_limblocks ks + 1 else ks_limblocks ks)\<rparr>) k))
      else if kb_next (bucket k (BUCKETINDX sz)) = 0 then Done (MPages (npages sz))
      else malloc_take sz t flags k)"

text \<open>
  The free blocks of a new page: each is linked to the one below, the lowest to \<open>saved\<close>.  The loop is
  not entered when \<open>step\<close> is not positive: the first block is then the page itself.
\<close>

function carve :: "addr \<Rightarrow> nat \<Rightarrow> addr \<Rightarrow> addr \<Rightarrow> (addr \<Rightarrow> addr) \<Rightarrow> addr \<Rightarrow> addr" where
  "carve va step saved cp m =
     (if va < cp \<and> 0 < step then carve va step saved (cp - step) (m(cp := cp - step)) else m(cp := saved))"
  by pat_completeness auto
termination by (relation "measure (\<lambda>(va, step, saved, cp, m). cp)") auto

declare carve.simps [simp del]

text \<open>\<open>malloc\<close> after \<open>kmem_alloc\<close> has returned \<open>va\<close>.\<close>

definition malloc_pages :: "u32 \<Rightarrow> nat \<Rightarrow> u32 \<Rightarrow> addr option \<Rightarrow> kmem \<Rightarrow> mres kres" where
  "malloc_pages sz t flags mem k =
     (case mem of
        None \<Rightarrow> Done MNull
      | Some va \<Rightarrow>
          let i = BUCKETINDX sz; al = allocsize sz; npg = npages sz; elm = kb_elmpercl (bucket k i) in
          kbind (btokup va k) (\<lambda>p.
            let k1 = upd_usage p (\<lambda>ku. ku\<lparr>ku_indx := i\<rparr>) (upd_bucket i (\<lambda>kb. kb\<lparr>kb_total := kb_total kb + int elm\<rparr>) k) in
            if int MAXALLOCSAVE \<le> al then
              if 65535 < npg then Panic ''malloc: allocation too large''
              else Done (MGot va (malloc_zero sz flags va (malloc_out i t
                     (upd_stats t (\<lambda>ks. ks\<lparr>ks_memuse := ks_memuse ks + al\<rparr>) (upd_usage p (\<lambda>ku. ku\<lparr>ku_cnt := npg\<rparr>) k1)))))
            else
              let top = nat ((int va + int (npg * NBPG) - al) mod 2 ^ 32);
                  k2 = upd_usage p (\<lambda>ku. ku\<lparr>ku_cnt := elm\<rparr>) (upd_bucket i (\<lambda>kb. kb\<lparr>kb_totalfree := kb_totalfree kb + int elm, kb_next := top\<rparr>) k1) in
              malloc_take sz t flags (k2\<lparr>kwords := carve va (nat al) (kb_next (bucket k i)) top (kwords k)\<rparr>)))"

section \<open>Release\<close>

text \<open>A type falls below its limit: those who wait for it are woken.\<close>

definition under_limit :: "nat \<Rightarrow> int \<Rightarrow> kmem \<Rightarrow> kmem" where
  "under_limit t sz k =
     (if ks_limit (kstats k t) \<le> ks_memuse (kstats k t) + sz \<and> ks_memuse (kstats k t) < ks_limit (kstats k t)
      then kpost [KWakeup t] k else k)"

definition uncharge :: "nat \<Rightarrow> int \<Rightarrow> kmem \<Rightarrow> kmem" where
  "uncharge t sz k =
     upd_stats t (\<lambda>ks. ks\<lparr>ks_inuse := ks_inuse ks - 1\<rparr>)
       (under_limit t sz (upd_stats t (\<lambda>ks. ks\<lparr>ks_memuse := ks_memuse ks - sz\<rparr>) k))"

text \<open>
  The walk that takes the blocks of a page off the list of its bucket.  \<open>cpp\<close> is the place that points
  to the rest of the list: the head, or the link in a block.  \<open>skip_page\<close> is the inner loop.
\<close>

partial_function (option) skip_page :: "(addr \<Rightarrow> bool) \<Rightarrow> (addr \<Rightarrow> addr) \<Rightarrow> addr \<Rightarrow> nat \<Rightarrow> (addr \<times> nat) option" where
  "skip_page inpage m nxt cnt =
     (if inpage (m nxt) then skip_page inpage m (m nxt) ((cnt + 65535) mod 65536) else Some (nxt, cnt))"

partial_function (option) unlink_page :: "(addr \<Rightarrow> bool) \<Rightarrow> addr option \<Rightarrow> addr \<Rightarrow> (addr \<Rightarrow> addr) \<Rightarrow> nat \<Rightarrow> (addr \<times> (addr \<Rightarrow> addr) \<times> nat) option" where
  "unlink_page inpage cpp head m cnt =
     (let nxt = (case cpp of None \<Rightarrow> head | Some c \<Rightarrow> m c) in
      if nxt = 0 then Some (head, m, cnt)
      else if inpage nxt then
        (case skip_page inpage m nxt cnt of
           None \<Rightarrow> None
         | Some (nx, cnt1) \<Rightarrow>
             unlink_page inpage cpp (if cpp = None then m nx else head)
               (case cpp of None \<Rightarrow> m | Some c \<Rightarrow> m(c := m nx)) ((cnt1 + 65535) mod 65536))
      else unlink_page inpage (Some nxt) head m cnt)"

text \<open>The page \<open>p\<close> of bucket \<open>i\<close> is given back, all its blocks being free.\<close>

definition free_page :: "nat \<Rightarrow> nat \<Rightarrow> nat \<Rightarrow> kmem \<Rightarrow> kmem kres option" where
  "free_page i p t k =
     (let sz = 2 ^ i; cnt = ku_cnt (kusage k p); freepage = kuptob p k; freesize = cnt * sz;
          k1 = upd_bucket i (\<lambda>kb. kb\<lparr>kb_total := kb_total kb - int (kb_elmpercl kb), kb_totalfree := kb_totalfree kb - int (kb_elmpercl kb)\<rparr>)
                 (uncharge t (int sz) (upd_usage p (\<lambda>ku. ku\<lparr>ku_indx := 0\<rparr>) k));
          gone = (\<lambda>cnt' h m. kpost [KFree freepage freesize]
                    (upd_usage p (\<lambda>ku. ku\<lparr>ku_cnt := cnt'\<rparr>) (upd_bucket i (\<lambda>kb. kb\<lparr>kb_next := h\<rparr>) (k1\<lparr>kwords := m\<rparr>)))) in
      if cnt - 1 = 0 then Some (Done (gone 0 (kb_next (bucket k1 i)) (kwords k1)))
      else case unlink_page (\<lambda>a. freepage \<le> a \<and> a < freepage + freesize) None (kb_next (bucket k1 i)) (kwords k1) (cnt - 1) of
             None \<Rightarrow> None
           | Some (h, m, left) \<Rightarrow> Some (if left \<noteq> 0 then Panic ''free: missing a bucket'' else Done (gone left h m)))"

text \<open>The low bits that are 0 in the addresses of blocks of a size.\<close>

definition addrmask :: "nat \<Rightarrow> nat" where
  "addrmask i = 2 ^ i - 1"

text \<open>\<open>kend\<close> is the end of the kernel's own image.\<close>

definition free :: "addr \<Rightarrow> addr \<Rightarrow> nat \<Rightarrow> kmem \<Rightarrow> kmem kres option" where
  "free kend addr t k =
     (if addr < kend \<or> addr < kmembase k \<or> kmemlimit k < addr then Some (Panic ''free: outside arena'')
      else
        (case btokup addr k of
           Fault \<Rightarrow> Some Fault
         | Panic m \<Rightarrow> Some (Panic m)
         | Done p \<Rightarrow>
             let i = ku_indx (kusage k p); sz = 2 ^ i;
                 mask = addrmask (if NBPG < sz then BUCKETINDX (of_nat NBPG) else i) in
             if addr AND mask \<noteq> 0 then Some (Panic ''free: unaligned addr'')
             else if MAXALLOCSAVE \<le> sz then
               let n = ku_cnt (kusage k p) * 2 ^ PGSHIFT in
               Some (Done (upd_bucket i (\<lambda>kb. kb\<lparr>kb_total := kb_total kb - 1\<rparr>)
                 (uncharge t (int n) (upd_usage p (\<lambda>ku. ku\<lparr>ku_indx := 0, ku_cnt := 0\<rparr>) (kpost [KFree addr n] k)))))
             else
               let cnt = (ku_cnt (kusage k p) + 1) mod 65536;
                   k1 = upd_usage p (\<lambda>ku. ku\<lparr>ku_cnt := cnt\<rparr>) (upd_bucket i (\<lambda>kb. kb\<lparr>kb_totalfree := kb_totalfree kb + 1\<rparr>) k) in
               if kb_elmpercl (bucket k i) < cnt then Some (Panic ''free: multiple frees'')
               else if cnt = kb_elmpercl (bucket k i) \<and> kb_highwat (bucket k1 i) < kb_totalfree (bucket k1 i) \<and> t \<noteq> M_MBUF
               then free_page i p t k1
               else
                 let k2 = uncharge t (int sz) k1 in
                 Some (Done (upd_bucket i (\<lambda>kb. kb\<lparr>kb_next := addr\<rparr>) (k2\<lparr>kwords := (kwords k2)(addr := kb_next (bucket k2 i))\<rparr>)))))"

section \<open>Initialization\<close>

text \<open>The arena from \<open>base\<close>, \<open>VM_KMEM_SIZE\<close> bytes of \<open>kmem_map\<close>; everything else is 0 at boot.\<close>

definition kmeminit :: "addr \<Rightarrow> (addr \<Rightarrow> addr) \<Rightarrow> kmem" where
  "kmeminit base m =
     (let npg = VM_KMEM_SIZE div NBPG in
      \<lparr>bucket = (\<lambda>i. let elm = (if i < MINBUCKET + 16 then if CLBYTES \<le> 2 ^ i then 1 else CLBYTES div 2 ^ i else 0) in
         \<lparr>kb_next = 0, kb_calls = 0, kb_total = 0, kb_totalfree = 0, kb_elmpercl = elm, kb_highwat = 5 * int elm\<rparr>),
       kstats = (\<lambda>t. \<lparr>ks_inuse = 0, ks_calls = 0, ks_memuse = 0, ks_limblocks = 0, ks_maxused = 0,
         ks_limit = (if t < M_LAST then int (npg * NBPG * 6 div 10) else 0)\<rparr>),
       kusage = (\<lambda>_. \<lparr>ku_indx = 0, ku_cnt = 0\<rparr>), kmembase = base, kmemlimit = base + npg * NBPG, kwords = m, kevents = []\<rparr>)"

end
