(* ===== verification/Malloc_Props.thy ===== *)
theory Malloc_Props
  imports Malloc
begin

unbundle bit_operations_syntax

text \<open>
  The allocator as a whole: histories of allocations and releases, in which \<open>kmem_alloc\<close> hands out
  fresh pages; the invariant that ties the free lists, the page descriptors and the blocks that are in
  use together; and what follows from it: blocks never overlap, releases never panic, no block is lost,
  and every type is charged for exactly what it holds.
\<close>

section \<open>Sizes\<close>

lemmas kmem_consts = NBPG_def PGSHIFT_def CLBYTES_def MINBUCKET_def MINALLOCSIZE_def MAXALLOCSAVE_def VM_KMEM_SIZE_def M_LAST_def

lemma bucket_range: "4 \<le> BUCKETINDX sz" "BUCKETINDX sz \<le> 19"
  by (simp_all add: BUCKETINDX_def kmem_consts Let_def)

lemma bucket_small: "BUCKETINDX sz \<le> 12 \<longleftrightarrow> unat sz \<le> 4096"
  by (simp add: BUCKETINDX_def kmem_consts Let_def)

lemma bucket_holds: "unat sz \<le> 524288 \<Longrightarrow> unat sz \<le> 2 ^ BUCKETINDX sz"
  by (simp add: BUCKETINDX_def kmem_consts Let_def)

lemma bucket_least: "unat sz \<le> 524288 \<Longrightarrow> BUCKETINDX sz = 4 \<or> 2 ^ (BUCKETINDX sz - 1) < unat sz"
  by (simp add: BUCKETINDX_def kmem_consts Let_def)

lemma bucket_13: "4096 < unat sz \<Longrightarrow> unat sz \<le> 8192 \<Longrightarrow> BUCKETINDX sz = 13"
  by (simp add: BUCKETINDX_def kmem_consts Let_def)

lemma pow_le_page: "i \<le> 12 \<Longrightarrow> (2 :: nat) ^ i \<le> 4096"
  using power_increasing [of i 12 "2 :: nat"] by simp

lemma npages_small: "unat sz \<le> 4096 \<Longrightarrow> allocsize sz = 2 ^ BUCKETINDX sz \<and> npages sz = 1"
proof -
  assume s: "unat sz \<le> 4096"
  then have a: "allocsize sz = 2 ^ BUCKETINDX sz" by (simp add: allocsize_def kmem_consts)
  have "BUCKETINDX sz \<in> {4..12}" using s bucket_range(1) bucket_small by simp
  then have "(of_int (2 ^ BUCKETINDX sz) :: u32) \<in> of_int ` ((\<lambda>i. 2 ^ i) ` {4..12})" by (intro imageI)
  moreover have "{4..12} = {4, 5, 6, 7, 8, 9, 10, 11, 12 :: nat}" by auto
  ultimately have "unat (drop_bit 12 (of_int (2 ^ BUCKETINDX sz) + 4095 :: u32)) = 1" by auto
  then show ?thesis using a by (simp add: npages_def kmem_consts)
qed

lemma wrap_less: "a < m \<Longrightarrow> b < m \<Longrightarrow> m \<le> a + b \<Longrightarrow> (a + b) mod m < (b :: nat)"
  by (simp add: le_mod_geq)

lemma npages_large:
  assumes s: "4096 < unat sz" and n: "0 < npages sz" "npages sz \<le> 1024"
  shows "allocsize sz = int (npages sz * 4096) \<and> unat sz \<le> npages sz * 4096 \<and> 13 \<le> BUCKETINDX sz \<and> int MAXALLOCSAVE \<le> allocsize sz"
proof (cases "8192 \<le> unat sz")
  case False
  then have b: "BUCKETINDX sz = 13" using s bucket_13 by simp
  have "allocsize sz = 8192" using False b by (simp add: allocsize_def kmem_consts)
  moreover from this have "npages sz = 2" by (simp add: npages_def kmem_consts)
  ultimately show ?thesis using False b by (simp add: kmem_consts)
next
  case True
  let ?r = "(sz + 4095) div 4096 * 4096 :: u32"
  have al: "allocsize sz = sint ?r" using True by (simp add: allocsize_def kmem_consts)
  have r: "unat ?r = unat (sz + 4095) div 4096 * 4096"
  proof -
    have q: "unat ((sz + 4095) div 4096) = unat (sz + 4095) div 4096" by (simp add: unat_div_distrib)
    have "unat (sz + 4095) div 4096 * 4096 < 4294967296" using unat32_less [of "sz + 4095"] by linarith
    then show ?thesis using q by (simp add: unat_word_ariths)
  qed
  have np: "npages sz = unat (?r + 4095) div 4096"
    by (simp add: npages_def al kmem_consts unat_drop_bit_eq drop_bit_eq_div unat_div_distrib)
  have r4: "unat (?r + 4095) = unat ?r + 4095"
  proof -
    have "unat (sz + 4095) div 4096 < 1048576" using unat32_less [of "sz + 4095"] by (simp add: less_mult_imp_div_less)
    then have "unat (sz + 4095) div 4096 * 4096 + 4095 < 4294967296" by linarith
    then show ?thesis by (simp add: unat32_plus r)
  qed
  have nr: "unat ?r = npages sz * 4096" unfolding np r4 r by simp
  then have "sint ?r = int (npages sz * 4096)" using n by (subst sint32_small) simp_all
  moreover have "unat sz \<le> npages sz * 4096"
  proof -
    have "unat sz + 4095 < 4294967296"
    proof (rule ccontr)
      assume "\<not> ?thesis"
      then have "(unat sz + 4095) mod 4294967296 < 4095" using wrap_less [of "unat sz" 4294967296 4095] by simp
      then have "unat (sz + 4095) < 4095" by (simp add: unat_word_ariths)
      then have "unat ?r = 0" using r by simp
      then show False using nr n by simp
    qed
    then have "unat (sz + 4095) = unat sz + 4095" using unat32_plus [of sz 4095] by simp
    then show ?thesis using nr r by simp
  qed
  moreover have "13 \<le> BUCKETINDX sz" using bucket_small [of sz] s by simp
  ultimately show ?thesis using al True by (simp add: kmem_consts)
qed

lemma bucket_pow: "4096 < unat sz \<Longrightarrow> unat sz < 8192 \<Longrightarrow> allocsize sz = 8192"
  using bucket_13 [of sz] by (simp add: allocsize_def kmem_consts)

lemma round_up:
  assumes "8192 \<le> unat sz" "unat sz \<le> 2147479552"
  shows "allocsize sz = int ((unat sz + 4095) div 4096 * 4096)"
proof -
  let ?r = "(sz + 4095) div 4096 * 4096 :: u32"
  have p: "unat (sz + 4095) = unat sz + 4095" using assms unat32_plus [of sz 4095] by simp
  have b: "(unat sz + 4095) div 4096 * 4096 \<le> 2147479552"
  proof -
    have "(unat sz + 4095) div 4096 \<le> 524287" using assms by linarith
    then show ?thesis by linarith
  qed
  then have "unat ?r = (unat sz + 4095) div 4096 * 4096"
    using p by (simp add: unat_word_ariths unat_div_distrib)
  moreover have "allocsize sz = sint ?r" using assms by (simp add: allocsize_def kmem_consts)
  ultimately show ?thesis using b by (subst (asm) sint32_small) simp_all
qed

lemma npages_int: "allocsize sz = int (n * 4096) \<Longrightarrow> n < 1048576 \<Longrightarrow> npages sz = n"
proof -
  assume a: "allocsize sz = int (n * 4096)" and n: "n < 1048576"
  have "unat (of_nat (n * 4096) :: u32) = n * 4096" using n by (simp add: unat_of_nat del: of_nat_mult)
  moreover from this have "unat (of_nat (n * 4096) + 4095 :: u32) = n * 4096 + 4095" using n unat32_plus [of "of_nat (n * 4096)" 4095] by simp
  ultimately show "npages sz = n"
    by (simp add: npages_def a kmem_consts unat_drop_bit_eq drop_bit_eq_div unat_div_distrib del: of_nat_mult)
qed

text \<open>
  C39: the bucket of a size is the smallest power of two, at least 16, that holds it; a request of at
  most a page takes a block of exactly that power of two, out of one page; a larger one, of up to 2^31
  bytes less a page, takes whole pages, exactly as many as hold it.
\<close>

theorem malloc_sizes:
  "(unat sz \<le> 524288 \<longrightarrow> unat sz \<le> 2 ^ BUCKETINDX sz \<and> (BUCKETINDX sz = 4 \<or> 2 ^ (BUCKETINDX sz - 1) < unat sz)) \<and>
   (unat sz \<le> 4096 \<longrightarrow> allocsize sz = 2 ^ BUCKETINDX sz \<and> npages sz = 1) \<and>
   (4096 < unat sz \<and> unat sz \<le> 2147479552 \<longrightarrow>
     allocsize sz = int (npages sz * 4096) \<and> (npages sz - 1) * 4096 < unat sz \<and> unat sz \<le> npages sz * 4096)"
proof (intro conjI impI)
  assume "unat sz \<le> 524288"
  then show "unat sz \<le> 2 ^ BUCKETINDX sz" "BUCKETINDX sz = 4 \<or> 2 ^ (BUCKETINDX sz - 1) < unat sz"
    by (simp_all only: bucket_holds bucket_least)
next
  assume "unat sz \<le> 4096"
  then show "allocsize sz = 2 ^ BUCKETINDX sz" "npages sz = 1" using npages_small by simp_all
next
  assume s: "4096 < unat sz \<and> unat sz \<le> 2147479552"
  have "allocsize sz = int ((unat sz + 4095) div 4096 * 4096)"
  proof (cases "unat sz < 8192")
    case True
    then have "(unat sz + 4095) div 4096 = 2" using s by linarith
    then show ?thesis using bucket_pow True s by simp
  next
    case False
    then show ?thesis using round_up s by simp
  qed
  moreover from this have "npages sz = (unat sz + 4095) div 4096" using s by (intro npages_int) linarith+
  ultimately show "allocsize sz = int (npages sz * 4096)" "(npages sz - 1) * 4096 < unat sz" "unat sz \<le> npages sz * 4096"
    using s by simp_all linarith+
qed

section \<open>Free lists\<close>

fun fchain :: "(addr \<Rightarrow> addr) \<Rightarrow> addr \<Rightarrow> addr list \<Rightarrow> bool" where
  "fchain m cur [] \<longleftrightarrow> cur = 0"
| "fchain m cur (a # as) \<longleftrightarrow> cur = a \<and> a \<noteq> 0 \<and> fchain m (m a) as"

lemma fchain_cong: "(\<And>a. a \<in> set as \<Longrightarrow> m' a = m a) \<Longrightarrow> fchain m' cur as = fchain m cur as"
  by (induction as arbitrary: cur) simp_all

lemma fchain_upd: "a \<notin> set as \<Longrightarrow> fchain (m(a := b)) cur as = fchain m cur as"
  by (rule fchain_cong) auto

lemma fchain_nonempty: "fchain m cur as \<Longrightarrow> cur \<noteq> 0 \<longleftrightarrow> as \<noteq> []"
  by (cases as) auto

text \<open>The blocks of a new page, from the highest.\<close>

definition blocks :: "addr \<Rightarrow> nat \<Rightarrow> nat \<Rightarrow> addr list" where
  "blocks va s n = map (\<lambda>j. va + j * s) (rev [0..<n])"

lemma blocks_Suc: "blocks va s (Suc n) = (va + n * s) # blocks va s n"
  by (simp add: blocks_def)

lemma blocks_set: "set (blocks va s n) = {va + j * s | j. j < n}"
  by (auto simp: blocks_def image_iff)

lemma blocks_distinct: "0 < s \<Longrightarrow> distinct (blocks va s n)"
  by (simp add: blocks_def distinct_map inj_on_def)

lemma carve_chain:
  assumes "0 < s" "0 < va" "fchain m saved rest" "\<And>a. a \<in> set rest \<Longrightarrow> a < va \<or> va + n * s < a"
  shows "fchain (carve va s saved (va + n * s) m) (va + n * s) (blocks va s (Suc n) @ rest) \<and>
    (\<forall>a. a < va \<or> va + n * s < a \<longrightarrow> carve va s saved (va + n * s) m a = m a)"
  using assms(3,4)
proof (induction n arbitrary: m)
  case 0
  have "va \<notin> set rest" using 0(2) [of va] by auto
  then show ?case using assms(2) 0 by (subst (1 2) carve.simps) (simp add: blocks_def fchain_upd)
next
  case (Suc n)
  let ?cp = "va + Suc n * s"
  have step: "carve va s saved ?cp m = carve va s saved (va + n * s) (m(?cp := va + n * s))"
    using assms(1) by (subst carve.simps) simp
  have out: "a < va \<or> ?cp < a" if "a \<in> set rest" for a using Suc.prems(2) [OF that] .
  then have "?cp \<notin> set rest" using assms(1) by fastforce
  then have "fchain (m(?cp := va + n * s)) saved rest" using Suc.prems(1) by (simp add: fchain_upd)
  moreover have "a < va \<or> va + n * s < a" if "a \<in> set rest" for a using out [OF that] by auto
  ultimately have IH: "fchain (carve va s saved ?cp m) (va + n * s) (blocks va s (Suc n) @ rest)"
    "\<forall>a. a < va \<or> va + n * s < a \<longrightarrow> carve va s saved ?cp m a = (m(?cp := va + n * s)) a"
    using Suc.IH [of "m(?cp := va + n * s)"] unfolding step by blast+
  have "carve va s saved ?cp m ?cp = va + n * s" using IH(2) assms(1) by auto
  then have "fchain (carve va s saved ?cp m) ?cp (?cp # blocks va s (Suc n) @ rest)" using IH(1) assms(2) by simp
  moreover have "\<forall>a. a < va \<or> ?cp < a \<longrightarrow> carve va s saved ?cp m a = m a" using IH(2) assms(1) by auto
  ultimately show ?case by (subst blocks_Suc) simp
qed

text \<open>Taking the blocks of a page off a list.\<close>

definition cell :: "addr option \<Rightarrow> addr \<Rightarrow> (addr \<Rightarrow> addr) \<Rightarrow> addr" where
  "cell cpp head m = (case cpp of None \<Rightarrow> head | Some c \<Rightarrow> m c)"

lemma skip_chain:
  assumes "fchain m nxt (nxt # as)" "inp nxt" "\<not> inp 0" "length (filter inp as) \<le> cnt" "cnt < 65536"
  shows "\<exists>xs ys nx. as = xs @ ys \<and> (\<forall>x \<in> set xs. inp x) \<and> skip_page inp m nxt cnt = Some (nx, cnt - length xs) \<and>
    fchain m (m nx) ys \<and> (ys = [] \<or> \<not> inp (hd ys))"
  using assms
proof (induction as arbitrary: nxt cnt)
  case Nil
  then show ?case by (intro exI [of _ "[]"] exI [of _ nxt]) (simp add: skip_page.simps)
next
  case (Cons b bs)
  have b: "m nxt = b" using Cons.prems(1) by simp
  show ?case
  proof (cases "inp b")
    case True
    have c: "(cnt + 65535) mod 65536 = cnt - 1" "cnt \<noteq> 0" using Cons.prems(4,5) True by (auto simp: mod_if)
    have pre: "fchain m b (b # bs)" "length (filter inp bs) \<le> cnt - 1" "cnt - 1 < 65536" using Cons.prems(1,4,5) True b by simp_all
    from Cons.IH [OF pre(1) True Cons.prems(3) pre(2,3)]
    obtain xs ys nx where x: "bs = xs @ ys" "\<forall>x \<in> set xs. inp x" "skip_page inp m b (cnt - 1) = Some (nx, cnt - 1 - length xs)"
      "fchain m (m nx) ys" "ys = [] \<or> \<not> inp (hd ys)" by blast
    have "skip_page inp m nxt cnt = Some (nx, cnt - length (b # xs))" using x(3) b True c by (subst skip_page.simps) simp
    then show ?thesis using x True by (intro exI [of _ "b # xs"] exI [of _ ys] exI [of _ nx]) simp
  next
    case False
    then have "skip_page inp m nxt cnt = Some (nxt, cnt)" using b by (subst skip_page.simps) simp
    then show ?thesis using Cons.prems(1) False b by (intro exI [of _ "[]"] exI [of _ "b # bs"] exI [of _ nxt]) simp
  qed
qed

lemma unlink_chain:
  assumes "fchain m (cell cpp head m) as" "distinct as" "\<And>c. cpp = Some c \<Longrightarrow> c \<notin> set as" "\<not> inp 0"
    "length (filter inp as) \<le> cnt" "cnt < 65536"
  shows "\<exists>h m'. unlink_page inp cpp head m cnt = Some (h, m', cnt - length (filter inp as)) \<and>
    fchain m' (cell cpp h m') (filter (\<lambda>a. \<not> inp a) as) \<and>
    (\<forall>a. a \<notin> set (filter (\<lambda>a. \<not> inp a) as) \<and> cpp \<noteq> Some a \<longrightarrow> m' a = m a) \<and> (cpp \<noteq> None \<longrightarrow> h = head)"
  using assms
proof (induction "length as" arbitrary: as cpp head m cnt rule: less_induct)
  case less
  show ?case
  proof (cases as)
    case Nil
    then have "unlink_page inp cpp head m cnt = Some (head, m, cnt)" using less.prems(1)
      by (subst unlink_page.simps) (simp add: cell_def)
    then show ?thesis using Nil less.prems(1) by simp
  next
    case (Cons a bs)
    have a: "cell cpp head m = a" "a \<noteq> 0" "fchain m (m a) bs" "a \<notin> set bs" "distinct bs" using less.prems(1,2) Cons by simp_all
    show ?thesis
    proof (cases "inp a")
      case False
      have st: "unlink_page inp cpp head m cnt = unlink_page inp (Some a) head m cnt"
        using a False by (subst unlink_page.simps) (simp add: cell_def)
      obtain h m' where r: "unlink_page inp (Some a) head m cnt = Some (h, m', cnt - length (filter inp bs))"
        "fchain m' (cell (Some a) h m') (filter (\<lambda>a. \<not> inp a) bs)"
        "\<forall>b. b \<notin> set (filter (\<lambda>a. \<not> inp a) bs) \<and> Some a \<noteq> Some b \<longrightarrow> m' b = m b" "h = head"
        using less.hyps [of bs m "Some a" head cnt] Cons a less.prems False by (auto simp: cell_def)
      have "cell cpp h m' = a"
      proof (cases cpp)
        case None
        then show ?thesis using a(1) r(4) by (simp add: cell_def)
      next
        case (Some c)
        then have "c \<notin> set bs" "c \<noteq> a" using less.prems(3) Cons by simp_all
        then have "m' c = m c" using r(3) by simp
        then show ?thesis using Some a(1) by (simp add: cell_def)
      qed
      then show ?thesis using st r a Cons False by (intro exI [of _ h] exI [of _ m']) (auto simp: cell_def)
    next
      case True
      have c: "cnt \<noteq> 0" "length (filter inp bs) \<le> cnt - 1" using less.prems(5) Cons True by auto
      have pre: "fchain m a (a # bs)" "length (filter inp bs) \<le> cnt" using a c by simp_all
      obtain xs ys nx where x: "bs = xs @ ys" "\<forall>x \<in> set xs. inp x" "skip_page inp m a cnt = Some (nx, cnt - length xs)"
        "fchain m (m nx) ys" "ys = [] \<or> \<not> inp (hd ys)"
        using skip_chain [OF pre(1) True less.prems(4) pre(2) less.prems(6)] by blast
      have lx: "length (filter inp bs) = length xs + length (filter inp ys)" using x(1,2) by (simp add: filter_id_conv)
      have left: "(cnt - length xs + 65535) mod 65536 = cnt - 1 - length xs" "length (filter inp ys) \<le> cnt - 1 - length xs"
        using c lx less.prems(6) by (auto simp: mod_if)
      let ?head = "if cpp = None then m nx else head" and ?m = "case cpp of None \<Rightarrow> m | Some c \<Rightarrow> m(c := m nx)"
      have st: "unlink_page inp cpp head m cnt = unlink_page inp cpp ?head ?m (cnt - 1 - length xs)"
        using a True x(3) left(1) by (subst unlink_page.simps) (simp add: cell_def)
      have ch: "fchain ?m (cell cpp ?head ?m) ys"
        using x(1,4) less.prems(3) Cons by (cases cpp) (auto simp: cell_def fchain_upd)
      have pre': "length ys < length as" "distinct ys" "\<And>c. cpp = Some c \<Longrightarrow> c \<notin> set ys" "cnt - 1 - length xs < 65536"
        using Cons x(1) a(5) less.prems(3,6) by auto
      obtain h m' where r: "unlink_page inp cpp ?head ?m (cnt - 1 - length xs) = Some (h, m', cnt - 1 - length xs - length (filter inp ys))"
        "fchain m' (cell cpp h m') (filter (\<lambda>a. \<not> inp a) ys)"
        "\<forall>b. b \<notin> set (filter (\<lambda>a. \<not> inp a) ys) \<and> cpp \<noteq> Some b \<longrightarrow> m' b = ?m b" "cpp \<noteq> None \<longrightarrow> h = ?head"
        using less.hyps [OF pre'(1) ch pre'(2,3) less.prems(4) left(2) pre'(4)] by blast
      have fl: "filter (\<lambda>a. \<not> inp a) as = filter (\<lambda>a. \<not> inp a) ys" using Cons True x(1,2) by (simp add: filter_empty_conv)
      have ln: "cnt - length (filter inp as) = cnt - 1 - length xs - length (filter inp ys)" using Cons True lx by simp
      have "\<forall>b. b \<notin> set (filter (\<lambda>a. \<not> inp a) ys) \<and> cpp \<noteq> Some b \<longrightarrow> m' b = m b" using r(3) by (cases cpp) auto
      then show ?thesis using st r(1,2,4) unfolding fl ln by (intro exI [of _ h] exI [of _ m']) auto
    qed
  qed
qed

section \<open>The invariant\<close>

text \<open>
  \<open>lv\<close> maps the address of each block in use to its size and type, \<open>own\<close> is the set of pages that
  \<open>kmem_alloc\<close> has given, \<open>fl\<close> are the free lists.
\<close>

definition page :: "kmem \<Rightarrow> addr \<Rightarrow> nat" where
  "page k a = (a - kmembase k) div 4096"

definition arena_ok :: "kmem \<Rightarrow> bool" where
  "arena_ok k \<longleftrightarrow> 0 < kmembase k \<and> 4096 dvd kmembase k \<and> kmemlimit k = kmembase k + 4194304 \<and> kmemlimit k < 4294967296 \<and>
     (\<forall>i. 4 \<le> i \<longrightarrow> i \<le> 12 \<longrightarrow> kb_elmpercl (bucket k i) = 4096 div 2 ^ i)"

definition block_in :: "kmem \<Rightarrow> nat set \<Rightarrow> nat \<Rightarrow> addr \<Rightarrow> bool" where
  "block_in k own i a \<longleftrightarrow> 4 \<le> i \<and> i \<le> 12 \<and> kmembase k \<le> a \<and> 2 ^ i dvd a \<and> page k a \<in> own \<and> ku_indx (kusage k (page k a)) = i"

definition large_in :: "kmem \<Rightarrow> nat set \<Rightarrow> addr \<Rightarrow> nat \<Rightarrow> bool" where
  "large_in k own a n \<longleftrightarrow> kmembase k \<le> a \<and> 4096 dvd a \<and> 13 \<le> ku_indx (kusage k (page k a)) \<and> 0 < ku_cnt (kusage k (page k a)) \<and>
     n = ku_cnt (kusage k (page k a)) * 4096 \<and>
     (\<forall>j < ku_cnt (kusage k (page k a)). page k a + j \<in> own \<and> (0 < j \<longrightarrow> ku_indx (kusage k (page k a + j)) = 0))"

definition kmem_inv :: "kmem \<Rightarrow> (addr \<Rightarrow> (nat \<times> nat) option) \<Rightarrow> nat set \<Rightarrow> (nat \<Rightarrow> addr list) \<Rightarrow> bool" where
  "kmem_inv k lv own fl \<longleftrightarrow> arena_ok k \<and> own \<subseteq> {..<1024} \<and> (\<forall>p. p \<notin> own \<longrightarrow> ku_indx (kusage k p) = 0) \<and>
     (\<forall>i. fchain (kwords k) (kb_next (bucket k i)) (fl i) \<and> distinct (fl i) \<and> kb_totalfree (bucket k i) = int (length (fl i))) \<and>
     (\<forall>i. \<forall>a \<in> set (fl i). block_in k own i a) \<and>
     (\<forall>i p. 4 \<le> i \<longrightarrow> i \<le> 12 \<longrightarrow> p \<in> own \<longrightarrow> ku_indx (kusage k p) = i \<longrightarrow> ku_cnt (kusage k p) = length (filter (\<lambda>a. page k a = p) (fl i))) \<and>
     (\<forall>a n t. lv a = Some (n, t) \<longrightarrow> (\<exists>i. n = 2 ^ i \<and> block_in k own i a \<and> a \<notin> set (fl i)) \<or> large_in k own a n) \<and>
     (\<forall>i a. block_in k own i a \<longrightarrow> a \<in> set (fl i) \<or> a \<in> dom lv)"

lemma kmem_invD:
  assumes "kmem_inv k lv own fl"
  shows "arena_ok k" "own \<subseteq> {..<1024}" "p \<notin> own \<Longrightarrow> ku_indx (kusage k p) = 0"
    "fchain (kwords k) (kb_next (bucket k i)) (fl i)" "distinct (fl i)" "kb_totalfree (bucket k i) = int (length (fl i))"
    "a \<in> set (fl i) \<Longrightarrow> block_in k own i a"
    "4 \<le> i \<Longrightarrow> i \<le> 12 \<Longrightarrow> p \<in> own \<Longrightarrow> ku_indx (kusage k p) = i \<Longrightarrow> ku_cnt (kusage k p) = length (filter (\<lambda>a. page k a = p) (fl i))"
    "lv a = Some (n, t) \<Longrightarrow> (\<exists>i. n = 2 ^ i \<and> block_in k own i a \<and> a \<notin> set (fl i)) \<or> large_in k own a n"
    "block_in k own i a \<Longrightarrow> a \<in> set (fl i) \<or> a \<in> dom lv"
  using assms unfolding kmem_inv_def by blast+

lemma page_bounds:
  assumes "kmembase k \<le> a"
  shows "kmembase k + page k a * 4096 \<le> a" "a < kmembase k + (page k a + 1) * 4096"
proof -
  have "a - kmembase k = page k a * 4096 + (a - kmembase k) mod 4096" by (simp add: page_def)
  moreover have "(a - kmembase k) mod 4096 < 4096" by simp
  moreover have "(page k a + 1) * 4096 = page k a * 4096 + 4096" by simp
  ultimately show "kmembase k + page k a * 4096 \<le> a" "a < kmembase k + (page k a + 1) * 4096" using assms by linarith+
qed

lemma page_eq: "kmembase k + p * 4096 \<le> a \<Longrightarrow> a < kmembase k + (p + 1) * 4096 \<Longrightarrow> page k a = p"
  unfolding page_def by (rule div_nat_eqI) simp_all

lemma aligned_gap: "(s :: nat) dvd a \<Longrightarrow> s dvd b \<Longrightarrow> a < b \<Longrightarrow> a + s \<le> b"
  using dvd_imp_le [of s "b - a"] by (simp add: dvd_diff_nat)

lemma pow_dvd_page: "i \<le> 12 \<Longrightarrow> (2 :: nat) ^ i dvd 4096"
  using le_imp_power_dvd [of i 12 "2 :: nat"] by simp

lemma page_aligned: "arena_ok k \<Longrightarrow> i \<le> 12 \<Longrightarrow> 2 ^ i dvd kmembase k + p * 4096"
  using pow_dvd_page [of i] unfolding arena_ok_def by (meson dvd_add dvd_mult dvd_trans)

lemma page_start: "arena_ok k \<Longrightarrow> kmembase k \<le> a \<Longrightarrow> 4096 dvd a \<Longrightarrow> a = kmembase k + page k a * 4096"
  unfolding arena_ok_def page_def by (metis add_diff_inverse_nat dvd_diff_nat dvd_div_mult_self not_le)

lemma block_end:
  assumes "arena_ok k" "block_in k own i a"
  shows "a + 2 ^ i \<le> kmembase k + (page k a + 1) * 4096"
  using assms page_bounds(2) [of k a] page_aligned [OF assms(1), of i "page k a + 1"]
  by (intro aligned_gap) (auto simp: block_in_def)

lemma block_disj:
  assumes "arena_ok k" "block_in k own i a" "block_in k own j b" "a < b"
  shows "a + 2 ^ i \<le> b"
proof (cases "page k a = page k b")
  case True
  then show ?thesis using assms by (intro aligned_gap) (auto simp: block_in_def)
next
  case False
  have ab: "kmembase k \<le> a" "kmembase k \<le> b" using assms by (simp_all add: block_in_def)
  have "page k a \<le> page k b" unfolding page_def using assms(4) by (intro div_le_mono) simp
  then have "(page k a + 1) * 4096 \<le> page k b * 4096" using False by (intro mult_right_mono) simp_all
  then show ?thesis using block_end [OF assms(1,2)] page_bounds(1) [OF ab(2)] by linarith
qed

lemma large_block_disj:
  assumes ok: "arena_ok k" and l: "large_in k own a n" and b: "block_in k own i b"
  shows "a + n \<le> b \<or> b + 2 ^ i \<le> a"
proof -
  let ?c = "ku_cnt (kusage k (page k a))"
  have a: "a = kmembase k + page k a * 4096" using l by (intro page_start [OF ok]) (simp_all add: large_in_def)
  have n: "n = ?c * 4096" using l by (simp add: large_in_def)
  have "page k b < page k a \<or> page k a + ?c \<le> page k b"
  proof (rule ccontr)
    assume "\<not> ?thesis"
    then have j: "page k b = page k a + (page k b - page k a)" "page k b - page k a < ?c" by auto
    then have "ku_indx (kusage k (page k b)) = 0 \<or> 13 \<le> ku_indx (kusage k (page k b))"
      using l unfolding large_in_def by (metis add.right_neutral gr0I)
    then show False using b by (auto simp: block_in_def)
  qed
  then show ?thesis
  proof
    assume "page k b < page k a"
    then have "(page k b + 1) * 4096 \<le> page k a * 4096" by (intro mult_right_mono) simp_all
    then show ?thesis using block_end [OF ok b] a by linarith
  next
    assume "page k a + ?c \<le> page k b"
    then have "(page k a + ?c) * 4096 \<le> page k b * 4096" by (intro mult_right_mono) simp_all
    then show ?thesis using page_bounds(1) [of k b] b a n by (simp add: block_in_def algebra_simps)
  qed
qed

lemma large_disj:
  assumes ok: "arena_ok k" and l: "large_in k own a n" and m: "large_in k own b m" and ab: "a < b"
  shows "a + n \<le> b"
proof -
  let ?c = "ku_cnt (kusage k (page k a))"
  have a: "a = kmembase k + page k a * 4096" using l by (intro page_start [OF ok]) (simp_all add: large_in_def)
  have b: "b = kmembase k + page k b * 4096" using m by (intro page_start [OF ok]) (simp_all add: large_in_def)
  have lt: "page k a < page k b" using a b ab by linarith
  have "page k a + ?c \<le> page k b"
  proof (rule ccontr)
    assume ng: "\<not> ?thesis"
    obtain j where j: "0 < j" "page k a + j = page k b" using less_imp_add_positive [OF lt] by blast
    have jc: "j < ?c" using ng j(2) by simp
    have "\<forall>j < ?c. 0 < j \<longrightarrow> ku_indx (kusage k (page k a + j)) = 0" using l unfolding large_in_def by blast
    then have "ku_indx (kusage k (page k a + j)) = 0" using j(1) jc by blast
    then have "ku_indx (kusage k (page k b)) = 0" by (simp only: j(2))
    then show False using m by (simp add: large_in_def)
  qed
  then have "(page k a + ?c) * 4096 \<le> page k b * 4096" by (intro mult_right_mono) simp_all
  then show ?thesis using l a b by (simp add: large_in_def algebra_simps)
qed

lemma live_disjoint:
  assumes inv: "kmem_inv k lv own fl" and a: "lv a = Some (n, t)" and b: "lv b = Some (m, u)" and ab: "a < b"
  shows "a + n \<le> b"
proof -
  note ok = kmem_invD(1) [OF inv]
  have "(\<exists>i. n = 2 ^ i \<and> block_in k own i a) \<or> large_in k own a n" "(\<exists>i. m = 2 ^ i \<and> block_in k own i b) \<or> large_in k own b m"
    using kmem_invD(9) [OF inv a] kmem_invD(9) [OF inv b] by blast+
  moreover have "a + n \<le> b" if "n = 2 ^ i" "block_in k own i a" "large_in k own b m" for i
  proof -
    have "0 < m" using that(3) by (simp add: large_in_def)
    then show ?thesis using large_block_disj [OF ok that(3,2)] that(1) ab by linarith
  qed
  moreover have "a + n \<le> b" if "large_in k own a n" "block_in k own j b" for j
  proof -
    have "(0 :: nat) < 2 ^ j" by simp
    then show ?thesis using large_block_disj [OF ok that] ab by linarith
  qed
  ultimately show ?thesis using block_disj [OF ok _ _ ab] large_disj [OF ok _ _ ab] by blast
qed

lemma live_in_arena:
  assumes inv: "kmem_inv k lv own fl" and a: "lv a = Some (n, t)"
  shows "kmembase k \<le> a" "a + n \<le> kmemlimit k"
proof -
  note ok = kmem_invD(1) [OF inv] and own = kmem_invD(2) [OF inv]
  show "kmembase k \<le> a" using kmem_invD(9) [OF inv a] by (auto simp: block_in_def large_in_def)
  have lim: "kmemlimit k = kmembase k + 4194304" using ok by (simp add: arena_ok_def)
  from kmem_invD(9) [OF inv a] show "a + n \<le> kmemlimit k"
  proof
    assume "\<exists>i. n = 2 ^ i \<and> block_in k own i a \<and> a \<notin> set (fl i)"
    then obtain i where i: "n = 2 ^ i" "block_in k own i a" by blast
    then have "page k a < 1024" using own by (auto simp: block_in_def)
    then have "(page k a + 1) * 4096 \<le> 1024 * 4096" by (intro mult_right_mono) simp_all
    then show ?thesis using block_end [OF ok i(2)] i(1) lim by simp
  next
    assume l: "large_in k own a n"
    let ?c = "ku_cnt (kusage k (page k a))"
    have a: "a = kmembase k + page k a * 4096" using l by (intro page_start [OF ok]) (simp_all add: large_in_def)
    have c: "0 < ?c" using l by (simp add: large_in_def)
    then have "?c - 1 < ?c" by simp
    then have "page k a + (?c - 1) \<in> own" using l unfolding large_in_def by blast
    then have "page k a + (?c - 1) < 1024" using own by auto
    then have "(page k a + ?c) * 4096 \<le> 1024 * 4096" using c by (intro mult_right_mono) simp_all
    then show ?thesis using l a lim by (simp add: large_in_def algebra_simps)
  qed
qed

section \<open>Allocation keeps the invariant\<close>

lemmas kmem_upds = upd_bucket_def upd_stats_def upd_usage_def kpost_def

text \<open>A step charges \<open>n\<close> bytes and \<open>c\<close> blocks to the type \<open>t\<close>.\<close>

definition charges :: "nat \<Rightarrow> int \<Rightarrow> int \<Rightarrow> kmem \<Rightarrow> kmem \<Rightarrow> bool" where
  "charges t n c k k' \<longleftrightarrow> (\<forall>u. ks_memuse (kstats k' u) = ks_memuse (kstats k u) + (if u = t then n else 0) \<and>
     ks_inuse (kstats k' u) = ks_inuse (kstats k u) + (if u = t then c else 0))"

lemma btokup_page: "arena_ok k \<Longrightarrow> kmembase k \<le> a \<Longrightarrow> page k a < 1024 \<Longrightarrow> btokup a k = Done (page k a)"
  by (simp add: btokup_def arena_ok_def page_def kmem_consts)

lemma malloc_rest:
  "kmembase (malloc_zero sz fg va (malloc_out i t k)) = kmembase k" "kmemlimit (malloc_zero sz fg va (malloc_out i t k)) = kmemlimit k"
  "kusage (malloc_zero sz fg va (malloc_out i t k)) = kusage k" "kevents (malloc_zero sz fg va (malloc_out i t k)) = kevents k"
  "kb_next (bucket (malloc_zero sz fg va (malloc_out i t k)) j) = kb_next (bucket k j)"
  "kb_totalfree (bucket (malloc_zero sz fg va (malloc_out i t k)) j) = kb_totalfree (bucket k j)"
  "kb_elmpercl (bucket (malloc_zero sz fg va (malloc_out i t k)) j) = kb_elmpercl (bucket k j)"
  "a < va \<or> va + unat sz \<le> a \<Longrightarrow> kwords (malloc_zero sz fg va (malloc_out i t k)) a = kwords k a"
  "charges t 0 1 k (malloc_zero sz fg va (malloc_out i t k))"
  by (auto simp: malloc_zero_def malloc_out_def kmem_upds charges_def)

lemma block_in_cong:
  assumes "kmembase k' = kmembase k" "\<And>p. ku_indx (kusage k' p) = ku_indx (kusage k p)"
  shows "page k' = page k" "block_in k' own i a = block_in k own i a"
  using assms by (simp_all add: fun_eq_iff page_def block_in_def)

lemma large_in_cong:
  assumes "kmembase k' = kmembase k" "\<And>p. ku_indx (kusage k' p) = ku_indx (kusage k p)"
    "\<And>p. 13 \<le> ku_indx (kusage k p) \<Longrightarrow> ku_cnt (kusage k' p) = ku_cnt (kusage k p)"
  shows "large_in k' own a n = large_in k own a n"
  using assms(2,3) block_in_cong(1) [of k' k, OF assms(1,2)] unfolding large_in_def assms(1) by auto

lemma arena_ok_cong:
  "kmembase k' = kmembase k \<Longrightarrow> kmemlimit k' = kmemlimit k \<Longrightarrow> (\<And>i. kb_elmpercl (bucket k' i) = kb_elmpercl (bucket k i)) \<Longrightarrow>
    arena_ok k' = arena_ok k"
  by (simp add: arena_ok_def)

lemma take_inv:
  assumes inv: "kmem_inv k lv own fl" and f: "fl (BUCKETINDX sz) = va # rest"
  shows "\<exists>k'. malloc_take sz t fg k = Done (MGot va k') \<and> kmem_inv k' (lv(va \<mapsto> (2 ^ BUCKETINDX sz, t))) own (fl(BUCKETINDX sz := rest)) \<and>
    lv va = None \<and> unat sz \<le> 2 ^ BUCKETINDX sz \<and> charges t (2 ^ BUCKETINDX sz) 1 k k' \<and> kevents k' = kevents k"
proof -
  let ?i = "BUCKETINDX sz"
  note ok = kmem_invD(1) [OF inv]
  have va: "block_in k own ?i va" using kmem_invD(7) [OF inv, of va ?i] f by simp
  then have i: "4 \<le> ?i" "?i \<le> 12" "page k va \<in> own" "kmembase k \<le> va" "ku_indx (kusage k (page k va)) = ?i" by (simp_all add: block_in_def)
  then have p: "page k va < 1024" using kmem_invD(2) [OF inv] by auto
  have "unat sz \<le> 4096" using bucket_small i(2) by blast
  then have sz: "unat sz \<le> 2 ^ ?i" by (intro bucket_holds) simp
  have ch: "kb_next (bucket k ?i) = va" "va \<noteq> 0" "fchain (kwords k) (kwords k va) rest" using kmem_invD(4) [OF inv, of ?i] f by auto
  have cnt: "ku_cnt (kusage k (page k va)) = Suc (length (filter (\<lambda>a. page k a = page k va) rest))"
    using kmem_invD(8) [OF inv i(1,2,3,5)] f by simp
  define k2 where "k2 = upd_stats t (\<lambda>ks. ks\<lparr>ks_memuse := ks_memuse ks + 2 ^ ?i\<rparr>)
      (upd_usage (page k va) (\<lambda>ku. ku\<lparr>ku_cnt := ku_cnt ku - 1\<rparr>)
      (upd_bucket ?i (\<lambda>kb. kb\<lparr>kb_next := kwords k va, kb_totalfree := kb_totalfree kb - 1\<rparr>) k))"
  let ?k = "malloc_zero sz fg va (malloc_out ?i t k2)"
  have run: "malloc_take sz t fg k = Done (MGot va ?k)"
    using btokup_page [OF ok i(4) p] i(5) cnt ch by (simp add: malloc_take_def k2_def Let_def)
  have base: "kmembase ?k = kmembase k" "kmemlimit ?k = kmemlimit k" by (simp_all add: malloc_rest k2_def kmem_upds)
  have elm: "kb_elmpercl (bucket ?k j) = kb_elmpercl (bucket k j)" for j by (simp add: malloc_rest k2_def kmem_upds)
  have us: "ku_indx (kusage ?k q) = ku_indx (kusage k q)"
    "ku_cnt (kusage ?k q) = ku_cnt (kusage k q) - (if q = page k va then 1 else 0)" for q by (simp_all add: malloc_rest k2_def kmem_upds)
  have bk: "kb_next (bucket ?k j) = (if j = ?i then kwords k va else kb_next (bucket k j))"
    "kb_totalfree (bucket ?k j) = kb_totalfree (bucket k j) - (if j = ?i then 1 else 0)" for j by (simp_all add: malloc_rest k2_def kmem_upds)
  have kw: "kwords ?k a = kwords k a" if "a \<in> set (fl j)" "a \<noteq> va" for a j
  proof -
    have a: "block_in k own j a" by (rule kmem_invD(7) [OF inv that(1)])
    have "a < va \<or> va + 2 ^ ?i \<le> a" using block_disj [OF ok va a] that(2) by (meson not_less_iff_gr_or_eq)
    then have "a < va \<or> va + unat sz \<le> a" using sz by linarith
    then show ?thesis by (simp add: malloc_rest k2_def kmem_upds)
  qed
  note bi = block_in_cong [OF base(1) us(1)]
  have li: "large_in ?k own a n = large_in k own a n" for a n
    by (rule large_in_cong [OF base(1) us(1)]) (use us(2) i in auto)
  have dist: "distinct (va # rest)" using kmem_invD(5) [OF inv, of ?i] f by simp
  have other: "va \<notin> set (fl j)" if "j \<noteq> ?i" for j using kmem_invD(7) [OF inv, of va j] that i(5) by (auto simp: block_in_def)
  have none: "lv va = None"
  proof (rule ccontr)
    assume "lv va \<noteq> None"
    then obtain n u where "lv va = Some (n, u)" by auto
    from kmem_invD(9) [OF inv this] show False
      using f i by (auto simp: block_in_def large_in_def)
  qed
  have "kmem_inv ?k (lv(va \<mapsto> (2 ^ ?i, t))) own (fl(?i := rest))"
    unfolding kmem_inv_def
  proof (intro conjI allI impI ballI)
    show "arena_ok ?k" using ok arena_ok_cong [OF base elm] by blast
    show "own \<subseteq> {..<1024}" by (rule kmem_invD(2) [OF inv])
    show "ku_indx (kusage ?k q) = 0" if "q \<notin> own" for q using kmem_invD(3) [OF inv that] us by simp
    show "fchain (kwords ?k) (kb_next (bucket ?k j)) ((fl(?i := rest)) j)" for j
    proof (cases "j = ?i")
      case True
      have "fchain (kwords ?k) (kwords k va) rest = fchain (kwords k) (kwords k va) rest"
        by (rule fchain_cong) (use kw [of _ ?i] f dist in auto)
      then show ?thesis using True ch bk by simp
    next
      case False
      have "fchain (kwords ?k) (kb_next (bucket k j)) (fl j) = fchain (kwords k) (kb_next (bucket k j)) (fl j)"
      proof (rule fchain_cong)
        show "kwords ?k a = kwords k a" if "a \<in> set (fl j)" for a
        proof (rule kw [OF that])
          show "a \<noteq> va" using that other [OF False] by blast
        qed
      qed
      then show ?thesis using False kmem_invD(4) [OF inv] bk by simp
    qed
    show "distinct ((fl(?i := rest)) j)" for j using dist kmem_invD(5) [OF inv] by simp
    show "kb_totalfree (bucket ?k j) = int (length ((fl(?i := rest)) j))" for j
      using kmem_invD(6) [OF inv, of j] f bk by simp
    show "block_in ?k own j a" if "a \<in> set ((fl(?i := rest)) j)" for j a
      using that kmem_invD(7) [OF inv, of a j] f bi by (auto split: if_splits)
    show "ku_cnt (kusage ?k q) = length (filter (\<lambda>a. page ?k a = q) ((fl(?i := rest)) j))"
      if "4 \<le> j" "j \<le> 12" "q \<in> own" "ku_indx (kusage ?k q) = j" for j q
      using kmem_invD(8) [OF inv that(1-3)] that(4) us [of q] f bi cnt i(5) by (cases "j = ?i") (auto simp: us)
    show "(\<exists>j. n = 2 ^ j \<and> block_in ?k own j a \<and> a \<notin> set ((fl(?i := rest)) j)) \<or> large_in ?k own a n"
      if "(lv(va \<mapsto> (2 ^ ?i, t))) a = Some (n, u)" for a n u
    proof (cases "a = va")
      case True
      then show ?thesis using that va dist bi by auto
    next
      case False
      then have "lv a = Some (n, u)" using that by simp
      from kmem_invD(9) [OF inv this] show ?thesis
        using f bi li by (auto split: if_splits)
    qed
    show "a \<in> set ((fl(?i := rest)) j) \<or> a \<in> dom (lv(va \<mapsto> (2 ^ ?i, t)))" if "block_in ?k own j a" for j a
      using kmem_invD(10) [OF inv, of j a] that bi f by (cases "a = va") auto
  qed
  moreover have "charges t (2 ^ ?i) 1 k ?k"
    using malloc_rest(9) [of t k2 sz fg va ?i] by (simp add: charges_def k2_def kmem_upds)
  ultimately show ?thesis using run none sz by (simp add: malloc_rest k2_def kmem_upds)
qed

text \<open>\<open>kmem_alloc\<close> gives \<open>n\<close> pages from \<open>va\<close> that are in the arena and not in use.\<close>

definition pages_fresh :: "kmem \<Rightarrow> nat set \<Rightarrow> addr \<Rightarrow> nat \<Rightarrow> bool" where
  "pages_fresh k own va n \<longleftrightarrow> kmembase k \<le> va \<and> 4096 dvd va \<and> 0 < n \<and> (\<forall>j < n. page k va + j \<notin> own \<and> page k va + j < 1024)"

lemma blocks_page:
  assumes ok: "arena_ok k" and va: "kmembase k \<le> va" "4096 dvd va" and i: "i \<le> 12"
  shows "a \<in> set (blocks va (2 ^ i) (4096 div 2 ^ i)) \<longleftrightarrow> kmembase k \<le> a \<and> page k a = page k va \<and> 2 ^ i dvd a"
proof -
  let ?n = "4096 div 2 ^ i"
  have n: "?n * 2 ^ i = (4096 :: nat)" using pow_dvd_page [OF i] by simp
  have v: "va = kmembase k + page k va * 4096" by (rule page_start [OF ok va])
  have dv: "2 ^ i dvd va" using pow_dvd_page [OF i] va(2) by (rule dvd_trans)
  show ?thesis
  proof
    assume "a \<in> set (blocks va (2 ^ i) ?n)"
    then obtain j where j: "a = va + j * 2 ^ i" "j < ?n" by (auto simp: blocks_set)
    then have "(j + 1) * 2 ^ i \<le> ?n * 2 ^ i" by (intro mult_right_mono) simp_all
    then have "j * 2 ^ i + 2 ^ i \<le> 4096" using n by simp
    moreover have "(0 :: nat) < 2 ^ i" by simp
    ultimately have "a < va + 4096" using j(1) by linarith
    then have "page k a = page k va" using v j(1) by (intro page_eq) simp_all
    then show "kmembase k \<le> a \<and> page k a = page k va \<and> 2 ^ i dvd a" using va(1) dv j(1) by simp
  next
    assume a: "kmembase k \<le> a \<and> page k a = page k va \<and> 2 ^ i dvd a"
    then have b: "va \<le> a" "a < va + 4096" using page_bounds [of k a] v by auto
    have "2 ^ i dvd a - va" using a dv by (simp add: dvd_diff_nat)
    then obtain j where j: "a - va = 2 ^ i * j" by blast
    then have "j * 2 ^ i < ?n * 2 ^ i" using b n by (simp add: mult.commute)
    then have "j < ?n" by simp
    moreover have "a = va + j * 2 ^ i" using j b(1) by (simp add: mult.commute)
    ultimately show "a \<in> set (blocks va (2 ^ i) ?n)" unfolding blocks_set by blast
  qed
qed

lemma carve_inv:
  assumes inv: "kmem_inv k lv own fl" and i: "4 \<le> i" "i \<le> 12" and va: "kmembase k \<le> va" "4096 dvd va"
    and p: "page k va \<notin> own" "page k va < 1024"
    and k': "kmembase k' = kmembase k" "kmemlimit k' = kmemlimit k" "\<And>j. kb_elmpercl (bucket k' j) = kb_elmpercl (bucket k j)"
      "\<And>j. kb_totalfree (bucket k' j) = kb_totalfree (bucket k j) + (if j = i then int (4096 div 2 ^ i) else 0)"
      "\<And>j. kb_next (bucket k' j) = (if j = i then va + (4096 div 2 ^ i - 1) * 2 ^ i else kb_next (bucket k j))"
      "\<And>q. kusage k' q = (if q = page k va then \<lparr>ku_indx = i, ku_cnt = 4096 div 2 ^ i\<rparr> else kusage k q)"
      "kwords k' = carve va (2 ^ i) (kb_next (bucket k i)) (va + (4096 div 2 ^ i - 1) * 2 ^ i) (kwords k)"
  shows "kmem_inv k' lv (insert (page k va) own) (fl(i := blocks va (2 ^ i) (4096 div 2 ^ i) @ fl i))"
proof -
  let ?n = "4096 div 2 ^ i :: nat" and ?bs = "blocks va (2 ^ i) (4096 div 2 ^ i)" and ?own = "insert (page k va) own"
  note ok = kmem_invD(1) [OF inv]
  have "?n * 2 ^ i = (4096 :: nat)" using pow_dvd_page [OF i(2)] by simp
  then obtain m where m: "?n = Suc m" by (cases ?n) auto
  have v0: "0 < va" using va(1) ok by (simp add: arena_ok_def)
  have pg: "page k' = page k" using k'(1) by (simp add: fun_eq_iff page_def)
  note mem = blocks_page [OF ok va i(2)]
  have out: "a \<notin> set ?bs \<and> page k a \<noteq> page k va \<and> (a < va \<or> va + m * 2 ^ i < a)" if "block_in k own j a" for j a
  proof -
    have q: "page k a \<noteq> page k va" using that p(1) by (auto simp: block_in_def)
    have "page k a = page k va" if "va \<le> a" "a \<le> va + m * 2 ^ i"
    proof -
      have "m * 2 ^ i + 2 ^ i = 4096" using \<open>?n * 2 ^ i = 4096\<close> m by (simp add: algebra_simps)
      moreover have "(0 :: nat) < 2 ^ i" by simp
      ultimately have "a < va + 4096" using that(2) by linarith
      then show ?thesis using page_start [OF ok va] that(1) by (intro page_eq) simp_all
    qed
    then show ?thesis using q mem by (meson not_le)
  qed
  have top: "m = ?n - 1" using m by simp
  have cv: "fchain (kwords k') (va + m * 2 ^ i) (?bs @ fl i)" "\<forall>a. a < va \<or> va + m * 2 ^ i < a \<longrightarrow> kwords k' a = kwords k a"
  proof -
    have "(0 :: nat) < 2 ^ i" by simp
    moreover have "a < va \<or> va + m * 2 ^ i < a" if "a \<in> set (fl i)" for a using out [OF kmem_invD(7) [OF inv that]] by blast
    ultimately have "fchain (carve va (2 ^ i) (kb_next (bucket k i)) (va + m * 2 ^ i) (kwords k)) (va + m * 2 ^ i) (blocks va (2 ^ i) (Suc m) @ fl i) \<and>
      (\<forall>a. a < va \<or> va + m * 2 ^ i < a \<longrightarrow> carve va (2 ^ i) (kb_next (bucket k i)) (va + m * 2 ^ i) (kwords k) a = kwords k a)"
      using v0 kmem_invD(4) [OF inv] by (intro carve_chain)
    moreover have "kwords k' = carve va (2 ^ i) (kb_next (bucket k i)) (va + m * 2 ^ i) (kwords k)" using k'(7) top by simp
    ultimately show "fchain (kwords k') (va + m * 2 ^ i) (?bs @ fl i)" "\<forall>a. a < va \<or> va + m * 2 ^ i < a \<longrightarrow> kwords k' a = kwords k a"
      using m by simp_all
  qed
  have bi: "block_in k' ?own j a \<longleftrightarrow> block_in k own j a \<or> j = i \<and> a \<in> set ?bs" for j a
    unfolding mem using i p(1) by (auto simp: block_in_def pg k'(1,6))
  have li: "large_in k' ?own a n" if "large_in k own a n" for a n
  proof -
    have "page k a + j \<noteq> page k va" if "j < ku_cnt (kusage k (page k a))" for j
      using \<open>large_in k own a n\<close> that p(1) unfolding large_in_def by metis
    moreover from this [of 0] have "page k a \<noteq> page k va" using \<open>large_in k own a n\<close> by (simp add: large_in_def)
    ultimately show ?thesis using \<open>large_in k own a n\<close> unfolding large_in_def pg k'(1) by (simp add: k'(6))
  qed
  have nin: "a \<notin> set (fl j)" if "a \<in> set ?bs" for a j using out kmem_invD(7) [OF inv] that by blast
  show ?thesis
    unfolding kmem_inv_def
  proof (intro conjI allI impI ballI)
    show "arena_ok k'" using ok arena_ok_cong [OF k'(1-3)] by blast
    show "?own \<subseteq> {..<1024}" using p(2) kmem_invD(2) [OF inv] by simp
    show "ku_indx (kusage k' q) = 0" if "q \<notin> ?own" for q using kmem_invD(3) [OF inv, of q] that by (simp add: k'(6))
    show "fchain (kwords k') (kb_next (bucket k' j)) ((fl(i := ?bs @ fl i)) j)" for j
    proof (cases "j = i")
      case True
      then show ?thesis using cv(1) k'(5) top by simp
    next
      case False
      have "fchain (kwords k') (kb_next (bucket k j)) (fl j) = fchain (kwords k) (kb_next (bucket k j)) (fl j)"
        by (rule fchain_cong) (use cv(2) out kmem_invD(7) [OF inv, of _ j] in blast)
      then show ?thesis using False kmem_invD(4) [OF inv] k'(5) by simp
    qed
    show "distinct ((fl(i := ?bs @ fl i)) j)" for j
      using kmem_invD(5) [OF inv] blocks_distinct [of "2 ^ i" va ?n] nin by auto
    show "kb_totalfree (bucket k' j) = int (length ((fl(i := ?bs @ fl i)) j))" for j
      using kmem_invD(6) [OF inv, of j] k'(4) by (simp add: blocks_def)
    show "block_in k' ?own j a" if "a \<in> set ((fl(i := ?bs @ fl i)) j)" for j a
      using that kmem_invD(7) [OF inv, of a j] by (auto simp: bi split: if_splits)
    show "ku_cnt (kusage k' q) = length (filter (\<lambda>a. page k' a = q) ((fl(i := ?bs @ fl i)) j))"
      if j: "4 \<le> j" "j \<le> 12" and q: "q \<in> ?own" "ku_indx (kusage k' q) = j" for j q
    proof (cases "q = page k va")
      case True
      then have ji: "j = i" using q(2) by (simp add: k'(6))
      have "page k a \<noteq> q" if "a \<in> set (fl i)" for a using out [OF kmem_invD(7) [OF inv that]] True by blast
      then have "filter (\<lambda>a. page k a = q) (fl i) = []" by (simp add: filter_empty_conv)
      moreover have "filter (\<lambda>a. page k a = q) ?bs = ?bs" using True mem by (simp add: filter_id_conv)
      ultimately show ?thesis using True ji by (simp add: pg k'(6) blocks_def)
    next
      case False
      have "filter (\<lambda>a. page k a = q) ?bs = []" using False mem by (auto simp: filter_empty_conv)
      then show ?thesis using kmem_invD(8) [OF inv j] q False by (auto simp: pg k'(6))
    qed
    show "(\<exists>j. n = 2 ^ j \<and> block_in k' ?own j a \<and> a \<notin> set ((fl(i := ?bs @ fl i)) j)) \<or> large_in k' ?own a n"
      if "lv a = Some (n, u)" for a n u
      using kmem_invD(9) [OF inv that]
    proof
      assume "\<exists>j. n = 2 ^ j \<and> block_in k own j a \<and> a \<notin> set (fl j)"
      then obtain j where "n = 2 ^ j" "block_in k own j a" "a \<notin> set (fl j)" by blast
      then show ?thesis using out [of j a] by (intro disjI1 exI [of _ j]) (auto simp: bi)
    next
      assume "large_in k own a n"
      then show ?thesis using li by blast
    qed
    show "a \<in> set ((fl(i := ?bs @ fl i)) j) \<or> a \<in> dom lv" if "block_in k' ?own j a" for j a
      using that kmem_invD(10) [OF inv, of j a] by (auto simp: bi)
  qed
qed

lemma dead_page:
  assumes "kmem_inv k lv own fl" "page k a \<notin> own"
  shows "lv a = None"
proof (cases "lv a")
  case (Some nt)
  then obtain n t where "lv a = Some (n, t)" by (cases nt) auto
  from kmem_invD(9) [OF assms(1) this] show ?thesis using assms(2) unfolding block_in_def large_in_def by (metis add.right_neutral)
qed

lemma pages_small:
  assumes inv: "kmem_inv k lv own fl" and sz: "unat sz \<le> 4096" and fr: "pages_fresh k own va (npages sz)"
  shows "\<exists>r k' fl'. malloc_pages sz t fg (Some va) k = Done (MGot r k') \<and>
    kmem_inv k' (lv(r \<mapsto> (2 ^ BUCKETINDX sz, t))) (own \<union> {page k va..<page k va + npages sz}) fl' \<and> lv r = None \<and>
    unat sz \<le> 2 ^ BUCKETINDX sz \<and> charges t (2 ^ BUCKETINDX sz) 1 k k' \<and> kevents k' = kevents k"
proof -
  let ?i = "BUCKETINDX sz" and ?n = "4096 div 2 ^ BUCKETINDX sz :: nat"
  note ok = kmem_invD(1) [OF inv]
  have i: "4 \<le> ?i" "?i \<le> 12" using sz bucket_range(1) bucket_small by simp_all
  have al: "allocsize sz = int (2 ^ ?i)" "npages sz = 1" using npages_small [OF sz] by simp_all
  have va: "kmembase k \<le> va" "4096 dvd va" "page k va \<notin> own" "page k va < 1024" using fr al(2) by (auto simp: pages_fresh_def)
  have elm: "kb_elmpercl (bucket k ?i) = ?n" using ok i by (simp add: arena_ok_def)
  have pw: "(2 :: nat) ^ ?i \<le> 4096" by (rule pow_le_page [OF i(2)])
  have n: "?n * 2 ^ ?i = 4096" using pow_dvd_page [OF i(2)] by simp
  let ?top = "va + (?n - 1) * 2 ^ ?i"
  have top: "nat ((int va + int (npages sz * NBPG) - allocsize sz) mod 2 ^ 32) = ?top"
  proof -
    have e: "?top = va + 4096 - 2 ^ ?i" using n pw by (simp add: diff_mult_distrib)
    have l: "va + 4096 < 4294967296"
      using page_start [OF ok va(1,2)] va(4) ok by (simp add: arena_ok_def)
    have "int va + int (npages sz * NBPG) - allocsize sz = int (va + 4096 - 2 ^ ?i)" using al pw by (simp add: kmem_consts of_nat_diff)
    moreover have "int (va + 4096 - 2 ^ ?i) mod 2 ^ 32 = int (va + 4096 - 2 ^ ?i)" using l by (intro mod_pos_pos_trivial) simp_all
    ultimately have "(int va + int (npages sz * NBPG) - allocsize sz) mod 2 ^ 32 = int (va + 4096 - 2 ^ ?i)" by (simp only:)
    then show ?thesis unfolding e by (simp only: nat_int)
  qed
  have nl: "\<not> int MAXALLOCSAVE \<le> allocsize sz" using al(1) pw by (simp add: kmem_consts del: of_nat_power)
  define k2 where "k2 = (upd_usage (page k va) (\<lambda>ku. ku\<lparr>ku_cnt := ?n\<rparr>)
    (upd_bucket ?i (\<lambda>kb. kb\<lparr>kb_totalfree := kb_totalfree kb + int ?n, kb_next := ?top\<rparr>)
    (upd_usage (page k va) (\<lambda>ku. ku\<lparr>ku_indx := ?i\<rparr>) (upd_bucket ?i (\<lambda>kb. kb\<lparr>kb_total := kb_total kb + int ?n\<rparr>) k))))
    \<lparr>kwords := carve va (2 ^ ?i) (kb_next (bucket k ?i)) ?top (kwords k)\<rparr>"
  have run: "malloc_pages sz t fg (Some va) k = malloc_take sz t fg k2"
    using btokup_page [OF ok va(1,4)] top nl al(1) elm by (simp add: malloc_pages_def Let_def k2_def del: of_nat_power)
  have inv2: "kmem_inv k2 lv (insert (page k va) own) (fl(?i := blocks va (2 ^ ?i) ?n @ fl ?i))"
    by (rule carve_inv [OF inv i va]) (simp_all add: k2_def kmem_upds)
  obtain m where m: "?n = Suc m" using n by (cases ?n) auto
  have "(fl(?i := blocks va (2 ^ ?i) ?n @ fl ?i)) ?i = ?top # (blocks va (2 ^ ?i) m @ fl ?i)"
    by (simp add: m blocks_Suc)
  from take_inv [OF inv2 this, of t fg] obtain k' where k': "malloc_take sz t fg k2 = Done (MGot ?top k')"
    "kmem_inv k' (lv(?top \<mapsto> (2 ^ ?i, t))) (insert (page k va) own) ((fl(?i := blocks va (2 ^ ?i) ?n @ fl ?i))(?i := blocks va (2 ^ ?i) m @ fl ?i))"
    "lv ?top = None" "unat sz \<le> 2 ^ ?i" "charges t (2 ^ ?i) 1 k2 k'" "kevents k' = kevents k2" by blast
  have "charges t (2 ^ ?i) 1 k k'" using k'(5) by (simp add: charges_def k2_def kmem_upds)
  moreover have "kevents k2 = kevents k" by (simp add: k2_def kmem_upds)
  moreover have "own \<union> {page k va..<page k va + npages sz} = insert (page k va) own" using al(2) by auto
  ultimately show ?thesis using run k' by auto
qed

lemma pages_large:
  assumes inv: "kmem_inv k lv own fl" and sz: "4096 < unat sz" and fr: "pages_fresh k own va (npages sz)"
  shows "\<exists>k'. malloc_pages sz t fg (Some va) k = Done (MGot va k') \<and>
    kmem_inv k' (lv(va \<mapsto> (npages sz * 4096, t))) (own \<union> {page k va..<page k va + npages sz}) fl \<and> lv va = None \<and>
    unat sz \<le> npages sz * 4096 \<and> charges t (int (npages sz * 4096)) 1 k k' \<and> kevents k' = kevents k"
proof -
  let ?i = "BUCKETINDX sz" and ?n = "npages sz" and ?p = "page k va"
  note ok = kmem_invD(1) [OF inv]
  have n0: "0 < ?n" and va: "kmembase k \<le> va" "4096 dvd va" and fresh: "\<And>j. j < ?n \<Longrightarrow> ?p + j \<notin> own \<and> ?p + j < 1024"
    using fr by (auto simp: pages_fresh_def)
  have pn: "?p \<notin> own" "?p < 1024" using fresh [of 0] n0 by simp_all
  have "?p + (?n - 1) < 1024" using fresh [of "?n - 1"] n0 by simp
  then have n: "?n \<le> 1024" by linarith
  note L = npages_large [OF sz n0 n]
  let ?own = "own \<union> {?p..<?p + ?n}"
  define k1 where "k1 = upd_stats t (\<lambda>ks. ks\<lparr>ks_memuse := ks_memuse ks + allocsize sz\<rparr>) (upd_usage ?p (\<lambda>ku. ku\<lparr>ku_cnt := ?n\<rparr>)
    (upd_usage ?p (\<lambda>ku. ku\<lparr>ku_indx := ?i\<rparr>) (upd_bucket ?i (\<lambda>kb. kb\<lparr>kb_total := kb_total kb + int (kb_elmpercl (bucket k ?i))\<rparr>) k)))"
  let ?k = "malloc_zero sz fg va (malloc_out ?i t k1)"
  have run: "malloc_pages sz t fg (Some va) k = Done (MGot va ?k)"
    using btokup_page [OF ok va(1) pn(2)] L n by (simp add: malloc_pages_def Let_def k1_def)
  have base: "kmembase ?k = kmembase k" "kmemlimit ?k = kmemlimit k" by (simp_all add: malloc_rest k1_def kmem_upds)
  have bk: "kb_elmpercl (bucket ?k j) = kb_elmpercl (bucket k j)" "kb_next (bucket ?k j) = kb_next (bucket k j)"
    "kb_totalfree (bucket ?k j) = kb_totalfree (bucket k j)" for j by (simp_all add: malloc_rest k1_def kmem_upds)
  have us: "kusage ?k q = (if q = ?p then \<lparr>ku_indx = ?i, ku_cnt = ?n\<rparr> else kusage k q)" for q by (simp add: malloc_rest k1_def kmem_upds)
  have pg: "page ?k = page k" using base by (simp add: fun_eq_iff page_def)
  have i0: "ku_indx (kusage k (?p + j)) = 0" if "j < ?n" for j using fresh [OF that] kmem_invD(3) [OF inv] by blast
  have bi: "block_in ?k ?own j a = block_in k own j a" for j a
  proof
    assume b: "block_in ?k ?own j a"
    have "page k a \<noteq> ?p" using b L by (auto simp: block_in_def us pg)
    moreover from this have "page k a \<notin> {?p..<?p + ?n}"
    proof -
      have False if "page k a = ?p + m" "m < ?n" for m using that i0 [of m] b \<open>page k a \<noteq> ?p\<close> by (auto simp: block_in_def us pg)
      then show ?thesis by (metis atLeastLessThan_iff le_Suc_ex nat_add_left_cancel_less)
    qed
    ultimately show "block_in k own j a" using b base by (auto simp: block_in_def us pg)
  next
    assume "block_in k own j a"
    then show "block_in ?k ?own j a" using pn(1) base by (auto simp: block_in_def us pg)
  qed
  have kw: "kwords ?k a = kwords k a" if "block_in k own j a" for j a
  proof -
    have "a < va \<or> va + unat sz \<le> a"
    proof (rule ccontr)
      assume "\<not> ?thesis"
      then have a: "va \<le> a" "a < va + ?n * 4096" using L by auto
      have ps: "va = kmembase k + ?p * 4096" by (rule page_start [OF ok va])
      have b: "kmembase k + page k a * 4096 \<le> a" "a < kmembase k + (page k a + 1) * 4096" using page_bounds that by (auto simp: block_in_def)
      have "?p \<le> page k a" unfolding page_def using a(1) by (intro div_le_mono) simp
      then obtain m where m: "page k a = ?p + m" using le_Suc_ex by blast
      then have "m < ?n" using b(1) a(2) ps by simp
      then show False using fresh [of m] that m by (simp add: block_in_def)
    qed
    then show ?thesis by (simp add: malloc_rest k1_def kmem_upds)
  qed
  have li: "large_in ?k ?own a m" if "large_in k own a m" for a m
  proof -
    have "page k a + j \<noteq> ?p" if "j < ku_cnt (kusage k (page k a))" for j
      using \<open>large_in k own a m\<close> that pn(1) unfolding large_in_def by metis
    moreover from this [of 0] have "page k a \<noteq> ?p" using \<open>large_in k own a m\<close> by (simp add: large_in_def)
    ultimately show ?thesis using \<open>large_in k own a m\<close> unfolding large_in_def pg base by (simp add: us)
  qed
  have new: "large_in ?k ?own va (?n * 4096)"
    using va n0 L i0 unfolding large_in_def pg base by (simp add: us)
  have none: "lv va = None" by (rule dead_page [OF inv pn(1)])
  have "kmem_inv ?k (lv(va \<mapsto> (?n * 4096, t))) ?own fl"
    unfolding kmem_inv_def
  proof (intro conjI allI impI ballI)
    show "arena_ok ?k" using ok arena_ok_cong [OF base bk(1)] by blast
    show "?own \<subseteq> {..<1024}" using kmem_invD(2) [OF inv] fresh [of "?n - 1"] n0 by auto
    show "ku_indx (kusage ?k q) = 0" if "q \<notin> ?own" for q using kmem_invD(3) [OF inv, of q] that n0 by (auto simp: us)
    show "fchain (kwords ?k) (kb_next (bucket ?k j)) (fl j)" for j
    proof -
      have "fchain (kwords ?k) (kb_next (bucket k j)) (fl j) = fchain (kwords k) (kb_next (bucket k j)) (fl j)"
        by (rule fchain_cong) (use kw kmem_invD(7) [OF inv, of _ j] in blast)
      then show ?thesis using kmem_invD(4) [OF inv] bk by simp
    qed
    show "distinct (fl j)" for j by (rule kmem_invD(5) [OF inv])
    show "kb_totalfree (bucket ?k j) = int (length (fl j))" for j using kmem_invD(6) [OF inv] bk by simp
    show "block_in ?k ?own j a" if "a \<in> set (fl j)" for j a using kmem_invD(7) [OF inv that] bi by blast
    show "ku_cnt (kusage ?k q) = length (filter (\<lambda>a. page ?k a = q) (fl j))"
      if j: "4 \<le> j" "j \<le> 12" and q: "q \<in> ?own" "ku_indx (kusage ?k q) = j" for j q
    proof -
      have "q \<noteq> ?p" using q(2) j L by (auto simp: us)
      have "q \<notin> {?p..<?p + ?n}"
      proof
        assume "q \<in> {?p..<?p + ?n}"
        then have "q - ?p < ?n" "?p + (q - ?p) = q" by auto
        then have "ku_indx (kusage k q) = 0" using i0 [of "q - ?p"] by (simp only:)
        then show False using q(2) j \<open>q \<noteq> ?p\<close> by (simp add: us)
      qed
      then have "q \<in> own" using q(1) by blast
      then show ?thesis using q(2) kmem_invD(8) [OF inv j, of q] \<open>q \<noteq> ?p\<close> by (simp add: us pg)
    qed
    show "(\<exists>j. m = 2 ^ j \<and> block_in ?k ?own j a \<and> a \<notin> set (fl j)) \<or> large_in ?k ?own a m"
      if "(lv(va \<mapsto> (?n * 4096, t))) a = Some (m, u)" for a m u
    proof (cases "a = va")
      case True
      then show ?thesis using that new by simp
    next
      case False
      then have "lv a = Some (m, u)" using that by simp
      from kmem_invD(9) [OF inv this] show ?thesis using bi li by blast
    qed
    show "a \<in> set (fl j) \<or> a \<in> dom (lv(va \<mapsto> (?n * 4096, t)))" if "block_in ?k ?own j a" for j a
      using kmem_invD(10) [OF inv, of j a] that bi by auto
  qed
  moreover have "charges t (int (?n * 4096)) 1 k ?k"
    using malloc_rest(9) [of t k1 sz fg va ?i] L by (simp add: charges_def k1_def kmem_upds)
  ultimately show ?thesis using run none L by (simp add: malloc_rest k1_def kmem_upds)
qed

section \<open>Release keeps the invariant\<close>

definition freed_pages :: "kmem \<Rightarrow> kevent list \<Rightarrow> nat set" where
  "freed_pages k es = {p. \<exists>a n. KFree a n \<in> set es \<and> page k a \<le> p \<and> p < page k a + n div 4096}"

lemma mask_zero: "2 ^ i dvd (a :: nat) \<Longrightarrow> a AND addrmask i = 0"
proof -
  have "a AND addrmask i = take_bit i a" by (simp add: take_bit_eq_mask addrmask_def mask_eq_exp_minus_1)
  then show "2 ^ i dvd a \<Longrightarrow> a AND addrmask i = 0" by (simp add: take_bit_eq_mod mod_0_imp_dvd)
qed

lemma uncharge_rest:
  "kmembase (uncharge t n k) = kmembase k" "kmemlimit (uncharge t n k) = kmemlimit k" "kusage (uncharge t n k) = kusage k"
  "bucket (uncharge t n k) = bucket k" "kwords (uncharge t n k) = kwords k" "charges t (- n) (- 1) k (uncharge t n k)"
  "\<exists>es. kevents (uncharge t n k) = kevents k @ es \<and> set es \<subseteq> {KWakeup t}"
  by (auto simp: uncharge_def under_limit_def kmem_upds charges_def)

lemma small_count:
  assumes inv: "kmem_inv k lv own fl" and a: "block_in k own i a" "a \<notin> set (fl i)"
  shows "ku_cnt (kusage k (page k a)) + 1 \<le> 4096 div 2 ^ i"
    "ku_cnt (kusage k (page k a)) + 1 = 4096 div 2 ^ i \<Longrightarrow> block_in k own i b \<Longrightarrow> page k b = page k a \<Longrightarrow> b \<noteq> a \<Longrightarrow> b \<in> set (fl i)"
proof -
  let ?p = "page k a" and ?n = "4096 div 2 ^ i :: nat" and ?xs = "filter (\<lambda>b. page k b = page k a) (fl i)"
  note ok = kmem_invD(1) [OF inv]
  have i: "4 \<le> i" "i \<le> 12" "?p \<in> own" "ku_indx (kusage k ?p) = i" "kmembase k \<le> a" "2 ^ i dvd a" using a(1) by (simp_all add: block_in_def)
  have cnt: "ku_cnt (kusage k ?p) = length ?xs" using kmem_invD(8) [OF inv i(1-4)] .
  let ?va = "kmembase k + ?p * 4096"
  have va: "kmembase k \<le> ?va" "4096 dvd ?va" using ok by (auto simp: arena_ok_def)
  have pv: "page k ?va = ?p" by (simp add: page_def)
  note mem = blocks_page [OF ok va i(2), unfolded pv]
  have d: "distinct ?xs" "distinct (blocks ?va (2 ^ i) ?n)" using kmem_invD(5) [OF inv] blocks_distinct [of "2 ^ i"] by simp_all
  have sub: "set ?xs \<subseteq> set (blocks ?va (2 ^ i) ?n) - {a}" using mem kmem_invD(7) [OF inv, of _ i] a(2) by (auto simp: block_in_def)
  have am: "a \<in> set (blocks ?va (2 ^ i) ?n)" using mem i by blast
  have card: "card (set (blocks ?va (2 ^ i) ?n) - {a}) = ?n - 1" using am distinct_card [OF d(2)] by (simp add: blocks_def)
  have n0: "0 < ?n" using pow_dvd_page [OF i(2)] by (simp add: div_greater_zero_iff dvd_imp_le)
  have "card (set ?xs) \<le> ?n - 1" using card_mono [OF _ sub] card by simp
  then have "length ?xs \<le> ?n - 1" using distinct_card [OF d(1)] by simp
  then show "ku_cnt (kusage k ?p) + 1 \<le> ?n" using cnt n0 by linarith
  assume full: "ku_cnt (kusage k ?p) + 1 = ?n" and b: "block_in k own i b" "page k b = ?p" "b \<noteq> a"
  have "card (set ?xs) = card (set (blocks ?va (2 ^ i) ?n) - {a})" using full cnt card distinct_card [OF d(1)] by simp
  then have "set ?xs = set (blocks ?va (2 ^ i) ?n) - {a}" using sub by (intro card_subset_eq) simp_all
  moreover have "b \<in> set (blocks ?va (2 ^ i) ?n)" using mem b by (simp add: block_in_def)
  ultimately have "b \<in> set ?xs" using b(3) by blast
  then show "b \<in> set (fl i)" by simp
qed

text \<open>A block goes back on its list.\<close>

lemma put_back_inv:
  assumes inv: "kmem_inv k lv own fl" and a: "block_in k own i a" "a \<notin> set (fl i)"
    and k': "kmembase k' = kmembase k" "kmemlimit k' = kmemlimit k" "\<And>j. kb_elmpercl (bucket k' j) = kb_elmpercl (bucket k j)"
      "\<And>j. kb_totalfree (bucket k' j) = kb_totalfree (bucket k j) + (if j = i then 1 else 0)"
      "\<And>j. kb_next (bucket k' j) = (if j = i then a else kb_next (bucket k j))"
      "\<And>q. ku_indx (kusage k' q) = ku_indx (kusage k q)"
      "\<And>q. ku_cnt (kusage k' q) = ku_cnt (kusage k q) + (if q = page k a then 1 else 0)"
      "kwords k' = (kwords k)(a := kb_next (bucket k i))"
  shows "kmem_inv k' (lv(a := None)) own (fl(i := a # fl i))"
proof -
  note ok = kmem_invD(1) [OF inv]
  have i: "4 \<le> i" "i \<le> 12" "page k a \<in> own" "ku_indx (kusage k (page k a)) = i" "kmembase k \<le> a" using a(1) by (simp_all add: block_in_def)
  have a0: "0 < a" using i(5) ok by (simp add: arena_ok_def)
  note bi = block_in_cong [OF k'(1,6)]
  have li: "large_in k' own b n = large_in k own b n" for b n by (rule large_in_cong [OF k'(1,6)]) (use i k'(7) in auto)
  have other: "a \<notin> set (fl j)" for j using kmem_invD(7) [OF inv, of a j] a i(4) by (auto simp: block_in_def)
  show ?thesis
    unfolding kmem_inv_def
  proof (intro conjI allI impI ballI)
    show "arena_ok k'" using ok arena_ok_cong [OF k'(1-3)] by blast
    show "own \<subseteq> {..<1024}" by (rule kmem_invD(2) [OF inv])
    show "ku_indx (kusage k' q) = 0" if "q \<notin> own" for q using kmem_invD(3) [OF inv that] k'(6) by simp
    show "fchain (kwords k') (kb_next (bucket k' j)) ((fl(i := a # fl i)) j)" for j
      using kmem_invD(4) [OF inv, of j] kmem_invD(4) [OF inv, of i] fchain_upd [OF other [of j]] fchain_upd [OF other [of i]] a0
      by (simp add: k'(5,8))
    show "distinct ((fl(i := a # fl i)) j)" for j using kmem_invD(5) [OF inv] a(2) by simp
    show "kb_totalfree (bucket k' j) = int (length ((fl(i := a # fl i)) j))" for j using kmem_invD(6) [OF inv, of j] k'(4) by simp
    show "block_in k' own j b" if "b \<in> set ((fl(i := a # fl i)) j)" for j b
      using that kmem_invD(7) [OF inv, of b j] a(1) bi by (auto split: if_splits)
    show "ku_cnt (kusage k' q) = length (filter (\<lambda>b. page k' b = q) ((fl(i := a # fl i)) j))"
      if "4 \<le> j" "j \<le> 12" "q \<in> own" "ku_indx (kusage k' q) = j" for j q
      using kmem_invD(8) [OF inv that(1-3)] that(4) bi i(4) by (auto simp: k'(6,7))
    show "(\<exists>j. n = 2 ^ j \<and> block_in k' own j b \<and> b \<notin> set ((fl(i := a # fl i)) j)) \<or> large_in k' own b n"
      if "(lv(a := None)) b = Some (n, u)" for b n u
    proof -
      have b: "lv b = Some (n, u)" "b \<noteq> a" using that by (auto split: if_splits)
      from kmem_invD(9) [OF inv b(1)] show ?thesis using bi li b(2) by auto
    qed
    show "b \<in> set ((fl(i := a # fl i)) j) \<or> b \<in> dom (lv(a := None))" if "block_in k' own j b" for j b
    proof (cases "b = a")
      case True
      then have "j = i" using that bi i(4) by (simp add: block_in_def)
      then show ?thesis using True by simp
    next
      case False
      then show ?thesis using kmem_invD(10) [OF inv, of j b] that bi by auto
    qed
  qed
qed

text \<open>The last block of a page: the page goes.\<close>

lemma drop_page_inv:
  assumes inv: "kmem_inv k lv own fl" and a: "block_in k own i a" "a \<notin> set (fl i)"
    and full: "ku_cnt (kusage k (page k a)) + 1 = 4096 div 2 ^ i"
    and k': "kmembase k' = kmembase k" "kmemlimit k' = kmemlimit k" "\<And>j. kb_elmpercl (bucket k' j) = kb_elmpercl (bucket k j)"
      "\<And>j. kb_totalfree (bucket k' j) = kb_totalfree (bucket k j) + (if j = i then 1 - int (4096 div 2 ^ i) else 0)"
      "\<And>q. kusage k' q = (if q = page k a then \<lparr>ku_indx = 0, ku_cnt = 0\<rparr> else kusage k q)"
      "\<And>j. j \<noteq> i \<Longrightarrow> kb_next (bucket k' j) = kb_next (bucket k j)"
      "fchain (kwords k') (kb_next (bucket k' i)) (filter (\<lambda>b. page k b \<noteq> page k a) (fl i))"
      "\<And>b. b \<notin> set (fl i) \<Longrightarrow> kwords k' b = kwords k b"
  shows "kmem_inv k' (lv(a := None)) (own - {page k a}) (fl(i := filter (\<lambda>b. page k b \<noteq> page k a) (fl i)))"
proof -
  note ok = kmem_invD(1) [OF inv]
  let ?p = "page k a" and ?f = "filter (\<lambda>b. page k b \<noteq> page k a) (fl i)" and ?own = "own - {page k a}"
  have i: "4 \<le> i" "i \<le> 12" "?p \<in> own" "ku_indx (kusage k ?p) = i" using a(1) by (simp_all add: block_in_def)
  have pg: "page k' = page k" using k'(1) by (simp add: fun_eq_iff page_def)
  have bi: "block_in k' ?own j b \<longleftrightarrow> block_in k own j b \<and> page k b \<noteq> ?p" for j b by (auto simp: block_in_def pg k'(1,5))
  have li: "large_in k' ?own b n" if "large_in k own b n" for b n
  proof -
    have "page k b + j \<noteq> ?p" if "j < ku_cnt (kusage k (page k b))" for j
      using \<open>large_in k own b n\<close> that i by (cases "j = 0") (auto simp: large_in_def)
    moreover from this [of 0] have "page k b \<noteq> ?p" using \<open>large_in k own b n\<close> by (simp add: large_in_def)
    ultimately show ?thesis using \<open>large_in k own b n\<close> unfolding large_in_def pg k'(1) by (simp add: k'(5))
  qed
  have other: "b \<notin> set (fl i)" if "b \<in> set (fl j)" "j \<noteq> i" for b j
    using kmem_invD(7) [OF inv, of b j] kmem_invD(7) [OF inv, of b i] that by (auto simp: block_in_def)
  have len: "length (fl i) + 1 = length ?f + 4096 div 2 ^ i"
    using kmem_invD(8) [OF inv i] full sum_length_filter_compl [of "\<lambda>b. page k b = ?p" "fl i"] by simp
  show ?thesis
    unfolding kmem_inv_def
  proof (intro conjI allI impI ballI)
    show "arena_ok k'" using ok arena_ok_cong [OF k'(1-3)] by blast
    show "?own \<subseteq> {..<1024}" using kmem_invD(2) [OF inv] by blast
    show "ku_indx (kusage k' q) = 0" if "q \<notin> ?own" for q using kmem_invD(3) [OF inv, of q] that by (auto simp: k'(5))
    show "fchain (kwords k') (kb_next (bucket k' j)) ((fl(i := ?f)) j)" for j
    proof (cases "j = i")
      case False
      have "fchain (kwords k') (kb_next (bucket k j)) (fl j) = fchain (kwords k) (kb_next (bucket k j)) (fl j)"
        by (rule fchain_cong) (use k'(8) other False in blast)
      then show ?thesis using False kmem_invD(4) [OF inv] k'(6) by simp
    qed (simp add: k'(7))
    show "distinct ((fl(i := ?f)) j)" for j using kmem_invD(5) [OF inv] by simp
    show "kb_totalfree (bucket k' j) = int (length ((fl(i := ?f)) j))" for j
      using kmem_invD(6) [OF inv, of j] len by (simp add: k'(4) of_nat_add [symmetric] del: of_nat_add)
    show "block_in k' ?own j b" if "b \<in> set ((fl(i := ?f)) j)" for j b
    proof (cases "j = i")
      case True
      then show ?thesis using that kmem_invD(7) [OF inv, of b i] by (simp add: bi)
    next
      case False
      then have b: "block_in k own j b" using that kmem_invD(7) [OF inv, of b j] by simp
      then have "page k b \<noteq> ?p" using False i(4) by (auto simp: block_in_def)
      then show ?thesis using b by (simp add: bi)
    qed
    show "ku_cnt (kusage k' q) = length (filter (\<lambda>b. page k' b = q) ((fl(i := ?f)) j))"
      if "4 \<le> j" "j \<le> 12" "q \<in> ?own" "ku_indx (kusage k' q) = j" for j q
    proof -
      have "filter (\<lambda>b. page k b = q) ?f = filter (\<lambda>b. page k b = q) (fl i)" using that(3) by (auto simp: intro: filter_cong)
      then show ?thesis using kmem_invD(8) [OF inv that(1,2), of q] that(3,4) by (auto simp: pg k'(5))
    qed
    show "(\<exists>j. n = 2 ^ j \<and> block_in k' ?own j b \<and> b \<notin> set ((fl(i := ?f)) j)) \<or> large_in k' ?own b n"
      if "(lv(a := None)) b = Some (n, u)" for b n u
    proof -
      have b: "lv b = Some (n, u)" "b \<noteq> a" using that by (auto split: if_splits)
      from kmem_invD(9) [OF inv b(1)] show ?thesis
      proof
        assume "\<exists>j. n = 2 ^ j \<and> block_in k own j b \<and> b \<notin> set (fl j)"
        then obtain j where j: "n = 2 ^ j" "block_in k own j b" "b \<notin> set (fl j)" by blast
        have "page k b \<noteq> ?p"
        proof
          assume e: "page k b = ?p"
          then have "j = i" using j(2) i(4) by (simp add: block_in_def)
          then show False using small_count(2) [OF inv a full _ e b(2)] j by blast
        qed
        then show ?thesis using j by (intro disjI1 exI [of _ j]) (auto simp: bi)
      qed (use li in blast)
    qed
    show "b \<in> set ((fl(i := ?f)) j) \<or> b \<in> dom (lv(a := None))" if "block_in k' ?own j b" for j b
      using that kmem_invD(10) [OF inv, of j b] by (auto simp: bi)
  qed
qed

lemma drop_large_inv:
  assumes inv: "kmem_inv k lv own fl" and a: "large_in k own a n"
    and k': "kmembase k' = kmembase k" "kmemlimit k' = kmemlimit k" "\<And>j. kb_elmpercl (bucket k' j) = kb_elmpercl (bucket k j)"
      "\<And>j. kb_totalfree (bucket k' j) = kb_totalfree (bucket k j)" "\<And>j. kb_next (bucket k' j) = kb_next (bucket k j)"
      "\<And>q. kusage k' q = (if q = page k a then \<lparr>ku_indx = 0, ku_cnt = 0\<rparr> else kusage k q)" "kwords k' = kwords k"
  shows "kmem_inv k' (lv(a := None)) (own - {page k a..<page k a + n div 4096}) fl"
proof -
  note ok = kmem_invD(1) [OF inv]
  let ?p = "page k a" and ?c = "n div 4096" and ?own = "own - {page k a..<page k a + n div 4096}"
  have c: "?c = ku_cnt (kusage k ?p)" "0 < ?c" "n = ?c * 4096" and ix: "13 \<le> ku_indx (kusage k ?p)" using a by (simp_all add: large_in_def)
  have rg: "ku_indx (kusage k q) = 0 \<or> 13 \<le> ku_indx (kusage k q)" if "q \<in> {?p..<?p + ?c}" for q
  proof -
    have "q - ?p < ku_cnt (kusage k ?p)" "?p + (q - ?p) = q" using that c(1) by auto
    then show ?thesis using a ix unfolding large_in_def by (metis add.right_neutral gr0I)
  qed
  have pg: "page k' = page k" using k'(1) by (simp add: fun_eq_iff page_def)
  have bi: "block_in k' ?own j b = block_in k own j b" for j b
  proof
    show "block_in k' ?own j b" if b: "block_in k own j b"
    proof -
      have "page k b \<notin> {?p..<?p + ?c}" using rg [of "page k b"] b by (auto simp: block_in_def)
      moreover from this have "page k b \<noteq> ?p" using c(2) by auto
      ultimately show ?thesis using b by (simp add: block_in_def pg k'(1,6))
    qed
    show "block_in k own j b" if "block_in k' ?own j b" using that by (auto simp: block_in_def pg k'(1,6) split: if_splits)
  qed
  have li: "large_in k' ?own b m" if b: "large_in k own b m" and ne: "b \<noteq> a" for b m
  proof -
    let ?d = "ku_cnt (kusage k (page k b))"
    have sa: "a = kmembase k + ?p * 4096" "b = kmembase k + page k b * 4096"
      using a b by (auto intro: page_start [OF ok] simp: large_in_def)
    have m: "m = ?d * 4096" using b by (simp add: large_in_def)
    have "a + n \<le> b \<or> b + m \<le> a" using large_disj [OF ok a b] large_disj [OF ok b a] ne by (meson linorder_neqE_nat)
    then have "?p + ?c \<le> page k b \<or> page k b + ?d \<le> ?p" using sa c(3) m by linarith
    then have "page k b + j \<notin> {?p..<?p + ?c}" if "j < ?d" for j using that by auto
    moreover have "0 < ?d" using b by (simp add: large_in_def)
    moreover from calculation have "page k b + j \<noteq> ?p" if "j < ?d" for j using that c(2) by force
    moreover from this [of 0] have "page k b \<noteq> ?p" using \<open>0 < ?d\<close> by simp
    ultimately show ?thesis using b unfolding large_in_def pg k'(1) by (simp add: k'(6))
  qed
  show ?thesis
    unfolding kmem_inv_def
  proof (intro conjI allI impI ballI)
    show "arena_ok k'" using ok arena_ok_cong [OF k'(1-3)] by blast
    show "?own \<subseteq> {..<1024}" using kmem_invD(2) [OF inv] by blast
    show "ku_indx (kusage k' q) = 0" if "q \<notin> ?own" for q
    proof (cases "q \<in> own \<and> q \<noteq> ?p")
      case True
      then have q: "q - ?p < ku_cnt (kusage k ?p)" "?p + (q - ?p) = q" "0 < q - ?p" using that c(1) by auto
      then have "ku_indx (kusage k q) = 0" using a unfolding large_in_def by metis
      then show ?thesis using True by (simp add: k'(6))
    next
      case False
      then show ?thesis using kmem_invD(3) [OF inv, of q] by (auto simp: k'(6))
    qed
    show "fchain (kwords k') (kb_next (bucket k' j)) (fl j)" "distinct (fl j)" "kb_totalfree (bucket k' j) = int (length (fl j))" for j
      using kmem_invD(4-6) [OF inv, of j] by (simp_all add: k'(4,5,7))
    show "block_in k' ?own j b" if "b \<in> set (fl j)" for j b using kmem_invD(7) [OF inv that] bi by blast
    show "ku_cnt (kusage k' q) = length (filter (\<lambda>b. page k' b = q) (fl j))"
      if "4 \<le> j" "j \<le> 12" "q \<in> ?own" "ku_indx (kusage k' q) = j" for j q
    proof -
      have "q \<noteq> ?p" using that(3) c(2) by auto
      then show ?thesis using kmem_invD(8) [OF inv that(1,2), of q] that(3,4) by (simp add: pg k'(6))
    qed
    show "(\<exists>j. m = 2 ^ j \<and> block_in k' ?own j b \<and> b \<notin> set (fl j)) \<or> large_in k' ?own b m"
      if "(lv(a := None)) b = Some (m, u)" for b m u
    proof -
      have b: "lv b = Some (m, u)" "b \<noteq> a" using that by (auto split: if_splits)
      from kmem_invD(9) [OF inv b(1)] show ?thesis using bi li b(2) by blast
    qed
    show "b \<in> set (fl j) \<or> b \<in> dom (lv(a := None))" if "block_in k' ?own j b" for j b
    proof -
      have "b \<noteq> a" using that ix bi by (auto simp: block_in_def)
      then show ?thesis using that kmem_invD(10) [OF inv, of j b] bi by auto
    qed
  qed
qed

lemma freed_wakeups: "set es \<subseteq> {KWakeup t} \<Longrightarrow> freed_pages k es = {}"
  by (auto simp: freed_pages_def)

lemma freed_one: "set es \<subseteq> {KWakeup t} \<Longrightarrow> freed_pages k (es @ [KFree a n]) = {page k a..<page k a + n div 4096}"
  "set es \<subseteq> {KWakeup t} \<Longrightarrow> freed_pages k (KFree a n # es) = {page k a..<page k a + n div 4096}"
  by (fastforce simp: freed_pages_def)+

lemma free_page_ok:
  assumes inv: "kmem_inv k lv own fl" and a: "block_in k own i a" "a \<notin> set (fl i)"
    and full: "ku_cnt (kusage k (page k a)) + 1 = 4096 div 2 ^ i"
    and k1: "k1 = upd_usage (page k a) (\<lambda>ku. ku\<lparr>ku_cnt := 4096 div 2 ^ i\<rparr>) (upd_bucket i (\<lambda>kb. kb\<lparr>kb_totalfree := kb_totalfree kb + 1\<rparr>) k)"
  shows "\<exists>k' es fl'. free_page i (page k a) t k1 = Some (Done k') \<and> kevents k' = kevents k @ es \<and>
    kmem_inv k' (lv(a := None)) (own - freed_pages k es) fl' \<and> charges t (- (2 ^ i)) (- 1) k k'"
proof -
  let ?p = "page k a" and ?n = "4096 div 2 ^ i :: nat" and ?f = "filter (\<lambda>b. page k b \<noteq> page k a) (fl i)"
  note ok = kmem_invD(1) [OF inv]
  have i: "4 \<le> i" "i \<le> 12" "?p \<in> own" "ku_indx (kusage k ?p) = i" using a(1) by (simp_all add: block_in_def)
  have n: "?n * 2 ^ i = (4096 :: nat)" using pow_dvd_page [OF i(2)] by simp
  have elm: "kb_elmpercl (bucket k i) = ?n" using ok i by (simp add: arena_ok_def)
  let ?fp = "kuptob ?p k" and ?inp = "\<lambda>b. kuptob (page k a) k \<le> b \<and> b < kuptob (page k a) k + 4096"
  have fp: "?fp = kmembase k + ?p * 4096" by (simp add: kuptob_def kmem_consts)
  have inp: "?inp b \<longleftrightarrow> page k b = ?p" if "kmembase k \<le> b" for b
    using page_bounds [OF that] page_eq [of k ?p b] unfolding fp by auto
  have z: "\<not> ?inp 0" unfolding fp using ok by (simp add: arena_ok_def)
  have mem: "page k b = ?p \<longleftrightarrow> ?inp b" if "b \<in> set (fl i)" for b using inp kmem_invD(7) [OF inv that] by (simp add: block_in_def)
  have f1: "filter (\<lambda>b. \<not> ?inp b) (fl i) = ?f" by (rule filter_cong [OF refl]) (use mem in blast)
  have "filter ?inp (fl i) = filter (\<lambda>b. page k b = ?p) (fl i)" by (rule filter_cong [OF refl]) (use mem in blast)
  then have f2: "length (filter ?inp (fl i)) = ?n - 1" using kmem_invD(8) [OF inv i] full by simp
  have "?n \<le> 4096" by (rule div_le_dividend)
  then have small: "?n - 1 < 65536" by linarith
  define k2 where "k2 = upd_bucket i (\<lambda>kb. kb\<lparr>kb_total := kb_total kb - int (kb_elmpercl kb), kb_totalfree := kb_totalfree kb - int (kb_elmpercl kb)\<rparr>)
    (uncharge t (int (2 ^ i)) (upd_usage ?p (\<lambda>ku. ku\<lparr>ku_indx := 0\<rparr>) k1))"
  define gone where "gone = (\<lambda>cnt' h m. kpost [KFree ?fp 4096]
    (upd_usage ?p (\<lambda>ku. ku\<lparr>ku_cnt := cnt'\<rparr>) (upd_bucket i (\<lambda>kb. kb\<lparr>kb_next := h\<rparr>) (k2\<lparr>kwords := m\<rparr>))))"
  have k2: "kwords k2 = kwords k" "kb_next (bucket k2 j) = kb_next (bucket k j)" "kmembase k2 = kmembase k" "kmemlimit k2 = kmemlimit k" for j
    by (simp_all add: k2_def kmem_upds uncharge_rest k1)
  obtain es where es: "kevents k2 = kevents k @ es" "set es \<subseteq> {KWakeup t}"
    using uncharge_rest(7) [of t "int (2 ^ i)" "upd_usage ?p (\<lambda>ku. ku\<lparr>ku_indx := 0\<rparr>) k1"] by (auto simp: k2_def kmem_upds k1)
  have ch: "charges t (- (2 ^ i)) (- 1) k k2"
    using uncharge_rest(6) [of t "int (2 ^ i)" "upd_usage ?p (\<lambda>ku. ku\<lparr>ku_indx := 0\<rparr>) k1"] by (simp add: k2_def charges_def kmem_upds k1)
  have run: "free_page i ?p t k1 = (if ?n - 1 = 0 then Some (Done (gone 0 (kb_next (bucket k i)) (kwords k)))
      else case unlink_page ?inp None (kb_next (bucket k i)) (kwords k) (?n - 1) of
             None \<Rightarrow> None
           | Some (h, m, left) \<Rightarrow> Some (if left \<noteq> 0 then Panic ''free: missing a bucket'' else Done (gone left h m)))"
  proof -
    have "ku_cnt (kusage k1 ?p) = ?n" "kuptob ?p k1 = ?fp" by (simp_all add: k1 kmem_upds kuptob_def)
    then show ?thesis unfolding free_page_def Let_def k2_def [symmetric] n gone_def k2(1,2) by (simp only: n)
  qed
  have inv': "kmem_inv (gone 0 h m) (lv(a := None)) (own - {?p}) (fl(i := ?f))"
    if "fchain m h ?f" "\<And>b. b \<notin> set (fl i) \<Longrightarrow> m b = kwords k b" for h m
  proof (rule drop_page_inv [OF inv a full])
    show "kb_totalfree (bucket (gone 0 h m) j) = kb_totalfree (bucket k j) + (if j = i then 1 - int ?n else 0)" for j
      using elm by (simp add: gone_def k2_def kmem_upds uncharge_rest k1)
  qed (use that k2 in \<open>simp_all add: gone_def k2_def kmem_upds uncharge_rest k1\<close>)
  have pf: "page k ?fp = ?p" by (rule page_eq) (simp_all add: fp)
  have fr: "own - freed_pages k (es @ [KFree ?fp 4096]) = own - {?p}" using freed_one(1) [OF es(2)] pf by simp
  have ev: "kevents (gone c h m) = kevents k @ (es @ [KFree ?fp 4096])" for c h m using es(1) by (simp add: gone_def kmem_upds)
  have chg: "charges t (- (2 ^ i)) (- 1) k (gone c h m)" for c h m using ch by (simp add: gone_def charges_def kmem_upds)
  have done_by: ?thesis if "free_page i ?p t k1 = Some (Done (gone 0 h m))"
      "kmem_inv (gone 0 h m) (lv(a := None)) (own - {?p}) (fl(i := ?f))" for h m
    using that ev chg fr
    by (intro exI [of _ "gone 0 h m"] exI [of _ "es @ [KFree ?fp 4096]"] exI [of _ "fl(i := ?f)"] conjI) (simp_all only:)
  show ?thesis
  proof (cases "?n - 1 = 0")
    case True
    have "filter ?inp (fl i) = []" using f2 True by simp
    then have "?f = fl i" unfolding f1 [symmetric] by (simp add: filter_empty_conv filter_id_conv)
    then have "kmem_inv (gone 0 (kb_next (bucket k i)) (kwords k)) (lv(a := None)) (own - {?p}) (fl(i := ?f))"
      using kmem_invD(4) [OF inv, of i] by (intro inv') simp_all
    then show ?thesis by (rule done_by [rotated]) (simp only: run True simp_thms if_True)
  next
    case False
    have u: "fchain (kwords k) (cell None (kb_next (bucket k i)) (kwords k)) (fl i)" using kmem_invD(4) [OF inv] by (simp add: cell_def)
    obtain h m where r: "unlink_page ?inp None (kb_next (bucket k i)) (kwords k) (?n - 1) = Some (h, m, ?n - 1 - (?n - 1))"
      "fchain m h ?f" "\<forall>b. b \<notin> set ?f \<longrightarrow> m b = kwords k b"
      using unlink_chain [where inp = ?inp and cnt = "?n - 1", OF u kmem_invD(5) [OF inv] _ z] small unfolding f1 f2 by (auto simp: cell_def)
    have "kmem_inv (gone 0 h m) (lv(a := None)) (own - {?p}) (fl(i := ?f))"
      by (rule inv' [OF r(2)]) (use r(3) in auto)
    moreover have "free_page i ?p t k1 = Some (Done (gone 0 h m))" using run r(1) False by simp
    ultimately show ?thesis by (intro done_by)
  qed
qed

lemma free_small:
  assumes "btokup a k = Done p" "\<not> (a < kend \<or> a < kmembase k \<or> kmemlimit k < a)" "ku_indx (kusage k p) = i" "a AND addrmask i = 0"
    "\<not> MAXALLOCSAVE \<le> 2 ^ i" "\<not> NBPG < 2 ^ i" "(ku_cnt (kusage k p) + 1) mod 65536 = c" "\<not> kb_elmpercl (bucket k i) < c"
    "k1 = upd_usage p (\<lambda>ku. ku\<lparr>ku_cnt := c\<rparr>) (upd_bucket i (\<lambda>kb. kb\<lparr>kb_totalfree := kb_totalfree kb + 1\<rparr>) k)"
    "k2 = uncharge t (int (2 ^ i)) k1"
  shows "free kend a t k =
    (if c = kb_elmpercl (bucket k i) \<and> kb_highwat (bucket k1 i) < kb_totalfree (bucket k1 i) \<and> t \<noteq> M_MBUF then free_page i p t k1
     else Some (Done (upd_bucket i (\<lambda>kb. kb\<lparr>kb_next := a\<rparr>) (k2\<lparr>kwords := (kwords k2)(a := kb_next (bucket k2 i))\<rparr>))))"
  unfolding free_def assms(1) kres.case Let_def assms(3,7) assms(9,10) [symmetric] using assms(2,4,5,6,8) by (simp cong: if_cong)

lemma free_ok:
  assumes inv: "kmem_inv k lv own fl" and a: "lv a = Some (n, t)" and kend: "kend \<le> kmembase k"
  shows "\<exists>k' es fl'. free kend a t k = Some (Done k') \<and> kevents k' = kevents k @ es \<and>
    kmem_inv k' (lv(a := None)) (own - freed_pages k es) fl' \<and> charges t (- int n) (- 1) k k'"
proof -
  note ok = kmem_invD(1) [OF inv]
  have in_arena: "kmembase k \<le> a" "a \<le> kmemlimit k" using live_in_arena [OF inv a] by linarith+
  have b12: "BUCKETINDX (of_nat NBPG) = 12" by (simp add: BUCKETINDX_def kmem_consts Let_def)
  from kmem_invD(9) [OF inv a] show ?thesis
  proof
    assume "\<exists>i. n = 2 ^ i \<and> block_in k own i a \<and> a \<notin> set (fl i)"
    then obtain i where i: "n = 2 ^ i" "block_in k own i a" "a \<notin> set (fl i)" by blast
    let ?p = "page k a" and ?e = "4096 div 2 ^ i :: nat"
    have b: "4 \<le> i" "i \<le> 12" "ku_indx (kusage k ?p) = i" "2 ^ i dvd a" "?p < 1024" using i(2) kmem_invD(2) [OF inv] by (auto simp: block_in_def)
    have pw: "(2 :: nat) ^ i \<le> 4096" by (rule pow_le_page [OF b(2)])
    have elm: "kb_elmpercl (bucket k i) = ?e" using ok b by (simp add: arena_ok_def)
    have cnt: "ku_cnt (kusage k ?p) + 1 \<le> ?e" by (rule small_count(1) [OF inv i(2,3)])
    have "?e \<le> 4096" by (rule div_le_dividend)
    then have md: "(ku_cnt (kusage k ?p) + 1) mod 65536 = ku_cnt (kusage k ?p) + 1" using cnt by (intro mod_less) linarith
    define k1 where "k1 = upd_usage ?p (\<lambda>ku. ku\<lparr>ku_cnt := ku_cnt (kusage k ?p) + 1\<rparr>)
      (upd_bucket i (\<lambda>kb. kb\<lparr>kb_totalfree := kb_totalfree kb + 1\<rparr>) k)"
    let ?go = "ku_cnt (kusage k ?p) + 1 = ?e \<and> kb_highwat (bucket k1 i) < kb_totalfree (bucket k1 i) \<and> t \<noteq> M_MBUF"
    define k2 where "k2 = uncharge t (int (2 ^ i)) k1"
    have run: "free kend a t k = (if ?go then free_page i ?p t k1
        else Some (Done (upd_bucket i (\<lambda>kb. kb\<lparr>kb_next := a\<rparr>) (k2\<lparr>kwords := (kwords k2)(a := kb_next (bucket k2 i))\<rparr>))))"
      unfolding elm [symmetric]
    proof (rule free_small [OF _ _ b(3) _ _ _ md _ k1_def k2_def])
      show "btokup a k = Done ?p" by (rule btokup_page [OF ok in_arena(1) b(5)])
      show "\<not> MAXALLOCSAVE \<le> 2 ^ i" "\<not> NBPG < 2 ^ i" using pw by (simp_all add: kmem_consts)
      show "\<not> kb_elmpercl (bucket k i) < ku_cnt (kusage k ?p) + 1" "\<not> (a < kend \<or> a < kmembase k \<or> kmemlimit k < a)"
        using cnt elm in_arena kend by linarith+
      show "a AND addrmask i = 0" by (rule mask_zero [OF b(4)])
    qed
    show ?thesis
    proof (cases ?go)
      case True
      have "k1 = upd_usage ?p (\<lambda>ku. ku\<lparr>ku_cnt := ?e\<rparr>) (upd_bucket i (\<lambda>kb. kb\<lparr>kb_totalfree := kb_totalfree kb + 1\<rparr>) k)"
        unfolding k1_def using True by (simp only:)
      from free_page_ok [OF inv i(2,3) _ this, of t] show ?thesis unfolding run if_P [OF True] using i(1) True by simp
    next
      case False
      let ?k = "upd_bucket i (\<lambda>kb. kb\<lparr>kb_next := a\<rparr>) (k2\<lparr>kwords := (kwords k2)(a := kb_next (bucket k2 i))\<rparr>)"
      have "kmem_inv ?k (lv(a := None)) own (fl(i := a # fl i))"
        by (rule put_back_inv [OF inv i(2,3)]) (simp_all add: k2_def k1_def kmem_upds uncharge_rest)
      moreover obtain es where es: "kevents ?k = kevents k @ es" "set es \<subseteq> {KWakeup t}"
        using uncharge_rest(7) [of t "int (2 ^ i)" k1] by (auto simp: k2_def k1_def kmem_upds)
      moreover have "charges t (- int n) (- 1) k ?k"
        using uncharge_rest(6) [of t "int (2 ^ i)" k1] i(1) by (simp add: k2_def k1_def charges_def kmem_upds)
      moreover have "free kend a t k = Some (Done ?k)" unfolding run by (rule if_not_P [OF False])
      moreover have "own - freed_pages k es = own" using freed_wakeups [OF es(2), of k] by simp
      ultimately show ?thesis by (intro exI [of _ ?k] exI [of _ es] exI [of _ "fl(i := a # fl i)"]) (simp only: simp_thms)
    qed
  next
    assume l: "large_in k own a n"
    let ?p = "page k a" and ?i = "ku_indx (kusage k (page k a))"
    have b: "13 \<le> ?i" "4096 dvd a" "n = ku_cnt (kusage k ?p) * 4096" "?p < 1024"
      using l kmem_invD(2) [OF inv] unfolding large_in_def by (auto dest!: spec [of _ 0])
    have pw: "(8192 :: nat) \<le> 2 ^ ?i" using power_increasing [OF b(1), of "2 :: nat"] by simp
    define k2 where "k2 = uncharge t (int n) (upd_usage ?p (\<lambda>ku. ku\<lparr>ku_indx := 0, ku_cnt := 0\<rparr>) (kpost [KFree a n] k))"
    let ?k = "upd_bucket ?i (\<lambda>kb. kb\<lparr>kb_total := kb_total kb - 1\<rparr>) k2"
    have "free kend a t k = Some (Done ?k)"
    proof -
      have "btokup a k = Done ?p" by (rule btokup_page [OF ok in_arena(1) b(4)])
      moreover have "MAXALLOCSAVE \<le> 2 ^ ?i" "NBPG < 2 ^ ?i" using pw by (simp_all add: kmem_consts)
      moreover have "\<not> (a < kend \<or> a < kmembase k \<or> kmemlimit k < a)" using in_arena kend by linarith
      moreover have "a AND addrmask 12 = 0" using b(2) by (intro mask_zero) simp
      moreover have "ku_cnt (kusage k ?p) * 2 ^ PGSHIFT = n" using b(3) by (simp add: kmem_consts)
      ultimately show ?thesis unfolding free_def Let_def k2_def by (simp add: b12)
    qed
    moreover have "kmem_inv ?k (lv(a := None)) (own - {?p..<?p + n div 4096}) fl"
      by (rule drop_large_inv [OF inv l]) (simp_all add: k2_def kmem_upds uncharge_rest)
    moreover obtain es where es: "kevents ?k = kevents k @ KFree a n # es" "set es \<subseteq> {KWakeup t}"
      using uncharge_rest(7) [of t "int n" "upd_usage ?p (\<lambda>ku. ku\<lparr>ku_indx := 0, ku_cnt := 0\<rparr>) (kpost [KFree a n] k)"] by (auto simp: k2_def kmem_upds)
    moreover have "charges t (- int n) (- 1) k ?k"
      using uncharge_rest(6) [of t "int n" "upd_usage ?p (\<lambda>ku. ku\<lparr>ku_indx := 0, ku_cnt := 0\<rparr>) (kpost [KFree a n] k)"]
      by (simp add: k2_def charges_def kmem_upds)
    ultimately show ?thesis unfolding freed_one(2) [OF es(2), of k a n, symmetric] by blast
  qed
qed

section \<open>Histories\<close>

text \<open>
  \<open>lv\<close> and \<open>own\<close> are what the callers and \<open>kmem_alloc\<close> know: the blocks in use and the pages given.
  A request that found its bucket empty goes on when \<open>kmem_alloc\<close> has returned, and others may have run
  in between.  Owners write into their blocks.
\<close>

inductive kmem_hist :: "addr \<Rightarrow> kmem \<Rightarrow> (addr \<Rightarrow> (nat \<times> nat) option) \<Rightarrow> nat set \<Rightarrow> bool" for kend where
  mh_start: "kend \<le> base \<Longrightarrow> 0 < base \<Longrightarrow> 4096 dvd base \<Longrightarrow> base + VM_KMEM_SIZE < 2 ^ 32 \<Longrightarrow> kmem_hist kend (kmeminit base m) Map.empty {}"
| mh_list: "kmem_hist kend k lv own \<Longrightarrow> malloc sz t fg k = Done (MGot a k') \<Longrightarrow> kmem_hist kend k' (lv(a \<mapsto> (2 ^ BUCKETINDX sz, t))) own"
| mh_limit: "kmem_hist kend k lv own \<Longrightarrow> malloc sz t fg k = Done (MSleep k') \<Longrightarrow> kmem_hist kend k' lv own"
| mh_pages: "kmem_hist kend k lv own \<Longrightarrow> t < M_LAST \<Longrightarrow> pages_fresh k own va (npages sz) \<Longrightarrow> malloc_pages sz t fg (Some va) k = Done (MGot a k') \<Longrightarrow>
    kmem_hist kend k' (lv(a \<mapsto> (nat (allocsize sz), t))) (own \<union> {page k va..<page k va + npages sz})"
| mh_free: "kmem_hist kend k lv own \<Longrightarrow> lv a = Some (n, t) \<Longrightarrow> free kend a t k = Some (Done k') \<Longrightarrow> kevents k' = kevents k @ es \<Longrightarrow>
    kmem_hist kend k' (lv(a := None)) (own - freed_pages k es)"
| mh_write: "kmem_hist kend k lv own \<Longrightarrow> (\<And>b. m b \<noteq> kwords k b \<Longrightarrow> \<exists>a n t. lv a = Some (n, t) \<and> a \<le> b \<and> b < a + n) \<Longrightarrow>
    kmem_hist kend (k\<lparr>kwords := m\<rparr>) lv own"

lemma elm_init: "i \<le> 12 \<Longrightarrow> 4096 \<le> (2 :: nat) ^ i \<Longrightarrow> 4096 div 2 ^ i = (1 :: nat)"
  using pow_le_page [of i] by (metis antisym div_self zero_neq_numeral)

lemma init_inv:
  assumes "0 < base" "4096 dvd base" "base + VM_KMEM_SIZE < 2 ^ 32"
  shows "kmem_inv (kmeminit base m) Map.empty {} (\<lambda>_. [])"
  using assms by (simp add: kmem_inv_def kmeminit_def arena_ok_def kmem_consts block_in_def Let_def elm_init)

lemma write_inv:
  assumes inv: "kmem_inv k lv own fl" and w: "\<And>b. m b \<noteq> kwords k b \<Longrightarrow> \<exists>a n t. lv a = Some (n, t) \<and> a \<le> b \<and> b < a + n"
  shows "kmem_inv (k\<lparr>kwords := m\<rparr>) lv own fl"
proof -
  note ok = kmem_invD(1) [OF inv]
  have same: "m b = kwords k b" if "b \<in> set (fl i)" for b i
  proof (rule ccontr)
    assume "m b \<noteq> kwords k b"
    then obtain a n t where a: "lv a = Some (n, t)" "a \<le> b" "b < a + n" using w by blast
    have bb: "block_in k own i b" by (rule kmem_invD(7) [OF inv that])
    from kmem_invD(9) [OF inv a(1)] show False
    proof
      assume "\<exists>j. n = 2 ^ j \<and> block_in k own j a \<and> a \<notin> set (fl j)"
      then obtain j where j: "n = 2 ^ j" "block_in k own j a" "a \<notin> set (fl j)" by blast
      show False
      proof (cases "a = b")
        case True
        then have "j = i" using j(2) bb by (simp add: block_in_def)
        then show False using j(3) that True by simp
      next
        case False
        then show False using block_disj [OF ok j(2) bb] a j(1) by simp
      qed
    next
      assume "large_in k own a n"
      moreover have "(0 :: nat) < 2 ^ i" by simp
      ultimately show False using large_block_disj [OF ok _ bb, of a n] a by linarith
    qed
  qed
  have "fchain m c (fl i) = fchain (kwords k) c (fl i)" for c i by (rule fchain_cong) (use same in blast)
  then have f: "fchain m (kb_next (bucket k i)) (fl i)" for i using kmem_invD(4) [OF inv] by simp
  have pg: "page (k\<lparr>kwords := m\<rparr>) = page k" by (simp add: fun_eq_iff page_def)
  have bi: "block_in (k\<lparr>kwords := m\<rparr>) own j b = block_in k own j b" "large_in (k\<lparr>kwords := m\<rparr>) own b n = large_in k own b n" for j b n
    by (simp_all add: block_in_def large_in_def pg)
  show ?thesis using inv f unfolding kmem_inv_def bi pg by (simp add: arena_ok_def)
qed

section \<open>What histories keep\<close>

definition charged :: "(addr \<Rightarrow> (nat \<times> nat) option) \<Rightarrow> nat \<Rightarrow> addr set" where
  "charged lv t = {a. \<exists>n. lv a = Some (n, t)}"

definition held :: "(addr \<Rightarrow> (nat \<times> nat) option) \<Rightarrow> addr \<Rightarrow> int" where
  "held lv a = (case lv a of None \<Rightarrow> 0 | Some (n, t) \<Rightarrow> int n)"

definition accounts :: "kmem \<Rightarrow> (addr \<Rightarrow> (nat \<times> nat) option) \<Rightarrow> bool" where
  "accounts k lv \<longleftrightarrow> finite (dom lv) \<and> (\<forall>t. ks_memuse (kstats k t) = (\<Sum>a \<in> charged lv t. held lv a) \<and>
     ks_inuse (kstats k t) = int (card (charged lv t)))"

lemma charged_finite: "finite (dom lv) \<Longrightarrow> finite (charged lv t)"
  by (rule finite_subset [of _ "dom lv"]) (auto simp: charged_def)

lemma accounts_new:
  assumes "accounts k lv" "lv a = None" "charges t (int n) 1 k k'"
  shows "accounts k' (lv(a \<mapsto> (n, t)))"
proof -
  have c: "charged (lv(a \<mapsto> (n, t))) u = (if u = t then insert a (charged lv u) else charged lv u)" for u
    using assms(2) by (auto simp: charged_def)
  have na: "a \<notin> charged lv u" for u using assms(2) by (simp add: charged_def)
  have h: "held (lv(a \<mapsto> (n, t))) b = (if b = a then int n else held lv b)" for b by (simp add: held_def)
  have "(\<Sum>b \<in> charged lv u. held (lv(a \<mapsto> (n, t))) b) = (\<Sum>b \<in> charged lv u. held lv b)" for u
    by (rule sum.cong [OF refl]) (use na in \<open>auto simp: h\<close>)
  then show ?thesis using assms(1,3) charged_finite [of lv] na by (auto simp: accounts_def charges_def c h)
qed

lemma accounts_free:
  assumes ac: "accounts k lv" and a: "lv a = Some (n, t)" and ch: "charges t (- int n) (- 1) k k'"
  shows "accounts k' (lv(a := None))"
proof -
  have fin: "finite (charged lv u)" for u using ac by (intro charged_finite) (simp add: accounts_def)
  have at: "a \<in> charged lv t" using a by (simp add: charged_def)
  have c: "charged (lv(a := None)) u = charged lv u - {a}" for u by (auto simp: charged_def)
  have h: "held (lv(a := None)) b = (if b = a then 0 else held lv b)" for b by (simp add: held_def)
  have s: "(\<Sum>b \<in> charged lv u - {a}. held (lv(a := None)) b) = (\<Sum>b \<in> charged lv u - {a}. held lv b)" for u
    by (rule sum.cong [OF refl]) (simp add: h)
  have "(\<Sum>b \<in> charged lv t. held lv b) = int n + (\<Sum>b \<in> charged lv t - {a}. held lv b)"
    using sum.remove [OF fin at, of "held lv"] a by (simp add: held_def)
  moreover have "charged lv u - {a} = charged lv u" if "u \<noteq> t" for u using a that by (auto simp: charged_def)
  moreover have "card (charged lv t) = Suc (card (charged lv t - {a}))" using card.remove [OF fin at] .
  ultimately show ?thesis using ac ch unfolding accounts_def charges_def c s by auto
qed

lemma accounts_cong: "kstats k' = kstats k \<Longrightarrow> accounts k' lv = accounts k lv"
  by (simp add: accounts_def)

lemma malloc_list:
  assumes "kmem_inv k lv own fl" "malloc sz t fg k = Done (MGot a k')"
  shows "t < M_LAST \<and> malloc_take sz t fg k = Done (MGot a k') \<and> (\<exists>rest. fl (BUCKETINDX sz) = a # rest)"
proof -
  have m: "t < M_LAST" "malloc_take sz t fg k = Done (MGot a k')" "kb_next (bucket k (BUCKETINDX sz)) \<noteq> 0"
    using assms(2) by (auto simp: malloc_def split: if_splits)
  then obtain v rest where f: "fl (BUCKETINDX sz) = v # rest"
    using kmem_invD(4) [OF assms(1), of "BUCKETINDX sz"] by (cases "fl (BUCKETINDX sz)") auto
  then show ?thesis using take_inv [OF assms(1) f, of t fg] m by auto
qed

lemma pages_step:
  assumes inv: "kmem_inv k lv own fl" and fr: "pages_fresh k own va (npages sz)"
  shows "\<exists>r k' fl'. malloc_pages sz t fg (Some va) k = Done (MGot r k') \<and>
    kmem_inv k' (lv(r \<mapsto> (nat (allocsize sz), t))) (own \<union> {page k va..<page k va + npages sz}) fl' \<and> lv r = None \<and>
    unat sz \<le> nat (allocsize sz) \<and> charges t (int (nat (allocsize sz))) 1 k k' \<and> kevents k' = kevents k"
proof (cases "unat sz \<le> 4096")
  case True
  then have "allocsize sz = int (2 ^ BUCKETINDX sz)" using npages_small by simp
  then have e: "nat (allocsize sz) = 2 ^ BUCKETINDX sz" by (simp only: nat_int)
  show ?thesis unfolding e using pages_small [OF inv True fr, of t fg] by simp
next
  case False
  have n0: "0 < npages sz" using fr by (simp add: pages_fresh_def)
  then have "npages sz - 1 < npages sz" by simp
  then have "page k va + (npages sz - 1) < 1024" using fr unfolding pages_fresh_def by blast
  then have "npages sz \<le> 1024" using n0 by linarith
  then have "allocsize sz = int (npages sz * 4096)" using npages_large [of sz] False n0 by simp
  then have e: "nat (allocsize sz) = npages sz * 4096" by (simp only: nat_int)
  have "4096 < unat sz" using False by simp
  then show ?thesis unfolding e using pages_large [OF inv _ fr, of t fg] by blast
qed

lemma hist_inv:
  assumes "kmem_hist kend k lv own"
  shows "\<exists>fl. kmem_inv k lv own fl \<and> kend \<le> kmembase k \<and> accounts k lv"
  using assms
proof (induction rule: kmem_hist.induct)
  case (mh_start base m)
  have "accounts (kmeminit base m) Map.empty" by (simp add: accounts_def kmeminit_def charged_def Let_def)
  then show ?case using init_inv [OF mh_start(2-4), of m] mh_start(1) by (auto simp: kmeminit_def Let_def)
next
  case (mh_list k lv own sz t fg a k')
  then obtain fl where inv: "kmem_inv k lv own fl" and ke: "kend \<le> kmembase k" and ac: "accounts k lv" by blast
  obtain rest where f: "fl (BUCKETINDX sz) = a # rest" "malloc_take sz t fg k = Done (MGot a k')" using malloc_list [OF inv mh_list.hyps(2)] by blast
  obtain k2 where k2: "malloc_take sz t fg k = Done (MGot a k2)" "kmem_inv k2 (lv(a \<mapsto> (2 ^ BUCKETINDX sz, t))) own (fl(BUCKETINDX sz := rest))"
    "lv a = None" "charges t (2 ^ BUCKETINDX sz) 1 k k2" using take_inv [OF inv f(1), of t fg] by blast
  have "k2 = k'" using k2(1) f(2) by simp
  moreover have "accounts k2 (lv(a \<mapsto> (2 ^ BUCKETINDX sz, t)))" using k2(4) by (intro accounts_new [OF ac k2(3)]) simp
  moreover have "kmembase k2 = kmembase k" using k2(1) by (auto simp: malloc_take_def Let_def kbind_Done_iff malloc_rest kmem_upds split: if_splits)
  ultimately have "kend \<le> kmembase k'" "accounts k' (lv(a \<mapsto> (2 ^ BUCKETINDX sz, t)))" using ke by simp_all
  then show ?case using k2(2) \<open>k2 = k'\<close> by blast
next
  case (mh_limit k lv own sz t fg k')
  then obtain fl where inv: "kmem_inv k lv own fl" and ke: "kend \<le> kmembase k" and ac: "accounts k lv" by blast
  have "malloc_take sz t fg k \<noteq> Done (MSleep k')" by (auto simp: malloc_take_def Let_def kbind_Done_iff)
  then have k': "k' = upd_stats t (\<lambda>ks. ks\<lparr>ks_limblocks := (if ks_limblocks ks < 65535 then ks_limblocks ks + 1 else ks_limblocks ks)\<rparr>) k"
    using mh_limit.hyps(2) unfolding malloc_def by (simp split: if_splits)
  have pg: "page k' = page k" by (simp add: fun_eq_iff page_def k' upd_stats_def)
  have "kmem_inv k' lv own fl" using inv unfolding kmem_inv_def block_in_def large_in_def pg by (simp add: arena_ok_def k' upd_stats_def)
  moreover have "accounts k' lv" using ac by (simp add: accounts_def k' upd_stats_def)
  ultimately show ?case using ke by (auto simp: k' upd_stats_def)
next
  case (mh_pages k lv own t va sz fg a k')
  then obtain fl where inv: "kmem_inv k lv own fl" and ke: "kend \<le> kmembase k" and ac: "accounts k lv" by blast
  obtain fl' where s: "kmem_inv k' (lv(a \<mapsto> (nat (allocsize sz), t))) (own \<union> {page k va..<page k va + npages sz}) fl'" "lv a = None"
    "charges t (int (nat (allocsize sz))) 1 k k'" using pages_step [OF inv mh_pages.hyps(3), of t fg] mh_pages.hyps(4) by auto
  have "kmembase k' = kmembase k" using mh_pages.hyps(4)
    by (auto simp: malloc_pages_def malloc_take_def Let_def kbind_Done_iff malloc_rest kmem_upds split: if_splits)
  then have "kend \<le> kmembase k'" using ke by simp
  then show ?case using s(1) accounts_new [OF ac s(2,3)] by blast
next
  case (mh_free k lv own a n t k' es)
  then obtain fl where inv: "kmem_inv k lv own fl" and ke: "kend \<le> kmembase k" and ac: "accounts k lv" by blast
  obtain k2 es2 fl' where r: "free kend a t k = Some (Done k2)" "kevents k2 = kevents k @ es2" "kmem_inv k2 (lv(a := None)) (own - freed_pages k es2) fl'"
    "charges t (- int n) (- 1) k k2" using free_ok [OF inv mh_free.hyps(2) ke] by blast
  have e: "k2 = k'" "es2 = es" using r(1,2) mh_free.hyps(3,4) by auto
  have "kmembase k' = kmembase k" using mh_free.hyps(3)
    by (auto simp: free_def free_page_def Let_def kmem_upds uncharge_rest split: if_splits option.splits kres.splits)
  then have "kend \<le> kmembase k'" using ke by simp
  then show ?case using r(3,4) e accounts_free [OF ac mh_free.hyps(2)] by blast
next
  case (mh_write k lv own m)
  then obtain fl where inv: "kmem_inv k lv own fl" and ke: "kend \<le> kmembase k" and ac: "accounts k lv" by blast
  have "kmem_inv (k\<lparr>kwords := m\<rparr>) lv own fl" by (rule write_inv [OF inv]) (rule mh_write.hyps(2))
  then show ?case using ke ac by (auto simp: accounts_def)
qed

text \<open>
  C11: in every history the blocks in use lie in the arena, do not overlap, and none is on a free list;
  a block of a page of a bucket that is not in use is on the list of its bucket: none is lost.
\<close>

theorem malloc_blocks_apart:
  assumes "kmem_hist kend k lv own"
  shows "(\<forall>a n t. lv a = Some (n, t) \<longrightarrow> kmembase k \<le> a \<and> a + n \<le> kmemlimit k) \<and>
    (\<forall>a n t b m u. lv a = Some (n, t) \<longrightarrow> lv b = Some (m, u) \<longrightarrow> a < b \<longrightarrow> a + n \<le> b) \<and>
    (\<forall>i. \<exists>as. fchain (kwords k) (kb_next (bucket k i)) as \<and> distinct as \<and> set as \<inter> dom lv = {} \<and>
      (\<forall>a. block_in k own i a \<longrightarrow> a \<in> set as \<or> a \<in> dom lv))"
proof -
  obtain fl where inv: "kmem_inv k lv own fl" using hist_inv [OF assms] by blast
  have "set (fl i) \<inter> dom lv = {}" for i
  proof -
    have "a \<notin> dom lv" if a: "a \<in> set (fl i)" for a
    proof
      assume "a \<in> dom lv"
      then obtain n t where "lv a = Some (n, t)" by auto
      from kmem_invD(9) [OF inv this] show False using kmem_invD(7) [OF inv a] a by (auto simp: block_in_def large_in_def)
    qed
    then show ?thesis by blast
  qed
  then have "\<exists>as. fchain (kwords k) (kb_next (bucket k i)) as \<and> distinct as \<and> set as \<inter> dom lv = {} \<and>
      (\<forall>a. block_in k own i a \<longrightarrow> a \<in> set as \<or> a \<in> dom lv)" for i
    using kmem_invD(4,5,10) [OF inv, of i] by blast
  then show ?thesis using live_in_arena [OF inv] live_disjoint [OF inv] by blast
qed

text \<open>
  C34: a request below the limit of its type is served: with a block from the list of its bucket that was
  not in use and is large enough, or with fresh pages when the list is empty; no check of the allocator
  panics, and the outcome continues the history.
\<close>

theorem malloc_serves:
  assumes h: "kmem_hist kend k lv own" and t: "t < M_LAST" "ks_memuse (kstats k t) < ks_limit (kstats k t)"
  shows "(\<exists>a k'. malloc sz t fg k = Done (MGot a k') \<and> lv a = None \<and> unat sz \<le> 2 ^ BUCKETINDX sz \<and>
      kmem_hist kend k' (lv(a \<mapsto> (2 ^ BUCKETINDX sz, t))) own) \<or>
    malloc sz t fg k = Done (MPages (npages sz)) \<and>
    (\<forall>va. pages_fresh k own va (npages sz) \<longrightarrow> (\<exists>a k'. malloc_pages sz t fg (Some va) k = Done (MGot a k') \<and> lv a = None \<and>
      unat sz \<le> nat (allocsize sz) \<and> kmem_hist kend k' (lv(a \<mapsto> (nat (allocsize sz), t))) (own \<union> {page k va..<page k va + npages sz})))"
proof -
  obtain fl where inv: "kmem_inv k lv own fl" using hist_inv [OF h] by blast
  show ?thesis
  proof (cases "kb_next (bucket k (BUCKETINDX sz)) = 0")
    case True
    then have "malloc sz t fg k = Done (MPages (npages sz))" using t by (simp add: malloc_def)
    moreover have "\<exists>a k'. malloc_pages sz t fg (Some va) k = Done (MGot a k') \<and> lv a = None \<and> unat sz \<le> nat (allocsize sz) \<and>
        kmem_hist kend k' (lv(a \<mapsto> (nat (allocsize sz), t))) (own \<union> {page k va..<page k va + npages sz})"
      if "pages_fresh k own va (npages sz)" for va
      using pages_step [OF inv that, of t fg] mh_pages [OF h t(1) that] by blast
    ultimately show ?thesis by blast
  next
    case False
    then obtain v rest where f: "fl (BUCKETINDX sz) = v # rest"
      using kmem_invD(4) [OF inv, of "BUCKETINDX sz"] by (cases "fl (BUCKETINDX sz)") auto
    obtain k' where "malloc_take sz t fg k = Done (MGot v k')" "lv v = None" "unat sz \<le> 2 ^ BUCKETINDX sz"
      using take_inv [OF inv f, of t fg] by blast
    moreover from this have "malloc sz t fg k = Done (MGot v k')" using t False by (simp add: malloc_def)
    ultimately show ?thesis using mh_list [OF h] by blast
  qed
qed

text \<open>
  C21: the release of a block in use never panics and always returns: the walk over the list ends, and
  finds every block of a page that is given back; no block in use lies in such a page.
\<close>

theorem free_returns:
  assumes h: "kmem_hist kend k lv own" and a: "lv a = Some (n, t)"
  shows "\<exists>k' es. free kend a t k = Some (Done k') \<and> kevents k' = kevents k @ es \<and>
    kmem_hist kend k' (lv(a := None)) (own - freed_pages k es) \<and>
    (\<forall>b m u. lv b = Some (m, u) \<longrightarrow> b \<noteq> a \<longrightarrow> page k b \<in> own - freed_pages k es)"
proof -
  obtain fl where inv: "kmem_inv k lv own fl" and ke: "kend \<le> kmembase k" using hist_inv [OF h] by blast
  obtain k' es fl' where r: "free kend a t k = Some (Done k')" "kevents k' = kevents k @ es"
    "kmem_inv k' (lv(a := None)) (own - freed_pages k es) fl'" using free_ok [OF inv a ke] by blast
  have "kmembase k' = kmembase k" using r(1)
    by (auto simp: free_def free_page_def Let_def kmem_upds uncharge_rest split: if_splits option.splits kres.splits)
  then have "page k' = page k" by (simp add: fun_eq_iff page_def)
  then have "page k b \<in> own - freed_pages k es" if "lv b = Some (m, u)" "b \<noteq> a" for b m u
    using dead_page [OF r(3), of b] that by auto
  then show ?thesis using r(1,2) mh_free [OF h a r(1,2)] by blast
qed

text \<open>
  every type of memory is charged for exactly the blocks of that type that are in use.
\<close>

theorem malloc_accounts:
  assumes "kmem_hist kend k lv own"
  shows "ks_inuse (kstats k t) = int (card (charged lv t)) \<and> ks_memuse (kstats k t) = (\<Sum>a \<in> charged lv t. held lv a)"
  using hist_inv [OF assms] by (auto simp: accounts_def)

section \<open>Requests that go wrong\<close>

text \<open>A size within a page of \<open>2 ^ 32\<close> is rounded up to nothing; the tests of type and address let one value too many pass.\<close>

lemma malloc_size_wraps: "4294963200 < unat sz \<Longrightarrow> allocsize sz = 0 \<and> npages sz = 0"
proof -
  assume s: "4294963200 < unat sz"
  have "unat (sz + 4095) < 4095"
    using wrap_less [of "unat sz" 4294967296 4095] s by (simp add: unat_word_ariths)
  then have "unat ((sz + 4095) div 4096) = 0" by (simp add: unat_div_distrib)
  then have "(sz + 4095) div 4096 = 0" by (simp add: unat_eq_0)
  then have "allocsize sz = 0" using s by (simp add: allocsize_def kmem_consts)
  then show ?thesis by (simp add: npages_def kmem_consts)
qed

lemma malloc_type_50: "malloc sz M_LAST fg k = Fault"
  by (simp add: malloc_def)

lemma free_at_limit: "kmembase k \<le> kmemlimit k \<Longrightarrow> kend \<le> kmembase k \<Longrightarrow> free kend (kmemlimit k) t k = Some Fault"
  by (simp add: free_def btokup_def)

section \<open>An example\<close>

definition kmem_demo :: kmem where
  "kmem_demo = kmeminit 8388608 (\<lambda>_. 0)"

lemma kmem_demo_hist: "kmem_hist 4194304 kmem_demo Map.empty {}"
  unfolding kmem_demo_def by (rule mh_start) (simp_all add: kmem_consts)

lemma kmem_demo_fresh: "pages_fresh kmem_demo {} 8388608 (npages 100)"
  using npages_small [of 100] by (simp add: pages_fresh_def kmem_demo_def kmeminit_def page_def Let_def)

lemma kmem_demo_alloc:
  "\<exists>a k own. kmem_hist 4194304 k [a \<mapsto> (128, 2)] own"
proof -
  obtain a k where "malloc_pages 100 2 0 (Some 8388608) kmem_demo = Done (MGot a k)"
    using pages_step [OF init_inv _ , of 8388608 "\<lambda>_. 0" 8388608 100 2 0] kmem_demo_fresh by (auto simp: kmem_demo_def kmem_consts)
  from mh_pages [OF kmem_demo_hist _ kmem_demo_fresh this] have
    "kmem_hist 4194304 k [a \<mapsto> (nat (allocsize 100), 2)] ({} \<union> {page kmem_demo 8388608..<page kmem_demo 8388608 + npages 100})"
    by (simp add: kmem_consts)
  moreover have "nat (allocsize 100) = 128" by code_simp
  ultimately show ?thesis by metis
qed

theorem malloc_sizes_witness:
  "allocsize 100 = 128 \<and> npages 100 = 1 \<and> allocsize 9000 = int (npages 9000 * 4096) \<and> (npages 9000 - 1) * 4096 < 9000 \<and>
   9000 \<le> npages 9000 * 4096"
proof -
  have "BUCKETINDX 100 = 7" by (simp add: BUCKETINDX_def kmem_consts Let_def)
  then have "allocsize 100 = 128 \<and> npages 100 = 1" using malloc_sizes [of 100] by simp
  moreover have "allocsize 9000 = int (npages 9000 * 4096) \<and> (npages 9000 - 1) * 4096 < 9000 \<and> 9000 \<le> npages 9000 * 4096"
    using malloc_sizes [of 9000] by simp
  ultimately show ?thesis by blast
qed

theorem malloc_blocks_apart_witness: "\<exists>a k own. kmem_hist 4194304 k [a \<mapsto> (128, 2)] own \<and> kmembase k \<le> a \<and> a + 128 \<le> kmemlimit k"
proof -
  obtain a k own where h: "kmem_hist 4194304 k [a \<mapsto> (128, 2)] own" using kmem_demo_alloc by blast
  from malloc_blocks_apart [OF h] have "kmembase k \<le> a \<and> a + 128 \<le> kmemlimit k" by (metis fun_upd_same)
  then show ?thesis using h by blast
qed

theorem malloc_serves_witness:
  "\<exists>a k' own. malloc_pages 100 2 0 (Some 8388608) kmem_demo = Done (MGot a k') \<and> kmem_hist 4194304 k' [a \<mapsto> (nat (allocsize 100), 2)] own"
proof -
  have t: "2 < M_LAST" "ks_memuse (kstats kmem_demo 2) < ks_limit (kstats kmem_demo 2)"
    by (simp_all add: kmem_demo_def kmeminit_def kmem_consts Let_def)
  have "malloc 100 2 0 kmem_demo = Done (MPages (npages 100))"
    using t by (simp add: malloc_def kmem_demo_def kmeminit_def Let_def)
  then show ?thesis using malloc_serves [OF kmem_demo_hist t, of 100 0] kmem_demo_fresh by fastforce
qed

theorem free_returns_witness:
  "\<exists>a k k' own. kmem_hist 4194304 k [a \<mapsto> (128, 2)] own \<and> free 4194304 a 2 k = Some (Done k')"
proof -
  obtain a k own where h: "kmem_hist 4194304 k [a \<mapsto> (128, 2)] own" using kmem_demo_alloc by blast
  from free_returns [OF h, of a 128 2] show ?thesis using h by auto
qed

theorem malloc_accounts_witness:
  "\<exists>a k own. kmem_hist 4194304 k [a \<mapsto> (128, 2)] own \<and> ks_memuse (kstats k 2) = 128"
proof -
  obtain a k own where h: "kmem_hist 4194304 k [a \<mapsto> (128, 2)] own" using kmem_demo_alloc by blast
  have "charged [a \<mapsto> (128, 2)] 2 = {a}" by (auto simp: charged_def split: if_splits)
  then show ?thesis using malloc_accounts [OF h, of 2] h by (auto simp: held_def)
qed

end
