(* ===== verification/Sigframe.thy ===== *)
theory Sigframe
  imports Prelude
begin

unbundle bit_operations_syntax

text \<open>
  The signal state of a process (\<open>include/signalvar.h\<close>, \<open>include/sys/signal.h\<close>) and the frame a
  signal leaves on the stack: \<open>cpu_signal\<close> and \<open>cpu_signalreturn\<close> of \<open>kern/i386/cpu.c\<close> with
  \<open>kern/i386/sigframe.h\<close>.  The memory is the address space the kernel sees while the process runs,
  byte by byte; a reference to a byte that is not mapped faults, and \<open>md_onfault\<close> turns the fault
  into \<open>EFAULT\<close>, with the stores before it done.  The bytes of \<open>sigcode\<close> are an argument.
\<close>

section \<open>The signal state of a process\<close>

record sigproc =
  p_sig :: u32
  p_sigmask :: u32
  p_sigignore :: u32
  p_sigcatch :: u32
  p_ssys :: bool
  p_snocldstop :: bool
  ps_sigact :: "nat \<Rightarrow> u32"
  ps_catchmask :: "nat \<Rightarrow> u32"
  ps_sigonstack :: u32
  ps_sigintr :: u32
  ps_oldmask :: u32
  ps_flags :: u32
  ps_onstack :: u32
  ps_sigsp :: u32
  ps_sig :: nat
  ps_code :: u32

definition NSIG :: nat where "NSIG = 32"
definition SIGILL :: nat where "SIGILL = 4"
definition SIGTRAP :: nat where "SIGTRAP = 5"
definition sigKILL :: nat where "sigKILL = 9"
definition SIGSEGV :: nat where "SIGSEGV = 11"
definition SIGSYS :: nat where "SIGSYS = 12"
definition SIGTERM :: nat where "SIGTERM = 15"
definition SIGURG :: nat where "SIGURG = 16"
definition SIGSTOP :: nat where "SIGSTOP = 17"
definition SIGTSTP :: nat where "SIGTSTP = 18"
definition sigCONT :: nat where "sigCONT = 19"
definition sigCHLD :: nat where "sigCHLD = 20"
definition SIGTTIN :: nat where "SIGTTIN = 21"
definition SIGTTOU :: nat where "SIGTTOU = 22"

lemmas sig_defs = NSIG_def SIGILL_def SIGTRAP_def sigKILL_def SIGSEGV_def SIGSYS_def SIGTERM_def SIGURG_def SIGSTOP_def
  SIGTSTP_def sigCONT_def sigCHLD_def SIGTTIN_def SIGTTOU_def

text \<open>The shift count of the i386 is taken modulo 32.\<close>

definition sigmask :: "nat \<Rightarrow> u32" where
  "sigmask m = push_bit ((m + 31) mod 32) 1"

definition sigcantmask :: u32 where
  "sigcantmask = sigmask sigKILL OR sigmask SIGSTOP"

definition SIG_DFL :: u32 where "SIG_DFL = 0"
definition SIG_IGN :: u32 where "SIG_IGN = 1"
definition BADSIG :: u32 where "BADSIG = -1"
definition SA_OLDMASK :: u32 where "SA_OLDMASK = 1"

section \<open>The machine\<close>

definition tEBP :: nat where "tEBP = 4"
definition tEDX :: nat where "tEDX = 7"
definition tECX :: nat where "tECX = 8"
definition tEAX :: nat where "tEAX = 9"
definition tEIP :: nat where "tEIP = 12"
definition tEFLAGS :: nat where "tEFLAGS = 14"
definition tESP :: nat where "tESP = 15"
definition sEBP :: nat where "sEBP = 2"
definition sEDX :: nat where "sEDX = 5"
definition sECX :: nat where "sECX = 6"
definition sEAX :: nat where "sEAX = 7"
definition sEFLAGS :: nat where "sEFLAGS = 8"
definition sEIP :: nat where "sEIP = 9"
definition sESP :: nat where "sESP = 11"

lemmas reg_defs = tEBP_def tEDX_def tECX_def tEAX_def tEIP_def tEFLAGS_def tESP_def sEBP_def sEDX_def sECX_def sEAX_def
  sEFLAGS_def sEIP_def sESP_def

definition PSL_MBZ :: u32 where "PSL_MBZ = 0xfff88028"
definition PSL_MBO :: u32 where "PSL_MBO = 2"
definition PSL_USERSET :: u32 where "PSL_USERSET = 0x200"
definition PSL_USERCLR :: u32 where "PSL_USERCLR = 0x4000"
definition PSL_IOPL :: u32 where "PSL_IOPL = 0x3000"

definition USRSTACK :: u32 where "USRSTACK = 0xFE000000 - push_bit 22 1"
definition EJUSTRETURN :: int where "EJUSTRETURN = -2"

text \<open>The saved registers, whether they were saved by a trap, and the memory.\<close>

record mach =
  md_regs :: "nat \<Rightarrow> u32"
  fm_trap :: bool
  um_byte :: "u32 \<Rightarrow> u8"
  um_ok :: "u32 \<Rightarrow> bool"

definition setreg :: "nat \<Rightarrow> u32 \<Rightarrow> mach \<Rightarrow> mach" where
  "setreg r v m = m\<lparr>md_regs := (md_regs m)(r := v)\<rparr>"

definition bytes32 :: "u32 \<Rightarrow> u8 list" where
  "bytes32 v = [ucast v, ucast (drop_bit 8 v), ucast (drop_bit 16 v), ucast (drop_bit 24 v)]"

text \<open>Stores of bytes from an address on: whether none faulted, and the state.\<close>

fun stores :: "u32 \<Rightarrow> u8 list \<Rightarrow> mach \<Rightarrow> bool \<times> mach" where
  "stores a [] m = (True, m)"
| "stores a (b # bs) m =
     (if um_ok m a then stores (a + 1) bs (m\<lparr>um_byte := (um_byte m)(a := b)\<rparr>) else (False, m))"

fun blocks :: "(u32 \<times> u8 list) list \<Rightarrow> mach \<Rightarrow> bool \<times> mach" where
  "blocks [] m = (True, m)"
| "blocks ((a, bs) # xs) m = (let (ok, m1) = stores a bs m in if ok then blocks xs m1 else (False, m1))"

definition rd32 :: "u32 \<Rightarrow> mach \<Rightarrow> u32 option" where
  "rd32 a m =
     (if um_ok m a \<and> um_ok m (a + 1) \<and> um_ok m (a + 2) \<and> um_ok m (a + 3)
      then Some (ucast (um_byte m a) OR push_bit 8 (ucast (um_byte m (a + 1))) OR
                 push_bit 16 (ucast (um_byte m (a + 2))) OR push_bit 24 (ucast (um_byte m (a + 3))))
      else None)"

section \<open>Entering the handler\<close>

text \<open>\<open>struct sigframe\<close> has 72 bytes; \<open>sf_sigcode\<close> is at 28 and \<open>sf_sc\<close> at 44.\<close>

definition sf_size :: u32 where "sf_size = 72"

definition on_sigstack :: "nat \<Rightarrow> sigproc \<Rightarrow> bool" where
  "on_sigstack sig sp \<longleftrightarrow> ps_onstack sp = 0 \<and> ps_sigonstack sp AND sigmask sig \<noteq> 0"

definition frame_base :: "nat \<Rightarrow> sigproc \<Rightarrow> mach \<Rightarrow> u32" where
  "frame_base sig sp m =
     (if on_sigstack sig sp then ps_sigsp sp else if fm_trap m then md_regs m tESP else md_regs m sESP) - sf_size"

text \<open>The stores into the frame, in their order.\<close>

definition frame_blocks :: "u8 list \<Rightarrow> nat \<Rightarrow> u32 \<Rightarrow> u32 \<Rightarrow> sigproc \<Rightarrow> mach \<Rightarrow> (u32 \<times> u8 list) list" where
  "frame_blocks sigcode sig msk fp sp m =
     (let r = (\<lambda>t s. md_regs m (if fm_trap m then t else s)) in
      [(fp, bytes32 (of_nat sig)), (fp + 4, bytes32 (ps_code sp)), (fp + 8, bytes32 (fp + 44)), (fp + 12, bytes32 (ps_sigact sp sig)),
       (fp + 16, bytes32 (r tEAX sEAX)), (fp + 20, bytes32 (r tEDX sEDX)), (fp + 24, bytes32 (r tECX sECX)),
       (fp + 44, bytes32 (ps_onstack sp)), (fp + 48, bytes32 msk), (fp + 28, sigcode),
       (fp + 52, bytes32 (r tESP sESP)), (fp + 56, bytes32 (r tEBP sEBP)), (fp + 64, bytes32 (r tEIP sEIP)),
       (fp + 68, bytes32 (r tEFLAGS sEFLAGS))])"

text \<open>\<open>cpu_signal\<close>, for the current process: the error, the signal state and the machine.\<close>

definition cpu_signal :: "u8 list \<Rightarrow> nat \<Rightarrow> u32 \<Rightarrow> sigproc \<Rightarrow> mach \<Rightarrow> int \<times> sigproc \<times> mach" where
  "cpu_signal sigcode sig msk sp m =
     (let fp = frame_base sig sp m;
          sp1 = (if on_sigstack sig sp then sp\<lparr>ps_onstack := ps_onstack sp + 1\<rparr> else sp) in
      if ps_sigact sp sig = BADSIG \<or> USRSTACK < fp + sf_size then (EFAULT, sp1, m)
      else let (ok, m1) = blocks (frame_blocks sigcode sig msk fp sp m) m in
           if \<not> ok then (EFAULT, sp1, m1)
           else (0, sp1, setreg (if fm_trap m then tEIP else sEIP) (fp + 28) (setreg (if fm_trap m then tESP else sESP) fp m1)))"

section \<open>Leaving the handler\<close>

text \<open>
  The loads of \<open>cpu_signalreturn\<close> with what is done with each value, in their order: \<open>sc_onstack\<close>,
  \<open>sc_mask\<close>, \<open>sc_fp\<close>, \<open>sc_sp\<close>, \<open>sc_pc\<close>, \<open>sc_ps\<close>, \<open>sf_eax\<close>, \<open>sf_edx\<close>, \<open>sf_ecx\<close>.
\<close>

definition restores :: "(u32 \<times> (u32 \<Rightarrow> sigproc \<times> mach \<Rightarrow> sigproc \<times> mach)) list" where
  "restores =
     (let reg = (\<lambda>r f v (sp, m). (sp :: sigproc, setreg r (f v) m)) in
      [(44, \<lambda>v (sp, m). (sp\<lparr>ps_onstack := v AND 1\<rparr>, m)),
       (48, \<lambda>v (sp, m). (sp\<lparr>p_sigmask := v AND NOT sigcantmask\<rparr>, m)),
       (56, reg sEBP id), (52, reg sESP id), (64, reg sEIP id),
       (68, reg sEFLAGS (\<lambda>v. (v OR PSL_USERSET) AND NOT PSL_USERCLR)),
       (16, reg sEAX id), (20, reg sEDX id), (24, reg sECX id)])"

fun restore :: "u32 \<Rightarrow> (u32 \<times> (u32 \<Rightarrow> sigproc \<times> mach \<Rightarrow> sigproc \<times> mach)) list \<Rightarrow> sigproc \<times> mach \<Rightarrow> int \<times> sigproc \<times> mach" where
  "restore fp [] s = (EJUSTRETURN, s)"
| "restore fp ((k, f) # xs) s =
     (case rd32 (fp + k) (snd s) of None \<Rightarrow> (EFAULT, s) | Some v \<Rightarrow> restore fp xs (f v s))"

definition cpu_signalreturn :: "sigproc \<Rightarrow> mach \<Rightarrow> int \<times> sigproc \<times> mach" where
  "cpu_signalreturn sp m =
     (let fp = md_regs m sESP in
      if USRSTACK < fp + sf_size then (EFAULT, sp, m)
      else case rd32 (fp + 8) m of None \<Rightarrow> (EFAULT, sp, m) | Some scp \<Rightarrow>
        if scp \<noteq> fp + 44 then (EINVAL, sp, m)
        else case rd32 (fp + 68) m of None \<Rightarrow> (EFAULT, sp, m) | Some psl \<Rightarrow>
          if psl AND PSL_MBZ \<noteq> 0 \<or> psl AND PSL_MBO \<noteq> PSL_MBO then (EINVAL, sp, m)
          else restore fp restores (sp, m))"

section \<open>Memory\<close>

definition putb :: "u32 \<Rightarrow> u8 list \<Rightarrow> (u32 \<Rightarrow> u8) \<Rightarrow> u32 \<Rightarrow> u8" where
  "putb a bs f x = (if unat (x - a) < length bs then bs ! unat (x - a) else f x)"

definition get4 :: "(u32 \<Rightarrow> u8) \<Rightarrow> u32 \<Rightarrow> u32" where
  "get4 f a = ucast (f a) OR push_bit 8 (ucast (f (a + 1))) OR push_bit 16 (ucast (f (a + 2))) OR push_bit 24 (ucast (f (a + 3)))"

lemma length_bytes32 [simp]: "length (bytes32 v) = 4"
  by (simp add: bytes32_def)

lemma bytes32_join:
  "(ucast (ucast v :: u8) :: u32) OR push_bit 8 (ucast (ucast (drop_bit 8 v) :: u8)) OR
     push_bit 16 (ucast (ucast (drop_bit 16 v) :: u8)) OR push_bit 24 (ucast (ucast (drop_bit 24 v) :: u8)) = v"
proof (rule bit_word_eqI)
  fix n assume n: "n < LENGTH(32)"
  consider "n < 8" | "8 \<le> n" "n < 16" | "16 \<le> n" "n < 24" | "24 \<le> n" by linarith
  then show "bit ((ucast (ucast v :: u8) :: u32) OR push_bit 8 (ucast (ucast (drop_bit 8 v) :: u8)) OR
     push_bit 16 (ucast (ucast (drop_bit 16 v) :: u8)) OR push_bit 24 (ucast (ucast (drop_bit 24 v) :: u8))) n = bit v n"
    using n by cases (auto simp: bit_or_iff bit_push_bit_iff bit_ucast_iff bit_drop_bit_eq)
qed

lemma get4_same: "get4 (putb a (bytes32 v) f) a = v"
  by (simp add: get4_def putb_def bytes32_def bytes32_join)

lemma unat_shift:
  assumes "unat (d :: u32) < 4294967293"
  shows "unat (d + 1) = unat d + 1" "unat (d + 2) = unat d + 2" "unat (d + 3) = unat d + 3"
  using assms by (simp_all add: unat_word_ariths)

lemma get4_other:
  assumes "length bs \<le> unat (a - b)" "unat (a - b) < 4294967293"
  shows "get4 (putb b bs f) a = get4 f a"
proof -
  have far: "putb b bs f x = f x" if "length bs \<le> unat (x - b)" for x using that by (simp add: putb_def)
  have e: "a + 1 - b = (a - b) + 1" "a + 2 - b = (a - b) + 2" "a + 3 - b = (a - b) + 3" by simp_all
  have "putb b bs f a = f a" "putb b bs f (a + 1) = f (a + 1)" "putb b bs f (a + 2) = f (a + 2)" "putb b bs f (a + 3) = f (a + 3)"
    by (rule far; use assms(1) unat_shift [OF assms(2)] in \<open>simp only: e; linarith\<close>)+
  then show ?thesis by (simp add: get4_def)
qed

lemma rd32_get4: "rd32 a m = (if um_ok m a \<and> um_ok m (a + 1) \<and> um_ok m (a + 2) \<and> um_ok m (a + 3) then Some (get4 (um_byte m) a) else None)"
  by (simp add: rd32_def get4_def)

lemma putb_Cons:
  assumes "length bs < 4294967295"
  shows "putb (a + 1) bs (f(a := b)) = putb a (b # bs) f"
proof
  fix x :: u32
  have u: "unat (x - a - 1) = (if x = a then 4294967295 else unat (x - a) - 1)"
    by (auto simp: unat_minus_one unsigned_minus_1_eq_mask mask_eq_exp_minus_1)
  have "unat (x - a) = 0 \<longleftrightarrow> x = a" by (metis right_minus_eq unat_eq_zero)
  then show "putb (a + 1) bs (f(a := b)) x = putb a (b # bs) f x"
    using u assms by (auto simp: putb_def diff_diff_eq [symmetric] nth_Cons split: nat.splits)
qed

lemma stores_ok:
  assumes "length bs < 4294967296"
  shows "fst (stores a bs m) \<Longrightarrow> snd (stores a bs m) = m\<lparr>um_byte := putb a bs (um_byte m)\<rparr>"
    "fst (stores a bs m) \<longleftrightarrow> (\<forall>i < length bs. um_ok m (a + of_nat i))"
  using assms
proof (induction bs arbitrary: a m)
  case Nil
  { case 1
    have "putb a [] (um_byte m) = um_byte m" by (simp add: putb_def fun_eq_iff)
    then show ?case by simp
  next
    case 2
    then show ?case by simp }
next
  case (Cons b bs)
  { case 1
    then show ?case using Cons.IH(1) [of "a + 1"] putb_Cons [of bs a "um_byte m" b] by (auto split: if_splits)
  next
    case 2
    have "(\<forall>i < Suc (length bs). um_ok m (a + of_nat i)) \<longleftrightarrow> um_ok m a \<and> (\<forall>i < length bs. um_ok m (a + 1 + of_nat i))"
      by (auto simp: less_Suc_eq_0_disj algebra_simps)
    then show ?case using Cons.IH(2) [of "a + 1"] 2 by simp }
qed

text \<open>The memory after a sequence of blocks.\<close>

fun putbs :: "(u32 \<times> u8 list) list \<Rightarrow> (u32 \<Rightarrow> u8) \<Rightarrow> u32 \<Rightarrow> u8" where
  "putbs [] f = f"
| "putbs ((a, bs) # xs) f = putbs xs (putb a bs f)"

lemma blocks_ok:
  assumes "\<forall>(a, bs) \<in> set xs. length bs < 4294967296"
  shows "fst (blocks xs m) \<Longrightarrow> snd (blocks xs m) = m\<lparr>um_byte := putbs xs (um_byte m)\<rparr>"
    "fst (blocks xs m) \<longleftrightarrow> (\<forall>(a, bs) \<in> set xs. \<forall>i < length bs. um_ok m (a + of_nat i))"
  using assms
proof (induction xs arbitrary: m)
  case Nil
  { case 1 show ?case by simp next case 2 show ?case by simp }
next
  case (Cons x xs)
  obtain a bs where x: "x = (a, bs)" by (cases x)
  { case 1
    then have h: "fst (stores a bs m)" "fst (blocks xs (snd (stores a bs m)))" "length bs < 4294967296" "\<forall>(a, bs) \<in> set xs. length bs < 4294967296"
      using x by (auto simp: split_def Let_def split: if_splits)
    note e = stores_ok(1) [OF h(3,1)]
    show ?case using Cons.IH(1) [OF h(2) h(4)] h(1) x by (simp add: split_def Let_def e)
  next
    case 2
    then have h: "length bs < 4294967296" "\<forall>(a, bs) \<in> set xs. length bs < 4294967296" using x by auto
    have "fst (blocks (x # xs) m) \<longleftrightarrow> fst (stores a bs m) \<and> fst (blocks xs (snd (stores a bs m)))" using x by (simp add: split_def Let_def)
    moreover have "fst (stores a bs m) \<Longrightarrow> um_ok (snd (stores a bs m)) = um_ok m" using stores_ok(1) [OF h(1), of a m] by simp
    ultimately have "fst (blocks (x # xs) m) \<longleftrightarrow> fst (stores a bs m) \<and> (\<forall>(a, bs) \<in> set xs. \<forall>i < length bs. um_ok m (a + of_nat i))"
      using Cons.IH(2) [OF h(2)] by auto
    then show ?case using stores_ok(2) [OF h(1), of a m] x by simp }
qed

section \<open>The frame of a signal\<close>

lemma frame_blocks_small: "length code = 16 \<Longrightarrow> \<forall>(a, bs) \<in> set (frame_blocks code sig msk fp sp m). length bs < 4294967296"
  by (simp add: frame_blocks_def Let_def)

lemma ball_less_4: "(\<forall>i < 4 :: nat. P i) \<longleftrightarrow> P 0 \<and> P 1 \<and> P 2 \<and> P 3"
  by (auto simp: numeral_eq_Suc less_Suc_eq_0_disj)

text \<open>The registers the frame keeps: the index in a trap frame, in a system call frame, and the offset in the signal frame.\<close>

definition saved_regs :: "(nat \<times> nat \<times> u32) set" where
  "saved_regs = {(tESP, sESP, 52), (tEBP, sEBP, 56), (tEIP, sEIP, 64), (tEFLAGS, sEFLAGS, 68), (tEAX, sEAX, 16), (tEDX, sEDX, 20), (tECX, sECX, 24)}"

lemma frame_words:
  assumes "length code = 16" and f_def: "f = putbs (frame_blocks code sig msk fp sp m) g"
  shows "get4 f (fp + 8) = fp + 44" "get4 f (fp + 44) = ps_onstack sp" "get4 f (fp + 48) = msk"
    "(t, s, k) \<in> saved_regs \<Longrightarrow> get4 f (fp + k) = md_regs m (if fm_trap m then t else s)"
    "get4 f fp = of_nat sig" "get4 f (fp + 4) = ps_code sp" "get4 f (fp + 12) = ps_sigact sp sig"
proof -
  note w = assms(1) frame_blocks_def Let_def get4_same get4_other
  show "get4 f (fp + 8) = fp + 44" "get4 f (fp + 44) = ps_onstack sp" "get4 f (fp + 48) = msk"
    "get4 f fp = of_nat sig" "get4 f (fp + 4) = ps_code sp" "get4 f (fp + 12) = ps_sigact sp sig"
    unfolding f_def by (simp_all add: w)
  show "(t, s, k) \<in> saved_regs \<Longrightarrow> get4 f (fp + k) = md_regs m (if fm_trap m then t else s)"
    unfolding f_def saved_regs_def by (auto simp: w)
qed

text \<open>What a call of \<open>cpu_signal\<close> that succeeds leaves.\<close>

definition entered_frame :: "u8 list \<Rightarrow> nat \<Rightarrow> u32 \<Rightarrow> sigproc \<Rightarrow> mach \<Rightarrow> mach" where
  "entered_frame code sig msk sp m =
     (let fp = frame_base sig sp m in
      setreg (if fm_trap m then tEIP else sEIP) (fp + 28) (setreg (if fm_trap m then tESP else sESP) fp
        (m\<lparr>um_byte := putbs (frame_blocks code sig msk fp sp m) (um_byte m)\<rparr>)))"

lemma cpu_signal_success:
  assumes "cpu_signal code sig msk sp m = (0, sp', m')" "length code = 16"
  shows "m' = entered_frame code sig msk sp m" "\<not> USRSTACK < frame_base sig sp m + sf_size"
    "\<forall>(a, bs) \<in> set (frame_blocks code sig msk (frame_base sig sp m) sp m). \<forall>i < length bs. um_ok m (a + of_nat i)"
    "sp' = (if on_sigstack sig sp then sp\<lparr>ps_onstack := ps_onstack sp + 1\<rparr> else sp)"
proof -
  let ?bl = "frame_blocks code sig msk (frame_base sig sp m) sp m"
  note b = blocks_ok [OF frame_blocks_small [OF assms(2), of sig msk "frame_base sig sp m" sp m], of m]
  have ok: "fst (blocks ?bl m)" "\<not> USRSTACK < frame_base sig sp m + sf_size"
    using assms(1) by (auto simp: cpu_signal_def Let_def split_def EFAULT_def split: if_splits)
  then show "\<not> USRSTACK < frame_base sig sp m + sf_size" by blast
  show "\<forall>(a, bs) \<in> set ?bl. \<forall>i < length bs. um_ok m (a + of_nat i)" using b(2) ok(1) by blast
  show "sp' = (if on_sigstack sig sp then sp\<lparr>ps_onstack := ps_onstack sp + 1\<rparr> else sp)" "m' = entered_frame code sig msk sp m"
    using assms(1) ok b(1) by (auto simp: cpu_signal_def Let_def split_def EFAULT_def entered_frame_def split: if_splits)
qed

lemma setreg_sel [simp]:
  "um_byte (setreg r v m) = um_byte m" "um_ok (setreg r v m) = um_ok m" "fm_trap (setreg r v m) = fm_trap m"
  "md_regs (setreg r v m) q = (if q = r then v else md_regs m q)"
  by (simp_all add: setreg_def)

lemma entered_frame_sel:
  "um_byte (entered_frame code sig msk sp m) = putbs (frame_blocks code sig msk (frame_base sig sp m) sp m) (um_byte m)"
  "um_ok (entered_frame code sig msk sp m) = um_ok m"
  by (simp_all add: entered_frame_def Let_def)

text \<open>
  The handler starts at the code in the frame with the stack pointer at the frame.  It may do what
  it likes, but when it returns the stack pointer is at the frame again, and the frame is intact.
\<close>

definition handler_back :: "u32 \<Rightarrow> mach \<Rightarrow> mach \<Rightarrow> bool" where
  "handler_back fp m h \<longleftrightarrow> md_regs h sESP = fp \<and> um_ok h = um_ok m \<and> (\<forall>k < 72. um_byte h (fp + k) = um_byte m (fp + k))"

lemma get4_cong:
  assumes "\<forall>k < 72. f (fp + k) = g (fp + k :: u32)" "unat k \<le> 68"
  shows "get4 f (fp + k) = get4 g (fp + k)"
proof -
  have "k < 72" "k + 1 < 72" "k + 2 < 72" "k + 3 < 72" using assms(2) by (simp_all add: word_less_nat_alt unat_word_ariths)
  then have "f (fp + k) = g (fp + k)" "f (fp + (k + 1)) = g (fp + (k + 1))" "f (fp + (k + 2)) = g (fp + (k + 2))" "f (fp + (k + 3)) = g (fp + (k + 3))"
    using assms(1) by blast+
  then show ?thesis by (simp add: get4_def add.assoc)
qed

lemma frame_mapped:
  assumes "cpu_signal code sig msk sp m = (0, sp', m')" "length code = 16" "k \<in> {8, 16, 20, 24, 44, 48, 52, 56, 64, 68}"
  defines "fp \<equiv> frame_base sig sp m"
  shows "um_ok m (fp + k)" "um_ok m (fp + k + 1)" "um_ok m (fp + k + 2)" "um_ok m (fp + k + 3)"
  using cpu_signal_success(3) [OF assms(1,2)] assms(3)
  unfolding frame_blocks_def Let_def fp_def [symmetric] by (auto simp: ball_less_4)

text \<open>The loads of \<open>cpu_signalreturn\<close> from an intact frame.\<close>

lemma frame_reads:
  assumes "cpu_signal code sig msk sp m = (0, sp', m')" "length code = 16" "handler_back (frame_base sig sp m) m' h"
  defines "fp \<equiv> frame_base sig sp m"
  shows "rd32 (fp + 8) h = Some (fp + 44)" "rd32 (fp + 44) h = Some (ps_onstack sp)" "rd32 (fp + 48) h = Some msk"
    "(t, s, k) \<in> saved_regs \<Longrightarrow> rd32 (fp + k) h = Some (md_regs m (if fm_trap m then t else s))"
proof -
  note m' = cpu_signal_success(1) [OF assms(1,2)]
  have mem: "\<forall>k < 72. um_byte h (fp + k) = putbs (frame_blocks code sig msk fp sp m) (um_byte m) (fp + k)" and ok: "um_ok h = um_ok m"
    using assms(3) by (simp_all add: handler_back_def m' entered_frame_sel fp_def)
  note w = frame_words [OF assms(2) refl, where sig = sig and msk = msk and fp = fp and sp = sp and m = m and g = "um_byte m"]
  have r: "rd32 (fp + k) h = Some (get4 (putbs (frame_blocks code sig msk fp sp m) (um_byte m)) (fp + k))"
    if "k \<in> {8, 16, 20, 24, 44, 48, 52, 56, 64, 68}" for k
    using frame_mapped [OF assms(1,2) that] get4_cong [OF mem, of k] that by (auto simp: rd32_get4 ok fp_def [symmetric])
  show "rd32 (fp + 8) h = Some (fp + 44)" "rd32 (fp + 44) h = Some (ps_onstack sp)" "rd32 (fp + 48) h = Some msk"
    using r w(1,2,3) by simp_all
  assume k: "(t, s, k) \<in> saved_regs"
  then have "k \<in> {8, 16, 20, 24, 44, 48, 52, 56, 64, 68}" by (auto simp: saved_regs_def)
  then show "rd32 (fp + k) h = Some (md_regs m (if fm_trap m then t else s))" using r w(4) [OF k] by simp
qed

definition user_flags :: "u32 \<Rightarrow> bool" where
  "user_flags psl \<longleftrightarrow> psl AND PSL_MBZ = 0 \<and> psl AND PSL_MBO = PSL_MBO"

text \<open>The value of a register before the signal, given its index in either frame.\<close>

definition saved :: "mach \<Rightarrow> nat \<Rightarrow> nat \<Rightarrow> u32" where
  "saved m t s = md_regs m (if fm_trap m then t else s)"

lemma frame_restored:
  assumes "cpu_signal code sig msk sp m = (0, sp', m')" "length code = 16"
    and "handler_back (frame_base sig sp m) m' h" "user_flags (saved m tEFLAGS sEFLAGS)"
  shows "\<exists>n. cpu_signalreturn t h = (EJUSTRETURN, t\<lparr>ps_onstack := ps_onstack sp AND 1, p_sigmask := msk AND NOT sigcantmask\<rparr>, n) \<and>
    md_regs n = (md_regs h)(sESP := saved m tESP sESP, sEIP := saved m tEIP sEIP, sEBP := saved m tEBP sEBP,
      sEAX := saved m tEAX sEAX, sEDX := saved m tEDX sEDX, sECX := saved m tECX sECX,
      sEFLAGS := (saved m tEFLAGS sEFLAGS OR PSL_USERSET) AND NOT PSL_USERCLR) \<and>
    um_byte n = um_byte h \<and> um_ok n = um_ok h"
proof -
  let ?fp = "frame_base sig sp m"
  note rd = frame_reads [OF assms(1,2,3)]
  have reg: "rd32 (?fp + k) h = Some (saved m t s)" if "(t, s, k) \<in> saved_regs" for t s k
    using rd(4) [OF that] by (simp add: saved_def)
  have regs: "rd32 (?fp + 52) h = Some (saved m tESP sESP)" "rd32 (?fp + 56) h = Some (saved m tEBP sEBP)"
    "rd32 (?fp + 64) h = Some (saved m tEIP sEIP)" "rd32 (?fp + 68) h = Some (saved m tEFLAGS sEFLAGS)"
    "rd32 (?fp + 16) h = Some (saved m tEAX sEAX)" "rd32 (?fp + 20) h = Some (saved m tEDX sEDX)"
    "rd32 (?fp + 24) h = Some (saved m tECX sECX)"
    by (rule reg; simp add: saved_regs_def)+
  have keep: "rd32 a (setreg r v x) = rd32 a x" for a r v x by (simp add: rd32_def)
  have fp: "md_regs h sESP = ?fp" using assms(3) by (simp add: handler_back_def)
  show ?thesis
    using cpu_signal_success(2) [OF assms(1,2)] assms(4)
    by (simp add: cpu_signalreturn_def fp rd regs restores_def keep user_flags_def, simp add: fun_eq_iff reg_defs)
qed

text \<open>
  C17: a signal handler that returns resumes the program where it was: \<open>cpu_signalreturn\<close> finds the
  frame that \<open>cpu_signal\<close> built, restores the stack pointer, the program counter, the frame pointer,
  the scratch registers and the flags (interrupts on, no nested task), the state of the signal
  stack, and the signal mask that was to be restored, of which \<open>SIGKILL\<close> and \<open>SIGSTOP\<close> are
  taken out.  No other register, no memory and nothing else of the signal state is changed.
\<close>

theorem sigreturn_restores:
  assumes "cpu_signal code sig msk sp m = (0, sp', m')" "length code = 16"
    and "handler_back (frame_base sig sp m) m' h" "user_flags (saved m tEFLAGS sEFLAGS)"
  shows "\<exists>n. cpu_signalreturn t h = (EJUSTRETURN, t\<lparr>ps_onstack := ps_onstack sp AND 1, p_sigmask := msk AND NOT sigcantmask\<rparr>, n) \<and>
    md_regs n = (md_regs h)(sESP := saved m tESP sESP, sEIP := saved m tEIP sEIP, sEBP := saved m tEBP sEBP,
      sEAX := saved m tEAX sEAX, sEDX := saved m tEDX sEDX, sECX := saved m tECX sECX,
      sEFLAGS := (saved m tEFLAGS sEFLAGS OR PSL_USERSET) AND NOT PSL_USERCLR) \<and>
    um_byte n = um_byte h \<and> um_ok n = um_ok h"
  using assms by (rule frame_restored)

text \<open>\<open>cpu_signal\<close> succeeds whenever its check passes and the memory is mapped.\<close>

lemma cpu_signal_mapped:
  assumes "length code = 16" "\<forall>a. um_ok m a" "ps_sigact sp sig \<noteq> BADSIG" "\<not> USRSTACK < frame_base sig sp m + sf_size"
  shows "\<exists>sp'. cpu_signal code sig msk sp m = (0, sp', entered_frame code sig msk sp m)"
proof -
  let ?bl = "frame_blocks code sig msk (frame_base sig sp m) sp m"
  note b = blocks_ok [OF frame_blocks_small [OF assms(1), of sig msk "frame_base sig sp m" sp m], of m]
  have "fst (blocks ?bl m)" using b(2) assms(2) by auto
  then show ?thesis using b(1) assms(3,4) by (simp add: cpu_signal_def Let_def split_def entered_frame_def)
qed

text \<open>Only the frame is written.\<close>

lemma putbs_outside:
  assumes "\<forall>(a, bs) \<in> set xs. length bs \<le> unat (x - a)"
  shows "putbs xs f x = f x"
  using assms by (induction xs arbitrary: f) (auto simp: putb_def)

lemma frame_outside:
  assumes "length code = 16" "72 \<le> unat (x - fp)"
  shows "putbs (frame_blocks code sig msk fp sp m) f x = f x"
proof (rule putbs_outside)
  have "length bs \<le> unat (x - (fp + k))" if "unat k + length bs \<le> 72" for k :: u32 and bs :: "u8 list"
  proof -
    have "k \<le> x - fp" using assms(2) that by (simp add: word_le_nat_alt)
    then have "unat (x - fp - k) = unat (x - fp) - unat k" by (rule unat32_minus)
    then have "unat (x - (fp + k)) = unat (x - fp) - unat k" by (simp only: diff_diff_eq)
    then show ?thesis using assms(2) that by linarith
  qed
  note far = this
  show "\<forall>(a, bs) \<in> set (frame_blocks code sig msk fp sp m). length bs \<le> unat (x - a)"
    unfolding frame_blocks_def Let_def using assms far [of "_" "bytes32 _"] far [of 28 code] by simp
qed

section \<open>What the checks let through\<close>

text \<open>
  The test of the stack pointer adds the size of the frame that was subtracted before: it compares
  the old stack pointer, and a stack pointer below the size of the frame wraps around, so that the
  frame lies at the top of the address space, which is the kernel's.
\<close>

lemma frame_check_wraps:
  assumes "\<not> on_sigstack sig sp" "\<not> fm_trap m" "md_regs m sESP = 8" "ps_sigact sp sig \<noteq> BADSIG" "\<forall>a. um_ok m a" "length code = 16"
  shows "frame_base sig sp m = 0xFFFFFFC0 \<and> (\<exists>sp'. cpu_signal code sig msk sp m = (0, sp', entered_frame code sig msk sp m))"
proof -
  have "frame_base sig sp m = 0xFFFFFFC0" using assms(1-3) by (simp add: frame_base_def sf_size_def)
  moreover from this have "\<not> USRSTACK < frame_base sig sp m + sf_size" by (simp add: USRSTACK_def sf_size_def)
  ultimately show ?thesis using cpu_signal_mapped [OF assms(6,5,4)] by blast
qed

text \<open>The test of the flags does not look at the input/output privilege level, and the user can set it.\<close>

lemma sigreturn_iopl:
  assumes "md_regs m sESP = fp" "\<not> USRSTACK < fp + sf_size" "\<forall>a. um_ok m a"
    and "get4 (um_byte m) (fp + 8) = fp + 44" "get4 (um_byte m) (fp + 68) = 0x3202"
  shows "\<exists>t n. cpu_signalreturn sp m = (EJUSTRETURN, t, n) \<and> md_regs n sEFLAGS AND PSL_IOPL = PSL_IOPL"
proof -
  have rd: "rd32 a (setreg r v x) = rd32 a x" "rd32 a m = Some (get4 (um_byte m) a)" for a r v x
    using assms(3) by (simp_all add: rd32_def get4_def)
  show ?thesis using assms(1,2,4,5)
    by (simp add: cpu_signalreturn_def rd restores_def PSL_MBZ_def PSL_MBO_def, simp add: reg_defs PSL_USERSET_def PSL_USERCLR_def PSL_IOPL_def)
qed

section \<open>An example\<close>

definition sigproc_demo :: sigproc where
  "sigproc_demo = \<lparr>p_sig = 0, p_sigmask = 0, p_sigignore = 0, p_sigcatch = 0, p_ssys = False, p_snocldstop = False,
     ps_sigact = (\<lambda>_. 0), ps_catchmask = (\<lambda>_. 0), ps_sigonstack = 0, ps_sigintr = 0, ps_oldmask = 0, ps_flags = 0,
     ps_onstack = 0, ps_sigsp = 0, ps_sig = 0, ps_code = 0\<rparr>"

definition mach_demo :: mach where
  "mach_demo = \<lparr>md_regs = (\<lambda>r. if r = tESP then 65536 else if r = tEFLAGS then 0x202 else of_nat r), fm_trap = True, um_byte = (\<lambda>_. 0), um_ok = (\<lambda>_. True)\<rparr>"

theorem sigreturn_restores_witness:
  "\<exists>n. cpu_signalreturn sigproc_demo (setreg sESP 65464 (entered_frame (replicate 16 144) 2 5 sigproc_demo mach_demo)) =
       (EJUSTRETURN, sigproc_demo\<lparr>p_sigmask := 5\<rparr>, n) \<and> md_regs n sESP = 65536 \<and> md_regs n sEIP = 12"
proof -
  let ?m = "entered_frame (replicate 16 144) 2 5 sigproc_demo mach_demo"
  have "\<exists>sp'. cpu_signal (replicate 16 144) 2 5 sigproc_demo mach_demo = (0, sp', ?m)"
    by (rule cpu_signal_mapped) (simp_all add: mach_demo_def sigproc_demo_def BADSIG_def frame_base_def on_sigstack_def sf_size_def USRSTACK_def reg_defs)
  then obtain sp' where c: "cpu_signal (replicate 16 144) 2 5 sigproc_demo mach_demo = (0, sp', ?m)" by blast
  have fp: "frame_base 2 sigproc_demo mach_demo = 65464"
    by (simp add: mach_demo_def sigproc_demo_def frame_base_def on_sigstack_def sf_size_def reg_defs)
  have b: "handler_back (frame_base 2 sigproc_demo mach_demo) ?m (setreg sESP 65464 ?m)" by (simp add: handler_back_def fp)
  have f: "user_flags (saved mach_demo tEFLAGS sEFLAGS)"
    by (simp add: user_flags_def saved_def mach_demo_def reg_defs PSL_MBZ_def PSL_MBO_def)
  have e: "5 AND NOT sigcantmask = (5 :: u32)" "saved mach_demo tESP sESP = 65536" "saved mach_demo tEIP sEIP = 12" "ps_onstack sigproc_demo AND 1 = 0"
    by (simp_all add: sigcantmask_def sigmask_def sig_defs saved_def mach_demo_def reg_defs sigproc_demo_def)
  obtain n where "cpu_signalreturn sigproc_demo (setreg sESP 65464 ?m) = (EJUSTRETURN, sigproc_demo\<lparr>ps_onstack := 0, p_sigmask := 5\<rparr>, n)"
    "md_regs n = (md_regs (setreg sESP 65464 ?m))(sESP := 65536, sEIP := 12, sEBP := saved mach_demo tEBP sEBP,
      sEAX := saved mach_demo tEAX sEAX, sEDX := saved mach_demo tEDX sEDX, sECX := saved mach_demo tECX sECX,
      sEFLAGS := (saved mach_demo tEFLAGS sEFLAGS OR PSL_USERSET) AND NOT PSL_USERCLR)"
    using sigreturn_restores [OF c _ b f, of sigproc_demo] by (auto simp: e)
  then show ?thesis by (intro exI [of _ n]) (simp add: sigproc_demo_def reg_defs)
qed

end
