(* ===== verification/Signal.thy ===== *)
theory Signal
  imports Exit Sigframe
begin

unbundle bit_operations_syntax

text \<open>
  Signals: \<open>kern/sig.c\<close> with \<open>include/signalvar.h\<close>, over the processes of \<open>Exit\<close> and the frames of
  \<open>Sigframe\<close>, compiled with \<open>DIAGNOSTIC\<close> and without \<open>KTRACE\<close>.  \<open>swtch\<close> is outside: \<open>issig\<close> is
  modelled by its passes, from its start or from a return of \<open>swtch\<close> to its result or to the next call
  of \<open>swtch\<close>.  \<open>procxmt\<close>, by which a tracer acts on the process, the check of an address against the
  address space, the size of a core image and the writing of the core file are arguments.  \<open>sigexit\<close>
  does not return: its state is the one \<open>exit\<close> leaves.
\<close>

section \<open>State\<close>

record gsys =
  g_x :: xsys
  g_sigs :: "nat \<Rightarrow> sigproc"
  g_mach :: "nat \<Rightarrow> mach"
  g_ast :: "nat \<Rightarrow> bool"
  g_pageproc :: nat

record genv =
  e_sigcode :: "u8 list"
  e_access :: "nat \<Rightarrow> u32 \<Rightarrow> bool"
  e_corepages :: "nat \<Rightarrow> int"
  e_corefile :: "nat \<Rightarrow> int"

abbreviation g_sched :: "gsys \<Rightarrow> ssys" where "g_sched g \<equiv> x_sched (g_x g)"
abbreviation g_jobs :: "gsys \<Rightarrow> jsys" where "g_jobs g \<equiv> x_jobs (g_x g)"
abbreviation g_stat :: "gsys \<Rightarrow> nat \<Rightarrow> pstat" where "g_stat g p \<equiv> sproc.p_stat (procs (g_sched g) p)"
abbreviation g_proc :: "gsys \<Rightarrow> nat \<Rightarrow> sproc" where "g_proc g p \<equiv> procs (g_sched g) p"
abbreviation g_curproc :: "gsys \<Rightarrow> nat" where "g_curproc g \<equiv> ssys.curproc (g_sched g)"

definition SA_KILL :: u32 where "SA_KILL = 1"
definition SA_CORE :: u32 where "SA_CORE = 2"
definition SA_STOP :: u32 where "SA_STOP = 4"
definition SA_TTYSTOP :: u32 where "SA_TTYSTOP = 8 OR SA_STOP"
definition SA_IGNORE :: u32 where "SA_IGNORE = 0x10"
definition SA_CONT :: u32 where "SA_CONT = 0x20"

lemmas sa_defs = SA_KILL_def SA_CORE_def SA_STOP_def SA_TTYSTOP_def SA_IGNORE_def SA_CONT_def

text \<open>The properties of the signals 0 to 32.\<close>

definition sigprops :: "u32 list" where
  "sigprops = [0, SA_KILL, SA_KILL, SA_KILL OR SA_CORE, SA_KILL OR SA_CORE, SA_KILL OR SA_CORE, SA_KILL OR SA_CORE,
     SA_KILL OR SA_CORE, SA_KILL OR SA_CORE, SA_KILL, SA_KILL OR SA_CORE, SA_KILL OR SA_CORE, SA_KILL OR SA_CORE,
     SA_KILL, SA_KILL, SA_KILL, SA_IGNORE, SA_STOP, SA_TTYSTOP, SA_IGNORE OR SA_CONT, SA_IGNORE, SA_TTYSTOP, SA_TTYSTOP,
     SA_IGNORE, SA_KILL, SA_KILL, SA_KILL, SA_KILL, SA_IGNORE, SA_IGNORE, SA_KILL, SA_KILL, 0]"

definition sigprop :: "nat \<Rightarrow> u32" where
  "sigprop sig = (if sig < 33 then sigprops ! sig else 0)"

definition stopsigmask :: u32 where
  "stopsigmask = sigmask SIGSTOP OR sigmask SIGTSTP OR sigmask SIGTTIN OR sigmask SIGTTOU"

definition contsigmask :: u32 where
  "contsigmask = sigmask sigCONT"

text \<open>The least bit of a set, counted from 1; 0 for the empty set.\<close>

definition ffs :: "u32 \<Rightarrow> nat" where
  "ffs m = (case find (bit m) [0..<32] of None \<Rightarrow> 0 | Some n \<Rightarrow> n + 1)"

definition upd_sig :: "nat \<Rightarrow> (sigproc \<Rightarrow> sigproc) \<Rightarrow> gsys \<Rightarrow> gsys" where
  "upd_sig p f g = g\<lparr>g_sigs := (g_sigs g)(p := f (g_sigs g p))\<rparr>"

text \<open>\<open>p_stat\<close> is one field: the tables of processes and of queues both show it.\<close>

definition put_q :: "ssys \<Rightarrow> gsys \<Rightarrow> gsys" where
  "put_q q g =
     (let j = g_jobs g in
      g\<lparr>g_x := put_jobs (j\<lparr>jprocs := \<lambda>p. map_option (\<lambda>r. r\<lparr>jproc.p_stat := sproc.p_stat (procs q p)\<rparr>) (jprocs j p)\<rparr>)
                 (put_sched q (g_x g))\<rparr>)"

definition clrsig :: "nat \<Rightarrow> u32 \<Rightarrow> gsys \<Rightarrow> gsys" where
  "clrsig p b = upd_sig p (\<lambda>sp. sp\<lparr>p_sig := p_sig sp AND NOT b\<rparr>)"

section \<open>Posting a signal\<close>

datatype action = A_DFL | A_CATCH | A_HOLD

text \<open>What the target makes of a signal; \<open>None\<close> if it ignores it.\<close>

definition sig_action :: "sigproc \<Rightarrow> bool \<Rightarrow> u32 \<Rightarrow> action option" where
  "sig_action sp traced b =
     (if traced then Some A_DFL
      else if p_sigignore sp AND b \<noteq> 0 then None
      else if p_sigmask sp AND b \<noteq> 0 then Some A_HOLD
      else if p_sigcatch sp AND b \<noteq> 0 then Some A_CATCH
      else Some A_DFL)"

definition promote :: "action \<Rightarrow> nat \<Rightarrow> nat \<Rightarrow> gsys \<Rightarrow> gsys" where
  "promote act p sig g =
     (if 0 < p_nice (g_proc g p) \<and> (sig = sigKILL \<or> sig = SIGTERM \<and> \<not> (p_strc (g_x g) p \<or> act \<noteq> A_DFL))
      then put_q (pupd p (\<lambda>pr. pr\<lparr>p_nice := 0\<rparr>) (g_sched g)) g else g)"

text \<open>Whether a stop signal is dropped because the process group is orphaned.\<close>

definition tty_dropped :: "action \<Rightarrow> nat \<Rightarrow> u32 \<Rightarrow> gsys \<Rightarrow> bool kres" where
  "tty_dropped act p prop g =
     (if prop AND SA_STOP = 0 \<or> prop AND SA_TTYSTOP = 0 then Done False
      else kmap (\<lambda>(a, G). pg_jobc G = 0 \<and> act = A_DFL) (get_pgrp p (g_jobs g)))"

text \<open>The labels \<open>runfast\<close> and \<open>run\<close>.\<close>

definition run_now :: "bool \<Rightarrow> nat \<Rightarrow> gsys \<Rightarrow> gsys kres" where
  "run_now fast p g =
     (let q = g_sched g in
      kmap (\<lambda>q'. put_q q' g)
        (setrun p (if fast \<and> PUSER < p_pri (procs q p) then pupd p (\<lambda>pr. pr\<lparr>p_pri := PUSER\<rparr>) q else q)))"

text \<open>The case \<open>SSTOP\<close>.\<close>

definition psignal_stopped :: "action \<Rightarrow> nat \<Rightarrow> nat \<Rightarrow> gsys \<Rightarrow> gsys kres" where
  "psignal_stopped act p sig g =
     (let prop = sigprop sig; b = sigmask sig in
      if sig = sigKILL then run_now True p g
      else if p_strc (g_x g) p then Done g
      else if prop AND SA_CONT \<noteq> 0 then
        let g1 = (if act = A_DFL then clrsig p b g else g) in
        if act = A_CATCH then run_now True p g1
        else if p_wchan (g_proc g1 p) = 0 then run_now False p g1
        else Done (put_q (pupd p (\<lambda>pr. pr\<lparr>sproc.p_stat := SSLEEP\<rparr>) (g_sched g1)) g1)
      else if prop AND SA_STOP \<noteq> 0 then Done (clrsig p b g)
      else if p_wchan (g_proc g p) \<noteq> 0 \<and> p_ssintr (g_proc g p) then kmap (\<lambda>q. put_q q g) (unsleep p (g_sched g))
      else Done g)"

definition notify :: "nat \<Rightarrow> gsys \<Rightarrow> gsys" where
  "notify p g = g\<lparr>g_ast := (g_ast g)(p := True)\<rparr>"

definition clear_stops :: "u32 \<Rightarrow> nat \<Rightarrow> gsys \<Rightarrow> gsys" where
  "clear_stops prop p g = (if prop AND SA_CONT \<noteq> 0 then clrsig p stopsigmask g else g)"

definition post_sig :: "nat \<Rightarrow> u32 \<Rightarrow> gsys \<Rightarrow> gsys" where
  "post_sig p b = upd_sig p (\<lambda>sp. sp\<lparr>p_sig := p_sig sp OR b\<rparr>)"

definition clear_conts :: "u32 \<Rightarrow> nat \<Rightarrow> gsys \<Rightarrow> gsys" where
  "clear_conts prop p g = (if prop AND SA_STOP \<noteq> 0 then clrsig p contsigmask g else g)"

lemma kbind_cong [fundef_cong]:
  "m = m' \<Longrightarrow> (\<And>x. m' = Done x \<Longrightarrow> f x = f' x) \<Longrightarrow> kbind m f = kbind m' f'"
  by (cases m') simp_all

text \<open>\<open>psignal\<close> and \<open>stop\<close>; the switch that \<open>stop\<close> makes when asked is left to its callers.\<close>

function psignal :: "nat \<Rightarrow> nat \<Rightarrow> gsys \<Rightarrow> gsys kres" and stop :: "nat \<Rightarrow> nat \<Rightarrow> gsys \<Rightarrow> gsys kres" where
  "psignal p sig g =
     (let prop = sigprop sig; b = sigmask sig in
      if NSIG \<le> sig \<or> sig = 0 then Panic ''psignal sig''
      else case sig_action (g_sigs g p) (p_strc (g_x g) p) b of
        None \<Rightarrow> Done g
      | Some act \<Rightarrow>
          let g1 = clear_stops prop p (promote act p sig g) in
          kbind (tty_dropped act p prop g1) (\<lambda>dropped.
            if dropped then Done g1
            else let g2 = post_sig p b (clear_conts prop p g1) in
            if act = A_HOLD \<and> (prop AND SA_CONT = 0 \<or> g_stat g2 p \<noteq> SSTOP) then Done g2
            else if g_stat g2 p = SSLEEP then
              if \<not> p_ssintr (g_proc g2 p) then Done g2
              else if p_strc (g_x g2) p then run_now False p g2
              else if prop AND SA_CONT \<noteq> 0 \<and> act = A_DFL then Done (clrsig p b g2)
              else if prop AND SA_STOP \<noteq> 0 \<and> act = A_DFL then stop p sig (clrsig p b g2)
              else run_now True p g2
            else if g_stat g2 p = SSTOP then psignal_stopped act p sig g2
            else Done (notify p g2)))"
| "stop p sig g =
     (if p_sppwait (g_x g) p then Done g
      else kbind (deref (jprocs (g_jobs g) p)) (\<lambda>pr.
        kbind (if p_strc (g_x g) p then Done g
               else kbind (deref (p_pptr pr)) (\<lambda>pp. if p_snocldstop (g_sigs g pp) then Done g else psignal pp sigCHLD g)) (\<lambda>g1.
        let g2 = put_q (pupd p (\<lambda>pr. pr\<lparr>sproc.p_stat := SSTOP\<rparr>) (g_sched g1)) g1 in
        kmap (\<lambda>q. let g3 = put_q q g2 in
                  g3\<lparr>g_x := (g_x g3)\<lparr>ps_stopsig := (ps_stopsig (g_x g3))(p := int sig), p_swted := (p_swted (g_x g3))(p := False)\<rparr>\<rparr>)
          (wakeup (case p_pptr pr of None \<Rightarrow> 0 | Some pp \<Rightarrow> of_nat pp) (g_sched g2)))))"
  by pat_completeness auto
termination
proof (relation "measure (\<lambda>x. case x of Inl (p, sig, g) \<Rightarrow> if sigprop sig AND SA_STOP = 0 then 0 else 2 | Inr _ \<Rightarrow> 1)")
qed (simp_all add: sigprop_def sigprops_def sig_defs sa_defs)

declare psignal.simps [simp del] stop.simps [simp del]

section \<open>Termination by a signal\<close>

definition UPAGES :: int where "UPAGES = 2"
definition RLIMIT_CORE :: nat where "RLIMIT_CORE = 4"
definition WCOREFLAG :: nat where "WCOREFLAG = 128"

text \<open>\<open>coredump\<close>: its error; from the opening of the file on it is the environment.\<close>

definition coredump :: "genv \<Rightarrow> nat \<Rightarrow> gsys \<Rightarrow> int kres" where
  "coredump env p g =
     kbind (get_pcred p (x_creds (g_x g))) (\<lambda>(a, pc).
       if p_svuid pc \<noteq> p_ruid pc \<or> p_svgid pc \<noteq> p_rgid pc then Done EPERM
       else kbind (get_limit p (x_rsys (g_x g))) (\<lambda>(a, lim).
         if length (pl_rlimit lim) \<le> RLIMIT_CORE then Fault
         else if rlim_cur (pl_rlimit lim ! RLIMIT_CORE) \<le> 4096 * (UPAGES + e_corepages env p) then Done EFAULT
         else Done (e_corefile env p)))"

text \<open>\<open>exit\<close>, which first cancels and ignores all signals.\<close>

definition g_exit :: "nat \<Rightarrow> int \<Rightarrow> gsys \<Rightarrow> gsys kres" where
  "g_exit p rv g =
     kmap (\<lambda>x. upd_sig p (\<lambda>sp. sp\<lparr>p_ssys := True, p_sigignore := NOT 0, p_sig := 0\<rparr>) g\<lparr>g_x := x\<rparr>) (exit p rv (g_x g))"

definition sigexit :: "genv \<Rightarrow> nat \<Rightarrow> nat \<Rightarrow> gsys \<Rightarrow> gsys kres" where
  "sigexit env p sig g =
     (if sigprop sig AND SA_CORE \<noteq> 0 then
        let g1 = upd_sig p (\<lambda>sp. sp\<lparr>ps_sig := sig\<rparr>) g in
        kbind (coredump env p g1) (\<lambda>e. g_exit p (W_EXITCODE 0 (int (if e = 0 then sig OR WCOREFLAG else sig))) g1)
      else g_exit p (W_EXITCODE 0 (int sig)) g)"

section \<open>Taking a signal\<close>

datatype issig_choice = Take | Drop | Halt

text \<open>The switch at the end of the loop of \<open>issig\<close>.\<close>

definition issig_verdict :: "nat \<Rightarrow> nat \<Rightarrow> u32 \<Rightarrow> gsys \<Rightarrow> issig_choice kres" where
  "issig_verdict p sig prop g =
     (let sp = g_sigs g p in
      if NSIG \<le> sig then Fault
      else if ps_sigact sp sig = SIG_DFL then
        if p_ssys sp then Done Drop
        else if prop AND SA_STOP \<noteq> 0 then
          if p_strc (g_x g) p then Done Drop
          else kmap (\<lambda>(a, G). if pg_jobc G = 0 \<and> prop AND SA_TTYSTOP \<noteq> 0 then Drop else Halt) (get_pgrp p (g_jobs g))
        else if prop AND SA_IGNORE \<noteq> 0 then Done Drop
        else Done Take
      else if ps_sigact sp sig = SIG_IGN then Done Drop
      else Done Take)"

text \<open>
  A pass of \<open>issig\<close> returns a signal, 0 for none, or comes to a call of \<open>swtch\<close>: for the tracer, or
  stopped by the signal.
\<close>

datatype issig_out = Issig nat gsys | Traced nat gsys | Stopped nat gsys

definition sig_pending :: "nat \<Rightarrow> gsys \<Rightarrow> u32" where
  "sig_pending p g =
     (let m = p_sig (g_sigs g p) AND NOT (p_sigmask (g_sigs g p)) in
      if p_sppwait (g_x g) p then m AND NOT stopsigmask else m)"

lemma ffs_bit:
  assumes "m \<noteq> 0"
  shows "0 < ffs m" "ffs m \<le> 32" "bit m (ffs m - 1)" "k < ffs m - 1 \<Longrightarrow> \<not> bit m k"
proof -
  have "\<exists>n < 32. bit m n"
  proof (rule ccontr)
    assume "\<not> (\<exists>n < 32. bit m n)"
    then have "m = 0" by (intro bit_word_eqI) auto
    then show False using assms by simp
  qed
  then have "find (bit m) [0..<32] \<noteq> None" by (auto simp: find_None_iff)
  then obtain n where n: "find (bit m) [0..<32] = Some n" by blast
  then have i: "n < 32" "bit m n" "\<forall>j < n. \<not> bit m j" by (auto simp: find_Some_iff)
  show "0 < ffs m" "ffs m \<le> 32" "bit m (ffs m - 1)" "k < ffs m - 1 \<Longrightarrow> \<not> bit m k" using i by (simp_all add: ffs_def n)
qed

lemma sigmask_exp: "0 < sig \<Longrightarrow> sig \<le> 32 \<Longrightarrow> sigmask sig = 2 ^ (sig - 1)"
proof -
  assume s: "0 < sig" "sig \<le> 32"
  then have "sig + 31 = (sig - 1) + 32" by simp
  then have "(sig + 31) mod 32 = (sig - 1) mod 32" by (simp only: mod_add_self2)
  then have "(sig + 31) mod 32 = sig - 1" using s by (simp only: mod_less)
  then show ?thesis by (simp add: sigmask_def)
qed

lemma sigmask_bit: "0 < sig \<Longrightarrow> sig \<le> 32 \<Longrightarrow> bit (sigmask sig) n \<longleftrightarrow> n = sig - 1"
  by (auto simp: sigmask_exp bit_exp_iff)

lemma clear_bit_less:
  fixes m s :: u32
  assumes "bit s n" "bit m n"
  shows "unat (s AND NOT m) < unat s"
proof -
  have "s AND NOT m \<noteq> s" using assms by (metis bit_and_iff bit_not_iff)
  moreover have "s AND NOT m \<le> s" by (simp add: word_and_le1 word_and_le2)
  ultimately have "s AND NOT m < s" by simp
  then show ?thesis by (simp add: word_less_nat_alt)
qed

lemma and_sigmask: "0 < sig \<Longrightarrow> sig \<le> 32 \<Longrightarrow> s AND sigmask sig \<noteq> 0 \<longleftrightarrow> bit s (sig - 1)"
proof -
  assume s: "0 < sig" "sig \<le> 32"
  have "bit (s AND sigmask sig) n \<longleftrightarrow> n = sig - 1 \<and> bit s n" for n using s by (auto simp: bit_and_iff sigmask_bit)
  then show ?thesis using s by (metis bit_0_eq bit_word_eqI bot_apply bot_bool_def)
qed

lemma sig_pending_bit: "bit (sig_pending p g) n \<Longrightarrow> bit (p_sig (g_sigs g p)) n \<and> \<not> bit (p_sigmask (g_sigs g p)) n"
  by (auto simp: sig_pending_def Let_def bit_and_iff bit_not_iff split: if_splits)

lemma clrsig_less:
  assumes "sig_pending p g \<noteq> 0"
  shows "unat (p_sig (g_sigs (clrsig p (sigmask (ffs (sig_pending p g))) g) p)) < unat (p_sig (g_sigs g p))"
proof -
  note f = ffs_bit [OF assms]
  have "bit (p_sig (g_sigs g p)) (ffs (sig_pending p g) - 1)" using sig_pending_bit [OF f(3)] by blast
  then show ?thesis using clear_bit_less [of _ "ffs (sig_pending p g) - 1"] sigmask_bit f(1,2) by (simp add: clrsig_def upd_sig_def)
qed

text \<open>\<open>issig\<close> from its start: each round that comes back to the top has taken a signal out of \<open>p_sig\<close>.\<close>

function issig :: "nat \<Rightarrow> gsys \<Rightarrow> issig_out kres" where
  "issig p g =
     (let m = sig_pending p g; sig = ffs m; b = sigmask sig in
      if m = 0 then Done (Issig 0 g)
      else if b AND p_sigignore (g_sigs g p) \<noteq> 0 \<and> \<not> p_strc (g_x g) p then issig p (clrsig p b g)
      else if p_strc (g_x g) p \<and> \<not> p_sppwait (g_x g) p then
        kbind (deref (jprocs (g_jobs g) p)) (\<lambda>pr. kbind (deref (p_pptr pr)) (\<lambda>pp.
          kbind (psignal pp sigCHLD g) (\<lambda>g1. kmap (Traced sig) (stop p sig g1))))
      else kbind (issig_verdict p sig (sigprop sig) g) (\<lambda>v. case v of
          Take \<Rightarrow> Done (Issig sig g)
        | Halt \<Rightarrow> kmap (Stopped sig) (stop p sig g)
        | Drop \<Rightarrow> issig p (clrsig p b g)))"
  by pat_completeness auto
termination
  by (relation "measure (\<lambda>(p, g). unat (p_sig (g_sigs g p)))") (simp_all add: clrsig_less)

declare issig.simps [simp del]

text \<open>The return of \<open>swtch\<close> in a process that a signal had stopped.\<close>

definition issig_continued :: "nat \<Rightarrow> nat \<Rightarrow> gsys \<Rightarrow> issig_out kres" where
  "issig_continued p sig g = issig p (clrsig p (sigmask sig) g)"

text \<open>
  The return of \<open>swtch\<close> in a process that had stopped for its tracer: \<open>procxmt\<close> says whether the
  tracer let it go.  \<open>ps_stopsig\<close> is then the signal to take; the properties are still those of the
  signal it stopped with.
\<close>

definition issig_released :: "(nat \<Rightarrow> gsys \<Rightarrow> (bool \<times> gsys) kres) \<Rightarrow> nat \<Rightarrow> nat \<Rightarrow> gsys \<Rightarrow> issig_out kres" where
  "issig_released procxmt p sig g =
     kbind (procxmt p g) (\<lambda>(released, g1).
       let traced = (p_strc (g_x g1) p \<and> \<not> p_sppwait (g_x g1) p) in
       if \<not> released \<and> traced then kmap (Traced sig) (stop p sig g1)
       else if \<not> traced then issig p g1
       else let g2 = clrsig p (sigmask sig) g1; new = nat (ps_stopsig (g_x g2) p); b = sigmask new in
         if new = 0 then issig p g2
         else let g3 = post_sig p b g2 in
         if p_sigmask (g_sigs g3 p) AND b \<noteq> 0 then issig p g3
         else kbind (issig_verdict p new (sigprop sig) g3) (\<lambda>v. case v of
             Take \<Rightarrow> Done (Issig new g3)
           | Halt \<Rightarrow> kmap (Stopped new) (stop p new g3)
           | Drop \<Rightarrow> issig p (clrsig p b g3)))"

text \<open>The macro by which the kernel asks for a signal.\<close>

definition CURSIG :: "nat \<Rightarrow> gsys \<Rightarrow> issig_out kres" where
  "CURSIG p g =
     (let sp = g_sigs g p in
      if p_sig sp = 0 \<or> \<not> p_strc (g_x g) p \<and> p_sig sp AND NOT (p_sigmask sp) = 0 then Done (Issig 0 g) else issig p g)"

section \<open>Delivering a signal\<close>

definition send_frame :: "genv \<Rightarrow> nat \<Rightarrow> nat \<Rightarrow> u32 \<Rightarrow> gsys \<Rightarrow> (int \<times> gsys) kres" where
  "send_frame env p sig msk g =
     (if g_curproc g \<noteq> p then Panic ''cpu_signal(): not current process''
      else let (e, sp, m) = cpu_signal (e_sigcode env) sig msk (g_sigs g p) (g_mach g p) in
           Done (e, g\<lparr>g_sigs := (g_sigs g)(p := sp), g_mach := (g_mach g)(p := m)\<rparr>))"

definition count_signal :: "nat \<Rightarrow> gsys \<Rightarrow> gsys" where
  "count_signal p g =
     g\<lparr>g_x := upd_r (\<lambda>r. r\<lparr>p_ru := (p_ru r)(p := (p_ru r p)\<lparr>ru_counts := (ru_counts (p_ru r p))[10 := ru_counts (p_ru r p) ! 10 + 1]\<rparr>)\<rparr>) (g_x g)\<rparr>"

definition block_more :: "nat \<Rightarrow> sigproc \<Rightarrow> sigproc" where
  "block_more sig sp = sp\<lparr>p_sigmask := p_sigmask sp OR (ps_catchmask sp sig OR sigmask sig)\<rparr>"

definition psig :: "genv \<Rightarrow> nat \<Rightarrow> gsys \<Rightarrow> gsys kres" where
  "psig env sig g =
     (let p = g_curproc g; act = ps_sigact (g_sigs g p) sig; b = sigmask sig; g1 = clrsig p b g; sp = g_sigs g1 p in
      if sig = 0 then Panic ''psig''
      else if act = SIG_DFL then sigexit env p sig g1
      else if act = SIG_IGN \<or> p_sigmask sp AND b \<noteq> 0 then Panic ''psig action''
      else let pause = (ps_flags sp AND SA_OLDMASK \<noteq> 0);
               returnmask = (if pause then ps_oldmask sp else p_sigmask sp);
               g2 = (if pause then upd_sig p (\<lambda>sp. sp\<lparr>ps_flags := ps_flags sp AND NOT SA_OLDMASK\<rparr>) g1 else g1);
               g3 = count_signal p (upd_sig p (block_more sig) g2) in
           kbind (send_frame env p sig returnmask g3) (\<lambda>(e, g4).
             if e \<noteq> 0 then sigexit env p SIGILL g4 else Done (upd_sig p (\<lambda>sp. sp\<lparr>ps_code := 0\<rparr>) g4)))"

definition trapsignal :: "genv \<Rightarrow> nat \<Rightarrow> nat \<Rightarrow> u32 \<Rightarrow> gsys \<Rightarrow> gsys kres" where
  "trapsignal env p sig code g =
     (let b = sigmask sig; g1 = upd_sig p (\<lambda>sp. sp\<lparr>ps_code := code\<rparr>) g; sp = g_sigs g1 p; cur = (p = g_curproc g1) in
      if p = g_pageproc g1 then Panic ''trapsignal''
      else if cur \<and> sig = SIGSEGV \<and> \<not> e_access env p (ps_sigact sp SIGSEGV) then sigexit env p sig g1
      else if cur \<and> \<not> p_strc (g_x g1) p \<and> p_sigcatch sp AND b \<noteq> 0 then
        if p_sigmask sp AND b = 0 then
          kbind (send_frame env p sig (p_sigmask sp) (count_signal p g1)) (\<lambda>(e, g2).
            if e \<noteq> 0 then sigexit env p sig g2 else Done (upd_sig p (\<lambda>sp. block_more sig (sp\<lparr>ps_code := 0\<rparr>)) g2))
        else sigexit env p sig g1
      else psignal p sig g1)"

definition sigreturn :: "nat \<Rightarrow> gsys \<Rightarrow> int \<times> gsys" where
  "sigreturn p g =
     (let (e, sp, m) = cpu_signalreturn (g_sigs g p) (g_mach g p) in
      (e, g\<lparr>g_sigs := (g_sigs g)(p := sp), g_mach := (g_mach g)(p := m)\<rparr>))"

section \<open>Signal actions\<close>

definition SA_ONSTACK :: u32 where "SA_ONSTACK = 1"
definition SA_RESTART :: u32 where "SA_RESTART = 2"
definition SA_NOCLDSTOP :: u32 where "SA_NOCLDSTOP = 4"

record sigaction_t =
  sa_handler :: u32
  sa_mask :: u32
  sa_flags :: u32

text \<open>What \<open>sigaction\<close> reports, and what it installs.\<close>

definition sigact_get :: "nat \<Rightarrow> sigproc \<Rightarrow> sigaction_t" where
  "sigact_get sig sp =
     (let b = sigmask sig in
      \<lparr>sa_handler = ps_sigact sp sig, sa_mask = ps_catchmask sp sig,
       sa_flags = (if ps_sigonstack sp AND b \<noteq> 0 then SA_ONSTACK else 0) OR (if ps_sigintr sp AND b = 0 then SA_RESTART else 0) OR
                  (if p_snocldstop sp then SA_NOCLDSTOP else 0)\<rparr>)"

definition set_if :: "bool \<Rightarrow> u32 \<Rightarrow> u32 \<Rightarrow> u32" where
  "set_if c b s = (if c then s OR b else s AND NOT b)"

definition sigact_set :: "nat \<Rightarrow> sigaction_t \<Rightarrow> sigproc \<Rightarrow> sigproc" where
  "sigact_set sig sa sp =
     (let b = sigmask sig; act = sa_handler sa;
          sp1 = sp\<lparr>ps_sigact := (ps_sigact sp)(sig := act), ps_catchmask := (ps_catchmask sp)(sig := sa_mask sa AND NOT sigcantmask),
                   ps_sigintr := set_if (sa_flags sa AND SA_RESTART = 0) b (ps_sigintr sp),
                   ps_sigonstack := set_if (sa_flags sa AND SA_ONSTACK \<noteq> 0) b (ps_sigonstack sp),
                   p_snocldstop := (if sig = sigCHLD then sa_flags sa AND SA_NOCLDSTOP \<noteq> 0 else p_snocldstop sp)\<rparr> in
      if act = SIG_IGN \<or> sigprop sig AND SA_IGNORE \<noteq> 0 \<and> act = SIG_DFL
      then sp1\<lparr>p_sig := p_sig sp1 AND NOT b, p_sigignore := (if sig \<noteq> sigCONT then p_sigignore sp1 OR b else p_sigignore sp1),
               p_sigcatch := p_sigcatch sp1 AND NOT b\<rparr>
      else sp1\<lparr>p_sigignore := p_sigignore sp1 AND NOT b, p_sigcatch := set_if (act \<noteq> SIG_DFL) b (p_sigcatch sp1)\<rparr>)"

text \<open>
  The system call: \<open>osa\<close> is the copy to user space, if it is asked for, with its error, and \<open>nsa\<close> the
  copy from user space, if there is one, with its error or the action.
\<close>

definition sigaction :: "genv \<Rightarrow> nat \<Rightarrow> int \<Rightarrow> (int + sigaction_t) option \<Rightarrow> (sigaction_t \<Rightarrow> int) option \<Rightarrow> gsys \<Rightarrow> int \<times> gsys" where
  "sigaction env p signo nsa osa g =
     (let sig = nat signo in
      if signo \<le> 0 \<or> int NSIG \<le> signo then (EINVAL, g)
      else if copy_if osa (sigact_get sig (g_sigs g p)) \<noteq> 0 then (EFAULT, g)
      else case nsa of None \<Rightarrow> (0, g) | Some new \<Rightarrow>
        if sigmask sig AND sigcantmask \<noteq> 0 then (EINVAL, g)
        else case new of Inl e \<Rightarrow> (EFAULT, g) | Inr sa \<Rightarrow>
          if sa_handler sa \<notin> {SIG_DFL, SIG_IGN, BADSIG} \<and> \<not> e_access env p (sa_handler sa) then (EFAULT, g)
          else (0, upd_sig p (sigact_set sig sa) g))"

definition SIG_BLOCK :: int where "SIG_BLOCK = 1"
definition SIG_UNBLOCK :: int where "SIG_UNBLOCK = 2"
definition SIG_SETMASK :: int where "SIG_SETMASK = 3"

text \<open>The error and the number returned.\<close>

definition sigprocmask :: "nat \<Rightarrow> int \<Rightarrow> u32 \<Rightarrow> gsys \<Rightarrow> int \<times> u32 \<times> gsys" where
  "sigprocmask p how msk g =
     (let old = p_sigmask (g_sigs g p); put = (\<lambda>m. (0, old, upd_sig p (\<lambda>sp. sp\<lparr>p_sigmask := m\<rparr>) g)) in
      if how = SIG_BLOCK then put (old OR (msk AND NOT sigcantmask))
      else if how = SIG_UNBLOCK then put (old AND NOT msk)
      else if how = SIG_SETMASK then put (msk AND NOT sigcantmask)
      else (EINVAL, old, g))"

definition sigpending :: "nat \<Rightarrow> gsys \<Rightarrow> u32" where
  "sigpending p g = p_sig (g_sigs g p)"

definition PPAUSE :: u32 where "PPAUSE = 40"

text \<open>
  \<open>sigsuspend\<close> up to its first sleep, on the address of the signal state, and the test of what \<open>tsleep\<close>
  returns: \<open>None\<close> to sleep again.
\<close>

definition sigsuspend :: "u32 \<Rightarrow> nat \<Rightarrow> u32 \<Rightarrow> gsys \<Rightarrow> gsys kres" where
  "sigsuspend chan p msk g =
     (let g1 = upd_sig p (\<lambda>sp. sp\<lparr>ps_oldmask := p_sigmask sp, ps_flags := ps_flags sp OR SA_OLDMASK, p_sigmask := msk AND NOT sigcantmask\<rparr>) g in
      kmap (\<lambda>q. put_q q g1) (tsleep_enqueue chan PPAUSE (g_sched g1)))"

definition sigsuspend_woken :: "tsret \<Rightarrow> tsret option" where
  "sigsuspend_woken r = (if r = TsOk then None else Some EINTR)"

definition sigstack :: "nat \<Rightarrow> (int + u32 \<times> u32) option \<Rightarrow> (u32 \<times> u32 \<Rightarrow> int) option \<Rightarrow> gsys \<Rightarrow> int \<times> gsys" where
  "sigstack p nss oss g =
     (let sp = g_sigs g p; e = copy_if oss (ps_sigsp sp, ps_onstack sp) in
      if e \<noteq> 0 then (e, g)
      else case nss of None \<Rightarrow> (0, g) | Some (Inl e) \<Rightarrow> (e, g)
        | Some (Inr (sptr, on)) \<Rightarrow> (0, upd_sig p (\<lambda>sp. sp\<lparr>ps_onstack := on, ps_sigsp := sptr\<rparr>) g))"

section \<open>Sending signals\<close>

text \<open>Whether \<open>p\<close> may send a signal to \<open>q\<close>; the sessions are looked at only for \<open>SIGCONT\<close>.\<close>

definition cansignal :: "nat \<Rightarrow> nat \<Rightarrow> nat \<Rightarrow> gsys \<Rightarrow> bool kres" where
  "cansignal p q signo g =
     kbind (get_creds p (x_creds (g_x g))) (\<lambda>(pc, pu). kbind (get_creds q (x_creds (g_x g))) (\<lambda>(qc, qu).
       if cr_uid pu = 0 \<or> p_ruid pc = p_ruid qc \<or> cr_uid pu = p_ruid qc \<or> p_ruid pc = cr_uid qu \<or> cr_uid pu = cr_uid qu
       then Done True
       else if signo = sigCONT then
         kbind (get_pgrp q (g_jobs g)) (\<lambda>(a, G). kmap (\<lambda>(b, H). pg_session G = pg_session H) (get_pgrp p (g_jobs g)))
       else Done False))"

text \<open>The walks of \<open>killpg\<close>: \<open>skip\<close> is the test that passes over a process.\<close>

fun kill_list :: "(nat \<Rightarrow> gsys \<Rightarrow> bool kres) \<Rightarrow> nat \<Rightarrow> nat list \<Rightarrow> nat \<Rightarrow> gsys \<Rightarrow> (nat \<times> gsys) kres" where
  "kill_list skip signo [] n g = Done (n, g)"
| "kill_list skip signo (p # ps) n g =
     kbind (skip p g) (\<lambda>s.
       if s then kill_list skip signo ps n g
       else kbind (if signo \<noteq> 0 then psignal p signo g else Done g) (kill_list skip signo ps (n + 1)))"

definition skip_all :: "nat \<Rightarrow> nat \<Rightarrow> nat \<Rightarrow> gsys \<Rightarrow> bool kres" where
  "skip_all cp signo p g =
     kbind (deref (jprocs (g_jobs g) p)) (\<lambda>pr.
       if p_pid pr = 1 \<or> p_ssys (g_sigs g p) \<or> p = cp then Done True else kmap Not (cansignal cp p signo g))"

definition skip_group :: "nat \<Rightarrow> nat \<Rightarrow> nat \<Rightarrow> gsys \<Rightarrow> bool kres" where
  "skip_group cp signo p g =
     kbind (deref (jprocs (g_jobs g) p)) (\<lambda>pr.
       if p_pid pr = 1 \<or> p_ssys (g_sigs g p) \<or> jproc.p_stat pr = SZOMB then Done True else kmap Not (cansignal cp p signo g))"

definition killpg :: "nat \<Rightarrow> nat \<Rightarrow> int \<Rightarrow> bool \<Rightarrow> gsys \<Rightarrow> (int \<times> gsys) kres" where
  "killpg cp signo pgid all g =
     (let fin = kmap (\<lambda>(n, g'). (if n \<noteq> 0 then 0 else ESRCH, g')) in
      if all then fin (kill_list (skip_all cp signo) signo (allproc (x_rsys (g_x g))) 0 g)
      else kbind (if pgid = 0 then kmap (\<lambda>(a, G). Some a) (get_pgrp cp (g_jobs g)) else Done (pgfind pgid (g_jobs g))) (\<lambda>pgrp.
        case pgrp of None \<Rightarrow> Done (ESRCH, g)
        | Some a \<Rightarrow> kbind (deref (pgrps (g_jobs g) a)) (\<lambda>G. fin (kill_list (skip_group cp signo) signo (pg_mem G) 0 g))))"

definition kill :: "nat \<Rightarrow> int \<Rightarrow> int \<Rightarrow> gsys \<Rightarrow> (int \<times> gsys) kres" where
  "kill cp pid signo g =
     (let sig = nat signo in
      if signo < 0 \<or> int NSIG \<le> signo then Done (EINVAL, g)
      else if 0 < pid then
        case pfind pid (g_jobs g) of None \<Rightarrow> Done (ESRCH, g)
        | Some p \<Rightarrow> kbind (cansignal cp p sig g) (\<lambda>can.
            if \<not> can then Done (EPERM, g)
            else kmap (Pair 0) (if sig \<noteq> 0 then psignal p sig g else Done g))
      else if pid = -1 then killpg cp sig 0 True g
      else if pid = 0 then killpg cp sig 0 False g
      else killpg cp sig (- pid) False g)"

definition ENOSYS :: int where "ENOSYS = 78"

definition nosys :: "nat \<Rightarrow> gsys \<Rightarrow> (int \<times> gsys) kres" where
  "nosys p g = kmap (Pair ENOSYS) (psignal p SIGSYS g)"

text \<open>A signal to every member of a group, or to those with a controlling terminal.\<close>

fun pgsignal_list :: "nat list \<Rightarrow> nat \<Rightarrow> bool \<Rightarrow> gsys \<Rightarrow> gsys kres" where
  "pgsignal_list [] sig checkctty g = Done g"
| "pgsignal_list (p # ps) sig checkctty g =
     kbind (deref (jprocs (g_jobs g) p)) (\<lambda>pr.
       kbind (if \<not> checkctty \<or> p_sctty pr then psignal p sig g else Done g) (pgsignal_list ps sig checkctty))"

definition pgsignal :: "addr option \<Rightarrow> nat \<Rightarrow> bool \<Rightarrow> gsys \<Rightarrow> gsys kres" where
  "pgsignal pgrp sig checkctty g =
     (case pgrp of None \<Rightarrow> Done g
      | Some a \<Rightarrow> kbind (deref (pgrps (g_jobs g) a)) (\<lambda>G. pgsignal_list (pg_mem G) sig checkctty g))"

definition signalpid :: "int \<Rightarrow> gsys \<Rightarrow> gsys kres" where
  "signalpid pid g =
     (if pid < 0 \<and> pgfind (- pid) (g_jobs g) \<noteq> None then pgsignal (pgfind (- pid) (g_jobs g)) SIGURG False g
      else if 0 < pid then (case pfind pid (g_jobs g) of None \<Rightarrow> Done g | Some p \<Rightarrow> psignal p SIGURG g)
      else Done g)"

section \<open>New processes and programs\<close>

text \<open>
  What \<open>fork1\<close> makes of the signal state of the child: the pending signals are cleared, the flags are
  new, and the masks and actions are those of the parent.
\<close>

definition fork_sigs :: "nat \<Rightarrow> nat \<Rightarrow> gsys \<Rightarrow> gsys" where
  "fork_sigs p2 p1 g = g\<lparr>g_sigs := (g_sigs g)(p2 := (g_sigs g p1)\<lparr>p_sig := 0, p_ssys := False, p_snocldstop := False\<rparr>)\<rparr>"

definition siginit :: "nat \<Rightarrow> gsys \<Rightarrow> gsys" where
  "siginit p =
     fold (\<lambda>i. if sigprop i AND SA_IGNORE \<noteq> 0 \<and> i \<noteq> sigCONT then upd_sig p (\<lambda>sp. sp\<lparr>p_sigignore := p_sigignore sp OR sigmask i\<rparr>) else id)
       [0..<NSIG]"

text \<open>The loop of \<open>execsigs\<close> takes the caught signals one by one.\<close>

definition exec_reset :: "nat \<Rightarrow> sigproc \<Rightarrow> sigproc" where
  "exec_reset sig sp =
     (let b = sigmask sig; sp1 = sp\<lparr>p_sigcatch := p_sigcatch sp AND NOT b, ps_sigact := (ps_sigact sp)(sig := SIG_DFL)\<rparr> in
      if sigprop sig AND SA_IGNORE \<noteq> 0
      then sp1\<lparr>p_sigignore := (if sig \<noteq> sigCONT then p_sigignore sp1 OR b else p_sigignore sp1), p_sig := p_sig sp1 AND NOT b\<rparr>
      else sp1)"

function exec_loop :: "sigproc \<Rightarrow> sigproc" where
  "exec_loop sp = (if p_sigcatch sp = 0 then sp else exec_loop (exec_reset (ffs (p_sigcatch sp)) sp))"
  by pat_completeness auto
termination
proof (relation "measure (\<lambda>sp. unat (p_sigcatch sp))")
  fix sp :: sigproc
  assume c: "p_sigcatch sp \<noteq> 0"
  have "unat (p_sigcatch sp AND NOT (sigmask (ffs (p_sigcatch sp)))) < unat (p_sigcatch sp)"
    by (rule clear_bit_less [of _ "ffs (p_sigcatch sp) - 1"]) (use ffs_bit [OF c] sigmask_bit in auto)
  then show "(exec_reset (ffs (p_sigcatch sp)) sp, sp) \<in> measure (\<lambda>sp. unat (p_sigcatch sp))"
    by (simp add: exec_reset_def Let_def)
qed simp

declare exec_loop.simps [simp del]

definition execsigs :: "nat \<Rightarrow> gsys \<Rightarrow> gsys" where
  "execsigs p g =
     (let g1 = upd_sig p (\<lambda>sp. (exec_loop sp)\<lparr>ps_onstack := 0, ps_sigsp := 0, ps_sigonstack := 0\<rparr>) g in
      g1\<lparr>g_x := (g_x g1)\<lparr>ps_stopsig := (ps_stopsig (g_x g1))(p := 0)\<rparr>\<rparr>)"

end
