(* ===== verification/Signal_Inv.thy ===== *)
theory Signal_Inv
  imports Signal Exit_Props
begin

unbundle bit_operations_syntax

text \<open>
  What the operations of \<open>Signal\<close> keep of the signal state: the contract of a property of one process
  that every elementary change keeps, as a locale, and its two instances: the dispositions are
  consistent, and the pending signals are.
\<close>

section \<open>What an operation leaves alone\<close>

text \<open>Posting a signal changes pending signals, run states and the wait status only.\<close>

lemma keeps_swexit:
  "setrun p s = Done s' \<Longrightarrow> p_swexit (procs s' q) = p_swexit (procs s q)"
  "unsleep p s = Done s' \<Longrightarrow> p_swexit (procs s' q) = p_swexit (procs s q)"
  "wakeup c s = Done s' \<Longrightarrow> p_swexit (procs s' q) = p_swexit (procs s q)"
proof -
  have setrq: "setrq p s = Done s' \<Longrightarrow> procs s' = procs s" for p s s' by (auto simp: setrq_def Let_def split: if_splits)
  have unsleep: "unsleep p s = Done s' \<Longrightarrow> p_swexit (procs s' q) = p_swexit (procs s q)" for p s s'
    by (auto simp: unsleep_def Let_def split: if_splits)
  have upri: "p_swexit (procs (updatepri p s) r) = p_swexit (procs s r)" for p s r by (rule same_qD [OF updatepri_same])
  show "unsleep p s = Done s' \<Longrightarrow> p_swexit (procs s' q) = p_swexit (procs s q)" by (rule unsleep)
  show "setrun p s = Done s' \<Longrightarrow> p_swexit (procs s' q) = p_swexit (procs s q)"
  proof -
    assume "setrun p s = Done s'"
    then obtain s1 s3 where r: "(case sproc.p_stat (procs s p) of SSTOP \<Rightarrow> unsleep p s | SSLEEP \<Rightarrow> unsleep p s | SIDL \<Rightarrow> Done s | _ \<Rightarrow> Panic ''setrun'') = Done s1"
      "(if p_sload (procs (pupd p (\<lambda>pr. pr\<lparr>sproc.p_stat := SRUN\<rparr>) s1) p) then setrq p (pupd p (\<lambda>pr. pr\<lparr>sproc.p_stat := SRUN\<rparr>) s1)
        else Done (pupd p (\<lambda>pr. pr\<lparr>sproc.p_stat := SRUN\<rparr>) s1)) = Done s3"
      "(let s4 = (if 1 < p_slptime (procs s3 p) then updatepri p s3 else s3); s5 = pupd p (\<lambda>pr. pr\<lparr>p_slptime := 0\<rparr>) s4 in
        Done (if ucast (p_pri (procs s5 p)) < curpri s5 then need_resched s5 else s5)) = Done s'"
      unfolding setrun_def Let_def kbind_Done_iff by blast
    have "p_swexit (procs s1 q) = p_swexit (procs s q)" using r(1) unsleep [of p s s1] by (auto split: pstat.splits)
    moreover have "procs s3 = procs (pupd p (\<lambda>pr. pr\<lparr>sproc.p_stat := SRUN\<rparr>) s1)" using r(2) setrq by (auto split: if_splits)
    moreover have "p_swexit (procs s' q) = p_swexit (procs s3 q)" using r(3) upri by (auto simp: Let_def split: if_splits)
    ultimately show ?thesis by (cases "q = p") auto
  qed
  have run: "wakeup_run p s = Done s' \<Longrightarrow> p_swexit (procs s' q) = p_swexit (procs s q)" for p s s'
    by (auto simp: wakeup_run_def Let_def kmap_Done_iff upri dest!: setrq split: if_splits)
  have "wakeup_scan c pre qs s = Done s' \<Longrightarrow> p_swexit (procs s' q) = p_swexit (procs s q)" for pre qs
  proof (induction c pre qs s rule: wakeup_scan.induct)
    case (2 c pre p ps s)
    let ?s1 = "pupd p (\<lambda>pr. pr\<lparr>p_wchan := 0\<rparr>) (s\<lparr>slpque := (slpque s)(HASH c := pre @ ps)\<rparr>)"
    have e: "p_swexit (procs ?s1 q) = p_swexit (procs s q)" by simp
    have w: "\<not> (on_rq p s \<or> sproc.p_stat (procs s p) \<noteq> SSLEEP \<and> sproc.p_stat (procs s p) \<noteq> SSTOP)"
      using 2(4) by (auto simp: wakeup_scan.simps Let_def split: if_splits)
    show ?case
    proof (cases "p_wchan (procs s p) = c")
      case False
      then show ?thesis using 2(3) [OF refl w] 2(4) w by (auto simp: wakeup_scan.simps Let_def)
    next
      case c: True
      show ?thesis
      proof (cases "sproc.p_stat (procs s p) = SSLEEP")
        case True
        then obtain t where t: "wakeup_run p ?s1 = Done t" "wakeup_scan c [] (pre @ ps) t = Done s'"
          using 2(4) w c by (auto simp: wakeup_scan.simps Let_def kbind_Done_iff)
        show ?thesis using 2(1) [OF refl w c refl True t(2)] run [OF t(1)] e by simp
      next
        case False
        then show ?thesis using 2(2) [OF refl w c refl False] 2(4) w c e by (simp add: wakeup_scan.simps Let_def)
      qed
    qed
  qed (simp add: wakeup_scan.simps)
  then show "wakeup c s = Done s' \<Longrightarrow> p_swexit (procs s' q) = p_swexit (procs s q)" by (simp add: wakeup_def)
qed

definition same_frame :: "gsys \<Rightarrow> gsys \<Rightarrow> bool" where
  "same_frame g g' \<longleftrightarrow>
     x_creds (g_x g') = x_creds (g_x g) \<and> allproc (x_rsys (g_x g')) = allproc (x_rsys (g_x g)) \<and>
     pgrps (g_jobs g') = pgrps (g_jobs g) \<and> sessions (g_jobs g') = sessions (g_jobs g) \<and>
     pidhash (g_jobs g') = pidhash (g_jobs g) \<and> pgrphash (g_jobs g') = pgrphash (g_jobs g) \<and>
     (\<forall>p. map_option (\<lambda>r. r\<lparr>jproc.p_stat := SIDL\<rparr>) (jprocs (g_jobs g') p) = map_option (\<lambda>r. r\<lparr>jproc.p_stat := SIDL\<rparr>) (jprocs (g_jobs g) p)) \<and>
     p_strc (g_x g') = p_strc (g_x g) \<and> p_sppwait (g_x g') = p_sppwait (g_x g) \<and>
     g_mach g' = g_mach g \<and> g_pageproc g' = g_pageproc g \<and> (\<forall>p. p_swexit (g_proc g' p) = p_swexit (g_proc g p)) \<and>
     (\<forall>p. (g_sigs g' p)\<lparr>p_sig := 0\<rparr> = (g_sigs g p)\<lparr>p_sig := 0\<rparr>)"

lemma same_frame_refl [simp]: "same_frame g g"
  by (simp add: same_frame_def)

lemma same_frame_trans: "same_frame g h \<Longrightarrow> same_frame h k \<Longrightarrow> same_frame g k"
  by (simp add: same_frame_def)

lemma put_q_sel [simp]:
  "g_sigs (put_q q g) = g_sigs g" "g_mach (put_q q g) = g_mach g" "g_sched (put_q q g) = q" "p_strc (g_x (put_q q g)) = p_strc (g_x g)"
  "p_sppwait (g_x (put_q q g)) = p_sppwait (g_x g)" "x_creds (g_x (put_q q g)) = x_creds (g_x g)"
  "g_pageproc (put_q q g) = g_pageproc g" "g_ast (put_q q g) = g_ast g" "ps_stopsig (g_x (put_q q g)) = ps_stopsig (g_x g)"
  "jprocs (g_jobs (put_q q g)) p = map_option (\<lambda>r. r\<lparr>jproc.p_stat := sproc.p_stat (procs q p)\<rparr>) (jprocs (g_jobs g) p)"
  "pgrps (g_jobs (put_q q g)) = pgrps (g_jobs g)"
  by (simp_all add: put_q_def Let_def put_jobs_def put_sched_def upd_r_def)

lemma same_frame_put_q: "\<forall>p. p_swexit (procs q p) = p_swexit (g_proc g p) \<Longrightarrow> same_frame g (put_q q g)"
  by (simp add: same_frame_def put_q_def Let_def put_jobs_def put_sched_def upd_r_def option.map_comp comp_def)

lemma upd_sig_sel [simp]:
  "g_x (upd_sig p f g) = g_x g" "g_mach (upd_sig p f g) = g_mach g" "g_pageproc (upd_sig p f g) = g_pageproc g"
  "g_ast (upd_sig p f g) = g_ast g" "g_sigs (upd_sig p f g) q = (if q = p then f (g_sigs g p) else g_sigs g q)"
  by (simp_all add: upd_sig_def)

lemma clrsig_sel [simp]:
  "g_x (clrsig p b g) = g_x g" "g_mach (clrsig p b g) = g_mach g" "g_pageproc (clrsig p b g) = g_pageproc g" "g_ast (clrsig p b g) = g_ast g"
  "g_sigs (clrsig p b g) q = (if q = p then (g_sigs g p)\<lparr>p_sig := p_sig (g_sigs g p) AND NOT b\<rparr> else g_sigs g q)"
  by (simp_all add: clrsig_def)

lemma post_sig_sel [simp]:
  "g_x (post_sig p b g) = g_x g" "g_mach (post_sig p b g) = g_mach g" "g_pageproc (post_sig p b g) = g_pageproc g" "g_ast (post_sig p b g) = g_ast g"
  "g_sigs (post_sig p b g) q = (if q = p then (g_sigs g p)\<lparr>p_sig := p_sig (g_sigs g p) OR b\<rparr> else g_sigs g q)"
  by (simp_all add: post_sig_def)

lemma g_proc_put_q [simp]: "g_proc (put_q q g) = procs q"
  by simp

lemma same_frame_sig [simp]: "same_frame g (clrsig p b g)" "same_frame g (post_sig p b g)"
  "same_frame g (clear_stops prop p g)" "same_frame g (clear_conts prop p g)" "same_frame g (promote act p sig g)" "same_frame g (notify p g)"
  by (simp_all add: same_frame_def clear_stops_def clear_conts_def promote_def notify_def)
     (simp_all add: put_q_def Let_def put_jobs_def put_sched_def upd_r_def option.map_comp comp_def)

text \<open>Some changes of run states, with at most the signal itself taken back.\<close>

definition quiet :: "nat \<Rightarrow> u32 \<Rightarrow> gsys \<Rightarrow> gsys \<Rightarrow> bool" where
  "quiet p b g g' \<longleftrightarrow> same_frame g g' \<and> (g_sigs g' = g_sigs g \<or> g_sigs g' = g_sigs (clrsig p b g))"

lemma quiet_put_q:
  "h = g \<or> h = clrsig p b g \<Longrightarrow> \<forall>r. p_swexit (procs q r) = p_swexit (g_proc h r) \<Longrightarrow> quiet p b g (put_q q h)"
  unfolding quiet_def using same_frame_trans [OF _ same_frame_put_q] by auto

lemma quiet_simps [simp]: "quiet p b g g" "quiet p b g (clrsig p b g)" "quiet p b g (notify p g)"
  by (simp_all add: quiet_def notify_def) (simp add: same_frame_def)

lemma run_now_quiet: "run_now fast p h = Done g' \<Longrightarrow> h = g \<or> h = clrsig p b g \<Longrightarrow> quiet p b g g'"
proof -
  assume r: "run_now fast p h = Done g'" and h: "h = g \<or> h = clrsig p b g"
  then obtain q where q: "setrun p (if fast \<and> PUSER < p_pri (g_proc h p) then pupd p (\<lambda>pr. pr\<lparr>p_pri := PUSER\<rparr>) (g_sched h) else g_sched h) = Done q"
    "g' = put_q q h" by (auto simp: run_now_def Let_def kmap_Done_iff)
  have "p_swexit (procs q r) = p_swexit (g_proc h r)" for r using keeps_swexit(1) [OF q(1), of r] by simp
  then show ?thesis unfolding q(2) by (intro quiet_put_q [OF h]) blast
qed

lemma psignal_stopped_quiet: "psignal_stopped act p sig g = Done g' \<Longrightarrow> quiet p (sigmask sig) g g'"
  unfolding psignal_stopped_def Let_def
  by (auto simp: kmap_Done_iff keeps_swexit(2) intro: run_now_quiet intro!: quiet_put_q split: if_splits)

text \<open>The state in which \<open>psignal\<close> has posted a signal.\<close>

definition posted :: "action \<Rightarrow> nat \<Rightarrow> nat \<Rightarrow> gsys \<Rightarrow> gsys" where
  "posted act p sig g =
     post_sig p (sigmask sig) (clear_conts (sigprop sig) p (clear_stops (sigprop sig) p (promote act p sig g)))"

lemma psignal_Done:
  assumes "psignal p sig g = Done g'"
  obtains "0 < sig" "sig < 32" "g' = g" "p_sigignore (g_sigs g p) AND sigmask sig \<noteq> 0" "\<not> p_strc (g_x g) p"
  | act where "0 < sig" "sig < 32" "sig_action (g_sigs g p) (p_strc (g_x g) p) (sigmask sig) = Some act"
      "g' = clear_stops (sigprop sig) p (promote act p sig g)" "sigprop sig AND SA_STOP \<noteq> 0"
  | act where "0 < sig" "sig < 32" "sig_action (g_sigs g p) (p_strc (g_x g) p) (sigmask sig) = Some act"
      "quiet p (sigmask sig) (posted act p sig g) g'"
  | act where "0 < sig" "sig < 32" "sig_action (g_sigs g p) (p_strc (g_x g) p) (sigmask sig) = Some act"
      "sigprop sig AND SA_STOP \<noteq> 0" "stop p sig (clrsig p (sigmask sig) (posted act p sig g)) = Done g'"
proof -
  let ?a = "sig_action (g_sigs g p) (p_strc (g_x g) p) (sigmask sig)"
  have s: "0 < sig" "sig < 32" using assms by (auto simp: psignal.simps [of p sig g] Let_def NSIG_def split: if_splits)
  show thesis
  proof (cases ?a)
    case None
    then have "p_sigignore (g_sigs g p) AND sigmask sig \<noteq> 0" "\<not> p_strc (g_x g) p" by (auto simp: sig_action_def split: if_splits)
    moreover have "g' = g" using assms None s by (simp add: psignal.simps [of p sig g] Let_def NSIG_def)
    ultimately show thesis using that(1) s by blast
  next
    case (Some act)
    have n: "(NSIG \<le> sig \<or> sig = 0) = False" using s by (simp add: NSIG_def)
    let ?g1 = "clear_stops (sigprop sig) p (promote act p sig g)" and ?g2 = "posted act p sig g" and ?b = "sigmask sig"
    have "kbind (tty_dropped act p (sigprop sig) ?g1) (\<lambda>d. if d then Done ?g1
            else if act = A_HOLD \<and> (sigprop sig AND SA_CONT = 0 \<or> g_stat ?g2 p \<noteq> SSTOP) then Done ?g2
            else if g_stat ?g2 p = SSLEEP then
              if \<not> p_ssintr (g_proc ?g2 p) then Done ?g2
              else if p_strc (g_x ?g2) p then run_now False p ?g2
              else if sigprop sig AND SA_CONT \<noteq> 0 \<and> act = A_DFL then Done (clrsig p ?b ?g2)
              else if sigprop sig AND SA_STOP \<noteq> 0 \<and> act = A_DFL then stop p sig (clrsig p ?b ?g2)
              else run_now True p ?g2
            else if g_stat ?g2 p = SSTOP then psignal_stopped act p sig ?g2
            else Done (notify p ?g2)) = Done g'" (is "kbind ?d ?f = _")
      using assms unfolding psignal.simps [of p sig g] Let_def Some n if_False option.case posted_def .
    then obtain d where d: "?d = Done d" and r: "?f d = Done g'" unfolding kbind_Done_iff by blast
    show thesis
    proof (cases d)
      case True
      then have "sigprop sig AND SA_STOP \<noteq> 0" using d by (auto simp: tty_dropped_def split: if_splits)
      then show thesis using that(2) [OF s Some] r True by simp
    next
      case False
      have "quiet p ?b ?g2 g' \<or> sigprop sig AND SA_STOP \<noteq> 0 \<and> stop p sig (clrsig p ?b ?g2) = Done g'"
        using r False run_now_quiet [of _ p ?g2 g' ?g2 ?b] psignal_stopped_quiet [of act p sig ?g2 g'] by (auto split: if_splits)
      then show thesis using that(3,4) [OF s Some] by blast
    qed
  qed
qed

lemma stop_Done:
  assumes "stop p sig g = Done g'"
  obtains "p_sppwait (g_x g) p" "g' = g"
  | pr g1 where "\<not> p_sppwait (g_x g) p" "jprocs (g_jobs g) p = Some pr"
      "g1 = g \<or> \<not> p_strc (g_x g) p \<and> (\<exists>pp. p_pptr pr = Some pp \<and> psignal pp sigCHLD g = Done g1)"
      "same_frame g1 g'" "g_sigs g' = g_sigs g1"
proof (cases "p_sppwait (g_x g) p")
  case True
  then show thesis using that(1) assms by (simp add: stop.simps)
next
  case False
  then obtain pr g1 q where r: "jprocs (g_jobs g) p = Some pr"
      "(if p_strc (g_x g) p then Done g else kbind (deref (p_pptr pr)) (\<lambda>pp. if p_snocldstop (g_sigs g pp) then Done g else psignal pp sigCHLD g)) = Done g1"
      and g': "g' = (let g3 = put_q q (put_q (pupd p (\<lambda>pr. pr\<lparr>sproc.p_stat := SSTOP\<rparr>) (g_sched g1)) g1) in
        g3\<lparr>g_x := (g_x g3)\<lparr>ps_stopsig := (ps_stopsig (g_x g3))(p := int sig), p_swted := (p_swted (g_x g3))(p := False)\<rparr>\<rparr>)"
      and w: "wakeup (case p_pptr pr of None \<Rightarrow> 0 | Some pp \<Rightarrow> of_nat pp) (pupd p (\<lambda>pr. pr\<lparr>sproc.p_stat := SSTOP\<rparr>) (g_sched g1)) = Done q"
    using assms by (auto simp: stop.simps [of p sig g] kbind_Done_iff kmap_Done_iff deref_def split: option.splits)
  have "same_frame g1 (put_q q (put_q (pupd p (\<lambda>pr. pr\<lparr>sproc.p_stat := SSTOP\<rparr>) (g_sched g1)) g1))"
    by (rule same_frame_trans [OF same_frame_put_q same_frame_put_q]) (use w in \<open>auto simp: keeps_swexit(3)\<close>)
  then have "same_frame g1 g'" "g_sigs g' = g_sigs g1" unfolding g' by (auto simp: same_frame_def Let_def)
  moreover have "g1 = g \<or> \<not> p_strc (g_x g) p \<and> (\<exists>pp. p_pptr pr = Some pp \<and> psignal pp sigCHLD g = Done g1)"
    using r(2) by (auto simp: kbind_Done_iff deref_def split: if_splits option.splits)
  ultimately show thesis using that(2) [OF False r(1)] by blast
qed

lemma same_frame_posted: "same_frame g (posted act p sig g)"
proof -
  have "same_frame g (clear_conts pr p (clear_stops pr p (promote act p sig g)))" for pr
    by (rule same_frame_trans [OF same_frame_trans [OF same_frame_sig(5) same_frame_sig(3)] same_frame_sig(4)])
  then show ?thesis unfolding posted_def using same_frame_trans same_frame_sig(2) by blast
qed

lemma sigCHLD_no_stop: "sigprop sigCHLD AND SA_STOP = 0"
  by (simp add: sigprop_def sigprops_def sig_defs sa_defs)

lemma psignal_frame:
  assumes "psignal p sig g = Done g'"
  shows "same_frame g g'"
proof -
  have plain: "same_frame g g'" if "psignal p sig g = Done g'" "sigprop sig AND SA_STOP = 0" for p sig g g'
    using that(1)
  proof (cases rule: psignal_Done)
    case (3 act)
    then show ?thesis using same_frame_trans [OF same_frame_posted] by (auto simp: quiet_def)
  qed (use that in auto)
  have stopped: "same_frame g g'" if "stop p sig g = Done g'" for p sig g g'
    using that
  proof (cases rule: stop_Done)
    case (2 pr g1)
    then have "same_frame g g1" using plain sigCHLD_no_stop by auto
    then show ?thesis using 2 same_frame_trans by blast
  qed simp
  from assms show ?thesis
  proof (cases rule: psignal_Done)
    case (2 act)
    then show ?thesis using same_frame_trans [OF same_frame_sig(5) same_frame_sig(3)] by blast
  next
    case (3 act)
    then show ?thesis using same_frame_trans [OF same_frame_posted] by (auto simp: quiet_def)
  next
    case (4 act)
    then show ?thesis using same_frame_trans [OF same_frame_trans [OF same_frame_posted same_frame_sig(1)] stopped] by blast
  qed simp
qed

lemma stop_frame:
  assumes "stop p sig g = Done g'"
  shows "same_frame g g'"
  using assms
proof (cases rule: stop_Done)
  case (2 pr g1)
  then have "same_frame g g1" using psignal_frame by auto
  then show ?thesis using 2 same_frame_trans by blast
qed simp

section \<open>What an exit leaves alone\<close>

definition flags_kept :: "xsys \<Rightarrow> xsys \<Rightarrow> bool" where
  "flags_kept x x' \<longleftrightarrow> (\<forall>q. p_swexit (procs (x_sched x) q) \<longrightarrow> p_swexit (procs (x_sched x') q)) \<and> (\<forall>q. p_strc x' q \<longrightarrow> p_strc x q)"

lemma flags_kept_refl: "flags_kept x x"
  by (simp add: flags_kept_def)

lemma flags_kept_trans: "flags_kept x y \<Longrightarrow> flags_kept y z \<Longrightarrow> flags_kept x z"
  by (simp add: flags_kept_def)

lemma put_sels [simp]:
  "x_sched (put_jobs j x) = x_sched x" "p_strc (put_jobs j x) = p_strc x" "x_sched (put_creds c x) = x_sched x" "p_strc (put_creds c x) = p_strc x"
  "x_sched (put_sched q x) = q" "p_strc (put_sched q x) = p_strc x"
  by (simp_all add: put_jobs_def put_creds_def put_sched_def upd_r_def)

lemma adopt_all_flags: "adopt_all cs x = Done x' \<Longrightarrow> flags_kept x x'"
proof (induction cs arbitrary: x)
  case (Cons q cs)
  obtain j where j: "adopt_all cs (if p_strc x q then put_jobs (post [Psignal q SIGKILL] j) (x\<lparr>p_strc := (p_strc x)(q := False)\<rparr>)
          else put_jobs j x) = Done x'" using Cons.prems by (auto simp: kbind_Done_iff)
  show ?case using Cons.IH [OF j] by (auto simp: flags_kept_def split: if_splits)
qed (simp add: flags_kept_refl)

lemma wakeup_proc_flags: "wakeup_proc p x = Done x' \<Longrightarrow> flags_kept x x'"
  by (auto simp: wakeup_proc_def kmap_Done_iff flags_kept_def keeps_swexit(3))

lemma exit_limits_sched: "exit_limits p r = Done r' \<Longrightarrow> r_sched r' = r_sched r"
  by (auto simp: exit_limits_def kmap_Done_iff split: option.splits)

lemma exit_flags:
  assumes "exit p rv x = Done x'"
  shows "flags_kept x x' \<and> p_swexit (procs (x_sched x') p)"
proof -
  obtain x1 x2 x3 where s: "exit_detach p x = Done x1" "exit_bury p rv x1 = Done x2" "exit_orphans p x2 = Done x3" "exit_notify p x3 = Done x'"
    using assms by (auto simp: exit_def kbind_Done_iff split: if_splits)
  have 1: "flags_kept x x1 \<and> p_swexit (procs (x_sched x1) p)"
    using s(1) by (auto simp: exit_detach_def Let_def kmap_Done_iff flags_kept_def split: if_splits)
  have 2: "flags_kept x1 x2"
    using s(2) unfolding exit_bury_def Let_def
    by (auto simp: kbind_Done_iff kmap_Done_iff flags_kept_def upd_r_def dest!: exit_limits_sched split: if_splits)
  have 3: "flags_kept x2 x3"
  proof -
    obtain pr :: jproc and y1 y2 where y: "(if p_szchild x2 p \<and> p_children pr \<noteq> []
            then kmap (\<lambda>x1. x1\<lparr>p_szchild := (p_szchild x1)(p := False)\<rparr>) (wakeup_proc (initproc x2) x2) else Done x2) = Done y1"
        "adopt_all (p_children pr) y1 = Done y2" "x3 = put_jobs (upd_proc p (\<lambda>pr. pr\<lparr>p_children := []\<rparr>) (x_jobs y2)) y2"
      using s(3) unfolding exit_orphans_def kbind_Done_iff kmap_Done_iff by blast
    have "flags_kept x2 y1" using y(1) wakeup_proc_flags by (auto simp: kmap_Done_iff flags_kept_def split: if_splits)
    moreover have "flags_kept y2 x3" by (simp add: y(3) flags_kept_def)
    ultimately show ?thesis using adopt_all_flags [OF y(2)] flags_kept_trans by blast
  qed
  have 4: "flags_kept x3 x'"
  proof -
    obtain y where y: "(if p_stats x3 p then
          kbind (deref (jprocs (x_jobs x3) p)) (\<lambda>pr. kbind (deref (p_pptr pr)) (\<lambda>pp.
            wakeup_proc pp (put_jobs (post [Psignal pp SIGCHLD] (x_jobs x3)) (x3\<lparr>p_sppwait := (p_sppwait x3)(p := False)\<rparr>))))
        else reclaimproc p x3) = Done y" "x' = y\<lparr>x_events := x_events y @ [Cpu_texit p]\<rparr>"
      using s(4) unfolding exit_notify_def by (auto simp: kmap_Done_iff)
    have "flags_kept x3 y"
    proof (cases "p_stats x3 p")
      case True
      then obtain pp where "wakeup_proc pp (put_jobs (post [Psignal pp SIGCHLD] (x_jobs x3)) (x3\<lparr>p_sppwait := (p_sppwait x3)(p := False)\<rparr>)) = Done y"
        using y(1) by (auto simp: kbind_Done_iff)
      then show ?thesis using wakeup_proc_flags by (fastforce simp: flags_kept_def)
    next
      case False
      then show ?thesis using y(1) by (auto simp: reclaimproc_def kbind_Done_iff kmap_Done_iff Let_def flags_kept_def)
    qed
    then show ?thesis by (simp add: y(2) flags_kept_def)
  qed
  show ?thesis using 1 flags_kept_trans [OF 2 flags_kept_trans [OF 3 4]] flags_kept_trans unfolding flags_kept_def by blast
qed

section \<open>The contract of a property of the signal state\<close>

text \<open>What posting a signal makes of the pending signals.\<close>

definition post_sets :: "nat \<Rightarrow> u32 \<Rightarrow> u32" where
  "post_sets sig s =
     (let s1 = (if sigprop sig AND SA_CONT \<noteq> 0 then s AND NOT stopsigmask else s);
          s2 = (if sigprop sig AND SA_STOP \<noteq> 0 then s1 AND NOT contsigmask else s1) in
      s2 OR sigmask sig)"

lemma posted_sigs:
  "g_sigs (posted act p sig g) = (g_sigs g)(p := (g_sigs g p)\<lparr>p_sig := post_sets sig (p_sig (g_sigs g p))\<rparr>)"
  by (simp add: posted_def post_sig_def clear_conts_def clear_stops_def clrsig_def upd_sig_def post_sets_def Let_def promote_def fun_eq_iff)

locale sig_contract =
  fixes I :: "bool \<Rightarrow> sigproc \<Rightarrow> bool"
  assumes clear: "I t sp \<Longrightarrow> I t (sp\<lparr>p_sig := p_sig sp AND NOT b\<rparr>)"
    and post: "I t sp \<Longrightarrow> 0 < sig \<Longrightarrow> sig < 32 \<Longrightarrow> t \<or> p_sigignore sp AND sigmask sig = 0 \<Longrightarrow>
      I t (sp\<lparr>p_sig := post_sets sig (p_sig sp)\<rparr>)"
    and force: "I True sp \<Longrightarrow> 0 < sig \<Longrightarrow> sig < 32 \<Longrightarrow> I True (sp\<lparr>p_sig := p_sig sp OR sigmask sig\<rparr>)"
    and untrace: "I t sp \<Longrightarrow> I False sp"
    and setmask: "I t sp \<Longrightarrow> m AND sigcantmask = 0 \<Longrightarrow> I t (sp\<lparr>p_sigmask := m\<rparr>)"
    and unblock: "I t sp \<Longrightarrow> I t (sp\<lparr>p_sigmask := p_sigmask sp AND NOT m\<rparr>)"
    and block: "I t sp \<Longrightarrow> I t (sp\<lparr>p_sigmask := p_sigmask sp OR (m AND NOT sigcantmask)\<rparr>)"
    and pause: "I t sp \<Longrightarrow> m AND sigcantmask = 0 \<Longrightarrow> I t (sp\<lparr>ps_oldmask := p_sigmask sp, ps_flags := fl, p_sigmask := m\<rparr>)"
    and resume: "I t sp \<Longrightarrow> I t (sp\<lparr>ps_flags := ps_flags sp AND NOT SA_OLDMASK\<rparr>)"
    and other: "I t sp \<Longrightarrow> I t (sp\<lparr>ps_onstack := a, ps_sigsp := b, ps_sigonstack := c, ps_sig := d, ps_code := e, p_ssys := f, p_snocldstop := k\<rparr>)"
    and install: "I t sp \<Longrightarrow> 0 < sig \<Longrightarrow> sig < 32 \<Longrightarrow> sigmask sig AND sigcantmask = 0 \<Longrightarrow> I t (sigact_set sig sa sp)"
    and reset: "I t sp \<Longrightarrow> p_sigcatch sp \<noteq> 0 \<Longrightarrow> I t (exec_reset (ffs (p_sigcatch sp)) sp)"
    and taken: "I t sp \<Longrightarrow> 0 < sig \<Longrightarrow> sig < 32 \<Longrightarrow> ps_sigact sp sig \<notin> {SIG_DFL, SIG_IGN} \<or> p_sigcatch sp AND sigmask sig \<noteq> 0 \<Longrightarrow> I t (block_more sig sp)"

text \<open>The property of every process that is not exiting.\<close>

definition all_sigs :: "(bool \<Rightarrow> sigproc \<Rightarrow> bool) \<Rightarrow> gsys \<Rightarrow> bool" where
  "all_sigs I g \<longleftrightarrow> (\<forall>p. p_swexit (g_proc g p) \<or> I (p_strc (g_x g) p) (g_sigs g p))"

lemma all_sigs_upd:
  assumes "all_sigs I g" "\<And>t. I t (g_sigs g p) \<Longrightarrow> I t (f (g_sigs g p))"
  shows "all_sigs I (upd_sig p f g)"
  using assms by (auto simp: all_sigs_def)

text \<open>A frame carries the property over when the pending signals are the same.\<close>

lemma all_sigs_same:
  assumes "all_sigs I g" "g_sigs g' = g_sigs g" "\<And>p. p_swexit (g_proc g p) \<Longrightarrow> p_swexit (g_proc g' p)" "p_strc (g_x g') = p_strc (g_x g)"
  shows "all_sigs I g'"
  using assms unfolding all_sigs_def by metis

fun out_state :: "issig_out \<Rightarrow> gsys" where
  "out_state (Issig sig g) = g"
| "out_state (Traced sig g) = g"
| "out_state (Stopped sig g) = g"

text \<open>What the tracer may do: it leaves the signal state alone, or kills, and names a signal that exists.\<close>

definition tracer_ok :: "(nat \<Rightarrow> gsys \<Rightarrow> (bool \<times> gsys) kres) \<Rightarrow> bool" where
  "tracer_ok tr \<longleftrightarrow> (\<forall>p g b g'. tr p g = Done (b, g') \<longrightarrow>
     (\<forall>q. g_sigs g' q = g_sigs g q \<or> p_swexit (g_proc g' q)) \<and> (\<forall>q. p_swexit (g_proc g q) \<longrightarrow> p_swexit (g_proc g' q)) \<and>
     (\<forall>q. p_strc (g_x g') q \<longrightarrow> p_strc (g_x g) q) \<and> 0 \<le> ps_stopsig (g_x g') p \<and> ps_stopsig (g_x g') p < 32)"

lemma cpu_signal_sp:
  "cpu_signal code sig msk sp m = (e, sp', m') \<Longrightarrow> sp' = sp \<or> sp' = sp\<lparr>ps_onstack := ps_onstack sp + 1\<rparr>"
  by (auto simp: cpu_signal_def Let_def split_def split: if_splits)

lemma and_not_and: "(m AND NOT b) AND b = (0 :: u32)"
  by (rule bit_word_eqI) (auto simp: bit_and_iff bit_not_iff)

lemma mask_cantmask: "(m AND NOT sigcantmask) AND sigcantmask = 0"
  by (rule and_not_and)

context sig_contract
begin

lemma fields:
  assumes "I t sp"
  shows "I t (sp\<lparr>ps_onstack := a\<rparr>)" "I t (sp\<lparr>ps_sig := d\<rparr>)" "I t (sp\<lparr>ps_code := e\<rparr>)" "I t (sp\<lparr>ps_onstack := a, ps_sigsp := b\<rparr>)"
    "I t (sp\<lparr>ps_onstack := a, ps_sigsp := b, ps_sigonstack := c\<rparr>)"
  using other [OF assms, where a = a and b = "ps_sigsp sp" and c = "ps_sigonstack sp" and d = "ps_sig sp" and e = "ps_code sp" and f = "p_ssys sp" and k = "p_snocldstop sp"]
    other [OF assms, where a = "ps_onstack sp" and b = "ps_sigsp sp" and c = "ps_sigonstack sp" and d = d and e = "ps_code sp" and f = "p_ssys sp" and k = "p_snocldstop sp"]
    other [OF assms, where a = "ps_onstack sp" and b = "ps_sigsp sp" and c = "ps_sigonstack sp" and d = "ps_sig sp" and e = e and f = "p_ssys sp" and k = "p_snocldstop sp"]
    other [OF assms, where a = a and b = b and c = "ps_sigonstack sp" and d = "ps_sig sp" and e = "ps_code sp" and f = "p_ssys sp" and k = "p_snocldstop sp"]
    other [OF assms, where a = a and b = b and c = c and d = "ps_sig sp" and e = "ps_code sp" and f = "p_ssys sp" and k = "p_snocldstop sp"]
  by simp_all

lemma clrsig_all: "all_sigs I g \<Longrightarrow> all_sigs I (clrsig p b g)"
  unfolding clrsig_def by (rule all_sigs_upd) (auto intro: clear)

lemma frame_all:
  assumes "all_sigs I h" "same_frame g g'" "g_sigs g' = g_sigs h" "g_x h = g_x g"
  shows "all_sigs I g'"
  using assms unfolding same_frame_def all_sigs_def by metis

lemma posted_all:
  assumes "all_sigs I g" "0 < sig" "sig < 32" "sig_action (g_sigs g p) (p_strc (g_x g) p) (sigmask sig) = Some act"
  shows "all_sigs I (posted act p sig g)"
proof -
  have "p_strc (g_x g) p \<or> p_sigignore (g_sigs g p) AND sigmask sig = 0" using assms(4) by (auto simp: sig_action_def split: if_splits)
  then have "all_sigs I (upd_sig p (\<lambda>sp. sp\<lparr>p_sig := post_sets sig (p_sig sp)\<rparr>) g)"
    using assms(1-3) post by (auto simp: all_sigs_def)
  then show ?thesis by (rule frame_all [OF _ same_frame_posted]) (simp_all add: posted_sigs fun_eq_iff)
qed

lemma quiet_all: "all_sigs I g \<Longrightarrow> quiet p b g g' \<Longrightarrow> all_sigs I g'"
  unfolding quiet_def using frame_all clrsig_all by (metis clrsig_sel(1))

lemma stop_all_if:
  assumes "all_sigs I g" "stop p sig g = Done g'" "\<And>pp g1. psignal pp sigCHLD g = Done g1 \<Longrightarrow> all_sigs I g1"
  shows "all_sigs I g'"
  using assms(2)
proof (cases rule: stop_Done)
  case (2 pr g1)
  then have "all_sigs I g1" using assms(1,3) by blast
  then show ?thesis using 2 frame_all by blast
qed (use assms in simp)

lemma psignal_all:
  assumes "all_sigs I g" "psignal p sig g = Done g'"
  shows "all_sigs I g'"
proof -
  have early: "all_sigs I (clear_stops (sigprop sig) p (promote act p sig g))" if "all_sigs I g" for act p sig g
  proof -
    have "all_sigs I (promote act p sig g)" by (rule frame_all [OF that same_frame_sig(5)]) (simp_all add: promote_def)
    then show ?thesis by (simp add: clear_stops_def clrsig_all)
  qed
  have plain: "all_sigs I g'" if "psignal p sig g = Done g'" "all_sigs I g" "sigprop sig AND SA_STOP = 0" for p sig g g'
    using that(1)
  proof (cases rule: psignal_Done)
    case (3 act)
    then show ?thesis using quiet_all posted_all that(2) by blast
  qed (use that in auto)
  from assms(2) show ?thesis
  proof (cases rule: psignal_Done)
    case (2 act)
    then show ?thesis using early assms(1) by simp
  next
    case (3 act)
    then show ?thesis using quiet_all posted_all assms(1) by blast
  next
    case (4 act)
    have a: "all_sigs I (clrsig p (sigmask sig) (posted act p sig g))" by (intro clrsig_all posted_all assms(1) 4)
    show ?thesis by (rule stop_all_if [OF a 4(5)]) (use plain a sigCHLD_no_stop in blast)
  qed (use assms in simp)
qed

lemma stop_all: "all_sigs I g \<Longrightarrow> stop p sig g = Done g' \<Longrightarrow> all_sigs I g'"
  using stop_all_if psignal_all by blast

lemma issig_all: "all_sigs I g \<Longrightarrow> issig p g = Done r \<Longrightarrow> all_sigs I (out_state r)"
proof (induction p g arbitrary: r rule: issig.induct)
  case (1 p g)
  let ?m = "sig_pending p g"
  let ?sig = "ffs ?m"
  note r = "1.prems"(2) [unfolded issig.simps [of p g] Let_def]
  have cl: "all_sigs I (clrsig p (sigmask ?sig) g)" by (rule clrsig_all [OF "1.prems"(1)])
  consider "?m = 0" | "?m \<noteq> 0" "sigmask ?sig AND p_sigignore (g_sigs g p) \<noteq> 0 \<and> \<not> p_strc (g_x g) p"
    | "?m \<noteq> 0" "\<not> (sigmask ?sig AND p_sigignore (g_sigs g p) \<noteq> 0 \<and> \<not> p_strc (g_x g) p)" "p_strc (g_x g) p \<and> \<not> p_sppwait (g_x g) p"
    | "?m \<noteq> 0" "\<not> (sigmask ?sig AND p_sigignore (g_sigs g p) \<noteq> 0 \<and> \<not> p_strc (g_x g) p)" "\<not> (p_strc (g_x g) p \<and> \<not> p_sppwait (g_x g) p)"
    by blast
  then show ?case
  proof cases
    case 2
    show ?thesis using "1.IH"(1) [OF refl refl refl 2 cl] r 2 by simp
  next
    case 3
    then obtain pp g1 g2 where "psignal pp sigCHLD g = Done g1" "stop p ?sig g1 = Done g2" "r = Traced ?sig g2"
      using r by (simp only: if_False if_True simp_thms kbind_Done_iff kmap_Done_iff deref_Done_iff) blast
    then show ?thesis using stop_all [OF psignal_all [OF "1.prems"(1)]] by simp
  next
    case 4
    then obtain v where v: "issig_verdict p ?sig (sigprop ?sig) g = Done v"
      "(case v of Take \<Rightarrow> Done (Issig ?sig g) | Halt \<Rightarrow> kmap (Stopped ?sig) (stop p ?sig g) | Drop \<Rightarrow> issig p (clrsig p (sigmask ?sig) g)) = Done r"
      using r by (simp only: if_False if_True simp_thms kbind_Done_iff) blast
    show ?thesis
    proof (cases v)
      case Drop
      then show ?thesis using "1.IH"(2) [OF refl refl refl 4 v(1) Drop cl] v(2) by simp
    next
      case Halt
      then show ?thesis using v(2) stop_all [OF "1.prems"(1)] by (auto simp: kmap_Done_iff)
    qed (use v "1.prems" in auto)
  qed (use r "1.prems" in auto)
qed

lemma exit_all: "all_sigs I g \<Longrightarrow> (\<forall>q. p_swexit (g_proc g q) \<longrightarrow> p_swexit (g_proc g' q)) \<Longrightarrow>
    (\<forall>q. p_strc (g_x g') q \<longrightarrow> p_strc (g_x g) q) \<Longrightarrow> (\<forall>q. g_sigs g' q = g_sigs g q \<or> p_swexit (g_proc g' q)) \<Longrightarrow> all_sigs I g'"
  unfolding all_sigs_def using untrace by metis

lemma released_all:
  assumes "all_sigs I g" "issig_released tr p sig g = Done r" "tracer_ok tr"
  shows "all_sigs I (out_state r)"
proof -
  obtain rel g1 where g1: "tr p g = Done (rel, g1)" and r: "(let traced = (p_strc (g_x g1) p \<and> \<not> p_sppwait (g_x g1) p) in
       if \<not> rel \<and> traced then kmap (Traced sig) (stop p sig g1)
       else if \<not> traced then issig p g1
       else let g2 = clrsig p (sigmask sig) g1; new = nat (ps_stopsig (g_x g2) p); b = sigmask new in
         if new = 0 then issig p g2
         else let g3 = post_sig p b g2 in
         if p_sigmask (g_sigs g3 p) AND b \<noteq> 0 then issig p g3
         else kbind (issig_verdict p new (sigprop sig) g3) (\<lambda>v. case v of
             Take \<Rightarrow> Done (Issig new g3)
           | Halt \<Rightarrow> kmap (Stopped new) (stop p new g3)
           | Drop \<Rightarrow> issig p (clrsig p b g3))) = Done r"
    using assms(2) unfolding issig_released_def by (auto simp: kbind_Done_iff)
  have t: "(\<forall>q. g_sigs g1 q = g_sigs g q \<or> p_swexit (g_proc g1 q))" "(\<forall>q. p_swexit (g_proc g q) \<longrightarrow> p_swexit (g_proc g1 q))"
    "(\<forall>q. p_strc (g_x g1) q \<longrightarrow> p_strc (g_x g) q)" "ps_stopsig (g_x g1) p < 32" using assms(3) g1 unfolding tracer_ok_def by blast+
  have a1: "all_sigs I g1" using exit_all [OF assms(1) t(2,3,1)] .
  let ?g2 = "clrsig p (sigmask sig) g1" and ?new = "nat (ps_stopsig (g_x g1) p)"
  let ?g3 = "post_sig p (sigmask ?new) ?g2"
  have a2: "all_sigs I ?g2" by (rule clrsig_all [OF a1])
  have a3: "all_sigs I ?g3" if "p_strc (g_x g1) p" "?new \<noteq> 0"
  proof -
    have n: "0 < ?new" "?new < 32" using that(2) t(4) by auto
    have "p_swexit (g_proc g1 p) \<or> I True (g_sigs ?g2 p)" using a2 that(1) unfolding all_sigs_def by force
    then have "p_swexit (g_proc g1 p) \<or> I True ((g_sigs ?g2 p)\<lparr>p_sig := p_sig (g_sigs ?g2 p) OR sigmask ?new\<rparr>)" using force [OF _ n] by blast
    then show ?thesis using a2 that(1) unfolding all_sigs_def post_sig_def by auto
  qed
  show ?thesis
  proof (cases "p_strc (g_x g1) p \<and> \<not> p_sppwait (g_x g1) p")
    case False
    then show ?thesis using r issig_all [OF a1] by auto
  next
    case True
    note tr = this
    show ?thesis
    proof (cases "rel \<and> ?new \<noteq> 0 \<and> p_sigmask (g_sigs ?g3 p) AND sigmask ?new = 0")
      case False
      then show ?thesis using r tr stop_all [OF a1] issig_all [OF a2] issig_all [OF a3] by (auto simp: Let_def kmap_Done_iff split: if_splits)
    next
      case True
      then obtain v where v: "(case v of Take \<Rightarrow> Done (Issig ?new ?g3) | Halt \<Rightarrow> kmap (Stopped ?new) (stop p ?new ?g3)
          | Drop \<Rightarrow> issig p (clrsig p (sigmask ?new) ?g3)) = Done r"
        using r tr by (auto simp: Let_def kbind_Done_iff simp del: post_sig_sel(5) clrsig_sel(5))
      have a: "all_sigs I ?g3" using a3 tr True by blast
      show ?thesis using v a stop_all [OF a] issig_all [OF clrsig_all [OF a]] by (cases v) (auto simp: kmap_Done_iff)
    qed
  qed
qed

lemma restore_all:
  assumes "I t sp" "\<And>v s. I t (fst s) \<Longrightarrow> \<forall>(k, f) \<in> set xs. I t (fst (f v s))" "restore fp xs (sp, m) = (e, sp', m')"
  shows "I t sp'"
  using assms
proof (induction xs arbitrary: sp m)
  case (Cons x xs)
  obtain k f where x: "x = (k, f)" by (cases x)
  have st: "\<And>v s. I t (fst s) \<Longrightarrow> \<forall>(k, f) \<in> set xs. I t (fst (f v s))" "\<And>v s. I t (fst s) \<Longrightarrow> I t (fst (f v s))"
    using Cons.prems(2) x by fastforce+
  show ?case
  proof (cases "rd32 (fp + k) m")
    case None
    then show ?thesis using Cons.prems x by simp
  next
    case (Some v)
    obtain sp1 m1 where f: "f v (sp, m) = (sp1, m1)" by fastforce
    then have "I t sp1" using st(2) [of "(sp, m)" v] Cons.prems(1) by simp
    then show ?thesis using Cons.IH [OF _ st(1)] Cons.prems(3) x Some f by simp
  qed
qed simp

lemma signalreturn_all: "I t sp \<Longrightarrow> cpu_signalreturn sp m = (e, sp', m') \<Longrightarrow> I t sp'"
proof -
  assume i: "I t sp" and r: "cpu_signalreturn sp m = (e, sp', m')"
  have "I t (fst s) \<Longrightarrow> \<forall>(k, f) \<in> set restores. I t (fst (f v s))" for v s
    using fields(1) setmask [OF _ mask_cantmask] by (cases s) (auto simp: restores_def Let_def)
  then have "restore (md_regs m sESP) restores (sp, m) = (e, sp', m') \<Longrightarrow> I t sp'" using restore_all [OF i] by blast
  then show ?thesis using i r by (auto simp: cpu_signalreturn_def Let_def split: if_splits option.splits)
qed

lemma sigreturn_all: "all_sigs I g \<Longrightarrow> sigreturn p g = (e, g') \<Longrightarrow> all_sigs I g'"
proof -
  assume a: "all_sigs I g" and r: "sigreturn p g = (e, g')"
  obtain sp m where c: "cpu_signalreturn (g_sigs g p) (g_mach g p) = (e, sp, m)"
    and g': "g' = g\<lparr>g_sigs := (g_sigs g)(p := sp), g_mach := (g_mach g)(p := m)\<rparr>"
    using r by (auto simp: sigreturn_def split: prod.splits)
  have "p_swexit (g_proc g p) \<or> I (p_strc (g_x g) p) sp" using a signalreturn_all [OF _ c] unfolding all_sigs_def by blast
  then show ?thesis using a by (auto simp: g' all_sigs_def)
qed

lemma send_frame_all: "all_sigs I g \<Longrightarrow> send_frame env p sig m g = Done (e, g') \<Longrightarrow> all_sigs I g'"
  using fields(1) by (auto simp: send_frame_def all_sigs_def split: prod.splits if_splits dest!: cpu_signal_sp)

lemma g_exit_all:
  assumes "all_sigs I g" "g_exit p rv g = Done g'"
  shows "all_sigs I g'"
proof -
  obtain x where x: "exit p rv (g_x g) = Done x" "g_x g' = x" "\<And>q. q \<noteq> p \<Longrightarrow> g_sigs g' q = g_sigs g q"
    using assms(2) by (auto simp: g_exit_def kmap_Done_iff)
  show ?thesis
  proof (rule exit_all [OF assms(1)])
    show "\<forall>q. g_sigs g' q = g_sigs g q \<or> p_swexit (g_proc g' q)"
    proof
      fix q
      show "g_sigs g' q = g_sigs g q \<or> p_swexit (g_proc g' q)" using x exit_flags [OF x(1)] by (cases "q = p") auto
    qed
  qed (use exit_flags [OF x(1)] x in \<open>auto simp: flags_kept_def\<close>)
qed

lemma upd_sig_all: "all_sigs I g \<Longrightarrow> (\<And>t sp. I t sp \<Longrightarrow> I t (f sp)) \<Longrightarrow> all_sigs I (upd_sig p f g)"
  by (rule all_sigs_upd)

lemma sigexit_all: "all_sigs I g \<Longrightarrow> sigexit env p sig g = Done g' \<Longrightarrow> all_sigs I g'"
  using g_exit_all upd_sig_all [of g "\<lambda>sp. sp\<lparr>ps_sig := sig\<rparr>" p, OF _ fields(2)]
  by (auto simp: sigexit_def Let_def kbind_Done_iff split: if_splits)

lemma count_signal_all: "all_sigs I g \<Longrightarrow> all_sigs I (count_signal p g)"
  by (simp add: all_sigs_def count_signal_def upd_r_def)

lemma block_more_all:
  assumes "all_sigs I g" "0 < sig" "sig < 32" "ps_sigact (g_sigs g p) sig \<notin> {SIG_DFL, SIG_IGN} \<or> p_sigcatch (g_sigs g p) AND sigmask sig \<noteq> 0"
  shows "all_sigs I (upd_sig p (block_more sig) g)"
  using assms(1) taken [OF _ assms(2,3,4)] by (auto simp: all_sigs_def)

lemma psig_all:
  assumes "all_sigs I g" "psig env sig g = Done g'" "sig < 32"
  shows "all_sigs I g'"
proof -
  let ?p = "g_curproc g" and ?b = "sigmask sig"
  let ?g1 = "clrsig ?p ?b g"
  let ?sp = "g_sigs ?g1 ?p"
  let ?pause = "ps_flags ?sp AND SA_OLDMASK \<noteq> 0"
  let ?g2 = "if ?pause then upd_sig ?p (\<lambda>sp. sp\<lparr>ps_flags := ps_flags sp AND NOT SA_OLDMASK\<rparr>) ?g1 else ?g1"
  let ?g3 = "count_signal ?p (upd_sig ?p (block_more sig) ?g2)"
  let ?act = "ps_sigact (g_sigs g ?p) sig"
  have a1: "all_sigs I ?g1" by (rule clrsig_all [OF assms(1)])
  have sig: "sig \<noteq> 0" using assms(2) by (auto simp: psig_def Let_def split: if_splits)
  note r = assms(2) [unfolded psig_def Let_def]
  show ?thesis
  proof (cases "?act = SIG_DFL")
    case True
    then show ?thesis using r sig sigexit_all [OF a1] by (simp del: clrsig_sel)
  next
    case False
    then have act: "?act \<noteq> SIG_IGN" using r sig by (auto split: if_splits)
    have a2: "all_sigs I ?g2" using upd_sig_all [OF a1 resume] a1 by simp
    have "ps_sigact (g_sigs ?g2 ?p) sig = ?act" by simp
    then have a3: "all_sigs I ?g3" using False act sig assms(3) by (intro count_signal_all block_more_all [OF a2]) auto
    obtain e g4 where g4: "send_frame env ?p sig (if ?pause then ps_oldmask ?sp else p_sigmask ?sp) ?g3 = Done (e, g4)"
      "(if e \<noteq> 0 then sigexit env ?p SIGILL g4 else Done (upd_sig ?p (\<lambda>sp. sp\<lparr>ps_code := 0\<rparr>) g4)) = Done g'"
      using r False act sig by (auto simp: kbind_Done_iff simp del: clrsig_sel upd_sig_sel split: if_splits)
    have a4: "all_sigs I g4" by (rule send_frame_all [OF a3 g4(1)])
    show ?thesis using g4(2) sigexit_all [OF a4] upd_sig_all [OF a4 fields(3)] by (auto split: if_splits)
  qed
qed

lemma trapsignal_all:
  assumes "all_sigs I g" "trapsignal env p sig code g = Done g'" "0 < sig" "sig < 32"
  shows "all_sigs I g'"
proof -
  let ?g1 = "upd_sig p (\<lambda>sp. sp\<lparr>ps_code := code\<rparr>) g"
  have a1: "all_sigs I ?g1" by (rule upd_sig_all [OF assms(1) fields(3)])
  note r = assms(2) [unfolded trapsignal_def Let_def]
  consider "sigexit env p sig ?g1 = Done g'" | "psignal p sig ?g1 = Done g'"
    | e g2 where "send_frame env p sig (p_sigmask (g_sigs ?g1 p)) (count_signal p ?g1) = Done (e, g2)" "p_sigcatch (g_sigs g p) AND sigmask sig \<noteq> 0"
        "(if e \<noteq> 0 then sigexit env p sig g2 else Done (upd_sig p (\<lambda>sp. block_more sig (sp\<lparr>ps_code := 0\<rparr>)) g2)) = Done g'"
    using r by (auto simp: kbind_Done_iff simp del: upd_sig_sel(1-4) split: if_splits)
  then show ?thesis
  proof cases
    case 3
    have a2: "all_sigs I g2" by (rule send_frame_all [OF count_signal_all [OF a1] 3(1)])
    have "p_sigcatch (g_sigs g2 p) = p_sigcatch (g_sigs g p)"
      using 3(1) by (auto simp: send_frame_def count_signal_def split: prod.splits if_splits dest!: cpu_signal_sp)
    then have "all_sigs I (upd_sig p (block_more sig) (upd_sig p (\<lambda>sp. sp\<lparr>ps_code := 0\<rparr>) g2))"
      using 3(2) by (intro block_more_all upd_sig_all [OF a2 fields(3)] assms) simp_all
    moreover have "upd_sig p (block_more sig) (upd_sig p (\<lambda>sp. sp\<lparr>ps_code := 0\<rparr>) g2) = upd_sig p (\<lambda>sp. block_more sig (sp\<lparr>ps_code := 0\<rparr>)) g2"
      by (simp add: upd_sig_def)
    ultimately show ?thesis using 3(3) sigexit_all [OF a2] by (auto split: if_splits)
  qed (use sigexit_all psignal_all a1 in blast)+
qed

lemma kill_list_all: "all_sigs I g \<Longrightarrow> kill_list skip sig ps n g = Done (m, g') \<Longrightarrow> all_sigs I g'"
proof (induction skip sig ps n g rule: kill_list.induct)
  case (2 skip signo p ps n g)
  obtain s where s: "skip p g = Done s"
    "(if s then kill_list skip signo ps n g else kbind (if signo \<noteq> 0 then psignal p signo g else Done g) (kill_list skip signo ps (n + 1))) = Done (m, g')"
    using 2(4) by (auto simp: kbind_Done_iff)
  show ?case
  proof (cases s)
    case True
    then show ?thesis using 2(1) [OF s(1) True 2(3)] s(2) by simp
  next
    case False
    then obtain g1 where g1: "(if signo \<noteq> 0 then psignal p signo g else Done g) = Done g1" "kill_list skip signo ps (n + 1) g1 = Done (m, g')"
      using s(2) by (auto simp: kbind_Done_iff)
    have "all_sigs I g1" using g1(1) psignal_all [OF 2(3)] 2(3) by (auto split: if_splits)
    then show ?thesis using 2(2) [OF s(1) False g1(1)] g1(2) by blast
  qed
qed simp

lemma killpg_all:
  assumes "all_sigs I g" "killpg cp sig pgid all g = Done (e, g')"
  shows "all_sigs I g'"
proof -
  have "g' = g \<or> (\<exists>skip ps n m. kill_list skip sig ps n g = Done (m, g'))"
    using assms(2) by (auto simp: killpg_def Let_def kbind_Done_iff kmap_Done_iff split: if_splits option.splits)
  then show ?thesis using assms(1) kill_list_all by blast
qed

lemma kill_all:
  assumes "all_sigs I g" "kill cp pid signo g = Done (e, g')"
  shows "all_sigs I g'"
proof -
  have "g' = g \<or> (\<exists>p sig. psignal p sig g = Done g') \<or> (\<exists>sig pgid all. killpg cp sig pgid all g = Done (e, g'))"
    using assms(2) by (auto simp: kill_def Let_def kbind_Done_iff kmap_Done_iff split: if_splits option.splits)
  then show ?thesis using assms(1) psignal_all killpg_all by blast
qed

lemma pgsignal_list_all: "all_sigs I g \<Longrightarrow> pgsignal_list ps sig c g = Done g' \<Longrightarrow> all_sigs I g'"
proof (induction ps arbitrary: g)
  case (Cons p ps)
  obtain pr :: jproc and g1 where "(if \<not> c \<or> p_sctty pr then psignal p sig g else Done g) = Done g1" "pgsignal_list ps sig c g1 = Done g'"
    using Cons.prems(2) unfolding pgsignal_list.simps kbind_Done_iff by blast
  moreover from this have "all_sigs I g1" using psignal_all [OF Cons.prems(1)] Cons.prems(1) by (auto split: if_splits)
  ultimately show ?case using Cons.IH by blast
qed simp

lemma pgsignal_all: "all_sigs I g \<Longrightarrow> pgsignal a sig c g = Done g' \<Longrightarrow> all_sigs I g'"
  using pgsignal_list_all by (auto simp: pgsignal_def kbind_Done_iff split: option.splits)

lemma signalpid_all:
  assumes "all_sigs I g" "signalpid pid g = Done g'"
  shows "all_sigs I g'"
proof -
  have "g' = g \<or> (\<exists>p sig. psignal p sig g = Done g') \<or> (\<exists>a sig c. pgsignal a sig c g = Done g')"
    using assms(2) by (auto simp: signalpid_def split: if_splits option.splits)
  then show ?thesis using assms(1) psignal_all pgsignal_all by blast
qed

lemma sigaction_all:
  assumes "all_sigs I g" "sigaction env p signo nsa osa g = (e, g')"
  shows "all_sigs I g'"
proof -
  have "g' = g \<or> (\<exists>sa. 0 < nat signo \<and> nat signo < 32 \<and> sigmask (nat signo) AND sigcantmask = 0 \<and> g' = upd_sig p (sigact_set (nat signo) sa) g)"
    using assms(2) by (auto simp: sigaction_def Let_def NSIG_def split: if_splits option.splits sum.splits)
  then show ?thesis using assms(1) upd_sig_all install by blast
qed

lemma sigprocmask_all:
  assumes "all_sigs I g" "sigprocmask p how m g = (e, r, g')"
  shows "all_sigs I g'"
proof -
  let ?put = "\<lambda>f. upd_sig p (\<lambda>sp. sp\<lparr>p_sigmask := f (p_sigmask sp)\<rparr>) g"
  have c: "g' = g \<or> g' = ?put (\<lambda>w. w OR (m AND NOT sigcantmask)) \<or> g' = ?put (\<lambda>w. w AND NOT m) \<or> g' = ?put (\<lambda>w. m AND NOT sigcantmask)"
    using assms(2) by (auto simp: sigprocmask_def Let_def upd_sig_def split: if_splits)
  have "all_sigs I (?put (\<lambda>w. w OR (m AND NOT sigcantmask)))" by (rule upd_sig_all [OF assms(1) block])
  moreover have "all_sigs I (?put (\<lambda>w. w AND NOT m))" by (rule upd_sig_all [OF assms(1) unblock])
  moreover have "all_sigs I (?put (\<lambda>w. m AND NOT sigcantmask))" by (rule upd_sig_all [OF assms(1) setmask [OF _ mask_cantmask]])
  ultimately show ?thesis using c assms(1) by blast
qed

lemma sigsuspend_all:
  assumes "all_sigs I g" "sigsuspend chan p m g = Done g'"
  shows "all_sigs I g'"
proof -
  let ?g1 = "upd_sig p (\<lambda>sp. sp\<lparr>ps_oldmask := p_sigmask sp, ps_flags := ps_flags sp OR SA_OLDMASK, p_sigmask := m AND NOT sigcantmask\<rparr>) g"
  have a: "all_sigs I ?g1" by (rule upd_sig_all [OF assms(1) pause [OF _ mask_cantmask]])
  obtain q where q: "tsleep_enqueue chan PPAUSE (g_sched ?g1) = Done q" "g' = put_q q ?g1"
    using assms(2) by (auto simp: sigsuspend_def Let_def kmap_Done_iff)
  have "p_swexit (procs q r) = p_swexit (g_proc ?g1 r)" for r using q(1) by (auto simp: tsleep_enqueue_def Let_def split: if_splits)
  then show ?thesis using all_sigs_same [OF a] q(2) by simp
qed

lemma sigstack_all: "all_sigs I g \<Longrightarrow> sigstack p nss oss g = (e, g') \<Longrightarrow> all_sigs I g'"
  using upd_sig_all fields(4) by (auto simp: sigstack_def Let_def split: if_splits option.splits sum.splits)

lemma exec_loop_all: "I t sp \<Longrightarrow> I t (exec_loop sp)"
proof (induction sp rule: exec_loop.induct)
  case (1 sp)
  show ?case
  proof (cases "p_sigcatch sp = 0")
    case False
    then show ?thesis using 1(1) [OF False reset [OF 1(2) False]] by (simp add: exec_loop.simps [of sp])
  qed (use 1 in \<open>simp add: exec_loop.simps [of sp]\<close>)
qed

lemma execsigs_all: "all_sigs I g \<Longrightarrow> all_sigs I (execsigs p g)"
proof -
  assume "all_sigs I g"
  then have "all_sigs I (upd_sig p (\<lambda>sp. (exec_loop sp)\<lparr>ps_onstack := 0, ps_sigsp := 0, ps_sigonstack := 0\<rparr>) g)"
    by (rule upd_sig_all) (use exec_loop_all fields(5) in blast)
  then show ?thesis by (simp add: execsigs_def all_sigs_def)
qed

end

section \<open>Histories\<close>

definition g_fork :: "bool \<Rightarrow> bool \<Rightarrow> nat \<Rightarrow> nat \<Rightarrow> gsys \<Rightarrow> (int + int \<times> gsys) kres option" where
  "g_fork dg isvfork p2 p1 g =
     map_option (kmap (\<lambda>r. case r of Inl e \<Rightarrow> Inl e | Inr (pid, x) \<Rightarrow> Inr (pid, (fork_sigs p2 p1 g)\<lparr>g_x := x\<rparr>)))
       (x_fork dg isvfork p2 p1 (g_x g))"

text \<open>
  One operation on signals by or to any process, a pass of \<open>issig\<close>, a new process, an exit, or anything
  else the kernel does that leaves the signal state of the processes that go on alone, sets no one
  tracing and does not revive a process.  \<open>tr\<close> is the tracer.
\<close>

inductive sig_step :: "(nat \<Rightarrow> gsys \<Rightarrow> (bool \<times> gsys) kres) \<Rightarrow> genv \<Rightarrow> gsys \<Rightarrow> gsys \<Rightarrow> bool" for tr env where
  "psignal p sig g = Done g' \<Longrightarrow> sig_step tr env g g'"
| "kill cp pid signo g = Done (e, g') \<Longrightarrow> sig_step tr env g g'"
| "pgsignal a sig c g = Done g' \<Longrightarrow> sig_step tr env g g'"
| "signalpid pid g = Done g' \<Longrightarrow> sig_step tr env g g'"
| "nosys p g = Done (e, g') \<Longrightarrow> sig_step tr env g g'"
| "sigaction env p signo nsa osa g = (e, g') \<Longrightarrow> sig_step tr env g g'"
| "sigprocmask p how m g = (e, old, g') \<Longrightarrow> sig_step tr env g g'"
| "sigsuspend chan p m g = Done g' \<Longrightarrow> sig_step tr env g g'"
| "sigstack p nss oss g = (e, g') \<Longrightarrow> sig_step tr env g g'"
| "sigreturn p g = (e, g') \<Longrightarrow> sig_step tr env g g'"
| "CURSIG p g = Done r \<Longrightarrow> sig_step tr env g (out_state r)"
| "issig_continued p sig g = Done r \<Longrightarrow> sig_step tr env g (out_state r)"
| "issig_released tr p sig g = Done r \<Longrightarrow> sig_step tr env g (out_state r)"
| "psig env sig g = Done g' \<Longrightarrow> sig < 32 \<Longrightarrow> sig_step tr env g g'"
| "trapsignal env p sig code g = Done g' \<Longrightarrow> 0 < sig \<Longrightarrow> sig < 32 \<Longrightarrow> sig_step tr env g g'"
| "g_exit p rv g = Done g' \<Longrightarrow> sig_step tr env g g'"
| "g_fork dg isvfork p2 p1 g = Some (Done (Inr (pid, g'))) \<Longrightarrow> \<not> p_swexit (g_proc g p1) \<Longrightarrow> p1 \<noteq> p2 \<Longrightarrow> sig_step tr env g g'"
| "sig_step tr env g (execsigs p g)"
| "\<forall>q. g_sigs g' q = g_sigs g q \<or> p_swexit (g_proc g' q) \<Longrightarrow> \<forall>q. p_swexit (g_proc g q) \<longrightarrow> p_swexit (g_proc g' q) \<Longrightarrow>
   \<forall>q. p_strc (g_x g') q \<longrightarrow> p_strc (g_x g) q \<Longrightarrow> sig_step tr env g g'"

lemma fork1_swexit:
  assumes "fork1 dg p2 p1 s = Some (Done (Inr (pid, s')))" "q \<noteq> p2"
  shows "p_swexit (procs (r_sched (f_sys s')) q) = p_swexit (procs (r_sched (f_sys s)) q)"
proof -
  have sched: "procs t' q = procs t q" if "fork_sched p2 p1 t = Done t'" for t t'
    using that assms(2) by (auto simp: fork_sched_def setrq_def Let_def split: if_splits)
  have lim: "r_sched r' = r_sched r" if "fork_limits p2 p1 r = Done r'" for r r'
    using that by (auto simp: fork_limits_def kmap_Done_iff)
  have link: "procs (r_sched r') q = procs (r_sched r) q" if "fork_link p2 p1 n r = Done r'" for n r r'
    using that sched by (auto simp: fork_link_def kbind_Done_iff kmap_Done_iff dest!: lim)
  have "\<exists>n r'. fork_link p2 p1 n (f_sys s) = Done r' \<and> f_sys s' = r'"
    using assms(1) unfolding fork1_def by (auto simp: kmap_Done_iff split: kres.splits bool.splits)
  then show ?thesis using link by auto
qed

context sig_contract
begin

lemma g_fork_all:
  assumes "all_sigs I g" "g_fork dg isvfork p2 p1 g = Some (Done (Inr (pid, g')))" "\<not> p_swexit (g_proc g p1)" "p1 \<noteq> p2"
  shows "all_sigs I g'"
proof -
  obtain s where s: "fork1 dg p2 p1 (x_sys (g_x g)) = Some (Done (Inr (pid, s)))"
    and x: "x_sys (g_x g') = s" "p_strc (g_x g') = (p_strc (g_x g))(p2 := False)"
    and g': "g_sigs g' = g_sigs (fork_sigs p2 p1 g)"
  proof -
    obtain r where r: "x_fork dg isvfork p2 p1 (g_x g) = Some (Done r)"
      and z: "Inr (pid, g') = (case r of Inl e \<Rightarrow> Inl e | Inr (pid, x) \<Rightarrow> Inr (pid, (fork_sigs p2 p1 g)\<lparr>g_x := x\<rparr>))"
      using assms(2) by (auto simp: g_fork_def kmap_Done_iff)
    obtain x where x: "r = Inr (pid, x)" "g' = (fork_sigs p2 p1 g)\<lparr>g_x := x\<rparr>" using z by (cases r) auto
    obtain u where u: "fork1 dg p2 p1 (x_sys (g_x g)) = Some (Done u)"
      and y: "Inr (pid, x) = (case u of Inl e \<Rightarrow> Inl e
       | Inr (pid, s) \<Rightarrow> Inr (pid, (g_x g)\<lparr>x_sys := s, p_fd := (p_fd (g_x g))(p2 := True), p_vmspace := (p_vmspace (g_x g))(p2 := True),
           p_stats := (p_stats (g_x g))(p2 := True), p_strc := (p_strc (g_x g))(p2 := False), p_swted := (p_swted (g_x g))(p2 := False),
           p_szchild := (p_szchild (g_x g))(p2 := False), p_sppwait := (p_sppwait (g_x g))(p2 := isvfork)\<rparr>))"
      using r x(1) by (auto simp: x_fork_def kmap_Done_iff)
    show thesis using y u x(2) that by (cases u) auto
  qed
  have "I (p_strc (g_x g) p1) (g_sigs g p1)" using assms(1,3) by (auto simp: all_sigs_def)
  then have "I (p_strc (g_x g) p1) ((g_sigs g p1)\<lparr>p_sig := p_sig (g_sigs g p1) AND NOT (- 1)\<rparr>)" by (rule clear)
  then have i: "I False ((g_sigs g p1)\<lparr>p_sig := 0\<rparr>)" using untrace by simp
  have "I False ((g_sigs g p1)\<lparr>p_sig := 0, p_ssys := False, p_snocldstop := False\<rparr>)"
    using other [OF i, where a = "ps_onstack (g_sigs g p1)" and b = "ps_sigsp (g_sigs g p1)" and c = "ps_sigonstack (g_sigs g p1)"
        and d = "ps_sig (g_sigs g p1)" and e = "ps_code (g_sigs g p1)" and f = False and k = False] by simp
  then show ?thesis using assms(1) fork1_swexit [OF s] unfolding all_sigs_def by (auto simp: g' fork_sigs_def x)
qed

lemma step_all:
  assumes "sig_step tr env g g'" "tracer_ok tr" "all_sigs I g"
  shows "all_sigs I g'"
  using assms(1)
proof cases
  case 1
  then show ?thesis using psignal_all [OF assms(3)] by blast
next
  case 2
  then show ?thesis using kill_all [OF assms(3)] by blast
next
  case 3
  then show ?thesis using pgsignal_all [OF assms(3)] by blast
next
  case 4
  then show ?thesis using signalpid_all [OF assms(3)] by blast
next
  case 5
  then show ?thesis using psignal_all [OF assms(3)] by (auto simp: nosys_def kmap_Done_iff)
next
  case 6
  then show ?thesis using sigaction_all [OF assms(3)] by blast
next
  case 7
  then show ?thesis using sigprocmask_all [OF assms(3)] by blast
next
  case 8
  then show ?thesis using sigsuspend_all [OF assms(3)] by blast
next
  case 9
  then show ?thesis using sigstack_all [OF assms(3)] by blast
next
  case 10
  then show ?thesis using sigreturn_all [OF assms(3)] by blast
next
  case 11
  then show ?thesis using issig_all [OF assms(3)] assms(3) by (auto simp: CURSIG_def Let_def split: if_splits)
next
  case 12
  then show ?thesis using issig_all [OF clrsig_all [OF assms(3)]] unfolding issig_continued_def by blast
next
  case 13
  then show ?thesis using released_all [OF assms(3) _ assms(2)] by blast
next
  case 14
  then show ?thesis using psig_all [OF assms(3)] by blast
next
  case 15
  then show ?thesis using trapsignal_all [OF assms(3)] by blast
next
  case 16
  then show ?thesis using g_exit_all [OF assms(3)] by blast
next
  case 17
  then show ?thesis using g_fork_all [OF assms(3)] by blast
next
  case 18
  then show ?thesis using execsigs_all [OF assms(3)] by blast
next
  case 19
  then show ?thesis using exit_all [OF assms(3)] by blast
qed

lemma history_all:
  assumes "(sig_step tr env)\<^sup>*\<^sup>* g g'" "tracer_ok tr" "all_sigs I g"
  shows "all_sigs I g'"
  using assms(1,3) by induction (use step_all assms(2) in blast)+

end

section \<open>Dispositions\<close>

lemma cant_bits: "m AND sigcantmask = 0 \<longleftrightarrow> \<not> bit m 8 \<and> \<not> bit m 16"
proof -
  have b: "bit sigcantmask n \<longleftrightarrow> n = 8 \<or> n = 16" for n by (auto simp: sigcantmask_def bit_or_iff sigmask_bit sig_defs)
  show ?thesis unfolding bit_eq_iff [of "m AND sigcantmask" 0] by (auto simp: bit_and_iff b dest: spec [of _ 8] spec [of _ 16])
qed

lemma cant_sigmask: "0 < sig \<Longrightarrow> sig < 32 \<Longrightarrow> sigmask sig AND sigcantmask = 0 \<longleftrightarrow> sig \<noteq> sigKILL \<and> sig \<noteq> SIGSTOP"
  by (auto simp: cant_bits sigmask_bit sig_defs)

text \<open>
  \<open>SIGKILL\<close> and \<open>SIGSTOP\<close> are never blocked, nor by a handler, ignored or caught; the sets of caught
  and of ignored signals are those the actions say; no bit is set that no signal has.
\<close>

definition disposed :: "sigproc \<Rightarrow> nat \<Rightarrow> bool" where
  "disposed sp n \<longleftrightarrow> (bit (p_sigcatch sp) n \<longleftrightarrow> n < 31 \<and> ps_sigact sp (n + 1) \<notin> {SIG_DFL, SIG_IGN}) \<and>
     (bit (p_sigignore sp) n \<longleftrightarrow> n < 31 \<and> n + 1 \<noteq> sigCONT \<and>
        (ps_sigact sp (n + 1) = SIG_IGN \<or> ps_sigact sp (n + 1) = SIG_DFL \<and> sigprop (n + 1) AND SA_IGNORE \<noteq> 0))"

definition sig_wf :: "sigproc \<Rightarrow> bool" where
  "sig_wf sp \<longleftrightarrow> (\<forall>n. disposed sp n) \<and> p_sigmask sp AND sigcantmask = 0 \<and>
     p_sigcatch sp AND sigcantmask = 0 \<and> p_sigignore sp AND sigcantmask = 0 \<and> \<not> bit (p_sig sp) 31 \<and>
     (\<forall>sig. ps_catchmask sp sig AND sigcantmask = 0) \<and> (ps_flags sp AND SA_OLDMASK \<noteq> 0 \<longrightarrow> ps_oldmask sp AND sigcantmask = 0)"

lemma set_if_bit: "0 < sig \<Longrightarrow> sig \<le> 32 \<Longrightarrow> bit (set_if c (sigmask sig) s) n \<longleftrightarrow> (if n = sig - 1 then c else bit s n)"
  by (auto simp: set_if_def bit_or_iff bit_and_iff bit_not_iff sigmask_bit dest: bit_imp_le_length)

lemma sig_wfD:
  assumes "sig_wf sp"
  shows "disposed sp n" "p_sigmask sp AND sigcantmask = 0" "\<not> bit (p_sig sp) 31"
    "\<not> bit (p_sigmask sp) 8" "\<not> bit (p_sigmask sp) 16" "\<not> bit (p_sigcatch sp) 8" "\<not> bit (p_sigcatch sp) 16"
    "\<not> bit (p_sigignore sp) 8" "\<not> bit (p_sigignore sp) 16"
    "ps_catchmask sp sig AND sigcantmask = 0" "ps_flags sp AND SA_OLDMASK \<noteq> 0 \<Longrightarrow> ps_oldmask sp AND sigcantmask = 0"
  using assms unfolding sig_wf_def cant_bits by blast+

lemma post_sets_bit:
  assumes "0 < sig" "sig < 32"
  shows "bit (post_sets sig s) n \<longleftrightarrow> n = sig - 1 \<or> bit s n \<and> \<not> (sigprop sig AND SA_CONT \<noteq> 0 \<and> bit stopsigmask n) \<and>
    \<not> (sigprop sig AND SA_STOP \<noteq> 0 \<and> bit contsigmask n)"
  using assms by (auto simp: post_sets_def Let_def bit_or_iff bit_and_iff bit_not_iff sigmask_bit dest: bit_imp_le_length)

lemma sigact_set_sel:
  "ps_sigact (sigact_set sig sa sp) = (ps_sigact sp)(sig := sa_handler sa)"
  "ps_catchmask (sigact_set sig sa sp) = (ps_catchmask sp)(sig := sa_mask sa AND NOT sigcantmask)"
  "p_sigmask (sigact_set sig sa sp) = p_sigmask sp" "ps_flags (sigact_set sig sa sp) = ps_flags sp" "ps_oldmask (sigact_set sig sa sp) = ps_oldmask sp"
  by (simp_all add: sigact_set_def Let_def)

lemma sigact_set_bits:
  assumes "0 < sig" "sig < 32"
  shows "bit (p_sigcatch (sigact_set sig sa sp)) n \<longleftrightarrow> (if n = sig - 1 then sa_handler sa \<notin> {SIG_DFL, SIG_IGN} else bit (p_sigcatch sp) n)"
    "bit (p_sigignore (sigact_set sig sa sp)) n \<longleftrightarrow>
      (if n = sig - 1 then if sa_handler sa = SIG_IGN \<or> sa_handler sa = SIG_DFL \<and> sigprop sig AND SA_IGNORE \<noteq> 0 then sig \<noteq> sigCONT \<or> bit (p_sigignore sp) n else False
       else bit (p_sigignore sp) n)"
    "bit (p_sig (sigact_set sig sa sp)) n \<longleftrightarrow>
      bit (p_sig sp) n \<and> \<not> (n = sig - 1 \<and> (sa_handler sa = SIG_IGN \<or> sa_handler sa = SIG_DFL \<and> sigprop sig AND SA_IGNORE \<noteq> 0))"
proof -
  have ne: "SIG_DFL \<noteq> SIG_IGN" by (simp add: SIG_DFL_def SIG_IGN_def)
  have "bit (sigmask sigCONT) k \<longleftrightarrow> k = sigCONT - 1" for k by (rule sigmask_bit) (simp_all add: sigCONT_def)
  note b = this sigact_set_def Let_def bit_or_iff bit_and_iff bit_not_iff sigmask_bit set_if_bit assms less_imp_le
  show "bit (p_sigcatch (sigact_set sig sa sp)) n \<longleftrightarrow> (if n = sig - 1 then sa_handler sa \<notin> {SIG_DFL, SIG_IGN} else bit (p_sigcatch sp) n)"
    using ne by (auto simp: b dest: bit_imp_le_length)
  show "bit (p_sigignore (sigact_set sig sa sp)) n \<longleftrightarrow>
      (if n = sig - 1 then if sa_handler sa = SIG_IGN \<or> sa_handler sa = SIG_DFL \<and> sigprop sig AND SA_IGNORE \<noteq> 0 then sig \<noteq> sigCONT \<or> bit (p_sigignore sp) n else False
       else bit (p_sigignore sp) n)"
    by (auto simp: b dest: bit_imp_le_length)
  show "bit (p_sig (sigact_set sig sa sp)) n \<longleftrightarrow>
      bit (p_sig sp) n \<and> \<not> (n = sig - 1 \<and> (sa_handler sa = SIG_IGN \<or> sa_handler sa = SIG_DFL \<and> sigprop sig AND SA_IGNORE \<noteq> 0))"
    by (auto simp: b dest: bit_imp_le_length)
qed

lemma sigact_set_wf:
  assumes "sig_wf sp" "0 < sig" "sig < 32" "sigmask sig AND sigcantmask = 0"
  shows "sig_wf (sigact_set sig sa sp)"
proof -
  have sig: "sig - 1 \<noteq> 8" "sig - 1 \<noteq> 16" using assms(2-4) by (auto simp: cant_sigmask sig_defs)
  have d: "disposed (sigact_set sig sa sp) n" for n
  proof (cases "n = sig - 1")
    case True
    then have n: "n + 1 = sig" "n < 31" using assms(2,3) by auto
    have c: "bit (p_sigignore sp) n \<Longrightarrow> sig \<noteq> sigCONT" using sig_wfD(1) [OF assms(1), of n] n by (auto simp: disposed_def)
    show ?thesis using sigact_set_bits [OF assms(2,3), of sa sp n] True n c by (auto simp: disposed_def sigact_set_sel)
  next
    case False
    then have "n + 1 \<noteq> sig" by auto
    then show ?thesis using sigact_set_bits [OF assms(2,3), of sa sp n] False sig_wfD(1) [OF assms(1), of n] by (simp add: disposed_def sigact_set_sel)
  qed
  show ?thesis
    using sig_wfD [OF assms(1)] sigact_set_bits [OF assms(2,3), of sa sp] sig assms(2,3) mask_cantmask
    unfolding sig_wf_def by (intro conjI allI d) (simp_all add: sigact_set_sel cant_bits)
qed

lemma exec_reset_sel:
  "ps_sigact (exec_reset sig sp) = (ps_sigact sp)(sig := SIG_DFL)" "ps_catchmask (exec_reset sig sp) = ps_catchmask sp"
  "p_sigmask (exec_reset sig sp) = p_sigmask sp" "ps_flags (exec_reset sig sp) = ps_flags sp" "ps_oldmask (exec_reset sig sp) = ps_oldmask sp"
  "p_sigcatch (exec_reset sig sp) = p_sigcatch sp AND NOT (sigmask sig)"
  by (simp_all add: exec_reset_def Let_def)

lemma exec_reset_bits:
  assumes "0 < sig" "sig \<le> 32"
  shows "bit (p_sigcatch (exec_reset sig sp)) n \<longleftrightarrow> n \<noteq> sig - 1 \<and> bit (p_sigcatch sp) n"
    "bit (p_sigignore (exec_reset sig sp)) n \<longleftrightarrow> bit (p_sigignore sp) n \<or> n = sig - 1 \<and> sigprop sig AND SA_IGNORE \<noteq> 0 \<and> sig \<noteq> sigCONT"
    "bit (p_sig (exec_reset sig sp)) n \<longleftrightarrow> bit (p_sig sp) n \<and> \<not> (n = sig - 1 \<and> sigprop sig AND SA_IGNORE \<noteq> 0)"
  using assms by (auto simp: exec_reset_def Let_def bit_or_iff bit_and_iff bit_not_iff sigmask_bit dest: bit_imp_le_length)

text \<open>The signal \<open>execsigs\<close> takes next is a caught one.\<close>

lemma caught_next:
  assumes "sig_wf sp" "p_sigcatch sp \<noteq> 0"
  shows "0 < ffs (p_sigcatch sp)" "ffs (p_sigcatch sp) < 32" "ps_sigact sp (ffs (p_sigcatch sp)) \<notin> {SIG_DFL, SIG_IGN}"
    "ffs (p_sigcatch sp) \<noteq> sigKILL" "ffs (p_sigcatch sp) \<noteq> SIGSTOP" "bit (p_sigcatch sp) (ffs (p_sigcatch sp) - 1)"
proof -
  let ?s = "ffs (p_sigcatch sp)"
  note f = ffs_bit [OF assms(2)]
  show "0 < ?s" "bit (p_sigcatch sp) (?s - 1)" by (fact f)+
  have d: "?s - 1 < 31 \<and> ps_sigact sp (?s - 1 + 1) \<notin> {SIG_DFL, SIG_IGN}" using sig_wfD(1) [OF assms(1), of "?s - 1"] f(3) unfolding disposed_def by blast
  then show "?s < 32" "ps_sigact sp ?s \<notin> {SIG_DFL, SIG_IGN}" using f(1) by auto
  have "?s - 1 \<noteq> 8" "?s - 1 \<noteq> 16" using f(3) sig_wfD(6,7) [OF assms(1)] by metis+
  then show "?s \<noteq> sigKILL" "?s \<noteq> SIGSTOP" by (auto simp: sig_defs)
qed

lemma exec_reset_wf:
  assumes "sig_wf sp" "p_sigcatch sp \<noteq> 0"
  shows "sig_wf (exec_reset (ffs (p_sigcatch sp)) sp)"
proof -
  let ?s = "ffs (p_sigcatch sp)"
  note c = caught_next [OF assms]
  have ne: "SIG_DFL \<noteq> SIG_IGN" by (simp add: SIG_DFL_def SIG_IGN_def)
  have sig: "?s - 1 \<noteq> 8" "?s - 1 \<noteq> 16" using c(1,4,5) by (auto simp: sig_defs)
  note b = exec_reset_bits [OF c(1) less_imp_le [OF c(2)], of sp]
  have d: "disposed (exec_reset ?s sp) n" for n
  proof (cases "n = ?s - 1")
    case True
    then have n: "n + 1 = ?s" "n < 31" using c(1,2) by auto
    have "\<not> bit (p_sigignore sp) n" using sig_wfD(1) [OF assms(1), of n] n c(3) by (auto simp: disposed_def)
    then show ?thesis using b [of n] True n ne by (auto simp: disposed_def exec_reset_sel(1))
  next
    case False
    then have "n + 1 \<noteq> ?s" by auto
    then show ?thesis using b [of n] False sig_wfD(1) [OF assms(1), of n] by (simp add: disposed_def exec_reset_sel(1))
  qed
  show ?thesis
    using sig_wfD [OF assms(1)] b sig unfolding sig_wf_def by (intro conjI allI d) (simp_all add: exec_reset_sel(2-5) cant_bits)
qed

lemma sig_wf_cong:
  assumes "sig_wf sp" "p_sigmask sp' AND sigcantmask = 0" "\<not> bit (p_sig sp') 31" "ps_sigact sp' = ps_sigact sp" "ps_catchmask sp' = ps_catchmask sp"
    "p_sigcatch sp' = p_sigcatch sp" "p_sigignore sp' = p_sigignore sp" "ps_flags sp' AND SA_OLDMASK \<noteq> 0 \<longrightarrow> ps_oldmask sp' AND sigcantmask = 0"
  shows "sig_wf sp'"
  using assms unfolding sig_wf_def disposed_def by simp

interpretation wf: sig_contract "\<lambda>_. sig_wf"
proof
  fix sp b m fl and sig :: nat
  assume w: "sig_wf sp"
  note d = sig_wfD [OF w]
  have old: "ps_flags sp AND SA_OLDMASK \<noteq> 0 \<longrightarrow> ps_oldmask sp AND sigcantmask = 0" using d(11) by blast
  show "sig_wf (sp\<lparr>p_sig := p_sig sp AND NOT b\<rparr>)" by (rule sig_wf_cong [OF w]) (use d(2,3) old in \<open>simp_all add: bit_and_iff\<close>)
  show "sig_wf (sp\<lparr>p_sigmask := m\<rparr>)" if "m AND sigcantmask = 0" by (rule sig_wf_cong [OF w]) (use that d(3) old in simp_all)
  show "sig_wf (sp\<lparr>p_sigmask := p_sigmask sp AND NOT m\<rparr>)"
    by (rule sig_wf_cong [OF w]) (use d(3,4,5) old in \<open>simp_all add: cant_bits bit_and_iff\<close>)
  show "sig_wf (sp\<lparr>p_sigmask := p_sigmask sp OR (m AND NOT sigcantmask)\<rparr>)"
    by (rule sig_wf_cong [OF w]) (use d(3,4,5) old mask_cantmask [of m] in \<open>simp_all add: cant_bits bit_or_iff\<close>)
  show "sig_wf (sp\<lparr>ps_oldmask := p_sigmask sp, ps_flags := fl, p_sigmask := m\<rparr>)" if "m AND sigcantmask = 0"
    by (rule sig_wf_cong [OF w]) (use that d(2,3) in simp_all)
  show "sig_wf (sp\<lparr>ps_flags := ps_flags sp AND NOT SA_OLDMASK\<rparr>)"
    by (rule sig_wf_cong [OF w]) (use d(2,3) and_not_and [of "ps_flags sp" SA_OLDMASK] in simp_all)
  show "sig_wf (sp\<lparr>ps_onstack := a, ps_sigsp := b', ps_sigonstack := c, ps_sig := e, ps_code := f, p_ssys := g, p_snocldstop := k\<rparr>)" for a b' c e f g k
    by (rule sig_wf_cong [OF w]) (use d(2,3) old in simp_all)
  show "sig_wf (exec_reset (ffs (p_sigcatch sp)) sp)" if "p_sigcatch sp \<noteq> 0" by (rule exec_reset_wf [OF w that])
  assume s: "0 < sig" "sig < 32"
  have "\<not> bit (post_sets sig (p_sig sp)) 31" "\<not> bit (p_sig sp OR sigmask sig) 31"
    using d(3) s by (auto simp: post_sets_bit bit_or_iff sigmask_bit)
  then show "sig_wf (sp\<lparr>p_sig := post_sets sig (p_sig sp)\<rparr>)" "sig_wf (sp\<lparr>p_sig := p_sig sp OR sigmask sig\<rparr>)"
    by (auto intro!: sig_wf_cong [OF w] simp: d(2) old)
  show "sig_wf (sigact_set sig sa sp)" if "sigmask sig AND sigcantmask = 0" for sa by (rule sigact_set_wf [OF w s that])
  show "sig_wf (block_more sig sp)" if "ps_sigact sp sig \<notin> {SIG_DFL, SIG_IGN} \<or> p_sigcatch sp AND sigmask sig \<noteq> 0"
  proof -
    have "bit (p_sigcatch sp) (sig - 1)"
      using that d(1) [of "sig - 1"] s and_sigmask [of sig "p_sigcatch sp"] by (auto simp: disposed_def)
    then have "sig - 1 \<noteq> 8" "sig - 1 \<noteq> 16" using d(6,7) by metis+
    then have "p_sigmask (block_more sig sp) AND sigcantmask = 0"
      using d(4,5) d(10) [of sig] s by (auto simp: block_more_def cant_bits bit_or_iff sigmask_bit)
    then show ?thesis by (rule sig_wf_cong [OF w]) (use d(3) old in \<open>simp_all add: block_more_def\<close>)
  qed
qed

section \<open>Pending signals\<close>

text \<open>
  No pending signal is ignored, and a stop signal and \<open>SIGCONT\<close> are not pending together.
\<close>

definition pend_ok :: "sigproc \<Rightarrow> bool" where
  "pend_ok sp \<longleftrightarrow> p_sig sp AND p_sigignore sp = 0 \<and> (p_sig sp AND stopsigmask = 0 \<or> p_sig sp AND contsigmask = 0)"

lemma and_zero_iff: "a AND b = (0 :: u32) \<longleftrightarrow> (\<forall>n. \<not> (bit a n \<and> bit b n))"
proof
  assume "a AND b = 0"
  then have "\<not> bit (a AND b) n" for n by simp
  then show "\<forall>n. \<not> (bit a n \<and> bit b n)" by (simp add: bit_and_iff)
next
  assume "\<forall>n. \<not> (bit a n \<and> bit b n)"
  then show "a AND b = 0" by (intro bit_word_eqI) (simp add: bit_and_iff)
qed

lemma stop_cont_bits: "bit stopsigmask n \<longleftrightarrow> n \<in> {16, 17, 20, 21}" "bit contsigmask n \<longleftrightarrow> n = 18"
  by (auto simp: stopsigmask_def contsigmask_def bit_or_iff sigmask_bit sig_defs)

text \<open>The properties agree with the masks.\<close>

lemma sigprop_table:
  "list_all (\<lambda>sig. (sigprop sig AND SA_STOP \<noteq> 0 \<longleftrightarrow> 0 < sig \<and> sig - 1 \<in> {16, 17, 20, 21}) \<and>
     (sigprop sig AND SA_CONT \<noteq> 0 \<longleftrightarrow> 0 < sig \<and> sig - 1 = 18) \<and> (sigprop sig AND SA_TTYSTOP \<noteq> 0 \<longleftrightarrow> 0 < sig \<and> sig - 1 \<in> {16, 17, 20, 21})) [0..<32]"
  by code_simp

lemma sigprop_masks:
  assumes "sig < 32"
  shows "sigprop sig AND SA_STOP \<noteq> 0 \<longleftrightarrow> 0 < sig \<and> bit stopsigmask (sig - 1)" "sigprop sig AND SA_CONT \<noteq> 0 \<longleftrightarrow> 0 < sig \<and> bit contsigmask (sig - 1)"
    "sigprop sig AND SA_TTYSTOP \<noteq> 0 \<longleftrightarrow> 0 < sig \<and> bit stopsigmask (sig - 1)"
proof -
  have "sig \<in> set [0..<32]" using assms by simp
  then show "sigprop sig AND SA_STOP \<noteq> 0 \<longleftrightarrow> 0 < sig \<and> bit stopsigmask (sig - 1)" "sigprop sig AND SA_CONT \<noteq> 0 \<longleftrightarrow> 0 < sig \<and> bit contsigmask (sig - 1)"
    "sigprop sig AND SA_TTYSTOP \<noteq> 0 \<longleftrightarrow> 0 < sig \<and> bit stopsigmask (sig - 1)"
    using sigprop_table unfolding list_all_iff stop_cont_bits by blast+
qed

lemma pend_ok_bits:
  "pend_ok sp \<longleftrightarrow> (\<forall>n. \<not> (bit (p_sig sp) n \<and> bit (p_sigignore sp) n)) \<and>
     ((\<forall>n. \<not> (bit (p_sig sp) n \<and> bit stopsigmask n)) \<or> (\<forall>n. \<not> (bit (p_sig sp) n \<and> bit contsigmask n)))"
  by (simp add: pend_ok_def and_zero_iff)

lemma pend_ok_mono:
  assumes "pend_ok sp" "\<And>n. bit (p_sig sp') n \<Longrightarrow> bit (p_sig sp) n" "\<And>n. bit (p_sig sp') n \<Longrightarrow> bit (p_sigignore sp') n \<Longrightarrow> bit (p_sigignore sp) n"
  shows "pend_ok sp'"
  using assms unfolding pend_ok_bits by blast

interpretation pend: sig_contract "\<lambda>traced sp. \<not> traced \<and> pend_ok sp"
proof
  fix t sp b and sig :: nat
  assume w: "\<not> t \<and> pend_ok sp"
  show "\<not> t \<and> pend_ok (sp\<lparr>p_sig := p_sig sp AND NOT b\<rparr>)" using w by (auto intro: pend_ok_mono simp: bit_and_iff)
  assume s: "0 < sig" "sig < 32"
  show "\<not> t \<and> pend_ok (sigact_set sig sa sp)" for sa
    using w by (auto intro: pend_ok_mono simp: sigact_set_bits [OF s] split: if_splits)
  show "\<not> t \<and> pend_ok (sp\<lparr>p_sig := post_sets sig (p_sig sp)\<rparr>)" if "t \<or> p_sigignore sp AND sigmask sig = 0"
  proof -
    have i: "\<not> bit (p_sigignore sp) (sig - 1)" using that w s and_sigmask [of sig "p_sigignore sp"] by auto
    have dis: "\<not> (bit stopsigmask n \<and> bit contsigmask n)" for n by (auto simp: stop_cont_bits)
    show ?thesis
      using w i s(1) dis [of "sig - 1"] unfolding pend_ok_bits by (auto simp: post_sets_bit [OF s] sigprop_masks [OF s(2)])
  qed
next
  fix t sp
  assume w: "\<not> t \<and> pend_ok sp" and c: "p_sigcatch sp \<noteq> 0"
  show "\<not> t \<and> pend_ok (exec_reset (ffs (p_sigcatch sp)) sp)"
    using w by (auto intro: pend_ok_mono simp: exec_reset_bits [OF ffs_bit(1,2) [OF c]])
qed (auto simp: pend_ok_def block_more_def)

text \<open>
  C9: the dispositions of signals are consistent in every history of signal operations, traps,
  tracers, forks, \<open>execve\<close>s and exits: in a process that is not exiting \<open>SIGKILL\<close> and \<open>SIGSTOP\<close> are
  never blocked, caught or ignored and keep their default action, no handler blocks them, and the sets
  of caught and ignored signals are exactly those that the table of actions makes so.
\<close>

theorem signal_dispositions:
  assumes "(sig_step tr env)\<^sup>*\<^sup>* g g'" "tracer_ok tr"
    and "\<forall>q. p_swexit (g_proc g q) \<or> sig_wf (g_sigs g q)" "\<not> p_swexit (g_proc g' p)"
  shows "sig_wf (g_sigs g' p) \<and> ps_sigact (g_sigs g' p) sigKILL = SIG_DFL \<and> ps_sigact (g_sigs g' p) SIGSTOP = SIG_DFL"
proof -
  have "all_sigs (\<lambda>_. sig_wf) g" using assms(3) by (simp add: all_sigs_def)
  then have "all_sigs (\<lambda>_. sig_wf) g'" by (rule wf.history_all [OF assms(1,2)])
  then have w: "sig_wf (g_sigs g' p)" using assms(4) by (auto simp: all_sigs_def)
  have "ps_sigact (g_sigs g' p) 9 = SIG_DFL" "ps_sigact (g_sigs g' p) 17 = SIG_DFL"
    using sig_wfD(1) [OF w, of 8] sig_wfD(1) [OF w, of 16] sig_wfD(6-9) [OF w] by (auto simp: disposed_def sigCONT_def)
  then show ?thesis using w by (simp add: sigKILL_def SIGSTOP_def)
qed

text \<open>
  C23: as long as nobody is traced, no pending signal is one that its process ignores, and a process
  never has \<open>SIGCONT\<close> and a stop signal pending together, whatever is sent, blocked, caught, ignored,
  forked and executed.
\<close>

theorem signals_pending:
  assumes "(sig_step tr env)\<^sup>*\<^sup>* g g'" "tracer_ok tr"
    and "\<forall>q. \<not> p_strc (g_x g) q" "\<forall>q. pend_ok (g_sigs g q)" "\<not> p_swexit (g_proc g' p)"
  shows "p_sig (g_sigs g' p) AND p_sigignore (g_sigs g' p) = 0 \<and>
    (p_sig (g_sigs g' p) AND stopsigmask = 0 \<or> p_sig (g_sigs g' p) AND contsigmask = 0)"
proof -
  have "all_sigs (\<lambda>t sp. \<not> t \<and> pend_ok sp) g" using assms(3,4) by (simp add: all_sigs_def)
  then have "all_sigs (\<lambda>t sp. \<not> t \<and> pend_ok sp) g'" by (rule pend.history_all [OF assms(1,2)])
  then show ?thesis using assms(5) by (auto simp: all_sigs_def pend_ok_def)
qed

section \<open>An example\<close>

text \<open>The signal state of the first process: nothing blocked or caught, and what \<open>siginit\<close> ignores.\<close>

definition sigproc_init :: sigproc where
  "sigproc_init = sigproc_demo\<lparr>p_sigignore := sigmask 16 OR sigmask 20 OR sigmask 23 OR sigmask 28 OR sigmask 29\<rparr>"

definition gsys_demo :: gsys where
  "gsys_demo = \<lparr>g_x = xsys_demo, g_sigs = (\<lambda>_. sigproc_init), g_mach = (\<lambda>_. mach_demo), g_ast = (\<lambda>_. False), g_pageproc = 2\<rparr>"

definition genv_demo :: genv where
  "genv_demo = \<lparr>e_sigcode = replicate 16 144, e_access = (\<lambda>_ a. a \<noteq> 0), e_corepages = (\<lambda>_. 10), e_corefile = (\<lambda>_. 0)\<rparr>"

definition tracer_demo :: "nat \<Rightarrow> gsys \<Rightarrow> (bool \<times> gsys) kres" where
  "tracer_demo p g = Done (True, g\<lparr>g_x := (g_x g)\<lparr>ps_stopsig := (ps_stopsig (g_x g))(p := 0)\<rparr>\<rparr>)"

lemma tracer_demo_ok: "tracer_ok tracer_demo"
  by (simp add: tracer_ok_def tracer_demo_def)

lemma gsys_demo_sel [simp]:
  "g_sigs gsys_demo p = sigproc_init" "g_x gsys_demo = xsys_demo" "p_strc xsys_demo p = False" "g_mach gsys_demo p = mach_demo"
  by (simp_all add: gsys_demo_def xsys_demo_def)

lemma gsys_demo_swexit: "p_swexit (g_proc gsys_demo p) = False"
  by (simp add: xsched_demo_def sproc_demo_def)

lemma ignored_init: "list_all (\<lambda>n. bit (p_sigignore sigproc_init) n \<longleftrightarrow> n + 1 \<noteq> sigCONT \<and> sigprop (n + 1) AND SA_IGNORE \<noteq> 0) [0..<31]"
  by code_simp

lemma sigproc_init_ok: "sig_wf sigproc_init" "pend_ok sigproc_init"
proof -
  have d: "disposed sigproc_init n" for n
  proof (cases "n < 31")
    case True
    then have "n \<in> set [0..<31]" by simp
    then have "bit (p_sigignore sigproc_init) n \<longleftrightarrow> n + 1 \<noteq> sigCONT \<and> sigprop (n + 1) AND SA_IGNORE \<noteq> 0"
      using ignored_init unfolding list_all_iff by blast
    then show ?thesis using True by (simp add: disposed_def sigproc_init_def sigproc_demo_def SIG_DFL_def SIG_IGN_def)
  next
    case False
    then show ?thesis by (auto simp: disposed_def sigproc_init_def sigproc_demo_def bit_or_iff sigmask_bit)
  qed
  show "sig_wf sigproc_init"
    unfolding sig_wf_def by (intro conjI allI d) (simp_all add: sigproc_init_def sigproc_demo_def cant_bits bit_or_iff sigmask_bit)
  show "pend_ok sigproc_init" by (simp add: pend_ok_def sigproc_init_def sigproc_demo_def)
qed

theorem signal_dispositions_witness:
  "\<exists>g'. (sig_step tracer_demo genv_demo)\<^sup>*\<^sup>* gsys_demo g' \<and> bit (p_sigcatch (g_sigs g' 12)) 14 \<and> ps_sigact (g_sigs g' 12) sigKILL = SIG_DFL"
proof -
  let ?sa = "\<lparr>sa_handler = 4096, sa_mask = - 1, sa_flags = 0\<rparr>"
  let ?g = "upd_sig 12 (sigact_set 15 ?sa) gsys_demo"
  have "sigaction genv_demo 12 15 (Some (Inr ?sa)) None gsys_demo = (0, ?g)"
    by (simp add: sigaction_def genv_demo_def copy_if_def cant_sigmask sig_defs)
  then have step: "(sig_step tracer_demo genv_demo)\<^sup>*\<^sup>* gsys_demo ?g" by (intro r_into_rtranclp sig_step.intros(6))
  have "\<forall>q. p_swexit (g_proc gsys_demo q) \<or> sig_wf (g_sigs gsys_demo q)" "\<not> p_swexit (g_proc ?g 12)"
    using gsys_demo_swexit by (simp_all add: sigproc_init_ok)
  then have "ps_sigact (g_sigs ?g 12) sigKILL = SIG_DFL" using signal_dispositions [OF step tracer_demo_ok] by blast
  moreover have "bit (p_sigcatch (g_sigs ?g 12)) 14" by (simp add: sigact_set_bits SIG_DFL_def SIG_IGN_def)
  ultimately show ?thesis using step by blast
qed

theorem signals_pending_witness:
  "\<exists>g'. (sig_step tracer_demo genv_demo)\<^sup>*\<^sup>* gsys_demo g' \<and> p_sig (g_sigs g' 12) AND p_sigignore (g_sigs g' 12) = 0"
proof -
  let ?g = "execsigs 12 gsys_demo"
  have step: "(sig_step tracer_demo genv_demo)\<^sup>*\<^sup>* gsys_demo ?g" by (intro r_into_rtranclp sig_step.intros)
  have "\<not> p_swexit (g_proc ?g 12)" using gsys_demo_swexit by (simp add: execsigs_def)
  then show ?thesis using signals_pending [OF step tracer_demo_ok] step sigproc_init_ok by auto
qed

end
