(* ===== verification/Signal_Props.thy ===== *)
theory Signal_Props
  imports Signal_Inv
begin

unbundle bit_operations_syntax

text \<open>
  What signals do: sending one returns and keeps the queues right, \<open>SIGKILL\<close> and \<open>SIGCONT\<close> reach a
  stopped process, \<open>kill\<close> reaches only permitted processes, and \<open>issig\<close> finds the signal to take.
\<close>

section \<open>Sending a signal returns\<close>

text \<open>Every process has a group; the parent of a process is a process; the running process is not stopped.\<close>

definition g_ok :: "gsys \<Rightarrow> bool" where
  "g_ok g \<longleftrightarrow> syn_inv (g_sched g) \<and> g_stat g (g_curproc g) \<notin> {SSLEEP, SSTOP} \<and>
     (\<forall>p pr. jprocs (g_jobs g) p = Some pr \<longrightarrow> (\<exists>a. p_pgrp pr = Some a \<and> pgrps (g_jobs g) a \<noteq> None) \<and>
        (\<forall>pp. p_pptr pr = Some pp \<longrightarrow> pp \<noteq> p \<and> jprocs (g_jobs g) pp \<noteq> None \<and> (of_nat pp :: u32) \<noteq> 0))"

text \<open>The invariant of \<open>Exit_Props\<close> gives it.\<close>

lemma x_inv_g_ok:
  assumes "x_inv ext (g_x g)" "g_stat g (g_curproc g) \<notin> {SSLEEP, SSTOP}"
  shows "g_ok g"
proof -
  have f: "fork_inv ext (x_sys (g_x g))" by (rule x_invD(1) [OF assms(1)])
  then have "sys_ok (g_jobs g)" "syn_inv (g_sched g)" using fork_invD(1,4) by blast+
  then have fam: "family_ok (g_jobs g)" by (simp add: sys_ok_def job_inv_def pg_inv_def)
  have "\<exists>a. p_pgrp pr = Some a \<and> pgrps (g_jobs g) a \<noteq> None" if "jprocs (g_jobs g) p = Some pr" for p pr
    using fam that unfolding family_ok_def by blast
  moreover have "pp \<noteq> p" "jprocs (g_jobs g) pp \<noteq> None" if "jprocs (g_jobs g) p = Some pr" "p_pptr pr = Some pp" for p pr pp
    using fam that unfolding family_ok_def parent_def by (metis bind.bind_lunit)+
  moreover have "(of_nat pp :: u32) \<noteq> 0" if "jprocs (g_jobs g) pp \<noteq> None" for pp
    using x_invD(6) [OF assms(1), of pp] that by blast
  ultimately show ?thesis using assms(2) \<open>syn_inv (g_sched g)\<close> unfolding g_ok_def by blast
qed

lemma same_frame_jobs:
  assumes "same_frame g g'" "jprocs (g_jobs g) p = Some pr"
  obtains pr' where "jprocs (g_jobs g') p = Some pr'" "p_pgrp pr' = p_pgrp pr" "p_pptr pr' = p_pptr pr" "p_pid pr' = p_pid pr"
proof -
  have "map_option (\<lambda>r. r\<lparr>jproc.p_stat := SIDL\<rparr>) (jprocs (g_jobs g') p) = Some (pr\<lparr>jproc.p_stat := SIDL\<rparr>)"
    using assms by (simp add: same_frame_def)
  then obtain pr' where "jprocs (g_jobs g') p = Some pr'" "pr'\<lparr>jproc.p_stat := SIDL\<rparr> = pr\<lparr>jproc.p_stat := SIDL\<rparr>" by auto
  moreover from this(2) have "p_pgrp pr' = p_pgrp pr" "p_pptr pr' = p_pptr pr" "p_pid pr' = p_pid pr"
    by (metis jproc.select_convs jproc.surjective jproc.update_convs(5))+
  ultimately show thesis using that by blast
qed

lemma same_frame_sym: "same_frame g g' \<Longrightarrow> same_frame g' g"
  by (simp add: same_frame_def)

lemma g_ok_frame:
  assumes "g_ok g" "same_frame g g'" "syn_inv (g_sched g')" "g_stat g' (g_curproc g') \<notin> {SSLEEP, SSTOP}"
  shows "g_ok g'"
proof -
  have "\<exists>a. p_pgrp pr' = Some a \<and> pgrps (g_jobs g') a \<noteq> None"
    "\<And>pp. p_pptr pr' = Some pp \<Longrightarrow> pp \<noteq> p \<and> jprocs (g_jobs g') pp \<noteq> None \<and> (of_nat pp :: u32) \<noteq> 0"
    if j: "jprocs (g_jobs g') p = Some pr'" for p pr'
  proof -
    obtain pr where pr: "jprocs (g_jobs g) p = Some pr" "p_pgrp pr = p_pgrp pr'" "p_pptr pr = p_pptr pr'"
      by (rule same_frame_jobs [OF same_frame_sym [OF assms(2)] j])
    have "pgrps (g_jobs g') = pgrps (g_jobs g)" using assms(2) by (simp add: same_frame_def)
    then show "\<exists>a. p_pgrp pr' = Some a \<and> pgrps (g_jobs g') a \<noteq> None" using assms(1) pr unfolding g_ok_def by metis
    fix pp assume "p_pptr pr' = Some pp"
    then obtain q where "pp \<noteq> p" "jprocs (g_jobs g) pp = Some q" "(of_nat pp :: u32) \<noteq> 0" using assms(1) pr unfolding g_ok_def by fastforce
    then show "pp \<noteq> p \<and> jprocs (g_jobs g') pp \<noteq> None \<and> (of_nat pp :: u32) \<noteq> 0" using same_frame_jobs [OF assms(2)] by (metis option.distinct(1))
  qed
  then show ?thesis using assms(3,4) unfolding g_ok_def by blast
qed

lemma g_okD:
  assumes "g_ok g"
  shows "syn_inv (g_sched g)" "g_stat g (g_curproc g) \<notin> {SSLEEP, SSTOP}"
    "jprocs (g_jobs g) p = Some pr \<Longrightarrow> \<exists>a G. get_pgrp p (g_jobs g) = Done (a, G) \<and> p_pgrp pr = Some a \<and> pgrps (g_jobs g) a = Some G"
    "jprocs (g_jobs g) p = Some pr \<Longrightarrow> p_pptr pr = Some pp \<Longrightarrow> pp \<noteq> p \<and> jprocs (g_jobs g) pp \<noteq> None \<and> (of_nat pp :: u32) \<noteq> 0"
proof -
  show "syn_inv (g_sched g)" "g_stat g (g_curproc g) \<notin> {SSLEEP, SSTOP}"
    "jprocs (g_jobs g) p = Some pr \<Longrightarrow> p_pptr pr = Some pp \<Longrightarrow> pp \<noteq> p \<and> jprocs (g_jobs g) pp \<noteq> None \<and> (of_nat pp :: u32) \<noteq> 0"
    using assms unfolding g_ok_def by blast+
  assume j: "jprocs (g_jobs g) p = Some pr"
  obtain a G where "p_pgrp pr = Some a" "pgrps (g_jobs g) a = Some G" using assms j unfolding g_ok_def by blast
  then show "\<exists>a G. get_pgrp p (g_jobs g) = Done (a, G) \<and> p_pgrp pr = Some a \<and> pgrps (g_jobs g) a = Some G"
    using j by (simp add: get_pgrp_def)
qed

lemma off_queues:
  assumes "syn_inv s" "sproc.p_stat (procs s p) \<in> {SSLEEP, SSTOP}"
  shows "\<not> on_rq p s"
  using assms by (auto simp: syn_inv_def rq_ok_def on_rq_iff)

text \<open>The status of a process that is not on a run queue may change between asleep and stopped.\<close>

lemma stat_inv:
  assumes "syn_inv s" "\<not> on_rq p s" "st \<in> {SSLEEP, SSTOP} \<or> p_wchan (procs s p) = 0"
  shows "syn_inv (pupd p (\<lambda>pr. pr\<lparr>sproc.p_stat := st\<rparr>) s)"
  using assms by (auto simp: syn_inv_def slp_ok_def rq_ok_def on_rq_iff rqidx_def)

text \<open>What becomes of a process that is made to run.\<close>

definition runs :: "nat \<Rightarrow> gsys \<Rightarrow> gsys \<Rightarrow> bool" where
  "runs p g g' \<longleftrightarrow> g_stat g' p = SRUN \<and> p_wchan (g_proc g' p) = 0 \<and> (\<forall>q. q \<noteq> p \<longrightarrow> g_proc g' q = g_proc g q) \<and>
     g_curproc g' = g_curproc g"

lemma run_now_ok:
  assumes ok: "g_ok g" and st: "g_stat g p \<in> {SSLEEP, SSTOP}"
  shows "\<exists>g'. run_now fast p g = Done g' \<and> g_ok g' \<and> runs p g g' \<and> same_frame g g' \<and> g_sigs g' = g_sigs g"
proof -
  let ?q = "g_sched g"
  let ?q1 = "if fast \<and> PUSER < p_pri (procs ?q p) then pupd p (\<lambda>pr. pr\<lparr>p_pri := PUSER\<rparr>) ?q else ?q"
  note inv = g_okD(1) [OF ok]
  have off: "\<not> on_rq p ?q" by (rule off_queues [OF inv st])
  have i1: "syn_inv ?q1" using inv_pri [OF inv, of PUSER p] off inv by (simp add: PUSER_def)
  have cur: "p \<noteq> g_curproc g" using st g_okD(2) [OF ok] by auto
  have s1: "sproc.p_stat (procs ?q1 p) \<in> {SSLEEP, SSTOP, SIDL}" "p \<noteq> ssys.curproc ?q1" using st cur by auto
  obtain q' where q': "setrun p ?q1 = Done q'" "made_runnable p ?q1 q'" using setrun_inv [OF i1 s1] by blast
  define g' where "g' = put_q q' g"
  have r: "run_now fast p g = Done g'" by (simp add: run_now_def Let_def q'(1) g'_def)
  have sf: "same_frame g g'" "g_sigs g' = g_sigs g"
    using run_now_quiet [OF r, of g 0] by (auto simp: quiet_def g'_def)
  have other: "g_proc g' q = g_proc g q" if "q \<noteq> p" for q
    using q'(2) that by (auto simp: g'_def made_runnable_def split: if_splits)
  have cp: "g_curproc g' = g_curproc g" using q'(2) by (auto simp: g'_def made_runnable_def split: if_splits)
  have "g_stat g' (g_curproc g') \<notin> {SSLEEP, SSTOP}" using g_okD(2) [OF ok] other [of "g_curproc g"] cur cp by simp
  moreover have "syn_inv (g_sched g')" "g_stat g' p = SRUN" "p_wchan (g_proc g' p) = 0"
    using q'(2) by (simp_all add: g'_def made_runnable_def)
  ultimately have "g_ok g'" "runs p g g'" using g_ok_frame [OF ok sf(1)] other cp by (auto simp: runs_def)
  then show ?thesis using r sf by blast
qed

lemma unsleep_ok:
  assumes ok: "g_ok g"
  shows "\<exists>q. unsleep p (g_sched g) = Done q \<and> g_ok (put_q q g) \<and> same_frame g (put_q q g)"
proof -
  let ?s = "g_sched g"
  let ?q = "if p_wchan (procs ?s p) = 0 then ?s else dequeue p ?s"
  note inv = g_okD(1) [OF ok]
  have u: "unsleep p ?s = Done ?q" by (rule unsleep_Done [OF inv])
  have "syn_inv ?q" using inv dequeue_inv [OF inv] by simp
  moreover have "sproc.p_stat (procs ?q r) = sproc.p_stat (procs ?s r)" "ssys.curproc ?q = ssys.curproc ?s" for r
    by (simp_all add: dequeue_def)
  moreover have sf: "same_frame g (put_q ?q g)" by (rule same_frame_put_q) (simp add: dequeue_def)
  ultimately have "g_ok (put_q ?q g)" using g_ok_frame [OF ok sf] g_okD(2) [OF ok] by simp
  then show ?thesis using u sf by blast
qed

lemma g_ok_sigs:
  assumes "g_ok g" "g_x g' = g_x g"
  shows "g_ok g'"
  using assms by (simp add: g_ok_def)

lemma clrsig_ok: "g_ok g \<Longrightarrow> g_ok (clrsig p b g)" "g_ok g \<Longrightarrow> g_ok (post_sig p b g)" "g_ok g \<Longrightarrow> g_ok (upd_sig p f g)"
  by (simp_all add: g_ok_def)

lemma promote_ok:
  assumes "g_ok g"
  shows "g_ok (promote act p sig g)"
proof -
  let ?q = "pupd p (\<lambda>pr. pr\<lparr>p_nice := 0\<rparr>) (g_sched g)"
  have "same_q ?q (g_sched g)" by (rule same_q_pupd) (simp add: qview_def)
  then have "syn_inv ?q" using same_q_inv g_okD(1) [OF assms] by blast
  moreover have sf: "same_frame g (put_q ?q g)" by (rule same_frame_put_q) simp
  moreover have "g_stat (put_q ?q g) (g_curproc (put_q ?q g)) \<notin> {SSLEEP, SSTOP}"
    using g_okD(2) [OF assms] by (cases "g_curproc g = p") simp_all
  ultimately have "g_ok (put_q ?q g)" using g_ok_frame [OF assms sf] by simp
  then show ?thesis using assms by (simp add: promote_def)
qed

lemma psignal_stopped_ok:
  assumes ok: "g_ok g" and st: "g_stat g p = SSTOP"
  shows "\<exists>g'. psignal_stopped act p sig g = Done g' \<and> g_ok g' \<and> g_curproc g' = g_curproc g \<and> (\<forall>q. q \<noteq> p \<longrightarrow> g_proc g' q = g_proc g q)"
proof -
  let ?b = "sigmask sig"
  let ?g1 = "if act = A_DFL then clrsig p ?b g else g"
  let ?q = "pupd p (\<lambda>pr. pr\<lparr>sproc.p_stat := SSLEEP\<rparr>) (g_sched ?g1)"
  have ok1: "g_ok ?g1" using ok clrsig_ok by simp
  have x1: "g_x ?g1 = g_x g" by simp
  have run: "\<exists>g'. run_now fast p h = Done g' \<and> g_ok g' \<and> g_curproc g' = g_curproc g \<and> (\<forall>q. q \<noteq> p \<longrightarrow> g_proc g' q = g_proc g q)" if "g_ok h" "g_x h = g_x g" for fast h
    using run_now_ok [OF that(1), of p fast] st that(2) by (auto simp: runs_def)
  obtain u where u: "unsleep p (g_sched g) = Done u" "g_ok (put_q u g)" using unsleep_ok [OF ok] by blast
  have uc: "ssys.curproc u = g_curproc g"
    using u(1) unsleep_Done [OF g_okD(1) [OF ok], of p] by (auto simp: dequeue_def split: if_splits)
  have uo: "procs u q = g_proc g q" if "q \<noteq> p" for q
    using u(1) that unsleep_Done [OF g_okD(1) [OF ok], of p] by (auto simp: dequeue_def split: if_splits)
  have off: "\<not> on_rq p (g_sched ?g1)" using off_queues [OF g_okD(1) [OF ok1]] st x1 by simp
  have "syn_inv ?q" using stat_inv [OF g_okD(1) [OF ok1] off] by simp
  moreover have sf: "same_frame ?g1 (put_q ?q ?g1)" by (rule same_frame_put_q) simp
  moreover have "g_stat (put_q ?q ?g1) (g_curproc (put_q ?q ?g1)) \<notin> {SSLEEP, SSTOP}"
    using g_okD(2) [OF ok] st x1 by (cases "g_curproc g = p") auto
  ultimately have okq: "g_ok (put_q ?q ?g1)" using g_ok_frame [OF ok1 sf] by simp
  have oth: "g_proc (put_q ?q ?g1) q = g_proc g q" if "q \<noteq> p" for q using that x1 by simp
  show ?thesis
    using run [OF ok refl, of True] run [OF ok1 x1, of True] run [OF ok1 x1, of False] ok clrsig_ok(1) [OF ok, of p ?b] u uo uc okq oth
    by (simp add: psignal_stopped_def Let_def)
qed

text \<open>What \<open>psignal\<close> does once the signal is posted.\<close>

definition psignal_react :: "action \<Rightarrow> nat \<Rightarrow> nat \<Rightarrow> gsys \<Rightarrow> gsys kres" where
  "psignal_react act p sig g =
     (if act = A_HOLD \<and> (sigprop sig AND SA_CONT = 0 \<or> g_stat g p \<noteq> SSTOP) then Done g
      else if g_stat g p = SSLEEP then
        if \<not> p_ssintr (g_proc g p) then Done g
        else if p_strc (g_x g) p then run_now False p g
        else if sigprop sig AND SA_CONT \<noteq> 0 \<and> act = A_DFL then Done (clrsig p (sigmask sig) g)
        else if sigprop sig AND SA_STOP \<noteq> 0 \<and> act = A_DFL then stop p sig (clrsig p (sigmask sig) g)
        else run_now True p g
      else if g_stat g p = SSTOP then psignal_stopped act p sig g
      else Done (notify p g))"

lemma psignal_eq:
  assumes "0 < sig" "sig < 32"
  shows "psignal p sig g = (case sig_action (g_sigs g p) (p_strc (g_x g) p) (sigmask sig) of None \<Rightarrow> Done g
    | Some act \<Rightarrow> let g1 = clear_stops (sigprop sig) p (promote act p sig g) in
        kbind (tty_dropped act p (sigprop sig) g1) (\<lambda>d. if d then Done g1 else psignal_react act p sig (posted act p sig g)))"
proof -
  have n: "(NSIG \<le> sig \<or> sig = 0) = False" using assms by (simp add: NSIG_def)
  show ?thesis unfolding psignal.simps [of p sig g] Let_def n if_False psignal_react_def posted_def ..
qed

lemma notify_ok: "g_ok g \<Longrightarrow> g_ok (notify p g)"
  by (simp add: g_ok_def notify_def)

lemma posted_ok: "g_ok g \<Longrightarrow> g_ok (posted act p sig g)"
  by (simp add: posted_def clear_conts_def clear_stops_def clrsig_ok promote_ok)

lemma posted_x: "g_x (posted act p sig g) = g_x (promote act p sig g)"
  by (simp add: posted_def clear_conts_def clear_stops_def)

lemma promote_sel:
  "g_stat (promote act p sig g) q = g_stat g q" "p_wchan (g_proc (promote act p sig g) q) = p_wchan (g_proc g q)"
  "p_ssintr (g_proc (promote act p sig g) q) = p_ssintr (g_proc g q)" "p_strc (g_x (promote act p sig g)) = p_strc (g_x g)"
  "q \<noteq> p \<Longrightarrow> g_proc (promote act p sig g) q = g_proc g q" "g_curproc (promote act p sig g) = g_curproc g"
  by (simp_all add: promote_def)

text \<open>A signal that is not a stop signal, to any process.\<close>

lemma psignal_plain_ok:
  assumes ok: "g_ok g" and sig: "0 < sig" "sig < 32" "sigprop sig AND SA_STOP = 0"
  shows "\<exists>g'. psignal p sig g = Done g' \<and> g_ok g' \<and> g_curproc g' = g_curproc g \<and> (\<forall>q. q \<noteq> p \<longrightarrow> g_proc g' q = g_proc g q)"
proof (cases "sig_action (g_sigs g p) (p_strc (g_x g) p) (sigmask sig)")
  case None
  then show ?thesis using ok by (simp add: psignal_eq [OF sig(1,2)])
next
  case (Some act)
  let ?h = "posted act p sig g"
  have e: "psignal p sig g = psignal_react act p sig ?h" using Some sig(3) by (simp add: psignal_eq [OF sig(1,2)] tty_dropped_def Let_def)
  have h: "g_ok ?h" "g_curproc ?h = g_curproc g" "\<And>q. q \<noteq> p \<Longrightarrow> g_proc ?h q = g_proc g q" using posted_ok [OF ok] by (simp_all add: posted_x promote_sel)
  have run: "\<exists>g'. run_now fast p ?h = Done g' \<and> g_ok g' \<and> g_curproc g' = g_curproc g \<and> (\<forall>q. q \<noteq> p \<longrightarrow> g_proc g' q = g_proc g q)" if "g_stat ?h p = SSLEEP" for fast
    using run_now_ok [OF h(1), of p fast] that h(2,3) by (auto simp: runs_def)
  have stp: "\<exists>g'. psignal_stopped act p sig ?h = Done g' \<and> g_ok g' \<and> g_curproc g' = g_curproc g \<and> (\<forall>q. q \<noteq> p \<longrightarrow> g_proc g' q = g_proc g q)" if "g_stat ?h p = SSTOP"
    using psignal_stopped_ok [OF h(1) that, of act sig] h(2,3) by simp
  have same: "g_ok k \<and> g_curproc k = g_curproc g \<and> (\<forall>q. q \<noteq> p \<longrightarrow> g_proc k q = g_proc g q)" if "k \<in> {?h, clrsig p (sigmask sig) ?h, notify p ?h}" for k
    using that h clrsig_ok(1) [OF h(1)] notify_ok [OF h(1)] by (auto simp: notify_def)
  show ?thesis unfolding e psignal_react_def using run stp same sig(3) by (simp split: if_splits)
qed

text \<open>
  What \<open>stop\<close> does to a process that runs, or sleeps or is stopped already: it is stopped, on the
  sleep queue it was on, the signal is recorded for \<open>wait4\<close>, and its parent is not left asleep on its
  own channel.
\<close>

definition stopped_by :: "nat \<Rightarrow> nat \<Rightarrow> nat \<Rightarrow> gsys \<Rightarrow> gsys \<Rightarrow> bool" where
  "stopped_by sig pp p g g' \<longleftrightarrow> g_stat g' p = SSTOP \<and> (p_wchan (g_proc g p) \<noteq> of_nat pp \<longrightarrow> p_wchan (g_proc g' p) = p_wchan (g_proc g p)) \<and>
     ps_stopsig (g_x g') p = int sig \<and> \<not> p_swted (g_x g') p \<and> \<not> (g_stat g' pp = SSLEEP \<and> p_wchan (g_proc g' pp) = of_nat pp)"

lemma stop_ok:
  assumes ok: "g_ok g" and st: "g_stat g p \<in> {SSLEEP, SSTOP} \<or> p = g_curproc g" and p: "jprocs (g_jobs g) p = Some pr" "p_pptr pr = Some pp"
    and np: "\<not> p_sppwait (g_x g) p"
  shows "\<exists>g'. stop p sig g = Done g' \<and> syn_inv (g_sched g') \<and> (p \<noteq> g_curproc g \<longrightarrow> g_ok g') \<and> stopped_by sig pp p g g'"
proof -
  have pp: "pp \<noteq> p" "(of_nat pp :: u32) \<noteq> 0" using g_okD(4) [OF ok p] by auto
  have chld: "0 < sigCHLD" "sigCHLD < 32" by (simp_all add: sigCHLD_def)
  obtain g0 where g0: "psignal pp sigCHLD g = Done g0" "g_ok g0" "g_curproc g0 = g_curproc g" "\<forall>q. q \<noteq> pp \<longrightarrow> g_proc g0 q = g_proc g q"
    using psignal_plain_ok [OF ok chld sigCHLD_no_stop] by blast
  define g1 where "g1 = (if p_strc (g_x g) p \<or> p_snocldstop (g_sigs g pp) then g else g0)"
  have pre: "(if p_strc (g_x g) p then Done g else kbind (deref (p_pptr pr)) (\<lambda>pp. if p_snocldstop (g_sigs g pp) then Done g else psignal pp sigCHLD g)) = Done g1"
    by (simp add: g1_def p(2) g0(1))
  have f1: "same_frame g g1" using psignal_frame [OF g0(1)] by (simp add: g1_def)
  have ok1: "g_ok g1" and same: "g_proc g1 p = g_proc g p" using ok g0(2,4) pp by (simp_all add: g1_def)
  have cp: "g_curproc g1 = g_curproc g" using g0(3) by (simp add: g1_def)
  have off: "\<not> on_rq p (g_sched g1)"
  proof (cases "g_stat g p \<in> {SSLEEP, SSTOP}")
    case True
    then show ?thesis using off_queues [OF g_okD(1) [OF ok1]] same by simp
  next
    case False
    then have "p = g_curproc g1" using st cp by auto
    then show ?thesis using g_okD(1) [OF ok1] by (auto simp: syn_inv_def rq_ok_def on_rq_iff)
  qed
  let ?q1 = "pupd p (\<lambda>pr. pr\<lparr>sproc.p_stat := SSTOP\<rparr>) (g_sched g1)"
  define g2 where "g2 = put_q ?q1 g1"
  have i1: "syn_inv ?q1" using stat_inv [OF g_okD(1) [OF ok1] off] by simp
  obtain q2 where q2: "wakeup (of_nat pp) ?q1 = Done q2" "syn_inv q2" "woken (waits (of_nat pp) ?q1) ?q1 q2"
    using wakeup_inv [OF i1 pp(2)] by blast
  define g3 where "g3 = put_q q2 g2"
  define g' where "g' = g3\<lparr>g_x := (g_x g3)\<lparr>ps_stopsig := (ps_stopsig (g_x g3))(p := int sig), p_swted := (p_swted (g_x g3))(p := False)\<rparr>\<rparr>"
  have r: "stop p sig g = Done g'"
    unfolding stop.simps [of p sig g] using np p(1) pre q2(1) p(2) by (simp add: g'_def g3_def g2_def Let_def)
  have sched: "g_sched g' = q2" by (simp add: g'_def g3_def)
  have w: "procs q2 q = procs ?q1 q" if "p_wchan (procs ?q1 q) \<noteq> of_nat pp" for q using q2(3) that by (auto simp: woken_def)
  have w2: "p_wchan (procs q2 q) = 0 \<and> (sproc.p_stat (procs ?q1 q) = SSLEEP \<longrightarrow> sproc.p_stat (procs q2 q) = SRUN) \<and>
      (sproc.p_stat (procs ?q1 q) = SSTOP \<longrightarrow> sproc.p_stat (procs q2 q) = SSTOP)" if "p_wchan (procs ?q1 q) = of_nat pp" for q
    using q2(3) that by (auto simp: woken_def)
  have stop: "sproc.p_stat (procs q2 p) = SSTOP" using w [of p] w2 [of p] by (cases "p_wchan (procs ?q1 p) = of_nat pp") auto
  have wc: "p_wchan (procs q2 p) = p_wchan (g_proc g p)" if "p_wchan (g_proc g p) \<noteq> of_nat pp" using w [of p] that same by simp
  have par: "\<not> (sproc.p_stat (procs q2 pp) = SSLEEP \<and> p_wchan (procs q2 pp) = of_nat pp)"
    using w [of pp] w2 [of pp] pp(2) by (cases "p_wchan (procs ?q1 pp) = of_nat pp") auto
  have "stopped_by sig pp p g g'" unfolding stopped_by_def sched using stop wc par by (simp add: g'_def)
  moreover have "g_ok g'" if "p \<noteq> g_curproc g"
  proof -
    have c1: "g_curproc g1 \<noteq> p" using that cp by simp
    have "ssys.curproc q2 = g_curproc g1" using q2(3) by (simp add: woken_def)
    moreover have "sproc.p_stat (procs q2 (g_curproc g1)) \<notin> {SSLEEP, SSTOP}"
    proof -
      have "p_wchan (g_proc g1 (g_curproc g1)) = 0" using g_okD(1) [OF ok1] unfolding syn_inv_def slp_ok_def by blast
      then have "procs q2 (g_curproc g1) = g_proc g1 (g_curproc g1)" using w [of "g_curproc g1"] c1 pp(2) by simp
      then show ?thesis using g_okD(2) [OF ok1] by simp
    qed
    ultimately have "g_stat g' (g_curproc g') \<notin> {SSLEEP, SSTOP}" by (simp add: sched)
    then show ?thesis using g_ok_frame [OF ok stop_frame [OF r]] q2(2) by (simp add: sched)
  qed
  ultimately show ?thesis using r q2(2) sched by blast
qed

lemma psignal_react_ok:
  assumes "g_ok h" "g_ok (clrsig p (sigmask sig) h)" "g_stat h p = SSLEEP \<Longrightarrow> \<exists>g'. stop p sig (clrsig p (sigmask sig) h) = Done g' \<and> g_ok g'"
    "\<And>fast. g_stat h p = SSLEEP \<Longrightarrow> \<exists>g'. run_now fast p h = Done g' \<and> g_ok g'"
    "g_stat h p = SSTOP \<Longrightarrow> \<exists>g'. psignal_stopped act p sig h = Done g' \<and> g_ok g'" "g_ok (notify p h)"
  shows "\<exists>g'. psignal_react act p sig h = Done g' \<and> g_ok g'"
  using assms unfolding psignal_react_def by (simp split: if_splits)

lemma psignal_ok:
  assumes ok: "g_ok g" and p: "jprocs (g_jobs g) p = Some pr" "p_pptr pr = Some pp" and sig: "0 < sig" "sig < 32"
  shows "\<exists>g'. psignal p sig g = Done g' \<and> g_ok g'"
proof (cases "sig_action (g_sigs g p) (p_strc (g_x g) p) (sigmask sig)")
  case None
  then show ?thesis using ok by (simp add: psignal_eq [OF sig])
next
  case (Some act)
  let ?g1 = "clear_stops (sigprop sig) p (promote act p sig g)"
  let ?h = "posted act p sig g"
  have ok1: "g_ok ?g1" using promote_ok [OF ok] by (simp add: clear_stops_def clrsig_ok)
  have sf1: "same_frame g ?g1" by (rule same_frame_trans [OF same_frame_sig(5) same_frame_sig(3)])
  obtain pr1 where pr1: "jprocs (g_jobs ?g1) p = Some pr1" by (rule same_frame_jobs [OF sf1 p(1)])
  obtain a G where G: "get_pgrp p (g_jobs ?g1) = Done (a, G)" using g_okD(3) [OF ok1 pr1] by blast
  have d: "\<exists>d. tty_dropped act p (sigprop sig) ?g1 = Done d" by (auto simp: tty_dropped_def G)
  have okh: "g_ok ?h" by (rule posted_ok [OF ok])
  let ?c = "clrsig p (sigmask sig) ?h"
  have okc: "g_ok ?c" by (rule clrsig_ok(1) [OF okh])
  have sfc: "same_frame g ?c" by (rule same_frame_trans [OF same_frame_posted same_frame_sig(1)])
  have st: "\<exists>g'. stop p sig ?c = Done g' \<and> g_ok g'" if "g_stat ?h p = SSLEEP"
  proof (cases "p_sppwait (g_x ?c) p")
    case True
    then show ?thesis using okc by (simp add: stop.simps [of p sig ?c])
  next
    case False
    obtain pr2 where pr2: "jprocs (g_jobs ?c) p = Some pr2" "p_pptr pr2 = p_pptr pr" by (rule same_frame_jobs [OF sfc p(1)])
    have s: "g_stat ?c p \<in> {SSLEEP, SSTOP}" using that by simp
    then have "p \<noteq> g_curproc ?c" using g_okD(2) [OF okc] by auto
    then show ?thesis using stop_ok [OF okc _ pr2(1) _ False, of pp sig] s pr2(2) p(2) by auto
  qed
  have run: "\<exists>g'. run_now fast p ?h = Done g' \<and> g_ok g'" if "g_stat ?h p = SSLEEP" for fast
    using run_now_ok [OF okh, of p fast] that by auto
  have stp: "\<exists>g'. psignal_stopped act p sig ?h = Done g' \<and> g_ok g'" if "g_stat ?h p = SSTOP" using psignal_stopped_ok [OF okh that] by blast
  have "\<exists>g'. psignal_react act p sig ?h = Done g' \<and> g_ok g'" using okh okc st run stp notify_ok [OF okh] by (rule psignal_react_ok)
  then show ?thesis using d ok1 Some by (auto simp: psignal_eq [OF sig] Let_def)
qed

text \<open>
  C19: sending a signal returns.  For every signal and every process that has a parent, \<open>psignal\<close>
  neither panics nor follows a bad pointer, whatever the process is doing and whatever it has blocked,
  caught or ignored: it makes runnable only processes that sleep or are stopped, and it keeps the sleep
  queues and run queues right.  The signal can stop the process and signal its parent in turn.
\<close>

theorem psignal_returns:
  assumes "x_inv ext (g_x g)" "g_stat g (g_curproc g) \<notin> {SSLEEP, SSTOP}"
    and "jprocs (g_jobs g) p = Some pr" "p_pid pr \<noteq> 0" "0 < sig" "sig < 32"
  shows "\<exists>g'. psignal p sig g = Done g' \<and> syn_inv (g_sched g') \<and> g_stat g' (g_curproc g') \<notin> {SSLEEP, SSTOP}"
proof -
  have ok: "g_ok g" by (rule x_inv_g_ok [OF assms(1,2)])
  have "rooted (g_jobs g)" using fork_invD(1) [OF x_invD(1) [OF assms(1)]] by (simp add: sys_ok_def)
  then obtain pp where "p_pptr pr = Some pp" using assms(3,4) unfolding rooted_def parent_def by fastforce
  then show ?thesis using psignal_ok [OF ok assms(3) _ assms(5,6)] g_okD(1,2) by blast
qed

section \<open>Killing and continuing\<close>

lemma sig_bit: "0 < sig \<Longrightarrow> sig < 32 \<Longrightarrow> s AND sigmask sig = 0 \<longleftrightarrow> \<not> bit s (sig - 1)"
  using and_sigmask [of sig s] by auto

lemma sigprop_few:
  "sigprop 9 = 1" "sigprop 17 = 4" "sigprop 19 = 0x30" "sigprop 20 = 0x10"
  by (simp_all add: sigprop_def sigprops_def sa_defs)

lemma kill_action: "sig_wf sp \<Longrightarrow> sig_action sp t (sigmask 9) = Some A_DFL"
  using sig_wfD(4,6,8) [of sp] by (simp add: sig_action_def sig_bit)

lemma posted_pending: "0 < sig \<Longrightarrow> sig < 32 \<Longrightarrow> bit (p_sig (g_sigs (posted act p sig g) p)) (sig - 1)"
  by (simp add: posted_sigs post_sets_bit)

text \<open>A fatal signal is pending: a pass of \<open>issig\<close> returns it or one before it.\<close>

lemma issig_kill:
  assumes "sig_wf (g_sigs g p)" "bit (p_sig (g_sigs g p)) 8" "\<not> p_strc (g_x g) p" "\<not> p_ssys (g_sigs g p)"
  shows "\<exists>s g'. issig p g = Done (Issig s g') \<and> 0 < s \<and> s \<le> 9"
  using assms
proof (induction p g rule: issig.induct)
  case (1 p g)
  let ?m = "sig_pending p g"
  let ?s = "ffs ?m"
  let ?c = "clrsig p (sigmask ?s) g"
  have "bit ?m 8" using 1(3,4) sig_wfD(4) [OF 1(3)] by (auto simp: sig_pending_def Let_def bit_and_iff bit_not_iff stop_cont_bits)
  then have m: "?m \<noteq> 0" by auto
  note f = ffs_bit [OF m]
  have "?s - 1 \<le> 8" using f(4) [of 8] \<open>bit ?m 8\<close> by (meson not_le)
  then have s: "0 < ?s" "?s \<le> 9" using f(1) by auto
  have "?s \<in> {1, 2, 3, 4, 5, 6, 7, 8, 9}" using s by auto
  then have pr: "sigprop ?s AND SA_STOP = 0" "sigprop ?s AND SA_IGNORE = 0" by (auto simp: sigprop_def sigprops_def sa_defs)
  have w: "sig_wf (g_sigs ?c p)" using wf.clear [OF 1(3)] by simp
  have dis: "disposed (g_sigs g p) (?s - 1)" by (rule sig_wfD(1) [OF 1(3)])
  have nine: "\<not> bit (p_sigignore (g_sigs g p)) 8" by (rule sig_wfD(8) [OF 1(3)])
  show ?case
  proof (cases "bit (p_sigignore (g_sigs g p)) (?s - 1)")
    case True
    then have "?s \<noteq> 9" using nine by auto
    then have b: "bit (p_sig (g_sigs ?c p)) 8" using 1(4) s by (auto simp: bit_and_iff bit_not_iff sigmask_bit)
    have i: "sigmask ?s AND p_sigignore (g_sigs g p) \<noteq> 0 \<and> \<not> p_strc (g_x g) p"
      using True 1(5) s sig_bit [of ?s "p_sigignore (g_sigs g p)"] by (simp add: and.commute)
    have "\<exists>s g'. issig p ?c = Done (Issig s g') \<and> 0 < s \<and> s \<le> 9"
      using 1(1) [OF refl refl refl m i w b] 1(5,6) by simp
    then show ?thesis using m i by (simp add: issig.simps [of p g] Let_def)
  next
    case False
    then have i: "\<not> (sigmask ?s AND p_sigignore (g_sigs g p) \<noteq> 0 \<and> \<not> p_strc (g_x g) p)"
      using s sig_bit [of ?s "p_sigignore (g_sigs g p)"] by (simp add: and.commute)
    have "ps_sigact (g_sigs g p) ?s \<noteq> SIG_IGN" using dis False s by (auto simp: disposed_def sigCONT_def)
    then have "issig_verdict p ?s (sigprop ?s) g = Done Take" using 1(6) s pr by (simp add: issig_verdict_def Let_def NSIG_def)
    then show ?thesis using m i 1(5) s by (simp add: issig.simps [of p g] Let_def)
  qed
qed

text \<open>
  C20: \<open>SIGKILL\<close> cannot be escaped.  Sent to any process, it is pending afterwards; the process is not
  stopped, and if it was stopped, or slept so that signals wake it, it runs.  While it is pending, each
  time a process that is not traced and not a system process looks for a signal, \<open>issig\<close> returns
  without stopping it a signal up to \<open>SIGKILL\<close>, whatever is blocked, caught or ignored; and taking
  \<open>SIGKILL\<close> is \<open>sigexit\<close>.
\<close>

theorem sigkill_certain:
  assumes "g_ok g" "sig_wf (g_sigs g p)"
  shows "(\<exists>g'. psignal p sigKILL g = Done g' \<and> g_ok g' \<and> bit (p_sig (g_sigs g' p)) 8 \<and> g_stat g' p \<noteq> SSTOP \<and>
      (g_stat g p = SSTOP \<or> g_stat g p = SSLEEP \<and> p_ssintr (g_proc g p) \<longrightarrow> g_stat g' p = SRUN)) \<and>
      (\<forall>h. sig_wf (g_sigs h p) \<longrightarrow> bit (p_sig (g_sigs h p)) 8 \<longrightarrow> \<not> p_strc (g_x h) p \<longrightarrow> \<not> p_ssys (g_sigs h p) \<longrightarrow>
        (\<exists>s h'. issig p h = Done (Issig s h') \<and> 0 < s \<and> s \<le> sigKILL)) \<and>
      (\<forall>h env. sig_wf (g_sigs h p) \<longrightarrow> g_curproc h = p \<longrightarrow> psig env sigKILL h = sigexit env p sigKILL (clrsig p (sigmask sigKILL) h))"
proof -
  let ?h = "posted A_DFL p 9 g"
  have e: "psignal p 9 g = psignal_react A_DFL p 9 ?h"
    by (simp add: psignal_eq kill_action [OF assms(2)] tty_dropped_def Let_def sigprop_few sa_defs)
  have e': "psignal p sigKILL g = psignal_react A_DFL p 9 ?h" using e by (simp add: sigKILL_def)
  have ok: "g_ok ?h" by (rule posted_ok [OF assms(1)])
  have st: "g_stat ?h q = g_stat g q" "p_ssintr (g_proc ?h q) = p_ssintr (g_proc g q)" for q by (simp_all add: posted_x promote_sel)
  have b: "bit (p_sig (g_sigs ?h p)) 8" using posted_pending [of 9 A_DFL p g] by simp
  have run: "\<exists>g'. run_now fast p ?h = Done g' \<and> g_ok g' \<and> bit (p_sig (g_sigs g' p)) 8 \<and> g_stat g' p = SRUN" if "g_stat g p \<in> {SSLEEP, SSTOP}" for fast
    using run_now_ok [OF ok, of p fast] that b by (auto simp: st runs_def)
  have c: "sigprop 9 AND SA_CONT = 0" "sigprop 9 AND SA_STOP = 0" by (simp_all add: sigprop_few sa_defs)
  have "\<exists>g'. psignal_react A_DFL p 9 ?h = Done g' \<and> g_ok g' \<and> bit (p_sig (g_sigs g' p)) 8 \<and> g_stat g' p \<noteq> SSTOP \<and>
      (g_stat g p = SSTOP \<or> g_stat g p = SSLEEP \<and> p_ssintr (g_proc g p) \<longrightarrow> g_stat g' p = SRUN)"
  proof (cases "g_stat g p = SSLEEP \<or> g_stat g p = SSTOP")
    case True
    then show ?thesis using run [of False] run [of True] ok b st c by (auto simp: psignal_react_def psignal_stopped_def sigKILL_def)
  next
    case False
    then have "psignal_react A_DFL p 9 ?h = Done (notify p ?h)" using st by (simp add: psignal_react_def)
    then show ?thesis using False notify_ok [OF ok, of p] b st by (simp add: notify_def)
  qed
  moreover have "\<exists>s h'. issig p h = Done (Issig s h') \<and> 0 < s \<and> s \<le> sigKILL"
    if "sig_wf (g_sigs h p)" "bit (p_sig (g_sigs h p)) 8" "\<not> p_strc (g_x h) p" "\<not> p_ssys (g_sigs h p)" for h
    using issig_kill [OF that] by (simp add: sigKILL_def)
  moreover have "psig env sigKILL h = sigexit env p sigKILL (clrsig p (sigmask sigKILL) h)" if w: "sig_wf (g_sigs h p)" "g_curproc h = p" for h env
  proof -
    have "ps_sigact (g_sigs h p) 9 = SIG_DFL"
      using sig_wfD(1) [OF w(1), of 8] sig_wfD(6,8) [OF w(1)] by (auto simp: disposed_def sigCONT_def)
    then show ?thesis using w(2) by (simp add: psig_def Let_def sigKILL_def)
  qed
  ultimately show ?thesis unfolding e' by blast
qed

lemma cont_facts:
  "sigprop 19 AND SA_CONT \<noteq> 0" "sigprop 19 AND SA_STOP = 0" "sigmask 19 AND stopsigmask = 0" "19 \<noteq> sigKILL"
  by (simp_all add: sigprop_few sa_defs sigKILL_def and_zero_iff stop_cont_bits sigmask_bit)

text \<open>
  C26: \<open>SIGCONT\<close> to a stopped process that is not traced resumes it, even if it blocks or ignores the signal: it
  runs if it was stopped while running, or if it is to catch the signal; otherwise it sleeps again on the
  channel it slept on.  The signal stays pending exactly if it is blocked or caught.  A stopped process
  that is traced stays stopped, and the signal stays pending for its tracer.  In either case the pending
  stop signals are gone.
\<close>

theorem sigcont_resumes:
  assumes "g_ok g" "sig_wf (g_sigs g p)" "g_stat g p = SSTOP"
  shows "\<exists>g'. psignal p sigCONT g = Done g' \<and> g_ok g' \<and> p_sig (g_sigs g' p) AND stopsigmask = 0 \<and>
      (bit (p_sig (g_sigs g' p)) 18 \<longleftrightarrow> p_strc (g_x g) p \<or> bit (p_sigmask (g_sigs g p)) 18 \<or> bit (p_sigcatch (g_sigs g p)) 18) \<and>
      g_stat g' p =
        (if p_strc (g_x g) p then SSTOP
         else if p_wchan (g_proc g p) = 0 \<or> \<not> bit (p_sigmask (g_sigs g p)) 18 \<and> bit (p_sigcatch (g_sigs g p)) 18 then SRUN else SSLEEP) \<and>
      (g_stat g' p \<noteq> SRUN \<longrightarrow> p_wchan (g_proc g' p) = p_wchan (g_proc g p))"
proof (cases "p_strc (g_x g) p")
  case True
  have a: "sig_action (g_sigs g p) (p_strc (g_x g) p) (sigmask 19) = Some A_DFL" using True by (simp add: sig_action_def)
  define h where "h = posted A_DFL p 19 g"
  have hx: "g_x h = g_x g" by (simp add: h_def posted_x promote_def sig_defs)
  have hs: "g_sigs h q = (if q = p then (g_sigs g p)\<lparr>p_sig := p_sig (g_sigs g p) AND NOT stopsigmask OR sigmask 19\<rparr> else g_sigs g q)" for q
    using cont_facts by (simp add: h_def posted_sigs post_sets_def Let_def)
  have ok: "g_ok h" unfolding h_def by (rule posted_ok [OF assms(1)])
  have st: "g_stat h p = SSTOP" "p_strc (g_x h) p" "p_wchan (g_proc h p) = p_wchan (g_proc g p)" using assms(3) True hx by simp_all
  have "psignal p 19 g = psignal_react A_DFL p 19 h" using a cont_facts by (simp add: psignal_eq tty_dropped_def Let_def h_def)
  also have "\<dots> = Done h" using st cont_facts by (simp add: psignal_react_def psignal_stopped_def Let_def)
  finally have e: "psignal p 19 g = Done h" .
  have "p_sig (g_sigs h p) AND stopsigmask = 0" "bit (p_sig (g_sigs h p)) 18"
    by (auto simp: hs and_zero_iff bit_and_iff bit_or_iff bit_not_iff sigmask_bit stop_cont_bits)
  then show ?thesis using e ok st True unfolding sigCONT_def by (intro exI [of _ h]) simp
next
  case untraced: False
  note assms = assms(1,2) untraced assms(3)
  let ?sp = "g_sigs g p"
  define act where "act = (if bit (p_sigmask ?sp) 18 then A_HOLD else if bit (p_sigcatch ?sp) 18 then A_CATCH else A_DFL)"
  have ni: "\<not> bit (p_sigignore ?sp) 18" using sig_wfD(1) [OF assms(2), of 18] by (simp add: disposed_def sigCONT_def)
  have a: "sig_action ?sp (p_strc (g_x g) p) (sigmask 19) = Some act" using ni assms(3) by (simp add: sig_action_def act_def sig_bit)
  define h where "h = posted act p 19 g"
  have hx: "g_x h = g_x g" by (simp add: h_def posted_x promote_def sig_defs)
  have hs: "g_sigs h q = (if q = p then ?sp\<lparr>p_sig := p_sig ?sp AND NOT stopsigmask OR sigmask 19\<rparr> else g_sigs g q)" for q
    using cont_facts by (simp add: h_def posted_sigs post_sets_def Let_def)
  have ok: "g_ok h" unfolding h_def by (rule posted_ok [OF assms(1)])
  have st: "g_stat h p = SSTOP" "\<not> p_strc (g_x h) p" "p_wchan (g_proc h p) = p_wchan (g_proc g p)" using assms(3,4) hx by simp_all
  have "psignal p 19 g = psignal_react act p 19 h" using a cont_facts by (simp add: psignal_eq tty_dropped_def Let_def h_def)
  also have "\<dots> = psignal_stopped act p 19 h" using st cont_facts by (simp add: psignal_react_def)
  finally have e: "psignal p 19 g = psignal_stopped act p 19 h" .
  define h1 where "h1 = (if act = A_DFL then clrsig p (sigmask 19) h else h)"
  have ok1: "g_ok h1" using ok clrsig_ok(1) by (simp add: h1_def)
  have h1x: "g_x h1 = g_x g" using hx by (simp add: h1_def)
  have pend: "p_sig (g_sigs h1 p) AND stopsigmask = 0" "bit (p_sig (g_sigs h1 p)) 18 \<longleftrightarrow> act \<noteq> A_DFL"
    by (auto simp: h1_def hs and_zero_iff bit_and_iff bit_or_iff bit_not_iff sigmask_bit stop_cont_bits)
  have run: "\<exists>g'. run_now fast p h1 = Done g' \<and> g_ok g' \<and> runs p h1 g' \<and> g_sigs g' = g_sigs h1" for fast
    using run_now_ok [OF ok1, of p fast] assms(4) h1x by auto
  obtain g' where g': "psignal_stopped act p 19 h = Done g'" "g_ok g'" "g_sigs g' = g_sigs h1"
    "g_stat g' p = (if p_wchan (g_proc g p) = 0 \<or> act = A_CATCH then SRUN else SSLEEP)"
    "g_stat g' p \<noteq> SRUN \<longrightarrow> p_wchan (g_proc g' p) = p_wchan (g_proc g p)"
  proof (cases "p_wchan (g_proc g p) = 0 \<or> act = A_CATCH")
    case True
    then have "psignal_stopped act p 19 h = run_now (act = A_CATCH) p h1"
      using st cont_facts by (cases "act = A_CATCH") (simp_all add: psignal_stopped_def Let_def h1_def)
    then show thesis using that run [of "act = A_CATCH"] True by (auto simp: runs_def)
  next
    case False
    let ?q = "pupd p (\<lambda>pr. pr\<lparr>sproc.p_stat := SSLEEP\<rparr>) (g_sched h1)"
    have r: "psignal_stopped act p 19 h = Done (put_q ?q h1)" using False st cont_facts h1x by (simp add: psignal_stopped_def Let_def h1_def)
    obtain k where k: "psignal_stopped act p 19 h = Done k" "g_ok k" using psignal_stopped_ok [OF ok st(1)] by blast
    then have okq: "g_ok (put_q ?q h1)" using r by simp
    show thesis by (rule that [OF r okq]) (use False h1x in auto)
  qed
  have "act = A_CATCH \<longleftrightarrow> \<not> bit (p_sigmask ?sp) 18 \<and> bit (p_sigcatch ?sp) 18" "act \<noteq> A_DFL \<longleftrightarrow> bit (p_sigmask ?sp) 18 \<or> bit (p_sigcatch ?sp) 18"
    by (auto simp: act_def)
  then show ?thesis using e g' pend untraced unfolding sigCONT_def by (intro exI [of _ g']) simp
qed

section \<open>An example\<close>

text \<open>The first process is stopped in its sleep.\<close>

definition gstop_demo :: gsys where
  "gstop_demo = put_q (pupd 11 (\<lambda>pr. pr\<lparr>sproc.p_stat := SSTOP\<rparr>) (g_sched gsys_demo)) gsys_demo"

lemma gsys_demo_ok: "g_ok gsys_demo"
proof -
  have "x_inv ext_demo (g_x gsys_demo)" using xsys_demo_inv by simp
  then show ?thesis by (rule x_inv_g_ok) (simp add: xsched_demo_def)
qed

lemma gstop_demo_sel:
  "g_stat gstop_demo 11 = SSTOP" "p_wchan (g_proc gstop_demo 11) = 11" "g_sigs gstop_demo p = sigproc_init" "\<not> p_strc (g_x gstop_demo) p"
  by (simp_all add: gstop_demo_def xsched_demo_def)

lemma gstop_demo_ok: "g_ok gstop_demo"
proof -
  have st: "g_stat gsys_demo 11 = SSLEEP" "g_curproc gsys_demo = 12" by (simp_all add: xsched_demo_def)
  then have "\<not> on_rq 11 (g_sched gsys_demo)" using off_queues [OF g_okD(1) [OF gsys_demo_ok]] by simp
  then have "syn_inv (g_sched gstop_demo)" using stat_inv [OF g_okD(1) [OF gsys_demo_ok]] by (simp add: gstop_demo_def)
  moreover have "same_frame gsys_demo gstop_demo" unfolding gstop_demo_def by (rule same_frame_put_q) simp
  moreover have "g_stat gstop_demo (g_curproc gstop_demo) \<notin> {SSLEEP, SSTOP}" by (simp add: gstop_demo_def xsched_demo_def)
  ultimately show ?thesis by (blast intro: g_ok_frame [OF gsys_demo_ok])
qed

theorem psignal_returns_witness:
  "\<exists>g'. psignal 12 SIGSTOP gsys_demo = Done g' \<and> syn_inv (g_sched g')"
proof -
  have "x_inv ext_demo (g_x gsys_demo)" "g_stat gsys_demo (g_curproc gsys_demo) \<notin> {SSLEEP, SSTOP}" using xsys_demo_inv by (simp_all add: xsched_demo_def)
  moreover have "jprocs (g_jobs gsys_demo) 12 = Some (jproc_demo 2 (Some 11) [])" "p_pid (jproc_demo 2 (Some 11) []) \<noteq> 0"
    by (simp_all add: jsys_demo_def jproc_demo_def)
  ultimately show ?thesis using psignal_returns [of ext_demo gsys_demo 12 _ SIGSTOP] by (auto simp: SIGSTOP_def)
qed

theorem sigkill_certain_witness:
  "\<exists>g'. psignal 11 sigKILL gstop_demo = Done g' \<and> g_stat g' 11 = SRUN \<and> bit (p_sig (g_sigs g' 11)) 8"
  using sigkill_certain [OF gstop_demo_ok, of 11] sigproc_init_ok by (auto simp: gstop_demo_sel)

theorem sigcont_resumes_witness:
  "\<exists>g'. psignal 11 sigCONT gstop_demo = Done g' \<and> g_stat g' 11 = SSLEEP \<and> p_wchan (g_proc g' 11) = 11 \<and> \<not> bit (p_sig (g_sigs g' 11)) 18"
  using sigcont_resumes [OF gstop_demo_ok, of 11] sigproc_init_ok
  by (auto simp: gstop_demo_sel sigproc_init_def sigproc_demo_def)

end
