(* ===== verification/Signal_Calls.thy ===== *)
theory Signal_Calls
  imports Signal_Props
begin

unbundle bit_operations_syntax

text \<open>
  The signal calls: whom \<open>kill\<close> reaches, the signal that \<open>issig\<close> chooses, what \<open>sigaction\<close> installs and
  reports, and what is left of the actions after \<open>execve\<close>.
\<close>

section \<open>Whom a signal reaches\<close>

lemma psignal_plain_other:
  assumes "psignal p sig g = Done g'" "sigprop sig AND SA_STOP = 0" "q \<noteq> p"
  shows "g_sigs g' q = g_sigs g q"
  using assms(1)
proof (cases rule: psignal_Done)
  case (3 act)
  then show ?thesis using assms(3) by (auto simp: quiet_def posted_sigs)
qed (use assms in auto)

lemma same_frame_parent: "same_frame g g' \<Longrightarrow> parent (g_jobs g') c = parent (g_jobs g) c"
proof -
  assume sf: "same_frame g g'"
  show ?thesis
  proof (cases "jprocs (g_jobs g) c")
    case None
    then have "jprocs (g_jobs g') c = None"
      using sf same_frame_jobs [OF same_frame_sym [OF sf], of c] by (metis option.distinct(1) option.exhaust)
    then show ?thesis using None by (simp add: parent_def)
  next
    case (Some pr)
    then show ?thesis using same_frame_jobs [OF sf Some] by (metis bind.bind_lunit parent_def)
  qed
qed

lemma stop_other:
  assumes "stop p sig g = Done g'" "q \<noteq> p" "parent (g_jobs g) p \<noteq> Some q"
  shows "g_sigs g' q = g_sigs g q"
  using assms(1)
proof (cases rule: stop_Done)
  case (2 pr g1)
  have "g_sigs g1 q = g_sigs g q" using 2(2,3) assms(3) psignal_plain_other [OF _ sigCHLD_no_stop] by (auto simp: parent_def)
  then show ?thesis using 2(5) by simp
qed simp

text \<open>Only the process itself and, if it stops, its parent see a signal.\<close>

lemma psignal_other:
  assumes "psignal p sig g = Done g'" "q \<noteq> p" "parent (g_jobs g) p \<noteq> Some q"
  shows "g_sigs g' q = g_sigs g q"
  using assms(1)
proof (cases rule: psignal_Done)
  case (2 act)
  then show ?thesis using assms(2) by (simp add: clear_stops_def promote_def)
next
  case (3 act)
  then show ?thesis using assms(2) by (auto simp: quiet_def posted_sigs)
next
  case (4 act)
  let ?h = "clrsig p (sigmask sig) (posted act p sig g)"
  have "same_frame g ?h" by (rule same_frame_trans [OF same_frame_posted same_frame_sig(1)])
  then have "parent (g_jobs ?h) p \<noteq> Some q" using assms(3) same_frame_parent by metis
  then have "g_sigs g' q = g_sigs ?h q" using stop_other [OF 4(5)] assms(2) by simp
  then show ?thesis using assms(2) by (simp add: posted_sigs)
qed simp

lemma same_frame_pgrp: "same_frame g g' \<Longrightarrow> get_pgrp c (g_jobs g') = get_pgrp c (g_jobs g)"
proof -
  assume sf: "same_frame g g'"
  have pg: "pgrps (g_jobs g') = pgrps (g_jobs g)" using sf by (simp add: same_frame_def)
  show ?thesis
  proof (cases "jprocs (g_jobs g) c")
    case None
    then have "jprocs (g_jobs g') c = None"
      using sf same_frame_jobs [OF same_frame_sym [OF sf], of c] by (metis option.distinct(1) option.exhaust)
    then show ?thesis using None by (simp add: get_pgrp_def deref_def)
  next
    case (Some pr)
    then obtain pr' where "jprocs (g_jobs g') c = Some pr'" "p_pgrp pr' = p_pgrp pr" using same_frame_jobs [OF sf Some] by blast
    then show ?thesis using Some pg by (simp add: get_pgrp_def)
  qed
qed

lemma same_frame_cansignal: "same_frame g g' \<Longrightarrow> cansignal cp q sig g' = cansignal cp q sig g"
proof -
  assume sf: "same_frame g g'"
  have "x_creds (g_x g') = x_creds (g_x g)" using sf by (simp add: same_frame_def)
  then show ?thesis unfolding cansignal_def by (simp only: same_frame_pgrp [OF sf])
qed

text \<open>A process that a signal for \<open>c\<close> can show on.\<close>

definition shows_on :: "gsys \<Rightarrow> nat \<Rightarrow> nat \<Rightarrow> bool" where
  "shows_on g c q \<longleftrightarrow> c = q \<or> parent (g_jobs g) c = Some q"

lemma kill_list_reaches:
  assumes "kill_list skip sig ps n g = Done (m, g')"
    and "\<And>c h. c \<in> set ps \<Longrightarrow> same_frame g h \<Longrightarrow> skip c h = Done False \<Longrightarrow> C c"
  shows "n \<le> m \<and> (m = n \<or> sig = 0 \<longrightarrow> g' = g) \<and> (\<forall>q. g_sigs g' q \<noteq> g_sigs g q \<longrightarrow> (\<exists>c. shows_on g c q \<and> C c))"
  using assms
proof (induction skip sig ps n g arbitrary: m g' rule: kill_list.induct)
  case (2 skip sig p ps n g)
  obtain s where s: "skip p g = Done s"
    "(if s then kill_list skip sig ps n g else kbind (if sig \<noteq> 0 then psignal p sig g else Done g) (kill_list skip sig ps (n + 1))) = Done (m, g')"
    using 2(3) by (auto simp: kbind_Done_iff)
  show ?case
  proof (cases s)
    case True
    then show ?thesis using 2(1) [OF s(1), of m g'] s(2) 2(4) by auto
  next
    case False
    then obtain g1 where g1: "(if sig \<noteq> 0 then psignal p sig g else Done g) = Done g1" "kill_list skip sig ps (n + 1) g1 = Done (m, g')"
      using s(2) by (auto simp: kbind_Done_iff)
    have sf: "same_frame g g1" using g1(1) psignal_frame by (auto split: if_splits)
    have C: "C p" using 2(4) [of p g] s(1) False by simp
    have C': "\<And>c h. c \<in> set ps \<Longrightarrow> same_frame g1 h \<Longrightarrow> skip c h = Done False \<Longrightarrow> C c" using 2(4) same_frame_trans [OF sf] by auto
    have ih: "n + 1 \<le> m \<and> (m = n + 1 \<or> sig = 0 \<longrightarrow> g' = g1) \<and> (\<forall>q. g_sigs g' q \<noteq> g_sigs g1 q \<longrightarrow> (\<exists>c. shows_on g1 c q \<and> C c))"
      by (rule 2(2) [OF s(1) _ g1]) (use False C' in blast)+
    have one: "g_sigs g1 q = g_sigs g q \<or> shows_on g p q" for q
      using g1(1) psignal_other [of p sig g g1 q] by (auto simp: shows_on_def split: if_splits)
    have "shows_on g1 c q \<longleftrightarrow> shows_on g c q" for c q using same_frame_parent [OF sf] by (simp add: shows_on_def)
    then have "\<forall>q. g_sigs g' q \<noteq> g_sigs g q \<longrightarrow> (\<exists>c. shows_on g c q \<and> C c)" using ih one C by metis
    then show ?thesis using ih g1(1) by auto
  qed
qed simp

text \<open>
  The processes \<open>kill\<close> may send to, by its first argument: the process of that number, the members of the
  caller's group (0) or of the group of the negated number, or the list of all processes (-1).
\<close>

definition kill_selects :: "nat \<Rightarrow> int \<Rightarrow> gsys \<Rightarrow> nat \<Rightarrow> bool" where
  "kill_selects cp pid g c \<longleftrightarrow>
     (if 0 < pid then pfind pid (g_jobs g) = Some c
      else if pid = 0 then \<exists>a G. get_pgrp cp (g_jobs g) = Done (a, G) \<and> c \<in> set (pg_mem G)
      else if pid = -1 then c \<in> set (allproc (x_rsys (g_x g))) \<and> c \<noteq> cp
      else \<exists>a G. pgfind (- pid) (g_jobs g) = Some a \<and> pgrps (g_jobs g) a = Some G \<and> c \<in> set (pg_mem G))"

definition may_kill :: "nat \<Rightarrow> int \<Rightarrow> nat \<Rightarrow> gsys \<Rightarrow> nat \<Rightarrow> bool" where
  "may_kill cp pid sig g c \<longleftrightarrow> kill_selects cp pid g c \<and> cansignal cp c sig g = Done True \<and>
     (pid \<le> 0 \<longrightarrow> \<not> p_ssys (g_sigs g c) \<and> (\<exists>pr. jprocs (g_jobs g) c = Some pr \<and> p_pid pr \<noteq> 1))"

lemma same_frame_may:
  assumes "same_frame g h" "cansignal cp c sig h = Done True" "\<not> p_ssys (g_sigs h c)" "jprocs (g_jobs h) c = Some pr" "p_pid pr \<noteq> 1" "pid \<le> 0" "kill_selects cp pid g c"
  shows "may_kill cp pid sig g c"
proof -
  obtain pr0 where "jprocs (g_jobs g) c = Some pr0" "p_pid pr0 = p_pid pr" using same_frame_jobs [OF same_frame_sym [OF assms(1)] assms(4)] by blast
  moreover have "p_ssys (g_sigs h c) = p_ssys (g_sigs g c)"
  proof -
    have "(g_sigs h c)\<lparr>p_sig := 0\<rparr> = (g_sigs g c)\<lparr>p_sig := 0\<rparr>" using assms(1) by (simp add: same_frame_def)
    then have "p_ssys ((g_sigs h c)\<lparr>p_sig := 0\<rparr>) = p_ssys ((g_sigs g c)\<lparr>p_sig := 0\<rparr>)" by (rule arg_cong)
    then show ?thesis by simp
  qed
  ultimately show ?thesis using assms same_frame_cansignal [OF assms(1)] by (simp add: may_kill_def)
qed

lemma killpg_reaches:
  assumes "killpg cp sig pgid all g = Done (e, g')" "pid \<le> 0" "all \<longleftrightarrow> pid = -1" "pid \<noteq> -1 \<longrightarrow> pgid = - pid"
  shows "(e = 0 \<or> e = ESRCH) \<and> (e \<noteq> 0 \<or> sig = 0 \<longrightarrow> g' = g) \<and> (\<forall>q. g_sigs g' q \<noteq> g_sigs g q \<longrightarrow> (\<exists>c. shows_on g c q \<and> may_kill cp pid sig g c))"
proof -
  let ?fin = "kmap (\<lambda>(n :: nat, g'). (if n \<noteq> 0 then 0 else ESRCH, g'))"
  have fin: "(e = 0 \<or> e = ESRCH) \<and> (e \<noteq> 0 \<or> sig = 0 \<longrightarrow> g' = g) \<and> (\<forall>q. g_sigs g' q \<noteq> g_sigs g q \<longrightarrow> (\<exists>c. shows_on g c q \<and> may_kill cp pid sig g c))"
    if k: "?fin (kill_list skip sig ps 0 g) = Done (e, g')" and C: "\<And>c h. c \<in> set ps \<Longrightarrow> same_frame g h \<Longrightarrow> skip c h = Done False \<Longrightarrow> may_kill cp pid sig g c"
    for skip ps
  proof -
    obtain n where n: "kill_list skip sig ps 0 g = Done (n, g')" "e = (if n \<noteq> 0 then 0 else ESRCH)" using k by (auto simp: kmap_Done_iff)
    show ?thesis using kill_list_reaches [OF n(1) C] n(2) by (auto simp: ESRCH_def)
  qed
  have C1: "may_kill cp pid sig g c" if "c \<in> set (allproc (x_rsys (g_x g)))" "same_frame g h" "skip_all cp sig c h = Done False" "pid = -1" for c h
    using that(1,3,4)
    by (auto simp: skip_all_def kbind_Done_iff kmap_Done_iff deref_def kill_selects_def intro!: same_frame_may [OF that(2)] split: if_splits option.splits)
  have C2: "may_kill cp pid sig g c" if "same_frame g h" "skip_group cp sig c h = Done False" "kill_selects cp pid g c" for c h
    using that(2,3) assms(2) by (auto simp: skip_group_def kbind_Done_iff kmap_Done_iff deref_def intro!: same_frame_may [OF that(1)] split: if_splits option.splits)
  show ?thesis
  proof (cases all)
    case True
    then show ?thesis using fin [OF _ C1] assms(1,3) by (simp add: killpg_def Let_def)
  next
    case False
    then obtain og where og: "(if pgid = 0 then kmap (\<lambda>(a, G). Some a) (get_pgrp cp (g_jobs g)) else Done (pgfind pgid (g_jobs g))) = Done og"
        "(case og of None \<Rightarrow> Done (ESRCH, g)
        | Some a \<Rightarrow> kbind (deref (pgrps (g_jobs g) a)) (\<lambda>G. ?fin (kill_list (skip_group cp sig) sig (pg_mem G) 0 g))) = Done (e, g')"
      using assms(1) by (simp only: killpg_def Let_def False if_False kbind_Done_iff) blast
    show ?thesis
    proof (cases og)
      case None
      then show ?thesis using og by (auto simp: ESRCH_def)
    next
      case (Some a)
      obtain G :: pgrp where G: "pgrps (g_jobs g) a = Some G" "?fin (kill_list (skip_group cp sig) sig (pg_mem G) 0 g) = Done (e, g')"
        using og(2) by (simp only: Some option.case kbind_Done_iff deref_Done_iff) (elim exE conjE, rule that)
      have "kill_selects cp pid g c" if "c \<in> set (pg_mem G)" for c
      proof (cases "pid = 0")
        case True
        then have "get_pgrp cp (g_jobs g) = Done (a, G)" using og(1) Some G(1) assms(4) False assms(3) by (auto simp: kmap_Done_iff kbind_Done_iff deref_Done_iff get_pgrp_def)
        then show ?thesis using that True by (simp add: kill_selects_def)
      next
        case z: False
        then have "pgfind (- pid) (g_jobs g) = Some a" using og(1) Some assms(3,4) False by (simp split: if_splits)
        then show ?thesis using that z G(1) assms(2,3) False by (auto simp: kill_selects_def)
      qed
      then show ?thesis by (intro fin [OF G(2)] C2)
    qed
  qed
qed

text \<open>
  C15: \<open>kill\<close> reaches only processes the caller may signal.  It returns 0, \<open>EINVAL\<close>, \<open>ESRCH\<close> or
  \<open>EPERM\<close>, and with an error, or with the signal 0, it changes nothing.  Otherwise the signal state of a
  process changes only if the process, or a child whose stop it is told of, is one that the caller's
  credentials or session let it signal, and that the first argument selects: the process of that
  number; for 0 a member of the caller's group; for -1 a process on the list of all processes, but the
  caller; for another negative number a member of the group of that number, negated; and for a group or
  a broadcast never a system process or \<open>init\<close>.
\<close>

theorem kill_permitted:
  assumes "kill cp pid signo g = Done (e, g')"
  shows "e \<in> {0, EINVAL, ESRCH, EPERM} \<and> (e \<noteq> 0 \<or> signo = 0 \<longrightarrow> g' = g) \<and>
    (\<forall>q. g_sigs g' q \<noteq> g_sigs g q \<longrightarrow> (\<exists>c. (c = q \<or> parent (g_jobs g) c = Some q) \<and> may_kill cp pid (nat signo) g c))"
proof -
  have pg: "(e = 0 \<or> e = ESRCH) \<and> (e \<noteq> 0 \<or> signo = 0 \<longrightarrow> g' = g) \<and>
      (\<forall>q. g_sigs g' q \<noteq> g_sigs g q \<longrightarrow> (\<exists>c. shows_on g c q \<and> may_kill cp pid (nat signo) g c))"
    if "killpg cp (nat signo) pgid all g = Done (e, g')" "pid \<le> 0" "all \<longleftrightarrow> pid = -1" "pid \<noteq> -1 \<longrightarrow> pgid = - pid" for pgid all
    using killpg_reaches [OF that] by auto
  consider "signo < 0 \<or> int NSIG \<le> signo" | "\<not> (signo < 0 \<or> int NSIG \<le> signo)" "0 < pid" | "\<not> (signo < 0 \<or> int NSIG \<le> signo)" "pid \<le> 0" by linarith
  then show ?thesis
  proof cases
    case 1
    then show ?thesis using assms by (simp add: kill_def EINVAL_def)
  next
    case 2
    show ?thesis
    proof (cases "pfind pid (g_jobs g)")
      case None
      then show ?thesis using assms 2 by (simp add: kill_def)
    next
      case (Some p)
      then obtain can where can: "cansignal cp p (nat signo) g = Done can"
        "(if \<not> can then Done (EPERM, g) else kmap (Pair 0) (if nat signo \<noteq> 0 then psignal p (nat signo) g else Done g)) = Done (e, g')"
        using assms 2 by (auto simp: kill_def Let_def kbind_Done_iff)
      show ?thesis
      proof (cases can)
        case True
        then have m: "may_kill cp pid (nat signo) g p" using can(1) 2 Some by (simp add: may_kill_def kill_selects_def)
        have e: "e = 0" "(if nat signo \<noteq> 0 then psignal p (nat signo) g else Done g) = Done g'" using can(2) True by (auto simp: kmap_Done_iff)
        then have "q = p \<or> parent (g_jobs g) p = Some q" if "g_sigs g' q \<noteq> g_sigs g q" for q
          using that psignal_other [of p "nat signo" g g' q] by (auto split: if_splits)
        then show ?thesis using e m by auto
      qed (use can in auto)
    qed
  next
    case 3
    then show ?thesis using assms pg unfolding shows_on_def by (auto simp: kill_def Let_def split: if_splits)
  qed
qed

section \<open>The signal that is taken\<close>

text \<open>
  What \<open>issig\<close> has to do with signal \<open>n + 1\<close> in a process whose group has \<open>jc\<close> members under job control;
  \<open>w\<close> tells whether the process is a child of \<open>vfork\<close> whose parent waits.  The signal is looked at if it
  is pending and neither blocked nor, in such a child, a stop signal.  Then it stops the process if its
  action is the default and that is to stop, unless a terminal's stop signal comes to an orphaned group;
  and it is returned if it is caught, or has a default action other than to stop or to ignore.  A
  system process takes no default action.
\<close>

definition looked_at :: "sigproc \<Rightarrow> bool \<Rightarrow> nat \<Rightarrow> bool" where
  "looked_at sp w n \<longleftrightarrow> bit (p_sig sp) n \<and> \<not> bit (p_sigmask sp) n \<and> \<not> (w \<and> bit stopsigmask n)"

definition halts :: "sigproc \<Rightarrow> int \<Rightarrow> nat \<Rightarrow> bool" where
  "halts sp jc n \<longleftrightarrow> ps_sigact sp (n + 1) = SIG_DFL \<and> \<not> p_ssys sp \<and> sigprop (n + 1) AND SA_STOP \<noteq> 0 \<and>
     (sigprop (n + 1) AND SA_TTYSTOP \<noteq> 0 \<longrightarrow> jc \<noteq> 0)"

definition takes :: "sigproc \<Rightarrow> nat \<Rightarrow> bool" where
  "takes sp n \<longleftrightarrow> ps_sigact sp (n + 1) \<noteq> SIG_IGN \<and>
     (ps_sigact sp (n + 1) = SIG_DFL \<longrightarrow> \<not> p_ssys sp \<and> sigprop (n + 1) AND SA_STOP = 0 \<and> sigprop (n + 1) AND SA_IGNORE = 0)"

definition deliverable :: "sigproc \<Rightarrow> int \<Rightarrow> bool \<Rightarrow> nat \<Rightarrow> bool" where
  "deliverable sp jc w n \<longleftrightarrow> looked_at sp w n \<and> (halts sp jc n \<or> takes sp n)"

lemma sig_pending_iff: "bit (sig_pending p g) n \<longleftrightarrow> looked_at (g_sigs g p) (p_sppwait (g_x g) p) n"
  by (auto simp: sig_pending_def looked_at_def Let_def bit_and_iff bit_not_iff dest: bit_imp_le_length)

lemma clrsig_bit:
  assumes "0 < sig" "sig \<le> 32"
  shows "bit (p_sig (g_sigs (clrsig p (sigmask sig) g) p)) n \<longleftrightarrow> bit (p_sig (g_sigs g p)) n \<and> n \<noteq> sig - 1"
  using assms by (auto simp: bit_and_iff bit_not_iff sigmask_bit dest: bit_imp_le_length)

text \<open>What a pass of \<open>issig\<close> leaves: the signals it looked at and did not deliver are gone.\<close>

definition passed :: "nat \<Rightarrow> bool \<Rightarrow> nat \<Rightarrow> gsys \<Rightarrow> gsys \<Rightarrow> bool" where
  "passed p w s g h \<longleftrightarrow> g_x h = g_x g \<and> (\<forall>q. q \<noteq> p \<longrightarrow> g_sigs h q = g_sigs g q) \<and> (g_sigs h p)\<lparr>p_sig := 0\<rparr> = (g_sigs g p)\<lparr>p_sig := 0\<rparr> \<and>
     (\<forall>n. bit (p_sig (g_sigs h p)) n \<longleftrightarrow> bit (p_sig (g_sigs g p)) n \<and> (\<not> looked_at (g_sigs g p) w n \<or> s \<noteq> 0 \<and> s - 1 \<le> n))"

definition least_deliverable :: "sigproc \<Rightarrow> int \<Rightarrow> bool \<Rightarrow> nat \<Rightarrow> bool" where
  "least_deliverable sp jc w s \<longleftrightarrow>
     (if \<exists>n. deliverable sp jc w n then 0 < s \<and> deliverable sp jc w (s - 1) \<and> (\<forall>n. deliverable sp jc w n \<longrightarrow> s - 1 \<le> n) else s = 0)"

lemma passed_skip:
  assumes "passed p w s (clrsig p (sigmask k) g) h" "least_deliverable (g_sigs (clrsig p (sigmask k) g) p) jc w s" "0 < k" "k \<le> 32"
    "\<not> deliverable (g_sigs g p) jc w (k - 1)" "looked_at (g_sigs g p) w (k - 1)" "\<And>n. n < k - 1 \<Longrightarrow> \<not> looked_at (g_sigs g p) w n"
  shows "passed p w s g h" "least_deliverable (g_sigs g p) jc w s"
proof -
  let ?c = "g_sigs (clrsig p (sigmask k) g) p"
  note cb = clrsig_bit [OF assms(3,4), of p g]
  have lk: "looked_at ?c w n \<longleftrightarrow> looked_at (g_sigs g p) w n \<and> n \<noteq> k - 1" for n
    using cb [of n] by (auto simp: looked_at_def)
  have "halts ?c jc n = halts (g_sigs g p) jc n" "takes ?c n = takes (g_sigs g p) n" for n by (simp_all add: halts_def takes_def)
  then have d: "deliverable ?c jc w n \<longleftrightarrow> deliverable (g_sigs g p) jc w n" for n
    using assms(5) lk [of n] by (auto simp: deliverable_def)
  then show l: "least_deliverable (g_sigs g p) jc w s" using assms(2) by (simp only: least_deliverable_def)
  have "k - 1 < s - 1" if "s \<noteq> 0"
  proof -
    have "deliverable (g_sigs g p) jc w (s - 1)" using l that by (auto simp: least_deliverable_def split: if_splits)
    then have "s - 1 \<noteq> k - 1" "looked_at (g_sigs g p) w (s - 1)" using assms(5) by (auto simp: deliverable_def)
    then show ?thesis using assms(7) [of "s - 1"] by linarith
  qed
  then have "bit (p_sig (g_sigs h p)) n \<longleftrightarrow> bit (p_sig (g_sigs g p)) n \<and> (\<not> looked_at (g_sigs g p) w n \<or> s \<noteq> 0 \<and> s - 1 \<le> n)" for n
    using assms(1,6) cb [of n] lk [of n] unfolding passed_def by (cases "n = k - 1") auto
  then show "passed p w s g h" using assms(1) unfolding passed_def by simp
qed

definition issig_end :: "nat \<Rightarrow> int \<Rightarrow> nat \<Rightarrow> gsys \<Rightarrow> issig_out kres" where
  "issig_end p jc s h = (if s \<noteq> 0 \<and> halts (g_sigs h p) jc (s - 1) then kmap (Stopped s) (stop p s h) else Done (Issig s h))"

lemma stop_not_ignored:
  assumes "sig < 32" "sigprop sig AND SA_STOP \<noteq> 0"
  shows "sigprop sig AND SA_IGNORE = 0"
proof -
  have "\<forall>sig \<in> set [0..<32]. sigprop sig AND SA_STOP \<noteq> 0 \<longrightarrow> sigprop sig AND SA_IGNORE = 0" by code_simp
  then show ?thesis using assms by simp
qed

lemma issig_passes:
  assumes "sig_wf (g_sigs g p)" "\<not> (p_strc (g_x g) p \<and> \<not> p_sppwait (g_x g) p)" "get_pgrp p (g_jobs g) = Done (a, G)"
  shows "\<exists>s h. issig p g = issig_end p (pg_jobc G) s h \<and> least_deliverable (g_sigs g p) (pg_jobc G) (p_sppwait (g_x g) p) s \<and>
    passed p (p_sppwait (g_x g) p) s g h"
  using assms
proof (induction p g rule: issig.induct)
  case (1 p g)
  let ?sp = "g_sigs g p" and ?m = "sig_pending p g" and ?w = "p_sppwait (g_x g) p" and ?jc = "pg_jobc G"
  let ?s = "ffs ?m"
  let ?c = "clrsig p (sigmask ?s) g"
  note pend = sig_pending_iff [where p = p and g = g]
  show ?case
  proof (cases "?m = 0")
    case True
    then have none: "\<not> looked_at ?sp ?w n" for n using pend [of n] by simp
    then have "least_deliverable ?sp ?jc ?w 0" by (auto simp: least_deliverable_def deliverable_def)
    moreover have "passed p ?w 0 g g" using none by (auto simp: passed_def)
    moreover have "issig p g = issig_end p ?jc 0 g" using True by (simp add: issig.simps [of p g] issig_end_def Let_def)
    ultimately show ?thesis by blast
  next
    case m: False
    note f = ffs_bit [OF m]
    have low: "\<not> looked_at ?sp ?w n" if "n < ?s - 1" for n using f(4) [OF that] pend [of n] by blast
    have at: "looked_at ?sp ?w (?s - 1)" using f(3) pend by blast
    then have "?s - 1 \<noteq> 31" using sig_wfD(3) [OF 1(3)] unfolding looked_at_def by metis
    then have s: "0 < ?s" "?s < 32" using f(1,2) by auto
    then have s1: "?s - 1 + 1 = ?s" by simp
    have w: "sig_wf (g_sigs ?c p)" using wf.clear [OF 1(3)] by simp
    have c: "\<not> (p_strc (g_x ?c) p \<and> \<not> p_sppwait (g_x ?c) p)" "get_pgrp p (g_jobs ?c) = Done (a, G)" using 1(4,5) by simp_all
    have cw: "p_sppwait (g_x ?c) p = ?w" by simp
    have ign: "sigmask ?s AND p_sigignore ?sp \<noteq> 0 \<longleftrightarrow> bit (p_sigignore ?sp) (?s - 1)" using sig_bit [OF s, of "p_sigignore ?sp"] by (simp add: and.commute)
    have dis: "disposed ?sp (?s - 1)" by (rule sig_wfD(1) [OF 1(3)])
    have st: "sigprop ?s AND SA_STOP \<noteq> 0 \<longleftrightarrow> bit stopsigmask (?s - 1)" using sigprop_masks(1) [OF s(2)] s by simp
    have tr: "\<not> p_strc (g_x g) p" if "sigprop ?s AND SA_STOP \<noteq> 0" using that st at 1(4) by (auto simp: looked_at_def)
    have v: "issig_verdict p ?s (sigprop ?s) g = Done (if halts ?sp ?jc (?s - 1) then Halt else if takes ?sp (?s - 1) then Take else Drop)"
      using 1(5) tr s by (auto simp: issig_verdict_def halts_def takes_def Let_def NSIG_def SIG_DFL_def SIG_IGN_def)
    have skip: "\<exists>s h. issig p ?c = issig_end p ?jc s h \<and> least_deliverable ?sp ?jc ?w s \<and> passed p ?w s g h"
      if ih: "\<exists>s h. issig p ?c = issig_end p ?jc s h \<and> least_deliverable (g_sigs ?c p) ?jc (p_sppwait (g_x ?c) p) s \<and> passed p (p_sppwait (g_x ?c) p) s ?c h"
        and "\<not> deliverable ?sp ?jc ?w (?s - 1)"
      using ih [unfolded cw] passed_skip [OF _ _ s(1) less_imp_le [OF s(2)] that(2) at low] by blast
    have t: "\<not> (p_strc (g_x g) p \<and> \<not> p_sppwait (g_x g) p)" by (rule 1(4))
    have e: "issig p g = (case (if halts ?sp ?jc (?s - 1) then Halt else if takes ?sp (?s - 1) then Take else Drop) of
          Take \<Rightarrow> Done (Issig ?s g) | Halt \<Rightarrow> kmap (Stopped ?s) (stop p ?s g) | Drop \<Rightarrow> issig p ?c)"
      if "\<not> (sigmask ?s AND p_sigignore ?sp \<noteq> 0 \<and> \<not> p_strc (g_x g) p)"
      by (subst issig.simps) (simp only: Let_def m that t v if_False kbind.simps)
    show ?thesis
    proof (cases "deliverable ?sp ?jc ?w (?s - 1)")
      case True
      then have ht: "halts ?sp ?jc (?s - 1) \<or> takes ?sp (?s - 1)" by (simp add: deliverable_def)
      then have ni: "\<not> bit (p_sigignore ?sp) (?s - 1)" using dis s stop_not_ignored [OF s(2)] by (auto simp: disposed_def halts_def takes_def SIG_DFL_def SIG_IGN_def)
      have r: "issig p g = issig_end p ?jc ?s g" using e ni ign ht s by (auto simp: issig_end_def)
      have "?s - 1 \<le> n" if "looked_at ?sp ?w n" for n using low [of n] that by (meson not_le)
      then have "passed p ?w ?s g g" using s by (auto simp: passed_def)
      moreover have "least_deliverable ?sp ?jc ?w ?s" using True s low unfolding least_deliverable_def deliverable_def by (metis not_le)
      ultimately show ?thesis using r by blast
    next
      case nd: False
      show ?thesis
      proof (cases "sigmask ?s AND p_sigignore ?sp \<noteq> 0 \<and> \<not> p_strc (g_x g) p")
        case i: True
        show ?thesis using skip [OF 1(1) [OF refl refl refl m i w c] nd] m i by (simp add: issig.simps [of p g] Let_def)
      next
        case i: False
        have d: "issig_verdict p ?s (sigprop ?s) g = Done Drop" using v nd at by (simp add: deliverable_def)
        have "issig p g = issig p ?c" using e [OF i] nd at by (simp add: deliverable_def)
        then show ?thesis using skip [OF 1(2) [OF refl refl refl m i t d refl w c] nd] by simp
      qed
    qed
  qed
qed

text \<open>
  C27: \<open>issig\<close> chooses as the specification says, in any process that does not stop for a tracer (it is
  not traced, or its parent waits in \<open>vfork\<close>), whose group is known and whose signal sets agree with its
  table of actions (\<open>sig_wf\<close>, an invariant).  Of the signals that are pending, not blocked, not masked by
  the wait of \<open>vfork\<close>, and that would be taken or stop the process, the least decides: if its default
  action stops the process, it stops there; otherwise \<open>issig\<close> returns it, and 0 exactly if there is none.
  It discards the signals it looked at before that one and no other, and changes nothing else before a stop.
\<close>

theorem issig_least:
  assumes "sig_wf (g_sigs g p)" "\<not> (p_strc (g_x g) p \<and> \<not> p_sppwait (g_x g) p)" "get_pgrp p (g_jobs g) = Done (a, G)"
    and D: "D = deliverable (g_sigs g p) (pg_jobc G) (p_sppwait (g_x g) p)"
  shows "\<exists>s h. issig p g = (if s \<noteq> 0 \<and> halts (g_sigs g p) (pg_jobc G) (s - 1) then kmap (Stopped s) (stop p s h) else Done (Issig s h)) \<and>
    (if \<exists>n. D n then 0 < s \<and> D (s - 1) \<and> (\<forall>n. D n \<longrightarrow> s - 1 \<le> n) else s = 0) \<and>
    g_x h = g_x g \<and> (\<forall>q. q \<noteq> p \<longrightarrow> g_sigs h q = g_sigs g q) \<and> (g_sigs h p)\<lparr>p_sig := 0\<rparr> = (g_sigs g p)\<lparr>p_sig := 0\<rparr> \<and>
    (\<forall>n. bit (p_sig (g_sigs h p)) n \<longleftrightarrow>
       bit (p_sig (g_sigs g p)) n \<and> (\<not> looked_at (g_sigs g p) (p_sppwait (g_x g) p) n \<or> s \<noteq> 0 \<and> s - 1 \<le> n))"
proof -
  obtain s h where r: "issig p g = issig_end p (pg_jobc G) s h" "least_deliverable (g_sigs g p) (pg_jobc G) (p_sppwait (g_x g) p) s"
    "passed p (p_sppwait (g_x g) p) s g h" using issig_passes [OF assms(1-3)] by blast
  have "halts (g_sigs h p) (pg_jobc G) (s - 1) = halts ((g_sigs h p)\<lparr>p_sig := 0\<rparr>) (pg_jobc G) (s - 1)" by (simp add: halts_def)
  also have "\<dots> = halts (g_sigs g p) (pg_jobc G) (s - 1)" using r(3) by (simp add: passed_def) (simp add: halts_def)
  finally have hh: "halts (g_sigs h p) (pg_jobc G) (s - 1) = halts (g_sigs g p) (pg_jobc G) (s - 1)" .
  show ?thesis unfolding D
    by (rule exI [of _ s], rule exI [of _ h]) (use r(1) [unfolded issig_end_def hh] r(2) [unfolded least_deliverable_def] r(3) [unfolded passed_def] in blast)
qed

section \<open>Actions\<close>

lemma set_if_test: "0 < sig \<Longrightarrow> sig < 32 \<Longrightarrow> 0 < k \<Longrightarrow> k < 32 \<Longrightarrow>
    set_if c (sigmask sig) s AND sigmask k = 0 \<longleftrightarrow> (if k = sig then \<not> c else s AND sigmask k = 0)"
  by (auto simp: sig_bit set_if_bit)

text \<open>
  \<open>sigaction\<close> with a new action fails exactly for a number that is not a signal, for \<open>SIGKILL\<close> and
  \<open>SIGSTOP\<close>, for a handler that cannot be read, or for a failed copy, and then changes nothing.
  Otherwise what a later \<open>sigaction\<close> reports of the signal is the handler, the mask less \<open>SIGKILL\<close> and
  \<open>SIGSTOP\<close>, and the flags that were asked for; what it reports of another signal is as before, apart
  from the flag \<open>SA_NOCLDSTOP\<close>, which belongs to the process; and a pending instance is kept unless the new
  action ignores the signal.
\<close>

theorem sigaction_reports:
  assumes "0 < signo" "signo < int NSIG" "copy_if osa (sigact_get (nat signo) (g_sigs g p)) = 0"
    and "nat signo \<noteq> sigKILL" "nat signo \<noteq> SIGSTOP" "sa_handler sa \<in> {SIG_DFL, SIG_IGN, BADSIG} \<or> e_access env p (sa_handler sa)"
  shows "\<exists>g'. sigaction env p signo (Some (Inr sa)) osa g = (0, g') \<and> g_x g' = g_x g \<and> (\<forall>q. q \<noteq> p \<longrightarrow> g_sigs g' q = g_sigs g q) \<and>
    sa_handler (sigact_get (nat signo) (g_sigs g' p)) = sa_handler sa \<and>
    sa_mask (sigact_get (nat signo) (g_sigs g' p)) = sa_mask sa AND NOT sigcantmask \<and>
    (\<forall>f \<in> {SA_ONSTACK, SA_RESTART}. sa_flags (sigact_get (nat signo) (g_sigs g' p)) AND f = sa_flags sa AND f) \<and>
    (\<forall>k. k \<noteq> nat signo \<longrightarrow> 0 < k \<longrightarrow> k < NSIG \<longrightarrow>
       (sigact_get k (g_sigs g' p))\<lparr>sa_flags := 0\<rparr> = (sigact_get k (g_sigs g p))\<lparr>sa_flags := 0\<rparr> \<and>
       sa_flags (sigact_get k (g_sigs g' p)) AND NOT SA_NOCLDSTOP = sa_flags (sigact_get k (g_sigs g p)) AND NOT SA_NOCLDSTOP) \<and>
    (\<forall>n. bit (p_sig (g_sigs g' p)) n \<longleftrightarrow> bit (p_sig (g_sigs g p)) n \<and>
       \<not> (n + 1 = nat signo \<and> (sa_handler sa = SIG_IGN \<or> sa_handler sa = SIG_DFL \<and> sigprop (nat signo) AND SA_IGNORE \<noteq> 0)))"
proof -
  define sig where "sig = nat signo"
  have sig: "0 < sig" "sig < 32" using assms(1,2) by (auto simp: sig_def NSIG_def)
  let ?sp = "g_sigs g p"
  let ?new = "sigact_set sig sa ?sp"
  define g' where "g' = upd_sig p (sigact_set sig sa) g"
  have c: "sigmask sig AND sigcantmask = 0" using cant_sigmask [OF sig] assms(4,5) by (simp add: sig_def)
  have ok: "\<not> (signo \<le> 0 \<or> int NSIG \<le> signo)" using assms(1,2) by simp
  have r: "sigaction env p signo (Some (Inr sa)) osa g = (0, g')"
    using ok assms(3,6) c by (auto simp: sigaction_def g'_def sig_def Let_def)
  have sets: "ps_sigintr ?new = set_if (sa_flags sa AND SA_RESTART = 0) (sigmask sig) (ps_sigintr ?sp)"
    "ps_sigonstack ?new = set_if (sa_flags sa AND SA_ONSTACK \<noteq> 0) (sigmask sig) (ps_sigonstack ?sp)"
    by (simp_all add: sigact_set_def Let_def)
  have fl: "sa_flags (sigact_get k sp) = (if ps_sigonstack sp AND sigmask k \<noteq> 0 then 1 else 0) OR (if ps_sigintr sp AND sigmask k = 0 then 2 else 0) OR
      (if p_snocldstop sp then 4 else 0)" for k sp
    by (simp add: sigact_get_def Let_def SA_ONSTACK_def SA_RESTART_def SA_NOCLDSTOP_def)
  have one: "v AND 1 = 0 \<or> v AND 1 = 1" "v AND 2 = 0 \<or> v AND 2 = 2" for v :: u32
  proof -
    have "bit (v AND 1) n = bit (if bit v 0 then 1 else 0 :: u32) n" for n by (cases "n = 0") (auto simp: bit_and_iff bit_1_iff)
    moreover have "bit (v AND 2) n = bit (if bit v 1 then 2 else 0 :: u32) n" for n by (cases "n = 1") (auto simp: bit_and_iff bit_2_iff)
    ultimately have "v AND 1 = (if bit v 0 then 1 else 0)" "v AND 2 = (if bit v 1 then 2 else 0)" by (auto intro: bit_word_eqI)
    then show "v AND 1 = 0 \<or> v AND 1 = 1" "v AND 2 = 0 \<or> v AND 2 = 2" by auto
  qed
  have flags: "\<forall>f \<in> {SA_ONSTACK, SA_RESTART}. sa_flags (sigact_get sig ?new) AND f = sa_flags sa AND f"
    using one [of "sa_flags sa"] by (auto simp: fl sets set_if_test sig SA_ONSTACK_def SA_RESTART_def)
  have other: "(sigact_get k ?new)\<lparr>sa_flags := 0\<rparr> = (sigact_get k ?sp)\<lparr>sa_flags := 0\<rparr>"
    "sa_flags (sigact_get k ?new) AND NOT SA_NOCLDSTOP = sa_flags (sigact_get k ?sp) AND NOT SA_NOCLDSTOP"
    if "k \<noteq> sig" "0 < k" "k < 32" for k
    using that by (simp_all add: fl sets set_if_test sig SA_NOCLDSTOP_def) (simp add: sigact_get_def Let_def sigact_set_sel)
  have "bit (p_sig ?new) n \<longleftrightarrow> bit (p_sig ?sp) n \<and> \<not> (n + 1 = sig \<and> (sa_handler sa = SIG_IGN \<or> sa_handler sa = SIG_DFL \<and> sigprop sig AND SA_IGNORE \<noteq> 0))" for n
    using sigact_set_bits(3) [OF sig] sig by auto
  then show ?thesis using r flags other unfolding sig_def [symmetric] NSIG_def
    by (intro exI [of _ g']) (auto simp: g'_def sigact_get_def Let_def sigact_set_sel)
qed

section \<open>A new program\<close>

lemma exec_loop_final:
  "p_sigcatch (exec_loop sp) = 0"
  "bit (p_sig (exec_loop sp)) n \<longleftrightarrow> bit (p_sig sp) n \<and> \<not> (bit (p_sigcatch sp) n \<and> sigprop (n + 1) AND SA_IGNORE \<noteq> 0)"
  "bit (p_sigignore (exec_loop sp)) n \<longleftrightarrow> bit (p_sigignore sp) n \<or> bit (p_sigcatch sp) n \<and> sigprop (n + 1) AND SA_IGNORE \<noteq> 0 \<and> n + 1 \<noteq> sigCONT"
  "ps_sigact (exec_loop sp) (n + 1) = (if bit (p_sigcatch sp) n then SIG_DFL else ps_sigact sp (n + 1))"
  "p_sigmask (exec_loop sp) = p_sigmask sp"
proof (induction sp rule: exec_loop.induct)
  case (1 sp)
  let ?k = "ffs (p_sigcatch sp)"
  { case 1
    then show ?case using "1.IH"(1) by (simp add: exec_loop.simps [of sp])
  next
    case 2
    show ?case
    proof (cases "p_sigcatch sp = 0")
      case False
      note f = ffs_bit [OF False] and b = exec_reset_bits [OF ffs_bit(1,2) [OF False]]
      show ?thesis using "1.IH"(2) [OF False] f b by (cases "n = ?k - 1") (auto simp: exec_loop.simps [of sp])
    qed (simp add: exec_loop.simps [of sp])
  next
    case 3
    show ?case
    proof (cases "p_sigcatch sp = 0")
      case False
      note f = ffs_bit [OF False] and b = exec_reset_bits [OF ffs_bit(1,2) [OF False]]
      show ?thesis using "1.IH"(3) [OF False] f b by (cases "n = ?k - 1") (auto simp: exec_loop.simps [of sp])
    qed (simp add: exec_loop.simps [of sp])
  next
    case 4
    show ?case
    proof (cases "p_sigcatch sp = 0")
      case False
      note f = ffs_bit [OF False] and b = exec_reset_bits [OF ffs_bit(1,2) [OF False]]
      show ?thesis using "1.IH"(4) [OF False] f b by (cases "n = ?k - 1") (auto simp: exec_loop.simps [of sp] exec_reset_sel)
    qed (simp add: exec_loop.simps [of sp])
  next
    case 5
    then show ?case using "1.IH"(5) by (simp add: exec_loop.simps [of sp] exec_reset_sel) }
qed

text \<open>
  C32: after \<open>execve\<close> no signal is caught: every caught signal has its default action, every other
  keeps its action, so that ignored signals stay ignored; blocked signals stay blocked, and pending
  ones pending, but for a caught one that its default action ignores.  The signal stack is gone, and no
  other process changes.
\<close>

theorem execsigs_resets:
  "p_sigcatch (g_sigs (execsigs p g) p) = 0 \<and> p_sigmask (g_sigs (execsigs p g) p) = p_sigmask (g_sigs g p) \<and>
    ps_onstack (g_sigs (execsigs p g) p) = 0 \<and> ps_sigonstack (g_sigs (execsigs p g) p) = 0 \<and> g_sched (execsigs p g) = g_sched g \<and>
    (\<forall>q. g_sigs (execsigs p g) q = (if q = p then g_sigs (execsigs p g) p else g_sigs g q)) \<and>
    (\<forall>n. ps_sigact (g_sigs (execsigs p g) p) (n + 1) = (if bit (p_sigcatch (g_sigs g p)) n then SIG_DFL else ps_sigact (g_sigs g p) (n + 1)) \<and>
      (bit (p_sigignore (g_sigs (execsigs p g) p)) n \<longleftrightarrow>
        bit (p_sigignore (g_sigs g p)) n \<or> bit (p_sigcatch (g_sigs g p)) n \<and> sigprop (n + 1) AND SA_IGNORE \<noteq> 0 \<and> n + 1 \<noteq> sigCONT) \<and>
      (bit (p_sig (g_sigs (execsigs p g) p)) n \<longleftrightarrow>
        bit (p_sig (g_sigs g p)) n \<and> \<not> (bit (p_sigcatch (g_sigs g p)) n \<and> sigprop (n + 1) AND SA_IGNORE \<noteq> 0)))"
  using exec_loop_final [of "g_sigs g p"] by (simp add: execsigs_def)

section \<open>Stopping an orphan\<close>

text \<open>
  \<open>SA_TTYSTOP\<close> contains \<open>SA_STOP\<close>, so that \<open>psignal\<close> takes \<open>SIGSTOP\<close> for a stop from the terminal: sent to
  a process of an orphaned group, it does nothing.
\<close>

lemma sigstop_orphan_dropped:
  assumes "sig_wf (g_sigs g p)" "\<not> p_strc (g_x g) p" "get_pgrp p (g_jobs g) = Done (a, G)" "pg_jobc G = 0"
  shows "psignal p SIGSTOP g = Done g"
proof -
  have "sig_action (g_sigs g p) (p_strc (g_x g) p) (sigmask 17) = Some A_DFL"
    using assms(2) sig_wfD(5,7,9) [OF assms(1)] by (simp add: sig_action_def sig_bit)
  moreover have "clear_stops (sigprop 17) p (promote A_DFL p 17 g) = g"
    by (simp add: clear_stops_def promote_def sigprop_few sa_defs sigKILL_def SIGTERM_def)
  moreover have "tty_dropped A_DFL p (sigprop 17) g = Done True" using assms(3,4) by (simp add: tty_dropped_def sigprop_few sa_defs)
  ultimately show ?thesis unfolding SIGSTOP_def by (simp add: psignal_eq Let_def)
qed

section \<open>Waiting for a signal\<close>

text \<open>A caught signal that is taken: the masks, and the frame, which holds the mask to go back to.\<close>

lemma g_exit_swexit: "g_exit p rv g = Done g' \<Longrightarrow> p_swexit (g_proc g' p)"
  using exit_flags [of p rv "g_x g"] by (auto simp: g_exit_def kmap_Done_iff)

lemma sigexit_swexit: "sigexit env p sig g = Done g' \<Longrightarrow> p_swexit (g_proc g' p)"
  using g_exit_swexit by (auto simp: sigexit_def Let_def kbind_Done_iff split: if_splits)

lemma psig_caught:
  assumes "psig env sig g = Done g'" "g_curproc g = p" "ps_sigact (g_sigs g p) sig \<notin> {SIG_DFL, SIG_IGN}" "\<not> p_swexit (g_proc g' p)"
  defines "sp \<equiv> g_sigs g p"
  defines "old \<equiv> if ps_flags sp AND SA_OLDMASK \<noteq> 0 then ps_oldmask sp else p_sigmask sp"
  shows "\<exists>t u. ps_onstack t = ps_onstack sp \<and> ps_sigonstack t = ps_sigonstack sp \<and> ps_sigsp t = ps_sigsp sp \<and> ps_flags t AND SA_OLDMASK = 0 \<and>
    p_sigmask t = p_sigmask sp OR (ps_catchmask sp sig OR sigmask sig) \<and> p_sig t = p_sig sp AND NOT (sigmask sig) \<and>
    cpu_signal (e_sigcode env) sig old t (g_mach g p) = (0, u, g_mach g' p) \<and> g_sigs g' p = u\<lparr>ps_code := 0\<rparr>"
proof -
  let ?b = "sigmask sig"
  let ?g1 = "clrsig p ?b g"
  let ?pause = "ps_flags sp AND SA_OLDMASK \<noteq> 0"
  let ?g2 = "if ?pause then upd_sig p (\<lambda>sp. sp\<lparr>ps_flags := ps_flags sp AND NOT SA_OLDMASK\<rparr>) ?g1 else ?g1"
  let ?g3 = "count_signal p (upd_sig p (block_more sig) ?g2)"
  have sig: "sig \<noteq> 0" using assms(1) by (auto simp: psig_def Let_def split: if_splits)
  have act: "ps_sigact (g_sigs g p) sig \<noteq> SIG_DFL" "ps_sigact (g_sigs g p) sig \<noteq> SIG_IGN" using assms(3) by auto
  have sel: "ps_flags (g_sigs ?g1 p) = ps_flags sp" "ps_oldmask (g_sigs ?g1 p) = ps_oldmask sp" "p_sigmask (g_sigs ?g1 p) = p_sigmask sp" by (simp_all add: sp_def)
  note r = assms(1) [unfolded psig_def Let_def assms(2) sel]
  have "kbind (send_frame env p sig old ?g3)
      (\<lambda>(e, g4). if e \<noteq> 0 then sigexit env p SIGILL g4 else Done (upd_sig p (\<lambda>sp. sp\<lparr>ps_code := 0\<rparr>) g4)) = Done g'"
    using r sig act by (simp only: if_False if_True old_def split: if_splits) simp_all
  then obtain e g4 where g4: "send_frame env p sig old ?g3 = Done (e, g4)"
      "(if e \<noteq> 0 then sigexit env p SIGILL g4 else Done (upd_sig p (\<lambda>sp. sp\<lparr>ps_code := 0\<rparr>) g4)) = Done g'"
    by (auto simp: kbind_Done_iff)
  have e: "e = 0" "g' = upd_sig p (\<lambda>sp. sp\<lparr>ps_code := 0\<rparr>) g4" using g4(2) assms(4) sigexit_swexit by (auto split: if_splits)
  let ?t = "g_sigs ?g3 p"
  have m: "g_mach ?g3 p = g_mach g p" by (simp add: count_signal_def)
  obtain u m' where u: "cpu_signal (e_sigcode env) sig old ?t (g_mach ?g3 p) = (0, u, m')" "g_sigs g4 p = u" "g_mach g4 p = m'"
    using g4(1) e(1) by (auto simp: send_frame_def split: prod.splits if_splits)
  have "ps_flags ?t AND SA_OLDMASK = 0" by (auto simp: count_signal_def block_more_def sp_def and_not_and)
  moreover have "p_sigmask ?t = p_sigmask sp OR (ps_catchmask sp sig OR ?b)" "p_sig ?t = p_sig sp AND NOT ?b"
    "ps_onstack ?t = ps_onstack sp" "ps_sigonstack ?t = ps_sigonstack sp" "ps_sigsp ?t = ps_sigsp sp"
    by (simp_all add: count_signal_def block_more_def sp_def)
  ultimately show ?thesis using u m e(2) by (intro exI [of _ ?t] exI [of _ u]) simp
qed

text \<open>
  C29: \<open>sigsuspend\<close> changes the mask for the wait only.  When a signal that the process catches ends
  the wait, the handler runs with the mask of the wait and what the handler blocks, and when it returns
  the process has the mask it had before the call, whatever was posted, taken or blocked meanwhile.
\<close>

theorem sigsuspend_mask:
  assumes "p_sigmask (g_sigs g p) AND sigcantmask = 0" "sigsuspend chan p msk g = Done g1"
    and "g_sigs g2 p = (g_sigs g1 p)\<lparr>p_sig := pend\<rparr>" "g_curproc g2 = p" "psig env sig g2 = Done g3" "\<not> p_swexit (g_proc g3 p)"
    and "ps_sigact (g_sigs g p) sig \<notin> {SIG_DFL, SIG_IGN}" "length (e_sigcode env) = 16"
    and "handler_back (frame_base sig (g_sigs g2 p) (g_mach g2 p)) (g_mach g3 p) (g_mach h p)" "user_flags (saved (g_mach g2 p) tEFLAGS sEFLAGS)"
  shows "p_sigmask (g_sigs g3 p) = (msk AND NOT sigcantmask) OR (ps_catchmask (g_sigs g p) sig OR sigmask sig) \<and>
    (\<exists>k. sigreturn p h = (EJUSTRETURN, k) \<and> p_sigmask (g_sigs k p) = p_sigmask (g_sigs g p))"
proof -
  let ?sp = "g_sigs g p"
  have s1: "g_sigs g1 p = ?sp\<lparr>ps_oldmask := p_sigmask ?sp, ps_flags := ps_flags ?sp OR SA_OLDMASK, p_sigmask := msk AND NOT sigcantmask\<rparr>"
    using assms(2) by (auto simp: sigsuspend_def Let_def kmap_Done_iff)
  have on: "(ps_flags ?sp OR SA_OLDMASK) AND SA_OLDMASK \<noteq> 0" by (auto simp: and_zero_iff SA_OLDMASK_def bit_or_iff bit_1_iff)
  have act: "ps_sigact (g_sigs g2 p) sig \<notin> {SIG_DFL, SIG_IGN}" using assms(3,7) s1 by simp
  obtain t u where t: "ps_onstack t = ps_onstack (g_sigs g2 p)" "ps_sigonstack t = ps_sigonstack (g_sigs g2 p)" "ps_sigsp t = ps_sigsp (g_sigs g2 p)"
      "p_sigmask t = (msk AND NOT sigcantmask) OR (ps_catchmask ?sp sig OR sigmask sig)"
      "cpu_signal (e_sigcode env) sig (p_sigmask ?sp) t (g_mach g2 p) = (0, u, g_mach g3 p)" "g_sigs g3 p = u\<lparr>ps_code := 0\<rparr>"
    using psig_caught [OF assms(5,4) act assms(6)] on s1 assms(3) by auto
  have fb: "frame_base sig t (g_mach g2 p) = frame_base sig (g_sigs g2 p) (g_mach g2 p)" by (simp add: frame_base_def on_sigstack_def t(1-3))
  have "p_sigmask ?sp AND NOT sigcantmask = p_sigmask ?sp"
    using assms(1) by (intro bit_word_eqI) (auto simp: and_zero_iff bit_and_iff bit_not_iff)
  moreover obtain n where "cpu_signalreturn (g_sigs h p) (g_mach h p) =
      (EJUSTRETURN, (g_sigs h p)\<lparr>ps_onstack := ps_onstack t AND 1, p_sigmask := p_sigmask ?sp AND NOT sigcantmask\<rparr>, n)"
    using frame_restored [OF t(5) assms(8) assms(9) [folded fb] assms(10)] by blast
  ultimately have "\<exists>k. sigreturn p h = (EJUSTRETURN, k) \<and> p_sigmask (g_sigs k p) = p_sigmask ?sp" by (simp add: sigreturn_def)
  moreover have "p_sigmask (g_sigs g3 p) = p_sigmask t" using cpu_signal_sp [OF t(5)] t(6) by auto
  ultimately show ?thesis using t(4) by simp
qed

section \<open>An example\<close>

theorem kill_permitted_witness:
  "\<exists>g'. kill 12 1 15 gsys_demo = Done (0, g') \<and> (\<forall>q. g_sigs g' q \<noteq> g_sigs gsys_demo q \<longrightarrow> q = 11 \<or> q = 10)"
proof -
  have f: "pfind 1 (g_jobs gsys_demo) = Some 11" by (simp add: pfind_def PIDHASH_def jsys_demo_def jproc_demo_def)
  have "cansignal 12 11 15 gsys_demo = Done True"
    by (simp add: cansignal_def get_creds_def get_pcred_def xsys_demo_def fsys_demo_def pcred_demo_def sigCONT_def)
  moreover obtain g' where g': "psignal 11 15 gsys_demo = Done g'"
    using psignal_plain_ok [OF gsys_demo_ok, of 15 11] by (auto simp: sigprop_def sigprops_def sa_defs)
  ultimately have k: "kill 12 1 15 gsys_demo = Done (0, g')" using f by (simp add: kill_def NSIG_def)
  have "\<forall>q. g_sigs g' q \<noteq> g_sigs gsys_demo q \<longrightarrow> (\<exists>c. (c = q \<or> parent (g_jobs gsys_demo) c = Some q) \<and> may_kill 12 1 15 gsys_demo c)"
    using kill_permitted [OF k] by simp
  then show ?thesis using k f by (auto simp: may_kill_def kill_selects_def jsys_demo_views split: if_splits)
qed

theorem issig_least_witness:
  "\<exists>h. issig 12 (upd_sig 12 (\<lambda>sp. sp\<lparr>p_sig := sigmask 20 OR sigmask 15\<rparr>) gsys_demo) = Done (Issig 15 h)"
proof -
  let ?g = "upd_sig 12 (\<lambda>sp. sp\<lparr>p_sig := sigmask 20 OR sigmask 15\<rparr>) gsys_demo"
  let ?sp = "g_sigs ?g 12"
  have b: "bit (p_sig ?sp) n \<longleftrightarrow> n = 19 \<or> n = 14" for n by (simp add: bit_or_iff sigmask_bit)
  have w: "sig_wf ?sp" by (rule sig_wf_cong [OF sigproc_init_ok(1)]) (simp_all add: sigproc_init_def sigproc_demo_def bit_or_iff sigmask_bit)
  have t: "\<not> (p_strc (g_x ?g) 12 \<and> \<not> p_sppwait (g_x ?g) 12)" "\<not> p_sppwait (g_x ?g) 12" by (simp_all add: xsys_demo_def)
  obtain a and G :: pgrp where G: "get_pgrp 12 (g_jobs ?g) = Done (a, G)" by (simp add: get_pgrp_def jsys_demo_views jsys_demo_def jproc_demo_def)
  obtain s h where r: "issig 12 ?g = (if s \<noteq> 0 \<and> halts ?sp (pg_jobc G) (s - 1) then kmap (Stopped s) (stop 12 s h) else Done (Issig s h))"
      "if \<exists>n. deliverable ?sp (pg_jobc G) False n then 0 < s \<and> deliverable ?sp (pg_jobc G) False (s - 1) \<and> (\<forall>n. deliverable ?sp (pg_jobc G) False n \<longrightarrow> s - 1 \<le> n) else s = 0"
    using issig_least [OF w t(1) G refl] unfolding Eq_FalseI [OF t(2)] by blast
  have tk: "takes ?sp 14" "\<not> halts ?sp (pg_jobc G) 14"
    by (simp_all add: takes_def halts_def sigproc_init_def sigproc_demo_def SIG_DFL_def SIG_IGN_def sigprop_def sigprops_def sa_defs)
  have "deliverable ?sp (pg_jobc G) False 14" using b [of 14] tk by (simp add: deliverable_def looked_at_def sigproc_init_def sigproc_demo_def)
  then have "0 < s" "deliverable ?sp (pg_jobc G) False (s - 1)" "s - 1 \<le> 14" using r(2) by (auto split: if_splits)
  then have "s = 15" using b [of "s - 1"] by (auto simp: deliverable_def looked_at_def)
  then show ?thesis using r(1) tk by auto
qed

theorem sigaction_reports_witness:
  "\<exists>g'. sigaction genv_demo 12 15 (Some (Inr \<lparr>sa_handler = 4096, sa_mask = -1, sa_flags = 2\<rparr>)) None gsys_demo = (0, g') \<and>
    sa_handler (sigact_get 15 (g_sigs g' 12)) = 4096 \<and> sa_flags (sigact_get 15 (g_sigs g' 12)) AND SA_RESTART = 2"
proof -
  let ?sa = "\<lparr>sa_handler = 4096, sa_mask = -1, sa_flags = 2\<rparr>"
  have "0 < (15 :: int)" "15 < int NSIG" "copy_if None (sigact_get (nat 15) (g_sigs gsys_demo 12)) = 0" "nat 15 \<noteq> sigKILL" "nat 15 \<noteq> SIGSTOP"
    "sa_handler ?sa \<in> {SIG_DFL, SIG_IGN, BADSIG} \<or> e_access genv_demo 12 (sa_handler ?sa)"
    by (simp_all add: sig_defs copy_if_def genv_demo_def)
  from sigaction_reports [OF this] show ?thesis by (auto simp: SA_RESTART_def)
qed

theorem sigsuspend_mask_witness:
  "\<exists>g1 g3 h k. sigsuspend 96 12 5 (upd_sig 12 (sigact_set 15 \<lparr>sa_handler = 4096, sa_mask = 0, sa_flags = 0\<rparr>) gsys_demo) = Done g1 \<and>
    psig genv_demo 15 (upd_sig 12 (\<lambda>sp. sp\<lparr>p_sig := sigmask 15\<rparr>) g1) = Done g3 \<and> bit (p_sigmask (g_sigs g3 12)) 14 \<and>
    sigreturn 12 h = (EJUSTRETURN, k) \<and> p_sigmask (g_sigs k 12) = 0"
proof -
  let ?g = "upd_sig 12 (sigact_set 15 \<lparr>sa_handler = 4096, sa_mask = 0, sa_flags = 0\<rparr>) gsys_demo"
  let ?sp = "g_sigs ?g 12"
  have sp: "p_sigmask ?sp = 0" "ps_sigact ?sp 15 = 4096" "ps_flags ?sp = 0" "ps_catchmask ?sp 15 = 0" "ps_onstack ?sp = 0" "ps_sigonstack ?sp = 0"
    by (simp_all add: sigact_set_def Let_def sigproc_init_def sigproc_demo_def set_if_def SA_ONSTACK_def)
  have off: "\<not> on_rq 12 xsched_demo" by (simp add: on_rq_iff xsched_demo_def)
  obtain g1 where g1: "sigsuspend 96 12 5 ?g = Done g1" "g_curproc g1 = 12" "g_mach g1 12 = mach_demo" "\<not> p_swexit (g_proc g1 12)"
      "g_sigs g1 12 = ?sp\<lparr>ps_oldmask := 0, ps_flags := 1, p_sigmask := 5\<rparr>"
    using off sp
    by (auto simp: sigsuspend_def tsleep_enqueue_def Let_def SA_OLDMASK_def sigcantmask_def sigmask_def sig_defs xsched_demo_def sproc_demo_def kmap_Done_iff)
  let ?g2 = "upd_sig 12 (\<lambda>sp. sp\<lparr>p_sig := sigmask 15\<rparr>) g1"
  define t where "t = block_more 15 ((g_sigs ?g2 12)\<lparr>p_sig := 0, ps_flags := 0\<rparr>)"
  have t: "ps_sigact t 15 = 4096" "ps_onstack t = 0" "ps_sigonstack t = 0" using g1(5) sp by (simp_all add: t_def block_more_def)
  have fb: "frame_base 15 sp mach_demo = 65464" if "ps_sigonstack sp = 0" for sp
    using that by (simp add: mach_demo_def frame_base_def on_sigstack_def sf_size_def reg_defs)
  have "\<exists>sp'. cpu_signal (replicate 16 144) 15 0 t mach_demo = (0, sp', entered_frame (replicate 16 144) 15 0 t mach_demo)"
    by (rule cpu_signal_mapped) (simp_all add: fb t, simp_all add: mach_demo_def BADSIG_def sf_size_def USRSTACK_def)
  then obtain u where c: "cpu_signal (e_sigcode genv_demo) 15 0 t mach_demo = (0, u, entered_frame (replicate 16 144) 15 0 t mach_demo)"
    by (auto simp: genv_demo_def)
  let ?ga = "clrsig 12 (sigmask 15) ?g2"
  define gb where "gb = count_signal 12 (upd_sig 12 (block_more 15) (upd_sig 12 (\<lambda>sp. sp\<lparr>ps_flags := ps_flags sp AND NOT SA_OLDMASK\<rparr>) ?ga))"
  have b: "g_sigs gb 12 = t" "g_mach gb 12 = mach_demo" "g_curproc gb = 12" "\<not> p_swexit (g_proc gb 12)"
    using g1 by (simp_all add: gb_def count_signal_def upd_r_def t_def SA_OLDMASK_def)
  have conds: "g_curproc ?g2 = 12" "ps_sigact (g_sigs ?g2 12) 15 = 4096" "(4096 :: u32) \<noteq> SIG_DFL" "(15 :: nat) \<noteq> 0"
    "\<not> ((4096 :: u32) = SIG_IGN \<or> p_sigmask (g_sigs ?ga 12) AND sigmask 15 \<noteq> 0)" "ps_flags (g_sigs ?ga 12) AND SA_OLDMASK \<noteq> 0"
    "ps_oldmask (g_sigs ?ga 12) = 0"
    using g1(2,5) sp(2) by (simp_all add: SIG_DFL_def SIG_IGN_def sig_bit SA_OLDMASK_def)
  define g3 where "g3 = upd_sig 12 (\<lambda>sp. sp\<lparr>ps_code := 0\<rparr>)
      (gb\<lparr>g_sigs := (g_sigs gb)(12 := u), g_mach := (g_mach gb)(12 := entered_frame (replicate 16 144) 15 0 t mach_demo)\<rparr>)"
  have "send_frame genv_demo 12 15 0 gb =
      Done (0, gb\<lparr>g_sigs := (g_sigs gb)(12 := u), g_mach := (g_mach gb)(12 := entered_frame (replicate 16 144) 15 0 t mach_demo)\<rparr>)"
    using b c by (simp add: send_frame_def)
  then have "psig genv_demo 15 ?g2 = Done g3"
    unfolding psig_def Let_def by (simp only: conds if_False if_True gb_def [symmetric] g3_def simp_thms kbind.simps prod.case)
  moreover have "g_mach g3 12 = entered_frame (replicate 16 144) 15 0 t mach_demo" "\<not> p_swexit (g_proc g3 12)"
    using b(4) by (simp_all add: g3_def)
  ultimately have g3: "psig genv_demo 15 ?g2 = Done g3" "g_mach g3 12 = entered_frame (replicate 16 144) 15 0 t mach_demo" "\<not> p_swexit (g_proc g3 12)"
    by blast+
  let ?h = "g3\<lparr>g_mach := \<lambda>_. setreg sESP 65464 (g_mach g3 12)\<rparr>"
  have "handler_back (frame_base 15 (g_sigs ?g2 12) (g_mach ?g2 12)) (g_mach g3 12) (g_mach ?h 12)"
    using g1(3,5) sp fb by (simp add: handler_back_def)
  moreover have "user_flags (saved (g_mach ?g2 12) tEFLAGS sEFLAGS)"
    using g1(3) by (simp add: user_flags_def saved_def mach_demo_def reg_defs PSL_MBZ_def PSL_MBO_def)
  ultimately have "p_sigmask (g_sigs g3 12) = (5 AND NOT sigcantmask) OR (ps_catchmask ?sp 15 OR sigmask 15) \<and>
      (\<exists>k. sigreturn 12 ?h = (EJUSTRETURN, k) \<and> p_sigmask (g_sigs k 12) = p_sigmask ?sp)"
    using sigsuspend_mask [of ?g 12 96 5 g1 ?g2 "sigmask 15" genv_demo 15 g3 ?h] g1 g3 sp by (simp add: SIG_DFL_def SIG_IGN_def genv_demo_def)
  then show ?thesis using g1(1) g3(1) sp(1) by (auto simp: bit_or_iff sigmask_bit)
qed

end
