(* ===== verification/Spec2Isabelle.thy ===== *)
theory Spec2Isabelle
  imports Prelude Lock Callout Time Synch Clock Lockf Namcache Uio Cred Pgrp Resource Fork Exit Exit_Props Filedesc Filedesc_Props Filedesc_Ops Lifecycle Rlist Ring Disksort Bpf Bpf_Safety Bpf_Dev Bpf_Queue Bpf_Lists Malloc Malloc_Props Sigframe Signal Signal_Inv Signal_Props Signal_Calls
begin

text \<open>
  A verification development for the 386BSD kernel.

  The sources are under \<open>src/usr/src/kernel\<close>; file names below are relative to it.  The kernel is a
  single-processor Unix kernel: system calls run in the context of a process until they sleep, the
  clock interrupt drives timeouts and priorities, and the modules share tables linked by pointers.
  The development models the machine-independent core: processes and what they own, sleeping and
  scheduling, time, the services other modules are built on, and the packet filter machine.

  \<^bold>\<open>Modelling.\<close>  A structure is a record, an enumeration a datatype, a bit field or a counter that
  can wrap a word of its width; integers that only ever hold what callers pass in are \<open>int\<close>, and the
  theory that does so says why.  Shared structures that are reached through pointers are stores, maps
  from addresses to records, and an address that \<open>MALLOC\<close> returns is an argument.  Chains of links are
  lists in link order.  A routine returns \<open>kres\<close> (\<open>Prelude\<close>): \<open>Done\<close>, \<open>Panic\<close> with the message, or
  \<open>Fault\<close> for a reference through a null or dangling pointer; error numbers are values.  Copies to and
  from user space, and callbacks, are parameters.  A loop whose end depends on the data is a
  \<open>partial_function\<close> with value \<open>None\<close> for no end, and the theorems show that it returns
  (\<open>inferior\<close>, \<open>pid_search\<close>, \<open>catb\<close>, the reload loop of \<open>realitexpire\<close>, the loop of \<open>softclock\<close>), or a
  \<open>function\<close> with a termination proof (\<open>wakeup\<close>, \<open>cache_purgevfs\<close>, \<open>uiomove\<close>, the searches of \<open>Lockf\<close>).  The deadlock check of
  \<open>lf_setlock\<close> follows at most \<open>maxlockdepth\<close> (50) links, as the code does.  The packet filter
  runs with the length of the program as its bound: a program whose jumps go forward executes each
  instruction at most once.

  \<^bold>\<open>Theories.\<close>
  \<^item> \<open>Prelude\<close>: machine words, \<open>kres\<close>, error numbers, shared lemmas.
  \<^item> \<open>Interfaces\<close>: the contracts as locales: a pool of extents, a bounded queue of characters, a
    timer queue, a reference-counted store.  \<open>Rlist\<close>, \<open>Ring\<close>, \<open>Callout\<close> and \<open>Filedesc_Props\<close> (credentials,
    open files) interpret them on the models of the code.
  \<^item> \<open>Lock\<close> (\<open>kern/lock.c\<close>): sleep locks, as segments between sleeps, interleaved by a step relation
    over any number of threads: exclusion, and no lost wakeup.
  \<^item> \<open>Synch\<close> (\<open>kern/synch.c\<close>, the inline \<open>setrq\<close> and \<open>remrq\<close>): sleep queues, run queues, priorities;
    \<open>wakeup\<close>, timed sleeps and the once-a-second recomputation keep the queues right.
  \<^item> \<open>Callout\<close>, \<open>Time\<close>, \<open>Clock\<close> (\<open>kern/clock.c\<close>, \<open>kern/time.c\<close>): the timeout queue refines a list of
    absolute expiries; interval timers, \<open>adjtime\<close>, and the clock interrupt that joins them with
    \<open>Synch\<close>: every tick is charged once and no due timeout is lost.
  \<^item> \<open>Cred\<close> (\<open>kern/cred.c\<close>, \<open>kern/priv.c\<close>): reference-counted credentials; the system calls refine
    private copies of the ids, and an ordinary user cannot become another.
  \<^item> \<open>Pgrp\<close> (\<open>kern/proc.c\<close>): process groups, sessions and the job control counts.
  \<^item> \<open>Resource\<close> (\<open>kern/resource.c\<close>): priorities, copy-on-write limits, usage.
  \<^item> \<open>Fork\<close> (\<open>kern/fork.c\<close>): process creation over \<open>Pgrp\<close>, \<open>Cred\<close>, \<open>Resource\<close> and \<open>Synch\<close>: all their
    invariants together are kept, if the number that the search finds is unused; it is, but for one case.
  \<^item> \<open>Exit\<close>, \<open>Exit_Props\<close> (\<open>kern/exit.c\<close>): process termination and waiting over the same tables; \<open>life\<close> is
    the step relation of forks, exits, waits and scheduling, and \<open>x_inv\<close> its invariant.  It leaves out
    the forks that are given a number in use, and starts with \<open>init\<close> alone in its session (\<open>settled\<close>).
  \<^item> \<open>Sigframe\<close> (\<open>kern/i386/cpu.c\<close>): the frame a signal leaves on the user stack, byte by byte, and the
    return through it, which restores what was interrupted.
  \<^item> \<open>Signal\<close>, \<open>Signal_Inv\<close>, \<open>Signal_Props\<close>, \<open>Signal_Calls\<close> (\<open>kern/sig.c\<close>): signals over the processes of \<open>Exit\<close>.
    \<open>sig_contract\<close> is the contract of a property of the signal state, with two instances, the
    dispositions and the pending signals, that every history (\<open>sig_step\<close>) keeps; sending a signal
    returns, \<open>SIGKILL\<close> cannot be escaped, \<open>SIGCONT\<close> resumes, \<open>kill\<close>
    reaches only permitted processes, and \<open>sigsuspend\<close> gives back the mask it replaced.
  \<^item> \<open>Filedesc\<close>, \<open>Filedesc_Props\<close>, \<open>Filedesc_Ops\<close> (\<open>kern/descrip.c\<close>): tables of descriptors and open files.
    A process sees a partial map; \<open>fd_ok\<close> says that every file is counted exactly; the calls refine
    updates of the map, and two inputs overrun or truncate a table.
  \<^item> \<open>Lifecycle\<close>: processes, credentials and open files together; in every history (\<open>klife\<close>) a file is
    open exactly while a live process has a descriptor for it.  Besides the forks above it leaves out the
    forks whose copy of the table is cut short, and overflows of the counts of references.
  \<^item> \<open>Lockf\<close> (\<open>ufs/ufs_lockf.c\<close>): advisory record locks as sets of bytes.
  \<^item> \<open>Namcache\<close> (\<open>kern/fs/namcache.c\<close>): the name cache and its LRU and hash chains.
  \<^item> \<open>Uio\<close> (\<open>kern/subr/uio.c\<close>): scatter/gather transfers.
  \<^item> \<open>Malloc\<close>, \<open>Malloc_Props\<close> (\<open>kern/malloc.c\<close>): the kernel memory allocator, with its free lists in the
    memory itself; \<open>kmem_hist\<close> are the histories in which \<open>kmem_alloc\<close> hands out fresh pages, and its
    invariant keeps blocks apart, loses none, and makes every release succeed.
  \<^item> \<open>Rlist\<close>, \<open>Ring\<close>, \<open>Disksort\<close> (\<open>kern/subr\<close>): resource lists, ring buffers, the disk queue sort.
  \<^item> \<open>Bpf\<close>, \<open>Bpf_Safety\<close> (\<open>bpf/bpf_filter.c\<close>): the packet filter machine and its validator.
  \<^item> \<open>Bpf_Dev\<close>, \<open>Bpf_Queue\<close>, \<open>Bpf_Lists\<close> (\<open>bpf/bpf.c\<close>): the device around the filter: buffers whose bytes
    readers parse back into the packets that were offered, in order, and the lists of listeners; and
    the inputs on which the device hangs, panics or answers wrongly.

  \<^bold>\<open>How the parts interact.\<close>  \<open>Clock\<close> runs the timeouts of \<open>Callout\<close>, the timers of \<open>Time\<close> and the
  priorities of \<open>Synch\<close> in one interrupt.  \<open>Resource\<close> reads the credentials of \<open>Cred\<close> and the groups of
  \<open>Pgrp\<close> and sets priorities in \<open>Synch\<close>.  \<open>Fork\<close> adds a process to all of them at once; its invariant
  says that they list the same processes.  \<open>Exit\<close> takes a process out of the groups, limits, queues and
  hash chains, hands its children to \<open>init\<close> and wakes the parent, whose \<open>wait4\<close> frees the entry.
  \<open>Filedesc\<close> counts the credentials that open files hold in the store of \<open>Cred\<close>; \<open>Lifecycle\<close> joins the
  copy of a table at \<open>Fork\<close> and its release at \<open>Exit\<close> with the tables of processes.  \<open>Signal\<close> makes
  processes run and sleep through \<open>Synch\<close>, asks \<open>Pgrp\<close> for the members of a group and \<open>Cred\<close> for the ids of
  a sender, and ends a process through \<open>Exit\<close>; the signals that \<open>Pgrp\<close>, \<open>Exit\<close> and \<open>Clock\<close> send themselves
  are events there.  \<open>Bpf_Dev\<close> runs the
  filters of \<open>Bpf\<close> on every packet of an interface.

  \<^bold>\<open>Not modelled.\<close>  Virtual memory, page tables and traps; device drivers; the buffer cache, vnodes and
  the file systems above them; sockets and the protocols; terminals; process tracing; the delivery of
  the signals that other modelled parts record as events; user programs and libraries.  They work on device registers, on page tables,
  or through tables of function pointers into one another, and would be parameters here.
\<close>

end
